(* ===== verification/OS_Prelude.thy ===== *)
theory OS_Prelude
  imports Main "HOL-Library.Word"
begin

text \<open>
  Shared vocabulary of the development: the outcome of a kernel operation (a value, a
  panic or a sleep), bytes and byte ranges of fixed-size arrays, little-endian fields of
  on-disk structures, 32-bit wrap-around written out on \<open>nat\<close>, and the generic lemmas
  on these that every component uses.
\<close>

section \<open>Outcomes\<close>

text \<open>
  A kernel function either returns, calls \<open>panic\<close> (which never returns), or gives up
  the processor in \<open>sleep\<close> waiting for another process. The model runs one kernel
  path at a time, so an operation that has to wait for another process has the outcome
  \<open>Sleep\<close>.
\<close>

datatype 'a outcome = Ret 'a | Panic string | Sleep

primrec kbind :: "'a outcome \<Rightarrow> ('a \<Rightarrow> 'b outcome) \<Rightarrow> 'b outcome" where
  "kbind (Ret x) f = f x"
| "kbind (Panic m) f = Panic m"
| "kbind Sleep f = Sleep"

primrec returns :: "'a outcome \<Rightarrow> bool" where
  "returns (Ret x) = True"
| "returns (Panic m) = False"
| "returns Sleep = False"

named_theorems outcome_simps \<open>rules that run the outcome monad\<close>

lemma kbind_eq_Ret_iff [outcome_simps]:
  "kbind m f = Ret y \<longleftrightarrow> (\<exists>x. m = Ret x \<and> f x = Ret y)"
  by (cases m) auto

lemma kbind_eq_Panic_iff:
  "kbind m f = Panic e \<longleftrightarrow> m = Panic e \<or> (\<exists>x. m = Ret x \<and> f x = Panic e)"
  by (cases m) auto

lemma kbind_assoc: "kbind (kbind m f) g = kbind m (\<lambda>x. kbind (f x) g)"
  by (cases m) auto

lemma kbind_Ret_right [simp]: "kbind m Ret = m"
  by (cases m) auto

lemma returns_iff: "returns m \<longleftrightarrow> (\<exists>x. m = Ret x)"
  by (cases m) auto

lemma kbind_cong_Ret: "(\<And>x. m = Ret x \<Longrightarrow> f x = g x) \<Longrightarrow> kbind m f = kbind m g"
  by (cases m) auto

lemma kbind_cong [fundef_cong]:
  "m = n \<Longrightarrow> (\<And>x. n = Ret x \<Longrightarrow> f x = g x) \<Longrightarrow> kbind m f = kbind n g"
  by (cases n) auto

text \<open>A \<open>for\<close> loop over the values of its counter, with a body that changes the state.\<close>

primrec kfor :: "'x list \<Rightarrow> ('x \<Rightarrow> 's \<Rightarrow> 's outcome) \<Rightarrow> 's \<Rightarrow> 's outcome" where
  "kfor [] f s = Ret s"
| "kfor (x # xs) f s = kbind (f x s) (kfor xs f)"

lemma kfor_append: "kfor (xs @ ys) f s = kbind (kfor xs f s) (kfor ys f)"
proof (induction xs arbitrary: s)
  case (Cons x xs)
  then show ?case by (cases "f x s") simp_all
qed simp

section \<open>Bytes and byte ranges\<close>

type_synonym byte = "8 word"

text \<open>
  \<open>slice xs off n\<close> reads \<open>n\<close> elements from offset \<open>off\<close>; \<open>overwrite xs off ys\<close> is the
  array after \<open>memmove (xs + off, ys, length ys)\<close>.
\<close>

definition slice :: "'a list \<Rightarrow> nat \<Rightarrow> nat \<Rightarrow> 'a list" where
  "slice xs off n = take n (drop off xs)"

definition overwrite :: "'a list \<Rightarrow> nat \<Rightarrow> 'a list \<Rightarrow> 'a list" where
  "overwrite xs off ys = take off xs @ ys @ drop (off + length ys) xs"

lemma length_slice [simp]: "off + n \<le> length xs \<Longrightarrow> length (slice xs off n) = n"
  by (simp add: slice_def)

lemma length_overwrite [simp]:
  "off + length ys \<le> length xs \<Longrightarrow> length (overwrite xs off ys) = length xs"
  by (simp add: overwrite_def)

lemma nth_slice [simp]: "off + n \<le> length xs \<Longrightarrow> i < n \<Longrightarrow> slice xs off n ! i = xs ! (off + i)"
  by (simp add: slice_def)

lemma nth_overwrite:
  assumes "off + length ys \<le> length xs" and "i < length xs"
  shows "overwrite xs off ys ! i =
    (if off \<le> i \<and> i < off + length ys then ys ! (i - off) else xs ! i)"
  using assms by (auto simp: overwrite_def nth_append min_def)

lemma slice_overwrite_same [simp]:
  "off + length ys \<le> length xs \<Longrightarrow> slice (overwrite xs off ys) off (length ys) = ys"
  by (simp add: slice_def overwrite_def)

lemma slice_overwrite_disjoint:
  assumes "off + length ys \<le> length xs" and "o2 + n \<le> length xs"
    and "o2 + n \<le> off \<or> off + length ys \<le> o2"
  shows "slice (overwrite xs off ys) o2 n = slice xs o2 n"
  using assms by (intro nth_equalityI) (auto simp: nth_overwrite)

lemma overwrite_slice_id: "off + n \<le> length xs \<Longrightarrow> overwrite xs off (slice xs off n) = xs"
  by (intro nth_equalityI) (auto simp: nth_overwrite)

lemma slice_full [simp]: "slice xs 0 (length xs) = xs"
  by (simp add: slice_def)

lemma overwrite_Nil [simp]: "overwrite xs off [] = xs"
  by (simp add: overwrite_def)

section \<open>Little-endian fields\<close>

primrec le_enc :: "nat \<Rightarrow> nat \<Rightarrow> byte list" where
  "le_enc 0 v = []"
| "le_enc (Suc k) v = of_nat (v mod 256) # le_enc k (v div 256)"

primrec le_dec :: "byte list \<Rightarrow> nat" where
  "le_dec [] = 0"
| "le_dec (b # bs) = unat b + 256 * le_dec bs"

lemma length_le_enc [simp]: "length (le_enc k v) = k"
  by (induction k arbitrary: v) auto

lemma unat_byte_of_nat: "unat (of_nat (v mod 256) :: byte) = v mod 256"
  by (simp add: unat_of_nat take_bit_eq_mod)

lemma unat_byte_less: "unat (b :: byte) < 256"
  using unsigned_less [of b, where 'a = nat] by simp

lemma of_int_byte_mod: "(of_int (c mod 256) :: byte) = of_int c"
  by (simp add: word_of_int_eq_iff take_bit_eq_mod)

lemma unat_of_nat64: "n < 18446744073709551616 \<Longrightarrow> unat (of_nat n :: 64 word) = n"
  by (simp add: unat_of_nat take_bit_eq_mod)

lemma unat_of_nat32: "n < 4294967296 \<Longrightarrow> unat (of_nat n :: 32 word) = n"
  by (simp add: unat_of_nat take_bit_eq_mod)

lemma word_of_nat_0_small: "n < 4294967296 \<Longrightarrow> (of_nat n :: 32 word) = 0 \<longleftrightarrow> n = 0"
  by (auto simp: word_of_nat_eq_0_iff dest: dvd_imp_le)

lemma le_dec_enc: "v < 256 ^ k \<Longrightarrow> le_dec (le_enc k v) = v"
proof (induction k arbitrary: v)
  case 0
  then show ?case by simp
next
  case (Suc k)
  then have "v div 256 < 256 ^ k" by (simp add: less_mult_imp_div_less mult.commute)
  with Suc.IH show ?case by (simp add: unat_byte_of_nat)
qed

lemma le_dec_bound: "le_dec bs < 256 ^ length bs"
proof (induction bs)
  case (Cons b bs)
  have "unat b < 256" by (rule unat_byte_less)
  with Cons show ?case by simp
qed simp

lemma le_enc_dec: "le_enc (length bs) (le_dec bs) = bs"
proof (induction bs)
  case (Cons b bs)
  have "unat b < 256" by (rule unat_byte_less)
  then have "(unat b + 256 * le_dec bs) mod 256 = unat b"
    and "(unat b + 256 * le_dec bs) div 256 = le_dec bs" by simp_all
  with Cons show ?case by simp
qed simp

lemma le_dec_inject: "length as = length bs \<Longrightarrow> le_dec as = le_dec bs \<Longrightarrow> as = bs"
  by (metis le_enc_dec)

lemma le_dec_zeros [simp]: "le_dec (replicate k 0) = 0"
  by (induction k) auto

section \<open>Rounding up\<close>

lemma div_round_up:
  assumes "0 < d"
  shows "(n + (d - 1)) div d = n div d + (if n mod d = 0 then 0 else (1 :: nat))"
proof -
  have "n + (d - 1) = (n mod d + (d - 1)) + d * (n div d)" by simp
  then have "(n + (d - 1)) div d = (n mod d + (d - 1)) div d + n div d"
    using assms by (metis add.commute div_mult_self2 not_gr_zero)
  moreover have "(n mod d + (d - 1)) div d = 1" if "n mod d \<noteq> 0"
  proof -
    have "n mod d + (d - 1) = d + (n mod d - 1)" using that assms by simp
    moreover have "n mod d - 1 < d" using assms by (metis less_imp_diff_less mod_less_divisor)
    ultimately show ?thesis using assms by (simp only: div_add_self1 div_less neq0_conv)
  qed
  moreover have "(d - 1) div d = 0" using assms by simp
  ultimately show ?thesis by auto
qed

section \<open>32-bit arithmetic on natural numbers\<close>

text \<open>
  The kernel's \<open>uint\<close> is kept as a \<open>nat\<close> below \<open>2 ^ 32\<close>. Where the source relies on
  wrap-around the model writes it out with \<open>u32\<close>; \<open>s32\<close> reads the value as an \<open>int\<close>.
\<close>

definition u32 :: "nat \<Rightarrow> nat" where
  "u32 x = x mod 4294967296"

definition s32 :: "nat \<Rightarrow> int" where
  "s32 x = (if x mod 4294967296 < 2147483648 then int (x mod 4294967296)
            else int (x mod 4294967296) - 4294967296)"

lemma u32_less [simp]: "u32 x < 4294967296"
  by (simp add: u32_def)

lemma u32_id [simp]: "x < 4294967296 \<Longrightarrow> u32 x = x"
  by (simp add: u32_def)

section \<open>Lists\<close>

lemma find_Some_in_set: "find P xs = Some x \<Longrightarrow> x \<in> set xs \<and> P x"
  by (induction xs) (auto split: if_splits)

lemma find_None_all: "find P xs = None \<longleftrightarrow> (\<forall>x \<in> set xs. \<not> P x)"
  by (induction xs) auto

lemma find_first_index:
  "find (\<lambda>i. P (xs ! i)) [0..<length xs] = Some i \<Longrightarrow>
   i < length xs \<and> P (xs ! i) \<and> (\<forall>j < i. \<not> P (xs ! j))"
  by (auto simp: find_Some_iff)

lemma find_upt_first: "find P [k..<n] = Some j \<Longrightarrow> k \<le> i \<Longrightarrow> i < j \<Longrightarrow> \<not> P i"
proof (induction "n - k" arbitrary: k)
  case (Suc m)
  have u: "[k..<n] = k # [Suc k..<n]" using Suc.hyps(2) by (intro upt_conv_Cons) simp
  have np: "\<not> P k" using Suc.prems unfolding u by (auto split: if_splits)
  show ?case
  proof (cases "i = k")
    case False
    then show ?thesis using Suc.hyps(1) [of "Suc k"] Suc.hyps(2) Suc.prems np unfolding u by simp
  qed (use np in simp)
qed simp

section \<open>Binary semaphores\<close>

text \<open>A binary semaphore shared by threads in the phases \<open>ph\<close>: its value is 0 while the one
  thread that took it is in a phase of \<open>P\<close>, and 1 otherwise.\<close>

definition sem_ok :: "nat \<Rightarrow> ('p \<Rightarrow> bool) \<Rightarrow> (nat \<Rightarrow> 'p) \<Rightarrow> bool" where
  "sem_ok v P ph \<longleftrightarrow> (\<forall>t u. P (ph t) \<longrightarrow> P (ph u) \<longrightarrow> t = u) \<and> v = (if \<exists>t. P (ph t) then 0 else 1)"

lemma sem_ok_keep: "sem_ok v P ph \<Longrightarrow> P p = P (ph t) \<Longrightarrow> sem_ok v P (ph(t := p))"
  by (auto simp: sem_ok_def split: if_splits)

lemma sem_ok_take: "sem_ok v P ph \<Longrightarrow> 0 < v \<Longrightarrow> P p \<Longrightarrow> sem_ok (v - 1) P (ph(t := p))"
  by (auto simp: sem_ok_def split: if_splits)

lemma sem_ok_put: "sem_ok v P ph \<Longrightarrow> P (ph t) \<Longrightarrow> \<not> P p \<Longrightarrow> sem_ok (v + 1) P (ph(t := p))"
  by (auto simp: sem_ok_def split: if_splits)

lemma sem_ok_unique: "sem_ok v P ph \<Longrightarrow> P (ph t) \<Longrightarrow> P (ph u) \<Longrightarrow> t = u"
  by (auto simp: sem_ok_def)

end
