(* ===== verification/C_String.thy ===== *)
theory C_String
  imports OS_Prelude
begin

text \<open>
  The string and memory routines of \<open>string.c\<close> (kernel) and \<open>ulib.c\<close> (user library).
  A pointer that is only read is the view of memory from that address, a function from
  the offset to the byte there; \<open>p++\<close> is the view from the next address. Routines
  that write take the whole memory, a function from addresses to bytes, and addresses.
  A loop that only stops at a NUL byte is a \<open>partial_function (option)\<close>: it does not
  return when the memory holds no NUL.
\<close>

type_synonym cptr = "nat \<Rightarrow> byte"
type_synonym mem = "nat \<Rightarrow> byte"

abbreviation view :: "mem \<Rightarrow> nat \<Rightarrow> cptr" where
  "view m a \<equiv> (\<lambda>i. m (a + i))"

definition advance :: "cptr \<Rightarrow> cptr" where
  "advance p = (\<lambda>i. p (Suc i))"

text \<open>A list of bytes seen as a C pointer: the bytes, then NULs.\<close>

definition cptr_of :: "byte list \<Rightarrow> cptr" where
  "cptr_of bs = (\<lambda>i. if i < length bs then bs ! i else 0)"

lemma advance_apply [simp]: "advance p i = p (Suc i)"
  by (simp add: advance_def)

section \<open>memset, memcmp, memmove\<close>

text \<open>
  \<open>memset\<close> fills word by word when both the address and the length are multiples of 4
  and byte by byte otherwise; \<open>stosl\<close> and \<open>stosb\<close> are the x86 string instructions.
\<close>

primrec stosb :: "mem \<Rightarrow> nat \<Rightarrow> byte \<Rightarrow> nat \<Rightarrow> mem" where
  "stosb m a c 0 = m"
| "stosb m a c (Suc n) = stosb (m(a := c)) (Suc a) c n"

primrec stosl :: "mem \<Rightarrow> nat \<Rightarrow> byte list \<Rightarrow> nat \<Rightarrow> mem" where
  "stosl m a w 0 = m"
| "stosl m a w (Suc n) =
     stosl (m(a := w ! 0, a + 1 := w ! 1, a + 2 := w ! 2, a + 3 := w ! 3)) (a + 4) w n"

definition memset :: "mem \<Rightarrow> nat \<Rightarrow> int \<Rightarrow> nat \<Rightarrow> mem" where
  "memset m dst c n =
     (if dst mod 4 = 0 \<and> n mod 4 = 0 then stosl m dst (replicate 4 (of_int (c mod 256))) (n div 4)
      else stosb m dst (of_int c) n)"

primrec memcmp :: "cptr \<Rightarrow> cptr \<Rightarrow> nat \<Rightarrow> int" where
  "memcmp s1 s2 0 = 0"
| "memcmp s1 s2 (Suc n) =
     (if s1 0 \<noteq> s2 0 then uint (s1 0) - uint (s2 0)
      else memcmp (advance s1) (advance s2) n)"

text \<open>The two loops of \<open>memmove\<close>: descending from the end, ascending from the start.\<close>

primrec memmove_down :: "mem \<Rightarrow> nat \<Rightarrow> nat \<Rightarrow> nat \<Rightarrow> mem" where
  "memmove_down m d s 0 = m"
| "memmove_down m d s (Suc n) = memmove_down (m(d - 1 := m (s - 1))) (d - 1) (s - 1) n"

primrec memmove_up :: "mem \<Rightarrow> nat \<Rightarrow> nat \<Rightarrow> nat \<Rightarrow> mem" where
  "memmove_up m d s 0 = m"
| "memmove_up m d s (Suc n) = memmove_up (m(d := m s)) (Suc d) (Suc s) n"

definition memmove :: "mem \<Rightarrow> nat \<Rightarrow> nat \<Rightarrow> nat \<Rightarrow> mem" where
  "memmove m dst src n =
     (if src < dst \<and> src + n > dst then memmove_down m (dst + n) (src + n) n
      else memmove_up m dst src n)"

definition memcpy :: "mem \<Rightarrow> nat \<Rightarrow> nat \<Rightarrow> nat \<Rightarrow> mem" where
  "memcpy m dst src n = memmove m dst src n"

text \<open>\<open>ulib.c\<close> has an ascending copy only.\<close>

definition ulib_memmove :: "mem \<Rightarrow> nat \<Rightarrow> nat \<Rightarrow> int \<Rightarrow> mem" where
  "ulib_memmove m vdst vsrc n = memmove_up m vdst vsrc (nat n)"

section \<open>Comparing and measuring strings\<close>

primrec strncmp :: "cptr \<Rightarrow> cptr \<Rightarrow> nat \<Rightarrow> int" where
  "strncmp p q 0 = 0"
| "strncmp p q (Suc n) =
     (if p 0 \<noteq> 0 \<and> p 0 = q 0 then strncmp (advance p) (advance q) n
      else uint (p 0) - uint (q 0))"

partial_function (option) strcmp :: "cptr \<Rightarrow> cptr \<Rightarrow> int option" where
  "strcmp p q =
     (if p 0 \<noteq> 0 \<and> p 0 = q 0 then strcmp (advance p) (advance q)
      else Some (uint (p 0) - uint (q 0)))"

partial_function (option) strlen_from :: "cptr \<Rightarrow> nat \<Rightarrow> nat option" where
  "strlen_from s n = (if s n = 0 then Some n else strlen_from s (Suc n))"

definition strlen :: "cptr \<Rightarrow> nat option" where
  "strlen s = strlen_from s 0"

text \<open>\<open>Some (Some k)\<close>: the pointer \<open>s + k\<close> is returned; \<open>Some None\<close>: a null pointer.\<close>

partial_function (option) strchr_from :: "cptr \<Rightarrow> byte \<Rightarrow> nat \<Rightarrow> nat option option" where
  "strchr_from s c k =
     (if s k = 0 then Some None
      else if s k = c then Some (Some k)
      else strchr_from s c (Suc k))"

definition strchr :: "cptr \<Rightarrow> byte \<Rightarrow> nat option option" where
  "strchr s c = strchr_from s c 0"

section \<open>Copying strings\<close>

primrec zero_fill :: "mem \<Rightarrow> nat \<Rightarrow> nat \<Rightarrow> mem" where
  "zero_fill m s 0 = m"
| "zero_fill m s (Suc n) = zero_fill (m(s := 0)) (Suc s) n"

text \<open>
  \<open>strncpy\<close>: copy up to and including a NUL, then fill the rest with NULs. The first loop
  has decremented \<open>n\<close> for the NUL it copied when the second one starts.
\<close>

primrec strncpy_nat :: "mem \<Rightarrow> nat \<Rightarrow> nat \<Rightarrow> nat \<Rightarrow> mem" where
  "strncpy_nat m s t 0 = m"
| "strncpy_nat m s t (Suc n) =
     (if m t \<noteq> 0 then strncpy_nat (m(s := m t)) (Suc s) (Suc t) n
      else zero_fill (m(s := 0)) (Suc s) n)"

definition strncpy :: "mem \<Rightarrow> nat \<Rightarrow> nat \<Rightarrow> int \<Rightarrow> mem" where
  "strncpy m s t n = strncpy_nat m s t (nat n)"

primrec safestrcpy_nat :: "mem \<Rightarrow> nat \<Rightarrow> nat \<Rightarrow> nat \<Rightarrow> mem" where
  "safestrcpy_nat m s t 0 = m(s := 0)"
| "safestrcpy_nat m s t (Suc n) =
     (if m t \<noteq> 0 then safestrcpy_nat (m(s := m t)) (Suc s) (Suc t) n
      else m(s := 0, Suc s := 0))"

definition safestrcpy :: "mem \<Rightarrow> nat \<Rightarrow> nat \<Rightarrow> int \<Rightarrow> mem" where
  "safestrcpy m s t n = (if n \<le> 0 then m else safestrcpy_nat m s t (nat n - 1))"

partial_function (option) strcpy :: "mem \<Rightarrow> nat \<Rightarrow> nat \<Rightarrow> mem option" where
  "strcpy m s t =
     (if m t \<noteq> 0 then strcpy (m(s := m t)) (Suc s) (Suc t) else Some (m(s := 0)))"

section \<open>atoi\<close>

text \<open>The accumulator is a 32-bit \<open>int\<close> and wraps.\<close>

partial_function (option) atoi_loop :: "cptr \<Rightarrow> 32 word \<Rightarrow> 32 word option" where
  "atoi_loop s n =
     (if 48 \<le> s 0 \<and> s 0 \<le> 57 then atoi_loop (advance s) (n * 10 + ucast (s 0) - 48)
      else Some n)"

definition atoi :: "cptr \<Rightarrow> int option" where
  "atoi s = map_option sint (atoi_loop s 0)"

section \<open>Lemmas on the memory routines\<close>

named_theorems mem_specs \<open>what each memory routine leaves at every address\<close>

lemma stosb_apply [mem_specs]:
  "stosb m d c n a = (if d \<le> a \<and> a < d + n then c else m a)"
  by (induction n arbitrary: m d) auto

lemma stosl_apply [mem_specs]:
  "stosl m d (replicate 4 c) n a = (if d \<le> a \<and> a < d + 4 * n then c else m a)"
proof (induction n arbitrary: m d)
  case (Suc n)
  then show ?case by auto
qed auto

lemma memmove_down_apply:
  "s < d \<Longrightarrow> memmove_down m (d + n) (s + n) n a =
     (if d \<le> a \<and> a < d + n then m (s + (a - d)) else m a)"
  by (induction n arbitrary: m) auto

lemma memmove_up_apply:
  "d \<le> s \<or> s + n \<le> d \<Longrightarrow> memmove_up m d s n a =
     (if d \<le> a \<and> a < d + n then m (s + (a - d)) else m a)"
proof (induction n arbitrary: m d s)
  case (Suc n)
  have "Suc d \<le> Suc s \<or> Suc s + n \<le> Suc d" using Suc.prems by auto
  note IH = Suc.IH [OF this, of "m(d := m s)"]
  show ?case
    unfolding memmove_up.simps IH using Suc.prems
    by (cases "Suc d \<le> a") (auto simp: Suc_diff_Suc less_Suc_eq_le)
qed auto

lemma zero_fill_apply [mem_specs]:
  "zero_fill m s n a = (if s \<le> a \<and> a < s + n then 0 else m a)"
  by (induction n arbitrary: m s) auto

lemma strncmp_zero_iff:
  "strncmp p q n = 0 \<longleftrightarrow> (\<forall>i < n. (\<forall>j < i. p j \<noteq> 0) \<longrightarrow> p i = q i)"
proof (induction n arbitrary: p q)
  case (Suc n)
  show ?case
  proof (cases "p 0 \<noteq> 0 \<and> p 0 = q 0")
    case True
    then have eq: "p 0 = q 0" and nz: "q 0 \<noteq> 0" by auto
    then have "strncmp p q (Suc n) = 0 \<longleftrightarrow>
        (\<forall>i < n. (\<forall>j < i. p (Suc j) \<noteq> 0) \<longrightarrow> p (Suc i) = q (Suc i))"
      by (simp add: Suc.IH)
    also have "\<dots> \<longleftrightarrow> (\<forall>i < Suc n. (\<forall>j < i. p j \<noteq> 0) \<longrightarrow> p i = q i)"
      using eq nz by (simp add: All_less_Suc2)
    finally show ?thesis .
  next
    case False
    then show ?thesis
      by (auto simp: All_less_Suc2 word_uint_eq_iff [symmetric])
  qed
qed simp

lemma strlen_from_Some:
  assumes "s (n + k) = 0" and "\<forall>i < k. s (n + i) \<noteq> 0"
  shows "strlen_from s n = Some (n + k)"
  using assms
proof (induction k arbitrary: n)
  case 0
  then show ?case by (simp add: strlen_from.simps)
next
  case (Suc k)
  then have "s n \<noteq> 0" by (metis add_0_right zero_less_Suc)
  moreover have "strlen_from s (Suc n) = Some (Suc n + k)"
    using Suc.prems by (intro Suc.IH) auto
  ultimately show ?case by (simp add: strlen_from.simps)
qed

lemma strlen_Some: "s k = 0 \<Longrightarrow> \<forall>i < k. s i \<noteq> 0 \<Longrightarrow> strlen s = Some k"
  using strlen_from_Some [of s 0 k] by (simp add: strlen_def)

lemma safestrcpy_nat_apply:
  assumes "s + n < t \<or> t + n < s"
  shows "\<exists>k \<le> n. safestrcpy_nat m s t n (s + k) = 0 \<and>
    (\<forall>i < k. safestrcpy_nat m s t n (s + i) = m (t + i) \<and> m (t + i) \<noteq> 0) \<and>
    (k < n \<longrightarrow> m (t + k) = 0) \<and>
    (\<forall>a. a < s \<or> s + n < a \<longrightarrow> safestrcpy_nat m s t n a = m a)"
  using assms
proof (induction n arbitrary: m s t)
  case (Suc n)
  show ?case
  proof (cases "m t = 0")
    case True
    then show ?thesis by (intro exI [of _ 0]) auto
  next
    case False
    let ?m = "m(s := m t)"
    have ne: "Suc s + n < Suc t \<or> Suc t + n < Suc s" using Suc.prems by auto
    from Suc.IH [OF this, of ?m] obtain k where k: "k \<le> n"
      and zero: "safestrcpy_nat ?m (Suc s) (Suc t) n (Suc s + k) = 0"
      and copy: "\<forall>i < k. safestrcpy_nat ?m (Suc s) (Suc t) n (Suc s + i) = ?m (Suc t + i)
        \<and> ?m (Suc t + i) \<noteq> 0"
      and stop: "k < n \<longrightarrow> ?m (Suc t + k) = 0"
      and frame: "\<forall>a. a < Suc s \<or> Suc s + n < a \<longrightarrow>
        safestrcpy_nat ?m (Suc s) (Suc t) n a = ?m a"
      by blast
    have src: "?m (Suc t + i) = m (t + Suc i)" if "i < Suc n" for i
      using Suc.prems that by auto
    have "safestrcpy_nat m s t (Suc n) (s + i) = m (t + i) \<and> m (t + i) \<noteq> 0" if "i < Suc k" for i
    proof (cases i)
      case 0
      then show ?thesis using False frame by simp
    next
      case (Suc j)
      then have "j < k" using that by simp
      then show ?thesis using copy src [of j] Suc False k by auto
    qed
    moreover have "safestrcpy_nat m s t (Suc n) (s + Suc k) = 0" using zero False by simp
    moreover have "Suc k < Suc n \<longrightarrow> m (t + Suc k) = 0" using stop src [of k] by auto
    moreover have "\<forall>a. a < s \<or> s + Suc n < a \<longrightarrow> safestrcpy_nat m s t (Suc n) a = m a"
      using frame False by auto
    ultimately show ?thesis using k by (intro exI [of _ "Suc k"]) auto
  qed
qed auto

text \<open>The digits of a number, most significant first, as the bytes \<open>atoi\<close> reads.\<close>

fun dec_value :: "nat \<Rightarrow> byte list \<Rightarrow> nat" where
  "dec_value acc [] = acc"
| "dec_value acc (d # ds) = dec_value (acc * 10 + (unat d - 48)) ds"

lemma atoi_loop_digits:
  assumes "\<forall>d \<in> set ds. 48 \<le> d \<and> d \<le> 57"
    and "\<forall>i < length ds. p i = ds ! i" and "\<not> (48 \<le> p (length ds) \<and> p (length ds) \<le> 57)"
  shows "atoi_loop p (of_nat acc) = Some (of_nat (dec_value acc ds))"
  using assms
proof (induction ds arbitrary: p acc)
  case Nil
  then show ?case by (subst atoi_loop.simps) auto
next
  case (Cons d ds)
  have d: "p 0 = d" "48 \<le> d" "d \<le> 57" using Cons.prems by force+
  have "unat (48 :: byte) \<le> unat d" using d(2) by (simp only: word_le_nat_alt)
  then have "(48 :: nat) \<le> unat d" by simp
  then have step: "of_nat acc * 10 + ucast d - 48 = (of_nat (acc * 10 + (unat d - 48)) :: 32 word)"
    by (simp add: of_nat_diff)
  have "atoi_loop (advance p) (of_nat (acc * 10 + (unat d - 48))) =
      Some (of_nat (dec_value (acc * 10 + (unat d - 48)) ds))"
    using Cons.prems by (intro Cons.IH) auto
  then have "atoi_loop (advance p) (of_nat acc * 10 + ucast d - 48) =
      Some (of_nat (dec_value (acc * 10 + (unat d - 48)) ds))" by (simp only: step)
  then show ?case using d by (subst atoi_loop.simps) simp
qed

lemma memset_apply: "memset m dst c n a = (if dst \<le> a \<and> a < dst + n then of_int c else m a)"
proof -
  have "(of_int (c mod 256) :: byte) = of_int c"
    by (simp add: of_int_byte_mod)
  moreover have "4 * (n div 4) = n" if "n mod 4 = 0" using that by presburger
  ultimately show ?thesis
    unfolding memset_def stosl_apply stosb_apply by (cases "dst mod 4 = 0 \<and> n mod 4 = 0") auto
qed

section \<open>Properties\<close>

text \<open>\<open>memmove\<close> copies its \<open>n\<close> source bytes to the destination as they were before
  the call, whether or not the two ranges overlap, and changes no other byte.\<close>

theorem memmove_correct:
  "memmove m dst src n a =
     (if dst \<le> a \<and> a < dst + n then m (src + (a - dst)) else m a)"
  by (auto simp: memmove_def memmove_down_apply memmove_up_apply)

text \<open>\<open>memset\<close> stores the low byte of \<open>c\<close> in exactly the \<open>n\<close> bytes from the
  destination, on the word-filling path and on the byte-filling path alike.\<close>

theorem memset_correct:
  "memset m dst c n a = (if dst \<le> a \<and> a < dst + n then of_int c else m a)"
by (rule memset_apply)

text \<open>\<open>safestrcpy\<close> with a positive size, on ranges that do not overlap, leaves a
  NUL-terminated prefix of the source string in the destination and writes nothing
  outside the \<open>n\<close> bytes it was given; a string that fits is copied whole.\<close>

theorem safestrcpy_correct:
  assumes "0 < n" and "s + nat n \<le> t \<or> t + nat n \<le> s"
  shows "\<exists>k < nat n. safestrcpy m s t n (s + k) = 0 \<and>
    (\<forall>i < k. safestrcpy m s t n (s + i) = m (t + i) \<and> m (t + i) \<noteq> 0) \<and>
    (k < nat n - 1 \<longrightarrow> m (t + k) = 0) \<and>
    (\<forall>a. a < s \<or> s + nat n \<le> a \<longrightarrow> safestrcpy m s t n a = m a)"
proof -
  have "s + (nat n - 1) < t \<or> t + (nat n - 1) < s" using assms by auto
  from safestrcpy_nat_apply [OF this, of m] obtain k where "k \<le> nat n - 1"
    and "safestrcpy_nat m s t (nat n - 1) (s + k) = 0"
    and "\<forall>i < k. safestrcpy_nat m s t (nat n - 1) (s + i) = m (t + i) \<and> m (t + i) \<noteq> 0"
    and "k < nat n - 1 \<longrightarrow> m (t + k) = 0"
    and "\<forall>a. a < s \<or> s + (nat n - 1) < a \<longrightarrow> safestrcpy_nat m s t (nat n - 1) a = m a"
    by blast
  with assms(1) show ?thesis
    by (intro exI [of _ k]) (auto simp: safestrcpy_def)
qed

theorem safestrcpy_correct_witness:
  "\<exists>k < nat 4. safestrcpy (\<lambda>a. if a = 10 then 97 else 0) 0 10 4 (0 + k) = 0"
proof -
  have "0 < (4 :: int)" and "(0 :: nat) + nat 4 \<le> 10 \<or> 10 + nat 4 \<le> (0 :: nat)" by simp_all
  from safestrcpy_correct [OF this] show ?thesis by blast
qed

text \<open>\<open>strncmp\<close> returns 0 exactly when the two strings agree on every position
  below \<open>n\<close> up to and including the first NUL.\<close>

theorem strncmp_correct:
  "strncmp p q n = 0 \<longleftrightarrow> (\<forall>i < n. p i = q i \<or> (\<exists>j < i. p j = 0))"
  by (auto simp: strncmp_zero_iff)

theorem strncmp_correct_witness: "strncmp (cptr_of [97, 98]) (cptr_of [97, 99]) 1 = 0"
  unfolding strncmp_correct by (simp add: cptr_of_def)

text \<open>\<open>atoi\<close> on a run of decimal digits followed by a non-digit returns their
  decimal value, when that value fits in an \<open>int\<close>.\<close>

theorem atoi_correct:
  assumes "\<forall>d \<in> set ds. 48 \<le> d \<and> d \<le> 57" and "dec_value 0 ds < 2147483648"
  shows "atoi (cptr_of ds) = Some (int (dec_value 0 ds))"
proof -
  have "atoi_loop (cptr_of ds) (of_nat 0) = Some (of_nat (dec_value 0 ds))"
    using assms(1) by (intro atoi_loop_digits) (auto simp: cptr_of_def)
  moreover have "sint (of_nat (dec_value 0 ds) :: 32 word) = int (dec_value 0 ds)"
    using assms(2) by (simp add: signed_of_nat signed_take_bit_int_eq_self)
  ultimately show ?thesis by (simp add: atoi_def)
qed

theorem atoi_correct_witness: "atoi (cptr_of [52, 50]) = Some 42"
  using atoi_correct [of "[52, 50]"] by simp

end
