(* ===== verification/Beavalloc.thy ===== *)
theory Beavalloc
  imports C_String
begin

text \<open>
  The heap allocator \<open>lab2/Lab2/beavalloc.c\<close>: a doubly linked list of block headers laid
  out in memory obtained with \<open>sbrk\<close>. Addresses and \<open>size_t\<close> values are 64-bit words,
  0 is \<open>NULL\<close>. Headers are kept in a map from addresses to header records and the
  user's bytes in a separate map, so a header is only changed by the assignments to it.
  Diagnostic printing is left out. A loop along \<open>next\<close> pointers is a
  \<open>partial_function (option)\<close>; \<open>None\<close> is a run that does not return (a cyclic list, or a
  fault on a null pointer).
\<close>

section \<open>State\<close>

type_synonym addr = "64 word"

record mem_block =
  mb_free :: bool
  mb_capacity :: "64 word"
  mb_size :: "64 word"
  mb_prev :: addr
  mb_next :: addr

text \<open>
  \<open>brk_cur\<close> is the program break and \<open>brk_max\<close> the highest break the system grants;
  \<open>lower_mem_bound\<close> and \<open>upper_mem_bound\<close> are the allocator's own records.
\<close>

record heap =
  blk :: "addr \<Rightarrow> mem_block"
  block_list_head :: addr
  block_list_tail :: addr
  lower_mem_bound :: addr
  upper_mem_bound :: addr
  brk_cur :: addr
  brk_max :: nat
  errno_nomem :: bool
  user_data :: "addr \<Rightarrow> byte"

definition header_size :: "64 word" where
  "header_size = 40"

abbreviation set_blk :: "addr \<Rightarrow> mem_block \<Rightarrow> heap \<Rightarrow> heap" where
  "set_blk a b h \<equiv> h\<lparr>blk := (blk h)(a := b)\<rparr>"

text \<open>\<open>sbrk\<close>: the old break on success, \<open>(void *) -1\<close> when the system has no more memory.\<close>

definition sbrk :: "64 word \<Rightarrow> heap \<Rightarrow> addr \<times> heap" where
  "sbrk n h =
     (if unat (brk_cur h) + unat n \<le> brk_max h then (brk_cur h, h\<lparr>brk_cur := brk_cur h + n\<rparr>)
      else (- 1, h))"

section \<open>Searching and allocating\<close>

partial_function (option) check_free_from :: "heap \<Rightarrow> 64 word \<Rightarrow> addr \<Rightarrow> bool option" where
  "check_free_from h sz cur =
     (if cur = 0 then Some False
      else if mb_free (blk h cur) \<and> 0 < mb_capacity (blk h cur) - sz then Some True
      else check_free_from h sz (mb_next (blk h cur)))"

definition check_free_block :: "heap \<Rightarrow> 64 word \<Rightarrow> bool option" where
  "check_free_block h sz = check_free_from h sz (block_list_head h)"

text \<open>The body of \<open>get_block\<close> once a block is found: mark it used and split off the rest.\<close>

definition use_block :: "heap \<Rightarrow> 64 word \<Rightarrow> addr \<Rightarrow> heap" where
  "use_block h sz cur =
     (let c = (blk h cur)\<lparr>mb_free := False, mb_size := sz\<rparr>; h = set_blk cur c h
      in if sz < mb_capacity c - sz then
           (let block = cur + (header_size + sz);
                b = \<lparr>mb_free = True, mb_capacity = mb_capacity c - sz - header_size, mb_size = 0,
                     mb_prev = cur, mb_next = mb_next c\<rparr>;
                h = set_blk block b h;
                h = set_blk cur ((blk h cur)\<lparr>mb_next := block, mb_size := sz,
                                                mb_capacity := sz\<rparr>) h
            in if mb_next b = 0 then h\<lparr>block_list_tail := block\<rparr> else h)
         else h)"

partial_function (option) get_block_from ::
  "heap \<Rightarrow> 64 word \<Rightarrow> addr \<Rightarrow> (addr \<times> heap) option" where
  "get_block_from h sz cur =
     (if cur = 0 then Some (0, h)
      else if mb_free (blk h cur) \<and> 0 < mb_capacity (blk h cur) - sz
      then Some (cur + header_size, use_block h sz cur)
      else get_block_from h sz (mb_next (blk h cur)))"

definition get_block :: "heap \<Rightarrow> 64 word \<Rightarrow> (addr \<times> heap) option" where
  "get_block h sz = get_block_from h sz (block_list_head h)"

text \<open>
  The number of bytes requested from the system: \<open>remainder\<close> and \<open>multiplier\<close> are \<open>int\<close>,
  so they are truncated to 32 bits, and the product is converted back to \<open>size_t\<close>.
\<close>

definition request_bytes :: "64 word \<Rightarrow> 64 word" where
  "request_bytes sz =
     (let remainder = ucast ((sz + header_size) mod 1024) :: 32 word;
          multiplier = ucast ((sz + header_size) div 1024) :: 32 word;
          multiplier = (if remainder \<noteq> 0 then multiplier + 1 else multiplier)
      in scast (1024 * multiplier))"

definition append_block :: "heap \<Rightarrow> 64 word \<Rightarrow> 64 word \<Rightarrow> addr \<Rightarrow> heap" where
  "append_block h sz bytes block =
     (let h = h\<lparr>upper_mem_bound := brk_cur h\<rparr>;
          b = (blk h block)\<lparr>mb_next := 0, mb_free := False, mb_size := sz,
                            mb_capacity := bytes - header_size\<rparr>
      in if block_list_head h = 0
         then set_blk block (b\<lparr>mb_prev := 0\<rparr>)
                (h\<lparr>block_list_head := block, block_list_tail := block\<rparr>)
         else (let t = block_list_tail h;
                   h = set_blk block (b\<lparr>mb_prev := t\<rparr>) h;
                   h = set_blk t ((blk h t)\<lparr>mb_next := block\<rparr>) h
               in h\<lparr>block_list_tail := block\<rparr>))"

definition beavalloc :: "64 word \<Rightarrow> heap \<Rightarrow> (addr \<times> heap) option" where
  "beavalloc sz h =
     (if sz = 0 then Some (0, h)
      else
        let h = (if lower_mem_bound h = 0 then h\<lparr>lower_mem_bound := brk_cur h\<rparr> else h)
        in case check_free_block h sz of
             None \<Rightarrow> None
           | Some True \<Rightarrow> get_block h sz
           | Some False \<Rightarrow>
               (let bytes = request_bytes sz; (block, h) = sbrk bytes h
                in if block = - 1 then Some (0, h\<lparr>errno_nomem := True\<rparr>)
                   else Some (block + header_size, append_block h sz bytes block)))"

section \<open>Freeing\<close>

partial_function (option) find_block_from :: "heap \<Rightarrow> addr \<Rightarrow> addr \<Rightarrow> addr option" where
  "find_block_from h ptr block =
     (if block = 0 then Some 0
      else if block = ptr then Some block
      else find_block_from h ptr (mb_next (blk h block)))"

definition find_block :: "heap \<Rightarrow> addr \<Rightarrow> addr option" where
  "find_block h ptr = find_block_from h ptr (block_list_head h)"

definition merge_blocks :: "addr \<Rightarrow> addr \<Rightarrow> heap \<Rightarrow> heap" where
  "merge_blocks b1 b2 h =
     (let h = set_blk b1 ((blk h b1)\<lparr>mb_capacity :=
                mb_capacity (blk h b1) + (mb_capacity (blk h b2) + header_size)\<rparr>) h;
          n = mb_next (blk h b2);
          h = (if n \<noteq> 0 then set_blk n ((blk h n)\<lparr>mb_prev := mb_prev (blk h b2)\<rparr>) h else h);
          p = mb_prev (blk h b2)
      in if p \<noteq> 0 then set_blk p ((blk h p)\<lparr>mb_next := mb_next (blk h b2)\<rparr>) h else h)"

text \<open>One turn of the coalescing loop: the block the loop goes on from and the heap.\<close>

definition coalesce_step :: "addr \<Rightarrow> heap \<Rightarrow> addr \<times> heap" where
  "coalesce_step block h =
     (let (block, h) =
            (if mb_free (blk h block) \<and> mb_prev (blk h block) \<noteq> 0
                \<and> mb_free (blk h (mb_prev (blk h block)))
             then (mb_prev (blk h block), merge_blocks (mb_prev (blk h block)) block h)
             else (block, h))
      in if mb_free (blk h block) \<and> mb_next (blk h block) \<noteq> 0
            \<and> mb_free (blk h (mb_next (blk h block)))
         then (block, merge_blocks block (mb_next (blk h block)) h)
         else (block, h))"

partial_function (option) coalesce :: "addr \<Rightarrow> heap \<Rightarrow> heap option" where
  "coalesce block h =
     (if block = 0 then Some h
      else case coalesce_step block h of
        (block, h) \<Rightarrow> coalesce (mb_next (blk h block)) h)"

definition beavfree :: "addr \<Rightarrow> heap \<Rightarrow> heap option" where
  "beavfree ptr h =
     (case find_block h ptr of
        None \<Rightarrow> None
      | Some block \<Rightarrow>
          if ptr = 0 \<or> block = 0 \<or> mb_free (blk h block) then Some h
          else
            (let b = blk h block;
                 h = set_blk block (b\<lparr>mb_free := True, mb_capacity := mb_capacity b + mb_size b,
                                      mb_size := 0\<rparr>) h
             in coalesce (block_list_head h) h))"

text \<open>\<open>brk(block_list_head)\<close> gives the whole heap back; the bounds are not reset.\<close>

definition beavalloc_reset :: "heap \<Rightarrow> heap" where
  "beavalloc_reset h =
     (if block_list_head h \<noteq> 0
      then h\<lparr>brk_cur := block_list_head h, block_list_head := 0, block_list_tail := 0\<rparr>
      else h)"

section \<open>calloc, realloc, strdup\<close>

definition fill_data :: "addr \<Rightarrow> nat \<Rightarrow> (nat \<Rightarrow> byte) \<Rightarrow> heap \<Rightarrow> heap" where
  "fill_data p n f h =
     h\<lparr>user_data := (\<lambda>a. if unat (a - p) < n then f (unat (a - p)) else user_data h a)\<rparr>"

definition beavcalloc :: "64 word \<Rightarrow> 64 word \<Rightarrow> heap \<Rightarrow> (addr \<times> heap) option" where
  "beavcalloc nmemb sz h =
     (if nmemb = 0 \<or> sz = 0 then Some (0, h)
      else case beavalloc (nmemb * sz) h of
        None \<Rightarrow> None
      | Some (ptr, h) \<Rightarrow>
          if ptr = 0 \<and> nmemb * sz \<noteq> 0 then None
          else Some (ptr, fill_data ptr (unat (nmemb * sz)) (\<lambda>_. 0) h))"

definition beavrealloc :: "addr \<Rightarrow> 64 word \<Rightarrow> heap \<Rightarrow> (addr \<times> heap) option" where
  "beavrealloc ptr sz h =
     (if sz = 0 then Some (0, h)
      else if ptr = 0 then beavalloc sz h
      else case beavalloc sz h of
        None \<Rightarrow> None
      | Some (nptr, h) \<Rightarrow>
          if nptr = 0 then None
          else
            let h = fill_data nptr (unat sz) (\<lambda>i. user_data h (ptr + of_nat i)) h
            in (case beavfree ptr h of None \<Rightarrow> None | Some h \<Rightarrow> Some (nptr, h)))"

text \<open>The source string is given by its bytes before the NUL.\<close>

definition beavstrdup :: "byte list \<Rightarrow> heap \<Rightarrow> (addr \<times> heap) option" where
  "beavstrdup s h =
     (let sz = of_nat (length s) + 1 :: 64 word
      in if 0 < sz then
           (case beavalloc sz h of
              None \<Rightarrow> None
            | Some (nptr, h) \<Rightarrow>
                if nptr = 0 then None
                else Some (nptr, fill_data nptr (unat sz) (cptr_of s) h))
         else Some (0, h))"

section \<open>The statistics of beavalloc\_dump\<close>

record dump_stats =
  user_bytes :: "32 word"
  capacity_bytes :: "32 word"
  block_bytes :: "32 word"
  used_blocks :: "32 word"
  free_blocks :: "32 word"

partial_function (option) dump_from :: "heap \<Rightarrow> addr \<Rightarrow> dump_stats \<Rightarrow> dump_stats option" where
  "dump_from h cur st =
     (if cur = 0 then Some st
      else dump_from h (mb_next (blk h cur))
        (let b = blk h cur;
             st = st\<lparr>user_bytes := ucast (ucast (user_bytes st) + mb_size b),
                     capacity_bytes := ucast (ucast (capacity_bytes st) + mb_capacity b),
                     block_bytes := ucast (ucast (block_bytes st) + (mb_capacity b + header_size))\<rparr>
         in if mb_free b then st\<lparr>free_blocks := free_blocks st + 1\<rparr>
            else st\<lparr>used_blocks := used_blocks st + 1\<rparr>))"

definition beavalloc_dump :: "heap \<Rightarrow> dump_stats option" where
  "beavalloc_dump h = dump_from h (block_list_head h) \<lparr>user_bytes = 0, capacity_bytes = 0,
     block_bytes = 0, used_blocks = 0, free_blocks = 0\<rparr>"

section \<open>Well-formed heaps\<close>

text \<open>
  \<open>dll m a p xs\<close>: following \<open>next\<close> from \<open>a\<close> visits exactly the blocks \<open>xs\<close> and stops at
  \<open>NULL\<close>, and \<open>prev\<close> leads back, the first block's \<open>prev\<close> being \<open>p\<close>. \<open>laid_out m lo xs hi\<close>:
  the blocks lie one after the other between the addresses \<open>lo\<close> and \<open>hi\<close>, each header
  followed by its capacity.
\<close>

fun dll :: "(addr \<Rightarrow> mem_block) \<Rightarrow> addr \<Rightarrow> addr \<Rightarrow> addr list \<Rightarrow> bool" where
  "dll m a p [] = (a = 0)"
| "dll m a p (x # xs) = (a = x \<and> x \<noteq> 0 \<and> mb_prev (m x) = p \<and> dll m (mb_next (m x)) x xs)"

definition block_end :: "(addr \<Rightarrow> mem_block) \<Rightarrow> addr \<Rightarrow> nat" where
  "block_end m x = unat x + 40 + unat (mb_capacity (m x))"

fun laid_out :: "(addr \<Rightarrow> mem_block) \<Rightarrow> nat \<Rightarrow> addr list \<Rightarrow> nat \<Rightarrow> bool" where
  "laid_out m lo [] hi = (lo \<le> hi)"
| "laid_out m lo (x # xs) hi =
     (lo \<le> unat x \<and> 0 < mb_capacity (m x) \<and> laid_out m (block_end m x) xs hi)"

text \<open>
  \<open>all_used h xs\<close>: the state of the allocator as its interface can reach it. Every block
  of the list is in use, holds at least the bytes that were asked for, and the blocks are
  disjoint and below the break.
\<close>

definition all_used :: "heap \<Rightarrow> addr list \<Rightarrow> bool" where
  "all_used h xs \<longleftrightarrow>
     dll (blk h) (block_list_head h) 0 xs \<and>
     (xs \<noteq> [] \<longrightarrow> block_list_tail h = last xs) \<and>
     laid_out (blk h) 1 xs (unat (brk_cur h)) \<and>
     (\<forall>x \<in> set xs. \<not> mb_free (blk h x) \<and> mb_size (blk h x) \<le> mb_capacity (blk h x)) \<and>
     0 < brk_cur h \<and> unat (brk_cur h) \<le> brk_max h \<and> brk_max h < 2 ^ 63"

text \<open>The pointers handed out: one past each header.\<close>

definition data_ptrs :: "addr list \<Rightarrow> addr set" where
  "data_ptrs xs = (\<lambda>x. x + header_size) ` set xs"

lemma dll_cong: "\<forall>x \<in> set xs. m' x = m x \<Longrightarrow> dll m' a p xs = dll m a p xs"
  by (induction xs arbitrary: a p) auto

lemma laid_out_cong: "\<forall>x \<in> set xs. m' x = m x \<Longrightarrow> laid_out m' lo xs hi = laid_out m lo xs hi"
  by (induction xs arbitrary: lo) (auto simp: block_end_def)

lemma laid_out_mono: "laid_out m lo xs hi \<Longrightarrow> hi \<le> hi' \<Longrightarrow> laid_out m lo xs hi'"
  by (induction xs arbitrary: lo) auto

lemma laid_out_bounds:
  "laid_out m lo xs hi \<Longrightarrow> lo \<le> hi \<and> (\<forall>x \<in> set xs. lo \<le> unat x \<and> block_end m x \<le> hi)"
proof (induction xs arbitrary: lo)
  case (Cons x xs)
  then have "lo \<le> unat x" and IH: "block_end m x \<le> hi \<and>
      (\<forall>y \<in> set xs. block_end m x \<le> unat y \<and> block_end m y \<le> hi)" by auto
  then show ?case by (auto simp: block_end_def intro: order_trans)
qed simp

lemma laid_out_append:
  "laid_out m lo (xs @ [x]) hi \<longleftrightarrow>
     laid_out m lo xs (unat x) \<and> 0 < mb_capacity (m x) \<and> block_end m x \<le> hi"
  by (induction xs arbitrary: lo) auto

lemma laid_out_distinct: "laid_out m lo xs hi \<Longrightarrow> distinct xs"
proof (induction xs arbitrary: lo)
  case (Cons x xs)
  then have "\<forall>y \<in> set xs. block_end m x \<le> unat y"
    using laid_out_bounds by (metis laid_out.simps(2))
  moreover have "unat x < block_end m x" by (simp add: block_end_def)
  ultimately have "x \<notin> set xs" by fastforce
  with Cons show ?case by auto
qed simp

text \<open>Two different blocks of a laid-out list do not overlap, headers included.\<close>

lemma laid_out_disjoint:
  assumes "laid_out m lo xs hi" and "x \<in> set xs" and "y \<in> set xs" and "x \<noteq> y"
  shows "block_end m x \<le> unat y \<or> block_end m y \<le> unat x"
  using assms
proof (induction xs arbitrary: lo)
  case (Cons z zs)
  then have "\<forall>y \<in> set zs. block_end m z \<le> unat y"
    using laid_out_bounds by (metis laid_out.simps(2))
  with Cons show ?case by auto
qed simp

text \<open>No data pointer is the address of a header.\<close>

lemma data_ptr_not_header:
  assumes "laid_out m lo xs hi" and "hi < 2 ^ 63" and "x \<in> set xs" and "y \<in> set xs"
  shows "x + header_size \<noteq> y"
proof
  assume eq: "x + header_size = y"
  have b: "block_end m x \<le> hi" using assms(1,3) laid_out_bounds by blast
  have "unat (40 :: 64 word) = 40" by simp
  moreover have "unat x + 40 < 2 ^ 64" using b assms(2) by (simp add: block_end_def)
  ultimately have ux: "unat (x + header_size) = unat x + 40"
    by (simp add: header_size_def unat_word_ariths)
  have cap: "0 < unat (mb_capacity (m x))"
    using assms(1,3) by (induction m lo xs hi rule: laid_out.induct) (auto simp: unat_gt_0 word_gt_0)
  have "x \<noteq> y" using ux eq by auto
  with laid_out_disjoint [OF assms(1) assms(3,4)] show False
    using ux eq cap by (auto simp: block_end_def)
qed

section \<open>The loops on a well-formed list\<close>

lemma check_free_from_used:
  "dll (blk h) a p xs \<Longrightarrow> \<forall>x \<in> set xs. \<not> mb_free (blk h x) \<Longrightarrow>
   check_free_from h sz a = Some False"
  by (induction xs arbitrary: a p) (subst check_free_from.simps, auto)+

lemma find_block_from_list:
  "dll (blk h) a p xs \<Longrightarrow> find_block_from h ptr a = Some (if ptr \<in> set xs then ptr else 0)"
  by (induction xs arbitrary: a p) (subst find_block_from.simps, auto)+

lemma dll_snoc:
  assumes "dll m a p xs" and "xs \<noteq> []" and "distinct xs" and "b \<notin> set xs" and "b \<noteq> 0"
    and "mb_prev nb = last xs" and "mb_next nb = 0"
  shows "dll (m(b := nb, last xs := (m (last xs))\<lparr>mb_next := b\<rparr>)) a p (xs @ [b])"
  using assms
proof (induction xs arbitrary: a p)
  case (Cons x xs)
  show ?case
  proof (cases "xs = []")
    case True
    then show ?thesis using Cons.prems by auto
  next
    case False
    then have l: "last (x # xs) = last xs" and "last xs \<in> set xs" by auto
    then have ne: "last xs \<noteq> x" and nb: "x \<noteq> b" using Cons.prems(3,4) by auto
    have "dll (m(b := nb, last xs := (m (last xs))\<lparr>mb_next := b\<rparr>)) (mb_next (m x)) x (xs @ [b])"
      using Cons.prems False by (intro Cons.IH) auto
    then show ?thesis using Cons.prems(1) ne nb by (simp only: l append_Cons dll.simps) simp
  qed
qed simp

section \<open>Requests to the system\<close>

text \<open>A request that fits in an \<open>int\<close> is rounded up to a whole number of kilobytes.\<close>

lemma request_bytes_small:
  assumes "unat sz < 2147480000"
  shows "unat (request_bytes sz) = (unat sz + 40 + 1023) div 1024 * 1024"
proof -
  let ?n = "unat sz + 40"
  have n: "unat (sz + header_size) = ?n"
    using assms by (simp add: header_size_def unat_word_ariths)
  have m: "unat ((sz + header_size) div 1024) = ?n div 1024"
    using n by (simp add: unat_div)
  have r: "unat ((sz + header_size) mod 1024) = ?n mod 1024"
    using n by (simp add: unat_mod)
  let ?k = "(?n + 1023) div 1024"
  have k: "?k * 1024 < 2147483648" using assms by simp
  have mul: "(if (ucast ((sz + header_size) mod 1024) :: 32 word) \<noteq> 0
      then (ucast ((sz + header_size) div 1024) :: 32 word) + 1
      else ucast ((sz + header_size) div 1024)) = of_nat ?k"
  proof -
    have c1: "(ucast ((sz + header_size) div 1024) :: 32 word) = of_nat (?n div 1024)"
      by (metis m of_nat_unat)
    have c2: "(ucast ((sz + header_size) mod 1024) :: 32 word) = of_nat (?n mod 1024)"
      by (metis r of_nat_unat)
    have "?n mod 1024 < 1024" by (rule mod_less_divisor) simp
    then have "?n mod 1024 < 4294967296" by linarith
    then have c3: "(of_nat (?n mod 1024) :: 32 word) = 0 \<longleftrightarrow> ?n mod 1024 = 0"
      by (rule word_of_nat_0_small)
    have ke: "?k = ?n div 1024 + (if ?n mod 1024 = 0 then 0 else 1)"
      using div_round_up [of 1024 ?n] by simp
    show ?thesis unfolding c1 c2
    proof (cases "?n mod 1024 = 0")
      case True
      then have "?k = ?n div 1024" using ke by simp
      then show "(if (of_nat (?n mod 1024) :: 32 word) \<noteq> 0 then of_nat (?n div 1024) + 1
          else of_nat (?n div 1024)) = (of_nat ?k :: 32 word)" using True by simp
    next
      case False
      then have "?k = ?n div 1024 + 1" using ke by simp
      then show "(if (of_nat (?n mod 1024) :: 32 word) \<noteq> 0 then of_nat (?n div 1024) + 1
          else of_nat (?n div 1024)) = (of_nat ?k :: 32 word)" using False c3 by simp
    qed
  qed
  have "request_bytes sz = scast (1024 * (of_nat ?k :: 32 word))"
    by (simp add: request_bytes_def Let_def mul del: of_nat_add)
  also have "1024 * (of_nat ?k :: 32 word) = of_nat (?k * 1024)"
    by (simp add: mult.commute)
  also have "scast (of_nat (?k * 1024) :: 32 word) = (of_nat (?k * 1024) :: 64 word)"
    using k by (simp only: signed_of_nat) (simp add: signed_take_bit_int_eq_self)
  finally show ?thesis using k by (simp only: unat_of_nat64)
qed

section \<open>The operations on the reachable states\<close>

lemma unat_add_40:
  assumes "unat x < 2 ^ 63"
  shows "unat (x + header_size) = unat x + 40"
  using assms by (simp add: header_size_def unat_word_ariths)

lemma append_block_used:
  assumes u: "all_used h xs" and sz: "unat sz \<le> unat (bytes - header_size)"
    and room: "unat (brk_cur h) + unat bytes \<le> brk_max h" and b: "40 < unat bytes"
  shows "all_used (append_block (h\<lparr>brk_cur := brk_cur h + bytes\<rparr>) sz bytes (brk_cur h))
           (xs @ [brk_cur h])"
proof -
  let ?b = "brk_cur h"
  let ?h = "append_block (h\<lparr>brk_cur := ?b + bytes\<rparr>) sz bytes ?b"
  let ?nb = "(blk h ?b)\<lparr>mb_next := 0, mb_free := False, mb_size := sz,
                mb_capacity := bytes - header_size, mb_prev := if xs = [] then 0 else last xs\<rparr>"
  note a = u [unfolded all_used_def]
  have brk: "unat (?b + bytes) = unat ?b + unat bytes"
    using a room by (simp add: unat_word_ariths)
  have hs: "unat (bytes - header_size) = unat bytes - 40"
    using b by (simp add: header_size_def unat_sub word_le_nat_alt)
  have below: "\<forall>x \<in> set xs. block_end (blk h) x \<le> unat ?b" using a laid_out_bounds by blast
  then have new: "?b \<notin> set xs" by (force simp: block_end_def)
  have lastb: "xs \<noteq> [] \<Longrightarrow> last xs \<noteq> ?b" using new by (metis last_in_set)
  have headz: "block_list_head h = 0 \<longleftrightarrow> xs = []" using a by (cases xs) auto
  have dist: "distinct xs" using a laid_out_distinct by blast
  have m: "blk ?h = (if xs = [] then (blk h)(?b := ?nb)
      else (blk h)(?b := ?nb, last xs := (blk h (last xs))\<lparr>mb_next := ?b\<rparr>))"
    using a headz lastb by (auto simp: append_block_def Let_def)
  have keep: "\<forall>x \<in> set xs. mb_capacity (blk ?h x) = mb_capacity (blk h x)
      \<and> mb_size (blk ?h x) = mb_size (blk h x) \<and> mb_free (blk ?h x) = mb_free (blk h x)"
    using new unfolding m by auto
  have "dll (blk ?h) (block_list_head ?h) 0 (xs @ [?b])"
  proof (cases "xs = []")
    case True
    then show ?thesis using a headz unfolding m by (auto simp: append_block_def Let_def word_gt_0)
  next
    case False
    then have "block_list_head ?h = block_list_head h"
      using headz by (simp add: append_block_def Let_def)
    moreover have "dll ((blk h)(?b := ?nb, last xs := (blk h (last xs))\<lparr>mb_next := ?b\<rparr>))
        (block_list_head h) 0 (xs @ [?b])"
      using a False dist new by (intro dll_snoc) (auto simp: word_gt_0)
    ultimately show ?thesis using False unfolding m by simp
  qed
  moreover have "block_list_tail ?h = ?b" by (simp add: append_block_def Let_def)
  moreover have "laid_out (blk ?h) 1 xs (unat ?b)"
  proof -
    have "laid_out (blk ?h) lo xs hi = laid_out (blk h) lo xs hi" if "set xs \<subseteq> set xs" for lo hi
      using keep by (induction xs arbitrary: lo) (auto simp: block_end_def)
    then show ?thesis using a by blast
  qed
  moreover have nbl: "blk ?h ?b = ?nb" using new unfolding m by auto
  moreover have bc: "brk_cur ?h = ?b + bytes" and "brk_max ?h = brk_max h"
    by (auto simp: append_block_def Let_def)
  moreover have "0 < mb_capacity (blk ?h ?b)" using b hs unfolding nbl by (simp add: word_less_nat_alt)
  moreover have "block_end (blk ?h) ?b = unat (brk_cur ?h)"
    using b unfolding block_end_def nbl bc by (simp add: hs brk)
  moreover have "0 < ?b + bytes" using brk b by (simp add: word_less_nat_alt)
  moreover have "\<forall>x \<in> set xs. \<not> mb_free (blk ?h x) \<and> mb_size (blk ?h x) \<le> mb_capacity (blk ?h x)"
    using a keep by simp
  moreover have "\<not> mb_free (blk ?h ?b) \<and> mb_size (blk ?h ?b) \<le> mb_capacity (blk ?h ?b)"
    using sz unfolding nbl by (simp add: word_le_nat_alt)
  ultimately show ?thesis
    using a room brk by (simp add: all_used_def laid_out_append)
qed

lemma all_used_frame [simp]:
  "all_used (h\<lparr>lower_mem_bound := a\<rparr>) xs = all_used h xs"
  "all_used (h\<lparr>errno_nomem := e\<rparr>) xs = all_used h xs"
  "all_used (fill_data p n f h) xs = all_used h xs"
  by (simp_all add: all_used_def fill_data_def)

lemma fill_data_brk [simp]: "brk_cur (fill_data p n f h) = brk_cur h"
  "brk_max (fill_data p n f h) = brk_max h" "blk (fill_data p n f h) = blk h"
  by (simp_all add: fill_data_def)

text \<open>The heap just before the request to the system.\<close>

definition note_lower :: "heap \<Rightarrow> heap" where
  "note_lower h = (if lower_mem_bound h = 0 then h\<lparr>lower_mem_bound := brk_cur h\<rparr> else h)"

lemma note_lower_frame [simp]:
  "brk_cur (note_lower h) = brk_cur h" "brk_max (note_lower h) = brk_max h"
  "all_used (note_lower h) xs = all_used h xs" "user_data (note_lower h) = user_data h"
  by (simp_all add: note_lower_def)

lemma beavalloc_used:
  assumes u: "all_used h xs" and nz: "sz \<noteq> 0" and sz: "unat sz < 2147480000"
  shows "beavalloc sz h =
    (if unat (brk_cur h) + unat (request_bytes sz) \<le> brk_max h
     then Some (brk_cur h + header_size,
       append_block ((note_lower h)\<lparr>brk_cur := brk_cur h + request_bytes sz\<rparr>) sz
         (request_bytes sz) (brk_cur h))
     else Some (0, (note_lower h)\<lparr>errno_nomem := True\<rparr>))"
proof -
  have "all_used (note_lower h) xs" using u by simp
  then have "check_free_block (note_lower h) sz = Some False"
    by (auto simp: check_free_block_def all_used_def intro: check_free_from_used)
  moreover have "brk_cur h \<noteq> - 1"
  proof
    assume "brk_cur h = - 1"
    then have "unat (brk_cur h) = 18446744073709551615" by (simp add: unsigned_minus_1_eq_mask mask_eq_exp_minus_1)
    then show False using u by (auto simp: all_used_def)
  qed
  ultimately show ?thesis
    using nz by (simp add: beavalloc_def note_lower_def [symmetric] sbrk_def Let_def)
qed

lemma request_bytes_covers:
  assumes "sz \<noteq> 0" and "unat sz < 2147480000"
  shows "40 < unat (request_bytes sz)" and "unat sz \<le> unat (request_bytes sz - header_size)"
proof -
  have "0 < unat sz" using assms(1) by (simp add: unat_gt_0)
  moreover have r: "unat sz + 40 \<le> unat (request_bytes sz)"
    unfolding request_bytes_small [OF assms(2)] by (simp add: div_round_up [of 1024, simplified])
  ultimately show "40 < unat (request_bytes sz)" by simp
  then show "unat sz \<le> unat (request_bytes sz - header_size)"
    using r by (simp add: header_size_def unat_sub word_le_nat_alt)
qed

lemma beavfree_used:
  assumes u: "all_used h xs" and "p = 0 \<or> p \<in> data_ptrs xs"
  shows "beavfree p h = Some h"
proof -
  have "find_block h p = Some (if p \<in> set xs then p else 0)"
    using u unfolding find_block_def all_used_def by (intro find_block_from_list) blast
  moreover have "p \<notin> set xs \<or> p = 0"
    using assms data_ptr_not_header by (fastforce simp: all_used_def data_ptrs_def)
  ultimately show ?thesis by (auto simp: beavfree_def)
qed

section \<open>Runs of the interface\<close>

text \<open>
  \<open>beav_run h P\<close>: a client that only passes pointers it was given can bring the allocator
  to the heap \<open>h\<close>, and \<open>P\<close> are the pointers handed out since the last reset. Requests of
  2 GB and more are left out: their size does not fit the \<open>int\<close> of \<open>beavalloc\<close>.
\<close>

definition init_heap :: "addr \<Rightarrow> nat \<Rightarrow> heap" where
  "init_heap brk mx = \<lparr>blk = (\<lambda>_. \<lparr>mb_free = False, mb_capacity = 0, mb_size = 0, mb_prev = 0,
     mb_next = 0\<rparr>), block_list_head = 0, block_list_tail = 0, lower_mem_bound = 0,
     upper_mem_bound = 0, brk_cur = brk, brk_max = mx, errno_nomem = False,
     user_data = (\<lambda>_. 0)\<rparr>"

inductive beav_run :: "heap \<Rightarrow> addr set \<Rightarrow> bool" where
  init: "0 < brk \<Longrightarrow> unat brk \<le> mx \<Longrightarrow> mx < 2 ^ 63 \<Longrightarrow> beav_run (init_heap brk mx) {}"
| alloc: "beav_run h P \<Longrightarrow> unat sz < 2147480000 \<Longrightarrow> beavalloc sz h = Some (p, h') \<Longrightarrow>
    beav_run h' (insert p P)"
| free: "beav_run h P \<Longrightarrow> p \<in> P \<Longrightarrow> beavfree p h = Some h' \<Longrightarrow> beav_run h' P"
| calloc: "beav_run h P \<Longrightarrow> unat (n * sz) < 2147480000 \<Longrightarrow> beavcalloc n sz h = Some (p, h') \<Longrightarrow>
    beav_run h' (insert p P)"
| realloc: "beav_run h P \<Longrightarrow> p \<in> insert 0 P \<Longrightarrow> unat sz < 2147480000 \<Longrightarrow>
    beavrealloc p sz h = Some (q, h') \<Longrightarrow> beav_run h' (insert q P)"
| strdup: "beav_run h P \<Longrightarrow> length s < 2147479999 \<Longrightarrow> beavstrdup s h = Some (p, h') \<Longrightarrow>
    beav_run h' (insert p P)"
| reset: "beav_run h P \<Longrightarrow> beav_run (beavalloc_reset h) {}"

definition run_inv :: "heap \<Rightarrow> addr set \<Rightarrow> bool" where
  "run_inv h P \<longleftrightarrow> (\<exists>xs. all_used h xs \<and> P \<subseteq> insert 0 (data_ptrs xs))"

lemma data_ptrs_snoc: "data_ptrs (xs @ [b]) = insert (b + header_size) (data_ptrs xs)"
  by (auto simp: data_ptrs_def)

lemma beavalloc_inv:
  assumes "run_inv h P" and "unat sz < 2147480000" and "beavalloc sz h = Some (p, h')"
  shows "run_inv h' (insert p P)"
proof -
  from assms(1) obtain xs where u: "all_used h xs" and P: "P \<subseteq> insert 0 (data_ptrs xs)"
    by (auto simp: run_inv_def)
  show ?thesis
  proof (cases "sz = 0 \<or> \<not> unat (brk_cur h) + unat (request_bytes sz) \<le> brk_max h")
    case True
    then have "p = 0 \<and> all_used h' xs"
      using assms(3) u beavalloc_used [OF u _ assms(2)]
      by (cases "sz = 0") (auto simp: beavalloc_def)
    with P show ?thesis by (auto simp: run_inv_def)
  next
    case False
    then have nz: "sz \<noteq> 0" by simp
    have p: "p = brk_cur h + header_size"
      and h': "h' = append_block ((note_lower h)\<lparr>brk_cur := brk_cur h + request_bytes sz\<rparr>) sz
         (request_bytes sz) (brk_cur h)"
      using assms(3) False beavalloc_used [OF u nz assms(2)] by auto
    have "all_used h' (xs @ [brk_cur h])"
      using append_block_used [of "note_lower h" xs sz "request_bytes sz"] u False
        request_bytes_covers [OF nz assms(2)] unfolding h' by simp
    with P p show ?thesis
      unfolding run_inv_def by (intro exI [of _ "xs @ [brk_cur h]"]) (auto simp: data_ptrs_snoc)
  qed
qed

lemma beavfree_inv: "run_inv h P \<Longrightarrow> p \<in> insert 0 P \<Longrightarrow> beavfree p h = Some h"
  by (auto simp: run_inv_def intro: beavfree_used)

lemma run_inv_fill [simp]: "run_inv (fill_data p n f h) P = run_inv h P"
  by (simp add: run_inv_def)

lemma beavrealloc_Some:
  assumes "beavrealloc p sz h = Some (q, h')"
  shows "q = 0 \<and> h' = h \<or> beavalloc sz h = Some (q, h') \<or>
    (\<exists>h1. beavalloc sz h = Some (q, h1) \<and>
      beavfree p (fill_data q (unat sz) (\<lambda>i. user_data h1 (p + of_nat i)) h1) = Some h')"
proof (cases "sz = 0 \<or> p = 0")
  case True
  then show ?thesis using assms by (auto simp: beavrealloc_def split: if_splits)
next
  case False
  then obtain n h1 where n: "beavalloc sz h = Some (n, h1)" and "n \<noteq> 0"
    using assms by (auto simp: beavrealloc_def split: option.splits if_splits)
  with False assms have "n = q \<and>
      beavfree p (fill_data n (unat sz) (\<lambda>i. user_data h1 (p + of_nat i)) h1) = Some h'"
    unfolding beavrealloc_def Let_def
    by (cases "beavfree p (fill_data n (unat sz) (\<lambda>i. user_data h1 (p + of_nat i)) h1)") simp_all
  with n show ?thesis by blast
qed

lemma beavstrdup_Some:
  assumes "beavstrdup s h = Some (p, h')" and "0 < (of_nat (length s) + 1 :: 64 word)"
  shows "\<exists>h1. beavalloc (of_nat (length s) + 1) h = Some (p, h1) \<and>
    h' = fill_data p (unat (of_nat (length s) + 1 :: 64 word)) (cptr_of s) h1"
  using assms unfolding beavstrdup_def Let_def
  by (cases "beavalloc (of_nat (length s) + 1) h") (auto split: if_splits)

lemma beav_run_inv: "beav_run h P \<Longrightarrow> run_inv h P"
proof (induction rule: beav_run.induct)
  case (init brk mx)
  then have "all_used (init_heap brk mx) []"
    by (simp add: all_used_def init_heap_def word_less_nat_alt Suc_le_eq)
  then show ?case by (auto simp: run_inv_def)
next
  case (alloc h P sz p h')
  then show ?case by (blast intro: beavalloc_inv)
next
  case (free h P p h')
  then show ?case using beavfree_inv by simp
next
  case (calloc h P n sz p h')
  then consider "p = 0" "h' = h" | h1 where "beavalloc (n * sz) h = Some (p, h1)"
      "h' = fill_data p (unat (n * sz)) (\<lambda>_. 0) h1"
    by (auto simp: beavcalloc_def split: if_splits option.splits prod.splits)
  then show ?case
  proof cases
    case 1
    then show ?thesis using calloc.IH by (auto simp: run_inv_def)
  next
    case 2
    then show ?thesis using beavalloc_inv [OF calloc.IH calloc.hyps(2)] by simp
  qed
next
  case (realloc h P p sz q h')
  then consider "q = 0" "h' = h" | "beavalloc sz h = Some (q, h')"
    | h1 h2 where "beavalloc sz h = Some (q, h1)"
      "h2 = fill_data q (unat sz) (\<lambda>i. user_data h1 (p + of_nat i)) h1" "beavfree p h2 = Some h'"
    using beavrealloc_Some by blast
  then show ?case
  proof cases
    case 1
    then show ?thesis using realloc.IH by (auto simp: run_inv_def)
  next
    case 2
    then show ?thesis using beavalloc_inv realloc.IH realloc.hyps(3) by blast
  next
    case 3
    then have inv: "run_inv h2 (insert q P)"
      using beavalloc_inv [OF realloc.IH realloc.hyps(3)] by simp
    then have "beavfree p h2 = Some h2" using realloc.hyps(2) by (intro beavfree_inv [OF inv]) auto
    with inv 3 show ?thesis by simp
  qed
next
  case (strdup h P s p h')
  have n: "unat (of_nat (length s) + 1 :: 64 word) = length s + 1"
    using strdup.hyps(2) by (simp add: unat_word_ariths unat_of_nat64)
  then have "0 < (of_nat (length s) + 1 :: 64 word)" by (simp add: word_less_nat_alt)
  with beavstrdup_Some [OF strdup.hyps(3)] obtain h1
    where "beavalloc (of_nat (length s) + 1) h = Some (p, h1)"
      "h' = fill_data p (unat (of_nat (length s) + 1 :: 64 word)) (cptr_of s) h1" by blast
  moreover have "unat (of_nat (length s) + 1 :: 64 word) < 2147480000"
    using n strdup.hyps(2) by simp
  ultimately show ?case
    using beavalloc_inv [OF strdup.IH] by simp
next
  case (reset h P)
  then obtain xs where u: "all_used h xs" by (auto simp: run_inv_def)
  show ?case
  proof (cases xs)
    case Nil
    then show ?thesis using u
      by (auto simp: run_inv_def beavalloc_reset_def all_used_def intro: exI [of _ "[]"])
  next
    case (Cons x ys)
    then have "block_list_head h = x" and "x \<noteq> 0" using u by (auto simp: all_used_def)
    moreover have "unat x \<le> unat (brk_cur h)"
      using u Cons laid_out_bounds [of "blk h" 1 xs "unat (brk_cur h)"]
      by (auto simp: all_used_def block_end_def)
    ultimately have "all_used (beavalloc_reset h) []"
      using u by (auto simp: beavalloc_reset_def all_used_def word_gt_0 Suc_le_eq unat_gt_0)
    then show ?thesis by (auto simp: run_inv_def)
  qed
qed

section \<open>Properties\<close>

text \<open>C15: however a client uses \<open>beavalloc\<close>, \<open>beavfree\<close>, \<open>beavcalloc\<close>, \<open>beavrealloc\<close>,
  \<open>beavstrdup\<close> and \<open>beavalloc_reset\<close> with requests below 2147480000 bytes each, the block list
  stays a correctly linked list of blocks that do not overlap, each at least as large as what
  was asked for, and every pointer handed out is \<open>NULL\<close> or the data area of one of them. A
  request above this bound is outside the claim: its size does not fit the \<open>int\<close>s of
  \<open>beavalloc\<close>, and \<open>oversized_request\<close> below shows that the block can then be too small.\<close>

theorem beav_run_wellformed:
  assumes "beav_run h P"
  shows "\<exists>xs. dll (blk h) (block_list_head h) 0 xs \<and> P \<subseteq> insert 0 (data_ptrs xs) \<and>
    (\<forall>x \<in> set xs. mb_size (blk h x) \<le> mb_capacity (blk h x) \<and>
       block_end (blk h) x \<le> unat (brk_cur h)) \<and>
    (\<forall>x \<in> set xs. \<forall>y \<in> set xs. x \<noteq> y \<longrightarrow>
       block_end (blk h) x \<le> unat y \<or> block_end (blk h) y \<le> unat x)"
proof -
  from beav_run_inv [OF assms] obtain xs where u: "all_used h xs"
    and P: "P \<subseteq> insert 0 (data_ptrs xs)" by (auto simp: run_inv_def)
  then have lo: "laid_out (blk h) 1 xs (unat (brk_cur h))" by (simp only: all_used_def)
  show ?thesis
    using laid_out_bounds [OF lo] laid_out_disjoint [OF lo] u P
    by (intro exI [of _ xs]) (simp add: all_used_def)
qed

text \<open>Two requests, of 100 and of 2000 bytes, and then the first pointer is given back.\<close>

theorem beav_run_wellformed_witness:
  "\<exists>h xs. beav_run h {5160, 4136} \<and> dll (blk h) (block_list_head h) 0 xs \<and> 4096 \<in> set xs \<and> 5120 \<in> set xs \<and>
     block_end (blk h) 4096 \<le> 5120 \<and> block_end (blk h) 5120 \<le> unat (brk_cur h)"
proof -
  let ?h0 = "init_heap 4096 1000000"
  have run0: "beav_run ?h0 {}" by (rule beav_run.init) simp_all
  have n: "unat (request_bytes 100) = 1024" "unat (request_bytes 2000) = 2048" by (simp_all add: request_bytes_small)
  then have r: "request_bytes 100 = 1024" "request_bytes 2000 = 2048" by (simp_all add: word_unat_eq_iff)
  have "all_used ?h0 []" by (simp add: all_used_def init_heap_def)
  from beavalloc_used [OF this, of 100] r obtain h1 where
    a1: "beavalloc 100 ?h0 = Some (4136, h1)" and b1: "brk_cur h1 = 5120" "brk_max h1 = 1000000"
    by (auto simp: init_heap_def header_size_def append_block_def Let_def)
  have run1: "beav_run h1 {4136}" using beav_run.alloc [OF run0 _ a1] by simp
  from beav_run_inv [OF this] obtain xs where "all_used h1 xs" by (auto simp: run_inv_def)
  from beavalloc_used [OF this, of 2000] r b1 obtain h2 where
    a2: "beavalloc 2000 h1 = Some (5160, h2)" by (auto simp: header_size_def)
  have run2: "beav_run h2 {5160, 4136}" using beav_run.alloc [OF run1 _ a2] by simp
  then have "beavfree 4136 h2 = Some h2" using beavfree_inv [OF beav_run_inv [OF run2], of 4136] by simp
  from beav_run.free [OF run2 _ this] run2 have run: "beav_run h2 {5160, 4136}" by simp
  from beav_run_wellformed [OF run] obtain ys where
    ys: "dll (blk h2) (block_list_head h2) 0 ys" "{5160, 4136} \<subseteq> insert 0 (data_ptrs ys)"
      "\<And>x. x \<in> set ys \<Longrightarrow> block_end (blk h2) x \<le> unat (brk_cur h2)"
      "\<And>x y. x \<in> set ys \<Longrightarrow> y \<in> set ys \<Longrightarrow> x \<noteq> y \<Longrightarrow>
        block_end (blk h2) x \<le> unat y \<or> block_end (blk h2) y \<le> unat x" by blast
  have m: "x \<in> set ys" if "x + 40 \<in> data_ptrs ys" for x
    using that by (auto simp: data_ptrs_def header_size_def)
  have in1: "4096 \<in> set ys" and in2: "5120 \<in> set ys" using ys(2) m [of 4096] m [of 5120] by auto
  have "40 \<le> block_end (blk h2) x - unat x" for x by (simp add: block_end_def)
  then have "block_end (blk h2) 4096 \<le> 5120" using ys(4) [OF in1 in2] by (fastforce simp: block_end_def)
  with run ys(1) in1 in2 ys(3) [OF in2] show ?thesis by blast
qed

text \<open>As long as the system grants memory, \<open>beavalloc\<close> of a positive size below 2 GB
  returns a non-null pointer that was not handed out before; its bytes lie between the
  old break and the new one, and the bytes of every pointer handed out earlier lie below
  the old break.\<close>

theorem beavalloc_fresh:
  assumes run: "beav_run h P" and nz: "sz \<noteq> 0" and sz: "unat sz < 2147480000"
    and room: "unat (brk_cur h) + unat (request_bytes sz) \<le> brk_max h"
  shows "\<exists>p h'. beavalloc sz h = Some (p, h') \<and> p \<noteq> 0 \<and> p \<notin> P \<and>
    unat (brk_cur h) < unat p \<and> unat p + unat sz \<le> unat (brk_cur h') \<and>
    (\<forall>q \<in> P - {0}. unat q + unat (mb_size (blk h (q - header_size))) \<le> unat (brk_cur h))"
proof -
  from beav_run_inv [OF run] obtain xs where u: "all_used h xs"
    and P: "P \<subseteq> insert 0 (data_ptrs xs)" by (auto simp: run_inv_def)
  let ?b = "brk_cur h" and ?n = "request_bytes sz"
  let ?h = "append_block ((note_lower h)\<lparr>brk_cur := ?b + ?n\<rparr>) sz ?n ?b"
  have lim: "brk_max h < 2 ^ 63" using u by (simp add: all_used_def)
  have n: "40 < unat ?n" "unat sz \<le> unat (?n - header_size)"
    using request_bytes_covers [OF nz sz] by simp_all
  have p: "unat (?b + header_size) = unat ?b + 40" using lim room n by (intro unat_add_40) simp
  have old: "unat q + unat (mb_size (blk h (q - header_size))) \<le> unat ?b"
    if "q \<in> P - {0}" for q
  proof -
    from that P obtain x where x: "x \<in> set xs" "q = x + header_size" by (auto simp: data_ptrs_def)
    have e: "block_end (blk h) x \<le> unat ?b"
      using u x laid_out_bounds unfolding all_used_def by blast
    then have "unat q = unat x + 40"
      using x lim room by (simp add: unat_add_40 block_end_def)
    moreover have "unat (mb_size (blk h x)) \<le> unat (mb_capacity (blk h x))"
      using u x by (simp add: all_used_def word_le_nat_alt)
    ultimately show ?thesis using e x by (simp add: block_end_def)
  qed
  then have "?b + header_size \<notin> P - {0}" using p by force
  moreover have "?b + header_size \<noteq> 0" using p by (metis add_is_0 unat_0 zero_neq_numeral)
  moreover have "unat (brk_cur ?h) = unat ?b + unat ?n"
    using lim room by (simp add: append_block_def Let_def unat_word_ariths)
  moreover have "unat ?n = unat (?n - header_size) + 40"
    using n by (simp add: header_size_def unat_sub word_le_nat_alt)
  ultimately show ?thesis
    using beavalloc_used [OF u nz sz] room p n old by auto
qed

theorem beavalloc_fresh_witness:
  "\<exists>p h'. beavalloc 100 (init_heap 4096 1000000) = Some (p, h') \<and> p \<noteq> 0"
proof -
  have run: "beav_run (init_heap 4096 1000000) {}" by (rule beav_run.init) simp_all
  have "unat (request_bytes 100) = 1024" by (simp add: request_bytes_small)
  then have "unat (brk_cur (init_heap 4096 1000000)) + unat (request_bytes 100)
      \<le> brk_max (init_heap 4096 1000000)"
    by (simp add: init_heap_def)
  from beavalloc_fresh [OF run _ _ this] show ?thesis by auto
qed



text \<open>Of a request of 4294967256 bytes, which with the header makes 4 GB, the \<open>int\<close> product leaves nothing: the
  break stays where it is, and a pointer to memory behind the break is handed out as if it had that many bytes.\<close>

theorem oversized_request:
  "\<exists>h. beavalloc 4294967256 (init_heap 4096 1000000) = Some (4136, h) \<and> brk_cur h = 4096 \<and> mb_size (blk h 4096) = 4294967256"
proof -
  have r: "request_bytes 4294967256 = 0" by (simp add: request_bytes_def header_size_def)
  have "check_free_block (note_lower (init_heap 4096 1000000)) 4294967256 = Some False"
    unfolding check_free_block_def by (subst check_free_from.simps) (simp add: note_lower_def init_heap_def)
  then show ?thesis
    by (simp add: beavalloc_def note_lower_def [symmetric] sbrk_def Let_def r append_block_def header_size_def)
      (simp add: note_lower_def init_heap_def)
qed

text \<open>A free block at the head of the list is reused for any size other than exactly
  its capacity, even a larger one: the test \<open>capacity - size > 0\<close> is done on unsigned
  values.\<close>

theorem undersized_block_reused:
  assumes "block_list_head h = b" and "b \<noteq> 0" and "mb_free (blk h b)" and "sz \<noteq> 0"
    and "mb_capacity (blk h b) < sz"
  shows "\<exists>h'. beavalloc sz h = Some (b + header_size, h')"
proof -
  have d: "0 < mb_capacity (blk h b) - sz" using assms(5) by (simp add: word_gt_0)
  have "check_free_block (note_lower h) sz = Some True"
    using assms d unfolding check_free_block_def note_lower_def
    by (subst check_free_from.simps) auto
  moreover have "get_block (note_lower h) sz = Some (b + header_size, use_block (note_lower h) sz b)"
    using assms d unfolding get_block_def note_lower_def
    by (subst get_block_from.simps) auto
  ultimately show ?thesis
    using assms(4) by (simp add: beavalloc_def note_lower_def [symmetric] Let_def)
qed

theorem undersized_block_reused_witness:
  "\<exists>h h'. mb_capacity (blk h 4096) = 8 \<and> beavalloc 4000 h = Some (4096 + header_size, h')"
proof -
  let ?h = "(init_heap 8192 1000000)\<lparr>blk := (\<lambda>_. \<lparr>mb_free = True, mb_capacity = 8, mb_size = 0,
     mb_prev = 0, mb_next = 0\<rparr>), block_list_head := 4096, block_list_tail := 4096\<rparr>"
  obtain h' where "beavalloc 4000 ?h = Some (4096 + header_size, h')"
    using undersized_block_reused [of ?h 4096 4000] by auto
  then show ?thesis by (intro exI [of _ ?h] exI [of _ h'] conjI) simp_all
qed

text \<open>Splitting a free block that has room for the request and a header keeps its
  bytes: the first part becomes a used block of exactly the requested capacity, and the
  rest a free block right behind it that ends where the old block ended and comes next in
  the list.\<close>

theorem split_conserves_block:
  assumes "mb_free (blk h b)" and "sz < mb_capacity (blk h b) - sz" and "b \<noteq> 0"
    and "unat sz + 40 < unat (mb_capacity (blk h b))" and "block_end (blk h) b < 2 ^ 64"
  shows "let h' = use_block h sz b; r = b + (header_size + sz) in
    mb_capacity (blk h' b) = sz \<and> \<not> mb_free (blk h' b) \<and> mb_next (blk h' b) = r \<and>
    unat r = block_end (blk h') b \<and> mb_free (blk h' r) \<and>
    block_end (blk h') r = block_end (blk h) b \<and> mb_next (blk h' r) = mb_next (blk h b) \<and>
    (\<forall>x. x \<noteq> b \<longrightarrow> x \<noteq> r \<longrightarrow> blk h' x = blk h x)"
proof -
  let ?r = "b + (header_size + sz)" and ?c = "mb_capacity (blk h b)"
  have us: "unat (header_size + sz) = 40 + unat sz"
    using assms(4,5) by (simp add: header_size_def unat_word_ariths block_end_def)
  then have r: "unat ?r = unat b + 40 + unat sz"
    using assms(4,5) by (simp add: unat_word_ariths block_end_def)
  then have ne: "?r \<noteq> b" by auto
  have "unat (?c - sz) = unat ?c - unat sz"
    using assms(4) by (simp add: unat_sub word_le_nat_alt)
  then have "unat (?c - sz - header_size) = unat ?c - unat sz - 40"
    using assms(4) by (simp add: unat_sub word_le_nat_alt header_size_def)
  then show ?thesis
    using assms ne r by (auto simp: use_block_def Let_def block_end_def)
qed

theorem split_conserves_block_witness:
  "mb_capacity (blk (use_block ((init_heap 8192 1000000)\<lparr>blk := (\<lambda>_. \<lparr>mb_free = True,
     mb_capacity = 984, mb_size = 0, mb_prev = 0, mb_next = 0\<rparr>)\<rparr>) 100 4096) 4096) = 100"
proof -
  let ?h = "(init_heap 8192 1000000)\<lparr>blk := (\<lambda>_. \<lparr>mb_free = True,
     mb_capacity = 984, mb_size = 0, mb_prev = 0, mb_next = 0\<rparr>)\<rparr>"
  have "mb_free (blk ?h 4096)" "100 < mb_capacity (blk ?h 4096) - 100" "(4096 :: 64 word) \<noteq> 0"
    "unat (100 :: 64 word) + 40 < unat (mb_capacity (blk ?h 4096))"
    "block_end (blk ?h) 4096 < 2 ^ 64"
    by (simp_all add: block_end_def)
  from split_conserves_block [OF this] show ?thesis by (simp add: Let_def)
qed

end
