(* ===== verification/Philosophers.thy ===== *)
theory Philosophers
  imports OS_Prelude
begin

text \<open>
  The four dining-philosopher programs of \<open>inclass6\<close>. The loop body of \<open>eat_or_think\<close> is
  a list of instructions, one for each semaphore operation and one for the meal; the
  printing between them is left out. A step executes one instruction of one
  philosopher, in any order the scheduler likes. \<open>sem_wait\<close> on a zero semaphore cannot
  step. Cancellation by the signal handler is not modelled.
\<close>

section \<open>Threads over semaphores\<close>

text \<open>
  \<open>TryWait keep s t\<close> is \<open>sem_trywait\<close>; with \<open>keep\<close> its result is stored in the local
  variable \<open>left\<close>, and on failure control goes to \<open>t\<close>. \<open>PostIfLeft s\<close> posts \<open>s\<close> when
  \<open>left\<close> is 0. \<open>Goto\<close> ends a branch.
\<close>

datatype instr = Wait nat | Post nat | TryWait bool nat nat | PostIfLeft nat | Eat | Fast | Goto nat

record table =
  sems :: "nat \<Rightarrow> nat"
  pc :: "nat \<Rightarrow> nat"
  left_var :: "nat \<Rightarrow> int"
  times_eating :: "nat \<Rightarrow> nat"

definition NUM_PHILO :: nat where
  "NUM_PHILO = 5"

definition RIGHT :: "nat \<Rightarrow> nat" where
  "RIGHT n = (n + 1) mod NUM_PHILO"

definition LEFT :: "nat \<Rightarrow> nat" where
  "LEFT n = n"

text \<open>The semaphores 0 to 4 are the array \<open>chopstic\<close>; number 5 is \<open>waiter\<close>.\<close>

definition waiter :: nat where
  "waiter = 5"

definition goto :: "nat \<Rightarrow> nat \<Rightarrow> table \<Rightarrow> table" where
  "goto n k st = st\<lparr>pc := (pc st)(n := k)\<rparr>"

definition next_instr :: "instr list \<Rightarrow> nat \<Rightarrow> table \<Rightarrow> table" where
  "next_instr code n st = goto n ((pc st n + 1) mod length code) st"

definition set_sem :: "nat \<Rightarrow> nat \<Rightarrow> table \<Rightarrow> table" where
  "set_sem s v st = st\<lparr>sems := (sems st)(s := v)\<rparr>"

definition set_left :: "bool \<Rightarrow> nat \<Rightarrow> int \<Rightarrow> table \<Rightarrow> table" where
  "set_left keep n v st = (if keep then st\<lparr>left_var := (left_var st)(n := v)\<rparr> else st)"

definition exec :: "instr list \<Rightarrow> nat \<Rightarrow> table \<Rightarrow> table option" where
  "exec code n st =
     (case code ! pc st n of
        Wait s \<Rightarrow> if 0 < sems st s then Some (next_instr code n (set_sem s (sems st s - 1) st))
                  else None
      | Post s \<Rightarrow> Some (next_instr code n (set_sem s (sems st s + 1) st))
      | TryWait keep s t \<Rightarrow>
          Some (if 0 < sems st s
                then next_instr code n (set_left keep n 0 (set_sem s (sems st s - 1) st))
                else goto n t (set_left keep n (- 1) st))
      | PostIfLeft s \<Rightarrow>
          Some (next_instr code n
                 (if left_var st n = 0 then set_sem s (sems st s + 1) st else st))
      | Eat \<Rightarrow> Some (next_instr code n
                 (st\<lparr>times_eating := (times_eating st)(n := times_eating st n + 1)\<rparr>))
      | Fast \<Rightarrow> Some (next_instr code n st)
      | Goto t \<Rightarrow> Some (goto n t st))"

text \<open>\<open>main\<close>: every chopstick semaphore is 1; the argument is the waiter's value.\<close>

definition philo_init :: "nat \<Rightarrow> table" where
  "philo_init w = \<lparr>sems = (\<lambda>s. if s < NUM_PHILO then 1 else if s = waiter then w else 0),
     pc = (\<lambda>_. 0), left_var = (\<lambda>_. - 1), times_eating = (\<lambda>_. 0)\<rparr>"

inductive philo_run :: "(nat \<Rightarrow> instr list) \<Rightarrow> nat \<Rightarrow> table \<Rightarrow> bool"
  for prog :: "nat \<Rightarrow> instr list" and w :: nat where
  start: "philo_run prog w (philo_init w)"
| step: "philo_run prog w st \<Longrightarrow> n < NUM_PHILO \<Longrightarrow> exec (prog n) n st = Some st' \<Longrightarrow>
    philo_run prog w st'"

section \<open>The four programs\<close>

definition philo1 :: "nat \<Rightarrow> instr list" where
  "philo1 n = [Wait (LEFT n), Wait (RIGHT n), Eat, Post (RIGHT n), Post (LEFT n)]"

definition philo2 :: "nat \<Rightarrow> instr list" where
  "philo2 n =
     (if n mod 2 = 0 then [Wait (RIGHT n), Wait (LEFT n)] else [Wait (LEFT n), Wait (RIGHT n)])
     @ [Eat, Post (RIGHT n), Post (LEFT n)]"

definition philo3 :: "nat \<Rightarrow> instr list" where
  "philo3 n =
     [TryWait True (LEFT n) 6, TryWait False (RIGHT n) 6, Eat, Post (RIGHT n), Post (LEFT n),
      Goto 0, PostIfLeft (LEFT n), Fast]"

definition philo4 :: "nat \<Rightarrow> instr list" where
  "philo4 n = [Wait waiter, Wait (LEFT n), Wait (RIGHT n), Eat, Post (RIGHT n), Post (LEFT n),
     Post waiter]"

definition eating :: "(nat \<Rightarrow> instr list) \<Rightarrow> table \<Rightarrow> nat \<Rightarrow> bool" where
  "eating prog st n \<longleftrightarrow> prog n ! pc st n = Eat"

definition stuck :: "(nat \<Rightarrow> instr list) \<Rightarrow> table \<Rightarrow> bool" where
  "stuck prog st \<longleftrightarrow> (\<forall>n < NUM_PHILO. exec (prog n) n st = None)"

section \<open>The contract of a semaphore protocol\<close>

text \<open>
  \<open>holds n k l s\<close>: how many units of semaphore \<open>s\<close> philosopher \<open>n\<close> holds at instruction
  \<open>k\<close> with \<open>left = l\<close>. A program keeps the contract when no instruction creates or loses
  a unit; then the units of each semaphore are conserved in every reachable state.
\<close>

locale sem_protocol =
  fixes prog :: "nat \<Rightarrow> instr list" and w :: nat
    and ok :: "nat \<Rightarrow> int \<Rightarrow> bool" and holds :: "nat \<Rightarrow> nat \<Rightarrow> int \<Rightarrow> nat \<Rightarrow> nat"
  assumes ok_start: "ok 0 l"
    and holds_start: "holds n 0 l s = 0"
    and exec_ok: "n < NUM_PHILO \<Longrightarrow> ok (pc st n) (left_var st n) \<Longrightarrow>
      exec (prog n) n st = Some st' \<Longrightarrow> ok (pc st' n) (left_var st' n)"
    and exec_frame: "n < NUM_PHILO \<Longrightarrow> exec (prog n) n st = Some st' \<Longrightarrow> m \<noteq> n \<Longrightarrow>
      pc st' m = pc st m \<and> left_var st' m = left_var st m"
    and exec_holds: "n < NUM_PHILO \<Longrightarrow> ok (pc st n) (left_var st n) \<Longrightarrow>
      exec (prog n) n st = Some st' \<Longrightarrow>
      sems st' s + holds n (pc st' n) (left_var st' n) s =
      sems st s + holds n (pc st n) (left_var st n) s"
begin

lemma run_ok: "philo_run prog w st \<Longrightarrow> m < NUM_PHILO \<Longrightarrow> ok (pc st m) (left_var st m)"
proof (induction rule: philo_run.induct)
  case start
  then show ?case by (simp add: philo_init_def ok_start)
next
  case (step st n st')
  then show ?case using exec_ok [of n st st'] exec_frame [of n st st' m]
    by (cases "m = n") simp_all
qed

lemma units_conserved:
  "philo_run prog w st \<Longrightarrow>
   sems st s + (\<Sum>m < NUM_PHILO. holds m (pc st m) (left_var st m) s) = sems (philo_init w) s"
proof (induction rule: philo_run.induct)
  case start
  then show ?case by (simp add: philo_init_def holds_start)
next
  case (step st n st')
  let ?g = "\<lambda>t m. holds m (pc t m) (left_var t m) s"
  have fin: "finite {..<NUM_PHILO}" and mem: "n \<in> {..<NUM_PHILO}" using step.hyps(2) by simp_all
  have eq: "sum (?g st') ({..<NUM_PHILO} - {n}) = sum (?g st) ({..<NUM_PHILO} - {n})"
    using exec_frame [OF step.hyps(2,3)] by (intro sum.cong) auto
  have ok: "ok (pc st n) (left_var st n)" using run_ok step.hyps(1,2) by blast
  have "sums": "sum (?g st') {..<NUM_PHILO} = ?g st' n + sum (?g st) ({..<NUM_PHILO} - {n})"
    "sum (?g st) {..<NUM_PHILO} = ?g st n + sum (?g st) ({..<NUM_PHILO} - {n})"
    using sum.remove [OF fin mem, of "?g st'"] sum.remove [OF fin mem, of "?g st"] eq by simp_all
  show ?case
    using sums exec_holds [OF step.hyps(2) ok step.hyps(3), of s] step.IH by linarith
qed

lemma two_holders:
  assumes "philo_run prog w st" and "n < NUM_PHILO" and "m < NUM_PHILO" and "n \<noteq> m"
  shows "sems st s + holds n (pc st n) (left_var st n) s + holds m (pc st m) (left_var st m) s
    \<le> sems (philo_init w) s"
proof -
  let ?g = "\<lambda>m. holds m (pc st m) (left_var st m) s"
  have "sum ?g {n, m} \<le> sum ?g {..<NUM_PHILO}" using assms by (intro sum_mono2) auto
  then show ?thesis using units_conserved [OF assms(1), of s] assms(4) by simp
qed

end

text \<open>A program that holds both of its chopsticks whenever it eats.\<close>

locale dining = sem_protocol +
  assumes eat_holds: "n < NUM_PHILO \<Longrightarrow> ok k l \<Longrightarrow> prog n ! k = Eat \<Longrightarrow>
    0 < holds n k l (LEFT n) \<and> 0 < holds n k l (RIGHT n)"
begin

lemma neighbours_exclude:
  assumes run: "philo_run prog w st" and n: "n < NUM_PHILO"
    and e: "eating prog st n" "eating prog st (RIGHT n)"
  shows False
proof -
  have r: "RIGHT n < NUM_PHILO" "RIGHT n \<noteq> n"
    using n by (auto simp: RIGHT_def NUM_PHILO_def) presburger
  have "0 < holds n (pc st n) (left_var st n) (RIGHT n)"
    using eat_holds [OF n run_ok [OF run n]] e(1) by (simp add: eating_def)
  moreover have "0 < holds (RIGHT n) (pc st (RIGHT n)) (left_var st (RIGHT n)) (RIGHT n)"
    using eat_holds [OF r(1) run_ok [OF run r(1)]] e(2) by (simp add: eating_def LEFT_def)
  moreover have "sems (philo_init w) (RIGHT n) = 1" using r by (simp add: philo_init_def)
  ultimately show False using two_holders [OF run n r(1), of "RIGHT n"] r by simp
qed

end

text \<open>Instructions executed one after the other hold what they have waited for and not posted.\<close>

definition line_holds :: "instr list \<Rightarrow> nat \<Rightarrow> nat \<Rightarrow> nat" where
  "line_holds code k s = count_list (take k code) (Wait s) - count_list (take k code) (Post s)"

definition try_holds :: "nat \<Rightarrow> nat \<Rightarrow> int \<Rightarrow> nat \<Rightarrow> nat" where
  "try_holds n k l s =
     (if k = 1 \<and> s = LEFT n \<or> (k = 2 \<or> k = 3) \<and> (s = LEFT n \<or> s = RIGHT n)
         \<or> k = 4 \<and> s = LEFT n \<or> k = 6 \<and> l = 0 \<and> s = LEFT n then 1 else 0)"

section \<open>The programs keep the contract\<close>

lemmas exec_unfold = exec_def next_instr_def goto_def set_sem_def set_left_def

lemma right_ne_left [simp]: "n < NUM_PHILO \<Longrightarrow> RIGHT n \<noteq> LEFT n" "n < NUM_PHILO \<Longrightarrow> LEFT n \<noteq> RIGHT n"
  unfolding NUM_PHILO_def RIGHT_def LEFT_def by presburger+

lemma sem_ranges [simp]: "n < NUM_PHILO \<Longrightarrow> LEFT n < NUM_PHILO" "RIGHT n < NUM_PHILO"
    "n < NUM_PHILO \<Longrightarrow> LEFT n \<noteq> waiter" "RIGHT n \<noteq> waiter"
    "n < NUM_PHILO \<Longrightarrow> waiter \<noteq> LEFT n" "waiter \<noteq> RIGHT n"
proof -
  show "RIGHT n < NUM_PHILO" by (simp add: NUM_PHILO_def RIGHT_def)
  then show "RIGHT n \<noteq> waiter" "waiter \<noteq> RIGHT n" by (auto simp: NUM_PHILO_def waiter_def)
qed (auto simp: NUM_PHILO_def LEFT_def waiter_def)

lemma below_5: "(k :: nat) < 5 \<longleftrightarrow> k = 0 \<or> k = 1 \<or> k = 2 \<or> k = 3 \<or> k = 4"
  and below_7: "(k :: nat) < 7 \<longleftrightarrow> k = 0 \<or> k = 1 \<or> k = 2 \<or> k = 3 \<or> k = 4 \<or> k = 5 \<or> k = 6"
  and below_8: "(k :: nat) < 8 \<longleftrightarrow> k = 0 \<or> k = 1 \<or> k = 2 \<or> k = 3 \<or> k = 4 \<or> k = 5 \<or> k = 6 \<or> k = 7"
  by arith+

lemma exec_frame_any:
  "exec code n st = Some st' \<Longrightarrow> m \<noteq> n \<Longrightarrow> pc st' m = pc st m \<and> left_var st' m = left_var st m"
  by (cases "code ! pc st n") (auto simp: exec_unfold split: if_splits)

interpretation ph1: dining philo1 0 "\<lambda>k l. k < 5" "\<lambda>n k l. line_holds (philo1 n) k"
proof unfold_locales
  fix n and st st' :: table and s
  assume "n < NUM_PHILO" "pc st n < 5" "exec (philo1 n) n st = Some st'"
  then show "sems st' s + line_holds (philo1 n) (pc st' n) s
      = sems st s + line_holds (philo1 n) (pc st n) s"
    unfolding below_5
    by (elim disjE) (auto simp: exec_unfold philo1_def line_holds_def split: if_splits)
next
  fix n and st st' :: table
  assume "pc st n < 5" "exec (philo1 n) n st = Some st'"
  then show "pc st' n < 5"
    unfolding below_5 by (elim disjE) (auto simp: exec_unfold philo1_def split: if_splits)
next
  fix n k
  assume "n < NUM_PHILO" "k < 5" "philo1 n ! k = Eat"
  then show "0 < line_holds (philo1 n) k (LEFT n) \<and> 0 < line_holds (philo1 n) k (RIGHT n)"
    unfolding below_5 by (elim disjE) (auto simp: philo1_def line_holds_def split: if_splits)
qed (auto simp: exec_frame_any line_holds_def)

interpretation ph2: dining philo2 0 "\<lambda>k l. k < 5" "\<lambda>n k l. line_holds (philo2 n) k"
proof unfold_locales
  fix n and st st' :: table and s
  assume "n < NUM_PHILO" "pc st n < 5" "exec (philo2 n) n st = Some st'"
  then show "sems st' s + line_holds (philo2 n) (pc st' n) s
      = sems st s + line_holds (philo2 n) (pc st n) s"
    unfolding below_5
    by (elim disjE) (auto simp: exec_unfold philo2_def line_holds_def split: if_splits)
next
  fix n and st st' :: table
  assume "pc st n < 5" "exec (philo2 n) n st = Some st'"
  then show "pc st' n < 5"
    unfolding below_5 by (elim disjE) (auto simp: exec_unfold philo2_def split: if_splits)
next
  fix n k
  assume "n < NUM_PHILO" "k < 5" "philo2 n ! k = Eat"
  then show "0 < line_holds (philo2 n) k (LEFT n) \<and> 0 < line_holds (philo2 n) k (RIGHT n)"
    unfolding below_5 by (elim disjE) (auto simp: philo2_def line_holds_def split: if_splits)
qed (auto simp: exec_frame_any line_holds_def)

interpretation ph4: dining philo4 4 "\<lambda>k l. k < 7" "\<lambda>n k l. line_holds (philo4 n) k"
proof unfold_locales
  fix n st st' s
  assume "n < NUM_PHILO" "pc st n < 7" "exec (philo4 n) n st = Some st'"
  then show "sems st' s + line_holds (philo4 n) (pc st' n) s
      = sems st s + line_holds (philo4 n) (pc st n) s"
    unfolding below_7
    by (elim disjE) (auto simp: exec_unfold philo4_def line_holds_def split: if_splits)
next
  fix n and st st' :: table
  assume "pc st n < 7" "exec (philo4 n) n st = Some st'"
  then show "pc st' n < 7"
    unfolding below_7 by (elim disjE) (auto simp: exec_unfold philo4_def split: if_splits)
next
  fix n k
  assume "n < NUM_PHILO" "k < 7" "philo4 n ! k = Eat"
  then show "0 < line_holds (philo4 n) k (LEFT n) \<and> 0 < line_holds (philo4 n) k (RIGHT n)"
    unfolding below_7 by (elim disjE) (auto simp: philo4_def line_holds_def split: if_splits)
qed (auto simp: exec_frame_any line_holds_def)

text \<open>In \<open>philo_sem3\<close> the variable \<open>left\<close> is 0 from the first successful trial on.\<close>

definition try_ok :: "nat \<Rightarrow> int \<Rightarrow> bool" where
  "try_ok k l \<longleftrightarrow> k < 8 \<and> (k = 1 \<longrightarrow> l = 0)"

interpretation ph3: dining philo3 0 try_ok try_holds
proof unfold_locales
  fix n st st' s
  assume n: "n < NUM_PHILO" and ok: "try_ok (pc st n) (left_var st n)"
    and ex: "exec (philo3 n) n st = Some st'"
  then have k: "pc st n < 8" by (simp add: try_ok_def)
  show "try_ok (pc st' n) (left_var st' n)"
    using k ex ok unfolding below_8
    by (elim disjE) (auto simp: exec_unfold philo3_def try_ok_def split: if_splits)
  show "sems st' s + try_holds n (pc st' n) (left_var st' n) s
      = sems st s + try_holds n (pc st n) (left_var st n) s"
    using k ex ok n unfolding below_8
    by (elim disjE) (auto simp: exec_unfold philo3_def try_ok_def try_holds_def split: if_splits)
next
  fix n k and l :: int
  assume "n < NUM_PHILO" "try_ok k l" "philo3 n ! k = Eat"
  moreover from this have "k < 8" by (simp add: try_ok_def)
  ultimately show "0 < try_holds n k l (LEFT n) \<and> 0 < try_holds n k l (RIGHT n)"
    unfolding below_8 by (elim disjE) (auto simp: philo3_def try_holds_def)
qed (auto simp: exec_frame_any try_ok_def try_holds_def)

section \<open>Schedules\<close>

text \<open>The state after the philosophers of a list have each executed one instruction.\<close>

primrec run_schedule :: "(nat \<Rightarrow> instr list) \<Rightarrow> nat list \<Rightarrow> table \<Rightarrow> table option" where
  "run_schedule prog [] st = Some st"
| "run_schedule prog (n # ns) st =
     (case exec (prog n) n st of None \<Rightarrow> None | Some st' \<Rightarrow> run_schedule prog ns st')"

lemma run_schedule_append:
  "run_schedule prog (ms @ ns) st =
   (case run_schedule prog ms st of None \<Rightarrow> None | Some st' \<Rightarrow> run_schedule prog ns st')"
  by (induction ms arbitrary: st) (auto split: option.splits)

lemma run_schedule_run:
  "run_schedule prog ns st = Some st' \<Longrightarrow> \<forall>n \<in> set ns. n < NUM_PHILO \<Longrightarrow>
   philo_run prog w st \<Longrightarrow> philo_run prog w st'"
  by (induction ns arbitrary: st) (auto split: option.splits intro: philo_run.step)

text \<open>One round in which everybody takes the left chopstick, fails on the right one, puts
  the left one back and fasts.\<close>

definition fasting_round :: "nat list" where
  "fasting_round = [0, 1, 2, 3, 4, 0, 1, 2, 3, 4, 0, 1, 2, 3, 4, 0, 1, 2, 3, 4]"

definition nobody_ate :: "table \<Rightarrow> bool" where
  "nobody_ate st \<longleftrightarrow> sems st = sems (philo_init 0) \<and> pc st = (\<lambda>_. 0) \<and> times_eating st = (\<lambda>_. 0)"

lemmas table_eval = exec_unfold NUM_PHILO_def RIGHT_def LEFT_def philo_init_def waiter_def

lemma fasting_round_step:
  assumes "nobody_ate st"
  shows "\<exists>st'. run_schedule philo3 fasting_round st = Some st' \<and> nobody_ate st'"
  using assms
  by (simp add: fasting_round_def nobody_ate_def philo3_def table_eval fun_eq_iff)

lemma sum5: "(\<Sum>m < NUM_PHILO. f m) = f 0 + f 1 + f 2 + f 3 + (f 4 :: nat)"
  by (simp add: NUM_PHILO_def eval_nat_numeral)

lemma all5: "(\<forall>n < NUM_PHILO. P n) \<longleftrightarrow> P 0 \<and> P 1 \<and> P 2 \<and> P 3 \<and> P 4"
  unfolding NUM_PHILO_def below_5 by blast

text \<open>Where a philosopher of each program can be blocked.\<close>

lemma blocked_philo2:
  "n < NUM_PHILO \<Longrightarrow> pc st n < 5 \<Longrightarrow> exec (philo2 n) n st = None \<Longrightarrow>
   pc st n = 0 \<and> sems st (if n mod 2 = 0 then RIGHT n else LEFT n) = 0 \<or>
   pc st n = 1 \<and> sems st (if n mod 2 = 0 then LEFT n else RIGHT n) = 0"
  unfolding below_5 by (elim disjE) (auto simp: exec_def philo2_def split: if_splits)

lemma blocked_philo4:
  "n < NUM_PHILO \<Longrightarrow> pc st n < 7 \<Longrightarrow> exec (philo4 n) n st = None \<Longrightarrow>
   pc st n = 0 \<and> sems st waiter = 0 \<or> pc st n = 1 \<and> sems st (LEFT n) = 0 \<or>
   pc st n = 2 \<and> sems st (RIGHT n) = 0"
  unfolding below_7 by (elim disjE) (auto simp: exec_def philo4_def split: if_splits)

lemma never_blocked_philo3: "pc st n < 8 \<Longrightarrow> exec (philo3 n) n st \<noteq> None"
  unfolding below_8 by (elim disjE) (auto simp: exec_def philo3_def)

lemma philo2_not_stuck:
  assumes run: "philo_run philo2 0 st" shows "\<not> stuck philo2 st"
proof
  assume "stuck philo2 st"
  then have bl: "\<forall>n < NUM_PHILO. pc st n = 0 \<and> sems st (if n mod 2 = 0 then RIGHT n else LEFT n) = 0 \<or>
      pc st n = 1 \<and> sems st (if n mod 2 = 0 then LEFT n else RIGHT n) = 0"
    using blocked_philo2 ph2.run_ok [OF run] by (auto simp: stuck_def)
  have line: "line_holds (philo2 m) (pc st m) s =
      (if pc st m = 1 \<and> s = (if m mod 2 = 0 then RIGHT m else LEFT m) then 1 else 0)"
    if "m < NUM_PHILO" for m s
    using bl that by (auto simp: line_holds_def philo2_def)
  have chop: "sems st s + (\<Sum>m < NUM_PHILO. line_holds (philo2 m) (pc st m) s) = 1"
    if "s < NUM_PHILO" for s
    using ph2.units_conserved [OF run, of s] that by (simp add: philo_init_def)
  have "sems st 4 = 1" using chop [of 4] unfolding sum5 by (simp add: line table_eval)
  then have "pc st 4 = 0 \<and> sems st 0 = 0" using bl unfolding all5 by (auto simp: table_eval)
  moreover from this have "line_holds (philo2 4) (pc st 4) 0 = 0" by (simp add: line_holds_def)
  ultimately show False using chop [of 0] unfolding sum5 by (simp add: line table_eval)
qed

lemma philo4_not_stuck:
  assumes run: "philo_run philo4 4 st" shows "\<not> stuck philo4 st"
proof
  assume "stuck philo4 st"
  then have bl: "\<forall>n < NUM_PHILO. pc st n = 0 \<and> sems st waiter = 0 \<or>
      pc st n = 1 \<and> sems st (LEFT n) = 0 \<or> pc st n = 2 \<and> sems st (RIGHT n) = 0"
    using blocked_philo4 ph4.run_ok [OF run] by (auto simp: stuck_def)
  have chop: "\<forall>s < NUM_PHILO. sems st s + (\<Sum>m < NUM_PHILO. line_holds (philo4 m) (pc st m) s) = 1"
    using ph4.units_conserved [OF run] by (simp add: philo_init_def)
  have wait: "sems st waiter + (\<Sum>m < NUM_PHILO. line_holds (philo4 m) (pc st m) waiter) = 4"
    using ph4.units_conserved [OF run, of waiter] by (simp add: philo_init_def waiter_def NUM_PHILO_def)
  have line: "line_holds (philo4 m) (pc st m) s =
      (if 1 \<le> pc st m \<and> s = waiter \<or> pc st m = 2 \<and> s = LEFT m then 1 else 0)"
    if "m < NUM_PHILO" for m s
    using bl that by (auto simp: line_holds_def philo4_def)
  have "pc st m \<noteq> 1" if "m < NUM_PHILO" for m
  proof
    assume 1: "pc st m = 1"
    then have "sems st m = 0" using bl that by (auto simp: LEFT_def)
    moreover have "(\<Sum>m' < NUM_PHILO. line_holds (philo4 m') (pc st m') m) = 0"
      using 1 that by (auto simp: line LEFT_def NUM_PHILO_def waiter_def)
    moreover have "sems st m + (\<Sum>m' < NUM_PHILO. line_holds (philo4 m') (pc st m') m) = 1"
      using chop that by blast
    ultimately show False by linarith
  qed
  then have bl: "\<forall>n < NUM_PHILO. pc st n = 0 \<and> sems st waiter = 0 \<or>
      pc st n = 2 \<and> sems st (RIGHT n) = 0" using bl by auto
  have around: "pc st (RIGHT n) = 2" if "n < NUM_PHILO" "pc st n = 2" for n
  proof -
    have "sems st (RIGHT n) = 0" using bl that by auto
    then have "0 < (\<Sum>m < NUM_PHILO. line_holds (philo4 m) (pc st m) (RIGHT n))"
      using chop sem_ranges(2) [of n] by (metis add_0 zero_less_one)
    then obtain m where "m < NUM_PHILO" "line_holds (philo4 m) (pc st m) (RIGHT n) \<noteq> 0"
      by (metis (mono_tags, lifting) lessThan_iff less_irrefl sum.neutral)
    then show ?thesis by (auto simp: line LEFT_def split: if_splits)
  qed
  have idx: "RIGHT 0 = 1" "RIGHT 1 = 2" "RIGHT 2 = 3" "RIGHT 3 = 4" "RIGHT 4 = 0"
    "0 < NUM_PHILO" "1 < NUM_PHILO" "2 < NUM_PHILO" "3 < NUM_PHILO" "4 < NUM_PHILO"
    by (simp_all add: RIGHT_def NUM_PHILO_def)
  have "pc st 0 = 2 \<Longrightarrow> pc st 1 = 2" "pc st 1 = 2 \<Longrightarrow> pc st 2 = 2" "pc st 2 = 2 \<Longrightarrow> pc st 3 = 2"
    "pc st 3 = 2 \<Longrightarrow> pc st 4 = 2" "pc st 4 = 2 \<Longrightarrow> pc st 0 = 2"
    using around [OF idx(6)] around [OF idx(7)] around [OF idx(8)] around [OF idx(9)] around [OF idx(10)]
    unfolding idx by blast+
  then have "(\<forall>n < NUM_PHILO. pc st n = 2) \<or> (\<forall>n < NUM_PHILO. pc st n = 0)"
    using bl unfolding all5 by metis
  moreover have "sems st waiter + (\<Sum>m < NUM_PHILO. if 1 \<le> pc st m then 1 else 0) = 4"
    using wait by (simp add: line LEFT_def waiter_def NUM_PHILO_def)
  ultimately show False
    using bl unfolding all5 sum5 by (elim disjE conjE) simp_all
qed

section \<open>Properties\<close>

text \<open>C25: in all four programs two neighbours never eat at the same time.\<close>

theorem neighbours_never_eat_together:
  assumes "(prog, w) \<in> {(philo1, 0), (philo2, 0), (philo3, 0), (philo4, 4)}"
    and "philo_run prog w st" and "n < NUM_PHILO"
  shows "\<not> (eating prog st n \<and> eating prog st (RIGHT n))"
  using assms ph1.neighbours_exclude ph2.neighbours_exclude ph3.neighbours_exclude
    ph4.neighbours_exclude by auto

theorem neighbours_never_eat_together_witness:
  "\<exists>st. run_schedule philo1 [0, 0] (philo_init 0) = Some st \<and> eating philo1 st 0 \<and>
     \<not> eating philo1 st (RIGHT 0)"
proof -
  obtain st where st: "run_schedule philo1 [0, 0] (philo_init 0) = Some st"
      "eating philo1 st 0"
    by (simp add: philo1_def table_eval eating_def)
  have "philo_run philo1 0 st"
    using run_schedule_run [OF st(1), of 0] by (simp add: philo_run.start NUM_PHILO_def)
  from neighbours_never_eat_together [OF _ this, of 0] st show ?thesis
    by (auto simp: NUM_PHILO_def)
qed

text \<open>\<open>philo_sem1\<close> can deadlock: when every philosopher has taken the left chopstick,
  none of them can move.\<close>

theorem philo1_deadlock: "\<exists>st. philo_run philo1 0 st \<and> stuck philo1 st"
proof -
  obtain st where st: "run_schedule philo1 [0, 1, 2, 3, 4] (philo_init 0) = Some st"
    "stuck philo1 st"
    by (simp add: stuck_def all5) (simp add: philo1_def table_eval)
  then have "philo_run philo1 0 st"
    by (intro run_schedule_run [OF st(1)] philo_run.start) (simp add: NUM_PHILO_def)
  with st show ?thesis by blast
qed

text \<open>C38: \<open>philo_sem2\<close>, where even philosophers reach for the right chopstick first, and
  \<open>philo_sem4\<close>, where a waiter lets four philosophers into the room, never deadlock: in
  every reachable state some philosopher can go on.\<close>

theorem philo2_philo4_no_deadlock:
  assumes "(prog, w) \<in> {(philo2, 0), (philo4, 4)}" and "philo_run prog w st"
  shows "\<not> stuck prog st"
  using assms philo2_not_stuck philo4_not_stuck by auto

theorem philo2_philo4_no_deadlock_witness:
  "\<exists>st. run_schedule philo4 [0, 0] (philo_init 4) = Some st \<and> \<not> stuck philo4 st"
proof -
  obtain st where st: "run_schedule philo4 [0, 0] (philo_init 4) = Some st"
    by (simp add: philo4_def table_eval)
  have "philo_run philo4 4 st"
    using run_schedule_run [OF st, of 4] by (simp add: philo_run.start NUM_PHILO_def)
  from philo2_philo4_no_deadlock [OF _ this] st show ?thesis by simp
qed

text \<open>In \<open>philo_sem3\<close> nobody is ever blocked, but for every number of rounds there is a
  schedule that runs all five philosophers that many times around the loop without one
  meal: the program can livelock.\<close>

theorem philo3_livelock:
  "(philo_run philo3 0 st \<longrightarrow> n < NUM_PHILO \<longrightarrow> exec (philo3 n) n st \<noteq> None) \<and>
   (\<exists>st'. run_schedule philo3 (concat (replicate k fasting_round)) (philo_init 0) = Some st' \<and>
      pc st' = (\<lambda>_. 0) \<and> times_eating st' = (\<lambda>_. 0))"
proof -
  have "\<exists>st'. run_schedule philo3 (concat (replicate k fasting_round)) (philo_init 0) = Some st' \<and>
      nobody_ate st'"
  proof (induction k)
    case 0
    then show ?case by (simp add: nobody_ate_def philo_init_def)
  next
    case (Suc k)
    have "nobody_ate (philo_init 0)" by (simp add: nobody_ate_def philo_init_def)
    have "concat (replicate (Suc k) fasting_round) = concat (replicate k fasting_round) @ fasting_round"
      by (metis concat_append concat.simps append_Nil2 replicate_append_same replicate_Suc)
    with Suc fasting_round_step show ?case
      by (force simp: run_schedule_append)
  qed
  moreover have "exec (philo3 n) n st \<noteq> None" if "philo_run philo3 0 st" "n < NUM_PHILO"
    using ph3.run_ok [OF that] by (intro never_blocked_philo3) (simp add: try_ok_def)
  ultimately show ?thesis by (auto simp: nobody_ate_def)
qed

theorem philo3_livelock_witness: "exec (philo3 1) 1 (philo_init 0) \<noteq> None"
  using philo3_livelock [of "philo_init 0" 1 0] philo_run.start [of philo3 0] by (simp add: NUM_PHILO_def)

end
