(* ===== verification/Matrix.thy ===== *)
theory Matrix
  imports OS_Prelude
begin

text \<open>
  The matrix multiplications of \<open>inclass5\<close>: sequential (\<open>mm1.c\<close>), with a static
  distribution of the rows over threads (\<open>mm2.c\<close>), and with rows handed out by
  \<open>get_next_row\<close> under a mutex (\<open>mm3.c\<close>), a semaphore (\<open>mm4.c\<close>) or the recursive
  lock \<open>osu_lock_t\<close> (\<open>mm5.c\<close>). The threads run as interleaved steps; every access to
  a shared variable is a step of its own, so \<open>+=\<close> on an entry of the result is a load and a store. The element type is any type with \<open>+\<close> and
  \<open>*\<close>, of which no law is assumed, so the theorems hold for rounded \<open>float\<close> arithmetic.
\<close>

section \<open>Options\<close>

definition DEF_DIM :: int where "DEF_DIM = 1000"
definition MAX_DIM :: int where "MAX_DIM = 4000"

text \<open>The options \<open>-t\<close> and \<open>-d\<close> with the value \<open>atoi\<close> gives, and any other option.\<close>

datatype mm_opt = OptT int | OptD int | OptOther

record mm_args =
  arg_dim :: int
  arg_threads :: int

definition set_dim :: "int \<Rightarrow> int" where
  "set_dim d = (let d = (if d < DEF_DIM then DEF_DIM else d) in if d > MAX_DIM then MAX_DIM else d)"

primrec parse_opt :: "mm_opt \<Rightarrow> mm_args \<Rightarrow> mm_args" where
  "parse_opt (OptT t) a = a\<lparr>arg_threads := t\<rparr>"
| "parse_opt (OptD d) a = a\<lparr>arg_dim := set_dim d\<rparr>"
| "parse_opt OptOther a = a"

definition parse_args :: "mm_opt list \<Rightarrow> mm_args" where
  "parse_args opts =
     (let a = fold parse_opt opts \<lparr>arg_dim = DEF_DIM, arg_threads = 1\<rparr>
      in if arg_threads a < 1 then a\<lparr>arg_threads := 1\<rparr> else a)"

section \<open>The sequential program\<close>

type_synonym 'a matrix = "nat \<Rightarrow> nat \<Rightarrow> 'a"

text \<open>\<open>init\<close>; \<open>flt\<close> converts a whole number to the element type.\<close>

definition init_mat1 :: "(nat \<Rightarrow> 'a) \<Rightarrow> 'a matrix" where
  "init_mat1 flt = (\<lambda>i j. flt ((i + j) * 2))"

definition init_mat2 :: "(nat \<Rightarrow> 'a) \<Rightarrow> 'a matrix" where
  "init_mat2 flt = (\<lambda>i j. flt ((i + j) * 3))"

definition init_res :: "(nat \<Rightarrow> 'a) \<Rightarrow> 'a matrix" where
  "init_res flt = (\<lambda>i j. flt 0)"

text \<open>One \<open>result[i][j] += matrix1[i][k] * matrix2[k][j]\<close>.\<close>

definition add_product :: "'a::{plus,times} matrix \<Rightarrow> 'a matrix \<Rightarrow> nat \<times> nat \<times> nat \<Rightarrow>
    'a matrix \<Rightarrow> 'a matrix" where
  "add_product m1 m2 u res =
     (case u of (i, j, k) \<Rightarrow> res(i := (res i)(j := res i j + m1 i k * m2 k j)))"

text \<open>The updates of row \<open>i\<close> in program order: for every \<open>j\<close>, for every \<open>k\<close>.\<close>

definition row_updates :: "nat \<Rightarrow> nat \<Rightarrow> (nat \<times> nat \<times> nat) list" where
  "row_updates dim i = concat (map (\<lambda>j. map (\<lambda>k. (i, j, k)) [0..<dim]) [0..<dim])"

definition mm1 :: "nat \<Rightarrow> (nat \<Rightarrow> 'a::{plus,times}) \<Rightarrow> 'a matrix" where
  "mm1 dim flt =
     fold (add_product (init_mat1 flt) (init_mat2 flt)) (concat (map (row_updates dim) [0..<dim]))
       (init_res flt)"

section \<open>The threads\<close>

datatype row_source = Static | Mutex | Semaphore | OsuLock

text \<open>
  Where a thread is: in \<open>osu_lock_acquire\<close> (\<open>CheckOwner\<close> to \<open>PostGuard\<close>), in the critical
  section of \<open>get_next_row\<close>, in \<open>osu_lock_release\<close> (\<open>CheckRelease\<close> to \<open>PostLock\<close>), at
  the test of the loop of \<open>mult\<close>, or in its body with some updates left, either before
  the next one or (\<open>Add\<close>) after it has loaded the entry of the result, which \<open>loaded\<close> then holds. The mutex and
  the plain semaphore have the phases \<open>WaitLock\<close> and \<open>PostLock\<close> only.
\<close>

datatype phase = CheckOwner | WaitGuard | WaitLock | SetOwner | PostGuard | ReadRow | StoreRow
  | CheckRelease | ClearOwner | PostLock | Test | Work "(nat \<times> nat \<times> nat) list"
  | Add "nat \<times> nat \<times> nat" "(nat \<times> nat \<times> nat) list" | Done

record 'a mm_state =
  lock_sem :: nat
  guard_sem :: nat
  locking_thread :: "nat option"
  next_row :: nat
  cur_row :: "nat \<Rightarrow> nat"
  phase_of :: "nat \<Rightarrow> phase"
  loaded :: "nat \<Rightarrow> 'a"
  mm_result :: "'a matrix"

abbreviation at :: "nat \<Rightarrow> phase \<Rightarrow> 'a mm_state \<Rightarrow> 'a mm_state" where
  "at t p st \<equiv> st\<lparr>phase_of := (phase_of st)(t := p)\<rparr>"

text \<open>The call of \<open>get_next_row\<close> starts with the first action on the lock.\<close>

definition enter :: "row_source \<Rightarrow> phase" where
  "enter s = (if s = OsuLock then CheckOwner else WaitLock)"

definition load_entry :: "nat \<times> nat \<times> nat \<Rightarrow> 'a matrix \<Rightarrow> 'a" where
  "load_entry u res = (case u of (i, j, k) \<Rightarrow> res i j)"

definition store_sum :: "'a::{plus,times} matrix \<Rightarrow> 'a matrix \<Rightarrow> nat \<times> nat \<times> nat \<Rightarrow> 'a \<Rightarrow> 'a matrix \<Rightarrow> 'a matrix" where
  "store_sum m1 m2 u v res = (case u of (i, j, k) \<Rightarrow> res(i := (res i)(j := v + m1 i k * m2 k j)))"

lemma store_loaded: "store_sum m1 m2 u (load_entry u res) res = add_product m1 m2 u res"
  by (simp add: store_sum_def load_entry_def add_product_def split: prod.split)

definition mm_step :: "row_source \<Rightarrow> nat \<Rightarrow> 'a::{plus,times} matrix \<Rightarrow> 'a matrix \<Rightarrow> nat \<Rightarrow>
    'a mm_state \<Rightarrow> 'a mm_state option" where
  "mm_step s dim m1 m2 t st =
     (case phase_of st t of
        CheckOwner \<Rightarrow> Some (at t (if locking_thread st = Some t then ReadRow else WaitGuard) st)
      | WaitGuard \<Rightarrow> if 0 < guard_sem st
                    then Some (at t WaitLock (st\<lparr>guard_sem := guard_sem st - 1\<rparr>)) else None
      | WaitLock \<Rightarrow> if 0 < lock_sem st
                   then Some (at t (if s = OsuLock then SetOwner else ReadRow)
                               (st\<lparr>lock_sem := lock_sem st - 1\<rparr>)) else None
      | SetOwner \<Rightarrow> Some (at t PostGuard (st\<lparr>locking_thread := Some t\<rparr>))
      | PostGuard \<Rightarrow> Some (at t ReadRow (st\<lparr>guard_sem := guard_sem st + 1\<rparr>))
      | ReadRow \<Rightarrow> Some (at t StoreRow (st\<lparr>cur_row := (cur_row st)(t := next_row st)\<rparr>))
      | StoreRow \<Rightarrow> Some (at t (if s = OsuLock then CheckRelease else PostLock)
                            (st\<lparr>next_row := cur_row st t + 1\<rparr>))
      | CheckRelease \<Rightarrow> Some (at t (if locking_thread st \<noteq> Some t then Test else ClearOwner) st)
      | ClearOwner \<Rightarrow> Some (at t PostLock (st\<lparr>locking_thread := None\<rparr>))
      | PostLock \<Rightarrow> Some (at t Test (st\<lparr>lock_sem := lock_sem st + 1\<rparr>))
      | Test \<Rightarrow> Some (at t (if cur_row st t < dim then Work (row_updates dim (cur_row st t))
                          else Done) st)
      | Work us \<Rightarrow>
          (case us of
             [] \<Rightarrow> Some (at t (if s = Static then Done else enter s) st)
           | u # us \<Rightarrow> Some (at t (Add u us) (st\<lparr>loaded := (loaded st)(t := load_entry u (mm_result st))\<rparr>)))
      | Add u us \<Rightarrow> Some (at t (Work us)
                       (st\<lparr>mm_result := store_sum m1 m2 u (loaded st t) (mm_result st)\<rparr>))
      | Done \<Rightarrow> None)"

text \<open>The rows of thread \<open>i\<close> of \<open>mm2.c\<close>; the number of threads is at least 1.\<close>

function static_rows :: "nat \<Rightarrow> nat \<Rightarrow> nat \<Rightarrow> nat list" where
  "static_rows i n dim = (if i < dim \<and> 0 < n then i # static_rows (i + n) n dim else [])"
  by auto
termination by (relation "measure (\<lambda>(i, n, dim). dim - i)") auto

declare static_rows.simps [simp del]

text \<open>\<open>main\<close>: initialised locks and matrices, \<open>n\<close> threads about to start.\<close>

definition mm_init :: "row_source \<Rightarrow> nat \<Rightarrow> nat \<Rightarrow> (nat \<Rightarrow> 'a) \<Rightarrow> 'a mm_state" where
  "mm_init s dim n flt =
     \<lparr>lock_sem = 1, guard_sem = 1, locking_thread = None, next_row = 0, cur_row = (\<lambda>_. 0),
      phase_of = (\<lambda>t. if n \<le> t then Done
                     else if s = Static then Work (concat (map (row_updates dim) (static_rows t n dim)))
                     else enter s),
      loaded = (\<lambda>_. flt 0), mm_result = init_res flt\<rparr>"

inductive mm_run :: "row_source \<Rightarrow> nat \<Rightarrow> nat \<Rightarrow> (nat \<Rightarrow> 'a::{plus,times}) \<Rightarrow> 'a mm_state \<Rightarrow> bool"
  for s dim n flt where
  start: "mm_run s dim n flt (mm_init s dim n flt)"
| step: "mm_run s dim n flt st \<Longrightarrow> mm_step s dim (init_mat1 flt) (init_mat2 flt) t st = Some st' \<Longrightarrow>
    mm_run s dim n flt st'"

section \<open>Rows\<close>

text \<open>An update changes one row only; \<open>row_apply\<close> is what it does to that row.\<close>

definition row_apply :: "'a::{plus,times} matrix \<Rightarrow> 'a matrix \<Rightarrow> nat \<times> nat \<times> nat \<Rightarrow>
    (nat \<Rightarrow> 'a) \<Rightarrow> nat \<Rightarrow> 'a" where
  "row_apply m1 m2 u r = (case u of (i, j, k) \<Rightarrow> r(j := r j + m1 i k * m2 k j))"

abbreviation on_row :: "nat \<Rightarrow> (nat \<times> nat \<times> nat) list \<Rightarrow> (nat \<times> nat \<times> nat) list" where
  "on_row i us \<equiv> filter (\<lambda>u. fst u = i) us"

lemma add_product_row:
  "add_product m1 m2 u res i = (if fst u = i then row_apply m1 m2 u (res i) else res i)"
  by (cases u) (auto simp: add_product_def row_apply_def)

lemma fold_add_product_row:
  "fold (add_product m1 m2) us res i = fold (row_apply m1 m2) (on_row i us) (res i)"
  by (induction us arbitrary: res) (auto simp: add_product_row)

lemma row_updates_fst: "u \<in> set (row_updates dim i) \<Longrightarrow> fst u = i"
  by (auto simp: row_updates_def)

lemma on_row_updates: "on_row i (row_updates dim a) = (if a = i then row_updates dim i else [])"
proof (cases "a = i")
  case True
  then show ?thesis using row_updates_fst by (metis (mono_tags, lifting) filter_True)
next
  case False
  then show ?thesis using row_updates_fst by (metis (mono_tags, lifting) filter_False)
qed

lemma on_rows:
  "distinct rows \<Longrightarrow> on_row i (concat (map (row_updates dim) rows)) =
   (if i \<in> set rows then row_updates dim i else [])"
  by (induction rows) (auto simp: on_row_updates)

lemma mm1_row:
  "mm1 dim flt i = fold (row_apply (init_mat1 flt) (init_mat2 flt))
     (if i < dim then row_updates dim i else []) (init_res flt i)"
  by (simp add: mm1_def fold_add_product_row on_rows)

lemma set_static_rows:
  "0 < n \<Longrightarrow> x \<in> set (static_rows i n dim) \<longleftrightarrow> i \<le> x \<and> x < dim \<and> (x - i) mod n = 0"
proof (induction i n dim rule: static_rows.induct)
  case (1 i n dim)
  show ?case
  proof (cases "i < dim")
    case True
    then have "x \<in> set (static_rows i n dim) \<longleftrightarrow>
        x = i \<or> i + n \<le> x \<and> x < dim \<and> (x - (i + n)) mod n = 0"
      using 1 by (simp add: static_rows.simps [of i])
    also have "\<dots> \<longleftrightarrow> i \<le> x \<and> x < dim \<and> (x - i) mod n = 0"
    proof (cases "i + n \<le> x")
      case True
      then have "x - i = (x - (i + n)) + n" by simp
      then have "(x - i) mod n = (x - (i + n)) mod n" by (metis mod_add_self2)
      with True \<open>0 < n\<close> show ?thesis by auto
    next
      case False
      then have "(x - i) mod n = x - i" using \<open>0 < n\<close> by (intro mod_less) arith
      with False True show ?thesis by auto
    qed
    finally show ?thesis .
  qed (simp add: static_rows.simps [of i])
qed

lemma distinct_static_rows: "0 < n \<Longrightarrow> distinct (static_rows i n dim)"
proof (induction i n dim rule: static_rows.induct)
  case (1 i n dim)
  then show ?case by (subst static_rows.simps) (auto simp: set_static_rows)
qed

lemma static_rows_owner:
  assumes "t < n" shows "x \<in> set (static_rows t n dim) \<longleftrightarrow> x < dim \<and> x mod n = t"
proof -
  have "t \<le> x \<and> (x - t) mod n = 0 \<longleftrightarrow> x mod n = t"
  proof
    assume a: "t \<le> x \<and> (x - t) mod n = 0"
    then obtain q where "x - t = n * q" by auto
    with a have "x = t + n * q" by simp
    then show "x mod n = t" using assms by simp
  next
    assume "x mod n = t"
    then show "t \<le> x \<and> (x - t) mod n = 0"
      by (metis minus_mod_eq_mult_div mod_less_eq_dividend mod_mult_self1_is_0)
  qed
  then show ?thesis using assms set_static_rows [of n x t dim] by auto
qed

section \<open>The lock protocols\<close>

text \<open>The phases in which a thread holds the lock, holds the guard, and owns the lock.\<close>

definition holds_lock :: "phase \<Rightarrow> bool" where
  "holds_lock p \<longleftrightarrow>
     p \<in> {SetOwner, PostGuard, ReadRow, StoreRow, CheckRelease, ClearOwner, PostLock}"

definition holds_guard :: "phase \<Rightarrow> bool" where
  "holds_guard p \<longleftrightarrow> p \<in> {WaitLock, SetOwner, PostGuard}"

definition owns :: "phase \<Rightarrow> bool" where
  "owns p \<longleftrightarrow> p \<in> {PostGuard, ReadRow, StoreRow, CheckRelease, ClearOwner}"

definition osu_only :: "phase \<Rightarrow> bool" where
  "osu_only p \<longleftrightarrow> p \<in> {CheckOwner, WaitGuard, SetOwner, PostGuard, CheckRelease, ClearOwner}"

lemmas phase_sets = holds_lock_def holds_guard_def owns_def osu_only_def enter_def

definition lock_inv :: "row_source \<Rightarrow> 'a mm_state \<Rightarrow> bool" where
  "lock_inv s st \<longleftrightarrow>
     sem_ok (lock_sem st) holds_lock (phase_of st) \<and>
     (s = OsuLock \<longrightarrow> sem_ok (guard_sem st) holds_guard (phase_of st) \<and>
        (\<forall>t. locking_thread st = Some t \<longleftrightarrow> owns (phase_of st t))) \<and>
     (s \<noteq> OsuLock \<longrightarrow> (\<forall>t. \<not> osu_only (phase_of st t))) \<and>
     (\<forall>t. phase_of st t = StoreRow \<longrightarrow> cur_row st t = next_row st)"

lemma lock_inv_init: "lock_inv s (mm_init s dim n flt)"
  by (auto simp: lock_inv_def mm_init_def sem_ok_def phase_sets split: if_splits)

lemma lock_inv_step:
  assumes inv: "lock_inv s st" and ex: "mm_step s dim m1 m2 t st = Some st'"
  shows "lock_inv s st'"
proof -
  let ?ph = "phase_of st"
  have lk: "sem_ok (lock_sem st) holds_lock ?ph"
    and gd: "s = OsuLock \<Longrightarrow> sem_ok (guard_sem st) holds_guard ?ph"
    and ow: "s = OsuLock \<Longrightarrow> \<forall>t. locking_thread st = Some t \<longleftrightarrow> owns (?ph t)"
    and os: "s \<noteq> OsuLock \<Longrightarrow> \<forall>t. \<not> osu_only (?ph t)"
    and st: "\<forall>t. ?ph t = StoreRow \<longrightarrow> cur_row st t = next_row st"
    using inv by (auto simp: lock_inv_def)
  have one: "u = t" if "holds_lock (?ph u)" "holds_lock (?ph t)" for u
    using sem_ok_unique [OF lk that] .
  have chk: "?ph t = CheckOwner \<Longrightarrow> locking_thread st \<noteq> Some t"
      "?ph t = CheckRelease \<Longrightarrow> locking_thread st = Some t"
    using ow os by (cases "s = OsuLock"; force simp: phase_sets)+
  have "sem_ok (lock_sem st') holds_lock (phase_of st')"
    using ex chk sem_ok_take [OF lk] sem_ok_put [OF lk, of t] sem_ok_keep [OF lk, of _ t] os
    by (cases "?ph t") (auto simp: mm_step_def phase_sets split: if_splits list.splits)
  moreover have "sem_ok (guard_sem st') holds_guard (phase_of st')" if "s = OsuLock"
    using ex that sem_ok_take [OF gd] sem_ok_put [OF gd, of t] sem_ok_keep [OF gd, of _ t]
    by (cases "?ph t") (auto simp: mm_step_def phase_sets split: if_splits list.splits)
  moreover have "locking_thread st' = Some u \<longleftrightarrow> owns (phase_of st' u)" if "s = OsuLock" for u
  proof (cases "u = t")
    case True
    then show ?thesis using ex that ow [OF that, rule_format, of t] chk
      by (cases "?ph t") (clarsimp simp: mm_step_def phase_sets split: if_splits list.splits)+
  next
    case False
    have "\<not> owns (?ph u)" if "?ph t = SetOwner \<or> ?ph t = ClearOwner"
      using one [of u] that False by (auto simp: phase_sets)
    then show ?thesis using ex that False ow [OF that, rule_format, of u]
      by (cases "?ph t") (clarsimp simp: mm_step_def split: if_splits list.splits)+
  qed
  moreover have "\<not> osu_only (phase_of st' u)" if "s \<noteq> OsuLock" for u
    using ex os [OF that] that
    by (cases "?ph t") (auto simp: mm_step_def phase_sets split: if_splits list.splits)
  moreover have "cur_row st' u = next_row st'" if "phase_of st' u = StoreRow" for u
    using ex st that one [of u]
    by (cases "?ph t") (auto simp: mm_step_def phase_sets split: if_splits list.splits)
  ultimately show ?thesis by (simp add: lock_inv_def)
qed

lemma mm_run_lock_inv: "mm_run s dim n flt st \<Longrightarrow> lock_inv s st"
  by (induction rule: mm_run.induct) (auto intro: lock_inv_init lock_inv_step)

section \<open>Every row is computed once\<close>

text \<open>The updates a thread has committed itself to.\<close>

definition todo :: "nat \<Rightarrow> 'a mm_state \<Rightarrow> nat \<Rightarrow> (nat \<times> nat \<times> nat) list" where
  "todo dim st t =
     (case phase_of st t of
        Work us \<Rightarrow> us
      | Add u us \<Rightarrow> u # us
      | p \<Rightarrow> if p \<in> {CheckRelease, ClearOwner, PostLock, Test} \<and> cur_row st t < dim
            then row_updates dim (cur_row st t) else [])"

definition given :: "row_source \<Rightarrow> 'a mm_state \<Rightarrow> nat \<Rightarrow> bool" where
  "given s st i \<longleftrightarrow> s = Static \<or> i < next_row st"

text \<open>
  Row \<open>i\<close> of the result has seen a prefix \<open>dn\<close> of its updates; the rest \<open>us\<close> is what one
  thread has still to do for it, and no other thread has anything to do for it.
\<close>

definition row_ok :: "row_source \<Rightarrow> nat \<Rightarrow> (nat \<Rightarrow> 'a::{plus,times}) \<Rightarrow> 'a mm_state \<Rightarrow> nat \<Rightarrow> bool" where
  "row_ok s dim flt st i \<longleftrightarrow>
     (\<exists>dn us. (if i < dim then row_updates dim i else []) = dn @ us \<and>
        mm_result st i = fold (row_apply (init_mat1 flt) (init_mat2 flt)) dn (init_res flt i) \<and>
        (if given s st i
         then \<exists>t. on_row i (todo dim st t) = us \<and> (\<forall>u. u \<noteq> t \<longrightarrow> on_row i (todo dim st u) = [])
         else dn = [] \<and> (\<forall>u. on_row i (todo dim st u) = [])))"

definition row_inv :: "row_source \<Rightarrow> nat \<Rightarrow> nat \<Rightarrow> (nat \<Rightarrow> 'a::{plus,times}) \<Rightarrow> 'a mm_state \<Rightarrow> bool" where
  "row_inv s dim n flt st \<longleftrightarrow>
     (\<forall>i. row_ok s dim flt st i) \<and>
     (s = Static \<longrightarrow> (\<forall>t. \<exists>u us. phase_of st t \<in> {Work us, Add u us, Done})) \<and>
     (\<forall>t u us. phase_of st t = Add u us \<longrightarrow> loaded st t = load_entry u (mm_result st)) \<and>
     (\<forall>t. phase_of st t \<in> {CheckRelease, ClearOwner, PostLock, Test} \<longrightarrow> cur_row st t < next_row st) \<and>
     (s \<noteq> Static \<longrightarrow> (\<forall>t < n. phase_of st t = Done \<longrightarrow> dim < next_row st))"

lemma row_ok_cong:
  "row_ok s dim flt st i \<Longrightarrow> \<forall>u. on_row i (todo dim st' u) = on_row i (todo dim st u) \<Longrightarrow>
   mm_result st' i = mm_result st i \<Longrightarrow> given s st' i = given s st i \<Longrightarrow> row_ok s dim flt st' i"
  by (simp only: row_ok_def)

lemma todo_other: "phase_of st' u = phase_of st u \<Longrightarrow> cur_row st' u = cur_row st u \<Longrightarrow>
    todo dim st' u = todo dim st u"
  by (simp add: todo_def split: phase.splits)

lemma row_inv_init:
  assumes "0 < n" shows "row_inv s dim n flt (mm_init s dim n flt)"
proof -
  let ?st = "mm_init s dim n flt"
  have "row_ok s dim flt ?st i" for i
  proof (cases "s = Static")
    case True
    then have td: "on_row i (todo dim ?st u) =
        (if u < n \<and> i < dim \<and> i mod n = u then row_updates dim i else [])" for u
      by (auto simp: todo_def mm_init_def on_rows distinct_static_rows static_rows_owner assms)
    let ?us = "if i < dim then row_updates dim i else []"
    have "on_row i (todo dim ?st (i mod n)) = ?us" using assms by (simp add: td)
    moreover have "\<forall>u. u \<noteq> i mod n \<longrightarrow> on_row i (todo dim ?st u) = []" by (simp add: td)
    moreover have "mm_result ?st i = init_res flt i" by (simp add: mm_init_def)
    ultimately show ?thesis
      unfolding row_ok_def given_def using True
      by - (rule exI [of _ "[]"], rule exI [of _ ?us], auto)
  next
    case False
    then have td: "todo dim ?st u = []" for u
      by (auto simp: todo_def mm_init_def enter_def)
    show ?thesis
      unfolding row_ok_def
      by (intro exI [of _ "[]"] exI [of _ "if i < dim then row_updates dim i else []"])
        (simp add: td given_def False, simp add: mm_init_def)
  qed
  then show ?thesis by (auto simp: row_inv_def) (auto simp: mm_init_def enter_def split: if_splits)
qed

text \<open>Only one thread has something to do for a row.\<close>

lemma row_ok_unique:
  "row_ok s dim flt st i \<Longrightarrow> on_row i (todo dim st t) \<noteq> [] \<Longrightarrow> on_row i (todo dim st u) \<noteq> [] \<Longrightarrow> t = u"
  unfolding row_ok_def by (metis (full_types))

text \<open>A step that stores neither an entry nor the row counter leaves every row as it is.\<close>

lemma todo_quiet_step:
  assumes ex: "mm_step s dim m1 m2 t st = Some st'"
    and ph: "phase_of st t \<noteq> StoreRow" "\<forall>u us. phase_of st t \<noteq> Add u us"
  shows "todo dim st' u = todo dim st u \<and> mm_result st' = mm_result st \<and> next_row st' = next_row st"
proof (cases "u = t")
  case True
  then show ?thesis using ex ph
    by (cases "phase_of st t")
      (auto simp: mm_step_def todo_def enter_def split: if_splits list.splits)
next
  case False
  then have "phase_of st' u = phase_of st u \<and> cur_row st' u = cur_row st u \<and>
      mm_result st' = mm_result st \<and> next_row st' = next_row st" using ex ph
    by (cases "phase_of st t") (auto simp: mm_step_def split: if_splits list.splits)
  then show ?thesis using todo_other [of st' u st] by blast
qed

lemma row_ok_store:
  assumes ok: "row_ok s dim flt st i" and ph: "phase_of st t = StoreRow"
    and cur: "cur_row st t = next_row st" and dyn: "s \<noteq> Static"
    and ex: "mm_step s dim (init_mat1 flt) (init_mat2 flt) t st = Some st'"
  shows "row_ok s dim flt st' i"
proof -
  let ?r = "next_row st"
  have st': "st' = at t (if s = OsuLock then CheckRelease else PostLock) (st\<lparr>next_row := ?r + 1\<rparr>)"
    using ex ph cur by (simp add: mm_step_def)
  have old: "todo dim st t = []" using ph by (simp add: todo_def)
  have new: "todo dim st' t = (if ?r < dim then row_updates dim ?r else [])"
    by (simp add: todo_def st' cur)
  have other: "todo dim st' u = todo dim st u" if "u \<noteq> t" for u
    using that by (intro todo_other) (simp_all add: st')
  have res: "mm_result st' = mm_result st" by (simp add: st')
  show ?thesis
  proof (cases "i = ?r")
    case False
    then have "on_row i (todo dim st' u) = on_row i (todo dim st u)" for u
      using old new other [of u] by (cases "u = t") (simp_all add: on_row_updates)
    moreover have "given s st' i = given s st i" using False by (auto simp: given_def st')
    ultimately show ?thesis using res by (intro row_ok_cong [OF ok]) simp_all
  next
    case True
    then have g: "\<not> given s st i" "given s st' i" using dyn by (simp_all add: given_def st')
    then have o: "mm_result st i = init_res flt i" "\<forall>u. on_row i (todo dim st u) = []"
      using ok by (auto simp: row_ok_def)
    have "on_row i (todo dim st' t) = (if i < dim then row_updates dim i else [])"
      using new True by (simp add: on_row_updates)
    moreover have "\<forall>u. u \<noteq> t \<longrightarrow> on_row i (todo dim st' u) = []" using o other by simp
    ultimately show ?thesis
      unfolding row_ok_def using g o res
      by - (rule exI [of _ "[]"], rule exI [of _ "if i < dim then row_updates dim i else []"], auto)
  qed
qed

lemma row_ok_work:
  assumes ok: "row_ok s dim flt st i" and ph: "phase_of st t = Add x xs" and ld: "loaded st t = load_entry x (mm_result st)"
    and ex: "mm_step s dim (init_mat1 flt) (init_mat2 flt) t st = Some st'"
  shows "row_ok s dim flt st' i"
proof -
  let ?m1 = "init_mat1 flt" and ?m2 = "init_mat2 flt"
  have st': "st' = at t (Work xs) (st\<lparr>mm_result := add_product ?m1 ?m2 x (mm_result st)\<rparr>)"
    using ex ph ld by (simp add: mm_step_def store_loaded)
  have old: "todo dim st t = x # xs" and new: "todo dim st' t = xs"
    using ph by (simp_all add: todo_def st')
  have other: "todo dim st' u = todo dim st u" if "u \<noteq> t" for u
    using that by (intro todo_other) (simp_all add: st')
  have g: "given s st' i = given s st i" by (simp add: given_def st')
  show ?thesis
  proof (cases "fst x = i")
    case False
    moreover have "on_row i (todo dim st' u) = on_row i (todo dim st u)" for u
      using False old new other [of u] by (cases "u = t") simp_all
    ultimately show ?thesis
      using g by (intro row_ok_cong [OF ok]) (auto simp: st' add_product_row)
  next
    case True
    from ok obtain dn us where split: "(if i < dim then row_updates dim i else []) = dn @ us"
      and r: "mm_result st i = fold (row_apply ?m1 ?m2) dn (init_res flt i)"
      and w: "if given s st i
        then \<exists>t. on_row i (todo dim st t) = us \<and> (\<forall>u. u \<noteq> t \<longrightarrow> on_row i (todo dim st u) = [])
        else dn = [] \<and> (\<forall>u. on_row i (todo dim st u) = [])"
      unfolding row_ok_def by blast
    have ne: "on_row i (todo dim st t) = x # on_row i xs" using old True by simp
    with w have giv: "given s st i" by (metis list.discI)
    then obtain t0 where t0: "on_row i (todo dim st t0) = us"
      "\<forall>u. u \<noteq> t0 \<longrightarrow> on_row i (todo dim st u) = []" using w by auto
    with ne have "t0 = t" by (metis list.discI)
    then have us: "us = x # on_row i xs" and rest: "\<forall>u. u \<noteq> t \<longrightarrow> on_row i (todo dim st' u) = []"
      using t0 ne other by simp_all
    have "mm_result st' i = fold (row_apply ?m1 ?m2) (dn @ [x]) (init_res flt i)"
      using r True by (simp add: st' add_product_row)
    moreover have "(if i < dim then row_updates dim i else []) = (dn @ [x]) @ on_row i xs"
      using split us by simp
    ultimately show ?thesis
      unfolding row_ok_def using g giv new rest
      by - (rule exI [of _ "dn @ [x]"], rule exI [of _ "on_row i xs"], auto)
  qed
qed

lemma row_inv_step:
  assumes inv: "row_inv s dim n flt st" and lk: "lock_inv s st"
    and ex: "mm_step s dim (init_mat1 flt) (init_mat2 flt) t st = Some st'"
  shows "row_inv s dim n flt st'"
proof -
  have ok: "\<And>i. row_ok s dim flt st i"
    and sta: "s = Static \<Longrightarrow> \<exists>v us. phase_of st u \<in> {Work us, Add v us, Done}"
    and ld: "phase_of st u = Add v vs \<Longrightarrow> loaded st u = load_entry v (mm_result st)"
    and cur: "phase_of st u \<in> {CheckRelease, ClearOwner, PostLock, Test} \<Longrightarrow> cur_row st u < next_row st"
    and fin: "s \<noteq> Static \<Longrightarrow> u < n \<Longrightarrow> phase_of st u = Done \<Longrightarrow> dim < next_row st" for u v vs
    using inv unfolding row_inv_def by blast+
  have crit: "phase_of st t = StoreRow \<Longrightarrow> cur_row st t = next_row st"
    using lk by (simp add: lock_inv_def)
  have "row_ok s dim flt st' i" for i
  proof -
    consider "phase_of st t = StoreRow" | x xs where "phase_of st t = Add x xs"
      | "phase_of st t \<noteq> StoreRow" "\<forall>u us. phase_of st t \<noteq> Add u us" by blast
    then show ?thesis
    proof cases
      case 1
      then have "s \<noteq> Static" using sta [of t] by auto
      then show ?thesis using row_ok_store [OF ok 1 crit [OF 1] _ ex] by blast
    next
      case 2
      then show ?thesis using row_ok_work [OF ok 2 ld [OF 2] ex] by blast
    next
      case 3
      note q = todo_quiet_step [OF ex 3]
      then show ?thesis by (intro row_ok_cong [OF ok]) (simp_all add: q given_def)
    qed
  qed
  moreover have "loaded st' u = load_entry v (mm_result st')" if p: "phase_of st' u = Add v vs" for u v vs
  proof (cases "u = t")
    case True
    then show ?thesis using p ex
      by (cases "phase_of st t") (auto simp: mm_step_def enter_def split: if_splits list.splits)
  next
    case False
    then have same: "phase_of st u = Add v vs" "loaded st' u = loaded st u"
      using p ex by (cases "phase_of st t"; auto simp: mm_step_def split: if_splits list.splits)+
    have "mm_result st' (fst v) = mm_result st (fst v)"
    proof (cases "\<exists>x xs. phase_of st t = Add x xs")
      case True
      then obtain x xs where x: "phase_of st t = Add x xs" by blast
      have "fst x \<noteq> fst v"
        using row_ok_unique [OF ok, of "fst v" t u] False x same(1) by (auto simp: todo_def)
      then show ?thesis using ex x ld [OF x] by (auto simp: mm_step_def store_loaded add_product_row)
    next
      case False
      then show ?thesis using ex by (cases "phase_of st t") (auto simp: mm_step_def split: if_splits list.splits)
    qed
    then show ?thesis using same ld [OF same(1)] by (simp add: load_entry_def split: prod.splits)
  qed
  moreover have "\<exists>v us. phase_of st' u \<in> {Work us, Add v us, Done}" if "s = Static" for u
    using sta [OF that, of u] sta [OF that, of t] ex that
    by (cases "phase_of st t") (auto simp: mm_step_def split: if_splits list.splits)
  moreover have mono: "next_row st \<le> next_row st'"
    using ex crit by (cases "phase_of st t") (auto simp: mm_step_def split: if_splits list.splits)
  moreover have "cur_row st' u < next_row st'"
    if "phase_of st' u \<in> {CheckRelease, ClearOwner, PostLock, Test}" for u
  proof (cases "u = t")
    case True
    then show ?thesis using that ex crit cur [of t]
      by (cases "phase_of st t") (auto simp: mm_step_def enter_def split: if_splits list.splits)
  next
    case False
    then have "phase_of st' u = phase_of st u \<and> cur_row st' u = cur_row st u"
      using ex by (cases "phase_of st t") (auto simp: mm_step_def split: if_splits list.splits)
    then show ?thesis using cur [of u] that mono by simp
  qed
  moreover have "dim < next_row st'" if "s \<noteq> Static" "u < n" "phase_of st' u = Done" for u
  proof (cases "u = t")
    case True
    then show ?thesis using that ex cur [of t]
      by (cases "phase_of st t") (auto simp: mm_step_def enter_def split: if_splits list.splits)
  next
    case False
    then have "phase_of st' u = phase_of st u"
      using ex by (cases "phase_of st t") (auto simp: mm_step_def split: if_splits list.splits)
    then show ?thesis using fin [of u] that mono by simp
  qed
  ultimately show ?thesis unfolding row_inv_def by blast
qed

lemma mm_run_row_inv: "mm_run s dim n flt st \<Longrightarrow> 0 < n \<Longrightarrow> row_inv s dim n flt st"
  by (induction rule: mm_run.induct) (auto intro: row_inv_init row_inv_step mm_run_lock_inv)

lemma idle_threads: "mm_run s dim n flt st \<Longrightarrow> n \<le> t \<Longrightarrow> phase_of st t = Done"
proof (induction rule: mm_run.induct)
  case (step st u st')
  then have "u \<noteq> t" by (auto simp: mm_step_def)
  then show ?case using step
    by (cases "phase_of st u") (auto simp: mm_step_def split: if_splits list.splits)
qed (simp add: mm_init_def)

text \<open>The state after the threads of a list have taken one step each.\<close>

primrec mm_schedule :: "row_source \<Rightarrow> nat \<Rightarrow> (nat \<Rightarrow> 'a::{plus,times}) \<Rightarrow> nat list \<Rightarrow> 'a mm_state \<Rightarrow>
    'a mm_state option" where
  "mm_schedule s dim flt [] st = Some st"
| "mm_schedule s dim flt (t # ts) st =
     (case mm_step s dim (init_mat1 flt) (init_mat2 flt) t st of
        None \<Rightarrow> None | Some st' \<Rightarrow> mm_schedule s dim flt ts st')"

lemma mm_schedule_run:
  "mm_schedule s dim flt ts st = Some st' \<Longrightarrow> mm_run s dim n flt st \<Longrightarrow> mm_run s dim n flt st'"
  by (induction ts arbitrary: st) (auto split: option.splits intro: mm_run.step)

lemmas mm_eval = mm_step_def mm_init_def enter_def row_updates_def load_entry_def store_sum_def
  init_mat1_def init_mat2_def init_res_def fun_upd_def

lemma row_ok_idle:
  assumes ok: "row_ok s dim flt st i" and idle: "\<And>t. todo dim st t = []"
    and g: "i < dim \<Longrightarrow> given s st i"
  shows "mm_result st i = mm1 dim flt i"
proof -
  from ok obtain dn us where split: "(if i < dim then row_updates dim i else []) = dn @ us"
    and r: "mm_result st i = fold (row_apply (init_mat1 flt) (init_mat2 flt)) dn (init_res flt i)"
    and w: "if given s st i
        then \<exists>t. on_row i (todo dim st t) = us \<and> (\<forall>u. u \<noteq> t \<longrightarrow> on_row i (todo dim st u) = [])
        else dn = [] \<and> (\<forall>u. on_row i (todo dim st u) = [])"
    unfolding row_ok_def by blast
  have "dn = (if i < dim then row_updates dim i else [])"
  proof (cases "given s st i")
    case True
    then have "us = []" using w by (simp add: idle)
    with split show ?thesis by simp
  next
    case False
    then show ?thesis using g w by auto
  qed
  then show ?thesis using r by (simp add: mm1_row)
qed

section \<open>Properties\<close>

text \<open>C24: whichever way the rows are distributed over the threads, and however the threads
  are scheduled, when all of them have finished the result is, entry by entry, the one the
  sequential program computes, for any addition and multiplication of the element type.\<close>

theorem parallel_matches_sequential:
  assumes run: "mm_run s dim n flt st" and n: "0 < n" and fin: "\<forall>t < n. phase_of st t = Done"
  shows "mm_result st = mm1 dim flt"
proof
  fix i
  have inv: "row_inv s dim n flt st" by (rule mm_run_row_inv [OF run n])
  have "phase_of st t = Done" if "n \<le> t" for t
    using idle_threads [OF run that] .
  with fin have todo: "todo dim st t = []" for t
    by (cases "t < n") (simp_all add: todo_def)
  have "given s st i" if "i < dim"
    using inv fin n that unfolding row_inv_def given_def by fastforce
  then show "mm_result st i = mm1 dim flt i"
    using inv todo by (intro row_ok_idle [of s]) (simp_all add: row_inv_def)
qed

theorem parallel_matches_sequential_witness:
  "\<exists>st. mm_schedule OsuLock 1 int (replicate 2 0 @ [1] @ replicate 23 0 @ replicate 10 1)
       (mm_init OsuLock 1 2 int) = Some st \<and> mm_result st = mm1 1 int"
proof -
  obtain st where st: "mm_schedule OsuLock 1 int (replicate 2 0 @ [1] @ replicate 23 0 @ replicate 10 1)
       (mm_init OsuLock 1 2 int) = Some st"
    and d: "phase_of st 0 = Done" "phase_of st 1 = Done"
    by (simp add: eval_nat_numeral) (simp add: mm_eval)
  have "mm_run OsuLock 1 2 int st"
    by (rule mm_schedule_run [OF st]) (rule mm_run.start)
  moreover have "\<forall>t < 2. phase_of st t = Done" using d by (auto simp: less_2_cases_iff)
  ultimately show ?thesis using st parallel_matches_sequential [of OsuLock 1 2 int st] by auto
qed

text \<open>C37: no schedule of the threads deadlocks: until all of them have finished, some thread
  can take its next step. This covers the nested semaphores of \<open>osu_lock_acquire\<close>.\<close>

theorem parallel_no_deadlock:
  assumes run: "mm_run s dim n flt st" and t: "phase_of st t \<noteq> Done"
  shows "\<exists>u st'. mm_step s dim (init_mat1 flt) (init_mat2 flt) u st = Some st'"
proof -
  let ?step = "\<lambda>u. \<exists>st'. mm_step s dim (init_mat1 flt) (init_mat2 flt) u st = Some st'"
  have inv: "lock_inv s st" by (rule mm_run_lock_inv [OF run])
  have free: "?step u" if "phase_of st u \<notin> {WaitGuard, WaitLock, Done}" for u
    using that by (cases "phase_of st u") (auto simp: mm_step_def split: list.splits)
  have lock: "\<exists>v. ?step v" if "phase_of st u = WaitLock" for u
  proof (cases "lock_sem st = 0")
    case True
    then obtain v where "holds_lock (phase_of st v)"
      using inv by (auto simp: lock_inv_def sem_ok_def split: if_splits)
    then show ?thesis by (intro exI [of _ v] free) (auto simp: phase_sets)
  next
    case False
    then show ?thesis using that by (intro exI [of _ u]) (simp add: mm_step_def)
  qed
  consider "phase_of st t \<notin> {WaitGuard, WaitLock, Done}" | "phase_of st t = WaitLock"
    | "phase_of st t = WaitGuard" using t by blast
  then show ?thesis
  proof cases
    case 3
    then have s: "s = OsuLock" using inv by (auto simp: lock_inv_def phase_sets)
    show ?thesis
    proof (cases "guard_sem st = 0")
      case True
      then obtain v where "holds_guard (phase_of st v)"
        using inv s by (auto simp: lock_inv_def sem_ok_def split: if_splits)
      then show ?thesis using lock [of v] free [of v] by (auto simp: holds_guard_def)
    next
      case False
      then show ?thesis using 3 by (intro exI [of _ t]) (simp add: mm_step_def)
    qed
  qed (use free lock in blast)+
qed

theorem parallel_no_deadlock_witness:
  "\<exists>u st'. mm_step OsuLock 1 (init_mat1 int) (init_mat2 int) u (mm_init OsuLock 1 2 int) = Some st'"
  by (rule parallel_no_deadlock [OF mm_run.start, where t = 0]) (simp add: mm_init_def enter_def)

text \<open>At most one thread is between the two calls of the lock in \<open>get_next_row\<close>, and
  with \<open>osu_lock_t\<close> it is the one recorded as the locking thread.\<close>

theorem get_next_row_exclusive:
  assumes "mm_run s dim n flt st" and "phase_of st t \<in> {ReadRow, StoreRow}"
    and "phase_of st u \<in> {ReadRow, StoreRow}"
  shows "t = u \<and> (s = OsuLock \<longrightarrow> locking_thread st = Some t)"
  using mm_run_lock_inv [OF assms(1)] assms(2,3)
  by (auto simp: lock_inv_def sem_ok_def phase_sets)

theorem get_next_row_exclusive_witness:
  "\<exists>st. mm_schedule OsuLock 1 int [0, 1, 0, 0, 0, 0] (mm_init OsuLock 1 2 int) = Some st \<and>
     locking_thread st = Some 0"
proof -
  obtain st where st: "mm_schedule OsuLock 1 int [0, 1, 0, 0, 0, 0] (mm_init OsuLock 1 2 int) = Some st"
    and p: "phase_of st 0 = ReadRow"
    by (simp add: mm_eval)
  have "mm_run OsuLock 1 2 int st" by (rule mm_schedule_run [OF st]) (rule mm_run.start)
  from get_next_row_exclusive [OF this, of 0 0] p st show ?thesis by auto
qed

end
