(* ===== verification/Locks.thy ===== *)
theory Locks
  imports OS_Prelude
begin

text \<open>
  Spinlocks (\<open>spinlock.c\<close>) on several processors, with the nesting count of disabled
  interrupts, and sleep locks (\<open>sleeplock.c\<close>). The first part models the functions on
  the state of one processor and one lock; the second lets any number of processors run
  \<open>acquire\<close> and \<open>release\<close> step by step. The debugging data (\<open>name\<close>, \<open>pcs\<close>) is left
  out and memory is sequentially consistent.
\<close>

section \<open>Interrupts\<close>

text \<open>\<open>eflags_if\<close> is the processor's interrupt flag \<open>FL_IF\<close>.\<close>

record cpu =
  ncli :: int
  intena :: bool
  eflags_if :: bool

definition pushcli :: "cpu \<Rightarrow> cpu" where
  "pushcli c =
     (let eflags = eflags_if c;
          c = c\<lparr>eflags_if := False\<rparr>;
          c = (if ncli c = 0 then c\<lparr>intena := eflags\<rparr> else c)
      in c\<lparr>ncli := ncli c + 1\<rparr>)"

definition popcli :: "cpu \<Rightarrow> cpu outcome" where
  "popcli c =
     (if eflags_if c then Panic ''popcli - interruptible''
      else
        let c = c\<lparr>ncli := ncli c - 1\<rparr>
        in if ncli c < 0 then Panic ''popcli''
           else if ncli c = 0 \<and> intena c then Ret (c\<lparr>eflags_if := True\<rparr>) else Ret c)"

section \<open>Spinlocks\<close>

text \<open>\<open>lk_cpu\<close> is the processor recorded as holding the lock, \<open>None\<close> the null pointer.\<close>

record spinlock =
  locked :: bool
  lk_cpu :: "nat option"

definition initlock :: "spinlock" where
  "initlock = \<lparr>locked = False, lk_cpu = None\<rparr>"

definition holding :: "nat \<Rightarrow> spinlock \<Rightarrow> cpu \<Rightarrow> (bool \<times> cpu) outcome" where
  "holding i lk c =
     (let c = pushcli c; r = (locked lk \<and> lk_cpu lk = Some i)
      in kbind (popcli c) (\<lambda>c. Ret (r, c)))"

text \<open>
  \<open>acquire\<close> on processor \<open>i\<close> while the other processors stand still: when the lock is
  taken the loop on \<open>xchg\<close> goes on spinning, the outcome \<open>Sleep\<close>.
\<close>

definition acquire :: "nat \<Rightarrow> spinlock \<Rightarrow> cpu \<Rightarrow> (spinlock \<times> cpu) outcome" where
  "acquire i lk c =
     (let c = pushcli c
      in kbind (holding i lk c) (\<lambda>(h, c).
           if h then Panic ''acquire''
           else if locked lk then Sleep
           else Ret (lk\<lparr>locked := True, lk_cpu := Some i\<rparr>, c)))"

definition release :: "nat \<Rightarrow> spinlock \<Rightarrow> cpu \<Rightarrow> (spinlock \<times> cpu) outcome" where
  "release i lk c =
     kbind (holding i lk c) (\<lambda>(h, c).
       if \<not> h then Panic ''release''
       else kbind (popcli c) (\<lambda>c. Ret (lk\<lparr>lk_cpu := None, locked := False\<rparr>, c)))"

section \<open>Sleep locks\<close>

record sleeplock =
  slocked :: bool
  spid :: int

definition initsleeplock :: sleeplock where
  "initsleeplock = \<lparr>slocked = False, spid = 0\<rparr>"

definition acquiresleep :: "int \<Rightarrow> sleeplock \<Rightarrow> sleeplock outcome" where
  "acquiresleep me lk = (if slocked lk then Sleep else Ret (lk\<lparr>slocked := True, spid := me\<rparr>))"

text \<open>\<open>releasesleep\<close> also wakes the processes sleeping on the lock.\<close>

definition releasesleep :: "sleeplock \<Rightarrow> sleeplock" where
  "releasesleep lk = lk\<lparr>slocked := False, spid := 0\<rparr>"

definition holdingsleep :: "int \<Rightarrow> sleeplock \<Rightarrow> bool" where
  "holdingsleep me lk \<longleftrightarrow> slocked lk \<and> spid lk = me"

section \<open>Processors running concurrently\<close>

text \<open>
  The steps of \<open>acquire\<close> and \<open>release\<close> on a processor: outside, about to test
  \<open>holding\<close>, spinning on \<open>xchg\<close>, having exchanged but not yet recorded itself, in the
  critical section, having cleared \<open>lk->cpu\<close>, having stored 0 in \<open>locked\<close>; or stopped
  by a panic.
\<close>

datatype lphase = Outside | Entering | Spinning | Exchanged | Critical | Cleared | Stored | Crashed

record lsystem =
  lk :: spinlock
  cpus :: "nat \<Rightarrow> cpu"
  lph :: "nat \<Rightarrow> lphase"

definition lk_move :: "nat \<Rightarrow> lphase \<Rightarrow> cpu \<Rightarrow> spinlock \<Rightarrow> lsystem \<Rightarrow> lsystem" where
  "lk_move i p c l s = s\<lparr>lk := l, cpus := (cpus s)(i := c), lph := (lph s)(i := p)\<rparr>"

definition lk_next :: "nat \<Rightarrow> lsystem \<Rightarrow> lsystem" where
  "lk_next i s =
     (let c = cpus s i; l = lk s
      in case lph s i of
           Outside \<Rightarrow> lk_move i Entering (pushcli c) l s
         | Entering \<Rightarrow>
             (case holding i l c of
                Ret (h, c) \<Rightarrow> lk_move i (if h then Crashed else Spinning) c l s
              | _ \<Rightarrow> lk_move i Crashed c l s)
         | Spinning \<Rightarrow> lk_move i (if locked l then Spinning else Exchanged) c (l\<lparr>locked := True\<rparr>) s
         | Exchanged \<Rightarrow> lk_move i Critical c (l\<lparr>lk_cpu := Some i\<rparr>) s
         | Critical \<Rightarrow>
             (case holding i l c of
                Ret (h, c) \<Rightarrow> if h then lk_move i Cleared c (l\<lparr>lk_cpu := None\<rparr>) s
                              else lk_move i Crashed c l s
              | _ \<Rightarrow> lk_move i Crashed c l s)
         | Cleared \<Rightarrow> lk_move i Stored c (l\<lparr>locked := False\<rparr>) s
         | Stored \<Rightarrow> (case popcli c of Ret c \<Rightarrow> lk_move i Outside c l s
                      | _ \<Rightarrow> lk_move i Crashed c l s)
         | Crashed \<Rightarrow> s)"

inductive lk_run :: "lsystem \<Rightarrow> bool" where
  boot: "\<forall>i. ncli (cs i) = 0 \<Longrightarrow> lk_run \<lparr>lk = initlock, cpus = cs, lph = (\<lambda>_. Outside)\<rparr>"
| tick: "lk_run s \<Longrightarrow> lk_run (lk_next i s)"

section \<open>Lemmas\<close>

lemma popcli_pushcli:
  "0 \<le> ncli c \<Longrightarrow> (0 < ncli c \<Longrightarrow> \<not> eflags_if c) \<Longrightarrow>
   \<exists>c'. popcli (pushcli c) = Ret c' \<and> eflags_if c' = eflags_if c \<and> ncli c' = ncli c \<and>
     (0 < ncli c \<longrightarrow> c' = c)"
  by (cases c) (auto simp: pushcli_def popcli_def Let_def)

lemma pushcli_simps [simp]:
  "ncli (pushcli c) = ncli c + 1" "\<not> eflags_if (pushcli c)"
  by (simp_all add: pushcli_def Let_def)

text \<open>Inside a disabled section \<open>holding\<close> leaves the processor as it is.\<close>

lemma holding_disabled:
  "0 < ncli c \<Longrightarrow> \<not> eflags_if c \<Longrightarrow>
   holding i l c = Ret (locked l \<and> lk_cpu l = Some i, c)"
  using popcli_pushcli [of c] by (auto simp: holding_def Let_def)

definition lk_inside :: "lphase \<Rightarrow> bool" where
  "lk_inside p \<longleftrightarrow> p \<in> {Exchanged, Critical, Cleared}"

text \<open>
  The lock word is set exactly while one processor is between its exchange and its store;
  the recorded processor is the one in the critical section; interrupts are off from
  \<open>pushcli\<close> to \<open>popcli\<close>; no processor has panicked.
\<close>

definition lk_inv :: "lsystem \<Rightarrow> bool" where
  "lk_inv s \<longleftrightarrow>
     sem_ok (if locked (lk s) then 0 else 1) lk_inside (lph s) \<and>
     (\<forall>i. lk_cpu (lk s) = Some i \<longleftrightarrow> lph s i = Critical) \<and>
     (\<forall>i. ncli (cpus s i) = (if lph s i = Outside then 0 else 1) \<and>
          (lph s i \<noteq> Outside \<longrightarrow> \<not> eflags_if (cpus s i)) \<and> lph s i \<noteq> Crashed)"

lemma lk_move_simps [simp]:
  "lk (lk_move i p c l s) = l" "cpus (lk_move i p c l s) = (cpus s)(i := c)"
  "lph (lk_move i p c l s) = (lph s)(i := p)"
  by (simp_all add: lk_move_def)

text \<open>A move that keeps the three parts of the invariant.\<close>

lemma lk_inv_move:
  assumes inv: "lk_inv s" and p: "p \<noteq> Crashed"
    and c: "ncli c = (if p = Outside then 0 else 1)" "p \<noteq> Outside \<Longrightarrow> \<not> eflags_if c"
    and sem: "sem_ok (if locked l then 0 else 1) lk_inside ((lph s)(i := p))"
    and own: "\<And>j. lk_cpu l = Some j \<longleftrightarrow> ((lph s)(i := p)) j = Critical"
  shows "lk_inv (lk_move i p c l s)"
  using assms by (simp add: lk_inv_def)

lemma lk_inv_next:
  assumes inv: "lk_inv s" shows "lk_inv (lk_next i s)"
proof -
  let ?v = "if locked (lk s) then 0 else 1 :: nat"
  have sem: "sem_ok ?v lk_inside (lph s)"
    and own: "lk_cpu (lk s) = Some j \<longleftrightarrow> lph s j = Critical"
    and cp: "ncli (cpus s j) = (if lph s j = Outside then 0 else 1)"
      "lph s j \<noteq> Outside \<Longrightarrow> \<not> eflags_if (cpus s j)" "lph s j \<noteq> Crashed" for j
    using inv by (auto simp: lk_inv_def)
  have crit: "lph s j = Critical \<Longrightarrow> lk_inside (lph s i) \<Longrightarrow> j = i" for j
    using sem_ok_unique [OF sem, of j i] by (simp add: lk_inside_def)
  have lkd: "lk_inside (lph s i) \<Longrightarrow> locked (lk s)"
    using sem by (auto simp: sem_ok_def split: if_splits)
  have hold: "holding i (lk s) (cpus s i) = Ret (lph s i = Critical, cpus s i)"
    if "lph s i \<noteq> Outside"
    using holding_disabled [of "cpus s i" i "lk s"] cp [of i] own [of i] lkd that
    by (auto simp: lk_inside_def)
  note keep = sem_ok_keep [OF sem, of _ i] and put = sem_ok_put [OF sem, of i]
    and take = sem_ok_take [OF sem]
  show ?thesis
  proof (cases "lph s i")
    case Outside
    then have eq: "lk_next i s = lk_move i Entering (pushcli (cpus s i)) (lk s) s"
      by (simp add: lk_next_def Let_def)
    show ?thesis
      unfolding eq
    proof (rule lk_inv_move [OF inv])
      show "sem_ok (if locked (lk s) then 0 else 1) lk_inside ((lph s)(i := Entering))"
        using keep [of Entering] Outside by (simp add: lk_inside_def)
      show "lk_cpu (lk s) = Some j \<longleftrightarrow> ((lph s)(i := Entering)) j = Critical" for j
        using own [of j] Outside by auto
    qed (use cp [of i] Outside in simp_all)
  next
    case Entering
    then have eq: "lk_next i s = lk_move i Spinning (cpus s i) (lk s) s"
      by (simp add: lk_next_def Let_def hold)
    show ?thesis
      unfolding eq
    proof (rule lk_inv_move [OF inv])
      show "sem_ok (if locked (lk s) then 0 else 1) lk_inside ((lph s)(i := Spinning))"
        using keep [of Spinning] Entering by (simp add: lk_inside_def)
      show "lk_cpu (lk s) = Some j \<longleftrightarrow> ((lph s)(i := Spinning)) j = Critical" for j
        using own [of j] Entering by auto
    qed (use cp [of i] Entering in simp_all)
  next
    case Spinning
    show ?thesis
    proof (cases "locked (lk s)")
      case True
      then have "lk_next i s = s" using Spinning
        by (cases s) (auto simp: lk_next_def Let_def lk_move_def)
      then show ?thesis using inv by simp
    next
      case False
      then have eq: "lk_next i s = lk_move i Exchanged (cpus s i) (lk s\<lparr>locked := True\<rparr>) s"
        using Spinning by (simp add: lk_next_def Let_def)
      show ?thesis
        unfolding eq
      proof (rule lk_inv_move [OF inv])
        show "sem_ok (if locked (lk s\<lparr>locked := True\<rparr>) then 0 else 1) lk_inside ((lph s)(i := Exchanged))"
          using take [of Exchanged i] False by (simp add: lk_inside_def)
        show "lk_cpu (lk s\<lparr>locked := True\<rparr>) = Some j \<longleftrightarrow> ((lph s)(i := Exchanged)) j = Critical" for j
          using own [of j] Spinning by auto
      qed (use cp [of i] Spinning in simp_all)
    qed
  next
    case Exchanged
    then have eq: "lk_next i s = lk_move i Critical (cpus s i) (lk s\<lparr>lk_cpu := Some i\<rparr>) s"
      by (simp add: lk_next_def Let_def)
    show ?thesis
      unfolding eq
    proof (rule lk_inv_move [OF inv])
      show "sem_ok (if locked (lk s\<lparr>lk_cpu := Some i\<rparr>) then 0 else 1) lk_inside ((lph s)(i := Critical))"
        using keep [of Critical] Exchanged by (simp add: lk_inside_def)
      show "lk_cpu (lk s\<lparr>lk_cpu := Some i\<rparr>) = Some j \<longleftrightarrow> ((lph s)(i := Critical)) j = Critical" for j
        using crit [of j] Exchanged by (auto simp: lk_inside_def)
    qed (use cp [of i] Exchanged in simp_all)
  next
    case Critical
    then have eq: "lk_next i s = lk_move i Cleared (cpus s i) (lk s\<lparr>lk_cpu := None\<rparr>) s"
      by (simp add: lk_next_def Let_def hold)
    show ?thesis
      unfolding eq
    proof (rule lk_inv_move [OF inv])
      show "sem_ok (if locked (lk s\<lparr>lk_cpu := None\<rparr>) then 0 else 1) lk_inside ((lph s)(i := Cleared))"
        using keep [of Cleared] Critical by (simp add: lk_inside_def)
      show "lk_cpu (lk s\<lparr>lk_cpu := None\<rparr>) = Some j \<longleftrightarrow> ((lph s)(i := Cleared)) j = Critical" for j
        using crit [of j] Critical by (auto simp: lk_inside_def)
    qed (use cp [of i] Critical in simp_all)
  next
    case Cleared
    then have eq: "lk_next i s = lk_move i Stored (cpus s i) (lk s\<lparr>locked := False\<rparr>) s"
      by (simp add: lk_next_def Let_def)
    show ?thesis
      unfolding eq
    proof (rule lk_inv_move [OF inv])
      show "sem_ok (if locked (lk s\<lparr>locked := False\<rparr>) then 0 else 1) lk_inside ((lph s)(i := Stored))"
        using put [of Stored] lkd Cleared by (simp add: lk_inside_def)
      show "lk_cpu (lk s\<lparr>locked := False\<rparr>) = Some j \<longleftrightarrow> ((lph s)(i := Stored)) j = Critical" for j
        using own [of j] Cleared by auto
    qed (use cp [of i] Cleared in simp_all)
  next
    case Stored
    then obtain c where c: "popcli (cpus s i) = Ret c" "ncli c = 0"
      using cp [of i] by (cases "intena (cpus s i)") (auto simp: popcli_def Let_def)
    then have eq: "lk_next i s = lk_move i Outside c (lk s) s"
      using Stored by (simp add: lk_next_def Let_def)
    show ?thesis
      unfolding eq
    proof (rule lk_inv_move [OF inv])
      show "sem_ok (if locked (lk s) then 0 else 1) lk_inside ((lph s)(i := Outside))"
        using keep [of Outside] Stored by (simp add: lk_inside_def)
      show "lk_cpu (lk s) = Some j \<longleftrightarrow> ((lph s)(i := Outside)) j = Critical" for j
        using own [of j] Stored by auto
    qed (use c in simp_all)
  next
    case Crashed
    then show ?thesis using cp(3) [of i] by simp
  qed
qed

lemma lk_run_inv: "lk_run s \<Longrightarrow> lk_inv s"
  by (induction rule: lk_run.induct)
    (auto simp: lk_inv_next, auto simp: lk_inv_def lk_inside_def initlock_def sem_ok_def)

text \<open>Nested sections: \<open>n\<close> calls of \<open>pushcli\<close>, \<open>n\<close> calls of \<open>popcli\<close>.\<close>

primrec pushclis :: "nat \<Rightarrow> cpu \<Rightarrow> cpu" where
  "pushclis 0 c = c"
| "pushclis (Suc n) c = pushclis n (pushcli c)"

primrec popclis :: "nat \<Rightarrow> cpu \<Rightarrow> cpu outcome" where
  "popclis 0 c = Ret c"
| "popclis (Suc n) c = kbind (popcli c) (popclis n)"

lemma pushclis_nested:
  "0 < ncli c \<Longrightarrow> \<not> eflags_if c \<Longrightarrow> pushclis n c = c\<lparr>ncli := ncli c + int n\<rparr>"
proof (induction n arbitrary: c)
  case (Suc n)
  have "pushcli c = c\<lparr>ncli := ncli c + 1\<rparr>" using Suc.prems by (simp add: pushcli_def Let_def)
  with Suc.IH [of "pushcli c"] Suc.prems show ?case by (simp add: algebra_simps)
qed simp

lemma popclis_nested:
  "int n < ncli c \<Longrightarrow> \<not> eflags_if c \<Longrightarrow> popclis n c = Ret (c\<lparr>ncli := ncli c - int n\<rparr>)"
proof (induction n arbitrary: c)
  case (Suc n)
  have "popcli c = Ret (c\<lparr>ncli := ncli c - 1\<rparr>)"
    using Suc.prems by (simp add: popcli_def Let_def)
  with Suc.IH [of "c\<lparr>ncli := ncli c - 1\<rparr>"] Suc.prems show ?case by (simp add: algebra_simps)
qed simp

lemma kbind_popclis_0: "kbind m (popclis 0) = m"
  by (cases m) simp_all

lemma popclis_snoc: "popclis (Suc n) c = kbind (popclis n c) popcli"
proof (induction n arbitrary: c)
  case (Suc n)
  have "popclis (Suc (Suc n)) c = kbind (popcli c) (popclis (Suc n))" by simp
  also have "\<dots> = kbind (popcli c) (\<lambda>c. kbind (popclis n c) popcli)"
    by (intro kbind_cong_Ret Suc.IH)
  also have "\<dots> = kbind (popclis (Suc n) c) popcli" by (simp add: kbind_assoc)
  finally show ?case .
qed (simp add: fun_eq_iff kbind_popclis_0)

section \<open>Properties\<close>

text \<open>C20: on any number of processors, at most one is between \<open>acquire\<close> and \<open>release\<close> of a
  spinlock; it is the one recorded in the lock, its interrupts are off, and neither
  \<open>acquire\<close> nor \<open>release\<close> ever panics.\<close>

theorem spinlock_exclusion:
  assumes "lk_run s"
  shows "(lph s i = Critical \<longrightarrow> lk_cpu (lk s) = Some i \<and> locked (lk s) \<and> \<not> eflags_if (cpus s i)) \<and>
    (lph s i = Critical \<and> lph s j = Critical \<longrightarrow> i = j) \<and> lph s i \<noteq> Crashed"
proof -
  have inv: "lk_inv s" by (rule lk_run_inv [OF assms])
  then have sem: "sem_ok (if locked (lk s) then 0 else 1) lk_inside (lph s)"
    by (simp add: lk_inv_def)
  have "locked (lk s)" if "lph s i = Critical"
    using sem that by (fastforce simp: sem_ok_def lk_inside_def split: if_splits)
  moreover have "i = j" if "lph s i = Critical" "lph s j = Critical"
    using sem_ok_unique [OF sem, of i j] that by (simp add: lk_inside_def)
  ultimately show ?thesis using inv by (simp add: lk_inv_def)
qed

text \<open>Processor 0 has the lock and processor 1 spins.\<close>

lemma lk_run_fold: "lk_run s \<Longrightarrow> lk_run (fold lk_next is s)"
  by (induction "is" arbitrary: s) (auto intro: lk_run.tick)

theorem spinlock_exclusion_witness:
  "\<exists>s. lk_run s \<and> lph s 0 = Critical \<and> lph s 1 = Spinning \<and> lk_cpu (lk s) = Some 0 \<and> \<not> eflags_if (cpus s 0) \<and>
     lph s 1 \<noteq> Crashed"
proof -
  let ?b = "\<lparr>lk = initlock, cpus = (\<lambda>_. \<lparr>ncli = 0, intena = False, eflags_if = True\<rparr>), lph = (\<lambda>_. Outside)\<rparr>"
  define s where "s = fold lk_next [0, 1, 0, 0, 0, 1, 1] ?b"
  have run: "lk_run s" unfolding s_def by (rule lk_run_fold [OF lk_run.boot]) simp
  have p: "lph s 0 = Critical" "lph s 1 = Spinning"
    by (simp_all add: s_def lk_next_def lk_move_def initlock_def pushcli_def holding_def popcli_def Let_def)
  from spinlock_exclusion [OF run, of 0 0] spinlock_exclusion [OF run, of 1 0] p run show ?thesis by blast
qed

text \<open>Disabling interrupts nests: after any number of \<open>pushcli\<close> calls interrupts are
  off, the same number of \<open>popcli\<close> calls brings the interrupt flag back to what it was,
  and one \<open>popcli\<close> too many panics.\<close>

theorem cli_nesting:
  assumes "ncli c = 0"
  shows "\<not> eflags_if (pushclis (Suc n) c) \<and>
    (\<exists>c'. popclis (Suc n) (pushclis (Suc n) c) = Ret c' \<and> eflags_if c' = eflags_if c \<and> ncli c' = 0 \<and>
      (\<exists>e. popcli c' = Panic e))"
proof -
  let ?p = "pushcli c"
  have p: "pushclis (Suc n) c = ?p\<lparr>ncli := 1 + int n\<rparr>"
    using pushclis_nested [of ?p n] assms by simp
  have "popclis n (?p\<lparr>ncli := 1 + int n\<rparr>) = Ret (?p\<lparr>ncli := 1\<rparr>)"
    using popclis_nested [of n "?p\<lparr>ncli := 1 + int n\<rparr>"] by simp
  then have "popclis (Suc n) (pushclis (Suc n) c) = popcli (?p\<lparr>ncli := 1\<rparr>)"
    unfolding p popclis_snoc by simp
  moreover have "intena ?p = eflags_if c" using assms by (simp add: pushcli_def Let_def)
  then have "popcli (?p\<lparr>ncli := 1\<rparr>) = Ret (?p\<lparr>ncli := 0, eflags_if := eflags_if c\<rparr>)"
    using pushcli_simps(2) [of c]
    by (cases "pushcli c") (simp add: popcli_def Let_def del: pushcli_simps)
  moreover have "\<exists>e. popcli c' = Panic e" if "ncli c' = 0" for c'
    using that by (simp add: popcli_def Let_def)
  moreover have "\<not> eflags_if (pushclis (Suc n) c)" unfolding p by simp
  ultimately show ?thesis by (simp del: pushclis.simps popclis.simps)
qed

theorem cli_nesting_witness:
  "\<exists>c'. popclis (Suc 2) (pushclis (Suc 2) \<lparr>ncli = 0, intena = False, eflags_if = True\<rparr>) = Ret c' \<and>
     eflags_if c'"
  using cli_nesting [of "\<lparr>ncli = 0, intena = False, eflags_if = True\<rparr>" 2] by auto

end
