(* ===== verification/Kalloc.thy ===== *)
theory Kalloc
  imports C_String
begin

text \<open>
  The physical page allocator \<open>kalloc.c\<close>. Free pages form a linked list whose links are
  stored in the first word of each page; memory is a function from kernel addresses to
  bytes, an address is a \<open>nat\<close> below \<open>2 ^ 32\<close>. The address \<open>end\<close>, which the linker
  defines, is the parameter \<open>kend\<close>. Each operation runs under \<open>kmem.lock\<close> and is one
  atomic step.
\<close>

section \<open>Words in memory\<close>

definition store32 :: "mem \<Rightarrow> nat \<Rightarrow> nat \<Rightarrow> mem" where
  "store32 m a v = (\<lambda>x. if a \<le> x \<and> x < a + 4 then le_enc 4 v ! (x - a) else m x)"

definition load32 :: "mem \<Rightarrow> nat \<Rightarrow> nat" where
  "load32 m a = le_dec (map (\<lambda>i. m (a + i)) [0..<4])"

lemma load32_store32: "v < 4294967296 \<Longrightarrow> load32 (store32 m a v) a = v"
proof -
  assume v: "v < 4294967296"
  have "map (\<lambda>i. store32 m a v (a + i)) [0..<4] = le_enc 4 v"
    by (rule nth_equalityI) (auto simp: store32_def)
  then show ?thesis using v by (simp only: load32_def) (rule le_dec_enc, simp)
qed

lemma load32_cong: "(\<And>x. a \<le> x \<Longrightarrow> x < a + 4 \<Longrightarrow> m' x = m x) \<Longrightarrow> load32 m' a = load32 m a"
  unfolding load32_def by (rule arg_cong [where f = le_dec]) (rule map_cong, auto)

section \<open>The allocator\<close>

definition PGSIZE :: nat where "PGSIZE = 4096"
definition KERNBASE :: nat where "KERNBASE = 2147483648"
definition PHYSTOP :: nat where "PHYSTOP = 234881024"

definition PGROUNDUP :: "nat \<Rightarrow> nat" where
  "PGROUNDUP sz = u32 (sz + (PGSIZE - 1)) div PGSIZE * PGSIZE"

definition V2P :: "nat \<Rightarrow> nat" where
  "V2P a = u32 (a + 4294967296 - KERNBASE)"

record kmem =
  use_lock :: bool
  freelist :: nat
  kmem_mem :: mem

definition kfree :: "nat \<Rightarrow> nat \<Rightarrow> kmem \<Rightarrow> kmem outcome" where
  "kfree kend v k =
     (if v mod PGSIZE \<noteq> 0 \<or> v < kend \<or> V2P v \<ge> PHYSTOP then Panic ''kfree''
      else
        let m = memset (kmem_mem k) v 1 PGSIZE;
            m = store32 m v (freelist k)
        in Ret (k\<lparr>kmem_mem := m, freelist := v\<rparr>))"

text \<open>\<open>None\<close> is the null pointer.\<close>

definition kalloc :: "kmem \<Rightarrow> nat option \<times> kmem" where
  "kalloc k =
     (let r = freelist k
      in if r \<noteq> 0 then (Some r, k\<lparr>freelist := load32 (kmem_mem k) r\<rparr>) else (None, k))"

function free_loop :: "nat \<Rightarrow> nat \<Rightarrow> nat \<Rightarrow> kmem \<Rightarrow> kmem outcome" where
  "free_loop kend p vend k =
     (if p + PGSIZE \<le> vend then kbind (kfree kend p k) (free_loop kend (p + PGSIZE) vend) else Ret k)"
  by auto
termination by (relation "measure (\<lambda>(kend, p, vend, k). vend - p)") (auto simp: PGSIZE_def)

declare free_loop.simps [simp del]

definition freerange :: "nat \<Rightarrow> nat \<Rightarrow> nat \<Rightarrow> kmem \<Rightarrow> kmem outcome" where
  "freerange kend vstart vend k = free_loop kend (PGROUNDUP vstart) vend k"

definition kinit1 :: "nat \<Rightarrow> nat \<Rightarrow> nat \<Rightarrow> kmem \<Rightarrow> kmem outcome" where
  "kinit1 kend vstart vend k = freerange kend vstart vend (k\<lparr>use_lock := False\<rparr>)"

definition kinit2 :: "nat \<Rightarrow> nat \<Rightarrow> nat \<Rightarrow> kmem \<Rightarrow> kmem outcome" where
  "kinit2 kend vstart vend k =
     kbind (freerange kend vstart vend k) (\<lambda>k. Ret (k\<lparr>use_lock := True\<rparr>))"

section \<open>The contract of an allocator\<close>

text \<open>A client that only gives back what it was given; \<open>held\<close> is what it has.\<close>

inductive client_run :: "('s \<Rightarrow> 'a option \<times> 's) \<Rightarrow> ('a \<Rightarrow> 's \<Rightarrow> 's outcome) \<Rightarrow> 's \<Rightarrow> 's \<Rightarrow> 'a list \<Rightarrow> bool"
  for get put s0 where
  start: "client_run get put s0 s0 []"
| get: "client_run get put s0 s held \<Longrightarrow> get s = (Some a, s') \<Longrightarrow> client_run get put s0 s' (a # held)"
| put: "client_run get put s0 s held \<Longrightarrow> a \<in> set held \<Longrightarrow> put a s = Ret s' \<Longrightarrow>
    client_run get put s0 s' (remove1 a held)"

locale allocator =
  fixes inv :: "'s \<Rightarrow> bool" and free_set :: "'s \<Rightarrow> 'a set"
    and get :: "'s \<Rightarrow> 'a option \<times> 's" and put :: "'a \<Rightarrow> 's \<Rightarrow> 's outcome"
    and valid :: "'a \<Rightarrow> bool"
  assumes get_some: "inv s \<Longrightarrow> get s = (Some a, s') \<Longrightarrow>
      inv s' \<and> a \<in> free_set s \<and> free_set s' = free_set s - {a}"
    and get_none: "inv s \<Longrightarrow> get s = (None, s') \<longleftrightarrow> free_set s = {} \<and> s' = s"
    and put_ok: "inv s \<Longrightarrow> valid a \<Longrightarrow> a \<notin> free_set s \<Longrightarrow>
      \<exists>s'. put a s = Ret s' \<and> inv s' \<and> free_set s' = insert a (free_set s)"
    and free_valid: "inv s \<Longrightarrow> a \<in> free_set s \<Longrightarrow> valid a"
begin

lemma client_conserves:
  "client_run get put s0 s held \<Longrightarrow> inv s0 \<Longrightarrow>
   inv s \<and> distinct held \<and> set held \<inter> free_set s = {} \<and> set held \<union> free_set s = free_set s0"
proof (induction rule: client_run.induct)
  case (get s held a s')
  then have "inv s' \<and> a \<in> free_set s \<and> free_set s' = free_set s - {a}" using get_some by blast
  with get show ?case by auto
next
  case (put s held a s')
  then have IH: "inv s" "distinct held" "set held \<inter> free_set s = {}"
    "set held \<union> free_set s = free_set s0" by auto
  then have "valid a" "a \<notin> free_set s" using put free_valid [OF put.prems, of a] by auto
  from put_ok [OF IH(1) this] put.hyps(3)
  have "inv s'" "free_set s' = insert a (free_set s)" by auto
  with IH put.hyps(2) show ?case by auto
qed simp

lemma put_then_get: "inv s \<Longrightarrow> valid a \<Longrightarrow> a \<notin> free_set s \<Longrightarrow> put a s = Ret s' \<Longrightarrow>
    \<exists>b s''. get s' = (Some b, s'')"
  using put_ok [of s a] get_none [of s'] by (cases "get s'") fastforce

end

section \<open>The free list\<close>

fun run_list :: "mem \<Rightarrow> nat \<Rightarrow> nat list \<Rightarrow> bool" where
  "run_list m a [] = (a = 0)"
| "run_list m a (x # xs) = (a = x \<and> x \<noteq> 0 \<and> run_list m (load32 m x) xs)"

definition page_ok :: "nat \<Rightarrow> nat \<Rightarrow> bool" where
  "page_ok kend v \<longleftrightarrow> v mod PGSIZE = 0 \<and> kend \<le> v \<and> KERNBASE \<le> v \<and> v < KERNBASE + PHYSTOP"

definition free_list :: "nat \<Rightarrow> kmem \<Rightarrow> nat list \<Rightarrow> bool" where
  "free_list kend k xs \<longleftrightarrow> run_list (kmem_mem k) (freelist k) xs \<and> distinct xs \<and>
     (\<forall>x \<in> set xs. page_ok kend x)"

definition kmem_inv :: "nat \<Rightarrow> kmem \<Rightarrow> bool" where
  "kmem_inv kend k \<longleftrightarrow> (\<exists>xs. free_list kend k xs)"

definition free_pages :: "nat \<Rightarrow> kmem \<Rightarrow> nat set" where
  "free_pages kend k = {x. \<exists>xs. free_list kend k xs \<and> x \<in> set xs}"

lemmas page_consts = PGSIZE_def KERNBASE_def PHYSTOP_def

lemma run_list_unique: "run_list m a xs \<Longrightarrow> run_list m a ys \<Longrightarrow> xs = ys"
proof (induction xs arbitrary: a ys)
  case Nil
  then show ?case by (cases ys) auto
next
  case (Cons x xs)
  then show ?case by (cases ys) auto
qed

lemma free_pages_eq: "free_list kend k xs \<Longrightarrow> free_pages kend k = set xs"
  using run_list_unique by (auto simp: free_pages_def free_list_def)

lemma page_ok_bounds: "page_ok kend v \<Longrightarrow> v \<noteq> 0 \<and> v < 4294967296"
  by (auto simp: page_ok_def page_consts)

lemma page_multiple: "x mod 4096 = 0 \<Longrightarrow> x = 4096 * (x div (4096 :: nat))"
  using mult_div_mod_eq [of 4096 x] by simp

lemma pages_apart:
  assumes "page_ok kend v" "page_ok kend x" "v \<noteq> x" shows "v + 4096 \<le> x \<or> x + 4096 \<le> v"
proof -
  from assms obtain a b where "v = 4096 * a" "x = 4096 * b"
    by (auto simp: page_ok_def PGSIZE_def mod_eq_0_iff_dvd elim!: dvdE)
  with assms(3) show ?thesis by (cases a b rule: linorder_cases) auto
qed

lemma V2P_kernel: "KERNBASE \<le> v \<Longrightarrow> v < 4294967296 \<Longrightarrow> V2P v = v - KERNBASE"
proof -
  assume v: "KERNBASE \<le> v" "v < 4294967296"
  then obtain w where w: "v = KERNBASE + w" using le_Suc_ex by blast
  then have "V2P v = (w + 4294967296) mod 4294967296" by (simp add: V2P_def u32_def)
  also have "\<dots> = w" using v w by (simp only: mod_add_self2) simp
  finally show "V2P v = v - KERNBASE" using w by simp
qed

text \<open>\<open>kfree\<close> accepts exactly the page addresses between \<open>kend\<close> and the top of memory.\<close>

lemma kfree_accepts:
  assumes "v < 4294967296"
  shows "v mod PGSIZE \<noteq> 0 \<or> v < kend \<or> PHYSTOP \<le> V2P v \<longleftrightarrow> \<not> page_ok kend v"
proof (cases "KERNBASE \<le> v")
  case True
  then show ?thesis using assms by (auto simp: page_ok_def V2P_kernel)
next
  case False
  then have "V2P v = v + 2147483648" by (simp add: V2P_def u32_def KERNBASE_def)
  with False show ?thesis by (auto simp: page_ok_def PHYSTOP_def)
qed

lemma kfree_outside: "kfree kend v k = Ret k' \<Longrightarrow> x < v \<or> v + PGSIZE \<le> x \<Longrightarrow>
    kmem_mem k' x = kmem_mem k x"
  by (auto simp: kfree_def Let_def store32_def memset_apply PGSIZE_def split: if_splits)

lemma run_list_frame:
  "(\<And>x y. x \<in> set xs \<Longrightarrow> x \<le> y \<Longrightarrow> y < x + 4 \<Longrightarrow> m' y = m y) \<Longrightarrow> run_list m' a xs = run_list m a xs"
proof (induction xs arbitrary: a)
  case (Cons x xs)
  have "load32 m' x = load32 m x" by (rule load32_cong) (use Cons.prems in auto)
  moreover have "run_list m' b xs = run_list m b xs" for b
    by (rule Cons.IH) (use Cons.prems in auto)
  ultimately show ?case by simp
qed simp

lemma kfree_list:
  assumes fl: "free_list kend k xs" and v: "page_ok kend v" "v \<notin> set xs"
  shows "\<exists>k'. kfree kend v k = Ret k' \<and> free_list kend k' (v # xs) \<and> use_lock k' = use_lock k"
proof -
  let ?k = "k\<lparr>kmem_mem := store32 (memset (kmem_mem k) v 1 PGSIZE) v (freelist k), freelist := v\<rparr>"
  have k: "kfree kend v k = Ret ?k"
    using kfree_accepts [of v kend] page_ok_bounds [OF v(1)] v(1) by (auto simp: kfree_def Let_def)
  have fr: "freelist k < 4294967296"
    using fl page_ok_bounds by (cases xs) (auto simp: free_list_def)
  have "run_list (kmem_mem ?k) (freelist k) xs = run_list (kmem_mem k) (freelist k) xs"
  proof (rule run_list_frame)
    fix x y assume x: "x \<in> set xs" "x \<le> y" "y < x + 4"
    then have "v + 4096 \<le> x \<or> x + 4096 \<le> v"
      using fl v by (intro pages_apart [of kend]) (auto simp: free_list_def)
    with x have "y < v \<or> v + PGSIZE \<le> y" by (auto simp: PGSIZE_def)
    then show "kmem_mem ?k y = kmem_mem k y" using kfree_outside [OF k] by simp
  qed
  then have "free_list kend ?k (v # xs)"
    using fl v fr page_ok_bounds [OF v(1)] by (simp add: free_list_def load32_store32)
  with k show ?thesis by simp
qed

lemma kalloc_list:
  "free_list kend k (x # xs) \<Longrightarrow> \<exists>k'. kalloc k = (Some x, k') \<and> free_list kend k' xs"
  by (auto simp: kalloc_def free_list_def Let_def)

lemma kalloc_empty: "free_list kend k [] \<Longrightarrow> kalloc k = (None, k)"
  by (simp add: kalloc_def free_list_def)

interpretation kalloc: allocator "kmem_inv kend" "free_pages kend" kalloc "kfree kend" "page_ok kend"
proof unfold_locales
  fix s a s'
  assume inv: "kmem_inv kend s" and get: "kalloc s = (Some a, s')"
  then obtain xs where xs: "free_list kend s xs" by (auto simp: kmem_inv_def)
  then obtain ys where ys: "xs = a # ys" using get kalloc_empty kalloc_list by (cases xs) fastforce+
  with xs get have "free_list kend s' ys" using kalloc_list by fastforce
  moreover have "a \<notin> set ys" using xs ys by (simp add: free_list_def)
  ultimately show "kmem_inv kend s' \<and> a \<in> free_pages kend s \<and> free_pages kend s' = free_pages kend s - {a}"
    using xs ys by (auto simp: kmem_inv_def free_pages_eq)
next
  fix s s'
  assume "kmem_inv kend s"
  then obtain xs where xs: "free_list kend s xs" by (auto simp: kmem_inv_def)
  then show "kalloc s = (None, s') \<longleftrightarrow> free_pages kend s = {} \<and> s' = s"
    using kalloc_empty kalloc_list free_pages_eq by (cases xs) fastforce+
next
  fix s a
  assume "kmem_inv kend s" and a: "page_ok kend a" "a \<notin> free_pages kend s"
  then obtain xs where xs: "free_list kend s xs" by (auto simp: kmem_inv_def)
  with kfree_list [OF xs a(1)] a(2) show "\<exists>s'. kfree kend a s = Ret s' \<and> kmem_inv kend s' \<and>
      free_pages kend s' = insert a (free_pages kend s)"
    by (auto simp: kmem_inv_def free_pages_eq)
next
  fix s a
  assume "kmem_inv kend s" "a \<in> free_pages kend s"
  then show "page_ok kend a" by (auto simp: free_pages_def free_list_def)
qed

definition pages_in :: "nat \<Rightarrow> nat \<Rightarrow> nat set" where
  "pages_in p vend = {x. x mod PGSIZE = 0 \<and> p \<le> x \<and> x + PGSIZE \<le> vend}"

lemma free_loop_list:
  assumes "free_list kend k xs" and "p mod PGSIZE = 0" and "kend \<le> p" and "KERNBASE \<le> p"
    and "vend \<le> KERNBASE + PHYSTOP" and "set xs \<inter> pages_in p vend = {}"
  shows "\<exists>k' ys. free_loop kend p vend k = Ret k' \<and> free_list kend k' ys \<and>
    set ys = set xs \<union> pages_in p vend \<and> use_lock k' = use_lock k"
  using assms
proof (induction kend p vend k arbitrary: xs rule: free_loop.induct)
  case (1 kend p vend k)
  show ?case
  proof (cases "p + PGSIZE \<le> vend")
    case True
    have p: "page_ok kend p" using True 1 by (auto simp: page_ok_def PGSIZE_def)
    have "p \<in> pages_in p vend" using True 1 by (simp add: pages_in_def)
    with 1 have "p \<notin> set xs" by auto
    from kfree_list [OF 1(2) p this] obtain k1 where
      k1: "kfree kend p k = Ret k1" "free_list kend k1 (p # xs)" "use_lock k1 = use_lock k" by blast
    have step: "pages_in p vend = insert p (pages_in (p + PGSIZE) vend)"
    proof -
      have gap: "p + PGSIZE \<le> x" if "x mod PGSIZE = 0" "p < x" for x
      proof -
        have "p = 4096 * (p div 4096)" "x = 4096 * (x div 4096)"
          using that 1(3) page_multiple by (simp_all add: PGSIZE_def)
        then obtain a b where "p = 4096 * a" "x = 4096 * b" by blast
        with that show ?thesis by (simp add: PGSIZE_def)
      qed
      have "x \<in> pages_in p vend \<longleftrightarrow> x \<in> insert p (pages_in (p + PGSIZE) vend)" for x
        using gap [of x] True 1(3) by (cases x p rule: linorder_cases) (auto simp: pages_in_def)
      then show ?thesis by blast
    qed
    have "p \<notin> pages_in (p + PGSIZE) vend" by (simp add: pages_in_def PGSIZE_def)
    then have "\<exists>k' ys. free_loop kend (p + PGSIZE) vend k1 = Ret k' \<and> free_list kend k' ys \<and>
        set ys = set (p # xs) \<union> pages_in (p + PGSIZE) vend \<and> use_lock k' = use_lock k1"
      using 1 True k1 step by (intro 1(1)) auto
    then show ?thesis using True k1 step by (subst free_loop.simps) auto
  next
    case False
    then have "pages_in p vend = {}" by (auto simp: pages_in_def)
    then show ?thesis using False 1 by (subst free_loop.simps) auto
  qed
qed

lemma PGROUNDUP_props: "v + 4095 < 4294967296 \<Longrightarrow>
    PGROUNDUP v mod PGSIZE = 0 \<and> v \<le> PGROUNDUP v \<and> pages_in (PGROUNDUP v) vend = pages_in v vend"
proof -
  assume v: "v + 4095 < 4294967296"
  let ?q = "(v + 4095) div 4096"
  have r: "PGROUNDUP v = 4096 * ?q" using v by (simp add: PGROUNDUP_def PGSIZE_def)
  have "v + 4095 = 4096 * ?q + (v + 4095) mod 4096" by simp
  moreover have "(v + 4095) mod 4096 < 4096" by simp
  ultimately have ge: "v \<le> 4096 * ?q" by linarith
  have "4096 * ?q \<le> x" if "v \<le> x" "x mod 4096 = 0" for x
  proof -
    have x: "x = 4096 * (x div 4096)" using page_multiple [OF that(2)] .
    have "?q \<le> (4096 * (x div 4096) + 4095) div 4096"
      using that(1) x by (intro div_le_mono) simp
    then have "?q \<le> x div 4096" by simp
    then show ?thesis using x by linarith
  qed
  then show ?thesis using r ge by (auto simp: pages_in_def PGSIZE_def intro: order_trans)
qed

section \<open>Properties\<close>

text \<open>C21: a client that only frees pages it was given never gets a page twice: the pages it
  holds are pairwise different, none of them is on the free list, and together with the
  free list they are exactly the pages there were.\<close>

theorem kalloc_pages_conserved:
  assumes "client_run kalloc (kfree kend) k0 k held" and "kmem_inv kend k0"
  shows "distinct held \<and> set held \<inter> free_pages kend k = {} \<and>
    set held \<union> free_pages kend k = free_pages kend k0 \<and> (\<forall>v \<in> set held. page_ok kend v)"
proof -
  have c: "kmem_inv kend k \<and> distinct held \<and> set held \<inter> free_pages kend k = {} \<and>
      set held \<union> free_pages kend k = free_pages kend k0"
    by (rule kalloc.client_conserves [OF assms])
  moreover from this have "page_ok kend v" if "v \<in> set held" for v
    using that kalloc.free_valid [OF assms(2), of v] by blast
  ultimately show ?thesis by blast
qed

theorem kalloc_pages_conserved_witness:
  "\<exists>k0 k v. kalloc k0 = (Some v, k) \<and> v = KERNBASE + 4194304 \<and> v \<notin> free_pages KERNBASE k"
proof -
  let ?k = "\<lparr>use_lock = False, freelist = 0, kmem_mem = (\<lambda>_. 0)\<rparr>" and ?v = "KERNBASE + 4194304"
  have "free_list KERNBASE ?k []" by (simp add: free_list_def)
  then obtain k0 where "free_list KERNBASE k0 [?v]"
    using kfree_list [of KERNBASE ?k "[]" ?v] by (auto simp: page_ok_def page_consts)
  moreover from this obtain k where k: "kalloc k0 = (Some ?v, k)" using kalloc_list by blast
  moreover have "client_run kalloc (kfree KERNBASE) k0 k [?v]"
    by (rule client_run.get [where get = kalloc, OF client_run.start k])
  ultimately have "?v \<notin> free_pages KERNBASE k"
    using kalloc_pages_conserved [of KERNBASE k0 k "[?v]"] by (auto simp: kmem_inv_def)
  with k show ?thesis by blast
qed

text \<open>\<open>kinit1\<close> and \<open>kinit2\<close> put exactly the whole pages between their two addresses on
  the free list, beside the pages that were there, and do not panic.\<close>

theorem kinit_frees_range:
  assumes "kmem_inv kend k" and "free_pages kend k \<inter> pages_in vstart vend = {}"
    and "kend \<le> vstart" and "KERNBASE \<le> vstart" and "vstart < KERNBASE + PHYSTOP"
    and "vend \<le> KERNBASE + PHYSTOP"
  shows "(\<exists>k'. kinit1 kend vstart vend k = Ret k' \<and> kmem_inv kend k' \<and> \<not> use_lock k' \<and>
      free_pages kend k' = free_pages kend k \<union> pages_in vstart vend) \<and>
    (\<exists>k'. kinit2 kend vstart vend k = Ret k' \<and> kmem_inv kend k' \<and> use_lock k' \<and>
      free_pages kend k' = free_pages kend k \<union> pages_in vstart vend)"
proof -
  obtain xs where xs: "free_list kend k xs" using assms(1) by (auto simp: kmem_inv_def)
  have fl: "free_list kend (k\<lparr>use_lock := b\<rparr>) ys = free_list kend k ys" for b k ys
    by (simp add: free_list_def)
  have r: "PGROUNDUP vstart mod PGSIZE = 0" "vstart \<le> PGROUNDUP vstart"
    "pages_in (PGROUNDUP vstart) vend = pages_in vstart vend"
    using PGROUNDUP_props [of vstart vend] assms(5) by (auto simp: page_consts)
  have "\<exists>k' ys. freerange kend vstart vend (k\<lparr>use_lock := b\<rparr>) = Ret k' \<and> free_list kend k' ys \<and>
      set ys = set xs \<union> pages_in vstart vend \<and> use_lock k' = b" for b
    using free_loop_list [of kend "k\<lparr>use_lock := b\<rparr>" xs "PGROUNDUP vstart" vend] xs r assms
    by (simp add: freerange_def fl free_pages_eq)
  from this [of False] this [of "use_lock k"]
  obtain k1 ys1 k2 ys2 where k1: "freerange kend vstart vend (k\<lparr>use_lock := False\<rparr>) = Ret k1"
      "free_list kend k1 ys1" "set ys1 = set xs \<union> pages_in vstart vend" "\<not> use_lock k1"
    and k2: "freerange kend vstart vend k = Ret k2"
      "free_list kend k2 ys2" "set ys2 = set xs \<union> pages_in vstart vend"
    by auto
  have "free_list kend (k2\<lparr>use_lock := True\<rparr>) ys2" using k2(2) by (simp add: fl)
  then show ?thesis
    using xs k1 k2 free_pages_eq [OF xs] free_pages_eq [OF k1(2)] free_pages_eq
    by (auto simp: kinit1_def kinit2_def kmem_inv_def)
qed

theorem kinit_frees_range_witness:
  "\<exists>k'. kinit1 KERNBASE (KERNBASE + 4194304) (KERNBASE + 4202496)
      \<lparr>use_lock = True, freelist = 0, kmem_mem = (\<lambda>_. 0)\<rparr> = Ret k' \<and>
    KERNBASE + 4198400 \<in> free_pages KERNBASE k'"
proof -
  let ?k = "\<lparr>use_lock = True, freelist = 0, kmem_mem = (\<lambda>_. 0)\<rparr>"
  have fl: "free_list KERNBASE ?k []" by (simp add: free_list_def)
  have "kmem_inv KERNBASE ?k" using fl by (auto simp: kmem_inv_def)
  moreover have "free_pages KERNBASE ?k = {}" using free_pages_eq [OF fl] by simp
  ultimately show ?thesis
    using kinit_frees_range [of KERNBASE ?k "KERNBASE + 4194304" "KERNBASE + 4202496"]
    by (auto simp: page_consts pages_in_def)
qed

end
