(* ===== verification/Pipe.thy ===== *)
theory Pipe
  imports C_String
begin

text \<open>
  Pipes (\<open>pipe.c\<close>): a ring of 512 bytes between two counters that wrap at \<open>2 ^ 32\<close>. Each
  operation runs under the pipe's lock; a writer that finds the ring full or a reader that
  finds it empty sleeps and goes on later, so \<open>pipewrite\<close> takes the index it continues
  from. \<open>pipealloc\<close> is in the theory \<open>File\<close>.
\<close>

section \<open>State\<close>

definition PIPESIZE :: nat where "PIPESIZE = 512"

record pipe =
  pdata :: "byte list"
  nread :: "32 word"
  nwrite :: "32 word"
  readopen :: bool
  writeopen :: bool

text \<open>The two wait channels, the addresses of the two counters.\<close>

datatype pchan = Chan_nread | Chan_nwrite

datatype pipe_res = Returned int | Sleeping

section \<open>Operations\<close>

definition pipe_full :: "pipe \<Rightarrow> bool" where
  "pipe_full p \<longleftrightarrow> nwrite p = nread p + of_nat PIPESIZE"

definition pipe_empty :: "pipe \<Rightarrow> bool" where
  "pipe_empty p \<longleftrightarrow> nread p = nwrite p"

definition put_byte :: "byte \<Rightarrow> pipe \<Rightarrow> pipe" where
  "put_byte b p = p\<lparr>pdata := (pdata p)[unat (nwrite p) mod PIPESIZE := b], nwrite := nwrite p + 1\<rparr>"

definition get_byte :: "pipe \<Rightarrow> byte \<times> pipe" where
  "get_byte p = (pdata p ! (unat (nread p) mod PIPESIZE), p\<lparr>nread := nread p + 1\<rparr>)"

text \<open>
  \<open>pipewrite p addr n killed i\<close>: the loop from index \<open>i\<close> until it returns or sleeps; the
  pipe, the index reached, the channels woken, and how it stopped.
\<close>

function pipewrite :: "pipe \<Rightarrow> cptr \<Rightarrow> int \<Rightarrow> bool \<Rightarrow> nat \<Rightarrow> pipe \<times> nat \<times> pchan list \<times> pipe_res" where
  "pipewrite p addr n killed i =
     (if int i < n then
        if pipe_full p then
          if \<not> readopen p \<or> killed then (p, i, [], Returned (- 1))
          else (p, i, [Chan_nread], Sleeping)
        else pipewrite (put_byte (addr i) p) addr n killed (i + 1)
      else (p, i, [Chan_nread], Returned n))"
  by auto
termination by (relation "measure (\<lambda>(p, addr, n, killed, i). nat (n - int i))") auto

declare pipewrite.simps [simp del]

function copy_out :: "pipe \<Rightarrow> int \<Rightarrow> nat \<Rightarrow> byte list \<times> pipe" where
  "copy_out p n i =
     (if int i < n \<and> \<not> pipe_empty p then
        (case get_byte p of (b, p) \<Rightarrow> (case copy_out p n (i + 1) of (bs, p) \<Rightarrow> (b # bs, p)))
      else ([], p))"
  by auto
termination by (relation "measure (\<lambda>(p, n, i). nat (n - int i))") auto

declare copy_out.simps [simp del]

text \<open>\<open>piperead\<close>: the bytes stored at \<open>addr\<close>, the pipe, the channels woken, and how it stopped.\<close>

definition piperead :: "pipe \<Rightarrow> int \<Rightarrow> bool \<Rightarrow> byte list \<times> pipe \<times> pchan list \<times> pipe_res" where
  "piperead p n killed =
     (if pipe_empty p \<and> writeopen p then
        if killed then ([], p, [], Returned (- 1)) else ([], p, [], Sleeping)
      else (case copy_out p n 0 of
        (bs, p) \<Rightarrow> (bs, p, [Chan_nwrite], Returned (int (length bs)))))"

text \<open>\<open>pipeclose\<close>: the pipe, the channel woken, and whether its page is freed.\<close>

definition pipeclose :: "pipe \<Rightarrow> bool \<Rightarrow> pipe \<times> pchan \<times> bool" where
  "pipeclose p writable =
     (let (p, ch) = (if writable then (p\<lparr>writeopen := False\<rparr>, Chan_nread)
                     else (p\<lparr>readopen := False\<rparr>, Chan_nwrite))
      in (p, ch, \<not> readopen p \<and> \<not> writeopen p))"

text \<open>A fresh pipe: \<open>pipealloc\<close> initialises the counters, not the ring's bytes.\<close>

definition new_pipe :: "byte list \<Rightarrow> pipe" where
  "new_pipe junk = \<lparr>pdata = junk, nread = 0, nwrite = 0, readopen = True, writeopen = True\<rparr>"

section \<open>The contract of a bounded queue\<close>

locale bounded_queue =
  fixes inv :: "'q \<Rightarrow> bool" and contents :: "'q \<Rightarrow> 'a list" and cap :: nat
    and full :: "'q \<Rightarrow> bool" and is_empty :: "'q \<Rightarrow> bool"
    and enq :: "'a \<Rightarrow> 'q \<Rightarrow> 'q" and deq :: "'q \<Rightarrow> 'a \<times> 'q"
  assumes full_iff: "inv q \<Longrightarrow> full q \<longleftrightarrow> length (contents q) = cap"
    and empty_iff: "inv q \<Longrightarrow> is_empty q \<longleftrightarrow> contents q = []"
    and bounded: "inv q \<Longrightarrow> length (contents q) \<le> cap"
    and enq_contents: "inv q \<Longrightarrow> \<not> full q \<Longrightarrow> inv (enq a q) \<and> contents (enq a q) = contents q @ [a]"
    and deq_contents: "inv q \<Longrightarrow> \<not> is_empty q \<Longrightarrow> deq q = (a, q') \<Longrightarrow>
      inv q' \<and> contents q = a # contents q'"
begin

lemma deq_enq_empty:
  assumes "inv q" and "is_empty q" and "0 < cap" and "deq (enq a q) = (b, q')"
  shows "b = a \<and> is_empty q'"
proof -
  have "contents q = []" using assms(1,2) empty_iff by blast
  then have e: "inv (enq a q)" "contents (enq a q) = [a]"
    using enq_contents [OF assms(1)] full_iff [OF assms(1)] assms(3) by auto
  then have "\<not> is_empty (enq a q)" using empty_iff by simp
  from deq_contents [OF e(1) this assms(4)] e show ?thesis using empty_iff by auto
qed

lemma not_both: "inv q \<Longrightarrow> 0 < cap \<Longrightarrow> \<not> (full q \<and> is_empty q)"
  using full_iff empty_iff by force

end

section \<open>The ring refines a queue\<close>

definition contents :: "pipe \<Rightarrow> byte list" where
  "contents p = map (\<lambda>i. pdata p ! ((unat (nread p) + i) mod PIPESIZE)) [0..<unat (nwrite p - nread p)]"

definition pipe_inv :: "pipe \<Rightarrow> bool" where
  "pipe_inv p \<longleftrightarrow> length (pdata p) = PIPESIZE \<and> unat (nwrite p - nread p) \<le> PIPESIZE"

lemma length_contents: "length (contents p) = unat (nwrite p - nread p)"
  by (simp add: contents_def)

lemma ring_index: "unat (a + b :: 32 word) mod 512 = (unat a + unat b) mod 512"
proof -
  have "unat (a + b) = (unat a + unat b) mod 4294967296" by (simp add: unat_word_ariths)
  moreover have "(512 :: nat) dvd 4294967296" by simp
  ultimately show ?thesis by (simp only: mod_mod_cancel)
qed

lemma ring_index_add: "(unat (a + b :: 32 word) + i) mod 512 = (unat a + unat b + i) mod 512"
  by (metis ring_index mod_add_left_eq)

lemma ring_apart: "i < d \<Longrightarrow> d < 512 \<Longrightarrow> (a + i) mod 512 \<noteq> (a + d) mod (512 :: nat)"
proof
  assume "i < d" "d < 512" "(a + i) mod 512 = (a + d) mod (512 :: nat)"
  then have "512 dvd (a + d) - (a + i)" by (metis add_le_cancel_left less_imp_le mod_eq_dvd_iff_nat)
  with \<open>i < d\<close> \<open>d < 512\<close> show False by (auto dest: dvd_imp_le)
qed

lemma pipe_full_iff: "pipe_full p \<longleftrightarrow> unat (nwrite p - nread p) = PIPESIZE"
proof -
  have "pipe_full p \<longleftrightarrow> nwrite p - nread p = 512"
    by (auto simp: pipe_full_def PIPESIZE_def algebra_simps)
  also have "\<dots> \<longleftrightarrow> unat (nwrite p - nread p) = unat (512 :: 32 word)" by (simp only: word_unat_eq_iff)
  finally show ?thesis by (simp add: PIPESIZE_def)
qed

lemma pipe_empty_iff: "pipe_empty p \<longleftrightarrow> contents p = []"
proof -
  have "contents p = [] \<longleftrightarrow> unat (nwrite p - nread p) = 0" by (simp add: contents_def)
  also have "\<dots> \<longleftrightarrow> nwrite p - nread p = 0" by (rule unsigned_eq_0_iff)
  finally show ?thesis by (auto simp: pipe_empty_def)
qed

lemma put_byte_contents:
  assumes inv: "pipe_inv p" and nf: "\<not> pipe_full p"
  shows "pipe_inv (put_byte b p) \<and> contents (put_byte b p) = contents p @ [b]"
proof -
  let ?d = "unat (nwrite p - nread p)" and ?p = "put_byte b p"
  have d: "?d < 512" using inv nf by (auto simp: pipe_inv_def pipe_full_iff PIPESIZE_def)
  have "nwrite ?p - nread ?p = (nwrite p - nread p) + 1" by (simp add: put_byte_def)
  then have d': "unat (nwrite ?p - nread ?p) = ?d + 1" using d by (simp add: unat_word_ariths)
  have "nwrite p = nread p + (nwrite p - nread p)" by simp
  then have w: "unat (nwrite p) mod 512 = (unat (nread p) + ?d) mod 512" by (metis ring_index)
  have len: "length (pdata p) = 512" using inv by (simp add: pipe_inv_def PIPESIZE_def)
  have old: "(pdata p)[unat (nwrite p) mod 512 := b] ! ((unat (nread p) + i) mod 512)
      = pdata p ! ((unat (nread p) + i) mod 512)" if "i < ?d" for i
    using ring_apart [OF that d, of "unat (nread p)"] w len by simp
  have "contents ?p = map (\<lambda>i. (pdata p)[unat (nwrite p) mod 512 := b] ! ((unat (nread p) + i) mod 512))
      ([0..<?d] @ [?d])"
    unfolding contents_def d' by (simp add: put_byte_def PIPESIZE_def)
  also have "\<dots> = contents p @ [b]"
    using old len by (auto simp: contents_def PIPESIZE_def w [symmetric])
  finally show ?thesis using inv d d' by (simp add: pipe_inv_def put_byte_def PIPESIZE_def)
qed

lemma get_byte_contents:
  assumes inv: "pipe_inv p" and ne: "\<not> pipe_empty p" and g: "get_byte p = (b, p')"
  shows "pipe_inv p' \<and> contents p = b # contents p'"
proof -
  let ?d = "unat (nwrite p - nread p)"
  have p': "p' = p\<lparr>nread := nread p + 1\<rparr>" and b: "b = pdata p ! (unat (nread p) mod 512)"
    using g by (simp_all add: get_byte_def PIPESIZE_def)
  have pos: "nwrite p - nread p \<noteq> 0" using ne by (auto simp: pipe_empty_def)
  have "nwrite p' - nread p' = (nwrite p - nread p) - 1" by (simp add: p')
  moreover have "(1 :: 32 word) \<le> nwrite p - nread p"
    using pos by (simp add: word_le_nat_alt Suc_le_eq unat_gt_0)
  ultimately have d': "unat (nwrite p' - nread p') = ?d - 1" by (simp add: unat_sub)
  have dpos: "0 < ?d" using pos by (simp add: unat_gt_0)
  have "[0..<?d] = 0 # map Suc [0..<?d - 1]" using dpos by (metis Suc_diff_1 map_Suc_upt upt_conv_Cons)
  then have "contents p = b # map (\<lambda>i. pdata p ! ((unat (nread p) + Suc i) mod 512)) [0..<?d - 1]"
    by (simp add: contents_def PIPESIZE_def b)
  also have "\<dots> = b # contents p'"
    unfolding contents_def d' using ring_index_add [of "nread p" 1] by (simp add: p' PIPESIZE_def)
  finally have "contents p = b # contents p'" .
  moreover have "?d - 1 \<le> PIPESIZE"
    using inv le_trans [OF diff_le_self] unfolding pipe_inv_def by blast
  moreover have "length (pdata p') = PIPESIZE" using inv by (simp add: pipe_inv_def p')
  ultimately show ?thesis using d' by (simp only: pipe_inv_def)
qed

interpretation ring: bounded_queue pipe_inv contents PIPESIZE pipe_full pipe_empty put_byte get_byte
proof unfold_locales
  fix q :: pipe and a b :: byte and q'
  show "pipe_inv q \<Longrightarrow> pipe_full q \<longleftrightarrow> length (contents q) = PIPESIZE"
    by (simp add: pipe_full_iff length_contents)
  show "pipe_inv q \<Longrightarrow> pipe_empty q \<longleftrightarrow> contents q = []" by (rule pipe_empty_iff)
  show "pipe_inv q \<Longrightarrow> length (contents q) \<le> PIPESIZE" by (simp add: length_contents pipe_inv_def)
  show "pipe_inv q \<Longrightarrow> \<not> pipe_full q \<Longrightarrow>
      pipe_inv (put_byte a q) \<and> contents (put_byte a q) = contents q @ [a]"
    by (rule put_byte_contents)
  show "pipe_inv q \<Longrightarrow> \<not> pipe_empty q \<Longrightarrow> get_byte q = (a, q') \<Longrightarrow>
      pipe_inv q' \<and> contents q = a # contents q'"
    by (rule get_byte_contents)
qed

section \<open>Writing and reading\<close>

lemma pipewrite_go: "int i < n \<Longrightarrow> \<not> pipe_full p \<Longrightarrow>
    pipewrite p addr n killed i = pipewrite (put_byte (addr i) p) addr n killed (i + 1)"
  by (subst pipewrite.simps) simp

lemma pipewrite_stop: "\<not> (int i < n \<and> \<not> pipe_full p) \<Longrightarrow>
    pipewrite p addr n killed i =
      (if \<not> int i < n then (p, i, [Chan_nread], Returned n)
       else if \<not> readopen p \<or> killed then (p, i, [], Returned (- 1)) else (p, i, [Chan_nread], Sleeping))"
  by (subst pipewrite.simps) simp

lemma copy_out_go: "int i < n \<Longrightarrow> \<not> pipe_empty p \<Longrightarrow> get_byte p = (b, q) \<Longrightarrow>
    copy_out q n (i + 1) = (bs, p') \<Longrightarrow> copy_out p n i = (b # bs, p')"
  by (subst copy_out.simps) simp

lemma copy_out_stop: "\<not> (int i < n \<and> \<not> pipe_empty p) \<Longrightarrow> copy_out p n i = ([], p)"
  by (subst copy_out.simps) auto

text \<open>How the loop can stop at index \<open>j\<close>.\<close>

definition write_end :: "int \<Rightarrow> bool \<Rightarrow> nat \<Rightarrow> pipe \<Rightarrow> pipe_res \<Rightarrow> bool" where
  "write_end n killed j p r \<longleftrightarrow>
     (case r of
        Returned v \<Rightarrow> v = n \<and> n \<le> int j \<or>
          v = - 1 \<and> int j < n \<and> pipe_full p \<and> (\<not> readopen p \<or> killed)
      | Sleeping \<Rightarrow> int j < n \<and> pipe_full p \<and> readopen p \<and> \<not> killed)"

lemma pipewrite_loop:
  assumes "pipewrite p addr n killed i = (p', j, ws, r)" and "pipe_inv p"
  shows "pipe_inv p' \<and> i \<le> j \<and> contents p' = contents p @ map addr [i..<j] \<and>
    readopen p' = readopen p \<and> writeopen p' = writeopen p \<and> write_end n killed j p' r"
  using assms
proof (induction p addr n killed i rule: pipewrite.induct)
  case (1 p addr n killed i)
  show ?case
  proof (cases "int i < n \<and> \<not> pipe_full p")
    case True
    let ?q = "put_byte (addr i) p"
    have w: "pipewrite ?q addr n killed (i + 1) = (p', j, ws, r)"
      using "1.prems"(1) pipewrite_go [of i n p addr killed] True by simp
    have q: "pipe_inv ?q" "contents ?q = contents p @ [addr i]"
      using ring.enq_contents [of p "addr i"] "1.prems"(2) True by auto
    have same: "readopen ?q = readopen p" "writeopen ?q = writeopen p" by (simp_all add: put_byte_def)
    from "1.IH" [OF _ _ w q(1)] True
    have ih: "pipe_inv p'" "i + 1 \<le> j" "contents p' = contents ?q @ map addr [i + 1..<j]"
      "readopen p' = readopen ?q" "writeopen p' = writeopen ?q" "write_end n killed j p' r" by blast+
    have "map addr [i..<j] = addr i # map addr [i + 1..<j]" using ih(2) by (simp add: upt_conv_Cons)
    then have "contents p' = contents p @ map addr [i..<j]" unfolding ih(3) q(2) by simp
    with ih same show ?thesis by simp
  next
    case False
    have "p' = p \<and> j = i \<and> write_end n killed i p r"
      using "1.prems"(1) False unfolding pipewrite_stop [OF False]
      by (auto simp: write_end_def split: if_splits)
    with "1.prems"(2) show ?thesis by simp
  qed
qed

lemma copy_out_contents:
  assumes "copy_out p n i = (bs, p')" and "pipe_inv p"
  shows "pipe_inv p' \<and> contents p = bs @ contents p' \<and>
    length bs = min (nat (n - int i)) (length (contents p)) \<and>
    readopen p' = readopen p \<and> writeopen p' = writeopen p \<and> nwrite p' = nwrite p"
  using assms
proof (induction p n i arbitrary: bs p' rule: copy_out.induct)
  case (1 p n i)
  show ?case
  proof (cases "int i < n \<and> \<not> pipe_empty p")
    case True
    obtain b q where g: "get_byte p = (b, q)" by force
    obtain cs q' where c: "copy_out q n (i + 1) = (cs, q')" by force
    have eq: "bs = b # cs" "p' = q'"
      using "1.prems"(1) copy_out_go [OF _ _ g c] True by simp_all
    have dq: "pipe_inv q" "contents p = b # contents q"
      using ring.deq_contents [OF "1.prems"(2) _ g] True by auto
    have same: "readopen q = readopen p" "writeopen q = writeopen p" "nwrite q = nwrite p"
      using g by (auto simp: get_byte_def)
    from "1.IH" [OF True g [symmetric] c dq(1)]
    have ih: "pipe_inv q'" "contents q = cs @ contents q'"
      "length cs = min (nat (n - int (i + 1))) (length (contents q))"
      "readopen q' = readopen q" "writeopen q' = writeopen q" "nwrite q' = nwrite q" by blast+
    have "nat (n - int i) = Suc (nat (n - int (i + 1)))" using True by linarith
    then have "length bs = min (nat (n - int i)) (length (contents p))"
      unfolding eq(1) dq(2) by (simp only: ih(3) list.size min_Suc_Suc)
    then show ?thesis using ih(1,4,5,6) same unfolding eq dq(2) ih(2) by simp
  next
    case False
    then have "bs = [] \<and> p' = p"
      using "1.prems"(1) copy_out_stop [OF False] by simp
    then show ?thesis using False "1.prems"(2) pipe_empty_iff by auto
  qed
qed

text \<open>
  A pipe shared by writers and readers: \<open>sent\<close> are the bytes taken from writers so far and
  \<open>received\<close> the bytes given to readers. Calls may sleep and be resumed in any order.
\<close>

inductive pipe_run :: "pipe \<Rightarrow> byte list \<Rightarrow> byte list \<Rightarrow> bool" where
  p_new: "length junk = PIPESIZE \<Longrightarrow> pipe_run (new_pipe junk) [] []"
| p_write: "pipe_run p sent received \<Longrightarrow> pipewrite p addr n killed i = (p', j, ws, r) \<Longrightarrow>
    pipe_run p' (sent @ map addr [i..<j]) received"
| p_read: "pipe_run p sent received \<Longrightarrow> piperead p n killed = (bs, p', ws, r) \<Longrightarrow>
    pipe_run p' sent (received @ bs)"
| p_close: "pipe_run p sent received \<Longrightarrow> pipeclose p writable = (p', ch, freed) \<Longrightarrow>
    pipe_run p' sent received"

lemma pipeclose_contents: "pipeclose p writable = (p', ch, freed) \<Longrightarrow>
    contents p' = contents p \<and> pipe_inv p' = pipe_inv p"
  by (auto simp: pipeclose_def contents_def pipe_inv_def Let_def split: if_splits)

lemma piperead_contents:
  "piperead p n killed = (bs, p', ws, r) \<Longrightarrow> pipe_inv p \<Longrightarrow> pipe_inv p' \<and> contents p = bs @ contents p'"
proof -
  assume r: "piperead p n killed = (bs, p', ws, r)" and inv: "pipe_inv p"
  show ?thesis
  proof (cases "pipe_empty p \<and> writeopen p")
    case True
    then have "bs = [] \<and> p' = p" using r by (simp add: piperead_def split: if_splits)
    with inv show ?thesis by simp
  next
    case False
    obtain cs q where c: "copy_out p n 0 = (cs, q)" by force
    with r False have "bs = cs \<and> p' = q" by (simp add: piperead_def)
    with copy_out_contents [OF c inv] show ?thesis by blast
  qed
qed

lemma pipe_run_fifo:
  "pipe_run p sent received \<Longrightarrow> pipe_inv p \<and> sent = received @ contents p"
proof (induction rule: pipe_run.induct)
  case (p_new junk)
  then show ?case by (simp add: new_pipe_def pipe_inv_def contents_def)
next
  case (p_write p sent received addr n killed i p' j ws r)
  then show ?case using pipewrite_loop [OF p_write.hyps(2)] by simp
next
  case (p_read p sent received n killed bs p' ws r)
  then show ?case using piperead_contents [OF p_read.hyps(2)] by simp
next
  case (p_close p sent received writable p' ch freed)
  then show ?case using pipeclose_contents [OF p_close.hyps(2)] by simp
qed

section \<open>Properties\<close>

text \<open>C16: whatever calls of \<open>pipewrite\<close>, \<open>piperead\<close> and \<open>pipeclose\<close> are made on a pipe, and
  wherever they sleep, the bytes the readers have got followed by the bytes still in the
  ring are exactly the bytes taken from the writers, in order; the counters may wrap.\<close>

theorem pipe_fifo:
  assumes "pipe_run p sent received"
  shows "sent = received @ contents p \<and> length (contents p) \<le> PIPESIZE"
  using pipe_run_fifo [OF assms] ring.bounded [of p] by blast

theorem pipe_fifo_witness:
  "\<exists>p j ws r. pipewrite (new_pipe (replicate 512 0)) (cptr_of [104, 105]) 2 False 0 = (p, j, ws, r) \<and>
     contents p = map (cptr_of [104, 105]) [0..<j]"
proof -
  obtain p j ws r where w: "pipewrite (new_pipe (replicate 512 0)) (cptr_of [104, 105]) 2 False 0 = (p, j, ws, r)"
    by (metis prod_cases4)
  have "pipe_run (new_pipe (replicate 512 0)) [] []" by (rule pipe_run.p_new) (simp add: PIPESIZE_def)
  from pipe_fifo [OF pipe_run.p_write [OF this w]] w show ?thesis by auto
qed

text \<open>\<open>piperead\<close> of \<open>n\<close> bytes returns the first \<open>min n\<close> bytes of the ring when there are
  any, 0 at the end of a pipe whose writers have closed, fails for a killed process on an
  empty open pipe, and sleeps otherwise without changing the pipe.\<close>

theorem piperead_result:
  assumes "pipe_inv p" and "piperead p n killed = (bs, p', ws, r)"
  shows "if contents p = [] \<and> writeopen p
     then bs = [] \<and> p' = p \<and> r = (if killed then Returned (- 1) else Sleeping)
     else bs = take (nat n) (contents p) \<and> contents p' = drop (nat n) (contents p) \<and>
       r = Returned (int (length bs)) \<and> ws = [Chan_nwrite]"
proof (cases "contents p = [] \<and> writeopen p")
  case True
  then show ?thesis using assms(2) pipe_empty_iff [of p]
    by (auto simp: piperead_def split: if_splits)
next
  case False
  obtain cs q where c: "copy_out p n 0 = (cs, q)" by force
  then have eq: "bs = cs" "p' = q" "ws = [Chan_nwrite]" "r = Returned (int (length cs))"
    using assms(2) False unfolding piperead_def pipe_empty_iff [symmetric] by auto
  have "length cs = min (nat (n - int 0)) (length (contents p))"
    using copy_out_contents [OF c assms(1)] by blast
  then have cont: "contents p = bs @ contents p'" "length bs = min (nat n) (length (contents p))"
    using copy_out_contents [OF c assms(1)] unfolding eq by (blast, simp only: of_nat_0 diff_0_right)
  have "take (nat n) (contents p) = take (length bs) (contents p) \<and>
      drop (nat n) (contents p) = drop (length bs) (contents p)"
    using cont(2) by (cases "nat n \<le> length (contents p)") simp_all
  moreover have "take (length bs) (contents p) = bs" "drop (length bs) (contents p) = contents p'"
    by (subst cont(1), simp)+
  ultimately show ?thesis using False eq by simp
qed

theorem piperead_result_witness:
  "piperead (new_pipe (replicate 512 0)) 10 False = ([], new_pipe (replicate 512 0), [], Sleeping)"
proof -
  let ?p = "new_pipe (replicate 512 0)"
  obtain bs p' ws r where p: "piperead ?p 10 False = (bs, p', ws, r)" by (metis prod_cases4)
  have "pipe_inv ?p" "contents ?p = []" "writeopen ?p"
    by (simp_all add: pipe_inv_def new_pipe_def contents_def PIPESIZE_def)
  with piperead_result [OF _ p] p show ?thesis
    by (auto simp: piperead_def pipe_empty_iff)
qed

end
