(* ===== verification/Bio.thy ===== *)
theory Bio
  imports Locks
begin

text \<open>
  The buffer cache (\<open>bio.c\<close>) over the memory disk (\<open>memide.c\<close>). Buffers are the entries of
  an array, named by their index; the doubly linked list through \<open>prev\<close> and \<open>next\<close> is the
  list of indices in the order from \<open>head.next\<close>. Spinlock-protected sections are atomic;
  the sleep lock of a buffer is part of the state, and an operation that finds it taken
  has the outcome \<open>Sleep\<close>. All operations take and return a record that later theories
  extend with the state of the log and of the file system.
\<close>

section \<open>State\<close>

definition BSIZE :: nat where "BSIZE = 512"
definition NBUF :: nat where "NBUF = 30"

text \<open>\<open>b_valid\<close> and \<open>b_dirty\<close> are the bits \<open>B_VALID\<close> and \<open>B_DIRTY\<close> of \<open>flags\<close>.\<close>

record buf =
  b_valid :: bool
  b_dirty :: bool
  b_dev :: nat
  b_blockno :: nat
  b_lock :: sleeplock
  b_refcnt :: nat
  b_data :: "byte list"

text \<open>
  \<open>my_pid\<close> is the process the kernel path runs for. \<open>disk_writes\<close> is the history of the
  blocks written to the disk, oldest first, which the crash theorems look at.
\<close>

record bstate =
  bufs :: "buf list"
  lru :: "nat list"
  memdisk :: "nat \<Rightarrow> byte list"
  disksize :: nat
  disk_writes :: "(nat \<times> byte list) list"
  my_pid :: int

definition update_buf :: "nat \<Rightarrow> (buf \<Rightarrow> buf) \<Rightarrow> 'a bstate_scheme \<Rightarrow> 'a bstate_scheme" where
  "update_buf i f s = s\<lparr>bufs := (bufs s)[i := f (bufs s ! i)]\<rparr>"

section \<open>The memory disk\<close>

definition iderw :: "nat \<Rightarrow> 'a bstate_scheme \<Rightarrow> 'a bstate_scheme outcome" where
  "iderw i s =
     (let b = bufs s ! i
      in if \<not> holdingsleep (my_pid s) (b_lock b) then Panic ''iderw: buf not locked''
         else if b_valid b \<and> \<not> b_dirty b then Panic ''iderw: nothing to do''
         else if b_dev b \<noteq> 1 then Panic ''iderw: request not for disk 1''
         else if b_blockno b \<ge> disksize s then Panic ''iderw: block out of range''
         else if b_dirty b then
           Ret (update_buf i (\<lambda>b. b\<lparr>b_dirty := False, b_valid := True\<rparr>)
                  (s\<lparr>memdisk := (memdisk s)(b_blockno b := b_data b),
                     disk_writes := disk_writes s @ [(b_blockno b, b_data b)]\<rparr>))
         else
           Ret (update_buf i (\<lambda>b. b\<lparr>b_data := memdisk s (b_blockno b), b_valid := True\<rparr>) s))"

section \<open>The buffer cache\<close>

definition empty_buf :: buf where
  "empty_buf = \<lparr>b_valid = False, b_dirty = False, b_dev = 0, b_blockno = 0, b_lock = initsleeplock,
     b_refcnt = 0, b_data = replicate BSIZE 0\<rparr>"

text \<open>\<open>binit\<close> puts every buffer in turn at the front of the list.\<close>

definition binit :: "'a bstate_scheme \<Rightarrow> 'a bstate_scheme" where
  "binit s = fold (\<lambda>i s. (update_buf i (\<lambda>b. b\<lparr>b_lock := initsleeplock\<rparr>) s)\<lparr>lru := i # lru s\<rparr>)
     [0..<NBUF] (s\<lparr>lru := []\<rparr>)"

text \<open>Lock the buffer \<open>i\<close> for the current process.\<close>

definition lock_buf :: "nat \<Rightarrow> 'a bstate_scheme \<Rightarrow> (nat \<times> 'a bstate_scheme) outcome" where
  "lock_buf i s =
     kbind (acquiresleep (my_pid s) (b_lock (bufs s ! i))) (\<lambda>lk.
       Ret (i, update_buf i (\<lambda>b. b\<lparr>b_lock := lk\<rparr>) s))"

definition bget :: "nat \<Rightarrow> nat \<Rightarrow> 'a bstate_scheme \<Rightarrow> (nat \<times> 'a bstate_scheme) outcome" where
  "bget dev blockno s =
     (case find (\<lambda>i. b_dev (bufs s ! i) = dev \<and> b_blockno (bufs s ! i) = blockno) (lru s) of
        Some i \<Rightarrow> lock_buf i (update_buf i (\<lambda>b. b\<lparr>b_refcnt := b_refcnt b + 1\<rparr>) s)
      | None \<Rightarrow>
          (case find (\<lambda>i. b_refcnt (bufs s ! i) = 0 \<and> \<not> b_dirty (bufs s ! i)) (rev (lru s)) of
             Some i \<Rightarrow> lock_buf i (update_buf i (\<lambda>b. b\<lparr>b_dev := dev, b_blockno := blockno,
                         b_valid := False, b_dirty := False, b_refcnt := 1\<rparr>) s)
           | None \<Rightarrow> Panic ''bget: no buffers''))"

definition bread :: "nat \<Rightarrow> nat \<Rightarrow> 'a bstate_scheme \<Rightarrow> (nat \<times> 'a bstate_scheme) outcome" where
  "bread dev blockno s =
     kbind (bget dev blockno s) (\<lambda>(i, s).
       if \<not> b_valid (bufs s ! i) then kbind (iderw i s) (\<lambda>s. Ret (i, s)) else Ret (i, s))"

definition bwrite :: "nat \<Rightarrow> 'a bstate_scheme \<Rightarrow> 'a bstate_scheme outcome" where
  "bwrite i s =
     (if \<not> holdingsleep (my_pid s) (b_lock (bufs s ! i)) then Panic ''bwrite''
      else iderw i (update_buf i (\<lambda>b. b\<lparr>b_dirty := True\<rparr>) s))"

definition brelse :: "nat \<Rightarrow> 'a bstate_scheme \<Rightarrow> 'a bstate_scheme outcome" where
  "brelse i s =
     (if \<not> holdingsleep (my_pid s) (b_lock (bufs s ! i)) then Panic ''brelse''
      else
        let s = update_buf i (\<lambda>b. b\<lparr>b_lock := releasesleep (b_lock b),
                                     b_refcnt := u32 (b_refcnt b + 4294967295)\<rparr>) s
        in Ret (if b_refcnt (bufs s ! i) = 0 then s\<lparr>lru := i # remove1 i (lru s)\<rparr> else s))"

text \<open>The client's access to \<open>b->data\<close>.\<close>

definition buf_data :: "nat \<Rightarrow> 'a bstate_scheme \<Rightarrow> byte list" where
  "buf_data i s = b_data (bufs s ! i)"

definition set_data :: "nat \<Rightarrow> byte list \<Rightarrow> 'a bstate_scheme \<Rightarrow> 'a bstate_scheme" where
  "set_data i d s = update_buf i (\<lambda>b. b\<lparr>b_data := d\<rparr>) s"

section \<open>The invariant of the cache\<close>

text \<open>
  Buffers that hold a block of the disk hold different ones; an idle buffer that is
  valid and not dirty agrees with the disk; a dirty buffer is valid; the recency list has
  every buffer once; a buffer in use by the current path has its lock and one reference.
\<close>

definition cached :: "'a bstate_scheme \<Rightarrow> nat \<Rightarrow> nat \<Rightarrow> bool" where
  "cached s i n \<longleftrightarrow> i < NBUF \<and> b_dev (bufs s ! i) = 1 \<and> b_blockno (bufs s ! i) = n"

definition buf_ok :: "(nat \<Rightarrow> byte list) \<Rightarrow> nat \<Rightarrow> int \<Rightarrow> buf \<Rightarrow> bool" where
  "buf_ok disk dsize pid b \<longleftrightarrow>
     length (b_data b) = BSIZE \<and> (b_valid b \<longrightarrow> b_dev b = 1 \<and> b_blockno b < dsize) \<and>
     (b_dirty b \<longrightarrow> b_valid b) \<and> b_refcnt b = (if slocked (b_lock b) then 1 else 0) \<and>
     (slocked (b_lock b) \<longrightarrow> spid (b_lock b) = pid \<and> b_valid b) \<and>
     (b_valid b \<and> \<not> b_dirty b \<and> \<not> slocked (b_lock b) \<longrightarrow> b_data b = disk (b_blockno b))"

definition cache_inv :: "'a bstate_scheme \<Rightarrow> bool" where
  "cache_inv s \<longleftrightarrow>
     length (bufs s) = NBUF \<and> distinct (lru s) \<and> set (lru s) = {..<NBUF} \<and>
     (\<forall>n. length (memdisk s n) = BSIZE) \<and>
     (\<forall>i < NBUF. buf_ok (memdisk s) (disksize s) (my_pid s) (bufs s ! i)) \<and>
     (\<forall>i j n. cached s i n \<longrightarrow> cached s j n \<longrightarrow> i = j)"

text \<open>The contents of a disk block as the kernel sees it: the cached copy if there is one.\<close>

definition bcontent :: "'a bstate_scheme \<Rightarrow> nat \<Rightarrow> byte list" where
  "bcontent s n =
     (case find (\<lambda>i. cached s i n \<and> b_valid (bufs s ! i)) [0..<NBUF] of
        Some i \<Rightarrow> b_data (bufs s ! i) | None \<Rightarrow> memdisk s n)"

text \<open>
  \<open>holds_buf s i n\<close>: the current path holds buffer \<open>i\<close> with block \<open>n\<close>; \<open>saved s i\<close>: the
  buffer can be given back, since its data is dirty or equal to the disk's.
\<close>

definition holds_buf :: "'a bstate_scheme \<Rightarrow> nat \<Rightarrow> nat \<Rightarrow> bool" where
  "holds_buf s i n \<longleftrightarrow> cached s i n \<and> slocked (b_lock (bufs s ! i))"

definition saved :: "'a bstate_scheme \<Rightarrow> nat \<Rightarrow> bool" where
  "saved s i \<longleftrightarrow> b_dirty (bufs s ! i) \<or> b_data (bufs s ! i) = memdisk s (b_blockno (bufs s ! i))"

text \<open>The operations of the cache change its own fields and the disk only.\<close>

definition cache_step :: "'a bstate_scheme \<Rightarrow> 'a bstate_scheme \<Rightarrow> bool" where
  "cache_step s s' \<longleftrightarrow>
     s' = s\<lparr>bufs := bufs s', lru := lru s', memdisk := memdisk s', disk_writes := disk_writes s'\<rparr>"

lemma cache_step_refl [simp]: "cache_step s s"
  by (simp add: cache_step_def)

lemma cache_step_trans [trans]:
  assumes "cache_step s t" and "cache_step t u" shows "cache_step s u"
proof -
  let ?t = "s\<lparr>bufs := bufs t, lru := lru t, memdisk := memdisk t, disk_writes := disk_writes t\<rparr>"
  have "u = ?t\<lparr>bufs := bufs u, lru := lru u, memdisk := memdisk u, disk_writes := disk_writes u\<rparr>"
    using assms unfolding cache_step_def by metis
  then show ?thesis by (simp add: cache_step_def)
qed

lemma cache_step_fields:
  assumes "cache_step s s'"
  shows "disksize s' = disksize s \<and> my_pid s' = my_pid s \<and> bstate.more s' = bstate.more s"
proof -
  let ?t = "s\<lparr>bufs := bufs s', lru := lru s', memdisk := memdisk s', disk_writes := disk_writes s'\<rparr>"
  have "disksize ?t = disksize s \<and> my_pid ?t = my_pid s \<and> bstate.more ?t = bstate.more s" by simp
  then show ?thesis using assms unfolding cache_step_def by metis
qed

lemma update_buf_fields [simp]:
  "lru (update_buf i f s) = lru s" "memdisk (update_buf i f s) = memdisk s"
  "disksize (update_buf i f s) = disksize s" "my_pid (update_buf i f s) = my_pid s"
  "disk_writes (update_buf i f s) = disk_writes s" "bstate.more (update_buf i f s) = bstate.more s"
  "length (bufs (update_buf i f s)) = length (bufs s)"
  by (simp_all add: update_buf_def)

lemma update_buf_nth:
  "i < length (bufs s) \<Longrightarrow> bufs (update_buf i f s) ! j = (if j = i then f (bufs s ! i) else bufs s ! j)"
  by (simp add: update_buf_def nth_list_update)

lemma update_buf_twice: "update_buf i g (update_buf i f s) = update_buf i (g \<circ> f) s" if "i < length (bufs s)"
  using that by (simp add: update_buf_def)

lemma cache_step_update [simp]: "cache_step s (update_buf i f s)"
  by (simp add: cache_step_def update_buf_def)

lemma cache_inv_buf: "cache_inv s \<Longrightarrow> i < NBUF \<Longrightarrow> buf_ok (memdisk s) (disksize s) (my_pid s) (bufs s ! i)"
  by (simp add: cache_inv_def)

lemma cached_unique: "cache_inv s \<Longrightarrow> cached s i n \<Longrightarrow> cached s j n \<Longrightarrow> i = j"
  unfolding cache_inv_def by blast

lemma bcontent_cached:
  assumes "cache_inv s" and "cached s i n" and "b_valid (bufs s ! i)"
  shows "bcontent s n = b_data (bufs s ! i)"
proof -
  have "find (\<lambda>i. cached s i n \<and> b_valid (bufs s ! i)) [0..<NBUF] \<noteq> None"
    using assms(2,3) unfolding find_None_all by (auto simp: cached_def)
  then obtain j where j: "find (\<lambda>i. cached s i n \<and> b_valid (bufs s ! i)) [0..<NBUF] = Some j" by blast
  then have "j = i" using find_Some_in_set [OF j] cached_unique [OF assms(1) _ assms(2)] by blast
  with j show ?thesis by (simp add: bcontent_def)
qed

lemma bcontent_uncached:
  "(\<And>i. cached s i n \<Longrightarrow> \<not> b_valid (bufs s ! i)) \<Longrightarrow> bcontent s n = memdisk s n"
  unfolding bcontent_def by (auto split: option.splits dest: find_Some_in_set)

lemma length_bcontent: "cache_inv s \<Longrightarrow> length (bcontent s n) = BSIZE"
  unfolding bcontent_def
  by (auto simp: cache_inv_def buf_ok_def split: option.splits dest: find_Some_in_set)

text \<open>A buffer whose lock is free and that is not dirty agrees with the block store, so it
  can be given to any block that is not cached.\<close>

lemma bcontent_update:
  assumes inv: "cache_inv s" and i: "i < NBUF"
    and old: "cached s i n \<or> (\<forall>j. \<not> cached s j n) \<and> \<not> b_dirty (bufs s ! i) \<and> \<not> slocked (b_lock (bufs s ! i))"
    and new: "b_dev (f (bufs s ! i)) = 1" "b_blockno (f (bufs s ! i)) = n" "b_valid (f (bufs s ! i))"
  shows "bcontent (update_buf i f s) m = (if m = n then b_data (f (bufs s ! i)) else bcontent s m)"
    and "cached (update_buf i f s) j m = (if j = i then m = n else cached s j m)"
    and "cached (update_buf i f s) j m \<Longrightarrow> cached (update_buf i f s) k m \<Longrightarrow> j = k"
proof -
  let ?s = "update_buf i f s"
  have len: "i < length (bufs s)" using inv i by (simp add: cache_inv_def)
  note nth = update_buf_nth [OF len, of f]
  have c: "cached ?s j m = (if j = i then m = n else cached s j m)" for j m
    using i new by (auto simp: cached_def nth)
  then show "cached ?s j m = (if j = i then m = n else cached s j m)" .
  have other: "\<not> cached s j n" if "j \<noteq> i" for j
    using old that cached_unique [OF inv, of j n i] by blast
  show uniq: "cached ?s j m \<Longrightarrow> cached ?s k m \<Longrightarrow> j = k" for j k m
    using c other cached_unique [OF inv, of j m k] by (auto split: if_splits)
  show "bcontent ?s m = (if m = n then b_data (f (bufs s ! i)) else bcontent s m)"
  proof (cases "m = n")
    case True
    have ex: "cached ?s i n \<and> b_valid (bufs ?s ! i)" using c new by (simp add: nth)
    then have "find (\<lambda>i. cached ?s i n \<and> b_valid (bufs ?s ! i)) [0..<NBUF] \<noteq> None"
      using i unfolding find_None_all by auto
    then obtain j where j: "find (\<lambda>i. cached ?s i n \<and> b_valid (bufs ?s ! i)) [0..<NBUF] = Some j" by blast
    then have "j = i" using find_Some_in_set [OF j] uniq ex by blast
    then show ?thesis using j True by (simp add: bcontent_def nth)
  next
    case False
    show ?thesis
    proof (cases "\<exists>j. cached s j m \<and> b_valid (bufs s ! j)")
      case True
      then obtain j where j: "cached s j m" "b_valid (bufs s ! j)" by blast
      show ?thesis
      proof (cases "j = i")
        case True
        then have "m \<noteq> n" "\<not> cached s i n" using False j by (auto simp: cached_def)
        then have "\<not> b_dirty (bufs s ! i)" "\<not> slocked (b_lock (bufs s ! i))" using old by auto
        then have "b_data (bufs s ! i) = memdisk s m"
          using cache_inv_buf [OF inv i] j True by (auto simp: buf_ok_def cached_def)
        moreover have "bcontent s m = b_data (bufs s ! i)" using bcontent_cached [OF inv j] True by simp
        moreover have "bcontent ?s m = memdisk s m"
        proof (subst bcontent_uncached)
          fix k assume "cached ?s k m"
          then have "cached s k m \<and> k \<noteq> i" using c False by (auto split: if_splits)
          then show "\<not> b_valid (bufs ?s ! k)" using cached_unique [OF inv, of k m i] j True by blast
        qed simp
        ultimately show ?thesis using False by simp
      next
        case jne: False
        then have cj: "cached ?s j m" "b_valid (bufs ?s ! j)" using c j by (auto simp: nth)
        then have "find (\<lambda>i. cached ?s i m \<and> b_valid (bufs ?s ! i)) [0..<NBUF] \<noteq> None"
          unfolding find_None_all by (auto simp: cached_def)
        then obtain k where k: "find (\<lambda>i. cached ?s i m \<and> b_valid (bufs ?s ! i)) [0..<NBUF] = Some k" by blast
        then have "k = j" using find_Some_in_set [OF k] uniq cj by blast
        then show ?thesis using k jne False bcontent_cached [OF inv j] by (simp add: bcontent_def nth)
      qed
    next
      case none: False
      have "bcontent s m = memdisk s m" using none by (intro bcontent_uncached) blast
      moreover have "bcontent ?s m = memdisk s m"
      proof (subst bcontent_uncached)
        fix k assume "cached ?s k m"
        then show "\<not> b_valid (bufs ?s ! k)" using c False none by (auto simp: nth split: if_splits)
      qed simp
      ultimately show ?thesis using False by simp
    qed
  qed
qed

lemma cache_inv_update:
  assumes inv: "cache_inv s" and i: "i < NBUF"
    and old: "cached s i n \<or> (\<forall>j. \<not> cached s j n) \<and> \<not> b_dirty (bufs s ! i) \<and> \<not> slocked (b_lock (bufs s ! i))"
    and new: "b_dev (f (bufs s ! i)) = 1" "b_blockno (f (bufs s ! i)) = n" "b_valid (f (bufs s ! i))"
    and ok: "buf_ok (memdisk s) (disksize s) (my_pid s) (f (bufs s ! i))"
  shows "cache_inv (update_buf i f s)"
proof -
  have len: "i < length (bufs s)" using inv i by (simp add: cache_inv_def)
  have "\<forall>j k m. cached (update_buf i f s) j m \<longrightarrow> cached (update_buf i f s) k m \<longrightarrow> j = k"
    using bcontent_update(3) [of s i n f, OF inv i old new] by blast
  then show ?thesis using inv ok by (simp add: cache_inv_def update_buf_nth [OF len])
qed

section \<open>What the operations do\<close>

text \<open>The buffer \<open>bread\<close> returns for block \<open>n\<close>, from what its buffer was before.\<close>

definition read_buf :: "int \<Rightarrow> nat \<Rightarrow> byte list \<Rightarrow> buf \<Rightarrow> buf" where
  "read_buf pid n d b = b\<lparr>b_valid := True, b_dev := 1, b_blockno := n,
     b_lock := \<lparr>slocked = True, spid = pid\<rparr>, b_refcnt := 1, b_data := d\<rparr>"

lemma lock_buf_Ret:
  "lock_buf i s = Ret (j, s') \<longleftrightarrow> j = i \<and> \<not> slocked (b_lock (bufs s ! i)) \<and>
     s' = update_buf i (\<lambda>b. b\<lparr>b_lock := \<lparr>slocked = True, spid = my_pid s\<rparr>\<rparr>) s"
  by (cases "b_lock (bufs s ! i)") (auto simp: lock_buf_def acquiresleep_def)

lemma bread_form:
  assumes inv: "cache_inv s" and rd: "bread 1 n s = Ret (i, s')"
  shows "i < NBUF \<and> \<not> slocked (b_lock (bufs s ! i)) \<and> n < disksize s \<and>
    (cached s i n \<or> (\<forall>j. \<not> cached s j n) \<and> \<not> b_dirty (bufs s ! i) \<and> \<not> slocked (b_lock (bufs s ! i))) \<and>
    s' = update_buf i (read_buf (my_pid s) n (bcontent s n)) s"
proof -
  let ?P = "\<lambda>i. b_dev (bufs s ! i) = 1 \<and> b_blockno (bufs s ! i) = n"
  let ?Q = "\<lambda>i. b_refcnt (bufs s ! i) = 0 \<and> \<not> b_dirty (bufs s ! i)"
  have len: "length (bufs s) = NBUF" and lru: "set (lru s) = {..<NBUF}" using inv by (simp_all add: cache_inv_def)
  from rd obtain t where g: "bget 1 n s = Ret (i, t)"
    and r: "(if \<not> b_valid (bufs t ! i) then kbind (iderw i t) (\<lambda>s. Ret (i, s)) else Ret (i, t)) = Ret (i, s')"
    by (auto simp: bread_def kbind_eq_Ret_iff split: if_splits)
  show ?thesis
  proof (cases "find ?P (lru s)")
    case (Some j)
    then have j: "?P j" "j < NBUF" using find_Some_in_set [OF Some] lru by auto
    then have lj: "j < length (bufs s)" and c: "cached s j n" using len by (auto simp: cached_def)
    have ok: "buf_ok (memdisk s) (disksize s) (my_pid s) (bufs s ! j)" by (rule cache_inv_buf [OF inv j(2)])
    have t: "i = j" "\<not> slocked (b_lock (bufs s ! j))"
      "t = update_buf j (\<lambda>b. b\<lparr>b_refcnt := b_refcnt b + 1, b_lock := \<lparr>slocked = True, spid = my_pid s\<rparr>\<rparr>) s"
      using g Some lj by (auto simp: bget_def lock_buf_Ret update_buf_nth update_buf_twice o_def)
    show ?thesis
    proof (cases "b_valid (bufs s ! j)")
      case True
      then have "s' = t" using r t lj by (simp add: update_buf_nth)
      moreover have "(bufs s ! j)\<lparr>b_refcnt := b_refcnt (bufs s ! j) + 1, b_lock := \<lparr>slocked = True, spid = my_pid s\<rparr>\<rparr>
          = read_buf (my_pid s) n (bcontent s n) (bufs s ! j)"
        using bcontent_cached [OF inv c True] ok t(2) c True
        by (cases "bufs s ! j") (auto simp: read_buf_def buf_ok_def cached_def)
      ultimately show ?thesis using t c j ok True by (auto simp: update_buf_def buf_ok_def cached_def)
    next
      case False
      then have "\<not> b_dirty (bufs s ! j)" using ok by (auto simp: buf_ok_def)
      moreover have "bcontent s n = memdisk s n"
        using False cached_unique [OF inv _ c] by (intro bcontent_uncached) blast
      ultimately have "n < disksize s \<and> s' = update_buf j (read_buf (my_pid s) n (bcontent s n)) s"
        using r t False lj j ok
        by (cases "bufs s ! j") (auto simp: update_buf_nth iderw_def Let_def holdingsleep_def update_buf_twice kbind_eq_Ret_iff
            update_buf_def read_buf_def buf_ok_def split: if_splits)
      then show ?thesis using t c j by simp
    qed
  next
    case None
    then have nc: "\<forall>j. \<not> cached s j n" using lru unfolding find_None_all by (auto simp: cached_def)
    obtain j where f: "find ?Q (rev (lru s)) = Some j" and
      l: "lock_buf j (update_buf j (\<lambda>b. b\<lparr>b_dev := 1, b_blockno := n, b_valid := False,
        b_dirty := False, b_refcnt := 1\<rparr>) s) = Ret (i, t)"
      using g None by (auto simp: bget_def split: option.splits)
    then have j: "?Q j" "j < NBUF" using find_Some_in_set [OF f] lru by auto
    then have lj: "j < length (bufs s)" using len by simp
    have ok: "buf_ok (memdisk s) (disksize s) (my_pid s) (bufs s ! j)" by (rule cache_inv_buf [OF inv j(2)])
    then have nl: "\<not> slocked (b_lock (bufs s ! j))" using j by (auto simp: buf_ok_def split: if_splits)
    have d: "bcontent s n = memdisk s n" using nc by (intro bcontent_uncached) blast
    have "i = j \<and> n < disksize s \<and> s' = update_buf j (read_buf (my_pid s) n (bcontent s n)) s"
      using l r j lj d
      by (cases "bufs s ! j") (auto simp: lock_buf_Ret update_buf_nth iderw_def Let_def holdingsleep_def update_buf_twice
          kbind_eq_Ret_iff update_buf_def read_buf_def split: if_splits)
    then show ?thesis using nc nl j by simp
  qed
qed

lemma holds_buf_lt: "cache_inv s \<Longrightarrow> holds_buf s i n \<Longrightarrow> i < length (bufs s) \<and> i < NBUF"
  by (simp add: holds_buf_def cached_def cache_inv_def)

lemma holds_buf_mine: "cache_inv s \<Longrightarrow> holds_buf s i n \<Longrightarrow>
    holdingsleep (my_pid s) (b_lock (bufs s ! i)) \<and> b_valid (bufs s ! i)"
  using cache_inv_buf [of s i] by (auto simp: holds_buf_def cached_def buf_ok_def holdingsleep_def)

lemma holds_buf_unique: "cache_inv s \<Longrightarrow> holds_buf s i n \<Longrightarrow> holds_buf s j n \<Longrightarrow> i = j"
  unfolding holds_buf_def using cached_unique by blast

lemma bread_ok:
  assumes inv: "cache_inv s" and rd: "bread 1 n s = Ret (i, s')"
  shows "cache_inv s' \<and> cache_step s s' \<and> bcontent s' = bcontent s \<and>
    (\<forall>j m. holds_buf s' j m \<longleftrightarrow> j = i \<and> m = n \<or> holds_buf s j m) \<and>
    (\<forall>j m. holds_buf s j m \<longrightarrow> j \<noteq> i \<and> m \<noteq> n \<and> saved s' j = saved s j) \<and> saved s' i \<and> n < disksize s"
proof -
  let ?f = "read_buf (my_pid s) n (bcontent s n)"
  note form = bread_form [OF inv rd]
  have i: "i < NBUF" "i < length (bufs s)" using form inv by (auto simp: cache_inv_def)
  have free: "\<not> slocked (b_lock (bufs s ! i))" and n: "n < disksize s"
    and old: "cached s i n \<or> (\<forall>j. \<not> cached s j n) \<and> \<not> b_dirty (bufs s ! i) \<and> \<not> slocked (b_lock (bufs s ! i))"
    and s': "s' = update_buf i ?f s" using form by auto
  have new: "b_dev (?f (bufs s ! i)) = 1" "b_blockno (?f (bufs s ! i)) = n" "b_valid (?f (bufs s ! i))"
    by (simp_all add: read_buf_def)
  have "buf_ok (memdisk s) (disksize s) (my_pid s) (?f (bufs s ! i))"
    using length_bcontent [OF inv] n by (simp add: buf_ok_def read_buf_def)
  then have inv': "cache_inv s'" unfolding s' by (rule cache_inv_update [of s i n ?f, OF inv i(1) old new])
  note upd = bcontent_update [of s i n ?f, OF inv i(1) old new]
  have "bcontent s' m = bcontent s m" for m unfolding s' upd(1) by (simp add: read_buf_def)
  then have cont: "bcontent s' = bcontent s" by (rule ext)
  have hold: "holds_buf s' j m \<longleftrightarrow> j = i \<and> m = n \<or> holds_buf s j m" for j m
    unfolding s' holds_buf_def upd(2) using free by (auto simp: update_buf_nth i read_buf_def)
  have apart: "j \<noteq> i \<and> m \<noteq> n" if "holds_buf s j m" for j m
    using that free old cached_unique [OF inv, of j n i] by (auto simp: holds_buf_def)
  have "saved s' j = saved s j" if "holds_buf s j m" for j m
    using apart [OF that] by (simp add: s' saved_def update_buf_nth i)
  moreover have "saved s' i"
  proof (cases "cached s i n \<and> b_valid (bufs s ! i)")
    case True
    then show ?thesis
      using cache_inv_buf [OF inv i(1)] free bcontent_cached [OF inv, of i n]
      by (auto simp: s' saved_def update_buf_nth i read_buf_def buf_ok_def cached_def)
  next
    case False
    then have "bcontent s n = memdisk s n"
      using old cached_unique [OF inv, of i n] by (intro bcontent_uncached) blast
    then show ?thesis by (simp add: s' saved_def update_buf_nth i read_buf_def)
  qed
  ultimately show ?thesis using inv' cont hold apart n by (simp add: s')
qed

lemma buf_data_holds: "cache_inv s \<Longrightarrow> holds_buf s i n \<Longrightarrow> buf_data i s = bcontent s n"
  using bcontent_cached [of s i n] holds_buf_mine [of s i n] by (simp add: buf_data_def holds_buf_def)

text \<open>An update of a held buffer that keeps its block and its lock.\<close>

lemma held_update:
  assumes inv: "cache_inv s" and h: "holds_buf s i n"
    and f: "\<And>b. b_dev (f b) = b_dev b \<and> b_blockno (f b) = b_blockno b \<and> b_valid (f b) = b_valid b \<and>
      b_lock (f b) = b_lock b \<and> b_refcnt (f b) = b_refcnt b"
    and len: "length (b_data (f (bufs s ! i))) = BSIZE"
  shows "cache_inv (update_buf i f s)"
    and "bcontent (update_buf i f s) = (bcontent s)(n := b_data (f (bufs s ! i)))"
    and "holds_buf (update_buf i f s) = holds_buf s"
    and "holds_buf s j m \<Longrightarrow> j \<noteq> i \<Longrightarrow> saved (update_buf i f s) j = saved s j"
proof -
  have i: "i < NBUF" "i < length (bufs s)" using holds_buf_lt [OF inv h] by auto
  have old: "cached s i n \<or> (\<forall>j. \<not> cached s j n) \<and> \<not> b_dirty (bufs s ! i) \<and> \<not> slocked (b_lock (bufs s ! i))"
    using h by (simp add: holds_buf_def)
  have ok: "buf_ok (memdisk s) (disksize s) (my_pid s) (bufs s ! i)" by (rule cache_inv_buf [OF inv i(1)])
  have new: "b_dev (f (bufs s ! i)) = 1" "b_blockno (f (bufs s ! i)) = n" "b_valid (f (bufs s ! i))"
    using f [of "bufs s ! i"] h holds_buf_mine [OF inv h] by (auto simp: holds_buf_def cached_def)
  have "buf_ok (memdisk s) (disksize s) (my_pid s) (f (bufs s ! i))"
    using ok f [of "bufs s ! i"] h len by (auto simp: buf_ok_def holds_buf_def)
  then show "cache_inv (update_buf i f s)" by (rule cache_inv_update [of s i n f, OF inv i(1) old new])
  note upd = bcontent_update [of s i n f, OF inv i(1) old new]
  show "bcontent (update_buf i f s) = (bcontent s)(n := b_data (f (bufs s ! i)))"
    using upd(1) by (intro ext) simp
  have "holds_buf (update_buf i f s) j m = holds_buf s j m" for j m
    unfolding holds_buf_def upd(2) using f [of "bufs s ! i"] h
    by (auto simp: update_buf_nth i holds_buf_def cached_def)
  then show "holds_buf (update_buf i f s) = holds_buf s" by (intro ext)
  show "holds_buf s j m \<Longrightarrow> j \<noteq> i \<Longrightarrow> saved (update_buf i f s) j = saved s j"
    by (simp add: saved_def update_buf_nth i)
qed

lemma set_data_ok:
  assumes "cache_inv s" and "holds_buf s i n" and "length d = BSIZE"
  shows "cache_inv (set_data i d s) \<and> cache_step s (set_data i d s) \<and>
    bcontent (set_data i d s) = (bcontent s)(n := d) \<and> holds_buf (set_data i d s) = holds_buf s \<and>
    (\<forall>j m. holds_buf s j m \<longrightarrow> j \<noteq> i \<longrightarrow> saved (set_data i d s) j = saved s j)"
  unfolding set_data_def
  using held_update [OF assms(1,2), of "\<lambda>b. b\<lparr>b_data := d\<rparr>"] assms(3) by simp

text \<open>Setting the dirty bit, as \<open>bwrite\<close> and \<open>log_write\<close> do.\<close>

lemma mark_dirty_ok:
  assumes inv: "cache_inv s" and h: "holds_buf s i n"
  defines "t \<equiv> update_buf i (\<lambda>b. b\<lparr>b_dirty := True\<rparr>) s"
  shows "cache_inv t \<and> cache_step s t \<and> bcontent t = bcontent s \<and> holds_buf t = holds_buf s \<and> saved t i \<and>
    b_dirty (bufs t ! i) \<and> (\<forall>j m. holds_buf s j m \<longrightarrow> j \<noteq> i \<longrightarrow> saved t j = saved s j)"
proof -
  let ?f = "\<lambda>b. b\<lparr>b_dirty := True\<rparr>"
  have i: "i < NBUF" "i < length (bufs s)" using holds_buf_lt [OF inv h] by auto
  have "length (b_data (bufs s ! i)) = BSIZE" using cache_inv_buf [OF inv i(1)] by (simp add: buf_ok_def)
  note u = held_update [of s i n ?f, OF inv h] this
  have "b_data (bufs s ! i) = bcontent s n" using buf_data_holds [OF inv h] by (simp add: buf_data_def)
  then have "bcontent t = bcontent s" unfolding t_def using u by simp
  moreover have "saved t i" "b_dirty (bufs t ! i)" by (simp_all add: t_def saved_def update_buf_nth i)
  ultimately show ?thesis using u unfolding t_def by simp
qed

lemma cached_lru [simp]: "cached (s\<lparr>lru := l\<rparr>) = cached s"
  by (intro ext) (simp add: cached_def)

lemma bcontent_lru [simp]: "bcontent (s\<lparr>lru := l\<rparr>) = bcontent s"
  by (intro ext) (simp add: bcontent_def split: option.split)

lemma brelse_ok:
  assumes inv: "cache_inv s" and h: "holds_buf s i n" and sv: "saved s i"
  shows "\<exists>s'. brelse i s = Ret s' \<and> cache_inv s' \<and> cache_step s s' \<and> bcontent s' = bcontent s \<and>
    memdisk s' = memdisk s \<and> disk_writes s' = disk_writes s \<and>
    (\<forall>j. b_dirty (bufs s' ! j) = b_dirty (bufs s ! j) \<and> cached s' j = cached s j \<and>
       b_data (bufs s' ! j) = b_data (bufs s ! j)) \<and>
    (\<forall>j m. holds_buf s' j m \<longleftrightarrow> holds_buf s j m \<and> j \<noteq> i) \<and>
    (\<forall>j m. holds_buf s j m \<longrightarrow> j \<noteq> i \<longrightarrow> saved s' j = saved s j)"
proof -
  let ?f = "\<lambda>b. b\<lparr>b_lock := releasesleep (b_lock b), b_refcnt := u32 (b_refcnt b + 4294967295)\<rparr>"
  let ?t = "update_buf i ?f s"
  let ?s = "?t\<lparr>lru := i # remove1 i (lru s)\<rparr>"
  have i: "i < NBUF" "i < length (bufs s)" using holds_buf_lt [OF inv h] by auto
  have ok: "buf_ok (memdisk s) (disksize s) (my_pid s) (bufs s ! i)" by (rule cache_inv_buf [OF inv i(1)])
  have mine: "holdingsleep (my_pid s) (b_lock (bufs s ! i))" "b_valid (bufs s ! i)"
    using holds_buf_mine [OF inv h] by auto
  have ref: "b_refcnt (bufs s ! i) = 1" using ok h by (simp add: buf_ok_def holds_buf_def)
  have z: "u32 (1 + 4294967295) = 0" by (simp add: u32_def)
  have old: "cached s i n \<or> (\<forall>j. \<not> cached s j n) \<and> \<not> b_dirty (bufs s ! i) \<and> \<not> slocked (b_lock (bufs s ! i))"
    using h by (simp add: holds_buf_def)
  have new: "b_dev (?f (bufs s ! i)) = 1" "b_blockno (?f (bufs s ! i)) = n" "b_valid (?f (bufs s ! i))"
    using h mine by (auto simp: holds_buf_def cached_def)
  have okf: "buf_ok (memdisk s) (disksize s) (my_pid s) (?f (bufs s ! i))"
    using ok sv mine ref z by (auto simp: buf_ok_def saved_def releasesleep_def)
  have "cache_inv ?t" by (rule cache_inv_update [of s i n ?f, OF inv i(1) old new okf])
  moreover have "distinct (i # remove1 i (lru s)) \<and> set (i # remove1 i (lru s)) = {..<NBUF}"
    using inv i by (auto simp: cache_inv_def)
  ultimately have inv': "cache_inv ?s" by (simp add: cache_inv_def)
  note upd = bcontent_update [of s i n ?f, OF inv i(1) old new]
  have "bcontent ?t m = bcontent s m" for m
    unfolding upd(1) using buf_data_holds [OF inv h] by (simp add: buf_data_def)
  then have cont: "bcontent ?s = bcontent s" by (simp add: fun_eq_iff)
  have cch: "cached ?t j = cached s j" for j
    using upd(2) h by (auto simp: fun_eq_iff holds_buf_def cached_def)
  have hold: "holds_buf ?s j m \<longleftrightarrow> holds_buf s j m \<and> j \<noteq> i" for j m
    using cch [of j] by (auto simp: holds_buf_def update_buf_nth i releasesleep_def)
  have "brelse i s = Ret ?s"
    using mine(1) ref z by (simp add: brelse_def Let_def update_buf_nth i)
  moreover have "cache_step s ?s" by (simp add: cache_step_def update_buf_def)
  moreover have "b_dirty (bufs ?s ! j) = b_dirty (bufs s ! j) \<and> b_data (bufs ?s ! j) = b_data (bufs s ! j)" for j
    by (simp add: update_buf_nth i)
  moreover have "saved ?s j = saved s j" if "j \<noteq> i" for j
    using that by (simp add: saved_def update_buf_nth i)
  ultimately show ?thesis using inv' cont hold cch by auto
qed

lemma bwrite_ok:
  assumes inv: "cache_inv s" and h: "holds_buf s i n"
  shows "\<exists>s'. bwrite i s = Ret s' \<and> cache_inv s' \<and> cache_step s s' \<and> bcontent s' = bcontent s \<and>
    holds_buf s' = holds_buf s \<and> saved s' i \<and> (\<forall>j m. holds_buf s j m \<longrightarrow> j \<noteq> i \<longrightarrow> saved s' j = saved s j) \<and>
    memdisk s' = (memdisk s)(n := bcontent s n) \<and> disk_writes s' = disk_writes s @ [(n, bcontent s n)] \<and>
    (\<forall>j. b_dirty (bufs s' ! j) = (j \<noteq> i \<and> b_dirty (bufs s ! j)) \<and> cached s' j = cached s j)"
proof -
  let ?d = "bcontent s n"
  let ?f = "\<lambda>b. b\<lparr>b_dirty := False, b_valid := True\<rparr>"
  let ?s = "update_buf i ?f (s\<lparr>memdisk := (memdisk s)(n := ?d), disk_writes := disk_writes s @ [(n, ?d)]\<rparr>)"
  have i: "i < NBUF" "i < length (bufs s)" using holds_buf_lt [OF inv h] by auto
  have ok: "buf_ok (memdisk s) (disksize s) (my_pid s) (bufs s ! i)" by (rule cache_inv_buf [OF inv i(1)])
  have mine: "holdingsleep (my_pid s) (b_lock (bufs s ! i))" "b_valid (bufs s ! i)"
    using holds_buf_mine [OF inv h] by auto
  have c: "cached s i n" "b_dev (bufs s ! i) = 1" "b_blockno (bufs s ! i) = n"
    using h by (auto simp: holds_buf_def cached_def)
  have n: "n < disksize s" using ok mine c by (simp add: buf_ok_def)
  have d: "b_data (bufs s ! i) = ?d" using buf_data_holds [OF inv h] by (simp add: buf_data_def)
  have nth: "bufs ?s ! j = (if j = i then ?f (bufs s ! i) else bufs s ! j)" for j
    using i by (simp add: update_buf_def nth_list_update)
  have cch: "cached ?s j = cached s j" for j by (intro ext) (simp add: cached_def nth)
  have val: "b_valid (bufs ?s ! j) = b_valid (bufs s ! j)" for j using mine by (simp add: nth)
  have hold: "holds_buf ?s = holds_buf s" by (intro ext) (simp add: holds_buf_def cch nth)
  have okj: "buf_ok (memdisk ?s) (disksize ?s) (my_pid ?s) (bufs ?s ! j)" if j: "j < NBUF" for j
  proof (cases "j = i")
    case True
    then show ?thesis using ok mine c d by (auto simp: nth buf_ok_def)
  next
    case False
    then have "b_blockno (bufs s ! j) \<noteq> n" if "b_valid (bufs s ! j)"
      using that cache_inv_buf [OF inv j] cached_unique [OF inv, of j n i] c j
      by (auto simp: cached_def buf_ok_def)
    then show ?thesis using cache_inv_buf [OF inv j] False by (auto simp: nth buf_ok_def)
  qed
  have lenm: "\<forall>m. length (memdisk ?s m) = BSIZE"
    using inv length_bcontent [OF inv, of n] by (simp add: cache_inv_def)
  have inv': "cache_inv ?s"
    unfolding cache_inv_def cch using okj lenm inv by (simp add: cache_inv_def)
  have "bcontent ?s m = bcontent s m" for m
  proof (cases "\<exists>j. cached s j m \<and> b_valid (bufs s ! j)")
    case True
    then obtain j where j: "cached s j m" "b_valid (bufs s ! j)" by blast
    then have "bcontent ?s m = b_data (bufs ?s ! j)"
      using cch val by (intro bcontent_cached [OF inv']) simp_all
    also have "\<dots> = b_data (bufs s ! j)" by (simp add: nth)
    finally show ?thesis using bcontent_cached [OF inv j] by simp
  next
    case False
    then have "m \<noteq> n" using c mine by blast
    moreover have "bcontent ?s m = memdisk ?s m" using False cch val by (intro bcontent_uncached) simp
    moreover have "bcontent s m = memdisk s m" using False by (intro bcontent_uncached) blast
    ultimately show ?thesis by simp
  qed
  then have cont: "bcontent ?s = bcontent s" by (rule ext)
  have sv: "saved ?s i" using d c by (simp add: saved_def nth)
  have svj: "saved ?s j = saved s j" if "holds_buf s j m" "j \<noteq> i" for j m
  proof -
    have "b_blockno (bufs s ! j) = m" "m \<noteq> n"
      using that cached_unique [OF inv, of j n i] c by (auto simp: holds_buf_def cached_def)
    then show ?thesis using that by (simp add: saved_def nth)
  qed
  have "bwrite i s = Ret ?s"
    using mine c n d i by (simp add: bwrite_def iderw_def Let_def update_buf_nth)
      (simp add: update_buf_def)
  moreover have "cache_step s ?s" by (simp add: cache_step_def update_buf_def)
  moreover have "b_dirty (bufs ?s ! j) = (j \<noteq> i \<and> b_dirty (bufs s ! j))" for j by (simp add: nth)
  ultimately show ?thesis using inv' cont hold sv svj cch by auto
qed

section \<open>The contract of a block store\<close>

text \<open>
  What the layers above rely on: a path reads a block into a buffer, which it then holds;
  it reads and replaces the buffer's data, saves it, and releases it. \<open>content\<close> is the
  block store it sees; \<open>clean\<close> buffers may be released. The contract is met with
  \<open>bwrite\<close> as the save operation and, in the theory \<open>Log\<close>, with \<open>log_write\<close>.
\<close>

locale block_store =
  fixes inv :: "'s \<Rightarrow> bool" and content :: "'s \<Rightarrow> nat \<Rightarrow> byte list"
    and holding :: "'s \<Rightarrow> nat \<Rightarrow> nat \<Rightarrow> bool" and clean :: "'s \<Rightarrow> nat \<Rightarrow> bool"
    and frame :: "'s \<Rightarrow> 's \<Rightarrow> bool"
    and rd :: "nat \<Rightarrow> 's \<Rightarrow> (nat \<times> 's) outcome" and get :: "nat \<Rightarrow> 's \<Rightarrow> byte list"
    and put :: "nat \<Rightarrow> byte list \<Rightarrow> 's \<Rightarrow> 's" and save :: "nat \<Rightarrow> 's \<Rightarrow> 's outcome"
    and rel :: "nat \<Rightarrow> 's \<Rightarrow> 's outcome"
  assumes frame_refl: "frame s s"
    and frame_trans: "frame s t \<Longrightarrow> frame t u \<Longrightarrow> frame s u"
    and rd_ok: "inv s \<Longrightarrow> rd n s = Ret (i, s') \<Longrightarrow>
      inv s' \<and> frame s s' \<and> content s' = content s \<and>
      (\<forall>j m. holding s' j m \<longleftrightarrow> j = i \<and> m = n \<or> holding s j m) \<and>
      (\<forall>j m. holding s j m \<longrightarrow> j \<noteq> i \<and> m \<noteq> n \<and> clean s' j = clean s j) \<and> clean s' i"
    and get_ok: "inv s \<Longrightarrow> holding s i n \<Longrightarrow> get i s = content s n"
    and put_ok: "inv s \<Longrightarrow> holding s i n \<Longrightarrow> length d = BSIZE \<Longrightarrow>
      inv (put i d s) \<and> frame s (put i d s) \<and> content (put i d s) = (content s)(n := d) \<and>
      holding (put i d s) = holding s \<and>
      (\<forall>j m. holding s j m \<longrightarrow> j \<noteq> i \<longrightarrow> clean (put i d s) j = clean s j)"
    and save_ok: "inv s \<Longrightarrow> holding s i n \<Longrightarrow> save i s = Ret s' \<Longrightarrow>
      inv s' \<and> frame s s' \<and> content s' = content s \<and> holding s' = holding s \<and> clean s' i \<and>
      (\<forall>j m. holding s j m \<longrightarrow> j \<noteq> i \<longrightarrow> clean s' j = clean s j)"
    and rel_ok: "inv s \<Longrightarrow> holding s i n \<Longrightarrow> clean s i \<Longrightarrow>
      \<exists>s'. rel i s = Ret s' \<and> inv s' \<and> frame s s' \<and> content s' = content s \<and>
        (\<forall>j m. holding s' j m \<longleftrightarrow> holding s j m \<and> j \<noteq> i) \<and>
        (\<forall>j m. holding s j m \<longrightarrow> j \<noteq> i \<longrightarrow> clean s' j = clean s j)"
    and length_content: "inv s \<Longrightarrow> length (content s n) = BSIZE"
begin

text \<open>\<open>keeps s s'\<close>: the invariant holds again and the same buffers are held, as clean as before.\<close>

definition keeps :: "'s \<Rightarrow> 's \<Rightarrow> bool" where
  "keeps s s' \<longleftrightarrow> inv s' \<and> frame s s' \<and> holding s' = holding s \<and>
     (\<forall>j m. holding s j m \<longrightarrow> clean s' j = clean s j)"

lemma keeps_refl: "inv s \<Longrightarrow> keeps s s"
  by (simp add: keeps_def frame_refl)

lemma keeps_trans: "keeps s t \<Longrightarrow> keeps t u \<Longrightarrow> keeps s u"
  unfolding keeps_def using frame_trans by metis

lemma look:
  assumes "inv s" and "rd n s = Ret (i, s1)" and "rel i s1 = Ret s2"
  shows "keeps s s2 \<and> content s2 = content s \<and> get i s1 = content s n"
proof -
  note r = rd_ok [OF assms(1,2)]
  then have h: "holding s1 i n" and i: "inv s1" "clean s1 i" by auto
  from rel_ok [OF i(1) h i(2)] assms(3)
  have e: "inv s2" "frame s1 s2" "content s2 = content s1"
    "\<forall>j m. holding s2 j m \<longleftrightarrow> holding s1 j m \<and> j \<noteq> i"
    "\<forall>j m. holding s1 j m \<longrightarrow> j \<noteq> i \<longrightarrow> clean s2 j = clean s1 j" by auto
  have "holding s2 = holding s" using r e(4) by (intro ext) auto
  moreover have "frame s s2" using r e(2) frame_trans by blast
  ultimately show ?thesis using r e get_ok [OF i(1) h] unfolding keeps_def by auto
qed

lemma edit:
  assumes "inv s" and "rd n s = Ret (i, s1)" and "length d = BSIZE"
    and "save i (put i d s1) = Ret s2" and "rel i s2 = Ret s3"
  shows "keeps s s3 \<and> content s3 = (content s)(n := d) \<and> get i s1 = content s n"
proof -
  note r = rd_ok [OF assms(1,2)]
  then have h: "holding s1 i n" and i: "inv s1" by auto
  note p = put_ok [OF i h assms(3)]
  then have hp: "holding (put i d s1) i n" and ip: "inv (put i d s1)" using h by auto
  note v = save_ok [OF ip hp assms(4)]
  then have hv: "holding s2 i n" and iv: "inv s2" "clean s2 i" using hp by auto
  from rel_ok [OF iv(1) hv iv(2)] assms(5)
  have e: "inv s3" "frame s2 s3" "content s3 = content s2"
    "\<forall>j m. holding s3 j m \<longleftrightarrow> holding s2 j m \<and> j \<noteq> i"
    "\<forall>j m. holding s2 j m \<longrightarrow> j \<noteq> i \<longrightarrow> clean s3 j = clean s2 j" by auto
  have eq: "holding s2 = holding s1" using p v by simp
  have hs: "holding s3 j m \<longleftrightarrow> holding s j m" for j m using r e(4) unfolding eq by auto
  have "clean s3 j = clean s j" if "holding s j m" for j m
  proof -
    have j: "j \<noteq> i" "clean s1 j = clean s j" "holding s1 j m" using r that by auto
    then have "clean (put i d s1) j = clean s j" "holding (put i d s1) j m" using p by auto
    moreover from this j have "clean s2 j = clean s j" "holding s2 j m" using v by auto
    ultimately show ?thesis using j(1) e(5) by auto
  qed
  moreover have f: "frame s s1" "frame s1 (put i d s1)" "frame (put i d s1) s2"
    using r p v by simp_all
  then have "frame s s3" using e(2) by (meson frame_trans)
  moreover have "content s1 = content s" "content (put i d s1) = (content s1)(n := d)"
      "content s2 = content (put i d s1)" using r p v by simp_all
  then have "content s3 = (content s)(n := d)" using e(3) by simp
  moreover have "holding s3 = holding s" using hs by (intro ext)
  moreover have "get i s1 = content s n" using get_ok [OF i h] r by simp
  ultimately show ?thesis using e(1) by (simp add: keeps_def)
qed

end

lemma bread_store_ok:
  assumes "cache_inv s" and "bread 1 n s = Ret (i, s')"
  shows "cache_inv s' \<and> cache_step s s' \<and> bcontent s' = bcontent s \<and>
      (\<forall>j m. holds_buf s' j m \<longleftrightarrow> j = i \<and> m = n \<or> holds_buf s j m) \<and>
      (\<forall>j m. holds_buf s j m \<longrightarrow> j \<noteq> i \<and> m \<noteq> n \<and> saved s' j = saved s j) \<and> saved s' i"
  using bread_ok [OF assms] by simp

lemma bwrite_store_ok:
  assumes "cache_inv s" and "holds_buf s i n" and "bwrite i s = Ret s'"
  shows "cache_inv s' \<and> cache_step s s' \<and> bcontent s' = bcontent s \<and> holds_buf s' = holds_buf s \<and> saved s' i \<and>
      (\<forall>j m. holds_buf s j m \<longrightarrow> j \<noteq> i \<longrightarrow> saved s' j = saved s j)"
proof -
  from bwrite_ok [OF assms(1,2)] show ?thesis
    unfolding assms(3) outcome.inject by (elim exE conjE) simp
qed

lemma brelse_store_ok:
  assumes "cache_inv s" and "holds_buf s i n" and "saved s i"
  shows "\<exists>s'. brelse i s = Ret s' \<and> cache_inv s' \<and> cache_step s s' \<and> bcontent s' = bcontent s \<and>
        (\<forall>j m. holds_buf s' j m \<longleftrightarrow> holds_buf s j m \<and> j \<noteq> i) \<and>
        (\<forall>j m. holds_buf s j m \<longrightarrow> j \<noteq> i \<longrightarrow> saved s' j = saved s j)"
  using brelse_ok [OF assms] by (elim exE conjE) (intro exI conjI; assumption)

interpretation direct: block_store cache_inv bcontent holds_buf saved cache_step "bread 1" buf_data
    set_data bwrite brelse
proof unfold_locales
  fix s t u :: "'a bstate_scheme" and n i d s'
  show "cache_step s s" by simp
  show "cache_step s t \<Longrightarrow> cache_step t u \<Longrightarrow> cache_step s u" by (rule cache_step_trans)
  show "cache_inv s \<Longrightarrow> holds_buf s i n \<Longrightarrow> buf_data i s = bcontent s n" by (rule buf_data_holds)
  show "cache_inv s \<Longrightarrow> length (bcontent s n) = BSIZE" by (rule length_bcontent)
  show "cache_inv s \<Longrightarrow> holds_buf s i n \<Longrightarrow> length d = BSIZE \<Longrightarrow>
      cache_inv (set_data i d s) \<and> cache_step s (set_data i d s) \<and>
      bcontent (set_data i d s) = (bcontent s)(n := d) \<and> holds_buf (set_data i d s) = holds_buf s \<and>
      (\<forall>j m. holds_buf s j m \<longrightarrow> j \<noteq> i \<longrightarrow> saved (set_data i d s) j = saved s j)"
    by (rule set_data_ok)
  show "cache_inv s \<Longrightarrow> bread 1 n s = Ret (i, s') \<Longrightarrow> cache_inv s' \<and> cache_step s s' \<and> bcontent s' = bcontent s \<and>
      (\<forall>j m. holds_buf s' j m \<longleftrightarrow> j = i \<and> m = n \<or> holds_buf s j m) \<and>
      (\<forall>j m. holds_buf s j m \<longrightarrow> j \<noteq> i \<and> m \<noteq> n \<and> saved s' j = saved s j) \<and> saved s' i"
    by (rule bread_store_ok)
  show "cache_inv s \<Longrightarrow> holds_buf s i n \<Longrightarrow> bwrite i s = Ret s' \<Longrightarrow>
      cache_inv s' \<and> cache_step s s' \<and> bcontent s' = bcontent s \<and> holds_buf s' = holds_buf s \<and> saved s' i \<and>
      (\<forall>j m. holds_buf s j m \<longrightarrow> j \<noteq> i \<longrightarrow> saved s' j = saved s j)"
    by (rule bwrite_store_ok)
  show "cache_inv s \<Longrightarrow> holds_buf s i n \<Longrightarrow> saved s i \<Longrightarrow>
      \<exists>s'. brelse i s = Ret s' \<and> cache_inv s' \<and> cache_step s s' \<and> bcontent s' = bcontent s \<and>
        (\<forall>j m. holds_buf s' j m \<longleftrightarrow> holds_buf s j m \<and> j \<noteq> i) \<and>
        (\<forall>j m. holds_buf s j m \<longrightarrow> j \<noteq> i \<longrightarrow> saved s' j = saved s j)"
    by (rule brelse_store_ok)
qed

section \<open>Dirty and idle buffers\<close>

text \<open>Blocks kept in the cache by their dirty bit, and the buffers that can be recycled.\<close>

definition pinned :: "'a bstate_scheme \<Rightarrow> nat \<Rightarrow> bool" where
  "pinned s n \<longleftrightarrow> (\<exists>i. cached s i n \<and> b_dirty (bufs s ! i))"

definition idle :: "'a bstate_scheme \<Rightarrow> nat set" where
  "idle s = {i. i < NBUF \<and> b_refcnt (bufs s ! i) = 0 \<and> \<not> b_dirty (bufs s ! i)}"

lemma finite_idle [simp]: "finite (idle s)"
  by (simp add: idle_def)

lemma bread_track:
  assumes inv: "cache_inv s" and rd: "bread 1 n s = Ret (i, s')"
  shows "memdisk s' = memdisk s \<and> disk_writes s' = disk_writes s \<and> pinned s' = pinned s \<and>
    idle s' = idle s - {i} \<and> (b_dirty (bufs s' ! i) \<longleftrightarrow> pinned s n) \<and>
    (\<forall>j. b_dirty (bufs s' ! j) = b_dirty (bufs s ! j))"
proof -
  let ?f = "read_buf (my_pid s) n (bcontent s n)"
  note form = bread_form [OF inv rd]
  have i: "i < NBUF" "i < length (bufs s)" using form inv by (auto simp: cache_inv_def)
  have s': "s' = update_buf i ?f s" and old: "cached s i n \<or> (\<forall>j. \<not> cached s j n) \<and> \<not> b_dirty (bufs s ! i)"
    using form by auto
  have nth: "bufs s' ! j = (if j = i then ?f (bufs s ! i) else bufs s ! j)" for j
    by (simp add: s' update_buf_nth i)
  have "cached s' j m \<and> b_dirty (bufs s' ! j) \<longleftrightarrow> cached s j m \<and> b_dirty (bufs s ! j)" for j m
    using old i by (auto simp: cached_def nth read_buf_def)
  then have p: "pinned s' = pinned s" by (simp add: pinned_def fun_eq_iff)
  have "idle s' = idle s - {i}" by (auto simp: idle_def nth read_buf_def)
  moreover have "b_dirty (bufs s' ! i) \<longleftrightarrow> pinned s n"
    using old cached_unique [OF inv, of i n] by (auto simp: nth read_buf_def pinned_def)
  moreover have "b_dirty (bufs s' ! j) = b_dirty (bufs s ! j)" for j by (simp add: nth read_buf_def)
  ultimately show ?thesis using p by simp (simp add: s')
qed

lemma slocked_held: "cache_inv s \<Longrightarrow> i < NBUF \<Longrightarrow> slocked (b_lock (bufs s ! i)) \<longleftrightarrow> (\<exists>n. holds_buf s i n)"
  using cache_inv_buf [of s i] by (auto simp: holds_buf_def cached_def buf_ok_def)

lemma idle_eq:
  assumes "cache_inv s"
  shows "idle s = {i. i < NBUF \<and> (\<forall>n. \<not> holds_buf s i n) \<and> \<not> b_dirty (bufs s ! i)}"
proof -
  have "b_refcnt (bufs s ! i) = 0 \<longleftrightarrow> (\<forall>n. \<not> holds_buf s i n)" if "i < NBUF" for i
    using slocked_held [OF assms that] cache_inv_buf [OF assms that] by (auto simp: buf_ok_def)
  then show ?thesis by (auto simp: idle_def)
qed

section \<open>When bread returns\<close>

lemma bread_returns:
  assumes inv: "cache_inv s" and n: "n < disksize s"
    and free: "\<forall>i. \<not> holds_buf s i n" and room: "pinned s n \<or> idle s \<noteq> {}"
  shows "\<exists>i s'. bread 1 n s = Ret (i, s')"
proof -
  let ?P = "\<lambda>i. b_dev (bufs s ! i) = 1 \<and> b_blockno (bufs s ! i) = n"
  let ?Q = "\<lambda>i. b_refcnt (bufs s ! i) = 0 \<and> \<not> b_dirty (bufs s ! i)"
  have len: "length (bufs s) = NBUF" and lru: "set (lru s) = {..<NBUF}" using inv by (simp_all add: cache_inv_def)
  show ?thesis
  proof (cases "find ?P (lru s)")
    case (Some j)
    then have j: "?P j" "j < NBUF" using find_Some_in_set [OF Some] lru by auto
    then have "\<not> slocked (b_lock (bufs s ! j))" using free by (auto simp: holds_buf_def cached_def)
    moreover have "buf_ok (memdisk s) (disksize s) (my_pid s) (bufs s ! j)" by (rule cache_inv_buf [OF inv j(2)])
    ultimately show ?thesis using j len n Some
      by (auto simp: bread_def bget_def lock_buf_def acquiresleep_def iderw_def Let_def holdingsleep_def
          update_buf_def buf_ok_def)
  next
    case None
    then have "\<not> pinned s n" using lru unfolding find_None_all by (auto simp: pinned_def cached_def)
    then obtain k where "k < NBUF" "?Q k" using room by (auto simp: idle_def)
    then have "find ?Q (rev (lru s)) \<noteq> None" unfolding find_None_all using lru by auto
    then obtain j where f: "find ?Q (rev (lru s)) = Some j" by blast
    then have j: "?Q j" "j < NBUF" using find_Some_in_set [OF f] lru by auto
    moreover have "\<not> slocked (b_lock (bufs s ! j))"
      using cache_inv_buf [OF inv j(2)] j(1) by (auto simp: buf_ok_def split: if_splits)
    ultimately show ?thesis using None f len n
      by (auto simp: bread_def bget_def lock_buf_def acquiresleep_def iderw_def Let_def holdingsleep_def
          update_buf_def)
  qed
qed

lemma bread_no_buffers:
  assumes "\<forall>i \<in> set (lru s). b_refcnt (bufs s ! i) \<noteq> 0 \<or> b_dirty (bufs s ! i)"
    and "\<forall>i \<in> set (lru s). b_dev (bufs s ! i) = 1 \<longrightarrow> b_blockno (bufs s ! i) \<noteq> n"
  shows "bread 1 n s = Panic ''bget: no buffers''"
proof -
  have "find (\<lambda>i. b_dev (bufs s ! i) = 1 \<and> b_blockno (bufs s ! i) = n) (lru s) = None"
    unfolding find_None_all using assms(2) by auto
  moreover have "find (\<lambda>i. b_refcnt (bufs s ! i) = 0 \<and> \<not> b_dirty (bufs s ! i)) (rev (lru s)) = None"
    unfolding find_None_all using assms(1) by auto
  ultimately show ?thesis by (simp add: bread_def bget_def)
qed

text \<open>At boot all buffers are as in zeroed memory.\<close>

lemma binit_fold:
  "\<forall>i \<in> set xs. i < length (bufs s) \<and> b_lock (bufs s ! i) = initsleeplock \<Longrightarrow>
   fold (\<lambda>i s. (update_buf i (\<lambda>b. b\<lparr>b_lock := initsleeplock\<rparr>) s)\<lparr>lru := i # lru s\<rparr>) xs s
   = s\<lparr>lru := rev xs @ lru s\<rparr>"
proof (induction xs arbitrary: s)
  case (Cons x xs)
  have "(bufs s ! x)\<lparr>b_lock := initsleeplock\<rparr> = bufs s ! x" using Cons.prems by (cases "bufs s ! x") auto
  then have "update_buf x (\<lambda>b. b\<lparr>b_lock := initsleeplock\<rparr>) s = s" by (simp add: update_buf_def)
  then show ?case using Cons.IH [of "s\<lparr>lru := x # lru s\<rparr>"] Cons.prems by simp
qed simp

lemma cache_inv_binit:
  assumes "bufs s = replicate NBUF empty_buf" and "\<forall>n. length (memdisk s n) = BSIZE"
  shows "cache_inv (binit s) \<and> bcontent (binit s) = memdisk s \<and> (\<forall>i n. \<not> holds_buf (binit s) i n) \<and>
    (\<forall>n. \<not> pinned (binit s) n) \<and> idle (binit s) = {..<NBUF} \<and> (\<exists>l. binit s = s\<lparr>lru := l\<rparr>)"
proof -
  have "binit s = s\<lparr>lru := rev [0..<NBUF]\<rparr>"
    unfolding binit_def using assms(1) by (subst binit_fold) (auto simp: empty_buf_def)
  moreover have "\<not> cached s i n" for i n using assms(1) by (auto simp: cached_def empty_buf_def)
  moreover from this have "bcontent s n = memdisk s n" for n by (intro bcontent_uncached) blast
  ultimately show ?thesis using assms
    by (auto simp: cache_inv_def buf_ok_def empty_buf_def initsleeplock_def holds_buf_def pinned_def idle_def)
qed

section \<open>Properties\<close>

text \<open>C5: reading a block of disk 1 that the path does not hold already returns a locked buffer
  with the block's current contents, whichever buffer is recycled for it; the contents of
  every block, as the kernel sees them, stay the same, and so do the buffers held before.
  It returns whenever the block is pinned or some buffer is neither in use nor dirty.\<close>

theorem bread_correct:
  assumes inv: "cache_inv s" and n: "n < disksize s" and free: "\<forall>i. \<not> holds_buf s i n"
    and room: "pinned s n \<or> idle s \<noteq> {}"
  shows "\<exists>i s'. bread 1 n s = Ret (i, s') \<and> cache_inv s' \<and> buf_data i s' = bcontent s n \<and>
    bcontent s' = bcontent s \<and> (\<forall>j m. holds_buf s' j m \<longleftrightarrow> j = i \<and> m = n \<or> holds_buf s j m)"
proof -
  obtain i s' where r: "bread 1 n s = Ret (i, s')" using bread_returns [OF assms] by blast
  note ok = direct.rd_ok [OF inv r]
  then have "buf_data i s' = bcontent s' n" by (intro direct.get_ok) auto
  with r ok show ?thesis by auto
qed

theorem bread_correct_witness:
  "\<exists>i s'. bread 1 5 (binit \<lparr>bufs = replicate NBUF empty_buf, lru = [], memdisk = (\<lambda>n. replicate BSIZE 7),
     disksize = 100, disk_writes = [], my_pid = 1\<rparr>) = Ret (i, s') \<and> buf_data i s' = replicate BSIZE 7"
proof -
  let ?s = "\<lparr>bufs = replicate NBUF empty_buf, lru = [], memdisk = (\<lambda>n. replicate BSIZE 7),
     disksize = 100, disk_writes = [], my_pid = 1\<rparr>"
  have b: "binit ?s = ?s\<lparr>lru := rev [0..<NBUF]\<rparr>"
    unfolding binit_def by (subst binit_fold) (auto simp: empty_buf_def)
  have i: "cache_inv (binit ?s)" "bcontent (binit ?s) = memdisk ?s" "\<forall>i n. \<not> holds_buf (binit ?s) i n"
    using cache_inv_binit [of ?s] by simp_all
  have "5 < disksize (binit ?s)" unfolding b by simp
  moreover have "0 \<in> idle (binit ?s)" unfolding b by (simp add: idle_def NBUF_def empty_buf_def)
  ultimately show ?thesis using bread_correct [of "binit ?s" 5] i by auto
qed

end
