(* ===== verification/Log.thy ===== *)
theory Log
  imports Bio
begin

text \<open>
  The write-ahead log (\<open>log.c\<close>) on top of the buffer cache, with the superblock that says
  where it lies (\<open>readsb\<close> of \<open>fs.c\<close>). A kernel path that has to wait in \<open>begin_op\<close> has
  the outcome \<open>Sleep\<close>; an access outside an array, which in C corrupts memory, is the
  outcome \<open>Panic ''out of bounds''\<close>. Writing one block to the disk is atomic.
\<close>

section \<open>Superblock\<close>

record superblock =
  sb_size :: nat
  sb_nblocks :: nat
  sb_ninodes :: nat
  sb_nlog :: nat
  sb_logstart :: nat
  sb_inodestart :: nat
  sb_bmapstart :: nat

text \<open>Word \<open>i\<close> of a block, a \<open>uint\<close>.\<close>

definition word_at :: "byte list \<Rightarrow> nat \<Rightarrow> nat" where
  "word_at d i = le_dec (slice d (4 * i) 4)"

definition set_word :: "byte list \<Rightarrow> nat \<Rightarrow> nat \<Rightarrow> byte list" where
  "set_word d i v = overwrite d (4 * i) (le_enc 4 v)"

definition dec_superblock :: "byte list \<Rightarrow> superblock" where
  "dec_superblock d = \<lparr>sb_size = word_at d 0, sb_nblocks = word_at d 1, sb_ninodes = word_at d 2,
     sb_nlog = word_at d 3, sb_logstart = word_at d 4, sb_inodestart = word_at d 5,
     sb_bmapstart = word_at d 6\<rparr>"

definition readsb :: "nat \<Rightarrow> 'a bstate_scheme \<Rightarrow> (superblock \<times> 'a bstate_scheme) outcome" where
  "readsb dev s =
     kbind (bread dev 1 s) (\<lambda>(bp, s).
       let sb = dec_superblock (buf_data bp s) in kbind (brelse bp s) (\<lambda>s. Ret (sb, s)))"

section \<open>State\<close>

definition LOGSIZE :: nat where "LOGSIZE = 30"
definition MAXOPBLOCKS :: int where "MAXOPBLOCKS = 10"

text \<open>\<open>lh_n\<close> and \<open>lh_block\<close> are the in-memory \<open>logheader\<close>, an \<open>int\<close> and 30 block numbers.\<close>

record lstate = bstate +
  log_start :: nat
  log_size :: int
  outstanding :: int
  committing :: bool
  log_dev :: nat
  lh_n :: int
  lh_block :: "nat list"

section \<open>Operations\<close>

definition install_one :: "nat \<Rightarrow> 'a lstate_scheme \<Rightarrow> 'a lstate_scheme outcome" where
  "install_one tail s =
     kbind (bread (log_dev s) (log_start s + tail + 1) s) (\<lambda>(lbuf, s).
     kbind (bread (log_dev s) (lh_block s ! tail) s) (\<lambda>(dbuf, s).
     kbind (bwrite dbuf (set_data dbuf (buf_data lbuf s) s)) (\<lambda>s.
     kbind (brelse lbuf s) (brelse dbuf))))"

definition install_trans :: "'a lstate_scheme \<Rightarrow> 'a lstate_scheme outcome" where
  "install_trans s = kfor [0..<nat (lh_n s)] install_one s"

text \<open>The header on disk: the count, then the block numbers.\<close>

definition head_n :: "byte list \<Rightarrow> int" where
  "head_n d = s32 (word_at d 0)"

definition read_head :: "'a lstate_scheme \<Rightarrow> 'a lstate_scheme outcome" where
  "read_head s =
     kbind (bread (log_dev s) (log_start s) s) (\<lambda>(buf, s).
       let d = buf_data buf s; n = head_n d
       in if int LOGSIZE < n then Panic ''out of bounds''
          else
            let s = s\<lparr>lh_n := n,
                      lh_block := map (\<lambda>i. word_at d (1 + i)) [0..<nat n] @ drop (nat n) (lh_block s)\<rparr>
            in brelse buf s)"

definition head_data :: "int \<Rightarrow> nat list \<Rightarrow> byte list \<Rightarrow> byte list" where
  "head_data n bs d =
     fold (\<lambda>i d. set_word d (1 + i) (bs ! i)) [0..<nat n] (set_word d 0 (nat (n mod 4294967296)))"

definition write_head :: "'a lstate_scheme \<Rightarrow> 'a lstate_scheme outcome" where
  "write_head s =
     kbind (bread (log_dev s) (log_start s) s) (\<lambda>(buf, s).
     kbind (bwrite buf (set_data buf (head_data (lh_n s) (lh_block s) (buf_data buf s)) s)) (brelse buf))"

definition recover_from_log :: "'a lstate_scheme \<Rightarrow> 'a lstate_scheme outcome" where
  "recover_from_log s =
     kbind (read_head s) (\<lambda>s. kbind (install_trans s) (\<lambda>s. write_head (s\<lparr>lh_n := 0\<rparr>)))"

text \<open>\<open>sizeof (struct logheader)\<close> is 124.\<close>

definition initlog :: "nat \<Rightarrow> 'a lstate_scheme \<Rightarrow> 'a lstate_scheme outcome" where
  "initlog dev s =
     (if 4 + 4 * LOGSIZE \<ge> BSIZE then Panic ''initlog: too big logheader''
      else kbind (readsb dev s) (\<lambda>(sb, s).
        recover_from_log (s\<lparr>log_start := sb_logstart sb, log_size := int (sb_nlog sb), log_dev := dev\<rparr>)))"

definition begin_op :: "'a lstate_scheme \<Rightarrow> 'a lstate_scheme outcome" where
  "begin_op s =
     (if committing s then Sleep
      else if lh_n s + (outstanding s + 1) * MAXOPBLOCKS > int LOGSIZE then Sleep
      else Ret (s\<lparr>outstanding := outstanding s + 1\<rparr>))"

definition write_log_one :: "nat \<Rightarrow> 'a lstate_scheme \<Rightarrow> 'a lstate_scheme outcome" where
  "write_log_one tail s =
     kbind (bread (log_dev s) (log_start s + tail + 1) s) (\<lambda>(to, s).
     kbind (bread (log_dev s) (lh_block s ! tail) s) (\<lambda>(from, s).
     kbind (bwrite to (set_data to (buf_data from s) s)) (\<lambda>s.
     kbind (brelse from s) (brelse to))))"

definition write_log :: "'a lstate_scheme \<Rightarrow> 'a lstate_scheme outcome" where
  "write_log s = kfor [0..<nat (lh_n s)] write_log_one s"

definition commit :: "'a lstate_scheme \<Rightarrow> 'a lstate_scheme outcome" where
  "commit s =
     (if lh_n s > 0 then
        kbind (write_log s) (\<lambda>s. kbind (write_head s) (\<lambda>s. kbind (install_trans s) (\<lambda>s.
          write_head (s\<lparr>lh_n := 0\<rparr>))))
      else Ret s)"

definition end_op :: "'a lstate_scheme \<Rightarrow> 'a lstate_scheme outcome" where
  "end_op s =
     (let s = s\<lparr>outstanding := outstanding s - 1\<rparr>
      in if committing s then Panic ''log.committing''
         else if outstanding s = 0
         then kbind (commit (s\<lparr>committing := True\<rparr>)) (\<lambda>s. Ret (s\<lparr>committing := False\<rparr>))
         else Ret s)"

definition log_write :: "nat \<Rightarrow> 'a lstate_scheme \<Rightarrow> 'a lstate_scheme outcome" where
  "log_write b s =
     (if lh_n s \<ge> int LOGSIZE \<or> lh_n s \<ge> log_size s - 1 then Panic ''too big a transaction''
      else if outstanding s < 1 then Panic ''log_write outside of trans''
      else
        let bn = b_blockno (bufs s ! b);
            i = (case find (\<lambda>i. lh_block s ! i = bn) [0..<nat (lh_n s)] of
                   Some i \<Rightarrow> i | None \<Rightarrow> nat (lh_n s));
            s = s\<lparr>lh_block := (lh_block s)[i := bn]\<rparr>;
            s = (if int i = lh_n s then s\<lparr>lh_n := lh_n s + 1\<rparr> else s)
        in Ret (update_buf b (\<lambda>b. b\<lparr>b_dirty := True\<rparr>) s))"

section \<open>Copying blocks\<close>

text \<open>No buffer is held.\<close>

definition no_held :: "'a bstate_scheme \<Rightarrow> bool" where
  "no_held s \<longleftrightarrow> (\<forall>i n. \<not> holds_buf s i n)"

text \<open>
  Both loops of the log read a source and a destination block, copy the data, write the
  destination and release the two. \<open>copied s x y v\<close>: what \<open>v\<close> is after copying block \<open>x\<close>
  to block \<open>y\<close> from state \<open>s\<close>.
\<close>

definition copied :: "'a bstate_scheme \<Rightarrow> nat \<Rightarrow> nat \<Rightarrow> 'a bstate_scheme \<Rightarrow> bool" where
  "copied s x y v \<longleftrightarrow> cache_inv v \<and> no_held v \<and> cache_step s v \<and>
     bcontent v = (bcontent s)(y := bcontent s x) \<and> memdisk v = (memdisk s)(y := bcontent s x) \<and>
     disk_writes v = disk_writes s @ [(y, bcontent s x)] \<and>
     (\<forall>m. pinned v m \<longleftrightarrow> pinned s m \<and> m \<noteq> y) \<and> idle s \<subseteq> idle v"

lemma read_two:
  assumes inv: "cache_inv s" and nh: "no_held s" and ne: "x \<noteq> y" and lt: "x < disksize s" "y < disksize s"
    and av: "2 \<le> card (idle s) \<or> idle s \<noteq> {} \<and> (pinned s x \<or> pinned s y)"
  shows "\<exists>a s1 b t. bread 1 x s = Ret (a, s1) \<and> bread 1 y s1 = Ret (b, t) \<and> cache_inv t \<and> cache_step s t \<and>
    bcontent t = bcontent s \<and> memdisk t = memdisk s \<and> disk_writes t = disk_writes s \<and> pinned t = pinned s \<and>
    (\<forall>j m. holds_buf t j m \<longleftrightarrow> j = a \<and> m = x \<or> j = b \<and> m = y) \<and> saved t a \<and> saved t b \<and> a \<noteq> b \<and>
    (\<forall>j. b_dirty (bufs t ! j) = b_dirty (bufs s ! j))"
proof -
  have "idle s \<noteq> {}" using av by auto
  then obtain a s1 where r1: "bread 1 x s = Ret (a, s1)"
    using bread_returns [OF inv lt(1)] nh by (auto simp: no_held_def)
  note ok1 = bread_ok [OF inv r1] and tr1 = bread_track [OF inv r1]
  have inv1: "cache_inv s1" using ok1 by blast
  have "pinned s1 y \<or> idle s1 \<noteq> {}"
  proof (cases "pinned s y")
    case False
    have "idle s - {a} \<noteq> {}"
    proof (cases "pinned s x")
      case True
      then have "b_dirty (bufs s ! a)" using tr1 by metis
      then have "a \<notin> idle s" by (simp add: idle_def)
      with \<open>idle s \<noteq> {}\<close> show ?thesis by simp
    next
      case False
      with \<open>\<not> pinned s y\<close> av have "2 \<le> card (idle s)" by blast
      moreover have "card (idle s) \<le> 1" if "idle s \<subseteq> {a}" using card_mono [OF _ that] by simp
      ultimately show ?thesis by fastforce
    qed
    with tr1 show ?thesis by simp
  qed (use tr1 in simp)
  moreover have "\<forall>i. \<not> holds_buf s1 i y" using ok1 nh ne by (auto simp: no_held_def)
  moreover have "y < disksize s1" using ok1 lt(2) cache_step_fields [of s s1] by simp
  ultimately obtain b t where r2: "bread 1 y s1 = Ret (b, t)" using bread_returns [OF inv1] by blast
  note ok2 = bread_ok [OF inv1 r2] and tr2 = bread_track [OF inv1 r2]
  have h1: "holds_buf s1 j m \<longleftrightarrow> j = a \<and> m = x" for j m using ok1 nh by (auto simp: no_held_def)
  have ha: "holds_buf s1 a x" using h1 by simp
  then have ab: "a \<noteq> b" and sa: "saved t a" using ok1 ok2 by blast+
  have h2: "\<forall>j m. holds_buf t j m \<longleftrightarrow> j = a \<and> m = x \<or> j = b \<and> m = y" using ok2 h1 by blast
  have st: "cache_step s t" using ok1 ok2 cache_step_trans by blast
  have eqs: "bcontent t = bcontent s" "memdisk t = memdisk s" "disk_writes t = disk_writes s"
    "pinned t = pinned s" using ok1 ok2 tr1 tr2 by simp_all
  have dirty: "\<forall>j. b_dirty (bufs t ! j) = b_dirty (bufs s ! j)" using tr1 tr2 by simp
  have "cache_inv t" "saved t b" using ok2 by blast+
  with r1 r2 st eqs h2 sa ab dirty show ?thesis by blast
qed

lemma copy_held:
  assumes inv: "cache_inv t" and ha: "holds_buf t a x" and hb: "holds_buf t b y" and ab: "a \<noteq> b"
    and sa: "saved t a"
  shows "\<exists>u w v. bwrite b (set_data b (buf_data a t) t) = Ret u \<and> brelse a u = Ret w \<and> brelse b w = Ret v \<and>
    cache_inv v \<and> cache_step t v \<and> bcontent v = (bcontent t)(y := bcontent t x) \<and>
    memdisk v = (memdisk t)(y := bcontent t x) \<and> disk_writes v = disk_writes t @ [(y, bcontent t x)] \<and>
    (\<forall>j m. holds_buf v j m \<longleftrightarrow> holds_buf t j m \<and> j \<noteq> a \<and> j \<noteq> b) \<and>
    (\<forall>j. b_dirty (bufs v ! j) = (j \<noteq> b \<and> b_dirty (bufs t ! j)) \<and> cached v j = cached t j)"
proof -
  let ?d = "buf_data a t" and ?t = "set_data b (buf_data a t) t"
  have lb: "b < length (bufs t)" using holds_buf_lt [OF inv hb] by simp
  have d: "?d = bcontent t x" by (rule buf_data_holds [OF inv ha])
  have len: "length ?d = BSIZE" unfolding d by (rule length_bcontent [OF inv])
  note st = set_data_ok [OF inv hb len]
  have t: "b_dirty (bufs ?t ! j) = b_dirty (bufs t ! j)" "cached ?t j = cached t j" for j
    by (auto simp: set_data_def update_buf_nth lb cached_def fun_eq_iff)
  have tm: "memdisk ?t = memdisk t" "disk_writes ?t = disk_writes t" by (simp_all add: set_data_def)
  have ha1: "holds_buf ?t a x" and hb1: "holds_buf ?t b y" and sa1: "saved ?t a" using st ha hb sa ab by auto
  obtain u where bw: "bwrite b ?t = Ret u" and u: "cache_inv u" "cache_step ?t u" "bcontent u = bcontent ?t"
      "holds_buf u = holds_buf ?t" "saved u b" "saved u a"
      "memdisk u = (memdisk ?t)(y := bcontent ?t y)" "disk_writes u = disk_writes ?t @ [(y, bcontent ?t y)]"
      "\<forall>j. b_dirty (bufs u ! j) = (j \<noteq> b \<and> b_dirty (bufs ?t ! j)) \<and> cached u j = cached ?t j"
    using bwrite_ok [of ?t b y] st hb1 ha1 sa1 ab by blast
  have hau: "holds_buf u a x" and hbu: "holds_buf u b y" using u(4) ha1 hb1 by simp_all
  obtain w where ra: "brelse a u = Ret w" and w: "cache_inv w" "cache_step u w" "bcontent w = bcontent u"
      "memdisk w = memdisk u" "disk_writes w = disk_writes u"
      "\<forall>j. b_dirty (bufs w ! j) = b_dirty (bufs u ! j) \<and> cached w j = cached u j \<and>
         b_data (bufs w ! j) = b_data (bufs u ! j)"
      "\<forall>j m. holds_buf w j m \<longleftrightarrow> holds_buf u j m \<and> j \<noteq> a"
      "\<forall>j m. holds_buf u j m \<longrightarrow> j \<noteq> a \<longrightarrow> saved w j = saved u j"
    using brelse_ok [OF u(1) hau u(6)] by (elim exE conjE) (rule that)
  have hbw: "holds_buf w b y" "saved w b" using w(7,8) hbu u(5) ab by auto
  obtain v where rb: "brelse b w = Ret v" and v: "cache_inv v" "cache_step w v" "bcontent v = bcontent w"
      "memdisk v = memdisk w" "disk_writes v = disk_writes w"
      "\<forall>j. b_dirty (bufs v ! j) = b_dirty (bufs w ! j) \<and> cached v j = cached w j \<and>
         b_data (bufs v ! j) = b_data (bufs w ! j)"
      "\<forall>j m. holds_buf v j m \<longleftrightarrow> holds_buf w j m \<and> j \<noteq> b"
    using brelse_ok [OF w(1) hbw] by (elim exE conjE) (rule that)
  have "cache_step t v" using st u(2) w(2) v(2) by (meson cache_step_trans)
  moreover have "bcontent v = (bcontent t)(y := bcontent t x)" using v w u st d by simp
  moreover have "memdisk v = (memdisk t)(y := bcontent t x)"
    "disk_writes v = disk_writes t @ [(y, bcontent t x)]"
    using v w u st d tm by simp_all
  moreover have "\<forall>j m. holds_buf v j m \<longleftrightarrow> holds_buf t j m \<and> j \<noteq> a \<and> j \<noteq> b"
    using v(7) w(7) u(4) st by auto
  moreover have "\<forall>j. b_dirty (bufs v ! j) = (j \<noteq> b \<and> b_dirty (bufs t ! j)) \<and> cached v j = cached t j"
    using v(6) w(6) u(9) t by simp
  ultimately show ?thesis using bw ra rb v(1) by blast
qed

lemma copy_total:
  assumes inv: "cache_inv t" "cache_step s t" "bcontent t = bcontent s" "memdisk t = memdisk s"
      "disk_writes t = disk_writes s" "pinned t = pinned s"
      "\<forall>j. b_dirty (bufs t ! j) = b_dirty (bufs s ! j)"
    and held: "\<forall>j m. holds_buf t j m \<longleftrightarrow> j = a \<and> m = x \<or> j = b \<and> m = y" and ab: "a \<noteq> b"
    and sa: "saved t a" and s: "cache_inv s" "no_held s"
  shows "\<exists>u w v. bwrite b (set_data b (buf_data a t) t) = Ret u \<and> brelse a u = Ret w \<and> brelse b w = Ret v \<and>
    copied s x y v"
proof -
  have ha: "holds_buf t a x" and hb: "holds_buf t b y" using held by blast+
  obtain u w v where run: "bwrite b (set_data b (buf_data a t) t) = Ret u" "brelse a u = Ret w" "brelse b w = Ret v"
    and v: "cache_inv v" "cache_step t v" "bcontent v = (bcontent t)(y := bcontent t x)"
      "memdisk v = (memdisk t)(y := bcontent t x)" "disk_writes v = disk_writes t @ [(y, bcontent t x)]"
      "\<forall>j m. holds_buf v j m \<longleftrightarrow> holds_buf t j m \<and> j \<noteq> a \<and> j \<noteq> b"
      "\<forall>j. b_dirty (bufs v ! j) = (j \<noteq> b \<and> b_dirty (bufs t ! j)) \<and> cached v j = cached t j"
    using copy_held [OF inv(1) ha hb ab sa] by blast
  have nh: "no_held v" unfolding no_held_def using v(6) held by blast
  have cb: "cached t b y" using hb by (simp add: holds_buf_def)
  have "cached t i m \<and> i \<noteq> b \<longleftrightarrow> cached t i m \<and> m \<noteq> y" for i m
    using cb cached_unique [OF inv(1), of i y b] by (auto simp: cached_def)
  then have "pinned v m \<longleftrightarrow> pinned t m \<and> m \<noteq> y" for m
    unfolding pinned_def using v(7) by auto
  then have pin: "\<forall>m. pinned v m \<longleftrightarrow> pinned s m \<and> m \<noteq> y" using inv(6) by simp
  have "idle s \<subseteq> idle v"
    unfolding idle_eq [OF s(1)] idle_eq [OF v(1)] using nh v(7) inv(7) by (auto simp: no_held_def)
  moreover have "cache_step s v" using inv(2) v(2) by (rule cache_step_trans)
  ultimately have "copied s x y v" using v nh pin inv by (simp add: copied_def)
  with run show ?thesis by blast
qed

lemma log_fields:
  assumes "cache_step s s'"
  shows "log_start s' = log_start s \<and> log_size s' = log_size s \<and> outstanding s' = outstanding s \<and>
    committing s' = committing s \<and> log_dev s' = log_dev s \<and> lh_n s' = lh_n s \<and> lh_block s' = lh_block s"
proof -
  let ?t = "s\<lparr>bufs := bufs s', lru := lru s', memdisk := memdisk s', disk_writes := disk_writes s'\<rparr>"
  have "log_start ?t = log_start s \<and> log_size ?t = log_size s \<and> outstanding ?t = outstanding s \<and>
    committing ?t = committing s \<and> log_dev ?t = log_dev s \<and> lh_n ?t = lh_n s \<and> lh_block ?t = lh_block s"
    by simp
  then show ?thesis using assms unfolding cache_step_def by metis
qed

text \<open>Enough buffers to read the two blocks.\<close>

definition room_for :: "'a bstate_scheme \<Rightarrow> nat \<Rightarrow> nat \<Rightarrow> bool" where
  "room_for s x y \<longleftrightarrow> 2 \<le> card (idle s) \<or> idle s \<noteq> {} \<and> (pinned s x \<or> pinned s y)"

lemma write_log_one_ok:
  assumes inv: "cache_inv s" "no_held s" and dev: "log_dev s = 1"
    and y: "y = log_start s + tail + 1" and x: "x = lh_block s ! tail"
    and ne: "x \<noteq> y" and lt: "x < disksize s" "y < disksize s" and av: "room_for s x y"
  shows "\<exists>v. write_log_one tail s = Ret v \<and> copied s x y v"
proof -
  have "2 \<le> card (idle s) \<or> idle s \<noteq> {} \<and> (pinned s y \<or> pinned s x)" using av by (auto simp: room_for_def)
  note two = read_two [OF inv ne [symmetric] lt(2,1) this]
  obtain b s1 a t where
    r: "bread 1 y s = Ret (b, s1)" "bread 1 x s1 = Ret (a, t)" and t: "cache_inv t" "cache_step s t"
      "bcontent t = bcontent s" "memdisk t = memdisk s" "disk_writes t = disk_writes s" "pinned t = pinned s"
      "\<forall>j m. holds_buf t j m \<longleftrightarrow> j = b \<and> m = y \<or> j = a \<and> m = x" "saved t b" "saved t a" "b \<noteq> a"
      "\<forall>j. b_dirty (bufs t ! j) = b_dirty (bufs s ! j)"
    using two by - (elim exE conjE, rule that, assumption+)
  have h: "\<forall>j m. holds_buf t j m \<longleftrightarrow> j = a \<and> m = x \<or> j = b \<and> m = y"
    by (intro allI) (simp only: t(7) [rule_format] disj_commute)
  obtain u w v where run: "bwrite b (set_data b (buf_data a t) t) = Ret u" "brelse a u = Ret w" "brelse b w = Ret v"
    and c: "copied s x y v"
    using copy_total [OF t(1-6,11) h not_sym [OF t(10)] t(9) inv] by blast
  have "cache_step s s1" using bread_ok [OF inv(1) r(1)] by blast
  from log_fields [OF this] dev have f: "log_dev s1 = 1" "lh_block s1 = lh_block s" by simp_all
  have "bread (log_dev s) (log_start s + tail + 1) s = Ret (b, s1)" using r(1) unfolding dev y .
  moreover have "bread (log_dev s1) (lh_block s1 ! tail) s1 = Ret (a, t)" using r(2) unfolding f x .
  ultimately have "write_log_one tail s = Ret v"
    unfolding write_log_one_def by (simp only: kbind.simps prod.case run)
  with c show ?thesis by blast
qed

lemma install_one_ok:
  assumes inv: "cache_inv s" "no_held s" and dev: "log_dev s = 1"
    and x: "x = log_start s + tail + 1" and y: "y = lh_block s ! tail"
    and ne: "x \<noteq> y" and lt: "x < disksize s" "y < disksize s" and av: "room_for s x y"
  shows "\<exists>v. install_one tail s = Ret v \<and> copied s x y v"
proof -
  note two = read_two [OF inv ne lt av [unfolded room_for_def]]
  obtain a s1 b t where
    r: "bread 1 x s = Ret (a, s1)" "bread 1 y s1 = Ret (b, t)" and t: "cache_inv t" "cache_step s t"
      "bcontent t = bcontent s" "memdisk t = memdisk s" "disk_writes t = disk_writes s" "pinned t = pinned s"
      "\<forall>j m. holds_buf t j m \<longleftrightarrow> j = a \<and> m = x \<or> j = b \<and> m = y" "saved t a" "saved t b" "a \<noteq> b"
      "\<forall>j. b_dirty (bufs t ! j) = b_dirty (bufs s ! j)"
    using two by - (elim exE conjE, rule that, assumption+)
  obtain u w v where run: "bwrite b (set_data b (buf_data a t) t) = Ret u" "brelse a u = Ret w" "brelse b w = Ret v"
    and c: "copied s x y v"
    using copy_total [OF t(1-6,11,7,10,8) inv] by blast
  have "cache_step s s1" using bread_ok [OF inv(1) r(1)] by blast
  from log_fields [OF this] dev have f: "log_dev s1 = 1" "lh_block s1 = lh_block s" by simp_all
  have "bread (log_dev s) (log_start s + tail + 1) s = Ret (a, s1)" using r(1) unfolding dev x .
  moreover have "bread (log_dev s1) (lh_block s1 ! tail) s1 = Ret (b, t)" using r(2) unfolding f y .
  ultimately have "install_one tail s = Ret v"
    unfolding install_one_def by (simp only: kbind.simps prod.case run)
  with c show ?thesis by blast
qed

text \<open>Writes applied to a disk in order.\<close>

definition apply_writes :: "(nat \<times> byte list) list \<Rightarrow> (nat \<Rightarrow> byte list) \<Rightarrow> nat \<Rightarrow> byte list" where
  "apply_writes ws m = fold (\<lambda>(n, d) m. m(n := d)) ws m"

lemma apply_writes_simps [simp]:
  "apply_writes [] m = m" "apply_writes ((n, d) # ws) m = apply_writes ws (m(n := d))"
  "apply_writes (us @ ws) m = apply_writes ws (apply_writes us m)"
  by (simp_all add: apply_writes_def)

lemma apply_writes_other: "n \<notin> fst ` set ws \<Longrightarrow> apply_writes ws m n = m n"
  by (induction ws arbitrary: m) auto

lemma apply_writes_same:
  "\<forall>x \<in> set ws. fst x = m \<longrightarrow> snd x = c m \<Longrightarrow> apply_writes ws c m = c m"
proof (induction ws arbitrary: c)
  case (Cons x xs)
  obtain n d where x: "x = (n, d)" by (cases x)
  have "(c(n := d)) m = c m" using Cons.prems x by auto
  moreover have "\<forall>x \<in> set xs. fst x = m \<longrightarrow> snd x = (c(n := d)) m"
    using Cons.prems calculation by simp
  ultimately have "apply_writes xs (c(n := d)) m = c m" using Cons.IH by simp
  then show ?case using x by simp
qed simp

text \<open>Copying \<open>src i\<close> to \<open>dst i\<close> for every \<open>i\<close> of a list, when no destination is a source.\<close>

lemma copy_loop:
  assumes "cache_inv s" "no_held s"
    and "\<And>i t. i \<in> set is \<Longrightarrow> cache_inv t \<Longrightarrow> no_held t \<Longrightarrow> cache_step s t \<Longrightarrow> idle s \<subseteq> idle t \<Longrightarrow>
      pinned t (dst i) = pinned s (dst i) \<Longrightarrow> (\<forall>m. m \<notin> dst ` set is \<longrightarrow> pinned t m = pinned s m) \<Longrightarrow>
      \<exists>v. f i t = Ret v \<and> copied t (src i) (dst i) v"
    and "src ` set is \<inter> dst ` set is = {}" and "distinct (map dst is)"
  shows "\<exists>v. kfor is f s = Ret v \<and> cache_inv v \<and> no_held v \<and> cache_step s v \<and> idle s \<subseteq> idle v \<and>
    (\<forall>m. pinned v m \<longleftrightarrow> pinned s m \<and> m \<notin> dst ` set is) \<and>
    bcontent v = apply_writes (map (\<lambda>i. (dst i, bcontent s (src i))) is) (bcontent s) \<and>
    memdisk v = apply_writes (map (\<lambda>i. (dst i, bcontent s (src i))) is) (memdisk s) \<and>
    disk_writes v = disk_writes s @ map (\<lambda>i. (dst i, bcontent s (src i))) is"
  using assms
proof (induction "is" arbitrary: s)
  case Nil
  then show ?case by simp
next
  case (Cons i "is")
  obtain t where t: "f i s = Ret t" "copied s (src i) (dst i) t"
    using Cons.prems(3) [of i s] Cons.prems(1,2) by auto
  then have c: "cache_inv t" "no_held t" "cache_step s t" "idle s \<subseteq> idle t"
    "bcontent t = (bcontent s)(dst i := bcontent s (src i))"
    "memdisk t = (memdisk s)(dst i := bcontent s (src i))"
    "disk_writes t = disk_writes s @ [(dst i, bcontent s (src i))]"
    "\<forall>m. pinned t m \<longleftrightarrow> pinned s m \<and> m \<noteq> dst i" by (simp_all add: copied_def)
  have src: "bcontent t (src j) = bcontent s (src j)" if "j \<in> set is" for j
  proof -
    have "src j \<in> src ` set (i # is)" "dst i \<in> dst ` set (i # is)" using that by auto
    then have "src j \<noteq> dst i" using Cons.prems(4) by (metis IntI empty_iff)
    then show ?thesis using c(5) by simp
  qed
  have "\<exists>v. kfor is f t = Ret v \<and> cache_inv v \<and> no_held v \<and> cache_step t v \<and> idle t \<subseteq> idle v \<and>
    (\<forall>m. pinned v m \<longleftrightarrow> pinned t m \<and> m \<notin> dst ` set is) \<and>
    bcontent v = apply_writes (map (\<lambda>i. (dst i, bcontent t (src i))) is) (bcontent t) \<and>
    memdisk v = apply_writes (map (\<lambda>i. (dst i, bcontent t (src i))) is) (memdisk t) \<and>
    disk_writes v = disk_writes t @ map (\<lambda>i. (dst i, bcontent t (src i))) is"
  proof (rule Cons.IH [OF c(1,2)])
    fix j u assume j: "j \<in> set is" and u: "cache_inv u" "no_held u" "cache_step t u" "idle t \<subseteq> idle u"
      "pinned u (dst j) = pinned t (dst j)" "\<forall>m. m \<notin> dst ` set is \<longrightarrow> pinned u m = pinned t m"
    have "dst j \<noteq> dst i" using Cons.prems(5) j by (auto simp: image_iff)
    moreover have "cache_step s u" using c(3) u(3) by (rule cache_step_trans)
    ultimately show "\<exists>v. f j u = Ret v \<and> copied u (src j) (dst j) v"
      using Cons.prems(3) [of j u] j u c by auto
  qed (use Cons.prems(4,5) in auto)
  then obtain v where v: "kfor is f t = Ret v" "cache_inv v" "no_held v" "cache_step t v" "idle t \<subseteq> idle v"
    "\<forall>m. pinned v m \<longleftrightarrow> pinned t m \<and> m \<notin> dst ` set is"
    "bcontent v = apply_writes (map (\<lambda>i. (dst i, bcontent t (src i))) is) (bcontent t)"
    "memdisk v = apply_writes (map (\<lambda>i. (dst i, bcontent t (src i))) is) (memdisk t)"
    "disk_writes v = disk_writes t @ map (\<lambda>i. (dst i, bcontent t (src i))) is" by blast
  have m: "map (\<lambda>i. (dst i, bcontent t (src i))) is = map (\<lambda>i. (dst i, bcontent s (src i))) is"
    using src by simp
  have "cache_step s v" using c(3) v(4) by (rule cache_step_trans)
  moreover have "idle s \<subseteq> idle v" using c(4) v(5) by blast
  ultimately show ?case
    using v(1-3,6-9) c(5-8) t(1) unfolding m by (intro exI [of _ v]) auto
qed

section \<open>The header block\<close>

lemma length_set_word [simp]: "4 * i + 4 \<le> length d \<Longrightarrow> length (set_word d i v) = length d"
  by (simp add: set_word_def)

lemma word_at_set_word:
  assumes "4 * i + 4 \<le> length d" and "4 * j + 4 \<le> length d" and "v < 4294967296"
  shows "word_at (set_word d i v) j = (if i = j then v else word_at d j)"
proof (cases "i = j")
  case True
  have "slice (set_word d i v) (4 * i) 4 = le_enc 4 v"
    using slice_overwrite_same [of "4 * i" "le_enc 4 v" d] assms(1) by (simp add: set_word_def)
  then show ?thesis using True assms(3) le_dec_enc [of v 4] by (simp add: word_at_def)
next
  case False
  then have "4 * j + 4 \<le> 4 * i \<or> 4 * i + length (le_enc 4 v) \<le> 4 * j" by simp arith
  then have "slice (set_word d i v) (4 * j) 4 = slice d (4 * j) 4"
    unfolding set_word_def using assms by (intro slice_overwrite_disjoint) auto
  then show ?thesis using False by (simp add: word_at_def)
qed

lemma head_fold:
  assumes "length d = BSIZE" and "k \<le> 30" and "\<forall>i < k. bs ! i < 4294967296"
  defines "h \<equiv> fold (\<lambda>i d. set_word d (1 + i) (bs ! i)) [0..<k] d"
  shows "length h = BSIZE \<and> word_at h 0 = word_at d 0 \<and> (\<forall>i < k. word_at h (1 + i) = bs ! i)"
  using assms(2,3) unfolding h_def
proof (induction k)
  case 0
  then show ?case using assms(1) by simp
next
  case (Suc k)
  let ?h = "fold (\<lambda>i d. set_word d (1 + i) (bs ! i)) [0..<k] d"
  have IH: "length ?h = BSIZE" "word_at ?h 0 = word_at d 0" "\<forall>i < k. word_at ?h (1 + i) = bs ! i"
    using Suc by auto
  have k: "4 * (1 + k) + 4 \<le> length ?h" "bs ! k < 4294967296" using Suc.prems IH(1) by (auto simp: BSIZE_def)
  have "word_at (set_word ?h (1 + k) (bs ! k)) (1 + i) = bs ! i" if "i < Suc k" for i
    using word_at_set_word [OF k(1) _ k(2), of "1 + i"] IH that Suc.prems
    by (auto simp: BSIZE_def less_Suc_eq)
  moreover have "word_at (set_word ?h (1 + k) (bs ! k)) 0 = word_at d 0"
    using word_at_set_word [OF k(1) _ k(2), of 0] IH by (simp add: BSIZE_def)
  ultimately show ?case using IH(1) k(1) by simp
qed

lemma head_data_props:
  assumes "length d = BSIZE" and "0 \<le> n" and "n \<le> 30" and "\<forall>i < nat n. bs ! i < 4294967296"
  shows "length (head_data n bs d) = BSIZE \<and> head_n (head_data n bs d) = n \<and>
    (\<forall>i < nat n. word_at (head_data n bs d) (1 + i) = bs ! i)"
proof -
  let ?v = "nat (n mod 4294967296)" and ?d = "set_word d 0 (nat (n mod 4294967296))"
  have len: "length ?d = BSIZE" using assms(1) by (simp add: BSIZE_def)
  have v: "?v = nat n" "nat n < 4294967296" using assms(2,3) by simp_all
  have "word_at ?d 0 = nat n" using word_at_set_word [of 0 d 0 ?v] assms(1) v by (simp add: BSIZE_def)
  moreover have "nat n \<le> 30" using assms(3) by simp
  moreover have "s32 (nat n) = n" using assms(2,3) by (simp add: s32_def)
  ultimately show ?thesis using head_fold [OF len _ assms(4)] by (simp add: head_data_def head_n_def)
qed

text \<open>\<open>rewritten s x d v\<close>: what \<open>v\<close> is after reading block \<open>x\<close>, giving it the data \<open>d\<close>,
  writing and releasing it.\<close>

definition rewritten :: "'a bstate_scheme \<Rightarrow> nat \<Rightarrow> byte list \<Rightarrow> 'a bstate_scheme \<Rightarrow> bool" where
  "rewritten s x d v \<longleftrightarrow> cache_inv v \<and> no_held v \<and> cache_step s v \<and> bcontent v = (bcontent s)(x := d) \<and>
     memdisk v = (memdisk s)(x := d) \<and> disk_writes v = disk_writes s @ [(x, d)] \<and>
     (\<forall>m. pinned v m \<longleftrightarrow> pinned s m \<and> m \<noteq> x) \<and> idle s \<subseteq> idle v"

lemma rewrite_block:
  assumes inv: "cache_inv s" and nh: "no_held s" and x: "x < disksize s" and av: "idle s \<noteq> {}"
    and len: "length (g (bcontent s x)) = BSIZE"
  shows "\<exists>a t u v. bread 1 x s = Ret (a, t) \<and> bwrite a (set_data a (g (buf_data a t)) t) = Ret u \<and>
    brelse a u = Ret v \<and> rewritten s x (g (bcontent s x)) v"
proof -
  obtain a t where rd: "bread 1 x s = Ret (a, t)"
    using bread_returns [OF inv x] nh av by (auto simp: no_held_def)
  note ok = bread_ok [OF inv rd] and tr = bread_track [OF inv rd]
  have t: "cache_inv t" "cache_step s t" "bcontent t = bcontent s" using ok by simp_all
  have h: "\<forall>j m. holds_buf t j m \<longleftrightarrow> j = a \<and> m = x" using ok nh by (simp add: no_held_def)
  have ha: "holds_buf t a x" using h by simp
  let ?d = "g (buf_data a t)" and ?t = "set_data a (g (buf_data a t)) t"
  have d: "?d = g (bcontent s x)" using buf_data_holds [OF t(1) ha] t(3) by simp
  note st = set_data_ok [OF t(1) ha, of ?d] len
  have la: "a < length (bufs t)" using holds_buf_lt [OF t(1) ha] by simp
  have td: "b_dirty (bufs ?t ! j) = b_dirty (bufs t ! j)" "cached ?t j = cached t j" for j
    by (auto simp: set_data_def update_buf_nth la cached_def fun_eq_iff)
  have tm: "memdisk ?t = memdisk s" "disk_writes ?t = disk_writes s" using tr by (simp_all add: set_data_def)
  have s1: "cache_inv ?t" "cache_step t ?t" "bcontent ?t = (bcontent s)(x := ?d)" "holds_buf ?t = holds_buf t"
    using st d t by simp_all
  have h1: "holds_buf ?t a x" using s1(4) ha by simp
  obtain u where bw: "bwrite a ?t = Ret u" and u: "cache_inv u" "cache_step ?t u" "bcontent u = bcontent ?t"
      "holds_buf u = holds_buf ?t" "saved u a"
      "\<forall>j m. holds_buf ?t j m \<longrightarrow> j \<noteq> a \<longrightarrow> saved u j = saved ?t j"
      "memdisk u = (memdisk ?t)(x := bcontent ?t x)" "disk_writes u = disk_writes ?t @ [(x, bcontent ?t x)]"
      "\<forall>j. b_dirty (bufs u ! j) = (j \<noteq> a \<and> b_dirty (bufs ?t ! j)) \<and> cached u j = cached ?t j"
    using bwrite_ok [OF s1(1) h1] by - (elim exE conjE, rule that, assumption+)
  have hu: "holds_buf u a x" using u(4) h1 by simp
  obtain v where br: "brelse a u = Ret v" and v: "cache_inv v" "cache_step u v" "bcontent v = bcontent u"
      "memdisk v = memdisk u" "disk_writes v = disk_writes u"
      "\<forall>j. b_dirty (bufs v ! j) = b_dirty (bufs u ! j) \<and> cached v j = cached u j \<and>
         b_data (bufs v ! j) = b_data (bufs u ! j)"
      "\<forall>j m. holds_buf v j m \<longleftrightarrow> holds_buf u j m \<and> j \<noteq> a"
    using brelse_ok [OF u(1) hu u(5)] by - (elim exE conjE, rule that, assumption+)
  have nv: "no_held v" unfolding no_held_def using v(7) u(4) s1(4) h by simp
  have ca: "cached t a x" using ha by (simp add: holds_buf_def)
  have dv: "b_dirty (bufs v ! j) = (j \<noteq> a \<and> b_dirty (bufs t ! j))" "cached v j = cached t j" for j
    using v(6) u(9) td by simp_all
  have "cached t i m \<and> i \<noteq> a \<longleftrightarrow> cached t i m \<and> m \<noteq> x" for i m
    using ca cached_unique [OF t(1), of i x a] by (auto simp: cached_def)
  then have "pinned v m \<longleftrightarrow> pinned t m \<and> m \<noteq> x" for m unfolding pinned_def using dv by auto
  then have pin: "\<forall>m. pinned v m \<longleftrightarrow> pinned s m \<and> m \<noteq> x" using tr by simp
  have "idle s \<subseteq> idle v"
    unfolding idle_eq [OF inv] idle_eq [OF v(1)] using nv dv(1) tr by (auto simp: no_held_def)
  moreover have "cache_step s v" using t(2) s1(2) u(2) v(2) by (meson cache_step_trans)
  ultimately have "rewritten s x (g (bcontent s x)) v"
    using v u s1 tm nv pin d by (simp add: rewritten_def)
  with rd bw br show ?thesis by blast
qed

lemma write_head_ok:
  assumes inv: "cache_inv s" "no_held s" and dev: "log_dev s = 1" and lt: "log_start s < disksize s"
    and av: "idle s \<noteq> {}" and n: "0 \<le> lh_n s" "lh_n s \<le> 30"
      "\<forall>i < nat (lh_n s). lh_block s ! i < 4294967296"
  shows "\<exists>v. write_head s = Ret v \<and>
    rewritten s (log_start s) (head_data (lh_n s) (lh_block s) (bcontent s (log_start s))) v"
proof -
  let ?g = "head_data (lh_n s) (lh_block s)"
  have len: "length (?g (bcontent s (log_start s))) = BSIZE"
    using head_data_props [OF length_bcontent [OF inv(1)] n] by blast
  obtain a t u v where r: "bread 1 (log_start s) s = Ret (a, t)"
      "bwrite a (set_data a (?g (buf_data a t)) t) = Ret u" "brelse a u = Ret v"
      "rewritten s (log_start s) (?g (bcontent s (log_start s))) v"
    using rewrite_block [OF inv lt av, of ?g, OF len] by blast
  have "cache_step s t" using bread_ok [OF inv(1) r(1)] by blast
  from log_fields [OF this] have "lh_n t = lh_n s" "lh_block t = lh_block s" by simp_all
  then have "write_head s = Ret v" using r dev by (simp add: write_head_def)
  with r(4) show ?thesis by blast
qed

section \<open>The invariant of the log\<close>

definition logged_blocks :: "'a lstate_scheme \<Rightarrow> nat list" where
  "logged_blocks s = take (nat (lh_n s)) (lh_block s)"

definition in_log :: "'a lstate_scheme \<Rightarrow> nat \<Rightarrow> bool" where
  "in_log s m \<longleftrightarrow> log_start s \<le> m \<and> int m < int (log_start s) + log_size s"

text \<open>The blocks of the header are distinct, and they are exactly the dirty ones.\<close>

definition log_inv :: "'a lstate_scheme \<Rightarrow> bool" where
  "log_inv s \<longleftrightarrow> cache_inv s \<and> log_dev s = 1 \<and> 0 \<le> lh_n s \<and> lh_n s \<le> int LOGSIZE \<and>
     length (lh_block s) = LOGSIZE \<and> distinct (logged_blocks s) \<and>
     (\<forall>m. pinned s m \<longleftrightarrow> m \<in> set (logged_blocks s)) \<and>
     disksize s \<le> 4294967296 \<and> lh_n s < log_size s \<and> int (log_start s) + log_size s \<le> int (disksize s)"

lemma logged_nth:
  assumes "log_inv s"
  shows "logged_blocks s = map (\<lambda>i. lh_block s ! i) [0..<nat (lh_n s)]"
proof -
  have "nat (lh_n s) \<le> length (lh_block s)" using assms by (auto simp: log_inv_def)
  then show ?thesis by (auto simp: logged_blocks_def intro: nth_equalityI)
qed

lemma start_in_log: "log_inv s \<Longrightarrow> in_log s (log_start s)"
  by (auto simp: in_log_def log_inv_def)

lemma pinned_lt:
  assumes "cache_inv s" and "pinned s m" shows "m < disksize s"
  using assms cache_inv_buf [OF assms(1)] by (auto simp: pinned_def cached_def buf_ok_def)

lemma unpinned_content:
  assumes "cache_inv s" and "no_held s" and "\<not> pinned s m"
  shows "bcontent s m = memdisk s m"
proof (cases "\<exists>i. cached s i m \<and> b_valid (bufs s ! i)")
  case True
  then obtain i where i: "cached s i m" "b_valid (bufs s ! i)" by blast
  then have "i < NBUF" "b_blockno (bufs s ! i) = m" by (auto simp: cached_def)
  moreover have "\<not> b_dirty (bufs s ! i)" "\<not> slocked (b_lock (bufs s ! i))"
    using i(1) assms(2,3) by (auto simp: pinned_def no_held_def holds_buf_def)
  ultimately have "b_data (bufs s ! i) = memdisk s m"
    using cache_inv_buf [OF assms(1), of i] i(2) by (simp add: buf_ok_def)
  then show ?thesis using bcontent_cached [OF assms(1) i] by simp
next
  case False
  then show ?thesis by (intro bcontent_uncached) blast
qed

text \<open>What is said of the cache does not look at the log's own fields.\<close>

lemma cache_of_log [simp]:
  "cached (s\<lparr>lh_n := n\<rparr>) = cached s" "cached (s\<lparr>lh_block := b\<rparr>) = cached s"
  "cached (s\<lparr>outstanding := n\<rparr>) = cached s" "cached (s\<lparr>committing := c\<rparr>) = cached s"
  "cached (s\<lparr>log_start := l, log_size := m, log_dev := d\<rparr>) = cached s"
  by (simp_all add: cached_def fun_eq_iff)

lemma bcontent_of_log [simp]:
  "bcontent (s\<lparr>lh_n := n\<rparr>) = bcontent s" "bcontent (s\<lparr>lh_block := b\<rparr>) = bcontent s"
  "bcontent (s\<lparr>outstanding := n\<rparr>) = bcontent s" "bcontent (s\<lparr>committing := c\<rparr>) = bcontent s"
  "bcontent (s\<lparr>log_start := l, log_size := m, log_dev := d\<rparr>) = bcontent s"
  by (simp_all add: bcontent_def fun_eq_iff split: option.split)

lemma held_of_log [simp]:
  "holds_buf (s\<lparr>lh_n := n\<rparr>) = holds_buf s" "holds_buf (s\<lparr>lh_block := b\<rparr>) = holds_buf s"
  "holds_buf (s\<lparr>outstanding := n\<rparr>) = holds_buf s" "holds_buf (s\<lparr>committing := c\<rparr>) = holds_buf s"
  "holds_buf (s\<lparr>log_start := l, log_size := m, log_dev := d\<rparr>) = holds_buf s"
  by (simp_all add: holds_buf_def fun_eq_iff)

lemma inv_of_log [simp]:
  "cache_inv (s\<lparr>lh_n := n\<rparr>) = cache_inv s" "cache_inv (s\<lparr>lh_block := b\<rparr>) = cache_inv s"
  "cache_inv (s\<lparr>outstanding := n\<rparr>) = cache_inv s" "cache_inv (s\<lparr>committing := c\<rparr>) = cache_inv s"
  "cache_inv (s\<lparr>log_start := l, log_size := m, log_dev := d\<rparr>) = cache_inv s"
  by (simp_all add: cache_inv_def)

lemma no_held_of_log [simp]:
  "no_held (s\<lparr>lh_n := n\<rparr>) = no_held s" "no_held (s\<lparr>lh_block := b\<rparr>) = no_held s"
  "no_held (s\<lparr>outstanding := n\<rparr>) = no_held s" "no_held (s\<lparr>committing := c\<rparr>) = no_held s"
  "no_held (s\<lparr>log_start := l, log_size := m, log_dev := d\<rparr>) = no_held s"
  by (simp_all add: no_held_def)

lemma idle_of_log [simp]:
  "idle (s\<lparr>lh_n := n\<rparr>) = idle s" "idle (s\<lparr>lh_block := b\<rparr>) = idle s"
  "idle (s\<lparr>outstanding := n\<rparr>) = idle s" "idle (s\<lparr>committing := c\<rparr>) = idle s"
  "idle (s\<lparr>log_start := l, log_size := m, log_dev := d\<rparr>) = idle s"
  by (simp_all add: idle_def)

lemma pinned_of_log [simp]:
  "pinned (s\<lparr>lh_n := n\<rparr>) = pinned s" "pinned (s\<lparr>lh_block := b\<rparr>) = pinned s"
  "pinned (s\<lparr>outstanding := n\<rparr>) = pinned s" "pinned (s\<lparr>committing := c\<rparr>) = pinned s"
  "pinned (s\<lparr>log_start := l, log_size := m, log_dev := d\<rparr>) = pinned s"
  by (simp_all add: pinned_def fun_eq_iff)

section \<open>Commit\<close>

text \<open>The disk writes of a commit, in order.\<close>

definition log_copies :: "'a lstate_scheme \<Rightarrow> (nat \<times> byte list) list" where
  "log_copies s = map (\<lambda>i. (log_start s + i + 1, bcontent s (lh_block s ! i))) [0..<nat (lh_n s)]"

definition home_copies :: "'a lstate_scheme \<Rightarrow> (nat \<times> byte list) list" where
  "home_copies s = map (\<lambda>i. (lh_block s ! i, bcontent s (lh_block s ! i))) [0..<nat (lh_n s)]"

definition commit_head :: "'a lstate_scheme \<Rightarrow> byte list" where
  "commit_head s = head_data (lh_n s) (lh_block s) (bcontent s (log_start s))"

definition commit_writes :: "'a lstate_scheme \<Rightarrow> (nat \<times> byte list) list" where
  "commit_writes s = log_copies s @ [(log_start s, commit_head s)] @ home_copies s @
     [(log_start s, head_data 0 (lh_block s) (commit_head s))]"

text \<open>The state between the steps of a commit: only the cache and the disk have changed.\<close>

definition after_writes :: "'a bstate_scheme \<Rightarrow> (nat \<times> byte list) list \<Rightarrow> 'a bstate_scheme \<Rightarrow> bool" where
  "after_writes s ws t \<longleftrightarrow> cache_inv t \<and> no_held t \<and> cache_step s t \<and> idle s \<subseteq> idle t \<and>
     (\<forall>m. pinned t m \<longleftrightarrow> pinned s m \<and> m \<notin> fst ` set ws) \<and>
     bcontent t = apply_writes ws (bcontent s) \<and> memdisk t = apply_writes ws (memdisk s) \<and>
     disk_writes t = disk_writes s @ ws"

lemma after_writes_trans:
  assumes a: "after_writes s us t" and b: "after_writes t vs u" shows "after_writes s (us @ vs) u"
proof -
  have "cache_step s u" using a b unfolding after_writes_def by (meson cache_step_trans)
  then show ?thesis using a b unfolding after_writes_def by auto
qed

lemma rewritten_after: "rewritten s x d v = after_writes s [(x, d)] v"
  by (auto simp: rewritten_def after_writes_def)

lemma copy_loop_after:
  assumes "\<exists>v. kfor is f s = Ret v \<and> cache_inv v \<and> no_held v \<and> cache_step s v \<and> idle s \<subseteq> idle v \<and>
    (\<forall>m. pinned v m \<longleftrightarrow> pinned s m \<and> m \<notin> dst ` set is) \<and>
    bcontent v = apply_writes (map (\<lambda>i. (dst i, bcontent s (src i))) is) (bcontent s) \<and>
    memdisk v = apply_writes (map (\<lambda>i. (dst i, bcontent s (src i))) is) (memdisk s) \<and>
    disk_writes v = disk_writes s @ map (\<lambda>i. (dst i, bcontent s (src i))) is"
  shows "\<exists>v. kfor is f s = Ret v \<and> after_writes s (map (\<lambda>i. (dst i, bcontent s (src i))) is) v"
  proof -
  have e: "fst ` set (map (\<lambda>i. (dst i, bcontent s (src i))) is) = dst ` set is" by (simp add: image_image)
  from assms show ?thesis unfolding after_writes_def e by - (elim exE conjE, intro exI conjI; assumption)
qed

text \<open>The blocks of the header lie outside the log.\<close>

definition log_apart :: "'a lstate_scheme \<Rightarrow> bool" where
  "log_apart s \<longleftrightarrow> (\<forall>m \<in> set (logged_blocks s). \<not> in_log s m)"

lemma logged_props:
  assumes "log_inv s" and "log_apart s" and "i < nat (lh_n s)"
  shows "lh_block s ! i \<in> set (logged_blocks s) \<and> \<not> in_log s (lh_block s ! i) \<and> pinned s (lh_block s ! i) \<and>
    lh_block s ! i < disksize s \<and> in_log s (log_start s + i + 1) \<and> log_start s + i + 1 < disksize s \<and>
    in_log s (log_start s) \<and> log_start s < disksize s"
proof -
  have m: "lh_block s ! i \<in> set (logged_blocks s)" using logged_nth [OF assms(1)] assms(3) by simp
  moreover have p: "pinned s (lh_block s ! i)" using assms(1) m by (simp add: log_inv_def)
  moreover have "lh_block s ! i < disksize s" by (rule pinned_lt [OF _ p]) (use assms(1) in \<open>simp add: log_inv_def\<close>)
  moreover have "int i + 1 < log_size s" "int (log_start s) + log_size s \<le> int (disksize s)"
    using assms(1,3) by (auto simp: log_inv_def)
  ultimately show ?thesis using assms(2) by (auto simp: log_apart_def in_log_def)
qed

lemma images_apart:
  "(\<And>i. i \<in> A \<Longrightarrow> \<not> P (f i)) \<Longrightarrow> (\<And>i. i \<in> A \<Longrightarrow> P (g i)) \<Longrightarrow> f ` A \<inter> g ` A = {}"
  by (metis (no_types, lifting) disjoint_iff imageE)

lemma write_log_ok:
  assumes inv: "log_inv s" and ap: "log_apart s" and nh: "no_held s" and av: "idle s \<noteq> {}"
  shows "\<exists>v. write_log s = Ret v \<and> after_writes s (log_copies s) v"
proof -
  let ?is = "[0..<nat (lh_n s)]" and ?dst = "\<lambda>i. log_start s + i + 1" and ?src = "\<lambda>i. lh_block s ! i"
  have ci: "cache_inv s" using inv by (simp add: log_inv_def)
  have apart: "?src ` set ?is \<inter> ?dst ` set ?is = {}"
    by (rule images_apart [where P = "in_log s"]) (use logged_props [OF inv ap] in auto)
  have "\<exists>v. kfor ?is write_log_one s = Ret v \<and> cache_inv v \<and> no_held v \<and> cache_step s v \<and> idle s \<subseteq> idle v \<and>
    (\<forall>m. pinned v m \<longleftrightarrow> pinned s m \<and> m \<notin> ?dst ` set ?is) \<and>
    bcontent v = apply_writes (map (\<lambda>i. (?dst i, bcontent s (?src i))) ?is) (bcontent s) \<and>
    memdisk v = apply_writes (map (\<lambda>i. (?dst i, bcontent s (?src i))) ?is) (memdisk s) \<and>
    disk_writes v = disk_writes s @ map (\<lambda>i. (?dst i, bcontent s (?src i))) ?is"
  proof (rule copy_loop [OF ci nh _ apart])
    fix i t assume i: "i \<in> set ?is" and t: "cache_inv t" "no_held t" "cache_step s t" "idle s \<subseteq> idle t"
      and p: "\<forall>m. m \<notin> ?dst ` set ?is \<longrightarrow> pinned t m = pinned s m"
    have b: "lh_block s ! i \<notin> ?dst ` set ?is" using apart i by blast
    note g = logged_props [OF inv ap, of i]
    have pi: "pinned t (lh_block s ! i)" using p b g i by simp
    note f = log_fields [OF t(3)] cache_step_fields [OF t(3)]
    have "room_for t (?src i) (?dst i)" using pi av t(4) by (auto simp: room_for_def)
    moreover have "log_dev t = 1" "?dst i = log_start t + i + 1" "?src i = lh_block t ! i"
      "?src i < disksize t" "?dst i < disksize t" using f g i inv by (simp_all add: log_inv_def)
    moreover have "?src i \<noteq> ?dst i" using g i by auto
    ultimately show "\<exists>v. write_log_one i t = Ret v \<and> copied t (?src i) (?dst i) v"
      using write_log_one_ok [OF t(1,2)] by blast
  qed (simp add: distinct_map inj_on_def)
  from copy_loop_after [OF this] show ?thesis by (simp add: write_log_def log_copies_def)
qed

text \<open>Installing: \<open>h\<close> lists the home blocks of the header.\<close>

definition installs :: "'a lstate_scheme \<Rightarrow> (nat \<times> byte list) list" where
  "installs s = map (\<lambda>i. (lh_block s ! i, bcontent s (log_start s + i + 1))) [0..<nat (lh_n s)]"

text \<open>The header block and the log blocks it counts.\<close>

definition in_use :: "'a lstate_scheme \<Rightarrow> nat \<Rightarrow> bool" where
  "in_use s m \<longleftrightarrow> log_start s \<le> m \<and> m \<le> log_start s + nat (lh_n s)"

definition installable :: "'a lstate_scheme \<Rightarrow> bool" where
  "installable s \<longleftrightarrow> lh_n s \<le> int LOGSIZE \<and> log_dev s = 1 \<and> length (lh_block s) = LOGSIZE \<and>
     log_start s + nat (lh_n s) < disksize s \<and> distinct (logged_blocks s) \<and>
     (\<forall>m \<in> set (logged_blocks s). m < disksize s \<and> \<not> in_use s m)"

lemma in_use_log: "log_inv s \<Longrightarrow> in_use s m \<Longrightarrow> in_log s m"
  by (auto simp: in_use_def in_log_def log_inv_def)

lemma in_use_same: "log_start t = log_start s \<Longrightarrow> lh_n t = lh_n s \<Longrightarrow> in_use t = in_use s"
  by (simp add: in_use_def fun_eq_iff)

lemma install_trans_ok:
  assumes ins: "installable s" and ci: "cache_inv s" and nh: "no_held s"
    and av: "2 \<le> card (idle s) \<or> idle s \<noteq> {} \<and> (\<forall>m \<in> set (logged_blocks s). pinned s m)"
  shows "\<exists>v. install_trans s = Ret v \<and> after_writes s (installs s) v"
proof -
  let ?is = "[0..<nat (lh_n s)]" and ?src = "\<lambda>i. log_start s + i + 1" and ?dst = "\<lambda>i. lh_block s ! i"
  have n: "nat (lh_n s) \<le> LOGSIZE" "length (lh_block s) = LOGSIZE" using ins by (auto simp: installable_def)
  have lb: "logged_blocks s = map ?dst ?is"
    using n by (auto simp: logged_blocks_def intro: nth_equalityI)
  have g: "\<not> in_use s (?dst i) \<and> in_use s (?src i) \<and> ?src i < disksize s \<and> ?dst i < disksize s \<and>
     ?dst i \<in> set (logged_blocks s)" if "i \<in> set ?is" for i
    using ins n that by (auto simp: installable_def lb in_use_def)
  have apart: "?src ` set ?is \<inter> ?dst ` set ?is = {}"
    using images_apart [where P = "in_use s" and f = ?dst and g = ?src] g by blast
  have dist: "distinct (map ?dst ?is)" using ins lb by (simp add: installable_def)
  have "\<exists>v. kfor ?is install_one s = Ret v \<and> cache_inv v \<and> no_held v \<and> cache_step s v \<and> idle s \<subseteq> idle v \<and>
    (\<forall>m. pinned v m \<longleftrightarrow> pinned s m \<and> m \<notin> ?dst ` set ?is) \<and>
    bcontent v = apply_writes (map (\<lambda>i. (?dst i, bcontent s (?src i))) ?is) (bcontent s) \<and>
    memdisk v = apply_writes (map (\<lambda>i. (?dst i, bcontent s (?src i))) ?is) (memdisk s) \<and>
    disk_writes v = disk_writes s @ map (\<lambda>i. (?dst i, bcontent s (?src i))) ?is"
  proof (rule copy_loop [OF ci nh _ apart dist])
    fix i t assume i: "i \<in> set ?is" and t: "cache_inv t" "no_held t" "cache_step s t" "idle s \<subseteq> idle t"
      and p: "pinned t (?dst i) = pinned s (?dst i)"
    note f = log_fields [OF t(3)] cache_step_fields [OF t(3)]
    have "2 \<le> card (idle t)" if "2 \<le> card (idle s)"
      using card_mono [OF finite_idle t(4)] that by simp
    then have "room_for t (?src i) (?dst i)" using av g [OF i] p t(4) by (auto simp: room_for_def)
    moreover have "log_dev t = 1" "?src i = log_start t + i + 1" "?dst i = lh_block t ! i"
      "?src i < disksize t" "?dst i < disksize t" using f g [OF i] ins by (simp_all add: installable_def)
    moreover have "?src i \<noteq> ?dst i" using g [OF i] by auto
    ultimately show "\<exists>v. install_one i t = Ret v \<and> copied t (?src i) (?dst i) v"
      using install_one_ok [OF t(1,2)] by blast
  qed
  from copy_loop_after [OF this] show ?thesis by (simp add: install_trans_def installs_def)
qed

lemma apply_map_other: "m \<notin> f ` set is \<Longrightarrow> apply_writes (map (\<lambda>i. (f i, g i)) is) c m = c m"
  by (rule apply_writes_other) (auto simp: image_image)

lemma apply_map_at:
  "distinct (map f is) \<Longrightarrow> i \<in> set is \<Longrightarrow> apply_writes (map (\<lambda>i. (f i, g i)) is) c (f i) = g i"
proof (induction "is" arbitrary: c)
  case (Cons j js)
  show ?case
  proof (cases "i = j")
    case True
    have "f j \<notin> f ` set js" using Cons.prems(1) by auto
    then show ?thesis using True apply_map_other [of "f j" f js g] by simp
  next
    case False
    then show ?thesis using Cons by auto
  qed
qed simp

lemma after_fields:
  assumes "after_writes s ws t"
  shows "log_start t = log_start s \<and> lh_n t = lh_n s \<and> lh_block t = lh_block s \<and> log_dev t = log_dev s \<and>
    disksize t = disksize s \<and> logged_blocks t = logged_blocks s \<and> in_log t = in_log s \<and>
    log_size t = log_size s \<and> outstanding t = outstanding s \<and> committing t = committing s"
  using log_fields [of s t] cache_step_fields [of s t] assms
  by (simp add: after_writes_def logged_blocks_def in_log_def fun_eq_iff)

lemma commit_ok:
  assumes inv: "log_inv s" and ap: "log_apart s" and nh: "no_held s" and av: "idle s \<noteq> {}" and n: "0 < lh_n s"
  shows "\<exists>t v. commit s = Ret v \<and> after_writes s (log_copies s @ [(log_start s, commit_head s)] @ home_copies s) t \<and>
    after_writes (t\<lparr>lh_n := 0\<rparr>) [(log_start s, head_data 0 (lh_block s) (commit_head s))] v"
proof -
  let ?is = "[0..<nat (lh_n s)]"
  have i0: "0 < nat (lh_n s)" using n by simp
  note g0 = logged_props [OF inv ap i0]
  have ci: "0 \<le> lh_n s" "lh_n s \<le> 30" "log_dev s = 1" "log_start s < disksize s" "disksize s \<le> 4294967296"
    using inv g0 by (auto simp: log_inv_def LOGSIZE_def)
  have small: "\<forall>i < nat (lh_n s). lh_block s ! i < 4294967296"
    using logged_props [OF inv ap] ci(5) by (meson less_le_trans)
  obtain a where a: "write_log s = Ret a" "after_writes s (log_copies s) a"
    using write_log_ok [OF inv ap nh av] by blast
  note fa = after_fields [OF a(2)]
  have aa: "cache_inv a" "no_held a" "idle a \<noteq> {}" using a(2) av by (auto simp: after_writes_def)
  have ca: "bcontent a (log_start s) = bcontent s (log_start s)"
    using a(2) by (simp add: after_writes_def log_copies_def apply_map_other image_iff)
  obtain b where b: "write_head a = Ret b" "after_writes a [(log_start s, commit_head s)] b"
    using write_head_ok [OF aa(1,2) _ _ aa(3)] fa ci small ca unfolding rewritten_after
    by (auto simp: commit_head_def)
  note sb = after_writes_trans [OF a(2) b(2)] and fb = after_fields [OF b(2)]
  have bb: "cache_inv b" "no_held b" "idle b \<noteq> {}" using b(2) aa by (auto simp: after_writes_def)
  have pin: "pinned b m" if "m \<in> set (logged_blocks s)" for m
  proof -
    have "\<not> in_log s m" "pinned s m" using that ap inv by (auto simp: log_apart_def log_inv_def)
    moreover have "m \<noteq> log_start s" using \<open>\<not> in_log s m\<close> start_in_log [OF inv] by auto
    moreover have "m \<notin> fst ` set (log_copies s)"
      using \<open>\<not> in_log s m\<close> inv by (auto simp: log_copies_def in_log_def log_inv_def)
    ultimately show ?thesis using sb by (simp add: after_writes_def)
  qed
  have ins: "installable b"
    using inv ap fa fb pinned_lt [of s] in_use_log [OF inv] in_use_same [of b s]
    by (auto simp: installable_def log_inv_def log_apart_def)
  obtain c where c: "install_trans b = Ret c" "after_writes b (installs b) c"
    using install_trans_ok [OF ins bb(1,2)] bb(3) pin fa fb by auto
  have "installs b = home_copies s"
  proof -
    have "bcontent b (log_start s + i + 1) = bcontent s (lh_block s ! i)" if "i \<in> set ?is" for i
    proof -
      have "bcontent b (log_start s + i + 1) = apply_writes (log_copies s) (bcontent s) (log_start s + i + 1)"
        using sb by (simp add: after_writes_def)
      also have "\<dots> = bcontent s (lh_block s ! i)"
        unfolding log_copies_def using that
        by (intro apply_map_at [where f = "\<lambda>i. log_start s + i + 1"]) (auto simp: distinct_map inj_on_def)
      finally show ?thesis .
    qed
    then show ?thesis using fa fb by (simp add: installs_def home_copies_def)
  qed
  then have sc: "after_writes s (log_copies s @ [(log_start s, commit_head s)] @ home_copies s) c"
    using after_writes_trans [OF sb] c(2) by simp
  let ?t = "c\<lparr>lh_n := 0\<rparr>"
  note fc = after_fields [OF sc]
  have cc: "cache_inv c" "no_held c" "idle c \<noteq> {}" using sc av by (auto simp: after_writes_def)
  have cont: "bcontent c (log_start s) = commit_head s"
  proof -
    have "log_start s \<notin> (\<lambda>i. lh_block s ! i) ` set ?is"
      using logged_props [OF inv ap] by (force simp: in_log_def)
    then show ?thesis using sc by (simp add: after_writes_def home_copies_def apply_map_other)
  qed
  obtain v where v: "write_head ?t = Ret v"
      "after_writes ?t [(log_start s, head_data 0 (lh_block s) (commit_head s))] v"
    using write_head_ok [of ?t] cc fc ci cont unfolding rewritten_after by auto
  have "commit s = Ret v" using n a(1) b(1) c(1) v(1) by (simp add: commit_def)
  with sc v(2) show ?thesis by blast
qed

section \<open>Recovery\<close>

lemma read_block:
  assumes inv: "cache_inv s" and nh: "no_held s" and n: "n < disksize s" and av: "idle s \<noteq> {}"
  shows "\<exists>a t v. bread 1 n s = Ret (a, t) \<and> buf_data a t = bcontent s n \<and> brelse a t = Ret v \<and>
    cache_step s t \<and> after_writes s [] v"
proof -
  obtain a t where rd: "bread 1 n s = Ret (a, t)"
    using bread_returns [OF inv n] nh av by (auto simp: no_held_def)
  note ok = bread_ok [OF inv rd] and tr = bread_track [OF inv rd]
  have t: "cache_inv t" "cache_step s t" "bcontent t = bcontent s" "saved t a" using ok by simp_all
  have h: "\<forall>j m. holds_buf t j m \<longleftrightarrow> j = a \<and> m = n" using ok nh by (simp add: no_held_def)
  have ha: "holds_buf t a n" using h by simp
  obtain v where br: "brelse a t = Ret v" and v: "cache_inv v" "cache_step t v" "bcontent v = bcontent t"
      "memdisk v = memdisk t" "disk_writes v = disk_writes t"
      "\<forall>j. b_dirty (bufs v ! j) = b_dirty (bufs t ! j) \<and> cached v j = cached t j \<and>
         b_data (bufs v ! j) = b_data (bufs t ! j)"
      "\<forall>j m. holds_buf v j m \<longleftrightarrow> holds_buf t j m \<and> j \<noteq> a"
    using brelse_ok [OF t(1) ha t(4)] by - (elim exE conjE, rule that, assumption+)
  have nv: "no_held v" unfolding no_held_def using v(7) h by simp
  have "pinned v = pinned t" using v(6) by (simp add: pinned_def fun_eq_iff)
  then have pin: "pinned v = pinned s" using tr by simp
  have "idle s \<subseteq> idle v"
    unfolding idle_eq [OF inv] idle_eq [OF v(1)] using nv v(6) tr by (auto simp: no_held_def)
  moreover have "cache_step s v" using t(2) v(2) by (rule cache_step_trans)
  moreover have "memdisk v = memdisk s" "disk_writes v = disk_writes s" using v tr by simp_all
  ultimately have "after_writes s [] v" using v(1,3) t(3) nv pin by (simp add: after_writes_def)
  moreover have "buf_data a t = bcontent s n" using buf_data_holds [OF t(1) ha] t(3) by simp
  ultimately show ?thesis using rd br t(2) by blast
qed

lemma brelse_of_log:
  assumes "brelse a t = Ret v"
  shows "brelse a (t\<lparr>lh_n := n, lh_block := b\<rparr>) = Ret (v\<lparr>lh_n := n, lh_block := b\<rparr>)"
  using assms by (auto simp: brelse_def Let_def update_buf_def split: if_splits)

definition head_blocks :: "byte list \<Rightarrow> nat list" where
  "head_blocks h = map (\<lambda>i. word_at h (1 + i)) [0..<nat (head_n h)]"

text \<open>\<open>recoverable d l n\<close>: a disk of \<open>n\<close> blocks with a well-formed log at block \<open>l\<close>.\<close>

definition recoverable :: "(nat \<Rightarrow> byte list) \<Rightarrow> nat \<Rightarrow> nat \<Rightarrow> bool" where
  "recoverable d l n \<longleftrightarrow> 1 < n \<and> l + nat (head_n (d l)) < n \<and> head_n (d l) \<le> int LOGSIZE \<and>
     distinct (head_blocks (d l)) \<and>
     (\<forall>m \<in> set (head_blocks (d l)). m < n \<and> \<not> (l \<le> m \<and> m \<le> l + nat (head_n (d l))))"

text \<open>The disk after recovery, outside the log.\<close>

definition replay :: "(nat \<Rightarrow> byte list) \<Rightarrow> nat \<Rightarrow> nat \<Rightarrow> byte list" where
  "replay d l = apply_writes (map (\<lambda>i. (head_blocks (d l) ! i, d (l + i + 1))) [0..<nat (head_n (d l))]) d"

lemma recover_ok:
  assumes inv: "cache_inv s" and nh: "no_held s" and dev: "log_dev s = 1" and av: "2 \<le> card (idle s)"
    and rec: "recoverable (bcontent s) (log_start s) (disksize s)" and len: "length (lh_block s) = LOGSIZE"
  shows "\<exists>v h. recover_from_log s = Ret v \<and> cache_inv v \<and> no_held v \<and> idle s \<subseteq> idle v \<and> lh_n v = 0 \<and>
    log_start v = log_start s \<and> disksize v = disksize s \<and> log_dev v = 1 \<and>
    (\<forall>m. pinned v m \<longrightarrow> pinned s m) \<and> head_n h = 0 \<and> length (lh_block v) = LOGSIZE \<and>
    bcontent v = (replay (bcontent s) (log_start s))(log_start s := h)"
proof -
  let ?L = "log_start s" and ?h = "bcontent s (log_start s)"
  let ?n = "head_n ?h" and ?b = "head_blocks ?h @ drop (nat (head_n ?h)) (lh_block s)"
  have idle: "idle s \<noteq> {}" using av by auto
  have L: "?L < disksize s" "?n \<le> int LOGSIZE" using rec by (auto simp: recoverable_def)
  obtain a t v1 where r: "bread 1 ?L s = Ret (a, t)" "buf_data a t = ?h" "brelse a t = Ret v1" "cache_step s t"
    and v1: "after_writes s [] v1" using read_block [OF inv nh L(1) idle] by blast
  let ?v = "v1\<lparr>lh_n := ?n, lh_block := ?b\<rparr>"
  note f1 = after_fields [OF v1]
  have "lh_block t = lh_block s" using log_fields [OF r(4)] by simp
  then have rh: "read_head s = Ret ?v"
    using r(1,2) L(2) brelse_of_log [OF r(3), where n = ?n and b = ?b] dev by (simp add: read_head_def Let_def head_blocks_def)
  have lb: "logged_blocks ?v = head_blocks ?h"
    by (simp add: logged_blocks_def head_blocks_def)
  have i1: "cache_inv ?v" "no_held ?v" "2 \<le> card (idle ?v)" "bcontent ?v = bcontent s" "idle s \<subseteq> idle v1"
    using v1 av card_mono [OF finite_idle, of "idle s" v1] by (auto simp: after_writes_def)
  have "installable ?v"
    unfolding installable_def lb
    using rec f1 dev len by (auto simp: recoverable_def in_use_def head_blocks_def nat_le_iff)
  from install_trans_ok [OF this i1(1,2)] i1(3)
  obtain v2 where v2: "install_trans ?v = Ret v2" "after_writes ?v (installs ?v) v2" by blast
  note f2 = after_fields [OF v2(2)]
  have "installs ?v = map (\<lambda>i. (head_blocks ?h ! i, bcontent s (?L + i + 1))) [0..<nat ?n]"
    unfolding installs_def i1(4) using f1 by (simp add: nth_append head_blocks_def)
  then have c2: "bcontent v2 = replay (bcontent s) ?L"
    using v2(2) i1(4) by (simp add: after_writes_def replay_def)
  let ?w = "v2\<lparr>lh_n := 0\<rparr>"
  have i2: "cache_inv ?w" "no_held ?w" "idle ?w \<noteq> {}" "idle s \<subseteq> idle v2"
    using v2(2) idle i1(5) by (auto simp: after_writes_def)
  obtain v where v: "write_head ?w = Ret v"
      "after_writes ?w [(?L, head_data 0 (lh_block v2) (bcontent v2 ?L))] v"
    using write_head_ok [of ?w] i2 f1 f2 dev L(1) unfolding rewritten_after by auto
  let ?g = "head_data 0 (lh_block v2) (bcontent v2 ?L)"
  note f3 = after_fields [OF v(2)]
  have "cache_inv v2" using v2(2) by (simp add: after_writes_def)
  from length_bcontent [OF this] have g: "head_n ?g = 0" using head_data_props [of _ 0] by simp
  have "recover_from_log s = Ret v" using rh v2(1) v(1) by (simp add: recover_from_log_def)
  moreover have "bcontent v = (replay (bcontent s) ?L)(?L := ?g)" using v(2) c2 by (simp add: after_writes_def)
  moreover have "\<forall>m. pinned v m \<longrightarrow> pinned s m" "cache_inv v" "no_held v" "idle s \<subseteq> idle v"
    using v(2) v2(2) v1 by (auto simp: after_writes_def)
  moreover have "length (lh_block v) = LOGSIZE" using f2 f3 L(2) len by (auto simp: head_blocks_def)
  ultimately show ?thesis using g f1 f2 f3 dev by (intro exI [of _ v] exI [of _ ?g]) simp
qed

text \<open>The kernel's static data after power on, over the disk \<open>d\<close> of \<open>n\<close> blocks.\<close>

definition power_on :: "(nat \<Rightarrow> byte list) \<Rightarrow> nat \<Rightarrow> lstate" where
  "power_on d n = \<lparr>bufs = replicate NBUF empty_buf, lru = [], memdisk = d, disksize = n, disk_writes = [],
     my_pid = 1, log_start = 0, log_size = 0, outstanding = 0, committing = False, log_dev = 0, lh_n = 0,
     lh_block = replicate LOGSIZE 0\<rparr>"

lemma initlog_ok:
  assumes len: "\<forall>m. length (d m) = BSIZE" and l: "sb_logstart (dec_superblock (d 1)) = l"
    and rec: "recoverable d l n"
  shows "\<exists>v h. initlog 1 (binit (power_on d n)) = Ret v \<and> cache_inv v \<and> no_held v \<and> idle v = {..<NBUF} \<and>
    lh_n v = 0 \<and> log_start v = l \<and> disksize v = n \<and> (\<forall>m. \<not> pinned v m) \<and> log_dev v = 1 \<and>
    length (lh_block v) = LOGSIZE \<and> head_n h = 0 \<and> bcontent v = (replay d l)(l := h)"
proof -
  let ?s = "binit (power_on d n)"
  have "bufs (power_on d n) = replicate NBUF empty_buf" "\<forall>m. length (memdisk (power_on d n) m) = BSIZE"
    using len by (simp_all add: power_on_def)
  from cache_inv_binit [OF this] obtain q where s: "cache_inv ?s" "bcontent ?s = d" "no_held ?s"
    "\<forall>m. \<not> pinned ?s m" "idle ?s = {..<NBUF}" "?s = power_on d n\<lparr>lru := q\<rparr>"
    by (auto simp: no_held_def power_on_def)
  have f: "disksize ?s = n" "length (lh_block ?s) = LOGSIZE" unfolding s(6) by (simp_all add: power_on_def)
  have "idle ?s \<noteq> {}" "1 < disksize ?s" using s(5) f rec by (auto simp: NBUF_def recoverable_def lessThan_empty_iff)
  then obtain a t v1 where r: "bread 1 1 ?s = Ret (a, t)" "buf_data a t = d 1" "brelse a t = Ret v1"
    and v1: "after_writes ?s [] v1" using read_block [OF s(1,3), of 1] s(2) by auto
  let ?sb = "dec_superblock (d 1)"
  let ?v = "v1\<lparr>log_start := sb_logstart ?sb, log_size := int (sb_nlog ?sb), log_dev := 1\<rparr>"
  note f1 = after_fields [OF v1]
  have "initlog 1 ?s = recover_from_log ?v"
    using r by (simp add: initlog_def readsb_def LOGSIZE_def BSIZE_def)
  moreover have "cache_inv ?v" "no_held ?v" "idle ?s \<subseteq> idle v1" "bcontent v1 = d" "\<forall>m. \<not> pinned v1 m"
    using v1 s by (auto simp: after_writes_def)
  moreover have "idle v \<subseteq> {..<NBUF}" for v :: lstate by (auto simp: idle_def)
  moreover have "2 \<le> card (idle ?v)"
    using card_mono [OF finite_idle \<open>idle ?s \<subseteq> idle v1\<close>] s(5) by (simp add: NBUF_def)
  ultimately show ?thesis
    using recover_ok [of ?v] rec l f f1 s(5) by fastforce
qed

text \<open>The disk when the power fails after \<open>k\<close> of the writes of a commit.\<close>

definition crash_disk :: "'a lstate_scheme \<Rightarrow> nat \<Rightarrow> nat \<Rightarrow> byte list" where
  "crash_disk s k = apply_writes (take k (commit_writes s)) (memdisk s)"

lemma crash_disk_cases:
  assumes "k \<le> length (commit_writes s)"
  obtains (early) "k \<le> nat (lh_n s)" "crash_disk s k = apply_writes (take k (log_copies s)) (memdisk s)"
  | (late) j where "nat (lh_n s) < k"
      "crash_disk s k = apply_writes (log_copies s @ [(log_start s, commit_head s)] @ take j (home_copies s)) (memdisk s)"
  | (full) "nat (lh_n s) < k" "crash_disk s k = apply_writes (commit_writes s) (memdisk s)"
proof -
  let ?n = "nat (lh_n s)"
  have len: "length (log_copies s) = ?n" "length (home_copies s) = ?n"
    by (simp_all add: log_copies_def home_copies_def)
  show thesis
  proof (cases "k \<le> ?n")
    case True
    then show thesis using early len by (simp add: crash_disk_def commit_writes_def)
  next
    case False
    show thesis
    proof (cases "k = length (commit_writes s)")
      case True
      then show thesis using full False by (simp add: crash_disk_def)
    next
      case kl: False
      then have "k \<le> ?n + 1 + ?n" using assms len by (simp add: commit_writes_def)
      then have "take k (commit_writes s) = log_copies s @ [(log_start s, commit_head s)] @
          take (k - ?n - 1) (home_copies s)"
        using False len by (auto simp: commit_writes_def take_Cons' not_le)
      then show thesis using late False by (simp add: crash_disk_def)
    qed
  qed
qed

text \<open>What a crash leaves: the home blocks of the transaction, and what recovery makes of them.\<close>

lemma fst_log_copies: "log_inv s \<Longrightarrow> x \<in> set (log_copies s) \<Longrightarrow> in_log s (fst x) \<and> fst x \<noteq> log_start s"
  by (auto simp: log_copies_def in_log_def log_inv_def)

lemma fst_home_copies: "log_inv s \<Longrightarrow> x \<in> set (home_copies s) \<Longrightarrow> fst x \<in> set (logged_blocks s)"
  by (auto simp: home_copies_def logged_nth)

lemma home_copies_content:
  assumes inv: "log_inv s" and nh: "no_held s" and out: "m \<notin> set (logged_blocks s) \<Longrightarrow> e m = memdisk s m"
  shows "apply_writes (home_copies s) e m = bcontent s m"
proof (cases "m \<in> set (logged_blocks s)")
  case True
  then obtain i where i: "i \<in> set [0..<nat (lh_n s)]" "m = lh_block s ! i" using logged_nth [OF inv] by auto
  have "distinct (map (\<lambda>i. lh_block s ! i) [0..<nat (lh_n s)])"
    using inv logged_nth [OF inv] by (simp add: log_inv_def)
  from apply_map_at [OF this i(1)] show ?thesis using i(2) by (simp add: home_copies_def)
next
  case False
  then have "apply_writes (home_copies s) e m = memdisk s m"
    using out fst_home_copies [OF inv] by (subst apply_writes_other) auto
  moreover have "\<not> pinned s m" "cache_inv s" using inv False by (auto simp: log_inv_def)
  ultimately show ?thesis using unpinned_content [of s m] nh by simp
qed

lemma commit_head_props:
  assumes inv: "log_inv s"
  shows "length (commit_head s) = BSIZE \<and> head_n (commit_head s) = lh_n s \<and>
    head_blocks (commit_head s) = logged_blocks s \<and>
    head_n (head_data 0 b (commit_head s)) = 0 \<and> length (head_data 0 b (commit_head s)) = BSIZE"
proof -
  have c: "cache_inv s" "0 \<le> lh_n s" "lh_n s \<le> 30" using inv by (auto simp: log_inv_def LOGSIZE_def)
  have "lh_block s ! i < 4294967296" if "i < nat (lh_n s)" for i
  proof -
    have "pinned s (lh_block s ! i)" using inv logged_nth [OF inv] that by (auto simp: log_inv_def)
    from pinned_lt [OF c(1) this] show ?thesis using inv by (auto simp: log_inv_def)
  qed
  then have h: "length (commit_head s) = BSIZE \<and> head_n (commit_head s) = lh_n s \<and>
    (\<forall>i < nat (lh_n s). word_at (commit_head s) (1 + i) = lh_block s ! i)"
    unfolding commit_head_def using head_data_props [OF length_bcontent [OF c(1)] c(2,3)] by blast
  then have "head_blocks (commit_head s) = logged_blocks s"
    unfolding logged_nth [OF inv] head_blocks_def by simp
  then show ?thesis using h head_data_props [of "commit_head s" 0 b] by simp
qed

text \<open>A header with no blocks: recovery changes nothing outside it.\<close>

lemma replay_empty: "head_n (d l) = 0 \<Longrightarrow> replay d l = d"
  by (simp add: replay_def)

lemma crash_early:
  assumes inv: "log_inv s" and h0: "head_n (memdisk s (log_start s)) = 0"
    and d: "d = apply_writes (take k (log_copies s)) (memdisk s)"
  shows "head_n (d (log_start s)) = 0 \<and> (\<forall>m. \<not> in_log s m \<longrightarrow> d m = memdisk s m)"
proof -
  have other: "d m = memdisk s m" if "\<not> in_log s m \<or> m = log_start s" for m
    unfolding d by (rule apply_writes_other) (use that fst_log_copies [OF inv] in \<open>auto dest!: in_set_takeD\<close>)
  then show ?thesis using h0 by simp
qed

lemma crash_late:
  assumes inv: "log_inv s" and ap: "log_apart s" and nh: "no_held s"
    and d: "d = apply_writes (log_copies s @ [(log_start s, commit_head s)] @ take j (home_copies s)) (memdisk s)"
  shows "d (log_start s) = commit_head s \<and> (\<forall>m. m \<notin> set (logged_blocks s) \<and> \<not> in_log s m \<longrightarrow> d m = memdisk s m) \<and>
    (\<forall>m. \<not> in_log s m \<longrightarrow> replay d (log_start s) m = bcontent s m)"
proof -
  let ?L = "log_start s" and ?is = "[0..<nat (lh_n s)]"
  have Lin: "in_log s ?L" by (rule start_in_log [OF inv])
  have homes: "\<not> in_log s (fst x)" if "x \<in> set (home_copies s)" for x
    using fst_home_copies [OF inv that] ap by (simp add: log_apart_def)
  have inlog: "d m = ((apply_writes (log_copies s) (memdisk s))(?L := commit_head s)) m" if "in_log s m" for m
  proof -
    have "m \<notin> fst ` set (take j (home_copies s))" using that homes by (auto dest!: in_set_takeD)
    then show ?thesis unfolding d by (simp add: apply_writes_other)
  qed
  have hd: "d ?L = commit_head s" using inlog [OF Lin] by simp
  have out: "d m = memdisk s m" if "m \<notin> set (logged_blocks s)" "\<not> in_log s m" for m
  proof -
    have "m \<notin> fst ` set (take j (home_copies s))" "m \<noteq> ?L" "m \<notin> fst ` set (log_copies s)"
      using that Lin fst_home_copies [OF inv] fst_log_copies [OF inv] by (auto dest!: in_set_takeD)
    then show ?thesis unfolding d by (simp add: apply_writes_other)
  qed
  have log: "d (?L + i + 1) = bcontent s (lh_block s ! i)" if "i \<in> set ?is" for i
  proof -
    have "in_log s (?L + i + 1)" using that inv by (auto simp: in_log_def log_inv_def)
    moreover have "apply_writes (log_copies s) (memdisk s) (?L + i + 1) = bcontent s (lh_block s ! i)"
      unfolding log_copies_def using that
      by (intro apply_map_at [where f = "\<lambda>i. log_start s + i + 1"]) (auto simp: distinct_map inj_on_def)
    ultimately show ?thesis using inlog by simp
  qed
  have "replay d ?L = apply_writes (home_copies s) d"
    using log commit_head_props [OF inv, of undefined] logged_nth [OF inv] unfolding replay_def hd
    by (intro arg_cong2 [where f = apply_writes]) (simp_all add: home_copies_def)
  moreover have "apply_writes (home_copies s) d m = bcontent s m" if "\<not> in_log s m" for m
    using home_copies_content [OF inv nh] out that by blast
  ultimately show ?thesis using hd out by simp
qed

lemma crash_full:
  assumes inv: "log_inv s" and ap: "log_apart s" and nh: "no_held s"
    and d: "d = apply_writes (commit_writes s) (memdisk s)"
  shows "head_n (d (log_start s)) = 0 \<and> (\<forall>m. \<not> in_log s m \<longrightarrow> d m = bcontent s m)"
proof -
  let ?e = "apply_writes (log_copies s @ [(log_start s, commit_head s)] @ take 0 (home_copies s)) (memdisk s)"
  have d1: "d = (apply_writes (home_copies s) ?e)
      (log_start s := head_data 0 (lh_block s) (commit_head s))"
    by (simp add: d commit_writes_def)
  note late = crash_late [OF inv ap nh, of ?e 0]
  have "apply_writes (home_copies s) ?e m = bcontent s m" if "\<not> in_log s m" for m
    using home_copies_content [OF inv nh, of m ?e] late that by blast
  moreover have "log_start s \<noteq> m" if "\<not> in_log s m" for m using that start_in_log [OF inv] by auto
  ultimately show ?thesis using commit_head_props [OF inv, of "lh_block s"] by (auto simp: d1)
qed

text \<open>The crash disk is recoverable, whenever the power failed.\<close>

lemma crash_recovers:
  assumes inv: "log_inv s" and ap: "log_apart s" and nh: "no_held s"
    and h0: "head_n (memdisk s (log_start s)) = 0" and k: "k \<le> length (commit_writes s)"
    and one: "1 < disksize s"
  shows "recoverable (crash_disk s k) (log_start s) (disksize s) \<and>
    (\<forall>m. m \<notin> set (logged_blocks s) \<and> \<not> in_log s m \<longrightarrow> crash_disk s k m = memdisk s m) \<and>
    (\<forall>m. \<not> in_log s m \<longrightarrow> replay (crash_disk s k) (log_start s) m =
      (if k \<le> nat (lh_n s) then memdisk s m else bcontent s m))"
proof -
  have ci: "cache_inv s" "lh_n s \<le> int LOGSIZE" "distinct (logged_blocks s)"
      "\<forall>m. pinned s m \<longleftrightarrow> m \<in> set (logged_blocks s)"
    using inv by (simp_all add: log_inv_def)
  have lt: "log_start s + nat (lh_n s) < disksize s" using inv by (auto simp: log_inv_def)
  have out: "bcontent s m = memdisk s m" if "m \<notin> set (logged_blocks s)" for m
    using unpinned_content [OF ci(1) nh] ci(4) that by blast
  have empty: "recoverable d (log_start s) (disksize s)" if "head_n (d (log_start s)) = 0" for d
    using that one lt by (simp add: recoverable_def head_blocks_def)
  show ?thesis using k
  proof (cases rule: crash_disk_cases)
    case early
    note e = crash_early [OF inv h0 early(2)]
    then show ?thesis using early(1) empty replay_empty by simp
  next
    case (late j)
    note e = crash_late [OF inv ap nh late(2)] and h = commit_head_props [OF inv, of undefined]
    have "\<forall>m \<in> set (logged_blocks s). m < disksize s \<and>
        \<not> (log_start s \<le> m \<and> m \<le> log_start s + nat (lh_n s))"
      using ap in_use_log [OF inv] pinned_lt [OF ci(1)] ci(4) by (auto simp: log_apart_def in_use_def)
    then have "recoverable (crash_disk s k) (log_start s) (disksize s)"
      using e h lt one ci(2,3) by (simp add: recoverable_def)
    then show ?thesis using e late(1) by simp
  next
    case full
    note e = crash_full [OF inv ap nh full(2)]
    then show ?thesis using full(1) empty replay_empty out by simp
  qed
qed

lemma length_commit_data:
  assumes inv: "log_inv s"
  shows "\<forall>x \<in> set (commit_writes s). length (snd x) = BSIZE"
proof -
  have ci: "cache_inv s" using inv by (simp add: log_inv_def)
  show ?thesis
    using commit_head_props [OF inv, of "lh_block s"] length_bcontent [OF ci]
    by (auto simp: commit_writes_def log_copies_def home_copies_def)
qed

lemma length_apply_writes:
  "\<forall>x \<in> set ws. length (snd x) = n \<Longrightarrow> \<forall>m. length (d m) = n \<Longrightarrow> length (apply_writes ws d m) = n"
proof (induction ws arbitrary: d)
  case (Cons x xs)
  then show ?case by (cases x) simp
qed simp

section \<open>Recording a block\<close>

lemma log_write_form:
  assumes lw: "log_write b s = Ret t"
  shows "lh_n s < int LOGSIZE \<and> lh_n s < log_size s - 1 \<and> 1 \<le> outstanding s \<and>
    (\<exists>i. t = update_buf b (\<lambda>b. b\<lparr>b_dirty := True\<rparr>)
       (s\<lparr>lh_block := (lh_block s)[i := b_blockno (bufs s ! b)],
          lh_n := (if int i = lh_n s then lh_n s + 1 else lh_n s)\<rparr>) \<and>
     (i < nat (lh_n s) \<and> lh_block s ! i = b_blockno (bufs s ! b) \<or>
      i = nat (lh_n s) \<and> (\<forall>j < nat (lh_n s). lh_block s ! j \<noteq> b_blockno (bufs s ! b))))"
proof -
  let ?bn = "b_blockno (bufs s ! b)"
  let ?f = "find (\<lambda>i. lh_block s ! i = ?bn) [0..<nat (lh_n s)]"
  define i where "i = (case ?f of Some i \<Rightarrow> i | None \<Rightarrow> nat (lh_n s))"
  have g: "lh_n s < int LOGSIZE" "lh_n s < log_size s - 1" "1 \<le> outstanding s"
    using lw by (auto simp: log_write_def split: if_splits)
  have "i < nat (lh_n s) \<and> lh_block s ! i = ?bn \<or>
      i = nat (lh_n s) \<and> (\<forall>j < nat (lh_n s). lh_block s ! j \<noteq> ?bn)"
  proof (cases ?f)
    case None
    then have "i = nat (lh_n s)" by (simp add: i_def)
    then show ?thesis using find_None_all [THEN iffD1, OF None] by simp
  next
    case (Some k)
    then show ?thesis using find_Some_in_set [OF Some] unfolding i_def by simp
  qed
  moreover have "t = update_buf b (\<lambda>b. b\<lparr>b_dirty := True\<rparr>)
       (s\<lparr>lh_block := (lh_block s)[i := ?bn], lh_n := (if int i = lh_n s then lh_n s + 1 else lh_n s)\<rparr>)"
    using lw g unfolding log_write_def i_def [symmetric] Let_def by (auto simp: update_buf_def split: if_splits)
  ultimately show ?thesis using g by blast
qed

lemma log_write_returns:
  "lh_n s < int LOGSIZE \<Longrightarrow> lh_n s < log_size s - 1 \<Longrightarrow> 1 \<le> outstanding s \<Longrightarrow> \<exists>t. log_write b s = Ret t"
  by (simp add: log_write_def Let_def)

text \<open>What the layers above may change: the cache, the disk, and the list of logged blocks.\<close>

definition log_frame :: "'a lstate_scheme \<Rightarrow> 'a lstate_scheme \<Rightarrow> bool" where
  "log_frame s t \<longleftrightarrow> t = s\<lparr>bufs := bufs t, lru := lru t, memdisk := memdisk t, disk_writes := disk_writes t,
     lh_n := lh_n t, lh_block := lh_block t\<rparr>"

lemma log_frame_refl [simp]: "log_frame s s"
  by (simp add: log_frame_def)

lemma log_frame_trans [trans]:
  assumes "log_frame s t" and "log_frame t u" shows "log_frame s u"
proof -
  let ?t = "s\<lparr>bufs := bufs t, lru := lru t, memdisk := memdisk t, disk_writes := disk_writes t,
     lh_n := lh_n t, lh_block := lh_block t\<rparr>"
  have "u = ?t\<lparr>bufs := bufs u, lru := lru u, memdisk := memdisk u, disk_writes := disk_writes u,
     lh_n := lh_n u, lh_block := lh_block u\<rparr>"
    using assms unfolding log_frame_def by metis
  then show ?thesis by (simp add: log_frame_def)
qed

lemma log_frame_cache:
  assumes "cache_step s t" shows "log_frame s t"
proof -
  let ?t = "s\<lparr>bufs := bufs t, lru := lru t, memdisk := memdisk t, disk_writes := disk_writes t\<rparr>"
  have "t = ?t" using assms by (simp add: cache_step_def)
  moreover have "log_frame s ?t" by (simp add: log_frame_def)
  ultimately show ?thesis by metis
qed

lemma log_frame_fields:
  assumes "log_frame s t"
  shows "disksize t = disksize s \<and> my_pid t = my_pid s \<and> log_start t = log_start s \<and> log_size t = log_size s \<and>
    outstanding t = outstanding s \<and> committing t = committing s \<and> log_dev t = log_dev s \<and>
    lstate.more t = lstate.more s"
proof -
  let ?t = "s\<lparr>bufs := bufs t, lru := lru t, memdisk := memdisk t, disk_writes := disk_writes t,
     lh_n := lh_n t, lh_block := lh_block t\<rparr>"
  have "disksize ?t = disksize s \<and> my_pid ?t = my_pid s \<and> log_start ?t = log_start s \<and> log_size ?t = log_size s \<and>
    outstanding ?t = outstanding s \<and> committing ?t = committing s \<and> log_dev ?t = log_dev s \<and>
    lstate.more ?t = lstate.more s" by simp
  then show ?thesis using assms unfolding log_frame_def by metis
qed

lemma pinned_mark:
  assumes inv: "cache_inv s" and h: "holds_buf s b n"
  shows "pinned (update_buf b (\<lambda>b. b\<lparr>b_dirty := True\<rparr>) s) m \<longleftrightarrow> pinned s m \<or> m = n"
proof -
  let ?t = "update_buf b (\<lambda>b. b\<lparr>b_dirty := True\<rparr>) s"
  have b: "b < length (bufs s)" "cached s b n" using holds_buf_lt [OF inv h] h by (auto simp: holds_buf_def)
  have "cached ?t j m \<and> b_dirty (bufs ?t ! j) \<longleftrightarrow> cached s j m \<and> (j = b \<or> b_dirty (bufs s ! j))" for j
    by (auto simp: cached_def update_buf_nth b)
  moreover have "cached s b m \<longleftrightarrow> m = n" using b(2) by (auto simp: cached_def)
  ultimately show ?thesis unfolding pinned_def by auto
qed

text \<open>Recording a held block adds it to the header, once.\<close>

lemma log_write_ok:
  assumes inv: "log_inv s" and h: "holds_buf s b n" and lw: "log_write b s = Ret t"
  shows "log_inv t \<and> log_frame s t \<and> bcontent t = bcontent s \<and> holds_buf t = holds_buf s \<and> saved t b \<and>
    (\<forall>j m. holds_buf s j m \<longrightarrow> j \<noteq> b \<longrightarrow> saved t j = saved s j) \<and>
    set (logged_blocks t) = insert n (set (logged_blocks s)) \<and>
    lh_n t = (if n \<in> set (logged_blocks s) then lh_n s else lh_n s + 1)"
proof -
  have ci: "cache_inv s" "length (lh_block s) = LOGSIZE" "0 \<le> lh_n s" using inv by (simp_all add: log_inv_def)
  have bn: "b_blockno (bufs s ! b) = n" using h by (simp add: holds_buf_def cached_def)
  obtain i where g: "lh_n s < int LOGSIZE" "lh_n s < log_size s - 1" and
    t: "t = update_buf b (\<lambda>b. b\<lparr>b_dirty := True\<rparr>)
       (s\<lparr>lh_block := (lh_block s)[i := n], lh_n := (if int i = lh_n s then lh_n s + 1 else lh_n s)\<rparr>)" and
    i: "i < nat (lh_n s) \<and> lh_block s ! i = n \<or> i = nat (lh_n s) \<and> (\<forall>j < nat (lh_n s). lh_block s ! j \<noteq> n)"
    using log_write_form [OF lw] unfolding bn by blast
  let ?s = "s\<lparr>lh_block := (lh_block s)[i := n], lh_n := (if int i = lh_n s then lh_n s + 1 else lh_n s)\<rparr>"
  have h1: "holds_buf ?s b n" "cache_inv ?s" using h ci by (simp_all split del: if_split)
  note m = mark_dirty_ok [OF h1(2,1)]
  have pin: "pinned t m \<longleftrightarrow> pinned s m \<or> m = n" for m
    unfolding t using pinned_mark [OF h1(2,1)] by (simp split del: if_split)
  have lb: "logged_blocks t = logged_blocks s \<and> n \<in> set (logged_blocks s) \<and> lh_n t = lh_n s \<or>
      logged_blocks t = logged_blocks s @ [n] \<and> n \<notin> set (logged_blocks s) \<and> lh_n t = lh_n s + 1"
  proof (cases "i = nat (lh_n s)")
    case True
    then have "int i = lh_n s" "i < length (lh_block s)" using ci g by auto
    moreover from this have "nat (lh_n s + 1) = Suc i" by simp
    moreover have "n \<notin> set (take i (lh_block s))"
      using i ci g True by (auto simp: in_set_conv_nth)
    ultimately show ?thesis using True ci
      by (simp add: logged_blocks_def t update_buf_def take_Suc_conv_app_nth)
  next
    case False
    then have e: "i < nat (lh_n s)" "lh_block s ! i = n" using i by auto
    then have "(lh_block s)[i := n] = lh_block s" "int i \<noteq> lh_n s" by auto
    moreover have "n \<in> set (take (nat (lh_n s)) (lh_block s))"
      using e ci g by (auto simp: in_set_conv_nth intro!: exI [of _ i])
    ultimately show ?thesis by (simp add: logged_blocks_def t update_buf_def)
  qed
  have f: "log_frame s t" by (simp add: log_frame_def t update_buf_def)
  note ff = log_frame_fields [OF f]
  have len: "length (lh_block t) = LOGSIZE" using ci by (simp add: t update_buf_def)
  have "log_inv t"
    using m inv pin lb ff g len unfolding log_inv_def by (auto simp: t [symmetric])
  moreover have "holds_buf t = holds_buf s" "bcontent t = bcontent s" "saved t b"
    using m by (simp_all add: t [symmetric] split del: if_split)
  moreover have "\<forall>j m. holds_buf s j m \<longrightarrow> j \<noteq> b \<longrightarrow> saved t j = saved s j"
    using m by (simp add: t [symmetric] saved_def split del: if_split)
  ultimately show ?thesis using f lb by auto
qed

lemma log_inv_cache:
  assumes inv: "log_inv s" and st: "cache_step s t" and t: "cache_inv t" "pinned t = pinned s"
  shows "log_inv t"
proof -
  note f = log_fields [OF st] cache_step_fields [OF st]
  then have "logged_blocks t = logged_blocks s" by (simp add: logged_blocks_def)
  then show ?thesis using inv t f by (simp add: log_inv_def)
qed

lemma put_pinned:
  assumes "cache_inv s" and "holds_buf s i n"
  shows "pinned (set_data i d s) = pinned s"
  using holds_buf_lt [OF assms]
  by (auto simp: pinned_def cached_def set_data_def update_buf_nth fun_eq_iff)

lemma log_inv_rel:
  assumes inv: "log_inv s" and h: "holds_buf s i n" and c: "saved s i"
  shows "\<exists>s'. brelse i s = Ret s' \<and> log_inv s' \<and> log_frame s s' \<and> bcontent s' = bcontent s \<and>
        (\<forall>j m. holds_buf s' j m \<longleftrightarrow> holds_buf s j m \<and> j \<noteq> i) \<and>
        (\<forall>j m. holds_buf s j m \<longrightarrow> j \<noteq> i \<longrightarrow> saved s' j = saved s j)"
proof -
  have ci: "cache_inv s" using inv by (simp add: log_inv_def)
  obtain v where br: "brelse i s = Ret v" and v: "cache_inv v" "cache_step s v" "bcontent v = bcontent s"
      "memdisk v = memdisk s" "disk_writes v = disk_writes s"
      "\<forall>j. b_dirty (bufs v ! j) = b_dirty (bufs s ! j) \<and> cached v j = cached s j \<and>
         b_data (bufs v ! j) = b_data (bufs s ! j)"
      "\<forall>j m. holds_buf v j m \<longleftrightarrow> holds_buf s j m \<and> j \<noteq> i"
      "\<forall>j m. holds_buf s j m \<longrightarrow> j \<noteq> i \<longrightarrow> saved v j = saved s j"
    using brelse_ok [OF ci h c] by - (elim exE conjE, rule that, assumption+)
  have "pinned v = pinned s" using v(6) by (simp add: pinned_def fun_eq_iff)
  from log_inv_cache [OF inv v(2,1) this] show ?thesis using br v log_frame_cache [OF v(2)] by blast
qed

interpretation logged: block_store log_inv bcontent holds_buf saved log_frame "bread 1" buf_data
    set_data log_write brelse
proof unfold_locales
  fix s t u :: "'a lstate_scheme" and n i d s'
  have ci: "cache_inv s" if "log_inv s" using that by (simp add: log_inv_def)
  show "log_frame s s" by simp
  show "log_frame s t \<Longrightarrow> log_frame t u \<Longrightarrow> log_frame s u" by (rule log_frame_trans)
  show "log_inv s \<Longrightarrow> holds_buf s i n \<Longrightarrow> buf_data i s = bcontent s n" by (rule buf_data_holds [OF ci])
  show "log_inv s \<Longrightarrow> length (bcontent s n) = BSIZE" by (rule length_bcontent [OF ci])
  show "log_inv s \<Longrightarrow> holds_buf s i n \<Longrightarrow> saved s i \<Longrightarrow>
      \<exists>s'. brelse i s = Ret s' \<and> log_inv s' \<and> log_frame s s' \<and> bcontent s' = bcontent s \<and>
        (\<forall>j m. holds_buf s' j m \<longleftrightarrow> holds_buf s j m \<and> j \<noteq> i) \<and>
        (\<forall>j m. holds_buf s j m \<longrightarrow> j \<noteq> i \<longrightarrow> saved s' j = saved s j)"
    by (rule log_inv_rel)
  show "log_inv s' \<and> log_frame s s' \<and> bcontent s' = bcontent s \<and> holds_buf s' = holds_buf s \<and> saved s' i \<and>
      (\<forall>j m. holds_buf s j m \<longrightarrow> j \<noteq> i \<longrightarrow> saved s' j = saved s j)"
    if "log_inv s" "holds_buf s i n" "log_write i s = Ret s'"
    using log_write_ok [OF that] by simp
  show "log_inv (set_data i d s) \<and> log_frame s (set_data i d s) \<and>
      bcontent (set_data i d s) = (bcontent s)(n := d) \<and> holds_buf (set_data i d s) = holds_buf s \<and>
      (\<forall>j m. holds_buf s j m \<longrightarrow> j \<noteq> i \<longrightarrow> saved (set_data i d s) j = saved s j)"
    if a: "log_inv s" "holds_buf s i n" "length d = BSIZE"
  proof -
    note o = set_data_ok [OF ci [OF a(1)] a(2,3)]
    then have "log_inv (set_data i d s)"
      using log_inv_cache [OF a(1), of "set_data i d s"] put_pinned [OF ci [OF a(1)] a(2)] by blast
    with o log_frame_cache [of s "set_data i d s"] show ?thesis by blast
  qed
  show "log_inv s' \<and> log_frame s s' \<and> bcontent s' = bcontent s \<and>
      (\<forall>j m. holds_buf s' j m \<longleftrightarrow> j = i \<and> m = n \<or> holds_buf s j m) \<and>
      (\<forall>j m. holds_buf s j m \<longrightarrow> j \<noteq> i \<and> m \<noteq> n \<and> saved s' j = saved s j) \<and> saved s' i"
    if a: "log_inv s" "bread 1 n s = Ret (i, s')"
  proof -
    note o = bread_store_ok [OF ci [OF a(1)] a(2)] and tr = bread_track [OF ci [OF a(1)] a(2)]
    then have "log_inv s'" using log_inv_cache [OF a(1), of s'] by blast
    with o log_frame_cache [of s s'] show ?thesis by blast
  qed
qed

section \<open>Reservations\<close>

text \<open>Whatever the state, the operations of the cache change nothing but the cache and the disk.\<close>

lemma cache_step_record [simp]:
  "cache_step s (s\<lparr>lru := l\<rparr>)" "cache_step s (s\<lparr>memdisk := m, disk_writes := w\<rparr>)"
  by (simp_all add: cache_step_def)

lemma iderw_step: "iderw i s = Ret t \<Longrightarrow> cache_step s t"
  by (auto simp: iderw_def Let_def cache_step_def update_buf_def split: if_splits)

lemma lock_buf_step: "lock_buf i s = Ret (j, t) \<Longrightarrow> cache_step s t"
  by (auto simp: lock_buf_def outcome_simps)

lemma after_update: "cache_step (update_buf i f s) t \<Longrightarrow> cache_step s t"
  using cache_step_trans [OF cache_step_update] .

lemma bread_step:
  assumes "bread dev n s = Ret (i, t)" shows "cache_step s t"
proof -
  obtain u where u: "bget dev n s = Ret (i, u)" "cache_step u t"
    using assms by (auto simp: bread_def outcome_simps iderw_step split: if_splits)
  have "cache_step s u"
    using u(1) by (auto simp: bget_def split: option.splits dest!: lock_buf_step dest: after_update)
  then show ?thesis using u(2) by (rule cache_step_trans)
qed

lemma bwrite_step: "bwrite i s = Ret t \<Longrightarrow> cache_step s t"
  by (auto simp: bwrite_def split: if_splits dest!: iderw_step dest: after_update)

lemma brelse_step:
  assumes "brelse i s = Ret t" shows "cache_step s t"
proof -
  let ?u = "update_buf i (\<lambda>b. b\<lparr>b_lock := releasesleep (b_lock b), b_refcnt := u32 (b_refcnt b + 4294967295)\<rparr>) s"
  have "t = ?u \<or> t = ?u\<lparr>lru := i # remove1 i (lru s)\<rparr>"
    using assms by (auto simp: brelse_def Let_def split: if_splits)
  then show ?thesis using cache_step_trans [OF cache_step_update cache_step_record(1)] by auto
qed

lemma set_data_step [simp]: "cache_step s (set_data i d s)"
  by (simp add: set_data_def)

lemmas cache_steps = bread_step bwrite_step brelse_step

lemma write_head_step:
  assumes "write_head s = Ret t" shows "cache_step s t"
proof -
  obtain b u d w where r: "bread (log_dev s) (log_start s) s = Ret (b, u)" "bwrite b (set_data b d u) = Ret w"
      "brelse b w = Ret t"
    using assms by (auto simp: write_head_def outcome_simps)
  from cache_steps(1) [OF r(1)] set_data_step cache_steps(2) [OF r(2)] cache_steps(3) [OF r(3)]
  show ?thesis by (meson cache_step_trans)
qed

lemma install_one_step:
  assumes "install_one i s = Ret t" shows "cache_step s t"
proof -
  obtain a u b v w x where r: "bread (log_dev s) (log_start s + i + 1) s = Ret (a, u)"
      "bread (log_dev u) (lh_block u ! i) u = Ret (b, v)" "bwrite b (set_data b (buf_data a v) v) = Ret w"
      "brelse a w = Ret x" "brelse b x = Ret t"
    using assms by (auto simp: install_one_def outcome_simps)
  from cache_steps(1) [OF r(1)] cache_steps(1) [OF r(2)] set_data_step cache_steps(2) [OF r(3)]
    cache_steps(3) [OF r(4)] cache_steps(3) [OF r(5)]
  show ?thesis by (meson cache_step_trans)
qed

lemma write_log_one_step:
  assumes "write_log_one i s = Ret t" shows "cache_step s t"
proof -
  obtain a u b v w x where r: "bread (log_dev s) (log_start s + i + 1) s = Ret (a, u)"
      "bread (log_dev u) (lh_block u ! i) u = Ret (b, v)" "bwrite a (set_data a (buf_data b v) v) = Ret w"
      "brelse b w = Ret x" "brelse a x = Ret t"
    using assms by (auto simp: write_log_one_def outcome_simps)
  from cache_steps(1) [OF r(1)] cache_steps(1) [OF r(2)] set_data_step cache_steps(2) [OF r(3)]
    cache_steps(3) [OF r(4)] cache_steps(3) [OF r(5)]
  show ?thesis by (meson cache_step_trans)
qed

lemma kfor_step:
  assumes "kfor xs f s = Ret t" and "\<And>x s t. f x s = Ret t \<Longrightarrow> cache_step s t"
  shows "cache_step s t"
  using assms(1)
proof (induction xs arbitrary: s)
  case (Cons x xs)
  then obtain u where "f x s = Ret u" "kfor xs f u = Ret t" by (auto simp: outcome_simps)
  then show ?case using Cons.IH assms(2) by (meson cache_step_trans)
qed simp

lemma commit_fields:
  assumes "commit s = Ret t"
  shows "lh_n t = (if 0 < lh_n s then 0 else lh_n s) \<and> outstanding t = outstanding s \<and>
    log_size t = log_size s \<and> committing t = committing s"
proof (cases "0 < lh_n s")
  case True
  then obtain a b c where r: "write_log s = Ret a" "write_head a = Ret b" "install_trans b = Ret c"
      "write_head (c\<lparr>lh_n := 0\<rparr>) = Ret t"
    using assms by (auto simp: commit_def outcome_simps)
  have "cache_step s a" "cache_step a b" "cache_step b c" "cache_step (c\<lparr>lh_n := 0\<rparr>) t"
    using kfor_step [OF r(1) [unfolded write_log_def]] write_log_one_step write_head_step [OF r(2)]
      kfor_step [OF r(3) [unfolded install_trans_def]] install_one_step write_head_step [OF r(4)] by blast+
  then have "cache_step s c" "cache_step (c\<lparr>lh_n := 0\<rparr>) t" by (meson cache_step_trans)+
  then show ?thesis using True log_fields [of s c] log_fields [of "c\<lparr>lh_n := 0\<rparr>" t] by simp
next
  case False
  then show ?thesis using assms by (auto simp: commit_def)
qed

text \<open>
  The log system calls of concurrent operations, each with the number of blocks it has
  recorded so far; an operation may record \<open>MAXOPBLOCKS\<close>. The cache may change in
  between.
\<close>

inductive log_run :: "'a lstate_scheme \<Rightarrow> nat list \<Rightarrow> bool" where
  boot: "lh_n s = 0 \<Longrightarrow> outstanding s = 0 \<Longrightarrow> \<not> committing s \<Longrightarrow> log_run s []"
| start: "log_run s us \<Longrightarrow> begin_op s = Ret t \<Longrightarrow> log_run t (us @ [0])"
| recording: "log_run s us \<Longrightarrow> i < length us \<Longrightarrow> int (us ! i) < MAXOPBLOCKS \<Longrightarrow> log_write b s = Ret t \<Longrightarrow>
    log_run t (us[i := us ! i + 1])"
| finish: "log_run s us \<Longrightarrow> i < length us \<Longrightarrow> end_op s = Ret t \<Longrightarrow> log_run t (take i us @ drop (Suc i) us)"
| cache: "log_run s us \<Longrightarrow> cache_step s t \<Longrightarrow> log_run t us"

text \<open>The blocks the active operations may still record.\<close>

definition reserved :: "nat list \<Rightarrow> int" where
  "reserved us = (\<Sum>u\<leftarrow>us. MAXOPBLOCKS - int u)"

lemma reserved_simps:
  "reserved (us @ vs) = reserved us + reserved vs" "reserved [] = 0" "reserved [u] = MAXOPBLOCKS - int u"
  by (simp_all add: reserved_def)

lemma reserved_split:
  "i < length us \<Longrightarrow> reserved us = reserved (take i us @ drop (Suc i) us) + (MAXOPBLOCKS - int (us ! i))"
  using id_take_nth_drop [of i us] reserved_simps
  by (metis (no_types, lifting) add.commute add.left_commute append_Cons append_Nil)

lemma reserved_update:
  assumes "i < length us" shows "reserved (us[i := us ! i + 1]) = reserved us - 1"
  using reserved_split [OF assms] assms
  by (simp add: upd_conv_take_nth_drop reserved_simps) (simp add: reserved_def)

lemma reserved_bounds:
  "\<forall>u \<in> set us. int u \<le> MAXOPBLOCKS \<Longrightarrow> 0 \<le> reserved us \<and> reserved us \<le> int (length us) * MAXOPBLOCKS"
  by (induction us) (auto simp: reserved_def algebra_simps)

definition log_room :: "'a lstate_scheme \<Rightarrow> nat list \<Rightarrow> bool" where
  "log_room s us \<longleftrightarrow> outstanding s = int (length us) \<and> (\<forall>u \<in> set us. int u \<le> MAXOPBLOCKS) \<and>
     0 \<le> lh_n s \<and> lh_n s + reserved us \<le> int LOGSIZE \<and> \<not> committing s"

lemma log_run_room: "log_run s us \<Longrightarrow> log_room s us"
proof (induction rule: log_run.induct)
  case (boot s)
  then show ?case by (simp add: log_room_def reserved_def LOGSIZE_def)
next
  case (start s us t)
  then have "reserved us \<le> int (length us) * MAXOPBLOCKS" using reserved_bounds by (simp add: log_room_def)
  then show ?case using start
    by (auto simp: begin_op_def log_room_def reserved_simps algebra_simps MAXOPBLOCKS_def split: if_splits)
next
  case (recording s us i b t)
  from log_write_form [OF recording.hyps(4)]
  have "lh_n t \<le> lh_n s + 1 \<and> lh_n s \<le> lh_n t \<and> outstanding t = outstanding s \<and> committing t = committing s"
    by (auto simp: update_buf_def)
  then show ?case using recording reserved_update [OF recording.hyps(2)]
    by (auto simp: log_room_def dest!: set_update_subset_insert [THEN subsetD])
next
  case (finish s us i t)
  let ?vs = "take i us @ drop (Suc i) us"
  have c: "\<not> committing s" "0 \<le> lh_n s" "outstanding s = int (length us)" using finish by (simp_all add: log_room_def)
  let ?s = "s\<lparr>outstanding := outstanding s - 1\<rparr>"
  have "lh_n t = (if outstanding s = 1 then 0 else lh_n s) \<and> outstanding t = outstanding s - 1 \<and> \<not> committing t"
    using finish.hyps(3) c commit_fields [of "?s\<lparr>committing := True\<rparr>"]
    by (auto simp: end_op_def Let_def outcome_simps split: if_splits)
  moreover have "reserved ?vs \<le> reserved us" "\<forall>u \<in> set ?vs. int u \<le> MAXOPBLOCKS"
    using reserved_split [OF finish.hyps(2)] finish by (auto simp: log_room_def dest: in_set_takeD in_set_dropD)
  ultimately show ?case using finish c by (auto simp: log_room_def)
next
  case (cache s us t)
  then show ?case using log_fields [of s t] by (simp add: log_room_def)
qed

section \<open>Properties\<close>

text \<open>C1: a commit is atomic: when the power fails after any number \<open>k\<close> of its disk writes, the
  kernel boots, recovery returns, and outside the log area the disk reads as before the
  transaction when fewer than the log blocks and the header had been written, and as the
  kernel saw it at the commit otherwise.\<close>

theorem commit_crash_atomic:
  assumes inv: "log_inv s" and ap: "log_apart s" and nh: "no_held s" and av: "idle s \<noteq> {}" and n: "0 < lh_n s"
    and clear: "head_n (memdisk s (log_start s)) = 0"
    and sb: "sb_logstart (dec_superblock (memdisk s 1)) = log_start s" "1 \<notin> set (logged_blocks s)"
      "\<not> in_log s 1" "1 < disksize s"
  shows "\<exists>v ws. commit s = Ret v \<and> disk_writes v = disk_writes s @ ws \<and> lh_n v = 0 \<and>
    (\<forall>m. \<not> in_log s m \<longrightarrow> bcontent v m = bcontent s m) \<and>
    (\<forall>k \<le> length ws. \<exists>u.
      initlog 1 (binit (power_on (apply_writes (take k ws) (memdisk s)) (disksize s))) = Ret u \<and>
      (\<forall>m. \<not> in_log s m \<longrightarrow> bcontent u m = (if k \<le> nat (lh_n s) then memdisk s m else bcontent s m)))"
proof -
  let ?w1 = "log_copies s @ [(log_start s, commit_head s)] @ home_copies s"
  let ?w2 = "[(log_start s, head_data 0 (lh_block s) (commit_head s))]"
  obtain t v where c: "commit s = Ret v" "after_writes s ?w1 t" "after_writes (t\<lparr>lh_n := 0\<rparr>) ?w2 v"
    using commit_ok [OF inv ap nh av n] by blast
  have e: "disk_writes v = disk_writes s @ commit_writes s" "lh_n v = 0"
    using c(2,3) after_fields [OF c(3)] by (simp_all add: after_writes_def commit_writes_def)
  have ci: "cache_inv s" using inv by (simp add: log_inv_def)
  have "bcontent v m = bcontent s m" if m: "\<not> in_log s m" for m
  proof -
    have "\<forall>x \<in> set (commit_writes s). fst x = m \<longrightarrow> snd x = bcontent s m"
      using m start_in_log [OF inv] fst_log_copies [OF inv] by (auto simp: commit_writes_def home_copies_def)
    then have "apply_writes (commit_writes s) (bcontent s) m = bcontent s m" by (rule apply_writes_same)
    then show ?thesis using c(2,3) by (simp add: after_writes_def commit_writes_def)
  qed
  moreover have "\<exists>u. initlog 1 (binit (power_on (crash_disk s k) (disksize s))) = Ret u \<and>
      (\<forall>m. \<not> in_log s m \<longrightarrow> bcontent u m = (if k \<le> nat (lh_n s) then memdisk s m else bcontent s m))"
    if k: "k \<le> length (commit_writes s)" for k
  proof -
    note r = crash_recovers [OF inv ap nh clear k sb(4)]
    have one: "crash_disk s k 1 = memdisk s 1" using r sb by blast
    have "\<forall>x \<in> set (take k (commit_writes s)). length (snd x) = BSIZE"
      using length_commit_data [OF inv] by (auto dest: in_set_takeD)
    then have "\<forall>m. length (crash_disk s k m) = BSIZE"
      unfolding crash_disk_def using ci by (auto simp: cache_inv_def intro: length_apply_writes)
    from initlog_ok [OF this _ conjunct1 [OF r]] one sb
    obtain u h where u: "initlog 1 (binit (power_on (crash_disk s k) (disksize s))) = Ret u"
      "bcontent u = (replay (crash_disk s k) (log_start s))(log_start s := h)" by auto
    have "bcontent u m = (if k \<le> nat (lh_n s) then memdisk s m else bcontent s m)" if "\<not> in_log s m" for m
    proof -
      have "m \<noteq> log_start s" using that start_in_log [OF inv] by auto
      then show ?thesis using r that u(2) by simp
    qed
    with u(1) show ?thesis by blast
  qed
  ultimately show ?thesis using c(1) e unfolding crash_disk_def by blast
qed

text \<open>A state to apply it to: block 40 is dirty, with sevens, and is the one block of the log.\<close>

definition example_disk :: "nat \<Rightarrow> byte list" where
  "example_disk = (\<lambda>m. replicate BSIZE 0)(1 := set_word (replicate BSIZE 0) 4 2)"

definition example_txn :: lstate where
  "example_txn = (power_on example_disk 100)\<lparr>
     bufs := (replicate NBUF empty_buf)[0 := empty_buf\<lparr>b_valid := True, b_dirty := True, b_dev := 1,
       b_blockno := 40, b_data := replicate BSIZE 7\<rparr>],
     lru := [0..<NBUF], log_start := 2, log_size := 30, log_dev := 1, lh_n := 1,
     lh_block := 40 # replicate 29 0\<rparr>"

lemma example_cached: "cached example_txn i m \<longleftrightarrow> i = 0 \<and> m = 40"
  by (auto simp: cached_def example_txn_def empty_buf_def NBUF_def nth_list_update)

lemma length_example_disk: "length (example_disk m) = BSIZE"
  by (simp add: example_disk_def BSIZE_def)

lemma example_bufs: "i < NBUF \<Longrightarrow> bufs example_txn ! i =
    (if i = 0 then empty_buf\<lparr>b_valid := True, b_dirty := True, b_dev := 1, b_blockno := 40, b_data := replicate BSIZE 7\<rparr>
     else empty_buf)"
  by (auto simp: example_txn_def NBUF_def nth_list_update)

lemma example_inv: "log_inv example_txn \<and> log_apart example_txn \<and> no_held example_txn \<and> idle example_txn \<noteq> {}"
proof -
  have p: "pinned example_txn m \<longleftrightarrow> m = 40" for m
    using example_bufs [of 0] by (auto simp: pinned_def example_cached NBUF_def)
  have b: "buf_ok (memdisk example_txn) (disksize example_txn) (my_pid example_txn) (bufs example_txn ! i)"
    if "i < NBUF" for i
    using example_bufs [OF that]
    by (simp add: buf_ok_def empty_buf_def initsleeplock_def) (simp add: example_txn_def power_on_def)
  have l: "logged_blocks example_txn = [40]" by (simp add: logged_blocks_def example_txn_def)
  have f: "bufs example_txn = (replicate NBUF empty_buf)[0 := bufs example_txn ! 0]" "lru example_txn = [0..<NBUF]"
    "memdisk example_txn = example_disk" "disksize example_txn = 100" "log_start example_txn = 2"
    "log_size example_txn = 30" "log_dev example_txn = 1" "lh_n example_txn = 1"
    "lh_block example_txn = 40 # replicate 29 0"
    by (simp_all add: example_txn_def power_on_def NBUF_def)
  have len: "length (bufs example_txn) = NBUF" by (subst f(1)) simp
  have c: "cache_inv example_txn"
    unfolding cache_inv_def using len b f(2,3) length_example_disk by (auto simp: example_cached)
  moreover have "no_held example_txn"
    using example_bufs [of 0] by (auto simp: no_held_def holds_buf_def example_cached NBUF_def empty_buf_def initsleeplock_def)
  moreover have "1 \<in> idle example_txn" using example_bufs [of 1] by (simp add: idle_def NBUF_def empty_buf_def)
  ultimately show ?thesis
    by (auto simp: log_inv_def log_apart_def in_log_def p l f LOGSIZE_def)
qed

lemma word_at_zeros: "4 * i + 4 \<le> BSIZE \<Longrightarrow> word_at (replicate BSIZE 0) i = 0"
  by (simp add: word_at_def slice_def le_dec_zeros)

theorem commit_crash_atomic_witness:
  "\<exists>v. commit example_txn = Ret v \<and> bcontent v 40 = bcontent example_txn 40"
proof -
  have m: "memdisk example_txn = example_disk" "log_start example_txn = 2" "disksize example_txn = 100"
    "lh_n example_txn = 1" by (simp_all add: example_txn_def power_on_def)
  have "head_n (memdisk example_txn (log_start example_txn)) = 0"
    using word_at_zeros [of 0] unfolding m by (simp add: head_n_def example_disk_def s32_def BSIZE_def)
  moreover have "sb_logstart (dec_superblock (memdisk example_txn 1)) = log_start example_txn"
    unfolding m using word_at_set_word [of 4 "replicate BSIZE 0" 4 2]
    by (simp add: dec_superblock_def example_disk_def BSIZE_def)
  moreover have "1 \<notin> set (logged_blocks example_txn)" "\<not> in_log example_txn 1" "\<not> in_log example_txn 40"
    by (simp_all add: logged_blocks_def in_log_def example_txn_def)
  ultimately show ?thesis
    using commit_crash_atomic [of example_txn] example_inv m by auto
qed

text \<open>C28: how far the reservation of \<open>begin_op\<close> carries, on a disk whose log area has at least \<open>LOGSIZE\<close> blocks with its
  header, as \<open>mkfs\<close> makes it. However the operations are interleaved, an operation that has recorded fewer than
  \<open>MAXOPBLOCKS - 1\<close> blocks can record another one. The last block of the reservation can be recorded as well, except in one
  case: the log area has \<open>LOGSIZE\<close> blocks, all but the header are taken, and every other operation in progress has used its
  reservation up; then \<open>log_write\<close> panics. That this happens is \<open>tenth_block_panics\<close> below.\<close>

theorem reservation_suffices:
  assumes "log_run s us" and "i < length us" and "int LOGSIZE \<le> log_size s"
  shows "(int (us ! i) < MAXOPBLOCKS - 1 \<longrightarrow> (\<exists>t. log_write b s = Ret t)) \<and>
    (int (us ! i) = MAXOPBLOCKS - 1 \<longrightarrow>
       (if log_size s = int LOGSIZE \<and> lh_n s = int LOGSIZE - 1
        then log_write b s = Panic ''too big a transaction'' \<and> reserved (take i us @ drop (Suc i) us) = 0
        else \<exists>t. log_write b s = Ret t))"
proof -
  have r: "log_room s us" by (rule log_run_room [OF assms(1)])
  have "\<forall>u \<in> set (take i us @ drop (Suc i) us). int u \<le> MAXOPBLOCKS"
    using r by (auto simp: log_room_def dest: in_set_takeD in_set_dropD)
  note others = reserved_bounds [OF this]
  have room: "lh_n s + reserved (take i us @ drop (Suc i) us) + (MAXOPBLOCKS - int (us ! i)) \<le> int LOGSIZE"
    using reserved_split [OF assms(2)] r by (simp add: log_room_def)
  have out: "1 \<le> outstanding s" using r assms(2) by (auto simp: log_room_def)
  have ret: "\<exists>t. log_write b s = Ret t" if "lh_n s < int LOGSIZE" "lh_n s < log_size s - 1"
    using log_write_returns [OF that out] .
  show ?thesis using ret room others assms(3) by (auto simp: log_write_def)
qed

text \<open>Three operations on a log of 30 blocks that record the blocks 0, 1, 2 and so on, ten each, and the state after \<open>n\<close> blocks.\<close>

definition numbered :: lstate where
  "numbered = (power_on example_disk 100)\<lparr>bufs := map (\<lambda>b. empty_buf\<lparr>b_blockno := b\<rparr>) [0..<30], log_size := 30\<rparr>"

definition recorded :: "nat \<Rightarrow> nat list \<Rightarrow> lstate \<Rightarrow> bool" where
  "recorded n us s \<longleftrightarrow> log_run s us \<and> us = [min n 10, min (n - 10) 10, n - 20] \<and> lh_n s = int n \<and> outstanding s = 3 \<and>
     log_size s = 30 \<and> length (lh_block s) = 30 \<and> (\<forall>j < n. lh_block s ! j = j) \<and> length (bufs s) = 30 \<and>
     (\<forall>j < 30. b_blockno (bufs s ! j) = j)"

lemma recorded_start: "\<exists>s. recorded 0 [0, 0, 0] s"
proof -
  let ?s = "\<lambda>n. numbered\<lparr>outstanding := n\<rparr>"
  have 0: "log_run (?s 0) []" by (rule log_run.boot) (simp_all add: numbered_def power_on_def)
  have b: "begin_op (?s n) = Ret (?s (n + 1))" if "0 \<le> n" "n \<le> 2" for n
    using that by (simp add: begin_op_def numbered_def power_on_def MAXOPBLOCKS_def LOGSIZE_def)
  have "log_run (?s 3) [0, 0, 0]"
    using log_run.start [OF log_run.start [OF log_run.start [OF 0 b [of 0]]]] b [of 1] b [of 2] by simp
  then show ?thesis
    by (intro exI [of _ "?s 3"]) (simp add: recorded_def, simp add: numbered_def power_on_def LOGSIZE_def)
qed

lemma recorded_step:
  assumes "recorded n us s" and n: "n < 29"
  shows "\<exists>us t. recorded (Suc n) us t"
proof -
  from assms(1) have r: "log_run s us" "us = [min n 10, min (n - 10) 10, n - 20]" "lh_n s = int n" "outstanding s = 3"
    "log_size s = 30" "length (lh_block s) = 30" "\<And>j. j < n \<Longrightarrow> lh_block s ! j = j" "length (bufs s) = 30"
    "\<And>j. j < 30 \<Longrightarrow> b_blockno (bufs s ! j) = j" by (auto simp: recorded_def)
  have new: "find (\<lambda>i. lh_block s ! i = n) [0..<n] = None" using r(7) by (auto simp: find_None_iff)
  let ?t = "update_buf n (\<lambda>b. b\<lparr>b_dirty := True\<rparr>) (s\<lparr>lh_block := (lh_block s)[n := n], lh_n := int n + 1\<rparr>)"
  have w: "log_write n s = Ret ?t"
    using r(3-5) r(9) [of n] n new by (simp add: log_write_def Let_def LOGSIZE_def)
  have i: "n div 10 < length us" "int (us ! (n div 10)) < MAXOPBLOCKS"
    "us[n div 10 := us ! (n div 10) + 1] = [min (Suc n) 10, min (Suc n - 10) 10, Suc n - 20]"
  proof -
    consider "n < 10" | "10 \<le> n" "n < 20" | "20 \<le> n" by linarith
    then have "n div 10 = 0 \<and> n < 10 \<or> n div 10 = 1 \<and> 10 \<le> n \<and> n < 20 \<or> n div 10 = 2 \<and> 20 \<le> n" using n by cases auto
    then show "n div 10 < length us" "int (us ! (n div 10)) < MAXOPBLOCKS"
      "us[n div 10 := us ! (n div 10) + 1] = [min (Suc n) 10, min (Suc n - 10) 10, Suc n - 20]"
      using n by (auto simp: r(2) MAXOPBLOCKS_def numeral_2_eq_2)
  qed
  have "log_run ?t [min (Suc n) 10, min (Suc n - 10) 10, Suc n - 20]"
    using log_run.recording [OF r(1) i(1,2) w] by (simp only: i(3))
  then have "recorded (Suc n) [min (Suc n) 10, min (Suc n - 10) 10, Suc n - 20] ?t"
    using r n by (auto simp: recorded_def update_buf_def nth_list_update less_Suc_eq)
  then show ?thesis by blast
qed

lemma recorded_ex: "n \<le> 29 \<Longrightarrow> \<exists>us s. recorded n us s"
proof (induction n)
  case 0
  then show ?case using recorded_start by blast
next
  case (Suc n)
  then obtain us s where "recorded n us s" by auto
  then show ?case by (rule recorded_step) (use Suc.prems in simp)
qed

text \<open>The third operation records its ninth block.\<close>

theorem reservation_suffices_witness:
  "\<exists>(s :: lstate) us t. log_run s us \<and> length us = 3 \<and> us ! 2 = 8 \<and> log_size s = int LOGSIZE \<and> log_write 28 s = Ret t"
proof -
  obtain us s where r: "recorded 28 us s" using recorded_ex [of 28] by auto
  then have "log_run s us" "length us = 3" "us ! 2 = 8" "log_size s = int LOGSIZE"
    by (auto simp: recorded_def LOGSIZE_def numeral_2_eq_2)
  then show ?thesis using reservation_suffices [of s us 2 28] by (auto simp: MAXOPBLOCKS_def)
qed

text \<open>For its tenth block there is no room: the test of \<open>log_write\<close> asks for one block more than \<open>mkfs\<close> makes.\<close>

theorem tenth_block_panics:
  "\<exists>(s :: lstate) us. log_run s us \<and> log_size s = int LOGSIZE \<and> us = [10, 10, 9] \<and> log_write b s = Panic ''too big a transaction''"
proof -
  obtain us s where "recorded 29 us s" using recorded_ex [of 29] by auto
  then show ?thesis by (intro exI [of _ s] exI [of _ us]) (auto simp: recorded_def LOGSIZE_def log_write_def)
qed

end
