(* ===== verification/Fs.thy ===== *)
theory Fs
  imports Log C_String
begin

text \<open>
  The file system (\<open>fs.c\<close>): block and inode allocation, the inode cache, file contents,
  directories and path names. An inode in memory is named by its index in \<open>icache\<close>, a
  null pointer is \<open>None\<close>. On-disk structures are encoded into and decoded from the bytes
  of a block. Functions that copy to a caller's buffer return the bytes. Sections under
  \<open>icache.lock\<close> are atomic; the sleep lock of an inode is part of the state.
\<close>

section \<open>On-disk structures\<close>

definition NDIRECT :: nat where "NDIRECT = 12"
definition NINDIRECT :: nat where "NINDIRECT = 128"
definition MAXFILE :: nat where "MAXFILE = NDIRECT + NINDIRECT"
definition IPB :: nat where "IPB = 8"
definition BPB :: nat where "BPB = 4096"
definition DIRSIZ :: nat where "DIRSIZ = 14"
definition NINODE :: nat where "NINODE = 50"
definition ROOTDEV :: nat where "ROOTDEV = 1"
definition ROOTINO :: nat where "ROOTINO = 1"
definition NDEV :: int where "NDEV = 10"

abbreviation T_DIR :: int where "T_DIR \<equiv> 1"
abbreviation T_FILE :: int where "T_FILE \<equiv> 2"
abbreviation T_DEV :: int where "T_DEV \<equiv> 3"
abbreviation T_SYMLINK :: int where "T_SYMLINK \<equiv> 4"

text \<open>A \<open>short\<close> in two bytes.\<close>

definition enc_short :: "int \<Rightarrow> byte list" where
  "enc_short v = le_enc 2 (nat (v mod 65536))"

definition s16 :: "nat \<Rightarrow> int" where
  "s16 x = (if x mod 65536 < 32768 then int (x mod 65536) else int (x mod 65536) - 65536)"

record dinode =
  di_type :: int
  di_major :: int
  di_minor :: int
  di_nlink :: int
  di_size :: nat
  di_addrs :: "nat list"

definition enc_dinode :: "dinode \<Rightarrow> byte list" where
  "enc_dinode d = enc_short (di_type d) @ enc_short (di_major d) @ enc_short (di_minor d) @
     enc_short (di_nlink d) @ le_enc 4 (di_size d) @ concat (map (le_enc 4) (di_addrs d))"

definition dec_dinode :: "byte list \<Rightarrow> dinode" where
  "dec_dinode b = \<lparr>di_type = s16 (le_dec (slice b 0 2)), di_major = s16 (le_dec (slice b 2 2)),
     di_minor = s16 (le_dec (slice b 4 2)), di_nlink = s16 (le_dec (slice b 6 2)),
     di_size = le_dec (slice b 8 4),
     di_addrs = map (\<lambda>i. le_dec (slice b (12 + 4 * i) 4)) [0..<NDIRECT + 1]\<rparr>"

text \<open>\<open>(struct dinode * )bp->data + inum % IPB\<close>.\<close>

definition dinode_at :: "byte list \<Rightarrow> nat \<Rightarrow> dinode" where
  "dinode_at d inum = dec_dinode (slice d (64 * (inum mod IPB)) 64)"

definition set_dinode :: "byte list \<Rightarrow> nat \<Rightarrow> dinode \<Rightarrow> byte list" where
  "set_dinode d inum di = overwrite d (64 * (inum mod IPB)) (enc_dinode di)"

definition zero_dinode :: dinode where
  "zero_dinode = \<lparr>di_type = 0, di_major = 0, di_minor = 0, di_nlink = 0, di_size = 0,
     di_addrs = replicate (NDIRECT + 1) 0\<rparr>"

section \<open>State\<close>

text \<open>\<open>i_copy\<close> is the part of \<open>struct inode\<close> that is the copy of the disk inode.\<close>

record inode =
  i_dev :: nat
  i_inum :: nat
  i_ref :: int
  i_lock :: sleeplock
  i_valid :: bool
  i_copy :: dinode

text \<open>
  Entries of \<open>devsw\<close>: the device functions are called through pointers, which may be
  null; reading returns the result and the bytes it has copied.
\<close>

record device =
  dev_read :: "(nat \<Rightarrow> nat \<Rightarrow> int \<times> byte list) option"
  dev_write :: "(nat \<Rightarrow> byte list \<Rightarrow> int) option"

record fstate = lstate +
  fs_sb :: superblock
  inodes :: "inode list"
  devsw :: "device list"
  cwd :: nat

abbreviation ino :: "nat \<Rightarrow> 'a fstate_scheme \<Rightarrow> inode" where
  "ino ip s \<equiv> inodes s ! ip"

definition upd_inode :: "nat \<Rightarrow> (inode \<Rightarrow> inode) \<Rightarrow> 'a fstate_scheme \<Rightarrow> 'a fstate_scheme" where
  "upd_inode ip f s = s\<lparr>inodes := (inodes s)[ip := f (inodes s ! ip)]\<rparr>"

definition upd_copy :: "nat \<Rightarrow> (dinode \<Rightarrow> dinode) \<Rightarrow> 'a fstate_scheme \<Rightarrow> 'a fstate_scheme" where
  "upd_copy ip f = upd_inode ip (\<lambda>n. n\<lparr>i_copy := f (i_copy n)\<rparr>)"

definition IBLOCK :: "nat \<Rightarrow> superblock \<Rightarrow> nat" where
  "IBLOCK i sb = u32 (i div IPB + sb_inodestart sb)"

definition BBLOCK :: "nat \<Rightarrow> superblock \<Rightarrow> nat" where
  "BBLOCK b sb = u32 (b div BPB + sb_bmapstart sb)"

section \<open>Blocks\<close>

definition bzero :: "nat \<Rightarrow> nat \<Rightarrow> 'a fstate_scheme \<Rightarrow> 'a fstate_scheme outcome" where
  "bzero dev bno s =
     kbind (bread dev bno s) (\<lambda>(bp, s).
     kbind (log_write bp (set_data bp (replicate BSIZE 0) s)) (brelse bp))"

text \<open>Bit \<open>bi\<close> of a bitmap block: \<open>data[bi/8] & (1 << (bi % 8))\<close>.\<close>

definition bitmap_get :: "byte list \<Rightarrow> nat \<Rightarrow> bool" where
  "bitmap_get d bi = bit (d ! (bi div 8)) (bi mod 8)"

definition bitmap_set :: "byte list \<Rightarrow> nat \<Rightarrow> byte list" where
  "bitmap_set d bi = d[bi div 8 := Bit_Operations.set_bit (bi mod 8) (d ! (bi div 8))]"

definition bitmap_clear :: "byte list \<Rightarrow> nat \<Rightarrow> byte list" where
  "bitmap_clear d bi = d[bi div 8 := unset_bit (bi mod 8) (d ! (bi div 8))]"

text \<open>The loop of \<open>balloc\<close> over the values of \<open>b\<close>.\<close>

primrec balloc_scan :: "nat \<Rightarrow> nat list \<Rightarrow> 'a fstate_scheme \<Rightarrow> (nat \<times> 'a fstate_scheme) outcome" where
  "balloc_scan dev [] s = Panic ''balloc: out of blocks''"
| "balloc_scan dev (b # bs) s =
     kbind (bread dev (BBLOCK b (fs_sb s)) s) (\<lambda>(bp, s).
       case find (\<lambda>bi. \<not> bitmap_get (buf_data bp s) bi) [0..<min BPB (sb_size (fs_sb s) - b)] of
         Some bi \<Rightarrow>
           kbind (log_write bp (set_data bp (bitmap_set (buf_data bp s) bi) s)) (\<lambda>s.
           kbind (brelse bp s) (\<lambda>s.
           kbind (bzero dev (b + bi) s) (\<lambda>s. Ret (b + bi, s))))
       | None \<Rightarrow> kbind (brelse bp s) (balloc_scan dev bs))"

definition balloc :: "nat \<Rightarrow> 'a fstate_scheme \<Rightarrow> (nat \<times> 'a fstate_scheme) outcome" where
  "balloc dev s =
     balloc_scan dev (map (\<lambda>k. k * BPB) [0..<(sb_size (fs_sb s) + (BPB - 1)) div BPB]) s"

definition bfree :: "nat \<Rightarrow> nat \<Rightarrow> 'a fstate_scheme \<Rightarrow> 'a fstate_scheme outcome" where
  "bfree dev b s =
     kbind (bread dev (BBLOCK b (fs_sb s)) s) (\<lambda>(bp, s).
       let bi = b mod BPB
       in if \<not> bitmap_get (buf_data bp s) bi then Panic ''freeing free block''
          else kbind (log_write bp (set_data bp (bitmap_clear (buf_data bp s) bi) s)) (brelse bp))"

section \<open>Inodes\<close>

definition iinit :: "nat \<Rightarrow> 'a fstate_scheme \<Rightarrow> 'a fstate_scheme outcome" where
  "iinit dev s =
     (let s = fold (\<lambda>i. upd_inode i (\<lambda>n. n\<lparr>i_lock := initsleeplock\<rparr>)) [0..<NINODE] s
      in kbind (readsb dev s) (\<lambda>(sb, s). Ret (s\<lparr>fs_sb := sb\<rparr>)))"

definition iget :: "nat \<Rightarrow> nat \<Rightarrow> 'a fstate_scheme \<Rightarrow> (nat \<times> 'a fstate_scheme) outcome" where
  "iget dev inum s =
     (case find (\<lambda>i. 0 < i_ref (ino i s) \<and> i_dev (ino i s) = dev \<and> i_inum (ino i s) = inum) [0..<NINODE] of
        Some ip \<Rightarrow> Ret (ip, upd_inode ip (\<lambda>n. n\<lparr>i_ref := i_ref n + 1\<rparr>) s)
      | None \<Rightarrow>
          (case find (\<lambda>i. i_ref (ino i s) = 0) [0..<NINODE] of
             None \<Rightarrow> Panic ''iget: no inodes''
           | Some ip \<Rightarrow> Ret (ip, upd_inode ip
               (\<lambda>n. n\<lparr>i_dev := dev, i_inum := inum, i_ref := 1, i_valid := False\<rparr>) s)))"

primrec ialloc_scan :: "nat \<Rightarrow> int \<Rightarrow> nat list \<Rightarrow> 'a fstate_scheme \<Rightarrow> (nat \<times> 'a fstate_scheme) outcome" where
  "ialloc_scan dev ty [] s = Panic ''ialloc: no inodes''"
| "ialloc_scan dev ty (inum # is) s =
     kbind (bread dev (IBLOCK inum (fs_sb s)) s) (\<lambda>(bp, s).
       if di_type (dinode_at (buf_data bp s) inum) = 0 then
         kbind (log_write bp (set_data bp (set_dinode (buf_data bp s) inum
           (zero_dinode\<lparr>di_type := ty\<rparr>)) s)) (\<lambda>s.
         kbind (brelse bp s) (iget dev inum))
       else kbind (brelse bp s) (ialloc_scan dev ty is))"

definition ialloc :: "nat \<Rightarrow> int \<Rightarrow> 'a fstate_scheme \<Rightarrow> (nat \<times> 'a fstate_scheme) outcome" where
  "ialloc dev ty s = ialloc_scan dev ty [1..<sb_ninodes (fs_sb s)] s"

definition iupdate :: "nat \<Rightarrow> 'a fstate_scheme \<Rightarrow> 'a fstate_scheme outcome" where
  "iupdate ip s =
     kbind (bread (i_dev (ino ip s)) (IBLOCK (i_inum (ino ip s)) (fs_sb s)) s) (\<lambda>(bp, s).
     kbind (log_write bp (set_data bp (set_dinode (buf_data bp s) (i_inum (ino ip s)) (i_copy (ino ip s))) s))
       (brelse bp))"

definition idup :: "nat \<Rightarrow> 'a fstate_scheme \<Rightarrow> nat \<times> 'a fstate_scheme" where
  "idup ip s = (ip, upd_inode ip (\<lambda>n. n\<lparr>i_ref := i_ref n + 1\<rparr>) s)"

text \<open>Taking the sleep lock of an inode.\<close>

definition lock_inode :: "nat \<Rightarrow> 'a fstate_scheme \<Rightarrow> 'a fstate_scheme outcome" where
  "lock_inode ip s =
     kbind (acquiresleep (my_pid s) (i_lock (ino ip s))) (\<lambda>lk. Ret (upd_inode ip (\<lambda>n. n\<lparr>i_lock := lk\<rparr>) s))"

definition unlock_inode :: "nat \<Rightarrow> 'a fstate_scheme \<Rightarrow> 'a fstate_scheme" where
  "unlock_inode ip = upd_inode ip (\<lambda>n. n\<lparr>i_lock := releasesleep (i_lock n)\<rparr>)"

definition ilock :: "nat \<Rightarrow> 'a fstate_scheme \<Rightarrow> 'a fstate_scheme outcome" where
  "ilock ip s =
     (if i_ref (ino ip s) < 1 then Panic ''ilock''
      else kbind (lock_inode ip s) (\<lambda>s.
        if \<not> i_valid (ino ip s) then
          kbind (bread (i_dev (ino ip s)) (IBLOCK (i_inum (ino ip s)) (fs_sb s)) s) (\<lambda>(bp, s).
            let s = upd_copy ip (\<lambda>_. dinode_at (buf_data bp s) (i_inum (ino ip s))) s
            in kbind (brelse bp s) (\<lambda>s.
                 let s = upd_inode ip (\<lambda>n. n\<lparr>i_valid := True\<rparr>) s
                 in if di_type (i_copy (ino ip s)) = 0 then Panic ''ilock: no type'' else Ret s))
        else Ret s))"

definition iunlock :: "nat \<Rightarrow> 'a fstate_scheme \<Rightarrow> 'a fstate_scheme outcome" where
  "iunlock ip s =
     (if \<not> holdingsleep (my_pid s) (i_lock (ino ip s)) \<or> i_ref (ino ip s) < 1 then Panic ''iunlock''
      else Ret (unlock_inode ip s))"

text \<open>Freeing the blocks of an inode: direct ones, those of the indirect block, and that.\<close>

definition free_direct :: "nat \<Rightarrow> nat \<Rightarrow> 'a fstate_scheme \<Rightarrow> 'a fstate_scheme outcome" where
  "free_direct ip i s =
     (if di_addrs (i_copy (ino ip s)) ! i \<noteq> 0 then
        kbind (bfree (i_dev (ino ip s)) (di_addrs (i_copy (ino ip s)) ! i) s) (\<lambda>s.
          Ret (upd_copy ip (\<lambda>d. d\<lparr>di_addrs := (di_addrs d)[i := 0]\<rparr>) s))
      else Ret s)"

definition free_indirect :: "nat \<Rightarrow> nat \<Rightarrow> nat \<Rightarrow> 'a fstate_scheme \<Rightarrow> 'a fstate_scheme outcome" where
  "free_indirect ip bp j s =
     (if word_at (buf_data bp s) j \<noteq> 0 then bfree (i_dev (ino ip s)) (word_at (buf_data bp s) j) s else Ret s)"

definition itrunc :: "nat \<Rightarrow> 'a fstate_scheme \<Rightarrow> 'a fstate_scheme outcome" where
  "itrunc ip s =
     kbind (kfor [0..<NDIRECT] (free_direct ip) s) (\<lambda>s.
     kbind (if di_addrs (i_copy (ino ip s)) ! NDIRECT \<noteq> 0 then
              kbind (bread (i_dev (ino ip s)) (di_addrs (i_copy (ino ip s)) ! NDIRECT) s) (\<lambda>(bp, s).
              kbind (kfor [0..<NINDIRECT] (free_indirect ip bp) s) (\<lambda>s.
              kbind (brelse bp s) (free_direct ip NDIRECT)))
            else Ret s) (\<lambda>s.
       iupdate ip (upd_copy ip (\<lambda>d. d\<lparr>di_size := 0\<rparr>) s)))"

definition itruncfile :: "nat \<Rightarrow> 'a fstate_scheme \<Rightarrow> 'a fstate_scheme outcome" where
  "itruncfile ip s = itrunc ip s"

definition iput :: "nat \<Rightarrow> 'a fstate_scheme \<Rightarrow> 'a fstate_scheme outcome" where
  "iput ip s =
     kbind (lock_inode ip s) (\<lambda>s.
     kbind (if i_valid (ino ip s) \<and> di_nlink (i_copy (ino ip s)) = 0 \<and> i_ref (ino ip s) = 1 then
              kbind (itrunc ip s) (\<lambda>s.
              kbind (iupdate ip (upd_copy ip (\<lambda>d. d\<lparr>di_type := 0\<rparr>) s)) (\<lambda>s.
                Ret (upd_inode ip (\<lambda>n. n\<lparr>i_valid := False\<rparr>) s)))
            else Ret s) (\<lambda>s.
       Ret (upd_inode ip (\<lambda>n. n\<lparr>i_ref := i_ref n - 1\<rparr>) (unlock_inode ip s))))"

definition iunlockput :: "nat \<Rightarrow> 'a fstate_scheme \<Rightarrow> 'a fstate_scheme outcome" where
  "iunlockput ip s = kbind (iunlock ip s) (iput ip)"

section \<open>Inode content\<close>

text \<open>The first level of \<open>bmap\<close>: entry \<open>i\<close> of \<open>addrs\<close>, allocated when it is 0.\<close>

definition bmap_entry :: "nat \<Rightarrow> nat \<Rightarrow> 'a fstate_scheme \<Rightarrow> (nat \<times> 'a fstate_scheme) outcome" where
  "bmap_entry ip i s =
     (if di_addrs (i_copy (ino ip s)) ! i = 0 then
        kbind (balloc (i_dev (ino ip s)) s) (\<lambda>(addr, s).
          Ret (addr, upd_copy ip (\<lambda>d. d\<lparr>di_addrs := (di_addrs d)[i := addr]\<rparr>) s))
      else Ret (di_addrs (i_copy (ino ip s)) ! i, s))"

definition bmap :: "nat \<Rightarrow> nat \<Rightarrow> 'a fstate_scheme \<Rightarrow> (nat \<times> 'a fstate_scheme) outcome" where
  "bmap ip bn s =
     (if bn < NDIRECT then bmap_entry ip bn s
      else let bn = bn - NDIRECT
      in if bn < NINDIRECT then
           kbind (bmap_entry ip NDIRECT s) (\<lambda>(addr, s).
           kbind (bread (i_dev (ino ip s)) addr s) (\<lambda>(bp, s).
             if word_at (buf_data bp s) bn = 0 then
               kbind (balloc (i_dev (ino ip s)) s) (\<lambda>(addr, s).
               kbind (log_write bp (set_data bp (set_word (buf_data bp s) bn addr) s)) (\<lambda>s.
               kbind (brelse bp s) (\<lambda>s. Ret (addr, s))))
             else
               let addr = word_at (buf_data bp s) bn
               in kbind (brelse bp s) (\<lambda>s. Ret (addr, s))))
         else Panic ''bmap: out of range'')"

record stat =
  st_type :: int
  st_dev :: nat
  st_ino :: nat
  st_nlink :: int
  st_size :: nat

definition stati :: "nat \<Rightarrow> 'a fstate_scheme \<Rightarrow> stat" where
  "stati ip s = \<lparr>st_type = di_type (i_copy (ino ip s)), st_dev = i_dev (ino ip s), st_ino = i_inum (ino ip s),
     st_nlink = di_nlink (i_copy (ino ip s)), st_size = di_size (i_copy (ino ip s))\<rparr>"

text \<open>The loop of \<open>readi\<close>, with \<open>n - tot\<close> bytes left: the bytes it copies to \<open>dst\<close>.\<close>

function (sequential) read_loop :: "nat \<Rightarrow> nat \<Rightarrow> nat \<Rightarrow> 'a fstate_scheme \<Rightarrow>
    (byte list \<times> 'a fstate_scheme) outcome" where
  "read_loop ip off 0 s = Ret ([], s)"
| "read_loop ip off (Suc k) s =
     (let m = min (Suc k) (BSIZE - off mod BSIZE)
      in kbind (bmap ip (off div BSIZE) s) (\<lambda>(addr, s).
         kbind (bread (i_dev (ino ip s)) addr s) (\<lambda>(bp, s).
           let piece = slice (buf_data bp s) (off mod BSIZE) m
           in kbind (brelse bp s) (\<lambda>s.
              kbind (read_loop ip (off + m) (Suc k - m) s) (\<lambda>(rest, s). Ret (piece @ rest, s))))))"
  by pat_completeness auto
termination by (relation "measure (\<lambda>(ip, off, k, s). k)") (auto simp: BSIZE_def)

definition device_ok :: "int \<Rightarrow> 'a fstate_scheme \<Rightarrow> bool" where
  "device_ok major s \<longleftrightarrow> 0 \<le> major \<and> major < NDEV"

definition readi :: "nat \<Rightarrow> nat \<Rightarrow> nat \<Rightarrow> 'a fstate_scheme \<Rightarrow> (int \<times> byte list \<times> 'a fstate_scheme) outcome" where
  "readi ip off n s =
     (let d = i_copy (ino ip s)
      in if di_type d = T_DEV then
           (if \<not> device_ok (di_major d) s then Ret (-1, [], s)
            else case dev_read (devsw s ! nat (di_major d)) of
                   None \<Rightarrow> Ret (-1, [], s)
                 | Some rd \<Rightarrow> (case rd ip n of (r, bytes) \<Rightarrow> Ret (r, bytes, s)))
         else if off > di_size d \<or> u32 (off + n) < off then Ret (-1, [], s)
         else
           let n = (if u32 (off + n) > di_size d then di_size d - off else n)
           in kbind (read_loop ip off n s) (\<lambda>(bytes, s). Ret (int n, bytes, s)))"

text \<open>The loop of \<open>writei\<close>; it returns the final \<open>off\<close>.\<close>

function write_loop :: "nat \<Rightarrow> nat \<Rightarrow> byte list \<Rightarrow> 'a fstate_scheme \<Rightarrow> (nat \<times> 'a fstate_scheme) outcome" where
  "write_loop ip off [] s = Ret (off, s)"
| "write_loop ip off (x # xs) s =
     (let src = x # xs; m = min (length src) (BSIZE - off mod BSIZE)
      in kbind (bmap ip (off div BSIZE) s) (\<lambda>(addr, s).
         kbind (bread (i_dev (ino ip s)) addr s) (\<lambda>(bp, s).
         kbind (log_write bp (set_data bp (overwrite (buf_data bp s) (off mod BSIZE) (take m src)) s)) (\<lambda>s.
         kbind (brelse bp s) (write_loop ip (off + m) (drop m src))))))"
  by pat_completeness auto
termination by (relation "measure (\<lambda>(ip, off, xs, s). length xs)") (auto simp: BSIZE_def)

text \<open>\<open>writei\<close> of the \<open>n\<close> bytes \<open>src\<close>.\<close>

definition writei :: "nat \<Rightarrow> byte list \<Rightarrow> nat \<Rightarrow> 'a fstate_scheme \<Rightarrow> (int \<times> 'a fstate_scheme) outcome" where
  "writei ip src off s =
     (let d = i_copy (ino ip s); n = length src
      in if di_type d = T_DEV then
           (if \<not> device_ok (di_major d) s then Ret (-1, s)
            else case dev_write (devsw s ! nat (di_major d)) of
                   None \<Rightarrow> Ret (-1, s)
                 | Some wr \<Rightarrow> Ret (wr ip src, s))
         else if off > di_size d \<or> u32 (off + n) < off then Ret (-1, s)
         else if u32 (off + n) > MAXFILE * BSIZE then Ret (-1, s)
         else kbind (write_loop ip off src s) (\<lambda>(off, s).
           if n > 0 \<and> off > di_size (i_copy (ino ip s))
           then kbind (iupdate ip (upd_copy ip (\<lambda>d. d\<lparr>di_size := off\<rparr>) s)) (\<lambda>s. Ret (int n, s))
           else Ret (int n, s)))"

section \<open>Directories\<close>

text \<open>The \<open>name\<close> field that \<open>strncpy\<close> makes of a name: cut to \<open>DIRSIZ\<close>, padded with NULs.\<close>

definition dir_name :: "byte list \<Rightarrow> byte list" where
  "dir_name name = take DIRSIZ (takeWhile (\<lambda>c. c \<noteq> 0) name @ replicate DIRSIZ 0)"

definition namecmp :: "byte list \<Rightarrow> byte list \<Rightarrow> int" where
  "namecmp a b = strncmp (cptr_of a) (cptr_of b) DIRSIZ"

definition DIRENT :: nat where "DIRENT = 16"

definition de_inum :: "byte list \<Rightarrow> nat" where
  "de_inum de = le_dec (slice de 0 2)"

definition de_name :: "byte list \<Rightarrow> byte list" where
  "de_name de = slice de 2 DIRSIZ"

definition mk_dirent :: "nat \<Rightarrow> byte list \<Rightarrow> byte list" where
  "mk_dirent inum name = le_enc 2 (inum mod 65536) @ dir_name name"

definition dir_offsets :: "nat \<Rightarrow> nat list" where
  "dir_offsets sz = map (\<lambda>k. DIRENT * k) [0..<(sz + (DIRENT - 1)) div DIRENT]"

text \<open>Reading one entry; \<open>msg\<close> is the panic of the caller.\<close>

definition read_dirent :: "string \<Rightarrow> nat \<Rightarrow> nat \<Rightarrow> 'a fstate_scheme \<Rightarrow> (byte list \<times> 'a fstate_scheme) outcome" where
  "read_dirent msg dp off s =
     kbind (readi dp off DIRENT s) (\<lambda>(r, de, s). if r \<noteq> int DIRENT then Panic msg else Ret (de, s))"

primrec dir_scan :: "nat \<Rightarrow> byte list \<Rightarrow> nat list \<Rightarrow> 'a fstate_scheme \<Rightarrow>
    ((nat \<times> nat) option \<times> 'a fstate_scheme) outcome" where
  "dir_scan dp name [] s = Ret (None, s)"
| "dir_scan dp name (off # offs) s =
     kbind (read_dirent ''dirlookup read'' dp off s) (\<lambda>(de, s).
       if de_inum de = 0 then dir_scan dp name offs s
       else if namecmp name (de_name de) = 0
       then kbind (iget (i_dev (ino dp s)) (de_inum de) s) (\<lambda>(ip, s). Ret (Some (ip, off), s))
       else dir_scan dp name offs s)"

text \<open>The inode and the offset of the entry, if there is one.\<close>

definition dirlookup :: "nat \<Rightarrow> byte list \<Rightarrow> 'a fstate_scheme \<Rightarrow> ((nat \<times> nat) option \<times> 'a fstate_scheme) outcome" where
  "dirlookup dp name s =
     (if di_type (i_copy (ino dp s)) \<noteq> T_DIR then Panic ''dirlookup not DIR''
      else dir_scan dp name (dir_offsets (di_size (i_copy (ino dp s)))) s)"

text \<open>The offset of the first free entry, or the end of the directory.\<close>

primrec dir_free :: "nat \<Rightarrow> nat list \<Rightarrow> nat \<Rightarrow> 'a fstate_scheme \<Rightarrow> (nat \<times> 'a fstate_scheme) outcome" where
  "dir_free dp [] fin s = Ret (fin, s)"
| "dir_free dp (off # offs) fin s =
     kbind (read_dirent ''dirlink read'' dp off s) (\<lambda>(de, s).
       if de_inum de = 0 then Ret (off, s) else dir_free dp offs fin s)"

definition dirlink :: "nat \<Rightarrow> byte list \<Rightarrow> nat \<Rightarrow> 'a fstate_scheme \<Rightarrow> (int \<times> 'a fstate_scheme) outcome" where
  "dirlink dp name inum s =
     kbind (dirlookup dp name s) (\<lambda>(found, s).
       case found of
         Some (ip, off) \<Rightarrow> kbind (iput ip s) (\<lambda>s. Ret (-1, s))
       | None \<Rightarrow>
           let offs = dir_offsets (di_size (i_copy (ino dp s)))
           in kbind (dir_free dp offs (DIRENT * length offs) s) (\<lambda>(off, s).
              kbind (writei dp (mk_dirent inum name) off s) (\<lambda>(r, s).
                if r \<noteq> int DIRENT then Panic ''dirlink'' else Ret (0, s))))"

section \<open>Paths\<close>

text \<open>A path is the bytes before its NUL. \<open>skipelem\<close> gives the next element and the rest.\<close>

abbreviation slash :: byte where "slash \<equiv> 47"

definition skipelem :: "byte list \<Rightarrow> (byte list \<times> byte list) option" where
  "skipelem path =
     (let path = dropWhile (\<lambda>c. c = slash) path
      in if path = [] then None
         else Some (take DIRSIZ (takeWhile (\<lambda>c. c \<noteq> slash) path),
                    dropWhile (\<lambda>c. c = slash) (dropWhile (\<lambda>c. c \<noteq> slash) path)))"

lemma skipelem_shorter:
  assumes "skipelem path = Some (name, rest)"
  shows "length rest < length path"
proof -
  let ?p = "dropWhile (\<lambda>c. c = slash) path"
  have r: "rest = dropWhile (\<lambda>c. c = slash) (dropWhile (\<lambda>c. c \<noteq> slash) ?p)" and p: "?p \<noteq> []"
    using assms by (auto simp: skipelem_def Let_def split: if_splits)
  obtain x xs where x: "?p = x # xs" using p by (meson neq_Nil_conv)
  then have "x \<noteq> slash \<Longrightarrow> length rest \<le> length xs"
    unfolding r x using length_dropWhile_le [of "\<lambda>c. c = slash" "dropWhile (\<lambda>c. c \<noteq> slash) xs"]
      length_dropWhile_le [of "\<lambda>c. c \<noteq> slash" xs] by simp
  moreover have "x \<noteq> slash" using hd_dropWhile [OF p] unfolding x list.sel .
  ultimately have "length rest \<le> length xs" by blast
  moreover have "length xs < length ?p" unfolding x by simp
  moreover have "length ?p \<le> length path" by (rule length_dropWhile_le)
  ultimately show ?thesis by (rule order.strict_trans2 [OF order.strict_trans1])
qed

function namex_loop :: "nat \<Rightarrow> byte list \<Rightarrow> bool \<Rightarrow> byte list \<Rightarrow> 'a fstate_scheme \<Rightarrow>
    (nat option \<times> byte list \<times> 'a fstate_scheme) outcome" where
  "namex_loop ip path parent name s =
     (case skipelem path of
        None \<Rightarrow> if parent then kbind (iput ip s) (\<lambda>s. Ret (None, name, s)) else Ret (Some ip, name, s)
      | Some (name, path) \<Rightarrow>
          kbind (ilock ip s) (\<lambda>s.
            if di_type (i_copy (ino ip s)) \<noteq> T_DIR then kbind (iunlockput ip s) (\<lambda>s. Ret (None, name, s))
            else if parent \<and> path = [] then kbind (iunlock ip s) (\<lambda>s. Ret (Some ip, name, s))
            else kbind (dirlookup ip name s) (\<lambda>(found, s).
              case found of
                None \<Rightarrow> kbind (iunlockput ip s) (\<lambda>s. Ret (None, name, s))
              | Some (next, off) \<Rightarrow>
                  kbind (iunlockput ip s) (\<lambda>s. namex_loop next path parent name s))))"
  by pat_completeness auto
termination by (relation "measure (\<lambda>(ip, path, parent, name, s). length path)") (auto dest: skipelem_shorter sym)

definition namex :: "byte list \<Rightarrow> bool \<Rightarrow> 'a fstate_scheme \<Rightarrow> (nat option \<times> byte list \<times> 'a fstate_scheme) outcome" where
  "namex path parent s =
     kbind (if path \<noteq> [] \<and> hd path = slash then iget ROOTDEV ROOTINO s else Ret (idup (cwd s) s))
       (\<lambda>(ip, s). namex_loop ip path parent [] s)"

definition namei :: "byte list \<Rightarrow> 'a fstate_scheme \<Rightarrow> (nat option \<times> 'a fstate_scheme) outcome" where
  "namei path s = kbind (namex path False s) (\<lambda>(ip, name, s). Ret (ip, s))"

definition nameiparent :: "byte list \<Rightarrow> 'a fstate_scheme \<Rightarrow> (nat option \<times> byte list \<times> 'a fstate_scheme) outcome" where
  "nameiparent path s = namex path True s"

end
