(* ===== verification/Fs_Blocks.thy ===== *)
theory Fs_Blocks
  imports Fs
begin

text \<open>
  The block layer of the file system: what reading and changing a block through the log
  costs and does, and with it the block allocator. An operation is shown to return when
  the log and the cache have room for the blocks it changes.
\<close>

section \<open>Fields the block layer leaves alone\<close>

lemma fs_fields:
  assumes "log_frame s t"
  shows "inodes t = inodes s \<and> fs_sb t = fs_sb s \<and> devsw t = devsw s \<and> cwd t = cwd s"
proof -
  let ?t = "s\<lparr>bufs := bufs t, lru := lru t, memdisk := memdisk t, disk_writes := disk_writes t,
     lh_n := lh_n t, lh_block := lh_block t\<rparr>"
  have "inodes ?t = inodes s \<and> fs_sb ?t = fs_sb s \<and> devsw ?t = devsw s \<and> cwd ?t = cwd s" by simp
  then show ?thesis using assms unfolding log_frame_def by metis
qed

lemma bread_fs:
  fixes s t :: "'a fstate_scheme"
  assumes "bread dev n s = Ret (i, t)"
  shows "inodes t = inodes s \<and> fs_sb t = fs_sb s \<and> devsw t = devsw s \<and> cwd t = cwd s"
  using fs_fields [OF log_frame_cache [OF bread_step [OF assms]]] .

lemma cache_of_inodes [simp]:
  "cached (upd_inode ip f s) = cached s" "holds_buf (upd_inode ip f s) = holds_buf s"
  "bcontent (upd_inode ip f s) = bcontent s" "pinned (upd_inode ip f s) = pinned s"
  "idle (upd_inode ip f s) = idle s" "saved (upd_inode ip f s) = saved s"
  by (simp_all add: upd_inode_def cached_def holds_buf_def bcontent_def pinned_def idle_def saved_def
      fun_eq_iff split: option.split)

lemma fields_of_inodes [simp]:
  "fs_sb (upd_inode ip f s) = fs_sb s" "disksize (upd_inode ip f s) = disksize s"
  "my_pid (upd_inode ip f s) = my_pid s" "outstanding (upd_inode ip f s) = outstanding s"
  "lh_n (upd_inode ip f s) = lh_n s" "log_size (upd_inode ip f s) = log_size s"
  "log_start (upd_inode ip f s) = log_start s" "devsw (upd_inode ip f s) = devsw s"
  "length (inodes (upd_inode ip f s)) = length (inodes s)" "cwd (upd_inode ip f s) = cwd s"
  by (simp_all add: upd_inode_def)

lemma inv_of_inodes [simp]:
  "cache_inv (upd_inode ip f s) = cache_inv s" "log_inv (upd_inode ip f s) = log_inv s"
proof -
  show "cache_inv (upd_inode ip f s) = cache_inv s"
    unfolding cache_inv_def cache_of_inodes by (simp add: upd_inode_def)
  then show "log_inv (upd_inode ip f s) = log_inv s"
    unfolding log_inv_def cache_of_inodes by (simp add: upd_inode_def logged_blocks_def)
qed

lemma ino_upd [simp]:
  "ip < length (inodes s) \<Longrightarrow> ino ip (upd_inode ip f s) = f (ino ip s)"
  "jp \<noteq> ip \<Longrightarrow> ino jp (upd_inode ip f s) = ino jp s"
  by (simp_all add: upd_inode_def)

section \<open>Room\<close>

text \<open>The blocks held by the current path, and room in the log and the cache for \<open>k\<close> more blocks.\<close>

definition heldb :: "'a bstate_scheme \<Rightarrow> nat set" where
  "heldb s = {m. \<exists>j. holds_buf s j m}"

definition room :: "'a lstate_scheme \<Rightarrow> nat \<Rightarrow> bool" where
  "room s k \<longleftrightarrow> log_inv s \<and> 1 \<le> outstanding s \<and> lh_n s + int k \<le> int LOGSIZE \<and>
     lh_n s + int k < log_size s \<and> k \<le> card (idle s)"

lemma room_less: "room s k \<Longrightarrow> j \<le> k \<Longrightarrow> room s j"
  by (auto simp: room_def)

lemma room_inodes [simp]: "room (upd_inode ip f s) k = room s k"
  by (simp add: room_def)

lemma heldb_inodes [simp]: "heldb (upd_inode ip f s) = heldb s"
  by (simp add: heldb_def)

text \<open>\<open>block_step s t\<close>: from \<open>s\<close> to \<open>t\<close> only the cache, the disk and the log have changed, and
  the path holds the same buffers.\<close>

definition block_step :: "'a lstate_scheme \<Rightarrow> 'a lstate_scheme \<Rightarrow> bool" where
  "block_step s t \<longleftrightarrow> log_inv t \<and> log_frame s t \<and> holds_buf t = holds_buf s \<and>
     (\<forall>j m. holds_buf s j m \<longrightarrow> saved t j = saved s j)"

lemma block_step_keeps: "block_step = logged.keeps"
  by (simp add: block_step_def logged.keeps_def fun_eq_iff)

lemma block_step_refl: "log_inv s \<Longrightarrow> block_step s s"
  unfolding block_step_keeps by (rule logged.keeps_refl)

lemma block_step_trans [trans]: "block_step s t \<Longrightarrow> block_step t u \<Longrightarrow> block_step s u"
  unfolding block_step_keeps by (rule logged.keeps_trans)

lemma block_step_simps:
  assumes "block_step s t"
  shows "log_inv t" "heldb t = heldb s" "disksize t = disksize s" "my_pid t = my_pid s"
    "holds_buf t = holds_buf s" "log_start t = log_start s" "log_size t = log_size s"
  using assms log_frame_fields [of s t] by (simp_all add: block_step_def heldb_def)

lemma block_step_fs:
  fixes s t :: "'a fstate_scheme"
  assumes "block_step s t" shows "inodes t = inodes s" "fs_sb t = fs_sb s"
  using assms fs_fields [of s t] by (auto simp: block_step_def)

lemma room_step:
  assumes "room s k" and st: "block_step s t" and "lh_n t + int j \<le> lh_n s + int k"
    and "j \<le> card (idle t)"
  shows "room t j"
  using assms(1,3,4) log_frame_fields [of s t] st by (auto simp: room_def block_step_def)

lemma look_total:
  assumes r: "room s k" "0 < k" and n: "n < disksize s" "n \<notin> heldb s"
  shows "\<exists>i t u. bread 1 n s = Ret (i, t) \<and> brelse i t = Ret u \<and> buf_data i t = bcontent s n \<and>
    room u k \<and> block_step s u \<and> bcontent u = bcontent s"
proof -
  have li: "log_inv s" and ci: "cache_inv s" using r by (auto simp: room_def log_inv_def)
  have "idle s \<noteq> {}" using r by (auto simp: room_def)
  then obtain i t where rd: "bread 1 n s = Ret (i, t)"
    using bread_returns [OF ci n(1)] n(2) by (auto simp: heldb_def)
  note ok = bread_ok [OF ci rd] and tr = bread_track [OF ci rd]
  have t: "cache_inv t" "cache_step s t" "saved t i" "holds_buf t i n" using ok by simp_all
  obtain u where br: "brelse i t = Ret u" and u: "cache_inv u" "cache_step t u" "bcontent u = bcontent t"
      "memdisk u = memdisk t" "disk_writes u = disk_writes t"
      "\<forall>j. b_dirty (bufs u ! j) = b_dirty (bufs t ! j) \<and> cached u j = cached t j \<and>
         b_data (bufs u ! j) = b_data (bufs t ! j)"
      "\<forall>j m. holds_buf u j m \<longleftrightarrow> holds_buf t j m \<and> j \<noteq> i"
    using brelse_ok [OF t(1,4,3)] by - (elim exE conjE, rule that, assumption+)
  from logged.look [OF li rd br] have k: "logged.keeps s u" "bcontent u = bcontent s" "buf_data i t = bcontent s n"
    by simp_all
  then have st: "block_step s u" by (simp add: block_step_keeps)
  have "idle s \<subseteq> idle u"
    unfolding idle_eq [OF ci] idle_eq [OF u(1)] using st u(6) tr by (auto simp: block_step_def)
  then have "k \<le> card (idle u)" using card_mono [OF finite_idle, of "idle s" u] r by (simp add: room_def)
  moreover have "lh_n u = lh_n s" using log_fields [OF t(2)] log_fields [OF u(2)] by simp
  ultimately have "room u k" using room_step [OF r(1) st] by simp
  with rd br k st show ?thesis by blast
qed

lemma edit_total:
  assumes r: "room s (Suc k)" and n: "n < disksize s" "n \<notin> heldb s"
    and len: "length (g (bcontent s n)) = BSIZE"
  shows "\<exists>i t u v. bread 1 n s = Ret (i, t) \<and> buf_data i t = bcontent s n \<and>
    log_write i (set_data i (g (bcontent s n)) t) = Ret u \<and> brelse i u = Ret v \<and>
    room v k \<and> block_step s v \<and> bcontent v = (bcontent s)(n := g (bcontent s n))"
proof -
  let ?d = "g (bcontent s n)"
  have li: "log_inv s" and ci: "cache_inv s" using r by (auto simp: room_def log_inv_def)
  have "idle s \<noteq> {}" using r by (auto simp: room_def)
  then obtain i t where rd: "bread 1 n s = Ret (i, t)"
    using bread_returns [OF ci n(1)] n(2) by (auto simp: heldb_def)
  note ok = bread_ok [OF ci rd] and tr = bread_track [OF ci rd] and lr = logged.rd_ok [OF li rd]
  have t: "cache_inv t" "cache_step s t" "holds_buf t i n" "log_inv t" using ok lr by simp_all
  have ft: "lh_n t = lh_n s" "outstanding t = outstanding s" "log_size t = log_size s"
    using log_fields [OF t(2)] by simp_all
  let ?t = "set_data i ?d t"
  note pu = logged.put_ok [OF t(4,3) len]
  have fp: "lh_n ?t = lh_n t" "outstanding ?t = outstanding t" "log_size ?t = log_size t"
    by (simp_all add: set_data_def update_buf_def)
  obtain u where lw: "log_write i ?t = Ret u"
    using log_write_returns [of ?t i] r ft fp by (auto simp: room_def)
  have h1: "holds_buf ?t i n" "log_inv ?t" using pu t(3) by simp_all
  note wk = log_write_ok [OF h1(2,1) lw]
  have u: "log_inv u" "holds_buf u i n" "saved u i" "cache_inv u" using wk h1 by (simp_all add: log_inv_def)
  obtain v where br: "brelse i u = Ret v" and v: "cache_inv v" "cache_step u v" "bcontent v = bcontent u"
      "memdisk v = memdisk u" "disk_writes v = disk_writes u"
      "\<forall>j. b_dirty (bufs v ! j) = b_dirty (bufs u ! j) \<and> cached v j = cached u j \<and>
         b_data (bufs v ! j) = b_data (bufs u ! j)"
      "\<forall>j m. holds_buf v j m \<longleftrightarrow> holds_buf u j m \<and> j \<noteq> i"
    using brelse_ok [OF u(4,2,3)] by - (elim exE conjE, rule that, assumption+)
  from logged.edit [OF li rd len lw br] have k: "logged.keeps s v" "bcontent v = (bcontent s)(n := ?d)"
    "buf_data i t = bcontent s n" by simp_all
  then have st: "block_step s v" by (simp add: block_step_keeps)
  have "b_dirty (bufs u ! j) = b_dirty (bufs t ! j)" if "j \<noteq> i" for j
  proof -
    have "i < length (bufs t)" using holds_buf_lt [OF t(1,3)] by simp
    then show ?thesis using log_write_form [OF lw] that
      by (auto simp: update_buf_nth set_data_def)
  qed
  then have "idle s - {i} \<subseteq> idle v"
    unfolding idle_eq [OF ci] idle_eq [OF v(1)] using st v(6) tr by (auto simp: block_step_def)
  from card_mono [OF finite_idle this] have "k \<le> card (idle v)"
    using r card_Diff1_le [of "idle s" i] by (cases "i \<in> idle s") (auto simp: room_def)
  moreover have "lh_n v \<le> lh_n s + 1" using log_fields [OF v(2)] wk ft fp by simp
  ultimately have "room v k" using room_step [OF r st] by simp
  with rd lw br k st show ?thesis by blast
qed

section \<open>Bitmap blocks\<close>

lemma length_bitmap [simp]: "length (bitmap_set d i) = length d" "length (bitmap_clear d i) = length d"
  by (simp_all add: bitmap_set_def bitmap_clear_def)

lemma bitmap_index: "i < BPB \<Longrightarrow> i div 8 < BSIZE"
  by (simp add: BPB_def BSIZE_def less_mult_imp_div_less)

lemma same_bit: "(i :: nat) div 8 = j div 8 \<Longrightarrow> i mod 8 = j mod 8 \<Longrightarrow> i = j"
  by (metis div_mult_mod_eq)

lemma bitmap_get_set:
  assumes "length d = BSIZE" and "i < BPB"
  shows "bitmap_get (bitmap_set d i) j \<longleftrightarrow> bitmap_get d j \<or> i = j"
proof (cases "i div 8 = j div 8")
  case True
  then have "i mod 8 = j mod 8 \<longleftrightarrow> i = j" using same_bit by blast
  then show ?thesis using True bitmap_index [OF assms(2)] assms(1)
    by (auto simp: bitmap_get_def bitmap_set_def bit_set_bit_iff)
qed (auto simp: bitmap_get_def bitmap_set_def)

lemma bitmap_get_clear:
  assumes "length d = BSIZE" and "i < BPB"
  shows "bitmap_get (bitmap_clear d i) j \<longleftrightarrow> bitmap_get d j \<and> i \<noteq> j"
proof (cases "i div 8 = j div 8")
  case True
  then have "i mod 8 = j mod 8 \<longleftrightarrow> i = j" using same_bit by blast
  then show ?thesis using True bitmap_index [OF assms(2)] assms(1)
    by (auto simp: bitmap_get_def bitmap_clear_def bit_unset_bit_iff)
qed (auto simp: bitmap_get_def bitmap_clear_def)

section \<open>Layout of the disk\<close>

definition data_start :: "superblock \<Rightarrow> nat" where
  "data_start sb = sb_bmapstart sb + sb_size sb div BPB + 1"

definition layout :: "superblock \<Rightarrow> nat \<Rightarrow> bool" where
  "layout sb n \<longleftrightarrow> sb_inodestart sb + sb_ninodes sb div IPB < sb_bmapstart sb \<and> data_start sb \<le> sb_size sb \<and>
     sb_size sb \<le> n \<and> n \<le> 4294967296"

definition in_bitmap :: "(nat \<Rightarrow> byte list) \<Rightarrow> superblock \<Rightarrow> nat \<Rightarrow> bool" where
  "in_bitmap c sb b \<longleftrightarrow> bitmap_get (c (BBLOCK b sb)) (b mod BPB)"

text \<open>The block is marked in use.\<close>

definition allocated :: "'a fstate_scheme \<Rightarrow> nat \<Rightarrow> bool" where
  "allocated s b \<longleftrightarrow> in_bitmap (bcontent s) (fs_sb s) b"

text \<open>The blocks before the data are marked in use, and the path holds only data blocks in use.\<close>

definition blocks_ok :: "'a fstate_scheme \<Rightarrow> bool" where
  "blocks_ok s \<longleftrightarrow> layout (fs_sb s) (disksize s) \<and> (\<forall>b < data_start (fs_sb s). allocated s b) \<and>
     (\<forall>m \<in> heldb s. data_start (fs_sb s) \<le> m \<and> m < sb_size (fs_sb s) \<and> allocated s m)"

lemma BBLOCK_eq:
  assumes "layout sb n" and "b \<le> sb_size sb"
  shows "BBLOCK b sb = b div BPB + sb_bmapstart sb" "BBLOCK b sb < data_start sb" "BBLOCK b sb < n"
    "sb_bmapstart sb \<le> BBLOCK b sb"
proof -
  have "b div BPB \<le> sb_size sb div BPB" using assms(2) by (rule div_le_mono)
  then have "b div BPB + sb_bmapstart sb < data_start sb" by (simp add: data_start_def)
  moreover have "data_start sb \<le> n" "n \<le> 4294967296" using assms(1) by (auto simp: layout_def)
  ultimately show "BBLOCK b sb = b div BPB + sb_bmapstart sb" "BBLOCK b sb < data_start sb" "BBLOCK b sb < n"
    "sb_bmapstart sb \<le> BBLOCK b sb"
    by (auto simp: BBLOCK_def)
qed

text \<open>Marking one block in use, or free, changes no other mark.\<close>

lemma BBLOCK_same: "layout sb n \<Longrightarrow> b \<le> sb_size sb \<Longrightarrow> c \<le> sb_size sb \<Longrightarrow>
    BBLOCK b sb = BBLOCK c sb \<and> b mod BPB = c mod BPB \<longleftrightarrow> b = c"
  using BBLOCK_eq(1) [of sb n] by (metis add_right_cancel div_mult_mod_eq)

lemma in_bitmap_set:
  assumes l: "layout sb n" "b < sb_size sb" "c < sb_size sb" and len: "length (m (BBLOCK b sb)) = BSIZE"
  shows "in_bitmap (m(BBLOCK b sb := bitmap_set (m (BBLOCK b sb)) (b mod BPB))) sb c \<longleftrightarrow> in_bitmap m sb c \<or> c = b"
  using BBLOCK_same [OF l(1), of b c] l(2,3) bitmap_get_set [OF len, of "b mod BPB" "c mod BPB"]
  by (auto simp: in_bitmap_def BPB_def)

lemma in_bitmap_clear:
  assumes l: "layout sb n" "b < sb_size sb" "c < sb_size sb" and len: "length (m (BBLOCK b sb)) = BSIZE"
  shows "in_bitmap (m(BBLOCK b sb := bitmap_clear (m (BBLOCK b sb)) (b mod BPB))) sb c \<longleftrightarrow> in_bitmap m sb c \<and> c \<noteq> b"
  using BBLOCK_same [OF l(1), of b c] l(2,3) bitmap_get_clear [OF len, of "b mod BPB" "c mod BPB"]
  by (auto simp: in_bitmap_def BPB_def)

lemma in_bitmap_data:
  assumes "layout sb n" and "c < sb_size sb" and "data_start sb \<le> b"
  shows "in_bitmap (m(b := d)) sb c \<longleftrightarrow> in_bitmap m sb c"
  using BBLOCK_eq(2) [OF assms(1), of c] assms by (auto simp: in_bitmap_def)

section \<open>Allocating and freeing blocks\<close>

lemma bzero_total:
  assumes "room s (Suc k)" and "b < disksize s" and "b \<notin> heldb s"
  shows "\<exists>t. bzero 1 b s = Ret t \<and> room t k \<and> block_step s t \<and> bcontent t = (bcontent s)(b := replicate BSIZE 0)"
  using edit_total [OF assms, of "\<lambda>_. replicate BSIZE 0"] by (auto simp: bzero_def)

text \<open>The scan of \<open>balloc\<close> from block \<open>i * BPB\<close>.\<close>

lemma balloc_scan_total:
  fixes s :: "'a fstate_scheme"
  assumes "room s (k + 2)" and "blocks_ok s" and "\<forall>c < i * BPB. c < sb_size (fs_sb s) \<longrightarrow> allocated s c"
    and "n = (sb_size (fs_sb s) + (BPB - 1)) div BPB" and "\<exists>c < sb_size (fs_sb s). \<not> allocated s c"
  shows "\<exists>b t. balloc_scan 1 (map (\<lambda>k. k * BPB) [i..<n]) s = Ret (b, t) \<and> room t k \<and> block_step s t \<and>
    b < sb_size (fs_sb s) \<and> \<not> allocated s b \<and> (\<forall>c < b. allocated s c) \<and>
    bcontent t = (bcontent s)(BBLOCK b (fs_sb s) := bitmap_set (bcontent s (BBLOCK b (fs_sb s))) (b mod BPB),
      b := replicate BSIZE 0)"
  using assms
proof (induction "n - i" arbitrary: i s)
  case (0 i s)
  have "sb_size (fs_sb s) \<le> n * BPB"
    using "0.prems"(4) div_mult_mod_eq [of "sb_size (fs_sb s) + (BPB - 1)" BPB]
      mod_less_divisor [of BPB "sb_size (fs_sb s) + (BPB - 1)"] by (simp add: BPB_def)
  moreover have "n * BPB \<le> i * BPB" using "0.hyps" by simp
  ultimately show ?case using "0.prems"(3,5) by (meson le_trans less_le_trans)
next
  case (Suc x i s)
  let ?sb = "fs_sb s"
  let ?B = "BBLOCK (i * BPB) ?sb" and ?P = "\<lambda>d bi. \<not> bitmap_get d bi"
  have i: "i < n" using Suc.hyps(2) by simp
  then have starts: "map (\<lambda>k. k * BPB) [i..<n] = i * BPB # map (\<lambda>k. k * BPB) [Suc i..<n]" by (simp add: upt_conv_Cons)
  have lay: "layout ?sb (disksize s)" using Suc.prems(2) by (simp add: blocks_ok_def)
  have "i * BPB < sb_size ?sb"
  proof -
    have "Suc i * BPB \<le> n * BPB" using i by (intro mult_right_mono) auto
    also have "\<dots> \<le> sb_size ?sb + (BPB - 1)" unfolding Suc.prems(4) by (rule div_times_less_eq_dividend)
    finally show ?thesis by (simp add: BPB_def)
  qed
  then have ib: "i * BPB < sb_size ?sb" "i * BPB \<le> sb_size ?sb" by simp_all
  note B = BBLOCK_eq [OF lay ib(2)]
  have nh: "?B \<notin> heldb s" using B(2) Suc.prems(2) by (auto simp: blocks_ok_def)
  let ?f = "find (?P (bcontent s ?B)) [0..<min BPB (sb_size ?sb - i * BPB)]"
  have at: "BBLOCK (i * BPB + bi) ?sb = ?B \<and> (i * BPB + bi) mod BPB = bi" if "bi < min BPB (sb_size ?sb - i * BPB)" for bi
  proof -
    have "bi < BPB" "i * BPB + bi \<le> sb_size ?sb" using that by linarith+
    then show ?thesis using BBLOCK_eq(1) [OF lay, of "i * BPB + bi"] B(1) by (simp add: BPB_def)
  qed
  show ?case
  proof (cases ?f)
    case None
    obtain j t u where r: "bread 1 ?B s = Ret (j, t)" "brelse j t = Ret u" "buf_data j t = bcontent s ?B"
      and u: "room u (k + 2)" "block_step s u" "bcontent u = bcontent s"
      using look_total [OF Suc.prems(1) _ B(3) nh] by auto
    note f = block_step_fs [OF u(2)] block_step_simps [OF u(2)]
    have al: "allocated u = allocated s" unfolding allocated_def [abs_def] u(3) f(2) ..
    have "\<forall>bi < min BPB (sb_size ?sb - i * BPB). bitmap_get (bcontent s ?B) bi"
      using find_None_all [THEN iffD1, OF None] by simp
    then have blk: "allocated s (i * BPB + bi)" if "bi < min BPB (sb_size ?sb - i * BPB)" for bi
      using at [OF that] that by (simp add: allocated_def in_bitmap_def)
    have "\<forall>c < Suc i * BPB. c < sb_size ?sb \<longrightarrow> allocated s c"
    proof (intro allI impI)
      fix c assume c: "c < Suc i * BPB" "c < sb_size ?sb"
      show "allocated s c"
      proof (cases "c < i * BPB")
        case True
        then show ?thesis using Suc.prems(3) c by simp
      next
        case False
        then have "c = i * BPB + (c - i * BPB)" "c - i * BPB < min BPB (sb_size ?sb - i * BPB)" using c by auto
        then show ?thesis using blk by metis
      qed
    qed
    then have IH: "\<exists>b t. balloc_scan 1 (map (\<lambda>k. k * BPB) [Suc i..<n]) u = Ret (b, t) \<and> room t k \<and> block_step u t \<and>
      b < sb_size (fs_sb u) \<and> \<not> allocated u b \<and> (\<forall>c < b. allocated u c) \<and>
      bcontent t = (bcontent u)(BBLOCK b (fs_sb u) := bitmap_set (bcontent u (BBLOCK b (fs_sb u))) (b mod BPB),
        b := replicate BSIZE 0)"
      using Suc.hyps(2) Suc.prems u f al by (intro Suc.hyps(1)) (simp_all add: blocks_ok_def)
    obtain b w where w: "balloc_scan 1 (map (\<lambda>k. k * BPB) [Suc i..<n]) u = Ret (b, w)" "room w k" "block_step u w"
      "b < sb_size ?sb" "\<not> allocated s b" "\<forall>c < b. allocated s c"
      "bcontent w = (bcontent s)(BBLOCK b ?sb := bitmap_set (bcontent s (BBLOCK b ?sb)) (b mod BPB),
        b := replicate BSIZE 0)"
      using IH unfolding f(2) al u(3) by - (elim exE conjE, rule that, assumption+)
    moreover have "balloc_scan 1 (map (\<lambda>k. k * BPB) [i..<n]) s = balloc_scan 1 (map (\<lambda>k. k * BPB) [Suc i..<n]) u"
      unfolding starts using r None bread_fs [OF r(1)] by simp
    ultimately show ?thesis using block_step_trans [OF u(2) w(3)] by auto
  next
    case (Some bi)
    then have bi: "bi < min BPB (sb_size ?sb - i * BPB)" "\<not> bitmap_get (bcontent s ?B) bi"
        "\<forall>c < bi. bitmap_get (bcontent s ?B) c"
      by (auto simp: find_Some_iff)
    let ?b = "i * BPB + bi"
    note a = at [OF bi(1)]
    have b: "?b < sb_size ?sb" "\<not> allocated s ?b" using a bi by (auto simp: allocated_def in_bitmap_def)
    have first: "allocated s c" if "c < ?b" for c
    proof (cases "c < i * BPB")
      case True
      then show ?thesis using Suc.prems(3) that b(1) by simp
    next
      case False
      then have c: "c = i * BPB + (c - i * BPB)" "c - i * BPB < bi" using that by auto
      then have "c - i * BPB < min BPB (sb_size ?sb - i * BPB)" using bi(1) by simp
      from at [OF this] show ?thesis using bi(3) c by (simp add: allocated_def in_bitmap_def)
    qed
    have ds: "data_start ?sb \<le> ?b" using Suc.prems(2) b(2) by (auto simp: blocks_ok_def not_le [symmetric])
    obtain j t u v where r: "bread 1 ?B s = Ret (j, t)" "buf_data j t = bcontent s ?B"
        "log_write j (set_data j (bitmap_set (bcontent s ?B) bi) t) = Ret u" "brelse j u = Ret v"
      and v: "room v (k + 1)" "block_step s v" "bcontent v = (bcontent s)(?B := bitmap_set (bcontent s ?B) bi)"
      using edit_total [of s "k + 1" ?B "\<lambda>d. bitmap_set d bi"] Suc.prems(1) B(3) nh
        length_bcontent [of s ?B] by (auto simp: room_def log_inv_def)
    note f = block_step_fs [OF v(2)] block_step_simps [OF v(2)]
    have "?b \<notin> heldb v" using b(2) f Suc.prems(2) by (auto simp: blocks_ok_def)
    moreover have "?b < disksize v" using b(1) f lay by (simp add: layout_def)
    ultimately obtain w where w: "bzero 1 ?b v = Ret w" "room w k" "block_step v w"
        "bcontent w = (bcontent v)(?b := replicate BSIZE 0)"
      using bzero_total [of v k ?b] v(1) by auto
    have "balloc_scan 1 (map (\<lambda>k. k * BPB) [i..<n]) s = Ret (?b, w)"
      unfolding starts using r w(1) Some bread_fs [OF r(1)] by simp
    moreover have "block_step s w" using v(2) w(3) by (rule block_step_trans)
    ultimately show ?thesis using w v(3) b first a by auto
  qed
qed

text \<open>\<open>balloc\<close> returns the first free block, marked in use and zeroed.\<close>

lemma balloc_total:
  fixes s :: "'a fstate_scheme"
  assumes r: "room s (k + 2)" and ok: "blocks_ok s" and free: "\<exists>c < sb_size (fs_sb s). \<not> allocated s c"
  shows "\<exists>b t. balloc 1 s = Ret (b, t) \<and> room t k \<and> block_step s t \<and> blocks_ok t \<and>
    data_start (fs_sb s) \<le> b \<and> b < sb_size (fs_sb s) \<and> \<not> allocated s b \<and> (\<forall>c < b. allocated s c) \<and>
    (\<forall>c < sb_size (fs_sb s). allocated t c \<longleftrightarrow> allocated s c \<or> c = b) \<and>
    bcontent t b = replicate BSIZE 0 \<and>
    (\<forall>m. m \<noteq> b \<longrightarrow> data_start (fs_sb s) \<le> m \<or> m < sb_bmapstart (fs_sb s) \<longrightarrow> bcontent t m = bcontent s m)"
proof -
  let ?sb = "fs_sb s"
  obtain b t where r1: "balloc 1 s = Ret (b, t)" and t: "room t k" "block_step s t" and
    b: "b < sb_size ?sb" "\<not> allocated s b" "\<forall>c < b. allocated s c" and
    c: "bcontent t = (bcontent s)(BBLOCK b ?sb := bitmap_set (bcontent s (BBLOCK b ?sb)) (b mod BPB),
      b := replicate BSIZE 0)"
    using balloc_scan_total [OF r ok, of 0, OF _ refl free] unfolding balloc_def by auto
  have lay: "layout ?sb (disksize s)" using ok by (simp add: blocks_ok_def)
  have ds: "data_start ?sb \<le> b" using ok b(2) by (auto simp: blocks_ok_def not_le [symmetric])
  note f = block_step_fs [OF t(2)] block_step_simps [OF t(2)]
  have "cache_inv s" using r by (simp add: room_def log_inv_def)
  then have len: "length (bcontent s (BBLOCK b ?sb)) = BSIZE" by (rule length_bcontent)
  have al: "allocated t c \<longleftrightarrow> allocated s c \<or> c = b" if "c < sb_size ?sb" for c
    unfolding allocated_def f(2) c in_bitmap_data [OF lay that ds]
    using in_bitmap_set [of ?sb "disksize s" b c "bcontent s"] lay b(1) that len by simp
  have lt: "m < sb_size ?sb" if "m < data_start ?sb" for m using that lay by (simp add: layout_def)
  have ok': "blocks_ok t"
    using ok lt al f unfolding blocks_ok_def by auto
  note B = BBLOCK_eq [OF lay, of b]
  have "BBLOCK b ?sb \<noteq> b" using B b(1) ds by simp
  then have z: "bcontent t b = replicate BSIZE 0" by (simp add: c)
  have "\<forall>m. m \<noteq> b \<longrightarrow> data_start ?sb \<le> m \<or> m < sb_bmapstart ?sb \<longrightarrow> bcontent t m = bcontent s m"
    using B b(1) by (auto simp: c)
  with r1 t ok' ds b al z show ?thesis by blast
qed

lemma bfree_total:
  fixes s :: "'a fstate_scheme"
  assumes r: "room s (Suc k)" and ok: "blocks_ok s" and b: "data_start (fs_sb s) \<le> b" "b < sb_size (fs_sb s)"
    "allocated s b" "b \<notin> heldb s"
  shows "\<exists>t. bfree 1 b s = Ret t \<and> room t k \<and> block_step s t \<and> blocks_ok t \<and>
    (\<forall>c < sb_size (fs_sb s). allocated t c \<longleftrightarrow> allocated s c \<and> c \<noteq> b) \<and>
    (\<forall>m. data_start (fs_sb s) \<le> m \<or> m < sb_bmapstart (fs_sb s) \<longrightarrow> bcontent t m = bcontent s m)"
proof -
  let ?sb = "fs_sb s"
  let ?B = "BBLOCK b ?sb"
  have lay: "layout ?sb (disksize s)" using ok by (simp add: blocks_ok_def)
  note B = BBLOCK_eq [OF lay, of b]
  have "cache_inv s" using r by (simp add: room_def log_inv_def)
  then have len: "length (bcontent s ?B) = BSIZE" by (rule length_bcontent)
  have "?B \<notin> heldb s" using B(2) b(2) ok by (auto simp: blocks_ok_def)
  then obtain i t u v where run: "bread 1 ?B s = Ret (i, t)" "buf_data i t = bcontent s ?B"
      "log_write i (set_data i (bitmap_clear (bcontent s ?B) (b mod BPB)) t) = Ret u" "brelse i u = Ret v"
    and v: "room v k" "block_step s v"
      "bcontent v = (bcontent s)(?B := bitmap_clear (bcontent s ?B) (b mod BPB))"
    using edit_total [OF r, of ?B "\<lambda>d. bitmap_clear d (b mod BPB)"] B b(2) len by auto
  note f = block_step_fs [OF v(2)] block_step_simps [OF v(2)]
  have "bitmap_get (bcontent s ?B) (b mod BPB)" using b(3) by (simp add: allocated_def in_bitmap_def)
  then have "bfree 1 b s = Ret v" using run bread_fs [OF run(1)] by (simp add: bfree_def Let_def)
  moreover have al: "allocated v c \<longleftrightarrow> allocated s c \<and> c \<noteq> b" if "c < sb_size ?sb" for c
    unfolding allocated_def f(2) v(3)
    using in_bitmap_clear [of ?sb "disksize s" b c "bcontent s"] lay b(2) that len by simp
  have lt: "m < sb_size ?sb" if "m < data_start ?sb" for m using that lay by (simp add: layout_def)
  have "blocks_ok v" using ok lt al f b(1,4) unfolding blocks_ok_def by auto
  moreover have "\<forall>m. data_start ?sb \<le> m \<or> m < sb_bmapstart ?sb \<longrightarrow> bcontent v m = bcontent s m"
    using B b(2) by (auto simp: v(3))
  ultimately show ?thesis using v al by blast
qed

text \<open>Freeing a free block is a panic.\<close>

lemma bfree_panic:
  fixes s :: "'a fstate_scheme"
  assumes "room s (Suc k)" and "blocks_ok s" and b: "b < sb_size (fs_sb s)" "\<not> allocated s b"
  shows "bfree 1 b s = Panic ''freeing free block''"
proof -
  let ?B = "BBLOCK b (fs_sb s)"
  have lay: "layout (fs_sb s) (disksize s)" using assms(2) by (simp add: blocks_ok_def)
  note B = BBLOCK_eq [OF lay, of b]
  have "?B \<notin> heldb s" using B(2) b(1) assms(2) by (auto simp: blocks_ok_def)
  then obtain i t u where "bread 1 ?B s = Ret (i, t)" "buf_data i t = bcontent s ?B"
    using look_total [OF assms(1), of ?B] B b(1) by auto
  then show ?thesis using b(2) by (simp add: bfree_def Let_def allocated_def in_bitmap_def)
qed

section \<open>Working with a block while other blocks change\<close>

text \<open>\<open>hold s i n t\<close>: \<open>t\<close> is \<open>s\<close> with buffer \<open>i\<close> held for block \<open>n\<close>.\<close>

definition hold :: "'a lstate_scheme \<Rightarrow> nat \<Rightarrow> nat \<Rightarrow> 'a lstate_scheme \<Rightarrow> bool" where
  "hold s i n t \<longleftrightarrow> log_inv t \<and> log_frame s t \<and> (\<forall>j m. holds_buf t j m \<longleftrightarrow> j = i \<and> m = n \<or> holds_buf s j m) \<and>
     (\<forall>j m. holds_buf s j m \<longrightarrow> j \<noteq> i \<and> m \<noteq> n \<and> saved t j = saved s j)"

lemma hold_total:
  assumes r: "room s (Suc k)" and n: "n < disksize s" "n \<notin> heldb s"
  shows "\<exists>i t. bread 1 n s = Ret (i, t) \<and> hold s i n t \<and> saved t i \<and> room t k \<and> bcontent t = bcontent s \<and>
    buf_data i t = bcontent s n"
proof -
  have li: "log_inv s" and ci: "cache_inv s" using r by (auto simp: room_def log_inv_def)
  have "idle s \<noteq> {}" using r by (auto simp: room_def)
  then obtain i t where rd: "bread 1 n s = Ret (i, t)"
    using bread_returns [OF ci n(1)] n(2) by (auto simp: heldb_def)
  note ok = logged.rd_ok [OF li rd] and tr = bread_track [OF ci rd] and st = bread_step [OF rd]
  have "hold s i n t" "saved t i" "bcontent t = bcontent s" using ok by (simp_all add: hold_def)
  moreover have "k \<le> card (idle t)"
    using r tr card_Diff1_le [of "idle s" i] by (cases "i \<in> idle s") (auto simp: room_def)
  then have "room t k" using r ok log_fields [OF st] by (simp add: room_def)
  moreover have "buf_data i t = bcontent t n" using logged.get_ok [of t i n] ok by simp
  ultimately show ?thesis using rd by simp
qed

text \<open>Steps in between keep the hold.\<close>

lemma hold_step:
  assumes h: "hold s i n t" and st: "block_step t u"
  shows "hold s i n u" and "saved u i = saved t i"
proof -
  have "holds_buf t i n" using h by (simp add: hold_def)
  then show "saved u i = saved t i" using st unfolding block_step_def by blast
  have "log_frame s u" using h st log_frame_trans by (auto simp: hold_def block_step_def)
  then show "hold s i n u" using h st by (auto simp: hold_def block_step_def)
qed

lemma brelse_track:
  assumes ci: "cache_inv t" and h: "holds_buf t i n" and br: "saved t i"
  shows "\<exists>v. brelse i t = Ret v \<and> log_frame t v \<and> lh_n v = lh_n t \<and> idle t \<subseteq> idle v"
proof -
  obtain v where r: "brelse i t = Ret v" and v: "cache_inv v" "cache_step t v" "bcontent v = bcontent t"
      "memdisk v = memdisk t" "disk_writes v = disk_writes t"
      "\<forall>j. b_dirty (bufs v ! j) = b_dirty (bufs t ! j) \<and> cached v j = cached t j \<and>
         b_data (bufs v ! j) = b_data (bufs t ! j)"
      "\<forall>j m. holds_buf v j m \<longleftrightarrow> holds_buf t j m \<and> j \<noteq> i"
    using brelse_ok [OF ci h br] by - (elim exE conjE, rule that, assumption+)
  have "idle t \<subseteq> idle v" unfolding idle_eq [OF ci] idle_eq [OF v(1)] using v(6,7) by auto
  then show ?thesis using r log_frame_cache [OF v(2)] log_fields [OF v(2)] by blast
qed

lemma hold_release:
  assumes h: "hold s i n t" and sv: "saved t i" and r: "room t k"
  shows "\<exists>v. brelse i t = Ret v \<and> room v k \<and> block_step s v \<and> bcontent v = bcontent t"
proof -
  have hi: "holds_buf t i n" "log_inv t" "cache_inv t" using h by (auto simp: hold_def log_inv_def)
  obtain v where v: "brelse i t = Ret v" "log_frame t v" "lh_n v = lh_n t" "idle t \<subseteq> idle v"
    using brelse_track [OF hi(3,1) sv] by blast
  from logged.rel_ok [OF hi(2,1) sv] v(1)
  have k: "log_inv v" "bcontent v = bcontent t" "\<forall>j m. holds_buf v j m \<longleftrightarrow> holds_buf t j m \<and> j \<noteq> i"
    "\<forall>j m. holds_buf t j m \<longrightarrow> j \<noteq> i \<longrightarrow> saved v j = saved t j" by auto
  have "holds_buf v = holds_buf s" using h k(3) by (auto simp: hold_def fun_eq_iff)
  moreover have "log_frame s v" using h v(2) log_frame_trans by (auto simp: hold_def)
  moreover have "\<forall>j m. holds_buf s j m \<longrightarrow> saved v j = saved s j" using h k(4) by (auto simp: hold_def)
  ultimately have "block_step s v" using k(1) by (simp add: block_step_def)
  moreover have "k \<le> card (idle v)" using card_mono [OF finite_idle v(4)] r by (simp add: room_def)
  then have "room v k" using r k(1) v(3) log_frame_fields [OF v(2)] by (simp add: room_def)
  ultimately show ?thesis using v(1) k(2) by blast
qed

lemma hold_save:
  assumes h: "hold s i n t" and r: "room t (Suc k)" and len: "length d = BSIZE"
  shows "\<exists>u v. log_write i (set_data i d t) = Ret u \<and> brelse i u = Ret v \<and> room v k \<and> block_step s v \<and>
    bcontent v = (bcontent t)(n := d)"
proof -
  have hi: "holds_buf t i n" "log_inv t" "cache_inv t" using h by (auto simp: hold_def log_inv_def)
  let ?t = "set_data i d t"
  note pu = logged.put_ok [OF hi(2,1) len]
  have fp: "lh_n ?t = lh_n t" "outstanding ?t = outstanding t" "log_size ?t = log_size t"
    by (simp_all add: set_data_def update_buf_def)
  obtain u where lw: "log_write i ?t = Ret u"
    using log_write_returns [of ?t i] r fp by (auto simp: room_def)
  have h1: "holds_buf ?t i n" "log_inv ?t" using pu hi by simp_all
  note wk = log_write_ok [OF h1(2,1) lw]
  have u: "log_inv u" "cache_inv u" "saved u i" "holds_buf u = holds_buf t" using wk pu by (simp_all add: log_inv_def)
  have "log_frame s t" "log_frame t ?t" "log_frame ?t u" using h pu wk by (simp_all add: hold_def)
  then have fr: "log_frame s u" by (meson log_frame_trans)
  have sv: "saved u j = saved s j" if "holds_buf s j m" for j m
  proof -
    have j: "j \<noteq> i" "saved t j = saved s j" "holds_buf t j m" using h that by (auto simp: hold_def)
    moreover from this have "saved ?t j = saved t j" "holds_buf ?t j m" using pu by auto
    ultimately show ?thesis using wk by auto
  qed
  have hu: "hold s i n u"
    unfolding hold_def using h u(1,4) fr sv by (simp add: hold_def)
  have "b_dirty (bufs u ! j) = b_dirty (bufs t ! j)" if "j \<noteq> i" for j
    using log_write_form [OF lw] that holds_buf_lt [OF hi(3,1)] by (auto simp: update_buf_nth set_data_def)
  then have "idle t \<subseteq> idle u"
    unfolding idle_eq [OF hi(3)] idle_eq [OF u(2)] u(4) using hi(1) by (auto, metis)
  then have "k \<le> card (idle u)" using card_mono [OF finite_idle, of "idle t" u] r by (simp add: room_def)
  then have "room u k" using r u(1) wk fp log_frame_fields [of ?t u] by (auto simp: room_def)
  from hold_release [OF hu u(3) this] show ?thesis using lw wk pu by auto
qed

end
