(* ===== verification/Fs_Content.thy ===== *)
theory Fs_Content
  imports Fs_Blocks
begin

text \<open>
  The content of an inode as one array of bytes: \<open>bmap\<close> may allocate blocks but does not
  change the array, \<open>readi\<close> reads it and \<open>writei\<close> changes exactly the bytes it is given.
\<close>

section \<open>The abstract content\<close>

text \<open>The disk block of file block \<open>n\<close>, 0 when there is none; the data of file block \<open>n\<close>.\<close>

definition addr_of :: "(nat \<Rightarrow> byte list) \<Rightarrow> dinode \<Rightarrow> nat \<Rightarrow> nat" where
  "addr_of c d n =
     (if n < NDIRECT then di_addrs d ! n
      else if di_addrs d ! NDIRECT = 0 then 0 else word_at (c (di_addrs d ! NDIRECT)) (n - NDIRECT))"

definition fblock :: "(nat \<Rightarrow> byte list) \<Rightarrow> dinode \<Rightarrow> nat \<Rightarrow> byte list" where
  "fblock c d n = (if addr_of c d n = 0 then replicate BSIZE 0 else c (addr_of c d n))"

definition fbyte :: "(nat \<Rightarrow> byte list) \<Rightarrow> dinode \<Rightarrow> nat \<Rightarrow> byte" where
  "fbyte c d i = fblock c d (i div BSIZE) ! (i mod BSIZE)"

definition data_block :: "'a fstate_scheme \<Rightarrow> nat \<Rightarrow> bool" where
  "data_block s a \<longleftrightarrow> data_start (fs_sb s) \<le> a \<and> a < sb_size (fs_sb s) \<and> allocated s a"

text \<open>The blocks of a file are data blocks in use, no two of them the same.\<close>

definition file_ok :: "'a fstate_scheme \<Rightarrow> dinode \<Rightarrow> bool" where
  "file_ok s d \<longleftrightarrow> length (di_addrs d) = NDIRECT + 1 \<and>
     (\<forall>i \<le> NDIRECT. di_addrs d ! i = 0 \<or> data_block s (di_addrs d ! i)) \<and>
     (\<forall>n < MAXFILE. addr_of (bcontent s) d n = 0 \<or> data_block s (addr_of (bcontent s) d n)) \<and>
     (\<forall>n < MAXFILE. \<forall>m < MAXFILE. addr_of (bcontent s) d n = addr_of (bcontent s) d m \<longrightarrow>
        addr_of (bcontent s) d n \<noteq> 0 \<longrightarrow> n = m) \<and>
     (\<forall>n < MAXFILE. addr_of (bcontent s) d n \<noteq> 0 \<longrightarrow> addr_of (bcontent s) d n \<noteq> di_addrs d ! NDIRECT)"

lemma file_okD:
  assumes "file_ok s d"
  shows "length (di_addrs d) = NDIRECT + 1"
    "i \<le> NDIRECT \<Longrightarrow> di_addrs d ! i = 0 \<or> data_block s (di_addrs d ! i)"
    "n < MAXFILE \<Longrightarrow> addr_of (bcontent s) d n = 0 \<or> data_block s (addr_of (bcontent s) d n)"
    "n < MAXFILE \<Longrightarrow> m < MAXFILE \<Longrightarrow> addr_of (bcontent s) d n = addr_of (bcontent s) d m \<Longrightarrow>
       addr_of (bcontent s) d n \<noteq> 0 \<Longrightarrow> n = m"
    "n < MAXFILE \<Longrightarrow> addr_of (bcontent s) d n \<noteq> 0 \<Longrightarrow> addr_of (bcontent s) d n \<noteq> di_addrs d ! NDIRECT"
  using assms unfolding file_ok_def by blast+

lemma addr_of_direct: "n < NDIRECT \<Longrightarrow> addr_of c d n = di_addrs d ! n"
  by (simp add: addr_of_def)

lemma addr_of_indirect:
  "k < NINDIRECT \<Longrightarrow> di_addrs d ! NDIRECT \<noteq> 0 \<Longrightarrow> addr_of c d (NDIRECT + k) = word_at (c (di_addrs d ! NDIRECT)) k"
  by (simp add: addr_of_def)

text \<open>From \<open>s\<close> to \<open>t\<close> the data blocks in use stay and keep their data.\<close>

definition data_same :: "'a fstate_scheme \<Rightarrow> 'a fstate_scheme \<Rightarrow> bool" where
  "data_same s t \<longleftrightarrow> fs_sb t = fs_sb s \<and> (\<forall>a. data_block s a \<longrightarrow> data_block t a \<and> bcontent t a = bcontent s a)"

lemma data_same_refl [simp]: "data_same s s"
  by (simp add: data_same_def)

lemma data_same_trans [trans]: "data_same s t \<Longrightarrow> data_same t u \<Longrightarrow> data_same s u"
  by (auto simp: data_same_def)

lemma addr_of_same:
  assumes "data_same s t" and "file_ok s d"
  shows "addr_of (bcontent t) d n = addr_of (bcontent s) d n"
  using assms file_okD(2) [OF assms(2), of NDIRECT] by (auto simp: addr_of_def data_same_def)

lemma file_ok_same:
  assumes "data_same s t" and "file_ok s d" shows "file_ok t d"
  using assms(1,2) unfolding file_ok_def addr_of_same [OF assms] by (auto simp: data_same_def)

lemma fblock_same:
  assumes "data_same s t" and "file_ok s d" and "n < MAXFILE"
  shows "fblock (bcontent t) d n = fblock (bcontent s) d n"
  using assms file_okD(3) [OF assms(2,3)] by (auto simp: fblock_def addr_of_same [OF assms(1,2)] data_same_def)

lemma data_same_inodes [simp]:
  "data_block (upd_inode ip f s) = data_block s" "data_same s (upd_inode ip f t) = data_same s t"
  "file_ok (upd_inode ip f s) d = file_ok s d" "blocks_ok (upd_inode ip f s) = blocks_ok s"
  by (simp_all add: data_block_def allocated_def fun_eq_iff data_same_def file_ok_def blocks_ok_def)

text \<open>From \<open>s\<close> to \<open>t\<close> the blocks before the bitmap, which hold the log and the inodes, keep their data.\<close>

definition meta_kept :: "'a fstate_scheme \<Rightarrow> 'a fstate_scheme \<Rightarrow> bool" where
  "meta_kept s t \<longleftrightarrow> (\<forall>m < sb_bmapstart (fs_sb s). bcontent t m = bcontent s m)"

lemma meta_kept_same [simp]: "bcontent t = bcontent s \<Longrightarrow> meta_kept s t"
  by (simp add: meta_kept_def)

lemma meta_kept_upd: "meta_kept s t \<Longrightarrow> bcontent u = (bcontent t)(a := x) \<Longrightarrow> data_start (fs_sb s) \<le> a \<Longrightarrow> meta_kept s u"
  by (simp add: meta_kept_def data_start_def)

lemma balloc_same:
  fixes s :: "'a fstate_scheme"
  assumes r: "room s (k + 2)" and ok: "blocks_ok s" and free: "\<exists>c < sb_size (fs_sb s). \<not> allocated s c"
  shows "\<exists>b t. balloc 1 s = Ret (b, t) \<and> room t k \<and> block_step s t \<and> blocks_ok t \<and> data_same s t \<and>
    data_block t b \<and> \<not> data_block s b \<and> bcontent t b = replicate BSIZE 0 \<and> 0 < b \<and> b < 4294967296 \<and>
    (\<forall>c < sb_size (fs_sb s). allocated t c \<longleftrightarrow> allocated s c \<or> c = b) \<and> meta_kept s t"
proof -
  obtain b t where b: "balloc 1 s = Ret (b, t)" "room t k" "block_step s t" "blocks_ok t"
    "data_start (fs_sb s) \<le> b" "b < sb_size (fs_sb s)" "\<not> allocated s b" "\<forall>c < b. allocated s c"
    "\<forall>c < sb_size (fs_sb s). allocated t c \<longleftrightarrow> allocated s c \<or> c = b" "bcontent t b = replicate BSIZE 0"
    "\<forall>m. m \<noteq> b \<longrightarrow> data_start (fs_sb s) \<le> m \<or> m < sb_bmapstart (fs_sb s) \<longrightarrow> bcontent t m = bcontent s m"
    using balloc_total [OF assms] by - (elim exE conjE, rule that, assumption+)
  note f = block_step_fs [OF b(3)]
  have "data_same s t" unfolding data_same_def data_block_def f using b(7,9,11) by auto
  moreover have "data_block t b" "\<not> data_block s b" using b f by (auto simp: data_block_def)
  moreover have "0 < b" using b(5) by (simp add: data_start_def)
  moreover have "b < 4294967296" using b(6) ok by (auto simp: blocks_ok_def layout_def)
  moreover have "meta_kept s t" unfolding meta_kept_def using b(5,11) by (auto simp: data_start_def)
  ultimately show ?thesis using b by blast
qed

section \<open>Adding a block to a file\<close>

text \<open>A fresh block as entry \<open>i\<close> of the inode.\<close>

lemma add_entry:
  assumes ok: "file_ok t d" and i: "i \<le> NDIRECT" "di_addrs d ! i = 0"
    and b: "data_block t b" "b \<noteq> 0" "bcontent t b = replicate BSIZE 0"
    and new: "\<And>j. j \<le> NDIRECT \<Longrightarrow> di_addrs d ! j \<noteq> b" "\<And>n. n < MAXFILE \<Longrightarrow> addr_of (bcontent t) d n \<noteq> b"
  defines "e \<equiv> d\<lparr>di_addrs := (di_addrs d)[i := b]\<rparr>"
  shows "addr_of (bcontent t) e n = (if n = i \<and> n < NDIRECT then b else if n < MAXFILE then addr_of (bcontent t) d n
      else addr_of (bcontent t) e n)"
    and "file_ok t e" and "n < MAXFILE \<Longrightarrow> fblock (bcontent t) e n = fblock (bcontent t) d n"
proof -
  let ?a = "addr_of (bcontent t)"
  have len: "length (di_addrs d) = NDIRECT + 1" by (rule file_okD(1) [OF ok])
  have a: "?a e n = (if n = i \<and> n < NDIRECT then b else ?a d n)" if n: "n < MAXFILE" for n
  proof (cases "i = NDIRECT \<and> NDIRECT \<le> n")
    case True
    then have "n - NDIRECT < NINDIRECT" using n unfolding MAXFILE_def by linarith
    then have "4 * (n - NDIRECT) + 4 \<le> BSIZE" by (simp add: NINDIRECT_def BSIZE_def)
    then show ?thesis using True len b i word_at_zeros by (simp add: addr_of_def e_def)
  next
    case False
    then show ?thesis using len i by (auto simp: addr_of_def e_def nth_list_update)
  qed
  then show "?a e n = (if n = i \<and> n < NDIRECT then b else if n < MAXFILE then ?a d n else ?a e n)"
    by (auto simp: MAXFILE_def)
  have z: "?a d i = 0" if "i < NDIRECT" using i that by (simp add: addr_of_def)
  have ent: "di_addrs e ! j = (if j = i then b else di_addrs d ! j)" if "j \<le> NDIRECT" for j
    using that len by (simp add: e_def nth_list_update)
  show "file_ok t e"
    unfolding file_ok_def
  proof (intro conjI allI impI)
    show "length (di_addrs e) = NDIRECT + 1" using len by (simp add: e_def)
    show "di_addrs e ! j = 0 \<or> data_block t (di_addrs e ! j)" if "j \<le> NDIRECT" for j
      using ent [OF that] file_okD(2) [OF ok that] b by auto
    show "?a e n = 0 \<or> data_block t (?a e n)" if "n < MAXFILE" for n
      using a [OF that] file_okD(3) [OF ok that] b by auto
    show "n = m" if "n < MAXFILE" "m < MAXFILE" "?a e n = ?a e m" "?a e n \<noteq> 0" for n m
      using that(3,4) file_okD(4) [OF ok that(1,2)] new(2) [OF that(1)] new(2) [OF that(2)]
      unfolding a [OF that(1)] a [OF that(2)] by (simp split: if_split_asm)
    show "?a e n \<noteq> di_addrs e ! NDIRECT" if "n < MAXFILE" "?a e n \<noteq> 0" for n
      using a [OF that(1)] ent [of NDIRECT] file_okD(5) [OF ok that(1)] new(2) [OF that(1)] new(1) [of NDIRECT] that(2) i
      by (auto split: if_splits)
  qed
  show "fblock (bcontent t) e n = fblock (bcontent t) d n" if "n < MAXFILE"
    using a [OF that] z b i by (auto simp: fblock_def)
qed

text \<open>A fresh block as entry \<open>k\<close> of the indirect block.\<close>

lemma add_indirect:
  assumes ok: "file_ok t d" and p: "p = di_addrs d ! NDIRECT" "p \<noteq> 0" and k: "k < NINDIRECT"
    and z: "word_at (bcontent t p) k = 0" and len: "length (bcontent t p) = BSIZE"
    and b: "data_block t b" "b \<noteq> 0" "bcontent t b = replicate BSIZE 0" "b < 4294967296"
    and new: "\<And>j. j \<le> NDIRECT \<Longrightarrow> di_addrs d ! j \<noteq> b" "\<And>n. n < MAXFILE \<Longrightarrow> addr_of (bcontent t) d n \<noteq> b"
    and u: "bcontent u = (bcontent t)(p := set_word (bcontent t p) k b)" "data_block u = data_block t"
  shows "n < MAXFILE \<Longrightarrow> addr_of (bcontent u) d n = (if n = NDIRECT + k then b else addr_of (bcontent t) d n)"
    and "file_ok u d" and "n < MAXFILE \<Longrightarrow> fblock (bcontent u) d n = fblock (bcontent t) d n"
proof -
  let ?a = "addr_of (bcontent t)" and ?u = "addr_of (bcontent u)"
  have w: "word_at (bcontent u p) j = (if k = j then b else word_at (bcontent t p) j)" if "j < NINDIRECT" for j
    using word_at_set_word [of k "bcontent t p" j b] that k len b(4) by (simp add: u(1) NINDIRECT_def BSIZE_def)
  have a: "?u d n = (if n = NDIRECT + k then b else ?a d n)" if n: "n < MAXFILE" for n
    using w [of "n - NDIRECT"] n p k by (auto simp: addr_of_def MAXFILE_def)
  then show "n < MAXFILE \<Longrightarrow> ?u d n = (if n = NDIRECT + k then b else ?a d n)" .
  have old: "?a d (NDIRECT + k) = 0" using z p k by (simp add: addr_of_def)
  show "file_ok u d"
    unfolding file_ok_def u(2)
  proof (intro conjI allI impI)
    show "length (di_addrs d) = NDIRECT + 1" by (rule file_okD(1) [OF ok])
    show "di_addrs d ! j = 0 \<or> data_block t (di_addrs d ! j)" if "j \<le> NDIRECT" for j
      by (rule file_okD(2) [OF ok that])
    show "?u d n = 0 \<or> data_block t (?u d n)" if "n < MAXFILE" for n
      using a [OF that] file_okD(3) [OF ok that] b by auto
    show "n = m" if "n < MAXFILE" "m < MAXFILE" "?u d n = ?u d m" "?u d n \<noteq> 0" for n m
      using that(3,4) file_okD(4) [OF ok that(1,2)] new(2) [OF that(1)] new(2) [OF that(2)]
      unfolding a [OF that(1)] a [OF that(2)] by (simp split: if_split_asm)
    show "?u d n \<noteq> di_addrs d ! NDIRECT" if "n < MAXFILE" "?u d n \<noteq> 0" for n
      using a [OF that(1)] file_okD(5) [OF ok that(1)] new(1) [of NDIRECT] that(2) by (auto split: if_splits)
  qed
  have "p \<noteq> b" using new(1) [of NDIRECT] p by simp
  then show "fblock (bcontent u) d n = fblock (bcontent t) d n" if "n < MAXFILE"
    using a [OF that] old b file_okD(5) [OF ok that] p by (auto simp: fblock_def u(1))
qed

section \<open>bmap\<close>

abbreviation dcopy :: "nat \<Rightarrow> 'a fstate_scheme \<Rightarrow> dinode" where
  "dcopy ip s \<equiv> i_copy (inodes s ! ip)"

definition inode_ready :: "nat \<Rightarrow> 'a fstate_scheme \<Rightarrow> bool" where
  "inode_ready ip s \<longleftrightarrow> ip < length (inodes s) \<and> i_dev (ino ip s) = 1 \<and> file_ok s (dcopy ip s)"

definition nfree :: "'a fstate_scheme \<Rightarrow> nat" where
  "nfree s = card {c. c < sb_size (fs_sb s) \<and> \<not> allocated s c}"

lemma nfree_pos:
  assumes "0 < nfree s" shows "\<exists>c < sb_size (fs_sb s). \<not> allocated s c"
proof (rule ccontr)
  assume "\<not> ?thesis"
  then have none: "{c. c < sb_size (fs_sb s) \<and> \<not> allocated s c} = {}" by blast
  show False using assms unfolding nfree_def none by simp
qed

lemma nfree_alloc:
  assumes "fs_sb t = fs_sb s" and "\<forall>c < sb_size (fs_sb s). allocated t c \<longleftrightarrow> allocated s c \<or> c = b"
  shows "nfree s \<le> Suc (nfree t)"
proof -
  have "{c. c < sb_size (fs_sb s) \<and> \<not> allocated s c} \<subseteq> insert b {c. c < sb_size (fs_sb t) \<and> \<not> allocated t c}"
    using assms by auto
  from card_mono [OF _ this] show ?thesis
    unfolding nfree_def by (simp add: card_insert_if split: if_splits)
qed

text \<open>
  \<open>file_step ip s t\<close>: only the disk, the cache, the log and the copy of inode \<open>ip\<close> have changed,
  the other data blocks keep their data, and the inode's file is still well-formed.
\<close>

definition file_step :: "nat \<Rightarrow> 'a fstate_scheme \<Rightarrow> 'a fstate_scheme \<Rightarrow> bool" where
  "file_step ip s t \<longleftrightarrow> fs_sb t = fs_sb s \<and> disksize t = disksize s \<and> my_pid t = my_pid s \<and>
     devsw t = devsw s \<and> heldb t = heldb s \<and> blocks_ok t \<and> inode_ready ip t \<and>
     length (inodes t) = length (inodes s) \<and> (\<forall>jp. jp \<noteq> ip \<longrightarrow> ino jp t = ino jp s) \<and>
     ino ip t = (ino ip s)\<lparr>i_copy := dcopy ip t\<rparr>"

text \<open>The blocks of the file of inode \<open>ip\<close>, the indirect one among them. \<open>only_file ip s t\<close>: blocks in use that are not
  among them keep their data, are still in use and have not become blocks of the file; neither do the blocks before the
  bitmap change.\<close>

definition file_owns :: "nat \<Rightarrow> 'a fstate_scheme \<Rightarrow> nat \<Rightarrow> bool" where
  "file_owns ip s a \<longleftrightarrow> (\<exists>n < MAXFILE. addr_of (bcontent s) (dcopy ip s) n = a) \<or> di_addrs (dcopy ip s) ! NDIRECT = a"

definition only_file :: "nat \<Rightarrow> 'a fstate_scheme \<Rightarrow> 'a fstate_scheme \<Rightarrow> bool" where
  "only_file ip s t \<longleftrightarrow> fs_sb t = fs_sb s \<and> meta_kept s t \<and>
     (\<forall>a. data_block s a \<longrightarrow> \<not> file_owns ip s a \<longrightarrow> data_block t a \<and> bcontent t a = bcontent s a \<and> \<not> file_owns ip t a)"

lemma only_file_refl [simp]: "only_file ip s s"
  by (simp add: only_file_def)

lemma only_file_trans [trans]: "only_file ip s t \<Longrightarrow> only_file ip t u \<Longrightarrow> only_file ip s u"
  by (auto simp: only_file_def meta_kept_def)

text \<open>A step that adds a fresh block, or none, to the file, and writes only to a block of it.\<close>

lemma only_fileI:
  assumes "data_same s t" and "meta_kept s u" and "\<And>c. bcontent u c \<noteq> bcontent t c \<Longrightarrow> file_owns ip s c"
    and "data_block u = data_block t" and "fs_sb u = fs_sb s" and "\<not> data_block s b"
    and "\<And>n. n < MAXFILE \<Longrightarrow> addr_of (bcontent u) (dcopy ip u) n \<in> {b, addr_of (bcontent s) (dcopy ip s) n}"
    and "di_addrs (dcopy ip u) ! NDIRECT \<in> {b, di_addrs (dcopy ip s) ! NDIRECT}"
  shows "only_file ip s u"
proof -
  have "data_block u a \<and> bcontent u a = bcontent s a \<and> \<not> file_owns ip u a" if a: "data_block s a" "\<not> file_owns ip s a" for a
  proof (intro conjI)
    have t: "data_block t a" "bcontent t a = bcontent s a" using assms(1) a(1) by (simp_all add: data_same_def)
    then show "data_block u a" "bcontent u a = bcontent s a" using assms(3) [of a] assms(4) a(2) by auto
    have ab: "a \<noteq> b" using a(1) assms(6) by auto
    show "\<not> file_owns ip u a"
    proof
      assume "file_owns ip u a"
      then consider n where "n < MAXFILE" "addr_of (bcontent u) (dcopy ip u) n = a" | "di_addrs (dcopy ip u) ! NDIRECT = a"
        unfolding file_owns_def by blast
      then show False
      proof cases
        case (1 n)
        then show ?thesis using ab a(2) assms(7) [OF 1(1)] unfolding file_owns_def by auto
      next
        case 2
        then show ?thesis using ab a(2) assms(8) unfolding file_owns_def by auto
      qed
    qed
  qed
  then show ?thesis using assms(2,5) by (simp add: only_file_def)
qed

lemma not_data_0: "\<not> data_block s 0"
  by (simp add: data_block_def data_start_def)

lemma only_file_look:
  assumes "block_step s t" and "bcontent t = bcontent s" shows "only_file ip s t"
proof -
  note f = block_step_fs [OF assms(1)]
  have "data_block t = data_block s" by (simp add: data_block_def allocated_def fun_eq_iff f assms(2))
  then show ?thesis by (simp add: only_file_def file_owns_def f assms(2))
qed

lemma file_step_refl: "blocks_ok s \<Longrightarrow> inode_ready ip s \<Longrightarrow> file_step ip s s"
  by (simp add: file_step_def)

lemma copy_trans: "u = (t :: inode)\<lparr>i_copy := x\<rparr> \<Longrightarrow> t = s\<lparr>i_copy := y\<rparr> \<Longrightarrow> u = s\<lparr>i_copy := x\<rparr>"
  by simp

lemma file_step_trans [trans]:
  assumes "file_step ip s t" and "file_step ip t u" shows "file_step ip s u"
proof -
  have "ino ip u = (ino ip t)\<lparr>i_copy := dcopy ip u\<rparr>" "ino ip t = (ino ip s)\<lparr>i_copy := dcopy ip t\<rparr>"
    using assms by (simp_all add: file_step_def)
  then have "ino ip u = (ino ip s)\<lparr>i_copy := dcopy ip u\<rparr>" by (rule copy_trans)
  then show ?thesis using assms by (simp add: file_step_def)
qed

lemma file_step_block:
  assumes "block_step s t" and "blocks_ok t" and "inode_ready ip s" and "file_ok t (dcopy ip s)"
  shows "file_step ip s t"
  using assms(2-4) block_step_fs [OF assms(1)] block_step_simps [OF assms(1)] fs_fields [of s t] assms(1)
  by (simp add: file_step_def inode_ready_def block_step_def)

text \<open>The first level.\<close>

lemma bmap_entry_total:
  fixes s :: "'a fstate_scheme"
  assumes r: "room s (k + 2)" and ok: "blocks_ok s" and rd: "inode_ready ip s" and i: "i \<le> NDIRECT"
    and free: "0 < nfree s"
  shows "\<exists>a t. bmap_entry ip i s = Ret (a, t) \<and> room t k \<and> file_step ip s t \<and> a = di_addrs (dcopy ip t) ! i \<and>
    a \<noteq> 0 \<and> dcopy ip t = (dcopy ip s)\<lparr>di_addrs := di_addrs (dcopy ip t)\<rparr> \<and> data_same s t \<and>
    (\<forall>n < MAXFILE. fblock (bcontent t) (dcopy ip t) n = fblock (bcontent s) (dcopy ip s) n) \<and>
    (\<forall>n < MAXFILE. addr_of (bcontent s) (dcopy ip s) n \<noteq> 0 \<longrightarrow> addr_of (bcontent t) (dcopy ip t) n \<noteq> 0) \<and>
    nfree s \<le> Suc (nfree t) \<and> only_file ip s t \<and> (di_addrs (dcopy ip s) ! i \<noteq> 0 \<longrightarrow> dcopy ip t = dcopy ip s)"
proof -
  let ?d = "dcopy ip s"
  have p: "ip < length (inodes s)" "i_dev (ino ip s) = 1" "file_ok s ?d" using rd by (auto simp: inode_ready_def)
  show ?thesis
  proof (cases "di_addrs ?d ! i = 0")
    case False
    have "room s k" using r by (rule room_less) simp
    then show ?thesis using False file_step_refl [OF ok rd] by (simp add: bmap_entry_def)
  next
    case True
    obtain b t where b: "balloc 1 s = Ret (b, t)" "room t k" "block_step s t" "blocks_ok t" "data_same s t"
        "data_block t b" "\<not> data_block s b" "bcontent t b = replicate BSIZE 0" "0 < b"
      and al: "\<forall>c < sb_size (fs_sb s). allocated t c \<longleftrightarrow> allocated s c \<or> c = b" and mk: "meta_kept s t"
      using balloc_same [OF r ok nfree_pos [OF free]] by blast
    note f = block_step_fs [OF b(3)] block_step_simps [OF b(3)]
    have okt: "file_ok t ?d" by (rule file_ok_same [OF b(5) p(3)])
    have new: "di_addrs ?d ! j \<noteq> b" if "j \<le> NDIRECT" for j
      using file_okD(2) [OF p(3) that] b(7,9) by auto
    have new2: "addr_of (bcontent t) ?d n \<noteq> b" if "n < MAXFILE" for n
      unfolding addr_of_same [OF b(5) p(3)] using file_okD(3) [OF p(3) that] b(7,9) by auto
    let ?e = "?d\<lparr>di_addrs := (di_addrs ?d)[i := b]\<rparr>"
    let ?t = "upd_copy ip (\<lambda>d. d\<lparr>di_addrs := (di_addrs d)[i := b]\<rparr>) t"
    have b0: "b \<noteq> 0" using b(9) by simp
    note add = add_entry [OF okt i True b(6) b0 b(8)]
    have ok2: "file_ok t ?e" by (rule add(2)) (use new new2 in auto)
    have fb: "fblock (bcontent t) ?e n = fblock (bcontent t) ?d n" if "n < MAXFILE" for n
      by (rule add(3)) (use new new2 that in auto)
    have c: "dcopy ip ?t = ?e" using p(1) f by (simp add: upd_copy_def)
    have ad: "addr_of (bcontent t) ?e n = (if n = i \<and> n < NDIRECT then b else if n < MAXFILE then addr_of (bcontent s) ?d n
        else addr_of (bcontent t) ?e n)" for n
      unfolding addr_of_same [OF b(5) p(3), symmetric] by (rule add(1)) (use new new2 in auto)
    have mono: "addr_of (bcontent ?t) ?e n \<noteq> 0" if "n < MAXFILE" "addr_of (bcontent s) ?d n \<noteq> 0" for n
      using that b0 ad [of n] by (simp add: upd_copy_def split: if_splits)
    have fr: "bcontent ?t = bcontent t" "data_block ?t = data_block t" "fs_sb ?t = fs_sb s" using f by (simp_all add: upd_copy_def)
    have own: "only_file ip s ?t"
    proof (rule only_fileI [OF b(5) _ _ fr(2,3) b(7)])
      show "meta_kept s ?t" using mk by (simp add: meta_kept_def fr)
      show "addr_of (bcontent ?t) (dcopy ip ?t) n \<in> {b, addr_of (bcontent s) ?d n}" if "n < MAXFILE" for n
        unfolding c fr using ad [of n] that by (simp split: if_splits)
      show "di_addrs (dcopy ip ?t) ! NDIRECT \<in> {b, di_addrs ?d ! NDIRECT}"
        unfolding c using i file_okD(1) [OF p(3)] by (cases "i = NDIRECT") simp_all
    qed (simp add: fr)
    have step: "file_step ip s ?t"
      using b(4) f p ok2 fs_fields [of s t] b(3)
      by (simp add: file_step_def inode_ready_def c) (simp add: upd_copy_def block_step_def)
    have "bmap_entry ip i s = Ret (b, ?t)" using True b(1) p(2) by (simp add: bmap_entry_def)
    moreover have "b = di_addrs (dcopy ip ?t) ! i" using c i file_okD(1) [OF p(3)] by simp
    moreover have "room ?t k" "data_same s ?t" using b by (simp_all add: upd_copy_def)
    moreover have "fblock (bcontent ?t) (dcopy ip ?t) n = fblock (bcontent s) ?d n" if "n < MAXFILE" for n
      unfolding c using fb [OF that] fblock_same [OF b(5) p(3) that] by (simp add: upd_copy_def)
    moreover have "nfree s \<le> Suc (nfree ?t)"
      using nfree_alloc [of t s b] al f by (simp add: nfree_def allocated_def upd_copy_def)
    ultimately show ?thesis using step b0 c mono own True by (intro exI [of _ b] exI [of _ ?t]) simp
  qed
qed

text \<open>A mapped block: nothing changes but the cache.\<close>

lemma bmap_mapped:
  fixes s :: "'a fstate_scheme"
  assumes r: "room s k" "0 < k" and ok: "blocks_ok s" and rd: "inode_ready ip s" and n: "n < MAXFILE"
    and a: "addr_of (bcontent s) (dcopy ip s) n \<noteq> 0" and h: "heldb s = {}"
  shows "\<exists>t. bmap ip n s = Ret (addr_of (bcontent s) (dcopy ip s) n, t) \<and> room t k \<and> block_step s t \<and>
    bcontent t = bcontent s"
proof (cases "n < NDIRECT")
  case True
  then show ?thesis using a r block_step_refl [of s]
    by (auto simp: bmap_def bmap_entry_def addr_of_direct room_def)
next
  case False
  let ?p = "di_addrs (dcopy ip s) ! NDIRECT"
  have d: "i_dev (ino ip s) = 1" "file_ok s (dcopy ip s)" using rd by (auto simp: inode_ready_def)
  have p: "?p \<noteq> 0" "n - NDIRECT < NINDIRECT" using a False n by (auto simp: addr_of_def MAXFILE_def split: if_splits)
  then have "data_block s ?p" using file_okD(2) [OF d(2), of NDIRECT] by simp
  then have "?p < disksize s" using ok by (auto simp: data_block_def blocks_ok_def layout_def)
  then obtain i t u where t: "bread 1 ?p s = Ret (i, t)" "brelse i t = Ret u" "buf_data i t = bcontent s ?p"
      "room u k" "block_step s u" "bcontent u = bcontent s"
    using look_total [OF r, of ?p] h by auto
  have "addr_of (bcontent s) (dcopy ip s) n = word_at (bcontent s ?p) (n - NDIRECT)"
    using False p by (simp add: addr_of_def)
  then show ?thesis using t a p False d(1) by (simp add: bmap_def bmap_entry_def Let_def)
qed

lemma data_block_lt: "blocks_ok s \<Longrightarrow> data_block s a \<Longrightarrow> a < disksize s"
  by (auto simp: data_block_def blocks_ok_def layout_def)

lemma block_ok_hold:
  assumes "blocks_ok s" and "hold s i a t" and "data_block s a" and "bcontent t = bcontent s"
  shows "blocks_ok t"
proof -
  have f: "fs_sb t = fs_sb s" "disksize t = disksize s"
    using assms(2) fs_fields [of s t] log_frame_fields [of s t] by (auto simp: hold_def)
  have "heldb t = insert a (heldb s)" using assms(2) by (auto simp: hold_def heldb_def)
  then show ?thesis using assms(1,3) f by (auto simp: blocks_ok_def data_block_def allocated_def assms(4))
qed

text \<open>The second level, when the entry of the indirect block is free.\<close>

lemma indirect_total:
  fixes s :: "'a fstate_scheme"
  assumes r: "room s (k + 4)" and ok: "blocks_ok s" and rd: "inode_ready ip s" and j: "j < NINDIRECT"
    and p: "p = di_addrs (dcopy ip s) ! NDIRECT" "p \<noteq> 0" and z: "word_at (bcontent s p) j = 0"
    and h: "heldb s = {}" and free: "0 < nfree s"
  shows "\<exists>i t b u v w. bread 1 p s = Ret (i, t) \<and> buf_data i t = bcontent s p \<and> balloc 1 t = Ret (b, u) \<and>
    log_write i (set_data i (set_word (buf_data i u) j b) u) = Ret v \<and> brelse i v = Ret w \<and> room w k \<and>
    file_step ip s w \<and> dcopy ip w = dcopy ip s \<and> addr_of (bcontent w) (dcopy ip w) (NDIRECT + j) = b \<and> b \<noteq> 0 \<and>
    (\<forall>n < MAXFILE. fblock (bcontent w) (dcopy ip w) n = fblock (bcontent s) (dcopy ip s) n) \<and>
    (\<forall>n < MAXFILE. addr_of (bcontent s) (dcopy ip s) n \<noteq> 0 \<longrightarrow> addr_of (bcontent w) (dcopy ip w) n \<noteq> 0) \<and>
    nfree s \<le> Suc (nfree w) \<and> only_file ip s w"
proof -
  let ?d = "dcopy ip s"
  have d: "ip < length (inodes s)" "i_dev (ino ip s) = 1" "file_ok s ?d" using rd by (auto simp: inode_ready_def)
  have dp: "data_block s p" using file_okD(2) [OF d(3), of NDIRECT] p by simp
  have plt: "p < disksize s" by (rule data_block_lt [OF ok dp])
  obtain i t where t: "bread 1 p s = Ret (i, t)" "hold s i p t" "saved t i" "room t (k + 3)" "bcontent t = bcontent s"
      "buf_data i t = bcontent s p"
    using hold_total [of s "k + 3" p] r plt h by (auto simp: add.commute)
  have okt: "blocks_ok t" by (rule block_ok_hold [OF ok t(2) dp t(5)])
  have ft: "fs_sb t = fs_sb s" "inodes t = inodes s" using bread_fs [OF t(1)] by simp_all
  have same: "data_same s t" "allocated t = allocated s" "data_block t = data_block s"
    by (simp_all add: data_same_def data_block_def allocated_def [abs_def] fun_eq_iff ft t(5))
  have "0 < nfree t" using free unfolding nfree_def ft same(2) .
  have rt: "room t ((k + 1) + 2)" using t(4) by (simp add: numeral_3_eq_3)
  obtain b u where b: "balloc 1 t = Ret (b, u)" "room u (k + 1)" "block_step t u" "blocks_ok u" "data_same t u"
      "data_block u b" "\<not> data_block t b" "bcontent u b = replicate BSIZE 0" "0 < b" "b < 4294967296"
    and al: "\<forall>c < sb_size (fs_sb t). allocated u c \<longleftrightarrow> allocated t c \<or> c = b" and mk: "meta_kept t u"
    using balloc_same [OF rt okt nfree_pos [OF \<open>0 < nfree t\<close>]] by blast
  note fu = block_step_fs [OF b(3)] block_step_simps [OF b(3)]
  have su: "data_same s u" using same(1) b(5) by (rule data_same_trans)
  have oku: "file_ok u ?d" by (rule file_ok_same [OF su d(3)])
  note hu = hold_step [OF t(2) b(3)]
  have ci: "cache_inv u" using fu(3) by (simp add: log_inv_def)
  have up: "bcontent u p = bcontent s p" using su dp by (simp add: data_same_def)
  have "holds_buf u i p" using hu(1) by (simp add: hold_def)
  then have bu: "buf_data i u = bcontent u p" by (rule buf_data_holds [OF ci])
  let ?x = "set_word (bcontent u p) j b"
  have lx: "length ?x = BSIZE" using length_bcontent [OF ci, of p] j by (simp add: NINDIRECT_def BSIZE_def)
  obtain v w where w: "log_write i (set_data i ?x u) = Ret v" "brelse i v = Ret w" "room w k" "block_step s w"
      "bcontent w = (bcontent u)(p := ?x)"
    using hold_save [OF hu(1), of k ?x] b(2) lx by auto
  note fw = block_step_fs [OF w(4)] block_step_simps [OF w(4)]
  have ds: "data_start (fs_sb s) \<le> p" "p < sb_size (fs_sb s)" using dp by (simp_all add: data_block_def)
  have lay: "layout (fs_sb s) (disksize s)" using ok by (simp add: blocks_ok_def)
  have alw: "allocated w c = allocated u c" if "c < sb_size (fs_sb s)" for c
    unfolding allocated_def fw(2) fu(2) ft(1) w(5) by (rule in_bitmap_data [OF lay that ds(1)])
  have dbw: "data_block w = data_block u" using alw fw fu ft by (auto simp: data_block_def fun_eq_iff)
  have okw: "blocks_ok w"
    using ok b(4) fw fu ft alw h lay unfolding blocks_ok_def layout_def by auto
  have b0: "b \<noteq> 0" using b(9) by simp
  have new: "di_addrs ?d ! m \<noteq> b" if "m \<le> NDIRECT" for m
    using file_okD(2) [OF d(3) that] b(7,9) same(3) by auto
  have new2: "addr_of (bcontent u) ?d n \<noteq> b" if "n < MAXFILE" for n
    unfolding addr_of_same [OF su d(3)] using file_okD(3) [OF d(3) that] b(7,9) same(3) by auto
  have zu: "word_at (bcontent u p) j = 0" using z up by simp
  note add = add_indirect [OF oku p j zu length_bcontent [OF ci] b(6) b0 b(8,10) _ _ w(5) dbw]
  have a0: "addr_of (bcontent w) ?d n = (if n = NDIRECT + j then b else addr_of (bcontent u) ?d n)" if "n < MAXFILE" for n
    by (rule add(1)) (use new new2 that in auto)
  have a1: "addr_of (bcontent w) ?d (NDIRECT + j) = b" using a0 [of "NDIRECT + j"] j by (simp add: MAXFILE_def)
  have mono: "addr_of (bcontent w) ?d n \<noteq> 0" if "n < MAXFILE" "addr_of (bcontent s) ?d n \<noteq> 0" for n
    using a0 [OF that(1)] b0 that(2) addr_of_same [OF su d(3)] by simp
  have a2: "file_ok w ?d" by (rule add(2)) (use new new2 in auto)
  have a3: "fblock (bcontent w) ?d n = fblock (bcontent s) ?d n" if "n < MAXFILE" for n
    using fblock_same [OF su d(3) that] by (subst add(3)) (use new new2 that in auto)
  have st: "file_step ip s w" by (rule file_step_block [OF w(4) okw rd a2])
  have own: "only_file ip s w"
  proof (rule only_fileI [OF su _ _ dbw fw(2)])
    show "meta_kept s w" by (rule meta_kept_upd [OF _ w(5) ds(1)]) (use mk in \<open>simp add: meta_kept_def ft t(5)\<close>)
    show "file_owns ip s c" if "bcontent w c \<noteq> bcontent u c" for c
      using that p(1) by (simp add: w(5) file_owns_def split: if_splits)
    show "\<not> data_block s b" using b(7) same(3) by simp
    show "addr_of (bcontent w) (dcopy ip w) n \<in> {b, addr_of (bcontent s) ?d n}" if "n < MAXFILE" for n
      using a0 [OF that] addr_of_same [OF su d(3)] fw by simp
    show "di_addrs (dcopy ip w) ! NDIRECT \<in> {b, di_addrs ?d ! NDIRECT}" using fw by simp
  qed
  have "nfree s \<le> Suc (nfree w)" using nfree_alloc [of w s b] al alw fw ft same(2) by simp
  moreover have "dcopy ip w = ?d" using fw by simp
  ultimately show ?thesis using t(1,6) b(1) b0 w(1-3) st a1 a3 bu mono own by (intro exI conjI) (assumption | simp)+
qed

text \<open>\<open>bmap\<close> finds or allocates the block, and the content of the file stays the same.\<close>

definition mapped :: "nat \<Rightarrow> 'a fstate_scheme \<Rightarrow> nat \<Rightarrow> 'a fstate_scheme \<Rightarrow> bool" where
  "mapped ip s n t \<longleftrightarrow> file_step ip s t \<and> addr_of (bcontent t) (dcopy ip t) n \<noteq> 0 \<and>
     dcopy ip t = (dcopy ip s)\<lparr>di_addrs := di_addrs (dcopy ip t)\<rparr> \<and>
     (\<forall>n < MAXFILE. fblock (bcontent t) (dcopy ip t) n = fblock (bcontent s) (dcopy ip s) n) \<and>
     (\<forall>n < MAXFILE. addr_of (bcontent s) (dcopy ip s) n \<noteq> 0 \<longrightarrow> addr_of (bcontent t) (dcopy ip t) n \<noteq> 0) \<and>
     only_file ip s t \<and> (addr_of (bcontent s) (dcopy ip s) n \<noteq> 0 \<longrightarrow> dcopy ip t = dcopy ip s)"

lemma bmap_total:
  fixes s :: "'a fstate_scheme"
  assumes r: "room s (k + 6)" and ok: "blocks_ok s" and rd: "inode_ready ip s" and n: "n < MAXFILE"
    and h: "heldb s = {}" and free: "2 \<le> nfree s"
  shows "\<exists>t. bmap ip n s = Ret (addr_of (bcontent t) (dcopy ip t) n, t) \<and> room t k \<and> mapped ip s n t \<and>
    nfree s \<le> nfree t + 2"
proof (cases "n < NDIRECT")
  case True
  have "room s (k + 2)" using r by (rule room_less) simp
  from bmap_entry_total [OF this ok rd, of n] True free
  obtain a t where "bmap_entry ip n s = Ret (a, t)" "room t k" "file_step ip s t" "a = di_addrs (dcopy ip t) ! n"
    "a \<noteq> 0" "dcopy ip t = (dcopy ip s)\<lparr>di_addrs := di_addrs (dcopy ip t)\<rparr>"
    "\<forall>n < MAXFILE. fblock (bcontent t) (dcopy ip t) n = fblock (bcontent s) (dcopy ip s) n"
    "\<forall>n < MAXFILE. addr_of (bcontent s) (dcopy ip s) n \<noteq> 0 \<longrightarrow> addr_of (bcontent t) (dcopy ip t) n \<noteq> 0"
    "nfree s \<le> Suc (nfree t)" "only_file ip s t" "di_addrs (dcopy ip s) ! n \<noteq> 0 \<longrightarrow> dcopy ip t = dcopy ip s" by auto
  then show ?thesis using True by (intro exI [of _ t]) (simp add: bmap_def mapped_def addr_of_direct)
next
  case False
  let ?j = "n - NDIRECT"
  have j: "?j < NINDIRECT" "NDIRECT + ?j = n" using False n by (auto simp: MAXFILE_def)
  have r1: "room s ((k + 4) + 2)" using r by (simp add: eval_nat_numeral)
  have f1: "0 < nfree s" using free by simp
  obtain a t where t: "bmap_entry ip NDIRECT s = Ret (a, t)" "room t (k + 4)" "file_step ip s t"
    "a = di_addrs (dcopy ip t) ! NDIRECT" "a \<noteq> 0"
    "dcopy ip t = (dcopy ip s)\<lparr>di_addrs := di_addrs (dcopy ip t)\<rparr>"
    "\<forall>n < MAXFILE. fblock (bcontent t) (dcopy ip t) n = fblock (bcontent s) (dcopy ip s) n"
    "\<forall>n < MAXFILE. addr_of (bcontent s) (dcopy ip s) n \<noteq> 0 \<longrightarrow> addr_of (bcontent t) (dcopy ip t) n \<noteq> 0"
    "nfree s \<le> Suc (nfree t)" "only_file ip s t" "di_addrs (dcopy ip s) ! NDIRECT \<noteq> 0 \<longrightarrow> dcopy ip t = dcopy ip s"
    using bmap_entry_total [OF r1 ok rd order_refl f1] by blast
  have ind: "dcopy ip t = dcopy ip s" if "addr_of (bcontent s) (dcopy ip s) n \<noteq> 0"
    using that False t(11) by (simp add: addr_of_def split: if_splits)
  have okt: "blocks_ok t" "inode_ready ip t" "heldb t = {}" using t(3) h by (simp_all add: file_step_def)
  have dev: "i_dev (ino ip t) = 1" using okt(2) by (simp add: inode_ready_def)
  have ad: "addr_of (bcontent t) (dcopy ip t) n = word_at (bcontent t a) ?j"
    using False t(4,5) by (simp add: addr_of_def)
  have unf: "bmap ip n s = kbind (bread 1 a t) (\<lambda>(bp, s).
      if word_at (buf_data bp s) ?j = 0 then
        kbind (balloc (i_dev (ino ip s)) s) (\<lambda>(addr, s).
        kbind (log_write bp (set_data bp (set_word (buf_data bp s) ?j addr) s)) (\<lambda>s.
        kbind (brelse bp s) (\<lambda>s. Ret (addr, s))))
      else let addr = word_at (buf_data bp s) ?j in kbind (brelse bp s) (\<lambda>s. Ret (addr, s)))"
    using False j(1) t(1) dev by (simp add: bmap_def Let_def)
  show ?thesis
  proof (cases "word_at (bcontent t a) ?j = 0")
    case True
    have "0 < nfree t" using free t(9) by simp
    from indirect_total [OF t(2) okt(1,2) j(1) t(4,5) True okt(3) this]
    obtain i u b v w x where u: "bread 1 a t = Ret (i, u)" "buf_data i u = bcontent t a" "balloc 1 u = Ret (b, v)"
      "log_write i (set_data i (set_word (buf_data i v) ?j b) v) = Ret w" "brelse i w = Ret x" "room x k"
      "file_step ip t x" "dcopy ip x = dcopy ip t" "addr_of (bcontent x) (dcopy ip x) (NDIRECT + ?j) = b" "b \<noteq> 0"
      "\<forall>n < MAXFILE. fblock (bcontent x) (dcopy ip x) n = fblock (bcontent t) (dcopy ip t) n"
      "\<forall>n < MAXFILE. addr_of (bcontent t) (dcopy ip t) n \<noteq> 0 \<longrightarrow> addr_of (bcontent x) (dcopy ip x) n \<noteq> 0"
      "nfree t \<le> Suc (nfree x)" "only_file ip t x"
      by - (elim exE conjE, rule that, assumption+)
    have "i_dev (ino ip u) = 1" using bread_fs [OF u(1)] dev by simp
    then have "bmap ip n s = Ret (b, x)" unfolding unf using u True by simp
    moreover have "addr_of (bcontent s) (dcopy ip s) n = 0" using t(8) ad True n by auto
    then have "mapped ip s n x"
      using file_step_trans [OF t(3) u(7)] u(8-12) t(6-8) j(2) only_file_trans [OF t(10) u(14)] by (simp add: mapped_def)
    moreover have "nfree s \<le> nfree x + 2" using t(9) u(13) by simp
    ultimately show ?thesis using u(6,9) j(2) by (intro exI [of _ x]) simp
  next
    case nz: False
    have ad0: "addr_of (bcontent t) (dcopy ip t) n \<noteq> 0" using ad nz by simp
    have f: "file_ok t (dcopy ip t)" using okt(2) by (simp add: inode_ready_def)
    then have "data_block t a" using file_okD(2) [OF f, of NDIRECT] t(4,5) by simp
    then have lt: "a < disksize t" by (rule data_block_lt [OF okt(1)])
    obtain i u v where u: "bread 1 a t = Ret (i, u)" "brelse i u = Ret v" "buf_data i u = bcontent t a"
        "room v (k + 4)" "block_step t v" "bcontent v = bcontent t"
      using look_total [OF t(2) _ lt] okt(3) by auto
    note fv = block_step_fs [OF u(5)] block_step_simps [OF u(5)]
    have same: "data_same t v" "allocated v = allocated t"
      by (simp_all add: data_same_def data_block_def allocated_def [abs_def] fun_eq_iff fv u(6))
    have okv: "blocks_ok v" using okt fv same by (simp add: blocks_ok_def)
    have sv: "file_step ip t v" by (rule file_step_block [OF u(5) okv okt(2) file_ok_same [OF same(1) f]])
    have "bmap ip n s = Ret (word_at (bcontent t a) ?j, v)" unfolding unf using u nz by simp
    moreover have "mapped ip s n v"
      using file_step_trans [OF t(3) sv] t(6-8) ad0 fv u(6) ind only_file_trans [OF t(10) only_file_look [OF u(5,6)]]
      by (simp add: mapped_def)
    moreover have "nfree v = nfree t" by (simp add: nfree_def same(2) fv)
    then have "nfree s \<le> nfree v + 2" using t(9) by simp
    moreover have "room v k" using u(4) by (rule room_less) simp
    ultimately show ?thesis using ad fv u(6) by (intro exI [of _ v]) simp
  qed
qed

section \<open>Reading\<close>

text \<open>The number of blocks that \<open>n\<close> bytes from \<open>off\<close> touch.\<close>

definition chunks :: "nat \<Rightarrow> nat \<Rightarrow> nat" where
  "chunks off n = (if n = 0 then 0 else (off mod BSIZE + n - 1) div BSIZE + 1)"

lemma chunks_rec:
  assumes "0 < n" and "m = min n (BSIZE - off mod BSIZE)"
  shows "chunks off n = Suc (chunks (off + m) (n - m))" and "0 < m"
    and "m < n \<Longrightarrow> (off + m) mod BSIZE = 0 \<and> (off + m) div BSIZE = off div BSIZE + 1"
    and "off mod BSIZE + m \<le> BSIZE"
proof -
  have lt: "off mod BSIZE < BSIZE" by (simp add: BSIZE_def)
  show pos: "0 < m" "off mod BSIZE + m \<le> BSIZE" using assms lt by auto
  have big: "(off + m) mod BSIZE = 0 \<and> (off + m) div BSIZE = off div BSIZE + 1" if "m < n"
  proof -
    have "m = BSIZE - off mod BSIZE" using assms that by auto
    moreover have "off = BSIZE * (off div BSIZE) + off mod BSIZE" by simp
    ultimately have "off + m = BSIZE * (off div BSIZE) + BSIZE" using lt by linarith
    then have "off + m = BSIZE * (off div BSIZE + 1)" by simp
    then show ?thesis by (simp add: BSIZE_def)
  qed
  then show "m < n \<Longrightarrow> (off + m) mod BSIZE = 0 \<and> (off + m) div BSIZE = off div BSIZE + 1" .
  show "chunks off n = Suc (chunks (off + m) (n - m))"
  proof (cases "m < n")
    case True
    then have m: "m = BSIZE - off mod BSIZE" using assms by auto
    then have "off mod BSIZE + n - 1 = (n - m - 1) + BSIZE" using True lt by simp
    then have "(off mod BSIZE + n - 1) div BSIZE = Suc ((n - m - 1) div BSIZE)" by (simp add: BSIZE_def)
    then show ?thesis using True big assms(1) by (simp add: chunks_def)
  next
    case False
    then have "off mod BSIZE + n - 1 < BSIZE" using pos assms by auto
    then show ?thesis using False assms(1) by (simp add: chunks_def)
  qed
qed

text \<open>All blocks of the first \<open>n\<close> bytes are there.\<close>

definition no_holes :: "'a fstate_scheme \<Rightarrow> dinode \<Rightarrow> nat \<Rightarrow> bool" where
  "no_holes s d n \<longleftrightarrow> n \<le> MAXFILE * BSIZE \<and> (\<forall>i < n. addr_of (bcontent s) d (i div BSIZE) \<noteq> 0)"

lemma within_block:
  assumes "off mod BSIZE + i < BSIZE"
  shows "(off + i) div BSIZE = off div BSIZE \<and> (off + i) mod BSIZE = off mod BSIZE + i"
proof -
  have e: "off + i = (off mod BSIZE + i) + BSIZE * (off div BSIZE)" by simp
  have "(off + i) div BSIZE = (off mod BSIZE + i) div BSIZE + off div BSIZE"
    by (subst e, subst div_mult_self2) (simp_all add: BSIZE_def)
  moreover have "(off + i) mod BSIZE = (off mod BSIZE + i) mod BSIZE" by (subst e, subst mod_mult_self2) (rule refl)
  ultimately show ?thesis using assms by simp
qed

lemma slice_block:
  assumes "off mod BSIZE + m \<le> BSIZE" and "length (fblock c d (off div BSIZE)) = BSIZE"
  shows "slice (fblock c d (off div BSIZE)) (off mod BSIZE) m = map (fbyte c d) [off..<off + m]"
proof (rule nth_equalityI)
  show "length (slice (fblock c d (off div BSIZE)) (off mod BSIZE) m) = length (map (fbyte c d) [off..<off + m])"
    using assms by simp
next
  fix i assume "i < length (slice (fblock c d (off div BSIZE)) (off mod BSIZE) m)"
  then have i: "i < m" "off mod BSIZE + i < BSIZE" using assms by simp_all
  from within_block [OF i(2)] show "slice (fblock c d (off div BSIZE)) (off mod BSIZE) m ! i = map (fbyte c d) [off..<off + m] ! i"
    using i assms by (simp add: fbyte_def)
qed

lemma length_fblock: "cache_inv s \<Longrightarrow> length (fblock (bcontent s) d n) = BSIZE"
  by (simp add: fblock_def length_bcontent)

lemma block_step_ok:
  assumes "block_step s t" and "bcontent t = bcontent s" and "blocks_ok s" and "inode_ready ip s"
  shows "blocks_ok t" "inode_ready ip t" "data_same s t" "allocated t = allocated s" "nfree t = nfree s"
proof -
  note f = block_step_fs [OF assms(1)] block_step_simps [OF assms(1)]
  show al: "allocated t = allocated s" by (simp add: allocated_def [abs_def] assms(2) f)
  show same: "data_same s t" by (simp add: data_same_def data_block_def al f assms(2))
  show "blocks_ok t" using assms(3) by (simp add: blocks_ok_def f al)
  show "inode_ready ip t" using assms(4) file_ok_same [OF same] by (simp add: inode_ready_def f)
  show "nfree t = nfree s" by (simp add: nfree_def al f)
qed

lemma read_loop_total:
  fixes s :: "'a fstate_scheme"
  assumes "room s k" "0 < k" and "blocks_ok s" and "inode_ready ip s" and "heldb s = {}"
    and "off + n \<le> MAXFILE * BSIZE" and "\<forall>i. off \<le> i \<and> i < off + n \<longrightarrow> addr_of (bcontent s) (dcopy ip s) (i div BSIZE) \<noteq> 0"
  shows "\<exists>t. read_loop ip off n s = Ret (map (fbyte (bcontent s) (dcopy ip s)) [off..<off + n], t) \<and>
    room t k \<and> block_step s t \<and> bcontent t = bcontent s"
  using assms
proof (induction n arbitrary: off s rule: less_induct)
  case (less n)
  show ?case
  proof (cases n)
    case 0
    then show ?thesis using less.prems(1) block_step_refl [of s] by (auto simp: room_def)
  next
    case (Suc n')
    let ?d = "dcopy ip s" and ?b = "off div BSIZE" and ?m = "min n (BSIZE - off mod BSIZE)"
    have n0: "0 < n" using Suc by simp
    note ch = chunks_rec [OF n0 refl, of off]
    have ok: "file_ok s ?d" "i_dev (ino ip s) = 1" using less.prems(4) by (simp_all add: inode_ready_def)
    have bn: "?b < MAXFILE" using less.prems(6) n0 by (simp add: less_mult_imp_div_less)
    have a: "addr_of (bcontent s) ?d ?b \<noteq> 0" using less.prems(7) n0 by simp
    let ?a = "addr_of (bcontent s) ?d ?b"
    obtain t where t: "bmap ip ?b s = Ret (?a, t)" "room t k" "block_step s t" "bcontent t = bcontent s"
      using bmap_mapped [OF less.prems(1-4) bn a less.prems(5)] by blast
    note ft = block_step_fs [OF t(3)] block_step_simps [OF t(3)]
    note okt = block_step_ok [OF t(3,4) less.prems(3,4)]
    have "data_block s ?a" using file_okD(3) [OF ok(1) bn] a by simp
    then have "?a < disksize t" using data_block_lt [OF less.prems(3)] ft by simp
    then obtain i u v where u: "bread 1 ?a t = Ret (i, u)" "brelse i u = Ret v" "buf_data i u = bcontent t ?a"
        "room v k" "block_step t v" "bcontent v = bcontent t"
      using look_total [OF t(2) less.prems(2), of ?a] ft less.prems(5) by auto
    have sv: "block_step s v" using t(3) u(5) by (rule block_step_trans)
    note fv = block_step_fs [OF sv] block_step_simps [OF sv]
    have cv: "bcontent v = bcontent s" using u(6) t(4) by simp
    note okv = block_step_ok [OF sv cv less.prems(3,4)]
    have "\<exists>w. read_loop ip (off + ?m) (n - ?m) v =
        Ret (map (fbyte (bcontent v) (dcopy ip v)) [off + ?m..<(off + ?m) + (n - ?m)], w) \<and>
        room w k \<and> block_step v w \<and> bcontent w = bcontent v"
      using less.prems ch(2) u(4) okv fv cv by (intro less.IH) simp_all
    then obtain w where w: "read_loop ip (off + ?m) (n - ?m) v =
        Ret (map (fbyte (bcontent s) ?d) [off + ?m..<off + n], w)"
        "room w k" "block_step v w" "bcontent w = bcontent s"
      using fv cv by auto
    have ci: "cache_inv s" using less.prems(1) by (simp add: room_def log_inv_def)
    have piece: "slice (bcontent s ?a) (off mod BSIZE) ?m = map (fbyte (bcontent s) ?d) [off..<off + ?m]"
      using slice_block [OF ch(4) length_fblock [OF ci], of ?d] a by (simp add: fblock_def)
    have "[off..<off + n] = [off..<off + ?m] @ [off + ?m..<off + n]"
      using upt_add_eq_append [of off "off + ?m" "n - ?m"] by simp
    moreover have "read_loop ip off n s = Ret (slice (bcontent s ?a) (off mod BSIZE) ?m @
        map (fbyte (bcontent s) ?d) [off + ?m..<off + n], w)"
      using t(1) u(1-3) t(4) w(1) ok(2) ft Suc by (simp add: Let_def)
    ultimately show ?thesis using w(2,4) block_step_trans [OF sv w(3)] piece by simp
  qed
qed

section \<open>Writing\<close>

text \<open>New data for one mapped block of a file.\<close>

lemma write_block:
  assumes ok: "file_ok t d" and n: "n < MAXFILE" and a: "a = addr_of (bcontent t) d n" "a \<noteq> 0"
    and u: "bcontent u = (bcontent t)(a := x)" "data_block u = data_block t"
  shows "file_ok u d" and "m < MAXFILE \<Longrightarrow> addr_of (bcontent u) d m = addr_of (bcontent t) d m"
    and "m < MAXFILE \<Longrightarrow> fblock (bcontent u) d m = (if m = n then x else fblock (bcontent t) d m)"
proof -
  have "a \<noteq> di_addrs d ! NDIRECT" using file_okD(5) [OF ok n] a by simp
  then have e: "addr_of (bcontent u) d = addr_of (bcontent t) d" by (auto simp: addr_of_def u(1) fun_eq_iff)
  show "file_ok u d" using ok unfolding file_ok_def e u(2) .
  show "addr_of (bcontent u) d m = addr_of (bcontent t) d m" if "m < MAXFILE" using e by simp
  show "fblock (bcontent u) d m = (if m = n then x else fblock (bcontent t) d m)" if "m < MAXFILE"
    using file_okD(4) [OF ok that n] a e by (auto simp: fblock_def u(1))
qed

lemma fbyte_write:
  assumes b: "\<And>m. m < MAXFILE \<Longrightarrow> fblock c' d' m = (if m = off div BSIZE then overwrite (fblock c d m) (off mod BSIZE) src
      else fblock c d m)"
    and len: "length (fblock c d (off div BSIZE)) = BSIZE" "off mod BSIZE + length src \<le> BSIZE"
    and i: "i < MAXFILE * BSIZE"
  shows "fbyte c' d' i = (if off \<le> i \<and> i < off + length src then src ! (i - off) else fbyte c d i)"
proof -
  have m: "i div BSIZE < MAXFILE" using i by (simp add: less_mult_imp_div_less)
  have lt: "i mod BSIZE < BSIZE" by (simp add: BSIZE_def)
  have off: "off = BSIZE * (off div BSIZE) + off mod BSIZE" and ieq: "i = BSIZE * (i div BSIZE) + i mod BSIZE" by simp_all
  show ?thesis
  proof (cases "i div BSIZE = off div BSIZE")
    case True
    have "i = BSIZE * (off div BSIZE) + i mod BSIZE" using ieq unfolding True .
    then have e: "off \<le> i \<longleftrightarrow> off mod BSIZE \<le> i mod BSIZE" "i < off + length src \<longleftrightarrow> i mod BSIZE < off mod BSIZE + length src"
        "i - off = i mod BSIZE - off mod BSIZE"
      using off by linarith+
    have "fbyte c' d' i = overwrite (fblock c d (off div BSIZE)) (off mod BSIZE) src ! (i mod BSIZE)"
      unfolding fbyte_def b [OF m] using True by simp
    also have "\<dots> = (if off mod BSIZE \<le> i mod BSIZE \<and> i mod BSIZE < off mod BSIZE + length src
        then src ! (i mod BSIZE - off mod BSIZE) else fblock c d (off div BSIZE) ! (i mod BSIZE))"
      using len lt by (intro nth_overwrite) simp_all
    finally show ?thesis using True by (simp add: e fbyte_def)
  next
    case False
    have "\<not> (off \<le> i \<and> i < off + length src)"
    proof
      assume r: "off \<le> i \<and> i < off + length src"
      show False
      proof (cases "length src = 0")
        case nz: False
        have "off mod BSIZE + (i - off) < BSIZE" using r len(2) by linarith
        from within_block [OF this] r False show False by simp
      qed (use r in auto)
    qed
    then show ?thesis using b [OF m] False by (auto simp: fbyte_def)
  qed
qed

text \<open>What writing the bytes \<open>src\<close> at \<open>off\<close> makes of the inode \<open>ip\<close>.\<close>

definition written :: "nat \<Rightarrow> 'a fstate_scheme \<Rightarrow> nat \<Rightarrow> byte list \<Rightarrow> 'a fstate_scheme \<Rightarrow> bool" where
  "written ip s off src t \<longleftrightarrow> file_step ip s t \<and>
     dcopy ip t = (dcopy ip s)\<lparr>di_addrs := di_addrs (dcopy ip t)\<rparr> \<and>
     (\<forall>i < MAXFILE * BSIZE. fbyte (bcontent t) (dcopy ip t) i =
        (if off \<le> i \<and> i < off + length src then src ! (i - off) else fbyte (bcontent s) (dcopy ip s) i)) \<and>
     (\<forall>n < MAXFILE. addr_of (bcontent s) (dcopy ip s) n \<noteq> 0 \<longrightarrow> addr_of (bcontent t) (dcopy ip t) n \<noteq> 0) \<and>
     (\<forall>i. off \<le> i \<and> i < off + length src \<longrightarrow> addr_of (bcontent t) (dcopy ip t) (i div BSIZE) \<noteq> 0) \<and>
     only_file ip s t \<and> ((\<forall>i. off \<le> i \<and> i < off + length src \<longrightarrow> addr_of (bcontent s) (dcopy ip s) (i div BSIZE) \<noteq> 0) \<longrightarrow>
       dcopy ip t = dcopy ip s)"

lemma addrs_trans: "e = (d :: dinode)\<lparr>di_addrs := x\<rparr> \<Longrightarrow> f = e\<lparr>di_addrs := y\<rparr> \<Longrightarrow> f = d\<lparr>di_addrs := y\<rparr>"
  by simp

lemma written_append:
  assumes a: "written ip s off us t" and b: "written ip t (off + length us) vs u"
    and lim: "off + length us + length vs \<le> MAXFILE * BSIZE"
  shows "written ip s off (us @ vs) u"
  unfolding written_def
proof (intro conjI allI impI)
  show "file_step ip s u" using a b file_step_trans unfolding written_def by blast
  show "only_file ip s u" using a b only_file_trans unfolding written_def by blast
  show "dcopy ip u = dcopy ip s"
    if old: "\<forall>i. off \<le> i \<and> i < off + length (us @ vs) \<longrightarrow> addr_of (bcontent s) (dcopy ip s) (i div BSIZE) \<noteq> 0"
  proof -
    have "dcopy ip t = dcopy ip s" using a old by (simp add: written_def)
    moreover have "addr_of (bcontent t) (dcopy ip t) (i div BSIZE) \<noteq> 0" if "off + length us \<le> i \<and> i < off + length us + length vs" for i
    proof -
      have "i div BSIZE < MAXFILE" using lim that by (simp add: less_mult_imp_div_less)
      moreover have "addr_of (bcontent s) (dcopy ip s) (i div BSIZE) \<noteq> 0" using old that by simp
      ultimately show ?thesis using a unfolding written_def by blast
    qed
    ultimately show ?thesis using b by (simp add: written_def)
  qed
  have "dcopy ip t = (dcopy ip s)\<lparr>di_addrs := di_addrs (dcopy ip t)\<rparr>"
    "dcopy ip u = (dcopy ip t)\<lparr>di_addrs := di_addrs (dcopy ip u)\<rparr>" using a b by (simp_all add: written_def)
  then show "dcopy ip u = (dcopy ip s)\<lparr>di_addrs := di_addrs (dcopy ip u)\<rparr>" by (rule addrs_trans)
  show "addr_of (bcontent u) (dcopy ip u) n \<noteq> 0" if "n < MAXFILE" "addr_of (bcontent s) (dcopy ip s) n \<noteq> 0" for n
    using a b that unfolding written_def by blast
  show "addr_of (bcontent u) (dcopy ip u) (i div BSIZE) \<noteq> 0" if i: "off \<le> i \<and> i < off + length (us @ vs)" for i
  proof (cases "i < off + length us")
    case True
    then have "i div BSIZE < MAXFILE" using lim by (simp add: less_mult_imp_div_less)
    moreover have "addr_of (bcontent t) (dcopy ip t) (i div BSIZE) \<noteq> 0" using a i True by (simp add: written_def)
    ultimately show ?thesis using b unfolding written_def by blast
  next
    case False
    then show ?thesis using b i by (simp add: written_def)
  qed
  show "fbyte (bcontent u) (dcopy ip u) i =
      (if off \<le> i \<and> i < off + length (us @ vs) then (us @ vs) ! (i - off) else fbyte (bcontent s) (dcopy ip s) i)"
    if i: "i < MAXFILE * BSIZE" for i
  proof -
    have "fbyte (bcontent u) (dcopy ip u) i = (if off + length us \<le> i \<and> i < off + length us + length vs
        then vs ! (i - (off + length us)) else fbyte (bcontent t) (dcopy ip t) i)"
      using b i by (simp add: written_def)
    moreover have "fbyte (bcontent t) (dcopy ip t) i =
        (if off \<le> i \<and> i < off + length us then us ! (i - off) else fbyte (bcontent s) (dcopy ip s) i)"
      using a i by (simp add: written_def)
    ultimately show ?thesis by (auto simp: nth_append)
  qed
qed

lemma write_loop_total:
  fixes s :: "'a fstate_scheme"
  assumes "room s (k + 7 * chunks off (length src))" and "blocks_ok s" and "inode_ready ip s" and "heldb s = {}"
    and "off + length src \<le> MAXFILE * BSIZE" and "2 * chunks off (length src) \<le> nfree s"
  shows "\<exists>t. write_loop ip off src s = Ret (off + length src, t) \<and> room t k \<and> written ip s off src t"
  using assms
proof (induction "length src" arbitrary: off src s rule: less_induct)
  case less
  show ?case
  proof (cases src)
    case Nil
    then have "room s k" using less.prems(1) by (simp add: chunks_def)
    then show ?thesis using Nil less.prems file_step_refl by (auto simp: written_def)
  next
    case (Cons x xs)
    let ?n = "length src" and ?b = "off div BSIZE"
    let ?m = "min ?n (BSIZE - off mod BSIZE)"
    have n0: "0 < ?n" using Cons by simp
    note ch = chunks_rec [OF n0 refl, of off]
    let ?k = "k + 7 * chunks (off + ?m) (?n - ?m)"
    have "off < MAXFILE * BSIZE" using less.prems(5) n0 by linarith
    then have bn: "?b < MAXFILE" by (simp add: less_mult_imp_div_less)
    have r6: "room s ((?k + 1) + 6)" and f2: "2 \<le> nfree s"
      using less.prems(1,6) unfolding ch(1) by (simp_all add: algebra_simps)
    obtain t where t: "bmap ip ?b s = Ret (addr_of (bcontent t) (dcopy ip t) ?b, t)" "room t (?k + 1)"
        "mapped ip s ?b t" "nfree s \<le> nfree t + 2"
      using bmap_total [OF r6 less.prems(2,3) bn less.prems(4) f2] by blast
    let ?d = "dcopy ip t" and ?a = "addr_of (bcontent t) (dcopy ip t) ?b"
    have mp: "file_step ip s t" "?a \<noteq> 0" "?d = (dcopy ip s)\<lparr>di_addrs := di_addrs ?d\<rparr>"
        "\<forall>n < MAXFILE. fblock (bcontent t) ?d n = fblock (bcontent s) (dcopy ip s) n"
        "\<forall>n < MAXFILE. addr_of (bcontent s) (dcopy ip s) n \<noteq> 0 \<longrightarrow> addr_of (bcontent t) ?d n \<noteq> 0"
        "only_file ip s t" "addr_of (bcontent s) (dcopy ip s) ?b \<noteq> 0 \<longrightarrow> ?d = dcopy ip s"
      using t(3) by (simp_all add: mapped_def)
    have okt: "blocks_ok t" "inode_ready ip t" "heldb t = {}" using mp(1) less.prems(4) by (simp_all add: file_step_def)
    have fo: "file_ok t ?d" "i_dev (ino ip t) = 1" using okt(2) by (simp_all add: inode_ready_def)
    have db: "data_block t ?a" using file_okD(3) [OF fo(1) bn] mp(2) by simp
    have alt: "?a < disksize t" by (rule data_block_lt [OF okt(1) db])
    have ci: "cache_inv t" using t(2) by (simp add: room_def log_inv_def)
    have la: "length (bcontent t ?a) = BSIZE" by (rule length_bcontent [OF ci])
    have lm: "length (take ?m src) = ?m" by simp
    let ?g = "\<lambda>d. overwrite d (off mod BSIZE) (take ?m src)"
    have lg: "length (?g (bcontent t ?a)) = BSIZE" using la ch(4) lm by (subst length_overwrite) simp_all
    have r1: "room t (Suc ?k)" using t(2) by simp
    obtain i u v w where u: "bread 1 ?a t = Ret (i, u)" "buf_data i u = bcontent t ?a"
        "log_write i (set_data i (?g (bcontent t ?a)) u) = Ret v" "brelse i v = Ret w" "room w ?k" "block_step t w"
        "bcontent w = (bcontent t)(?a := ?g (bcontent t ?a))"
      using edit_total [of t ?k ?a ?g, OF r1 alt _ lg] okt(3) by auto
    note fw = block_step_fs [OF u(6)] block_step_simps [OF u(6)]
    have lay: "layout (fs_sb t) (disksize t)" using okt(1) by (simp add: blocks_ok_def)
    have ds: "data_start (fs_sb t) \<le> ?a" using db by (simp add: data_block_def)
    have al: "allocated w c = allocated t c" if "c < sb_size (fs_sb t)" for c
      unfolding allocated_def fw(2) u(7) by (rule in_bitmap_data [OF lay that ds])
    have dbw: "data_block w = data_block t" using al fw by (auto simp: data_block_def fun_eq_iff)
    note wb = write_block [OF fo(1) bn refl mp(2) u(7) dbw]
    have okw: "blocks_ok w" using okt al fw lay unfolding blocks_ok_def layout_def by auto
    have stw: "file_step ip t w" by (rule file_step_block [OF u(6) okw okt(2) wb(1)])
    have dw: "dcopy ip w = ?d" by (simp add: fw)
    have fb: "fblock (bcontent w) (dcopy ip w) n = (if n = ?b then overwrite (fblock (bcontent s) (dcopy ip s) n)
        (off mod BSIZE) (take ?m src) else fblock (bcontent s) (dcopy ip s) n)" if "n < MAXFILE" for n
      using wb(3) [OF that] mp(2,4) that unfolding dw by (auto simp: fblock_def)
    have cs: "cache_inv s" using less.prems(1) by (simp add: room_def log_inv_def)
    have own: "only_file ip t w"
    proof (rule only_fileI [of t t w ip 0])
      show "meta_kept t w" by (rule meta_kept_upd [OF _ u(7) ds]) simp
      show "file_owns ip t c" if "bcontent w c \<noteq> bcontent t c" for c
        using that bn by (auto simp: u(7) file_owns_def split: if_splits)
      show "addr_of (bcontent w) (dcopy ip w) n \<in> {0, addr_of (bcontent t) ?d n}" if "n < MAXFILE" for n
        using wb(2) [OF that] unfolding dw by simp
    qed (use dbw dw fw not_data_0 in simp_all)
    have W: "written ip s off (take ?m src) w"
      unfolding written_def
    proof (intro conjI allI impI)
      show "only_file ip s w" using mp(6) own by (rule only_file_trans)
      show "dcopy ip w = dcopy ip s"
        if old: "\<forall>i. off \<le> i \<and> i < off + length (take ?m src) \<longrightarrow> addr_of (bcontent s) (dcopy ip s) (i div BSIZE) \<noteq> 0"
      proof -
        have "addr_of (bcontent s) (dcopy ip s) ?b \<noteq> 0" using old lm ch(2) by simp
        then show ?thesis using mp(7) unfolding dw by simp
      qed
      show "file_step ip s w" using mp(1) stw by (rule file_step_trans)
      show "dcopy ip w = (dcopy ip s)\<lparr>di_addrs := di_addrs (dcopy ip w)\<rparr>" unfolding dw by (rule mp(3))
      show "fbyte (bcontent w) (dcopy ip w) i = (if off \<le> i \<and> i < off + length (take ?m src) then take ?m src ! (i - off)
          else fbyte (bcontent s) (dcopy ip s) i)" if "i < MAXFILE * BSIZE" for i
        using fbyte_write [OF fb length_fblock [OF cs] _ that] ch(4) lm by simp
      show "addr_of (bcontent w) (dcopy ip w) n \<noteq> 0" if "n < MAXFILE" "addr_of (bcontent s) (dcopy ip s) n \<noteq> 0" for n
        using wb(2) [OF that(1)] mp(5) that unfolding dw by simp
      show "addr_of (bcontent w) (dcopy ip w) (i div BSIZE) \<noteq> 0" if i: "off \<le> i \<and> i < off + length (take ?m src)" for i
      proof -
        have "off mod BSIZE + (i - off) < BSIZE" using i ch(4) lm by linarith
        from within_block [OF this] i have "i div BSIZE = ?b" by simp
        then show ?thesis using wb(2) [OF bn] mp(2) unfolding dw by simp
      qed
    qed
    have nf: "nfree w = nfree t"
    proof -
      have "{c. c < sb_size (fs_sb w) \<and> \<not> allocated w c} = {c. c < sb_size (fs_sb t) \<and> \<not> allocated t c}"
        using al fw by auto
      then show ?thesis by (simp add: nfree_def)
    qed
    have okw2: "inode_ready ip w" "heldb w = {}" using stw okt(3) by (simp_all add: file_step_def)
    have ld: "length (drop ?m src) = ?n - ?m" by simp
    have "\<exists>z. write_loop ip (off + ?m) (drop ?m src) w = Ret (off + ?m + length (drop ?m src), z) \<and> room z k \<and>
        written ip w (off + ?m) (drop ?m src) z"
    proof (rule less.hyps)
      show "length (drop ?m src) < length src" using ch(2) n0 by simp
      show "room w (k + 7 * chunks (off + ?m) (length (drop ?m src)))" unfolding ld by (rule u(5))
      show "2 * chunks (off + ?m) (length (drop ?m src)) \<le> nfree w"
        using less.prems(6) t(4) unfolding ld nf ch(1) by simp
      show "off + ?m + length (drop ?m src) \<le> MAXFILE * BSIZE" using less.prems(5) by simp
    qed (fact okw okw2)+
    then obtain z where z: "write_loop ip (off + ?m) (drop ?m src) w = Ret (off + length src, z)" "room z k"
        "written ip w (off + ?m) (drop ?m src) z" by auto
    have "written ip w (off + length (take ?m src)) (drop ?m src) z" unfolding lm by (rule z(3))
    from written_append [OF W this] have "written ip s off (take ?m src @ drop ?m src) z"
      using less.prems(5) by simp
    then have "written ip s off src z" by simp
    moreover have "write_loop ip off src s = Ret (off + length src, z)"
      unfolding Cons write_loop.simps Let_def
      using t(1) u(1-4) z(1) fo(2) unfolding Cons [symmetric] by simp
    ultimately show ?thesis using z(2) by blast
  qed
qed

section \<open>iupdate\<close>

lemma length_enc_dinode: "length (di_addrs d) = NDIRECT + 1 \<Longrightarrow> length (enc_dinode d) = 64"
proof -
  assume a: "length (di_addrs d) = NDIRECT + 1"
  have "length (concat (map (le_enc 4) xs)) = 4 * length xs" for xs by (induction xs) simp_all
  then show ?thesis using a by (simp add: enc_dinode_def enc_short_def NDIRECT_def)
qed

definition dinode_wf :: "dinode \<Rightarrow> bool" where
  "dinode_wf d \<longleftrightarrow> (\<forall>v \<in> {di_type d, di_major d, di_minor d, di_nlink d}. -32768 \<le> v \<and> v < 32768) \<and>
     di_size d < 4294967296 \<and> length (di_addrs d) = NDIRECT + 1 \<and> (\<forall>a \<in> set (di_addrs d). a < 4294967296)"

lemma length_enc_short [simp]: "length (enc_short v) = 2"
  by (simp add: enc_short_def)

lemma s16_enc_short: "-32768 \<le> v \<Longrightarrow> v < 32768 \<Longrightarrow> s16 (le_dec (enc_short v)) = v"
proof -
  assume v: "-32768 \<le> v" "v < 32768"
  have "le_dec (enc_short v) = nat (v mod 65536)"
    unfolding enc_short_def by (rule le_dec_enc) (simp add: nat_less_iff)
  moreover have "v mod 65536 = (if v < 0 then v + 65536 else v)"
  proof (cases "v < 0")
    case True
    have "(v + 65536) mod 65536 = v + 65536" using v True by (intro mod_pos_pos_trivial) simp_all
    then show ?thesis using True by simp
  qed (use v in simp)
  ultimately show ?thesis using v by (auto simp: s16_def nat_less_iff)
qed

lemma slice_words: "i < length as \<Longrightarrow> slice (concat (map (le_enc 4) as)) (4 * i) 4 = le_enc 4 (as ! i)"
proof (induction as arbitrary: i)
  case (Cons a as)
  then show ?case by (cases i) (simp_all add: slice_def)
qed simp

lemma slice_append_skip: "length xs \<le> off \<Longrightarrow> slice (xs @ ys) off n = slice ys (off - length xs) n"
  by (simp add: slice_def)

lemma slice_append_here: "slice (xs @ ys) 0 (length xs) = xs"
  by (simp add: slice_def)

lemma dec_enc_dinode: "dinode_wf d \<Longrightarrow> dec_dinode (enc_dinode d) = d"
proof -
  assume wf: "dinode_wf d"
  let ?ws = "concat (map (le_enc 4) (di_addrs d))"
  have f: "enc_dinode d = enc_short (di_type d) @ enc_short (di_major d) @ enc_short (di_minor d) @
      enc_short (di_nlink d) @ le_enc 4 (di_size d) @ ?ws" by (simp add: enc_dinode_def)
  have here: "slice (xs @ ys) 0 2 = xs" if "length xs = 2" for xs ys :: "byte list"
    using slice_append_here [of xs ys] that by simp
  have four: "slice (xs @ ys) 0 4 = xs" if "length xs = 4" for xs ys :: "byte list"
    using slice_append_here [of xs ys] that by simp
  have s: "slice (enc_dinode d) 0 2 = enc_short (di_type d)" "slice (enc_dinode d) 2 2 = enc_short (di_major d)"
    "slice (enc_dinode d) 4 2 = enc_short (di_minor d)" "slice (enc_dinode d) 6 2 = enc_short (di_nlink d)"
    "slice (enc_dinode d) 8 4 = le_enc 4 (di_size d)" "slice (enc_dinode d) (12 + 4 * i) 4 = slice ?ws (4 * i) 4" for i
    by (simp_all add: f slice_append_skip here four)
  have "map (\<lambda>i. le_dec (slice (enc_dinode d) (12 + 4 * i) 4)) [0..<NDIRECT + 1] = di_addrs d"
    using wf by (intro nth_equalityI) (auto simp: dinode_wf_def s slice_words le_dec_enc simp del: upt_Suc)
  then show ?thesis
    using wf unfolding dec_dinode_def by (simp add: dinode_wf_def s s16_enc_short le_dec_enc del: upt_Suc)
qed

lemma dinode_at_other:
  assumes "length b = BSIZE" and "length (di_addrs d) = NDIRECT + 1" and "j mod IPB \<noteq> i mod IPB"
  shows "dinode_at (set_dinode b i d) j = dinode_at b j"
proof -
  have le: "length (enc_dinode d) = 64" by (rule length_enc_dinode [OF assms(2)])
  have "i mod IPB < 8" "j mod IPB < 8" by (simp_all add: IPB_def)
  then have fit: "64 * (i mod IPB) + length (enc_dinode d) \<le> length b" "64 * (j mod IPB) + 64 \<le> length b"
    using assms(1) le by (simp_all add: BSIZE_def)
  have "64 * (j mod IPB) + 64 \<le> 64 * (i mod IPB) \<or> 64 * (i mod IPB) + length (enc_dinode d) \<le> 64 * (j mod IPB)"
    using assms(3) le by auto
  then show ?thesis using slice_overwrite_disjoint [OF fit] by (simp add: dinode_at_def set_dinode_def)
qed

lemma dinode_at_set:
  assumes "length b = BSIZE" and "dinode_wf d"
  shows "dinode_at (set_dinode b i d) j = (if j mod IPB = i mod IPB then d else dinode_at b j)"
proof -
  have len: "length (di_addrs d) = NDIRECT + 1" using assms(2) by (simp add: dinode_wf_def)
  have le: "length (enc_dinode d) = 64" by (rule length_enc_dinode [OF len])
  have "i mod IPB < 8" by (simp add: IPB_def)
  then have fit: "64 * (i mod IPB) + length (enc_dinode d) \<le> length b" using assms(1) le by (simp add: BSIZE_def)
  show ?thesis
    using slice_overwrite_same [OF fit] dec_enc_dinode [OF assms(2)] le dinode_at_other [OF assms(1) len]
    by (simp add: dinode_at_def set_dinode_def)
qed

text \<open>What is read from the disk fits its fields, and so does the copy of an inode whose blocks are data blocks.\<close>

lemma shorts_on_disk: "v \<in> {di_type (dec_dinode b), di_major (dec_dinode b), di_minor (dec_dinode b), di_nlink (dec_dinode b)} \<Longrightarrow>
    -32768 \<le> v \<and> v < 32768"
proof -
  have "-32768 \<le> s16 x \<and> s16 x < 32768" for x
    using mod_less_divisor [of 65536 x] by (auto simp: s16_def)
  then show "v \<in> {di_type (dec_dinode b), di_major (dec_dinode b), di_minor (dec_dinode b), di_nlink (dec_dinode b)} \<Longrightarrow> ?thesis"
    by (auto simp: dec_dinode_def)
qed

lemma dinode_wf_copy:
  assumes "\<forall>v \<in> {di_type d, di_major d, di_minor d, di_nlink d}. -32768 \<le> v \<and> v < 32768" and "di_size d < 4294967296"
    and "file_ok s d" and "blocks_ok s"
  shows "dinode_wf d"
proof -
  have lim: "sb_size (fs_sb s) \<le> 4294967296" using assms(4) by (auto simp: blocks_ok_def layout_def)
  have "a < 4294967296" if "a \<in> set (di_addrs d)" for a
  proof -
    from that obtain i where i: "i < length (di_addrs d)" "di_addrs d ! i = a" unfolding in_set_conv_nth by blast
    then have "i \<le> NDIRECT" using file_okD(1) [OF assms(3)] by simp
    from file_okD(2) [OF assms(3) this] have "a = 0 \<or> a < sb_size (fs_sb s)" unfolding i(2) data_block_def by blast
    then show ?thesis using lim by linarith
  qed
  then show ?thesis using assms(1,2) file_okD(1) [OF assms(3)] unfolding dinode_wf_def by blast
qed

lemma length_set_dinode:
  assumes "length b = BSIZE" and "length (di_addrs d) = NDIRECT + 1"
  shows "length (set_dinode b inum d) = BSIZE"
proof -
  have "inum mod IPB < 8" by (simp add: IPB_def)
  then have "64 * (inum mod IPB) + length (enc_dinode d) \<le> length b"
    using assms(1) length_enc_dinode [OF assms(2)] by (simp add: BSIZE_def)
  then show ?thesis using assms(1) by (simp add: set_dinode_def)
qed

lemma IBLOCK_lt:
  assumes "layout sb n" and "inum \<le> sb_ninodes sb"
  shows "IBLOCK inum sb < sb_bmapstart sb" "IBLOCK inum sb < n" "IBLOCK inum sb < data_start sb"
    "IBLOCK inum sb = inum div IPB + sb_inodestart sb"
proof -
  have "inum div IPB \<le> sb_ninodes sb div IPB" using assms(2) by (rule div_le_mono)
  then have lt: "inum div IPB + sb_inodestart sb < sb_bmapstart sb" using assms(1) by (simp add: layout_def)
  moreover have n: "sb_bmapstart sb < n" "n \<le> 4294967296" "sb_bmapstart sb < data_start sb"
    using assms(1) by (auto simp: layout_def data_start_def)
  ultimately have e: "IBLOCK inum sb = inum div IPB + sb_inodestart sb" by (simp add: IBLOCK_def)
  show "IBLOCK inum sb < sb_bmapstart sb" "IBLOCK inum sb < n" "IBLOCK inum sb < data_start sb"
    "IBLOCK inum sb = inum div IPB + sb_inodestart sb" using e lt n by simp_all
qed

text \<open>Changing a block below the bitmap keeps all that is said of blocks and files.\<close>

lemma meta_same:
  assumes st: "block_step s t" and c: "bcontent t = (bcontent s)(m := x)" and m: "m < sb_bmapstart (fs_sb s)"
    and ok: "blocks_ok s"
  shows "data_same s t" "blocks_ok t" "c < sb_size (fs_sb s) \<Longrightarrow> allocated t c = allocated s c" "nfree t = nfree s"
proof -
  note f = block_step_fs [OF st] block_step_simps [OF st]
  have lay: "layout (fs_sb s) (disksize s)" using ok by (simp add: blocks_ok_def)
  have al: "allocated t c = allocated s c" if "c < sb_size (fs_sb s)" for c
    using BBLOCK_eq(4) [OF lay, of c] that m by (simp add: allocated_def in_bitmap_def f c)
  then show "c < sb_size (fs_sb s) \<Longrightarrow> allocated t c = allocated s c" .
  have "m < data_start (fs_sb s)" using m by (simp add: data_start_def)
  then show "data_same s t" using al by (auto simp: data_same_def data_block_def f c)
  show "blocks_ok t" using ok al f lay unfolding blocks_ok_def layout_def by auto
  have "{c. c < sb_size (fs_sb t) \<and> \<not> allocated t c} = {c. c < sb_size (fs_sb s) \<and> \<not> allocated s c}"
    using al f by auto
  then show "nfree t = nfree s" by (simp add: nfree_def)
qed

lemma iupdate_total:
  fixes s :: "'a fstate_scheme"
  assumes r: "room s (Suc k)" and ok: "blocks_ok s" and rd: "inode_ready ip s" and h: "heldb s = {}"
    and i: "i_inum (ino ip s) < sb_ninodes (fs_sb s)"
  shows "\<exists>t. iupdate ip s = Ret t \<and> room t k \<and> block_step s t \<and>
    bcontent t = (bcontent s)(IBLOCK (i_inum (ino ip s)) (fs_sb s) :=
      set_dinode (bcontent s (IBLOCK (i_inum (ino ip s)) (fs_sb s))) (i_inum (ino ip s)) (dcopy ip s))"
proof -
  let ?n = "i_inum (ino ip s)" and ?B = "IBLOCK (i_inum (ino ip s)) (fs_sb s)"
  have d: "i_dev (ino ip s) = 1" "file_ok s (dcopy ip s)" using rd by (simp_all add: inode_ready_def)
  have lay: "layout (fs_sb s) (disksize s)" using ok by (simp add: blocks_ok_def)
  have lt: "?B < disksize s" using IBLOCK_lt(2) [OF lay] i by simp
  have ci: "cache_inv s" using r by (simp add: room_def log_inv_def)
  let ?g = "\<lambda>b. set_dinode b ?n (dcopy ip s)"
  have lg: "length (?g (bcontent s ?B)) = BSIZE"
    by (rule length_set_dinode [OF length_bcontent [OF ci] file_okD(1) [OF d(2)]])
  obtain j t u v where u: "bread 1 ?B s = Ret (j, t)" "buf_data j t = bcontent s ?B"
      "log_write j (set_data j (?g (bcontent s ?B)) t) = Ret u" "brelse j u = Ret v" "room v k" "block_step s v"
      "bcontent v = (bcontent s)(?B := ?g (bcontent s ?B))"
    using edit_total [of s k ?B ?g, OF r lt _ lg] h by auto
  then show ?thesis using d(1) bread_fs [OF u(1)] by (simp add: iupdate_def)
qed

lemma iupdate_step:
  fixes s :: "'a fstate_scheme"
  assumes r: "room s (Suc k)" and ok: "blocks_ok s" and rd: "inode_ready ip s" and h: "heldb s = {}"
    and i: "i_inum (ino ip s) < sb_ninodes (fs_sb s)"
  shows "\<exists>t. iupdate ip s = Ret t \<and> room t k \<and> file_step ip s t \<and> dcopy ip t = dcopy ip s \<and> data_same s t \<and>
    nfree t = nfree s"
proof -
  obtain t where t: "iupdate ip s = Ret t" "room t k" "block_step s t"
    "bcontent t = (bcontent s)(IBLOCK (i_inum (ino ip s)) (fs_sb s) :=
      set_dinode (bcontent s (IBLOCK (i_inum (ino ip s)) (fs_sb s))) (i_inum (ino ip s)) (dcopy ip s))"
    using iupdate_total [OF assms] by blast
  have lay: "layout (fs_sb s) (disksize s)" using ok by (simp add: blocks_ok_def)
  note m = meta_same [OF t(3,4) IBLOCK_lt(1) [OF lay] ok]
  have fo: "file_ok s (dcopy ip s)" using rd by (simp add: inode_ready_def)
  have "file_step ip s t"
    by (rule file_step_block [OF t(3) m(2) rd file_ok_same [OF m(1) fo]]) (use i in simp_all)
  then show ?thesis using t m i block_step_fs [OF t(3)] by auto
qed

text \<open>Inode \<open>j\<close> as it is on the disk. Of the inodes there, \<open>iupdate\<close> changes the one of the entry it is called for, which then
  is the copy in memory, and no other.\<close>

definition disk_inode :: "'a fstate_scheme \<Rightarrow> nat \<Rightarrow> dinode" where
  "disk_inode s j = dinode_at (bcontent s (IBLOCK j (fs_sb s))) j"

lemma disk_inode_kept:
  assumes "only_file ip s t" and "blocks_ok s" and "j < sb_ninodes (fs_sb s)"
  shows "disk_inode t j = disk_inode s j"
proof -
  have "layout (fs_sb s) (disksize s)" using assms(2) by (simp add: blocks_ok_def)
  from IBLOCK_lt(1) [OF this] assms show ?thesis by (simp add: disk_inode_def only_file_def meta_kept_def)
qed

lemma iupdate_disk_inode:
  fixes s :: "'a fstate_scheme"
  assumes r: "room s (Suc k)" and ok: "blocks_ok s" and rd: "inode_ready ip s" and h: "heldb s = {}"
    and i: "i_inum (ino ip s) < sb_ninodes (fs_sb s)" and t: "iupdate ip s = Ret t"
  shows "j < sb_ninodes (fs_sb s) \<Longrightarrow> j \<noteq> i_inum (ino ip s) \<Longrightarrow> disk_inode t j = disk_inode s j"
    and "dinode_wf (dcopy ip s) \<Longrightarrow> disk_inode t (i_inum (ino ip s)) = dcopy ip s"
    and "data_block s a \<Longrightarrow> data_block t a \<and> bcontent t a = bcontent s a"
proof -
  let ?n = "i_inum (ino ip s)" and ?B = "IBLOCK (i_inum (ino ip s)) (fs_sb s)"
  have b: "block_step s t" "bcontent t = (bcontent s)(?B := set_dinode (bcontent s ?B) ?n (dcopy ip s))"
    using iupdate_total [OF r ok rd h i] t by auto
  note f = block_step_fs [OF b(1)]
  have lay: "layout (fs_sb s) (disksize s)" using ok by (simp add: blocks_ok_def)
  have ci: "cache_inv s" using r by (simp add: room_def log_inv_def)
  note len = length_bcontent [OF ci, of ?B]
  have ad: "length (di_addrs (dcopy ip s)) = NDIRECT + 1" using rd file_okD(1) by (auto simp: inode_ready_def)
  show "disk_inode t j = disk_inode s j" if j: "j < sb_ninodes (fs_sb s)" "j \<noteq> ?n"
  proof (cases "IBLOCK j (fs_sb s) = ?B")
    case True
    then have "j div IPB = ?n div IPB" using IBLOCK_lt(4) [OF lay] j(1) i by simp
    then have "j mod IPB \<noteq> ?n mod IPB" using j(2) by (metis div_mult_mod_eq)
    from dinode_at_other [OF len ad this] True show ?thesis by (simp add: disk_inode_def f b(2))
  qed (simp add: disk_inode_def f b(2))
  show "disk_inode t ?n = dcopy ip s" if "dinode_wf (dcopy ip s)"
    using dinode_at_set [OF len that] by (simp add: disk_inode_def f b(2))
  show "data_block t a \<and> bcontent t a = bcontent s a" if "data_block s a"
    using meta_same(1) [OF b IBLOCK_lt(1) [OF lay] ok] i that by (simp add: data_same_def)
qed

section \<open>readi and writei\<close>

text \<open>The content of a file: its first \<open>size\<close> bytes; \<open>file_at\<close>: a regular file or directory in use.\<close>

definition content_of :: "nat \<Rightarrow> 'a fstate_scheme \<Rightarrow> byte list" where
  "content_of ip s = map (fbyte (bcontent s) (dcopy ip s)) [0..<di_size (dcopy ip s)]"

definition file_at :: "nat \<Rightarrow> 'a fstate_scheme \<Rightarrow> bool" where
  "file_at ip s \<longleftrightarrow> blocks_ok s \<and> inode_ready ip s \<and> heldb s = {} \<and> di_type (dcopy ip s) \<noteq> T_DEV \<and>
     i_inum (ino ip s) < sb_ninodes (fs_sb s) \<and> di_size (dcopy ip s) \<le> MAXFILE * BSIZE \<and>
     (\<forall>i < di_size (dcopy ip s). addr_of (bcontent s) (dcopy ip s) (i div BSIZE) \<noteq> 0)"

lemma length_content [simp]: "length (content_of ip s) = di_size (dcopy ip s)"
  by (simp add: content_of_def)

lemma MAXFILE_bytes: "MAXFILE * BSIZE = 71680"
  by (simp add: MAXFILE_def NDIRECT_def NINDIRECT_def BSIZE_def)

lemma content_slice:
  "off + n \<le> di_size (dcopy ip s) \<Longrightarrow> map (fbyte (bcontent s) (dcopy ip s)) [off..<off + n] = slice (content_of ip s) off n"
  by (rule nth_equalityI) (simp_all add: content_of_def slice_def)

lemma file_at_block:
  assumes "block_step s t" and "bcontent t = bcontent s" and "file_at ip s"
  shows "file_at ip t" "content_of ip t = content_of ip s"
proof -
  have ok: "blocks_ok s" "inode_ready ip s" using assms(3) by (simp_all add: file_at_def)
  note f = block_step_fs [OF assms(1)] block_step_simps [OF assms(1)] block_step_ok [OF assms(1,2) ok]
  show "file_at ip t" using assms(3) by (simp add: file_at_def f assms(2))
  show "content_of ip t = content_of ip s" by (simp add: content_of_def f assms(2))
qed

lemma readi_total:
  fixes s :: "'a fstate_scheme"
  assumes r: "room s k" "0 < k" and fa: "file_at ip s" and off: "off \<le> di_size (dcopy ip s)" and n: "off + n < 4294967296"
  shows "\<exists>t. readi ip off n s = Ret (int (length (slice (content_of ip s) off n)), slice (content_of ip s) off n, t) \<and>
    room t k \<and> block_step s t \<and> bcontent t = bcontent s"
proof -
  let ?sz = "di_size (dcopy ip s)"
  let ?n = "if off + n > ?sz then ?sz - off else n"
  have fx: "blocks_ok s" "inode_ready ip s" "heldb s = {}" "di_type (dcopy ip s) \<noteq> T_DEV" "?sz \<le> MAXFILE * BSIZE"
    using fa by (simp_all add: file_at_def)
  have le: "off + ?n \<le> ?sz" using off by auto
  have "\<forall>i. off \<le> i \<and> i < off + ?n \<longrightarrow> addr_of (bcontent s) (dcopy ip s) (i div BSIZE) \<noteq> 0"
    using fa le unfolding file_at_def by (meson less_le_trans)
  then obtain t where t: "read_loop ip off ?n s = Ret (map (fbyte (bcontent s) (dcopy ip s)) [off..<off + ?n], t)"
      "room t k" "block_step s t" "bcontent t = bcontent s"
    using read_loop_total [OF r fx(1-3), of off ?n] le fx(5) by fastforce
  have u: "u32 (off + n) = off + n" using n by simp
  have sl: "slice (content_of ip s) off ?n = slice (content_of ip s) off n"
    using off by (auto simp: slice_def)
  then have "map (fbyte (bcontent s) (dcopy ip s)) [off..<off + ?n] = slice (content_of ip s) off n"
    using content_slice [OF le] by simp
  moreover have "length (slice (content_of ip s) off n) = ?n" using off by (auto simp: slice_def)
  ultimately have "readi ip off n s = Ret (int (length (slice (content_of ip s) off n)), slice (content_of ip s) off n, t)"
    using t(1) fx(4) off u by (simp add: readi_def Let_def)
  then show ?thesis using t by blast
qed

lemma dcopy_upd [simp]: "ip < length (inodes s) \<Longrightarrow> dcopy ip (upd_copy ip f s) = f (dcopy ip s)"
  by (simp add: upd_copy_def)

end
