(* ===== verification/Fs_Example.thy ===== *)
theory Fs_Example
  imports Fs_Content
begin

text \<open>
  A small file system with one directory, on which the properties of the file system are
  applied: 60 blocks, the log at 2, the inodes at 32, the bitmap at 34 and the data at 35, of which
  only block 35 is in use. It has just been mounted, within one transaction, and inode 1
  is in memory.
\<close>

definition example_sb :: superblock where
  "example_sb = \<lparr>sb_size = 60, sb_nblocks = 25, sb_ninodes = 8, sb_nlog = 30, sb_logstart = 2,
     sb_inodestart = 32, sb_bmapstart = 34\<rparr>"

definition root_dinode :: dinode where
  "root_dinode = \<lparr>di_type = T_DIR, di_major = 0, di_minor = 0, di_nlink = 1, di_size = 32,
     di_addrs = 35 # replicate NDIRECT 0\<rparr>"

text \<open>The entries \<open>.\<close> and \<open>..\<close>.\<close>

definition root_entries :: "byte list" where
  "root_entries = mk_dirent 1 [46] @ mk_dirent 1 [46, 46]"

definition fs_disk :: "nat \<Rightarrow> byte list" where
  "fs_disk = (\<lambda>m. replicate BSIZE 0)
     (32 := overwrite (replicate BSIZE 0) 64 (enc_dinode root_dinode),
      34 := [255, 255, 255, 255, 15] @ replicate (BSIZE - 5) 0,
      35 := root_entries @ replicate (BSIZE - 32) 0)"

definition unused_inode :: inode where
  "unused_inode = \<lparr>i_dev = 0, i_inum = 0, i_ref = 0, i_lock = initsleeplock, i_valid = False, i_copy = zero_dinode\<rparr>"

definition root_inode :: inode where
  "root_inode = \<lparr>i_dev = 1, i_inum = 1, i_ref = 1, i_lock = \<lparr>slocked = True, spid = 1\<rparr>, i_valid = True,
     i_copy = root_dinode\<rparr>"

definition mounted :: fstate where
  "mounted = \<lparr>bufs = replicate NBUF empty_buf, lru = [0..<NBUF], memdisk = fs_disk, disksize = 100, disk_writes = [],
     my_pid = 1, log_start = 2, log_size = 30, outstanding = 1, committing = False, log_dev = 1, lh_n = 0,
     lh_block = replicate LOGSIZE 0, fs_sb = example_sb, inodes = root_inode # replicate 49 unused_inode,
     devsw = [], cwd = 0\<rparr>"

lemma length_root_entries [simp]: "length root_entries = 32"
  by (simp add: root_entries_def mk_dirent_def dir_name_def DIRSIZ_def)

lemma length_fs_disk: "length (fs_disk m) = BSIZE"
  by (simp add: fs_disk_def BSIZE_def length_enc_dinode root_dinode_def)

lemma mounted_fields [simp]:
  "inodes mounted = root_inode # replicate 49 unused_inode" "fs_sb mounted = example_sb" "disksize mounted = 100"
  "my_pid mounted = 1" "outstanding mounted = 1" "lh_n mounted = 0" "log_size mounted = 30" "cwd mounted = 0"
  "memdisk mounted = fs_disk" "log_start mounted = 2" "log_dev mounted = 1"
  by (simp_all add: mounted_def)

lemma mounted_cache:
  "\<not> cached mounted i m" "\<not> holds_buf mounted i m" "\<not> pinned mounted m" "idle mounted = {..<NBUF}"
proof -
  show c: "\<not> cached mounted i m" for i
    by (cases "i < NBUF") (simp_all add: cached_def mounted_def empty_buf_def)
  show "\<not> holds_buf mounted i m" "\<not> pinned mounted m" by (simp_all add: holds_buf_def pinned_def c)
  show "idle mounted = {..<NBUF}" by (auto simp: idle_def mounted_def empty_buf_def)
qed

lemma mounted_content [simp]: "bcontent mounted = fs_disk"
proof -
  have "find (\<lambda>i. False) xs = None" for xs :: "nat list" by (induction xs) simp_all
  then show ?thesis using mounted_cache(1) by (simp add: bcontent_def fun_eq_iff)
qed

lemma mounted_room: "k < 30 \<Longrightarrow> room mounted k"
proof -
  assume k: "k < 30"
  have "buf_ok (memdisk mounted) (disksize mounted) (my_pid mounted) (bufs mounted ! i)" if "i < NBUF" for i
    using that by (simp add: mounted_def buf_ok_def empty_buf_def initsleeplock_def)
  then have "cache_inv mounted"
    using mounted_cache(1) length_fs_disk by (auto simp: cache_inv_def) (auto simp: mounted_def)
  moreover have "logged_blocks mounted = []" "length (lh_block mounted) = LOGSIZE"
    by (simp_all add: logged_blocks_def mounted_def)
  ultimately show ?thesis
    using k by (simp add: room_def log_inv_def mounted_cache LOGSIZE_def NBUF_def)
qed

lemma ones_below: "bit (255 :: byte) i \<longleftrightarrow> i < 8" "bit (15 :: byte) i \<longleftrightarrow> i < 4"
  using bit_mask_iff [where 'a = byte, of 8 i] bit_mask_iff [where 'a = byte, of 4 i] bit_imp_le_length [of "15 :: byte" i]
  by (auto simp: mask_eq_exp_minus_1)

lemma mounted_allocated: "c < 60 \<Longrightarrow> allocated mounted c \<longleftrightarrow> c < 36"
proof -
  assume c: "c < 60"
  then have b: "BBLOCK c example_sb = 34" "c mod BPB = c" by (simp_all add: BBLOCK_def BPB_def example_sb_def)
  have d: "fs_disk 34 = [255, 255, 255, 255, 15] @ replicate (BSIZE - 5) 0" by (simp add: fs_disk_def)
  have "c div 8 < 8" using c by simp
  then have nth: "fs_disk 34 ! (c div 8) = (if c div 8 < 4 then 255 else if c div 8 = 4 then 15 else 0)"
    unfolding d by (auto simp: nth_append BSIZE_def nth_Cons' split: if_splits)
  have "bitmap_get (fs_disk 34) c \<longleftrightarrow> c < 36"
    unfolding bitmap_get_def nth
    using ones_below [of "c mod 8"] by (cases "c div 8 < 4"; cases "c div 8 = 4") (simp_all, presburger+)
  then show ?thesis by (simp add: allocated_def in_bitmap_def b)
qed

lemma mounted_layout: "data_start example_sb = 35" "layout example_sb 100"
  by (simp_all add: data_start_def layout_def example_sb_def BPB_def IPB_def)

lemma mounted_free: "nfree mounted = 24"
proof -
  have "{c. c < sb_size (fs_sb mounted) \<and> \<not> allocated mounted c} = {36..<60}"
    using mounted_allocated by (auto simp: example_sb_def)
  then show ?thesis by (simp add: nfree_def)
qed

lemma mounted_ok: "blocks_ok mounted" "heldb mounted = {}"
proof -
  show "heldb mounted = {}" by (simp add: heldb_def mounted_cache)
  then show "blocks_ok mounted"
    using mounted_layout mounted_allocated by (auto simp: blocks_ok_def)
qed

lemma root_addrs: "addr_of c root_dinode n = (if n = 0 then 35 else 0)" if "n < MAXFILE"
  using that by (auto simp: addr_of_def root_dinode_def NDIRECT_def nth_Cons' split: if_splits)

lemma mounted_root: "file_at 0 mounted"
proof -
  have "allocated mounted 35" by (simp add: mounted_allocated)
  then have d: "data_block mounted 35"
    by (simp add: data_block_def mounted_layout) (simp add: example_sb_def)
  have m: "0 < MAXFILE" by (simp add: MAXFILE_def NDIRECT_def)
  have "file_ok mounted root_dinode"
    unfolding file_ok_def using root_addrs d
    by (auto split: if_splits) (auto simp: root_dinode_def NDIRECT_def nth_Cons' split: if_splits)
  moreover have "addr_of c root_dinode (i div BSIZE) \<noteq> 0" if "i < 32" for c i
    using root_addrs [of 0 c] m that by (simp add: BSIZE_def)
  ultimately show ?thesis
    using mounted_ok by (simp add: file_at_def inode_ready_def root_inode_def) (simp add: root_dinode_def example_sb_def MAXFILE_bytes)
qed

lemma mounted_root_content: "content_of 0 mounted = root_entries"
proof (rule nth_equalityI)
  show "length (content_of 0 mounted) = length root_entries" by (simp add: root_inode_def root_dinode_def)
next
  fix i assume "i < length (content_of 0 mounted)"
  then have i: "i < 32" by (simp add: root_inode_def root_dinode_def)
  have m: "0 < MAXFILE" by (simp add: MAXFILE_def NDIRECT_def)
  have "fbyte fs_disk root_dinode i = fs_disk 35 ! i"
    using root_addrs [OF m] i by (simp add: fbyte_def fblock_def BSIZE_def)
  also have "\<dots> = root_entries ! i" using i by (simp add: fs_disk_def nth_append)
  finally show "content_of 0 mounted ! i = root_entries ! i"
    using i by (simp add: content_of_def root_inode_def) (simp add: root_dinode_def)
qed

lemma mounted_saved: "disk_inode mounted 1 = root_dinode"
proof -
  have wf: "dinode_wf root_dinode" by (simp add: dinode_wf_def root_dinode_def NDIRECT_def)
  have b: "IBLOCK 1 example_sb = 32" by (simp add: IBLOCK_def IPB_def example_sb_def)
  have "fs_disk 32 = set_dinode (replicate BSIZE 0) 1 root_dinode" by (simp add: fs_disk_def set_dinode_def IPB_def)
  then show ?thesis using dinode_at_set [of "replicate BSIZE 0", OF _ wf, of 1 1] by (simp add: disk_inode_def b [unfolded One_nat_def])
qed

end
