(* ===== verification/Fs_Files.thy ===== *)
theory Fs_Files
  imports Fs_Example
begin

text \<open>
  Files as byte arrays: \<open>writei\<close> refines overwriting the bytes of the content, saves the inode and leaves the other inodes
  and the blocks of other files alone, and what is written is read back.
\<close>

section \<open>writei\<close>

lemma file_step_inode:
  assumes "file_step ip s t"
  shows "i_inum (ino jp t) = i_inum (ino jp s)" "i_dev (ino jp t) = i_dev (ino jp s)"
    "i_ref (ino jp t) = i_ref (ino jp s)" "i_lock (ino jp t) = i_lock (ino jp s)"
    "i_valid (ino jp t) = i_valid (ino jp s)"
proof -
  have e: "ino ip t = (ino ip s)\<lparr>i_copy := dcopy ip t\<rparr>" and o: "jp \<noteq> ip \<Longrightarrow> ino jp t = ino jp s"
    using assms by (simp_all add: file_step_def)
  note a = arg_cong [OF e]
  show "i_inum (ino jp t) = i_inum (ino jp s)" using o a [of i_inum] by (cases "jp = ip") simp_all
  show "i_dev (ino jp t) = i_dev (ino jp s)" using o a [of i_dev] by (cases "jp = ip") simp_all
  show "i_ref (ino jp t) = i_ref (ino jp s)" using o a [of i_ref] by (cases "jp = ip") simp_all
  show "i_lock (ino jp t) = i_lock (ino jp s)" using o a [of i_lock] by (cases "jp = ip") simp_all
  show "i_valid (ino jp t) = i_valid (ino jp s)" using o a [of i_valid] by (cases "jp = ip") simp_all
qed

lemma upd_copy_trans:
  "m = (n :: inode)\<lparr>i_copy := c\<rparr> \<Longrightarrow> m\<lparr>i_copy := d\<rparr> = n\<lparr>i_copy := d\<rparr>"
  by simp

lemma file_step_upd:
  assumes st: "file_step ip s t" and ok: "file_ok t (f (dcopy ip t))"
  shows "file_step ip s (upd_copy ip f t)"
proof -
  have e: "ino ip t = (ino ip s)\<lparr>i_copy := dcopy ip t\<rparr>" and lt: "ip < length (inodes t)"
    using st by (simp_all add: file_step_def inode_ready_def)
  have "ino ip (upd_copy ip f t) = (ino ip s)\<lparr>i_copy := dcopy ip (upd_copy ip f t)\<rparr>"
    using upd_copy_trans [OF e, of "f (dcopy ip t)"] lt by (simp add: upd_copy_def)
  then show ?thesis using st ok lt file_step_inode(2) [OF st, of ip]
    by (simp add: file_step_def inode_ready_def) (simp add: upd_copy_def)
qed

lemma file_ok_size [simp]: "file_ok s (d\<lparr>di_size := n\<rparr>) = file_ok s d"
  by (simp add: file_ok_def addr_of_def)

lemma addr_of_size [simp]: "addr_of c (d\<lparr>di_size := n\<rparr>) = addr_of c d"
  by (simp add: addr_of_def fun_eq_iff)

lemma fbyte_size [simp]: "fbyte c (d\<lparr>di_size := n\<rparr>) = fbyte c d"
  by (simp add: fbyte_def fblock_def fun_eq_iff)

lemma fbyte_same:
  assumes "data_same s t" and "file_ok s d" and "i < MAXFILE * BSIZE"
  shows "fbyte (bcontent t) d i = fbyte (bcontent s) d i"
  using fblock_same [OF assms(1,2)] assms(3) by (simp add: fbyte_def less_mult_imp_div_less)

text \<open>The content of a file is that of an array of bytes and a number of them.\<close>

lemma content_overwritten:
  assumes "n = (if off + length src > m then off + length src else m)" and "off \<le> m"
    and "\<And>i. i < n \<Longrightarrow> g i = (if off \<le> i \<and> i < off + length src then src ! (i - off) else f i)"
  shows "map g [0..<n] = take off (map f [0..<m]) @ src @ drop (off + length src) (map f [0..<m])"
proof (rule nth_equalityI)
  show "length (map g [0..<n]) = length (take off (map f [0..<m]) @ src @ drop (off + length src) (map f [0..<m]))"
    using assms(1,2) by auto
next
  fix i assume "i < length (map g [0..<n])"
  then have i: "i < n" by simp
  then show "map g [0..<n] ! i = (take off (map f [0..<m]) @ src @ drop (off + length src) (map f [0..<m])) ! i"
    using assms(1,2) assms(3) [OF i] by (auto simp: nth_append min_def split: if_splits)
qed

text \<open>
  What writing to inode \<open>ip\<close> leaves alone and what it keeps: the other inodes on the disk, the agreement of the disk with the
  copy in memory, and the blocks of other files.
\<close>

definition others_kept :: "nat \<Rightarrow> 'a fstate_scheme \<Rightarrow> 'a fstate_scheme \<Rightarrow> bool" where
  "others_kept ip s t \<longleftrightarrow>
     (\<forall>j < sb_ninodes (fs_sb s). j \<noteq> i_inum (ino ip s) \<longrightarrow> disk_inode t j = disk_inode s j) \<and>
     (disk_inode s (i_inum (ino ip s)) = dcopy ip s \<longrightarrow> disk_inode t (i_inum (ino ip s)) = dcopy ip t) \<and>
     (\<forall>a. data_block s a \<longrightarrow> \<not> file_owns ip s a \<longrightarrow> data_block t a \<and> bcontent t a = bcontent s a)"

lemma others_kept_same_copy:
  assumes "only_file ip s t" and "blocks_ok s" and "i_inum (ino ip s) < sb_ninodes (fs_sb s)" and "dcopy ip t = dcopy ip s"
  shows "others_kept ip s t"
  using disk_inode_kept [OF assms(1,2)] assms(1,3,4) by (simp add: others_kept_def only_file_def)

text \<open>Growing the file: the new size is stored in the copy, which \<open>iupdate\<close> then writes.\<close>

lemma others_kept_grown:
  fixes s :: "'a fstate_scheme"
  assumes own: "only_file ip s t" and ok: "blocks_ok s" and i: "i_inum (ino ip s) < sb_ninodes (fs_sb s)"
    and c: "dcopy ip t = (dcopy ip s)\<lparr>di_addrs := di_addrs (dcopy ip t)\<rparr>" and u: "u = upd_copy ip (\<lambda>d. d\<lparr>di_size := e\<rparr>) t"
    and r: "room u (Suc k)" "blocks_ok u" "inode_ready ip u" "heldb u = {}" and v: "iupdate ip u = Ret v" "dcopy ip v = dcopy ip u"
    and n: "i_inum (ino ip u) = i_inum (ino ip s)" and e: "e < 4294967296"
  shows "others_kept ip s v"
proof -
  have sb: "fs_sb t = fs_sb s" using own by (simp add: only_file_def)
  have f: "fs_sb u = fs_sb s" "bcontent u = bcontent t" "data_block u = data_block t" by (simp_all add: u upd_copy_def sb)
  have ip: "ip < length (inodes t)" using r(3) by (simp add: inode_ready_def u upd_copy_def)
  then have du: "dcopy ip u = (dcopy ip t)\<lparr>di_size := e\<rparr>" by (simp add: u)
  have iu: "i_inum (ino ip u) < sb_ninodes (fs_sb u)" using i n f by simp
  note w = iupdate_disk_inode [OF r(1-4) iu v(1)]
  have kept: "disk_inode u j = disk_inode s j" if "j < sb_ninodes (fs_sb s)" for j
    using disk_inode_kept [OF own ok that] by (simp add: disk_inode_def f sb)
  have "disk_inode v (i_inum (ino ip s)) = dcopy ip v" if s: "disk_inode s (i_inum (ino ip s)) = dcopy ip s"
  proof -
    have "\<forall>x \<in> {di_type (dcopy ip s), di_major (dcopy ip s), di_minor (dcopy ip s), di_nlink (dcopy ip s)}. -32768 \<le> x \<and> x < 32768"
      unfolding s [symmetric] disk_inode_def dinode_at_def using shorts_on_disk by blast
    moreover have "di_type (dcopy ip u) = di_type (dcopy ip s)" "di_major (dcopy ip u) = di_major (dcopy ip s)"
      "di_minor (dcopy ip u) = di_minor (dcopy ip s)" "di_nlink (dcopy ip u) = di_nlink (dcopy ip s)" "di_size (dcopy ip u) = e"
      unfolding du by (subst c, simp)+
    moreover have "file_ok u (dcopy ip u)" using r(3) by (simp add: inode_ready_def)
    ultimately have "dinode_wf (dcopy ip u)" using e r(2) by (intro dinode_wf_copy [of _ u]) simp_all
    then show ?thesis using w(2) n v(2) by simp
  qed
  moreover have "data_block v a \<and> bcontent v a = bcontent s a" if "data_block s a" "\<not> file_owns ip s a" for a
  proof -
    have "data_block t a" "bcontent t a = bcontent s a" using own that by (simp_all add: only_file_def)
    then show ?thesis using w(3) [of a] f by simp
  qed
  ultimately show ?thesis using w(1) kept n f by (simp add: others_kept_def)
qed

lemma writei_total:
  fixes s :: "'a fstate_scheme"
  assumes r: "room s (k + 7 * chunks off (length src) + 1)" and fa: "file_at ip s" and off: "off \<le> di_size (dcopy ip s)"
    and lim: "off + length src \<le> MAXFILE * BSIZE" and free: "2 * chunks off (length src) \<le> nfree s"
  shows "\<exists>t. writei ip src off s = Ret (int (length src), t) \<and> room t k \<and> file_step ip s t \<and> file_at ip t \<and>
    content_of ip t = take off (content_of ip s) @ src @ drop (off + length src) (content_of ip s) \<and>
    di_type (dcopy ip t) = di_type (dcopy ip s) \<and> others_kept ip s t"
proof -
  let ?sz = "di_size (dcopy ip s)" and ?e = "off + length src"
  have fx: "blocks_ok s" "inode_ready ip s" "heldb s = {}" "di_type (dcopy ip s) \<noteq> T_DEV" "?sz \<le> MAXFILE * BSIZE"
    "i_inum (ino ip s) < sb_ninodes (fs_sb s)"
    using fa by (simp_all add: file_at_def)
  have r': "room s ((k + 1) + 7 * chunks off (length src))" using r by (simp add: algebra_simps)
  obtain t where t: "write_loop ip off src s = Ret (?e, t)" "room t (k + 1)" "written ip s off src t"
    using write_loop_total [OF r' fx(1-3) lim free] by blast
  have w: "file_step ip s t" "dcopy ip t = (dcopy ip s)\<lparr>di_addrs := di_addrs (dcopy ip t)\<rparr>"
    "\<And>i. i < MAXFILE * BSIZE \<Longrightarrow> fbyte (bcontent t) (dcopy ip t) i =
        (if off \<le> i \<and> i < ?e then src ! (i - off) else fbyte (bcontent s) (dcopy ip s) i)"
    "\<And>n. n < MAXFILE \<Longrightarrow> addr_of (bcontent s) (dcopy ip s) n \<noteq> 0 \<Longrightarrow> addr_of (bcontent t) (dcopy ip t) n \<noteq> 0"
    "\<And>i. off \<le> i \<Longrightarrow> i < ?e \<Longrightarrow> addr_of (bcontent t) (dcopy ip t) (i div BSIZE) \<noteq> 0"
    "only_file ip s t" "\<forall>i. off \<le> i \<and> i < ?e \<longrightarrow> addr_of (bcontent s) (dcopy ip s) (i div BSIZE) \<noteq> 0 \<Longrightarrow> dcopy ip t = dcopy ip s"
    using t(3) unfolding written_def by blast+
  have fld: "di_size (dcopy ip t) = ?sz" "di_type (dcopy ip t) = di_type (dcopy ip s)"
    by (subst w(2), simp)+
  have ti: "blocks_ok t" "inode_ready ip t" "heldb t = {}" "i_inum (ino ip t) = i_inum (ino ip s)" "fs_sb t = fs_sb s"
    using w(1) fx(3) file_step_inode(1) [OF w(1)] by (simp_all add: file_step_def)
  have fo: "file_ok t (dcopy ip t)" using ti(2) by (simp add: inode_ready_def)
  have u: "u32 ?e = ?e" "\<not> ?e < off" using lim by (simp_all add: MAXFILE_bytes)
  have guards: "writei ip src off s = (if length src > 0 \<and> ?e > di_size (dcopy ip t)
      then kbind (iupdate ip (upd_copy ip (\<lambda>d. d\<lparr>di_size := ?e\<rparr>) t)) (\<lambda>s. Ret (int (length src), s))
      else Ret (int (length src), t))"
    using t(1) fx(4) off lim u by (simp add: writei_def Let_def)
  show ?thesis
  proof (cases "length src > 0 \<and> ?e > di_size (dcopy ip t)")
    case False
    have sz: "?e \<le> ?sz" using False off fld(1) by (cases "src = []") auto
    have "content_of ip t = take off (content_of ip s) @ src @ drop ?e (content_of ip s)"
      unfolding content_of_def fld(1) by (rule content_overwritten) (use sz off w(3) fx(5) in auto)
    moreover have "file_at ip t"
      using fa ti fld w(4) less_mult_imp_div_less [of _ MAXFILE BSIZE] unfolding file_at_def by auto
    moreover have "room t k" using t(2) by (rule room_less) simp
    moreover have "dcopy ip t = dcopy ip s" using w(7) fa sz unfolding file_at_def by (meson less_le_trans)
    then have "others_kept ip s t" by (rule others_kept_same_copy [OF w(6) fx(1,6)])
    ultimately show ?thesis using guards False w(1) fld(2) by auto
  next
    case True
    let ?t = "upd_copy ip (\<lambda>d. d\<lparr>di_size := ?e\<rparr>) t"
    have st: "file_step ip s ?t" by (rule file_step_upd [OF w(1)]) (simp add: fo)
    have rt: "room ?t (Suc k)" using t(2) by (simp add: upd_copy_def)
    have lt: "ip < length (inodes t)" using ti(2) by (simp add: inode_ready_def)
    have it: "i_inum (ino ip ?t) < sb_ninodes (fs_sb ?t)" "heldb ?t = {}" "blocks_ok ?t" "inode_ready ip ?t"
      using file_step_inode(1) [OF st, of ip] st fx by (simp_all add: file_step_def)
    obtain v where v: "iupdate ip ?t = Ret v" "room v k" "file_step ip ?t v" "dcopy ip v = dcopy ip ?t" "data_same ?t v"
      using iupdate_step [OF rt it(3,4,2,1)] by blast
    have sv: "file_step ip s v" using st v(3) by (rule file_step_trans)
    have dv: "dcopy ip v = (dcopy ip t)\<lparr>di_size := ?e\<rparr>" using v(4) lt by simp
    have fo': "file_ok ?t (dcopy ip v)" using fo unfolding dv by (simp add: upd_copy_def)
    have fb: "fbyte (bcontent v) (dcopy ip v) i = fbyte (bcontent t) (dcopy ip t) i" if "i < MAXFILE * BSIZE" for i
      using fbyte_same [OF v(5) fo' that] unfolding dv by (simp add: upd_copy_def)
    have ad: "addr_of (bcontent v) (dcopy ip v) = addr_of (bcontent t) (dcopy ip t)"
      using addr_of_same [OF v(5) fo'] unfolding dv by (simp add: upd_copy_def fun_eq_iff)
    have "content_of ip v = take off (content_of ip s) @ src @ drop ?e (content_of ip s)"
      unfolding content_of_def
      by (rule content_overwritten) (use True off lim w(3) fb fld dv in auto)
    moreover have "file_at ip v"
    proof -
      have "addr_of (bcontent t) (dcopy ip t) (i div BSIZE) \<noteq> 0" if "i < ?e" for i
      proof (cases "off \<le> i")
        case False
        then have "i < ?sz" using off by simp
        then show ?thesis using w(4) fa fx(5) less_mult_imp_div_less [of i MAXFILE BSIZE] by (auto simp: file_at_def)
      qed (use w(5) that in auto)
      then show ?thesis
        using sv file_step_inode(1) [OF sv, of ip] fx lim fld unfolding file_at_def ad by (simp add: file_step_def dv)
    qed
    moreover have "di_type (dcopy ip v) = di_type (dcopy ip s)" using fld(2) by (simp add: dv)
    moreover have "others_kept ip s v"
      by (rule others_kept_grown [OF w(6) fx(1,6) w(2) refl rt it(3,4,2) v(1,4) file_step_inode(1) [OF st]])
        (use lim in \<open>simp add: MAXFILE_bytes\<close>)
    ultimately show ?thesis using guards True v(1,2) sv by auto
  qed
qed


text \<open>C4: \<open>writei\<close> is an overwrite of the bytes of the file: within a transaction with room for the
  blocks it may change, and with enough free blocks, it returns the number of bytes, and the
  content of the file is the old one with the bytes at \<open>off\<close> replaced and extended, whatever blocks
  \<open>bmap\<close> had to allocate. The other inodes are not touched, neither in memory nor on the disk, nor is the superblock, and a
  block in use that is not of this file stays in use and keeps its data. The inode itself is saved: when the inode on the
  disk agreed with the copy in memory before, it does so afterwards.\<close>

theorem writei_refines_overwrite:
  fixes s :: "'a fstate_scheme"
  assumes "room s (7 * chunks off (length src) + 1)" and "file_at ip s" and "off \<le> di_size (dcopy ip s)"
    and "off + length src \<le> MAXFILE * BSIZE" and "2 * chunks off (length src) \<le> nfree s"
  shows "\<exists>t. writei ip src off s = Ret (int (length src), t) \<and>
    content_of ip t = take off (content_of ip s) @ src @ drop (off + length src) (content_of ip s) \<and>
    file_at ip t \<and> fs_sb t = fs_sb s \<and> (\<forall>jp. jp \<noteq> ip \<longrightarrow> ino jp t = ino jp s) \<and>
    (\<forall>j < sb_ninodes (fs_sb s). j \<noteq> i_inum (ino ip s) \<longrightarrow> disk_inode t j = disk_inode s j) \<and>
    (disk_inode s (i_inum (ino ip s)) = dcopy ip s \<longrightarrow> disk_inode t (i_inum (ino ip s)) = dcopy ip t) \<and>
    (\<forall>a. data_block s a \<longrightarrow> \<not> file_owns ip s a \<longrightarrow> data_block t a \<and> bcontent t a = bcontent s a)"
  using writei_total [of s 0 off src ip] assms unfolding file_step_def others_kept_def add_0 by blast

text \<open>Two bytes at the end of the root directory of the example, which grows by one byte; the new size is on the disk.\<close>

theorem writei_refines_overwrite_witness:
  "\<exists>t. writei 0 [7, 8] 31 mounted = Ret (2, t) \<and> content_of 0 t = take 31 root_entries @ [7, 8] \<and>
     di_size (disk_inode t 1) = 33 \<and> disk_inode t 2 = disk_inode mounted 2"
proof -
  let ?src = "[7, 8] :: byte list"
  have "room mounted (7 * chunks 31 (length ?src) + 1)" by (rule mounted_room) (simp add: chunks_def BSIZE_def)
  moreover have "31 \<le> di_size (dcopy 0 mounted)" by (simp add: root_inode_def root_dinode_def)
  moreover have "31 + length ?src \<le> MAXFILE * BSIZE" by (simp add: MAXFILE_bytes)
  moreover have "2 * chunks 31 (length ?src) \<le> nfree mounted" by (simp add: mounted_free chunks_def BSIZE_def)
  ultimately obtain t where t: "writei 0 ?src 31 mounted = Ret (int (length ?src), t)"
      "content_of 0 t = take 31 (content_of 0 mounted) @ ?src @ drop (31 + length ?src) (content_of 0 mounted)"
      "\<And>j. j < sb_ninodes (fs_sb mounted) \<Longrightarrow> j \<noteq> i_inum (ino 0 mounted) \<Longrightarrow> disk_inode t j = disk_inode mounted j"
      "disk_inode mounted (i_inum (ino 0 mounted)) = dcopy 0 mounted \<longrightarrow> disk_inode t (i_inum (ino 0 mounted)) = dcopy 0 t"
    using writei_refines_overwrite [of mounted 31 ?src 0] mounted_root by blast
  have c: "content_of 0 t = take 31 root_entries @ [7, 8]" using t(2) by (simp add: mounted_root_content)
  have "disk_inode t 1 = dcopy 0 t" using t(4) mounted_saved by (simp add: root_inode_def)
  moreover have "di_size (dcopy 0 t) = 33" using arg_cong [OF c, of length] by simp
  ultimately show ?thesis using t(1) c t(3) [of 2] by (simp add: root_inode_def example_sb_def)
qed

text \<open>C35: what \<open>writei\<close> writes, \<open>readi\<close> reads back: reading at the same offset returns the bytes
  written, the count, and changes neither the disk content nor the file.\<close>

theorem write_then_read:
  fixes s :: "'a fstate_scheme"
  assumes "room s (7 * chunks off (length src) + 2)" and "file_at ip s" and "off \<le> di_size (dcopy ip s)"
    and "off + length src \<le> MAXFILE * BSIZE" and "2 * chunks off (length src) \<le> nfree s"
  shows "\<exists>t u. writei ip src off s = Ret (int (length src), t) \<and>
    readi ip off (length src) t = Ret (int (length src), src, u) \<and> bcontent u = bcontent t \<and> inodes u = inodes t"
proof -
  have r: "room s (1 + 7 * chunks off (length src) + 1)" using assms(1) by (simp add: algebra_simps numeral_2_eq_2)
  obtain t where t: "writei ip src off s = Ret (int (length src), t)" "room t 1" "file_at ip t"
      "content_of ip t = take off (content_of ip s) @ src @ drop (off + length src) (content_of ip s)"
    using writei_total [OF r assms(2-5)] by blast
  have "length (content_of ip t) = length (take off (content_of ip s) @ src @ drop (off + length src) (content_of ip s))"
    unfolding t(4) ..
  then have off: "off \<le> di_size (dcopy ip t)" using assms(3) by simp
  have "slice (content_of ip t) off (length src) = src"
    unfolding t(4) slice_def using assms(3) by simp
  then obtain u where "readi ip off (length src) t = Ret (int (length src), src, u)" "block_step t u" "bcontent u = bcontent t"
    using readi_total [OF t(2) _ t(3) off, of "length src"] assms(4) by (auto simp: MAXFILE_bytes)
  then show ?thesis using t(1) block_step_fs [of t u] by blast
qed

theorem write_then_read_witness:
  "\<exists>t u. writei 0 [7, 8] 31 mounted = Ret (2, t) \<and> readi 0 31 2 t = Ret (2, [7, 8], u)"
proof -
  let ?src = "[7, 8] :: byte list"
  have "room mounted (7 * chunks 31 (length ?src) + 2)" by (rule mounted_room) (simp add: chunks_def BSIZE_def)
  moreover have "31 \<le> di_size (dcopy 0 mounted)" by (simp add: root_inode_def root_dinode_def)
  moreover have "31 + length ?src \<le> MAXFILE * BSIZE" by (simp add: MAXFILE_bytes)
  moreover have "2 * chunks 31 (length ?src) \<le> nfree mounted" by (simp add: mounted_free chunks_def BSIZE_def)
  ultimately show ?thesis
    using write_then_read [of mounted 31 ?src 0] mounted_root by (auto simp: numeral_2_eq_2)
qed

end
