(* ===== verification/Fs_Dir.thy ===== *)
theory Fs_Dir
  imports Fs_Files
begin

text \<open>
  Directories as finite maps: \<open>dirlookup\<close> looks a name up in the entries of the directory's
  content, and \<open>dirlink\<close> adds one entry.
\<close>

section \<open>The abstract directory\<close>

definition entry :: "byte list \<Rightarrow> nat \<Rightarrow> byte list" where
  "entry c off = slice c off DIRENT"

text \<open>The offset of the entry of a name, and the inode it gives.\<close>

definition entry_of :: "byte list \<Rightarrow> byte list \<Rightarrow> nat option" where
  "entry_of c name = find (\<lambda>off. de_inum (entry c off) \<noteq> 0 \<and> de_name (entry c off) = dir_name name) (dir_offsets (length c))"

definition dir_map :: "byte list \<Rightarrow> byte list \<Rightarrow> nat option" where
  "dir_map c name = map_option (\<lambda>off. de_inum (entry c off)) (entry_of c name)"

text \<open>A directory whose entries carry names as \<open>strncpy\<close> makes them.\<close>

definition padded :: "byte list \<Rightarrow> bool" where
  "padded b \<longleftrightarrow> (\<exists>name. b = dir_name name)"

definition dir_at :: "nat \<Rightarrow> 'a fstate_scheme \<Rightarrow> bool" where
  "dir_at dp s \<longleftrightarrow> file_at dp s \<and> di_type (dcopy dp s) = T_DIR \<and> di_size (dcopy dp s) mod DIRENT = 0 \<and>
     (\<forall>off \<in> set (dir_offsets (di_size (dcopy dp s))). padded (de_name (entry (content_of dp s) off)))"

lemma dir_offsets_exact: "n mod DIRENT = 0 \<Longrightarrow> dir_offsets n = map (\<lambda>k. DIRENT * k) [0..<n div DIRENT]"
  using div_round_up [of DIRENT n] by (simp add: dir_offsets_def DIRENT_def)

lemma dir_offsets_in:
  assumes "n mod DIRENT = 0"
  shows "off \<in> set (dir_offsets n) \<longleftrightarrow> off mod DIRENT = 0 \<and> off + DIRENT \<le> n"
proof
  assume "off \<in> set (dir_offsets n)"
  then obtain k where "off = DIRENT * k" "k < n div DIRENT" using dir_offsets_exact [OF assms] by force
  then show "off mod DIRENT = 0 \<and> off + DIRENT \<le> n" by (auto simp: DIRENT_def)
next
  assume a: "off mod DIRENT = 0 \<and> off + DIRENT \<le> n"
  then have "off = DIRENT * (off div DIRENT)" "off div DIRENT < n div DIRENT" by (auto simp: DIRENT_def)
  then show "off \<in> set (dir_offsets n)" using dir_offsets_exact [OF assms] by auto
qed

lemma length_dir_name [simp]: "length (dir_name n) = DIRSIZ"
  by (simp add: dir_name_def)

lemma dir_name_nth:
  "i < DIRSIZ \<Longrightarrow> dir_name n ! i = (if i < length (takeWhile (\<lambda>c. c \<noteq> 0) n) then n ! i else 0)"
  by (auto simp: dir_name_def nth_append takeWhile_nth)

text \<open>\<open>namecmp\<close> compares what \<open>strncpy\<close> stores.\<close>

lemma prefix_nonzero: "i < length (takeWhile (\<lambda>c. c \<noteq> 0) n) \<Longrightarrow> cptr_of n i \<noteq> 0"
proof -
  assume i: "i < length (takeWhile (\<lambda>c. c \<noteq> 0) n)"
  then have "takeWhile (\<lambda>c. c \<noteq> 0) n ! i \<in> set (takeWhile (\<lambda>c. c \<noteq> 0) n)" by simp
  then have "takeWhile (\<lambda>c. c \<noteq> 0) n ! i \<noteq> 0" using set_takeWhileD by fastforce
  moreover have "i < length n" using i length_takeWhile_le [of "\<lambda>c. c \<noteq> 0" n] by linarith
  ultimately show ?thesis using i by (simp add: cptr_of_def takeWhile_nth)
qed

lemma prefix_end: "cptr_of n (length (takeWhile (\<lambda>c. c \<noteq> 0) n)) = 0"
  using nth_length_takeWhile [of "\<lambda>c. c \<noteq> 0" n] by (auto simp: cptr_of_def)

lemma cptr_dir_name:
  "i < DIRSIZ \<Longrightarrow> dir_name n ! i = (if \<forall>j < i. cptr_of n j \<noteq> 0 then cptr_of n i else 0)"
proof -
  let ?k = "length (takeWhile (\<lambda>c. c \<noteq> 0) n)"
  assume i: "i < DIRSIZ"
  have le: "?k \<le> length n" by (rule length_takeWhile_le)
  show ?thesis
  proof (cases "i \<le> ?k")
    case True
    then have "\<forall>j < i. cptr_of n j \<noteq> 0" using prefix_nonzero by simp
    then show ?thesis using True i le prefix_end [of n] by (cases "i = ?k") (auto simp: dir_name_nth cptr_of_def)
  next
    case False
    then have "\<not> (\<forall>j < i. cptr_of n j \<noteq> 0)" using prefix_end [of n] not_le by blast
    then show ?thesis using False i by (auto simp: dir_name_nth)
  qed
qed

lemma namecmp_zero: "namecmp a b = 0 \<longleftrightarrow> dir_name a = dir_name b"
proof
  assume "namecmp a b = 0"
  then have eq: "\<And>i. i < DIRSIZ \<Longrightarrow> (\<forall>j < i. cptr_of a j \<noteq> 0) \<Longrightarrow> cptr_of a i = cptr_of b i"
    by (simp add: namecmp_def strncmp_zero_iff)
  have same: "(\<forall>j < i. cptr_of a j \<noteq> 0) \<longleftrightarrow> (\<forall>j < i. cptr_of b j \<noteq> 0)" if "i < DIRSIZ" for i
    using that
  proof (induction i)
    case (Suc i)
    then show ?case using eq [of i] by (auto simp: less_Suc_eq)
  qed simp
  show "dir_name a = dir_name b"
    by (rule nth_equalityI) (use eq same cptr_dir_name in auto)
next
  assume eq: "dir_name a = dir_name b"
  have "cptr_of a i = cptr_of b i" if i: "i < DIRSIZ" and nz: "\<forall>j < i. cptr_of a j \<noteq> 0" for i
    using i nz
  proof (induction i rule: less_induct)
    case (less i)
    have "\<forall>j < i. cptr_of b j \<noteq> 0"
    proof (intro allI impI)
      fix j assume j: "j < i"
      then have "cptr_of a j = cptr_of b j" using less.prems by (intro less.IH) auto
      then show "cptr_of b j \<noteq> 0" using less.prems(2) j by metis
    qed
    then show ?case
      using arg_cong [OF eq, of "\<lambda>l. l ! i"] cptr_dir_name [OF less.prems(1), of a]
        cptr_dir_name [OF less.prems(1), of b] less.prems(2) by simp
  qed
  then show "namecmp a b = 0" unfolding namecmp_def strncmp_zero_iff by blast
qed

lemma dir_name_idem [simp]: "dir_name (dir_name n) = dir_name n"
proof (rule nth_equalityI)
  fix i assume "i < length (dir_name (dir_name n))"
  then have i: "i < DIRSIZ" by simp
  have c: "cptr_of (dir_name n) j = (if \<forall>k < j. cptr_of n k \<noteq> 0 then cptr_of n j else 0)" if "j \<le> i" for j
    using cptr_dir_name [of j n] that i by (simp add: cptr_of_def)
  show "dir_name (dir_name n) ! i = dir_name n ! i"
  proof (cases "\<forall>k < i. cptr_of n k \<noteq> 0")
    case True
    then have "\<forall>k < i. cptr_of (dir_name n) k \<noteq> 0" using c by simp
    then show ?thesis using True c [of i] by (simp add: cptr_dir_name [OF i])
  next
    case False
    then show ?thesis using c [of i] by (auto simp: cptr_dir_name [OF i])
  qed
qed simp

lemma namecmp_entry: "padded b \<Longrightarrow> namecmp n b = 0 \<longleftrightarrow> b = dir_name n"
  by (auto simp: padded_def namecmp_zero)

section \<open>dirlookup\<close>

lemma dir_atD:
  assumes "dir_at dp s"
  shows "file_at dp s" "di_type (dcopy dp s) = T_DIR" "di_size (dcopy dp s) mod DIRENT = 0"
    "off \<in> set (dir_offsets (di_size (dcopy dp s))) \<Longrightarrow> off + DIRENT \<le> di_size (dcopy dp s) \<and>
       padded (de_name (entry (content_of dp s) off))"
    "i_dev (ino dp s) = 1"
  using assms dir_offsets_in [of "di_size (dcopy dp s)"]
  by (auto simp: dir_at_def file_at_def inode_ready_def)

lemma dir_at_block:
  assumes "block_step s t" and "bcontent t = bcontent s" and "dir_at dp s"
  shows "dir_at dp t" "content_of dp t = content_of dp s"
  using file_at_block [OF assms(1,2)] assms(3) block_step_fs [OF assms(1)] by (simp_all add: dir_at_def)

lemma read_dirent_total:
  fixes s :: "'a fstate_scheme"
  assumes r: "room s k" "0 < k" and fa: "file_at dp s" and off: "off + DIRENT \<le> di_size (dcopy dp s)"
  shows "\<exists>t. read_dirent msg dp off s = Ret (entry (content_of dp s) off, t) \<and> room t k \<and> block_step s t \<and>
    bcontent t = bcontent s"
proof -
  have "di_size (dcopy dp s) \<le> MAXFILE * BSIZE" using fa by (simp add: file_at_def)
  then have "off \<le> di_size (dcopy dp s)" "off + DIRENT < 4294967296" using off by (simp_all add: MAXFILE_bytes)
  from readi_total [OF r fa this] obtain t where t: "readi dp off DIRENT s =
      Ret (int (length (slice (content_of dp s) off DIRENT)), slice (content_of dp s) off DIRENT, t)"
      "room t k" "block_step s t" "bcontent t = bcontent s" by blast
  have "length (slice (content_of dp s) off DIRENT) = DIRENT" using off by simp
  then show ?thesis using t by (simp add: read_dirent_def entry_def)
qed

text \<open>The match of \<open>dirlookup\<close>, on an entry of the content.\<close>

abbreviation hit :: "byte list \<Rightarrow> byte list \<Rightarrow> nat \<Rightarrow> bool" where
  "hit c name off \<equiv> de_inum (entry c off) \<noteq> 0 \<and> de_name (entry c off) = dir_name name"

lemma dir_scan_total:
  fixes s :: "'a fstate_scheme"
  assumes "room s k" "0 < k" and "dir_at dp s" and "set offs \<subseteq> set (dir_offsets (di_size (dcopy dp s)))"
  shows "\<exists>t. room t k \<and> block_step s t \<and> bcontent t = bcontent s \<and>
    dir_scan dp name offs s = (case find (hit (content_of dp s) name) offs of
      None \<Rightarrow> Ret (None, t)
    | Some off \<Rightarrow> kbind (iget 1 (de_inum (entry (content_of dp s) off)) t) (\<lambda>(ip, u). Ret (Some (ip, off), u)))"
  using assms
proof (induction offs arbitrary: s)
  case Nil
  then show ?case using block_step_refl [of s] by (auto simp: room_def)
next
  case (Cons off offs)
  note d = dir_atD [OF Cons.prems(3)]
  let ?c = "content_of dp s"
  have o: "off + DIRENT \<le> di_size (dcopy dp s)" "padded (de_name (entry ?c off))" using d(4) Cons.prems(4) by simp_all
  obtain t where t: "read_dirent ''dirlookup read'' dp off s = Ret (entry ?c off, t)" "room t k" "block_step s t"
      "bcontent t = bcontent s" using read_dirent_total [OF Cons.prems(1,2) d(1) o(1)] by blast
  note dt = dir_at_block [OF t(3,4) Cons.prems(3)]
  have it: "inodes t = inodes s" using block_step_fs [OF t(3)] by simp
  have nm: "namecmp name (de_name (entry ?c off)) = 0 \<longleftrightarrow> de_name (entry ?c off) = dir_name name"
    by (rule namecmp_entry [OF o(2)])
  show ?case
  proof (cases "hit ?c name off")
    case True
    then have "dir_scan dp name (off # offs) s =
        kbind (iget 1 (de_inum (entry ?c off)) t) (\<lambda>(ip, u). Ret (Some (ip, off), u))"
      using t(1) it d(5) nm by simp
    then show ?thesis using True t by auto
  next
    case False
    then have eq: "dir_scan dp name (off # offs) s = dir_scan dp name offs t" using t(1) by (auto simp: nm)
    have "set offs \<subseteq> set (dir_offsets (di_size (dcopy dp t)))" using Cons.prems(4) it by simp
    from Cons.IH [OF t(2) Cons.prems(2) dt(1) this]
    obtain u where u: "room u k" "block_step t u" "bcontent u = bcontent t"
        "dir_scan dp name offs t = (case find (hit ?c name) offs of None \<Rightarrow> Ret (None, u)
         | Some off \<Rightarrow> kbind (iget 1 (de_inum (entry ?c off)) u) (\<lambda>(ip, u). Ret (Some (ip, off), u)))"
      unfolding dt(2) by blast
    have f: "find (hit ?c name) (off # offs) = find (hit ?c name) offs" using False by auto
    show ?thesis unfolding eq f u(4) using u(1,3) t(4) block_step_trans [OF t(3) u(2)] by auto
  qed
qed

lemma dirlookup_total:
  fixes s :: "'a fstate_scheme"
  assumes "room s k" "0 < k" and "dir_at dp s"
  shows "\<exists>t. room t k \<and> block_step s t \<and> bcontent t = bcontent s \<and>
    dirlookup dp name s = (case entry_of (content_of dp s) name of
      None \<Rightarrow> Ret (None, t)
    | Some off \<Rightarrow> kbind (iget 1 (de_inum (entry (content_of dp s) off)) t) (\<lambda>(ip, u). Ret (Some (ip, off), u)))"
  using dir_scan_total [OF assms, of "dir_offsets (di_size (dcopy dp s))" name] dir_atD(2) [OF assms(3)]
  by (simp add: dirlookup_def entry_of_def)

section \<open>dirlink\<close>

lemma dir_free_total:
  fixes s :: "'a fstate_scheme"
  assumes "room s k" "0 < k" and "dir_at dp s" and "set offs \<subseteq> set (dir_offsets (di_size (dcopy dp s)))"
  shows "\<exists>t. room t k \<and> block_step s t \<and> bcontent t = bcontent s \<and>
    dir_free dp offs fin s = Ret (case find (\<lambda>off. de_inum (entry (content_of dp s) off) = 0) offs of
      None \<Rightarrow> fin | Some off \<Rightarrow> off, t)"
  using assms
proof (induction offs arbitrary: s)
  case Nil
  then show ?case using block_step_refl [of s] by (auto simp: room_def)
next
  case (Cons off offs)
  note d = dir_atD [OF Cons.prems(3)]
  let ?c = "content_of dp s"
  have o: "off + DIRENT \<le> di_size (dcopy dp s)" using d(4) Cons.prems(4) by simp
  obtain t where t: "read_dirent ''dirlink read'' dp off s = Ret (entry ?c off, t)" "room t k" "block_step s t"
      "bcontent t = bcontent s" using read_dirent_total [OF Cons.prems(1,2) d(1) o] by blast
  note dt = dir_at_block [OF t(3,4) Cons.prems(3)]
  have it: "inodes t = inodes s" using block_step_fs [OF t(3)] by simp
  show ?case
  proof (cases "de_inum (entry ?c off) = 0")
    case True
    then show ?thesis using t by auto
  next
    case False
    have "set offs \<subseteq> set (dir_offsets (di_size (dcopy dp t)))" using Cons.prems(4) it by simp
    from Cons.IH [OF t(2) Cons.prems(2) dt(1) this] obtain u where u: "room u k" "block_step t u"
        "bcontent u = bcontent t" "dir_free dp offs fin t = Ret (case find (\<lambda>off. de_inum (entry ?c off) = 0) offs of
          None \<Rightarrow> fin | Some off \<Rightarrow> off, u)" unfolding dt(2) by blast
    have "dir_free dp (off # offs) fin s = dir_free dp offs fin t" using t(1) False by simp
    then show ?thesis using False u t(4) block_step_trans [OF t(3) u(2)] by auto
  qed
qed

text \<open>Where \<open>dirlink\<close> puts the new entry.\<close>

definition free_slot :: "byte list \<Rightarrow> nat" where
  "free_slot c = (case find (\<lambda>off. de_inum (entry c off) = 0) (dir_offsets (length c)) of
     None \<Rightarrow> length c | Some off \<Rightarrow> off)"

lemma length_mk_dirent [simp]: "length (mk_dirent i n) = DIRENT"
  by (simp add: mk_dirent_def DIRENT_def DIRSIZ_def)

lemma free_slot_in:
  assumes "length c mod DIRENT = 0"
  shows "free_slot c mod DIRENT = 0" "free_slot c \<le> length c"
  using dir_offsets_in [OF assms] assms
  by (auto simp: free_slot_def split: option.splits dest!: find_Some_in_set)

lemma dirlink_total:
  fixes s :: "'a fstate_scheme"
  assumes r: "room s (k + 8)" and da: "dir_at dp s" and new: "entry_of (content_of dp s) name = None"
    and lim: "free_slot (content_of dp s) < MAXFILE * BSIZE" and free: "2 \<le> nfree s"
  shows "\<exists>t. dirlink dp name inum s = Ret (0, t) \<and> room t k \<and> file_step dp s t \<and> file_at dp t \<and>
    content_of dp t = take (free_slot (content_of dp s)) (content_of dp s) @ mk_dirent inum name @
      drop (free_slot (content_of dp s) + DIRENT) (content_of dp s) \<and> di_type (dcopy dp t) = di_type (dcopy dp s)"
proof -
  let ?c = "content_of dp s" and ?o = "free_slot (content_of dp s)"
  have sz: "di_size (dcopy dp s) mod DIRENT = 0" using dir_atD(3) [OF da] .
  then have slot: "?o mod DIRENT = 0" "?o \<le> di_size (dcopy dp s)" using free_slot_in [of ?c] by simp_all
  obtain t where t: "room t (k + 8)" "block_step s t" "bcontent t = bcontent s" "dirlookup dp name s = Ret (None, t)"
    using dirlookup_total [OF r _ da, of name] new by auto
  note dt = dir_at_block [OF t(2,3) da] and ft = block_step_fs [OF t(2)]
  have "DIRENT * length (dir_offsets (di_size (dcopy dp s))) = di_size (dcopy dp s)"
    using sz by (auto simp: dir_offsets_exact DIRENT_def)
  then obtain u where u: "room u (k + 8)" "block_step t u" "bcontent u = bcontent t"
      "dir_free dp (dir_offsets (di_size (dcopy dp t))) (DIRENT * length (dir_offsets (di_size (dcopy dp t)))) t = Ret (?o, u)"
    using dir_free_total [OF t(1) _ dt(1) subset_refl, of "di_size (dcopy dp s)"] dt(2) ft
    unfolding free_slot_def length_content by auto
  have su: "block_step s u" "bcontent u = bcontent s" using t(2,3) u(2,3) block_step_trans by auto
  note du = dir_at_block [OF su da] and fu = block_step_fs [OF su(1)]
  have cap: "?o + DIRENT \<le> MAXFILE * BSIZE" using slot(1) lim by (auto simp: MAXFILE_bytes DIRENT_def)
  have "?o mod BSIZE + DIRENT \<le> BSIZE"
  proof -
    have "?o mod BSIZE mod DIRENT = 0" using slot(1) by (simp add: BSIZE_def DIRENT_def mod_mod_cancel)
    moreover have "?o mod BSIZE < BSIZE" by (simp add: BSIZE_def)
    ultimately show ?thesis by (auto simp: BSIZE_def DIRENT_def)
  qed
  then have ch: "chunks ?o (length (mk_dirent inum name)) = 1"
    by (simp add: chunks_def DIRENT_def BSIZE_def)
  have ru: "room u (k + 7 * chunks ?o (length (mk_dirent inum name)) + 1)" using u(1) unfolding ch by (simp add: eval_nat_numeral)
  have offu: "?o \<le> di_size (dcopy dp u)" using slot(2) fu by simp
  have ok: "blocks_ok s" "inode_ready dp s" using dir_atD(1) [OF da] by (simp_all add: file_at_def)
  have nf: "2 * chunks ?o (length (mk_dirent inum name)) \<le> nfree u"
    using free block_step_ok(5) [OF su ok] unfolding ch by simp
  have capu: "?o + length (mk_dirent inum name) \<le> MAXFILE * BSIZE" using cap by simp
  obtain v where v: "writei dp (mk_dirent inum name) ?o u = Ret (int DIRENT, v)" "room v k" "file_step dp u v"
      "file_at dp v" "content_of dp v = take ?o ?c @ mk_dirent inum name @ drop (?o + DIRENT) ?c"
      "di_type (dcopy dp v) = di_type (dcopy dp u)"
    using writei_total [OF ru dir_atD(1) [OF du(1)] offu capu nf] unfolding du(2) length_mk_dirent by blast
  have "file_step dp s u" using file_step_block [OF su(1) block_step_ok(1) [OF su ok] ok(2)]
      file_ok_same [OF block_step_ok(3) [OF su ok]] ok(2) by (simp add: inode_ready_def)
  then have "file_step dp s v" using v(3) by (rule file_step_trans)
  moreover have "dirlink dp name inum s = Ret (0, v)"
    using t(4) u(4) v(1) by (simp add: dirlink_def Let_def)
  ultimately show ?thesis using v fu by auto
qed

section \<open>The directory as a map\<close>

text \<open>The content after storing an entry.\<close>

definition with_entry :: "byte list \<Rightarrow> nat \<Rightarrow> byte list \<Rightarrow> byte list" where
  "with_entry c off de = take off c @ de @ drop (off + DIRENT) c"

lemma length_with_entry:
  "off \<le> length c \<Longrightarrow> length de = DIRENT \<Longrightarrow> length (with_entry c off de) = max (length c) (off + DIRENT)"
  by (simp add: with_entry_def)

lemma entry_with_entry:
  assumes c: "length c mod DIRENT = 0" and o: "slot mod DIRENT = 0" "slot \<le> length c" and de: "length de = DIRENT"
    and off: "off mod DIRENT = 0" "off + DIRENT \<le> length (with_entry c slot de)"
  shows "entry (with_entry c slot de) off = (if off = slot then de else entry c off)"
proof -
  consider "off = slot" | "off + DIRENT \<le> slot" | "slot + DIRENT \<le> off"
    using off(1) o(1) unfolding DIRENT_def by atomize_elim presburger
  then show ?thesis
  proof cases
    case 1
    then show ?thesis using o(2) de by (simp add: entry_def slice_def with_entry_def)
  next
    case 2
    then show ?thesis using o(2) by (simp add: entry_def slice_def with_entry_def DIRENT_def take_drop min_def)
  next
    case 3
    then have "drop off (with_entry c slot de) = drop off c"
      using o(2) de by (simp add: with_entry_def min_def)
    then show ?thesis using 3 by (auto simp: entry_def slice_def DIRENT_def)
  qed
qed

lemma entry_cases:
  assumes c: "length c mod DIRENT = 0" and de: "length de = DIRENT"
    and off: "off \<in> set (dir_offsets (length (with_entry c (free_slot c) de)))"
  shows "off = free_slot c \<and> entry (with_entry c (free_slot c) de) off = de \<or>
    off \<noteq> free_slot c \<and> off \<in> set (dir_offsets (length c)) \<and> entry (with_entry c (free_slot c) de) off = entry c off"
proof -
  note slot = free_slot_in [OF c]
  have l: "length (with_entry c (free_slot c) de) = max (length c) (free_slot c + DIRENT)"
    by (rule length_with_entry [OF slot(2) de])
  have al: "length (with_entry c (free_slot c) de) mod DIRENT = 0"
    using c slot(1) unfolding l max_def DIRENT_def by (simp split: if_split)
  have o: "off mod DIRENT = 0" "off + DIRENT \<le> length (with_entry c (free_slot c) de)"
    using off dir_offsets_in [OF al] by simp_all
  have "off \<in> set (dir_offsets (length c))" if "off \<noteq> free_slot c"
  proof -
    have "free_slot c = length c \<Longrightarrow> off \<le> free_slot c" using o(2) unfolding l by simp
    then have "free_slot c = length c \<Longrightarrow> off + DIRENT \<le> length c"
      using o(1) that slot(1) unfolding DIRENT_def by presburger
    moreover have "free_slot c < length c \<Longrightarrow> free_slot c + DIRENT \<le> length c"
      using slot c unfolding DIRENT_def by presburger
    ultimately have "off + DIRENT \<le> length c" using o slot(2) unfolding l by linarith
    then show ?thesis using o dir_offsets_in [OF c] by simp
  qed
  then show ?thesis using entry_with_entry [OF c slot de o] by auto
qed

lemma slot_unused: "free_slot c < length c \<Longrightarrow> de_inum (entry c (free_slot c)) = 0"
  by (auto simp: free_slot_def split: option.splits dest: find_Some_in_set)

lemma entry_of_Some:
  assumes "length c mod DIRENT = 0" and "entry_of c nm = Some off"
  shows "off \<in> set (dir_offsets (length c))" "off \<noteq> free_slot c"
proof -
  show m: "off \<in> set (dir_offsets (length c))"
    using assms(2) unfolding entry_of_def by (auto dest: find_Some_in_set)
  have "off < length c" using m dir_offsets_in [OF assms(1)] by (auto simp: DIRENT_def)
  moreover have "de_inum (entry c off) \<noteq> 0" using assms(2) unfolding entry_of_def by (auto dest: find_Some_in_set)
  ultimately show "off \<noteq> free_slot c" using slot_unused [of c] by auto
qed

lemma find_mem: "x \<in> set xs \<Longrightarrow> find (\<lambda>y. y = x) xs = Some x"
  by (induction xs) auto

text \<open>A new name in a free slot becomes one more name of the map.\<close>

lemma entry_of_new:
  assumes c: "length c mod DIRENT = 0" and de: "length de = DIRENT" "de_inum de \<noteq> 0" "de_name de = dir_name name"
    and new: "entry_of c name = None"
  shows "entry_of (with_entry c (free_slot c) de) nm = (if dir_name nm = dir_name name then Some (free_slot c) else entry_of c nm)"
proof -
  let ?o = "free_slot c" and ?c = "with_entry c (free_slot c) de"
  note slot = free_slot_in [OF c]
  have lc: "length ?c = max (length c) (?o + DIRENT)" by (rule length_with_entry [OF slot(2) de(1)])
  have al: "length ?c mod DIRENT = 0"
    using c slot(1) unfolding lc max_def DIRENT_def by (simp split: if_split)
  have e: "entry ?c off = (if off = ?o then de else entry c off)" if "off \<in> set (dir_offsets (length ?c))" for off
    using that dir_offsets_in [OF al, of off] by (intro entry_with_entry [OF c slot de(1)]) simp_all
  have none: "\<not> hit c name off" if "off \<in> set (dir_offsets (length c))" for off
    using new that by (auto simp: entry_of_def find_None_iff)
  show ?thesis
  proof (cases "?o < length c")
    case True
    then have "?o + DIRENT \<le> length c" using c slot(1) unfolding DIRENT_def by presburger
    then have len: "length ?c = length c" and mem: "?o \<in> set (dir_offsets (length c))"
      using lc dir_offsets_in [OF c] slot(1) by simp_all
    note used = slot_unused [OF True]
    show ?thesis
    proof (cases "dir_name nm = dir_name name")
      case eq: True
      have "find (hit ?c nm) (dir_offsets (length c)) = find (\<lambda>off. off = ?o) (dir_offsets (length c))"
        using e none de eq len by (intro find_cong) auto
      also have "\<dots> = Some ?o" using mem by (rule find_mem)
      finally show ?thesis using eq by (simp add: entry_of_def len)
    next
      case False
      have "find (hit ?c nm) (dir_offsets (length c)) = find (hit c nm) (dir_offsets (length c))"
        using e de used False len by (intro find_cong) auto
      then show ?thesis using False by (simp add: entry_of_def len)
    qed
  next
    case False
    then have o: "?o = length c" using slot(2) by simp
    have offs: "dir_offsets (length ?c) = dir_offsets (length c) @ [?o]"
      using lc o dir_offsets_exact [OF c] dir_offsets_exact [OF al] c by (auto simp: DIRENT_def)
    have old: "entry ?c off = entry c off" if "off \<in> set (dir_offsets (length c))" for off
      using e [of off] that dir_offsets_in [OF c, of off] o unfolding offs by (auto simp: DIRENT_def)
    have fa: "find P (xs @ [x]) = (case find P xs of None \<Rightarrow> if P x then Some x else None | Some y \<Rightarrow> Some y)" for P xs and x :: nat
      by (induction xs) auto
    have "find (hit ?c nm) (dir_offsets (length c)) = find (hit c nm) (dir_offsets (length c))"
      using old by (intro find_cong) auto
    moreover have "entry ?c ?o = de" using e [of ?o] by (simp add: offs)
    moreover have "dir_name nm = dir_name name \<Longrightarrow> entry_of c nm = None" using new by (simp add: entry_of_def)
    ultimately show ?thesis
      using de unfolding entry_of_def [of ?c] offs fa by (auto simp: entry_of_def split: option.splits)
  qed
qed

lemma de_of_mk:
  "i < 65536 \<Longrightarrow> de_inum (mk_dirent i n) = i" "de_name (mk_dirent i n) = dir_name n"
proof -
  show "de_name (mk_dirent i n) = dir_name n" by (simp add: de_name_def mk_dirent_def slice_def)
  have "le_dec (le_enc 2 i) = i" if "i < 65536" using that by (intro le_dec_enc) simp
  then show "i < 65536 \<Longrightarrow> de_inum (mk_dirent i n) = i" by (simp add: de_inum_def mk_dirent_def slice_def)
qed

lemma dir_at_new:
  assumes d: "dir_at dp s" and f: "file_at dp t" "di_type (dcopy dp t) = T_DIR"
    and c: "content_of dp t = with_entry (content_of dp s) (free_slot (content_of dp s)) (mk_dirent i n)"
  shows "dir_at dp t"
proof -
  let ?c = "content_of dp s" and ?o = "free_slot (content_of dp s)"
  have m: "length ?c mod DIRENT = 0" using dir_atD(3) [OF d] by simp
  note slot = free_slot_in [OF m]
  have "di_size (dcopy dp t) = length (content_of dp t)" by simp
  then have len: "di_size (dcopy dp t) = max (length ?c) (?o + DIRENT)"
    unfolding c length_with_entry [OF slot(2) length_mk_dirent] .
  have al: "di_size (dcopy dp t) mod DIRENT = 0"
    using m slot(1) unfolding len max_def DIRENT_def by (simp split: if_split)
  have "padded (de_name (entry (content_of dp t) off))" if "off \<in> set (dir_offsets (di_size (dcopy dp t)))" for off
    using entry_cases [OF m length_mk_dirent [of i n], of off] that dir_atD(4) [OF d] de_of_mk(2) [of i n]
    unfolding c [symmetric] by (auto simp: padded_def)
  then show ?thesis using f al by (simp add: dir_at_def)
qed

section \<open>Properties\<close>

text \<open>C6: \<open>dirlink\<close> adds one name to the directory seen as a map: for a name that is not there, within
  a transaction with room for it, it returns 0 and leaves a well-formed directory in which the new name leads
  to the inode, names equal on the first \<open>DIRSIZ\<close> bytes being one name, and every other name leads
  where it did.\<close>

theorem dirlink_adds_name:
  fixes s :: "'a fstate_scheme"
  assumes "room s 8" and "dir_at dp s" and "dir_map (content_of dp s) name = None"
    and "free_slot (content_of dp s) < MAXFILE * BSIZE" and "2 \<le> nfree s" and "0 < inum" and "inum < 65536"
  shows "\<exists>t. dirlink dp name inum s = Ret (0, t) \<and> dir_at dp t \<and>
    (\<forall>nm. dir_map (content_of dp t) nm = (if dir_name nm = dir_name name then Some inum else dir_map (content_of dp s) nm))"
proof -
  let ?c = "content_of dp s" and ?de = "mk_dirent inum name"
  have m: "length ?c mod DIRENT = 0" using dir_atD(3) [OF assms(2)] by simp
  have new: "entry_of ?c name = None" using assms(3) by (simp add: dir_map_def)
  have r: "room s (0 + 8)" using assms(1) by simp
  obtain t where t: "dirlink dp name inum s = Ret (0, t)" "file_step dp s t" "file_at dp t"
      "content_of dp t = with_entry ?c (free_slot ?c) ?de"
      "di_type (dcopy dp t) = di_type (dcopy dp s)"
    using dirlink_total [OF r assms(2) new assms(4,5), of inum] unfolding with_entry_def by blast
  note de = de_of_mk(1) [OF assms(7), of name] de_of_mk(2) [of inum name]
  have n: "entry_of (content_of dp t) nm = (if dir_name nm = dir_name name then Some (free_slot ?c) else entry_of ?c nm)" for nm
    unfolding t(4) using assms(6) de by (intro entry_of_new [OF m length_mk_dirent _ _ new]) simp_all
  have "dir_map (content_of dp t) nm = (if dir_name nm = dir_name name then Some inum else dir_map ?c nm)" for nm
  proof (cases "dir_name nm = dir_name name")
    case True
    then have e: "entry_of (content_of dp t) nm = Some (free_slot ?c)" using n by simp
    then have "free_slot ?c \<in> set (dir_offsets (length (content_of dp t)))"
      unfolding entry_of_def by (auto dest: find_Some_in_set)
    from entry_cases [OF m length_mk_dirent this [unfolded t(4)]]
    have "entry (content_of dp t) (free_slot ?c) = ?de" unfolding t(4) by blast
    then show ?thesis using e True de(1) by (simp add: dir_map_def)
  next
    case False
    then have e: "entry_of (content_of dp t) nm = entry_of ?c nm" using n by simp
    have "entry (content_of dp t) off = entry ?c off" if off: "entry_of ?c nm = Some off" for off
    proof -
      have "entry_of (content_of dp t) nm = Some off" using off e by simp
      from find_Some_in_set [OF this [unfolded entry_of_def]]
      have "off \<in> set (dir_offsets (length (content_of dp t)))" ..
      from entry_cases [OF m length_mk_dirent this [unfolded t(4)]] entry_of_Some(2) [OF m off]
      show ?thesis unfolding t(4) by blast
    qed
    then show ?thesis using False e by (cases "entry_of ?c nm") (simp_all add: dir_map_def)
  qed
  moreover have "dir_at dp t" by (rule dir_at_new [OF assms(2) t(3) _ t(4)]) (use t(5) dir_atD(2) [OF assms(2)] in simp)
  ultimately show ?thesis using t(1) by blast
qed

lemma root_entry:
  "dir_offsets 32 = [0, 16]" "entry root_entries 0 = mk_dirent 1 [46]" "entry root_entries 16 = mk_dirent 1 [46, 46]"
  using length_mk_dirent [of 1 "[46]"] length_mk_dirent [of 1 "[46, 46]"]
  by (simp_all add: entry_def slice_def root_entries_def dir_offsets_def DIRENT_def upt_rec)

lemma root_names: "dir_name [46] = 46 # replicate 13 0" "dir_name [46, 46] = 46 # 46 # replicate 12 0"
    "dir_name [97] = 97 # replicate 13 0"
  by (simp_all add: dir_name_def DIRSIZ_def)

lemma mounted_dir: "dir_at 0 mounted"
proof -
  have "di_size (dcopy 0 mounted) = 32" "di_type (dcopy 0 mounted) = T_DIR" by (simp_all add: root_inode_def root_dinode_def)
  then show ?thesis
    using mounted_root by (auto simp: dir_at_def mounted_root_content root_entry de_of_mk padded_def DIRENT_def)
qed

theorem dirlink_adds_name_witness:
  "\<exists>t. dirlink 0 [97] 2 mounted = Ret (0, t) \<and> dir_map (content_of 0 t) [97] = Some 2"
proof -
  have "dir_map (content_of 0 mounted) [97] = None"
    by (simp add: mounted_root_content dir_map_def entry_of_def root_entry de_of_mk root_names)
  moreover have "free_slot (content_of 0 mounted) < MAXFILE * BSIZE"
    by (simp add: mounted_root_content free_slot_def root_entry de_of_mk MAXFILE_bytes)
  ultimately show ?thesis
    using dirlink_adds_name [of mounted 0 "[97]" 2] mounted_room [of 8] mounted_dir mounted_free by auto
qed

text \<open>\<open>dirlookup\<close> looks the name up in the directory seen as a map: it finds nothing exactly when
  the map has no such name, and otherwise returns a referenced inode with the number the map gives, unless
  the inode cache is full; the disk content is untouched.\<close>

theorem dirlookup_refines_map:
  fixes s :: "'a fstate_scheme"
  assumes "room s 1" and "dir_at dp s"
  shows "\<exists>t. bcontent t = bcontent s \<and> inodes t = inodes s \<and>
    dirlookup dp name s = (case dir_map (content_of dp s) name of
      None \<Rightarrow> Ret (None, t)
    | Some inum \<Rightarrow> kbind (iget 1 inum t) (\<lambda>(ip, u). Ret (Some (ip, the (entry_of (content_of dp s) name)), u)))"
proof -
  obtain t where t: "block_step s t" "bcontent t = bcontent s"
      "dirlookup dp name s = (case entry_of (content_of dp s) name of
        None \<Rightarrow> Ret (None, t)
      | Some off \<Rightarrow> kbind (iget 1 (de_inum (entry (content_of dp s) off)) t) (\<lambda>(ip, u). Ret (Some (ip, off), u)))"
    using dirlookup_total [of s 1 dp name] assms by auto
  then show ?thesis using block_step_fs(1) [OF t(1)]
    by (intro exI [of _ t]) (auto simp: dir_map_def split: option.split)
qed

theorem dirlookup_refines_map_witness: "\<exists>t. dirlookup 0 [97] mounted = Ret (None, t)"
proof -
  have "dir_map (content_of 0 mounted) [97] = None"
    by (simp add: mounted_root_content dir_map_def entry_of_def root_entry de_of_mk root_names)
  then show ?thesis
    using dirlookup_refines_map [of mounted 0 "[97]"] mounted_room [of 1] mounted_dir by auto
qed

end
