(* ===== verification/Fs_Keep.thy ===== *)
theory Fs_Keep
  imports Fs_Blocks
begin

text \<open>
  What the operations on inodes leave alone, whatever the state: a relation between states
  that the block operations and the updates of one inode's lock, copy and validity respect
  is respected by all that \<open>fs.c\<close> builds from them. It is used for the identities and the
  reference counts of the inode cache, and for the parts of the kernel state outside the
  file system.
\<close>

lemma inodes_set_data [simp]: "inodes (set_data i d s) = inodes s" "fs_sb (set_data i d s) = fs_sb s"
  by (simp_all add: set_data_def update_buf_def)

definition same_id :: "(inode \<Rightarrow> inode) \<Rightarrow> bool" where
  "same_id f \<longleftrightarrow> (\<forall>n. i_dev (f n) = i_dev n \<and> i_inum (f n) = i_inum n \<and> i_ref (f n) = i_ref n)"

locale inode_frame =
  fixes keep :: "'a fstate_scheme \<Rightarrow> 'a fstate_scheme \<Rightarrow> bool"
  assumes keep_refl: "keep s s"
    and keep_trans: "keep s t \<Longrightarrow> keep t u \<Longrightarrow> keep s u"
    and keep_bread: "bread dev n s = Ret (i, t) \<Longrightarrow> keep s t"
    and keep_brelse: "brelse i s = Ret t \<Longrightarrow> keep s t"
    and keep_log_write: "log_write i s = Ret t \<Longrightarrow> keep s t"
    and keep_set_data: "keep s (set_data i d s)"
    and keep_inode: "same_id f \<Longrightarrow> keep s (upd_inode ip f s)"
begin

lemma keep_copy: "keep s (upd_copy ip f s)"
  unfolding upd_copy_def by (rule keep_inode) (simp add: same_id_def)

lemma keep_edit:
  assumes "log_write i (set_data i d s) = Ret t" and "brelse i t = Ret u" shows "keep s u"
  by (rule keep_trans [OF keep_set_data keep_trans [OF keep_log_write [OF assms(1)] keep_brelse [OF assms(2)]]])

lemma bfree_keep:
  assumes "bfree dev b s = Ret t" shows "keep s t"
proof -
  obtain i u v d where r: "bread dev (BBLOCK b (fs_sb s)) s = Ret (i, u)" "log_write i (set_data i d u) = Ret v"
      "brelse i v = Ret t"
    using assms by (auto simp: bfree_def outcome_simps Let_def split: if_splits)
  show ?thesis by (rule keep_trans [OF keep_bread [OF r(1)] keep_edit [OF r(2,3)]])
qed

lemma kfor_keep:
  assumes "kfor xs f s = Ret t" and "\<And>x s t. f x s = Ret t \<Longrightarrow> keep s t"
  shows "keep s t"
  using assms(1)
proof (induction xs arbitrary: s)
  case (Cons x xs)
  then obtain u where "f x s = Ret u" "kfor xs f u = Ret t" by (auto simp: outcome_simps)
  then show ?case using Cons.IH assms(2) keep_trans by blast
qed (simp add: keep_refl)

lemma free_direct_keep: "free_direct ip i s = Ret t \<Longrightarrow> keep s t"
  using keep_trans [OF bfree_keep keep_copy] keep_refl
  by (auto simp: free_direct_def outcome_simps split: if_splits)

lemma free_indirect_keep: "free_indirect ip bp j s = Ret t \<Longrightarrow> keep s t"
  using bfree_keep keep_refl by (auto simp: free_indirect_def split: if_splits)

lemma iupdate_keep:
  assumes "iupdate ip s = Ret t" shows "keep s t"
proof -
  obtain i u v d where r: "bread (i_dev (ino ip s)) (IBLOCK (i_inum (ino ip s)) (fs_sb s)) s = Ret (i, u)"
      "log_write i (set_data i d u) = Ret v" "brelse i v = Ret t"
    using assms by (auto simp: iupdate_def outcome_simps)
  show ?thesis by (rule keep_trans [OF keep_bread [OF r(1)] keep_edit [OF r(2,3)]])
qed

lemma itrunc_keep:
  assumes "itrunc ip s = Ret t" shows "keep s t"
proof -
  obtain u v where u: "kfor [0..<NDIRECT] (free_direct ip) s = Ret u"
      "(if di_addrs (i_copy (ino ip u)) ! NDIRECT \<noteq> 0 then
              kbind (bread (i_dev (ino ip u)) (di_addrs (i_copy (ino ip u)) ! NDIRECT) u) (\<lambda>(bp, s).
              kbind (kfor [0..<NINDIRECT] (free_indirect ip bp) s) (\<lambda>s.
              kbind (brelse bp s) (free_direct ip NDIRECT)))
            else Ret u) = Ret v"
      "iupdate ip (upd_copy ip (\<lambda>d. d\<lparr>di_size := 0\<rparr>) v) = Ret t"
    using assms by (auto simp: itrunc_def outcome_simps)
  have "keep u v"
  proof (cases "di_addrs (i_copy (ino ip u)) ! NDIRECT = 0")
    case True
    then show ?thesis using u(2) keep_refl by simp
  next
    case False
    then obtain bp w x y where w: "bread (i_dev (ino ip u)) (di_addrs (i_copy (ino ip u)) ! NDIRECT) u = Ret (bp, w)"
        "kfor [0..<NINDIRECT] (free_indirect ip bp) w = Ret x" "brelse bp x = Ret y" "free_direct ip NDIRECT y = Ret v"
      using u(2) by (auto simp: outcome_simps)
    have "keep w x" using w(2) by (rule kfor_keep) (rule free_indirect_keep)
    then show ?thesis
      by (rule keep_trans [OF keep_bread [OF w(1)] keep_trans [OF _ keep_trans [OF keep_brelse [OF w(3)] free_direct_keep [OF w(4)]]]])
  qed
  moreover have "keep s u" using u(1) by (rule kfor_keep) (rule free_direct_keep)
  ultimately show ?thesis using keep_trans [OF keep_copy iupdate_keep [OF u(3)]] keep_trans by blast
qed

lemma lock_inode_keep: "lock_inode ip s = Ret t \<Longrightarrow> keep s t"
  by (auto simp: lock_inode_def outcome_simps intro!: keep_inode) (simp add: same_id_def)

lemma unlock_inode_keep: "keep s (unlock_inode ip s)"
  unfolding unlock_inode_def by (rule keep_inode) (simp add: same_id_def)

lemma valid_keep: "keep s (upd_inode ip (\<lambda>n. n\<lparr>i_valid := v\<rparr>) s)"
  by (rule keep_inode) (simp add: same_id_def)

lemma ilock_keep:
  assumes "ilock ip s = Ret t" shows "keep s t"
proof -
  obtain u where u: "lock_inode ip s = Ret u" and r: "(if \<not> i_valid (ino ip u) then
          kbind (bread (i_dev (ino ip u)) (IBLOCK (i_inum (ino ip u)) (fs_sb u)) u) (\<lambda>(bp, s).
            let s = upd_copy ip (\<lambda>_. dinode_at (buf_data bp s) (i_inum (ino ip s))) s
            in kbind (brelse bp s) (\<lambda>s.
                 let s = upd_inode ip (\<lambda>n. n\<lparr>i_valid := True\<rparr>) s
                 in if di_type (i_copy (ino ip s)) = 0 then Panic ''ilock: no type'' else Ret s))
        else Ret u) = Ret t"
    using assms by (auto simp: ilock_def outcome_simps split: if_split_asm)
  have "keep u t"
  proof (cases "i_valid (ino ip u)")
    case False
    then obtain bp v f w where v: "bread (i_dev (ino ip u)) (IBLOCK (i_inum (ino ip u)) (fs_sb u)) u = Ret (bp, v)"
        "brelse bp (upd_copy ip f v) = Ret w" "t = upd_inode ip (\<lambda>n. n\<lparr>i_valid := True\<rparr>) w"
      using r by (auto simp: outcome_simps Let_def split: if_split_asm)
    have "keep v t" unfolding v(3) by (rule keep_trans [OF keep_copy keep_trans [OF keep_brelse [OF v(2)] valid_keep]])
    then show ?thesis by (rule keep_trans [OF keep_bread [OF v(1)]])
  qed (use r keep_refl in simp)
  then show ?thesis by (rule keep_trans [OF lock_inode_keep [OF u]])
qed

lemma iunlock_keep: "iunlock ip s = Ret t \<Longrightarrow> keep s t"
  using unlock_inode_keep by (auto simp: iunlock_def split: if_splits)

text \<open>\<open>iput\<close> up to the decrement of the count.\<close>

lemma iput_keep:
  assumes "iput ip s = Ret t"
  obtains u where "keep s u" and "t = upd_inode ip (\<lambda>n. n\<lparr>i_ref := i_ref n - 1\<rparr>) u"
proof -
  obtain u v where u: "lock_inode ip s = Ret u"
      "(if i_valid (ino ip u) \<and> di_nlink (i_copy (ino ip u)) = 0 \<and> i_ref (ino ip u) = 1 then
          kbind (itrunc ip u) (\<lambda>s. kbind (iupdate ip (upd_copy ip (\<lambda>d. d\<lparr>di_type := 0\<rparr>) s)) (\<lambda>s.
                Ret (upd_inode ip (\<lambda>n. n\<lparr>i_valid := False\<rparr>) s))) else Ret u) = Ret v"
      "t = upd_inode ip (\<lambda>n. n\<lparr>i_ref := i_ref n - 1\<rparr>) (unlock_inode ip v)"
    using assms by (auto simp: iput_def outcome_simps)
  have "keep u v"
  proof (cases "i_valid (ino ip u) \<and> di_nlink (i_copy (ino ip u)) = 0 \<and> i_ref (ino ip u) = 1")
    case True
    then obtain w x where w: "itrunc ip u = Ret w" "iupdate ip (upd_copy ip (\<lambda>d. d\<lparr>di_type := 0\<rparr>) w) = Ret x"
        "v = upd_inode ip (\<lambda>n. n\<lparr>i_valid := False\<rparr>) x"
      using u(2) by (auto simp: outcome_simps)
    have "keep w v" unfolding w(3) by (rule keep_trans [OF keep_copy keep_trans [OF iupdate_keep [OF w(2)] valid_keep]])
    then show ?thesis by (rule keep_trans [OF itrunc_keep [OF w(1)]])
  next
    case False
    then have "v = u" using u(2) by (simp only: if_False outcome.inject)
    then show ?thesis using keep_refl by simp
  qed
  then have "keep s (unlock_inode ip v)"
    using lock_inode_keep [OF u(1)] unlock_inode_keep keep_trans by blast
  then show ?thesis using u(3) that by blast
qed

text \<open>Allocating blocks and reading.\<close>

lemma balloc_scan_keep: "balloc_scan dev bs s = Ret (b, t) \<Longrightarrow> keep s t"
proof (induction bs arbitrary: s)
  case (Cons a bs)
  obtain bp u where u: "bread dev (BBLOCK a (fs_sb s)) s = Ret (bp, u)" using Cons.prems by (auto simp: outcome_simps)
  show ?case
  proof (cases "find (\<lambda>bi. \<not> bitmap_get (buf_data bp u) bi) [0..<min BPB (sb_size (fs_sb u) - a)]")
    case None
    then obtain v where "brelse bp u = Ret v" "balloc_scan dev bs v = Ret (b, t)"
      using Cons.prems u by (auto simp: outcome_simps)
    then show ?thesis using Cons.IH keep_bread [OF u] keep_brelse keep_trans by blast
  next
    case (Some bi)
    then obtain v w d x e y where v: "log_write bp (set_data bp d u) = Ret v" "brelse bp v = Ret w"
        "bread dev (a + bi) w = Ret (x, e)" "log_write x (set_data x (replicate BSIZE 0) e) = Ret y" "brelse x y = Ret t"
      using Cons.prems u by (auto simp: outcome_simps bzero_def)
    show ?thesis
      by (rule keep_trans [OF keep_bread [OF u] keep_trans [OF keep_edit [OF v(1,2)] keep_trans [OF keep_bread [OF v(3)] keep_edit [OF v(4,5)]]]])
  qed
qed simp

lemma bmap_entry_keep: "bmap_entry ip i s = Ret (a, t) \<Longrightarrow> keep s t"
  using keep_trans [OF balloc_scan_keep keep_copy] keep_refl
  by (auto simp: bmap_entry_def balloc_def outcome_simps split: if_splits)

lemma bmap_keep:
  assumes "bmap ip n s = Ret (a, t)" shows "keep s t"
proof (cases "n < NDIRECT")
  case True
  then show ?thesis using assms bmap_entry_keep by (simp add: bmap_def)
next
  case False
  then have n: "n - NDIRECT < NINDIRECT" using assms by (auto simp: bmap_def Let_def split: if_splits)
  obtain b u bp v where u: "bmap_entry ip NDIRECT s = Ret (b, u)" "bread (i_dev (ino ip u)) b u = Ret (bp, v)" and
      r: "(if word_at (buf_data bp v) (n - NDIRECT) = 0 then
               kbind (balloc (i_dev (ino ip v)) v) (\<lambda>(addr, s).
               kbind (log_write bp (set_data bp (set_word (buf_data bp s) (n - NDIRECT) addr) s)) (\<lambda>s.
               kbind (brelse bp s) (\<lambda>s. Ret (addr, s))))
             else let addr = word_at (buf_data bp v) (n - NDIRECT) in kbind (brelse bp v) (\<lambda>s. Ret (addr, s))) = Ret (a, t)"
    using assms False n by (auto simp: bmap_def Let_def outcome_simps)
  have "keep v t"
  proof (cases "word_at (buf_data bp v) (n - NDIRECT) = 0")
    case True
    then obtain w d x where w: "balloc (i_dev (ino ip v)) v = Ret (a, w)" "log_write bp (set_data bp d w) = Ret x"
        "brelse bp x = Ret t" using r by (auto simp: outcome_simps)
    show ?thesis by (rule keep_trans [OF balloc_scan_keep [OF w(1) [unfolded balloc_def]] keep_edit [OF w(2,3)]])
  next
    case False
    then show ?thesis using r keep_brelse by (auto simp: outcome_simps Let_def)
  qed
  then show ?thesis using bmap_entry_keep [OF u(1)] keep_bread [OF u(2)] keep_trans by blast
qed

lemma read_loop_keep: "read_loop ip off n s = Ret (x, t) \<Longrightarrow> keep s t"
proof (induction ip off n s arbitrary: x t rule: read_loop.induct)
  case (2 ip off k s)
  let ?m = "min (Suc k) (BSIZE - off mod BSIZE)"
  from 2(2) obtain addr u bp v w rest where r: "bmap ip (off div BSIZE) s = Ret (addr, u)"
      "bread (i_dev (ino ip u)) addr u = Ret (bp, v)" "brelse bp v = Ret w"
      "read_loop ip (off + ?m) (Suc k - ?m) w = Ret (rest, t)"
    by (auto simp: outcome_simps Let_def)
  have "keep w t" by (rule "2.IH" [OF refl r(1) refl r(2) refl refl r(3,4)])
  then show ?case using keep_bread [OF r(2)] keep_brelse [OF r(3)] bmap_keep [OF r(1)] keep_trans by blast
qed (simp add: keep_refl)

lemma readi_keep: "readi ip off n s = Ret (r, x, t) \<Longrightarrow> keep s t"
  using read_loop_keep keep_refl by (auto simp: readi_def Let_def outcome_simps split: if_splits option.splits prod.splits)

lemma write_loop_keep: "write_loop ip off src s = Ret (x, t) \<Longrightarrow> keep s t"
proof (induction ip off src s arbitrary: x t rule: write_loop.induct)
  case (2 ip off a src s)
  let ?src = "a # src"
  let ?m = "min (length ?src) (BSIZE - off mod BSIZE)"
  from 2(2) obtain addr u bp v w y where r: "bmap ip (off div BSIZE) s = Ret (addr, u)"
      "bread (i_dev (ino ip u)) addr u = Ret (bp, v)"
      "log_write bp (set_data bp (overwrite (buf_data bp v) (off mod BSIZE) (take ?m ?src)) v) = Ret w"
      "brelse bp w = Ret y" "write_loop ip (off + ?m) (drop ?m ?src) y = Ret (x, t)"
    by (auto simp: outcome_simps Let_def)
  have "keep y t" by (rule "2.IH" [OF refl refl r(1) refl r(2) refl r(3,4,5)])
  then show ?case using keep_bread [OF r(2)] keep_edit [OF r(3,4)] bmap_keep [OF r(1)] keep_trans by blast
qed (simp add: keep_refl)

lemma writei_keep:
  assumes "writei ip src off s = Ret (r, t)" shows "keep s t"
  using assms write_loop_keep keep_refl keep_trans [OF keep_copy iupdate_keep] keep_trans [OF write_loop_keep]
  by (auto simp: writei_def Let_def outcome_simps split: if_splits option.splits prod.splits)

end

section \<open>The state outside the file system\<close>

definition fs_frame :: "'a fstate_scheme \<Rightarrow> 'a fstate_scheme \<Rightarrow> bool" where
  "fs_frame s t \<longleftrightarrow> t = s\<lparr>bufs := bufs t, lru := lru t, memdisk := memdisk t, disk_writes := disk_writes t,
     outstanding := outstanding t, committing := committing t, lh_n := lh_n t, lh_block := lh_block t,
     inodes := inodes t\<rparr>"

lemma fs_frame_refl: "fs_frame s s"
  by (simp add: fs_frame_def)

lemma fs_frame_trans:
  assumes "fs_frame s t" and "fs_frame t u" shows "fs_frame s u"
proof -
  have "u = (s\<lparr>bufs := bufs t, lru := lru t, memdisk := memdisk t, disk_writes := disk_writes t,
     outstanding := outstanding t, committing := committing t, lh_n := lh_n t, lh_block := lh_block t,
     inodes := inodes t\<rparr>)\<lparr>bufs := bufs u, lru := lru u, memdisk := memdisk u, disk_writes := disk_writes u,
     outstanding := outstanding u, committing := committing u, lh_n := lh_n u, lh_block := lh_block u,
     inodes := inodes u\<rparr>"
    using assms unfolding fs_frame_def by metis
  then show ?thesis by (simp add: fs_frame_def)
qed

lemma fs_frame_log:
  fixes s t :: "'a fstate_scheme"
  assumes "log_frame s t" shows "fs_frame s t"
proof -
  let ?t = "s\<lparr>bufs := bufs t, lru := lru t, memdisk := memdisk t, disk_writes := disk_writes t,
     lh_n := lh_n t, lh_block := lh_block t\<rparr>"
  have "t = ?t" using assms by (simp add: log_frame_def)
  moreover have "fs_frame s ?t" by (simp add: fs_frame_def)
  ultimately show ?thesis by metis
qed

lemma fs_frame_cache: "cache_step s t \<Longrightarrow> fs_frame s t" for s :: "'a fstate_scheme"
  by (rule fs_frame_log, rule log_frame_cache)

lemma fs_frame_inode: "fs_frame s (upd_inode ip f s)"
  by (simp add: fs_frame_def upd_inode_def)

lemma log_write_frame: "log_write b s = Ret t \<Longrightarrow> log_frame s t"
  using log_write_form [of b s t] by (auto simp: log_frame_def update_buf_def)

interpretation outside: inode_frame fs_frame
proof
  show "fs_frame s s" for s :: "'b fstate_scheme" by (rule fs_frame_refl)
  show "fs_frame s t \<Longrightarrow> fs_frame t u \<Longrightarrow> fs_frame s u" for s t u :: "'b fstate_scheme" by (rule fs_frame_trans)
  show "fs_frame s (set_data i d s)" for i d and s :: "'b fstate_scheme" by (rule fs_frame_cache) simp
qed (blast intro: fs_frame_cache fs_frame_log fs_frame_inode bread_step brelse_step log_write_frame)+

lemma iput_frame: "iput ip s = Ret t \<Longrightarrow> fs_frame s t"
  by (erule outside.iput_keep) (blast intro: fs_frame_inode fs_frame_trans)

lemma idup_frame: "idup ip s = (j, t) \<Longrightarrow> fs_frame s t"
  using fs_frame_inode by (auto simp: idup_def)

lemma begin_op_frame: "begin_op s = Ret t \<Longrightarrow> fs_frame s t"
  by (auto simp: begin_op_def fs_frame_def split: if_splits)

lemma commit_frame:
  fixes s :: "'a fstate_scheme"
  assumes "commit s = Ret t" shows "fs_frame s t"
proof (cases "0 < lh_n s")
  case True
  then obtain a b c where r: "write_log s = Ret a" "write_head a = Ret b" "install_trans b = Ret c"
      "write_head (c\<lparr>lh_n := 0\<rparr>) = Ret t"
    using assms by (auto simp: commit_def outcome_simps)
  have "fs_frame s a" "fs_frame a b" "fs_frame b c" "fs_frame (c\<lparr>lh_n := 0\<rparr>) t"
    using kfor_step [OF r(1) [unfolded write_log_def]] write_log_one_step write_head_step [OF r(2)]
      kfor_step [OF r(3) [unfolded install_trans_def]] install_one_step write_head_step [OF r(4)] fs_frame_cache by blast+
  moreover have "fs_frame c (c\<lparr>lh_n := 0\<rparr>)" by (simp add: fs_frame_def)
  ultimately show ?thesis using fs_frame_trans by blast
next
  case False
  then show ?thesis using assms fs_frame_refl by (auto simp: commit_def)
qed

end
