(* ===== verification/Fs_Inodes.thy ===== *)
theory Fs_Inodes
  imports Fs_Files Fs_Keep
begin

text \<open>
  Block allocation, the inode cache and the splitting of
  paths: properties of the parts of \<open>fs.c\<close> below files and directories.
\<close>

section \<open>The inode cache\<close>

text \<open>No two referenced entries of the cache are for the same inode.\<close>

definition icache_ok :: "'a fstate_scheme \<Rightarrow> bool" where
  "icache_ok s \<longleftrightarrow> length (inodes s) = NINODE \<and> (\<forall>i < NINODE. 0 \<le> i_ref (ino i s)) \<and>
     (\<forall>i < NINODE. \<forall>j < NINODE. 0 < i_ref (ino i s) \<longrightarrow> 0 < i_ref (ino j s) \<longrightarrow>
        i_dev (ino i s) = i_dev (ino j s) \<longrightarrow> i_inum (ino i s) = i_inum (ino j s) \<longrightarrow> i = j)"

text \<open>What identifies the entries: everything but the copy of the disk inode and the lock.\<close>

definition inode_ids :: "'a fstate_scheme \<Rightarrow> (nat \<times> nat \<times> int) list" where
  "inode_ids s = map (\<lambda>n. (i_dev n, i_inum n, i_ref n)) (inodes s)"

lemma inode_ids_nth:
  assumes "inode_ids t = inode_ids s"
  shows "length (inodes t) = length (inodes s)"
    "i < length (inodes s) \<Longrightarrow> i_ref (ino i t) = i_ref (ino i s) \<and> i_dev (ino i t) = i_dev (ino i s) \<and>
       i_inum (ino i t) = i_inum (ino i s)"
proof -
  show l: "length (inodes t) = length (inodes s)" using arg_cong [OF assms, of length] by (simp add: inode_ids_def)
  show "i_ref (ino i t) = i_ref (ino i s) \<and> i_dev (ino i t) = i_dev (ino i s) \<and> i_inum (ino i t) = i_inum (ino i s)"
    if "i < length (inodes s)"
    using arg_cong [OF assms, of "\<lambda>l. l ! i"] that l by (simp add: inode_ids_def)
qed

lemma icache_ok_ids: "inode_ids t = inode_ids s \<Longrightarrow> icache_ok s \<Longrightarrow> icache_ok t"
proof -
  assume e: "inode_ids t = inode_ids s" and ok: "icache_ok s"
  have "length (inodes s) = NINODE" using ok by (simp add: icache_ok_def)
  then show "icache_ok t" using ok inode_ids_nth [OF e] unfolding icache_ok_def by simp
qed

lemma inode_ids_upd:
  "(\<And>n. i_dev (f n) = i_dev n \<and> i_inum (f n) = i_inum n \<and> i_ref (f n) = i_ref n) \<Longrightarrow>
   inode_ids (upd_inode ip f s) = inode_ids s"
  by (cases "ip < length (inodes s)")
     (auto simp: inode_ids_def upd_inode_def map_update list_update_same_conv intro!: nth_equalityI)

lemma inode_ids_copy [simp]: "inode_ids (upd_copy ip f s) = inode_ids s"
  by (simp add: upd_copy_def inode_ids_upd)

lemma log_write_inodes: "log_write i s = Ret t \<Longrightarrow> inodes t = inodes s" for s :: "'a fstate_scheme"
  using log_write_form [of i s t] by (auto simp: update_buf_def)

lemma brelse_inodes: "brelse i s = Ret t \<Longrightarrow> inodes t = inodes s" for s :: "'a fstate_scheme"
  by (drule brelse_step, drule log_frame_cache, drule fs_fields) simp

interpretation ids: inode_frame "\<lambda>s t. inode_ids t = inode_ids s"
proof
  show "inode_ids (set_data i d s) = inode_ids s" for i d and s :: "'b fstate_scheme"
    by (simp add: inode_ids_def)
  show "same_id f \<Longrightarrow> inode_ids (upd_inode ip f s) = inode_ids s" for f ip and s :: "'b fstate_scheme"
    by (rule inode_ids_upd) (simp add: same_id_def)
qed (auto simp: inode_ids_def log_write_inodes brelse_inodes dest: bread_fs)

section \<open>References to inodes\<close>

lemma iget_ok:
  assumes ok: "icache_ok s" and g: "iget dev inum s = Ret (ip, t)"
  shows "icache_ok t" "ip < NINODE" "i_dev (ino ip t) = dev" "i_inum (ino ip t) = inum" "0 < i_ref (ino ip t)"
    "\<And>jp. jp \<noteq> ip \<Longrightarrow> ino jp t = ino jp s"
    "i_ref (ino ip t) = i_ref (ino ip s) + 1"
proof -
  let ?hit = "\<lambda>i. 0 < i_ref (ino i s) \<and> i_dev (ino i s) = dev \<and> i_inum (ino i s) = inum"
  have len: "length (inodes s) = NINODE" using ok by (simp add: icache_ok_def)
  have "icache_ok t \<and> ip < NINODE \<and> i_dev (ino ip t) = dev \<and> i_inum (ino ip t) = inum \<and> 0 < i_ref (ino ip t) \<and>
    (\<forall>jp. jp \<noteq> ip \<longrightarrow> ino jp t = ino jp s) \<and> i_ref (ino ip t) = i_ref (ino ip s) + 1"
  proof (cases "find ?hit [0..<NINODE]")
    case (Some i)
    then have e: "i = ip" "t = upd_inode ip (\<lambda>n. n\<lparr>i_ref := i_ref n + 1\<rparr>) s" using g by (auto simp: iget_def)
    from find_Some_in_set [OF Some] have i: "ip < NINODE" "?hit ip" using e by simp_all
    then have "icache_ok t" using ok len unfolding icache_ok_def e(2)
      by (auto simp: upd_inode_def nth_list_update)
    then show ?thesis using e i len by simp
  next
    case None
    then have none: "\<And>i. i < NINODE \<Longrightarrow> \<not> ?hit i" by (simp add: find_None_iff)
    from None g obtain i where f: "find (\<lambda>i. i_ref (ino i s) = 0) [0..<NINODE] = Some i" and
      e: "ip = i" "t = upd_inode i (\<lambda>n. n\<lparr>i_dev := dev, i_inum := inum, i_ref := 1, i_valid := False\<rparr>) s"
      by (auto simp: iget_def split: option.splits)
    from find_Some_in_set [OF f] have i: "i < NINODE" "i_ref (ino i s) = 0" by simp_all
    have "icache_ok t" using ok len none i unfolding icache_ok_def e(2)
      by (auto simp: upd_inode_def nth_list_update)
    then show ?thesis using e i len by simp
  qed
  then show "icache_ok t" "ip < NINODE" "i_dev (ino ip t) = dev" "i_inum (ino ip t) = inum" "0 < i_ref (ino ip t)"
    "\<And>jp. jp \<noteq> ip \<Longrightarrow> ino jp t = ino jp s" "i_ref (ino ip t) = i_ref (ino ip s) + 1" by blast+
qed

lemma ids_update:
  "ip < length (inodes s) \<Longrightarrow> inode_ids (upd_inode ip (\<lambda>n. n\<lparr>i_ref := i_ref n + k\<rparr>) s) =
     (inode_ids s)[ip := (i_dev (ino ip s), i_inum (ino ip s), i_ref (ino ip s) + k)]"
  by (simp add: inode_ids_def upd_inode_def map_update)

lemma iput_ids:
  assumes "iput ip s = Ret t" and "ip < length (inodes s)"
  shows "inode_ids t = inode_ids (upd_inode ip (\<lambda>n. n\<lparr>i_ref := i_ref n + (- 1)\<rparr>) s)"
proof -
  obtain u where w: "inode_ids u = inode_ids s" and t: "t = upd_inode ip (\<lambda>n. n\<lparr>i_ref := i_ref n - 1\<rparr>) u"
    by (rule ids.iput_keep [OF assms(1)])
  have l: "ip < length (inodes u)" using assms(2) inode_ids_nth(1) [OF w] by simp
  have "inode_ids t = inode_ids (upd_inode ip (\<lambda>n. n\<lparr>i_ref := i_ref n + (- 1)\<rparr>) u)" by (simp add: t)
  also have "\<dots> = inode_ids (upd_inode ip (\<lambda>n. n\<lparr>i_ref := i_ref n + (- 1)\<rparr>) s)"
    unfolding ids_update [OF l] ids_update [OF assms(2)] w using inode_ids_nth(2) [OF w assms(2)] by simp
  finally show ?thesis .
qed

lemmas keeps_ids = ids.ilock_keep ids.iunlock_keep ids.iupdate_keep ids.itrunc_keep ids.bmap_keep ids.readi_keep ids.writei_keep

text \<open>
  The kernel's use of the cache: \<open>h ip\<close> counts the references to entry \<open>ip\<close> that have been handed out
  by \<open>iget\<close> and \<open>idup\<close> and not yet given back by \<open>iput\<close>. In between come locking and all
  operations on the content of an inode.
\<close>

inductive icache_run :: "'a fstate_scheme \<Rightarrow> (nat \<Rightarrow> nat) \<Rightarrow> bool" where
  start: "length (inodes s) = NINODE \<Longrightarrow> \<forall>i < NINODE. i_ref (ino i s) = 0 \<Longrightarrow> icache_run s (\<lambda>ip. 0)"
| get: "icache_run s h \<Longrightarrow> iget dev inum s = Ret (ip, t) \<Longrightarrow> icache_run t (h(ip := h ip + 1))"
| dup: "icache_run s h \<Longrightarrow> 0 < h ip \<Longrightarrow> idup ip s = (ip, t) \<Longrightarrow> icache_run t (h(ip := h ip + 1))"
| put: "icache_run s h \<Longrightarrow> 0 < h ip \<Longrightarrow> iput ip s = Ret t \<Longrightarrow> icache_run t (h(ip := h ip - 1))"
| lock: "icache_run s h \<Longrightarrow> ilock ip s = Ret t \<Longrightarrow> icache_run t h"
| unlock: "icache_run s h \<Longrightarrow> iunlock ip s = Ret t \<Longrightarrow> icache_run t h"
| update: "icache_run s h \<Longrightarrow> iupdate ip s = Ret t \<Longrightarrow> icache_run t h"
| truncate: "icache_run s h \<Longrightarrow> itrunc ip s = Ret t \<Longrightarrow> icache_run t h"
| map: "icache_run s h \<Longrightarrow> bmap ip n s = Ret (a, t) \<Longrightarrow> icache_run t h"
| read: "icache_run s h \<Longrightarrow> readi ip off n s = Ret (r, x, t) \<Longrightarrow> icache_run t h"
| store: "icache_run s h \<Longrightarrow> writei ip src off s = Ret (r, t) \<Longrightarrow> icache_run t h"

definition refs_ok :: "'a fstate_scheme \<Rightarrow> (nat \<Rightarrow> nat) \<Rightarrow> bool" where
  "refs_ok s h \<longleftrightarrow> icache_ok s \<and> (\<forall>i < NINODE. i_ref (ino i s) = int (h i)) \<and> (\<forall>i. 0 < h i \<longrightarrow> i < NINODE)"

lemma refs_ok_ids: "inode_ids t = inode_ids s \<Longrightarrow> refs_ok s h \<Longrightarrow> refs_ok t h"
  using icache_ok_ids [of t s] inode_ids_nth [of t s] by (auto simp: refs_ok_def icache_ok_def)

lemma refs_ok_add:
  assumes ok: "refs_ok s h" and ip: "0 < h ip" and k: "int m = int (h ip) + k"
    and t: "inode_ids t = inode_ids (upd_inode ip (\<lambda>n. n\<lparr>i_ref := i_ref n + k\<rparr>) s)"
  shows "refs_ok t (h(ip := m))"
proof -
  let ?u = "upd_inode ip (\<lambda>n. n\<lparr>i_ref := i_ref n + k\<rparr>) s"
  have len: "length (inodes s) = NINODE" and lt: "ip < NINODE" and r: "i_ref (ino ip s) = int (h ip)"
    using ok ip by (auto simp: refs_ok_def icache_ok_def)
  have "icache_ok ?u"
    using ok ip len lt r k unfolding refs_ok_def icache_ok_def
    by (auto simp: upd_inode_def nth_list_update)
  then have "refs_ok ?u (h(ip := m))"
    using ok len lt r k ip by (auto simp: refs_ok_def upd_inode_def nth_list_update)
  then show ?thesis by (rule refs_ok_ids [OF t])
qed

lemma icache_run_ok: "icache_run s h \<Longrightarrow> refs_ok s h"
proof (induction rule: icache_run.induct)
  case (start s)
  then show ?case by (simp add: refs_ok_def icache_ok_def)
next
  case (get s h dev inum ip t)
  have "icache_ok s" using get.IH by (simp add: refs_ok_def)
  note g = iget_ok [OF this get.hyps(2)]
  show ?case
    unfolding refs_ok_def
  proof (intro conjI allI impI)
    show "icache_ok t" by (rule g(1))
    show "i_ref (ino i t) = int ((h(ip := h ip + 1)) i)" if "i < NINODE" for i
      using that get.IH g(2,6,7) by (cases "i = ip") (simp_all add: refs_ok_def)
    show "i < NINODE" if "0 < (h(ip := h ip + 1)) i" for i
      using that get.IH g(2) by (cases "i = ip") (auto simp: refs_ok_def)
  qed
next
  case (dup s h ip t)
  then show ?case by (intro refs_ok_add [where k = 1 and s = s]) (auto simp: idup_def)
next
  case (put s h ip t)
  have "ip < length (inodes s)" using put.IH put.hyps(2) by (auto simp: refs_ok_def icache_ok_def)
  from refs_ok_add [OF put.IH put.hyps(2) _ iput_ids [OF put.hyps(3) this], of "h ip - 1"] put.hyps(2)
  show ?case by (simp add: of_nat_diff fun_upd_def)
qed (blast intro: refs_ok_ids keeps_ids)+

text \<open>C7: reference counts of the inode cache: however the kernel gets, duplicates, locks, uses and puts
  inodes, the count of an entry is the number of references handed out and not given back, and two entries that are
  both referenced are for different inodes, so an inode in use has one entry.\<close>

theorem inode_references:
  assumes "icache_run s h"
  shows "(\<forall>i < NINODE. i_ref (ino i s) = int (h i)) \<and>
    (\<forall>i j. 0 < h i \<longrightarrow> 0 < h j \<longrightarrow> i_dev (ino i s) = i_dev (ino j s) \<longrightarrow> i_inum (ino i s) = i_inum (ino j s) \<longrightarrow> i = j)"
  using icache_run_ok [OF assms] by (auto simp: refs_ok_def icache_ok_def)

theorem inode_references_witness:
  "\<exists>t. iget 1 7 (mounted\<lparr>inodes := replicate NINODE unused_inode\<rparr>) = Ret (0, t) \<and> i_ref (ino 0 t) = 1"
proof -
  let ?s = "mounted\<lparr>inodes := replicate NINODE unused_inode\<rparr>"
  have r: "icache_run ?s (\<lambda>ip. 0)" by (rule icache_run.start) (simp_all add: unused_inode_def)
  have up: "[0..<NINODE] = 0 # [1..<NINODE]" by (simp add: NINODE_def upt_rec)
  have "find (\<lambda>i. 0 < i_ref (ino i ?s) \<and> i_dev (ino i ?s) = 1 \<and> i_inum (ino i ?s) = 7) [0..<NINODE] = None"
    by (simp add: find_None_iff unused_inode_def)
  moreover have "find (\<lambda>i. i_ref (ino i ?s) = 0) [0..<NINODE] = Some 0"
    unfolding up by (simp add: unused_inode_def NINODE_def)
  ultimately obtain t where t: "iget 1 7 ?s = Ret (0, t)" by (auto simp: iget_def)
  from inode_references [OF icache_run.get [OF r t]] t show ?thesis by (auto simp: NINODE_def)
qed

section \<open>Blocks\<close>

text \<open>Block allocation and its undoing: \<open>balloc\<close> returns the lowest block that is not in use, zeroed and
  marked, and nothing else of the data changes; \<open>bfree\<close> of that block makes the bitmap what it was,
  and freeing it once more panics.\<close>

theorem balloc_bfree:
  fixes s :: "'a fstate_scheme"
  assumes "room s 4" and "blocks_ok s" and "\<exists>c < sb_size (fs_sb s). \<not> allocated s c" and "heldb s = {}"
  shows "\<exists>b t u. balloc 1 s = Ret (b, t) \<and> \<not> allocated s b \<and> (\<forall>c < b. allocated s c) \<and>
    bcontent t b = replicate BSIZE 0 \<and> (\<forall>c < sb_size (fs_sb s). allocated t c \<longleftrightarrow> allocated s c \<or> c = b) \<and>
    (\<forall>m. data_block s m \<longrightarrow> bcontent t m = bcontent s m) \<and>
    bfree 1 b t = Ret u \<and> (\<forall>c < sb_size (fs_sb s). allocated u c \<longleftrightarrow> allocated s c) \<and>
    bfree 1 b u = Panic ''freeing free block''"
proof -
  have r: "room s (2 + 2)" using assms(1) by simp
  obtain b t where t: "balloc 1 s = Ret (b, t)" "room t 2" "block_step s t" "blocks_ok t"
    "data_start (fs_sb s) \<le> b" "b < sb_size (fs_sb s)" "\<not> allocated s b" "\<forall>c < b. allocated s c"
    "\<forall>c < sb_size (fs_sb s). allocated t c \<longleftrightarrow> allocated s c \<or> c = b" "bcontent t b = replicate BSIZE 0"
    "\<forall>m. m \<noteq> b \<longrightarrow> data_start (fs_sb s) \<le> m \<or> m < sb_bmapstart (fs_sb s) \<longrightarrow> bcontent t m = bcontent s m"
    using balloc_total [OF r assms(2,3)] by - (elim exE conjE, rule that, assumption+)
  note f = block_step_fs [OF t(3)] block_step_simps [OF t(3)]
  have r1: "room t (Suc 1)" using t(2) by (simp add: numeral_2_eq_2)
  have "data_start (fs_sb t) \<le> b" "b < sb_size (fs_sb t)" "allocated t b" "b \<notin> heldb t"
    using t(5,6,9) f assms(4) by simp_all
  from bfree_total [OF r1 t(4) this] obtain u where u: "bfree 1 b t = Ret u" "room u 1" "block_step t u" "blocks_ok u"
    "\<forall>c < sb_size (fs_sb t). allocated u c \<longleftrightarrow> allocated t c \<and> c \<noteq> b"
    by - (elim exE conjE, rule that, assumption+)
  note fu = block_step_fs [OF u(3)]
  have bu: "b < sb_size (fs_sb u)" "\<not> allocated u b" using t(6) u(5) fu f by simp_all
  have ru: "room u (Suc 0)" using u(2) by simp
  have p: "bfree 1 b u = Panic ''freeing free block''" by (rule bfree_panic [OF ru u(4) bu])
  have dm: "bcontent t m = bcontent s m" if "data_block s m" for m
    using that t(7,11) by (auto simp: data_block_def)
  have bits: "allocated u c \<longleftrightarrow> allocated s c" if "c < sb_size (fs_sb s)" for c
    using u(5) t(7,9) that f by auto
  show ?thesis using t(1,7,8,9,10) u(1) p dm bits by blast
qed

theorem balloc_bfree_witness: "\<exists>t. balloc 1 mounted = Ret (36, t)"
proof -
  have "\<exists>c < sb_size (fs_sb mounted). \<not> allocated mounted c"
    by (rule exI [of _ 36]) (simp add: mounted_allocated, simp add: example_sb_def)
  then obtain b t where b: "balloc 1 mounted = Ret (b, t)" "\<not> allocated mounted b" "\<forall>c < b. allocated mounted c"
    using balloc_bfree [of mounted] mounted_room [of 4] mounted_ok by auto
  have "b < 60"
  proof (rule ccontr)
    assume "\<not> b < 60"
    then have "allocated mounted 36" using b(3) by simp
    then show False by (simp add: mounted_allocated)
  qed
  moreover have "\<not> 36 < b" using b(3) mounted_allocated [of 36] by auto
  ultimately have "b = 36" using b(2) mounted_allocated [of b] by auto
  then show ?thesis using b(1) by blast
qed

section \<open>Inodes on disk and in memory\<close>

lemma brelse_upd_inode:
  "brelse i s = Ret t \<Longrightarrow> brelse i (upd_inode ip f s) = Ret (upd_inode ip f t)"
  by (auto simp: brelse_def Let_def upd_inode_def update_buf_def split: if_splits)

text \<open>An inode survives eviction from the cache: what \<open>iupdate\<close> writes, a later \<open>ilock\<close> of the
  entry, no longer valid, reads back, field by field.\<close>

theorem iupdate_reload:
  fixes s :: "'a fstate_scheme"
  assumes "room s 2" and "blocks_ok s" and "inode_ready ip s" and "heldb s = {}"
    and "i_inum (ino ip s) < sb_ninodes (fs_sb s)" and "dinode_wf (dcopy ip s)" and "di_type (dcopy ip s) \<noteq> 0"
    and "0 < i_ref (ino ip s)"
  shows "\<exists>t u. iupdate ip s = Ret t \<and>
    ilock ip (upd_inode ip (\<lambda>n. n\<lparr>i_valid := False, i_lock := initsleeplock, i_copy := d\<rparr>) t) = Ret u \<and>
    dcopy ip u = dcopy ip s \<and> i_valid (ino ip u)"
proof -
  let ?n = "i_inum (ino ip s)" and ?B = "IBLOCK (i_inum (ino ip s)) (fs_sb s)"
  have r: "room s (Suc 1)" using assms(1) by (simp add: numeral_2_eq_2)
  obtain t where t: "iupdate ip s = Ret t" "room t 1" "block_step s t"
      "bcontent t = (bcontent s)(?B := set_dinode (bcontent s ?B) ?n (dcopy ip s))"
    using iupdate_total [OF r assms(2-5)] by blast
  note f = block_step_fs [OF t(3)] block_step_simps [OF t(3)]
  have ci: "cache_inv s" using assms(1) by (simp add: room_def log_inv_def)
  have b: "dinode_at (bcontent t ?B) ?n = dcopy ip s"
    using dinode_at_set [OF length_bcontent [OF ci] assms(6)] by (simp add: t(4))
  let ?t = "upd_inode ip (\<lambda>n. n\<lparr>i_valid := False, i_lock := initsleeplock, i_copy := d\<rparr>) t"
  let ?v = "upd_inode ip (\<lambda>n. n\<lparr>i_lock := \<lparr>slocked = True, spid = my_pid ?t\<rparr>\<rparr>) ?t"
  have ip: "ip < length (inodes s)" "i_dev (ino ip s) = 1" using assms(3) by (simp_all add: inode_ready_def)
  have l: "lock_inode ip ?t = Ret ?v"
    using ip f by (simp add: lock_inode_def acquiresleep_def initsleeplock_def)
  have lay: "layout (fs_sb s) (disksize s)" using assms(2) by (simp add: blocks_ok_def)
  have "room ?v 1" "?B < disksize ?v" "?B \<notin> heldb ?v"
    using t(2) IBLOCK_lt(2) [OF lay] assms(4,5) f by simp_all
  then obtain j x y where x: "bread 1 ?B ?v = Ret (j, x)" "buf_data j x = bcontent ?v ?B" and
      y: "brelse j x = Ret y" "block_step ?v y"
    using look_total [of ?v 1 ?B] by auto
  note fx = bread_fs [OF x(1)]
  let ?x = "upd_copy ip (\<lambda>_. dinode_at (buf_data j x) (i_inum (ino ip x))) x"
  have d: "dinode_at (buf_data j x) (i_inum (ino ip x)) = dcopy ip s"
    using b x(2) fx ip f by simp
  have rel: "brelse j ?x = Ret (upd_copy ip (\<lambda>_. dcopy ip s) y)"
    using brelse_upd_inode [OF y(1)] by (simp add: d upd_copy_def)
  have iy: "inodes y = inodes ?v" using block_step_fs [OF y(2)] by simp
  let ?u = "upd_inode ip (\<lambda>n. n\<lparr>i_valid := True\<rparr>) (upd_copy ip (\<lambda>_. dcopy ip s) y)"
  have "ilock ip ?t = Ret ?u"
    using assms(7,8) l x(1) rel ip f iy fx by (simp add: ilock_def Let_def) (simp add: upd_copy_def)
  moreover have "dcopy ip ?u = dcopy ip s" "i_valid (ino ip ?u)" using ip f iy by (simp_all add: upd_copy_def)
  ultimately show ?thesis using t(1) by blast
qed

theorem iupdate_reload_witness:
  "\<exists>t u. iupdate 0 mounted = Ret t \<and>
    ilock 0 (upd_inode 0 (\<lambda>n. n\<lparr>i_valid := False, i_lock := initsleeplock, i_copy := zero_dinode\<rparr>) t) = Ret u \<and>
    dcopy 0 u = root_dinode"
proof -
  have i: "inode_ready 0 mounted" "i_inum (ino 0 mounted) < sb_ninodes (fs_sb mounted)"
    using mounted_root by (simp_all add: file_at_def)
  have r: "room mounted 2" by (rule mounted_room) simp
  have d: "dcopy 0 mounted = root_dinode" "0 < i_ref (ino 0 mounted)" by (simp_all add: root_inode_def)
  have w: "dinode_wf (dcopy 0 mounted)" "di_type (dcopy 0 mounted) \<noteq> 0"
    unfolding d by (simp_all add: dinode_wf_def root_dinode_def NDIRECT_def)
  show ?thesis
    using iupdate_reload [OF r mounted_ok(1) i(1) mounted_ok(2) i(2) w d(2), of zero_dinode] unfolding d by blast
qed

section \<open>Path names\<close>

text \<open>The reference: cut the path at every slash, drop the empty pieces, cut the others to \<open>DIRSIZ\<close> bytes.\<close>

primrec pieces :: "byte list \<Rightarrow> byte list list" where
  "pieces [] = [[]]"
| "pieces (c # cs) = (if c = slash then [] # pieces cs else (c # hd (pieces cs)) # tl (pieces cs))"

definition path_elements :: "byte list \<Rightarrow> byte list list" where
  "path_elements p = map (take DIRSIZ) (filter (\<lambda>e. e \<noteq> []) (pieces p))"

text \<open>What \<open>namex\<close> walks: \<open>skipelem\<close> until it returns null.\<close>

function path_walk :: "byte list \<Rightarrow> byte list list" where
  "path_walk p = (case skipelem p of None \<Rightarrow> [] | Some (name, rest) \<Rightarrow> name # path_walk rest)"
  by pat_completeness auto
termination by (relation "measure length") (auto dest: skipelem_shorter sym)

declare path_walk.simps [simp del]

lemma pieces_cut:
  "pieces xs = takeWhile (\<lambda>c. c \<noteq> slash) xs #
     (case dropWhile (\<lambda>c. c \<noteq> slash) xs of [] \<Rightarrow> [] | c # r \<Rightarrow> pieces r)"
  by (induction xs) auto

lemma elements_skip: "path_elements (dropWhile (\<lambda>c. c = slash) p) = path_elements p"
  by (induction p) (auto simp: path_elements_def)

lemma elements_cut:
  assumes "xs \<noteq> []" and "hd xs \<noteq> slash"
  shows "path_elements xs = take DIRSIZ (takeWhile (\<lambda>c. c \<noteq> slash) xs) #
    path_elements (dropWhile (\<lambda>c. c = slash) (dropWhile (\<lambda>c. c \<noteq> slash) xs))"
proof -
  have ne: "takeWhile (\<lambda>c. c \<noteq> slash) xs \<noteq> []" using assms by (cases xs) simp_all
  show ?thesis
  proof (cases "dropWhile (\<lambda>c. c \<noteq> slash) xs")
    case Nil
    show ?thesis using ne unfolding path_elements_def pieces_cut [of xs] Nil by simp
  next
    case (Cons c r)
    then have c: "c = slash" using hd_dropWhile [of "\<lambda>c. c \<noteq> slash" xs] by simp
    then show ?thesis using ne elements_skip [of r] unfolding path_elements_def pieces_cut [of xs] Cons by simp
  qed
qed

text \<open>C36: walking a path with \<open>skipelem\<close> meets exactly its nonempty components, in order, each cut to
  \<open>DIRSIZ\<close> bytes, however many slashes separate, precede or follow them.\<close>

theorem skipelem_components: "path_walk p = path_elements p"
proof (induction p rule: path_walk.induct)
  case (1 p)
  let ?q = "dropWhile (\<lambda>c. c = slash) p"
  show ?case
  proof (cases "?q = []")
    case True
    have "path_elements ?q = []" unfolding True by (simp add: path_elements_def)
    moreover have "skipelem p = None" unfolding skipelem_def Let_def True by simp
    ultimately show ?thesis using elements_skip [of p] by (subst path_walk.simps) simp
  next
    case False
    let ?n = "take DIRSIZ (takeWhile (\<lambda>c. c \<noteq> slash) ?q)"
    let ?r = "dropWhile (\<lambda>c. c = slash) (dropWhile (\<lambda>c. c \<noteq> slash) ?q)"
    have sk: "skipelem p = Some (?n, ?r)" using False by (simp add: skipelem_def Let_def)
    have "path_walk p = ?n # path_walk ?r" by (subst path_walk.simps) (simp add: sk)
    also have "path_walk ?r = path_elements ?r" by (rule "1.IH" [OF sk refl])
    finally show ?thesis using elements_cut [OF False] hd_dropWhile [OF False] elements_skip [of p] by simp
  qed
qed

end
