(* ===== verification/File.thy ===== *)
theory File
  imports Fs Pipe
begin

unbundle bit_operations_syntax

text \<open>
  The file table (\<open>file.c\<close>) over the file system and the pipes. Files and inodes are named
  by their index in the kernel's tables; a pipe by the page it lives in. The state has the
  fields of the process that the kernel path runs for. An operation on a pipe that has to
  wait has the outcome \<open>Sleep\<close>; what the pipe does before that is in the theory \<open>Pipe\<close>.
\<close>

section \<open>State\<close>

datatype fd_type = FD_NONE | FD_PIPE | FD_INODE

text \<open>\<open>None\<close> in \<open>f_pipe\<close> and \<open>f_ip\<close> is the null pointer.\<close>

record kfile =
  f_type :: fd_type
  f_ref :: int
  f_readable :: int
  f_writable :: int
  f_pipe :: "nat option"
  f_ip :: "nat option"
  f_off :: nat

definition NFILE :: nat where "NFILE = 100"
definition NOFILE :: int where "NOFILE = 16"

text \<open>
  \<open>free_pages\<close> is the free list of the page allocator, first page first; \<open>umem\<close>, \<open>usz\<close>
  and \<open>uesp\<close> are the user memory, its size and the saved user stack pointer.
\<close>

record kstate = fstate +
  ftable :: "kfile list"
  pipes :: "nat \<Rightarrow> pipe"
  free_pages :: "nat list"
  ofile :: "nat option list"
  pkilled :: bool
  umem :: "nat \<Rightarrow> byte"
  usz :: nat
  uesp :: nat

abbreviation fil :: "nat \<Rightarrow> 'a kstate_scheme \<Rightarrow> kfile" where
  "fil f s \<equiv> ftable s ! f"

definition upd_file :: "nat \<Rightarrow> (kfile \<Rightarrow> kfile) \<Rightarrow> 'a kstate_scheme \<Rightarrow> 'a kstate_scheme" where
  "upd_file f g s = s\<lparr>ftable := (ftable s)[f := g (ftable s ! f)]\<rparr>"

text \<open>Following a pointer that must not be null.\<close>

primrec deref :: "nat option \<Rightarrow> nat outcome" where
  "deref None = Panic ''null pointer''"
| "deref (Some p) = Ret p"

definition get_page :: "'a kstate_scheme \<Rightarrow> nat option \<times> 'a kstate_scheme" where
  "get_page s = (case free_pages s of [] \<Rightarrow> (None, s) | p # ps \<Rightarrow> (Some p, s\<lparr>free_pages := ps\<rparr>))"

definition put_page :: "nat \<Rightarrow> 'a kstate_scheme \<Rightarrow> 'a kstate_scheme" where
  "put_page p s = s\<lparr>free_pages := p # free_pages s\<rparr>"

section \<open>The file table\<close>

definition filealloc :: "'a kstate_scheme \<Rightarrow> nat option \<times> 'a kstate_scheme" where
  "filealloc s =
     (case find (\<lambda>f. f_ref (fil f s) = 0) [0..<NFILE] of
        Some f \<Rightarrow> (Some f, upd_file f (\<lambda>x. x\<lparr>f_ref := 1\<rparr>) s)
      | None \<Rightarrow> (None, s))"

definition filedup :: "nat \<Rightarrow> 'a kstate_scheme \<Rightarrow> 'a kstate_scheme outcome" where
  "filedup f s =
     (if f_ref (fil f s) < 1 then Panic ''filedup''
      else Ret (upd_file f (\<lambda>x. x\<lparr>f_ref := f_ref x + 1\<rparr>) s))"

text \<open>Closing one end of the pipe in page \<open>p\<close>; the page is freed with the second end.\<close>

definition close_pipe :: "nat \<Rightarrow> bool \<Rightarrow> 'a kstate_scheme \<Rightarrow> 'a kstate_scheme" where
  "close_pipe p wr s =
     (case pipeclose (pipes s p) wr of
        (pi, ch, gone) \<Rightarrow>
          let s = s\<lparr>pipes := (pipes s)(p := pi)\<rparr> in if gone then put_page p s else s)"

definition fileclose :: "nat \<Rightarrow> 'a kstate_scheme \<Rightarrow> 'a kstate_scheme outcome" where
  "fileclose f s =
     (if f_ref (fil f s) < 1 then Panic ''fileclose''
      else
        let s = upd_file f (\<lambda>x. x\<lparr>f_ref := f_ref x - 1\<rparr>) s
        in if f_ref (fil f s) > 0 then Ret s
           else
             let ff = fil f s;
                 s = upd_file f (\<lambda>x. x\<lparr>f_ref := 0, f_type := FD_NONE\<rparr>) s
             in case f_type ff of
                  FD_PIPE \<Rightarrow> kbind (deref (f_pipe ff)) (\<lambda>p. Ret (close_pipe p (f_writable ff \<noteq> 0) s))
                | FD_INODE \<Rightarrow>
                    kbind (begin_op s) (\<lambda>s. kbind (deref (f_ip ff)) (\<lambda>ip. kbind (iput ip s) end_op))
                | FD_NONE \<Rightarrow> Ret s)"

definition filestat :: "nat \<Rightarrow> 'a kstate_scheme \<Rightarrow> (stat option \<times> 'a kstate_scheme) outcome" where
  "filestat f s =
     (if f_type (fil f s) = FD_INODE then
        kbind (deref (f_ip (fil f s))) (\<lambda>ip.
        kbind (ilock ip s) (\<lambda>s.
          let st = stati ip s in kbind (iunlock ip s) (\<lambda>s. Ret (Some st, s))))
      else Ret (None, s))"

text \<open>\<open>fileread\<close>: the result and the bytes it stores at \<open>addr\<close>.\<close>

definition fileread :: "nat \<Rightarrow> int \<Rightarrow> 'a kstate_scheme \<Rightarrow> (int \<times> byte list \<times> 'a kstate_scheme) outcome" where
  "fileread f n s =
     (if f_readable (fil f s) = 0 then Ret (-1, [], s)
      else case f_type (fil f s) of
        FD_PIPE \<Rightarrow>
          kbind (deref (f_pipe (fil f s))) (\<lambda>p.
            case piperead (pipes s p) n (pkilled s) of
              (bytes, pi, chans, res) \<Rightarrow>
                (case res of
                   Sleeping \<Rightarrow> Sleep
                 | Returned r \<Rightarrow> Ret (r, bytes, s\<lparr>pipes := (pipes s)(p := pi)\<rparr>)))
      | FD_INODE \<Rightarrow>
          kbind (deref (f_ip (fil f s))) (\<lambda>ip.
          kbind (ilock ip s) (\<lambda>s.
          kbind (readi ip (f_off (fil f s)) (nat (n mod 4294967296)) s) (\<lambda>(r, bytes, s).
            let s = (if r > 0 then upd_file f (\<lambda>x. x\<lparr>f_off := u32 (f_off x + nat r)\<rparr>) s else s)
            in kbind (iunlock ip s) (\<lambda>s. Ret (r, bytes, s)))))
      | FD_NONE \<Rightarrow> Panic ''fileread'')"

text \<open>
  \<open>fileseek (f, 0, SEEK_END)\<close>, as \<open>filewrite\<close> calls it with the inode locked; that it is
  this case of \<open>fileseek\<close> below is the lemma \<open>fileseek_end\<close>.
\<close>

definition seek_end :: "nat \<Rightarrow> nat \<Rightarrow> 'a kstate_scheme \<Rightarrow> 'a kstate_scheme" where
  "seek_end f ip s =
     (if s32 (di_size (i_copy (ino ip s))) < 0 then s
      else upd_file f (\<lambda>x. x\<lparr>f_off := di_size (i_copy (ino ip s))\<rparr>) s)"

definition WRITE_MAX :: nat where "WRITE_MAX = ((10 - 1 - 1 - 2) div 2) * 512"

text \<open>The loop of \<open>filewrite\<close> over the bytes that are left.\<close>

function write_chunks :: "nat \<Rightarrow> nat \<Rightarrow> byte list \<Rightarrow> 'a kstate_scheme \<Rightarrow> (bool \<times> 'a kstate_scheme) outcome" where
  "write_chunks f ip [] s = Ret (True, s)"
| "write_chunks f ip (x # xs) s =
     (let src = take WRITE_MAX (x # xs)
      in kbind (begin_op s) (\<lambda>s.
         kbind (ilock ip s) (\<lambda>s.
           let s = (if f_writable (fil f s) AND 2 \<noteq> 0 then seek_end f ip s else s)
           in kbind (writei ip src (f_off (fil f s)) s) (\<lambda>(r, s).
                let s = (if r > 0 then upd_file f (\<lambda>x. x\<lparr>f_off := u32 (f_off x + nat r)\<rparr>) s else s)
                in kbind (iunlock ip s) (\<lambda>s.
                   kbind (end_op s) (\<lambda>s.
                     if r < 0 then Ret (False, s)
                     else if r \<noteq> int (length src) then Panic ''short filewrite''
                     else write_chunks f ip (drop WRITE_MAX (x # xs)) s))))))"
  by pat_completeness auto
termination by (relation "measure (\<lambda>(f, ip, xs, s). length xs)") (auto simp: WRITE_MAX_def)

text \<open>\<open>filewrite\<close> of the bytes \<open>src\<close>; a pipe write takes them as a pointer and a count.\<close>

definition filewrite :: "nat \<Rightarrow> byte list \<Rightarrow> 'a kstate_scheme \<Rightarrow> (int \<times> 'a kstate_scheme) outcome" where
  "filewrite f src s =
     (if f_writable (fil f s) = 0 then Ret (-1, s)
      else case f_type (fil f s) of
        FD_PIPE \<Rightarrow>
          kbind (deref (f_pipe (fil f s))) (\<lambda>p.
            case pipewrite (pipes s p) (cptr_of src) (int (length src)) (pkilled s) 0 of
              (pi, i, chans, res) \<Rightarrow>
                (case res of
                   Sleeping \<Rightarrow> Sleep
                 | Returned r \<Rightarrow> Ret (r, s\<lparr>pipes := (pipes s)(p := pi)\<rparr>)))
      | FD_INODE \<Rightarrow>
          kbind (deref (f_ip (fil f s))) (\<lambda>ip.
          kbind (write_chunks f ip src s) (\<lambda>(ok, s). Ret (if ok then int (length src) else -1, s)))
      | FD_NONE \<Rightarrow> Panic ''filewrite'')"

section \<open>Seeking\<close>

definition SEEK_SET :: int where "SEEK_SET = 1"
definition SEEK_CUR :: int where "SEEK_CUR = 2"
definition SEEK_END :: int where "SEEK_END = 4"

text \<open>Filling the hole with pages of NULs; the results of \<open>filewrite\<close> are not looked at.\<close>

function fill_hole :: "nat \<Rightarrow> int \<Rightarrow> 'a kstate_scheme \<Rightarrow> 'a kstate_scheme outcome" where
  "fill_hole f new_fbytes s =
     (if new_fbytes > 0 then
        kbind (filewrite f (replicate (nat (min new_fbytes 4096)) 0) s) (\<lambda>(r, s).
          fill_hole f (new_fbytes - 4096) s)
      else Ret s)"
  by pat_completeness auto
termination by (relation "measure (\<lambda>(f, n, s). nat n)") auto

declare fill_hole.simps [simp del]

definition fileseek :: "nat \<Rightarrow> int \<Rightarrow> int \<Rightarrow> 'a kstate_scheme \<Rightarrow> (int \<times> 'a kstate_scheme) outcome" where
  "fileseek f offset whence s =
     (if whence \<notin> {SEEK_SET, SEEK_CUR, SEEK_END} then Ret (-1, s)
      else kbind (if whence = SEEK_SET then Ret (s32 (nat (offset mod 4294967296)))
             else if whence = SEEK_CUR then Ret (s32 (nat ((int (f_off (fil f s)) + offset) mod 4294967296)))
             else kbind (deref (f_ip (fil f s))) (\<lambda>ip.
               Ret (s32 (nat ((int (di_size (i_copy (ino ip s))) + offset) mod 4294967296))))) (\<lambda>tot_offset.
        if tot_offset < 0 then Ret (-1, s)
        else kbind (deref (f_ip (fil f s))) (\<lambda>ip.
          let sz = di_size (i_copy (ino ip s))
          in kbind (if tot_offset > int sz then
                 (case get_page s of
                    (None, s) \<Rightarrow> Panic ''null pointer''
                  | (Some pg, s) \<Rightarrow>
                      kbind (fill_hole f (tot_offset - int sz) (upd_file f (\<lambda>x. x\<lparr>f_off := sz\<rparr>) s)) (\<lambda>s.
                        Ret (put_page pg s)))
               else Ret s) (\<lambda>s.
             Ret (tot_offset, upd_file f (\<lambda>x. x\<lparr>f_off := nat tot_offset\<rparr>) s)))))"

lemma fileseek_end:
  assumes "f_ip (fil f s) = Some ip" and "di_size (i_copy (ino ip s)) < 4294967296"
  shows "\<exists>r. fileseek f 0 SEEK_END s = Ret (r, seek_end f ip s)"
  using assms by (auto simp: fileseek_def seek_end_def deref_def s32_def SEEK_SET_def SEEK_CUR_def SEEK_END_def Let_def)

section \<open>Pipes as files\<close>

text \<open>The two \<open>struct file\<close> of a new pipe in page \<open>p\<close>.\<close>

definition pipealloc :: "'a kstate_scheme \<Rightarrow> ((nat \<times> nat) option \<times> 'a kstate_scheme) outcome" where
  "pipealloc s =
     (case filealloc s of
        (None, s) \<Rightarrow> Ret (None, s)
      | (Some f0, s) \<Rightarrow>
          (case filealloc s of
             (None, s) \<Rightarrow> kbind (fileclose f0 s) (\<lambda>s. Ret (None, s))
           | (Some f1, s) \<Rightarrow>
               (case get_page s of
                  (None, s) \<Rightarrow> kbind (fileclose f0 s) (\<lambda>s. kbind (fileclose f1 s) (\<lambda>s. Ret (None, s)))
                | (Some p, s) \<Rightarrow>
                    let s = s\<lparr>pipes := (pipes s)(p := new_pipe (pdata (pipes s p)))\<rparr>;
                        s = upd_file f0 (\<lambda>x. x\<lparr>f_type := FD_PIPE, f_readable := 1, f_writable := 0, f_pipe := Some p\<rparr>) s;
                        s = upd_file f1 (\<lambda>x. x\<lparr>f_type := FD_PIPE, f_readable := 0, f_writable := 1, f_pipe := Some p\<rparr>) s
                    in Ret (Some (f0, f1), s))))"

end
