(* ===== verification/Sysfile.thy ===== *)
theory Sysfile
  imports File
begin

text \<open>
  The file-system calls (\<open>sysfile.c\<close>) with the fetching of their arguments from user
  memory (\<open>syscall.c\<close>), as compiled with the Makefile's \<open>SYMLINK\<close>, \<open>LSEEK\<close>,
  \<open>TRUNC_FILE\<close> and \<open>APPEND_FILE\<close>. Every call takes its arguments from the user stack
  and returns its result with the state.
\<close>

section \<open>Arguments\<close>

definition fetchint :: "nat \<Rightarrow> 'a kstate_scheme \<Rightarrow> int option" where
  "fetchint addr s =
     (if addr \<ge> usz s \<or> u32 (addr + 4) > usz s then None
      else Some (s32 (le_dec (map (\<lambda>i. umem s (addr + i)) [0..<4]))))"

text \<open>The string at \<open>addr\<close>: the bytes before its NUL.\<close>

definition fetchstr :: "nat \<Rightarrow> 'a kstate_scheme \<Rightarrow> byte list option" where
  "fetchstr addr s =
     (if addr \<ge> usz s then None
      else case find (\<lambda>a. umem s a = 0) [addr..<usz s] of
             None \<Rightarrow> None
           | Some e \<Rightarrow> Some (map (umem s) [addr..<e]))"

definition argint :: "nat \<Rightarrow> 'a kstate_scheme \<Rightarrow> int option" where
  "argint n s = fetchint (u32 (uesp s + 4 + 4 * n)) s"

definition to_uint :: "int \<Rightarrow> nat" where
  "to_uint i = nat (i mod 4294967296)"

definition argptr :: "nat \<Rightarrow> int \<Rightarrow> 'a kstate_scheme \<Rightarrow> nat option" where
  "argptr n len s =
     (case argint n s of
        None \<Rightarrow> None
      | Some i \<Rightarrow>
          if len < 0 \<or> to_uint i \<ge> usz s \<or> u32 (to_uint i + to_uint len) > usz s then None
          else Some (to_uint i))"

definition argstr :: "nat \<Rightarrow> 'a kstate_scheme \<Rightarrow> byte list option" where
  "argstr n s = (case argint n s of None \<Rightarrow> None | Some addr \<Rightarrow> fetchstr (to_uint addr) s)"

text \<open>The descriptor and its file.\<close>

definition argfd :: "nat \<Rightarrow> 'a kstate_scheme \<Rightarrow> (nat \<times> nat) option" where
  "argfd n s =
     (case argint n s of
        None \<Rightarrow> None
      | Some fd \<Rightarrow>
          if fd < 0 \<or> fd \<ge> NOFILE then None
          else map_option (\<lambda>f. (nat fd, f)) (ofile s ! nat fd))"

definition store_user :: "nat \<Rightarrow> byte list \<Rightarrow> 'a kstate_scheme \<Rightarrow> 'a kstate_scheme" where
  "store_user p bytes s =
     s\<lparr>umem := (\<lambda>a. if p \<le> a \<and> a < p + length bytes then bytes ! (a - p) else umem s a)\<rparr>"

section \<open>Descriptors\<close>

definition fdalloc :: "nat \<Rightarrow> 'a kstate_scheme \<Rightarrow> nat option \<times> 'a kstate_scheme" where
  "fdalloc f s =
     (case find (\<lambda>fd. ofile s ! fd = None) [0..<nat NOFILE] of
        Some fd \<Rightarrow> (Some fd, s\<lparr>ofile := (ofile s)[fd := Some f]\<rparr>)
      | None \<Rightarrow> (None, s))"

definition sys_dup :: "'a kstate_scheme \<Rightarrow> (int \<times> 'a kstate_scheme) outcome" where
  "sys_dup s =
     (case argfd 0 s of
        None \<Rightarrow> Ret (-1, s)
      | Some (fd0, f) \<Rightarrow>
          (case fdalloc f s of
             (None, s) \<Rightarrow> Ret (-1, s)
           | (Some fd, s) \<Rightarrow> kbind (filedup f s) (\<lambda>s. Ret (int fd, s))))"

definition sys_read :: "'a kstate_scheme \<Rightarrow> (int \<times> 'a kstate_scheme) outcome" where
  "sys_read s =
     (case (argfd 0 s, argint 2 s) of
        (Some (fd, f), Some n) \<Rightarrow>
          (case argptr 1 n s of
             None \<Rightarrow> Ret (-1, s)
           | Some p \<Rightarrow> kbind (fileread f n s) (\<lambda>(r, bytes, s). Ret (r, store_user p bytes s)))
      | _ \<Rightarrow> Ret (-1, s))"

definition sys_write :: "'a kstate_scheme \<Rightarrow> (int \<times> 'a kstate_scheme) outcome" where
  "sys_write s =
     (case (argfd 0 s, argint 2 s) of
        (Some (fd, f), Some n) \<Rightarrow>
          (case argptr 1 n s of
             None \<Rightarrow> Ret (-1, s)
           | Some p \<Rightarrow> filewrite f (map (umem s) [p..<p + nat n]) s)
      | _ \<Rightarrow> Ret (-1, s))"

definition sys_close :: "'a kstate_scheme \<Rightarrow> (int \<times> 'a kstate_scheme) outcome" where
  "sys_close s =
     (case argfd 0 s of
        None \<Rightarrow> Ret (-1, s)
      | Some (fd, f) \<Rightarrow> kbind (fileclose f (s\<lparr>ofile := (ofile s)[fd := None]\<rparr>)) (\<lambda>s. Ret (0, s)))"

text \<open>Storing a \<open>struct stat\<close>: 20 bytes, the fields at their offsets.\<close>

definition store_stat :: "nat \<Rightarrow> stat \<Rightarrow> 'a kstate_scheme \<Rightarrow> 'a kstate_scheme" where
  "store_stat p st s =
     store_user (p + 16) (le_enc 4 (st_size st)) (store_user (p + 12) (enc_short (st_nlink st))
       (store_user (p + 8) (le_enc 4 (st_ino st)) (store_user (p + 4) (le_enc 4 (st_dev st))
         (store_user p (enc_short (st_type st)) s))))"

definition sys_fstat :: "'a kstate_scheme \<Rightarrow> (int \<times> 'a kstate_scheme) outcome" where
  "sys_fstat s =
     (case (argfd 0 s, argptr 1 20 s) of
        (Some (fd, f), Some p) \<Rightarrow>
          kbind (filestat f s) (\<lambda>(st, s).
            case st of None \<Rightarrow> Ret (-1, s) | Some st \<Rightarrow> Ret (0, store_stat p st s))
      | _ \<Rightarrow> Ret (-1, s))"

section \<open>Links\<close>

text \<open>\<open>ip->nlink++\<close> and \<open>ip->nlink--\<close> on a \<open>short\<close>.\<close>

definition add_nlink :: "int \<Rightarrow> nat \<Rightarrow> 'a kstate_scheme \<Rightarrow> 'a kstate_scheme" where
  "add_nlink k ip = upd_copy ip (\<lambda>d. d\<lparr>di_nlink := s16 (nat ((di_nlink d + k) mod 65536))\<rparr>)"

text \<open>The label \<open>bad\<close> of \<open>sys_link\<close>.\<close>

definition link_bad :: "nat \<Rightarrow> 'a kstate_scheme \<Rightarrow> (int \<times> 'a kstate_scheme) outcome" where
  "link_bad ip s =
     kbind (ilock ip s) (\<lambda>s.
     kbind (iupdate ip (add_nlink (-1) ip s)) (\<lambda>s.
     kbind (iunlockput ip s) (\<lambda>s.
     kbind (end_op s) (\<lambda>s. Ret (-1, s)))))"

definition sys_link :: "'a kstate_scheme \<Rightarrow> (int \<times> 'a kstate_scheme) outcome" where
  "sys_link s =
     (case (argstr 0 s, argstr 1 s) of
        (Some old, Some new) \<Rightarrow>
          kbind (begin_op s) (\<lambda>s.
          kbind (namei old s) (\<lambda>(ip, s).
            case ip of
              None \<Rightarrow> kbind (end_op s) (\<lambda>s. Ret (-1, s))
            | Some ip \<Rightarrow>
                kbind (ilock ip s) (\<lambda>s.
                  if di_type (i_copy (ino ip s)) = T_DIR then
                    kbind (iunlockput ip s) (\<lambda>s. kbind (end_op s) (\<lambda>s. Ret (-1, s)))
                  else
                    kbind (iupdate ip (add_nlink 1 ip s)) (\<lambda>s.
                    kbind (iunlock ip s) (\<lambda>s.
                    kbind (nameiparent new s) (\<lambda>(dp, name, s).
                      case dp of
                        None \<Rightarrow> link_bad ip s
                      | Some dp \<Rightarrow>
                          kbind (ilock dp s) (\<lambda>s.
                          kbind (if i_dev (ino dp s) \<noteq> i_dev (ino ip s) then Ret (-1, s)
                                 else dirlink dp name (i_inum (ino ip s)) s) (\<lambda>(r, s).
                          kbind (iunlockput dp s) (\<lambda>s.
                            if r < 0 then link_bad ip s
                            else kbind (iput ip s) (\<lambda>s. kbind (end_op s) (\<lambda>s. Ret (0, s)))))))))))) 
      | _ \<Rightarrow> Ret (-1, s))"

primrec dirempty_scan :: "nat \<Rightarrow> nat list \<Rightarrow> 'a kstate_scheme \<Rightarrow> (bool \<times> 'a kstate_scheme) outcome" where
  "dirempty_scan dp [] s = Ret (True, s)"
| "dirempty_scan dp (off # offs) s =
     kbind (read_dirent ''isdirempty: readi'' dp off s) (\<lambda>(de, s).
       if de_inum de \<noteq> 0 then Ret (False, s) else dirempty_scan dp offs s)"

definition isdirempty :: "nat \<Rightarrow> 'a kstate_scheme \<Rightarrow> (bool \<times> 'a kstate_scheme) outcome" where
  "isdirempty dp s = dirempty_scan dp (drop 2 (dir_offsets (di_size (i_copy (ino dp s))))) s"

text \<open>The label \<open>bad\<close> of \<open>sys_unlink\<close>.\<close>

definition unlink_bad :: "nat \<Rightarrow> 'a kstate_scheme \<Rightarrow> (int \<times> 'a kstate_scheme) outcome" where
  "unlink_bad dp s = kbind (iunlockput dp s) (\<lambda>s. kbind (end_op s) (\<lambda>s. Ret (-1, s)))"

definition sys_unlink :: "'a kstate_scheme \<Rightarrow> (int \<times> 'a kstate_scheme) outcome" where
  "sys_unlink s =
     (case argstr 0 s of
        None \<Rightarrow> Ret (-1, s)
      | Some path \<Rightarrow>
          kbind (begin_op s) (\<lambda>s.
          kbind (nameiparent path s) (\<lambda>(dp, name, s).
            case dp of
              None \<Rightarrow> kbind (end_op s) (\<lambda>s. Ret (-1, s))
            | Some dp \<Rightarrow>
                kbind (ilock dp s) (\<lambda>s.
                  if namecmp name [46] = 0 \<or> namecmp name [46, 46] = 0 then unlink_bad dp s
                  else kbind (dirlookup dp name s) (\<lambda>(found, s).
                    case found of
                      None \<Rightarrow> unlink_bad dp s
                    | Some (ip, off) \<Rightarrow>
                        kbind (ilock ip s) (\<lambda>s.
                          if di_nlink (i_copy (ino ip s)) < 1 then Panic ''unlink: nlink < 1''
                          else
                            kbind (if di_type (i_copy (ino ip s)) = T_DIR then isdirempty ip s else Ret (True, s)) (\<lambda>(ok, s).
                              if \<not> ok then kbind (iunlockput ip s) (unlink_bad dp)
                              else
                                kbind (writei dp (replicate DIRENT 0) off s) (\<lambda>(r, s).
                                  if r \<noteq> int DIRENT then Panic ''unlink: writei''
                                  else
                                    kbind (if di_type (i_copy (ino ip s)) = T_DIR then iupdate dp (add_nlink (-1) dp s)
                                           else Ret s) (\<lambda>s.
                                    kbind (iunlockput dp s) (\<lambda>s.
                                    kbind (iupdate ip (add_nlink (-1) ip s)) (\<lambda>s.
                                    kbind (iunlockput ip s) (\<lambda>s.
                                    kbind (end_op s) (\<lambda>s. Ret (0, s)))))))))))))) "

section \<open>Creating\<close>

text \<open>The entries \<open>.\<close> and \<open>..\<close> of a new directory.\<close>

definition create_dots :: "nat \<Rightarrow> nat \<Rightarrow> 'a kstate_scheme \<Rightarrow> 'a kstate_scheme outcome" where
  "create_dots dp ip s =
     kbind (iupdate dp (add_nlink 1 dp s)) (\<lambda>s.
     kbind (dirlink ip [46] (i_inum (ino ip s)) s) (\<lambda>(r, s).
       if r < 0 then Panic ''create dots''
       else kbind (dirlink ip [46, 46] (i_inum (ino dp s)) s) (\<lambda>(r, s).
         if r < 0 then Panic ''create dots'' else Ret s)))"

definition create :: "byte list \<Rightarrow> int \<Rightarrow> int \<Rightarrow> int \<Rightarrow> 'a kstate_scheme \<Rightarrow> (nat option \<times> 'a kstate_scheme) outcome" where
  "create path ty major minor s =
     kbind (nameiparent path s) (\<lambda>(dp, name, s).
       case dp of
         None \<Rightarrow> Ret (None, s)
       | Some dp \<Rightarrow>
           kbind (ilock dp s) (\<lambda>s.
           kbind (dirlookup dp name s) (\<lambda>(found, s).
             case found of
               Some (ip, off) \<Rightarrow>
                 kbind (iunlockput dp s) (\<lambda>s.
                 kbind (ilock ip s) (\<lambda>s.
                   if ty = T_FILE \<and> di_type (i_copy (ino ip s)) = T_FILE then Ret (Some ip, s)
                   else kbind (iunlockput ip s) (\<lambda>s. Ret (None, s))))
             | None \<Rightarrow>
                 kbind (ialloc (i_dev (ino dp s)) ty s) (\<lambda>(ip, s).
                 kbind (ilock ip s) (\<lambda>s.
                 kbind (iupdate ip (upd_copy ip (\<lambda>d. d\<lparr>di_major := major, di_minor := minor, di_nlink := 1\<rparr>) s)) (\<lambda>s.
                 kbind (if ty = T_DIR then create_dots dp ip s else Ret s) (\<lambda>s.
                 kbind (dirlink dp name (i_inum (ino ip s)) s) (\<lambda>(r, s).
                   if r < 0 then Panic ''create: dirlink''
                   else kbind (iunlockput dp s) (\<lambda>s. Ret (Some ip, s)))))))))) "

definition sys_symlink :: "'a kstate_scheme \<Rightarrow> (int \<times> 'a kstate_scheme) outcome" where
  "sys_symlink s =
     (case (argstr 0 s, argstr 1 s) of
        (Some old, Some new) \<Rightarrow>
          kbind (begin_op s) (\<lambda>s.
          kbind (create new T_SYMLINK 0 0 s) (\<lambda>(ip, s).
            case ip of
              None \<Rightarrow> kbind (end_op s) (\<lambda>s. Ret (-1, s))
            | Some ip \<Rightarrow>
                kbind (writei ip old 0 s) (\<lambda>(r, s).
                kbind (iunlockput ip s) (\<lambda>s.
                kbind (end_op s) (\<lambda>s. Ret (0, s))))))
      | _ \<Rightarrow> Ret (-1, s))"

definition sys_mkdir :: "'a kstate_scheme \<Rightarrow> (int \<times> 'a kstate_scheme) outcome" where
  "sys_mkdir s =
     kbind (begin_op s) (\<lambda>s.
     kbind (case argstr 0 s of None \<Rightarrow> Ret (None, s) | Some path \<Rightarrow> create path T_DIR 0 0 s) (\<lambda>(ip, s).
       case ip of
         None \<Rightarrow> kbind (end_op s) (\<lambda>s. Ret (-1, s))
       | Some ip \<Rightarrow> kbind (iunlockput ip s) (\<lambda>s. kbind (end_op s) (\<lambda>s. Ret (0, s)))))"

text \<open>The \<open>int\<close> arguments become \<open>short\<close>.\<close>

definition sys_mknod :: "'a kstate_scheme \<Rightarrow> (int \<times> 'a kstate_scheme) outcome" where
  "sys_mknod s =
     kbind (begin_op s) (\<lambda>s.
     kbind (case (argstr 0 s, argint 1 s, argint 2 s) of
              (Some path, Some major, Some minor) \<Rightarrow>
                create path T_DEV (s16 (nat (major mod 65536))) (s16 (nat (minor mod 65536))) s
            | _ \<Rightarrow> Ret (None, s)) (\<lambda>(ip, s).
       case ip of
         None \<Rightarrow> kbind (end_op s) (\<lambda>s. Ret (-1, s))
       | Some ip \<Rightarrow> kbind (iunlockput ip s) (\<lambda>s. kbind (end_op s) (\<lambda>s. Ret (0, s)))))"

section \<open>Opening and following symbolic links\<close>

definition MAX_DEPTH :: nat where "MAX_DEPTH = 5"
definition MAX_FILE_NAME :: nat where "MAX_FILE_NAME = 64"

text \<open>
  The name a link holds: 64 bytes of NULs over which its contents are read. A name with
  no NUL runs past the array.
\<close>

definition link_name :: "nat \<Rightarrow> 'a kstate_scheme \<Rightarrow> (byte list \<times> 'a kstate_scheme) outcome" where
  "link_name ip s =
     kbind (readi ip 0 MAX_FILE_NAME s) (\<lambda>(r, bytes, s).
       let name = overwrite (replicate MAX_FILE_NAME 0) 0 bytes
       in if 0 \<in> set name then Ret (takeWhile (\<lambda>c. c \<noteq> 0) name, s) else Panic ''out of bounds'')"

text \<open>
  The loop that \<open>sys_open\<close> and \<open>sys_exec\<close> share; \<open>None\<close> is the return of -1, after
  \<open>end_op\<close>. The last name read is returned too. A null \<open>ip\<close> is caught before it is locked.
\<close>

function follow_links :: "nat \<Rightarrow> nat \<Rightarrow> byte list \<Rightarrow> 'a kstate_scheme \<Rightarrow>
    ((nat \<times> byte list) option \<times> 'a kstate_scheme) outcome" where
  "follow_links depth ip name s =
     (if depth < MAX_DEPTH \<and> di_type (i_copy (ino ip s)) = T_SYMLINK then
        kbind (link_name ip s) (\<lambda>(name, s).
        kbind (iunlock ip s) (\<lambda>s.
        kbind (namei name s) (\<lambda>(next, s).
          case next of
            None \<Rightarrow> kbind (end_op s) (\<lambda>s. Ret (None, s))
          | Some ip \<Rightarrow>
              kbind (ilock ip s) (\<lambda>s.
                if depth + 1 \<ge> MAX_DEPTH then
                  kbind (iunlock ip s) (\<lambda>s. kbind (end_op s) (\<lambda>s. Ret (None, s)))
                else follow_links (depth + 1) ip name s))))
      else Ret (Some (ip, name), s))"
  by pat_completeness auto
termination by (relation "measure (\<lambda>(depth, ip, name, s). MAX_DEPTH - depth)") auto

declare follow_links.simps [simp del]

definition O_WRONLY :: int where "O_WRONLY = 0x001"
definition O_RDWR :: int where "O_RDWR = 0x002"
definition O_CREATE :: int where "O_CREATE = 0x200"
definition O_TRUNC :: int where "O_TRUNC = 0x1000"
definition O_APPEND :: int where "O_APPEND = 0x2000"
definition O_NODEREF :: int where "O_NODEREF = 0x4000"

text \<open>The fields of the new \<open>struct file\<close>.\<close>

definition open_file :: "int \<Rightarrow> nat \<Rightarrow> kfile \<Rightarrow> kfile" where
  "open_file omode ip x =
     (let w = (if omode AND O_WRONLY \<noteq> 0 \<or> omode AND O_RDWR \<noteq> 0 then 1 else 0)
      in x\<lparr>f_type := FD_INODE, f_ip := Some ip, f_off := 0,
           f_readable := (if omode AND O_WRONLY = 0 then 1 else 0),
           f_writable := w OR (if w \<noteq> 0 \<and> omode AND O_APPEND \<noteq> 0 then 2 else 0)\<rparr>)"

text \<open>From the open inode, locked, to the descriptor.\<close>

definition open_finish :: "int \<Rightarrow> nat \<Rightarrow> 'a kstate_scheme \<Rightarrow> (int \<times> 'a kstate_scheme) outcome" where
  "open_finish omode ip s =
     kbind (if di_type (i_copy (ino ip s)) = T_FILE \<and> (omode AND O_WRONLY \<noteq> 0 \<or> omode AND O_RDWR \<noteq> 0) \<and>
              omode AND O_TRUNC \<noteq> 0 then itruncfile ip s else Ret s) (\<lambda>s.
       case filealloc s of
         (None, s) \<Rightarrow> kbind (iunlockput ip s) (\<lambda>s. kbind (end_op s) (\<lambda>s. Ret (-1, s)))
       | (Some f, s) \<Rightarrow>
           (case fdalloc f s of
              (None, s) \<Rightarrow>
                kbind (fileclose f s) (\<lambda>s.
                kbind (iunlockput ip s) (\<lambda>s. kbind (end_op s) (\<lambda>s. Ret (-1, s))))
            | (Some fd, s) \<Rightarrow>
                kbind (iunlock ip s) (\<lambda>s.
                kbind (end_op s) (\<lambda>s. Ret (int fd, upd_file f (open_file omode ip) s)))))"

definition sys_open :: "'a kstate_scheme \<Rightarrow> (int \<times> 'a kstate_scheme) outcome" where
  "sys_open s =
     (case (argstr 0 s, argint 1 s) of
        (Some path, Some omode) \<Rightarrow>
          kbind (begin_op s) (\<lambda>s.
          kbind (if omode AND O_CREATE \<noteq> 0 then create path T_FILE 0 0 s
                 else kbind (namei path s) (\<lambda>(ip, s).
                   case ip of
                     None \<Rightarrow> Ret (None, s)
                   | Some ip \<Rightarrow>
                       kbind (ilock ip s) (\<lambda>s.
                         if di_type (i_copy (ino ip s)) = T_DIR \<and> omode AND 0 \<noteq> 0
                         then kbind (iunlockput ip s) (\<lambda>s. Ret (None, s))
                         else Ret (Some ip, s)))) (\<lambda>(ip, s).
            case ip of
              None \<Rightarrow> kbind (end_op s) (\<lambda>s. Ret (-1, s))
            | Some ip \<Rightarrow>
                kbind (if omode AND O_NODEREF \<noteq> 0 then Ret (Some (ip, []), s) else follow_links 1 ip [] s) (\<lambda>(res, s).
                  case res of
                    None \<Rightarrow> Ret (-1, s)
                  | Some (ip, name) \<Rightarrow> open_finish omode ip s)))
      | _ \<Rightarrow> Ret (-1, s))"

definition sys_chdir :: "'a kstate_scheme \<Rightarrow> (int \<times> 'a kstate_scheme) outcome" where
  "sys_chdir s =
     kbind (begin_op s) (\<lambda>s.
     kbind (case argstr 0 s of None \<Rightarrow> Ret (None, s) | Some path \<Rightarrow> namei path s) (\<lambda>(ip, s).
       case ip of
         None \<Rightarrow> kbind (end_op s) (\<lambda>s. Ret (-1, s))
       | Some ip \<Rightarrow>
           kbind (ilock ip s) (\<lambda>s.
             if di_type (i_copy (ino ip s)) \<noteq> T_DIR then
               kbind (iunlockput ip s) (\<lambda>s. kbind (end_op s) (\<lambda>s. Ret (-1, s)))
             else
               kbind (iunlock ip s) (\<lambda>s.
               kbind (iput (cwd s) s) (\<lambda>s.
               kbind (end_op s) (\<lambda>s. Ret (0, s\<lparr>cwd := ip\<rparr>)))))))"

section \<open>exec and pipe\<close>

definition MAXARG :: nat where "MAXARG = 32"

text \<open>The argument vector at \<open>uargv\<close>, from entry \<open>i\<close>; \<open>None\<close> is the return of -1.\<close>

function fetch_argv :: "nat \<Rightarrow> nat \<Rightarrow> 'a kstate_scheme \<Rightarrow> byte list list option" where
  "fetch_argv uargv i s =
     (if i \<ge> MAXARG then None
      else case fetchint (u32 (uargv + 4 * i)) s of
             None \<Rightarrow> None
           | Some uarg \<Rightarrow>
               if uarg = 0 then Some []
               else case fetchstr (to_uint uarg) s of
                      None \<Rightarrow> None
                    | Some arg \<Rightarrow> map_option ((#) arg) (fetch_argv uargv (i + 1) s))"
  by pat_completeness auto
termination by (relation "measure (\<lambda>(u, i, s). MAXARG - i)") auto

declare fetch_argv.simps [simp del]

text \<open>
  \<open>sys_exec\<close> up to its call of \<open>exec\<close>: the arguments of that call, or the return of -1.
  A path that is no link is cut to 63 bytes by \<open>safestrcpy\<close>.
\<close>

definition exec_args :: "'a kstate_scheme \<Rightarrow> ((byte list \<times> byte list list) option \<times> 'a kstate_scheme) outcome" where
  "exec_args s =
     (case (argstr 0 s, argint 1 s) of
        (Some path, Some uargv) \<Rightarrow>
          (case fetch_argv (to_uint uargv) 0 s of
             None \<Rightarrow> Ret (None, s)
           | Some argv \<Rightarrow>
               kbind (begin_op s) (\<lambda>s.
               kbind (namei path s) (\<lambda>(ip, s).
                 case ip of
                   None \<Rightarrow> kbind (end_op s) (\<lambda>s. Ret (None, s))
                 | Some ip \<Rightarrow>
                     kbind (ilock ip s) (\<lambda>s.
                     kbind (if di_type (i_copy (ino ip s)) = T_SYMLINK then follow_links 1 ip [] s
                            else Ret (Some (ip, take (MAX_FILE_NAME - 1) path), s)) (\<lambda>(res, s).
                       case res of
                         None \<Rightarrow> Ret (None, s)
                       | Some (ip, name) \<Rightarrow>
                           kbind (iunlock ip s) (\<lambda>s. kbind (end_op s) (\<lambda>s. Ret (Some (name, argv), s))))))))
      | _ \<Rightarrow> Ret (None, s))"

definition sys_exec :: "(byte list \<Rightarrow> byte list list \<Rightarrow> 'a kstate_scheme \<Rightarrow> (int \<times> 'a kstate_scheme) outcome) \<Rightarrow>
    'a kstate_scheme \<Rightarrow> (int \<times> 'a kstate_scheme) outcome" where
  "sys_exec exec s =
     kbind (exec_args s) (\<lambda>(args, s).
       case args of None \<Rightarrow> Ret (-1, s) | Some (path, argv) \<Rightarrow> exec path argv s)"

text \<open>Closing both ends when there is no descriptor.\<close>

definition pipe_bad :: "nat \<Rightarrow> nat \<Rightarrow> 'a kstate_scheme \<Rightarrow> (int \<times> 'a kstate_scheme) outcome" where
  "pipe_bad rf wfl s = kbind (fileclose rf s) (\<lambda>s. kbind (fileclose wfl s) (\<lambda>s. Ret (-1, s)))"

definition sys_pipe :: "'a kstate_scheme \<Rightarrow> (int \<times> 'a kstate_scheme) outcome" where
  "sys_pipe s =
     (case argptr 0 8 s of
        None \<Rightarrow> Ret (-1, s)
      | Some p \<Rightarrow>
          kbind (pipealloc s) (\<lambda>(ends, s).
            case ends of
              None \<Rightarrow> Ret (-1, s)
            | Some (rf, wfl) \<Rightarrow>
                (case fdalloc rf s of
                   (None, s) \<Rightarrow> pipe_bad rf wfl s
                 | (Some fd0, s) \<Rightarrow>
                     (case fdalloc wfl s of
                        (None, s) \<Rightarrow> pipe_bad rf wfl (s\<lparr>ofile := (ofile s)[fd0 := None]\<rparr>)
                      | (Some fd1, s) \<Rightarrow> Ret (0, store_user (p + 4) (le_enc 4 fd1) (store_user p (le_enc 4 fd0) s))))))"

definition sys_lseek :: "'a kstate_scheme \<Rightarrow> (int \<times> 'a kstate_scheme) outcome" where
  "sys_lseek s =
     (case (argfd 0 s, argint 1 s, argint 2 s) of
        (Some (fd, f), Some offset, Some whence) \<Rightarrow> fileseek f offset whence s
      | _ \<Rightarrow> Ret (-1, s))"

end
