(* ===== verification/Proc.thy ===== *)
theory Proc
  imports File Fs_Keep
begin

text \<open>
  The process table (\<open>proc.c\<close>): allocation of processes, sleeping and waking, process exit
  and the choice of the scheduler. A process is named by its index in \<open>ptable.proc\<close>. Each definition
  is the code between two switches of the processor; \<open>ptable.lock\<close> makes its accesses to
  the table one atomic step. The record of a process can be extended, and the state is
  parametric in it: the kernels of the repository add their own fields.

  A page directory is named by its page. What \<open>setupkvm\<close>, \<open>copyuvm\<close>, \<open>allocuvm\<close> and
  \<open>deallocuvm\<close> (\<open>vm.c\<close>) return is an argument of the operation that calls them: the table depends
  on nothing else of them. \<open>vspaces\<close> is the list of the page directories that exist.
\<close>

section \<open>Processes\<close>

definition NPROC :: nat where "NPROC = 64"
definition TRUE :: nat where "TRUE = 1"

datatype procstate = UNUSED | EMBRYO | SLEEPING | RUNNABLE | RUNNING | ZOMBIE

text \<open>What a process sleeps on: the address of a process, of \<open>ticks\<close> or of another kernel object.\<close>

datatype channel = Chan_Proc nat | Chan_Ticks | Chan_Obj nat

text \<open>Where \<open>swtch\<close> resumes a process: at \<open>forkret\<close>, or in its own call of \<open>sched\<close>.\<close>

datatype resume = Forkret | In_sched

record trapframe =
  tf_eax :: nat
  tf_eip :: nat
  tf_esp :: nat
  tf_cs :: nat
  tf_ds :: nat
  tf_es :: nat
  tf_ss :: nat
  tf_eflags :: nat
  tf_others :: "nat list"

record rtcdate =
  second :: nat
  minute :: nat
  hour :: nat
  day :: nat
  month :: nat
  year :: nat

record proc =
  p_sz :: nat
  p_pgdir :: "nat option"
  p_kstack :: "nat option"
  p_state :: procstate
  p_pid :: int
  p_parent :: "nat option"
  p_tf :: trapframe
  p_context :: resume
  p_chan :: "channel option"
  p_killed :: bool
  p_ofile :: "nat option list"
  p_cwd :: "nat option"
  p_name :: "byte list"
  begin_date :: rtcdate
  ticks_total :: nat
  ticks_begin :: nat
  sched_times :: nat

record 'p pstate = kstate +
  procs :: "'p list"
  nextpid :: int
  initproc :: nat
  ticks :: nat
  vspaces :: "nat list"

abbreviation prc :: "nat \<Rightarrow> ('p, 'b) pstate_scheme \<Rightarrow> 'p" where
  "prc i s \<equiv> procs s ! i"

definition upd_proc :: "nat \<Rightarrow> ('p \<Rightarrow> 'p) \<Rightarrow> ('p, 'b) pstate_scheme \<Rightarrow> ('p, 'b) pstate_scheme" where
  "upd_proc i f s = s\<lparr>procs := (procs s)[i := f (procs s ! i)]\<rparr>"

section \<open>Allocation\<close>

text \<open>The trap frame of a new process lies in a page that \<open>kfree\<close> has filled with ones.\<close>

definition junk_tf :: trapframe where
  "junk_tf = \<lparr>tf_eax = 16843009, tf_eip = 16843009, tf_esp = 16843009, tf_cs = 257, tf_ds = 257, tf_es = 257,
     tf_ss = 257, tf_eflags = 16843009, tf_others = []\<rparr>"

text \<open>\<open>allocproc\<close>; \<open>date\<close> is what \<open>cmostime\<close> reads, \<open>ext\<close> initialises the fields of the extension.\<close>

definition allocproc_with :: "(('a proc_scheme) \<Rightarrow> 'a proc_scheme) \<Rightarrow> rtcdate \<Rightarrow> ('a proc_scheme, 'b) pstate_scheme \<Rightarrow>
    nat option \<times> ('a proc_scheme, 'b) pstate_scheme" where
  "allocproc_with ext date s =
     (case find (\<lambda>i. p_state (prc i s) = UNUSED) [0..<NPROC] of
        None \<Rightarrow> (None, s)
      | Some i \<Rightarrow>
          let s = upd_proc i (\<lambda>p. p\<lparr>p_state := EMBRYO, p_pid := nextpid s\<rparr>) (s\<lparr>nextpid := nextpid s + 1\<rparr>)
          in case get_page s of
               (None, s) \<Rightarrow> (None, upd_proc i (\<lambda>p. p\<lparr>p_kstack := None, p_state := UNUSED\<rparr>) s)
             | (Some k, s) \<Rightarrow>
                 (Some i, upd_proc i (\<lambda>p. ext (p\<lparr>p_kstack := Some k, p_tf := junk_tf, p_context := Forkret,
                   begin_date := date, ticks_total := 0, sched_times := 0\<rparr>)) s))"

text \<open>Every open file is duplicated for the new process.\<close>

definition dup_file :: "nat \<Rightarrow> nat \<Rightarrow> nat \<Rightarrow> ('a proc_scheme, 'b) pstate_scheme \<Rightarrow> ('a proc_scheme, 'b) pstate_scheme outcome" where
  "dup_file cur np i s =
     (case p_ofile (prc cur s) ! i of
        None \<Rightarrow> Ret s
      | Some f \<Rightarrow> kbind (filedup f s) (\<lambda>s. Ret (upd_proc np (\<lambda>p. p\<lparr>p_ofile := (p_ofile p)[i := Some f]\<rparr>) s)))"

definition dup_cwd :: "nat \<Rightarrow> nat \<Rightarrow> ('a proc_scheme, 'b) pstate_scheme \<Rightarrow> ('a proc_scheme, 'b) pstate_scheme outcome" where
  "dup_cwd cur np s =
     kbind (deref (p_cwd (prc cur s))) (\<lambda>ip.
       case idup ip s of (ip, s) \<Rightarrow> Ret (upd_proc np (\<lambda>p. p\<lparr>p_cwd := Some ip\<rparr>) s))"

text \<open>\<open>safestrcpy(np->name, curproc->name, sizeof(curproc->name))\<close> on the 16 bytes of a name.\<close>

definition copy_name :: "byte list \<Rightarrow> byte list" where
  "copy_name n = takeWhile (\<lambda>c. c \<noteq> 0) (take 15 n) @ [0]"

text \<open>\<open>pg\<close> is what \<open>setupkvm\<close> returns.\<close>

definition userinit_with :: "(('a proc_scheme) \<Rightarrow> 'a proc_scheme) \<Rightarrow> rtcdate \<Rightarrow> nat option \<Rightarrow>
    ('a proc_scheme, 'b) pstate_scheme \<Rightarrow> ('a proc_scheme, 'b) pstate_scheme outcome" where
  "userinit_with ext date pg s =
     (case allocproc_with ext date s of
        (None, s) \<Rightarrow> Panic ''null pointer''
      | (Some p, s) \<Rightarrow>
          let s = s\<lparr>initproc := p\<rparr>
          in case pg of
               None \<Rightarrow> Panic ''userinit: out of memory?''
             | Some d \<Rightarrow>
                 let s = upd_proc p (\<lambda>x. x\<lparr>p_pgdir := Some d, p_sz := 4096,
                       p_tf := \<lparr>tf_eax = 0, tf_eip = 0, tf_esp = 4096, tf_cs = 27, tf_ds = 35, tf_es = 35, tf_ss = 35,
                         tf_eflags = 512, tf_others = []\<rparr>,
                       p_name := map (\<lambda>c. of_char c) ''initcode'' @ [0]\<rparr>) (s\<lparr>vspaces := d # vspaces s\<rparr>)
                 in kbind (namei [47] s) (\<lambda>(cw, s).
                      Ret (upd_proc p (\<lambda>x. x\<lparr>p_cwd := cw, p_state := RUNNABLE\<rparr>) s)))"

text \<open>\<open>newsz\<close> is what \<open>allocuvm\<close> or \<open>deallocuvm\<close> returns.\<close>

definition growproc :: "nat \<Rightarrow> int \<Rightarrow> nat \<Rightarrow> ('a proc_scheme, 'b) pstate_scheme \<Rightarrow> int \<times> ('a proc_scheme, 'b) pstate_scheme" where
  "growproc cur n newsz s =
     (if n \<noteq> 0 \<and> newsz = 0 then (-1, s)
      else (0, upd_proc cur (\<lambda>p. p\<lparr>p_sz := (if n = 0 then p_sz p else newsz)\<rparr>) s))"

text \<open>
  \<open>kfree\<close> of a kernel stack. The kernel of lab4 is built with \<open>KTHREADS\<close>, where \<open>kfree\<close> ignores a null pointer. (That of lab3
  panics, but the part of it that is modelled frees a stack only in \<open>fork\<close>, of a process that has just been given one.)
\<close>

definition free_kstack :: "nat option \<Rightarrow> ('p, 'b) pstate_scheme \<Rightarrow> ('p, 'b) pstate_scheme outcome" where
  "free_kstack k s = (case k of None \<Rightarrow> Ret s | Some k \<Rightarrow> Ret (put_page k s))"

text \<open>\<open>pg\<close> is what \<open>copyuvm\<close> returns; \<open>cp\<close> copies fields of the extension from the parent.\<close>

definition fork_with :: "(('a proc_scheme) \<Rightarrow> 'a proc_scheme) \<Rightarrow> ('a proc_scheme \<Rightarrow> 'a proc_scheme \<Rightarrow> 'a proc_scheme) \<Rightarrow>
    rtcdate \<Rightarrow> nat option \<Rightarrow> nat \<Rightarrow>
    ('a proc_scheme, 'b) pstate_scheme \<Rightarrow> (int \<times> ('a proc_scheme, 'b) pstate_scheme) outcome" where
  "fork_with ext cp date pg cur s =
     (case allocproc_with ext date s of
        (None, s) \<Rightarrow> Ret (-1, s)
      | (Some np, s) \<Rightarrow>
          (case pg of
             None \<Rightarrow>
               kbind (free_kstack (p_kstack (prc np s)) s) (\<lambda>s.
                 Ret (-1, upd_proc np (\<lambda>p. p\<lparr>p_kstack := None, p_state := UNUSED\<rparr>) s))
           | Some d \<Rightarrow>
               let c = prc cur s;
                   s = upd_proc np (\<lambda>p. cp c (p\<lparr>p_pgdir := Some d, p_sz := p_sz c, p_parent := Some cur,
                         p_tf := (p_tf c)\<lparr>tf_eax := 0\<rparr>\<rparr>)) (s\<lparr>vspaces := d # vspaces s\<rparr>)
               in kbind (kfor [0..<nat NOFILE] (dup_file cur np) s) (\<lambda>s.
                  kbind (dup_cwd cur np s) (\<lambda>s.
                    let s = upd_proc np (\<lambda>p. p\<lparr>p_name := copy_name (p_name (prc cur s))\<rparr>) s
                    in Ret (p_pid (prc np s), upd_proc np (\<lambda>p. p\<lparr>p_state := RUNNABLE\<rparr>) s)))))"

section \<open>Sleeping and waking\<close>

definition wakeup1 :: "channel option \<Rightarrow> ('a proc_scheme, 'b) pstate_scheme \<Rightarrow> ('a proc_scheme, 'b) pstate_scheme" where
  "wakeup1 ch s =
     s\<lparr>procs := map (\<lambda>p. if p_state p = SLEEPING \<and> p_chan p = ch then p\<lparr>p_state := RUNNABLE\<rparr> else p) (procs s)\<rparr>"

definition wakeup :: "channel \<Rightarrow> ('a proc_scheme, 'b) pstate_scheme \<Rightarrow> ('a proc_scheme, 'b) pstate_scheme" where
  "wakeup ch = wakeup1 (Some ch)"

text \<open>The guards of \<open>sched\<close> that depend on the process; then the processor goes to the scheduler.\<close>

definition sched :: "nat \<Rightarrow> ('a proc_scheme, 'b) pstate_scheme \<Rightarrow> ('a proc_scheme, 'b) pstate_scheme outcome" where
  "sched cur s =
     (if p_state (prc cur s) = RUNNING then Panic ''sched running''
      else Ret (upd_proc cur (\<lambda>p. p\<lparr>p_context := In_sched\<rparr>) s))"

definition yield :: "nat \<Rightarrow> ('a proc_scheme, 'b) pstate_scheme \<Rightarrow> ('a proc_scheme, 'b) pstate_scheme outcome" where
  "yield cur s = sched cur (upd_proc cur (\<lambda>p. p\<lparr>p_state := RUNNABLE\<rparr>) s)"

text \<open>\<open>sleep\<close> up to the switch, and from the moment it is resumed.\<close>

definition sleep :: "nat \<Rightarrow> channel \<Rightarrow> ('a proc_scheme, 'b) pstate_scheme \<Rightarrow> ('a proc_scheme, 'b) pstate_scheme outcome" where
  "sleep cur ch s = sched cur (upd_proc cur (\<lambda>p. p\<lparr>p_chan := Some ch, p_state := SLEEPING\<rparr>) s)"

definition sleep_resumed :: "nat \<Rightarrow> ('a proc_scheme, 'b) pstate_scheme \<Rightarrow> ('a proc_scheme, 'b) pstate_scheme" where
  "sleep_resumed cur = upd_proc cur (\<lambda>p. p\<lparr>p_chan := None\<rparr>)"

definition mark_killed :: "'a proc_scheme \<Rightarrow> 'a proc_scheme" where
  "mark_killed p = p\<lparr>p_killed := True, p_state := (if p_state p = SLEEPING then RUNNABLE else p_state p)\<rparr>"

definition kill :: "int \<Rightarrow> ('a proc_scheme, 'b) pstate_scheme \<Rightarrow> int \<times> ('a proc_scheme, 'b) pstate_scheme" where
  "kill pid s =
     (case find (\<lambda>i. p_pid (prc i s) = pid) [0..<NPROC] of
        Some i \<Rightarrow> (0, upd_proc i mark_killed s)
      | None \<Rightarrow> (-1, s))"

section \<open>Exit and wait\<close>

definition close_file :: "nat \<Rightarrow> nat \<Rightarrow> ('a proc_scheme, 'b) pstate_scheme \<Rightarrow> ('a proc_scheme, 'b) pstate_scheme outcome" where
  "close_file cur fd s =
     (case p_ofile (prc cur s) ! fd of
        None \<Rightarrow> Ret s
      | Some f \<Rightarrow> kbind (fileclose f s) (\<lambda>s. Ret (upd_proc cur (\<lambda>p. p\<lparr>p_ofile := (p_ofile p)[fd := None]\<rparr>) s)))"

text \<open>Closing all files and leaving the current directory; the sleep locks are taken by the process.\<close>

definition drop_files :: "nat \<Rightarrow> ('a proc_scheme, 'b) pstate_scheme \<Rightarrow> ('a proc_scheme, 'b) pstate_scheme outcome" where
  "drop_files cur s =
     kbind (kfor [0..<nat NOFILE] (close_file cur) (s\<lparr>my_pid := p_pid (prc cur s)\<rparr>)) (\<lambda>s.
     kbind (begin_op s) (\<lambda>s.
     kbind (deref (p_cwd (prc cur s))) (\<lambda>ip.
     kbind (iput ip s) (\<lambda>s.
     kbind (end_op s) (\<lambda>s.
       Ret (upd_proc cur (\<lambda>p. p\<lparr>p_cwd := None\<rparr>) s))))))"

definition adopt :: "nat \<Rightarrow> nat \<Rightarrow> ('a proc_scheme, 'b) pstate_scheme \<Rightarrow> ('a proc_scheme, 'b) pstate_scheme" where
  "adopt cur i s =
     (if p_parent (prc i s) = Some cur then
        let s = upd_proc i (\<lambda>p. p\<lparr>p_parent := Some (initproc s)\<rparr>) s
        in if p_state (prc i s) = ZOMBIE then wakeup1 (Some (Chan_Proc (initproc s))) s else s
      else s)"

text \<open>\<open>exit\<close> from the test for \<open>initproc\<close> on, up to the switch.\<close>

definition exit_common :: "nat \<Rightarrow> ('a proc_scheme, 'b) pstate_scheme \<Rightarrow> ('a proc_scheme, 'b) pstate_scheme outcome" where
  "exit_common cur s =
     (if cur = initproc s then Panic ''init exiting''
      else
        kbind (drop_files cur s) (\<lambda>s.
          let s = wakeup1 (map_option Chan_Proc (p_parent (prc cur s))) s;
              s = fold (adopt cur) [0..<NPROC] s
          in sched cur (upd_proc cur (\<lambda>p. p\<lparr>p_state := ZOMBIE\<rparr>) s)))"

datatype wait_result = Reaped int | No_children | Must_sleep

text \<open>\<open>freevm\<close>: the page directory ceases to exist.\<close>

definition freevm :: "nat option \<Rightarrow> ('p, 'b) pstate_scheme \<Rightarrow> ('p, 'b) pstate_scheme outcome" where
  "freevm d s = (case d of None \<Rightarrow> Panic ''freevm: no pgdir'' | Some d \<Rightarrow> Ret (s\<lparr>vspaces := remove1 d (vspaces s)\<rparr>))"

text \<open>Freeing an exited child in slot \<open>i\<close>.\<close>

definition reap :: "nat \<Rightarrow> ('a proc_scheme, 'b) pstate_scheme \<Rightarrow> ('a proc_scheme, 'b) pstate_scheme outcome" where
  "reap i s =
     kbind (free_kstack (p_kstack (prc i s)) s) (\<lambda>s.
     kbind (freevm (p_pgdir (prc i s)) s) (\<lambda>s.
       Ret (upd_proc i (\<lambda>p. p\<lparr>p_kstack := None, p_pid := 0, p_parent := None, p_name := (p_name p)[0 := 0],
              p_killed := False, p_state := UNUSED\<rparr>) s)))"

text \<open>One round of the loop of \<open>wait\<close>.\<close>

definition wait_round :: "nat \<Rightarrow> ('a proc_scheme, 'b) pstate_scheme \<Rightarrow> (wait_result \<times> ('a proc_scheme, 'b) pstate_scheme) outcome" where
  "wait_round cur s =
     (case find (\<lambda>i. p_parent (prc i s) = Some cur \<and> p_state (prc i s) = ZOMBIE) [0..<NPROC] of
        Some i \<Rightarrow> kbind (reap i s) (\<lambda>t. Ret (Reaped (p_pid (prc i s)), t))
      | None \<Rightarrow>
          if (\<forall>i < NPROC. p_parent (prc i s) \<noteq> Some cur) \<or> p_killed (prc cur s) then Ret (No_children, s)
          else kbind (sleep cur (Chan_Proc cur) s) (\<lambda>s. Ret (Must_sleep, s)))"

section \<open>The scheduler\<close>

text \<open>Scanning the table from slot \<open>k\<close>, and switching to the process found.\<close>

definition pick :: "nat \<Rightarrow> ('a proc_scheme, 'b) pstate_scheme \<Rightarrow> nat option" where
  "pick k s = find (\<lambda>i. p_state (prc i s) = RUNNABLE) [k..<NPROC]"

definition switch_to :: "nat \<Rightarrow> ('a proc_scheme, 'b) pstate_scheme \<Rightarrow> ('a proc_scheme, 'b) pstate_scheme" where
  "switch_to i s = upd_proc i (\<lambda>p. p\<lparr>p_state := RUNNING, sched_times := u32 (sched_times p + 1), ticks_begin := ticks s\<rparr>) s"

text \<open>Back in the scheduler.\<close>

definition account :: "nat \<Rightarrow> ('a proc_scheme, 'b) pstate_scheme \<Rightarrow> ('a proc_scheme, 'b) pstate_scheme" where
  "account i s =
     upd_proc i (\<lambda>p. p\<lparr>ticks_total := u32 (ticks_total p + (ticks s + 4294967296 - ticks_begin p))\<rparr>) s"

section \<open>System calls\<close>

definition sys_getpid :: "nat \<Rightarrow> ('a proc_scheme, 'b) pstate_scheme \<Rightarrow> int" where
  "sys_getpid cur s = p_pid (prc cur s)"

definition sys_getppid :: "nat \<Rightarrow> ('a proc_scheme, 'b) pstate_scheme \<Rightarrow> int" where
  "sys_getppid cur s = (case p_parent (prc cur s) of None \<Rightarrow> 1 | Some q \<Rightarrow> p_pid (prc q s))"

text \<open>One test of the loop of \<open>sys_sleep\<close> for \<open>n\<close> ticks since \<open>ticks0\<close>; the comparison is unsigned.\<close>

definition sys_sleep_test :: "nat \<Rightarrow> int \<Rightarrow> nat \<Rightarrow> ('a proc_scheme, 'b) pstate_scheme \<Rightarrow>
    (int option \<times> ('a proc_scheme, 'b) pstate_scheme) outcome" where
  "sys_sleep_test cur n ticks0 s =
     (if u32 (ticks s + 4294967296 - ticks0) < nat (n mod 4294967296) then
        (if p_killed (prc cur s) then Ret (Some (-1), s)
         else kbind (sleep cur Chan_Ticks s) (\<lambda>s. Ret (None, s)))
      else Ret (Some 0, s))"

definition sys_uptime :: "('a proc_scheme, 'b) pstate_scheme \<Rightarrow> int" where
  "sys_uptime s = s32 (ticks s)"

text \<open>The timer interrupt on processor 0.\<close>

definition timer_tick :: "('a proc_scheme, 'b) pstate_scheme \<Rightarrow> ('a proc_scheme, 'b) pstate_scheme" where
  "timer_tick s = wakeup Chan_Ticks (s\<lparr>ticks := u32 (ticks s + 1)\<rparr>)"

section \<open>Fields of the process listing\<close>

text \<open>The table \<open>states\<close> and the fields of a line of \<open>sys_cps\<close>: what is printed between the tabs.\<close>

datatype cps_field = Num int | Str string | Chr char | Empty

definition state_name :: "procstate \<Rightarrow> string" where
  "state_name st = (case st of UNUSED \<Rightarrow> ''unused'' | EMBRYO \<Rightarrow> ''embryo'' | SLEEPING \<Rightarrow> ''sleep ''
     | RUNNABLE \<Rightarrow> ''runble'' | RUNNING \<Rightarrow> ''run   '' | ZOMBIE \<Rightarrow> ''zombie'')"

definition zfill :: "nat \<Rightarrow> string" where
  "zfill n = (if n < 10 then ''0'' else '''')"

text \<open>
  The start date as pairs of padding and number.
\<close>

definition cps_date :: "rtcdate \<Rightarrow> cps_field list" where
  "cps_date d = [Num (int (year d)), Str (zfill (month d)), Num (int (month d)), Str (zfill (day d)), Num (int (day d)),
     Str (zfill (hour d)), Num (int (hour d)), Str (zfill (minute d)), Num (int (minute d)),
     Str (zfill (second d)), Num (int (second d))]"

section \<open>What the file layer leaves alone\<close>

lemma end_op_frame:
  fixes s :: "'a fstate_scheme"
  assumes "end_op s = Ret t" shows "fs_frame s t"
proof -
  let ?u = "s\<lparr>outstanding := outstanding s - 1\<rparr>"
  have u: "fs_frame s ?u" "fs_frame ?u (?u\<lparr>committing := True\<rparr>)" by (simp_all add: fs_frame_def)
  show ?thesis
  proof (cases "outstanding ?u = 0")
    case True
    then obtain v where v: "commit (?u\<lparr>committing := True\<rparr>) = Ret v" "t = v\<lparr>committing := False\<rparr>"
      using assms by (auto simp: end_op_def Let_def outcome_simps split: if_splits)
    have "fs_frame v t" by (simp add: v(2) fs_frame_def)
    then show ?thesis using u commit_frame [OF v(1)] fs_frame_trans by blast
  next
    case False
    then show ?thesis using assms u(1) by (auto simp: end_op_def Let_def split: if_splits)
  qed
qed

definition file_frame :: "'a kstate_scheme \<Rightarrow> 'a kstate_scheme \<Rightarrow> bool" where
  "file_frame s t \<longleftrightarrow> t = s\<lparr>bufs := bufs t, lru := lru t, memdisk := memdisk t, disk_writes := disk_writes t,
     outstanding := outstanding t, committing := committing t, lh_n := lh_n t, lh_block := lh_block t,
     inodes := inodes t, ftable := ftable t, pipes := pipes t, free_pages := free_pages t\<rparr>"

lemma file_frame_refl: "file_frame s s"
  by (simp add: file_frame_def)

lemma file_frame_trans:
  assumes "file_frame s t" and "file_frame t u" shows "file_frame s u"
proof -
  have "u = (s\<lparr>bufs := bufs t, lru := lru t, memdisk := memdisk t, disk_writes := disk_writes t,
     outstanding := outstanding t, committing := committing t, lh_n := lh_n t, lh_block := lh_block t,
     inodes := inodes t, ftable := ftable t, pipes := pipes t, free_pages := free_pages t\<rparr>)\<lparr>bufs := bufs u,
     lru := lru u, memdisk := memdisk u, disk_writes := disk_writes u, outstanding := outstanding u,
     committing := committing u, lh_n := lh_n u, lh_block := lh_block u, inodes := inodes u, ftable := ftable u,
     pipes := pipes u, free_pages := free_pages u\<rparr>"
    using assms unfolding file_frame_def by metis
  then show ?thesis by (simp add: file_frame_def)
qed

lemma file_frame_fs:
  fixes s t :: "'a kstate_scheme"
  assumes "fs_frame s t" shows "file_frame s t"
proof -
  let ?t = "s\<lparr>bufs := bufs t, lru := lru t, memdisk := memdisk t, disk_writes := disk_writes t,
     outstanding := outstanding t, committing := committing t, lh_n := lh_n t, lh_block := lh_block t,
     inodes := inodes t\<rparr>"
  have "t = ?t" using assms by (simp add: fs_frame_def)
  moreover have "file_frame s ?t" by (simp add: file_frame_def)
  ultimately show ?thesis by metis
qed

lemma file_frame_upd: "file_frame s (upd_file f g s)" "file_frame s (close_pipe p wr s)" "file_frame s (put_page k s)"
  by (auto simp: file_frame_def upd_file_def close_pipe_def put_page_def Let_def split: prod.split)

lemma filedup_frame: "filedup f s = Ret t \<Longrightarrow> file_frame s t"
  using file_frame_upd by (auto simp: filedup_def split: if_splits)

lemma fileclose_frame:
  fixes s :: "'a kstate_scheme"
  assumes "fileclose f s = Ret t" shows "file_frame s t"
proof -
  let ?u = "upd_file f (\<lambda>x. x\<lparr>f_ref := f_ref x - 1\<rparr>) s"
  let ?v = "upd_file f (\<lambda>x. x\<lparr>f_ref := 0, f_type := FD_NONE\<rparr>) ?u"
  have v: "file_frame s ?u" "file_frame s ?v" using file_frame_upd(1) file_frame_trans by blast+
  have "t = ?u \<or> file_frame ?v t"
  proof (cases "f_ref (fil f ?u) > 0")
    case True
    then show ?thesis using assms by (auto simp: fileclose_def Let_def split: if_splits)
  next
    case False
    then have r: "(case f_type (fil f ?u) of
          FD_PIPE \<Rightarrow> kbind (deref (f_pipe (fil f ?u))) (\<lambda>p. Ret (close_pipe p (f_writable (fil f ?u) \<noteq> 0) ?v))
        | FD_INODE \<Rightarrow> kbind (begin_op ?v) (\<lambda>s. kbind (deref (f_ip (fil f ?u))) (\<lambda>ip. kbind (iput ip s) end_op))
        | FD_NONE \<Rightarrow> Ret ?v) = Ret t"
      using assms by (auto simp: fileclose_def Let_def split: if_splits)
    show ?thesis
    proof (cases "f_type (fil f ?u)")
      case FD_NONE
      then show ?thesis using r file_frame_refl by auto
    next
      case FD_PIPE
      then show ?thesis using r file_frame_upd(2) by (auto simp: outcome_simps)
    next
      case FD_INODE
      then obtain a ip b where a: "begin_op ?v = Ret a" "iput ip a = Ret b" "end_op b = Ret t"
        using r by (auto simp: outcome_simps)
      have "fs_frame ?v t"
        by (rule fs_frame_trans [OF begin_op_frame [OF a(1)] fs_frame_trans [OF iput_frame [OF a(2)] end_op_frame [OF a(3)]]])
      then show ?thesis using file_frame_fs by blast
    qed
  qed
  then show ?thesis using v file_frame_trans by blast
qed

lemma proc_fields:
  fixes s t :: "('p, 'b) pstate_scheme"
  assumes "file_frame s t"
  shows "procs t = procs s" "nextpid t = nextpid s" "initproc t = initproc s" "ticks t = ticks s" "vspaces t = vspaces s"
    "pstate.more t = pstate.more s" "umem t = umem s"
proof -
  let ?t = "s\<lparr>bufs := bufs t, lru := lru t, memdisk := memdisk t, disk_writes := disk_writes t,
     outstanding := outstanding t, committing := committing t, lh_n := lh_n t, lh_block := lh_block t,
     inodes := inodes t, ftable := ftable t, pipes := pipes t, free_pages := free_pages t\<rparr>"
  have e: "t = ?t" using assms by (simp add: file_frame_def)
  show "procs t = procs s" by (subst e) simp
  show "nextpid t = nextpid s" by (subst e) simp
  show "initproc t = initproc s" by (subst e) simp
  show "ticks t = ticks s" by (subst e) simp
  show "vspaces t = vspaces s" by (subst e) simp
  show "pstate.more t = pstate.more s" by (subst e) simp
  show "umem t = umem s" by (subst e) simp
qed

text \<open>Opening and closing files changes the table of open files and the directory of one process.\<close>

definition files_step :: "nat \<Rightarrow> ('a proc_scheme, 'b) pstate_scheme \<Rightarrow> ('a proc_scheme, 'b) pstate_scheme \<Rightarrow> bool" where
  "files_step cur s t \<longleftrightarrow>
     (\<exists>os cw. procs t = (procs s)[cur := (prc cur s)\<lparr>p_ofile := os, p_cwd := cw\<rparr>]) \<and>
     nextpid t = nextpid s \<and> initproc t = initproc s \<and> ticks t = ticks s \<and> vspaces t = vspaces s \<and>
     pstate.more t = pstate.more s \<and> umem t = umem s"

lemma files_step_refl: "files_step cur s s"
proof -
  have "procs s = (procs s)[cur := (prc cur s)\<lparr>p_ofile := p_ofile (prc cur s), p_cwd := p_cwd (prc cur s)\<rparr>]" by simp
  then show ?thesis unfolding files_step_def by blast
qed

lemma files_step_trans:
  assumes "files_step cur s t" and "files_step cur t u" shows "files_step cur s u"
proof -
  obtain os cw os' cw' where a: "procs t = (procs s)[cur := (prc cur s)\<lparr>p_ofile := os, p_cwd := cw\<rparr>]"
    "procs u = (procs t)[cur := (prc cur t)\<lparr>p_ofile := os', p_cwd := cw'\<rparr>]"
    using assms unfolding files_step_def by blast
  have "procs u = (procs s)[cur := (prc cur s)\<lparr>p_ofile := os', p_cwd := cw'\<rparr>]"
    unfolding a(2) a(1) by (cases "cur < length (procs s)") (simp_all add: list_update_beyond)
  then show ?thesis using assms unfolding files_step_def by auto
qed

lemma files_step_frame: "file_frame s t \<Longrightarrow> files_step cur s t"
  using proc_fields [of s t] files_step_refl [of cur s] unfolding files_step_def by simp

lemma files_step_ofile: "files_step cur s (upd_proc cur (\<lambda>p. p\<lparr>p_ofile := f p\<rparr>) s)"
proof -
  have "procs (upd_proc cur (\<lambda>p. p\<lparr>p_ofile := f p\<rparr>) s) =
      (procs s)[cur := (prc cur s)\<lparr>p_ofile := f (prc cur s), p_cwd := p_cwd (prc cur s)\<rparr>]"
    by (simp add: upd_proc_def)
  then show ?thesis unfolding files_step_def by (intro conjI exI) (assumption | simp add: upd_proc_def)+
qed

lemma files_step_cwd: "files_step cur s (upd_proc cur (\<lambda>p. p\<lparr>p_cwd := f p\<rparr>) s)"
proof -
  have "procs (upd_proc cur (\<lambda>p. p\<lparr>p_cwd := f p\<rparr>) s) =
      (procs s)[cur := (prc cur s)\<lparr>p_ofile := p_ofile (prc cur s), p_cwd := f (prc cur s)\<rparr>]"
    by (simp add: upd_proc_def)
  then show ?thesis unfolding files_step_def by (intro conjI exI) (assumption | simp add: upd_proc_def)+
qed

lemma files_step_kfor:
  assumes "kfor xs f s = Ret t" and "\<And>x s t. f x s = Ret t \<Longrightarrow> files_step cur s t"
  shows "files_step cur s t"
  using assms(1)
proof (induction xs arbitrary: s)
  case (Cons x xs)
  then obtain u where "f x s = Ret u" "kfor xs f u = Ret t" by (auto simp: outcome_simps)
  then show ?case using Cons.IH assms(2) files_step_trans by blast
qed (simp add: files_step_refl)

lemma close_file_step: "close_file cur fd s = Ret t \<Longrightarrow> files_step cur s t"
  using files_step_refl
  by (auto simp: close_file_def outcome_simps split: option.splits
      intro: files_step_trans [OF files_step_frame [OF fileclose_frame] files_step_ofile])

lemma dup_file_step: "dup_file cur np i s = Ret t \<Longrightarrow> files_step np s t"
  using files_step_refl
  by (auto simp: dup_file_def outcome_simps split: option.splits
      intro: files_step_trans [OF files_step_frame [OF filedup_frame] files_step_ofile])

lemma dup_cwd_step:
  assumes "dup_cwd cur np s = Ret t" shows "files_step np s t"
proof -
  obtain ip jp u where u: "idup ip s = (jp, u)" "t = upd_proc np (\<lambda>p. p\<lparr>p_cwd := Some jp\<rparr>) u"
    using assms by (auto simp: dup_cwd_def outcome_simps idup_def)
  show ?thesis unfolding u(2)
    by (rule files_step_trans [OF files_step_frame [OF file_frame_fs [OF idup_frame [OF u(1)]]] files_step_cwd])
qed

lemma drop_files_step:
  assumes "drop_files cur s = Ret t" shows "files_step cur s t"
proof -
  let ?s = "s\<lparr>my_pid := p_pid (prc cur s)\<rparr>"
  obtain a b ip c d where r: "kfor [0..<nat NOFILE] (close_file cur) ?s = Ret a" "begin_op a = Ret b" "iput ip b = Ret c"
      "end_op c = Ret d" "t = upd_proc cur (\<lambda>p. p\<lparr>p_cwd := None\<rparr>) d"
    using assms by (auto simp: drop_files_def outcome_simps)
  have "files_step cur s ?s" using files_step_refl [of cur s] unfolding files_step_def by simp
  moreover have "files_step cur ?s a" using r(1) by (rule files_step_kfor) (rule close_file_step)
  moreover have "files_step cur a d"
    by (rule files_step_frame [OF file_frame_fs [OF fs_frame_trans [OF begin_op_frame [OF r(2)]
        fs_frame_trans [OF iput_frame [OF r(3)] end_op_frame [OF r(4)]]]]])
  moreover have "files_step cur d t" unfolding r(5) by (rule files_step_cwd)
  ultimately show ?thesis using files_step_trans by blast
qed

text \<open>What follows for the processes.\<close>

lemma files_step_nth:
  assumes "files_step cur s t"
  shows "length (procs t) = length (procs s)" "i \<noteq> cur \<Longrightarrow> prc i t = prc i s"
    "\<exists>os cw. prc cur t = (prc cur s)\<lparr>p_ofile := os, p_cwd := cw\<rparr>"
proof -
  obtain os cw where a: "procs t = (procs s)[cur := (prc cur s)\<lparr>p_ofile := os, p_cwd := cw\<rparr>]"
    using assms unfolding files_step_def by blast
  show "length (procs t) = length (procs s)" "i \<noteq> cur \<Longrightarrow> prc i t = prc i s" by (simp_all add: a)
  show "\<exists>os cw. prc cur t = (prc cur s)\<lparr>p_ofile := os, p_cwd := cw\<rparr>"
  proof (cases "cur < length (procs s)")
    case True
    then show ?thesis by (auto simp: a)
  next
    case False
    then have "prc cur t = (prc cur s)\<lparr>p_ofile := p_ofile (prc cur s), p_cwd := p_cwd (prc cur s)\<rparr>"
      by (simp add: a list_update_beyond)
    then show ?thesis by blast
  qed
qed

lemma upd_proc_nth [simp]:
  "i < length (procs s) \<Longrightarrow> prc i (upd_proc i f s) = f (prc i s)"
  "j \<noteq> i \<Longrightarrow> prc j (upd_proc i f s) = prc j s"
  "length (procs (upd_proc i f s)) = length (procs s)"
  by (simp_all add: upd_proc_def)

lemma upd_proc_fields [simp]:
  "nextpid (upd_proc i f s) = nextpid s" "initproc (upd_proc i f s) = initproc s" "ticks (upd_proc i f s) = ticks s"
  "vspaces (upd_proc i f s) = vspaces s" "pstate.more (upd_proc i f s) = pstate.more s"
  "free_pages (upd_proc i f s) = free_pages s" "umem (upd_proc i f s) = umem s"
  by (simp_all add: upd_proc_def)

lemma put_page_procs [simp]: "procs (put_page k s) = procs s"
  by (simp add: put_page_def)

lemma get_page_procs: "get_page s = (r, t) \<Longrightarrow> procs t = procs s"
  by (auto simp: get_page_def split: list.splits)

end
