(* ===== verification/Kthreads.thy ===== *)
theory Kthreads
  imports Proc Sysfile Kalloc
begin

text \<open>
  Kernel threads (\<open>lab4/wei/xv6-kthreads/proc.c\<close>): processes with a thread id that share the page
  directory of their parent. The system of several processors on which they run is the theory \<open>Thread_System\<close>.
\<close>

section \<open>Threads\<close>

record kproc = proc +
  oncpu :: int
  is_thread :: nat
  is_parent :: nat
  tid :: nat
  next_tid :: nat
  thread_exit_value :: int
  thread_count :: nat

definition u16 :: "nat \<Rightarrow> nat" where
  "u16 x = x mod 65536"

text \<open>The \<open>KTHREADS\<close> part of \<open>allocproc\<close>.\<close>

definition init_threads :: "kproc \<Rightarrow> kproc" where
  "init_threads p = p\<lparr>oncpu := -1, is_thread := 0, is_parent := 0, tid := 0, next_tid := 1, thread_exit_value := 0,
     thread_count := 0\<rparr>"

definition allocproc :: "rtcdate \<Rightarrow> (kproc, 'b) pstate_scheme \<Rightarrow> nat option \<times> (kproc, 'b) pstate_scheme" where
  "allocproc = allocproc_with init_threads"

definition userinit :: "rtcdate \<Rightarrow> nat option \<Rightarrow> (kproc, 'b) pstate_scheme \<Rightarrow> (kproc, 'b) pstate_scheme outcome" where
  "userinit = userinit_with init_threads"

definition fork :: "rtcdate \<Rightarrow> nat option \<Rightarrow> nat \<Rightarrow> (kproc, 'b) pstate_scheme \<Rightarrow> (int \<times> (kproc, 'b) pstate_scheme) outcome" where
  "fork = fork_with init_threads (\<lambda>_ p. p)"

text \<open>
  A store of the kernel to user address \<open>a\<close>, through the page directory of the current process. Beyond
  the memory of the process it is a page fault in the kernel or, from \<open>KERNBASE\<close> on, overwrites the kernel
  itself: both are the panic of the model.
\<close>

definition kstore :: "nat \<Rightarrow> nat \<Rightarrow> nat \<Rightarrow> (kproc, 'b) pstate_scheme \<Rightarrow> (kproc, 'b) pstate_scheme outcome" where
  "kstore cur a v s =
     (if a + 4 \<le> p_sz (prc cur s) then Ret (s\<lparr>umem := store32 (umem s) a v\<rparr>) else Panic ''kernel trap'')"

text \<open>The parts of \<open>kthread_create\<close>: what the thread shares, its parent, the counters of that, and
  the two words on its stack, the argument and below it the thread id.\<close>

definition share_process :: "nat \<Rightarrow> nat \<Rightarrow> nat \<Rightarrow> (kproc, 'b) pstate_scheme \<Rightarrow> (kproc, 'b) pstate_scheme" where
  "share_process func cur np s =
     upd_proc np (\<lambda>p. p\<lparr>p_pgdir := p_pgdir (prc cur s), p_sz := p_sz (prc cur s),
       p_tf := (p_tf (prc cur s))\<lparr>tf_eax := 0, tf_eip := func\<rparr>, is_thread := 1\<rparr>) s"

definition set_parent :: "nat \<Rightarrow> nat \<Rightarrow> (kproc, 'b) pstate_scheme \<Rightarrow> (kproc, 'b) pstate_scheme" where
  "set_parent cur np s =
     (if is_thread (prc cur s) \<noteq> 0 then upd_proc np (\<lambda>p. p\<lparr>p_parent := p_parent (prc cur s)\<rparr>) s
      else upd_proc cur (\<lambda>p. p\<lparr>is_parent := 1\<rparr>) (upd_proc np (\<lambda>p. p\<lparr>p_parent := Some cur\<rparr>) s))"

definition count_thread :: "nat \<Rightarrow> (kproc, 'b) pstate_scheme \<Rightarrow> (kproc, 'b) pstate_scheme" where
  "count_thread q =
     upd_proc q (\<lambda>p. p\<lparr>next_tid := u16 (next_tid p + 1), thread_count := u16 (thread_count p + 1)\<rparr>)"

definition push_args :: "nat \<Rightarrow> nat \<Rightarrow> nat \<Rightarrow> nat \<Rightarrow> (kproc, 'b) pstate_scheme \<Rightarrow> (nat \<times> (kproc, 'b) pstate_scheme) outcome" where
  "push_args cur tstack arg_ptr t s =
     (let esp = u32 (tstack + PGSIZE + 4294967296 - 4)
      in kbind (kstore cur esp arg_ptr s) (\<lambda>s.
         let esp = u32 (esp + 4294967296 - 4)
         in kbind (kstore cur esp t s) (\<lambda>s. Ret (esp, s))))"

definition enter_thread :: "nat \<Rightarrow> nat \<Rightarrow> nat \<Rightarrow> (kproc, 'b) pstate_scheme \<Rightarrow> (kproc, 'b) pstate_scheme" where
  "enter_thread np t esp = upd_proc np (\<lambda>p. p\<lparr>tid := t, p_tf := (p_tf p)\<lparr>tf_esp := esp\<rparr>\<rparr>)"

definition start_thread :: "nat \<Rightarrow> nat \<Rightarrow> (kproc, 'b) pstate_scheme \<Rightarrow> (kproc, 'b) pstate_scheme" where
  "start_thread cur np s =
     upd_proc np (\<lambda>p. p\<lparr>p_state := RUNNABLE\<rparr>) (upd_proc np (\<lambda>p. p\<lparr>p_name := copy_name (p_name (prc cur s))\<rparr>) s)"

definition kthread_create :: "rtcdate \<Rightarrow> nat \<Rightarrow> nat \<Rightarrow> nat \<Rightarrow> nat \<Rightarrow> (kproc, 'b) pstate_scheme \<Rightarrow>
    (int \<times> (kproc, 'b) pstate_scheme) outcome" where
  "kthread_create date func arg_ptr tstack cur s =
     (if tstack mod PGSIZE \<noteq> 0 then Ret (-1, s)
      else case allocproc date s of
        (None, s) \<Rightarrow> Ret (-1, s)
      | (Some np, s) \<Rightarrow>
          let s = set_parent cur np (share_process func cur np s)
          in kbind (deref (p_parent (prc np s))) (\<lambda>q.
               let t = next_tid (prc q s); s = count_thread q s
               in kbind (push_args cur tstack arg_ptr t s) (\<lambda>(esp, s).
                  kbind (kfor [0..<nat NOFILE] (dup_file cur np) (enter_thread np t esp s)) (\<lambda>s.
                  kbind (dup_cwd cur np s) (\<lambda>s.
                    Ret (int (tid (prc np s)), start_thread cur np s))))))"

text \<open>
  \<open>kthread_join\<close>: the process whose threads are searched, the slot found, and freeing that slot once
  its state is \<open>ZOMBIE\<close>. While it is not, the caller yields and tests that slot again.
\<close>

definition join_owner :: "nat \<Rightarrow> (kproc, 'b) pstate_scheme \<Rightarrow> nat option" where
  "join_owner cur s = (if is_thread (prc cur s) \<noteq> 0 then p_parent (prc cur s) else Some cur)"

definition join_find :: "nat option \<Rightarrow> int \<Rightarrow> (kproc, 'b) pstate_scheme \<Rightarrow> nat option" where
  "join_find owner t s = find (\<lambda>i. p_parent (prc i s) = owner \<and> int (tid (prc i s)) = t) [0..<NPROC]"

definition join_reap :: "nat option \<Rightarrow> nat \<Rightarrow> (kproc, 'b) pstate_scheme \<Rightarrow> (int \<times> (kproc, 'b) pstate_scheme) outcome" where
  "join_reap owner i s =
     kbind (deref owner) (\<lambda>q.
     let s = upd_proc q (\<lambda>p. p\<lparr>thread_count := u16 (thread_count p + 65535)\<rparr>) s
     in kbind (free_kstack (p_kstack (prc i s)) s) (\<lambda>s.
          let s = upd_proc i (\<lambda>p. p\<lparr>p_kstack := None, p_pid := -1, p_parent := None, p_name := (p_name p)[0 := 0],
                p_sz := 0, p_killed := False, p_state := UNUSED\<rparr>) s
          in Ret (thread_exit_value (prc i s), s)))"

text \<open>One test: the result of the call, or the slot to test again after a yield.\<close>

definition join_test :: "nat option \<Rightarrow> nat \<Rightarrow> nat \<Rightarrow> (kproc, 'b) pstate_scheme \<Rightarrow>
    (int option \<times> (kproc, 'b) pstate_scheme) outcome" where
  "join_test owner i cur s =
     (if p_state (prc i s) \<noteq> ZOMBIE then kbind (yield cur s) (\<lambda>s. Ret (None, s))
      else kbind (join_reap owner i s) (\<lambda>(r, s). Ret (Some r, s)))"

text \<open>\<open>Inl r\<close>: the result; \<open>Inr (q, i)\<close>: waiting for slot \<open>i\<close>.\<close>

definition kthread_join :: "int \<Rightarrow> nat \<Rightarrow> (kproc, 'b) pstate_scheme \<Rightarrow>
    ((int + nat option \<times> nat) \<times> (kproc, 'b) pstate_scheme) outcome" where
  "kthread_join t cur s =
     (if t = 0 then Ret (Inl (-1), s)
      else case join_find (join_owner cur s) t s of
        None \<Rightarrow> Ret (Inl (-1), s)
      | Some i \<Rightarrow> kbind (join_test (join_owner cur s) i cur s) (\<lambda>(r, t).
          Ret (case r of Some v \<Rightarrow> Inl v | None \<Rightarrow> Inr (join_owner cur s, i), t)))"

text \<open>
  \<open>kthread_exit\<close> in a thread, in two steps: all up to \<open>state = ZOMBIE\<close> runs without \<open>ptable.lock\<close>;
  then it takes the lock and calls \<open>sched\<close>. In a process that is not a thread it does nothing.
\<close>

definition kthread_exit :: "int \<Rightarrow> nat \<Rightarrow> (kproc, 'b) pstate_scheme \<Rightarrow> (kproc, 'b) pstate_scheme outcome" where
  "kthread_exit v cur s =
     (if is_thread (prc cur s) = TRUE then
        kbind (drop_files cur s) (\<lambda>s.
          Ret (upd_proc cur (\<lambda>p. p\<lparr>p_killed := False, thread_exit_value := v, oncpu := -1, p_state := ZOMBIE\<rparr>) s))
      else Ret s)"

definition kthread_exit_sched :: "nat \<Rightarrow> (kproc, 'b) pstate_scheme \<Rightarrow> (kproc, 'b) pstate_scheme outcome" where
  "kthread_exit_sched cur s = sched cur s"

text \<open>The checks that \<open>exit\<close>, \<open>wait\<close> and \<open>kill\<close> make first; \<open>f\<close> is the name in the messages.\<close>

definition thread_guard :: "string \<Rightarrow> nat \<Rightarrow> (kproc, 'b) pstate_scheme \<Rightarrow> unit outcome" where
  "thread_guard f cur s =
     (if is_thread (prc cur s) = TRUE then Panic (''called '' @ f @ '' on thread'')
      else if thread_count (prc cur s) > 0 then Panic (''called '' @ f @ '' on thread0 with children'')
      else Ret ())"

definition exit :: "nat \<Rightarrow> (kproc, 'b) pstate_scheme \<Rightarrow> (kproc, 'b) pstate_scheme outcome" where
  "exit cur s = kbind (thread_guard ''exit'' cur s) (\<lambda>_. exit_common cur s)"

definition wait_start :: "nat \<Rightarrow> (kproc, 'b) pstate_scheme \<Rightarrow> (wait_result \<times> (kproc, 'b) pstate_scheme) outcome" where
  "wait_start cur s = kbind (thread_guard ''wait'' cur s) (\<lambda>_. wait_round cur s)"

definition kill_checked :: "nat \<Rightarrow> int \<Rightarrow> (kproc, 'b) pstate_scheme \<Rightarrow> (int \<times> (kproc, 'b) pstate_scheme) outcome" where
  "kill_checked cur pid s = kbind (thread_guard ''kill'' cur s) (\<lambda>_. Ret (kill pid s))"

section \<open>System calls\<close>

definition sys_kthread_create :: "rtcdate \<Rightarrow> nat \<Rightarrow> (kproc, 'b) pstate_scheme \<Rightarrow> (int \<times> (kproc, 'b) pstate_scheme) outcome" where
  "sys_kthread_create date cur s =
     (case argint 0 s of None \<Rightarrow> Ret (-1, s) | Some func \<Rightarrow>
      case argint 1 s of None \<Rightarrow> Ret (-1, s) | Some arg_ptr \<Rightarrow>
      case argint 2 s of None \<Rightarrow> Ret (-1, s) | Some tstack \<Rightarrow>
        kthread_create date (to_uint func) (to_uint arg_ptr) (to_uint tstack) cur s)"

definition sys_kthread_join :: "nat \<Rightarrow> (kproc, 'b) pstate_scheme \<Rightarrow>
    ((int + nat option \<times> nat) \<times> (kproc, 'b) pstate_scheme) outcome" where
  "sys_kthread_join cur s = (case argint 0 s of None \<Rightarrow> Ret (Inl (-1), s) | Some t \<Rightarrow> kthread_join t cur s)"

text \<open>\<open>None\<close>: the thread goes on to \<open>kthread_exit_sched\<close>.\<close>

definition sys_kthread_exit :: "nat \<Rightarrow> (kproc, 'b) pstate_scheme \<Rightarrow> (int option \<times> (kproc, 'b) pstate_scheme) outcome" where
  "sys_kthread_exit cur s =
     (case argint 0 s of
        None \<Rightarrow> Ret (Some (-1), s)
      | Some v \<Rightarrow> kbind (kthread_exit v cur s) (\<lambda>t.
          Ret (if is_thread (prc cur s) = TRUE then None else Some 0, t)))"

definition sys_kill :: "nat \<Rightarrow> (kproc, 'b) pstate_scheme \<Rightarrow> (int \<times> (kproc, 'b) pstate_scheme) outcome" where
  "sys_kill cur s = (case argint 0 s of None \<Rightarrow> Ret (-1, s) | Some pid \<Rightarrow> kill_checked cur pid s)"

definition sys_sbrk :: "nat \<Rightarrow> nat \<Rightarrow> (kproc, 'b) pstate_scheme \<Rightarrow> int \<times> (kproc, 'b) pstate_scheme" where
  "sys_sbrk cur newsz s =
     (case argint 0 s of
        None \<Rightarrow> (-1, s)
      | Some n \<Rightarrow> (case growproc cur n newsz s of
          (r, t) \<Rightarrow> (if r < 0 then -1 else s32 (p_sz (prc cur s)), t)))"

section \<open>The process listing\<close>

text \<open>The columns cpu, thread count, is-thread mark and thread id, by the eight cases of the code.\<close>

definition cps_thread :: "kproc \<Rightarrow> cps_field list" where
  "cps_thread p =
     (if oncpu p \<ge> 0 then
        (if thread_count p \<noteq> 0 then
           (if is_thread p \<noteq> 0 then [Num (oncpu p), Num (int (thread_count p)), Chr CHR ''y'', Num (int (tid p))]
            else [Num (oncpu p), Num (int (thread_count p)), Empty, Num (int (tid p))])
         else
           (if is_thread p \<noteq> 0 then [Num (oncpu p), Empty, Chr CHR ''y'', Num (int (tid p))]
            else [Num (oncpu p), Empty, Empty, Num (int (tid p))]))
      else
        (if thread_count p \<noteq> 0 then
           (if is_thread p \<noteq> 0 then [Empty, Num (int (thread_count p)), Chr CHR ''y'', Num (int (tid p))]
            else [Empty, Num (int (thread_count p)), Empty, Num (int (tid p))])
         else
           (if is_thread p \<noteq> 0 then [Empty, Empty, Chr CHR ''y'', Num (int (tid p))]
            else [Empty, Empty, Empty, Num (int (tid p))])))"

text \<open>
  The first \<open>cprintf\<close> of a line has a \<open>%u\<close> with no argument: \<open>junk\<close> is the word it prints as the
  size.
\<close>

definition cps_line :: "(nat \<Rightarrow> nat) \<Rightarrow> (kproc, 'b) pstate_scheme \<Rightarrow> nat \<Rightarrow> cps_field list" where
  "cps_line junk s i =
     (let p = prc i s
      in [Num (p_pid p), Num (case p_parent p of None \<Rightarrow> 1 | Some q \<Rightarrow> p_pid (prc q s)),
          Str (map (\<lambda>b. char_of (unat b)) (takeWhile (\<lambda>c. c \<noteq> 0) (p_name p))), Str (state_name (p_state p)), Num (int (junk i))]
         @ cps_date (begin_date p) @ [Num (int (ticks_total p)), Num (int (sched_times p))] @ cps_thread p)"

definition sys_cps :: "(nat \<Rightarrow> nat) \<Rightarrow> (kproc, 'b) pstate_scheme \<Rightarrow> cps_field list list" where
  "sys_cps junk s = map (cps_line junk s) (filter (\<lambda>i. p_state (prc i s) \<noteq> UNUSED) [0..<NPROC])"

text \<open>A line of \<open>procdump\<close>, without the call stack of a sleeping process.\<close>

definition procdump :: "(kproc, 'b) pstate_scheme \<Rightarrow> (int \<times> string \<times> byte list) list" where
  "procdump s = map (\<lambda>i. (p_pid (prc i s), state_name (p_state (prc i s)), takeWhile (\<lambda>c. c \<noteq> 0) (p_name (prc i s))))
     (filter (\<lambda>i. p_state (prc i s) \<noteq> UNUSED) [0..<NPROC])"

end
