(* ===== verification/Thread_System.thy ===== *)
theory Thread_System
  imports Kthreads
begin

text \<open>
  Processes and kernel threads on several processors. A processor scans the process table or runs a
  process; a process that has given up the processor within a system call goes on there when it is chosen
  again. A step is what one processor does under \<open>ptable.lock\<close>, or before taking it, and the
  hand-over of the lock from a process to the scheduler is a point where other processors may step.

  Some steps are coarser than the code. \<open>fork\<close>, \<open>kthread_create\<close> and \<open>exit\<close> are single steps, although the code takes and
  releases \<open>ptable.lock\<close> several times in them, copies memory and closes files in between without it, and
  \<open>kthread_create\<close> changes \<open>next_tid\<close> and \<open>thread_count\<close> of the parent without it; so is the first part of \<open>kthread_exit\<close>, up to
  its acquisition of the lock, in which the files are closed and the state becomes ZOMBIE. The step of \<open>kthread_exit\<close> is
  split at the lock because of the race there. Interleavings of other processors inside these steps are
  not in the model, and the theorems do not speak about them.
\<close>

section \<open>The system\<close>

datatype kpc = User | In_sleep | In_wait | In_join "nat option" nat | Exiting
datatype cpu_state = Scan nat | On nat kpc

record ksys = "kproc pstate" +
  cpus :: "nat \<Rightarrow> cpu_state"
  saved :: "nat \<Rightarrow> kpc"

definition set_pc :: "nat \<Rightarrow> nat \<Rightarrow> kpc \<Rightarrow> ksys \<Rightarrow> ksys" where
  "set_pc c i k s = s\<lparr>cpus := (cpus s)(c := On i k)\<rparr>"

text \<open>The body of the loop of \<open>scheduler\<close> before and after \<open>swtch\<close>.\<close>

definition dispatch :: "nat \<Rightarrow> nat \<Rightarrow> ksys \<Rightarrow> ksys" where
  "dispatch c i s =
     set_pc c i (if p_context (prc i s) = Forkret then User else saved s i)
       (upd_proc i (\<lambda>p. p\<lparr>oncpu := int c\<rparr>) (switch_to i s))"

definition switch_out :: "nat \<Rightarrow> nat \<Rightarrow> kpc \<Rightarrow> ksys \<Rightarrow> ksys" where
  "switch_out c i k s =
     (let s = upd_proc i (\<lambda>p. p\<lparr>oncpu := -1\<rparr>) (account i s)
      in s\<lparr>cpus := (cpus s)(c := Scan (i + 1)), saved := (saved s)(i := k)\<rparr>)"

definition wait_done :: "nat \<Rightarrow> nat \<Rightarrow> wait_result \<Rightarrow> ksys \<Rightarrow> ksys" where
  "wait_done c i r s = (if r = Must_sleep then switch_out c i In_wait s else set_pc c i User s)"

definition join_done :: "nat \<Rightarrow> nat \<Rightarrow> int + nat option \<times> nat \<Rightarrow> ksys \<Rightarrow> ksys" where
  "join_done c i r s = (case r of Inl v \<Rightarrow> set_pc c i User s | Inr (q, j) \<Rightarrow> switch_out c i (In_join q j) s)"

text \<open>\<open>kstep c l s t\<close>: processor \<open>c\<close> goes from \<open>s\<close> to \<open>t\<close>; \<open>l\<close> is the slot it has chosen, if it has.\<close>

inductive kstep :: "nat \<Rightarrow> nat option \<Rightarrow> ksys \<Rightarrow> ksys \<Rightarrow> bool" where
  pick: "cpus s c = Scan k \<Longrightarrow> pick k s = Some i \<Longrightarrow> kstep c (Some i) s (dispatch c i s)"
| pass: "cpus s c = Scan k \<Longrightarrow> pick k s = None \<Longrightarrow> kstep c None s (s\<lparr>cpus := (cpus s)(c := Scan 0)\<rparr>)"
| yield: "cpus s c = On i User \<Longrightarrow> yield i s = Ret u \<Longrightarrow> kstep c None s (switch_out c i User u)"
| sleep: "cpus s c = On i User \<Longrightarrow> sleep i ch s = Ret u \<Longrightarrow> kstep c None s (switch_out c i In_sleep u)"
| resume: "cpus s c = On i In_sleep \<Longrightarrow> kstep c None s (set_pc c i User (sleep_resumed i s))"
| wake: "cpus s c = On i User \<Longrightarrow> kstep c None s (wakeup ch s)"
| kill: "cpus s c = On i User \<Longrightarrow> kill_checked i pid s = Ret (r, u) \<Longrightarrow> kstep c None s u"
| fork: "cpus s c = On i User \<Longrightarrow> fork date pg i s = Ret (r, u) \<Longrightarrow> kstep c None s u"
| create: "cpus s c = On i User \<Longrightarrow> kthread_create date f a st i s = Ret (r, u) \<Longrightarrow> kstep c None s u"
| grow: "cpus s c = On i User \<Longrightarrow> growproc i n sz s = (r, u) \<Longrightarrow> kstep c None s u"
| exit: "cpus s c = On i User \<Longrightarrow> exit i s = Ret u \<Longrightarrow> kstep c None s (switch_out c i User u)"
| wait: "cpus s c = On i User \<Longrightarrow> wait_start i s = Ret (r, u) \<Longrightarrow> kstep c None s (wait_done c i r u)"
| wait_again: "cpus s c = On i In_wait \<Longrightarrow> wait_round i (sleep_resumed i s) = Ret (r, u) \<Longrightarrow>
    kstep c None s (wait_done c i r u)"
| join: "cpus s c = On i User \<Longrightarrow> kthread_join t i s = Ret (r, u) \<Longrightarrow> kstep c None s (join_done c i r u)"
| join_again: "cpus s c = On i (In_join q j) \<Longrightarrow> join_test q j i s = Ret (r, u) \<Longrightarrow>
    kstep c None s (join_done c i (case r of Some v \<Rightarrow> Inl v | None \<Rightarrow> Inr (q, j)) u)"
| thread_exit: "cpus s c = On i User \<Longrightarrow> is_thread (prc i s) = TRUE \<Longrightarrow> kthread_exit v i s = Ret u \<Longrightarrow>
    kstep c None s (set_pc c i Exiting u)"
| thread_gone: "cpus s c = On i Exiting \<Longrightarrow> kthread_exit_sched i s = Ret u \<Longrightarrow> kstep c None s (switch_out c i User u)"
| tick: "kstep c None s (timer_tick s)"

text \<open>The kernel starts with the first process ready to run and all processors scanning.\<close>

inductive ksys_run :: "ksys \<Rightarrow> bool" where
  boot: "length (procs s) = NPROC \<Longrightarrow> \<forall>i < NPROC. i \<noteq> initproc s \<longrightarrow> p_state (prc i s) = UNUSED \<Longrightarrow>
    initproc s < NPROC \<Longrightarrow> p_state (prc (initproc s) s) = RUNNABLE \<Longrightarrow> p_kstack (prc (initproc s) s) \<noteq> None \<Longrightarrow>
    \<forall>c. cpus s c = Scan 0 \<Longrightarrow> ksys_run s"
| step: "ksys_run s \<Longrightarrow> kstep c l s t \<Longrightarrow> ksys_run t"

section \<open>What operations do to the other processes\<close>

definition has_stack :: "kproc \<Rightarrow> bool" where
  "has_stack p \<longleftrightarrow> p_state p = UNUSED \<or> p_state p = EMBRYO \<or> p_kstack p \<noteq> None"

text \<open>\<open>calm p q\<close>: between \<open>p\<close> and \<open>q\<close> the process has neither been put on a processor nor taken off.\<close>

definition calm :: "kproc \<Rightarrow> kproc \<Rightarrow> bool" where
  "calm p q \<longleftrightarrow> (p_state q = RUNNING \<longleftrightarrow> p_state p = RUNNING) \<and> (p_state p = RUNNING \<longrightarrow> oncpu q = oncpu p) \<and>
     (has_stack p \<longrightarrow> has_stack q)"

definition benign :: "(kproc, 'b) pstate_scheme \<Rightarrow> (kproc, 'b) pstate_scheme \<Rightarrow> bool" where
  "benign s t \<longleftrightarrow> list_all2 calm (procs s) (procs t) \<and> pstate.more t = pstate.more s"

lemma calm_refl [simp]: "calm p p"
  by (simp add: calm_def)

lemma calm_trans: "calm p q \<Longrightarrow> calm q r \<Longrightarrow> calm p r"
  by (auto simp: calm_def)

lemma benign_refl: "benign s s"
  by (simp add: benign_def list_all2_refl)

lemma benign_trans [trans]: "benign s t \<Longrightarrow> benign t u \<Longrightarrow> benign s u"
  unfolding benign_def using list_all2_trans [of calm calm calm] calm_trans by metis

lemma benign_nth: "benign s t \<Longrightarrow> i < length (procs s) \<Longrightarrow> calm (prc i s) (prc i t)"
  by (simp add: benign_def list_all2_nthD)

lemma benign_length: "benign s t \<Longrightarrow> length (procs t) = length (procs s)"
  by (auto simp: benign_def dest: list_all2_lengthD)

lemma benign_procs: "procs t = procs s \<Longrightarrow> pstate.more t = pstate.more s \<Longrightarrow> benign s t"
  by (simp add: benign_def list_all2_refl)

lemma benign_upd:
  assumes "\<And>p. p = prc i s \<Longrightarrow> calm p (f p)" shows "benign s (upd_proc i f s)"
proof -
  have "calm (prc j s) ((procs s)[i := f (prc i s)] ! j)" if "j < length (procs s)" for j
    using assms [OF refl] that by (cases "j = i") simp_all
  then show ?thesis by (simp add: benign_def upd_proc_def list_all2_conv_all_nth)
qed

lemma benign_wakeup1: "benign s (wakeup1 ch s)"
  by (auto simp: benign_def wakeup1_def list_all2_conv_all_nth calm_def has_stack_def)

lemma benign_files: "files_step cur s t \<Longrightarrow> benign s t"
proof -
  assume f: "files_step cur s t"
  obtain os cw where c: "prc cur t = (prc cur s)\<lparr>p_ofile := os, p_cwd := cw\<rparr>"
    using files_step_nth(3) [OF f] by blast
  have "calm (prc j s) (prc j t)" for j
    using files_step_nth(2) [OF f, of j] c by (cases "j = cur") (simp_all add: calm_def has_stack_def)
  then show ?thesis
    using files_step_nth(1) [OF f] f by (simp add: benign_def files_step_def list_all2_conv_all_nth)
qed

lemma benign_kill: "benign s (snd (kill pid s))"
  by (auto simp: kill_def mark_killed_def calm_def has_stack_def intro!: benign_refl benign_upd split: option.split)

lemma benign_grow: "growproc i n sz s = (r, t) \<Longrightarrow> benign s t"
  by (auto simp: growproc_def calm_def has_stack_def intro!: benign_refl benign_upd split: if_splits)

lemma benign_put_page: "benign s (put_page k s)" "get_page s = (r, t) \<Longrightarrow> benign s t"
proof -
  show "benign s (put_page k s)" by (rule benign_procs) (simp_all add: put_page_def)
  show "benign s t" if "get_page s = (r, t)"
    by (rule benign_procs) (use that in \<open>auto simp: get_page_def split: list.splits\<close>)
qed

lemma benign_tick: "benign s (timer_tick s)"
proof -
  have "benign s (s\<lparr>ticks := u32 (ticks s + 1)\<rparr>)" by (rule benign_procs) simp_all
  then show ?thesis unfolding timer_tick_def wakeup_def using benign_wakeup1 by (rule benign_trans)
qed

text \<open>A slot that a new process is being made in: it has a stack and is not running.\<close>

definition fresh :: "nat \<Rightarrow> (kproc, 'b) pstate_scheme \<Rightarrow> bool" where
  "fresh i s \<longleftrightarrow> i < length (procs s) \<and> p_kstack (prc i s) \<noteq> None \<and> p_state (prc i s) = EMBRYO"

lemma fresh_files: "files_step i s t \<Longrightarrow> fresh i s \<Longrightarrow> fresh i t"
  using files_step_nth(1,3) [of i s t] by (auto simp: fresh_def)

lemma fresh_upd:
  "p_state (f (prc i s)) = EMBRYO \<Longrightarrow> p_kstack (f (prc i s)) \<noteq> None \<Longrightarrow> fresh i s \<Longrightarrow> fresh i (upd_proc i f s)"
  by (simp add: fresh_def)

lemma benign_fresh:
  assumes "fresh i s" and "p_state (f (prc i s)) \<noteq> RUNNING" and "p_kstack (f (prc i s)) = p_kstack (prc i s)"
  shows "benign s (upd_proc i f s)"
  using assms by (intro benign_upd) (auto simp: fresh_def calm_def has_stack_def)

lemma allocproc_benign:
  assumes "allocproc date s = (r, t)" and "length (procs s) = NPROC"
  shows "benign s t" "r = Some i \<Longrightarrow> fresh i t" "r = Some i \<Longrightarrow> p_state (prc i s) = UNUSED"
proof -
  have "benign s t \<and> (\<forall>i. r = Some i \<longrightarrow> fresh i t \<and> p_state (prc i s) = UNUSED)"
  proof (cases "find (\<lambda>i. p_state (prc i s) = UNUSED) [0..<NPROC]")
    case None
    then show ?thesis using assms benign_refl by (auto simp: allocproc_def allocproc_with_def)
  next
    case (Some j)
    from find_Some_in_set [OF this] have j: "j < length (procs s)" "p_state (prc j s) = UNUSED" using assms(2) by simp_all
    let ?f = "\<lambda>p. p\<lparr>p_state := EMBRYO, p_pid := nextpid s\<rparr>"
    let ?u = "upd_proc j ?f (s\<lparr>nextpid := nextpid s + 1\<rparr>)"
    obtain k v where k: "get_page ?u = (k, v)" by (cases "get_page ?u") simp
    have "benign s (s\<lparr>nextpid := nextpid s + 1\<rparr>)" by (rule benign_procs) simp_all
    moreover have "benign (s\<lparr>nextpid := nextpid s + 1\<rparr>) ?u"
      by (rule benign_upd) (use j in \<open>simp add: calm_def has_stack_def\<close>)
    ultimately have u: "benign s ?u" by (rule benign_trans)
    have pv: "procs v = procs ?u" by (rule get_page_procs [OF k])
    have uj: "prc j ?u = ?f (prc j s)" using j by (simp add: upd_proc_def)
    have vj: "prc j v = ?f (prc j s)" using pv uj by simp
    have lv: "j < length (procs v)" using j unfolding pv by simp
    have sv: "benign s v" using u benign_put_page(2) [OF k] by (rule benign_trans)
    show ?thesis
    proof (cases k)
      case None
      have t: "t = upd_proc j (\<lambda>p. p\<lparr>p_kstack := None, p_state := UNUSED\<rparr>) v" "r = None"
        using assms(1) Some k None by (auto simp: allocproc_def allocproc_with_def Let_def)
      have "benign v t" unfolding t(1) by (rule benign_upd) (simp add: vj calm_def has_stack_def)
      then show ?thesis using sv t(2) benign_trans by blast
    next
      case page: (Some x)
      let ?g = "\<lambda>p. init_threads (p\<lparr>p_kstack := Some x, p_tf := junk_tf, p_context := Forkret,
           begin_date := date, ticks_total := 0, sched_times := 0\<rparr>)"
      have t: "t = upd_proc j ?g v" "r = Some j"
        using assms(1) Some k page by (auto simp: allocproc_def allocproc_with_def Let_def)
      have "benign v t" unfolding t(1) by (rule benign_upd) (simp add: vj calm_def has_stack_def init_threads_def)
      moreover have "fresh j t" using lv vj by (simp add: t(1) fresh_def init_threads_def)
      ultimately show ?thesis using sv t(2) j(2) benign_trans by blast
    qed
  qed
  then show "benign s t" "r = Some i \<Longrightarrow> fresh i t" "r = Some i \<Longrightarrow> p_state (prc i s) = UNUSED" by simp_all
qed

text \<open>The last part of \<open>fork\<close> and \<open>kthread_create\<close>.\<close>

lemma finish_benign:
  assumes f: "fresh np s" and r: "kfor [0..<nat NOFILE] (dup_file cur np) s = Ret a" "dup_cwd cur np a = Ret b"
    and t: "t = upd_proc np (\<lambda>p. p\<lparr>p_state := RUNNABLE\<rparr>) (upd_proc np (\<lambda>p. p\<lparr>p_name := nm\<rparr>) b)"
  shows "benign s t"
proof -
  have a: "files_step np s a" using r(1) by (rule files_step_kfor) (rule dup_file_step)
  have b: "files_step np a b" by (rule dup_cwd_step [OF r(2)])
  have fb: "fresh np b" using fresh_files [OF b fresh_files [OF a f]] .
  let ?c = "upd_proc np (\<lambda>p. p\<lparr>p_name := nm\<rparr>) b"
  have fc: "fresh np ?c" by (rule fresh_upd [OF _ _ fb]) (use fb in \<open>simp_all add: fresh_def\<close>)
  have "benign b ?c" by (rule benign_fresh [OF fb]) (use fb in \<open>simp_all add: fresh_def\<close>)
  moreover have "benign ?c t" unfolding t by (rule benign_fresh [OF fc]) simp_all
  ultimately show ?thesis using benign_files [OF a] benign_files [OF b] benign_trans by blast
qed

lemma free_kstack_Ret: "free_kstack k s = Ret t \<Longrightarrow> benign s t \<and> procs t = procs s"
  using benign_put_page(1) benign_refl by (auto simp: free_kstack_def split: option.splits)

lemma fork_benign:
  fixes s :: "(kproc, 'b) pstate_scheme"
  assumes "fork date pg cur s = Ret (r, t)" and len: "length (procs s) = NPROC"
  shows "benign s t"
proof -
  obtain al u where al: "allocproc date s = (al, u)" by (cases "allocproc date s") simp
  note ab = allocproc_benign [OF al len]
  show ?thesis
  proof (cases al)
    case None
    then show ?thesis using assms(1) al ab(1) by (simp add: fork_def fork_with_def allocproc_def [symmetric])
  next
    case (Some np)
    have fr: "fresh np u" by (rule ab(2) [OF Some])
    show ?thesis
    proof (cases pg)
      case None
      then obtain w where t: "t = upd_proc np (\<lambda>p. p\<lparr>p_kstack := None, p_state := UNUSED\<rparr>) w"
          and "free_kstack (p_kstack (prc np u)) u = Ret w"
        using assms(1) al Some by (auto simp: fork_def fork_with_def allocproc_def [symmetric] outcome_simps)
      then have w: "benign u w" "procs w = procs u" using free_kstack_Ret by auto
      have "benign w t" unfolding t
        by (rule benign_upd) (use fr w(2) in \<open>simp add: fresh_def calm_def has_stack_def\<close>)
      then show ?thesis using ab(1) w(1) benign_trans by blast
    next
      case (Some d)
      let ?f = "\<lambda>p. p\<lparr>p_pgdir := Some d, p_sz := p_sz (prc cur u), p_parent := Some cur, p_tf := (p_tf (prc cur u))\<lparr>tf_eax := 0\<rparr>\<rparr>"
      let ?u = "u\<lparr>vspaces := d # vspaces u\<rparr>"
      obtain a b where r: "kfor [0..<nat NOFILE] (dup_file cur np) (upd_proc np ?f ?u) = Ret a" "dup_cwd cur np a = Ret b"
          "t = upd_proc np (\<lambda>p. p\<lparr>p_state := RUNNABLE\<rparr>) (upd_proc np (\<lambda>p. p\<lparr>p_name := copy_name (p_name (prc cur b))\<rparr>) b)"
        using assms(1) al \<open>al = Some np\<close> Some
        by (auto simp: fork_def fork_with_def allocproc_def [symmetric] outcome_simps Let_def)
      have fu: "fresh np ?u" using fr by (simp add: fresh_def)
      have 1: "benign u ?u" by (rule benign_procs) simp_all
      have 2: "benign ?u (upd_proc np ?f ?u)" by (rule benign_fresh [OF fu]) (use fu in \<open>simp_all add: fresh_def\<close>)
      have "fresh np (upd_proc np ?f ?u)" by (rule fresh_upd [OF _ _ fu]) (use fu in \<open>simp_all add: fresh_def\<close>)
      from finish_benign [OF this r] show ?thesis using ab(1) 1 2 benign_trans by blast
    qed
  qed
qed

lemma calm_fields:
  "p_state q = p_state p \<Longrightarrow> p_kstack q = p_kstack p \<Longrightarrow> oncpu q = oncpu p \<Longrightarrow> calm p q"
  by (simp add: calm_def has_stack_def)

lemma benign_calm: "(\<And>p. p_state (f p) = p_state p \<and> p_kstack (f p) = p_kstack p \<and> oncpu (f p) = oncpu p) \<Longrightarrow>
    benign s (upd_proc i f s)"
  by (rule benign_upd) (simp add: calm_fields)

lemma fresh_calm:
  assumes "\<And>p. p_state (f p) = p_state p \<and> p_kstack (f p) = p_kstack p" and "fresh np s"
  shows "fresh np (upd_proc i f s)"
  using assms by (cases "i = np") (simp_all add: fresh_def)

lemma fresh_procs: "procs t = procs s \<Longrightarrow> fresh i t = fresh i s"
  by (simp add: fresh_def)

lemma calm_both:
  assumes "fresh np s" and "\<And>p. p_state (f p) = p_state p \<and> p_kstack (f p) = p_kstack p \<and> oncpu (f p) = oncpu p"
  shows "benign s (upd_proc i f s) \<and> fresh np (upd_proc i f s)"
  using benign_calm [OF assms(2)] fresh_calm [OF _ assms(1)] assms(2) by simp

lemma kstore_benign: "kstore cur a v s = Ret t \<Longrightarrow> benign s t \<and> procs t = procs s"
proof -
  assume "kstore cur a v s = Ret t"
  then have "procs t = procs s" "pstate.more t = pstate.more s" by (auto simp: kstore_def split: if_splits)
  then show ?thesis using benign_procs by blast
qed

lemma push_args_benign: "push_args cur st a t s = Ret (e, u) \<Longrightarrow> benign s u \<and> procs u = procs s"
  by (auto simp: push_args_def Let_def outcome_simps dest!: kstore_benign intro: benign_trans)

text \<open>\<open>kthread_create\<close>, when it finds a slot, by its steps.\<close>

lemma create_steps:
  assumes "kthread_create date func a st cur s = Ret (r, t)" and "st mod PGSIZE = 0"
    and "allocproc date s = (Some np, u)"
  obtains v q e w x y where "v = set_parent cur np (share_process func cur np u)" "p_parent (prc np v) = Some q"
    "push_args cur st a (next_tid (prc q v)) (count_thread q v) = Ret (e, w)"
    "kfor [0..<nat NOFILE] (dup_file cur np) (enter_thread np (next_tid (prc q v)) e w) = Ret x"
    "dup_cwd cur np x = Ret y" "t = start_thread cur np y" "r = int (tid (prc np y))"
proof -
  have d: "deref z = Ret q \<longleftrightarrow> z = Some q" for z q by (cases z) auto
  show ?thesis using assms that by (auto simp: kthread_create_def Let_def outcome_simps d)
qed

lemma create_benign:
  fixes s :: "(kproc, 'b) pstate_scheme"
  assumes r: "kthread_create date func a st cur s = Ret (r, t)" and len: "length (procs s) = NPROC"
  shows "benign s t"
proof (cases "st mod PGSIZE = 0")
  case False
  then show ?thesis using r benign_refl by (simp add: kthread_create_def)
next
  case st: True
  obtain al u where al: "allocproc date s = (al, u)" by (cases "allocproc date s") simp
  note ab = allocproc_benign [OF al len]
  show ?thesis
  proof (cases al)
    case None
    then show ?thesis using r al st ab(1) by (simp add: kthread_create_def)
  next
    case (Some np)
    have fr: "fresh np u" by (rule ab(2) [OF Some])
    obtain v q e w x y where c: "v = set_parent cur np (share_process func cur np u)"
        "push_args cur st a (next_tid (prc q v)) (count_thread q v) = Ret (e, w)"
        "kfor [0..<nat NOFILE] (dup_file cur np) (enter_thread np (next_tid (prc q v)) e w) = Ret x"
        "dup_cwd cur np x = Ret y" "t = start_thread cur np y"
      by (rule create_steps [OF r st al [unfolded Some]])
    let ?w = "share_process func cur np u"
    have w: "benign u ?w \<and> fresh np ?w"
      unfolding share_process_def using fr by (intro conjI benign_calm fresh_upd) (simp_all add: fresh_def)
    have v: "benign ?w v \<and> fresh np v"
    proof -
      let ?p = "upd_proc np (\<lambda>p. p\<lparr>p_parent := Some cur\<rparr>) ?w"
      have p: "benign ?w ?p \<and> fresh np ?p" by (rule calm_both) (use w in simp_all)
      then have "fresh np ?p" ..
      then have "benign ?p (upd_proc cur (\<lambda>p. p\<lparr>is_parent := 1\<rparr>) ?p) \<and> fresh np (upd_proc cur (\<lambda>p. p\<lparr>is_parent := 1\<rparr>) ?p)"
        by (rule calm_both) simp
      moreover have "benign ?w (upd_proc np (\<lambda>p. p\<lparr>p_parent := z\<rparr>) ?w) \<and> fresh np (upd_proc np (\<lambda>p. p\<lparr>p_parent := z\<rparr>) ?w)" for z
        by (rule calm_both) (use w in simp_all)
      ultimately show ?thesis unfolding c(1) set_parent_def using p benign_trans by auto
    qed
    then have "fresh np v" ..
    then have ct: "benign v (count_thread q v) \<and> fresh np (count_thread q v)"
      unfolding count_thread_def by (rule calm_both) simp
    have pa: "benign (count_thread q v) w \<and> fresh np w"
      using push_args_benign [OF c(2)] ct fresh_procs by blast
    let ?e = "enter_thread np (next_tid (prc q v)) e w"
    have e: "benign w ?e \<and> fresh np ?e"
      unfolding enter_thread_def using pa by (intro conjI benign_calm fresh_upd) (simp_all add: fresh_def)
    have "benign ?e t" using finish_benign [OF _ c(3,4)] e c(5) unfolding start_thread_def by blast
    then show ?thesis using ab(1) w v ct pa e benign_trans by meson
  qed
qed

lemma freevm_Ret: "freevm d s = Ret t \<Longrightarrow> benign s t \<and> procs t = procs s"
  by (auto simp: freevm_def intro!: benign_procs split: option.splits)

lemma reap_benign:
  fixes s :: "(kproc, 'b) pstate_scheme"
  assumes r: "reap i s = Ret t" and z: "p_state (prc i s) = ZOMBIE" shows "benign s t"
proof -
  obtain u v where u: "free_kstack (p_kstack (prc i s)) s = Ret u" "freevm (p_pgdir (prc i u)) u = Ret v"
      "t = upd_proc i (\<lambda>p. p\<lparr>p_kstack := None, p_pid := 0, p_parent := None, p_name := (p_name p)[0 := 0],
         p_killed := False, p_state := UNUSED\<rparr>) v"
    using r by (auto simp: reap_def outcome_simps)
  have p: "procs v = procs s" "benign s v"
    using free_kstack_Ret [OF u(1)] freevm_Ret [OF u(2)] benign_trans by auto
  have "benign v t" unfolding u(3) by (rule benign_upd) (simp add: p(1) z calm_def has_stack_def)
  then show ?thesis using p(2) benign_trans by blast
qed

lemma join_reap_benign:
  fixes s :: "(kproc, 'b) pstate_scheme"
  assumes r: "join_reap q i s = Ret (v, t)" and z: "p_state (prc i s) = ZOMBIE" shows "benign s t"
proof -
  obtain o' where o': "q = Some o'" using r by (cases q) (auto simp: join_reap_def)
  let ?u = "upd_proc o' (\<lambda>p. p\<lparr>thread_count := u16 (thread_count p + 65535)\<rparr>) s"
  obtain w where w: "free_kstack (p_kstack (prc i ?u)) ?u = Ret w"
      "t = upd_proc i (\<lambda>p. p\<lparr>p_kstack := None, p_pid := -1, p_parent := None, p_name := (p_name p)[0 := 0],
                p_sz := 0, p_killed := False, p_state := UNUSED\<rparr>) w"
    using r o' by (auto simp: join_reap_def outcome_simps Let_def)
  have u: "benign s ?u" by (rule benign_calm) simp
  have p: "procs w = procs ?u" "benign ?u w" using free_kstack_Ret [OF w(1)] by simp_all
  have "p_state (prc i ?u) = ZOMBIE"
    using z by (cases "i = o'"; cases "o' < length (procs s)") (simp_all add: upd_proc_def list_update_beyond)
  then have "benign w t" unfolding w(2) by (intro benign_upd) (simp add: p(1) calm_def has_stack_def)
  then show ?thesis using u p(2) benign_trans by blast
qed

lemma adopt_benign: "benign s (adopt cur i s)" for s :: "(kproc, 'b) pstate_scheme"
proof -
  let ?u = "upd_proc i (\<lambda>p. p\<lparr>p_parent := Some (initproc s)\<rparr>) s"
  have u: "benign s ?u" by (rule benign_calm) simp
  then have "benign s (wakeup1 (Some (Chan_Proc (initproc ?u))) ?u)" using benign_wakeup1 by (rule benign_trans)
  then show ?thesis using u benign_refl [of s] by (simp add: adopt_def Let_def)
qed

lemma adopt_all_benign: "benign s (fold (adopt cur) xs s)" for s :: "(kproc, 'b) pstate_scheme"
proof (induction xs arbitrary: s)
  case (Cons x xs)
  show ?case unfolding fold_Cons o_apply by (rule benign_trans [OF adopt_benign Cons.IH])
qed (simp add: benign_refl)

text \<open>\<open>leaves i s t\<close>: process \<open>i\<close> has stopped running, with its stack, and the others are calm.\<close>

definition leaves :: "nat \<Rightarrow> (kproc, 'b) pstate_scheme \<Rightarrow> (kproc, 'b) pstate_scheme \<Rightarrow> bool" where
  "leaves i s t \<longleftrightarrow> length (procs t) = length (procs s) \<and> pstate.more t = pstate.more s \<and>
     (\<forall>j < length (procs s). j \<noteq> i \<longrightarrow> calm (prc j s) (prc j t)) \<and>
     p_state (prc i t) \<noteq> RUNNING \<and> has_stack (prc i t)"

lemma leaves_upd:
  assumes b: "benign s u" and i: "i < length (procs s)" "p_state (prc i s) = RUNNING" "has_stack (prc i s)"
    and f: "p_state (f (prc i u)) \<noteq> RUNNING" "p_kstack (f (prc i u)) = p_kstack (prc i u)"
  shows "leaves i s (upd_proc i f u)"
proof -
  have l: "length (procs u) = length (procs s)" by (rule benign_length [OF b])
  have "calm (prc i s) (prc i u)" by (rule benign_nth [OF b i(1)])
  then have "p_kstack (prc i u) \<noteq> None" using i by (auto simp: calm_def has_stack_def)
  then show ?thesis
    using b f i l benign_nth [OF b] by (simp add: leaves_def has_stack_def benign_def)
qed

lemma sched_leaves:
  fixes s :: "(kproc, 'b) pstate_scheme"
  assumes "sched i (upd_proc i f u) = Ret t" and "benign s u" and "i < length (procs s)"
    "p_state (prc i s) = RUNNING" "has_stack (prc i s)" and "\<And>p. p_kstack (f p) = p_kstack p"
  shows "leaves i s t"
proof -
  have l: "i < length (procs u)" using benign_length [OF assms(2)] assms(3) by simp
  have n: "p_state (f (prc i u)) \<noteq> RUNNING" and t: "t = upd_proc i (\<lambda>p. p\<lparr>p_context := In_sched\<rparr>) (upd_proc i f u)"
    using assms(1) l by (auto simp: sched_def split: if_splits)
  have "t = upd_proc i (\<lambda>p. (f p)\<lparr>p_context := In_sched\<rparr>) u" using l by (simp add: t upd_proc_def)
  then show ?thesis using leaves_upd [OF assms(2-5)] n assms(6) by simp
qed

lemma yield_leaves:
  fixes s :: "(kproc, 'b) pstate_scheme"
  assumes "i < length (procs s)" "p_state (prc i s) = RUNNING" "has_stack (prc i s)"
  shows "yield i s = Ret t \<Longrightarrow> leaves i s t" "sleep i ch s = Ret t \<Longrightarrow> leaves i s t"
  unfolding yield_def sleep_def using sched_leaves [OF _ benign_refl assms] by simp_all

lemma sleep_resumed_benign: "benign s (sleep_resumed i s)" for s :: "(kproc, 'b) pstate_scheme"
  unfolding sleep_resumed_def by (rule benign_calm) simp

lemma leaves_trans:
  assumes b: "benign s t" and l: "leaves i t u" shows "leaves i s u"
proof -
  have "calm (prc j s) (prc j u)" if "j < length (procs s)" "j \<noteq> i" for j
    using benign_nth [OF b that(1)] l that benign_length [OF b] calm_trans by (auto simp: leaves_def)
  then show ?thesis using l benign_length [OF b] b by (simp add: leaves_def benign_def)
qed

lemma exit_leaves:
  fixes s :: "(kproc, 'b) pstate_scheme"
  assumes r: "exit i s = Ret t" and i: "i < length (procs s)" "p_state (prc i s) = RUNNING" "has_stack (prc i s)"
  shows "leaves i s t"
proof -
  obtain u where u: "drop_files i s = Ret u" and
      t: "sched i (upd_proc i (\<lambda>p. p\<lparr>p_state := ZOMBIE\<rparr>)
        (fold (adopt i) [0..<NPROC] (wakeup1 (map_option Chan_Proc (p_parent (prc i u))) u))) = Ret t"
    using r by (auto simp: exit_def exit_common_def outcome_simps Let_def split: if_splits)
  have "benign s u" by (rule benign_files [OF drop_files_step [OF u]])
  then have "benign s (fold (adopt i) [0..<NPROC] (wakeup1 (map_option Chan_Proc (p_parent (prc i u))) u))"
    using benign_wakeup1 adopt_all_benign benign_trans by blast
  from sched_leaves [OF t this i] show ?thesis by simp
qed

lemma wait_round_ok:
  fixes s :: "(kproc, 'b) pstate_scheme"
  assumes r: "wait_round i s = Ret (r, t)" and i: "i < length (procs s)" "p_state (prc i s) = RUNNING" "has_stack (prc i s)"
  shows "if r = Must_sleep then leaves i s t else benign s t"
proof (cases "find (\<lambda>j. p_parent (prc j s) = Some i \<and> p_state (prc j s) = ZOMBIE) [0..<NPROC]")
  case (Some j)
  from find_Some_in_set [OF this] have "p_state (prc j s) = ZOMBIE" by simp
  then show ?thesis using r Some reap_benign by (auto simp: wait_round_def outcome_simps)
next
  case None
  then show ?thesis using r yield_leaves(2) [OF i] benign_refl
    by (auto simp: wait_round_def outcome_simps split: if_splits)
qed

lemma join_test_ok:
  fixes s :: "(kproc, 'b) pstate_scheme"
  assumes r: "join_test q j i s = Ret (r, t)" and i: "i < length (procs s)" "p_state (prc i s) = RUNNING" "has_stack (prc i s)"
  shows "if r = None then leaves i s t else benign s t"
  using r yield_leaves(1) [OF i] join_reap_benign [of q j s]
  by (auto simp: join_test_def outcome_simps split: if_splits)

section \<open>The invariant of the system\<close>

definition sys_inv :: "ksys \<Rightarrow> bool" where
  "sys_inv s \<longleftrightarrow> length (procs s) = NPROC \<and> (\<forall>i < NPROC. has_stack (prc i s)) \<and>
     (\<forall>c i k. cpus s c = On i k \<longrightarrow> i < NPROC \<and>
        (k \<noteq> Exiting \<longrightarrow> p_state (prc i s) = RUNNING \<and> oncpu (prc i s) = int c))"

lemma sys_invD:
  assumes "sys_inv s" and "cpus s c = On i k"
  shows "i < length (procs s)" "has_stack (prc i s)" "k \<noteq> Exiting \<Longrightarrow> p_state (prc i s) = RUNNING"
    "k \<noteq> Exiting \<Longrightarrow> oncpu (prc i s) = int c"
  using assms by (auto simp: sys_inv_def)

lemma more_eq:
  "pstate.more t = pstate.more s \<Longrightarrow> cpus t = cpus s \<and> saved t = saved s" for s t :: ksys
  by (cases s rule: ksys.cases; cases t rule: ksys.cases) simp

lemma benign_cpus: "benign s t \<Longrightarrow> cpus t = cpus s" for s t :: ksys
  using more_eq [of t s] by (simp add: benign_def)

lemma leaves_cpus: "leaves i s t \<Longrightarrow> cpus t = cpus s" for s t :: ksys
  using more_eq [of t s] by (simp add: leaves_def)

lemma cpus_upd [simp]:
  "cpus (upd_proc i f s) = cpus s" "saved (upd_proc i f s) = saved s"
  "cpus (set_pc c i k s) = (cpus s)(c := On i k)" "procs (set_pc c i k s) = procs s"
  by (simp_all add: upd_proc_def set_pc_def)

lemma inv_benign:
  assumes inv: "sys_inv s" and b: "benign s t" shows "sys_inv t"
proof -
  have l: "length (procs t) = NPROC" "length (procs s) = NPROC" using benign_length [OF b] inv by (simp_all add: sys_inv_def)
  have c: "cpus t = cpus s" by (rule benign_cpus [OF b])
  have n: "calm (prc i s) (prc i t)" if "i < NPROC" for i using benign_nth [OF b] that l by simp
  have "has_stack (prc i t)" if "i < NPROC" for i using n [OF that] inv that by (simp add: sys_inv_def calm_def)
  moreover have "i < NPROC \<and> (k \<noteq> Exiting \<longrightarrow> p_state (prc i t) = RUNNING \<and> oncpu (prc i t) = int c)"
    if "cpus t c = On i k" for c i k
    using sys_invD [OF inv that [unfolded c]] n [of i] l(2) by (auto simp: calm_def)
  ultimately show ?thesis using l(1) by (simp add: sys_inv_def)
qed

lemma inv_set_pc:
  "sys_inv s \<Longrightarrow> cpus s c = On i k \<Longrightarrow> k \<noteq> Exiting \<Longrightarrow> sys_inv (set_pc c i k' s)"
  by (simp add: sys_inv_def)

text \<open>Once process \<open>i\<close> has stopped, no processor runs it but in \<open>Exiting\<close>.\<close>

lemma inv_switch_out:
  assumes len: "length (procs s) = NPROC" and i: "i < NPROC" "p_state (prc i s) \<noteq> RUNNING" "has_stack (prc i s)"
    and o: "\<forall>j < NPROC. j \<noteq> i \<longrightarrow> has_stack (prc j s)"
    and on: "\<forall>c' j k'. c' \<noteq> c \<longrightarrow> cpus s c' = On j k' \<longrightarrow> j < NPROC \<and> (k' \<noteq> Exiting \<longrightarrow> j \<noteq> i \<and>
        p_state (prc j s) = RUNNING \<and> oncpu (prc j s) = int c')"
  shows "sys_inv (switch_out c i k s)"
proof -
  let ?f = "\<lambda>p :: kproc. p\<lparr>ticks_total := u32 (ticks_total p + (ticks s + 4294967296 - ticks_begin p)), oncpu := -1\<rparr>"
  have so: "procs (switch_out c i k s) = (procs s)[i := ?f (prc i s)]" "cpus (switch_out c i k s) = (cpus s)(c := Scan (i + 1))"
    using i len by (simp_all add: switch_out_def account_def upd_proc_def Let_def)
  have "has_stack ((procs s)[i := ?f (prc i s)] ! j)" if "j < NPROC" for j
    using that i o len by (cases "j = i") (simp_all add: has_stack_def)
  moreover have "j < NPROC \<and> (k' \<noteq> Exiting \<longrightarrow> p_state ((procs s)[i := ?f (prc i s)] ! j) = RUNNING \<and>
      oncpu ((procs s)[i := ?f (prc i s)] ! j) = int c')"
    if "((cpus s)(c := Scan (i + 1))) c' = On j k'" for c' j k'
    using that on by (cases "c' = c") auto
  ultimately show ?thesis unfolding sys_inv_def so using len by simp
qed

lemma inv_leaves:
  assumes inv: "sys_inv s" and c: "cpus s c = On i k" "k \<noteq> Exiting" and l: "leaves i s t"
  shows "sys_inv (switch_out c i k' t)"
proof (rule inv_switch_out)
  note d = sys_invD [OF inv c(1)]
  have len: "length (procs s) = NPROC" using inv by (simp add: sys_inv_def)
  show "length (procs t) = NPROC" "i < NPROC" "p_state (prc i t) \<noteq> RUNNING" "has_stack (prc i t)"
    using l d(1) len by (simp_all add: leaves_def)
  have calm: "calm (prc j s) (prc j t)" if "j < NPROC" "j \<noteq> i" for j using l that len by (simp add: leaves_def)
  show "\<forall>j < NPROC. j \<noteq> i \<longrightarrow> has_stack (prc j t)" using calm inv by (auto simp: sys_inv_def calm_def)
  have ct: "cpus t = cpus s" by (rule leaves_cpus [OF l])
  show "\<forall>c' j k'. c' \<noteq> c \<longrightarrow> cpus t c' = On j k' \<longrightarrow> j < NPROC \<and> (k' \<noteq> Exiting \<longrightarrow> j \<noteq> i \<and>
        p_state (prc j t) = RUNNING \<and> oncpu (prc j t) = int c')"
  proof (intro allI impI)
    fix c' j k' assume a: "c' \<noteq> c" "cpus t c' = On j k'"
    note e = sys_invD [OF inv a(2) [unfolded ct]]
    have "j \<noteq> i" if "k' \<noteq> Exiting" using e(4) [OF that] d(4) [OF c(2)] a(1) by auto
    then show "j < NPROC \<and> (k' \<noteq> Exiting \<longrightarrow> j \<noteq> i \<and> p_state (prc j t) = RUNNING \<and> oncpu (prc j t) = int c')"
      using e calm [of j] len by (auto simp: calm_def)
  qed
qed

lemma inv_wait_done:
  assumes "sys_inv s" and "cpus s c = On i k" "k \<noteq> Exiting" and "if r = Must_sleep then leaves i s t else benign s t"
  shows "sys_inv (wait_done c i r t)"
proof (cases "r = Must_sleep")
  case True
  then show ?thesis using inv_leaves [OF assms(1-3)] assms(4) by (simp add: wait_done_def)
next
  case False
  then have b: "benign s t" using assms(4) by simp
  then have "cpus t c = On i k" using assms(2) benign_cpus [OF b] by simp
  then show ?thesis using False inv_set_pc [OF inv_benign [OF assms(1) b]] assms(3) by (simp add: wait_done_def)
qed

lemma inv_join_done:
  assumes "sys_inv s" and "cpus s c = On i k" "k \<noteq> Exiting"
    and "case r of Inl v \<Rightarrow> benign s t | Inr qj \<Rightarrow> leaves i s t"
  shows "sys_inv (join_done c i r t)"
proof (cases r)
  case (Inl v)
  then have b: "benign s t" using assms(4) by simp
  then have "cpus t c = On i k" using assms(2) benign_cpus [OF b] by simp
  then show ?thesis using Inl inv_set_pc [OF inv_benign [OF assms(1) b]] assms(3) by (simp add: join_done_def)
next
  case (Inr qj)
  then show ?thesis using inv_leaves [OF assms(1-3)] assms(4) by (cases qj) (simp add: join_done_def)
qed

lemma inv_dispatch:
  assumes inv: "sys_inv s" and c: "cpus s c = Scan k" and p: "pick k s = Some i"
  shows "sys_inv (dispatch c i s)"
proof -
  from find_Some_in_set [OF p [unfolded pick_def]] have i: "i < NPROC" "p_state (prc i s) = RUNNABLE" by simp_all
  have len: "length (procs s) = NPROC" using inv by (simp add: sys_inv_def)
  let ?f = "\<lambda>p :: kproc. p\<lparr>p_state := RUNNING, sched_times := u32 (sched_times p + 1), ticks_begin := ticks s, oncpu := int c\<rparr>"
  obtain k' where k': "cpus (dispatch c i s) = (cpus s)(c := On i k')" "k' \<noteq> Exiting \<or> k' = Exiting"
    by (auto simp: dispatch_def switch_to_def)
  have pr: "procs (dispatch c i s) = (procs s)[i := ?f (prc i s)]"
    using i len by (simp add: dispatch_def switch_to_def upd_proc_def)
  have ci: "cpus (dispatch c i s) = (cpus s)(c := On i k')" by (rule k'(1))
  have st: "has_stack ((procs s)[i := ?f (prc i s)] ! j)" if "j < NPROC" for j
    using that inv i len by (cases "j = i") (auto simp: sys_inv_def has_stack_def)
  have on: "j < NPROC \<and> (k'' \<noteq> Exiting \<longrightarrow> p_state ((procs s)[i := ?f (prc i s)] ! j) = RUNNING \<and>
      oncpu ((procs s)[i := ?f (prc i s)] ! j) = int c')" if a: "((cpus s)(c := On i k')) c' = On j k''" for c' j k''
  proof (cases "c' = c")
    case True
    then show ?thesis using a i len by auto
  next
    case False
    then have e: "cpus s c' = On j k''" using a by simp
    note d = sys_invD [OF inv e]
    have "j \<noteq> i" if "k'' \<noteq> Exiting" using d(3) [OF that] i by auto
    then show ?thesis using d len by auto
  qed
  show ?thesis unfolding sys_inv_def pr ci using st on len by simp
qed

text \<open>A process that has called \<open>kthread_exit\<close>: it stays on the processor, no longer \<open>RUNNING\<close>.\<close>

lemma inv_thread_exit:
  assumes inv: "sys_inv s" and c: "cpus s c = On i User" and r: "kthread_exit v i s = Ret t"
    and th: "is_thread (prc i s) = TRUE"
  shows "sys_inv (set_pc c i Exiting t)"
proof -
  note d = sys_invD [OF inv c]
  have len: "length (procs s) = NPROC" using inv by (simp add: sys_inv_def)
  obtain u where u: "drop_files i s = Ret u" and
      t: "t = upd_proc i (\<lambda>p. p\<lparr>p_killed := False, thread_exit_value := v, oncpu := -1, p_state := ZOMBIE\<rparr>) u"
    using r th by (auto simp: kthread_exit_def outcome_simps)
  have "benign s u" by (rule benign_files [OF drop_files_step [OF u]])
  from leaves_upd [OF this] d have l: "leaves i s t" unfolding t by simp
  have ct: "cpus t = cpus s" by (rule leaves_cpus [OF l])
  have calm: "calm (prc j s) (prc j t)" if "j < NPROC" "j \<noteq> i" for j using l that len by (simp add: leaves_def)
  have st: "has_stack (prc j t)" if "j < NPROC" for j
    using calm [of j] l that inv by (cases "j = i") (auto simp: leaves_def sys_inv_def calm_def)
  have on: "j < NPROC \<and> (k \<noteq> Exiting \<longrightarrow> p_state (prc j t) = RUNNING \<and> oncpu (prc j t) = int c')"
    if a: "((cpus t)(c := On i Exiting)) c' = On j k" for c' j k
  proof (cases "c' = c")
    case True
    then show ?thesis using a d len by auto
  next
    case False
    then have e: "cpus s c' = On j k" using a ct by simp
    note f = sys_invD [OF inv e]
    have "j \<noteq> i" if "k \<noteq> Exiting" using f(4) [OF that] d(4) False by auto
    then show ?thesis using f calm [of j] len by (auto simp: calm_def)
  qed
  show ?thesis unfolding sys_inv_def using st on l len by (simp add: leaves_def)
qed

lemma inv_thread_gone:
  assumes inv: "sys_inv s" and c: "cpus s c = On i Exiting" and r: "kthread_exit_sched i s = Ret t"
  shows "sys_inv (switch_out c i k t)"
proof (rule inv_switch_out)
  note d = sys_invD [OF inv c]
  have len: "length (procs s) = NPROC" using inv by (simp add: sys_inv_def)
  have nr: "p_state (prc i s) \<noteq> RUNNING" and t: "t = upd_proc i (\<lambda>p. p\<lparr>p_context := In_sched\<rparr>) s"
    using r by (auto simp: kthread_exit_sched_def sched_def split: if_splits)
  have b: "benign s t" unfolding t by (rule benign_calm) simp
  show "length (procs t) = NPROC" "i < NPROC" using len d by (simp_all add: t)
  show "p_state (prc i t) \<noteq> RUNNING" "has_stack (prc i t)" using nr d by (simp_all add: t has_stack_def)
  show "\<forall>j < NPROC. j \<noteq> i \<longrightarrow> has_stack (prc j t)" using inv_benign [OF inv b] by (simp add: sys_inv_def)
  show "\<forall>c' j k'. c' \<noteq> c \<longrightarrow> cpus t c' = On j k' \<longrightarrow> j < NPROC \<and> (k' \<noteq> Exiting \<longrightarrow> j \<noteq> i \<and>
        p_state (prc j t) = RUNNING \<and> oncpu (prc j t) = int c')"
  proof (intro allI impI)
    fix c' j k' assume a: "c' \<noteq> c" "cpus t c' = On j k'"
    note e = sys_invD [OF inv_benign [OF inv b] a(2)]
    have "j \<noteq> i" if "k' \<noteq> Exiting" using e(3) [OF that] nr d(1) by (auto simp: t)
    then show "j < NPROC \<and> (k' \<noteq> Exiting \<longrightarrow> j \<noteq> i \<and> p_state (prc j t) = RUNNING \<and> oncpu (prc j t) = int c')"
      using e len by (simp add: t)
  qed
qed

lemma kstep_inv:
  assumes "kstep c l s t" and inv: "sys_inv s" shows "sys_inv t"
  using assms(1)
proof cases
  case (pick k i)
  then show ?thesis using inv_dispatch [OF inv] by simp
next
  case (pass k)
  then show ?thesis using inv by (auto simp: sys_inv_def)
next
  case (yield i u)
  note d = sys_invD [OF inv yield(3)]
  have "leaves i s u" by (rule yield_leaves(1) [OF d(1) d(3) d(2) yield(4)]) simp
  then show ?thesis unfolding yield(2) by (intro inv_leaves [OF inv yield(3)]) simp_all
next
  case (sleep i ch u)
  note d = sys_invD [OF inv sleep(3)]
  have "leaves i s u" by (rule yield_leaves(2) [OF d(1) d(3) d(2) sleep(4)]) simp
  then show ?thesis unfolding sleep(2) by (intro inv_leaves [OF inv sleep(3)]) simp_all
next
  case (resume i)
  then have "cpus (sleep_resumed i s) c = On i In_sleep" by (simp add: sleep_resumed_def)
  then show ?thesis using inv_set_pc [OF inv_benign [OF inv sleep_resumed_benign]] resume by simp
next
  case (wake i ch)
  then show ?thesis using inv_benign [OF inv benign_wakeup1] by (simp add: wakeup_def)
next
  case (kill i pid r)
  then have "t = snd (Proc.kill pid s)" by (auto simp: kill_checked_def outcome_simps)
  then show ?thesis using inv_benign [OF inv benign_kill] by simp
next
  case (fork i date pg r)
  have "length (procs s) = NPROC" using inv by (simp add: sys_inv_def)
  then show ?thesis using inv_benign [OF inv fork_benign [OF fork(3)]] by simp
next
  case (create i date f a st r)
  have "length (procs s) = NPROC" using inv by (simp add: sys_inv_def)
  then show ?thesis using inv_benign [OF inv create_benign [OF create(3)]] by simp
next
  case (grow i n sz r)
  then show ?thesis using inv_benign [OF inv benign_grow] by blast
next
  case (exit i u)
  note d = sys_invD [OF inv exit(3)]
  have "leaves i s u" by (rule exit_leaves [OF exit(4) d(1) d(3) d(2)]) simp
  then show ?thesis unfolding exit(2) by (intro inv_leaves [OF inv exit(3)]) simp_all
next
  case (wait i r u)
  then have "wait_round i s = Ret (r, u)" by (auto simp: wait_start_def outcome_simps)
  from wait_round_ok [OF this] sys_invD [OF inv wait(3)]
  show ?thesis unfolding wait(2) by (intro inv_wait_done [OF inv wait(3)]) simp_all
next
  case (wait_again i r u)
  let ?s = "sleep_resumed i s"
  have b: "sys_inv ?s" by (rule inv_benign [OF inv sleep_resumed_benign])
  have c: "cpus ?s c = On i In_wait" using wait_again(3) by (simp add: sleep_resumed_def)
  from wait_round_ok [OF wait_again(4)] sys_invD [OF b c]
  show ?thesis unfolding wait_again(2) by (intro inv_wait_done [OF b c]) simp_all
next
  case (join i ti r u)
  note d = sys_invD [OF inv join(3)]
  have "case r of Inl v \<Rightarrow> benign s u | Inr qj \<Rightarrow> leaves i s u"
    using join(4) join_test_ok [OF _ d(1) d(3) d(2)] benign_refl
    by (auto simp: kthread_join_def outcome_simps split: if_splits option.splits)
  then show ?thesis unfolding join(2) by (intro inv_join_done [OF inv join(3)]) simp_all
next
  case (join_again i q j r u)
  note d = sys_invD [OF inv join_again(3)]
  have "case (case r of Some v \<Rightarrow> Inl v | None \<Rightarrow> Inr (q, j)) of Inl v \<Rightarrow> benign s u | Inr qj \<Rightarrow> leaves i s u"
    using join_test_ok [OF join_again(4) d(1) d(3) d(2)] by (cases r) simp_all
  then show ?thesis unfolding join_again(2) by (intro inv_join_done [OF inv join_again(3)]) simp_all
next
  case (thread_exit i v u)
  then show ?thesis using inv_thread_exit [OF inv] by simp
next
  case (thread_gone i u)
  then show ?thesis using inv_thread_gone [OF inv] by simp
next
  case tick
  then show ?thesis using inv_benign [OF inv benign_tick] by simp
qed

lemma ksys_run_inv: "ksys_run s \<Longrightarrow> sys_inv s"
proof (induction rule: ksys_run.induct)
  case (boot s)
  have "has_stack (prc i s)" if "i < NPROC" for i
    using boot that by (cases "i = initproc s") (auto simp: has_stack_def)
  then show ?case using boot by (simp add: sys_inv_def)
qed (rule kstep_inv)

section \<open>Bounded waiting\<close>

text \<open>Where the scan of processor \<open>c\<close> is or will go on, and how many slots it has to pass to reach slot \<open>i\<close>.\<close>

definition scan_pos :: "nat \<Rightarrow> ksys \<Rightarrow> nat" where
  "scan_pos c s = (case cpus s c of Scan k \<Rightarrow> k | On i k \<Rightarrow> i + 1)"

definition turns :: "nat \<Rightarrow> nat \<Rightarrow> ksys \<Rightarrow> nat" where
  "turns c i s = (if scan_pos c s \<le> i then i - scan_pos c s else NPROC - scan_pos c s + i)"

lemma switch_out_cpus [simp]: "cpus (switch_out c i k s) = (cpus s)(c := Scan (i + 1))"
  by (simp add: switch_out_def account_def Let_def)

lemma dispatch_cpus: "cpus (dispatch c i s) = (cpus s)(c := On i (if p_context (prc i s) = Forkret then User else saved s i))"
  by (simp add: dispatch_def switch_to_def)

text \<open>A step of a processor that runs a process keeps its place in the table; other processors keep theirs.\<close>

lemma done_cpus:
  assumes "cpus u = cpus s"
  shows "d \<noteq> c \<Longrightarrow> cpus (wait_done c i r u) d = cpus s d" "d \<noteq> c \<Longrightarrow> cpus (join_done c i r' u) d = cpus s d"
    "scan_pos c (wait_done c i r u) = i + 1" "scan_pos c (join_done c i r' u) = i + 1"
  using assms by (auto simp: wait_done_def join_done_def scan_pos_def split: sum.splits)

lemma kstep_scan:
  assumes st: "kstep c l s t" and inv: "sys_inv s"
  shows "d \<noteq> c \<Longrightarrow> cpus t d = cpus s d" "cpus s c = On i k \<Longrightarrow> l = None \<and> scan_pos c t = i + 1"
proof -
  have wr: "cpus u = cpus s" if "wait_round j s' = Ret (r, u)" "sys_inv s'" "cpus s' = cpus s" "cpus s c = On j k" "k \<noteq> Exiting" for j k r u s'
    using wait_round_ok [OF that(1)] sys_invD [OF that(2), of c j k] that(3-5) benign_cpus [of s' u] leaves_cpus [of j s' u]
    by (auto split: if_splits)
  have jt: "cpus u = cpus s" if "join_test q m j s = Ret (r, u)" "cpus s c = On j k" "k \<noteq> Exiting" for q m j k r u
    using join_test_ok [OF that(1)] sys_invD [OF inv that(2)] that(3) benign_cpus [of s u] leaves_cpus [of j s u]
    by (auto split: if_splits)
  have lv: "cpus u = cpus s" if "yield j s = Ret u \<or> sleep j ch s = Ret u \<or> Kthreads.exit j s = Ret u" "cpus s c = On j k" "k \<noteq> Exiting" for j k u ch
  proof -
    note d = sys_invD(1,2) [OF inv that(2)] sys_invD(3) [OF inv that(2,3)]
    have "leaves j s u"
      using that(1) yield_leaves(1) [OF d(1,3,2), of u] yield_leaves(2) [OF d(1,3,2), of ch u] exit_leaves [OF _ d(1,3,2), of u]
      by blast
    then show ?thesis by (rule leaves_cpus)
  qed
  have len: "length (procs s) = NPROC" using inv by (simp add: sys_inv_def)
  have "(\<forall>d. d \<noteq> c \<longrightarrow> cpus t d = cpus s d) \<and> (\<forall>i k. cpus s c = On i k \<longrightarrow> l = None \<and> scan_pos c t = i + 1)"
    using st
  proof cases
    case (pick k i)
    then show ?thesis by (simp add: dispatch_cpus)
  next
    case (yield i u)
    then have "cpus u = cpus s" using lv by blast
    then show ?thesis using yield by (simp add: scan_pos_def)
  next
    case (sleep i ch u)
    then have "cpus u = cpus s" using lv by blast
    then show ?thesis using sleep by (simp add: scan_pos_def)
  next
    case (resume i)
    then show ?thesis by (simp add: scan_pos_def sleep_resumed_def)
  next
    case (wake i ch)
    have "cpus t = cpus s" unfolding wake(2) wakeup_def by (rule benign_cpus [OF benign_wakeup1])
    then show ?thesis using wake by (simp add: scan_pos_def)
  next
    case (kill i pid r)
    then have "t = snd (Proc.kill pid s)" by (auto simp: kill_checked_def outcome_simps)
    then have "cpus t = cpus s" using benign_cpus [OF benign_kill [of s pid]] by simp
    then show ?thesis using kill by (simp add: scan_pos_def)
  next
    case (fork i date pg r)
    then show ?thesis using benign_cpus [OF fork_benign [OF fork(3) len]] by (simp add: scan_pos_def)
  next
    case (create i date f a st r)
    then show ?thesis using benign_cpus [OF create_benign [OF create(3) len]] by (simp add: scan_pos_def)
  next
    case (grow i n sz r)
    then show ?thesis using benign_cpus [OF benign_grow [OF grow(3)]] by (simp add: scan_pos_def)
  next
    case (exit i u)
    then have "cpus u = cpus s" using lv by blast
    then show ?thesis using exit by (simp add: scan_pos_def)
  next
    case (wait i r u)
    then have "wait_round i s = Ret (r, u)" by (auto simp: wait_start_def outcome_simps)
    from wr [OF this inv refl wait(3)] have "cpus u = cpus s" by simp
    from done_cpus [OF this] show ?thesis using wait by simp
  next
    case (wait_again i r u)
    have "cpus (sleep_resumed i s) = cpus s" by (simp add: sleep_resumed_def)
    from wr [OF wait_again(4) inv_benign [OF inv sleep_resumed_benign] this wait_again(3)] have "cpus u = cpus s" by simp
    from done_cpus [OF this] show ?thesis using wait_again by simp
  next
    case (join i ti r u)
    then have "cpus u = cpus s"
      using jt by (auto simp: kthread_join_def outcome_simps split: if_splits option.splits)
    from done_cpus [OF this] show ?thesis using join by simp
  next
    case (join_again i q j r u)
    from jt [OF join_again(4,3)] have "cpus u = cpus s" by simp
    from done_cpus [OF this] show ?thesis using join_again by simp
  next
    case (thread_exit i v u)
    obtain w where w: "drop_files i s = Ret w" "cpus u = cpus w"
      using thread_exit by (auto simp: kthread_exit_def outcome_simps)
    then show ?thesis using thread_exit benign_cpus [OF benign_files [OF drop_files_step [OF w(1)]]] by (simp add: scan_pos_def)
  next
    case (thread_gone i u)
    then have "cpus u = cpus s" by (auto simp: kthread_exit_sched_def sched_def split: if_splits)
    then show ?thesis using thread_gone by (simp add: scan_pos_def)
  next
    case tick
    then show ?thesis using benign_cpus [OF benign_tick] by (simp add: scan_pos_def)
  qed auto
  then show "d \<noteq> c \<Longrightarrow> cpus t d = cpus s d" "cpus s c = On i k \<Longrightarrow> l = None \<and> scan_pos c t = i + 1" by blast+
qed

lemma kstep_turns:
  assumes st: "kstep c l s t" and inv: "sys_inv s" and i: "i < NPROC" "p_state (prc i s) = RUNNABLE" "p_state (prc i t) = RUNNABLE"
  shows "turns d i t + (if d = c \<and> l \<noteq> None then 1 else 0) \<le> turns d i s"
proof (cases "d = c")
  case False
  then show ?thesis using kstep_scan(1) [OF st inv] by (simp add: turns_def scan_pos_def)
next
  case d: True
  show ?thesis
  proof (cases "cpus s c")
    case (On j k)
    then show ?thesis using kstep_scan(2) [OF st inv On] d by (simp add: turns_def) (simp add: scan_pos_def)
  next
    case (Scan k)
    have len: "length (procs s) = NPROC" using inv by (simp add: sys_inv_def)
    show ?thesis
      using st
    proof cases
      case (pick k' j)
      then have p: "find (\<lambda>i. p_state (prc i s) = RUNNABLE) [k..<NPROC] = Some j" and k: "k' = k"
        using Scan by (auto simp: pick_def)
      from find_Some_in_set [OF p] have j: "k \<le> j" "j < NPROC" by simp_all
      have "prc j t = (prc j s)\<lparr>p_state := RUNNING, sched_times := u32 (sched_times (prc j s) + 1), ticks_begin := ticks s, oncpu := int c\<rparr>"
        unfolding pick(2) using j len by (simp add: dispatch_def switch_to_def)
      then have ne: "j \<noteq> i" using i(3) by auto
      have "k \<le> i \<Longrightarrow> j < i" using find_upt_first [OF p, of i] i(2) ne by (meson linorder_neqE_nat)
      then show ?thesis using Scan pick(1,2) d j by (simp add: turns_def scan_pos_def dispatch_cpus) (use j in linarith)
    next
      case (pass k')
      then have "find (\<lambda>i. p_state (prc i s) = RUNNABLE) [k..<NPROC] = None" using Scan by (simp add: pick_def)
      then have "\<not> k \<le> i" using i(1,2) by (auto simp: find_None_iff)
      then show ?thesis using Scan pass d by (simp add: turns_def scan_pos_def)
    next
      case tick
      then show ?thesis using benign_cpus [OF benign_tick, of s] d by (simp add: turns_def scan_pos_def)
    qed (use Scan in simp_all)
  qed
qed

text \<open>\<open>waiting c i s n t\<close>: from \<open>s\<close> to \<open>t\<close> slot \<open>i\<close> has been runnable all the time, and processor \<open>c\<close> has
  chosen \<open>n\<close> processes.\<close>

inductive waiting :: "nat \<Rightarrow> nat \<Rightarrow> ksys \<Rightarrow> nat \<Rightarrow> ksys \<Rightarrow> bool" for c i s where
  now: "p_state (prc i s) = RUNNABLE \<Longrightarrow> waiting c i s 0 s"
| later: "waiting c i s n t \<Longrightarrow> kstep d l t u \<Longrightarrow> p_state (prc i u) = RUNNABLE \<Longrightarrow>
    waiting c i s (if d = c \<and> l \<noteq> None then n + 1 else n) u"

lemma waiting_turns:
  assumes "waiting c i s n t" and "sys_inv s" and "i < NPROC"
  shows "sys_inv t \<and> p_state (prc i t) = RUNNABLE \<and> n + turns c i t \<le> turns c i s"
  using assms(1)
proof induction
  case now
  then show ?case using assms(2) by simp
next
  case (later n t d l u)
  have "turns c i u + (if c = d \<and> l \<noteq> None then 1 else 0) \<le> turns c i t"
    using kstep_turns [OF later.hyps(2) _ assms(3)] later.IH later.hyps(3) by blast
  then show ?case using later.IH kstep_inv [OF later.hyps(2)] later.hyps(3) by auto
qed

end
