(* ===== verification/Thread_Results.thy ===== *)
theory Thread_Results
  imports Thread_System
begin

text \<open>
  What the system of processes and threads guarantees: who runs on a processor, how long a runnable process
  waits, what a joining thread gets, and two ways in which the kernel fails. The example is a kernel
  that has booted with one process in slot 0.
\<close>

section \<open>A small system\<close>

definition no_date :: rtcdate where
  "no_date = \<lparr>second = 0, minute = 0, hour = 0, day = 0, month = 0, year = 0\<rparr>"

definition idle_proc :: kproc where
  "idle_proc = \<lparr>p_sz = 0, p_pgdir = None, p_kstack = None, p_state = UNUSED, p_pid = 0, p_parent = None, p_tf = junk_tf,
     p_context = Forkret, p_chan = None, p_killed = False, p_ofile = replicate 16 None, p_cwd = None,
     p_name = replicate 16 0, begin_date = no_date, ticks_total = 0, ticks_begin = 0, sched_times = 0,
     oncpu = 0, is_thread = 0, is_parent = 0, tid = 0, next_tid = 0, thread_exit_value = 0, thread_count = 0\<rparr>"

definition first_proc :: kproc where
  "first_proc = init_threads (idle_proc\<lparr>p_sz := 16384, p_pgdir := Some 7, p_kstack := Some 8, p_state := RUNNABLE,
     p_pid := 1, p_cwd := Some 0\<rparr>)"

definition boot_inode :: inode where
  "boot_inode = \<lparr>i_dev = 1, i_inum = 1, i_ref = 1, i_lock = initsleeplock, i_valid = False, i_copy = zero_dinode\<rparr>"

definition boot_sys :: ksys where
  "boot_sys = \<lparr>bufs = [], lru = [], memdisk = (\<lambda>_. []), disksize = 0, disk_writes = [], my_pid = 1, log_start = 2,
     log_size = 30, outstanding = 0, committing = False, log_dev = 1, lh_n = 0, lh_block = [],
     fs_sb = \<lparr>sb_size = 0, sb_nblocks = 0, sb_ninodes = 0, sb_nlog = 30, sb_logstart = 2, sb_inodestart = 32, sb_bmapstart = 34\<rparr>,
     inodes = replicate 50 boot_inode, devsw = [], cwd = 0, ftable = [], pipes = (\<lambda>_. new_pipe (replicate 512 0)), free_pages = [9, 10, 11],
     ofile = [], pkilled = False, umem = (\<lambda>_. 0), usz = 0, uesp = 0,
     procs = first_proc # replicate 63 idle_proc, nextpid = 2, initproc = 0, ticks = 5, vspaces = [7],
     cpus = (\<lambda>_. Scan 0), saved = (\<lambda>_. User)\<rparr>"

lemma boot_fields [simp]:
  "procs boot_sys = first_proc # replicate 63 idle_proc" "cpus boot_sys = (\<lambda>_. Scan 0)" "kstate.free_pages boot_sys = [9, 10, 11]"
  "initproc boot_sys = 0" "inodes boot_sys = replicate 50 boot_inode" "outstanding boot_sys = 0" "committing boot_sys = False"
  "lh_n boot_sys = 0" "nextpid boot_sys = 2" "umem boot_sys = (\<lambda>_. 0)" "vspaces boot_sys = [7]" "ticks boot_sys = 5"
  "saved boot_sys = (\<lambda>_. User)"
  by (simp_all add: boot_sys_def)

lemma boot_run: "ksys_run boot_sys"
proof (rule ksys_run.boot)
  show "\<forall>i < NPROC. i \<noteq> initproc boot_sys \<longrightarrow> p_state (prc i boot_sys) = UNUSED"
    by (auto simp: NPROC_def nth_Cons idle_proc_def split: nat.split)
qed (simp_all add: NPROC_def first_proc_def idle_proc_def init_threads_def)

lemma find_upt_unique:
  assumes "k \<le> i" and "i < n" and "P i" and "\<And>j. k \<le> j \<Longrightarrow> j < i \<Longrightarrow> \<not> P j"
  shows "find P [k..<n] = Some i"
  using assms by (auto simp: find_Some_iff intro!: exI [of _ "i - k"])

definition sys_a :: ksys where "sys_a = dispatch 0 0 boot_sys"

lemma run_a: "ksys_run sys_a"
proof -
  have "pick 0 boot_sys = Some 0"
    unfolding pick_def by (rule find_upt_unique) (simp_all add: NPROC_def first_proc_def init_threads_def)
  then show ?thesis unfolding sys_a_def using ksys_run.step [OF boot_run kstep.pick [of boot_sys 0 0 0]] by simp
qed

section \<open>Who runs\<close>

text \<open>C2: a processor that runs a process, and is not between the point where \<open>kthread_exit\<close> marks its thread ZOMBIE and the
  call of \<open>sched\<close> there (\<open>Exiting\<close>), runs a process that is marked RUNNING and has a kernel stack, its \<open>oncpu\<close> is that
  processor, and no other processor that is not \<open>Exiting\<close> runs it. The exception is real and not only a limit of the
  proof: by \<open>exit_races_join\<close> below, an \<open>Exiting\<close> processor can be in a slot that has already been freed, and then given to
  another process, which another processor may run.\<close>

theorem running_exclusive:
  assumes "ksys_run s" and "cpus s c = On i k" and "k \<noteq> Exiting"
  shows "i < NPROC \<and> p_state (prc i s) = RUNNING \<and> oncpu (prc i s) = int c \<and> p_kstack (prc i s) \<noteq> None \<and>
    (\<forall>d k'. cpus s d = On i k' \<and> k' \<noteq> Exiting \<longrightarrow> d = c)"
proof -
  have inv: "sys_inv s" using assms(1) by (rule ksys_run_inv)
  note d = sys_invD [OF inv assms(2)]
  have "d = c" if "cpus s d = On i k'" "k' \<noteq> Exiting" for d k'
    using sys_invD(4) [OF inv that] d(4) [OF assms(3)] by simp
  then show ?thesis using d assms(3) inv by (auto simp: sys_inv_def has_stack_def)
qed

lemma cpus_a [simp]: "cpus sys_a = (\<lambda>_. Scan 0)(0 := On 0 User)"
  by (simp add: sys_a_def dispatch_cpus first_proc_def idle_proc_def init_threads_def)

theorem running_exclusive_witness: "p_state (prc 0 sys_a) = RUNNING \<and> oncpu (prc 0 sys_a) = 0"
  using running_exclusive [OF run_a, of 0 0 User] by simp

section \<open>Bounded waiting\<close>

lemma turns_bound: "i < NPROC \<Longrightarrow> turns c i s < NPROC"
  by (auto simp: turns_def)

lemma kfor_idle: "(\<And>x. x \<in> set xs \<Longrightarrow> f x s = Ret s) \<Longrightarrow> kfor xs f s = Ret s"
  by (induction xs) simp_all

section \<open>Creating a thread\<close>

text \<open>Duplicating the open files, into a slot that has none.\<close>

definition files_live :: "nat \<Rightarrow> (kproc, 'b) pstate_scheme \<Rightarrow> bool" where
  "files_live i s \<longleftrightarrow> length (p_ofile (prc i s)) = nat NOFILE \<and>
     (\<forall>fd < nat NOFILE. \<forall>f. p_ofile (prc i s) ! fd = Some f \<longrightarrow> 1 \<le> f_ref (fil f s))"

lemma dup_files_ret:
  fixes s :: "(kproc, 'b) pstate_scheme"
  assumes live: "files_live cur s" and np: "np < length (procs s)" "np \<noteq> cur"
    and none: "p_ofile (prc np s) = replicate (nat NOFILE) None" and m: "m \<le> nat NOFILE"
  shows "\<exists>ft. kfor [0..<m] (dup_file cur np) s = Ret (s\<lparr>ftable := ft, procs := (procs s)[np := (prc np s)\<lparr>p_ofile :=
      take m (p_ofile (prc cur s)) @ replicate (nat NOFILE - m) None\<rparr>]\<rparr>) \<and> (\<forall>f. f_ref (fil f s) \<le> f_ref (ft ! f))"
  using m
proof (induction m)
  case 0
  have "(prc np s)\<lparr>p_ofile := replicate (nat NOFILE) None\<rparr> = prc np s" unfolding none [symmetric] by simp
  then show ?case by (intro exI [of _ "ftable s"]) simp
next
  case (Suc m)
  then obtain ft where r: "kfor [0..<m] (dup_file cur np) s = Ret (s\<lparr>ftable := ft, procs := (procs s)[np := (prc np s)\<lparr>p_ofile :=
      take m (p_ofile (prc cur s)) @ replicate (nat NOFILE - m) None\<rparr>]\<rparr>)" and ge: "\<And>f. f_ref (fil f s) \<le> f_ref (ft ! f)"
    by auto
  have len: "length (p_ofile (prc cur s)) = nat NOFILE" using live by (simp add: files_live_def)
  have rep: "replicate (nat NOFILE - m) (None :: nat option) = None # replicate (nat NOFILE - Suc m) None"
    using Suc.prems by (metis Suc_diff_Suc Suc_le_lessD replicate_Suc)
  show ?case
  proof (cases "p_ofile (prc cur s) ! m")
    case None
    then have "take (Suc m) (p_ofile (prc cur s)) @ replicate (nat NOFILE - Suc m) None =
        take m (p_ofile (prc cur s)) @ replicate (nat NOFILE - m) None"
      using Suc.prems len rep by (simp add: take_Suc_conv_app_nth)
    then show ?thesis using ge None np by (intro exI [of _ ft]) (simp add: kfor_append r, simp add: dup_file_def)
  next
    case (Some f)
    then have f: "1 \<le> f_ref (fil f s)" using live Suc.prems by (auto simp: files_live_def Suc_le_eq)
    let ?ft = "ft[f := (ft ! f)\<lparr>f_ref := f_ref (ft ! f) + 1\<rparr>]"
    have "f_ref (fil g s) \<le> f_ref (?ft ! g)" for g
      using ge [of g] by (cases "g = f"; cases "f < length ft") (simp_all add: list_update_beyond)
    moreover have "(take m (p_ofile (prc cur s)) @ replicate (nat NOFILE - m) None)[m := Some f] =
        take (Suc m) (p_ofile (prc cur s)) @ replicate (nat NOFILE - Suc m) None"
      using Suc.prems len rep Some by (simp add: take_Suc_conv_app_nth list_update_append)
    moreover have "1 \<le> f_ref (ft ! f)" using f ge [of f] by linarith
    ultimately show ?thesis
      using np Some by (intro exI [of _ ?ft]) (simp add: kfor_append r, simp add: dup_file_def filedup_def upd_file_def upd_proc_def)
  qed
qed

lemma u32_sub: "d \<le> x \<Longrightarrow> x < 4294967296 \<Longrightarrow> u32 (x + 4294967296 - d) = x - d"
proof -
  assume d: "d \<le> x" "x < 4294967296"
  have "x + 4294967296 - d = (x - d) + 4294967296" using d by linarith
  then show ?thesis using d(2) unfolding u32_def by (simp only: mod_add_self2) simp
qed

text \<open>What \<open>allocproc\<close> returns when there is a slot and a page.\<close>

lemma allocproc_ret:
  fixes s :: "(kproc, 'b) pstate_scheme"
  assumes slot: "find (\<lambda>i. p_state (prc i s) = UNUSED) [0..<NPROC] = Some np" and page: "kstate.free_pages s = k # ks"
    and len: "length (procs s) = NPROC"
  shows "allocproc date s = (Some np, s\<lparr>nextpid := nextpid s + 1, kstate.free_pages := ks, procs := (procs s)[np :=
      init_threads ((prc np s)\<lparr>p_state := EMBRYO, p_pid := nextpid s, p_kstack := Some k, p_tf := junk_tf,
        p_context := Forkret, begin_date := date, ticks_total := 0, sched_times := 0\<rparr>)]\<rparr>)"
proof -
  from find_Some_in_set [OF slot] have "np < length (procs s)" using len by simp
  then show ?thesis using slot page by (simp add: allocproc_def allocproc_with_def get_page_def upd_proc_def Let_def)
qed

lemma load_store_other:
  assumes "a + 4 \<le> b \<or> b + 4 \<le> a" shows "load32 (store32 m b v) a = load32 m a"
  by (rule load32_cong) (use assms in \<open>auto simp: store32_def\<close>)

lemma nat_NOFILE [simp]: "nat NOFILE = 16"
  by (simp add: NOFILE_def)

text \<open>When there is a free slot and a page, \<open>kthread_create\<close> with a page-aligned stack in the memory
  of the process makes a runnable thread in the free slot that shares the page directory, the size, the open files and
  the current directory of its creator, starts at the function with the thread id and the argument on its
  stack, and gets the next thread id of the process, which is returned; no page directory is made.\<close>

theorem kthread_create_shares:
  fixes s :: "(kproc, 'b) pstate_scheme"
  assumes len: "length (procs s) = NPROC" and cur: "cur < NPROC" "p_state (prc cur s) = RUNNING" "is_thread (prc cur s) = 0"
    and slot: "find (\<lambda>i. p_state (prc i s) = UNUSED) [0..<NPROC] = Some np" and page: "kstate.free_pages s = k # ks"
    and stack: "tstack mod PGSIZE = 0" "tstack + PGSIZE \<le> p_sz (prc cur s)" "p_sz (prc cur s) < 4294967296"
    and files: "files_live cur s" "p_ofile (prc np s) = replicate 16 None" "p_cwd (prc cur s) = Some ip"
    and words: "a < 4294967296" "next_tid (prc cur s) < 65536"
  shows "\<exists>t. kthread_create date f a tstack cur s = Ret (int (next_tid (prc cur s)), t) \<and>
    (let p = prc np t; c = prc cur s in
       p_state p = RUNNABLE \<and> p_pid p = nextpid s \<and> p_parent p = Some cur \<and> is_thread p = 1 \<and> tid p = next_tid c \<and>
       p_pgdir p = p_pgdir c \<and> p_sz p = p_sz c \<and> p_ofile p = p_ofile c \<and> p_cwd p = p_cwd c \<and> p_kstack p = Some k \<and>
       tf_eip (p_tf p) = f \<and> tf_eax (p_tf p) = 0 \<and> tf_esp (p_tf p) = tstack + PGSIZE - 8 \<and>
       load32 (umem t) (tf_esp (p_tf p)) = tid p \<and> load32 (umem t) (tf_esp (p_tf p) + 4) = a \<and>
       prc cur t = c\<lparr>is_parent := 1, next_tid := u16 (next_tid c + 1), thread_count := u16 (thread_count c + 1)\<rparr>) \<and>
    vspaces t = vspaces s \<and> kstate.free_pages t = ks \<and> (\<forall>i. i \<noteq> np \<and> i \<noteq> cur \<longrightarrow> prc i t = prc i s)"
proof -
  from find_Some_in_set [OF slot] have np: "np < length (procs s)" "p_state (prc np s) = UNUSED" using len by simp_all
  have ne: "np \<noteq> cur" using np(2) cur(2) by auto
  have curl: "cur < length (procs s)" using cur(1) len by simp
  let ?c = "prc cur s" and ?e = "tstack + PGSIZE"
  let ?n = "init_threads ((prc np s)\<lparr>p_state := EMBRYO, p_pid := nextpid s, p_kstack := Some k, p_tf := junk_tf,
        p_context := Forkret, begin_date := date, ticks_total := 0, sched_times := 0\<rparr>)"
  let ?p = "?n\<lparr>p_pgdir := p_pgdir ?c, p_sz := p_sz ?c, p_tf := (p_tf ?c)\<lparr>tf_eax := 0, tf_eip := f, tf_esp := ?e - 8\<rparr>,
      is_thread := 1, p_parent := Some cur, tid := next_tid ?c\<rparr>"
  let ?d = "?c\<lparr>is_parent := 1, next_tid := u16 (next_tid ?c + 1), thread_count := u16 (thread_count ?c + 1)\<rparr>"
  let ?m = "store32 (store32 (umem s) (?e - 4) a) (?e - 8) (next_tid ?c)"
  have e8: "8 \<le> ?e" "?e < 4294967296" using stack by (simp_all add: PGSIZE_def)
  have u1: "u32 (tstack + PGSIZE + 4294967296 - 4) = ?e - 4" "u32 (?e - 4 + 4294967296 - 4) = ?e - 8"
    using e8 u32_sub [of 4 ?e] u32_sub [of 4 "?e - 4"] by simp_all
  have push: "push_args cur tstack a t v = Ret (?e - 8, v\<lparr>umem := store32 (store32 (umem v) (?e - 4) a) (?e - 8) t\<rparr>)"
    if "p_sz (prc cur v) = p_sz ?c" for t and v :: "(kproc, 'b) pstate_scheme"
    using that stack(2) e8(1) unfolding push_args_def Let_def u1 kstore_def by (simp add: u1 kstore_def)
  let ?v = "s\<lparr>nextpid := nextpid s + 1, kstate.free_pages := ks, procs := (procs s)[np := ?n]\<rparr>"
  have al: "allocproc date s = (Some np, ?v)" by (rule allocproc_ret [OF slot page len])
  let ?w = "count_thread cur (set_parent cur np (share_process f cur np ?v))"
  have w: "p_parent (prc np (set_parent cur np (share_process f cur np ?v))) = Some cur"
      "next_tid (prc cur (set_parent cur np (share_process f cur np ?v))) = next_tid ?c" "p_sz (prc cur ?w) = p_sz ?c"
    using np(1) ne curl cur(3) by (simp_all add: set_parent_def share_process_def count_thread_def upd_proc_def)
  define x where "x = enter_thread np (next_tid ?c) (?e - 8) (?w\<lparr>umem := store32 (store32 (umem ?w) (?e - 4) a) (?e - 8) (next_tid ?c)\<rparr>)"
  have main: "kthread_create date f a tstack cur s = kbind (kfor [0..<16] (dup_file cur np) x) (\<lambda>s.
                  kbind (dup_cwd cur np s) (\<lambda>s. Ret (int (tid (prc np s)), start_thread cur np s)))"
    using stack(1) by (simp add: kthread_create_def al w push [OF w(3)] x_def Let_def)
  have x: "prc np x = ?p" "prc cur x = ?d" "\<And>i. i \<noteq> np \<Longrightarrow> i \<noteq> cur \<Longrightarrow> prc i x = prc i s" "umem x = ?m"
      "length (procs x) = NPROC" "ftable x = ftable s" "vspaces x = vspaces s" "kstate.free_pages x = ks"
    using np(1) ne curl cur(3) len
    by (simp_all add: x_def set_parent_def share_process_def count_thread_def upd_proc_def enter_thread_def init_threads_def)
  have live: "files_live cur x" using files(1) by (simp add: files_live_def x(2,6))
  have "p_ofile (prc np x) = replicate (nat NOFILE) None" using files(2) by (simp add: x(1) init_threads_def)
  from dup_files_ret [OF live _ ne this order_refl] obtain ft where
    y: "kfor [0..<16] (dup_file cur np) x = Ret (x\<lparr>ftable := ft, procs := (procs x)[np := (prc np x)\<lparr>p_ofile := p_ofile ?c\<rparr>]\<rparr>)"
    using np(1) len x(5) files(1) by (auto simp: x(2) files_live_def)
  have m: "load32 ?m (?e - 8) = next_tid ?c" "load32 ?m (?e - 8 + 4) = a"
  proof -
    show "load32 ?m (?e - 8) = next_tid ?c" by (rule load32_store32) (use words(2) in simp)
    have "?e - 8 + 4 = ?e - 4" using e8 by linarith
    then show "load32 ?m (?e - 8 + 4) = a" using load32_store32 [OF words(1)] e8 by (simp add: load_store_other)
  qed
  show ?thesis
    unfolding main y using m np(1) len x(5) ne ne [symmetric] curl cur(1)
    by (simp add: dup_cwd_def x files(3) idup_def upd_inode_def start_thread_def upd_proc_def init_threads_def Let_def)
qed

section \<open>The example goes on\<close>

definition ret_state :: "'s \<Rightarrow> ('r \<times> 's) outcome \<Rightarrow> 's" where
  "ret_state s r = (case r of Ret (_, t) \<Rightarrow> t | _ \<Rightarrow> s)"

definition sys_b :: ksys where "sys_b = ret_state sys_a (kthread_create no_date 64 77 4096 0 sys_a)"

lemma proc_a: "procs sys_a = first_proc\<lparr>p_state := RUNNING, sched_times := 1, ticks_begin := 5, oncpu := 0\<rparr> # replicate 63 idle_proc"
  by (simp add: sys_a_def dispatch_def switch_to_def upd_proc_def set_pc_def first_proc_def init_threads_def idle_proc_def)

lemma fields_a: "kstate.free_pages sys_a = [9, 10, 11]" "inodes sys_a = replicate 50 boot_inode" "nextpid sys_a = 2"
  "vspaces sys_a = [7]" "outstanding sys_a = 0" "committing sys_a = False" "lh_n sys_a = 0" "ticks sys_a = 5" "initproc sys_a = 0"
  by (simp_all add: sys_a_def dispatch_def switch_to_def upd_proc_def set_pc_def)

lemma slot_a: "find (\<lambda>i. p_state (prc i sys_a) = UNUSED) [0..<NPROC] = Some 1"
  by (rule find_upt_unique) (simp_all add: proc_a NPROC_def idle_proc_def nth_Cons split: nat.split)

theorem kthread_create_shares_witness:
  "\<exists>t. kthread_create no_date 64 77 4096 0 sys_a = Ret (1, t) \<and> tid (prc 1 t) = 1 \<and> load32 (umem t) 8188 = 77"
  using kthread_create_shares [of sys_a 0 1 9 "[10, 11]" 4096 0 77 no_date 64, OF _ _ _ _ slot_a]
  by (force simp: proc_a fields_a NPROC_def PGSIZE_def first_proc_def init_threads_def idle_proc_def files_live_def Let_def)

definition thread_one :: kproc where
  "thread_one = idle_proc\<lparr>p_sz := 16384, p_pgdir := Some 7, p_kstack := Some 9, p_state := RUNNABLE, p_pid := 2,
     p_parent := Some 0, p_tf := junk_tf\<lparr>tf_eax := 0, tf_eip := 64, tf_esp := 8184\<rparr>, p_cwd := Some 0, p_name := [0],
     oncpu := -1, is_thread := 1, tid := 1, next_tid := 1\<rparr>"

definition owner :: kproc where
  "owner = first_proc\<lparr>p_state := RUNNING, sched_times := 1, ticks_begin := 5, oncpu := 0, is_parent := 1, next_tid := 2, thread_count := 1\<rparr>"

lemma create_b: "\<exists>t. kthread_create no_date 64 77 4096 0 sys_a = Ret (1, t) \<and> procs t = owner # thread_one # replicate 62 idle_proc \<and>
    inodes t = boot_inode\<lparr>i_ref := 2\<rparr> # replicate 49 boot_inode \<and> kstate.free_pages t = [10, 11] \<and> outstanding t = 0 \<and>
    \<not> committing t \<and> lh_n t = 0 \<and> cpus t = cpus sys_a \<and> initproc t = 0 \<and> ticks t = 5 \<and> saved t = saved sys_a"
proof -
  have r: "replicate 63 (x :: kproc) = x # replicate 62 x" for x by (simp flip: replicate_Suc)
  have r': "replicate 50 (x :: inode) = x # replicate 49 x" for x by (simp flip: replicate_Suc)
  have k: "kfor [0..<16] (dup_file 0 1) x = Ret x" if "p_ofile (prc 0 x) = replicate 16 None" for x :: ksys
    by (rule kfor_idle) (use that in \<open>simp add: dup_file_def\<close>)
  show ?thesis
    using allocproc_ret [OF slot_a fields_a(1), of no_date]
    by (simp add: kthread_create_def proc_a fields_a r NPROC_def PGSIZE_def set_parent_def share_process_def count_thread_def
        upd_proc_def push_args_def kstore_def Let_def enter_thread_def dup_cwd_def start_thread_def idup_def upd_inode_def
        thread_one_def owner_def first_proc_def init_threads_def idle_proc_def copy_name_def k [simplified] r' u16_def u32_def boot_inode_def)
qed

lemma sys_b: "kthread_create no_date 64 77 4096 0 sys_a = Ret (1, sys_b)" "procs sys_b = owner # thread_one # replicate 62 idle_proc"
    "inodes sys_b = boot_inode\<lparr>i_ref := 2\<rparr> # replicate 49 boot_inode" "kstate.free_pages sys_b = [10, 11]" "outstanding sys_b = 0"
    "\<not> committing sys_b" "lh_n sys_b = 0" "cpus sys_b = cpus sys_a" "initproc sys_b = 0" "ticks sys_b = 5" "saved sys_b = saved sys_a"
  using create_b by (auto simp: sys_b_def ret_state_def)

lemma run_b: "ksys_run sys_b"
  using ksys_run.step [OF run_a kstep.create [OF _ sys_b(1), of 0]] by simp

definition sys_c :: ksys where "sys_c = dispatch 1 1 sys_b"

lemma run_c: "ksys_run sys_c"
proof -
  have "pick 0 sys_b = Some 1"
    unfolding pick_def by (rule find_upt_unique) (simp_all add: NPROC_def sys_b thread_one_def owner_def)
  then show ?thesis unfolding sys_c_def using ksys_run.step [OF run_b kstep.pick [of sys_b 1 0 1]] by (simp add: sys_b)
qed

lemma sys_c: "procs sys_c = owner # thread_one\<lparr>p_state := RUNNING, sched_times := 1, ticks_begin := 5, oncpu := 1\<rparr> # replicate 62 idle_proc"
    "inodes sys_c = inodes sys_b" "kstate.free_pages sys_c = [10, 11]" "outstanding sys_c = 0" "\<not> committing sys_c" "lh_n sys_c = 0"
    "cpus sys_c = (\<lambda>_. Scan 0)(0 := On 0 User, 1 := On 1 User)"
  by (simp_all add: sys_c_def dispatch_def switch_to_def upd_proc_def set_pc_def sys_b thread_one_def idle_proc_def)

definition sys_d :: ksys where
  "sys_d = (case kthread_exit 7 1 sys_c of Ret t \<Rightarrow> set_pc 1 1 Exiting t | _ \<Rightarrow> sys_c)"

definition gone :: kproc where
  "gone = thread_one\<lparr>p_state := ZOMBIE, sched_times := 1, ticks_begin := 5, oncpu := -1, p_cwd := None, thread_exit_value := 7\<rparr>"

lemma exit_d: "\<exists>t. kthread_exit 7 1 sys_c = Ret t \<and> procs t = owner # gone # replicate 62 idle_proc \<and>
    kstate.free_pages t = [10, 11] \<and> cpus t = cpus sys_c"
proof -
  have k: "kfor [0..<16] (close_file 1) x = Ret x" if "p_ofile (prc 1 x) = replicate 16 None" for x :: ksys
    by (rule kfor_idle) (use that in \<open>simp add: close_file_def\<close>)
  show ?thesis
    by (simp add: kthread_exit_def drop_files_def k [simplified] sys_c sys_b thread_one_def idle_proc_def TRUE_def begin_op_def
        MAXOPBLOCKS_def LOGSIZE_def iput_def lock_inode_def unlock_inode_def upd_inode_def boot_inode_def initsleeplock_def
        acquiresleep_def releasesleep_def end_op_def commit_def Let_def gone_def upd_proc_def)
qed

lemma sys_d: "ksys_run sys_d" "procs sys_d = owner # gone # replicate 62 idle_proc" "kstate.free_pages sys_d = [10, 11]"
    "cpus sys_d = (\<lambda>_. Scan 0)(0 := On 0 User, 1 := On 1 Exiting)"
proof -
  obtain t where t: "kthread_exit 7 1 sys_c = Ret t" "procs t = owner # gone # replicate 62 idle_proc"
    "kstate.free_pages t = [10, 11]" "cpus t = cpus sys_c" using exit_d by blast
  then have d: "sys_d = set_pc 1 1 Exiting t" by (simp add: sys_d_def)
  have "is_thread (prc 1 sys_c) = TRUE" by (simp add: sys_c thread_one_def TRUE_def)
  then show "ksys_run sys_d" unfolding d using ksys_run.step [OF run_c kstep.thread_exit [OF _ _ t(1), of 1]] by (simp add: sys_c)
  show "procs sys_d = owner # gone # replicate 62 idle_proc" "kstate.free_pages sys_d = [10, 11]"
    "cpus sys_d = (\<lambda>_. Scan 0)(0 := On 0 User, 1 := On 1 Exiting)" using t by (simp_all add: d sys_c set_pc_def)
qed

section \<open>Exit and join\<close>

text \<open>C11: a thread that exits with a value and has left its processor is freed by the next
  \<open>kthread_join\<close> of its process or of one of its threads, which returns that value, gives the stack
  back, counts one thread less and changes no other process.\<close>

theorem kthread_exit_join:
  fixes s :: "(kproc, 'b) pstate_scheme"
  assumes len: "length (procs s) = NPROC" and i: "i < NPROC" "is_thread (prc i s) = TRUE" "tid (prc i s) \<noteq> 0"
    and ex: "kthread_exit v i s = Ret u" "kthread_exit_sched i u = Ret w"
    and q: "p_parent (prc i s) = Some q" "q < NPROC" "q \<noteq> i" and cur: "join_owner cur s = Some q" "cur \<noteq> i"
    and first: "\<forall>j < i. p_parent (prc j s) = Some q \<longrightarrow> tid (prc j s) \<noteq> tid (prc i s)" and k: "p_kstack (prc i s) = Some k"
  shows "\<exists>t. kthread_join (int (tid (prc i s))) cur w = Ret (Inl v, t) \<and> p_state (prc i t) = UNUSED \<and>
    kstate.free_pages t = k # kstate.free_pages w \<and>
    prc q t = (prc q s)\<lparr>thread_count := u16 (thread_count (prc q s) + 65535)\<rparr> \<and>
    (\<forall>j. j \<noteq> i \<and> j \<noteq> q \<longrightarrow> prc j t = prc j s)"
proof -
  obtain d where d: "drop_files i s = Ret d"
      "u = upd_proc i (\<lambda>p. p\<lparr>p_killed := False, thread_exit_value := v, oncpu := -1, p_state := ZOMBIE\<rparr>) d"
    using ex(1) i(2) by (auto simp: kthread_exit_def outcome_simps)
  note f = files_step_nth [OF drop_files_step [OF d(1)]]
  obtain os cw where pd: "prc i d = (prc i s)\<lparr>p_ofile := os, p_cwd := cw\<rparr>" using f(3) by blast
  have w: "w = upd_proc i (\<lambda>p. p\<lparr>p_context := In_sched\<rparr>) u"
    using ex(2) by (auto simp: kthread_exit_sched_def sched_def split: if_splits)
  have il: "i < length (procs d)" "q < length (procs d)" using i(1) q(2) len f(1) by simp_all
  have pw: "prc i w = (prc i s)\<lparr>p_ofile := os, p_cwd := cw, p_killed := False, thread_exit_value := v, oncpu := -1,
        p_state := ZOMBIE, p_context := In_sched\<rparr>"
    using il by (simp add: w d(2) pd)
  have other: "prc j w = prc j s" if "j \<noteq> i" for j using that f(2) [OF that] by (simp add: w d(2))
  have lw: "length (procs w) = NPROC" using len f(1) by (simp add: w d(2))
  have own: "join_owner cur w = Some q" using cur other [OF cur(2)] by (simp add: join_owner_def split: if_splits)
  have "join_find (Some q) (int (tid (prc i s))) w = Some i"
    unfolding join_find_def
  proof (rule find_upt_unique)
    show "\<not> (p_parent (prc j w) = Some q \<and> int (tid (prc j w)) = int (tid (prc i s)))" if "j < i" for j
      using that first other [of j] by auto
  qed (use i q pw in simp_all)
  then show ?thesis
    using own i k pw q lw other [OF q(3)] other
    by (auto simp: kthread_join_def join_test_def join_reap_def free_kstack_def put_page_def upd_proc_def)
qed

text \<open>The thread of the example, after it has left its processor.\<close>

theorem kthread_exit_join_witness:
  "\<exists>u w t. kthread_exit 7 1 sys_c = Ret u \<and> kthread_exit_sched 1 u = Ret w \<and> kthread_join 1 0 w = Ret (Inl 7, t)"
proof -
  obtain u where u: "kthread_exit 7 1 sys_c = Ret u" "procs u = owner # gone # replicate 62 idle_proc" using exit_d by blast
  then obtain w where w: "kthread_exit_sched 1 u = Ret w" by (simp add: kthread_exit_sched_def sched_def gone_def)
  show ?thesis
    using kthread_exit_join [OF _ _ _ _ u(1) w, of 0 0 9] u w
    by (force simp: sys_c NPROC_def thread_one_def owner_def first_proc_def init_threads_def idle_proc_def TRUE_def join_owner_def)
qed

text \<open>C14: but \<open>kthread_exit\<close> marks the thread ZOMBIE before it takes \<open>ptable.lock\<close>: in a reachable state
  another processor joins the thread and frees the kernel stack on which the thread is still running.\<close>

theorem exit_races_join:
  "\<exists>s t u k. ksys_run s \<and> cpus s 1 = On 1 Exiting \<and> p_kstack (prc 1 s) = Some k \<and>
     kthread_join 1 0 s = Ret (Inl 7, t) \<and> kstep 0 None s u \<and> ksys_run u \<and>
     cpus u 1 = On 1 Exiting \<and> p_state (prc 1 u) = UNUSED \<and> k \<in> set (kstate.free_pages u)"
proof -
  have "join_find (Some 0) 1 sys_d = Some 1"
    unfolding join_find_def by (rule find_upt_unique)
      (simp_all add: sys_d NPROC_def gone_def thread_one_def owner_def first_proc_def init_threads_def)
  then obtain t where j: "kthread_join 1 0 sys_d = Ret (Inl 7, t)" and t: "procs t = owner\<lparr>thread_count := 0\<rparr> #
        gone\<lparr>p_kstack := None, p_pid := -1, p_parent := None, p_name := [0], p_sz := 0, p_state := UNUSED\<rparr> # replicate 62 idle_proc"
      "kstate.free_pages t = [9, 10, 11]" "cpus t = cpus sys_d"
    by (simp add: kthread_join_def join_owner_def sys_d join_test_def join_reap_def free_kstack_def put_page_def upd_proc_def
        gone_def thread_one_def owner_def first_proc_def init_threads_def idle_proc_def u16_def)
  define u where "u = join_done 0 0 (Inl 7) t"
  have st: "kstep 0 None sys_d u" unfolding u_def by (rule kstep.join [OF _ j]) (simp add: sys_d)
  have "cpus u 1 = On 1 Exiting" "p_state (prc 1 u) = UNUSED" "9 \<in> set (kstate.free_pages u)"
    using t by (simp_all add: u_def join_done_def set_pc_def sys_d)
  moreover have "p_kstack (prc 1 sys_d) = Some 9" "cpus sys_d 1 = On 1 Exiting"
    by (simp_all add: sys_d gone_def thread_one_def)
  ultimately show ?thesis using st j sys_d(1) ksys_run.step [OF sys_d(1) st] by blast
qed

section \<open>Bounded waiting\<close>

text \<open>C27: while a process stays runnable, no processor chooses more than \<open>NPROC - 1\<close> other processes: at most
  one for each slot between the place of its scan and the slot of the process, whatever the processors do.\<close>

theorem bounded_waiting:
  assumes "ksys_run s" and "waiting c i s n t" and "i < NPROC"
  shows "n \<le> turns c i s \<and> turns c i s < NPROC"
  using waiting_turns [OF assms(2) ksys_run_inv [OF assms(1)] assms(3)] turns_bound [OF assms(3)] by simp

theorem bounded_waiting_witness: "\<exists>t. waiting 1 1 sys_b 1 t \<and> 1 \<le> turns 1 1 sys_b"
proof -
  have "yield 0 sys_b = Ret (upd_proc 0 (\<lambda>p. p\<lparr>p_context := In_sched\<rparr>) (upd_proc 0 (\<lambda>p. p\<lparr>p_state := RUNNABLE\<rparr>) sys_b))"
    by (simp add: yield_def sched_def sys_b owner_def)
  then obtain u where y: "yield 0 sys_b = Ret u" "procs u = owner\<lparr>p_state := RUNNABLE, p_context := In_sched\<rparr> # thread_one # replicate 62 idle_proc"
      "cpus u = cpus sys_b" by (auto simp: upd_proc_def sys_b)
  let ?v = "switch_out 0 0 User u"
  have v: "kstep 0 None sys_b ?v" using kstep.yield [OF _ y(1), of 0] by (simp add: sys_b)
  have p0: "p_state (prc 0 ?v) = RUNNABLE" and p1: "prc 1 ?v = thread_one"
    using y by (simp_all add: switch_out_def account_def upd_proc_def Let_def)
  have "pick 0 ?v = Some 0"
    unfolding pick_def by (rule find_upt_unique) (use p0 in \<open>simp_all add: NPROC_def\<close>)
  moreover have "cpus ?v 1 = Scan 0" using y by (simp add: sys_b)
  ultimately have st: "kstep 1 (Some 0) ?v (dispatch 1 0 ?v)" using kstep.pick by blast
  have r: "p_state (prc 1 sys_b) = RUNNABLE" "p_state (prc 1 ?v) = RUNNABLE" using p1 by (simp_all add: sys_b thread_one_def)
  have "waiting 1 1 sys_b 0 ?v" using waiting.later [OF waiting.now [OF r(1)] v r(2), of 1] by simp
  moreover have "p_state (prc 1 (dispatch 1 0 ?v)) = RUNNABLE" using r(2) by (simp add: dispatch_def switch_to_def)
  ultimately have "waiting 1 1 sys_b 1 (dispatch 1 0 ?v)"
    using waiting.later [OF _ st, of 1 1 sys_b 0] by (simp del: One_nat_def)
  then show ?thesis using bounded_waiting [OF run_b, of 1 1 1] by (auto simp: NPROC_def)
qed

section \<open>Killing an unused slot\<close>

text \<open>\<open>kill\<close> does not look at the state of a slot, and \<open>wait\<close> leaves pid 0 in the slots it frees: \<open>kill(0)\<close>
  succeeds on an unused slot, and the process that is made there next is born killed.\<close>

theorem kill_zero_poisons:
  fixes s :: "(kproc, 'b) pstate_scheme"
  assumes len: "length (procs s) = NPROC" and slot: "find (\<lambda>i. p_state (prc i s) = UNUSED) [0..<NPROC] = Some i"
    and pid: "find (\<lambda>i. p_pid (prc i s) = 0) [0..<NPROC] = Some i" and page: "kstate.free_pages s = k # ks"
  shows "fst (kill 0 s) = 0 \<and> (\<exists>t. allocproc date (snd (kill 0 s)) = (Some i, t) \<and> p_killed (prc i t))"
proof -
  from find_Some_in_set [OF slot] have i: "i < length (procs s)" "p_state (prc i s) = UNUSED" using len by simp_all
  let ?t = "upd_proc i mark_killed s"
  have st: "p_state (prc j ?t) = p_state (prc j s)" for j using i by (cases "j = i") (simp_all add: mark_killed_def)
  have slot': "find (\<lambda>i. p_state (prc i ?t) = UNUSED) [0..<NPROC] = Some i" unfolding st by (rule slot)
  have page': "kstate.free_pages ?t = k # ks" using page by simp
  have len': "length (procs ?t) = NPROC" using len by simp
  show ?thesis
    using pid i by (auto simp: kill_def allocproc_ret [OF slot' page' len'] mark_killed_def init_threads_def)
qed

theorem kill_zero_poisons_witness:
  "\<exists>t. allocproc no_date (snd (kill 0 sys_a)) = (Some 1, t) \<and> p_killed (prc 1 t)"
proof -
  have "find (\<lambda>i. p_pid (prc i sys_a) = 0) [0..<NPROC] = Some 1"
    by (rule find_upt_unique) (simp_all add: proc_a NPROC_def idle_proc_def first_proc_def init_threads_def)
  then show ?thesis using kill_zero_poisons [OF _ slot_a _ fields_a(1)] by (simp add: proc_a NPROC_def)
qed

end
