(* ===== verification/Lottery.thy ===== *)
theory Lottery
  imports Proc
begin

text \<open>
  The lottery scheduler (\<open>lab3/xv6-lottery\<close>: \<open>proc.c\<close>, \<open>rand.c\<close>). Every process has a number of
  tickets, its \<open>nice_value\<close>. A round of \<open>scheduler\<close> adds up the tickets of the runnable processes, draws a
  number and goes through the table. What happens between the two switches of the processor, the work of the
  chosen process and of the other processors, is the parameter \<open>run\<close>.
\<close>

section \<open>Random numbers\<close>

definition RAND_MAX :: nat where "RAND_MAX = 2 ^ 31"

text \<open>\<open>rand\<close> and \<open>srand\<close> on the 32-bit seed \<open>next\<close>. \<open>RAND_MAX\<close> is \<open>1 << 31\<close>, read as unsigned.\<close>

definition rand :: "nat \<Rightarrow> int \<times> nat" where
  "rand nxt = (let nxt = u32 (nxt * 1103515245 + 12345) in (s32 (nxt div 65536 mod RAND_MAX), nxt))"

definition srand :: "nat \<Rightarrow> nat" where
  "srand seed = seed"

definition sys_random :: "('p, 'b) pstate_scheme \<Rightarrow> int \<times> nat" where
  "sys_random s = rand (srand (ticks s))"

lemma rand_range: "0 \<le> fst (rand nxt)" "fst (rand nxt) < 65536" "snd (rand nxt) < 4294967296"
proof -
  let ?n = "u32 (nxt * 1103515245 + 12345)"
  have n: "?n < 4294967296" by simp
  then have d: "?n div 65536 < 65536" by (simp add: div_less_iff_less_mult)
  then have "fst (rand nxt) = int (?n div 65536)" by (simp add: rand_def Let_def RAND_MAX_def s32_def)
  then show "0 \<le> fst (rand nxt)" "fst (rand nxt) < 65536" using d by simp_all
  show "snd (rand nxt) < 4294967296" using n by (simp add: rand_def Let_def)
qed

section \<open>Processes with tickets\<close>

definition DEFAULT_NICE_VALUE :: nat where "DEFAULT_NICE_VALUE = 25"
definition MAX_NICE_VALUE :: int where "MAX_NICE_VALUE = 50"
definition MIN_NICE_VALUE :: int where "MIN_NICE_VALUE = 1"

record lproc = proc +
  nice_value :: nat

definition init_nice :: "lproc \<Rightarrow> lproc" where
  "init_nice p = p\<lparr>ticks_begin := 0, nice_value := DEFAULT_NICE_VALUE\<rparr>"

definition allocproc :: "rtcdate \<Rightarrow> (lproc, 'b) pstate_scheme \<Rightarrow> nat option \<times> (lproc, 'b) pstate_scheme" where
  "allocproc = allocproc_with init_nice"

definition copy_nice :: "lproc \<Rightarrow> lproc \<Rightarrow> lproc" where
  "copy_nice c p = p\<lparr>nice_value := nice_value c\<rparr>"

definition fork :: "rtcdate \<Rightarrow> nat option \<Rightarrow> nat \<Rightarrow> (lproc, 'b) pstate_scheme \<Rightarrow> (int \<times> (lproc, 'b) pstate_scheme) outcome" where
  "fork = fork_with init_nice copy_nice"

definition renice :: "int \<Rightarrow> int \<Rightarrow> (lproc, 'b) pstate_scheme \<Rightarrow> int \<times> (lproc, 'b) pstate_scheme" where
  "renice new_value pid s =
     (if new_value < MIN_NICE_VALUE \<and> new_value > MAX_NICE_VALUE then (1, s)
      else (2, fold (\<lambda>i s. if p_state (prc i s) \<noteq> UNUSED then
                  if p_pid (prc i s) = pid then upd_proc i (\<lambda>p. p\<lparr>nice_value := nat (new_value mod 4294967296)\<rparr>) s else s
                else s) [0..<NPROC] s))"

text \<open>The results of the two \<open>argint\<close> are not looked at: \<open>junk\<close> is what the locals hold when they fail.\<close>

definition sys_renice :: "int \<Rightarrow> int \<Rightarrow> int option \<Rightarrow> int option \<Rightarrow> (lproc, 'b) pstate_scheme \<Rightarrow>
    int \<times> (lproc, 'b) pstate_scheme" where
  "sys_renice junk1 junk2 arg0 arg1 s =
     renice (case arg1 of Some n \<Rightarrow> n | None \<Rightarrow> junk1) (case arg0 of Some p \<Rightarrow> p | None \<Rightarrow> junk2) s"

text \<open>A line of \<open>sys_cps\<close>.\<close>

definition cps_line :: "(lproc, 'b) pstate_scheme \<Rightarrow> nat \<Rightarrow> cps_field list" where
  "cps_line s i =
     (let p = prc i s
      in [Num (p_pid p), Num (case p_parent p of None \<Rightarrow> 1 | Some q \<Rightarrow> p_pid (prc q s)),
          Str (map (\<lambda>b. char_of (unat b)) (takeWhile (\<lambda>c. c \<noteq> 0) (p_name p))), Str (state_name (p_state p)), Num (int (p_sz p))]
         @ cps_date (begin_date p) @ [Num (int (ticks_total p)), Num (int (sched_times p)), Num (int (nice_value p))])"

definition sys_cps :: "(lproc, 'b) pstate_scheme \<Rightarrow> cps_field list list" where
  "sys_cps s = map (cps_line s) (filter (\<lambda>i. p_state (prc i s) \<noteq> UNUSED) [0..<NPROC])"

section \<open>A round of the scheduler\<close>

definition add_tickets :: "lproc \<Rightarrow> nat \<Rightarrow> nat" where
  "add_tickets p n = (if p_state p = RUNNABLE then u32 (n + nice_value p) else n)"

definition total_nice :: "(lproc, 'b) pstate_scheme \<Rightarrow> nat" where
  "total_nice s = fold (\<lambda>i. add_tickets (prc i s)) [0..<NPROC] 0"

definition draw :: "int \<Rightarrow> nat \<Rightarrow> nat" where
  "draw x tot = nat (x mod 4294967296) mod tot + 1"

text \<open>Running the process in slot \<open>i\<close>, from one \<open>swtch\<close> to the other.\<close>

definition run_slot :: "(nat \<Rightarrow> (lproc, 'b) pstate_scheme \<Rightarrow> (lproc, 'b) pstate_scheme) \<Rightarrow> nat \<Rightarrow>
    (lproc, 'b) pstate_scheme \<Rightarrow> (lproc, 'b) pstate_scheme" where
  "run_slot run i s = account i (run i (switch_to i s))"

text \<open>The second loop of a round with \<open>rand_val = r\<close>; it also returns the slots that have run.\<close>

fun lottery_loop :: "(nat \<Rightarrow> (lproc, 'b) pstate_scheme \<Rightarrow> (lproc, 'b) pstate_scheme) \<Rightarrow> nat \<Rightarrow> nat \<Rightarrow> nat list \<Rightarrow>
    (lproc, 'b) pstate_scheme \<Rightarrow> nat list \<times> (lproc, 'b) pstate_scheme" where
  "lottery_loop run r count [] s = ([], s)"
| "lottery_loop run r count (i # is) s =
     (if p_state (prc i s) \<noteq> RUNNABLE then lottery_loop run r count is s
      else
        let count = u32 (count + nice_value (prc i s))
        in if count \<le> r then lottery_loop run r count is s
           else case lottery_loop run r count is (run_slot run i s) of (won, s) \<Rightarrow> (i # won, s))"

text \<open>One round of \<open>scheduler\<close>, from the seed of \<open>rand\<close>.\<close>

definition lottery_round :: "(nat \<Rightarrow> (lproc, 'b) pstate_scheme \<Rightarrow> (lproc, 'b) pstate_scheme) \<Rightarrow> nat \<Rightarrow>
    (lproc, 'b) pstate_scheme \<Rightarrow> nat list \<times> nat \<times> (lproc, 'b) pstate_scheme" where
  "lottery_round run nxt s =
     (if total_nice s = 0 then ([], nxt, s)
      else case rand nxt of (x, nxt) \<Rightarrow>
        case lottery_loop run (draw x (total_nice s)) 0 [0..<NPROC] s of (won, s) \<Rightarrow> (won, nxt, s))"

section \<open>Who wins\<close>

text \<open>The tickets of the runnable processes up to slot \<open>i\<close>, without it.\<close>

definition tickets :: "nat \<Rightarrow> (lproc, 'b) pstate_scheme \<Rightarrow> nat" where
  "tickets i s = (\<Sum>j < i. if p_state (prc j s) = RUNNABLE then nice_value (prc j s) else 0)"

lemma tickets_mono: "i \<le> j \<Longrightarrow> tickets i s \<le> tickets j s"
  unfolding tickets_def by (rule sum_mono2) auto

lemma tickets_Suc: "tickets (Suc i) s = tickets i s + (if p_state (prc i s) = RUNNABLE then nice_value (prc i s) else 0)"
  by (simp add: tickets_def)

lemma total_nice_tickets:
  assumes "tickets NPROC s < 4294967296" shows "total_nice s = tickets NPROC s"
proof -
  have "fold (\<lambda>i. add_tickets (prc i s)) [0..<n] 0 = tickets n s" if "n \<le> NPROC" for n
    using that
  proof (induction n)
    case 0
    then show ?case by (simp add: tickets_def)
  next
    case (Suc n)
    have "tickets (Suc n) s < 4294967296" using tickets_mono [OF Suc.prems, of s] assms by linarith
    then show ?case using Suc by (auto simp: add_tickets_def tickets_Suc split: if_splits)
  qed
  then show ?thesis by (simp add: total_nice_def)
qed

text \<open>
  The lottery that a round is meant to hold: the number drawn lies in the tickets of one runnable process, counted from the
  state in which it was drawn.
\<close>

definition first_winner :: "nat \<Rightarrow> (lproc, 'b) pstate_scheme \<Rightarrow> nat option" where
  "first_winner r s = find (\<lambda>i. p_state (prc i s) = RUNNABLE \<and> r < tickets (Suc i) s) [0..<NPROC]"

text \<open>
  What the scan meets: \<open>scan_at run won j s\<close> is the state when it comes to slot \<open>j\<close>, after those of \<open>won\<close> before \<open>j\<close> have
  run, and \<open>scanned run won j s\<close> counts the tickets it has met in the slots before \<open>j\<close>. Nothing is asked of \<open>run\<close>: a process
  that runs can wake, create, kill or renice others, and so can the other processors meanwhile.
\<close>

definition scan_at :: "(nat \<Rightarrow> (lproc, 'b) pstate_scheme \<Rightarrow> (lproc, 'b) pstate_scheme) \<Rightarrow> nat list \<Rightarrow> nat \<Rightarrow>
    (lproc, 'b) pstate_scheme \<Rightarrow> (lproc, 'b) pstate_scheme" where
  "scan_at run won j s = fold (run_slot run) (filter (\<lambda>i. i < j) won) s"

definition met :: "(nat \<Rightarrow> (lproc, 'b) pstate_scheme \<Rightarrow> (lproc, 'b) pstate_scheme) \<Rightarrow> nat list \<Rightarrow> nat \<Rightarrow>
    (lproc, 'b) pstate_scheme \<Rightarrow> lproc" where
  "met run won j s = prc j (scan_at run won j s)"

definition scanned :: "(nat \<Rightarrow> (lproc, 'b) pstate_scheme \<Rightarrow> (lproc, 'b) pstate_scheme) \<Rightarrow> nat list \<Rightarrow> nat \<Rightarrow>
    (lproc, 'b) pstate_scheme \<Rightarrow> nat" where
  "scanned run won j s = (\<Sum>i < j. if p_state (met run won i s) = RUNNABLE then nice_value (met run won i s) else 0)"

lemma scanned_Suc:
  "scanned run won (Suc j) s = scanned run won j s +
     (if p_state (met run won j s) = RUNNABLE then nice_value (met run won j s) else 0)"
  by (simp add: scanned_def)

lemma scanned_mono: "i \<le> j \<Longrightarrow> scanned run won i s \<le> scanned run won j s"
  unfolding scanned_def by (rule sum_mono2) auto

lemma u32_u32_add: "u32 (u32 a + b) = u32 (a + b)"
  by (simp add: u32_def mod_simps)

lemma lottery_loop_set: "set (fst (lottery_loop run r c is s)) \<subseteq> set is"
  by (induction run r c "is" s rule: lottery_loop.induct) (auto simp: Let_def split_beta)

text \<open>The loop from slot \<open>k\<close> on, which it reaches in the state \<open>t\<close> after the slots in \<open>pre\<close> have run.\<close>

lemma lottery_loop_scan:
  fixes r c :: nat and s t :: "(lproc, 'b) pstate_scheme" and run :: "nat \<Rightarrow> (lproc, 'b) pstate_scheme \<Rightarrow> (lproc, 'b) pstate_scheme"
  assumes "k \<le> n" and "set pre \<subseteq> {..<k}" and "t = fold (run_slot run) pre s" and "c = u32 (scanned run pre k s)"
  defines "won \<equiv> fst (lottery_loop run r c [k..<n] t)"
  shows "won = filter (\<lambda>j. p_state (met run (pre @ won) j s) = RUNNABLE \<and> r < u32 (scanned run (pre @ won) (Suc j) s)) [k..<n] \<and>
    snd (lottery_loop run r c [k..<n] t) = fold (run_slot run) (pre @ won) s"
  using assms(1-4) unfolding won_def
proof (induction "n - k" arbitrary: k pre t c)
  case 0
  then show ?case by simp
next
  case (Suc d)
  then have k: "k < n" and d: "d = n - Suc k" by simp_all
  then have u: "[k..<n] = k # [Suc k..<n]" by (simp add: upt_conv_Cons)
  have below: "filter (\<lambda>i. i < j) (pre @ xs) = filter (\<lambda>i. i < j) pre" if "set xs \<subseteq> {k..<n}" "j \<le> k" for xs j
    using that by (auto simp: filter_empty_conv)
  have pre_met: "met run (pre @ xs) j s = met run pre j s" if "set xs \<subseteq> {k..<n}" "j \<le> k" for xs j
    unfolding met_def scan_at_def below [OF that] ..
  have pre_sc: "scanned run (pre @ xs) k s = scanned run pre k s" if "set xs \<subseteq> {k..<n}" for xs
    unfolding scanned_def by (rule sum.cong) (use pre_met [OF that] in auto)
  have "filter (\<lambda>i. i < k) pre = pre" using Suc.prems(2) by (auto simp: filter_id_conv)
  then have pk: "prc k t = met run pre k s" by (simp add: met_def scan_at_def Suc.prems(3))
  show ?case
  proof (cases "p_state (prc k t) = RUNNABLE \<and> r < u32 (c + nice_value (prc k t))")
    case False
    define c' where "c' = (if p_state (prc k t) = RUNNABLE then u32 (c + nice_value (prc k t)) else c)"
    let ?w = "fst (lottery_loop run r c' [Suc k..<n] t)"
    have e: "lottery_loop run r c [k..<n] t = lottery_loop run r c' [Suc k..<n] t"
      using False by (auto simp: u c'_def Let_def)
    have c': "c' = u32 (scanned run pre (Suc k) s)"
      using Suc.prems(4) by (simp add: c'_def scanned_Suc pk u32_u32_add)
    have IH: "?w = filter (\<lambda>j. p_state (met run (pre @ ?w) j s) = RUNNABLE \<and> r < u32 (scanned run (pre @ ?w) (Suc j) s)) [Suc k..<n] \<and>
        snd (lottery_loop run r c' [Suc k..<n] t) = fold (run_slot run) (pre @ ?w) s"
      by (rule Suc.hyps(1) [OF d _ _ Suc.prems(3) c']) (use k Suc.prems(2) in auto)
    have w: "set ?w \<subseteq> {k..<n}" using lottery_loop_set [of run r c' "[Suc k..<n]" t] by auto
    have "\<not> (p_state (met run (pre @ ?w) k s) = RUNNABLE \<and> r < u32 (scanned run (pre @ ?w) (Suc k) s))"
      using False by (simp add: scanned_Suc pre_met [OF w] pre_sc [OF w] flip: pk) (simp add: Suc.prems(4) pre_sc [OF w] u32_u32_add)
    then show ?thesis unfolding e unfolding u using IH by simp
  next
    case True
    let ?c = "u32 (c + nice_value (prc k t))" and ?t = "run_slot run k t"
    let ?w = "fst (lottery_loop run r ?c [Suc k..<n] ?t)"
    have e: "lottery_loop run r c [k..<n] t = (k # ?w, snd (lottery_loop run r ?c [Suc k..<n] ?t))"
      using True by (simp add: u Let_def not_le split_beta)
    have w: "set (k # ?w) \<subseteq> {k..<n}" using lottery_loop_set [of run r ?c "[Suc k..<n]" ?t] k by auto
    have w1: "set [k] \<subseteq> {k..<n}" using k by simp
    have c': "?c = u32 (scanned run (pre @ [k]) (Suc k) s)"
      using True by (simp add: scanned_Suc pre_met [OF w1] pre_sc [OF w1] flip: pk) (simp add: Suc.prems(4) u32_u32_add)
    have t': "?t = fold (run_slot run) (pre @ [k]) s" by (simp add: Suc.prems(3))
    have IH: "?w = filter (\<lambda>j. p_state (met run ((pre @ [k]) @ ?w) j s) = RUNNABLE \<and>
          r < u32 (scanned run ((pre @ [k]) @ ?w) (Suc j) s)) [Suc k..<n] \<and>
        snd (lottery_loop run r ?c [Suc k..<n] ?t) = fold (run_slot run) ((pre @ [k]) @ ?w) s"
      by (rule Suc.hyps(1) [OF d _ _ t' c']) (use k Suc.prems(2) in auto)
    have "p_state (met run (pre @ k # ?w) k s) = RUNNABLE \<and> r < u32 (scanned run (pre @ k # ?w) (Suc k) s)"
      using True by (simp add: scanned_Suc pre_met [OF w] pre_sc [OF w] flip: pk) (simp add: Suc.prems(4) u32_u32_add)
    then show ?thesis unfolding e unfolding u using IH by simp
  qed
qed

lemma lottery_loop_first:
  assumes "tickets n s < 4294967296" and "k \<le> n"
  shows "find (\<lambda>_. True) (fst (lottery_loop run r (tickets k s) [k..<n] s)) =
    find (\<lambda>i. p_state (prc i s) = RUNNABLE \<and> r < tickets (Suc i) s) [k..<n]"
  using assms(2)
proof (induction "n - k" arbitrary: k)
  case 0
  then show ?case by simp
next
  case (Suc d)
  then have k: "k < n" and d: "d = n - Suc k" by simp_all
  then have u: "[k..<n] = k # [Suc k..<n]" by (simp add: upt_conv_Cons)
  have "tickets (Suc k) s \<le> tickets n s" by (rule tickets_mono) (use k in simp)
  then have "u32 (tickets (Suc k) s) = tickets (Suc k) s" using assms(1) by (simp add: u32_def)
  then show ?case
    using Suc.hyps(1) [OF d] k by (auto simp: u Let_def split_beta tickets_Suc)
qed

lemma draw_range: "0 < n \<Longrightarrow> 1 \<le> draw x n \<and> draw x n \<le> n"
  by (simp add: draw_def Suc_leI)

lemma first_winner_iff:
  "first_winner r s = Some i \<longleftrightarrow>
     i < NPROC \<and> p_state (prc i s) = RUNNABLE \<and> tickets i s \<le> r \<and> r < tickets (Suc i) s" (is "?L \<longleftrightarrow> ?R")
proof
  assume L: ?L
  then have i: "i < NPROC" "p_state (prc i s) = RUNNABLE" "r < tickets (Suc i) s"
    and before: "\<And>j. j < i \<Longrightarrow> \<not> (p_state (prc j s) = RUNNABLE \<and> r < tickets (Suc j) s)"
    unfolding first_winner_def by (auto simp: find_Some_iff)
  have "tickets j s \<le> r" if "j \<le> i" for j
    using that before by (induction j) (auto simp: tickets_Suc [of _ s] not_less tickets_def [of 0] split: if_splits)
  with i show ?R by simp
next
  assume R: ?R
  have "\<not> r < tickets (Suc j) s" if "j < i" for j using tickets_mono [of "Suc j" i s] that R by simp
  then show ?L unfolding first_winner_def find_Some_iff using R by (intro exI [of _ i]) auto
qed

lemma first_winner_None: "first_winner r s = None \<longleftrightarrow> tickets NPROC s \<le> r"
proof
  assume "first_winner r s = None"
  then have before: "\<And>j. j < NPROC \<Longrightarrow> \<not> (p_state (prc j s) = RUNNABLE \<and> r < tickets (Suc j) s)"
    unfolding first_winner_def by (auto simp: find_None_iff)
  have "tickets j s \<le> r" if "j \<le> NPROC" for j
    using that before by (induction j) (auto simp: tickets_Suc [of _ s] not_less tickets_def [of 0] split: if_splits)
  then show "tickets NPROC s \<le> r" by simp
next
  assume a: "tickets NPROC s \<le> r"
  have "\<not> r < tickets (Suc j) s" if "j < NPROC" for j using tickets_mono [of "Suc j" NPROC s] that a by simp
  then show "first_winner r s = None" unfolding first_winner_def by (auto simp: find_None_iff)
qed

text \<open>The numbers that a process wins: as many as it has tickets, but the first runnable process has one less.\<close>

lemma card_first_winner:
  assumes "i < NPROC" and "p_state (prc i s) = RUNNABLE"
  shows "card {r. 1 \<le> r \<and> r \<le> tickets NPROC s \<and> first_winner r s = Some i} =
    (if tickets i s = 0 then nice_value (prc i s) - 1 else nice_value (prc i s))"
proof -
  have "tickets (Suc i) s \<le> tickets NPROC s" by (rule tickets_mono) (use assms(1) in simp)
  then have "{r. 1 \<le> r \<and> r \<le> tickets NPROC s \<and> first_winner r s = Some i} = {max 1 (tickets i s)..<tickets (Suc i) s}"
    unfolding first_winner_iff using assms by auto
  then show ?thesis using assms(2) by (simp add: tickets_Suc max_def)
qed

text \<open>After the first winner all that the scan finds runnable run, as long as the count fits its 32 bits.\<close>

lemma winners_after_first:
  assumes won: "won = filter (\<lambda>j. p_state (met run won j s) = RUNNABLE \<and> r < u32 (scanned run won (Suc j) s)) [0..<NPROC]"
    and first: "find (\<lambda>_. True) won = first_winner r s" and small: "scanned run won NPROC s < 4294967296"
  shows "won = (case first_winner r s of None \<Rightarrow> []
    | Some i \<Rightarrow> i # filter (\<lambda>j. p_state (met run won j s) = RUNNABLE) [Suc i..<NPROC])"
proof (cases won)
  case Nil
  then show ?thesis using first by simp
next
  case (Cons i ws)
  let ?P = "\<lambda>j. p_state (met run won j s) = RUNNABLE \<and> r < u32 (scanned run won (Suc j) s)"
  have f: "first_winner r s = Some i" using first Cons by simp
  have u: "u32 (scanned run won (Suc j) s) = scanned run won (Suc j) s" if "j < NPROC" for j
    using scanned_mono [of "Suc j" NPROC run won s] small that by (simp add: u32_def)
  have "i \<in> set (filter ?P [0..<NPROC])" using Cons won by (metis list.set_intros(1))
  then have i: "i < NPROC" "?P i" by simp_all
  have "\<not> ?P j" if "j < i" for j
  proof
    assume "?P j"
    then have "j \<in> set won" using i that by (subst won) simp
    moreover have "sorted won" by (subst won) (rule sorted_filter [of "\<lambda>x. x", simplified], simp)
    ultimately show False using that Cons by auto
  qed
  then have "filter ?P [0..<i] = []" by (simp add: filter_empty_conv)
  moreover have "[0..<NPROC] = [0..<i] @ i # [Suc i..<NPROC]"
    using i(1) by (metis less_imp_le_nat le0 upt_add_eq_append upt_conv_Cons le_add_diff_inverse add_0)
  ultimately have "won = i # filter ?P [Suc i..<NPROC]" using i(2) by (subst won) simp
  moreover have "filter ?P [Suc i..<NPROC] = filter (\<lambda>j. p_state (met run won j s) = RUNNABLE) [Suc i..<NPROC]"
  proof (rule filter_cong [OF refl])
    fix j assume "j \<in> set [Suc i..<NPROC]"
    then have j: "i < j" "j < NPROC" by simp_all
    have "r < scanned run won (Suc i) s" using i u by simp
    also have "\<dots> \<le> scanned run won (Suc j) s" by (rule scanned_mono) (use j in simp)
    finally show "?P j \<longleftrightarrow> p_state (met run won j s) = RUNNABLE" using u [OF j(2)] by simp
  qed
  ultimately show ?thesis using f by simp
qed

text \<open>C26: a round, when there are tickets and they fit 32 bits, draws a number between 1 and the number of tickets. The process that runs first is the one in whose tickets
  the number lies, counted from 0: each wins as many of the numbers as it has tickets, except that the first runnable one has
  one number less, and for the greatest number nobody runs. But the scan does not stop there: a slot runs exactly when it is
  runnable at the moment the scan comes to it and the tickets met up to and with it exceed the number, and so every process
  that is runnable behind the winner runs as well, also one that was not runnable at the draw, unless the count exceeds
  32 bits. Nothing is assumed of the processes that run or of the other processors: they may change any slot.
\<close>

theorem lottery_winners:
  fixes nxt :: nat and s :: "(lproc, 'b) pstate_scheme" and run :: "nat \<Rightarrow> (lproc, 'b) pstate_scheme \<Rightarrow> (lproc, 'b) pstate_scheme"
  assumes "tickets NPROC s < 4294967296" and "0 < tickets NPROC s"
  defines "r \<equiv> draw (fst (rand nxt)) (tickets NPROC s)" and "won \<equiv> fst (lottery_round run nxt s)"
  shows "1 \<le> r \<and> r \<le> tickets NPROC s \<and> find (\<lambda>_. True) won = first_winner r s \<and>
    won = filter (\<lambda>j. p_state (met run won j s) = RUNNABLE \<and> r < u32 (scanned run won (Suc j) s)) [0..<NPROC] \<and>
    snd (snd (lottery_round run nxt s)) = fold (run_slot run) won s \<and>
    (scanned run won NPROC s < 4294967296 \<longrightarrow> won = (case first_winner r s of None \<Rightarrow> []
       | Some i \<Rightarrow> i # filter (\<lambda>j. p_state (met run won j s) = RUNNABLE) [Suc i..<NPROC])) \<and>
    (\<forall>i < NPROC. p_state (prc i s) = RUNNABLE \<longrightarrow>
       card {r. 1 \<le> r \<and> r \<le> tickets NPROC s \<and> first_winner r s = Some i} =
         (if tickets i s = 0 then nice_value (prc i s) - 1 else nice_value (prc i s))) \<and>
    first_winner (tickets NPROC s) s = None"
proof -
  have t: "total_nice s = tickets NPROC s" by (rule total_nice_tickets [OF assms(1)])
  have z: "tickets 0 s = 0" "scanned run [] 0 s = 0" by (simp_all add: tickets_def scanned_def)
  have w: "won = fst (lottery_loop run r 0 [0..<NPROC] s)"
      "snd (snd (lottery_round run nxt s)) = snd (lottery_loop run r 0 [0..<NPROC] s)"
    using assms(2) by (simp_all add: lottery_round_def t r_def won_def split_beta)
  note scan = lottery_loop_scan [of 0 NPROC "[]" s run s 0 r]
  have 1: "won = filter (\<lambda>j. p_state (met run won j s) = RUNNABLE \<and> r < u32 (scanned run won (Suc j) s)) [0..<NPROC]"
    and "snd (snd (lottery_round run nxt s)) = fold (run_slot run) won s"
    using scan z unfolding w by simp_all
  moreover have 2: "find (\<lambda>_. True) won = first_winner r s"
    unfolding w first_winner_def using lottery_loop_first [OF assms(1), of 0 run r] by (simp add: z)
  moreover note winners_after_first [OF 1 2] card_first_winner [of _ s] draw_range [OF assms(2), folded r_def]
  ultimately show ?thesis unfolding r_def by (simp add: first_winner_None)
qed

section \<open>An example\<close>

text \<open>Two runnable processes with the default number of tickets each, that give up the processor at once.\<close>

definition idle_lproc :: lproc where
  "idle_lproc = \<lparr>p_sz = 0, p_pgdir = None, p_kstack = None, p_state = UNUSED, p_pid = 0, p_parent = None, p_tf = junk_tf,
     p_context = Forkret, p_chan = None, p_killed = False, p_ofile = replicate 16 None, p_cwd = None,
     p_name = replicate 16 0, begin_date = \<lparr>second = 0, minute = 0, hour = 0, day = 0, month = 0, year = 0\<rparr>,
     ticks_total = 0, ticks_begin = 0, sched_times = 0, nice_value = 0\<rparr>"

definition live_lproc :: "int \<Rightarrow> nat \<Rightarrow> lproc" where
  "live_lproc pid n = idle_lproc\<lparr>p_pgdir := Some 7, p_kstack := Some 8, p_state := RUNNABLE, p_pid := pid, nice_value := n\<rparr>"

definition lottery_sys :: "lproc list \<Rightarrow> lproc pstate" where
  "lottery_sys ps = \<lparr>bufs = [], lru = [], memdisk = (\<lambda>_. []), disksize = 0, disk_writes = [], my_pid = 1, log_start = 2,
     log_size = 30, outstanding = 0, committing = False, log_dev = 1, lh_n = 0, lh_block = [],
     fs_sb = \<lparr>sb_size = 0, sb_nblocks = 0, sb_ninodes = 0, sb_nlog = 30, sb_logstart = 2, sb_inodestart = 32, sb_bmapstart = 34\<rparr>,
     inodes = [], devsw = [], cwd = 0, ftable = [], pipes = (\<lambda>_. new_pipe (replicate 512 0)), free_pages = [],
     ofile = [], pkilled = False, umem = (\<lambda>_. 0), usz = 0, uesp = 0,
     procs = ps @ replicate (NPROC - length ps) idle_lproc, nextpid = 3, initproc = 0, ticks = 5, vspaces = [7]\<rparr>"

definition give_up :: "nat \<Rightarrow> (lproc, 'b) pstate_scheme \<Rightarrow> (lproc, 'b) pstate_scheme" where
  "give_up i = upd_proc i (\<lambda>p. p\<lparr>p_state := RUNNABLE\<rparr>)"

lemma lottery_sys_prc: "i < NPROC \<Longrightarrow> prc i (lottery_sys ps) = (if i < length ps then ps ! i else idle_lproc)"
  by (simp add: lottery_sys_def nth_append)

abbreviation two_players :: "lproc pstate" where
  "two_players \<equiv> lottery_sys [live_lproc 1 25, live_lproc 2 25]"

lemma two_players_tickets: "tickets (Suc 0) two_players = 25" "n \<le> 62 \<Longrightarrow> tickets (Suc (Suc n)) two_players = 50"
proof -
  show 1: "tickets (Suc 0) two_players = 25"
    using lottery_sys_prc [of 0] by (simp add: tickets_def NPROC_def live_lproc_def)
  show "tickets (Suc (Suc n)) two_players = 50" if "n \<le> 62"
    using that
  proof (induction n)
    case 0
    then show ?case using 1 lottery_sys_prc [of 1] by (simp add: tickets_Suc [of 1, simplified] NPROC_def live_lproc_def)
  next
    case (Suc n)
    then show ?case using lottery_sys_prc [of "n + 2"] by (simp add: tickets_Suc [of "Suc (Suc n)"] NPROC_def idle_lproc_def)
  qed
qed

text \<open>A process that wakes the one in the next slot before it gives the processor up.\<close>

definition wake_next :: "nat \<Rightarrow> (lproc, 'b) pstate_scheme \<Rightarrow> (lproc, 'b) pstate_scheme" where
  "wake_next i s = give_up i (upd_proc (Suc i) (\<lambda>p. p\<lparr>p_state := (if p_state p = SLEEPING then RUNNABLE else p_state p)\<rparr>) s)"

abbreviation three_players :: "lproc pstate" where
  "three_players \<equiv> lottery_sys [live_lproc 1 25, live_lproc 2 25, (live_lproc 3 25)\<lparr>p_state := SLEEPING\<rparr>]"

lemma prc_upd_proc: "prc j (upd_proc i f s) = (if j = i \<and> i < length (procs s) then f (prc i s) else prc j s)"
  by (cases "i < length (procs s)") (auto simp: upd_proc_def list_update_beyond)

lemma wake_next_keeps:
  "length (procs (run_slot wake_next i s)) = length (procs s)"
  "nice_value (prc j (run_slot wake_next i s)) = nice_value (prc j s)"
  "j \<noteq> i \<Longrightarrow> p_state (prc j s) = UNUSED \<Longrightarrow> p_state (prc j (run_slot wake_next i s)) = UNUSED"
  by (auto simp: run_slot_def account_def switch_to_def wake_next_def give_up_def prc_upd_proc)

lemma wake_next_wakes:
  "p_state (prc (Suc i) s) = SLEEPING \<Longrightarrow> Suc i < length (procs s) \<Longrightarrow> p_state (prc (Suc i) (run_slot wake_next i s)) = RUNNABLE"
  by (simp add: run_slot_def account_def switch_to_def wake_next_def give_up_def prc_upd_proc)

lemma wake_next_fold:
  "nice_value (prc j (fold (run_slot wake_next) won s)) = nice_value (prc j s)"
  "j \<notin> set won \<Longrightarrow> p_state (prc j s) = UNUSED \<Longrightarrow> p_state (prc j (fold (run_slot wake_next) won s)) = UNUSED"
  by (induction won arbitrary: s) (auto simp: wake_next_keeps)

text \<open>The number 39 lies in the tickets of slot 1. The process there wakes slot 2, which had no tickets at the draw and runs too.\<close>

theorem lottery_winners_witness:
  "fst (lottery_round wake_next 1 three_players) = [1, 2] \<and> first_winner 39 three_players = Some 1 \<and>
   p_state (prc 2 three_players) = SLEEPING"
proof -
  let ?s = three_players
  let ?won = "fst (lottery_round wake_next 1 ?s)"
  have p: "prc 0 ?s = live_lproc 1 25" "prc 1 ?s = live_lproc 2 25" "prc 2 ?s = (live_lproc 3 25)\<lparr>p_state := SLEEPING\<rparr>"
    "\<And>i. 2 < i \<Longrightarrow> i < NPROC \<Longrightarrow> prc i ?s = idle_lproc"
    by (auto simp: lottery_sys_prc NPROC_def numeral_eq_Suc)
  have t2: "tickets 1 ?s = 25" "tickets 2 ?s = 50"
    using p(1,2) by (simp_all add: tickets_def numeral_eq_Suc live_lproc_def)
  have "tickets (2 + n) ?s = 50" if "n \<le> 62" for n
    using that
  proof (induction n)
    case (Suc n)
    have "p_state (prc (2 + n) ?s) \<noteq> RUNNABLE" using p(3,4) Suc.prems by (cases n) (simp_all add: NPROC_def idle_lproc_def)
    then show ?case using Suc by (simp add: tickets_Suc [of "2 + n", simplified])
  qed (simp add: t2)
  from this [of 62] have t: "tickets NPROC ?s = 50" by (simp add: NPROC_def)
  then have pos: "tickets NPROC ?s < 4294967296" "0 < tickets NPROC ?s" by simp_all
  have d: "draw (fst (rand 1)) 50 = 39" by (simp add: draw_def rand_def u32_def s32_def RAND_MAX_def)
  have f: "first_winner 39 ?s = Some 1" using t2 p(2) by (simp add: first_winner_iff NPROC_def live_lproc_def numeral_2_eq_2)
  have "nice_value (prc i ?s) \<le> 25" if "i < NPROC" for i
    using that p by (cases "i = 0 \<or> i = 1 \<or> i = 2") (auto simp: live_lproc_def idle_lproc_def)
  then have "scanned wake_next ?won NPROC ?s \<le> (\<Sum>i < NPROC. 25)"
    unfolding scanned_def by (intro sum_mono) (simp add: met_def scan_at_def wake_next_fold)
  then have "scanned wake_next ?won NPROC ?s < 4294967296" by (simp add: NPROC_def)
  then have win: "?won = (case first_winner 39 ?s of None \<Rightarrow> []
      | Some i \<Rightarrow> i # filter (\<lambda>j. p_state (met wake_next ?won j ?s) = RUNNABLE) [Suc i..<NPROC])"
    using lottery_winners [OF pos, of 1 wake_next, unfolded t d] by blast
  have w: "?won = 1 # filter (\<lambda>j. p_state (met wake_next ?won j ?s) = RUNNABLE) [2..<NPROC]"
    using win f by (simp only: option.case numeral_2_eq_2 One_nat_def)
  have two: "p_state (met wake_next ?won 2 ?s) = RUNNABLE"
  proof -
    have "filter (\<lambda>i. i < 2) ?won = [1]" by (subst w) (simp add: filter_empty_conv)
    then have "met wake_next ?won 2 ?s = prc (Suc 1) (run_slot wake_next 1 ?s)" by (simp add: met_def scan_at_def numeral_2_eq_2)
    moreover have "length (procs ?s) = NPROC" by (simp add: lottery_sys_def NPROC_def)
    then have "p_state (prc (Suc 1) (run_slot wake_next 1 ?s)) = RUNNABLE"
      using p(3) by (intro wake_next_wakes) (simp_all add: NPROC_def live_lproc_def numeral_2_eq_2)
    ultimately show ?thesis by simp
  qed
  have "p_state (met wake_next ?won j ?s) = UNUSED" if "2 < j" "j < NPROC" for j
    unfolding met_def scan_at_def by (rule wake_next_fold) (use p(4) [OF that] in \<open>auto simp: idle_lproc_def\<close>)
  then have "filter (\<lambda>j. p_state (met wake_next ?won j ?s) = RUNNABLE) [3..<NPROC] = []" by (auto simp: filter_empty_conv)
  moreover have "[2..<NPROC] = 2 # [3..<NPROC]" by (simp add: upt_conv_Cons NPROC_def)
  ultimately have "?won = [1, 2]" using two by (subst w) simp
  then show ?thesis using f p(3) by (simp add: live_lproc_def)
qed

section \<open>Starvation\<close>

text \<open>\<open>n\<close> rounds after each other, and the slots that have run in them.\<close>

primrec lottery_rounds :: "(nat \<Rightarrow> (lproc, 'b) pstate_scheme \<Rightarrow> (lproc, 'b) pstate_scheme) \<Rightarrow> nat \<Rightarrow> nat \<Rightarrow>
    (lproc, 'b) pstate_scheme \<Rightarrow> nat list \<times> nat \<times> (lproc, 'b) pstate_scheme" where
  "lottery_rounds run 0 nxt s = ([], nxt, s)"
| "lottery_rounds run (Suc n) nxt s =
     (case lottery_round run nxt s of (won, nxt, s) \<Rightarrow>
      case lottery_rounds run n nxt s of (later, nxt, s) \<Rightarrow> (won @ later, nxt, s))"

lemma tickets_lone:
  assumes "\<forall>j < n. p_state (prc j s) = RUNNABLE \<longrightarrow> j = i"
  shows "tickets n s = (if i < n \<and> p_state (prc i s) = RUNNABLE then nice_value (prc i s) else 0)"
  using assms
proof (induction n)
  case (Suc n)
  then have "tickets n s = (if i < n \<and> p_state (prc i s) = RUNNABLE then nice_value (prc i s) else 0)" by simp
  moreover have "p_state (prc n s) \<noteq> RUNNABLE" if "i \<noteq> n" using Suc.prems that by blast
  ultimately show ?case by (cases "i = n") (simp_all add: tickets_Suc less_Suc_eq)
qed (simp add: tickets_def)

lemma lottery_loop_lone:
  assumes "\<forall>j \<in> set is. p_state (prc j s) = RUNNABLE \<longrightarrow> j = i" and "nice_value (prc i s) \<le> 1" and "distinct is" and "1 \<le> r"
  shows "lottery_loop run r 0 is s = ([], s)"
proof -
  have "lottery_loop run r c is s = ([], s)" if "c \<le> 1" "i \<in> set is \<longrightarrow> c = 0" for c
    using assms(1,3) that
  proof (induction "is" arbitrary: c)
    case (Cons j js)
    show ?case
    proof (cases "p_state (prc j s) = RUNNABLE")
      case True
      then have j: "j = i" "c = 0" "i \<notin> set js" using Cons.prems by auto
      then show ?thesis using Cons.IH [of "u32 (nice_value (prc i s))"] Cons.prems assms(2,4) True by simp
    next
      case False
      then show ?thesis using Cons by auto
    qed
  qed simp
  then show ?thesis by simp
qed

text \<open>A process with one ticket, the lowest value of \<open>nice\<close>, or with none never runs while it is the only runnable
  process: the rounds go by, whatever \<open>rand\<close> returns, and the processor does nothing.\<close>

theorem nice_one_starves:
  assumes "i < NPROC" and "\<forall>j < NPROC. p_state (prc j s) = RUNNABLE \<longleftrightarrow> j = i" and "nice_value (prc i s) \<le> 1"
  shows "\<exists>nxt'. lottery_rounds run n nxt s = ([], nxt', s)"
proof (induction n arbitrary: nxt)
  case (Suc n)
  have t: "tickets NPROC s = nice_value (prc i s)" using tickets_lone [of NPROC s i] assms(1,2) by auto
  then have tot: "total_nice s = nice_value (prc i s)" using total_nice_tickets [of s] assms(3) by simp
  have "\<exists>nxt'. lottery_round run nxt s = ([], nxt', s)"
  proof (cases "total_nice s = 0")
    case False
    have "lottery_loop run (draw x (total_nice s)) 0 [0..<NPROC] s = ([], s)" for x
      by (rule lottery_loop_lone [of _ s i]) (use assms draw_range [of "total_nice s" x] False in auto)
    then show ?thesis using False by (simp add: lottery_round_def split: prod.split)
  qed (simp add: lottery_round_def)
  then obtain nxt' where r: "lottery_round run nxt s = ([], nxt', s)" by blast
  obtain nxt'' where "lottery_rounds run n nxt' s = ([], nxt'', s)" using Suc by blast
  then show ?case by (simp add: r)
qed simp

theorem nice_one_starves_witness: "\<exists>nxt'. lottery_rounds give_up 1000 7 (lottery_sys [live_lproc 1 1]) = ([], nxt', lottery_sys [live_lproc 1 1])"
  by (rule nice_one_starves [of 0]) (auto simp: lottery_sys_prc NPROC_def live_lproc_def idle_lproc_def)

text \<open>\<open>renice\<close> refuses no value, since no number is both below the least and above the greatest:
  it stores any value in every slot in use that has the pid, and changes nothing else in them.\<close>

theorem renice_unchecked:
  assumes "length (procs s) = NPROC"
  shows "fst (renice v pid s) = 2 \<and> (\<forall>i < NPROC. prc i (snd (renice v pid s)) =
    (if p_state (prc i s) \<noteq> UNUSED \<and> p_pid (prc i s) = pid then (prc i s)\<lparr>nice_value := nat (v mod 4294967296)\<rparr> else prc i s))"
proof -
  let ?live = "\<lambda>i. p_state (prc i s) \<noteq> UNUSED \<and> p_pid (prc i s) = pid"
  let ?f = "\<lambda>i s. if p_state (prc i s) \<noteq> UNUSED then
      if p_pid (prc i s) = pid then upd_proc i (\<lambda>p. p\<lparr>nice_value := nat (v mod 4294967296)\<rparr>) s else s else s"
  have "length (procs (fold ?f [0..<n] s)) = NPROC \<and> (\<forall>i < NPROC. prc i (fold ?f [0..<n] s) =
      (if i < n \<and> ?live i then (prc i s)\<lparr>nice_value := nat (v mod 4294967296)\<rparr> else prc i s))" if "n \<le> NPROC" for n
    using that
  proof (induction n)
    case (Suc n)
    let ?t = "fold ?f [0..<n] s"
    have IH: "length (procs ?t) = NPROC" "\<And>i. i < NPROC \<Longrightarrow> prc i ?t =
        (if i < n \<and> ?live i then (prc i s)\<lparr>nice_value := nat (v mod 4294967296)\<rparr> else prc i s)" using Suc by simp_all
    have "length (procs (?f n ?t)) = NPROC" using IH(1) by simp
    moreover have "prc i (?f n ?t) = (if i < Suc n \<and> ?live i then (prc i s)\<lparr>nice_value := nat (v mod 4294967296)\<rparr> else prc i s)"
      if "i < NPROC" for i
      using that Suc.prems IH by (cases "i = n") simp_all
    ultimately show ?case by simp
  qed (simp add: assms)
  from this [of NPROC] have "\<forall>i < NPROC. prc i (fold ?f [0..<NPROC] s) =
      (if ?live i then (prc i s)\<lparr>nice_value := nat (v mod 4294967296)\<rparr> else prc i s)" by simp
  then show ?thesis unfolding renice_def MIN_NICE_VALUE_def MAX_NICE_VALUE_def by simp
qed

theorem renice_unchecked_witness: "nice_value (prc 0 (snd (renice (-1) 1 two_players))) = 4294967295"
  using renice_unchecked [of two_players "-1" 1] lottery_sys_prc [of 0 "[live_lproc 1 25, live_lproc 2 25]"]
  by (simp add: lottery_sys_def NPROC_def live_lproc_def)

end
