(* ===== verification/Vm.thy ===== *)
theory Vm
  imports Fs Kalloc
begin

unbundle bit_operations_syntax

text \<open>
  Page tables and address spaces (\<open>vm.c\<close>). Physical memory is an array of frames of \<open>PGSIZE\<close> bytes; frame \<open>f\<close>
  is at physical address \<open>f * PGSIZE\<close> and the kernel sees it at \<open>P2V\<close> of that. Page directories and
  page tables are frames of 1024 words, as in the code. The free list of \<open>kalloc.c\<close> is the list of its
  frames: theory \<open>Kalloc\<close> shows that the linked list in memory behaves so.
\<close>

section \<open>Physical memory\<close>

record vmem =
  frames :: "nat \<Rightarrow> byte list"
  vfree :: "nat list"
  vend :: nat

definition fill :: "nat \<Rightarrow> byte \<Rightarrow> vmem \<Rightarrow> vmem" where
  "fill f c m = m\<lparr>frames := (frames m)(f := replicate PGSIZE c)\<rparr>"

definition kalloc_frame :: "vmem \<Rightarrow> nat option \<times> vmem" where
  "kalloc_frame m = (case vfree m of [] \<Rightarrow> (None, m) | f # fs \<Rightarrow> (Some f, m\<lparr>vfree := fs\<rparr>))"

text \<open>
  \<open>vend\<close> is the first frame after the kernel; the first word of a free page links to the next. The kernel of lab4 is built
  with \<open>KTHREADS\<close>, so \<open>kfree\<close> does not fill the page with junk: its other bytes stay as they are. The null pointer, which
  \<open>kfree\<close> then ignores, is not the address of a frame; callers that can pass it test for it in the model.
\<close>

definition kfree_frame :: "nat \<Rightarrow> vmem \<Rightarrow> vmem outcome" where
  "kfree_frame f m =
     (if f < vend m \<or> PHYSTOP \<le> f * PGSIZE then Panic ''kfree''
      else
        let link = (case vfree m of [] \<Rightarrow> 0 | g # _ \<Rightarrow> KERNBASE + g * PGSIZE)
        in Ret (m\<lparr>frames := (frames m)(f := overwrite (frames m f) 0 (le_enc 4 link)), vfree := f # vfree m\<rparr>))"

text \<open>The frames as an allocator: what is allocated and freed is conserved, whoever uses it.\<close>

definition frame_ok :: "nat \<Rightarrow> nat \<Rightarrow> bool" where
  "frame_ok e f \<longleftrightarrow> e \<le> f \<and> f * PGSIZE < PHYSTOP"

definition frames_inv :: "nat \<Rightarrow> vmem \<Rightarrow> bool" where
  "frames_inv e m \<longleftrightarrow> vend m = e \<and> distinct (vfree m) \<and> list_all (frame_ok e) (vfree m)"

interpretation page_frames: allocator "frames_inv e" "\<lambda>m. set (vfree m)" kalloc_frame kfree_frame "frame_ok e"
  by unfold_locales (auto simp: frames_inv_def frame_ok_def kalloc_frame_def kfree_frame_def Let_def list_all_iff split: list.splits)

lemma frames_conserved:
  assumes "client_run kalloc_frame kfree_frame m0 m held" and "frames_inv e m0"
  shows "frames_inv e m \<and> distinct held \<and> set held \<inter> set (vfree m) = {} \<and> set held \<union> set (vfree m) = set (vfree m0)"
  by (rule page_frames.client_conserves [OF assms])

section \<open>Page tables\<close>

definition PTE_P :: nat where "PTE_P = 1"
definition PTE_W :: nat where "PTE_W = 2"
definition PTE_U :: nat where "PTE_U = 4"
definition NPDENTRIES :: nat where "NPDENTRIES = 1024"

definition PDX :: "nat \<Rightarrow> nat" where "PDX va = va div 4194304 mod 1024"
definition PTX :: "nat \<Rightarrow> nat" where "PTX va = va div 4096 mod 1024"
definition PGROUNDDOWN :: "nat \<Rightarrow> nat" where "PGROUNDDOWN a = a div PGSIZE * PGSIZE"
definition PTE_ADDR :: "nat \<Rightarrow> nat" where "PTE_ADDR e = e div 4096 * 4096"
definition PTE_FLAGS :: "nat \<Rightarrow> nat" where "PTE_FLAGS e = e mod 4096"

text \<open>The frame an entry points to, and its flag bits.\<close>

definition pte_frame :: "nat \<Rightarrow> nat" where "pte_frame e = PTE_ADDR e div PGSIZE"
definition pte_present :: "nat \<Rightarrow> bool" where "pte_present e \<longleftrightarrow> e AND PTE_P \<noteq> 0"
definition pte_user :: "nat \<Rightarrow> bool" where "pte_user e \<longleftrightarrow> e AND PTE_U \<noteq> 0"

text \<open>A pointer to an entry: the frame it is in and its index.\<close>

type_synonym pte_ptr = "nat \<times> nat"

definition get_pte :: "pte_ptr \<Rightarrow> vmem \<Rightarrow> nat" where
  "get_pte p m = word_at (frames m (fst p)) (snd p)"

definition set_pte :: "pte_ptr \<Rightarrow> nat \<Rightarrow> vmem \<Rightarrow> vmem" where
  "set_pte p e m = m\<lparr>frames := (frames m)(fst p := overwrite (frames m (fst p)) (4 * snd p) (le_enc 4 e))\<rparr>"

definition walkpgdir :: "nat \<Rightarrow> nat \<Rightarrow> bool \<Rightarrow> vmem \<Rightarrow> pte_ptr option \<times> vmem" where
  "walkpgdir d va alloc m =
     (let pde = get_pte (d, PDX va) m
      in if pte_present pde then (Some (pte_frame pde, PTX va), m)
         else if \<not> alloc then (None, m)
         else case kalloc_frame m of
                (None, m) \<Rightarrow> (None, m)
              | (Some f, m) \<Rightarrow>
                  (Some (f, PTX va), set_pte (d, PDX va) (f * PGSIZE OR PTE_P OR PTE_W OR PTE_U) (fill f 0 m)))"

text \<open>The loop of \<open>mappages\<close> with \<open>k\<close> pages to go after this one.\<close>

fun map_loop :: "nat \<Rightarrow> nat \<Rightarrow> nat \<Rightarrow> nat \<Rightarrow> nat \<Rightarrow> vmem \<Rightarrow> (int \<times> vmem) outcome" where
  "map_loop d perm k a pa m =
     (case walkpgdir d a True m of
        (None, m) \<Rightarrow> Ret (-1, m)
      | (Some p, m) \<Rightarrow>
          if pte_present (get_pte p m) then Panic ''remap''
          else
            let m = set_pte p (pa OR perm OR PTE_P) m
            in case k of 0 \<Rightarrow> Ret (0, m) | Suc k \<Rightarrow> map_loop d perm k (u32 (a + PGSIZE)) (u32 (pa + PGSIZE)) m)"

declare map_loop.simps [simp del]

definition mappages :: "nat \<Rightarrow> nat \<Rightarrow> nat \<Rightarrow> nat \<Rightarrow> nat \<Rightarrow> vmem \<Rightarrow> (int \<times> vmem) outcome" where
  "mappages d va sz pa perm m =
     (let a = PGROUNDDOWN va; last = PGROUNDDOWN (u32 (va + sz + 4294967295))
      in map_loop d perm (u32 (last + 4294967296 - a) div PGSIZE) a pa m)"

section \<open>Growing and shrinking\<close>

text \<open>
  The loop of \<open>deallocuvm\<close>. The address does not wrap around for the sizes the kernel has, which are at
  most \<open>KERNBASE\<close>; above \<open>0xfffff000\<close> the loop of the code would not end.
\<close>

function dealloc_loop :: "nat \<Rightarrow> nat \<Rightarrow> nat \<Rightarrow> vmem \<Rightarrow> vmem outcome" where
  "dealloc_loop d a oldsz m =
     (if a < oldsz then
        (case walkpgdir d a False m of
           (None, m) \<Rightarrow> dealloc_loop d ((a div 4194304 + 1) * 4194304) oldsz m
         | (Some p, m) \<Rightarrow>
             if pte_present (get_pte p m) then
               if PTE_ADDR (get_pte p m) = 0 then Panic ''kfree''
               else kbind (kfree_frame (pte_frame (get_pte p m)) m) (\<lambda>m.
                 dealloc_loop d (a + PGSIZE) oldsz (set_pte p 0 m))
             else dealloc_loop d (a + PGSIZE) oldsz m)
      else Ret m)"
  by pat_completeness auto
termination
proof (relation "measure (\<lambda>(d, a, oldsz, m). oldsz - a)")
  fix a oldsz :: nat and d d' and m m' :: vmem
  assume "a < oldsz"
  moreover have "a < (a div 4194304 + 1) * 4194304" using div_mult_mod_eq [of a 4194304] mod_less_divisor [of 4194304 a] by simp
  ultimately show "((d, (a div 4194304 + 1) * 4194304, oldsz, m'), (d, a, oldsz, m)) \<in> measure (\<lambda>(d, a, oldsz, m). oldsz - a)"
    by simp
qed (auto simp: PGSIZE_def)

declare dealloc_loop.simps [simp del]

definition deallocuvm :: "nat \<Rightarrow> nat \<Rightarrow> nat \<Rightarrow> vmem \<Rightarrow> (nat \<times> vmem) outcome" where
  "deallocuvm d oldsz newsz m =
     (if newsz \<ge> oldsz then Ret (oldsz, m)
      else kbind (dealloc_loop d (PGROUNDUP newsz) oldsz m) (\<lambda>m. Ret (newsz, m)))"

function alloc_loop :: "nat \<Rightarrow> nat \<Rightarrow> nat \<Rightarrow> nat \<Rightarrow> vmem \<Rightarrow> (nat \<times> vmem) outcome" where
  "alloc_loop d a newsz oldsz m =
     (if a < newsz then
        (case kalloc_frame m of
           (None, m) \<Rightarrow> kbind (deallocuvm d newsz oldsz m) (\<lambda>(_, m). Ret (0, m))
         | (Some f, m) \<Rightarrow>
             kbind (mappages d a PGSIZE (f * PGSIZE) (PTE_W OR PTE_U) (fill f 0 m)) (\<lambda>(r, m).
               if r < 0 then
                 kbind (deallocuvm d newsz oldsz m) (\<lambda>(_, m). kbind (kfree_frame f m) (\<lambda>m. Ret (0, m)))
               else alloc_loop d (a + PGSIZE) newsz oldsz m))
      else Ret (newsz, m))"
  by pat_completeness auto
termination by (relation "measure (\<lambda>(d, a, newsz, oldsz, m). newsz - a)") (auto simp: PGSIZE_def)

declare alloc_loop.simps [simp del]

definition allocuvm :: "nat \<Rightarrow> nat \<Rightarrow> nat \<Rightarrow> vmem \<Rightarrow> (nat \<times> vmem) outcome" where
  "allocuvm d oldsz newsz m =
     (if newsz \<ge> KERNBASE then Ret (0, m)
      else if newsz < oldsz then Ret (oldsz, m)
      else alloc_loop d (PGROUNDUP oldsz) newsz oldsz m)"

section \<open>Whole address spaces\<close>

text \<open>\<open>Vm.freevm\<close> on a directory, or on the null pointer.\<close>

definition free_table :: "nat \<Rightarrow> nat \<Rightarrow> vmem \<Rightarrow> vmem outcome" where
  "free_table d i m =
     (if pte_present (get_pte (d, i) m) then kfree_frame (pte_frame (get_pte (d, i) m)) m else Ret m)"

definition freevm :: "nat option \<Rightarrow> vmem \<Rightarrow> vmem outcome" where
  "freevm pgdir m =
     (case pgdir of
        None \<Rightarrow> Panic ''freevm: no pgdir''
      | Some d \<Rightarrow> kbind (deallocuvm d KERNBASE 0 m) (\<lambda>(_, m).
          kbind (kfor [0..<NPDENTRIES] (free_table d) m) (kfree_frame d)))"

definition EXTMEM :: nat where "EXTMEM = 1048576"
definition DEVSPACE :: nat where "DEVSPACE = 4261412864"

text \<open>The table \<open>kmap\<close>: start, physical start and end, permissions; \<open>kdata\<close> is the address of \<open>data\<close>.\<close>

definition kmap :: "nat \<Rightarrow> (nat \<times> nat \<times> nat \<times> nat) list" where
  "kmap kdata =
     [(KERNBASE, 0, EXTMEM, PTE_W), (KERNBASE + EXTMEM, V2P (KERNBASE + EXTMEM), V2P kdata, 0),
      (kdata, V2P kdata, PHYSTOP, PTE_W), (DEVSPACE, DEVSPACE, 0, PTE_W)]"

fun map_kernel :: "nat \<Rightarrow> (nat \<times> nat \<times> nat \<times> nat) list \<Rightarrow> vmem \<Rightarrow> (nat option \<times> vmem) outcome" where
  "map_kernel d [] m = Ret (Some d, m)"
| "map_kernel d ((virt, pstart, pend, perm) # ks) m =
     kbind (mappages d virt (u32 (pend + 4294967296 - pstart)) pstart perm m) (\<lambda>(r, m).
       if r < 0 then kbind (freevm (Some d) m) (\<lambda>m. Ret (None, m)) else map_kernel d ks m)"

definition setupkvm :: "nat \<Rightarrow> vmem \<Rightarrow> (nat option \<times> vmem) outcome" where
  "setupkvm kdata m =
     (case kalloc_frame m of
        (None, m) \<Rightarrow> Ret (None, m)
      | (Some d, m) \<Rightarrow>
          if u32 (PHYSTOP + KERNBASE) > DEVSPACE then Panic ''PHYSTOP too high''
          else map_kernel d (kmap kdata) (fill d 0 m))"

definition inituvm :: "nat \<Rightarrow> byte list \<Rightarrow> vmem \<Rightarrow> vmem outcome" where
  "inituvm d init m =
     (if length init \<ge> PGSIZE then Panic ''inituvm: more than a page''
      else case kalloc_frame m of
        (None, m) \<Rightarrow> Panic ''null pointer''
      | (Some f, m) \<Rightarrow>
          kbind (mappages d 0 PGSIZE (f * PGSIZE) (PTE_W OR PTE_U) (fill f 0 m)) (\<lambda>(_, m).
            Ret (m\<lparr>frames := (frames m)(f := overwrite (frames m f) 0 init)\<rparr>)))"

definition clearpteu :: "nat \<Rightarrow> nat \<Rightarrow> vmem \<Rightarrow> vmem outcome" where
  "clearpteu d uva m =
     (case walkpgdir d uva False m of
        (None, m) \<Rightarrow> Panic ''clearpteu''
      | (Some p, m) \<Rightarrow> Ret (set_pte p (get_pte p m - (get_pte p m AND PTE_U)) m))"

text \<open>The loop of \<open>copyuvm\<close>, from address \<open>i\<close>.\<close>

function copy_loop :: "nat \<Rightarrow> nat \<Rightarrow> nat \<Rightarrow> nat \<Rightarrow> vmem \<Rightarrow> (nat option \<times> vmem) outcome" where
  "copy_loop pgdir d i sz m =
     (if i < sz then
        (case walkpgdir pgdir i False m of
           (None, m) \<Rightarrow> Panic ''copyuvm: pte should exist''
         | (Some p, m) \<Rightarrow>
             let e = get_pte p m
             in if \<not> pte_present e then Panic ''copyuvm: page not present''
                else case kalloc_frame m of
                  (None, m) \<Rightarrow> kbind (freevm (Some d) m) (\<lambda>m. Ret (None, m))
                | (Some f, m) \<Rightarrow>
                    let m = m\<lparr>frames := (frames m)(f := frames m (pte_frame e))\<rparr>
                    in kbind (mappages d i PGSIZE (f * PGSIZE) (PTE_FLAGS e) m) (\<lambda>(r, m).
                         if r < 0 then kbind (kfree_frame f m) (\<lambda>m. kbind (freevm (Some d) m) (\<lambda>m. Ret (None, m)))
                         else copy_loop pgdir d (i + PGSIZE) sz m))
      else Ret (Some d, m))"
  by pat_completeness auto
termination by (relation "measure (\<lambda>(pgdir, d, i, sz, m). sz - i)") (auto simp: PGSIZE_def)

declare copy_loop.simps [simp del]

definition copyuvm :: "nat \<Rightarrow> nat \<Rightarrow> nat \<Rightarrow> vmem \<Rightarrow> (nat option \<times> vmem) outcome" where
  "copyuvm kdata pgdir sz m =
     kbind (setupkvm kdata m) (\<lambda>(d, m). case d of None \<Rightarrow> Ret (None, m) | Some d \<Rightarrow> copy_loop pgdir d 0 sz m)"

section \<open>User addresses\<close>

text \<open>\<open>uva2ka\<close>: the frame. It follows the pointer of \<open>walkpgdir\<close> without looking whether it is null.\<close>

definition uva2ka :: "nat \<Rightarrow> nat \<Rightarrow> vmem \<Rightarrow> nat option outcome" where
  "uva2ka d uva m =
     (case fst (walkpgdir d uva False m) of
        None \<Rightarrow> Panic ''null pointer''
      | Some p \<Rightarrow>
          let e = get_pte p m
          in Ret (if \<not> pte_present e then None else if \<not> pte_user e then None else Some (pte_frame e)))"

function copyout :: "nat \<Rightarrow> nat \<Rightarrow> byte list \<Rightarrow> vmem \<Rightarrow> (int \<times> vmem) outcome" where
  "copyout d va buf m =
     (if buf = [] then Ret (0, m)
      else
        let va0 = PGROUNDDOWN va
        in kbind (uva2ka d va0 m) (\<lambda>pa0. case pa0 of
             None \<Rightarrow> Ret (-1, m)
           | Some f \<Rightarrow>
               let n = min (PGSIZE - (va - va0)) (length buf);
                   m = m\<lparr>frames := (frames m)(f := overwrite (frames m f) (va - va0) (take n buf))\<rparr>
               in copyout d (u32 (va0 + PGSIZE)) (drop n buf) m))"
  by pat_completeness auto
termination
proof (relation "measure (\<lambda>(d, va, buf, m). length buf)")
  fix d va :: nat and buf :: "byte list" and m :: vmem and va0 x pa f n m'
  assume "buf \<noteq> []" "va0 = PGROUNDDOWN va" "n = min (PGSIZE - (va - va0)) (length buf)"
  moreover have "va - PGROUNDDOWN va = va mod PGSIZE" by (simp add: PGROUNDDOWN_def minus_div_mult_eq_mod)
  moreover have "va mod PGSIZE < PGSIZE" by (simp add: PGSIZE_def)
  ultimately show "((d, u32 (va0 + PGSIZE), drop n buf, m'), (d, va, buf, m)) \<in> measure (\<lambda>(d, va, buf, m). length buf)"
    by (simp add: min_def)
qed simp

declare copyout.simps [simp del]

text \<open>
  The loop of \<open>loaduvm\<close>: \<open>None\<close> in place of the frame number is a null pointer. The inode is read by \<open>readi\<close> of
  \<open>fs.c\<close>, whose state is \<open>s\<close>.
\<close>

function load_loop :: "nat \<Rightarrow> nat \<Rightarrow> nat \<Rightarrow> nat \<Rightarrow> nat \<Rightarrow> nat \<Rightarrow> 'a fstate_scheme \<Rightarrow> vmem \<Rightarrow> (int \<times> 'a fstate_scheme \<times> vmem) outcome" where
  "load_loop d addr ip off i sz s m =
     (if i < sz then
        (case walkpgdir d (u32 (addr + i)) False m of
           (None, m) \<Rightarrow> Panic ''loaduvm: address should exist''
         | (Some p, m) \<Rightarrow>
             let f = pte_frame (get_pte p m); n = min (sz - i) PGSIZE
             in kbind (readi ip (u32 (off + i)) n s) (\<lambda>(r, bs, s).
                  let m = m\<lparr>frames := (frames m)(f := overwrite (frames m f) 0 bs)\<rparr>
                  in if r \<noteq> int n then Ret (-1, s, m) else load_loop d addr ip off (i + PGSIZE) sz s m))
      else Ret (0, s, m))"
  by pat_completeness auto
termination by (relation "measure (\<lambda>(d, addr, ip, off, i, sz, s, m). sz - i)") (auto simp: PGSIZE_def)

declare load_loop.simps [simp del]

definition loaduvm :: "nat \<Rightarrow> nat \<Rightarrow> nat \<Rightarrow> nat \<Rightarrow> nat \<Rightarrow> 'a fstate_scheme \<Rightarrow> vmem \<Rightarrow> (int \<times> 'a fstate_scheme \<times> vmem) outcome" where
  "loaduvm d addr ip off sz s m =
     (if addr mod PGSIZE \<noteq> 0 then Panic ''loaduvm: addr must be page aligned'' else load_loop d addr ip off 0 sz s m)"

end
