(* ===== verification/Vm_Maps.thy ===== *)
theory Vm_Maps
  imports Vm
begin

unbundle bit_operations_syntax

text \<open>
  Address spaces as maps. A frame of physical memory has at most one role: it is free, held by the kernel
  path that has just allocated it, or it is a page directory, a page table or a page of user memory of one of the
  directories \<open>D\<close>. The operations of \<open>vm.c\<close> keep this, and change the map from pages to entries as they should.
\<close>

section \<open>Words of a frame\<close>

lemma word_at_set:
  assumes "length d = PGSIZE" and "i < 1024" and "j < 1024" and "e < 4294967296"
  shows "word_at (overwrite d (4 * j) (le_enc 4 e)) i = (if i = j then e else word_at d i)"
proof (cases "i = j")
  case True
  have "slice (overwrite d (4 * j) (le_enc 4 e)) (4 * j) (length (le_enc 4 e)) = le_enc 4 e"
    by (rule slice_overwrite_same) (use assms in \<open>simp add: PGSIZE_def\<close>)
  then show ?thesis using True assms(4) by (simp add: word_at_def le_dec_enc)
next
  case False
  have "slice (overwrite d (4 * j) (le_enc 4 e)) (4 * i) 4 = slice d (4 * i) 4"
    by (rule slice_overwrite_disjoint) (use False assms in \<open>auto simp: PGSIZE_def\<close>)
  then show ?thesis using False by (simp add: word_at_def)
qed

lemma word_at_zero [simp]: "i < 1024 \<Longrightarrow> word_at (replicate PGSIZE 0) i = 0"
  by (simp add: word_at_def slice_def PGSIZE_def)

lemma get_set_pte:
  assumes "length (frames m t) = PGSIZE" and "i < 1024" and "j < 1024" and "e < 4294967296"
  shows "get_pte (g, i) (set_pte (t, j) e m) = (if g = t \<and> i = j then e else get_pte (g, i) m)"
  using word_at_set [OF assms] by (auto simp: get_pte_def set_pte_def)

lemma pte_present_odd: "pte_present e \<longleftrightarrow> odd e"
  by (simp add: pte_present_def PTE_P_def and_one_eq odd_iff_mod_2_eq_one)

lemma pte_frame_div: "pte_frame e = e div 4096"
  by (simp add: pte_frame_def PTE_ADDR_def PGSIZE_def)

lemma or_below:
  fixes a b :: nat
  assumes "a < 2 ^ n" and "b < 2 ^ n" shows "a OR b < 2 ^ n"
  using assms by (metis take_bit_nat_eq_self_iff take_bit_or)

lemma page_or:
  assumes "fl < 4096" shows "f * 4096 OR fl = f * 4096 + (fl :: nat)"
proof -
  have "f * 4096 AND fl = 0"
  proof (rule bit_eqI)
    fix n
    have f: "f * 4096 = push_bit 12 f" by (simp add: push_bit_eq_mult)
    have "fl = take_bit 12 fl" using assms by (simp add: take_bit_nat_eq_self)
    then have "bit fl n \<Longrightarrow> n < 12" by (metis bit_take_bit_iff)
    then show "bit (f * 4096 AND fl) n \<longleftrightarrow> bit (0 :: nat) n"
      unfolding f by (auto simp: bit_and_iff bit_push_bit_iff)
  qed
  then show ?thesis by (rule disjunctive_add_eq_or [symmetric])
qed

text \<open>The entry that \<open>mappages\<close> writes for frame \<open>f\<close>.\<close>

definition mk_pte :: "nat \<Rightarrow> nat \<Rightarrow> nat" where
  "mk_pte f perm = f * PGSIZE + (perm OR PTE_P)"

lemma mk_pte:
  assumes "perm < 4096"
  shows "f * PGSIZE OR perm OR PTE_P = mk_pte f perm" "pte_present (mk_pte f perm)" "pte_frame (mk_pte f perm) = f"
    "PTE_FLAGS (mk_pte f perm) = perm OR PTE_P" "f < 1048576 \<Longrightarrow> mk_pte f perm < 4294967296"
proof -
  have p: "perm OR PTE_P < 4096" using or_below [of perm 12 1] assms by (simp add: PTE_P_def)
  show "f * PGSIZE OR perm OR PTE_P = mk_pte f perm"
    using page_or [OF p, of f] by (simp add: mk_pte_def PGSIZE_def or.assoc)
  have "odd (perm OR 1)" by (simp add: even_or_iff)
  then show "pte_present (mk_pte f perm)" by (simp add: pte_present_odd mk_pte_def PGSIZE_def PTE_P_def)
  show "pte_frame (mk_pte f perm) = f" "PTE_FLAGS (mk_pte f perm) = perm OR PTE_P"
    using p by (simp_all add: pte_frame_div mk_pte_def PGSIZE_def PTE_FLAGS_def)
  show "f < 1048576 \<Longrightarrow> mk_pte f perm < 4294967296" using p by (simp add: mk_pte_def PGSIZE_def)
qed

section \<open>Roles of frames\<close>

datatype slot = Dir nat | Tab nat nat | User nat nat

definition ptab :: "vmem \<Rightarrow> nat \<Rightarrow> nat \<Rightarrow> nat option" where
  "ptab m d i = (let e = get_pte (d, i) m in if pte_present e then Some (pte_frame e) else None)"

text \<open>The entry of page \<open>v\<close>, 0 when it has no page table.\<close>

definition entry :: "vmem \<Rightarrow> nat \<Rightarrow> nat \<Rightarrow> nat" where
  "entry m d v = (case ptab m d (v div 1024) of None \<Rightarrow> 0 | Some t \<Rightarrow> get_pte (t, v mod 1024) m)"

definition page :: "vmem \<Rightarrow> nat \<Rightarrow> nat \<Rightarrow> nat option" where
  "page m d v = (if pte_present (entry m d v) then Some (pte_frame (entry m d v)) else None)"

fun frame_of :: "vmem \<Rightarrow> slot \<Rightarrow> nat option" where
  "frame_of m (Dir d) = Some d"
| "frame_of m (Tab d i) = ptab m d i"
| "frame_of m (User d v) = page m d v"

text \<open>The pages below \<open>KERNBASE\<close>, and all pages.\<close>

definition UPAGES :: nat where "UPAGES = 524288"
definition VPAGES :: nat where "VPAGES = 1048576"

fun slot_of :: "nat set \<Rightarrow> slot \<Rightarrow> bool" where
  "slot_of D (Dir d) \<longleftrightarrow> d \<in> D"
| "slot_of D (Tab d i) \<longleftrightarrow> d \<in> D \<and> i < 1024"
| "slot_of D (User d v) \<longleftrightarrow> d \<in> D \<and> v < UPAGES"

definition busy :: "nat set \<Rightarrow> vmem \<Rightarrow> nat \<Rightarrow> bool" where
  "busy D m f \<longleftrightarrow> (\<exists>x. slot_of D x \<and> frame_of m x = Some f)"

definition good_frame :: "vmem \<Rightarrow> nat \<Rightarrow> bool" where
  "good_frame m f \<longleftrightarrow> 0 < f \<and> vend m \<le> f \<and> f * PGSIZE < PHYSTOP"

text \<open>\<open>H\<close> are the frames in hand.\<close>

definition vm_ok :: "nat set \<Rightarrow> nat set \<Rightarrow> vmem \<Rightarrow> bool" where
  "vm_ok D H m \<longleftrightarrow> (\<forall>f. length (frames m f) = PGSIZE) \<and> distinct (vfree m) \<and>
     (\<forall>f. f \<in> set (vfree m) \<or> f \<in> H \<or> busy D m f \<longrightarrow> good_frame m f) \<and>
     (\<forall>f. busy D m f \<longrightarrow> f \<notin> set (vfree m) \<and> f \<notin> H) \<and> set (vfree m) \<inter> H = {} \<and>
     (\<forall>x y f. slot_of D x \<and> slot_of D y \<and> frame_of m x = Some f \<and> frame_of m y = Some f \<longrightarrow> x = y)"

lemma vm_okD:
  assumes "vm_ok D H m"
  shows "length (frames m f) = PGSIZE" "distinct (vfree m)" "f \<in> set (vfree m) \<Longrightarrow> good_frame m f"
    "f \<in> H \<Longrightarrow> good_frame m f" "busy D m f \<Longrightarrow> good_frame m f" "busy D m f \<Longrightarrow> f \<notin> set (vfree m)"
    "busy D m f \<Longrightarrow> f \<notin> H" "f \<in> set (vfree m) \<Longrightarrow> f \<notin> H"
    "slot_of D x \<Longrightarrow> slot_of D y \<Longrightarrow> frame_of m x = Some f \<Longrightarrow> frame_of m y = Some f \<Longrightarrow> x = y"
  using assms unfolding vm_ok_def by (blast+)

lemma busyI: "slot_of D x \<Longrightarrow> frame_of m x = Some f \<Longrightarrow> busy D m f"
  unfolding busy_def by blast

lemma good_frame_bound: "good_frame m f \<Longrightarrow> f < VPAGES"
  by (simp add: good_frame_def PHYSTOP_def PGSIZE_def VPAGES_def)

text \<open>What the maps of two memories have in common.\<close>

definition same_maps :: "nat set \<Rightarrow> vmem \<Rightarrow> vmem \<Rightarrow> bool" where
  "same_maps D m m' \<longleftrightarrow> (\<forall>x. slot_of D x \<longrightarrow> frame_of m' x = frame_of m x)"

lemma same_maps_busy: "same_maps D m m' \<Longrightarrow> busy D m' = busy D m"
  by (auto simp: same_maps_def busy_def fun_eq_iff)

lemma same_frames:
  assumes "frames m' = frames m"
  shows "get_pte p m' = get_pte p m" "ptab m' d i = ptab m d i" "entry m' d v = entry m d v" "frame_of m' x = frame_of m x"
proof -
  have g: "get_pte q m' = get_pte q m" for q by (simp add: get_pte_def assms)
  have t: "ptab m' e j = ptab m e j" for e j by (simp add: ptab_def g)
  have e: "entry m' a w = entry m a w" for a w by (simp add: entry_def t g split: option.split)
  show "get_pte p m' = get_pte p m" "ptab m' d i = ptab m d i" "entry m' d v = entry m d v" by (rule g t e)+
  show "frame_of m' x = frame_of m x" by (cases x) (simp_all add: t page_def e)
qed

text \<open>The roles change in four ways: a frame is taken from the free list or given back, and a role is given
  to a frame in hand or taken from it.\<close>

lemma vm_ok_kalloc:
  assumes ok: "vm_ok D H m" and k: "kalloc_frame m = (Some f, m')"
  shows "vm_ok D (insert f H) m'" "f \<notin> H" "\<not> busy D m f" "good_frame m f" "frames m' = frames m" "vend m' = vend m"
    "vfree m = f # vfree m'"
proof -
  obtain fs where fs: "vfree m = f # fs" "m' = m\<lparr>vfree := fs\<rparr>" using k by (auto simp: kalloc_frame_def split: list.splits)
  then show v: "frames m' = frames m" "vend m' = vend m" "vfree m = f # vfree m'" by simp_all
  show f: "f \<notin> H" "\<not> busy D m f" "good_frame m f"
    using vm_okD(3,6,8) [OF ok, of f] fs(1) by auto
  have fr: "frame_of m' = frame_of m" using same_frames(4) [OF v(1)] by (simp add: fun_eq_iff)
  then have b: "busy D m' = busy D m" by (simp add: busy_def fun_eq_iff)
  have g: "good_frame m' = good_frame m" by (simp add: good_frame_def fun_eq_iff v(2))
  show "vm_ok D (insert f H) m'"
    using ok f unfolding vm_ok_def fr b g v(1) unfolding v(3) by auto
qed

lemma kfree_frame_ret:
  assumes "good_frame m f" and "length (frames m f) = PGSIZE"
  shows "\<exists>m'. kfree_frame f m = Ret m' \<and> vfree m' = f # vfree m \<and> vend m' = vend m \<and>
    (\<forall>g. g \<noteq> f \<longrightarrow> frames m' g = frames m g) \<and> length (frames m' f) = PGSIZE"
  using assms by (auto simp: kfree_frame_def good_frame_def Let_def PGSIZE_def)

lemma vm_ok_put:
  assumes ok: "vm_ok D H m" and f: "f \<in> H" and x: "slot_of D x" "frame_of m x = None"
    and m': "\<And>y. slot_of D y \<Longrightarrow> frame_of m' y = (if y = x then Some f else frame_of m y)"
      "vfree m' = vfree m" "vend m' = vend m" "\<And>g. length (frames m' g) = PGSIZE"
  shows "vm_ok D (H - {f}) m'"
proof -
  have b: "busy D m' g \<longleftrightarrow> g = f \<or> busy D m g" for g
    using m'(1) x by (auto simp: busy_def split: if_splits) (metis option.distinct(1))
  have nb: "\<not> busy D m f" using vm_okD(7) [OF ok] f by blast
  have g: "good_frame m' = good_frame m" by (simp add: good_frame_def fun_eq_iff m'(3))
  have inj: "y = z" if "slot_of D y" "slot_of D z" "frame_of m' y = Some h" "frame_of m' z = Some h" for y z h
    using that m'(1) nb vm_okD(9) [OF ok, of y z h] by (auto simp: busy_def split: if_splits)
  have "\<forall>h. h \<in> set (vfree m) \<or> h \<in> H \<or> busy D m h \<longrightarrow> good_frame m h"
    "\<forall>h. busy D m h \<longrightarrow> h \<notin> set (vfree m) \<and> h \<notin> H" "set (vfree m) \<inter> H = {}" "distinct (vfree m)"
    using ok by (simp_all add: vm_ok_def)
  then show ?thesis unfolding vm_ok_def b g m'(2) using f inj m'(4) by blast
qed

lemma vm_ok_take:
  assumes ok: "vm_ok D H m" and x: "slot_of D x" "frame_of m x = Some f"
    and m': "\<And>y. slot_of D y \<Longrightarrow> frame_of m' y = (if y = x then None else frame_of m y)"
      "vfree m' = vfree m" "vend m' = vend m" "\<And>g. length (frames m' g) = PGSIZE"
  shows "vm_ok D (insert f H) m'"
proof -
  have b: "busy D m' g \<Longrightarrow> busy D m g" for g
    using m'(1) by (auto simp: busy_def split: if_splits)
  have nb: "\<not> busy D m' f"
  proof
    assume "busy D m' f"
    then obtain y where y: "slot_of D y" "frame_of m' y = Some f" unfolding busy_def by blast
    then have "y \<noteq> x" "frame_of m y = Some f" using m'(1) [OF y(1)] by (auto split: if_splits)
    then show False using vm_okD(9) [OF ok y(1) x(1) _ x(2)] by blast
  qed
  have bf: "busy D m f" using x by (rule busyI)
  have g: "good_frame m' = good_frame m" by (simp add: good_frame_def fun_eq_iff m'(3))
  have inj: "y = z" if "slot_of D y" "slot_of D z" "frame_of m' y = Some h" "frame_of m' z = Some h" for y z h
    using that m'(1) vm_okD(9) [OF ok, of y z h] by (auto split: if_splits)
  have "\<forall>h. h \<in> set (vfree m) \<or> h \<in> H \<or> busy D m h \<longrightarrow> good_frame m h"
    "\<forall>h. busy D m h \<longrightarrow> h \<notin> set (vfree m) \<and> h \<notin> H" "set (vfree m) \<inter> H = {}" "distinct (vfree m)"
    using ok by (simp_all add: vm_ok_def)
  then show ?thesis unfolding vm_ok_def g m'(2) using b nb bf inj m'(4) by blast
qed

text \<open>Writing to a frame that is no directory or page table, or to none of \<open>D\<close> at all.\<close>

lemma entry_write:
  assumes "g \<notin> D" and "\<And>d i. d \<in> D \<Longrightarrow> i < 1024 \<Longrightarrow> ptab m d i \<noteq> Some g" and "\<And>h. h \<noteq> g \<Longrightarrow> frames m' h = frames m h"
    and "d \<in> D"
  shows "i < 1024 \<Longrightarrow> ptab m' d i = ptab m d i" "v < VPAGES \<Longrightarrow> entry m' d v = entry m d v"
    "v < VPAGES \<Longrightarrow> page m' d v = page m d v"
proof -
  have "d \<noteq> g" using assms(1,4) by blast
  then show t: "ptab m' d i = ptab m d i" for i using assms(3) [of d] by (simp add: ptab_def get_pte_def)
  show e: "entry m' d v = entry m d v" if "v < VPAGES"
  proof -
    have "v div 1024 < 1024" using that by (simp add: VPAGES_def)
    then have "ptab m d (v div 1024) \<noteq> Some g" by (rule assms(2) [OF assms(4)])
    then show ?thesis using assms(3) by (auto simp: entry_def t get_pte_def split: option.split)
  qed
  show "page m' d v = page m d v" if "v < VPAGES" using e [OF that] by (simp add: page_def)
qed

lemma same_maps_write:
  assumes "g \<notin> D" and "\<And>d i. d \<in> D \<Longrightarrow> i < 1024 \<Longrightarrow> ptab m d i \<noteq> Some g" and "\<And>h. h \<noteq> g \<Longrightarrow> frames m' h = frames m h"
  shows "same_maps D m m'"
proof -
  have "frame_of m' x = frame_of m x" if "slot_of D x" for x
    using that entry_write [OF assms] by (cases x) (auto simp: UPAGES_def VPAGES_def)
  then show ?thesis by (simp add: same_maps_def)
qed

lemma vm_ok_write:
  assumes ok: "vm_ok D H m" and "same_maps D m m'" and "vfree m' = vfree m" "vend m' = vend m"
    and "\<And>g. length (frames m' g) = PGSIZE"
  shows "vm_ok D H m'"
proof -
  have b: "busy D m' = busy D m" by (rule same_maps_busy [OF assms(2)])
  have g: "good_frame m' = good_frame m" by (simp add: good_frame_def fun_eq_iff assms(4))
  have inj: "y = z" if "slot_of D y" "slot_of D z" "frame_of m' y = Some h" "frame_of m' z = Some h" for y z h
    using that assms(2) vm_okD(9) [OF ok, of y z h] by (simp add: same_maps_def)
  show ?thesis using ok inj assms(5) unfolding vm_ok_def b g assms(3) by blast
qed

text \<open>A frame that is free or in hand is no directory or page table.\<close>

lemma not_table:
  assumes "vm_ok D H m" and "f \<in> H \<or> f \<in> set (vfree m)"
  shows "f \<notin> D" "d \<in> D \<Longrightarrow> i < 1024 \<Longrightarrow> ptab m d i \<noteq> Some f" "d \<in> D \<Longrightarrow> v < UPAGES \<Longrightarrow> page m d v \<noteq> Some f"
proof -
  have nb: "\<not> busy D m f" using vm_okD(6,7) [OF assms(1)] assms(2) by blast
  then show "f \<notin> D" using busyI [of D "Dir f" m f] by auto
  show "d \<in> D \<Longrightarrow> i < 1024 \<Longrightarrow> ptab m d i \<noteq> Some f" using nb busyI [of D "Tab d i" m f] by auto
  show "d \<in> D \<Longrightarrow> v < UPAGES \<Longrightarrow> page m d v \<noteq> Some f" using nb busyI [of D "User d v" m f] by auto
qed

section \<open>Walking\<close>

lemma PDX_page: "v < VPAGES \<Longrightarrow> o' < 4096 \<Longrightarrow> PDX (v * 4096 + o') = v div 1024"
  and PTX_page: "v < VPAGES \<Longrightarrow> o' < 4096 \<Longrightarrow> PTX (v * 4096 + o') = v mod 1024"
proof -
  assume v: "v < VPAGES" "o' < 4096"
  have "(v * 4096 + o') div 4096 = v" using v(2) by simp
  moreover have "(v * 4096 + o') div 4194304 = (v * 4096 + o') div 4096 div 1024" by (simp flip: div_mult2_eq)
  ultimately show "PDX (v * 4096 + o') = v div 1024" "PTX (v * 4096 + o') = v mod 1024"
    using v(1) by (simp_all add: PDX_def PTX_def VPAGES_def)
qed

lemma VPAGES_div: "v < VPAGES \<Longrightarrow> v div 1024 < 1024"
  by (simp add: VPAGES_def)

lemma walk_look:
  assumes "v < VPAGES" and "o' < 4096"
  shows "walkpgdir d (v * 4096 + o') False m = (map_option (\<lambda>t. (t, v mod 1024)) (ptab m d (v div 1024)), m)"
  using PDX_page [OF assms] PTX_page [OF assms] by (simp add: walkpgdir_def ptab_def Let_def)

text \<open>The number of page tables of \<open>d\<close>.\<close>

definition tabs :: "vmem \<Rightarrow> nat \<Rightarrow> nat" where
  "tabs m d = card {i. i < 1024 \<and> ptab m d i \<noteq> None}"

lemma tabs_le: "tabs m d \<le> 1024"
proof -
  have "card {i. i < 1024 \<and> ptab m d i \<noteq> None} \<le> card {..<1024 :: nat}" by (rule card_mono) auto
  then show ?thesis by (simp add: tabs_def)
qed

lemma tabs_cong: "(\<And>i. i < 1024 \<Longrightarrow> ptab m' d i = ptab m d i) \<Longrightarrow> tabs m' d = tabs m d"
  unfolding tabs_def by (rule arg_cong [where f = card]) auto

lemma tabs_new:
  assumes "i < 1024" and "ptab m d i = None" and "\<And>j. j < 1024 \<Longrightarrow> ptab m' d j = (if j = i then Some f else ptab m d j)"
  shows "tabs m' d = tabs m d + 1"
proof -
  have "{j. j < 1024 \<and> ptab m' d j \<noteq> None} = insert i {j. j < 1024 \<and> ptab m d j \<noteq> None}"
    using assms by (auto split: if_splits)
  moreover have "i \<notin> {j. j < 1024 \<and> ptab m d j \<noteq> None}" using assms(2) by simp
  ultimately show ?thesis by (simp add: tabs_def)
qed

text \<open>The page tables of \<open>d\<close> from entry \<open>n\<close> of its directory on.\<close>

definition tables_from :: "vmem \<Rightarrow> nat \<Rightarrow> nat \<Rightarrow> nat set" where
  "tables_from m d n = {t. \<exists>i \<ge> n. i < 1024 \<and> ptab m d i = Some t}"

text \<open>The frames a directory has for its tables, or could take for them.\<close>

definition pool :: "vmem \<Rightarrow> nat \<Rightarrow> nat set" where
  "pool m d = set (vfree m) \<union> tables_from m d 0"

lemma pool_cong: "(\<And>i. i < 1024 \<Longrightarrow> ptab m' d i = ptab m d i) \<Longrightarrow> vfree m' = vfree m \<Longrightarrow> pool m' d = pool m d"
  by (auto simp: pool_def tables_from_def)

text \<open>A new page table: all its entries are 0.\<close>

lemma new_table:
  assumes ok: "vm_ok D H m" and f: "f \<in> H" and d: "d \<in> D" "i < 1024" "ptab m d i = None"
    and m': "m' = set_pte (d, i) (f * PGSIZE OR PTE_P OR PTE_W OR PTE_U) (fill f 0 m)"
  shows "vm_ok D (H - {f}) m'" "ptab m' d i = Some f"
    "\<And>d' v. d' \<in> D \<Longrightarrow> v < VPAGES \<Longrightarrow> entry m' d' v = entry m d' v"
    "\<And>g. g \<noteq> f \<Longrightarrow> g \<noteq> d \<Longrightarrow> frames m' g = frames m g" "vfree m' = vfree m" "vend m' = vend m" "tabs m' d = tabs m d + 1"
    "\<And>j. j < 1024 \<Longrightarrow> ptab m' d j = (if j = i then Some f else ptab m d j)"
proof -
  note nt = not_table [OF ok disjI1 [OF f]]
  have df: "d \<noteq> f" using d(1) nt(1) by blast
  have gf: "good_frame m f" by (rule vm_okD(4) [OF ok f])
  have fl: "f * PGSIZE OR PTE_P OR PTE_W OR PTE_U = mk_pte f 6"
  proof -
    have "PTE_P OR PTE_W OR PTE_U = (6 OR PTE_P :: nat)" by (simp add: PTE_P_def PTE_W_def PTE_U_def)
    then show ?thesis using mk_pte(1) [of 6 f] by (simp add: or.assoc)
  qed
  let ?e = "mk_pte f 6"
  have eb: "?e < 4294967296" using mk_pte(5) good_frame_bound [OF gf] by (simp add: VPAGES_def)
  show v: "vfree m' = vfree m" "vend m' = vend m" by (simp_all add: m' set_pte_def fill_def)
  have lf: "length (frames (fill f 0 m) g) = PGSIZE" for g using vm_okD(1) [OF ok] by (simp add: fill_def)
  show fr: "\<And>g. g \<noteq> f \<Longrightarrow> g \<noteq> d \<Longrightarrow> frames m' g = frames m g" by (simp add: m' set_pte_def fill_def)
  have get: "get_pte (g, j) m' = (if g = d \<and> j = i then ?e else if g = f then 0 else get_pte (g, j) m)" if "j < 1024" for g j
    using get_set_pte [OF lf that d(2) eb, of g d] df that unfolding m' fl
    by (auto simp: get_pte_def fill_def)
  have tab: "ptab m' d' j = (if d' = d \<and> j = i then Some f else ptab m d' j)" if "d' \<in> D" "j < 1024" for d' j
    using that nt(1) mk_pte(2,3) [of 6 f] by (auto simp: ptab_def get)
  then show "ptab m' d i = Some f" "\<And>j. j < 1024 \<Longrightarrow> ptab m' d j = (if j = i then Some f else ptab m d j)"
    using d by simp_all
  show "tabs m' d = tabs m d + 1" by (rule tabs_new [OF d(2,3)]) (use tab d(1) in simp)
  show ent: "entry m' d' v = entry m d' v" if "d' \<in> D" "v < VPAGES" for d' v
  proof (cases "d' = d \<and> v div 1024 = i")
    case True
    then have "entry m d' v = 0" using d(3) by (simp add: entry_def)
    moreover have "ptab m' d' (v div 1024) = Some f" using True tab that(1) d(2) by auto
    ultimately show ?thesis using df by (simp add: entry_def get)
  next
    case False
    then have t: "ptab m' d' (v div 1024) = ptab m d' (v div 1024)" using tab [OF that(1) VPAGES_div [OF that(2)]] by auto
    have "t \<noteq> f \<and> t \<noteq> d" if t: "ptab m d' (v div 1024) = Some t" for t
    proof
      show "t \<noteq> f" using nt(2) [OF \<open>d' \<in> D\<close> VPAGES_div [OF \<open>v < VPAGES\<close>]] t by auto
      show "t \<noteq> d" using vm_okD(9) [OF ok, of "Tab d' (v div 1024)" "Dir d" d] t d(1) \<open>d' \<in> D\<close> VPAGES_div [OF \<open>v < VPAGES\<close>] by auto
    qed
    then show ?thesis by (auto simp: entry_def t get split: option.split)
  qed
  show "vm_ok D (H - {f}) m'"
  proof (rule vm_ok_put [OF ok f, of "Tab d i"])
    show "frame_of m' y = (if y = Tab d i then Some f else frame_of m y)" if "slot_of D y" for y
      using that tab ent by (cases y) (auto simp: page_def UPAGES_def VPAGES_def)
    show "length (frames m' g) = PGSIZE" for g
      using lf d(2) by (simp add: m' set_pte_def) (simp add: PGSIZE_def)
  qed (use d v in simp_all)
qed

text \<open>Walking with allocation: it fails only when there is no free frame.\<close>

lemma walk_alloc:
  assumes ok: "vm_ok D H m" and d: "d \<in> D" and v: "v < VPAGES" and r: "walkpgdir d (v * 4096) True m = (r, m')"
  shows "vm_ok D H m'" "\<And>d' v. d' \<in> D \<Longrightarrow> v < VPAGES \<Longrightarrow> entry m' d' v = entry m d' v" "vend m' = vend m"
    "set (vfree m') \<subseteq> set (vfree m)" "r = None \<Longrightarrow> m' = m \<and> vfree m = []"
    "r = Some p \<Longrightarrow> \<exists>t. p = (t, v mod 1024) \<and> ptab m' d (v div 1024) = Some t"
    "\<And>g. g \<in> H \<Longrightarrow> frames m' g = frames m g"
    "\<And>g d' v. d' \<in> D \<Longrightarrow> v < UPAGES \<Longrightarrow> page m d' v = Some g \<Longrightarrow> frames m' g = frames m g"
    "length (vfree m) \<le> length (vfree m') + 1" "length (vfree m') + tabs m' d = length (vfree m) + tabs m d"
    "pool m' d = pool m d"
proof -
  let ?i = "v div 1024"
  have i: "?i < 1024" by (rule VPAGES_div [OF v])
  have ix: "PDX (v * 4096) = ?i" "PTX (v * 4096) = v mod 1024"
    using PDX_page [OF v, of 0] PTX_page [OF v, of 0] by simp_all
  have "vm_ok D H m' \<and> (\<forall>d' \<in> D. \<forall>v < VPAGES. entry m' d' v = entry m d' v) \<and> vend m' = vend m \<and>
    set (vfree m') \<subseteq> set (vfree m) \<and> (r = None \<longrightarrow> m' = m \<and> vfree m = []) \<and>
    (\<forall>p. r = Some p \<longrightarrow> (\<exists>t. p = (t, v mod 1024) \<and> ptab m' d ?i = Some t)) \<and>
    (\<forall>g \<in> H. frames m' g = frames m g) \<and>
    (\<forall>g. \<forall>d' \<in> D. \<forall>v < UPAGES. page m d' v = Some g \<longrightarrow> frames m' g = frames m g) \<and>
    length (vfree m) \<le> length (vfree m') + 1 \<and> length (vfree m') + tabs m' d = length (vfree m) + tabs m d \<and>
    pool m' d = pool m d"
  proof (cases "ptab m d ?i")
    case (Some t)
    then have "r = Some (t, v mod 1024)" "m' = m" using r ix by (auto simp: walkpgdir_def ptab_def Let_def split: if_splits)
    then show ?thesis using Some ok by simp
  next
    case None
    then have np: "\<not> pte_present (get_pte (d, ?i) m)" by (simp add: ptab_def Let_def split: if_splits)
    show ?thesis
    proof (cases "kalloc_frame m")
      case (Pair k m1)
      show ?thesis
      proof (cases k)
        case none: None
        then have "vfree m = []" "m1 = m" using Pair by (auto simp: kalloc_frame_def split: list.splits)
        moreover then have "r = None" "m' = m" using r ix np none Pair by (auto simp: walkpgdir_def Let_def)
        ultimately show ?thesis using ok by simp
      next
        case (Some f)
        note ka = vm_ok_kalloc [OF ok Pair [unfolded Some]]
        have r': "r = Some (f, v mod 1024)" "m' = set_pte (d, ?i) (f * PGSIZE OR PTE_P OR PTE_W OR PTE_U) (fill f 0 m1)"
          using r ix np Some Pair by (auto simp: walkpgdir_def Let_def)
        have n1: "ptab m1 d ?i = None" using same_frames(2) [OF ka(5)] None by simp
        note nw = new_table [OF ka(1) insertI1 d i n1 r'(2)]
        have "insert f H - {f} = H" using ka(2) by blast
        then have "vm_ok D H m'" using nw(1) by simp
        moreover have "entry m' d' v = entry m d' v" if "d' \<in> D" "v < VPAGES" for d' v
          using nw(3) [OF that] same_frames(3) [OF ka(5)] by simp
        moreover have "frames m' g = frames m g" if "g \<in> H" for g
          using that ka(2) nw(4) [of g] ka(5) not_table(1) [OF ok] d by metis
        moreover have "frames m' g = frames m g" if g: "d' \<in> D" "v < UPAGES" "page m d' v = Some g" for g d' v
        proof -
          have "g \<noteq> f" using ka(3) busyI [of D "User d' v" m g] g by auto
          moreover have "g \<noteq> d" using vm_okD(9) [OF ok, of "User d' v" "Dir d" d] g d by auto
          ultimately show ?thesis using nw(4) ka(5) by simp
        qed
        moreover have "set (vfree m') \<subseteq> set (vfree m)" using nw(5) ka(7) by auto
        moreover have tab: "ptab m' d j = (if j = ?i then Some f else ptab m d j)" if "j < 1024" for j
          using nw(8) [OF that] same_frames(2) [OF ka(5)] by simp
        have "tables_from m' d 0 = insert f (tables_from m d 0)"
        proof (rule set_eqI)
          fix t
          have "(\<exists>j < 1024. ptab m' d j = Some t) \<longleftrightarrow> t = f \<or> (\<exists>j < 1024. ptab m d j = Some t)"
            using tab i None by (metis option.inject option.distinct(1))
          then show "t \<in> tables_from m' d 0 \<longleftrightarrow> t \<in> insert f (tables_from m d 0)" by (simp add: tables_from_def)
        qed
        then have "pool m' d = pool m d" using nw(5) ka(7) by (simp add: pool_def)
        ultimately show ?thesis using r'(1) nw(2,5,6,7) ka(6,7) tabs_cong [of m1 d m] same_frames(2) [OF ka(5)] by simp
      qed
    qed
  qed
  then show "vm_ok D H m'" "\<And>d' v. d' \<in> D \<Longrightarrow> v < VPAGES \<Longrightarrow> entry m' d' v = entry m d' v" "vend m' = vend m"
    "set (vfree m') \<subseteq> set (vfree m)" "r = None \<Longrightarrow> m' = m \<and> vfree m = []"
    "r = Some p \<Longrightarrow> \<exists>t. p = (t, v mod 1024) \<and> ptab m' d (v div 1024) = Some t"
    "\<And>g. g \<in> H \<Longrightarrow> frames m' g = frames m g"
    "\<And>g d' v. d' \<in> D \<Longrightarrow> v < UPAGES \<Longrightarrow> page m d' v = Some g \<Longrightarrow> frames m' g = frames m g"
    "length (vfree m) \<le> length (vfree m') + 1" "length (vfree m') + tabs m' d = length (vfree m) + tabs m d"
    "pool m' d = pool m d" by blast+
qed

section \<open>Setting an entry\<close>

text \<open>The address space of a directory: the present entries of its pages.\<close>

definition vmap :: "vmem \<Rightarrow> nat \<Rightarrow> nat \<Rightarrow> nat option" where
  "vmap m d v = (if pte_present (entry m d v) then Some (entry m d v) else None)"

lemma page_vmap: "page m d v = map_option pte_frame (vmap m d v)"
  by (simp add: page_def vmap_def)

lemma vmap_zero [simp]: "entry m d v = 0 \<Longrightarrow> vmap m d v = None"
  by (simp add: vmap_def pte_present_odd)

text \<open>\<open>stable D H m m'\<close>: the frames in hand and the pages of user memory of \<open>m\<close> keep their bytes.\<close>

definition stable :: "nat set \<Rightarrow> nat set \<Rightarrow> vmem \<Rightarrow> vmem \<Rightarrow> bool" where
  "stable D H m m' \<longleftrightarrow> vend m' = vend m \<and> (\<forall>g \<in> H. frames m' g = frames m g) \<and>
     (\<forall>d \<in> D. \<forall>v < UPAGES. \<forall>g. page m d v = Some g \<longrightarrow> frames m' g = frames m g)"

lemma stable_refl: "stable D H m m"
  by (simp add: stable_def)

lemma set_entry:
  assumes ok: "vm_ok D H m" and d: "d \<in> D" and v: "v < VPAGES" and t: "ptab m d (v div 1024) = Some t"
    and e: "e < 4294967296" and m': "m' = set_pte (t, v mod 1024) e m"
  shows "\<And>d' i. d' \<in> D \<Longrightarrow> i < 1024 \<Longrightarrow> ptab m' d' i = ptab m d' i"
    "\<And>d' w. d' \<in> D \<Longrightarrow> w < VPAGES \<Longrightarrow> entry m' d' w = (if d' = d \<and> w = v then e else entry m d' w)"
    "stable D H m m'" "vfree m' = vfree m" "\<And>g. length (frames m' g) = PGSIZE"
proof -
  note i = VPAGES_div [OF v]
  have tb: "busy D m t" by (rule busyI [of D "Tab d (v div 1024)"]) (use d i t in simp_all)
  have td: "t \<notin> D"
    using vm_okD(9) [OF ok, of "Tab d (v div 1024)" "Dir t" t] d i t by auto
  have get: "get_pte (g, j) m' = (if g = t \<and> j = v mod 1024 then e else get_pte (g, j) m)" if "j < 1024" for g j
    unfolding m' by (rule get_set_pte) (use that e vm_okD(1) [OF ok] in simp_all)
  show tab: "ptab m' d' j = ptab m d' j" if "d' \<in> D" "j < 1024" for d' j
    using that td by (auto simp: ptab_def get)
  show "entry m' d' w = (if d' = d \<and> w = v then e else entry m d' w)" if dw: "d' \<in> D" "w < VPAGES" for d' w
  proof -
    note wi = VPAGES_div [OF dw(2)]
    have same: "d' = d \<and> w div 1024 = v div 1024" if "ptab m d' (w div 1024) = Some t"
      using vm_okD(9) [OF ok, of "Tab d' (w div 1024)" "Tab d (v div 1024)" t] that dw(1) wi d i t by auto
    have wv: "w = v" if "w div 1024 = v div 1024" "w mod 1024 = v mod 1024"
      using that by (metis div_mult_mod_eq)
    show ?thesis
    proof (cases "ptab m d' (w div 1024)")
      case None
      then have "\<not> (d' = d \<and> w = v)" using t by auto
      then show ?thesis using None by (auto simp: entry_def tab [OF dw(1) wi])
    next
      case (Some x)
      have "x = t \<and> w mod 1024 = v mod 1024 \<longleftrightarrow> d' = d \<and> w = v" using Some same wv t by auto
      then show ?thesis using Some by (auto simp: entry_def tab [OF dw(1) wi] get)
    qed
  qed
  have fr: "frames m' g = frames m g" if "g \<noteq> t" for g using that by (simp add: m' set_pte_def)
  have "g \<noteq> t" if "g \<in> H" for g using that vm_okD(7) [OF ok tb] by blast
  moreover have "g \<noteq> t" if "d' \<in> D" "w < UPAGES" "page m d' w = Some g" for d' w g
    using vm_okD(9) [OF ok, of "User d' w" "Tab d (v div 1024)" t] that d i t by auto
  ultimately show "stable D H m m'" using fr by (auto simp: stable_def m' set_pte_def)
  show "vfree m' = vfree m" by (simp add: m' set_pte_def)
  show "length (frames m' g) = PGSIZE" for g
    using vm_okD(1) [OF ok] by (simp add: m' set_pte_def) (simp add: PGSIZE_def)
qed

lemma set_entry_maps:
  assumes "vm_ok D H m" and "d \<in> D" and "v < VPAGES" and "ptab m d (v div 1024) = Some t"
    and "e < 4294967296" and "m' = set_pte (t, v mod 1024) e m" and "d' \<in> D" "w < VPAGES"
  shows "vmap m' d' w = (if d' = d \<and> w = v then if pte_present e then Some e else None else vmap m d' w)"
  using set_entry(2) [OF assms] by (auto simp: vmap_def)

lemma page_entry: "entry m' d v = entry m d v \<Longrightarrow> page m' d v = page m d v"
  by (simp add: page_def)

text \<open>Mapping the frame \<open>f\<close> at page \<open>v\<close> of user memory.\<close>

lemma map_pte:
  assumes ok: "vm_ok D H m" and d: "d \<in> D" and f: "f \<in> H" and v: "v < UPAGES" "vmap m d v = None"
    and t: "ptab m d (v div 1024) = Some t" and perm: "perm < 4096" and m': "m' = set_pte (t, v mod 1024) (mk_pte f perm) m"
  shows "vm_ok D (H - {f}) m'" "\<And>d' w. d' \<in> D \<Longrightarrow> w < VPAGES \<Longrightarrow>
    vmap m' d' w = (if d' = d \<and> w = v then Some (mk_pte f perm) else vmap m d' w)"
proof -
  have vp: "v < VPAGES" using v by (simp add: UPAGES_def VPAGES_def)
  have e: "mk_pte f perm < 4294967296"
    using mk_pte(5) [OF perm] good_frame_bound [OF vm_okD(4) [OF ok f]] by (simp add: VPAGES_def)
  note se = set_entry [OF ok d vp t e m']
  show maps: "vmap m' d' w = (if d' = d \<and> w = v then Some (mk_pte f perm) else vmap m d' w)" if "d' \<in> D" "w < VPAGES" for d' w
    using se(2) [OF that] mk_pte(2) [OF perm] by (auto simp: vmap_def)
  show "vm_ok D (H - {f}) m'"
  proof (rule vm_ok_put [OF ok f, of "User d v"])
    show "frame_of m' y = (if y = User d v then Some f else frame_of m y)" if "slot_of D y" for y
      using that maps se(1) mk_pte(3) [OF perm] by (cases y) (auto simp: page_vmap UPAGES_def VPAGES_def)
    show "frame_of m (User d v) = None" using v(2) by (simp add: page_vmap)
    show "vend m' = vend m" using se(3) by (simp add: stable_def)
  qed (use d v se(4,5) in simp_all)
qed

lemma mappages_page:
  assumes "v < VPAGES"
  shows "mappages d (v * 4096) PGSIZE pa perm m = map_loop d perm 0 (v * 4096) pa m"
proof -
  have "u32 (v * 4096 + 4096 + 4294967295) = v * 4096 + 4095"
  proof -
    have "v * 4096 + 4096 + 4294967295 = (v * 4096 + 4095) + 4294967296" by simp
    then have "u32 (v * 4096 + 4096 + 4294967295) = (v * 4096 + 4095) mod 4294967296"
      unfolding u32_def by (simp only: mod_add_self2)
    then show ?thesis using assms by (simp add: VPAGES_def)
  qed
  moreover have "(v * 4096 + 4095) div 4096 = v" by simp
  ultimately show ?thesis by (simp add: mappages_def PGROUNDDOWN_def PGSIZE_def u32_def)
qed

lemma walk_stable:
  assumes "vm_ok D H m" and "d \<in> D" and "v < VPAGES" and "walkpgdir d (v * 4096) True m = (r, m')"
  shows "stable D H m m'" "\<And>d' w. d' \<in> D \<Longrightarrow> w < VPAGES \<Longrightarrow> vmap m' d' w = vmap m d' w"
  using walk_alloc [OF assms] by (simp_all add: stable_def vmap_def)

lemma stable_trans:
  assumes "stable D H m m1" and "stable D H m1 m2" and "\<And>d v. d \<in> D \<Longrightarrow> v < UPAGES \<Longrightarrow> page m1 d v = page m d v \<or> page m d v = None"
  shows "stable D H m m2"
proof -
  have "frames m2 g = frames m g" if "d \<in> D" "v < UPAGES" "page m d v = Some g" for d v g
  proof -
    have "page m1 d v = Some g" using assms(3) [OF that(1,2)] that(3) by auto
    then have "frames m2 g = frames m1 g" using assms(2) that(1,2) by (auto simp: stable_def)
    then show ?thesis using assms(1) that by (auto simp: stable_def)
  qed
  then show ?thesis using assms(1,2) by (auto simp: stable_def)
qed

lemma map_page:
  assumes ok: "vm_ok D H m" and d: "d \<in> D" and f: "f \<in> H" and v: "v < UPAGES" "vmap m d v = None" and perm: "perm < 4096"
  shows "\<exists>r m'. mappages d (v * 4096) PGSIZE (f * PGSIZE) perm m = Ret (r, m') \<and> stable D H m m' \<and>
    set (vfree m') \<subseteq> set (vfree m) \<and> length (vfree m) \<le> length (vfree m') + 1 \<and>
    length (vfree m') + tabs m' d = length (vfree m) + tabs m d \<and> pool m' d = pool m d \<and> (r = 0 \<and> vm_ok D (H - {f}) m' \<and> (\<forall>d' \<in> D. \<forall>w < VPAGES.
       vmap m' d' w = (if d' = d \<and> w = v then Some (mk_pte f perm) else vmap m d' w)) \<or>
     r = -1 \<and> m' = m \<and> vfree m = [])"
proof -
  have vp: "v < VPAGES" using v by (simp add: UPAGES_def VPAGES_def)
  obtain r m1 where w: "walkpgdir d (v * 4096) True m = (r, m1)" by (cases "walkpgdir d (v * 4096) True m") simp
  note wa = walk_alloc [OF ok d vp w] and ws = walk_stable [OF ok d vp w]
  show ?thesis
  proof (cases r)
    case None
    then show ?thesis
      using w wa(5) stable_refl by (simp add: mappages_page [OF vp] map_loop.simps)
  next
    case (Some p)
    then obtain t where t: "p = (t, v mod 1024)" "ptab m1 d (v div 1024) = Some t" using wa(6) by blast
    have v1: "vmap m1 d v = None" using ws(2) [OF d vp] v(2) by simp
    then have np: "\<not> pte_present (get_pte p m1)" using t by (simp add: vmap_def entry_def split: if_splits)
    let ?m = "set_pte p (mk_pte f perm) m1"
    have m': "?m = set_pte (t, v mod 1024) (mk_pte f perm) m1" by (simp add: t)
    note mp = map_pte [OF wa(1) d f v(1) v1 t(2) perm m']
    have e: "mk_pte f perm < 4294967296"
      using mk_pte(5) [OF perm] good_frame_bound [OF vm_okD(4) [OF ok f]] by (simp add: VPAGES_def)
    note se = set_entry [OF wa(1) d vp t(2) e m']
    have "stable D H m ?m"
      by (rule stable_trans [OF ws(1) se(3)]) (use ws(2) in \<open>simp add: page_vmap UPAGES_def VPAGES_def\<close>)
    moreover have "mappages d (v * 4096) PGSIZE (f * PGSIZE) perm m = Ret (0, ?m)"
      using w Some np mk_pte(1) [OF perm, of f] by (simp add: mappages_page [OF vp] map_loop.simps Let_def)
    ultimately show ?thesis using mp ws(2) wa(4,9,10,11) se(4) tabs_cong [of ?m d m1, OF se(1) [OF d]]
        pool_cong [of ?m d m1, OF se(1) [OF d] se(4)] by auto
  qed
qed

section \<open>Giving pages back\<close>

lemma vm_ok_kfree:
  assumes ok: "vm_ok D H m" and f: "f \<in> H"
  shows "\<exists>m'. kfree_frame f m = Ret m' \<and> vm_ok D (H - {f}) m' \<and> vfree m' = f # vfree m \<and> stable D (H - {f}) m m' \<and>
    (\<forall>d \<in> D. \<forall>w < VPAGES. vmap m' d w = vmap m d w) \<and> same_maps D m m' \<and> (\<forall>g. g \<noteq> f \<longrightarrow> frames m' g = frames m g)"
proof -
  have gf: "good_frame m f" by (rule vm_okD(4) [OF ok f])
  from kfree_frame_ret [OF this vm_okD(1) [OF ok]] obtain m' where m': "kfree_frame f m = Ret m'" "vfree m' = f # vfree m" "vend m' = vend m"
      "\<And>g. g \<noteq> f \<Longrightarrow> frames m' g = frames m g" "length (frames m' f) = PGSIZE" by blast
  note nt = not_table [OF ok disjI1 [OF f]]
  have sm: "same_maps D m m'" by (rule same_maps_write [OF nt(1,2) m'(4)])
  have vm: "\<forall>d \<in> D. \<forall>w < VPAGES. vmap m' d w = vmap m d w"
    using entry_write(2) [OF nt(1,2) m'(4)] by (simp add: vmap_def)
  have b: "busy D m' = busy D m" by (rule same_maps_busy [OF sm])
  have g: "good_frame m' = good_frame m" by (simp add: good_frame_def fun_eq_iff m'(3))
  have len: "length (frames m' h) = PGSIZE" for h using m'(4,5) vm_okD(1) [OF ok] by (cases "h = f") simp_all
  have inj: "y = z" if "slot_of D y" "slot_of D z" "frame_of m' y = Some h" "frame_of m' z = Some h" for y z h
    using that sm vm_okD(9) [OF ok, of y z h] by (simp add: same_maps_def)
  have nb: "\<not> busy D m f" "f \<notin> set (vfree m)" using vm_okD(7,8) [OF ok] f by blast+
  have "\<forall>h. h \<in> set (vfree m) \<or> h \<in> H \<or> busy D m h \<longrightarrow> good_frame m h"
    "\<forall>h. busy D m h \<longrightarrow> h \<notin> set (vfree m) \<and> h \<notin> H" "set (vfree m) \<inter> H = {}" "distinct (vfree m)"
    using ok by (simp_all add: vm_ok_def)
  then have "vm_ok D (H - {f}) m'"
    unfolding vm_ok_def b g m'(2) using len inj nb f by auto
  moreover have "frames m' g = frames m g" if "d \<in> D" "v < UPAGES" "page m d v = Some g" for d v g
    using m'(4) [of g] nt(3) [OF that(1,2)] that(3) by auto
  then have "stable D (H - {f}) m m'"
    using m'(3,4) by (simp add: stable_def)
  ultimately show ?thesis using m' sm vm by blast
qed

text \<open>Clearing the entry of a mapped page puts its frame in hand.\<close>

definition same_tabs :: "nat set \<Rightarrow> vmem \<Rightarrow> vmem \<Rightarrow> bool" where
  "same_tabs D m m' \<longleftrightarrow> (\<forall>d \<in> D. \<forall>i < 1024. ptab m' d i = ptab m d i)"

lemma clear_entry:
  assumes ok: "vm_ok D H m" and d: "d \<in> D" and v: "v < UPAGES" and t: "ptab m d (v div 1024) = Some t"
    and f: "page m d v = Some f" and m': "m' = set_pte (t, v mod 1024) 0 m"
  shows "vm_ok D (insert f H) m'" "\<And>d' w. d' \<in> D \<Longrightarrow> w < VPAGES \<Longrightarrow>
    vmap m' d' w = (if d' = d \<and> w = v then None else vmap m d' w)"
proof -
  have vp: "v < VPAGES" using v by (simp add: UPAGES_def VPAGES_def)
  note se = set_entry [OF ok d vp t _ m', simplified]
  show maps: "vmap m' d' w = (if d' = d \<and> w = v then None else vmap m d' w)" if "d' \<in> D" "w < VPAGES" for d' w
    using se(2) [OF that] by (auto simp: vmap_def pte_present_odd)
  show "vm_ok D (insert f H) m'"
  proof (rule vm_ok_take [OF ok, of "User d v"])
    show "frame_of m' y = (if y = User d v then None else frame_of m y)" if "slot_of D y" for y
      using that maps se(1) by (cases y) (auto simp: page_vmap UPAGES_def VPAGES_def)
    show "vend m' = vend m" using se(3) by (simp add: stable_def)
  qed (use d v f se(4,5) in simp_all)
qed

text \<open>The frames that \<open>deallocuvm\<close> frees from page \<open>v\<close> on.\<close>

definition frames_from :: "vmem \<Rightarrow> nat \<Rightarrow> nat \<Rightarrow> nat \<Rightarrow> nat set" where
  "frames_from m d v oldsz = {f. \<exists>w \<ge> v. w * PGSIZE < oldsz \<and> page m d w = Some f}"

definition unmapped :: "nat set \<Rightarrow> vmem \<Rightarrow> vmem \<Rightarrow> nat \<Rightarrow> nat \<Rightarrow> nat \<Rightarrow> bool" where
  "unmapped D m m' d v oldsz \<longleftrightarrow> (\<forall>d' \<in> D. \<forall>w < VPAGES.
     vmap m' d' w = (if d' = d \<and> v \<le> w \<and> w * PGSIZE < oldsz then None else vmap m d' w))"

definition stable_above :: "nat set \<Rightarrow> nat set \<Rightarrow> vmem \<Rightarrow> vmem \<Rightarrow> bool" where
  "stable_above D H m m' \<longleftrightarrow> vend m' = vend m \<and> (\<forall>g \<in> H. frames m' g = frames m g) \<and>
     (\<forall>d \<in> D. \<forall>v < UPAGES. \<forall>g. page m' d v = Some g \<longrightarrow> frames m' g = frames m g)"

text \<open>Over an address that has no page table the loop goes on at the next one.\<close>

lemma gap_empty:
  assumes "ptab m d (v div 1024) = None" and "v \<le> w" and "w < (v div 1024 + 1) * 1024"
  shows "page m d w = None" "vmap m d w = None"
proof -
  have "w div 1024 = v div 1024"
  proof (rule antisym)
    show "w div 1024 \<le> v div 1024" using assms(3) less_mult_imp_div_less [of w "v div 1024 + 1" 1024] by simp
    show "v div 1024 \<le> w div 1024" using assms(2) by (rule div_le_mono)
  qed
  then have "entry m d w = 0" using assms(1) by (simp add: entry_def)
  then show "page m d w = None" "vmap m d w = None" by (simp_all add: page_vmap)
qed

lemma skip_pages:
  assumes gap: "\<And>w. v \<le> w \<Longrightarrow> w < u \<Longrightarrow> vmap m d w = None" and "v \<le> u"
  shows "unmapped D m m' d u oldsz \<Longrightarrow> unmapped D m m' d v oldsz" "frames_from m d u oldsz = frames_from m d v oldsz"
proof -
  have 1: "vmap m d w = None" if "v \<le> w" "\<not> u \<le> w" for w using gap that by simp
  then show "unmapped D m m' d v oldsz" if "unmapped D m m' d u oldsz"
    using that assms(2) unfolding unmapped_def by (auto split: if_splits)
  show "frames_from m d u oldsz = frames_from m d v oldsz"
  proof (rule set_eqI, rule iffI)
    fix f assume "f \<in> frames_from m d v oldsz"
    then obtain w where w: "v \<le> w" "w * PGSIZE < oldsz" "page m d w = Some f" by (auto simp: frames_from_def)
    then have "u \<le> w" using 1 [of w] by (cases "u \<le> w") (simp_all add: page_vmap)
    then show "f \<in> frames_from m d u oldsz" using w by (auto simp: frames_from_def)
  qed (use assms(2) in \<open>auto simp: frames_from_def intro: order.trans\<close>)
qed

text \<open>Freeing one page. The code frees the frame before it clears the entry; the order makes no difference.\<close>

lemma free_page:
  assumes ok: "vm_ok D H m" and d: "d \<in> D" and v: "v < UPAGES" and t: "ptab m d (v div 1024) = Some t"
    and f: "page m d v = Some f"
  shows "\<exists>m1 m2. kfree_frame f m = Ret m1 \<and> set_pte (t, v mod 1024) 0 m1 = m2 \<and> vm_ok D H m2 \<and> vfree m2 = f # vfree m \<and>
    vend m2 = vend m \<and> (\<forall>d' \<in> D. \<forall>w < VPAGES. vmap m2 d' w = (if d' = d \<and> w = v then None else vmap m d' w)) \<and>
    (\<forall>g. g \<noteq> f \<and> g \<noteq> t \<longrightarrow> frames m2 g = frames m g) \<and> f \<noteq> t \<and> same_tabs D m m2"
proof -
  have vp: "v < VPAGES" using v by (simp add: UPAGES_def VPAGES_def)
  have bf: "busy D m f" by (rule busyI [of D "User d v"]) (use d v f in simp_all)
  let ?c = "set_pte (t, v mod 1024) 0 m"
  note cl = clear_entry [OF ok d v t f refl]
  have ft: "f \<noteq> t" using vm_okD(9) [OF ok, of "User d v" "Tab d (v div 1024)" t] f t d v VPAGES_div [OF vp] by auto
  obtain m1 where m1: "kfree_frame f m = Ret m1" "vfree m1 = f # vfree m"
    using kfree_frame_ret [OF vm_okD(5) [OF ok bf] vm_okD(1) [OF ok]] by blast
  from vm_ok_kfree [OF cl(1) insertI1] obtain m2 where m2: "kfree_frame f ?c = Ret m2"
    "vm_ok D (insert f H - {f}) m2" "vfree m2 = f # vfree ?c" "stable D (insert f H - {f}) ?c m2"
    "\<And>d w. d \<in> D \<Longrightarrow> w < VPAGES \<Longrightarrow> vmap m2 d w = vmap ?c d w" "\<And>g. g \<noteq> f \<Longrightarrow> frames m2 g = frames ?c g"
    "same_maps D ?c m2" by blast
  have "ptab m2 d' i = ptab m d' i" if "d' \<in> D" "i < 1024" for d' i
  proof -
    have "frame_of m2 (Tab d' i) = frame_of ?c (Tab d' i)" using m2(7) that unfolding same_maps_def by (metis slot_of.simps(2))
    then show ?thesis using set_entry(1) [OF ok d vp t _ refl, of 0, simplified, OF that] by simp
  qed
  then have "same_tabs D m m2" by (simp add: same_tabs_def)
  moreover have "set_pte (t, v mod 1024) 0 m1 = m2"
    using m1(1) m2(1) ft by (auto simp: kfree_frame_def set_pte_def Let_def fun_upd_twist split: if_splits)
  moreover have "insert f H - {f} = H" using vm_okD(7) [OF ok bf] by blast
  moreover have "\<forall>d' \<in> D. \<forall>w < VPAGES. vmap m2 d' w = (if d' = d \<and> w = v then None else vmap m d' w)"
    using m2(5) cl(2) by simp
  moreover have "vend m2 = vend m" "vfree ?c = vfree m" using m2(4) by (simp_all add: stable_def set_pte_def)
  moreover have "\<forall>g. g \<noteq> f \<and> g \<noteq> t \<longrightarrow> frames m2 g = frames m g" using m2(6) by (simp add: set_pte_def)
  ultimately show ?thesis using m1(1) m2(2,3) ft by auto
qed

lemma stable_above_free:
  assumes ok: "vm_ok D H m" and d: "d \<in> D" "v < UPAGES" "ptab m d (v div 1024) = Some t" "page m d v = Some f"
    and fr: "\<And>g. g \<noteq> f \<Longrightarrow> g \<noteq> t \<Longrightarrow> frames m2 g = frames m g" and vend: "vend m2 = vend m"
    and maps: "\<And>d' w. d' \<in> D \<Longrightarrow> w < VPAGES \<Longrightarrow> vmap m2 d' w = (if d' = d \<and> w = v then None else vmap m d' w)"
    and more: "unmapped D m2 m' d u oldsz" "stable_above D H m2 m'"
  shows "stable_above D H m m'"
proof -
  have vp: "v div 1024 < 1024" using d(2) by (simp add: UPAGES_def)
  have bf: "busy D m f" by (rule busyI [of D "User d v"]) (use d in simp_all)
  have tb: "busy D m t" by (rule busyI [of D "Tab d (v div 1024)"]) (use d vp in simp_all)
  have h: "frames m2 g = frames m g" if "g \<in> H" for g
    using fr [of g] that vm_okD(7) [OF ok bf] vm_okD(7) [OF ok tb] by metis
  have u: "frames m2 g = frames m g" if dw: "d' \<in> D" "w < UPAGES" "page m' d' w = Some g" for d' w g
  proof -
    have w: "w < VPAGES" using dw(2) by (simp add: UPAGES_def VPAGES_def)
    have "vmap m' d' w = (if d' = d \<and> u \<le> w \<and> w * PGSIZE < oldsz then None else vmap m2 d' w)"
      using more(1) dw(1) w by (simp add: unmapped_def)
    then have "page m2 d' w = Some g" using dw(3) by (auto simp: page_vmap split: if_splits)
    then have pg: "page m d' w = Some g" "\<not> (d' = d \<and> w = v)" using maps [OF dw(1) w] by (auto simp: page_vmap split: if_splits)
    have "g \<noteq> f" using vm_okD(9) [OF ok, of "User d' w" "User d v" g] pg d dw(1,2) by auto
    moreover have "g \<noteq> t"
      using vm_okD(9) [OF ok, of "User d' w" "Tab d (v div 1024)" g] pg d vp dw(1,2) by auto
    ultimately show ?thesis by (rule fr)
  qed
  show ?thesis using more(2) h u vend unfolding stable_above_def by simp
qed

lemma dealloc_loop_ok:
  assumes "vm_ok D H m" and d: "d \<in> D" and old: "oldsz \<le> KERNBASE"
  shows "\<exists>m'. dealloc_loop d (v * PGSIZE) oldsz m = Ret m' \<and> vm_ok D H m' \<and> unmapped D m m' d v oldsz \<and>
    set (vfree m') = set (vfree m) \<union> frames_from m d v oldsz \<and> stable_above D H m m' \<and> same_tabs D m m'"
  using assms(1)
proof (induction "oldsz - v * PGSIZE" arbitrary: v m rule: less_induct)
  case less
  note ok = less.prems
  show ?case
  proof (cases "v * PGSIZE < oldsz")
    case False
    then have "\<not> (v \<le> w \<and> w * PGSIZE < oldsz)" for w by (metis le_less_trans mult_le_mono1)
    then have "unmapped D m m d v oldsz" "frames_from m d v oldsz = {}"
      by (auto simp: unmapped_def frames_from_def)
    then show ?thesis using False ok by (simp add: dealloc_loop.simps [of d "v * PGSIZE"] stable_above_def same_tabs_def)
  next
    case True
    then have v: "v < UPAGES" "v < VPAGES" using old by (simp_all add: KERNBASE_def PGSIZE_def UPAGES_def VPAGES_def)
    have look: "walkpgdir d (v * PGSIZE) False m = (map_option (\<lambda>t. (t, v mod 1024)) (ptab m d (v div 1024)), m)"
      using walk_look [OF v(2), of 0] by (simp add: PGSIZE_def)
    note unf = dealloc_loop.simps [of d "v * PGSIZE"]
    have skip: ?thesis if vu: "v < u" and gap: "\<And>w. v \<le> w \<Longrightarrow> w < u \<Longrightarrow> vmap m d w = None"
        and eq: "dealloc_loop d (v * PGSIZE) oldsz m = dealloc_loop d (u * PGSIZE) oldsz m" for u
    proof -
      have "oldsz - u * PGSIZE < oldsz - v * PGSIZE" using vu True by (simp add: PGSIZE_def)
      from less.hyps [OF this ok] show ?thesis
        using skip_pages [of v u m d, OF _ less_imp_le [OF vu]] gap unfolding eq by metis
    qed
    show ?thesis
    proof (cases "ptab m d (v div 1024)")
      case None
      let ?u = "(v div 1024 + 1) * 1024"
      have "v * 4096 div 4194304 = v div 1024" using div_mult2_eq [of "v * 4096" 4096 1024] by simp
      then have nx: "(v * PGSIZE div 4194304 + 1) * 4194304 = ?u * PGSIZE" by (simp add: PGSIZE_def)
      have "dealloc_loop d (v * PGSIZE) oldsz m = dealloc_loop d (?u * PGSIZE) oldsz m"
        unfolding unf look None using True by (simp only: nx) simp
      moreover have "v < ?u" using dividend_less_times_div [of 1024 v] by (simp add: algebra_simps)
      ultimately show ?thesis using skip [of ?u] gap_empty(2) [OF None] by blast
    next
      case (Some t)
      have ge: "get_pte (t, v mod 1024) m = entry m d v" using Some by (simp add: entry_def)
      show ?thesis
      proof (cases "pte_present (entry m d v)")
        case False
        then have "vmap m d w = None" if "v \<le> w" "w < Suc v" for w using that by (auto simp: vmap_def less_Suc_eq)
        then show ?thesis using skip [of "Suc v"] True look Some ge False by (simp add: unf add.commute)
      next
        case pr: True
        let ?f = "pte_frame (entry m d v)"
        have f: "page m d v = Some ?f" using pr by (simp add: page_def)
        have gf: "good_frame m ?f" by (rule vm_okD(5) [OF ok busyI [of D "User d v"]]) (use d v(1) f in simp_all)
        from free_page [OF ok d v(1) Some f] obtain m1 m2 where m: "kfree_frame ?f m = Ret m1"
          "set_pte (t, v mod 1024) 0 m1 = m2" "vm_ok D H m2" "vfree m2 = ?f # vfree m" "vend m2 = vend m"
          "\<And>d' w. d' \<in> D \<Longrightarrow> w < VPAGES \<Longrightarrow> vmap m2 d' w = (if d' = d \<and> w = v then None else vmap m d' w)"
          "\<And>g. g \<noteq> ?f \<Longrightarrow> g \<noteq> t \<Longrightarrow> frames m2 g = frames m g" "same_tabs D m m2" by blast
        have "oldsz - Suc v * PGSIZE < oldsz - v * PGSIZE" using True by (simp add: PGSIZE_def)
        from less.hyps [OF this m(3)] obtain m' where m': "dealloc_loop d (Suc v * PGSIZE) oldsz m2 = Ret m'" "vm_ok D H m'"
          "unmapped D m2 m' d (Suc v) oldsz" "set (vfree m') = set (vfree m2) \<union> frames_from m2 d (Suc v) oldsz"
          "stable_above D H m2 m'" "same_tabs D m2 m'" by blast
        have "PTE_ADDR (entry m d v) \<noteq> 0" using gf by (metis good_frame_def pte_frame_def div_0 less_irrefl)
        then have "dealloc_loop d (v * PGSIZE) oldsz m = Ret m'"
          using True look Some ge pr m(1,2) m'(1) by (simp add: unf add.commute)
        moreover have split: "v \<le> w \<longleftrightarrow> w = v \<or> Suc v \<le> w" for w by auto
        have "unmapped D m m' d v oldsz" using m'(3) m(6) True by (auto simp: unmapped_def split)
        moreover have "page m2 d w = page m d w" if "Suc v \<le> w" "w * PGSIZE < oldsz" for w
          using m(6) [OF d, of w] that old by (simp add: page_vmap KERNBASE_def PGSIZE_def VPAGES_def)
        then have "frames_from m2 d (Suc v) oldsz = frames_from m d (Suc v) oldsz" by (auto simp: frames_from_def)
        moreover have "frames_from m d v oldsz = insert ?f (frames_from m d (Suc v) oldsz)"
          using f True by (auto simp: frames_from_def split)
        ultimately show ?thesis
          using m' m(4,8) stable_above_free [OF ok d v(1) Some f m(7,5,6) m'(3,5)] by (auto simp: same_tabs_def)
      qed
    qed
  qed
qed

end
