(* ===== verification/Vm_Spaces.thy ===== *)
theory Vm_Spaces
  imports Vm_Maps
begin

unbundle bit_operations_syntax

text \<open>
  What the operations of \<open>vm.c\<close> do to address spaces: shrinking, growing and freeing.
\<close>

section \<open>Shrinking and growing\<close>

text \<open>The number of pages of \<open>n\<close> bytes.\<close>

definition npages :: "nat \<Rightarrow> nat" where
  "npages n = (n + (PGSIZE - 1)) div PGSIZE"

lemma PGROUNDUP_npages: "n \<le> KERNBASE \<Longrightarrow> PGROUNDUP n = npages n * PGSIZE"
  by (simp add: PGROUNDUP_def npages_def PGSIZE_def KERNBASE_def)

lemma npages_le: "n \<le> npages n * PGSIZE" "w < npages n \<longleftrightarrow> w * PGSIZE < n" "n \<le> n' \<Longrightarrow> npages n \<le> npages n'"
proof -
  have d: "(n + 4095) div 4096 * 4096 + (n + 4095) mod 4096 = n + 4095" by (rule div_mult_mod_eq)
  have "(n + 4095) mod 4096 < 4096" by simp
  then show "n \<le> npages n * PGSIZE" using d unfolding npages_def PGSIZE_def by simp
  show "w < npages n \<longleftrightarrow> w * PGSIZE < n" unfolding npages_def PGSIZE_def by linarith
  show "n \<le> n' \<Longrightarrow> npages n \<le> npages n'" by (simp add: npages_def div_le_mono)
qed

text \<open>All frames a directory owns, and those it owns or could take.\<close>

definition owned :: "vmem \<Rightarrow> nat \<Rightarrow> nat set" where
  "owned m d = {d} \<union> tables_from m d 0 \<union> {f. \<exists>v < UPAGES. page m d v = Some f}"

definition assets :: "vmem \<Rightarrow> nat \<Rightarrow> nat set" where
  "assets m d = set (vfree m) \<union> owned m d"

lemma owned_cong:
  assumes "\<And>i. i < 1024 \<Longrightarrow> ptab m' d i = ptab m d i" and "\<And>w. w < UPAGES \<Longrightarrow> page m' d w = page m d w"
  shows "owned m' d = owned m d"
  using assms by (auto simp: owned_def tables_from_def)

lemma assets_page:
  assumes "\<And>w. w < UPAGES \<Longrightarrow> page m' d w = (if w = k then Some f else page m d w)" and "k < UPAGES" "page m d k = None"
    and "pool m' d = pool m d"
  shows "assets m' d = insert f (assets m d)"
proof -
  have "{g. \<exists>v < UPAGES. page m' d v = Some g} = insert f {g. \<exists>v < UPAGES. page m d v = Some g}"
  proof (rule set_eqI)
    fix g
    have "(\<exists>v < UPAGES. page m' d v = Some g) \<longleftrightarrow> g = f \<or> (\<exists>v < UPAGES. page m d v = Some g)"
      using assms(1-3) by (metis option.inject option.distinct(1))
    then show "g \<in> {g. \<exists>v < UPAGES. page m' d v = Some g} \<longleftrightarrow> g \<in> insert f {g. \<exists>v < UPAGES. page m d v = Some g}" by simp
  qed
  then show ?thesis using assms(4) by (auto simp: owned_def pool_def assets_def)
qed

lemma assets_dealloc:
  assumes un: "unmapped D m m' d u oldsz" and st: "same_tabs D m m'" and d: "d \<in> D" and old: "oldsz \<le> KERNBASE"
    and vf: "set (vfree m') = set (vfree m) \<union> frames_from m d u oldsz"
  shows "assets m' d = assets m d"
proof -
  have pg: "page m' d w = (if u \<le> w \<and> w * PGSIZE < oldsz then None else page m d w)" if "w < UPAGES" for w
    using un d that by (simp add: unmapped_def page_vmap UPAGES_def VPAGES_def)
  have up: "w < UPAGES" if "w * PGSIZE < oldsz" for w using that old unfolding UPAGES_def KERNBASE_def PGSIZE_def by linarith
  have "tables_from m' d 0 = tables_from m d 0" using st d by (auto simp: same_tabs_def tables_from_def)
  moreover have "frames_from m d u oldsz \<union> {f. \<exists>v < UPAGES. page m' d v = Some f} = {f. \<exists>v < UPAGES. page m d v = Some f}"
  proof (rule set_eqI)
    fix g
    have "(\<exists>w \<ge> u. w * PGSIZE < oldsz \<and> page m d w = Some g) \<or> (\<exists>v < UPAGES. page m' d v = Some g) \<longleftrightarrow> (\<exists>v < UPAGES. page m d v = Some g)"
      using pg up by (metis option.distinct(1))
    then show "g \<in> frames_from m d u oldsz \<union> {f. \<exists>v < UPAGES. page m' d v = Some f} \<longleftrightarrow> g \<in> {f. \<exists>v < UPAGES. page m d v = Some f}"
      by (simp add: frames_from_def)
  qed
  ultimately show ?thesis using vf by (auto simp: assets_def owned_def)
qed

lemma ptab_same_maps: "same_maps D m m' \<Longrightarrow> d \<in> D \<Longrightarrow> i < 1024 \<Longrightarrow> ptab m' d i = ptab m d i"
  unfolding same_maps_def by (metis frame_of.simps(2) slot_of.simps(2))

lemma assets_kfree:
  assumes "vfree m' = f # vfree m" and "\<And>w. w < VPAGES \<Longrightarrow> vmap m' d w = vmap m d w" and "same_maps D m m'" and "d \<in> D"
  shows "assets m' d = insert f (assets m d)"
proof -
  have "owned m' d = owned m d"
    by (rule owned_cong) (use assms ptab_same_maps in \<open>simp_all add: page_vmap UPAGES_def VPAGES_def\<close>)
  then show ?thesis using assms(1) by (simp add: assets_def)
qed

text \<open>\<open>deallocuvm\<close> unmaps exactly the pages of the old size that the new size does not reach into, puts their
  frames on the free list, and leaves all other mappings, the other address spaces and the bytes of all pages that
  stay mapped as they were.\<close>

theorem deallocuvm_frees:
  assumes "vm_ok D H m" and "d \<in> D" and "newsz < oldsz" and "oldsz \<le> KERNBASE"
  shows "\<exists>m'. deallocuvm d oldsz newsz m = Ret (newsz, m') \<and> vm_ok D H m' \<and> stable_above D H m m' \<and>
    (\<forall>d' \<in> D. \<forall>w < VPAGES. vmap m' d' w = (if d' = d \<and> npages newsz \<le> w \<and> w * PGSIZE < oldsz then None else vmap m d' w)) \<and>
    set (vfree m') = set (vfree m) \<union> {f. \<exists>w \<ge> npages newsz. w * PGSIZE < oldsz \<and> page m d w = Some f}"
proof -
  have "newsz \<le> KERNBASE" using assms(3,4) by simp
  then show ?thesis
    using dealloc_loop_ok [OF assms(1,2,4), of "npages newsz"] assms(3)
    by (auto simp: deallocuvm_def PGROUNDUP_npages unmapped_def frames_from_def)
qed

lemma deallocuvm_ret:
  assumes "vm_ok D H m" and "d \<in> D" and "newsz < oldsz" and "oldsz \<le> KERNBASE"
  shows "\<exists>m'. deallocuvm d oldsz newsz m = Ret (newsz, m') \<and> vm_ok D H m' \<and> unmapped D m m' d (npages newsz) oldsz \<and>
    set (vfree m') = set (vfree m) \<union> frames_from m d (npages newsz) oldsz \<and> stable_above D H m m' \<and> same_tabs D m m'"
  using dealloc_loop_ok [OF assms(1,2,4), of "npages newsz"] assms(3,4)
  by (auto simp: deallocuvm_def PGROUNDUP_npages)

text \<open>\<open>grown D m0 m d u v\<close>: relative to \<open>m0\<close> the pages from \<open>u\<close> to \<open>v\<close> of \<open>d\<close> are new, on frames that were free, writable
  and accessible to the user, and zero.\<close>

definition grown :: "nat set \<Rightarrow> vmem \<Rightarrow> vmem \<Rightarrow> nat \<Rightarrow> nat \<Rightarrow> nat \<Rightarrow> bool" where
  "grown D m0 m d u v \<longleftrightarrow> (\<forall>d' \<in> D. \<forall>w < VPAGES.
     if d' = d \<and> u \<le> w \<and> w < v
     then \<exists>f. vmap m d w = Some (mk_pte f (PTE_W OR PTE_U)) \<and> f \<in> set (vfree m0) \<and> frames m f = replicate PGSIZE 0
     else vmap m d' w = vmap m0 d' w)"

lemma page_mk: "perm < 4096 \<Longrightarrow> vmap m d w = Some (mk_pte f perm) \<Longrightarrow> page m d w = Some f"
  by (simp add: page_vmap mk_pte)

lemma WU: "PTE_W OR PTE_U < 4096"
  by (simp add: PTE_W_def PTE_U_def)

lemma stableD: "stable D H m m' \<Longrightarrow> d \<in> D \<Longrightarrow> v < UPAGES \<Longrightarrow> page m d v = Some g \<Longrightarrow> frames m' g = frames m g"
  by (simp add: stable_def)

text \<open>A frame just taken from the free list and filled.\<close>

lemma fresh_bytes:
  assumes ok: "vm_ok D H m" and k: "kalloc_frame m = (Some f, m1)" and bs: "length bs = PGSIZE"
    and z: "z = m1\<lparr>frames := (frames m1)(f := bs)\<rparr>"
  shows "vm_ok D (insert f H) z" "f \<notin> H" "f \<in> set (vfree m)" "stable D H m z"
    "\<And>d w. d \<in> D \<Longrightarrow> w < VPAGES \<Longrightarrow> vmap z d w = vmap m d w" "set (vfree z) \<subseteq> set (vfree m)"
    "length (vfree m) = length (vfree z) + 1" "frames z f = bs"
    "\<And>d w. d \<in> D \<Longrightarrow> w < UPAGES \<Longrightarrow> page m d w \<noteq> Some f"
    "vfree m = f # vfree z" "\<And>d i. d \<in> D \<Longrightarrow> i < 1024 \<Longrightarrow> ptab z d i = ptab m d i"
proof -
  note ka = vm_ok_kalloc [OF ok k]
  note nt = not_table [OF ka(1) disjI1 [OF insertI1]]
  have fr: "frames z h = frames m1 h" if "h \<noteq> f" for h using that by (simp add: z)
  have v: "vfree z = vfree m1" "vend z = vend m1" by (simp_all add: z)
  have len: "length (frames z g) = PGSIZE" for g
    using vm_okD(1) [OF ka(1)] bs by (simp add: z)
  show "vm_ok D (insert f H) z"
    by (rule vm_ok_write [OF ka(1) same_maps_write [OF nt(1,2) fr] v len])
  show "f \<notin> H" "f \<in> set (vfree m)" using ka(2,7) by simp_all
  show "vmap z d w = vmap m d w" if "d \<in> D" "w < VPAGES" for d w
    using entry_write(2) [OF nt(1,2) fr that] same_frames(3) [OF ka(5)] by (simp add: vmap_def)
  show "set (vfree z) \<subseteq> set (vfree m)" "length (vfree m) = length (vfree z) + 1"
    "vfree m = f # vfree z" using ka(7) by (auto simp: v)
  show "ptab z d i = ptab m d i" if "d \<in> D" "i < 1024" for d i
    using entry_write(1) [OF nt(1,2) fr that] same_frames(2) [OF ka(5)] by simp
  show "frames z f = bs" by (simp add: z)
  show np: "page m d w \<noteq> Some f" if "d \<in> D" "w < UPAGES" for d w
    using ka(3) busyI [of D "User d w" m f] that by auto
  have "frames z g = frames m g" if "g \<in> H" for g using that ka(2,5) by (auto simp: z)
  moreover have "frames z g = frames m g" if "d \<in> D" "w < UPAGES" "page m d w = Some g" for d w g
    using np [OF that(1,2)] that(3) ka(5) by (auto simp: z)
  ultimately show "stable D H m z" using ka(6) by (simp add: stable_def v)
qed

lemma assets_fresh:
  assumes "vm_ok D H m" and "kalloc_frame m = (Some f, m1)" and "length bs = PGSIZE" and "z = m1\<lparr>frames := (frames m1)(f := bs)\<rparr>"
    and d: "d \<in> D"
  shows "assets m d = insert f (assets z d)"
proof -
  note fp = fresh_bytes [OF assms(1-4)]
  have "owned z d = owned m d"
    by (rule owned_cong) (use fp(5,11) d in \<open>simp_all add: page_vmap UPAGES_def VPAGES_def\<close>)
  then show ?thesis using fp(10) by (simp add: assets_def)
qed

lemmas fresh_page = fresh_bytes [OF _ _ length_replicate fill_def [of _ 0]]

text \<open>Undoing: after \<open>deallocuvm\<close> of what has grown the maps are as before.\<close>

lemma grown_undo:
  assumes ok: "vm_ok D H' m" and hh: "H \<subseteq> H'" and d: "d \<in> D" and sz: "oldsz \<le> u * PGSIZE" "u = npages oldsz" "v * PGSIZE < newsz" "u \<le> v" "newsz < KERNBASE"
    and gr: "grown D m0 m d u v" and free: "\<And>w. u \<le> w \<Longrightarrow> w * PGSIZE < newsz \<Longrightarrow> vmap m0 d w = None" and st: "stable D H m0 m"
  shows "\<exists>m'. deallocuvm d newsz oldsz m = Ret (oldsz, m') \<and> vm_ok D H' m' \<and> stable D H m0 m' \<and>
    (\<forall>d' \<in> D. \<forall>w < VPAGES. vmap m' d' w = vmap m0 d' w) \<and> assets m' d = assets m d"
proof -
  have "u * PGSIZE \<le> v * PGSIZE" using sz(4) by simp
  then have lt: "oldsz < newsz" using sz(1,3) by linarith
  from deallocuvm_ret [OF ok d lt] sz(5) obtain m' where m': "deallocuvm d newsz oldsz m = Ret (oldsz, m')" "vm_ok D H' m'"
    "unmapped D m m' d u newsz" "stable_above D H' m m'" "set (vfree m') = set (vfree m) \<union> frames_from m d u newsz"
    "same_tabs D m m'" using sz(2) by auto
  have "assets m' d = assets m d" by (rule assets_dealloc [OF m'(3,6) d _ m'(5)]) (use sz(5) in simp)
  have maps: "vmap m' d' w = vmap m0 d' w" if dw: "d' \<in> D" "w < VPAGES" for d' w
  proof -
    have u: "vmap m' d' w = (if d' = d \<and> u \<le> w \<and> w * PGSIZE < newsz then None else vmap m d' w)"
      using m'(3) dw by (simp add: unmapped_def)
    show ?thesis
    proof (cases "d' = d \<and> u \<le> w \<and> w * PGSIZE < newsz")
      case True
      then show ?thesis using u free by simp
    next
      case False
      have "\<not> (d' = d \<and> u \<le> w \<and> w < v)"
      proof
        assume a: "d' = d \<and> u \<le> w \<and> w < v"
        then have "w * PGSIZE \<le> v * PGSIZE" by simp
        then show False using False a sz(3) by linarith
      qed
      then show ?thesis using u False gr dw by (auto simp: grown_def)
    qed
  qed
  have "frames m' g = frames m0 g" if "d' \<in> D" "w < UPAGES" "page m0 d' w = Some g" for d' w g
  proof -
    have "page m' d' w = Some g" using maps [OF that(1), of w] that by (simp add: page_vmap UPAGES_def VPAGES_def)
    then have "frames m' g = frames m g" using m'(4) that(1,2) by (simp add: stable_above_def)
    then show ?thesis using st that by (simp add: stable_def)
  qed
  then have "stable D H m0 m'" using m'(4) st hh by (auto simp: stable_def stable_above_def)
  then show ?thesis using m'(1,2) maps \<open>assets m' d = assets m d\<close> by blast
qed

text \<open>One page more.\<close>

lemma grown_Suc:
  assumes gr: "grown D m0 m d u v" and uv: "u \<le> v" "v < UPAGES" and d: "d \<in> D"
    and f: "f \<in> set (vfree m0)" "frames m2 f = replicate PGSIZE 0"
    and maps: "\<And>d' w. d' \<in> D \<Longrightarrow> w < VPAGES \<Longrightarrow>
      vmap m2 d' w = (if d' = d \<and> w = v then Some (mk_pte f (PTE_W OR PTE_U)) else vmap m d' w)"
    and st: "stable D H m m2"
  shows "grown D m0 m2 d u (Suc v)"
  unfolding grown_def
proof (intro ballI allI impI)
  fix d' w assume dw: "d' \<in> D" "w < VPAGES"
  have g: "if d' = d \<and> u \<le> w \<and> w < v
     then \<exists>f. vmap m d w = Some (mk_pte f (PTE_W OR PTE_U)) \<and> f \<in> set (vfree m0) \<and> frames m f = replicate PGSIZE 0
     else vmap m d' w = vmap m0 d' w" using gr dw by (simp add: grown_def)
  show "if d' = d \<and> u \<le> w \<and> w < Suc v
     then \<exists>f. vmap m2 d w = Some (mk_pte f (PTE_W OR PTE_U)) \<and> f \<in> set (vfree m0) \<and> frames m2 f = replicate PGSIZE 0
     else vmap m2 d' w = vmap m0 d' w"
  proof (cases "d' = d \<and> w = v")
    case True
    then show ?thesis using maps [OF dw] f uv by auto
  next
    case False
    then have m2: "vmap m2 d' w = vmap m d' w" using maps [OF dw] by auto
    show ?thesis
    proof (cases "d' = d \<and> u \<le> w \<and> w < v")
      case True
      then obtain h where h: "vmap m d w = Some (mk_pte h (PTE_W OR PTE_U))" "h \<in> set (vfree m0)" "frames m h = replicate PGSIZE 0"
        using g by auto
      have "frames m2 h = frames m h" by (rule stableD [OF st d _ page_mk [OF WU h(1)]]) (use True uv(2) in simp)
      then show ?thesis using h m2 True by auto
    next
      case n: False
      then have "\<not> (d' = d \<and> u \<le> w \<and> w < Suc v)" using False by auto
      moreover have "vmap m d' w = vmap m0 d' w" using g n by simp
      ultimately show ?thesis using m2 by auto
    qed
  qed
qed

lemma grown_same:
  assumes "grown D m0 m d u v" and "d \<in> D" "v < UPAGES" and "stable D H m z"
    and "\<And>d w. d \<in> D \<Longrightarrow> w < VPAGES \<Longrightarrow> vmap z d w = vmap m d w"
  shows "grown D m0 z d u v"
  unfolding grown_def
proof (intro ballI allI impI)
  fix d' w assume dw: "d' \<in> D" "w < VPAGES"
  then have g: "if d' = d \<and> u \<le> w \<and> w < v
     then \<exists>f. vmap m d w = Some (mk_pte f (PTE_W OR PTE_U)) \<and> f \<in> set (vfree m0) \<and> frames m f = replicate PGSIZE 0
     else vmap m d' w = vmap m0 d' w" using assms(1) by (simp add: grown_def)
  have "frames z h = frames m h" if "w < v" "vmap m d w = Some (mk_pte h (PTE_W OR PTE_U))" for h
    by (rule stableD [OF assms(4,2) _ page_mk [OF WU that(2)]]) (use assms(3) that(1) in simp)
  then show "if d' = d \<and> u \<le> w \<and> w < v
     then \<exists>f. vmap z d w = Some (mk_pte f (PTE_W OR PTE_U)) \<and> f \<in> set (vfree m0) \<and> frames z f = replicate PGSIZE 0
     else vmap z d' w = vmap m0 d' w" using g assms(5) dw by (auto split: if_splits)
qed

text \<open>What holds when the loop of \<open>allocuvm\<close>, started in \<open>m0\<close>, has come to page \<open>v\<close>.\<close>

definition growing :: "nat set \<Rightarrow> nat set \<Rightarrow> vmem \<Rightarrow> nat \<Rightarrow> nat \<Rightarrow> nat \<Rightarrow> nat \<Rightarrow> vmem \<Rightarrow> bool" where
  "growing D H m0 d oldsz newsz v m \<longleftrightarrow> vm_ok D H m \<and> grown D m0 m d (npages oldsz) v \<and> stable D H m0 m \<and>
     set (vfree m) \<subseteq> set (vfree m0) \<and> length (vfree m0) \<le> length (vfree m) + 2 * (v - npages oldsz) \<and>
     npages oldsz \<le> v \<and> v \<le> npages newsz \<and> assets m d = assets m0 d"

definition alloc_end :: "nat set \<Rightarrow> nat set \<Rightarrow> vmem \<Rightarrow> nat \<Rightarrow> nat \<Rightarrow> nat \<Rightarrow> nat \<Rightarrow> vmem \<Rightarrow> bool" where
  "alloc_end D H m0 d oldsz newsz r m \<longleftrightarrow> vm_ok D H m \<and> stable D H m0 m \<and> assets m d = assets m0 d \<and>
    (r = newsz \<and> grown D m0 m d (npages oldsz) (npages newsz) \<or>
     r = 0 \<and> (\<forall>d' \<in> D. \<forall>w < VPAGES. vmap m d' w = vmap m0 d' w) \<and>
       length (vfree m0) < 2 * (npages newsz - npages oldsz))"

text \<open>The first page of the range is not mapped before, so what is grown hides no page of \<open>m0\<close>.\<close>

lemma grown_page:
  assumes "grown D m0 m d (npages oldsz) v" and "\<And>w. npages oldsz \<le> w \<Longrightarrow> w * PGSIZE < newsz \<Longrightarrow> vmap m0 d w = None"
    and "v * PGSIZE < newsz" and "d' \<in> D" "w < UPAGES"
  shows "page m d' w = page m0 d' w \<or> page m0 d' w = None"
proof -
  have "vmap m0 d w = None" if "npages oldsz \<le> w" "w < v"
  proof (rule assms(2) [OF that(1)])
    have "w * PGSIZE \<le> v * PGSIZE" using that(2) by simp
    then show "w * PGSIZE < newsz" using assms(3) by linarith
  qed
  moreover have "vmap m d' w = vmap m0 d' w" if "\<not> (d' = d \<and> npages oldsz \<le> w \<and> w < v)"
    using assms(1,4,5) that by (simp add: grown_def UPAGES_def VPAGES_def)
  ultimately show ?thesis
    by (cases "d' = d \<and> npages oldsz \<le> w \<and> w < v") (simp_all add: page_vmap)
qed

lemma alloc_step:
  assumes d: "d \<in> D" and v: "v * PGSIZE < newsz" "newsz < KERNBASE"
    and free: "\<And>w. npages oldsz \<le> w \<Longrightarrow> w * PGSIZE < newsz \<Longrightarrow> vmap m0 d w = None"
    and g: "growing D H m0 d oldsz newsz v m" and k: "kalloc_frame m = (Some f, m1)"
  shows "\<exists>r m2. mappages d (v * PGSIZE) PGSIZE (f * PGSIZE) (PTE_W OR PTE_U) (fill f 0 m1) = Ret (r, m2) \<and>
    (r = 0 \<and> growing D H m0 d oldsz newsz (Suc v) m2 \<or>
     r = -1 \<and> vfree m2 = [] \<and> vm_ok D (insert f H) m2 \<and> f \<notin> H \<and> stable D H m0 m2 \<and> grown D m0 m2 d (npages oldsz) v \<and>
       length (vfree m0) \<le> 1 + 2 * (v - npages oldsz) \<and> insert f (assets m2 d) = assets m0 d)"
proof -
  have vb: "v < UPAGES" "v < VPAGES" "v < npages newsz"
    using v npages_le(2) by (simp_all add: KERNBASE_def PGSIZE_def UPAGES_def VPAGES_def)
  have ok: "vm_ok D H m" and gr: "grown D m0 m d (npages oldsz) v" and st: "stable D H m0 m"
    and uv: "npages oldsz \<le> v" using g by (simp_all add: growing_def)
  note fp = fresh_page [OF ok k]
  let ?z = "fill f 0 m1"
  have hf: "insert f H - {f} = H" using fp(2) by blast
  have z: "vmap ?z d v = None" using fp(5) [OF d vb(2)] gr d vb(2) free [OF uv v(1)] by (auto simp: grown_def)
  have grz: "grown D m0 ?z d (npages oldsz) v" by (rule grown_same [OF gr d vb(1) fp(4,5)])
  have stz: "stable D H m0 ?z" by (rule stable_trans [OF st fp(4) grown_page [OF gr free v(1)]])
  from map_page [OF fp(1) d insertI1 vb(1) z WU] obtain r m2 where
    r: "mappages d (v * 4096) PGSIZE (f * PGSIZE) (PTE_W OR PTE_U) ?z = Ret (r, m2)" "stable D (insert f H) ?z m2"
      "set (vfree m2) \<subseteq> set (vfree ?z)" "length (vfree ?z) \<le> length (vfree m2) + 1"
      "r = 0 \<and> vm_ok D (insert f H - {f}) m2 \<and> (\<forall>d' \<in> D. \<forall>w < VPAGES. vmap m2 d' w =
         (if d' = d \<and> w = v then Some (mk_pte f (PTE_W OR PTE_U)) else vmap ?z d' w)) \<or> r = -1 \<and> m2 = ?z \<and> vfree ?z = []"
      "pool m2 d = pool ?z d" by blast
  have az: "insert f (assets ?z d) = assets m0 d"
    using assets_fresh [OF ok k length_replicate fill_def d, of 0] g by (simp add: growing_def)
  have mp: "mappages d (v * PGSIZE) PGSIZE (f * PGSIZE) (PTE_W OR PTE_U) ?z = Ret (r, m2)" using r(1) by (simp add: PGSIZE_def)
  show ?thesis
  proof (cases "r = 0")
    case False
    then have "r = -1" "m2 = ?z" "vfree ?z = []" using r(5) by auto
    then show ?thesis using mp fp(1,2,7) stz grz g az by (auto simp: growing_def)
  next
    case True
    then have m2: "vm_ok D H m2" "\<And>d' w. d' \<in> D \<Longrightarrow> w < VPAGES \<Longrightarrow> vmap m2 d' w =
         (if d' = d \<and> w = v then Some (mk_pte f (PTE_W OR PTE_U)) else vmap ?z d' w)" using r(5) hf by auto
    have st2: "stable D H ?z m2" using r(2) by (auto simp: stable_def)
    have "frames m2 f = replicate PGSIZE 0" using r(2) fp(8) by (simp add: stable_def)
    moreover have "f \<in> set (vfree m0)" using g fp(3) by (auto simp: growing_def)
    ultimately have "grown D m0 m2 d (npages oldsz) (Suc v)" using grown_Suc [OF grz uv vb(1) d _ _ m2(2) st2] by blast
    moreover have "stable D H m0 m2" by (rule stable_trans [OF stz st2 grown_page [OF grz free v(1)]])
    moreover have "assets m2 d = insert f (assets ?z d)"
      by (rule assets_page [OF _ vb(1) _ r(6)])
        (use m2(2) [OF d] z in \<open>simp_all add: page_vmap mk_pte(3) WU UPAGES_def VPAGES_def\<close>)
    ultimately show ?thesis using mp True m2(1) r(3,4) fp(6,7) g vb(3) az by (auto simp: growing_def)
  qed
qed

lemma alloc_loop_ok:
  assumes d: "d \<in> D" and sz: "newsz < KERNBASE"
    and free: "\<And>w. npages oldsz \<le> w \<Longrightarrow> w * PGSIZE < newsz \<Longrightarrow> vmap m0 d w = None"
    and g: "growing D H m0 d oldsz newsz v m"
  shows "\<exists>r m'. alloc_loop d (v * PGSIZE) newsz oldsz m = Ret (r, m') \<and> alloc_end D H m0 d oldsz newsz r m'"
  using g
proof (induction "newsz - v * PGSIZE" arbitrary: v m rule: less_induct)
  case less
  note g = less.prems and unf = alloc_loop.simps [of d "v * PGSIZE"]
  have ok: "vm_ok D H m" and gr: "grown D m0 m d (npages oldsz) v" and st: "stable D H m0 m"
    and uv: "npages oldsz \<le> v" using g by (simp_all add: growing_def)
  show ?case
  proof (cases "v * PGSIZE < newsz")
    case False
    then have "v = npages newsz" using npages_le(2) [of v newsz] g by (simp add: growing_def)
    moreover have "alloc_loop d (v * PGSIZE) newsz oldsz m = Ret (newsz, m)" using False by (simp add: unf)
    ultimately show ?thesis using g by (simp add: growing_def alloc_end_def)
  next
    case True
    have vn: "v < npages newsz" using True npages_le(2) by blast
    have undo: "\<exists>m'. deallocuvm d newsz oldsz k = Ret (oldsz, m') \<and> vm_ok D H' m' \<and> stable D H m0 m' \<and>
        (\<forall>d' \<in> D. \<forall>w < VPAGES. vmap m' d' w = vmap m0 d' w) \<and> assets m' d = assets k d"
      if "vm_ok D H' k" "H \<subseteq> H'" "grown D m0 k d (npages oldsz) v" "stable D H m0 k" for H' k
      by (rule grown_undo [OF that(1,2) d npages_le(1) refl True uv sz that(3) free that(4)])
    obtain k m1 where k: "kalloc_frame m = (k, m1)" by (cases "kalloc_frame m") simp
    show ?thesis
    proof (cases k)
      case None
      then have "m1 = m" "vfree m = []" using k by (auto simp: kalloc_frame_def split: list.splits)
      then show ?thesis
        using undo [OF ok subset_refl gr st] True k None g vn by (auto simp: unf alloc_end_def growing_def)
    next
      case (Some f)
      from alloc_step [OF d True sz free g k [unfolded Some]] obtain r m2 where
        mp: "mappages d (v * PGSIZE) PGSIZE (f * PGSIZE) (PTE_W OR PTE_U) (fill f 0 m1) = Ret (r, m2)" and
        r: "r = 0 \<and> growing D H m0 d oldsz newsz (Suc v) m2 \<or>
          r = -1 \<and> vfree m2 = [] \<and> vm_ok D (insert f H) m2 \<and> f \<notin> H \<and> stable D H m0 m2 \<and> grown D m0 m2 d (npages oldsz) v \<and>
          length (vfree m0) \<le> 1 + 2 * (v - npages oldsz) \<and> insert f (assets m2 d) = assets m0 d" by blast
      show ?thesis
      proof (cases "r = 0")
        case r0: True
        have "newsz - Suc v * PGSIZE < newsz - v * PGSIZE" using True by (simp add: PGSIZE_def)
        moreover have "alloc_loop d (v * PGSIZE) newsz oldsz m = alloc_loop d (Suc v * PGSIZE) newsz oldsz m2"
          using True k Some mp r0 by (simp add: unf add.commute)
        ultimately show ?thesis using less.hyps [of "Suc v" m2] r r0 by simp
      next
        case False
        then have f: "vm_ok D (insert f H) m2" "f \<notin> H" "stable D H m0 m2" "grown D m0 m2 d (npages oldsz) v"
          "length (vfree m0) \<le> 1 + 2 * (v - npages oldsz)" "r = -1" "insert f (assets m2 d) = assets m0 d" using r by auto
        from undo [OF f(1) subset_insertI f(4,3)] obtain m3 where m3: "deallocuvm d newsz oldsz m2 = Ret (oldsz, m3)"
          "vm_ok D (insert f H) m3" "stable D H m0 m3" "\<And>d' w. d' \<in> D \<Longrightarrow> w < VPAGES \<Longrightarrow> vmap m3 d' w = vmap m0 d' w"
          "assets m3 d = assets m2 d" by blast
        have "insert f H - {f} = H" using f(2) by blast
        with vm_ok_kfree [OF m3(2) insertI1] obtain m4 where m4: "kfree_frame f m3 = Ret m4" "vm_ok D H m4" "stable D H m3 m4"
          "\<And>d' w. d' \<in> D \<Longrightarrow> w < VPAGES \<Longrightarrow> vmap m4 d' w = vmap m3 d' w" "vfree m4 = f # vfree m3" "same_maps D m3 m4" by auto
        have "assets m4 d = assets m0 d" using assets_kfree [OF m4(5,4,6) d] d m3(5) f(7) by simp
        have "stable D H m0 m4"
          by (rule stable_trans [OF m3(3) m4(3)]) (use m3(4) in \<open>simp add: page_vmap UPAGES_def VPAGES_def\<close>)
        moreover have "alloc_loop d (v * PGSIZE) newsz oldsz m = Ret (0, m4)"
          using True k Some mp f(6) m3(1) m4(1) by (simp add: unf)
        ultimately show ?thesis using m4(2,4) m3(4) f(5) uv vn \<open>assets m4 d = assets m0 d\<close> by (auto simp: alloc_end_def)
      qed
    qed
  qed
qed

lemma allocuvm_ok:
  assumes ok: "vm_ok D H m" and d: "d \<in> D" and sz: "oldsz \<le> newsz" "newsz < KERNBASE"
    and free: "\<And>w. npages oldsz \<le> w \<Longrightarrow> w * PGSIZE < newsz \<Longrightarrow> vmap m d w = None"
  shows "\<exists>r m'. allocuvm d oldsz newsz m = Ret (r, m') \<and> alloc_end D H m d oldsz newsz r m'"
proof -
  have "growing D H m d oldsz newsz (npages oldsz) m"
    using ok npages_le(3) [OF sz(1)] by (simp add: growing_def grown_def stable_refl)
  from alloc_loop_ok [OF d sz(2) free this] show ?thesis
    using sz by (auto simp: allocuvm_def PGROUNDUP_npages)
qed

text \<open>C17: \<open>allocuvm\<close> returns for every size below \<open>KERNBASE\<close>: either the new size, and then the new pages, and only they, are
  mapped, writable by the user, on zeroed frames that were free; or 0, and then all address spaces map what they
  mapped before, which happens only when there are fewer than two free frames for each new page.\<close>

theorem allocuvm_grows:
  assumes ok: "vm_ok D H m" and d: "d \<in> D" and sz: "oldsz \<le> newsz" "newsz < KERNBASE"
    and free: "\<forall>w \<ge> npages oldsz. w * PGSIZE < newsz \<longrightarrow> vmap m d w = None"
  shows "\<exists>r m'. allocuvm d oldsz newsz m = Ret (r, m') \<and> vm_ok D H m' \<and> stable D H m m' \<and>
    (r = newsz \<and> grown D m m' d (npages oldsz) (npages newsz) \<or>
     r = 0 \<and> (\<forall>d' \<in> D. \<forall>w < VPAGES. vmap m' d' w = vmap m d' w) \<and>
       length (vfree m) < 2 * (npages newsz - npages oldsz))"
  using allocuvm_ok [OF ok d sz] free by (auto simp: alloc_end_def)

section \<open>Freeing an address space\<close>

text \<open>Without user pages the directory and its tables can be taken in hand.\<close>

lemma vm_ok_drop:
  assumes ok: "vm_ok D H m" and d: "d \<in> D" and none: "\<And>v. v < UPAGES \<Longrightarrow> page m d v = None"
  shows "vm_ok (D - {d}) (H \<union> insert d (tables_from m d 0)) m"
proof -
  have slot: "slot_of D x" if "slot_of (D - {d}) x" for x using that by (cases x) auto
  have b: "busy D m f" if "busy (D - {d}) m f" for f using that slot unfolding busy_def by blast
  have own: "busy D m f" "\<not> busy (D - {d}) m f" if "f = d \<or> f \<in> tables_from m d 0" for f
  proof -
    have "\<exists>x. (x = Dir d \<or> (\<exists>i < 1024. x = Tab d i)) \<and> frame_of m x = Some f"
      using \<open>f = d \<or> f \<in> tables_from m d 0\<close>
    proof
      assume "f = d"
      then show ?thesis by (intro exI [of _ "Dir d"]) simp
    next
      assume "f \<in> tables_from m d 0"
      then obtain i where "i < 1024" "ptab m d i = Some f" by (auto simp: tables_from_def)
      then show ?thesis by (intro exI [of _ "Tab d i"]) simp
    qed
    then obtain x where x: "x = Dir d \<or> (\<exists>i < 1024. x = Tab d i)" "frame_of m x = Some f" by blast
    then have sx: "slot_of D x" using d by auto
    show "busy D m f" by (rule busyI [OF sx x(2)])
    show "\<not> busy (D - {d}) m f"
    proof
      assume "busy (D - {d}) m f"
      then obtain y where y: "slot_of (D - {d}) y" "frame_of m y = Some f" unfolding busy_def by blast
      have "y = x" using vm_okD(9) [OF ok slot [OF y(1)] sx y(2) x(2)] .
      then show False using y(1) x(1) by auto
    qed
  qed
  have ok': "\<forall>h. h \<in> set (vfree m) \<or> h \<in> H \<or> busy D m h \<longrightarrow> good_frame m h"
    "\<forall>h. busy D m h \<longrightarrow> h \<notin> set (vfree m) \<and> h \<notin> H" "set (vfree m) \<inter> H = {}" "distinct (vfree m)"
    "\<forall>f. length (frames m f) = PGSIZE"
    "\<forall>x y f. slot_of D x \<and> slot_of D y \<and> frame_of m x = Some f \<and> frame_of m y = Some f \<longrightarrow> x = y"
    using ok by (simp_all add: vm_ok_def)
  show ?thesis
    unfolding vm_ok_def
  proof (intro conjI)
    show "\<forall>f. f \<in> set (vfree m) \<or> f \<in> H \<union> insert d (tables_from m d 0) \<or> busy (D - {d}) m f \<longrightarrow> good_frame m f"
      using ok'(1) b own(1) by blast
    show "\<forall>f. busy (D - {d}) m f \<longrightarrow> f \<notin> set (vfree m) \<and> f \<notin> H \<union> insert d (tables_from m d 0)"
      using ok'(2) b own(2) by blast
    show "set (vfree m) \<inter> (H \<union> insert d (tables_from m d 0)) = {}" using ok'(2,3) own(1) by blast
    show "\<forall>x y f. slot_of (D - {d}) x \<and> slot_of (D - {d}) y \<and> frame_of m x = Some f \<and> frame_of m y = Some f \<longrightarrow> x = y"
      using ok'(6) slot by blast
  qed (use ok' in simp_all)
qed

lemma free_tables:
  assumes ok: "vm_ok E (H \<union> insert d (tables_from m d 0)) m" and h: "H \<inter> insert d (tables_from m d 0) = {}"
    and inj: "\<And>i j t. i < 1024 \<Longrightarrow> j < 1024 \<Longrightarrow> ptab m d i = Some t \<Longrightarrow> ptab m d j = Some t \<Longrightarrow> i = j"
    and nd: "d \<notin> tables_from m d 0" and n: "n \<le> 1024"
  shows "\<exists>m'. kfor [0..<n] (free_table d) m = Ret m' \<and> vm_ok E (H \<union> insert d (tables_from m d n)) m' \<and> frames m' d = frames m d \<and>
    set (vfree m') = set (vfree m) \<union> (tables_from m d 0 - tables_from m d n) \<and> stable E H m m' \<and>
    (\<forall>d' \<in> E. \<forall>w < VPAGES. vmap m' d' w = vmap m d' w)"
  using n
proof (induction n)
  case 0
  then show ?case using ok by (simp add: stable_refl)
next
  case (Suc n)
  then obtain m1 where m1: "kfor [0..<n] (free_table d) m = Ret m1" "vm_ok E (H \<union> insert d (tables_from m d n)) m1"
    "frames m1 d = frames m d" "set (vfree m1) = set (vfree m) \<union> (tables_from m d 0 - tables_from m d n)" "stable E H m m1"
    "\<And>d' w. d' \<in> E \<Longrightarrow> w < VPAGES \<Longrightarrow> vmap m1 d' w = vmap m d' w" by auto
  have n: "n < 1024" using Suc.prems by simp
  have pt: "ptab m1 d n = ptab m d n" by (simp add: ptab_def get_pte_def m1(3))
  have split: "n \<le> i \<longleftrightarrow> i = n \<or> Suc n \<le> i" for i by auto
  show ?case
  proof (cases "ptab m d n")
    case None
    then have "tables_from m d n = tables_from m d (Suc n)" by (auto simp: tables_from_def split)
    moreover have "free_table d n m1 = Ret m1" using None pt by (simp add: free_table_def ptab_def Let_def split: if_splits)
    ultimately show ?thesis using m1 by (simp add: kfor_append)
  next
    case (Some t)
    have tb: "t \<in> tables_from m d n" using Some n by (auto simp: tables_from_def)
    then have t0: "t \<in> tables_from m d 0" by (auto simp: tables_from_def)
    have T: "tables_from m d n = insert t (tables_from m d (Suc n))"
      using Some n by (auto simp: tables_from_def split)
    have T': "t \<notin> tables_from m d (Suc n)"
    proof
      assume "t \<in> tables_from m d (Suc n)"
      then obtain i where "Suc n \<le> i" "i < 1024" "ptab m d i = Some t" by (auto simp: tables_from_def)
      then show False using inj [OF n _ Some] by auto
    qed
    have td: "t \<noteq> d" "t \<notin> H" using nd h t0 by auto
    have "free_table d n m1 = kfree_frame t m1"
      using Some pt by (auto simp: free_table_def ptab_def Let_def split: if_splits)
    moreover have "t \<in> H \<union> insert d (tables_from m d n)" using tb by simp
    from vm_ok_kfree [OF m1(2) this] obtain m2 where m2: "kfree_frame t m1 = Ret m2"
      "vm_ok E (H \<union> insert d (tables_from m d n) - {t}) m2" "vfree m2 = t # vfree m1"
      "stable E (H \<union> insert d (tables_from m d n) - {t}) m1 m2" "\<And>d w. d \<in> E \<Longrightarrow> w < VPAGES \<Longrightarrow> vmap m2 d w = vmap m1 d w"
      "\<And>g. g \<noteq> t \<Longrightarrow> frames m2 g = frames m1 g" by blast
    have H: "H \<union> insert d (tables_from m d n) - {t} = H \<union> insert d (tables_from m d (Suc n))" using T T' td by auto
    moreover have "stable E H m m2"
    proof (rule stable_trans [OF m1(5)])
      show "stable E H m1 m2" using m2(4) td(2) by (auto simp: stable_def)
    qed (use m1(6) in \<open>simp add: page_vmap UPAGES_def VPAGES_def\<close>)
    moreover have "set (vfree m2) = set (vfree m) \<union> (tables_from m d 0 - tables_from m d (Suc n))"
      using m2(3) m1(4) T T' t0 by auto
    ultimately show ?thesis using m1 m2 td(1) by (simp add: kfor_append)
  qed
qed

lemma freevm_ok:
  assumes ok: "vm_ok D H m" and d: "d \<in> D"
  shows "\<exists>m'. freevm (Some d) m = Ret m' \<and> vm_ok (D - {d}) H m' \<and> set (vfree m') = set (vfree m) \<union> owned m d \<and>
    stable (D - {d}) H m m' \<and> (\<forall>d' \<in> D - {d}. \<forall>w < VPAGES. vmap m' d' w = vmap m d' w)"
proof -
  have k: "(0 :: nat) < KERNBASE" by (simp add: KERNBASE_def)
  have n0: "npages 0 = 0" by (simp add: npages_def PGSIZE_def)
  have up: "w < UPAGES \<longleftrightarrow> w * PGSIZE < KERNBASE" for w unfolding UPAGES_def KERNBASE_def PGSIZE_def by linarith
  from deallocuvm_ret [OF ok d k order_refl] obtain m1 where m1: "deallocuvm d KERNBASE 0 m = Ret (0, m1)" "vm_ok D H m1"
    "unmapped D m m1 d 0 KERNBASE" "set (vfree m1) = set (vfree m) \<union> frames_from m d 0 KERNBASE" "stable_above D H m m1"
    "same_tabs D m m1" unfolding n0 by blast
  have none: "page m1 d v = None" if "v < UPAGES" for v
    using m1(3) d that up [of v] by (simp add: unmapped_def page_vmap UPAGES_def VPAGES_def)
  let ?T = "tables_from m1 d 0"
  note inj = vm_okD(9) [OF m1(2)]
  have tin: "i = j" if "i < 1024" "j < 1024" "ptab m1 d i = Some t" "ptab m1 d j = Some t" for i j t
    using inj [of "Tab d i" "Tab d j" t] that d by simp
  have nd: "d \<notin> ?T" using inj [of "Dir d" "Tab d i" d for i] d by (auto simp: tables_from_def)
  have h: "H \<inter> insert d ?T = {}"
  proof -
    have "busy D m1 x" if "x = d \<or> x \<in> ?T" for x
      using that busyI [of D "Dir d" m1 x] busyI [of D "Tab d i" m1 x for i] d by (auto simp: tables_from_def)
    then show ?thesis using vm_okD(7) [OF m1(2)] by blast
  qed
  have drop: "vm_ok (D - {d}) (H \<union> insert d ?T) m1" by (rule vm_ok_drop [OF m1(2) d]) (rule none)
  have "\<exists>m'. kfor [0..<1024] (free_table d) m1 = Ret m' \<and> vm_ok (D - {d}) (H \<union> insert d (tables_from m1 d 1024)) m' \<and>
    frames m' d = frames m1 d \<and> set (vfree m') = set (vfree m1) \<union> (?T - tables_from m1 d 1024) \<and> stable (D - {d}) H m1 m' \<and>
    (\<forall>d' \<in> D - {d}. \<forall>w < VPAGES. vmap m' d' w = vmap m1 d' w)"
    by (rule free_tables [OF drop h _ nd order_refl]) (rule tin)
  then obtain m2 where
    m2: "kfor [0..<1024] (free_table d) m1 = Ret m2" "vm_ok (D - {d}) (H \<union> insert d (tables_from m1 d 1024)) m2"
      "set (vfree m2) = set (vfree m1) \<union> (?T - tables_from m1 d 1024)" "stable (D - {d}) H m1 m2"
      "\<And>d' w. d' \<in> D - {d} \<Longrightarrow> w < VPAGES \<Longrightarrow> vmap m2 d' w = vmap m1 d' w" by blast
  have T0: "tables_from m1 d 1024 = {}" by (auto simp: tables_from_def)
  have "d \<in> H \<union> insert d (tables_from m1 d 1024)" by simp
  from vm_ok_kfree [OF m2(2) this] obtain m3 where m3: "kfree_frame d m2 = Ret m3"
    "vm_ok (D - {d}) (H \<union> insert d (tables_from m1 d 1024) - {d}) m3" "vfree m3 = d # vfree m2"
    "stable (D - {d}) (H \<union> insert d (tables_from m1 d 1024) - {d}) m2 m3"
    "\<And>d' w. d' \<in> D - {d} \<Longrightarrow> w < VPAGES \<Longrightarrow> vmap m3 d' w = vmap m2 d' w" by blast
  have dH: "H \<union> insert d (tables_from m1 d 1024) - {d} = H" using h T0 by auto
  have maps: "vmap m3 d' w = vmap m d' w" if "d' \<in> D - {d}" "w < VPAGES" for d' w
    using m3(5) [OF that] m2(5) [OF that] m1(3) that by (simp add: unmapped_def)
  have T: "?T = tables_from m d 0" using m1(6) d by (auto simp: same_tabs_def tables_from_def)
  have F: "frames_from m d 0 KERNBASE = {f. \<exists>v < UPAGES. page m d v = Some f}" by (auto simp: frames_from_def up)
  have pg: "page m2 d' w = page m d' w" "page m1 d' w = page m d' w" if "d' \<in> D - {d}" "w < UPAGES" for d' w
    using m2(5) [OF that(1), of w] m1(3) that by (simp_all add: unmapped_def page_vmap UPAGES_def VPAGES_def)
  have "stable (D - {d}) H m m1"
    using m1(5) pg(2) by (auto simp: stable_def stable_above_def)
  then have "stable (D - {d}) H m m2" by (rule stable_trans [OF _ m2(4)]) (use pg in simp)
  then have "stable (D - {d}) H m m3" using m3(4) unfolding dH by (rule stable_trans) (use pg in simp)
  moreover have "set (vfree m3) = set (vfree m) \<union> owned m d"
    using m3(3) m2(3) m1(4) by (auto simp: T0 T F owned_def)
  moreover have "freevm (Some d) m = Ret m3"
    using m1(1) m2(1) m3(1) by (simp add: freevm_def NPDENTRIES_def)
  ultimately show ?thesis using m3(2) maps unfolding dH by blast
qed

text \<open>C19: \<open>freevm\<close> gives every frame of an address space back exactly once, its pages, its page tables and its
  directory, and changes neither the other address spaces nor their bytes.\<close>

theorem freevm_returns_all:
  assumes "vm_ok D H m" and "d \<in> D"
  shows "\<exists>m'. freevm (Some d) m = Ret m' \<and> vm_ok (D - {d}) H m' \<and> distinct (vfree m') \<and>
    set (vfree m') = set (vfree m) \<union> owned m d \<and>
    stable (D - {d}) H m m' \<and> (\<forall>d' \<in> D - {d}. \<forall>w < VPAGES. vmap m' d' w = vmap m d' w)"
  using freevm_ok [OF assms] vm_okD(2) by blast

end
