(* ===== verification/Vm_Copy.thy ===== *)
theory Vm_Copy
  imports Vm_Spaces
begin

unbundle bit_operations_syntax

text \<open>
  New address spaces: the kernel part that \<open>setupkvm\<close> gives every page directory, and the copy that \<open>copyuvm\<close>
  makes for \<open>fork\<close>.
\<close>

section \<open>Mapping the kernel\<close>

lemma map_kpte:
  assumes ok: "vm_ok D H m" and d: "d \<in> D" and v: "UPAGES \<le> v" "v < VPAGES" and f: "f < VPAGES"
    and t: "ptab m d (v div 1024) = Some t" and perm: "perm < 4096" and m': "m' = set_pte (t, v mod 1024) (mk_pte f perm) m"
  shows "vm_ok D H m'" "stable D H m m'" "\<And>d' w. d' \<in> D \<Longrightarrow> w < VPAGES \<Longrightarrow>
    vmap m' d' w = (if d' = d \<and> w = v then Some (mk_pte f perm) else vmap m d' w)"
    "vfree m' = vfree m" "\<And>i. i < 1024 \<Longrightarrow> ptab m' d i = ptab m d i"
proof -
  have e: "mk_pte f perm < 4294967296" using mk_pte(5) [OF perm] f by (simp add: VPAGES_def)
  note se = set_entry [OF ok d v(2) t e m']
  show maps: "vmap m' d' w = (if d' = d \<and> w = v then Some (mk_pte f perm) else vmap m d' w)" if "d' \<in> D" "w < VPAGES" for d' w
    using se(2) [OF that] mk_pte(2) [OF perm] by (auto simp: vmap_def)
  show "stable D H m m'" "vfree m' = vfree m" "\<And>i. i < 1024 \<Longrightarrow> ptab m' d i = ptab m d i" using se(1) [OF d] se(3,4) by simp_all
  have "frame_of m' y = frame_of m y" if "slot_of D y" for y
    using that maps se(1) v by (cases y) (auto simp: page_vmap UPAGES_def VPAGES_def)
  then have "same_maps D m m'" by (simp add: same_maps_def)
  then show "vm_ok D H m'" using vm_ok_write [OF ok _ se(4) _ se(5)] se(3) by (simp add: stable_def)
qed

text \<open>What \<open>mappages\<close> does between \<open>m\<close> and \<open>m'\<close> to a range of kernel pages, also when it fails half-way.\<close>

definition kmapped :: "nat set \<Rightarrow> nat set \<Rightarrow> nat \<Rightarrow> vmem \<Rightarrow> vmem \<Rightarrow> bool" where
  "kmapped D H d m m' \<longleftrightarrow> vm_ok D H m' \<and> stable D H m m' \<and> length (vfree m') + tabs m' d = length (vfree m) + tabs m d \<and>
     pool m' d = pool m d \<and> (\<forall>d' \<in> D. \<forall>w < VPAGES. d' \<noteq> d \<or> w < UPAGES \<longrightarrow> vmap m' d' w = vmap m d' w)"

lemma kmapped_trans:
  assumes "kmapped D H d m m1" and "kmapped D H d m1 m2"
  shows "kmapped D H d m m2"
proof -
  have "page m1 d' v = page m d' v" if "d' \<in> D" "v < UPAGES" for d' v
    using assms(1) that by (simp add: kmapped_def page_vmap UPAGES_def VPAGES_def)
  then have "stable D H m m2"
    using assms stable_trans [of D H m m1 m2] by (simp add: kmapped_def)
  then show ?thesis using assms by (simp add: kmapped_def)
qed

lemma map_kpage:
  assumes ok: "vm_ok D H m" and d: "d \<in> D" and v: "UPAGES \<le> v" "v < VPAGES" and f: "f < VPAGES" and perm: "perm < 4096"
    and none: "vmap m d v = None"
  shows "(\<exists>p m1 m'. walkpgdir d (v * 4096) True m = (Some p, m1) \<and> \<not> pte_present (get_pte p m1) \<and>
      set_pte p (f * 4096 OR perm OR PTE_P) m1 = m' \<and> kmapped D H d m m' \<and>
      (\<forall>w < VPAGES. vmap m' d w = (if w = v then Some (mk_pte f perm) else vmap m d w))) \<or>
    walkpgdir d (v * 4096) True m = (None, m) \<and> vfree m = []"
proof -
  obtain r m1 where w: "walkpgdir d (v * 4096) True m = (r, m1)" by (cases "walkpgdir d (v * 4096) True m") simp
  note wa = walk_alloc [OF ok d v(2) w] and ws = walk_stable [OF ok d v(2) w]
  show ?thesis
  proof (cases r)
    case None
    then show ?thesis using w wa(5) by simp
  next
    case (Some p)
    then obtain t where t: "p = (t, v mod 1024)" "ptab m1 d (v div 1024) = Some t" using wa(6) by blast
    have "vmap m1 d v = None" using ws(2) [OF d v(2)] none by simp
    then have np: "\<not> pte_present (get_pte p m1)" using t by (simp add: vmap_def entry_def split: if_splits)
    let ?m = "set_pte p (mk_pte f perm) m1"
    have m': "?m = set_pte (t, v mod 1024) (mk_pte f perm) m1" by (simp add: t)
    note kp = map_kpte [OF wa(1) d v f t(2) perm m']
    have "stable D H m ?m"
      by (rule stable_trans [OF ws(1) kp(2)]) (use ws(2) in \<open>simp add: page_vmap UPAGES_def VPAGES_def\<close>)
    moreover have "tabs ?m d = tabs m1 d" "pool ?m d = pool m1 d"
      by (rule tabs_cong, erule kp(5)) (rule pool_cong, erule kp(5), rule kp(4))
    ultimately have "kmapped D H d m ?m" using kp wa(10,11) ws(2) v by (simp add: kmapped_def)
    moreover have "\<forall>w < VPAGES. vmap ?m d w = (if w = v then Some (mk_pte f perm) else vmap m d w)"
      using kp(3) ws(2) d by simp
    moreover have "f * 4096 OR perm OR PTE_P = mk_pte f perm" using mk_pte(1) [OF perm, of f] by (simp add: PGSIZE_def)
    ultimately show ?thesis using w Some np by metis
  qed
qed

lemma map_loop_kernel:
  assumes "vm_ok D H m" and d: "d \<in> D" and "UPAGES \<le> v" "v + k < VPAGES" "f + k < VPAGES" and perm: "perm < 4096"
    and "\<And>w. v \<le> w \<Longrightarrow> w \<le> v + k \<Longrightarrow> vmap m d w = None"
  shows "\<exists>r m'. map_loop d perm k (v * 4096) (f * 4096) m = Ret (r, m') \<and> kmapped D H d m m' \<and>
    (r = 0 \<and> (\<forall>w < VPAGES. vmap m' d w = (if v \<le> w \<and> w \<le> v + k then Some (mk_pte (f + (w - v)) perm) else vmap m d w)) \<or>
     r = -1 \<and> vfree m' = [])"
  using assms(1,3-5,7)
proof (induction k arbitrary: v f m)
  case (0 v f m)
  have "v < VPAGES" "f < VPAGES" "vmap m d v = None" using 0 by simp_all
  note mk = map_kpage [OF 0(1) d 0(2) this(1,2) perm this(3)] and unf = map_loop.simps [of d perm 0 "v * 4096"]
  show ?case using mk
  proof
    assume "walkpgdir d (v * 4096) True m = (None, m) \<and> vfree m = []"
    then show ?thesis using 0(1) by (simp add: unf kmapped_def stable_refl)
  next
    assume "\<exists>p m1 m'. walkpgdir d (v * 4096) True m = (Some p, m1) \<and> \<not> pte_present (get_pte p m1) \<and>
      set_pte p (f * 4096 OR perm OR PTE_P) m1 = m' \<and> kmapped D H d m m' \<and>
      (\<forall>w < VPAGES. vmap m' d w = (if w = v then Some (mk_pte f perm) else vmap m d w))"
    then show ?thesis by (auto simp: unf)
  qed
next
  case (Suc k v f m)
  have b: "v < VPAGES" "f < VPAGES" "vmap m d v = None" "UPAGES \<le> Suc v" "Suc v + k < VPAGES" "Suc f + k < VPAGES"
    using Suc.prems by simp_all
  note mk = map_kpage [OF Suc.prems(1) d Suc.prems(2) b(1,2) perm b(3)] and unf = map_loop.simps [of d perm "Suc k" "v * 4096"]
  show ?case using mk
  proof
    assume "walkpgdir d (v * 4096) True m = (None, m) \<and> vfree m = []"
    then show ?thesis using Suc.prems(1) by (simp add: unf kmapped_def stable_refl)
  next
    assume "\<exists>p m1 m'. walkpgdir d (v * 4096) True m = (Some p, m1) \<and> \<not> pte_present (get_pte p m1) \<and>
      set_pte p (f * 4096 OR perm OR PTE_P) m1 = m' \<and> kmapped D H d m m' \<and>
      (\<forall>w < VPAGES. vmap m' d w = (if w = v then Some (mk_pte f perm) else vmap m d w))"
    then obtain p m1 m2 where m2: "walkpgdir d (v * 4096) True m = (Some p, m1)" "\<not> pte_present (get_pte p m1)"
      "set_pte p (f * 4096 OR perm OR PTE_P) m1 = m2" "kmapped D H d m m2"
      "\<And>w. w < VPAGES \<Longrightarrow> vmap m2 d w = (if w = v then Some (mk_pte f perm) else vmap m d w)" by blast
    have ok2: "vm_ok D H m2" using m2(4) by (simp add: kmapped_def)
    have none: "vmap m2 d w = None" if "Suc v \<le> w" "w \<le> Suc v + k" for w
      using Suc.prems(5) [of w] m2(5) [of w] that b(5) by simp
    from Suc.IH [OF ok2 b(4-6) none] obtain r m' where m': "map_loop d perm k (Suc v * 4096) (Suc f * 4096) m2 = Ret (r, m')"
      "kmapped D H d m2 m'" "r = 0 \<and> (\<forall>w < VPAGES. vmap m' d w = (if Suc v \<le> w \<and> w \<le> Suc v + k
         then Some (mk_pte (Suc f + (w - Suc v)) perm) else vmap m2 d w)) \<or> r = -1 \<and> vfree m' = []" by blast
    have nx: "u32 (v * 4096 + PGSIZE) = Suc v * 4096" "u32 (f * 4096 + PGSIZE) = Suc f * 4096"
      using b(5,6) by (simp_all add: u32_def PGSIZE_def VPAGES_def)
    have "map_loop d perm (Suc k) (v * 4096) (f * 4096) m = Ret (r, m')"
      using m2(1-3) m'(1) by (simp add: unf nx)
    moreover have split: "v \<le> w \<longleftrightarrow> w = v \<or> Suc v \<le> w" for w by auto
    have "r = 0 \<Longrightarrow> w < VPAGES \<Longrightarrow> vmap m' d w = (if v \<le> w \<and> w \<le> v + Suc k then Some (mk_pte (f + (w - v)) perm) else vmap m d w)" for w
    proof -
      assume r: "r = 0" and w: "w < VPAGES"
      have "f + (w - v) = Suc f + (w - Suc v)" if "Suc v \<le> w" using that by simp
      then show ?thesis using m'(3) m2(5) [OF w] r w by (auto simp: split)
    qed
    ultimately show ?thesis using kmapped_trans [OF m2(4) m'(2)] m'(3) by blast
  qed
qed

text \<open>The entry a table like \<open>kmap\<close> gives to a page, and what the table must satisfy.\<close>

fun kernel_map :: "(nat \<times> nat \<times> nat \<times> nat) list \<Rightarrow> nat \<Rightarrow> nat option" where
  "kernel_map [] w = None"
| "kernel_map ((virt, pstart, pend, perm) # ks) w =
     (let v = virt div PGSIZE; n = u32 (pend + 4294967296 - pstart) div PGSIZE
      in if v \<le> w \<and> w < v + n then Some (mk_pte (pstart div PGSIZE + (w - v)) perm) else kernel_map ks w)"

fun regions_ok :: "(nat \<times> nat \<times> nat \<times> nat) list \<Rightarrow> bool" where
  "regions_ok [] \<longleftrightarrow> True"
| "regions_ok ((virt, pstart, pend, perm) # ks) \<longleftrightarrow>
     (\<exists>v f k. virt = v * 4096 \<and> pstart = f * 4096 \<and> u32 (pend + 4294967296 - pstart) = (k + 1) * 4096 \<and> UPAGES \<le> v \<and>
        v + k < VPAGES \<and> f + k < VPAGES \<and> perm < 4096 \<and> (\<forall>w. v \<le> w \<and> w \<le> v + k \<longrightarrow> kernel_map ks w = None)) \<and>
     regions_ok ks"

lemma mappages_range:
  assumes "v + k < VPAGES"
  shows "mappages d (v * 4096) ((k + 1) * 4096) pa perm m = map_loop d perm k (v * 4096) pa m"
proof -
  have "v * 4096 + (k + 1) * 4096 + 4294967295 = (v * 4096 + k * 4096 + 4095) + 4294967296" by simp
  then have "u32 (v * 4096 + (k + 1) * 4096 + 4294967295) = (v * 4096 + k * 4096 + 4095) mod 4294967296"
    unfolding u32_def by (simp only: mod_add_self2)
  also have "\<dots> = v * 4096 + k * 4096 + 4095" using assms by (simp add: VPAGES_def)
  finally have 1: "u32 (v * 4096 + (k + 1) * 4096 + 4294967295) = v * 4096 + k * 4096 + 4095" .
  have 2: "(v * 4096 + k * 4096 + 4095) div 4096 = v + k" by simp
  have "(v + k) * 4096 + 4294967296 - v * 4096 = k * 4096 + 4294967296" by simp
  then have "u32 ((v + k) * 4096 + 4294967296 - v * 4096) = k * 4096"
    using assms by (simp add: u32_def VPAGES_def)
  then show ?thesis unfolding mappages_def PGROUNDDOWN_def PGSIZE_def 1 2 Let_def by simp
qed

lemma map_kernel_ok:
  assumes "regions_ok ks" and "vm_ok D H m" and d: "d \<in> D"
    and "\<And>w. w < VPAGES \<Longrightarrow> kernel_map ks w \<noteq> None \<Longrightarrow> vmap m d w = None"
  shows "\<exists>m1. kmapped D H d m m1 \<and>
    (map_kernel d ks m = Ret (Some d, m1) \<and>
       (\<forall>w < VPAGES. vmap m1 d w = (case kernel_map ks w of None \<Rightarrow> vmap m d w | Some e \<Rightarrow> Some e)) \<or>
     map_kernel d ks m = kbind (freevm (Some d) m1) (\<lambda>m. Ret (None, m)) \<and> vfree m1 = [])"
  using assms(1,2,4)
proof (induction ks arbitrary: m)
  case Nil
  then show ?case by (auto simp: kmapped_def stable_refl)
next
  case (Cons x ks)
  obtain virt pstart pend perm where x: "x = (virt, pstart, pend, perm)" by (cases x)
  obtain v f k where r: "virt = v * 4096" "pstart = f * 4096" "u32 (pend + 4294967296 - pstart) = (k + 1) * 4096" "UPAGES \<le> v"
      "v + k < VPAGES" "f + k < VPAGES" "perm < 4096" and dis: "\<And>w. v \<le> w \<Longrightarrow> w \<le> v + k \<Longrightarrow> kernel_map ks w = None"
      and ks: "regions_ok ks"
    using Cons.prems(1) unfolding x regions_ok.simps by blast
  have here: "kernel_map (x # ks) w = (if v \<le> w \<and> w \<le> v + k then Some (mk_pte (f + (w - v)) perm) else kernel_map ks w)" for w
    unfolding x kernel_map.simps r(3) unfolding r(1,2) by (auto simp: PGSIZE_def Let_def)
  have none: "vmap m d w = None" if "v \<le> w" "w \<le> v + k" for w
    by (rule Cons.prems(3)) (use that r(5) here in simp_all)
  from map_loop_kernel [OF Cons.prems(2) d r(4-7) none] obtain res m1 where
    m1: "map_loop d perm k (v * 4096) (f * 4096) m = Ret (res, m1)" "kmapped D H d m m1"
      "res = 0 \<and> (\<forall>w < VPAGES. vmap m1 d w = (if v \<le> w \<and> w \<le> v + k then Some (mk_pte (f + (w - v)) perm) else vmap m d w)) \<or>
       res = -1 \<and> vfree m1 = []" by blast
  have mp: "mappages d virt (u32 (pend + 4294967296 - pstart)) pstart perm m = Ret (res, m1)"
    unfolding r(3) unfolding r(1,2) mappages_range [OF r(5)] by (rule m1(1))
  show ?case
  proof (cases "res = 0")
    case False
    then have "map_kernel d (x # ks) m = kbind (freevm (Some d) m1) (\<lambda>m. Ret (None, m))" "vfree m1 = []"
      using m1(3) mp by (auto simp: x)
    then show ?thesis using m1(2) by blast
  next
    case True
    then have maps: "vmap m1 d w = (if v \<le> w \<and> w \<le> v + k then Some (mk_pte (f + (w - v)) perm) else vmap m d w)" if "w < VPAGES" for w
      using m1(3) that by simp
    have step: "map_kernel d (x # ks) m = map_kernel d ks m1" using mp True by (simp add: x)
    have ok1: "vm_ok D H m1" using m1(2) by (simp add: kmapped_def)
    have none1: "vmap m1 d w = None" if w: "w < VPAGES" "kernel_map ks w \<noteq> None" for w
    proof -
      have "\<not> (v \<le> w \<and> w \<le> v + k)" using dis [of w] w(2) by auto
      then have "vmap m1 d w = vmap m d w" "kernel_map (x # ks) w \<noteq> None" using maps [OF w(1)] here [of w] w(2) by auto
      then show ?thesis using Cons.prems(3) [OF w(1)] by simp
    qed
    from Cons.IH [OF ks ok1 none1] obtain m2 where m2: "kmapped D H d m1 m2" "map_kernel d ks m1 = Ret (Some d, m2) \<and>
       (\<forall>w < VPAGES. vmap m2 d w = (case kernel_map ks w of None \<Rightarrow> vmap m1 d w | Some e \<Rightarrow> Some e)) \<or>
     map_kernel d ks m1 = kbind (freevm (Some d) m2) (\<lambda>m. Ret (None, m)) \<and> vfree m2 = []" by blast
    have "(case kernel_map ks w of None \<Rightarrow> vmap m1 d w | Some e \<Rightarrow> Some e) =
        (case kernel_map (x # ks) w of None \<Rightarrow> vmap m d w | Some e \<Rightarrow> Some e)" if "w < VPAGES" for w
      using maps [OF that] here [of w] dis [of w] by (auto split: option.split)
    then show ?thesis unfolding step using m2 kmapped_trans [OF m1(2) m2(1)] by auto
  qed
qed

lemma regions_ok_Cons:
  assumes "virt = v * 4096" "pstart = f * 4096" "u32 (pend + 4294967296 - pstart) = (k + 1) * 4096" "UPAGES \<le> v"
    "v + k < VPAGES" "f + k < VPAGES" "perm < 4096" "\<And>w. w \<le> v + k \<Longrightarrow> kernel_map ks w = None" "regions_ok ks"
  shows "regions_ok ((virt, pstart, pend, perm) # ks)"
  unfolding regions_ok.simps using assms by blast

lemma u32_add: "n < 4294967296 \<Longrightarrow> u32 (n + 4294967296) = n"
  by (simp add: u32_def)

text \<open>The table of the code, for a kernel whose data starts at page \<open>q\<close> of physical memory.\<close>

lemma kmap_regions:
  assumes "256 < q" and "q < 57344"
  shows "regions_ok (kmap (KERNBASE + q * 4096))" "kernel_map (kmap (KERNBASE + q * 4096)) w \<noteq> None \<Longrightarrow> UPAGES \<le> w"
proof -
  have a: "V2P (KERNBASE + EXTMEM) = 256 * 4096" "V2P (KERNBASE + q * 4096) = q * 4096"
    using assms by (simp_all add: V2P_kernel KERNBASE_def EXTMEM_def)
  have n: "u32 (EXTMEM + 4294967296 - 0 * 4096) = (255 + 1) * 4096"
    "u32 (q * 4096 + 4294967296 - 256 * 4096) = (q - 257 + 1) * 4096"
    "u32 (PHYSTOP + 4294967296 - q * 4096) = (57343 - q + 1) * 4096"
    "u32 (0 + 4294967296 - DEVSPACE) = (8191 + 1) * 4096"
  proof -
    show "u32 (EXTMEM + 4294967296 - 0 * 4096) = (255 + 1) * 4096" "u32 (0 + 4294967296 - DEVSPACE) = (8191 + 1) * 4096"
      by (simp_all add: u32_def EXTMEM_def DEVSPACE_def)
    have "q * 4096 + 4294967296 - 256 * 4096 = (q - 257 + 1) * 4096 + 4294967296" using assms by simp
    then show "u32 (q * 4096 + 4294967296 - 256 * 4096) = (q - 257 + 1) * 4096" using assms by (simp only:) (rule u32_add, simp)
    have "PHYSTOP + 4294967296 - q * 4096 = (57343 - q + 1) * 4096 + 4294967296" using assms by (simp add: PHYSTOP_def)
    then show "u32 (PHYSTOP + 4294967296 - q * 4096) = (57343 - q + 1) * 4096" using assms by (simp only:) (rule u32_add, simp)
  qed
  have k: "kmap (KERNBASE + q * 4096) = [(524288 * 4096, 0 * 4096, EXTMEM, PTE_W), (524544 * 4096, 256 * 4096, q * 4096, 0),
      ((524288 + q) * 4096, q * 4096, PHYSTOP, PTE_W), (1040384 * 4096, DEVSPACE, 0, PTE_W)]"
    using a by (simp add: kmap_def) (simp add: KERNBASE_def EXTMEM_def DEVSPACE_def)
  have dv: "DEVSPACE = 1040384 * 4096" by (simp add: DEVSPACE_def)
  show "kernel_map (kmap (KERNBASE + q * 4096)) w \<noteq> None \<Longrightarrow> UPAGES \<le> w"
    unfolding k by (auto simp: UPAGES_def PGSIZE_def Let_def dv split: if_splits)
  have n4: "u32 (0 + 4294967296 - 1040384 * 4096) = (8191 + 1) * 4096" using n(4) by (simp add: dv)
  note b = UPAGES_def VPAGES_def PTE_W_def
  have r4: "regions_ok [(1040384 * 4096, 1040384 * 4096, 0, PTE_W)]"
    by (rule regions_ok_Cons [OF refl refl n4]) (simp_all add: b)
  have k4: "kernel_map [(1040384 * 4096, 1040384 * 4096, 0, PTE_W)] w = None" if "w < 1040384" for w
    using that by (simp add: PGSIZE_def Let_def)
  have r3: "regions_ok [((524288 + q) * 4096, q * 4096, PHYSTOP, PTE_W), (1040384 * 4096, 1040384 * 4096, 0, PTE_W)]"
    by (rule regions_ok_Cons [OF refl refl n(3) _ _ _ _ _ r4]) (use assms k4 in \<open>simp_all add: b\<close>)
  have k3: "kernel_map [((524288 + q) * 4096, q * 4096, PHYSTOP, PTE_W), (1040384 * 4096, 1040384 * 4096, 0, PTE_W)] w = None"
    if "w < 524288 + q" for w
    using that k4 [of w] assms by (simp only: kernel_map.simps Let_def) (simp add: PGSIZE_def)
  have r2: "regions_ok [(524544 * 4096, 256 * 4096, q * 4096, 0), ((524288 + q) * 4096, q * 4096, PHYSTOP, PTE_W),
      (1040384 * 4096, 1040384 * 4096, 0, PTE_W)]"
    by (rule regions_ok_Cons [OF refl refl n(2) _ _ _ _ _ r3]) (use assms k3 in \<open>simp_all add: b\<close>)
  have k2: "kernel_map [(524544 * 4096, 256 * 4096, q * 4096, 0), ((524288 + q) * 4096, q * 4096, PHYSTOP, PTE_W),
      (1040384 * 4096, 1040384 * 4096, 0, PTE_W)] w = None" if "w < 524544" for w
    using that k3 [of w] assms by (simp only: kernel_map.simps(2) [of "524544 * 4096"] Let_def) (simp add: PGSIZE_def)
  show "regions_ok (kmap (KERNBASE + q * 4096))"
    unfolding k dv
    by (rule regions_ok_Cons [OF refl refl n(1) _ _ _ _ _ r2]) (use assms k2 in \<open>simp_all add: b\<close>)
qed

section \<open>New directories\<close>

text \<open>A frame in hand that is all zero can become an empty page directory.\<close>

lemma new_dir:
  assumes ok: "vm_ok D (insert d H) m" and h: "d \<notin> H" and z: "frames m d = replicate PGSIZE 0"
  shows "vm_ok (insert d D) H m" "\<And>i. i < 1024 \<Longrightarrow> ptab m d i = None" "\<And>w. w < VPAGES \<Longrightarrow> vmap m d w = None" "d \<notin> D"
proof -
  show pt: "ptab m d i = None" if "i < 1024" for i
    using that by (simp add: ptab_def get_pte_def z pte_present_odd)
  then have en: "entry m d w = 0" if "w < VPAGES" for w
    using VPAGES_div [OF that] by (simp add: entry_def)
  then show "vmap m d w = None" if "w < VPAGES" for w using that by simp
  show dD: "d \<notin> D" using not_table(1) [OF ok] by blast
  have nb: "\<not> busy D m d" using vm_okD(7) [OF ok] by blast
  have slots: "x = Dir d \<or> slot_of D x" if "slot_of (insert d D) x" "frame_of m x = Some g" for x g
    using that pt en by (cases x) (auto simp: page_vmap UPAGES_def VPAGES_def)
  have b: "busy (insert d D) m g \<longleftrightarrow> g = d \<or> busy D m g" for g
  proof
    assume "busy (insert d D) m g"
    then obtain x where x: "slot_of (insert d D) x" "frame_of m x = Some g" by (auto simp: busy_def)
    from slots [OF this] show "g = d \<or> busy D m g" using x(2) by (auto simp: busy_def)
  next
    have "slot_of (insert d D) x" if "slot_of D x" for x using that by (cases x) auto
    moreover have "busy (insert d D) m d" by (rule busyI [of _ "Dir d"]) simp_all
    ultimately show "g = d \<or> busy D m g \<Longrightarrow> busy (insert d D) m g" by (auto simp: busy_def)
  qed
  have inj: "x = y" if "slot_of (insert d D) x" "slot_of (insert d D) y" "frame_of m x = Some g" "frame_of m y = Some g" for x y g
    using slots [OF that(1,3)] slots [OF that(2,4)] that(3,4) nb vm_okD(9) [OF ok, of x y g] by (auto simp: busy_def)
  have "\<forall>f. length (frames m f) = PGSIZE" "distinct (vfree m)" "set (vfree m) \<inter> insert d H = {}"
    "\<forall>h. h \<in> set (vfree m) \<or> h \<in> insert d H \<or> busy D m h \<longrightarrow> good_frame m h"
    "\<forall>h. busy D m h \<longrightarrow> h \<notin> set (vfree m) \<and> h \<notin> insert d H"
    using ok by (simp_all add: vm_ok_def)
  then show "vm_ok (insert d D) H m" using h inj unfolding vm_ok_def b by auto
qed

text \<open>A directory \<open>d\<close> besides those of \<open>D\<close> made from the free frames of \<open>m0\<close>, also with \<open>k\<close> pages of user memory.\<close>

definition space :: "nat set \<Rightarrow> nat set \<Rightarrow> vmem \<Rightarrow> nat \<Rightarrow> vmem \<Rightarrow> bool" where
  "space D H m0 d m \<longleftrightarrow> d \<notin> D \<and> vm_ok (insert d D) H m \<and> stable D H m0 m \<and>
     (\<forall>d' \<in> D. \<forall>w < VPAGES. vmap m d' w = vmap m0 d' w) \<and> assets m d = set (vfree m0)"

definition making :: "nat set \<Rightarrow> nat set \<Rightarrow> vmem \<Rightarrow> nat \<Rightarrow> nat \<Rightarrow> vmem \<Rightarrow> bool" where
  "making D H m0 d k m \<longleftrightarrow> space D H m0 d m \<and> length (vfree m) + tabs m d + k + 1 = length (vfree m0)"

lemma stable_mono: "stable D H m m' \<Longrightarrow> D' \<subseteq> D \<Longrightarrow> H' \<subseteq> H \<Longrightarrow> stable D' H' m m'"
  unfolding stable_def by blast

text \<open>What is left when it is given up: everything as before, and the free list has its frames back.\<close>

definition unmade :: "nat set \<Rightarrow> nat set \<Rightarrow> vmem \<Rightarrow> vmem \<Rightarrow> bool" where
  "unmade D H m0 m \<longleftrightarrow> vm_ok D H m \<and> stable D H m0 m \<and> (\<forall>d' \<in> D. \<forall>w < VPAGES. vmap m d' w = vmap m0 d' w) \<and>
     set (vfree m) = set (vfree m0)"

lemma making_space: "making D H m0 d k m \<Longrightarrow> space D H m0 d m"
  by (simp add: making_def)

lemma give_up:
  assumes "space D H m0 d m"
  shows "\<exists>m'. freevm (Some d) m = Ret m' \<and> unmade D H m0 m'"
proof -
  have ok: "vm_ok (insert d D) H m" and d: "d \<notin> D" "insert d D - {d} = D" using assms by (auto simp: space_def)
  from freevm_ok [OF ok insertI1, unfolded d(2)] obtain m' where m': "freevm (Some d) m = Ret m'" "vm_ok D H m'"
    "set (vfree m') = assets m d" "stable D H m m'" "\<forall>d' \<in> D. \<forall>w < VPAGES. vmap m' d' w = vmap m d' w" unfolding assets_def by blast
  have "stable D H m0 m'"
    using stable_trans [OF _ m'(4)] assms by (simp add: space_def page_vmap UPAGES_def VPAGES_def)
  then show ?thesis using m' assms by (simp add: space_def unmade_def)
qed

lemma setupkvm_ok:
  assumes ok: "vm_ok D H m" and q: "256 < q" "q < 57344"
  shows "\<exists>r m'. setupkvm (KERNBASE + q * 4096) m = Ret (r, m') \<and>
    (case r of None \<Rightarrow> unmade D H m m' \<and> length (vfree m) < 1026
     | Some d \<Rightarrow> making D H m d 0 m' \<and> (\<forall>w < VPAGES. vmap m' d w = kernel_map (kmap (KERNBASE + q * 4096)) w))"
proof (cases "kalloc_frame m")
  case (Pair x m1)
  let ?ks = "kmap (KERNBASE + q * 4096)"
  show ?thesis
  proof (cases x)
    case None
    then have "m1 = m" "vfree m = []" using Pair by (auto simp: kalloc_frame_def split: list.splits)
    then show ?thesis using Pair None ok by (simp add: setupkvm_def unmade_def stable_refl)
  next
    case (Some d)
    let ?z = "fill d 0 m1"
    note fp = fresh_page [OF ok Pair [unfolded Some]]
    note nd = new_dir [OF fp(1,2,8)]
    have eq: "setupkvm (KERNBASE + q * 4096) m = map_kernel d ?ks ?z"
      using Pair Some by (simp add: setupkvm_def PHYSTOP_def KERNBASE_def DEVSPACE_def u32_def)
    from map_kernel_ok [OF kmap_regions(1) [OF q] nd(1) insertI1 nd(3)] obtain m2 where
      m2: "kmapped (insert d D) H d ?z m2" "map_kernel d ?ks ?z = Ret (Some d, m2) \<and>
       (\<forall>w < VPAGES. vmap m2 d w = (case kernel_map ?ks w of None \<Rightarrow> vmap ?z d w | Some e \<Rightarrow> Some e)) \<or>
     map_kernel d ?ks ?z = kbind (freevm (Some d) m2) (\<lambda>m. Ret (None, m)) \<and> vfree m2 = []" by blast
    have maps: "vmap m2 d' w = vmap m d' w" if "d' \<in> D" "w < VPAGES" for d' w
    proof -
      have "d' \<noteq> d" using that(1) nd(4) by blast
      then show ?thesis using m2(1) fp(5) [OF that] that by (simp add: kmapped_def)
    qed
    have user: "page m2 d w = None" if "w < UPAGES" for w
      using m2(1) nd(3) [of w] that by (simp add: kmapped_def page_vmap UPAGES_def VPAGES_def)
    have "set (vfree m2) \<union> tables_from m2 d 0 = set (vfree ?z)"
    proof -
      have "tables_from ?z d 0 = {}" using nd(2) by (auto simp: tables_from_def)
      then show ?thesis using m2(1) by (simp add: kmapped_def pool_def)
    qed
    then have "assets m2 d = set (vfree m)" using fp(10) user by (auto simp: owned_def assets_def)
    moreover have "tabs ?z d = 0" using nd(2) by (auto simp: tabs_def)
    then have "length (vfree m2) + tabs m2 d + 0 + 1 = length (vfree m)" using m2(1) fp(10) by (simp add: kmapped_def)
    moreover have "stable D H ?z m2" using m2(1) stable_mono [of "insert d D" H ?z m2 D H] by (auto simp: kmapped_def)
    then have "stable D H m m2"
      by (rule stable_trans [OF fp(4)]) (use fp(5) in \<open>simp add: page_vmap UPAGES_def VPAGES_def\<close>)
    ultimately have mk: "making D H m d 0 m2" using nd(4) maps m2(1) by (simp add: making_def space_def kmapped_def)
    from m2(2) show ?thesis
    proof
      assume "map_kernel d ?ks ?z = Ret (Some d, m2) \<and>
       (\<forall>w < VPAGES. vmap m2 d w = (case kernel_map ?ks w of None \<Rightarrow> vmap ?z d w | Some e \<Rightarrow> Some e))"
      then show ?thesis using eq mk nd(3) by (auto split: option.split)
    next
      assume f: "map_kernel d ?ks ?z = kbind (freevm (Some d) m2) (\<lambda>m. Ret (None, m)) \<and> vfree m2 = []"
      from give_up [OF making_space [OF mk]] obtain m3 where "freevm (Some d) m2 = Ret m3" "unmade D H m m3" by blast
      moreover have "length (vfree m) < 1026" using mk f tabs_le [of m2 d] by (simp add: making_def space_def)
      ultimately show ?thesis using eq f by simp
    qed
  qed
qed

section \<open>Copying an address space\<close>

text \<open>The first \<open>k\<close> pages of \<open>d\<close> are copies of those \<open>pgdir\<close> has in \<open>m0\<close>; the others are as \<open>K\<close> says.\<close>

definition copied :: "(nat \<Rightarrow> nat option) \<Rightarrow> vmem \<Rightarrow> nat \<Rightarrow> nat \<Rightarrow> nat \<Rightarrow> vmem \<Rightarrow> bool" where
  "copied K m0 pgdir d k m \<longleftrightarrow> (\<forall>w < VPAGES.
     if w < k then \<exists>e f. vmap m0 pgdir w = Some e \<and> vmap m d w = Some (mk_pte f (PTE_FLAGS e)) \<and> frames m f = frames m0 (pte_frame e)
     else vmap m d w = K w)"

lemma FLAGS_less: "PTE_FLAGS e < 4096"
  by (simp add: PTE_FLAGS_def)

lemma copy_step:
  assumes mk: "making D H m0 d k m" and cp: "copied K m0 pgdir d k m" and pd: "pgdir \<in> D" and k: "k < UPAGES" "K k = None"
    and e: "vmap m0 pgdir k = Some e" and ka: "kalloc_frame m = (Some f, m1)"
    and z: "z = m1\<lparr>frames := (frames m1)(f := frames m1 (pte_frame e))\<rparr>"
  shows "\<exists>r m2. mappages d (k * 4096) PGSIZE (f * PGSIZE) (PTE_FLAGS e) z = Ret (r, m2) \<and>
    (r = 0 \<and> making D H m0 d (Suc k) m2 \<and> copied K m0 pgdir d (Suc k) m2 \<or>
     r = -1 \<and> vfree m2 = [] \<and> (\<exists>m3. kfree_frame f m2 = Ret m3 \<and> making D H m0 d k m3))"
proof -
  let ?D = "insert d D"
  have ok: "vm_ok ?D H m" and dD: "d \<notin> D" and st: "stable D H m0 m"
    and maps: "\<And>d' w. d' \<in> D \<Longrightarrow> w < VPAGES \<Longrightarrow> vmap m d' w = vmap m0 d' w"
    and own: "assets m d = set (vfree m0)" and len: "length (vfree m) + tabs m d + k + 1 = length (vfree m0)"
    using mk by (simp_all add: making_def space_def)
  note fr = vm_ok_kalloc(5) [OF ok ka]
  have kv: "k < VPAGES" using k(1) by (simp add: UPAGES_def VPAGES_def)
  have "length (frames m1 (pte_frame e)) = PGSIZE" unfolding fr by (rule vm_okD(1) [OF ok])
  note fp = fresh_bytes [OF ok ka this z]
  have bs: "frames z f = frames m0 (pte_frame e)"
    using fp(8) fr stableD [OF st pd k(1), of "pte_frame e"] e by (simp add: page_vmap)
  have tz: "tabs z d = tabs m d" by (rule tabs_cong) (rule fp(11), rule insertI1)
  have poz: "pool z d \<union> {f} = pool m d" using fp(10,11) by (auto simp: pool_def tables_from_def)
  have UV: "w < VPAGES" if "w < UPAGES" for w using that by (simp add: UPAGES_def VPAGES_def)
  have pz: "page z d' w = page m d' w" if "d' \<in> ?D" "w < UPAGES" for d' w using fp(5) [OF that(1) UV [OF that(2)]] by (simp add: page_vmap)
  have oz: "insert f (assets z d) = assets m d"
    using assets_fresh [OF ok ka _ z insertI1] fr vm_okD(1) [OF ok] by simp
  have pm: "page m d' w = page m0 d' w" if "d' \<in> D" "w < UPAGES" for d' w using maps [OF that(1) UV [OF that(2)]] by (simp add: page_vmap)
  have stz: "stable D H m0 z"
    by (rule stable_trans [OF st stable_mono [OF fp(4)]]) (use pm in auto)
  have free: "vmap z d k = None" using fp(5) [OF insertI1 kv] cp k kv by (simp add: copied_def)
  from map_page [OF fp(1) insertI1 insertI1 k(1) free FLAGS_less] obtain r m2 where
    r: "mappages d (k * 4096) PGSIZE (f * PGSIZE) (PTE_FLAGS e) z = Ret (r, m2)" "stable ?D (insert f H) z m2"
      "length (vfree m2) + tabs m2 d = length (vfree z) + tabs z d" "pool m2 d = pool z d"
      "r = 0 \<and> vm_ok ?D (insert f H - {f}) m2 \<and> (\<forall>d' \<in> ?D. \<forall>w < VPAGES. vmap m2 d' w =
         (if d' = d \<and> w = k then Some (mk_pte f (PTE_FLAGS e)) else vmap z d' w)) \<or> r = -1 \<and> m2 = z \<and> vfree z = []" by blast
  have hf: "insert f H - {f} = H" using fp(2) by blast
  show ?thesis
  proof (cases "r = 0")
    case True
    then have ok2: "vm_ok ?D H m2" and maps2: "\<And>d' w. d' \<in> ?D \<Longrightarrow> w < VPAGES \<Longrightarrow>
        vmap m2 d' w = (if d' = d \<and> w = k then Some (mk_pte f (PTE_FLAGS e)) else vmap m d' w)"
      using r(5) hf fp(5) by auto
    have st2: "stable D H z m2" by (rule stable_mono [OF r(2)]) auto
    have "stable D H m0 m2" by (rule stable_trans [OF stz st2]) (use pz pm in simp)
    moreover have "vmap m2 d' w = vmap m0 d' w" if "d' \<in> D" "w < VPAGES" for d' w
      using maps2 [of d' w] maps [OF that] that dD by auto
    moreover have "assets m2 d = insert f (assets z d)"
    proof (rule assets_page [OF _ k(1) _ r(4)])
      show "page m2 d w = (if w = k then Some f else page z d w)" if "w < UPAGES" for w
        using maps2 [of d w] pz [of d w] that UV [OF that] by (simp add: page_vmap mk_pte(3) FLAGS_less)
    qed (use free in \<open>simp add: page_vmap\<close>)
    then have "assets m2 d = set (vfree m0)" using oz own by simp
    moreover have "length (vfree m2) + tabs m2 d + Suc k + 1 = length (vfree m0)" using r(3) tz len fp(10) by simp
    ultimately have "making D H m0 d (Suc k) m2" using dD ok2 by (simp add: making_def space_def)
    moreover have "copied K m0 pgdir d (Suc k) m2"
      unfolding copied_def
    proof (intro allI impI)
      fix w assume w: "w < VPAGES"
      have old: "frames m2 g = frames m g" if "w < k" "vmap m d w = Some (mk_pte g (PTE_FLAGS e'))" for g e'
      proof -
        have pg: "page m d w = Some g" using page_mk [OF FLAGS_less that(2)] .
        have wU: "w < UPAGES" using that(1) k(1) by simp
        have "frames z g = frames m g" by (rule stableD [OF fp(4) insertI1 wU pg])
        moreover have "frames m2 g = frames z g" by (rule stableD [OF r(2) insertI1 wU]) (use pz [OF insertI1 wU] pg in simp)
        ultimately show ?thesis by simp
      qed
      have new: "frames m2 f = frames m0 (pte_frame e)" using r(2) bs by (simp add: stable_def)
      have c: "if w < k then \<exists>e f. vmap m0 pgdir w = Some e \<and> vmap m d w = Some (mk_pte f (PTE_FLAGS e)) \<and> frames m f = frames m0 (pte_frame e)
        else vmap m d w = K w" using cp w unfolding copied_def by blast
      then show "if w < Suc k then \<exists>e f. vmap m0 pgdir w = Some e \<and> vmap m2 d w = Some (mk_pte f (PTE_FLAGS e)) \<and>
          frames m2 f = frames m0 (pte_frame e) else vmap m2 d w = K w"
      proof (cases "w < k")
        case True
        then obtain e' g where g: "vmap m0 pgdir w = Some e'" "vmap m d w = Some (mk_pte g (PTE_FLAGS e'))"
          "frames m g = frames m0 (pte_frame e')" using c by auto
        then show ?thesis using old [OF True g(2)] maps2 [OF insertI1 w] True by auto
      next
        case False
        then show ?thesis using maps2 [OF insertI1 w] e new c by (cases "w = k") auto
      qed
    qed
    ultimately show ?thesis using r(1) True by blast
  next
    case False
    then have r': "r = -1" "m2 = z" "vfree z = []" using r(5) by auto
    from vm_ok_kfree [OF fp(1) insertI1, unfolded hf] obtain m3 where m3: "kfree_frame f z = Ret m3" "vm_ok ?D H m3"
      "vfree m3 = f # vfree z" "stable ?D H z m3" "\<And>d' w. d' \<in> ?D \<Longrightarrow> w < VPAGES \<Longrightarrow> vmap m3 d' w = vmap z d' w"
      "same_maps ?D z m3" by blast
    have t3: "ptab m3 d i = ptab z d i" if "i < 1024" for i by (rule ptab_same_maps [OF m3(6) insertI1 that])
    have "assets m3 d = insert f (assets z d)" by (rule assets_kfree [OF m3(3) _ m3(6)]) (use m3(5) in simp_all)
    moreover have "tabs m3 d = tabs z d" by (rule tabs_cong) (rule t3)
    moreover have "stable D H m0 m3" by (rule stable_trans [OF stz stable_mono [OF m3(4)]]) (use pz pm in auto)
    ultimately have "making D H m0 d k m3"
      using m3(2,3,5) fp(5,10) maps oz own tz len dD by (simp add: making_def space_def)
    then show ?thesis using r(1) r' m3(1) by blast
  qed
qed

lemma copy_loop_ok:
  assumes "making D H m0 d k m" and "copied K m0 pgdir d k m" and pd: "pgdir \<in> D" and sz: "sz \<le> KERNBASE"
    and pages: "\<And>w. w < npages sz \<Longrightarrow> vmap m0 pgdir w \<noteq> None" and K: "\<And>w. w < UPAGES \<Longrightarrow> K w = None" and "k \<le> npages sz"
  shows "\<exists>r m'. copy_loop pgdir d (k * PGSIZE) sz m = Ret (r, m') \<and>
    (r = Some d \<and> making D H m0 d (npages sz) m' \<and> copied K m0 pgdir d (npages sz) m' \<or>
     r = None \<and> unmade D H m0 m' \<and> length (vfree m0) < npages sz + 1026)"
  using assms(1,2,7)
proof (induction "npages sz - k" arbitrary: k m)
  case 0
  then have k: "k = npages sz" by simp
  then have "\<not> k * PGSIZE < sz" using npages_le(2) [of k sz] by simp
  then have "copy_loop pgdir d (k * PGSIZE) sz m = Ret (Some d, m)" by (simp add: copy_loop.simps [of pgdir d "k * PGSIZE"])
  then show ?case using 0(2,3) k by blast
next
  case (Suc n)
  note mk = Suc.prems(1) and cp = Suc.prems(2) and unf = copy_loop.simps [of pgdir d "k * PGSIZE"]
  have k: "k < npages sz" "n = npages sz - Suc k" "Suc k \<le> npages sz" using Suc.hyps(2) by simp_all
  then have lt: "k * PGSIZE < sz" using npages_le(2) by blast
  then have kb: "k < UPAGES" "k < VPAGES" using sz by (simp_all add: KERNBASE_def PGSIZE_def UPAGES_def VPAGES_def)
  obtain e where e: "vmap m0 pgdir k = Some e" using pages [OF k(1)] by blast
  then have em: "vmap m pgdir k = Some e" using mk pd kb(2) by (simp add: making_def space_def)
  then obtain t where t: "ptab m pgdir (k div 1024) = Some t" "get_pte (t, k mod 1024) m = e" "pte_present e"
    by (auto simp: vmap_def entry_def pte_present_odd split: option.splits if_splits)
  have look: "walkpgdir pgdir (k * PGSIZE) False m = (Some (t, k mod 1024), m)"
    using walk_look [OF kb(2), of 0 pgdir m] t(1) by (simp add: PGSIZE_def)
  have short: "length (vfree m0) < npages sz + 1026" if "length (vfree m) \<le> 1"
    using that mk tabs_le [of m d] k(1) by (simp add: making_def space_def)
  obtain x m1 where ka: "kalloc_frame m = (x, m1)" by (cases "kalloc_frame m") simp
  show ?case
  proof (cases x)
    case None
    then have m1: "m1 = m" "vfree m = []" using ka by (auto simp: kalloc_frame_def split: list.splits)
    from give_up [OF making_space [OF mk]] obtain m' where "freevm (Some d) m = Ret m'" "unmade D H m0 m'" by blast
    then show ?thesis using lt look t ka None m1 short by (simp add: unf)
  next
    case (Some f)
    define z where "z = m1\<lparr>frames := (frames m1)(f := frames m1 (pte_frame e))\<rparr>"
    have vz: "length (vfree m) = length (vfree z) + 1"
      using ka Some by (auto simp: z_def kalloc_frame_def split: list.splits)
    from copy_step [OF mk cp pd kb(1) K [OF kb(1)] e ka [unfolded Some] z_def] obtain r m2 where
      r: "mappages d (k * 4096) PGSIZE (f * PGSIZE) (PTE_FLAGS e) z = Ret (r, m2)"
        "r = 0 \<and> making D H m0 d (Suc k) m2 \<and> copied K m0 pgdir d (Suc k) m2 \<or>
         r = -1 \<and> vfree m2 = [] \<and> (\<exists>m3. kfree_frame f m2 = Ret m3 \<and> making D H m0 d k m3)" by blast
    have mp: "mappages d (k * PGSIZE) PGSIZE (f * PGSIZE) (PTE_FLAGS e) z = Ret (r, m2)" using r(1) by (simp add: PGSIZE_def)
    show ?thesis
    proof (cases "r = 0")
      case True
      then have "copy_loop pgdir d (k * PGSIZE) sz m = copy_loop pgdir d (Suc k * PGSIZE) sz m2"
        using lt look t ka Some mp by (simp add: unf z_def Let_def add.commute)
      then show ?thesis using Suc.hyps(1) [OF k(2) _ _ k(3), of m2] r(2) True by simp
    next
      case False
      then obtain m3 where m3: "r = -1" "vfree m2 = []" "kfree_frame f m2 = Ret m3" "making D H m0 d k m3" using r(2) by blast
      from give_up [OF making_space [OF m3(4)]] obtain m4 where m4: "freevm (Some d) m3 = Ret m4" "unmade D H m0 m4" by blast
      have "vfree m3 = [f]" using m3(2,3) by (auto simp: kfree_frame_def Let_def split: if_splits)
      then have "length (vfree m0) < npages sz + 1026" using m3(4) tabs_le [of m3 d] k(1) by (simp add: making_def space_def)
      moreover have "copy_loop pgdir d (k * PGSIZE) sz m = Ret (None, m4)"
        using lt look t ka Some mp m3(1,3) m4(1) by (simp add: unf z_def Let_def)
      ultimately show ?thesis using m4(2) by blast
    qed
  qed
qed

text \<open>C8: \<open>copyuvm\<close> makes a child whose pages below the size are on frames of their own that were free, with the flags and
  the bytes of the parent's, and whose other pages are those of the kernel; all address spaces and their bytes stay as
  they were. It fails only when memory is short, and then every frame it took is free again.\<close>

theorem copyuvm_copies:
  assumes ok: "vm_ok D H m" and pd: "pgdir \<in> D" and sz: "sz \<le> KERNBASE" and q: "256 < q" "q < 57344"
    and pages: "\<forall>w < npages sz. vmap m pgdir w \<noteq> None"
  shows "\<exists>r m'. copyuvm (KERNBASE + q * 4096) pgdir sz m = Ret (r, m') \<and> stable D H m m' \<and>
    (\<forall>d' \<in> D. \<forall>w < VPAGES. vmap m' d' w = vmap m d' w) \<and>
    (case r of None \<Rightarrow> vm_ok D H m' \<and> set (vfree m') = set (vfree m) \<and> length (vfree m) < npages sz + 1026
     | Some d \<Rightarrow> d \<notin> D \<and> vm_ok (insert d D) H m' \<and> (\<forall>w < VPAGES. if w < npages sz
         then \<exists>e f. vmap m pgdir w = Some e \<and> vmap m' d w = Some (mk_pte f (PTE_FLAGS e)) \<and> f \<in> set (vfree m) \<and>
           frames m' f = frames m (pte_frame e)
         else vmap m' d w = kernel_map (kmap (KERNBASE + q * 4096)) w))"
proof -
  let ?K = "kernel_map (kmap (KERNBASE + q * 4096))"
  have K: "?K w = None" if "w < UPAGES" for w
    using kmap_regions(2) [OF q, of w] that by (cases "?K w") auto
  from setupkvm_ok [OF ok q] obtain r m1 where s: "setupkvm (KERNBASE + q * 4096) m = Ret (r, m1)"
    "case r of None \<Rightarrow> unmade D H m m1 \<and> length (vfree m) < 1026
     | Some d \<Rightarrow> making D H m d 0 m1 \<and> (\<forall>w < VPAGES. vmap m1 d w = ?K w)" by blast
  show ?thesis
  proof (cases r)
    case None
    then show ?thesis using s by (simp add: copyuvm_def unmade_def)
  next
    case (Some d)
    then have "making D H m d 0 m1" "copied ?K m pgdir d 0 m1" using s(2) by (simp_all add: copied_def)
    from copy_loop_ok [OF this pd sz _ K] pages obtain r2 m2 where c: "copy_loop pgdir d 0 sz m1 = Ret (r2, m2)"
      "r2 = Some d \<and> making D H m d (npages sz) m2 \<and> copied ?K m pgdir d (npages sz) m2 \<or>
       r2 = None \<and> unmade D H m m2 \<and> length (vfree m) < npages sz + 1026" by auto
    have ret: "copyuvm (KERNBASE + q * 4096) pgdir sz m = Ret (r2, m2)" using s(1) Some c(1) by (simp add: copyuvm_def)
    from c(2) show ?thesis
    proof
      assume "r2 = None \<and> unmade D H m m2 \<and> length (vfree m) < npages sz + 1026"
      then show ?thesis using ret by (simp add: unmade_def)
    next
      assume a: "r2 = Some d \<and> making D H m d (npages sz) m2 \<and> copied ?K m pgdir d (npages sz) m2"
      have nU: "npages sz \<le> UPAGES" using npages_le(3) [OF sz] by (simp add: npages_def KERNBASE_def PGSIZE_def UPAGES_def)
      have "f \<in> set (vfree m)" if "w < npages sz" "vmap m2 d w = Some (mk_pte f (PTE_FLAGS e))" for w e f
      proof -
        have "page m2 d w = Some f" "w < UPAGES" using page_mk [OF FLAGS_less that(2)] that(1) nU by simp_all
        then have "f \<in> owned m2 d" by (auto simp: owned_def)
        then show ?thesis using a unfolding making_def space_def assets_def by blast
      qed
      then have "\<forall>w < VPAGES. if w < npages sz
         then \<exists>e f. vmap m pgdir w = Some e \<and> vmap m2 d w = Some (mk_pte f (PTE_FLAGS e)) \<and> f \<in> set (vfree m) \<and>
           frames m2 f = frames m (pte_frame e)
         else vmap m2 d w = ?K w"
        using a unfolding copied_def by metis
      then show ?thesis using ret a by (simp add: making_def space_def)
    qed
  qed
qed

end
