(* ===== verification/Vm_Copyout.thy ===== *)
theory Vm_Copyout
  imports Vm_Spaces
begin

text \<open>The bytes that \<open>copyout\<close> of \<open>vm.c\<close> writes to user memory through a page directory.\<close>

section \<open>Writing to user memory\<close>

text \<open>The frame of a page the user can access, and the byte at a user address.\<close>

definition user_frame :: "vmem \<Rightarrow> nat \<Rightarrow> nat \<Rightarrow> nat option" where
  "user_frame m d v = (if pte_present (entry m d v) \<and> pte_user (entry m d v) then Some (pte_frame (entry m d v)) else None)"

definition ubyte :: "vmem \<Rightarrow> nat \<Rightarrow> nat \<Rightarrow> byte option" where
  "ubyte m d a = map_option (\<lambda>f. frames m f ! (a mod PGSIZE)) (user_frame m d (a div PGSIZE))"

lemma uva2ka_user:
  assumes "v < VPAGES" and "ptab m d (v div 1024) = Some t"
  shows "uva2ka d (v * PGSIZE) m = Ret (user_frame m d v)"
  using walk_look [OF assms(1), of 0 d m] assms(2)
  by (simp add: uva2ka_def PGSIZE_def user_frame_def entry_def Let_def)

lemma user_page: "user_frame m d v = Some f \<Longrightarrow> page m d v = Some f"
  by (simp add: user_frame_def page_def split: if_splits)

text \<open>Writing to a page of user memory.\<close>

lemma write_page:
  assumes ok: "vm_ok D H m" and d: "d \<in> D" and v: "v < UPAGES" and pg: "page m d v = Some f"
    and b: "length bs = PGSIZE" and m1: "m1 = m\<lparr>frames := (frames m)(f := bs)\<rparr>"
  shows "vm_ok D H m1" "\<And>d' w. d' \<in> D \<Longrightarrow> w < VPAGES \<Longrightarrow> entry m1 d' w = entry m d' w"
    "\<And>d' i. d' \<in> D \<Longrightarrow> i < 1024 \<Longrightarrow> ptab m1 d' i = ptab m d' i" "f \<notin> H"
    "\<And>d' w. d' \<in> D \<Longrightarrow> w < UPAGES \<Longrightarrow> page m d' w = Some f \<Longrightarrow> d' = d \<and> w = v"
proof -
  have nt: "f \<notin> D" "d' \<in> D \<Longrightarrow> i < 1024 \<Longrightarrow> ptab m d' i \<noteq> Some f" for d' i
    using vm_okD(9) [OF ok, of "User d v" "Dir f" f] vm_okD(9) [OF ok, of "User d v" "Tab d' i" f] pg d v by auto
  have fr: "frames m1 h = frames m h" if "h \<noteq> f" for h using that by (simp add: m1)
  show "entry m1 d' w = entry m d' w" if "d' \<in> D" "w < VPAGES" for d' w by (rule entry_write(2) [OF nt fr that])
  show "ptab m1 d' i = ptab m d' i" if "d' \<in> D" "i < 1024" for d' i by (rule entry_write(1) [OF nt fr that])
  show "vm_ok D H m1"
    by (rule vm_ok_write [OF ok same_maps_write [OF nt fr]]) (use b vm_okD(1) [OF ok] in \<open>simp_all add: m1\<close>)
  show "f \<notin> H" using vm_okD(7) [OF ok busyI [of D "User d v"]] pg d v by simp
  show "d' = d \<and> w = v" if "d' \<in> D" "w < UPAGES" "page m d' w = Some f" for d' w
    using vm_okD(9) [OF ok, of "User d' w" "User d v" f] pg d v that by auto
qed

lemma write_user:
  assumes ok: "vm_ok D H m" and d: "d \<in> D" and v: "v < UPAGES" and f: "user_frame m d v = Some f"
    and b: "o' + length bs \<le> PGSIZE" and m1: "m1 = m\<lparr>frames := (frames m)(f := overwrite (frames m f) o' bs)\<rparr>"
  shows "vm_ok D H m1" "\<And>d' w. d' \<in> D \<Longrightarrow> w < VPAGES \<Longrightarrow> entry m1 d' w = entry m d' w"
    "\<And>d' i. d' \<in> D \<Longrightarrow> i < 1024 \<Longrightarrow> ptab m1 d' i = ptab m d' i"
    "\<And>a. a < KERNBASE \<Longrightarrow> ubyte m1 d a =
       (if v * PGSIZE + o' \<le> a \<and> a < v * PGSIZE + o' + length bs then Some (bs ! (a - (v * PGSIZE + o'))) else ubyte m d a)"
proof -
  note pg = user_page [OF f]
  have fr: "frames m1 h = frames m h" if "h \<noteq> f" for h using that by (simp add: m1)
  have "length (overwrite (frames m f) o' bs) = PGSIZE" using b vm_okD(1) [OF ok] by simp
  note wp = write_page [OF ok d v pg this m1]
  show "vm_ok D H m1" by (rule wp(1))
  show en: "entry m1 d' w = entry m d' w" if "d' \<in> D" "w < VPAGES" for d' w by (rule wp(2) [OF that])
  show "ptab m1 d' i = ptab m d' i" if "d' \<in> D" "i < 1024" for d' i by (rule wp(3) [OF that])
  have lf: "length (frames m f) = PGSIZE" by (rule vm_okD(1) [OF ok])
  fix a assume a: "a < KERNBASE"
  then have w: "a div PGSIZE < UPAGES" by (simp add: KERNBASE_def PGSIZE_def UPAGES_def less_mult_imp_div_less)
  then have uf: "user_frame m1 d (a div PGSIZE) = user_frame m d (a div PGSIZE)"
    using en [OF d] by (simp add: user_frame_def UPAGES_def VPAGES_def)
  have am: "a div PGSIZE * PGSIZE + a mod PGSIZE = a" "a mod PGSIZE < PGSIZE" by (rule div_mult_mod_eq) (simp add: PGSIZE_def)
  show "ubyte m1 d a =
       (if v * PGSIZE + o' \<le> a \<and> a < v * PGSIZE + o' + length bs then Some (bs ! (a - (v * PGSIZE + o'))) else ubyte m d a)"
  proof (cases "a div PGSIZE = v")
    case True
    then have av: "a = v * PGSIZE + a mod PGSIZE" using am(1) by simp
    have "frames m1 f ! (a mod PGSIZE) = (if o' \<le> a mod PGSIZE \<and> a mod PGSIZE < o' + length bs then bs ! (a mod PGSIZE - o')
        else frames m f ! (a mod PGSIZE))"
      using b lf am(2) by (simp add: m1 nth_overwrite)
    then have "ubyte m1 d a = (if o' \<le> a mod PGSIZE \<and> a mod PGSIZE < o' + length bs then Some (bs ! (a mod PGSIZE - o')) else ubyte m d a)"
      using uf f True by (simp add: ubyte_def)
    moreover have "o' \<le> a mod PGSIZE \<longleftrightarrow> v * PGSIZE + o' \<le> a" "a mod PGSIZE < o' + length bs \<longleftrightarrow> a < v * PGSIZE + o' + length bs"
      "a - (v * PGSIZE + o') = a mod PGSIZE - o'" using av by linarith+
    ultimately show ?thesis by simp
  next
    case False
    have "g \<noteq> f" if "user_frame m d (a div PGSIZE) = Some g" for g
      using wp(5) [OF d w] user_page [OF that] False by auto
    then have "ubyte m1 d a = ubyte m d a" using fr uf unfolding ubyte_def by (cases "user_frame m d (a div PGSIZE)") auto
    moreover have "\<not> (v * PGSIZE + o' \<le> a \<and> a < v * PGSIZE + o' + length bs)"
    proof
      assume "v * PGSIZE + o' \<le> a \<and> a < v * PGSIZE + o' + length bs"
      then have "v * PGSIZE \<le> a" "a < (v + 1) * PGSIZE" using b by auto
      then have "v \<le> a div PGSIZE" "a div PGSIZE < v + 1" by (simp_all add: less_eq_div_iff_mult_less_eq div_less_iff_less_mult PGSIZE_def)
      then show False using False by simp
    qed
    ultimately show ?thesis by auto
  qed
qed

lemma copyout_ok:
  assumes "vm_ok D H m" and d: "d \<in> D" and "va + length buf \<le> KERNBASE"
    and "\<And>v. va div PGSIZE \<le> v \<Longrightarrow> v * PGSIZE < va + length buf \<Longrightarrow> ptab m d (v div 1024) \<noteq> None"
  shows "\<exists>r n m'. copyout d va buf m = Ret (r, m') \<and> vm_ok D H m' \<and> (\<forall>d' \<in> D. \<forall>w < VPAGES. entry m' d' w = entry m d' w) \<and>
    (r = 0 \<and> n = length buf \<or> r = -1 \<and> n < length buf \<and> user_frame m d ((va + n) div PGSIZE) = None) \<and>
    (\<forall>a < KERNBASE. ubyte m' d a = (if va \<le> a \<and> a < va + n then Some (buf ! (a - va)) else ubyte m d a)) \<and>
    (\<forall>f. (\<forall>v < UPAGES. user_frame m d v \<noteq> Some f) \<longrightarrow> frames m' f = frames m f) \<and>
    vfree m' = vfree m \<and> vend m' = vend m \<and> (\<forall>d' \<in> D. \<forall>i < 1024. ptab m' d' i = ptab m d' i)"
  using assms(1,3,4)
proof (induction "length buf" arbitrary: va buf m rule: less_induct)
  case less
  note ok = less.prems(1) and unf = copyout.simps [of d va buf]
  show ?case
  proof (cases "buf = []")
    case True
    moreover have "copyout d va [] m = Ret (0, m)" by (simp add: copyout.simps)
    ultimately show ?thesis using ok by (intro exI [of _ 0] exI [of _ m]) auto
  next
    case False
    let ?v = "va div PGSIZE" and ?o = "va mod PGSIZE"
    have va: "?v * PGSIZE + ?o = va" "?o < PGSIZE" by (rule div_mult_mod_eq) (simp add: PGSIZE_def)
    have lt: "?v * PGSIZE < va + length buf" using va(1) False by (metis le_add1 length_greater_0_conv less_add_same_cancel1 order_le_less_trans)
    then have "?v * PGSIZE < KERNBASE" using less.prems(2) by linarith
    then have v: "?v < UPAGES" "?v < VPAGES" by (simp_all add: KERNBASE_def PGSIZE_def UPAGES_def VPAGES_def)
    obtain t where t: "ptab m d (?v div 1024) = Some t" using less.prems(3) [OF order_refl lt] by blast
    have ka: "uva2ka d (?v * PGSIZE) m = Ret (user_frame m d ?v)" by (rule uva2ka_user [OF v(2) t])
    have o: "va - PGROUNDDOWN va = ?o" by (simp add: PGROUNDDOWN_def minus_div_mult_eq_mod)
    show ?thesis
    proof (cases "user_frame m d ?v")
      case None
      then have "copyout d va buf m = Ret (-1, m)" using False ka by (simp add: unf PGROUNDDOWN_def Let_def)
      then show ?thesis using ok None False by (intro exI [of _ "-1"] exI [of _ 0] exI [of _ m]) auto
    next
      case (Some f)
      let ?n = "min (PGSIZE - ?o) (length buf)"
      define m1 where "m1 = m\<lparr>frames := (frames m)(f := overwrite (frames m f) ?o (take ?n buf))\<rparr>"
      have b: "?o + length (take ?n buf) \<le> PGSIZE" using va(2) by simp
      note wu = write_user [OF ok d v(1) Some b m1_def, unfolded va(1)]
      have step: "copyout d va buf m = copyout d (u32 (?v * PGSIZE + PGSIZE)) (drop ?n buf) m1"
        using False ka Some by (simp add: unf [of m] o Let_def m1_def) (simp add: PGROUNDDOWN_def)
      have uf: "user_frame m1 d w = user_frame m d w" if "w < VPAGES" for w using wu(2) [OF d that] by (simp add: user_frame_def)
      have vf: "vfree m1 = vfree m" "vend m1 = vend m" by (simp_all add: m1_def)
      have oth: "frames m1 g = frames m g" if "\<forall>v < UPAGES. user_frame m d v \<noteq> Some g" for g
        using that Some v(1) by (auto simp: m1_def)
      show ?thesis
      proof (cases "length buf \<le> PGSIZE - ?o")
        case True
        then have "copyout d va buf m = Ret (0, m1)" using step by (simp add: copyout.simps)
        moreover have "take ?n buf = buf" using True by simp
        ultimately show ?thesis using wu oth vf by (intro exI [of _ 0] exI [of _ "length buf"] exI [of _ m1]) simp
      next
        case long: False
        then have n: "?n = PGSIZE - ?o" by simp
        have nx: "(?v + 1) * PGSIZE = va + ?n" using va n unfolding add_mult_distrib by linarith
        have "va + ?n < KERNBASE" using long n less.prems(2) by simp
        then have u: "u32 (?v * PGSIZE + PGSIZE) = va + ?n" using nx by (simp add: u32_def KERNBASE_def)
        have len: "length (drop ?n buf) < length buf" using False va(2) n long by simp
        have sum: "va + ?n + length (drop ?n buf) = va + length buf" using long n by simp
        have pt: "ptab m1 d (w div 1024) \<noteq> None" if w: "(va + ?n) div PGSIZE \<le> w" "w * PGSIZE < va + ?n + length (drop ?n buf)" for w
        proof -
          have "va div PGSIZE \<le> (va + ?n) div PGSIZE" by (rule div_le_mono) simp
          then have "ptab m d (w div 1024) \<noteq> None" using less.prems(3) [of w] w(2) w(1) unfolding sum by linarith
          moreover have "w * PGSIZE < KERNBASE" using w(2) less.prems(2) unfolding sum by linarith
          then have "w div 1024 < 1024" by (simp add: KERNBASE_def PGSIZE_def)
          ultimately show ?thesis using wu(3) [OF d] by simp
        qed
        have bnd: "va + ?n + length (drop ?n buf) \<le> KERNBASE" unfolding sum by (rule less.prems(2))
        from less.hyps [OF len wu(1) bnd pt] obtain r k m' where
          r: "copyout d (va + ?n) (drop ?n buf) m1 = Ret (r, m')" "vm_ok D H m'" "\<forall>d' \<in> D. \<forall>w < VPAGES. entry m' d' w = entry m1 d' w"
            "r = 0 \<and> k = length (drop ?n buf) \<or> r = -1 \<and> k < length (drop ?n buf) \<and> user_frame m1 d ((va + ?n + k) div PGSIZE) = None"
            "\<forall>a < KERNBASE. ubyte m' d a = (if va + ?n \<le> a \<and> a < va + ?n + k then Some (drop ?n buf ! (a - (va + ?n))) else ubyte m1 d a)"
            "\<forall>f. (\<forall>v < UPAGES. user_frame m1 d v \<noteq> Some f) \<longrightarrow> frames m' f = frames m1 f"
            "vfree m' = vfree m1" "vend m' = vend m1" "\<forall>d' \<in> D. \<forall>i < 1024. ptab m' d' i = ptab m1 d' i" by blast
        have k: "k \<le> length (drop ?n buf)" using r(4) by auto
        have "(va + ?n + k) div PGSIZE < VPAGES"
        proof -
          have "va + ?n + k \<le> KERNBASE" using k sum less.prems(2) by linarith
          then have "(va + ?n + k) div PGSIZE \<le> KERNBASE div PGSIZE" by (rule div_le_mono)
          then show ?thesis by (simp add: KERNBASE_def PGSIZE_def VPAGES_def)
        qed
        note last = uf [OF this]
        have ub: "ubyte m' d a = (if va \<le> a \<and> a < va + (?n + k) then Some (buf ! (a - va)) else ubyte m d a)" if a: "a < KERNBASE" for a
        proof -
          have 1: "drop ?n buf ! (a - (va + ?n)) = buf ! (a - va)" if "va + ?n \<le> a" "a < va + ?n + k"
            using that k by (subst nth_drop) auto
          have 2: "take ?n buf ! (a - va) = buf ! (a - va)" if "a < va + ?n" "va \<le> a" by (rule nth_take) (use that in linarith)
          have 3: "length (take ?n buf) = ?n" by simp
          show ?thesis using r(5) [rule_format, OF a] wu(4) [OF a, unfolded 3] 1 2 by (auto simp del: min_less_iff_conj min.bounded_iff)
        qed
        have fr: "frames m' g = frames m g" if "\<forall>v < UPAGES. user_frame m d v \<noteq> Some g" for g
        proof -
          have "\<forall>v < UPAGES. user_frame m1 d v \<noteq> Some g" using that uf by (simp add: UPAGES_def VPAGES_def)
          then show ?thesis using r(6) oth [OF that] by simp
        qed
        have fin: "r = 0 \<and> ?n + k = length buf \<or> r = -1 \<and> ?n + k < length buf \<and> user_frame m d ((va + (?n + k)) div PGSIZE) = None"
          using r(4) last long n by (auto simp: add.assoc)
        have "copyout d va buf m = Ret (r, m')" using step r(1) u by simp
        then show ?thesis using r(2,3,7-9) wu(2,3) ub fr fin vf by (intro exI [of _ r] exI [of _ "?n + k"] exI [of _ m']) simp
      qed
    qed
  qed
qed

text \<open>C18: \<open>copyout\<close> to addresses below \<open>KERNBASE\<close> that have page tables returns 0 with all bytes written, or -1 with
  those before the first page the user cannot access; no other byte of user memory, no frame that is not a user page of
  this directory, and no entry of any address space changes.\<close>

theorem copyout_writes_user_only:
  assumes "vm_ok D H m" and d: "d \<in> D" and "va + length buf \<le> KERNBASE"
    and "\<And>v. va div PGSIZE \<le> v \<Longrightarrow> v * PGSIZE < va + length buf \<Longrightarrow> ptab m d (v div 1024) \<noteq> None"
  shows "\<exists>r n m'. copyout d va buf m = Ret (r, m') \<and> vm_ok D H m' \<and> (\<forall>d' \<in> D. \<forall>w < VPAGES. entry m' d' w = entry m d' w) \<and>
    (r = 0 \<and> n = length buf \<or> r = -1 \<and> n < length buf \<and> user_frame m d ((va + n) div PGSIZE) = None) \<and>
    (\<forall>a < KERNBASE. ubyte m' d a = (if va \<le> a \<and> a < va + n then Some (buf ! (a - va)) else ubyte m d a)) \<and>
    (\<forall>f. (\<forall>v < UPAGES. user_frame m d v \<noteq> Some f) \<longrightarrow> frames m' f = frames m f)"
  using copyout_ok [OF assms(1) d assms(3)] assms(4) by blast

end
