(* ===== verification/Vm_Example.thy ===== *)
theory Vm_Example
  imports Vm_Copy Vm_Copyout
begin

unbundle bit_operations_syntax

text \<open>
  A small memory: directory 4 has one page table, frame 5, and one page of user memory, frame 6; the frames from 7
  to 1999 are free.
\<close>

definition mem0 :: vmem where
  "mem0 = \<lparr>frames = (\<lambda>_. replicate PGSIZE 0), vfree = [7..<2000], vend = 1\<rparr>"

definition mem1 :: vmem where
  "mem1 = set_pte (5, 0) (mk_pte 6 (PTE_W OR PTE_U)) (set_pte (4, 0) (5 * PGSIZE OR PTE_P OR PTE_W OR PTE_U) (fill 5 0 mem0))"

lemma mem0_ok: "vm_ok {} {4, 5, 6} mem0"
proof -
  have nb: "\<not> busy {} mem0 f" for f
  proof
    assume "busy {} mem0 f"
    then obtain x where x: "slot_of {} x" by (auto simp: busy_def)
    then show False by (cases x) simp_all
  qed
  have v: "length (frames mem0 f) = PGSIZE" "distinct (vfree mem0)" "set (vfree mem0) = {7..<2000}" "vend mem0 = 1" for f
    by (simp_all add: mem0_def del: upt_rec_numeral)
  have ns: "\<not> slot_of {} x" for x by (cases x) simp_all
  show ?thesis
    unfolding vm_ok_def using nb ns
    by (auto simp: v good_frame_def PGSIZE_def PHYSTOP_def)
qed

lemma mem1_ok: "vm_ok {4} {} mem1" "w < VPAGES \<Longrightarrow> vmap mem1 4 w = (if w = 0 then Some (mk_pte 6 (PTE_W OR PTE_U)) else None)"
  "i < 1024 \<Longrightarrow> ptab mem1 4 i = (if i = 0 then Some 5 else None)" "vfree mem1 = [7..<2000]"
proof -
  have z: "frames mem0 f = replicate PGSIZE 0" for f by (simp add: mem0_def)
  have f0: "fill 5 0 mem0 = mem0" by (simp add: fill_def mem0_def fun_upd_def)
  define m where "m = set_pte (4, 0) (5 * PGSIZE OR PTE_P OR PTE_W OR PTE_U) (fill 5 0 mem0)"
  have m1: "mem1 = set_pte (5, 0 mod 1024) (mk_pte 6 (PTE_W OR PTE_U)) m" by (simp add: mem1_def m_def)
  note nd = new_dir [OF mem0_ok _ z, simplified]
  have nt: "vm_ok {4} ({5, 6} - {5}) m" "ptab m 4 0 = Some 5"
    "\<And>v. v < VPAGES \<Longrightarrow> entry m 4 v = entry mem0 4 v" "vfree m = vfree mem0"
    "\<And>j. j < 1024 \<Longrightarrow> ptab m 4 j = (if j = 0 then Some 5 else ptab mem0 4 j)"
    using new_table [OF nd(1), of 5 4 0 m] nd(2) by (simp_all add: m_def)
  have "{5, 6} - {5} = {6 :: nat}" by auto
  then have ok: "vm_ok {4} {6} m" using nt(1) by simp
  have none: "vmap m 4 w = None" if "w < VPAGES" for w
    using nt(3) [OF that] nd(3) [OF that] by (simp add: vmap_def del: not_None_eq split: if_splits)
  have v0: "vmap m 4 0 = None" "0 < UPAGES" using none by (simp_all add: VPAGES_def UPAGES_def)
  have t0: "ptab m 4 (0 div 1024) = Some 5" using nt(2) by simp
  note mp = map_pte [OF ok insertI1 insertI1 v0(2,1) t0 WU m1]
  show "vm_ok {4} {} mem1" using mp(1) by simp
  show "vmap mem1 4 w = (if w = 0 then Some (mk_pte 6 (PTE_W OR PTE_U)) else None)" if "w < VPAGES"
    using mp(2) [OF insertI1 that] none [OF that] by simp
  have e: "mk_pte 6 (PTE_W OR PTE_U) < 4294967296" by (rule mk_pte(5) [OF WU]) simp
  have vp: "0 < VPAGES" by (simp add: VPAGES_def)
  note se = set_entry [OF ok insertI1 vp t0 e m1]
  show "ptab mem1 4 i = (if i = 0 then Some 5 else None)" if "i < 1024"
    using se(1) [OF insertI1 that] nt(5) [OF that] nd(2) [OF that] by simp
  show "vfree mem1 = [7..<2000]" using se(4) nt(4) by (simp add: mem0_def)
qed

lemma mem1_page: "w < VPAGES \<Longrightarrow> page mem1 4 w = (if w = 0 then Some 6 else None)"
  by (simp add: page_vmap mem1_ok(2) mk_pte(3) WU)

theorem deallocuvm_frees_witness: "\<exists>m'. deallocuvm 4 4096 0 mem1 = Ret (0, m') \<and> 6 \<in> set (vfree m')"
proof -
  have "npages 0 = 0" "(4096 :: nat) \<le> KERNBASE" by (simp_all add: npages_def PGSIZE_def KERNBASE_def)
  moreover have "page mem1 4 0 = Some 6" using mem1_page [of 0] by (simp add: VPAGES_def)
  ultimately show ?thesis
    using deallocuvm_frees [OF mem1_ok(1) insertI1, of 0 4096] by force
qed

theorem allocuvm_grows_witness: "\<exists>m'. allocuvm 4 4096 8192 mem1 = Ret (8192, m') \<and> vm_ok {4} {} m'"
proof -
  have n: "npages 4096 = 1" "npages 8192 = 2" by (simp_all add: npages_def PGSIZE_def)
  have k: "8192 < KERNBASE" by (simp add: KERNBASE_def)
  have "vmap mem1 4 w = None" if "1 \<le> w" "w * PGSIZE < 8192" for w
    using mem1_ok(2) [of w] that by (simp add: PGSIZE_def VPAGES_def)
  then show ?thesis using allocuvm_grows [OF mem1_ok(1) insertI1 _ k, of 4096] by (auto simp: n mem1_ok(4))
qed

theorem freevm_returns_all_witness: "\<exists>m'. freevm (Some 4) mem1 = Ret m' \<and> set (vfree m') = {4..<2000}"
proof -
  have "tables_from mem1 4 0 = {5}" using mem1_ok(3) by (force simp: tables_from_def split: if_splits)
  moreover have "page mem1 4 v = Some f \<longleftrightarrow> v = 0 \<and> f = 6" if "v < UPAGES" for v f
    using mem1_page [of v] that by (auto simp: UPAGES_def VPAGES_def)
  then have "{f. \<exists>v < UPAGES. page mem1 4 v = Some f} = {6}" using UPAGES_def by force
  ultimately have "owned mem1 4 = {4, 5, 6}" by (auto simp: owned_def)
  moreover have "x \<in> {7..<2000} \<union> {4, 5, 6} \<longleftrightarrow> x \<in> {4..<2000}" for x :: nat by (simp only: Un_iff insert_iff atLeastLessThan_iff empty_iff) arith
  ultimately have "set (vfree mem1) \<union> owned mem1 4 = {4..<2000}" unfolding mem1_ok(4) set_upt by blast
  then show ?thesis using freevm_returns_all [OF mem1_ok(1) insertI1] by auto
qed

theorem copyuvm_copies_witness: "\<exists>d m'. copyuvm (KERNBASE + 1000 * 4096) 4 4096 mem1 = Ret (Some d, m') \<and> d \<noteq> 4 \<and>
  vm_ok {d, 4} {} m' \<and> vmap m' 4 0 = vmap mem1 4 0"
proof -
  have n: "npages 4096 = 1" and k: "4096 \<le> KERNBASE" "0 < VPAGES" by (simp_all add: npages_def PGSIZE_def KERNBASE_def VPAGES_def)
  have pages: "\<forall>w < npages 4096. vmap mem1 4 w \<noteq> None" unfolding n using mem1_ok(2) [OF k(2)] by simp
  from copyuvm_copies [OF mem1_ok(1) insertI1 k(1) _ _ pages, of 1000] obtain r m' where
    r: "copyuvm (KERNBASE + 1000 * 4096) 4 4096 mem1 = Ret (r, m')" "\<forall>w < VPAGES. vmap m' 4 w = vmap mem1 4 w"
      "r = None \<Longrightarrow> length (vfree mem1) < 1 + 1026" "\<And>d. r = Some d \<Longrightarrow> d \<noteq> 4 \<and> vm_ok {d, 4} {} m'"
    unfolding n by (auto split: option.splits)
  show ?thesis using r k(2) by (cases r) (auto simp: mem1_ok(4))
qed

theorem copyout_writes_user_only_witness: "\<exists>m'. copyout 4 10 [1, 2] mem1 = Ret (0, m') \<and> ubyte m' 4 11 = Some 2"
proof -
  have k: "10 + length [1, 2 :: byte] \<le> KERNBASE" "(11 :: nat) < KERNBASE" by (simp_all add: KERNBASE_def)
  have pt: "ptab mem1 4 (v div 1024) \<noteq> None" if "10 div PGSIZE \<le> v" "v * PGSIZE < 10 + length [1, 2 :: byte]" for v
    using that mem1_ok(3) [of "v div 1024"] by (simp add: PGSIZE_def)
  have "vmap mem1 4 0 = Some (mk_pte 6 (PTE_W OR PTE_U))" using mem1_ok(2) [of 0] by (simp add: VPAGES_def)
  then have "entry mem1 4 0 = mk_pte 6 (PTE_W OR PTE_U)" by (simp add: vmap_def split: if_splits)
  moreover have "pte_user (mk_pte 6 (PTE_W OR PTE_U))" by (simp add: pte_user_def mk_pte_def PTE_U_def PTE_W_def PTE_P_def PGSIZE_def)
  moreover have "pte_present (mk_pte 6 (PTE_W OR PTE_U))" by (rule mk_pte(2) [OF WU])
  ultimately have u: "user_frame mem1 4 ((10 + n) div PGSIZE) \<noteq> None" if "n < 2" for n
    using that by (simp add: user_frame_def PGSIZE_def)
  from copyout_writes_user_only [OF mem1_ok(1) insertI1 k(1) pt] obtain r n m' where
    r: "copyout 4 10 [1, 2] mem1 = Ret (r, m')" "r = 0 \<and> n = 2 \<or> r = -1 \<and> n < 2 \<and> user_frame mem1 4 ((10 + n) div PGSIZE) = None"
      "\<forall>a < KERNBASE. ubyte m' 4 a = (if 10 \<le> a \<and> a < 10 + n then Some ([1, 2] ! (a - 10)) else ubyte mem1 4 a)"
    by (metis One_nat_def length_Cons list.size(3) numeral_2_eq_2)
  then have "r = 0" "n = 2" using u by (metis not_None_eq)+
  then show ?thesis using r(1,3) k(2) by auto
qed

end
