(* ===== verification/Exec.thy ===== *)
theory Exec
  imports Vm Sysfile
begin

text \<open>
  Running a program (\<open>exec.c\<close>): a new address space is built from an ELF file and the arguments, and replaces the
  old one only when everything has succeeded. The file is read through \<open>fs.c\<close>, the space built by \<open>vm.c\<close>; the
  processor registers that \<open>switchuvm\<close> loads are left out.
\<close>

section \<open>The file\<close>

definition ELF_MAGIC :: nat where "ELF_MAGIC = 1179403647"
definition ELF_PROG_LOAD :: nat where "ELF_PROG_LOAD = 1"

text \<open>The fields of the two headers that are used. They take 52 and 32 bytes.\<close>

record elfhdr =
  e_magic :: nat
  e_entry :: nat
  e_phoff :: nat
  e_phnum :: nat

record proghdr =
  ph_type :: nat
  ph_off :: nat
  ph_vaddr :: nat
  ph_filesz :: nat
  ph_memsz :: nat

definition dec_elfhdr :: "byte list \<Rightarrow> elfhdr" where
  "dec_elfhdr bs = \<lparr>e_magic = le_dec (slice bs 0 4), e_entry = le_dec (slice bs 24 4), e_phoff = le_dec (slice bs 28 4),
     e_phnum = le_dec (slice bs 44 2)\<rparr>"

definition dec_proghdr :: "byte list \<Rightarrow> proghdr" where
  "dec_proghdr bs = \<lparr>ph_type = word_at bs 0, ph_off = word_at bs 1, ph_vaddr = word_at bs 2, ph_filesz = word_at bs 4,
     ph_memsz = word_at bs 5\<rparr>"

section \<open>Loading\<close>

text \<open>
  The part of the process that \<open>exec\<close> changes. In what follows \<open>None\<close> is the jump to \<open>bad\<close>.
\<close>

record uproc =
  up_name :: "byte list"
  up_pgdir :: nat
  up_sz :: nat
  up_eip :: nat
  up_esp :: nat

text \<open>The loop over the program headers with \<open>n\<close> of them to go, the next at \<open>off\<close>.\<close>

fun load_segs :: "nat \<Rightarrow> nat \<Rightarrow> nat \<Rightarrow> nat \<Rightarrow> nat \<Rightarrow> 'a fstate_scheme \<Rightarrow> vmem \<Rightarrow> (nat option \<times> 'a fstate_scheme \<times> vmem) outcome" where
  "load_segs d ip 0 off sz s m = Ret (Some sz, s, m)"
| "load_segs d ip (Suc n) off sz s m =
     kbind (readi ip off 32 s) (\<lambda>(r, bs, s).
       let ph = dec_proghdr bs; top = u32 (ph_vaddr ph + ph_memsz ph)
       in if r \<noteq> 32 then Ret (None, s, m)
          else if ph_type ph \<noteq> ELF_PROG_LOAD then load_segs d ip n (u32 (off + 32)) sz s m
          else if ph_memsz ph < ph_filesz ph then Ret (None, s, m)
          else if top < ph_vaddr ph then Ret (None, s, m)
          else kbind (allocuvm d sz top m) (\<lambda>(sz, m).
            if sz = 0 then Ret (None, s, m)
            else if ph_vaddr ph mod PGSIZE \<noteq> 0 then Ret (None, s, m)
            else kbind (loaduvm d (ph_vaddr ph) ip (ph_off ph) (ph_filesz ph) s m) (\<lambda>(r, s, m).
              if r < 0 then Ret (None, s, m) else load_segs d ip n (u32 (off + 32)) sz s m)))"

section \<open>The stack\<close>

text \<open>The argument strings, from argument \<open>argc\<close> on, below \<open>sp\<close>; their addresses are collected in \<open>us\<close>.\<close>

fun push_strings :: "nat \<Rightarrow> byte list list \<Rightarrow> nat \<Rightarrow> nat \<Rightarrow> nat list \<Rightarrow> vmem \<Rightarrow> ((nat \<times> nat list) option \<times> vmem) outcome" where
  "push_strings d [] argc sp us m = Ret (Some (sp, us), m)"
| "push_strings d (a # argv) argc sp us m =
     (if argc \<ge> MAXARG then Ret (None, m)
      else
        let sp = u32 (sp + 4294967296 - (length a + 1)) div 4 * 4
        in kbind (copyout d sp (a @ [0]) m) (\<lambda>(r, m).
             if r < 0 then Ret (None, m) else push_strings d argv (argc + 1) sp (us @ [sp]) m))"

definition word_bytes :: "nat list \<Rightarrow> byte list" where
  "word_bytes ws = concat (map (le_enc 4) ws)"

definition push_vector :: "nat \<Rightarrow> nat \<Rightarrow> nat list \<Rightarrow> vmem \<Rightarrow> (nat option \<times> vmem) outcome" where
  "push_vector d sp us m =
     (let argc = length us;
          ustack = [4294967295, argc, u32 (sp + 4294967296 - (argc + 1) * 4)] @ us @ [0];
          sp = u32 (sp + 4294967296 - (3 + argc + 1) * 4)
      in kbind (copyout d sp (word_bytes ustack) m) (\<lambda>(r, m). Ret (if r < 0 then None else Some sp, m)))"

text \<open>Two pages more, the lower one without access for the user, and on the upper one the arguments.\<close>

definition setup_stack :: "nat \<Rightarrow> nat \<Rightarrow> byte list list \<Rightarrow> vmem \<Rightarrow> ((nat \<times> nat) option \<times> vmem) outcome" where
  "setup_stack d sz argv m =
     (let sz = PGROUNDUP sz
      in kbind (allocuvm d sz (u32 (sz + 2 * PGSIZE)) m) (\<lambda>(sz, m).
         if sz = 0 then Ret (None, m)
         else kbind (clearpteu d (sz - 2 * PGSIZE) m) (\<lambda>m.
           kbind (push_strings d argv 0 sz [] m) (\<lambda>(r, m).
             case r of None \<Rightarrow> Ret (None, m)
             | Some (sp, us) \<Rightarrow> kbind (push_vector d sp us m) (\<lambda>(r, m). Ret (map_option (Pair sz) r, m))))))"

section \<open>exec\<close>

text \<open>What follows the last slash of the path.\<close>

fun last_elem :: "byte list \<Rightarrow> byte list \<Rightarrow> byte list" where
  "last_elem [] l = l"
| "last_elem (c # cs) l = last_elem cs (if c = 47 then cs else l)"

text \<open>The code at \<open>bad\<close>, where \<open>ip\<close> and \<open>pgdir\<close> may be null.\<close>

definition free_space :: "nat option \<Rightarrow> vmem \<Rightarrow> vmem outcome" where
  "free_space pgdir m = (case pgdir of None \<Rightarrow> Ret m | Some d \<Rightarrow> freevm (Some d) m)"

definition put_file :: "nat option \<Rightarrow> 'a fstate_scheme \<Rightarrow> 'a fstate_scheme outcome" where
  "put_file ip s = (case ip of None \<Rightarrow> Ret s | Some ip \<Rightarrow> kbind (iunlockput ip s) end_op)"

definition exec_bad :: "nat option \<Rightarrow> nat option \<Rightarrow> uproc \<Rightarrow> 'a fstate_scheme \<Rightarrow> vmem \<Rightarrow> (int \<times> uproc \<times> 'a fstate_scheme \<times> vmem) outcome" where
  "exec_bad ip pgdir p s m = kbind (free_space pgdir m) (\<lambda>m. kbind (put_file ip s) (\<lambda>s. Ret (-1, p, s, m)))"

definition exec :: "nat \<Rightarrow> byte list \<Rightarrow> byte list list \<Rightarrow> uproc \<Rightarrow> 'a fstate_scheme \<Rightarrow> vmem \<Rightarrow> (int \<times> uproc \<times> 'a fstate_scheme \<times> vmem) outcome" where
  "exec kdata path argv p s m =
     kbind (begin_op s) (\<lambda>s.
     kbind (namei path s) (\<lambda>(ip, s).
       case ip of
         None \<Rightarrow> kbind (end_op s) (\<lambda>s. Ret (-1, p, s, m))
       | Some ip \<Rightarrow>
           kbind (ilock ip s) (\<lambda>s.
           kbind (readi ip 0 52 s) (\<lambda>(r, bs, s).
             let elf = dec_elfhdr bs
             in if r \<noteq> 52 \<or> e_magic elf \<noteq> ELF_MAGIC then exec_bad (Some ip) None p s m
                else kbind (setupkvm kdata m) (\<lambda>(pgdir, m).
                  case pgdir of
                    None \<Rightarrow> exec_bad (Some ip) None p s m
                  | Some d \<Rightarrow>
                      kbind (load_segs d ip (e_phnum elf) (e_phoff elf) 0 s m) (\<lambda>(sz, s, m).
                        case sz of
                          None \<Rightarrow> exec_bad (Some ip) (Some d) p s m
                        | Some sz \<Rightarrow>
                            kbind (put_file (Some ip) s) (\<lambda>s.
                            kbind (setup_stack d sz argv m) (\<lambda>(st, m).
                              case st of
                                None \<Rightarrow> exec_bad None (Some d) p s m
                              | Some (sz, sp) \<Rightarrow>
                                  kbind (freevm (Some (up_pgdir p)) m) (\<lambda>m.
                                    Ret (0, p\<lparr>up_name := take 15 (last_elem path path), up_pgdir := d, up_sz := sz,
                                      up_eip := e_entry elf, up_esp := sp\<rparr>, s, m))))))))))"

end
