(* ===== verification/Exec_Results.thy ===== *)
theory Exec_Results
  imports Exec Fs_Content Vm_Copy Vm_Copyout
begin

unbundle bit_operations_syntax

text \<open>
  What \<open>exec\<close> does to memory: the operations of \<open>vm.c\<close> that it uses keep a new address space apart from all
  others, so that giving it up leaves everything as it was, and the stack it makes holds the arguments.
\<close>

section \<open>Operations on a new address space\<close>

text \<open>The first \<open>n\<close> pages are mapped for the user, all but page \<open>g\<close>; the others are as \<open>K\<close> says.\<close>

definition user_layout :: "(nat \<Rightarrow> nat option) \<Rightarrow> nat \<Rightarrow> nat \<Rightarrow> nat option \<Rightarrow> vmem \<Rightarrow> bool" where
  "user_layout K d n g m \<longleftrightarrow> (\<forall>w < VPAGES.
     if w < n then \<exists>f. vmap m d w = Some (mk_pte f (if g = Some w then PTE_W else PTE_W OR PTE_U)) else vmap m d w = K w)"

lemma W_less: "PTE_W < 4096" by (simp add: PTE_W_def)

lemma perm_less: "(if b then PTE_W else PTE_W OR PTE_U) < 4096"
  using WU W_less by simp

lemma user_layout_cong:
  assumes "\<And>w. w < VPAGES \<Longrightarrow> vmap m' d w = vmap m d w" and "user_layout K d n g m"
  shows "user_layout K d n g m'"
  using assms by (simp add: user_layout_def)

lemma user_layout_page:
  assumes "user_layout K d n g m" and "w < n" "w < UPAGES"
  shows "\<exists>f t. vmap m d w = Some (mk_pte f (if g = Some w then PTE_W else PTE_W OR PTE_U)) \<and> page m d w = Some f \<and>
    ptab m d (w div 1024) = Some t \<and> get_pte (t, w mod 1024) m = mk_pte f (if g = Some w then PTE_W else PTE_W OR PTE_U)"
proof -
  have "w < VPAGES" using assms(3) by (simp add: UPAGES_def VPAGES_def)
  then obtain f where f: "vmap m d w = Some (mk_pte f (if g = Some w then PTE_W else PTE_W OR PTE_U))"
    using assms(1,2) unfolding user_layout_def by metis
  then have "entry m d w = mk_pte f (if g = Some w then PTE_W else PTE_W OR PTE_U)"
    by (simp add: vmap_def split: if_splits)
  moreover have "mk_pte f (if g = Some w then PTE_W else PTE_W OR PTE_U) \<noteq> 0"
    using mk_pte(2) [OF perm_less] by (metis pte_present_odd even_zero)
  ultimately show ?thesis using f page_mk [OF perm_less f] by (auto simp: entry_def split: option.splits)
qed

lemma space_trans:
  assumes sp: "space D H m0 d m" and "vm_ok (insert d D) H m'" and st: "stable D H m m'"
    and maps: "\<And>d' w. d' \<in> D \<Longrightarrow> w < VPAGES \<Longrightarrow> vmap m' d' w = vmap m d' w" and "assets m' d = assets m d"
  shows "space D H m0 d m'"
proof -
  have "stable D H m0 m'"
    by (rule stable_trans [OF _ st]) (use sp in \<open>simp_all add: space_def page_vmap UPAGES_def VPAGES_def\<close>)
  then show ?thesis using assms by (simp add: space_def)
qed

lemma space_alloc:
  assumes sp: "space D H m0 d m" and lay: "user_layout K d (npages sz) None m" and sz: "sz < KERNBASE \<or> sz \<le> newsz"
    and K: "\<And>w. w < UPAGES \<Longrightarrow> K w = None"
  shows "\<exists>r m'. allocuvm d sz newsz m = Ret (r, m') \<and> space D H m0 d m' \<and>
    (r = 0 \<or> r = max sz newsz \<and> r < KERNBASE \<and> user_layout K d (npages r) None m')"
proof -
  consider "newsz \<ge> KERNBASE" | "newsz < KERNBASE" "newsz < sz" | "newsz < KERNBASE" "sz \<le> newsz" by linarith
  then show ?thesis
  proof cases
    case 3
    have ok: "vm_ok (insert d D) H m" and dD: "d \<notin> D" using sp by (simp_all add: space_def)
    have free: "vmap m d w = None" if "npages sz \<le> w" "w * PGSIZE < newsz" for w
    proof -
      have "w < UPAGES" using that(2) 3(1) unfolding UPAGES_def KERNBASE_def PGSIZE_def by linarith
      then show ?thesis using lay K that(1) by (simp add: user_layout_def UPAGES_def VPAGES_def)
    qed
    from allocuvm_ok [OF ok insertI1 3(2,1) free] obtain r m' where r: "allocuvm d sz newsz m = Ret (r, m')"
      "vm_ok (insert d D) H m'" "stable (insert d D) H m m'" "assets m' d = assets m d"
      "r = newsz \<and> grown (insert d D) m m' d (npages sz) (npages newsz) \<or>
       r = 0 \<and> (\<forall>d' \<in> insert d D. \<forall>w < VPAGES. vmap m' d' w = vmap m d' w)"
      by (auto simp: alloc_end_def)
    have maps: "vmap m' d' w = vmap m d' w" if "d' \<in> D" "w < VPAGES" for d' w
    proof -
      have "d' \<noteq> d" using that(1) dD by blast
      then show ?thesis using r(5) that by (auto simp: grown_def)
    qed
    have "space D H m0 d m'"
      by (rule space_trans [OF sp r(2) stable_mono [OF r(3)] maps r(4)]) auto
    moreover have "user_layout K d (npages newsz) None m'" if g: "grown (insert d D) m m' d (npages sz) (npages newsz)"
      unfolding user_layout_def
    proof (intro allI impI)
      fix w assume w: "w < VPAGES"
      have le: "npages sz \<le> npages newsz" by (rule npages_le(3) [OF 3(2)])
      have gw: "if npages sz \<le> w \<and> w < npages newsz
        then \<exists>f. vmap m' d w = Some (mk_pte f (PTE_W OR PTE_U)) \<and> f \<in> set (vfree m) \<and> frames m' f = replicate PGSIZE 0
        else vmap m' d w = vmap m d w" using g w unfolding grown_def by (metis insertI1)
      show "if w < npages newsz then \<exists>f. vmap m' d w = Some (mk_pte f (if None = Some w then PTE_W else PTE_W OR PTE_U))
        else vmap m' d w = K w"
        using gw le lay w by (auto simp: user_layout_def split: if_splits)
    qed
    ultimately show ?thesis using r(1,5) 3 by (auto simp: max_def)
  qed (use sp lay sz in \<open>auto simp: allocuvm_def max_def\<close>)
qed

text \<open>Loading into pages of user memory.\<close>

lemma space_write:
  assumes sp: "space D H m0 d m" and pg: "page m d v = Some f" "v < UPAGES" and b: "length bs = PGSIZE"
    and m1: "m1 = m\<lparr>frames := (frames m)(f := bs)\<rparr>"
  shows "space D H m0 d m1" "\<And>w. w < VPAGES \<Longrightarrow> vmap m1 d w = vmap m d w"
proof -
  have ok: "vm_ok (insert d D) H m" and dD: "d \<notin> D" using sp by (simp_all add: space_def)
  note wp = write_page [OF ok insertI1 pg(2,1) b m1]
  have vm: "vmap m1 d' w = vmap m d' w" if "d' \<in> insert d D" "w < VPAGES" for d' w
    using wp(2) [OF that] by (simp add: vmap_def)
  show "vmap m1 d w = vmap m d w" if "w < VPAGES" for w using vm [OF insertI1 that] .
  have "f \<noteq> g" if "d' \<in> D" "w < UPAGES" "page m d' w = Some g" for d' w g
    using wp(5) [of d' w] that dD by auto
  then have "stable D H m m1" using wp(4) by (auto simp: stable_def m1)
  moreover have "assets m1 d = assets m d"
  proof -
    have "owned m1 d = owned m d" by (rule owned_cong) (use wp(3) vm in \<open>simp_all add: page_vmap UPAGES_def VPAGES_def\<close>)
    then show ?thesis by (simp add: assets_def m1)
  qed
  ultimately show "space D H m0 d m1" by (intro space_trans [OF sp wp(1)]) (use vm in auto)
qed

lemma PGSIZE_ge: "32 \<le> PGSIZE" "52 \<le> PGSIZE"
  by (simp_all add: PGSIZE_def)

text \<open>\<open>reads_ok I ip\<close>: in the states \<open>I\<close> up to a page of the inode can be read at any offset.\<close>

definition reads_ok :: "('a fstate_scheme \<Rightarrow> bool) \<Rightarrow> nat \<Rightarrow> bool" where
  "reads_ok I ip \<longleftrightarrow> (\<forall>s off n. I s \<and> n \<le> PGSIZE \<longrightarrow> (\<exists>r bs s'. readi ip off n s = Ret (r, bs, s') \<and> I s' \<and> length bs \<le> n))"

lemma reads_ok_file:
  fixes s :: "'a fstate_scheme"
  shows "reads_ok (\<lambda>t :: 'a fstate_scheme. room t 1 \<and> file_at ip t \<and> inodes t = inodes s \<and> my_pid t = my_pid s \<and> outstanding t = outstanding s \<and>
    committing t = committing s) ip"
  unfolding reads_ok_def
proof (intro allI impI, elim conjE)
  fix t :: "'a fstate_scheme" and off n
  assume t: "room t 1" "file_at ip t" "inodes t = inodes s" "my_pid t = my_pid s" "outstanding t = outstanding s"
    "committing t = committing s" and n: "n \<le> PGSIZE"
  have dev: "di_type (dcopy ip t) \<noteq> T_DEV" "di_size (dcopy ip t) \<le> 71680" using t(2) by (simp_all add: file_at_def MAXFILE_bytes)
  show "\<exists>r bs s'. readi ip off n t = Ret (r, bs, s') \<and> (room s' 1 \<and> file_at ip s' \<and> inodes s' = inodes s \<and> my_pid s' = my_pid s \<and>
    outstanding s' = outstanding s \<and> committing s' = committing s) \<and> length bs \<le> n"
  proof (cases "off \<le> di_size (dcopy ip t)")
    case False
    then have "readi ip off n t = Ret (-1, [], t)" using dev by (simp add: readi_def Let_def)
    then show ?thesis using t by simp
  next
    case True
    then have "off + n < 4294967296" using dev(2) n by (simp add: PGSIZE_def)
    from readi_total [OF t(1) _ t(2) True this] obtain u where u: "readi ip off n t = Ret (int (length (slice (content_of ip t) off n)), slice (content_of ip t) off n, u)"
      "room u 1" "block_step t u" "bcontent u = bcontent t" by auto
    have "log_frame t u" using u(3) by (simp add: block_step_def)
    then have "outstanding u = outstanding t" "committing u = committing t" "my_pid u = my_pid t"
      using log_frame_fields [of t u] by simp_all
    moreover have "length (slice (content_of ip t) off n) \<le> n" by (simp add: slice_def)
    ultimately show ?thesis using u file_at_block(1) [OF u(3,4) t(2)] block_step_fs(1) [OF u(3)] t(3-6) by simp
  qed
qed

lemma load_loop_ok:
  assumes rd: "reads_ok I ip" and addr: "addr = v * PGSIZE" "addr + sz \<le> n * PGSIZE" and n: "n \<le> UPAGES"
    and "I s" and "space D H m0 d m" and "user_layout K d n None m"
  shows "\<exists>r s' m'. load_loop d addr ip off (k * PGSIZE) sz s m = Ret (r, s', m') \<and> I s' \<and> space D H m0 d m' \<and> user_layout K d n None m'"
  using assms(5-7)
proof (induction "sz - k * PGSIZE" arbitrary: k s m rule: less_induct)
  case less
  note sp = less.prems(2) and lay = less.prems(3) and unf = load_loop.simps [of d addr ip off "k * PGSIZE" sz]
  show ?case
  proof (cases "k * PGSIZE < sz")
    case False
    then show ?thesis using less.prems by (simp add: unf)
  next
    case True
    have a: "addr + k * PGSIZE = (v + k) * PGSIZE" by (simp add: addr(1) algebra_simps)
    then have "(v + k) * PGSIZE < n * PGSIZE" using True addr(2) by linarith
    then have w: "v + k < n" "v + k < UPAGES" "v + k < VPAGES" using n by (simp_all add: UPAGES_def VPAGES_def)
    have u: "u32 (addr + k * PGSIZE) = (v + k) * PGSIZE"
      unfolding a using w(3) by (simp add: u32_def VPAGES_def PGSIZE_def)
    from user_layout_page [OF lay w(1,2)] obtain f t where f: "page m d (v + k) = Some f" "ptab m d ((v + k) div 1024) = Some t"
      "pte_frame (get_pte (t, (v + k) mod 1024) m) = f" using mk_pte(3) [OF perm_less] by metis
    have look: "walkpgdir d ((v + k) * PGSIZE) False m = (Some (t, (v + k) mod 1024), m)"
      using walk_look [OF w(3), of 0 d m] f(2) by (simp add: PGSIZE_def)
    let ?n = "min (sz - k * PGSIZE) PGSIZE"
    obtain r bs s1 where r: "readi ip (u32 (off + k * PGSIZE)) ?n s = Ret (r, bs, s1)" "I s1" "length bs \<le> ?n"
      using rd less.prems(1) unfolding reads_ok_def by (metis min.cobounded2)
    define m1 where "m1 = m\<lparr>frames := (frames m)(f := overwrite (frames m f) 0 bs)\<rparr>"
    have "length (frames m f) = PGSIZE" using sp vm_okD(1) by (auto simp: space_def)
    then have "length (overwrite (frames m f) 0 bs) = PGSIZE" using r(3) by simp
    note sw = space_write [OF sp f(1) w(2) this m1_def]
    have lay1: "user_layout K d n None m1" by (rule user_layout_cong [OF sw(2) lay])
    have step: "load_loop d addr ip off (k * PGSIZE) sz s m =
        (if r \<noteq> int ?n then Ret (-1, s1, m1) else load_loop d addr ip off (Suc k * PGSIZE) sz s1 m1)"
      using True look r(1) f(3) by (simp add: unf u m1_def Let_def add.commute)
    have "sz - Suc k * PGSIZE < sz - k * PGSIZE" using True by (simp add: PGSIZE_def)
    from less.hyps [OF this r(2) sw(1) lay1] show ?thesis unfolding step using r(2) sw(1) lay1 by simp
  qed
qed

lemma word_at_less: "word_at bs i < 4294967296"
proof -
  have "length (slice bs (4 * i) 4) \<le> 4" by (simp add: slice_def)
  then have "256 ^ length (slice bs (4 * i) 4) \<le> (256 ^ 4 :: nat)" by (intro power_increasing) simp_all
  then show ?thesis using le_dec_bound [of "slice bs (4 * i) 4"] by (simp add: word_at_def)
qed

lemma load_segs_ok:
  assumes rd: "reads_ok I ip" and K: "\<And>w. w < UPAGES \<Longrightarrow> K w = None"
    and "I s" and "space D H m0 d m" and "user_layout K d (npages sz) None m" and "sz < KERNBASE"
  shows "\<exists>r s' m'. load_segs d ip n off sz s m = Ret (r, s', m') \<and> I s' \<and> space D H m0 d m' \<and>
    (\<forall>sz'. r = Some sz' \<longrightarrow> sz' < KERNBASE \<and> user_layout K d (npages sz') None m')"
  using assms(3-6)
proof (induction n arbitrary: off sz s m)
  case 0
  then show ?case by simp
next
  case (Suc n)
  obtain r bs s1 where r: "readi ip off 32 s = Ret (r, bs, s1)" "I s1"
    using rd Suc.prems(1) unfolding reads_ok_def by (metis PGSIZE_ge(1))
  let ?ph = "dec_proghdr bs"
  let ?top = "u32 (ph_vaddr ?ph + ph_memsz ?ph)"
  show ?case
  proof (cases "r \<noteq> 32 \<or> ph_type ?ph \<noteq> ELF_PROG_LOAD \<or> ph_memsz ?ph < ph_filesz ?ph \<or> ?top < ph_vaddr ?ph")
    case True
    then show ?thesis using r Suc.IH [OF r(2) Suc.prems(2-4)] Suc.prems by (auto simp: Let_def)
  next
    case False
    from space_alloc [OF Suc.prems(2,3) disjI1 [OF Suc.prems(4)] K] obtain sz' m1 where al: "allocuvm d sz ?top m = Ret (sz', m1)"
      "space D H m0 d m1" "sz' = 0 \<or> sz' = max sz ?top \<and> sz' < KERNBASE \<and> user_layout K d (npages sz') None m1" by blast
    show ?thesis
    proof (cases "sz' = 0 \<or> ph_vaddr ?ph mod PGSIZE \<noteq> 0")
      case True
      then show ?thesis using r al(1,2) False by (auto simp: Let_def)
    next
      case nz: False
      then have sz': "sz' = max sz ?top" "sz' < KERNBASE" "user_layout K d (npages sz') None m1" using al(3) by auto
      have va: "ph_vaddr ?ph = ph_vaddr ?ph div PGSIZE * PGSIZE" using nz div_mult_mod_eq [of "ph_vaddr ?ph" PGSIZE] by simp
      have b: "ph_vaddr ?ph < 4294967296" "ph_memsz ?ph < 4294967296"
        by (simp_all add: dec_proghdr_def word_at_less)
      have "?top = ph_vaddr ?ph + ph_memsz ?ph"
      proof (rule ccontr)
        assume a: "?top \<noteq> ph_vaddr ?ph + ph_memsz ?ph"
        then have ge: "\<not> ph_vaddr ?ph + ph_memsz ?ph < 4294967296" by (auto simp: u32_def)
        then have "?top = ph_vaddr ?ph + ph_memsz ?ph - 4294967296" using b by (simp add: u32_def le_mod_geq)
        moreover have "\<not> ?top < ph_vaddr ?ph" using False by blast
        ultimately show False using b ge by linarith
      qed
      then have "ph_vaddr ?ph + ph_filesz ?ph \<le> npages sz' * PGSIZE" using False sz'(1) npages_le(1) [of sz'] by linarith
      moreover have "npages sz' \<le> UPAGES" using npages_le(3) [OF less_imp_le [OF sz'(2)]] by (simp add: npages_def KERNBASE_def PGSIZE_def UPAGES_def)
      ultimately obtain r2 s2 m2 where ld: "load_loop d (ph_vaddr ?ph) ip (ph_off ?ph) (0 * PGSIZE) (ph_filesz ?ph) s1 m1 = Ret (r2, s2, m2)"
        "I s2" "space D H m0 d m2" "user_layout K d (npages sz') None m2"
        using load_loop_ok [OF rd va _ _ r(2) al(2) sz'(3)] by blast
      have "loaduvm d (ph_vaddr ?ph) ip (ph_off ?ph) (ph_filesz ?ph) s1 m1 = Ret (r2, s2, m2)"
        using ld(1) nz by (simp add: loaduvm_def)
      then have "load_segs d ip (Suc n) off sz s m =
          (if r2 < 0 then Ret (None, s2, m2) else load_segs d ip n (u32 (off + 32)) sz' s2 m2)"
        using r al(1) False nz by (simp add: Let_def)
      then show ?thesis using Suc.IH [OF ld(2-4) sz'(2)] ld(2,3) by simp
    qed
  qed
qed

section \<open>The stack\<close>

lemma vmap_entry: "v < VPAGES \<Longrightarrow> entry m' d v = entry m d v \<Longrightarrow> vmap m' d v = vmap m d v"
  by (simp add: vmap_def)

lemma guard_pte:
  shows "mk_pte f (PTE_W OR PTE_U) - (mk_pte f (PTE_W OR PTE_U) AND PTE_U) = mk_pte f PTE_W"
    "\<not> pte_user (mk_pte f PTE_W)" "pte_user (mk_pte f (PTE_W OR PTE_U))"
proof -
  have m: "e AND 4 = (e mod 8) AND (4 :: nat)" for e
  proof (rule bit_eqI)
    fix n
    have "bit (4 :: nat) n \<longleftrightarrow> n = 2" using bit_exp_iff [where 'a = nat, of 2 n] by simp
    moreover have "e mod 8 = take_bit 3 e" by (simp add: take_bit_eq_mod)
    ultimately show "bit (e AND 4) n \<longleftrightarrow> bit ((e mod 8) AND 4) n" by (auto simp: bit_and_iff bit_take_bit_iff)
  qed
  have p: "mk_pte f (PTE_W OR PTE_U) = 8 * (f * 512) + 7" "mk_pte f PTE_W = 8 * (f * 512) + 3"
    by (simp_all add: mk_pte_def PGSIZE_def PTE_W_def PTE_U_def PTE_P_def)
  have a: "(8 * x + 7) AND 4 = (4 :: nat)" "(8 * x + 3) AND 4 = (0 :: nat)" for x
    unfolding m [of "8 * x + 7"] m [of "8 * x + 3"] by (simp_all only: mod_mult_self4) simp_all
  show "mk_pte f (PTE_W OR PTE_U) - (mk_pte f (PTE_W OR PTE_U) AND PTE_U) = mk_pte f PTE_W"
    "\<not> pte_user (mk_pte f PTE_W)" "pte_user (mk_pte f (PTE_W OR PTE_U))"
    unfolding p unfolding pte_user_def PTE_U_def a by simp_all
qed

lemma space_clear:
  assumes sp: "space D H m0 d m" and lay: "user_layout K d n None m" and v: "v < n" "v < UPAGES"
  shows "\<exists>m'. clearpteu d (v * PGSIZE) m = Ret m' \<and> space D H m0 d m' \<and> user_layout K d n (Some v) m'"
proof -
  have ok: "vm_ok (insert d D) H m" and dD: "d \<notin> D" using sp by (simp_all add: space_def)
  have vp: "v < VPAGES" using v(2) by (simp add: UPAGES_def VPAGES_def)
  from user_layout_page [OF lay v] obtain f t where f: "vmap m d v = Some (mk_pte f (PTE_W OR PTE_U))" "page m d v = Some f"
    "ptab m d (v div 1024) = Some t" "get_pte (t, v mod 1024) m = mk_pte f (PTE_W OR PTE_U)" by auto
  have look: "walkpgdir d (v * PGSIZE) False m = (Some (t, v mod 1024), m)"
    using walk_look [OF vp, of 0 d m] f(3) by (simp add: PGSIZE_def)
  let ?m = "set_pte (t, v mod 1024) (mk_pte f PTE_W) m"
  have bf: "busy (insert d D) m f" by (rule busyI [of _ "User d v"]) (use v f(2) in simp_all)
  have e: "mk_pte f PTE_W < 4294967296"
    using mk_pte(5) [OF W_less] good_frame_bound [OF vm_okD(5) [OF ok bf]] by (simp add: VPAGES_def)
  note se = set_entry [OF ok insertI1 vp f(3) e refl]
  have maps: "vmap ?m d' w = (if d' = d \<and> w = v then Some (mk_pte f PTE_W) else vmap m d' w)" if "d' \<in> insert d D" "w < VPAGES" for d' w
    using se(2) [OF that] mk_pte(2) [OF W_less] by (auto simp: vmap_def)
  then have pages: "page ?m d' w = page m d' w" if "d' \<in> insert d D" "w < VPAGES" for d' w
    using that f(2) mk_pte(3) [OF W_less] by (auto simp: page_vmap)
  have "frame_of ?m x = frame_of m x" if "slot_of (insert d D) x" for x
    using that se(1) pages by (cases x) (auto simp: UPAGES_def VPAGES_def)
  then have sm: "same_maps (insert d D) m ?m" by (simp add: same_maps_def)
  have "vend ?m = vend m" by (simp add: set_pte_def)
  then have "vm_ok (insert d D) H ?m" using vm_ok_write [OF ok sm se(4) _ se(5)] by simp
  moreover have "owned ?m d = owned m d" by (rule owned_cong) (use se(1) pages in \<open>simp_all add: UPAGES_def VPAGES_def\<close>)
  then have "assets ?m d = assets m d" using se(4) by (simp add: assets_def)
  moreover have "stable D H m ?m" by (rule stable_mono [OF se(3)]) auto
  moreover have "vmap ?m d' w = vmap m d' w" if "d' \<in> D" "w < VPAGES" for d' w using maps [of d' w] that dD by auto
  ultimately have "space D H m0 d ?m" by (intro space_trans [OF sp]) auto
  moreover have "user_layout K d n (Some v) ?m" using lay maps [OF insertI1] v(1) by (auto simp: user_layout_def)
  moreover have "clearpteu d (v * PGSIZE) m = Ret ?m" using look f(4) guard_pte(1) by (simp add: clearpteu_def)
  ultimately show ?thesis by blast
qed

text \<open>A page of the kernel part that is mapped to devices.\<close>

lemma copyout_denied:
  assumes "buf \<noteq> []" and "w = va div PGSIZE" "w < VPAGES" and "vmap m d w = Some e" "\<not> pte_user e"
  shows "copyout d va buf m = Ret (-1, m)"
proof -
  have en: "entry m d w = e" "pte_present e" using assms(4) by (simp_all add: vmap_def split: if_splits)
  then obtain t where "ptab m d (w div 1024) = Some t" by (auto simp: entry_def pte_present_odd split: option.splits)
  from uva2ka_user [OF assms(3) this] have "uva2ka d (PGROUNDDOWN va) m = Ret None"
    using assms(2,5) en by (simp add: PGROUNDDOWN_def user_frame_def)
  then show ?thesis using assms(1) by (simp add: copyout.simps [of d va buf])
qed

text \<open>
  Copying \<open>l\<close> bytes to an address \<open>a\<close> below \<open>sp\<close> in the upper page of the stack: it goes wrong when they do not
  fit, also when \<open>a\<close> wraps around.
\<close>

definition below :: "nat \<Rightarrow> nat \<Rightarrow> nat \<Rightarrow> bool" where
  "below sp l a \<longleftrightarrow> a = u32 (sp + 4294967296 - l) \<or> a = u32 (sp + 4294967296 - l) div 4 * 4"

lemma space_copyout:
  assumes sp: "space D H m0 d m" and lay: "user_layout K d n (Some (n - 2)) m" and n: "2 \<le> n" "n < UPAGES"
    and K: "\<And>w. 1040384 \<le> w \<Longrightarrow> w < VPAGES \<Longrightarrow> K w = Some (mk_pte w PTE_W)"
    and a: "below s (length buf) a" "(n - 1) * PGSIZE \<le> s" "s \<le> n * PGSIZE" and len: "buf \<noteq> []" "length buf \<le> 33554432"
  shows "\<exists>r m'. copyout d a buf m = Ret (r, m') \<and> space D H m0 d m' \<and> user_layout K d n (Some (n - 2)) m' \<and>
    (r = 0 \<or> r = -1) \<and>
    (r = 0 \<longrightarrow> (n - 1) * PGSIZE \<le> a \<and> a + length buf \<le> s \<and> s < a + length buf + 4 \<and> (\<forall>b < KERNBASE.
       ubyte m' d b = (if a \<le> b \<and> b < a + length buf then Some (buf ! (b - a)) else ubyte m d b)))"
proof (cases "length buf \<le> s")
  case False
  have nb: "n * PGSIZE < KERNBASE" using n(2) by (simp add: UPAGES_def KERNBASE_def PGSIZE_def)
  have u: "u32 (s + 4294967296 - length buf) = s + 4294967296 - length buf" using False by (simp add: u32_def)
  have "1040384 * 4 * 1024 \<le> s + 4294967296 - length buf" using len(2) by simp
  then have "1040384 * 4 * 1024 \<le> a" "a < VPAGES * PGSIZE"
    using a(1) False div_le_mono [of "1040384 * 4 * 1024" "s + 4294967296 - length buf" 4]
      div_times_less_eq_dividend [of "s + 4294967296 - length buf" 4]
    unfolding below_def u VPAGES_def PGSIZE_def by auto
  then have w: "1040384 \<le> a div PGSIZE" "a div PGSIZE < VPAGES"
    by (simp_all add: less_eq_div_iff_mult_less_eq div_less_iff_less_mult PGSIZE_def)
  moreover have "\<not> a div PGSIZE < n" using w(1) n(2) by (simp add: UPAGES_def)
  ultimately have "vmap m d (a div PGSIZE) = Some (mk_pte (a div PGSIZE) PTE_W)" using lay K by (simp add: user_layout_def)
  then have "copyout d a buf m = Ret (-1, m)" using copyout_denied [OF len(1) refl w(2)] guard_pte(2) by blast
  then show ?thesis using sp lay by auto
next
  case True
  have ok: "vm_ok (insert d D) H m" and dD: "d \<notin> D" using sp by (simp_all add: space_def)
  have nb: "n * PGSIZE < KERNBASE" using n(2) by (simp add: UPAGES_def KERNBASE_def PGSIZE_def)
  have "s + 4294967296 - length buf = (s - length buf) + 4294967296" using True by simp
  then have u: "u32 (s + 4294967296 - length buf) = s - length buf" using a(3) nb
    by (simp only: u32_add) (rule u32_add, simp add: KERNBASE_def)
  have al: "a + length buf \<le> s" "s < a + length buf + 4" proof -
    have "a = s - length buf \<or> a = (s - length buf) div 4 * 4" using a(1) unfolding below_def u .
    moreover have "(s - length buf) div 4 * 4 \<le> s - length buf" "s - length buf < (s - length buf) div 4 * 4 + 4" by linarith+
    ultimately have "a \<le> s - length buf" "s - length buf < a + 4" by auto
    then show "a + length buf \<le> s" "s < a + length buf + 4" using True by linarith+
  qed
  have pt: "ptab m d (v div 1024) \<noteq> None" if "v * PGSIZE < a + length buf" for v
  proof -
    have "v * PGSIZE < n * PGSIZE" using that al(1) a(3) by linarith
    then have "v < n" "v < UPAGES" using n(2) by simp_all
    from user_layout_page [OF lay this] show ?thesis by blast
  qed
  have le: "a + length buf \<le> KERNBASE" using al(1) a(3) nb by linarith
  from copyout_ok [OF ok insertI1 le pt] obtain r k m' where r: "copyout d a buf m = Ret (r, m')" "vm_ok (insert d D) H m'"
    "\<And>d' w. d' \<in> insert d D \<Longrightarrow> w < VPAGES \<Longrightarrow> entry m' d' w = entry m d' w" "r = 0 \<and> k = length buf \<or> r = -1"
    "\<forall>b < KERNBASE. ubyte m' d b = (if a \<le> b \<and> b < a + k then Some (buf ! (b - a)) else ubyte m d b)"
    "\<And>f. (\<forall>v < UPAGES. user_frame m d v \<noteq> Some f) \<Longrightarrow> frames m' f = frames m f"
    "vfree m' = vfree m" "vend m' = vend m" "\<And>d' i. d' \<in> insert d D \<Longrightarrow> i < 1024 \<Longrightarrow> ptab m' d' i = ptab m d' i" by blast
  have vm: "vmap m' d' w = vmap m d' w" if "d' \<in> insert d D" "w < VPAGES" for d' w by (rule vmap_entry [OF that(2) r(3) [OF that]])
  have other: "frames m' g = frames m g" if og: "g \<in> H \<or> (\<exists>d' \<in> D. \<exists>w < UPAGES. page m d' w = Some g)" for g
  proof (rule r(6), intro allI impI notI)
    fix v assume v: "v < UPAGES" "user_frame m d v = Some g"
    have b: "busy (insert d D) m g" by (rule busyI [of _ "User d v"]) (use v user_page in auto)
    have "g \<notin> H" by (rule vm_okD(7) [OF ok b])
    then obtain d' w where w: "d' \<in> D" "w < UPAGES" "page m d' w = Some g" using og by blast
    then have "User d' w = User d v" using vm_okD(9) [OF ok, of "User d' w" "User d v" g] v user_page by auto
    then show False using w(1) dD by simp
  qed
  have st: "stable D H m m'" using r(8) other by (auto simp: stable_def)
  have "owned m' d = owned m d" by (rule owned_cong) (use r(9) vm in \<open>simp_all add: page_vmap UPAGES_def VPAGES_def\<close>)
  then have "space D H m0 d m'" by (intro space_trans [OF sp r(2) st]) (use vm r(7) in \<open>auto simp: assets_def\<close>)
  moreover have "user_layout K d n (Some (n - 2)) m'" by (rule user_layout_cong [OF vm [OF insertI1] lay])
  moreover have "(n - 1) * PGSIZE \<le> a" if "r = 0"
  proof (rule ccontr)
    assume lt: "\<not> (n - 1) * PGSIZE \<le> a"
    let ?g = "max a ((n - 2) * PGSIZE)"
    have n1: "(n - 1) * PGSIZE = (n - 2) * PGSIZE + PGSIZE" using n(1) by (simp add: algebra_simps flip: add_mult_distrib)
    have "(n - 2) * PGSIZE < a + length buf" using al(2) a(2) n1 by (simp add: PGSIZE_def)
    then have g: "a \<le> ?g" "?g < a + length buf" "?g < (n - 1) * PGSIZE" using len(1) lt n1 by (auto simp: PGSIZE_def)
    then have "?g div PGSIZE = n - 2"
    proof -
      have "(n - 2) * PGSIZE \<le> ?g" "?g < Suc (n - 2) * PGSIZE" using g(3) n1 by simp_all
      then show ?thesis by (intro div_nat_eqI) (simp_all add: mult.commute)
    qed
    moreover have "n - 2 < n" "n - 2 < UPAGES" using n by simp_all
    from user_layout_page [OF lay this] obtain f where f: "vmap m d (n - 2) = Some (mk_pte f PTE_W)" by auto
    then have "entry m d (n - 2) = mk_pte f PTE_W" by (simp add: vmap_def split: if_splits)
    then have "entry m' d (n - 2) = mk_pte f PTE_W" using r(3) [OF insertI1, of "n - 2"] n by (simp add: UPAGES_def VPAGES_def)
    then have "user_frame m' d (n - 2) = None" by (simp add: user_frame_def guard_pte(2))
    ultimately have "ubyte m' d ?g = None" by (simp add: ubyte_def)
    moreover have "?g < KERNBASE" using g(2) le by linarith
    then have "ubyte m' d ?g \<noteq> None" using r(4,5) g(1,2) that by simp
    ultimately show False by simp
  qed
  ultimately show ?thesis using r(1,4,5) al by auto
qed

text \<open>A string with its terminating zero in user memory.\<close>

definition string_at :: "vmem \<Rightarrow> nat \<Rightarrow> nat \<Rightarrow> byte list \<Rightarrow> bool" where
  "string_at m d u a \<longleftrightarrow> u + length a < KERNBASE \<and> (\<forall>j \<le> length a. ubyte m d (u + j) = Some ((a @ [0]) ! j))"

lemma push_strings_ok:
  assumes n: "2 \<le> n" "n < UPAGES" and K: "\<And>w. 1040384 \<le> w \<Longrightarrow> w < VPAGES \<Longrightarrow> K w = Some (mk_pte w PTE_W)"
    and "space D H m0 d m" and "user_layout K d n (Some (n - 2)) m" and "(n - 1) * PGSIZE \<le> s" "s \<le> n * PGSIZE"
    and "\<And>a. a \<in> set argv \<Longrightarrow> length a < 33554432" and "argc \<le> MAXARG"
  shows "\<exists>r m'. push_strings d argv argc s us m = Ret (r, m') \<and> space D H m0 d m' \<and> user_layout K d n (Some (n - 2)) m' \<and>
    (\<forall>s' us'. r = Some (s', us') \<longrightarrow> (n - 1) * PGSIZE \<le> s' \<and> s' \<le> s \<and> argc + length argv \<le> MAXARG \<and>
       (\<exists>vs. us' = us @ vs \<and> list_all2 (\<lambda>u a. string_at m' d u a \<and> s' \<le> u \<and> u + length a < KERNBASE) vs argv) \<and>
       (\<forall>b. s \<le> b \<and> b < KERNBASE \<longrightarrow> ubyte m' d b = ubyte m d b))"
  using assms(4-9)
proof (induction argv arbitrary: argc s us m)
  case Nil
  then show ?case by simp
next
  case (Cons x argv)
  note sp = Cons.prems(1) and lay = Cons.prems(2) and s = Cons.prems(3,4)
  show ?case
  proof (cases "argc < MAXARG")
    case False
    then show ?thesis using sp lay by simp
  next
    case True
    let ?a = "u32 (s + 4294967296 - (length x + 1)) div 4 * 4"
    have "below s (length (x @ [0])) ?a" by (simp add: below_def)
    moreover have "length (x @ [0]) \<le> 33554432" using Cons.prems(5) [of x] by simp
    ultimately obtain r m1 where r: "copyout d ?a (x @ [0]) m = Ret (r, m1)" "space D H m0 d m1" "user_layout K d n (Some (n - 2)) m1"
      "r = 0 \<or> r = -1"
      "r = 0 \<Longrightarrow> (n - 1) * PGSIZE \<le> ?a \<and> ?a + length (x @ [0]) \<le> s \<and> (\<forall>b < KERNBASE.
         ubyte m1 d b = (if ?a \<le> b \<and> b < ?a + length (x @ [0]) then Some ((x @ [0]) ! (b - ?a)) else ubyte m d b))"
      using space_copyout [OF sp lay n K _ s, of "x @ [0]" ?a] by blast
    show ?thesis
    proof (cases "r < 0")
      case rn: True
      then have "push_strings d (x # argv) argc s us m = Ret (None, m1)" using r(1) True by simp
      then show ?thesis using r(2,3) by simp
    next
      case False
      have "r = 0" using False r(4) by auto
      note a = r(5) [OF this]
      have up: "?a \<le> n * PGSIZE" "s < KERNBASE" using a s(2) n(2) unfolding UPAGES_def KERNBASE_def PGSIZE_def by linarith+
      have "argc + 1 \<le> MAXARG" using True by simp
      from Cons.IH [OF r(2,3) conjunct1 [OF a] up(1) _ this, of "us @ [?a]"] Cons.prems(5) obtain r2 m2 where
        m2: "push_strings d argv (argc + 1) ?a (us @ [?a]) m1 = Ret (r2, m2)" "space D H m0 d m2" "user_layout K d n (Some (n - 2)) m2"
        "\<And>s' us'. r2 = Some (s', us') \<Longrightarrow> (n - 1) * PGSIZE \<le> s' \<and> s' \<le> ?a \<and> argc + 1 + length argv \<le> MAXARG \<and>
           (\<exists>vs. us' = (us @ [?a]) @ vs \<and> list_all2 (\<lambda>u a. string_at m2 d u a \<and> s' \<le> u \<and> u + length a < KERNBASE) vs argv) \<and> (\<forall>b. ?a \<le> b \<and> b < KERNBASE \<longrightarrow> ubyte m2 d b = ubyte m1 d b)"
        by auto
      have ret: "push_strings d (x # argv) argc s us m = Ret (r2, m2)" using r(1) True False m2(1) by (simp add: Let_def)
      have "(n - 1) * PGSIZE \<le> s' \<and> s' \<le> s \<and> argc + length (x # argv) \<le> MAXARG \<and>
          (\<exists>vs. us' = us @ vs \<and> list_all2 (\<lambda>u a. string_at m2 d u a \<and> s' \<le> u \<and> u + length a < KERNBASE) vs (x # argv)) \<and> (\<forall>b. s \<le> b \<and> b < KERNBASE \<longrightarrow> ubyte m2 d b = ubyte m d b)"
        if some: "r2 = Some (s', us')" for s' us'
      proof -
        obtain vs where vs: "us' = (us @ [?a]) @ vs" "list_all2 (\<lambda>u a. string_at m2 d u a \<and> s' \<le> u \<and> u + length a < KERNBASE) vs argv" and
          lo: "(n - 1) * PGSIZE \<le> s'" "s' \<le> ?a" "argc + 1 + length argv \<le> MAXARG" and
          keep: "\<And>b. ?a \<le> b \<Longrightarrow> b < KERNBASE \<Longrightarrow> ubyte m2 d b = ubyte m1 d b" using m2(4) [OF some] by blast
        have "string_at m2 d ?a x"
          unfolding string_at_def
        proof (intro conjI allI impI)
          show "?a + length x < KERNBASE" using a up(2) by simp
        next
          fix j assume j: "j \<le> length x"
          have "?a + j < KERNBASE" using a j up(2) by simp
          then show "ubyte m2 d (?a + j) = Some ((x @ [0]) ! j)" using keep [of "?a + j"] a j by simp
        qed
        moreover have "?a + length x < KERNBASE" using a up(2) by simp
        ultimately have "us' = us @ (?a # vs)"
          "list_all2 (\<lambda>u a. string_at m2 d u a \<and> s' \<le> u \<and> u + length a < KERNBASE) (?a # vs) (x # argv)" using vs lo(2) by simp_all
        moreover have "ubyte m2 d b = ubyte m d b" if "s \<le> b" "b < KERNBASE" for b
          using keep [of b] a that by simp
        ultimately show ?thesis using lo a by auto
      qed
      then show ?thesis using ret m2(2,3) by blast
    qed
  qed
qed

lemma length_word_bytes [simp]: "length (word_bytes ws) = 4 * length ws"
  by (induction ws) (simp_all add: word_bytes_def)

definition args_on_stack :: "vmem \<Rightarrow> nat \<Rightarrow> byte list list \<Rightarrow> nat \<Rightarrow> bool" where
  "args_on_stack m d argv sp \<longleftrightarrow> (\<exists>us. list_all2 (string_at m d) us argv \<and> sp + 4 * (length argv + 4) \<le> KERNBASE \<and>
     (\<forall>j < 4 * (length argv + 4). ubyte m d (sp + j) =
        Some (word_bytes ([4294967295, length argv, sp + 12] @ us @ [0]) ! j)))"

lemma push_vector_ok:
  assumes n: "2 \<le> n" "n < UPAGES" and K: "\<And>w. 1040384 \<le> w \<Longrightarrow> w < VPAGES \<Longrightarrow> K w = Some (mk_pte w PTE_W)"
    and sp: "space D H m0 d m" and lay: "user_layout K d n (Some (n - 2)) m" and s: "(n - 1) * PGSIZE \<le> s" "s \<le> n * PGSIZE"
    and us: "length us \<le> MAXARG" "list_all2 (\<lambda>u a. string_at m d u a \<and> s \<le> u \<and> u + length a < KERNBASE) us argv"
  shows "\<exists>r m'. push_vector d s us m = Ret (r, m') \<and> space D H m0 d m' \<and> user_layout K d n (Some (n - 2)) m' \<and>
    (\<forall>sp. r = Some sp \<longrightarrow> (n - 1) * PGSIZE \<le> sp \<and> sp < n * PGSIZE \<and> args_on_stack m' d argv sp)"
proof -
  let ?argc = "length us"
  let ?ws = "[4294967295, ?argc, u32 (s + 4294967296 - (?argc + 1) * 4)] @ us @ [0]"
  let ?a = "u32 (s + 4294967296 - (3 + ?argc + 1) * 4)"
  have len: "length (word_bytes ?ws) = (3 + ?argc + 1) * 4" by simp
  have b: "below s (length (word_bytes ?ws)) ?a" unfolding len below_def by simp
  have ne: "word_bytes ?ws \<noteq> []" using len by (metis add_is_0 length_0_conv mult_is_0 one_neq_zero zero_neq_numeral)
  have l: "length (word_bytes ?ws) \<le> 33554432" unfolding len using us(1) by (simp add: MAXARG_def)
  from space_copyout [OF sp lay n K b s ne l] obtain r m' where r: "copyout d ?a (word_bytes ?ws) m = Ret (r, m')"
    "space D H m0 d m'" "user_layout K d n (Some (n - 2)) m'" "r = 0 \<or> r = -1"
    "r = 0 \<Longrightarrow> (n - 1) * PGSIZE \<le> ?a \<and> ?a + length (word_bytes ?ws) \<le> s \<and> (\<forall>b < KERNBASE.
       ubyte m' d b = (if ?a \<le> b \<and> b < ?a + length (word_bytes ?ws) then Some (word_bytes ?ws ! (b - ?a)) else ubyte m d b))" by blast
  have ret: "push_vector d s us m = Ret (if r < 0 then None else Some ?a, m')" using r(1) by (simp add: push_vector_def Let_def)
  have nb: "s < KERNBASE" using s(2) n(2) unfolding UPAGES_def KERNBASE_def PGSIZE_def by linarith
  have "(n - 1) * PGSIZE \<le> ?a \<and> ?a < n * PGSIZE \<and> args_on_stack m' d argv ?a" if "\<not> r < 0"
  proof -
    have "r = 0" using that r(4) by auto
    note a = r(5) [OF this]
    have le: "(3 + ?argc + 1) * 4 \<le> s" using a unfolding len by linarith
    then have "s + 4294967296 - (3 + ?argc + 1) * 4 = (s - (3 + ?argc + 1) * 4) + 4294967296" by simp
    then have ea: "?a = s - (3 + ?argc + 1) * 4" using nb by (simp only:) (rule u32_add, simp add: KERNBASE_def)
    have "s + 4294967296 - (?argc + 1) * 4 = (s - (?argc + 1) * 4) + 4294967296" using le by simp
    then have e2: "u32 (s + 4294967296 - (?argc + 1) * 4) = ?a + 12"
      using nb le ea by (simp only: u32_add) (subst u32_add, simp_all add: KERNBASE_def)
    have la: "length us = length argv" using us(2) by (rule list_all2_lengthD)
    have keep: "ubyte m' d b = ubyte m d b" if "s \<le> b" "b < KERNBASE" for b using a that by simp
    have "list_all2 (string_at m' d) us argv"
      unfolding list_all2_iff
    proof (intro conjI ballI, rule la, clarify)
      fix u x assume ux: "(u, x) \<in> set (zip us argv)"
      then have "s \<le> u" "string_at m d u x" "u + length x < KERNBASE" using us(2) by (auto simp: list_all2_iff)
      then show "string_at m' d u x" using keep by (simp add: string_at_def)
    qed
    moreover have "ubyte m' d (?a + j) = Some (word_bytes ([4294967295, length argv, ?a + 12] @ us @ [0]) ! j)"
      if "j < 4 * (length argv + 4)" for j
    proof -
      have j: "j < length (word_bytes ?ws)" using that la by simp
      then have "?a + j < KERNBASE" using a nb by linarith
      then have "ubyte m' d (?a + j) = Some (word_bytes ?ws ! j)" using a j by simp
      moreover have "word_bytes ?ws = word_bytes ([4294967295, length argv, ?a + 12] @ us @ [0])"
        unfolding e2 unfolding la by (rule refl)
      ultimately show ?thesis by (simp only:)
    qed
    moreover have "?a + 4 * (length argv + 4) \<le> KERNBASE"
    proof -
      have gen: "A + Y \<le> KERNBASE" if "A + X \<le> s" "Y = X" for A X Y using that nb by linarith
      have "?a + (3 + ?argc + 1) * 4 \<le> s" using a unfolding len by blast
      moreover have "4 * (length argv + 4) = (3 + ?argc + 1) * 4" by (simp add: la)
      ultimately show ?thesis by (rule gen)
    qed
    ultimately have "args_on_stack m' d argv ?a" unfolding args_on_stack_def by blast
    moreover have "?a < n * PGSIZE"
    proof -
      have gen: "A < N" if "A + X \<le> s" "s \<le> N" "0 < X" for A X N using that by linarith
      have "?a + (3 + ?argc + 1) * 4 \<le> s" using a unfolding len by blast
      then show ?thesis by (rule gen [OF _ s(2)]) simp
    qed
    ultimately show ?thesis using a \<open>args_on_stack m' d argv ?a\<close> by blast
  qed
  then show ?thesis using ret r(2,3) by auto
qed

lemma setup_stack_ok:
  assumes sp: "space D H m0 d m" and lay: "user_layout K d (npages sz) None m" and sz: "sz < KERNBASE"
    and K: "\<And>w. w < UPAGES \<Longrightarrow> K w = None" "\<And>w. 1040384 \<le> w \<Longrightarrow> w < VPAGES \<Longrightarrow> K w = Some (mk_pte w PTE_W)"
    and args: "\<And>a. a \<in> set argv \<Longrightarrow> length a < 33554432"
  shows "\<exists>r m'. setup_stack d sz argv m = Ret (r, m') \<and> space D H m0 d m' \<and>
    (\<forall>sz' sp. r = Some (sz', sp) \<longrightarrow> sz' = (npages sz + 2) * PGSIZE \<and> user_layout K d (npages sz + 2) (Some (npages sz)) m' \<and>
       (npages sz + 1) * PGSIZE \<le> sp \<and> sp < sz' \<and> args_on_stack m' d argv sp)"
proof -
  let ?n = "npages sz"
  have nU: "?n \<le> UPAGES" using npages_le(3) [OF less_imp_le [OF sz]] by (simp add: npages_def KERNBASE_def PGSIZE_def UPAGES_def)
  have up: "PGROUNDUP sz = ?n * PGSIZE" by (rule PGROUNDUP_npages) (use sz in simp)
  have np: "npages (k * PGSIZE) = k" for k by (simp add: npages_def PGSIZE_def)
  have u: "u32 (?n * PGSIZE + 2 * PGSIZE) = (?n + 2) * PGSIZE" using nU by (simp add: u32_def UPAGES_def PGSIZE_def)
  have lay0: "user_layout K d (npages (?n * PGSIZE)) None m" using lay by (simp add: np)
  have "?n * PGSIZE \<le> (?n + 2) * PGSIZE" by simp
  from space_alloc [OF sp lay0 disjI2 [OF this] K(1)] obtain r m1 where al: "allocuvm d (?n * PGSIZE) ((?n + 2) * PGSIZE) m = Ret (r, m1)"
    "space D H m0 d m1" "r = 0 \<or> r = max (?n * PGSIZE) ((?n + 2) * PGSIZE) \<and> r < KERNBASE \<and> user_layout K d (npages r) None m1" by blast
  show ?thesis
  proof (cases "r = 0")
    case True
    then show ?thesis using al(1,2) by (simp add: setup_stack_def up u)
  next
    case False
    then have r: "r = (?n + 2) * PGSIZE" "r < KERNBASE" "user_layout K d (?n + 2) None m1"
      using al(3) np [of "?n + 2"] by (auto simp: max_def)
    have n: "2 \<le> ?n + 2" "?n + 2 < UPAGES" using r(1,2) by (simp_all add: UPAGES_def KERNBASE_def PGSIZE_def)
    have g: "?n < ?n + 2" "?n < UPAGES" using n by simp_all
    from space_clear [OF al(2) r(3) g] obtain m2 where m2: "clearpteu d (?n * PGSIZE) m1 = Ret m2" "space D H m0 d m2"
      "user_layout K d (?n + 2) (Some (?n + 2 - 2)) m2" by auto
    have s: "(?n + 2 - 1) * PGSIZE \<le> (?n + 2) * PGSIZE" "0 \<le> MAXARG" by simp_all
    from push_strings_ok [OF n K(2) m2(2,3) s(1) order_refl args s(2), where us = "[]"] obtain r3 m3 where
      m3: "push_strings d argv 0 ((?n + 2) * PGSIZE) [] m2 = Ret (r3, m3)" "space D H m0 d m3" "user_layout K d (?n + 2) (Some (?n + 2 - 2)) m3"
      "\<And>s' us'. r3 = Some (s', us') \<Longrightarrow> (?n + 2 - 1) * PGSIZE \<le> s' \<and> s' \<le> (?n + 2) * PGSIZE \<and> 0 + length argv \<le> MAXARG \<and>
       (\<exists>vs. us' = [] @ vs \<and> list_all2 (\<lambda>u a. string_at m3 d u a \<and> s' \<le> u \<and> u + length a < KERNBASE) vs argv)" by blast
    have sub: "(?n + 2) * PGSIZE - 2 * PGSIZE = ?n * PGSIZE" by (simp add: PGSIZE_def)
    have step: "setup_stack d sz argv m = (case r3 of None \<Rightarrow> Ret (None, m3)
        | Some (s, us) \<Rightarrow> kbind (push_vector d s us m3) (\<lambda>(r, m). Ret (map_option (Pair ((?n + 2) * PGSIZE)) r, m)))"
    proof -
      define T where "T = (?n + 2) * PGSIZE"
      note eq = al(1) m3(1) sub r(1)
      show ?thesis
        using eq False m2(1) unfolding setup_stack_def up Let_def u T_def [symmetric] by simp
    qed
    show ?thesis
    proof (cases r3)
      case None
      then show ?thesis using step m3(2) by simp
    next
      case (Some x)
      obtain s' us where x: "x = (s', us)" by (cases x)
      note f = m3(4) [OF Some [unfolded x]]
      then have us: "list_all2 (\<lambda>u a. string_at m3 d u a \<and> s' \<le> u \<and> u + length a < KERNBASE) us argv" by auto
      then have "length us \<le> MAXARG" using f list_all2_lengthD by fastforce
      from push_vector_ok [OF n K(2) m3(2,3) _ _ this us] f obtain r4 m4 where
        m4: "push_vector d s' us m3 = Ret (r4, m4)" "space D H m0 d m4" "user_layout K d (?n + 2) (Some (?n + 2 - 2)) m4"
        "\<And>sp. r4 = Some sp \<Longrightarrow> (?n + 2 - 1) * PGSIZE \<le> sp \<and> sp < (?n + 2) * PGSIZE \<and> args_on_stack m4 d argv sp" by blast
      have "setup_stack d sz argv m = Ret (map_option (Pair ((?n + 2) * PGSIZE)) r4, m4)"
        using step Some x m4(1) by simp
      then show ?thesis using m4(2-4) by auto
    qed
  qed
qed

lemma args_on_stack_cong:
  assumes vm: "\<And>w. w < VPAGES \<Longrightarrow> vmap m' d w = vmap m d w" and st: "stable E H m m'" "d \<in> E" and "args_on_stack m d argv sp"
  shows "args_on_stack m' d argv sp"
proof -
  have ub: "ubyte m' d b = ubyte m d b" if "b < KERNBASE" for b
  proof -
    have w: "b div PGSIZE < UPAGES" using that by (simp add: KERNBASE_def PGSIZE_def UPAGES_def less_mult_imp_div_less)
    have uf: "user_frame k d v = (case vmap k d v of None \<Rightarrow> None | Some e \<Rightarrow> if pte_user e then Some (pte_frame e) else None)" for k v
      by (simp add: user_frame_def vmap_def)
    have "user_frame m' d (b div PGSIZE) = user_frame m d (b div PGSIZE)" using vm w by (simp add: uf UPAGES_def VPAGES_def)
    then show ?thesis using stableD [OF st w] user_page by (auto simp: ubyte_def map_option_case split: option.split)
  qed
  have "string_at m' d u x" if "string_at m d u x" for u x using that ub by (simp add: string_at_def)
  moreover obtain us where us: "list_all2 (string_at m d) us argv" "sp + 4 * (length argv + 4) \<le> KERNBASE"
    "\<And>j. j < 4 * (length argv + 4) \<Longrightarrow> ubyte m d (sp + j) = Some (word_bytes ([4294967295, length argv, sp + 12] @ us @ [0]) ! j)"
    using assms(4) unfolding args_on_stack_def by blast
  ultimately have "list_all2 (string_at m' d) us argv" by (blast intro: list_all2_mono)
  moreover have "ubyte m' d (sp + j) = Some (word_bytes ([4294967295, length argv, sp + 12] @ us @ [0]) ! j)"
    if "j < 4 * (length argv + 4)" for j
  proof -
    have "sp + j < KERNBASE" using that us(2) by linarith
    then show ?thesis using ub us(3) [OF that] by simp
  qed
  ultimately show ?thesis using us(2) unfolding args_on_stack_def by blast
qed

section \<open>exec\<close>

lemma kmap_devices:
  assumes q: "256 < q" "q < 57344" and w: "1040384 \<le> w" "w < VPAGES"
  shows "kernel_map (kmap (KERNBASE + q * 4096)) w = Some (mk_pte w PTE_W)"
proof -
  have v: "V2P (KERNBASE + EXTMEM) = 256 * 4096" "V2P (KERNBASE + q * 4096) = q * 4096"
    using q by (simp_all add: V2P_kernel KERNBASE_def EXTMEM_def)
  have n: "u32 (EXTMEM + 4294967296 - 0) = 256 * 4096" "u32 (0 + 4294967296 - DEVSPACE) = 8192 * 4096"
    by (simp_all add: u32_def EXTMEM_def DEVSPACE_def)
  have "q * 4096 + 4294967296 - 256 * 4096 = (q - 256) * 4096 + 4294967296" using q by simp
  then have n2: "u32 (q * 4096 + 4294967296 - 256 * 4096) = (q - 256) * 4096" using q by (simp only:) (rule u32_add, simp)
  have "PHYSTOP + 4294967296 - q * 4096 = (57344 - q) * 4096 + 4294967296" using q by (simp add: PHYSTOP_def)
  then have n3: "u32 (PHYSTOP + 4294967296 - q * 4096) = (57344 - q) * 4096" using q by (simp only:) (rule u32_add, simp)
  have d: "(KERNBASE + q * 4096) div PGSIZE = 524288 + q" "KERNBASE div PGSIZE = 524288" "(KERNBASE + EXTMEM) div PGSIZE = 524544"
    "DEVSPACE div PGSIZE = 1040384"
    by (simp_all add: KERNBASE_def PGSIZE_def EXTMEM_def DEVSPACE_def)
  show ?thesis
    unfolding kmap_def v kernel_map.simps n n2 n3 d Let_def using q w by (simp add: PGSIZE_def VPAGES_def)
qed

lemma put_file_None [simp]: "put_file None s = Ret s"
  by (simp add: put_file_def)

section \<open>The two ways exec ends\<close>

text \<open>What a result of \<open>exec\<close> says of memory: nothing has changed, or the process has its new address space.\<close>

definition exec_outcome where
  "exec_outcome K D H m argv p out \<longleftrightarrow> (\<exists>r p' s' m'. out = Ret (r, p', s', m') \<and>
    (r = -1 \<and> p' = p \<and> unmade D H m m' \<or>
     r = 0 \<and> up_pgdir p' \<notin> D \<and> vm_ok (insert (up_pgdir p') (D - {up_pgdir p})) H m' \<and> stable (D - {up_pgdir p}) H m m' \<and>
       (\<forall>d \<in> D - {up_pgdir p}. \<forall>w < VPAGES. vmap m' d w = vmap m d w) \<and>
       {f. \<exists>w < UPAGES. page m (up_pgdir p) w = Some f} \<subseteq> set (vfree m') \<and>
       (\<exists>n. up_sz p' = (n + 2) * PGSIZE \<and> user_layout K (up_pgdir p') (n + 2) (Some n) m' \<and>
          (n + 1) * PGSIZE \<le> up_esp p' \<and> up_esp p' < up_sz p' \<and> args_on_stack m' (up_pgdir p') argv (up_esp p'))))"

lemma exec_undo:
  assumes "space D H m d k" and "\<exists>u. put_file x t = Ret u"
  shows "exec_outcome K D H m argv p (exec_bad x (Some d) p t k)"
proof -
  obtain k' where "freevm (Some d) k = Ret k'" "unmade D H m k'" using give_up [OF assms(1)] by blast
  then show ?thesis using assms(2) by (auto simp: exec_outcome_def exec_bad_def free_space_def)
qed

lemma exec_undo_early:
  assumes "unmade D H m k" and "\<exists>u. put_file x t = Ret u"
  shows "exec_outcome K D H m argv p (exec_bad x None p t k)"
  using assms by (auto simp: exec_outcome_def exec_bad_def free_space_def)

text \<open>The commit: the old address space is freed, and nothing that the new one or the others rest on changes.\<close>

lemma exec_commit:
  assumes sp: "space D H m d m3" and old: "up_pgdir p \<in> D"
    and lay: "user_layout K d (n + 2) (Some n) m3" and args: "args_on_stack m3 d argv e"
    and e: "(n + 1) * PGSIZE \<le> e" "e < (n + 2) * PGSIZE"
    and p': "up_pgdir p' = d" "up_sz p' = (n + 2) * PGSIZE" "up_esp p' = e"
  shows "exec_outcome K D H m argv p (kbind (freevm (Some (up_pgdir p)) m3) (\<lambda>m. Ret (0, p', t, m)))"
proof -
  let ?D = "D - {up_pgdir p}"
  have d: "d \<notin> D" "insert d D - {up_pgdir p} = insert d ?D" using sp old by (auto simp: space_def)
  have "vm_ok (insert d D) H m3" "up_pgdir p \<in> insert d D" using sp old by (simp_all add: space_def)
  from freevm_ok [OF this] obtain m4 where m4: "freevm (Some (up_pgdir p)) m3 = Ret m4" "vm_ok (insert d ?D) H m4"
    "set (vfree m4) = set (vfree m3) \<union> owned m3 (up_pgdir p)" "stable (insert d ?D) H m3 m4"
    "\<And>d' w. d' \<in> insert d ?D \<Longrightarrow> w < VPAGES \<Longrightarrow> vmap m4 d' w = vmap m3 d' w" unfolding d(2) by blast
  have maps: "vmap m3 d' w = vmap m d' w" if "d' \<in> D" "w < VPAGES" for d' w using sp that by (simp add: space_def)
  have pg: "page m3 d' w = page m d' w" if "d' \<in> D" "w < UPAGES" for d' w
    using maps [OF that(1), of w] that(2) by (simp add: page_vmap UPAGES_def VPAGES_def)
  have lay4: "user_layout K d (n + 2) (Some n) m4" by (rule user_layout_cong [OF m4(5) [OF insertI1] lay])
  have args4: "args_on_stack m4 d argv e" by (rule args_on_stack_cong [OF m4(5) [OF insertI1] m4(4) insertI1 args])
  have "stable ?D H m m3" by (rule stable_mono [of D H m m3]) (use sp in \<open>auto simp: space_def\<close>)
  then have st4: "stable ?D H m m4" by (rule stable_trans [OF _ stable_mono [OF m4(4)]]) (use pg in auto)
  have fr: "{f. \<exists>w < UPAGES. page m (up_pgdir p) w = Some f} \<subseteq> set (vfree m4)"
    using pg [OF old] unfolding m4(3) owned_def by auto
  have vm4: "\<forall>d' \<in> ?D. \<forall>w < VPAGES. vmap m4 d' w = vmap m d' w" using m4(5) maps by simp
  have "kbind (freevm (Some (up_pgdir p)) m3) (\<lambda>m. Ret (0, p', t, m)) = Ret (0, p', t, m4)" using m4(1) by simp
  then show ?thesis unfolding exec_outcome_def
    by (intro exI conjI, assumption, intro disjI2) (use d(1) m4(2) st4 vm4 fr e lay4 args4 p' in \<open>auto intro!: exI [of _ n]\<close>)
qed

text \<open>What is left of \<open>exec\<close> when it has the new page directory \<open>d\<close>.\<close>

definition exec_image where
  "exec_image path argv p ip e d s m =
     kbind (load_segs d ip (e_phnum e) (e_phoff e) 0 s m) (\<lambda>(l, s, m).
       case l of None \<Rightarrow> exec_bad (Some ip) (Some d) p s m
       | Some sz \<Rightarrow>
           kbind (put_file (Some ip) s) (\<lambda>s.
           kbind (setup_stack d sz argv m) (\<lambda>(st, m).
             case st of None \<Rightarrow> exec_bad None (Some d) p s m
             | Some (sz, sp) \<Rightarrow>
                 kbind (freevm (Some (up_pgdir p)) m) (\<lambda>m.
                   Ret (0, p\<lparr>up_name := take 15 (last_elem path path), up_pgdir := d, up_sz := sz,
                     up_eip := e_entry e, up_esp := sp\<rparr>, s, m)))))"

lemma exec_image_ok:
  assumes sp: "space D H m d m1" and lay: "user_layout K d (npages 0) None m1" and old: "up_pgdir p \<in> D"
    and K: "\<And>w. w < UPAGES \<Longrightarrow> K w = None" and Kd: "\<And>w. 1040384 \<le> w \<Longrightarrow> w < VPAGES \<Longrightarrow> K w = Some (mk_pte w PTE_W)"
    and args: "\<forall>a \<in> set argv. length a < 33554432" and reads: "reads_ok I ip"
    and close: "\<forall>t. I t \<longrightarrow> (\<exists>u. put_file (Some ip) t = Ret u)" and t: "I t"
  shows "exec_outcome K D H m argv p (exec_image path argv p ip e d t m1)"
proof -
  from load_segs_ok [OF reads K t sp lay, of "e_phnum e" "e_phoff e"] obtain l s5 m2 where
    l: "load_segs d ip (e_phnum e) (e_phoff e) 0 t m1 = Ret (l, s5, m2)" "I s5" "space D H m d m2"
      "\<And>sz. l = Some sz \<Longrightarrow> sz < KERNBASE \<and> user_layout K d (npages sz) None m2" by (auto simp: KERNBASE_def)
  obtain s6 where s6: "put_file (Some ip) s5 = Ret s6" using close l(2) by blast
  show ?thesis
  proof (cases l)
    case None
    then have "exec_image path argv p ip e d t m1 = exec_bad (Some ip) (Some d) p s5 m2" using l(1) by (simp add: exec_image_def)
    moreover have "\<exists>u. put_file (Some ip) s5 = Ret u" using s6 by blast
    ultimately show ?thesis using exec_undo [OF l(3)] by metis
  next
    case sz: (Some sz)
    from setup_stack_ok [OF l(3) conjunct2 [OF l(4) [OF sz]] conjunct1 [OF l(4) [OF sz]] K Kd] args obtain st m3 where
      st: "setup_stack d sz argv m2 = Ret (st, m3)" "space D H m d m3"
        "\<And>z sp. st = Some (z, sp) \<Longrightarrow> z = (npages sz + 2) * PGSIZE \<and> user_layout K d (npages sz + 2) (Some (npages sz)) m3 \<and>
           (npages sz + 1) * PGSIZE \<le> sp \<and> sp < z \<and> args_on_stack m3 d argv sp" by blast
    show ?thesis
    proof (cases st)
      case None
      then have "exec_image path argv p ip e d t m1 = exec_bad None (Some d) p s6 m3"
        using l(1) sz s6 st(1) by (simp add: exec_image_def)
      then show ?thesis using exec_undo [OF st(2), of None s6] by simp
    next
      case fin: (Some y)
      obtain z sp where y: "y = (z, sp)" by (cases y)
      have c: "z = (npages sz + 2) * PGSIZE" "user_layout K d (npages sz + 2) (Some (npages sz)) m3"
        "(npages sz + 1) * PGSIZE \<le> sp" "sp < (npages sz + 2) * PGSIZE" "args_on_stack m3 d argv sp"
        using st(3) fin y by simp_all
      have "exec_image path argv p ip e d t m1 = kbind (freevm (Some (up_pgdir p)) m3) (\<lambda>m.
          Ret (0, p\<lparr>up_name := take 15 (last_elem path path), up_pgdir := d, up_sz := z, up_eip := e_entry e, up_esp := sp\<rparr>, s6, m))"
        using l(1) sz s6 st(1) fin y by (simp add: exec_image_def)
      then show ?thesis by (simp only:) (rule exec_commit [OF st(2) old c(2,5,3,4)], simp_all add: c(1))
    qed
  qed
qed

text \<open>C3: \<open>exec\<close> of a file that can be read returns, whatever bytes it has and whatever the arguments are (below 32 MB each).
  Either -1: then the process, all address spaces and their bytes are as before and every frame is free again. Or 0:
  then the process has a new address space beside the others, in which its pages are mapped for the user except
  the guard page below the stack, the kernel is mapped, and the stack holds the arguments; the pages of the old one
  are free.\<close>

theorem exec_commits_or_undoes:
  assumes ok: "vm_ok D H m" and old: "up_pgdir p \<in> D" and q: "256 < q" "q < 57344"
    and args: "\<forall>a \<in> set argv. length a < 33554432"
    and open_file: "begin_op s = Ret s1" "namei path s1 = Ret (Some ip, s2)" "ilock ip s2 = Ret s3" "I s3"
    and reads: "reads_ok I ip" and close: "\<forall>t. I t \<longrightarrow> (\<exists>u. put_file (Some ip) t = Ret u)"
  shows "\<exists>r p' s' m'. exec (KERNBASE + q * 4096) path argv p s m = Ret (r, p', s', m') \<and>
    (r = -1 \<and> p' = p \<and> unmade D H m m' \<or>
     r = 0 \<and> up_pgdir p' \<notin> D \<and> vm_ok (insert (up_pgdir p') (D - {up_pgdir p})) H m' \<and> stable (D - {up_pgdir p}) H m m' \<and>
       (\<forall>d \<in> D - {up_pgdir p}. \<forall>w < VPAGES. vmap m' d w = vmap m d w) \<and>
       {f. \<exists>w < UPAGES. page m (up_pgdir p) w = Some f} \<subseteq> set (vfree m') \<and>
       (\<exists>n. up_sz p' = (n + 2) * PGSIZE \<and>
          user_layout (kernel_map (kmap (KERNBASE + q * 4096))) (up_pgdir p') (n + 2) (Some n) m' \<and>
          (n + 1) * PGSIZE \<le> up_esp p' \<and> up_esp p' < up_sz p' \<and> args_on_stack m' (up_pgdir p') argv (up_esp p')))"
proof -
  let ?K = "kernel_map (kmap (KERNBASE + q * 4096))" and ?ex = "exec (KERNBASE + q * 4096) path argv p s m"
  have K: "?K w = None" if "w < UPAGES" for w using kmap_regions(2) [OF q, of w] that by (cases "?K w") auto
  obtain r bs s4 where r: "readi ip 0 52 s3 = Ret (r, bs, s4)" "I s4"
    using reads open_file(4) unfolding reads_ok_def by (metis PGSIZE_ge(2))
  let ?e = "dec_elfhdr bs"
  have "exec_outcome ?K D H m argv p ?ex"
  proof (cases "r \<noteq> 52 \<or> e_magic ?e \<noteq> ELF_MAGIC")
    case True
    have "unmade D H m m" using ok by (simp add: unmade_def stable_refl)
    moreover have "?ex = exec_bad (Some ip) None p s4 m" using True open_file r(1) by (simp add: exec_def Let_def)
    ultimately show ?thesis using exec_undo_early close r(2) by metis
  next
    case magic: False
    from setupkvm_ok [OF ok q] obtain g m1 where g: "setupkvm (KERNBASE + q * 4096) m = Ret (g, m1)"
      "case g of None \<Rightarrow> unmade D H m m1 \<and> length (vfree m) < 1026
       | Some d \<Rightarrow> making D H m d 0 m1 \<and> (\<forall>w < VPAGES. vmap m1 d w = ?K w)" by blast
    show ?thesis
    proof (cases g)
      case None
      then have "?ex = exec_bad (Some ip) None p s4 m1" using open_file r(1) magic g(1) by (simp add: exec_def Let_def)
      then show ?thesis using exec_undo_early [of D H m m1 "Some ip" s4] close r(2) g(2) None by simp
    next
      case (Some d)
      then have sp: "space D H m d m1" and lay: "user_layout ?K d (npages 0) None m1"
        using g(2) making_space by (auto simp: user_layout_def npages_def PGSIZE_def)
      have "?ex = exec_image path argv p ip ?e d s4 m1"
        using open_file r(1) magic g(1) Some by (simp add: exec_def exec_image_def Let_def)
      then show ?thesis using exec_image_ok [OF sp lay old K kmap_devices [OF q] args reads close r(2)] by simp
    qed
  qed
  then show ?thesis unfolding exec_outcome_def .
qed

end
