(* ===== verification/Exec_Example.thy ===== *)
theory Exec_Example
  imports Exec_Results Fs_Example Vm_Example
begin

text \<open>
  \<open>exec\<close> applied: a process whose page directory is that of the small memory runs its current directory, the root
  of the small file system. That is no program, so \<open>exec\<close> gives up.
\<close>

definition free_mounted :: fstate where
  "free_mounted = upd_inode 0 (\<lambda>n. n\<lparr>i_lock := initsleeplock\<rparr>) mounted"

definition shell :: uproc where
  "shell = \<lparr>up_name = [115, 104], up_pgdir = 4, up_sz = 4096, up_eip = 0, up_esp = 4096\<rparr>"

lemma outstanding_fields [simp]:
  "cached (s\<lparr>outstanding := k\<rparr>) = cached s" "holds_buf (s\<lparr>outstanding := k\<rparr>) = holds_buf s"
  "bcontent (s\<lparr>outstanding := k\<rparr>) = bcontent s" "pinned (s\<lparr>outstanding := k\<rparr>) = pinned s"
  "idle (s\<lparr>outstanding := k\<rparr>) = idle s" "logged_blocks (s\<lparr>outstanding := k\<rparr>) = logged_blocks s"
  by (simp_all add: cached_def holds_buf_def bcontent_def pinned_def idle_def logged_blocks_def fun_eq_iff split: option.split)

lemma outstanding_inv [simp]:
  "cache_inv (s\<lparr>outstanding := k\<rparr>) = cache_inv s" "log_inv (s\<lparr>outstanding := k\<rparr>) = log_inv s"
proof -
  show "cache_inv (s\<lparr>outstanding := k\<rparr>) = cache_inv s" unfolding cache_inv_def outstanding_fields by simp
  then show "log_inv (s\<lparr>outstanding := k\<rparr>) = log_inv s" unfolding log_inv_def outstanding_fields by simp
qed

lemma file_at_fields:
  assumes "file_at 0 s" and "bcontent t = bcontent s" "heldb t = heldb s" "fs_sb t = fs_sb s" "disksize t = disksize s"
    and "length (inodes t) = length (inodes s)" "dcopy 0 t = dcopy 0 s" "i_dev (ino 0 t) = i_dev (ino 0 s)" "i_inum (ino 0 t) = i_inum (ino 0 s)"
  shows "file_at 0 t"
proof -
  have al: "allocated t b = allocated s b" for b using assms(2,4) by (simp add: allocated_def)
  have "data_block t = data_block s" using al assms(4) by (simp add: data_block_def fun_eq_iff)
  then show ?thesis using assms(1) al unfolding file_at_def blocks_ok_def inode_ready_def file_ok_def assms(2-9) by simp
qed

theorem exec_commits_or_undoes_witness:
  "\<exists>s' m'. exec (KERNBASE + 1000 * 4096) [] [] shell free_mounted mem1 = Ret (-1, shell, s', m') \<and> vm_ok {4} {} m' \<and>
    set (vfree m') = {7..<2000}"
proof -
  let ?s1 = "free_mounted\<lparr>outstanding := 2\<rparr>" and ?lk = "\<lparr>slocked = True, spid = 1\<rparr>"
  let ?s2 = "upd_inode 0 (\<lambda>n. n\<lparr>i_ref := i_ref n + 1\<rparr>) ?s1"
  let ?s3 = "upd_inode 0 (\<lambda>n. n\<lparr>i_lock := ?lk\<rparr>) ?s2"
  let ?I = "\<lambda>t :: fstate. room t 1 \<and> file_at 0 t \<and> inodes t = inodes ?s3 \<and> my_pid t = my_pid ?s3 \<and> outstanding t = outstanding ?s3 \<and>
    committing t = committing ?s3"
  have i3: "inodes ?s3 = (root_inode\<lparr>i_ref := 2\<rparr>) # replicate 49 unused_inode"
    by (simp add: free_mounted_def upd_inode_def root_inode_def)
  have b: "begin_op free_mounted = Ret ?s1"
    by (simp add: begin_op_def free_mounted_def upd_inode_def MAXOPBLOCKS_def LOGSIZE_def mounted_def)
  have n: "namei [] ?s1 = Ret (Some 0, ?s2)"
    by (simp add: namei_def namex_def namex_loop.simps skipelem_def idup_def free_mounted_def)
  have l: "ilock 0 ?s2 = Ret ?s3"
    by (simp add: ilock_def lock_inode_def acquiresleep_def free_mounted_def upd_inode_def root_inode_def initsleeplock_def)
  have r: "room ?s3 1" using mounted_room [of 1] by (simp add: free_mounted_def room_def)
  have f: "file_at 0 ?s3"
    by (rule file_at_fields [OF mounted_root]) (simp_all add: free_mounted_def heldb_def root_inode_def)
  have I: "?I ?s3" using r f by simp
  have close: "\<forall>t. ?I t \<longrightarrow> (\<exists>u. put_file (Some 0) t = Ret u)"
  proof (intro allI impI)
    fix t assume t: "?I t"
    then have f: "inodes t = (root_inode\<lparr>i_ref := 2\<rparr>) # replicate 49 unused_inode" "my_pid t = 1" "outstanding t = 2" "\<not> committing t"
      unfolding i3 by (simp_all add: free_mounted_def) (simp add: mounted_def upd_inode_def)
    then show "\<exists>u. put_file (Some 0) t = Ret u"
      by (simp add: put_file_def iunlockput_def iunlock_def iput_def lock_inode_def unlock_inode_def holdingsleep_def
          acquiresleep_def releasesleep_def upd_inode_def root_inode_def root_dinode_def end_op_def)
  qed
  have pg: "up_pgdir shell \<in> {4}" by (simp add: shell_def)
  note th = exec_commits_or_undoes [OF mem1_ok(1) pg _ _ _ b n l I reads_ok_file close, of 1000 "[]"]
  obtain bs t where rd: "readi 0 0 52 ?s3 = Ret (32, bs, t)" "?I t"
  proof -
    have d: "dcopy 0 ?s3 = root_dinode" by (simp add: free_mounted_def root_inode_def)
    from readi_total [OF r _ f, of 0 52] obtain t where t: "readi 0 0 52 ?s3 = Ret (int (length (slice (content_of 0 ?s3) 0 52)), slice (content_of 0 ?s3) 0 52, t)"
      "room t 1" "block_step ?s3 t" "bcontent t = bcontent ?s3" by auto
    have "length (slice (content_of 0 ?s3) 0 52) = 32" unfolding slice_def using d by (simp add: root_dinode_def)
    moreover have "log_frame ?s3 t" using t(3) by (simp add: block_step_def)
    then have "outstanding t = outstanding ?s3 \<and> committing t = committing ?s3 \<and> my_pid t = my_pid ?s3"
      using log_frame_fields by blast
    ultimately show ?thesis using that t file_at_block(1) [OF t(3,4) f] block_step_fs(1) [OF t(3)] by simp
  qed
  obtain u where "put_file (Some 0) t = Ret u" using close rd(2) by blast
  then have e: "exec (KERNBASE + 1000 * 4096) [] [] shell free_mounted mem1 = Ret (-1, shell, u, mem1)"
    using b n l rd(1) by (simp add: exec_def exec_bad_def free_space_def Let_def)
  from th obtain r p' s' m' where "exec (KERNBASE + 1000 * 4096) [] [] shell free_mounted mem1 = Ret (r, p', s', m')"
    "r = -1 \<Longrightarrow> unmade {4} {} mem1 m'" by auto
  then have "unmade {4} {} mem1 mem1" using e by simp
  then have "vm_ok {4} {} mem1" unfolding unmade_def by blast
  moreover have "set (vfree mem1) = {7..<2000}" by (simp only: mem1_ok(4) set_upt)
  ultimately show ?thesis using e by blast
qed

end
