(* ===== verification/Console.thy ===== *)
theory Console
  imports OS_Prelude
begin

text \<open>
  The console (\<open>console.c\<close>): the line discipline between the keyboard interrupt and the readers. The sections under
  \<open>cons.lock\<close> are atomic; what \<open>consputc\<close> shows is a list of codes, and the hardware that shows it is left out.
\<close>

section \<open>The input buffer\<close>

definition INPUT_BUF :: nat where "INPUT_BUF = 128"

abbreviation BACKSPACE :: int where "BACKSPACE \<equiv> 256"

text \<open>\<open>CTRL c\<close> is the code of control and \<open>c\<close>.\<close>

definition CTRL :: "int \<Rightarrow> int" where "CTRL c = c - 64"

text \<open>\<open>c_woken\<close> says that readers have been woken, \<open>c_out\<close> is what has been echoed.\<close>

record console =
  c_buf :: "byte list"
  c_r :: "32 word"
  c_w :: "32 word"
  c_e :: "32 word"
  c_out :: "int list"
  c_woken :: bool

definition buf_slot :: "32 word \<Rightarrow> nat" where
  "buf_slot i = unat i mod INPUT_BUF"

definition consputc :: "int \<Rightarrow> console \<Rightarrow> console" where
  "consputc c s = s\<lparr>c_out := c_out s @ [c]\<rparr>"

section \<open>The keyboard interrupt\<close>

definition erase_char :: "console \<Rightarrow> console" where
  "erase_char s = consputc BACKSPACE (s\<lparr>c_e := c_e s - 1\<rparr>)"

lemma unat_pred_less: "x \<noteq> 0 \<Longrightarrow> unat (x - 1) < unat (x :: 32 word)"
  by (simp add: unat_minus_one unat_gt_0)

function kill_line :: "console \<Rightarrow> console" where
  "kill_line s =
     (if c_e s \<noteq> c_w s \<and> c_buf s ! buf_slot (c_e s - 1) \<noteq> 10 then kill_line (erase_char s) else s)"
  by pat_completeness auto
termination
proof (relation "measure (\<lambda>s. unat (c_e s - c_w s))")
  fix s :: console
  assume "c_e s \<noteq> c_w s \<and> c_buf s ! buf_slot (c_e s - 1) \<noteq> 10"
  then have "unat (c_e s - c_w s - 1) < unat (c_e s - c_w s)" by (intro unat_pred_less) simp
  moreover have "c_e s - c_w s - 1 = c_e s - 1 - c_w s" by (simp add: algebra_simps)
  ultimately show "(erase_char s, s) \<in> measure (\<lambda>s. unat (c_e s - c_w s))"
    by (simp add: erase_char_def consputc_def)
qed simp

declare kill_line.simps [simp del]

definition put_char :: "int \<Rightarrow> console \<Rightarrow> console" where
  "put_char c s =
     (let c = (if c = 13 then 10 else c);
          s = consputc c (s\<lparr>c_buf := (c_buf s)[buf_slot (c_e s) := word_of_int c], c_e := c_e s + 1\<rparr>)
      in if c = 10 \<or> c = CTRL 68 \<or> c_e s = c_r s + of_nat INPUT_BUF
         then s\<lparr>c_w := c_e s, c_woken := True\<rparr> else s)"

definition console_char :: "int \<Rightarrow> console \<Rightarrow> console" where
  "console_char c s =
     (if c = CTRL 80 then s
      else if c = CTRL 85 then kill_line s
      else if c = CTRL 72 \<or> c = 127 then (if c_e s \<noteq> c_w s then erase_char s else s)
      else if c \<noteq> 0 \<and> c_e s - c_r s < of_nat INPUT_BUF then put_char c s
      else s)"

text \<open>The characters that \<open>getc\<close> has; the result says whether \<open>procdump\<close> is called.\<close>

fun consoleintr :: "int list \<Rightarrow> bool \<Rightarrow> console \<Rightarrow> bool \<times> console" where
  "consoleintr [] dump s = (dump, s)"
| "consoleintr (c # cs) dump s = consoleintr cs (dump \<or> c = CTRL 80) (console_char c s)"

section \<open>Reading and writing\<close>

text \<open>
  \<open>consoleread\<close> with \<open>n\<close> bytes still wanted and those of \<open>bs\<close> read; it is done, or it sleeps on \<open>input.r\<close> and goes
  on from the same place when it is woken.
\<close>

datatype reading = Done int "byte list" console | Asleep nat "byte list" console

fun cons_read_loop :: "bool \<Rightarrow> nat \<Rightarrow> byte list \<Rightarrow> console \<Rightarrow> reading" where
  "cons_read_loop killed 0 bs s = Done (int (length bs)) bs s"
| "cons_read_loop killed (Suc n) bs s =
     (if c_r s = c_w s then (if killed then Done (-1) bs s else Asleep (Suc n) bs s)
      else
        let c = c_buf s ! buf_slot (c_r s); t = s\<lparr>c_r := c_r s + 1\<rparr>
        in if uint c = CTRL 68 then Done (int (length bs)) bs (if bs \<noteq> [] then s else t)
           else if c = 10 then Done (int (length (bs @ [c]))) (bs @ [c]) t
           else cons_read_loop killed n (bs @ [c]) t)"

definition consoleread :: "bool \<Rightarrow> int \<Rightarrow> console \<Rightarrow> reading" where
  "consoleread killed n s = cons_read_loop killed (nat n) [] s"

definition consolewrite :: "byte list \<Rightarrow> console \<Rightarrow> int \<times> console" where
  "consolewrite buf s = (int (length buf), fold (\<lambda>b. consputc (uint b)) buf s)"

section \<open>The buffer as two lists\<close>

text \<open>The bytes between two indices; those of finished lines, and those of the line that is being edited.\<close>

definition seg :: "byte list \<Rightarrow> 32 word \<Rightarrow> 32 word \<Rightarrow> byte list" where
  "seg buf a b = map (\<lambda>k. buf ! buf_slot (a + of_nat k)) [0..<unat (b - a)]"

definition committed :: "console \<Rightarrow> byte list" where
  "committed s = seg (c_buf s) (c_r s) (c_w s)"

definition edited :: "console \<Rightarrow> byte list" where
  "edited s = seg (c_buf s) (c_w s) (c_e s)"

definition console_ok :: "console \<Rightarrow> bool" where
  "console_ok s \<longleftrightarrow> length (c_buf s) = INPUT_BUF \<and> unat (c_e s - c_r s) \<le> INPUT_BUF \<and> unat (c_w s - c_r s) \<le> unat (c_e s - c_r s) \<and>
     10 \<notin> set (edited s) \<and> 4 \<notin> set (edited s) \<and> (c_w s \<noteq> c_e s \<longrightarrow> unat (c_e s - c_r s) < INPUT_BUF)"

lemma slot_less [simp]: "buf_slot i < INPUT_BUF"
  by (simp add: buf_slot_def INPUT_BUF_def)

lemma length_seg [simp]: "length (seg buf a b) = unat (b - a)"
  by (simp add: seg_def)

lemma seg_empty [simp]: "seg buf a a = []"
  by (simp add: seg_def)

text \<open>Different indices less than the size of the buffer apart have different slots.\<close>

lemma slot_add: "buf_slot (a + of_nat k) = (unat a + k) mod INPUT_BUF"
proof -
  have "unat (a + of_nat k) = (unat a + k) mod 4294967296"
    by (simp add: unat_word_ariths unat_of_nat mod_add_right_eq)
  also have "\<dots> mod 128 = (unat a + k) mod 128" by (rule mod_mod_cancel) simp
  finally show ?thesis by (simp add: buf_slot_def INPUT_BUF_def)
qed

lemma slot_apart:
  assumes "buf_slot (a + of_nat j) = buf_slot (a + of_nat k)" and "j \<le> k" "k - j < INPUT_BUF"
  shows "j = k"
proof -
  have "INPUT_BUF dvd (unat a + k) - (unat a + j)"
    using assms(1,2) mod_eq_dvd_iff_nat [of "unat a + j" "unat a + k" INPUT_BUF] by (simp add: slot_add)
  then have "INPUT_BUF dvd k - j" by simp
  then have "k - j = 0" using assms(3) nat_dvd_not_less [of "k - j" INPUT_BUF] by blast
  then show ?thesis using assms(2) by simp
qed

lemma nth_seg [simp]: "i < unat (b - a) \<Longrightarrow> seg buf a b ! i = buf ! buf_slot (a + of_nat i)"
  by (simp add: seg_def)

text \<open>The bytes after \<open>r\<close>, as one list from which \<open>w\<close> and \<open>e\<close> cut the two parts.\<close>

lemma seg_split:
  assumes "unat (w - r) \<le> unat (e - r)"
  shows "seg buf r e = seg buf r w @ seg buf w e" "unat (e - r) = unat (w - r) + unat (e - w)"
proof -
  have "e - w = (e - r) - (w - r)" by simp
  then have "unat (e - w) = unat (e - r) - unat (w - r)" using assms by (simp only: unat_sub word_le_nat_alt)
  then show len: "unat (e - r) = unat (w - r) + unat (e - w)" using assms by simp
  define n where "n = unat (w - r)"
  have w: "w = r + of_nat n" by (simp add: n_def)
  show "seg buf r e = seg buf r w @ seg buf w e"
  proof (rule nth_equalityI)
    show "length (seg buf r e) = length (seg buf r w @ seg buf w e)" using len by simp
    fix i assume i: "i < length (seg buf r e)"
    show "seg buf r e ! i = (seg buf r w @ seg buf w e) ! i"
    proof (cases "i < n")
      case True
      then show ?thesis using i by (simp add: nth_append n_def)
    next
      case False
      then have "w + of_nat (i - n) = r + of_nat i" by (simp add: w add.assoc flip: of_nat_add)
      then show ?thesis using i False len by (simp add: nth_append n_def add.commute)
    qed
  qed
qed

text \<open>Storing at \<open>e\<close> changes none of the bytes from \<open>a\<close> to \<open>e\<close>, and adds one.\<close>

lemma unat_step:
  fixes e a :: "32 word"
  assumes "unat (e - a) < INPUT_BUF"
  shows "unat (e + 1 - a) = unat (e - a) + 1"
proof -
  have step: "unat (x + 1) = unat x + 1" if "unat x < INPUT_BUF" for x :: "32 word"
  proof -
    have "unat (x + 1) = (unat x + 1) mod 4294967296" by (simp add: unat_word_ariths)
    then show ?thesis using that by (simp add: INPUT_BUF_def)
  qed
  have "e + 1 - a = (e - a) + 1" by (simp add: algebra_simps)
  then show ?thesis using step [OF assms] by metis
qed

lemma nth_store:
  assumes "k < unat (e - a)" and "unat (e - a) < INPUT_BUF"
  shows "buf[buf_slot e := c] ! buf_slot (a + of_nat k) = buf ! buf_slot (a + of_nat k)"
proof -
  have e: "e = a + of_nat (unat (e - a))" by simp
  have "buf_slot (a + of_nat k) \<noteq> buf_slot e"
  proof
    assume "buf_slot (a + of_nat k) = buf_slot e"
    then have "buf_slot (a + of_nat k) = buf_slot (a + of_nat (unat (e - a)))" using e by simp
    from slot_apart [OF this] assms show False by linarith
  qed
  then show ?thesis by simp
qed

lemma seg_store_keeps:
  assumes "unat (w - r) \<le> unat (e - r)" and "unat (e - r) < INPUT_BUF"
  shows "seg (buf[buf_slot e := c]) r w = seg buf r w"
  proof (rule nth_equalityI)
  fix i assume "i < length (seg (buf[buf_slot e := c]) r w)"
  then have "i < unat (w - r)" by simp
  then show "seg (buf[buf_slot e := c]) r w ! i = seg buf r w ! i" using nth_store [OF _ assms(2), of i] assms(1) by simp
qed simp

lemma seg_store:
  assumes "length buf = INPUT_BUF" and "unat (e - a) < INPUT_BUF"
  shows "seg (buf[buf_slot e := c]) a (e + 1) = seg buf a e @ [c]"
proof (rule nth_equalityI)
  note len = unat_step [OF assms(2)]
  show "length (seg (buf[buf_slot e := c]) a (e + 1)) = length (seg buf a e @ [c])" using len by simp
  fix i assume "i < length (seg (buf[buf_slot e := c]) a (e + 1))"
  then have i: "i \<le> unat (e - a)" using len by simp
  show "seg (buf[buf_slot e := c]) a (e + 1) ! i = (seg buf a e @ [c]) ! i"
  proof (cases "i = unat (e - a)")
    case True
    then show ?thesis using len assms(1) by (simp add: nth_append)
  next
    case False
    then have "i < unat (e - a)" using i by simp
    then show ?thesis using nth_store [OF _ assms(2), of i] len by (simp add: nth_append)
  qed
qed

section \<open>A line editor\<close>

text \<open>What the interrupt does, said of the two lists: the finished lines and the line being edited.\<close>

fun line_edit :: "int \<Rightarrow> byte list \<times> byte list \<Rightarrow> byte list \<times> byte list" where
  "line_edit c (com, ed) =
     (if c = 16 then (com, ed)
      else if c = 21 then (com, [])
      else if c = 8 \<or> c = 127 then (com, butlast ed)
      else if c = 0 \<or> length com + length ed \<ge> INPUT_BUF then (com, ed)
      else
        let x = word_of_int (if c = 13 then 10 else c)
        in if c = 10 \<or> c = 13 \<or> c = 4 \<or> length com + length ed + 1 = INPUT_BUF then (com @ ed @ [x], [])
           else (com, ed @ [x]))"

definition lines_of :: "console \<Rightarrow> byte list \<times> byte list" where
  "lines_of s = (committed s, edited s)"

lemma CTRL_codes [simp]: "CTRL 80 = 16" "CTRL 85 = 21" "CTRL 72 = 8" "CTRL 68 = 4"
  by (simp_all add: CTRL_def)

lemma console_okD:
  assumes "console_ok s"
  shows "length (c_buf s) = INPUT_BUF" "unat (c_e s - c_r s) \<le> INPUT_BUF" "unat (c_w s - c_r s) \<le> unat (c_e s - c_r s)"
    "10 \<notin> set (edited s)" "4 \<notin> set (edited s)" "c_w s \<noteq> c_e s \<Longrightarrow> unat (c_e s - c_r s) < INPUT_BUF"
    "unat (c_e s - c_r s) = length (committed s) + length (edited s)"
  using assms seg_split(2) [of "c_w s" "c_r s" "c_e s"] by (simp_all add: console_ok_def committed_def edited_def)

lemma edited_empty: "edited s = [] \<longleftrightarrow> c_e s = c_w s"
  proof -
  have "edited s = [] \<longleftrightarrow> unat (c_e s - c_w s) = 0" by (simp add: edited_def flip: length_0_conv)
  also have "\<dots> \<longleftrightarrow> c_e s - c_w s = 0" by (rule unat_eq_zero)
  finally show ?thesis by simp
qed

lemma erase_ok:
  assumes ok: "console_ok s" and ne: "c_e s \<noteq> c_w s"
  shows "console_ok (erase_char s)" "committed (erase_char s) = committed s" "edited (erase_char s) = butlast (edited s)"
    "c_buf s ! buf_slot (c_e s - 1) = last (edited s)"
proof -
  note d = console_okD [OF ok]
  let ?n = "unat (c_e s - c_w s)"
  have n: "0 < ?n" using ne by (simp add: unat_gt_0)
  have p: "c_e s - 1 - c_w s = c_e s - c_w s - 1" "c_e s - 1 - c_r s = c_e s - c_r s - 1" by (simp_all add: algebra_simps)
  have u: "unat (c_e s - 1 - c_w s) = ?n - 1" unfolding p using ne by (simp add: unat_minus_one)
  have er: "unat (c_e s - c_r s) = unat (c_w s - c_r s) + ?n" using d(3) seg_split(2) by blast
  then have "c_e s - c_r s \<noteq> 0" using n by (metis add_gr_0 less_irrefl unat_0)
  then have ur: "unat (c_e s - 1 - c_r s) = unat (c_e s - c_r s) - 1" unfolding p by (simp add: unat_minus_one)
  show c: "committed (erase_char s) = committed s" by (simp add: committed_def erase_char_def consputc_def)
  show e: "edited (erase_char s) = butlast (edited s)"
  proof (rule nth_equalityI)
    show "length (edited (erase_char s)) = length (butlast (edited s))" by (simp add: edited_def erase_char_def consputc_def u)
    fix i assume "i < length (edited (erase_char s))"
    then have "i < ?n - 1" by (simp add: edited_def erase_char_def consputc_def u)
    then show "edited (erase_char s) ! i = butlast (edited s) ! i"
      by (simp add: edited_def erase_char_def consputc_def u nth_butlast)
  qed
  have "c_w s + of_nat (?n - 1) = c_e s - 1" using n by (simp add: of_nat_diff)
  then show "c_buf s ! buf_slot (c_e s - 1) = last (edited s)" using n edited_empty [of s] ne by (simp add: edited_def last_conv_nth)
  have "set (butlast (edited s)) \<subseteq> set (edited s)" by (auto dest: in_set_butlastD)
  then show "console_ok (erase_char s)"
    using d(1,2,4,5) er n ur unfolding console_ok_def e by (auto simp: erase_char_def consputc_def)
qed

lemma kill_ok:
  assumes "console_ok s"
  shows "console_ok (kill_line s) \<and> lines_of (kill_line s) = (committed s, [])"
  using assms
proof (induction s rule: kill_line.induct)
  case (1 s)
  show ?case
  proof (cases "c_e s = c_w s")
    case True
    then show ?thesis using 1(2) edited_empty [of s] by (simp add: kill_line.simps [of s] lines_of_def)
  next
    case False
    note er = erase_ok [OF 1(2) False]
    have "last (edited s) \<in> set (edited s)" using False edited_empty by simp
    then have "c_buf s ! buf_slot (c_e s - 1) \<noteq> 10" using er(4) console_okD(4) [OF 1(2)] by auto
    then show ?thesis using 1(1) [OF _ er(1)] er(2) False by (simp add: kill_line.simps [of s])
  qed
qed

text \<open>
  Storing one more character. The line is finished by a newline, by the end of file, and by the character that fills the
  buffer.
\<close>

lemma put_ok:
  assumes ok: "console_ok s" and room: "c_e s - c_r s < of_nat INPUT_BUF" and c: "0 \<le> c" "c < 256"
  defines "x \<equiv> word_of_int (if c = 13 then 10 else c)"
  shows "console_ok (put_char c s)"
    "lines_of (put_char c s) =
       (if c = 10 \<or> c = 13 \<or> c = 4 \<or> length (committed s) + length (edited s) + 1 = INPUT_BUF
        then (committed s @ edited s @ [x], []) else (committed s, edited s @ [x]))"
proof -
  note d = console_okD [OF ok]
  have r: "unat (c_e s - c_r s) < INPUT_BUF" using room by (simp add: word_less_nat_alt INPUT_BUF_def)
  then have w: "unat (c_e s - c_w s) < INPUT_BUF" using seg_split(2) [OF d(3)] by simp
  define b where "b = (c_buf s)[buf_slot (c_e s) := x]"
  have b: "length b = INPUT_BUF" using d(1) by (simp add: b_def)
  have parts: "seg b (c_r s) (c_w s) = committed s" "seg b (c_w s) (c_e s + 1) = edited s @ [x]"
    "seg b (c_r s) (c_e s + 1) = committed s @ edited s @ [x]"
    using seg_store_keeps [OF d(3) r] seg_store [OF d(1) w] seg_store [OF d(1) r] seg_split(1) [OF d(3)]
    by (simp_all add: b_def committed_def edited_def)
  have len: "unat (c_e s + 1 - c_r s) = length (committed s) + length (edited s) + 1" "unat (c_e s + 1 - c_r s) \<le> INPUT_BUF"
    using unat_step [OF r] r d(7) by simp_all
  have full: "c_e s + 1 = c_r s + of_nat INPUT_BUF \<longleftrightarrow> length (committed s) + length (edited s) + 1 = INPUT_BUF"
  proof -
    have "c_e s + 1 = c_r s + of_nat INPUT_BUF \<longleftrightarrow> c_e s + 1 - c_r s = of_nat INPUT_BUF" by (metis add_diff_cancel_left' diff_add_cancel add.commute)
    also have "\<dots> \<longleftrightarrow> unat (c_e s + 1 - c_r s) = INPUT_BUF" by (auto simp: word_unat_eq_iff INPUT_BUF_def)
    finally show ?thesis using len(1) by simp
  qed
  have x: "x = 10 \<longleftrightarrow> c = 10 \<or> c = 13" "x = 4 \<longleftrightarrow> c = 4"
    using c by (auto simp: x_def word_uint_eq_iff uint_word_of_int)
  define fin where "fin \<longleftrightarrow> c = 10 \<or> c = 13 \<or> c = 4 \<or> length (committed s) + length (edited s) + 1 = INPUT_BUF"
  define t where "t = s\<lparr>c_buf := b, c_e := c_e s + 1, c_out := c_out s @ [if c = 13 then 10 else c]\<rparr>"
  have put: "put_char c s = (if fin then t\<lparr>c_w := c_e s + 1, c_woken := True\<rparr> else t)"
    using full by (auto simp: put_char_def consputc_def Let_def b_def x_def t_def fin_def)
  have l: "committed (put_char c s) = (if fin then committed s @ edited s @ [x] else committed s)"
    "edited (put_char c s) = (if fin then [] else edited s @ [x])"
    using parts by (simp_all add: put t_def committed_def [of "_\<lparr>c_w := _\<rparr>"] committed_def [of "_\<lparr>c_buf := _\<rparr>"] edited_def [of "_\<lparr>c_w := _\<rparr>"] edited_def [of "_\<lparr>c_buf := _\<rparr>"] committed_def edited_def)
  then show "lines_of (put_char c s) =
       (if c = 10 \<or> c = 13 \<or> c = 4 \<or> length (committed s) + length (edited s) + 1 = INPUT_BUF
        then (committed s @ edited s @ [x], []) else (committed s, edited s @ [x]))"
    by (simp add: lines_of_def fin_def)
  have "10 \<notin> set (edited (put_char c s)) \<and> 4 \<notin> set (edited (put_char c s))" using d(4,5) x by (auto simp: l(2) fin_def)
  moreover have "unat (c_e s + 1 - c_r s) < INPUT_BUF" if "\<not> fin" using that len by (auto simp: fin_def)
  moreover have "unat (c_w s - c_r s) \<le> unat (c_e s + 1 - c_r s)" using unat_step [OF r] d(3) by simp
  ultimately show "console_ok (put_char c s)"
    using b len(2) by (auto simp: console_ok_def put t_def)
qed

lemma console_step:
  assumes "console_ok s" and "0 \<le> c" "c < 256"
  shows "console_ok (console_char c s) \<and> lines_of (console_char c s) = line_edit c (lines_of s)"
proof -
  note d = console_okD [OF assms(1)]
  have room: "c_e s - c_r s < of_nat INPUT_BUF \<longleftrightarrow> length (committed s) + length (edited s) < INPUT_BUF"
    using d(7) by (simp add: word_less_nat_alt INPUT_BUF_def)
  consider "c = 16" | "c = 21" | "c = 8 \<or> c = 127" | "c \<noteq> 16 \<and> c \<noteq> 21 \<and> c \<noteq> 8 \<and> c \<noteq> 127" by blast
  then show ?thesis
  proof cases
    case 3
    show ?thesis
    proof (cases "c_e s = c_w s")
      case True
      then show ?thesis using 3 assms(1) edited_empty [of s] by (auto simp: console_char_def lines_of_def)
    next
      case False
      then show ?thesis using 3 erase_ok [OF assms(1) False] by (auto simp: console_char_def lines_of_def)
    qed
  next
    case 4
    show ?thesis
    proof (cases "c \<noteq> 0 \<and> length (committed s) + length (edited s) < INPUT_BUF")
      case True
      then have "c_e s - c_r s < of_nat INPUT_BUF" using room by blast
      note put = put_ok [OF assms(1) this assms(2,3)]
      have eq: "console_char c s = put_char c s" using 4 True room by (simp add: console_char_def)
      show ?thesis using put(1) 4 True unfolding eq put(2) by (simp add: lines_of_def Let_def)
    next
      case False
      then show ?thesis using 4 assms(1) room by (auto simp: console_char_def lines_of_def)
    qed
  qed (use kill_ok [OF assms(1)] assms(1) in \<open>simp_all add: console_char_def lines_of_def\<close>)
qed

text \<open>C13: The console's interrupt handler is a line editor on two lists: any keys (of \<open>getc\<close>, a byte each) leave the circular
  buffer well formed, and change the finished bytes and the line being edited as the editor says: erasing never reaches into a
  finished line, and a key that does not fit is dropped; the processes are listed if control-P was among them.
\<close>

theorem console_edits_lines:
  assumes "console_ok s" and "list_all (\<lambda>c. 0 \<le> c \<and> c < 256) cs"
  shows "console_ok (snd (consoleintr cs dump s)) \<and>
         lines_of (snd (consoleintr cs dump s)) = fold line_edit cs (lines_of s) \<and>
         fst (consoleintr cs dump s) = (dump \<or> 16 \<in> set cs)"
  using assms
proof (induction cs arbitrary: dump s)
  case (Cons c cs)
  have "console_ok (console_char c s)" "lines_of (console_char c s) = line_edit c (lines_of s)"
    using console_step [OF Cons.prems(1), of c] Cons.prems(2) by simp_all
  then show ?case using Cons.IH [of "console_char c s" "dump \<or> c = CTRL 80"] Cons.prems(2) by auto
qed simp

section \<open>A typed line is read\<close>

text \<open>Reading one byte takes it off the finished ones.\<close>

lemma read_byte:
  assumes ok: "console_ok s" and c: "committed s = x # xs"
  defines "t \<equiv> s\<lparr>c_r := c_r s + 1\<rparr>"
  shows "c_r s \<noteq> c_w s" "c_buf s ! buf_slot (c_r s) = x" "committed t = xs" "edited t = edited s" "console_ok t"
proof -
  note d = console_okD [OF ok]
  have n: "unat (c_w s - c_r s) = Suc (length xs)" using arg_cong [OF c, of length] by (simp add: committed_def)
  then show ne: "c_r s \<noteq> c_w s" by auto
  show "c_buf s ! buf_slot (c_r s) = x" using arg_cong [OF c, of "\<lambda>ys. ys ! 0"] n by (simp add: committed_def)
  have u: "unat (c_w s - (c_r s + 1)) = length xs" "unat (c_e s - (c_r s + 1)) = unat (c_e s - c_r s) - 1"
  proof -
    have "c_w s - (c_r s + 1) = (c_w s - c_r s) - 1" "c_e s - (c_r s + 1) = (c_e s - c_r s) - 1" by simp_all
    moreover have "c_w s - c_r s \<noteq> 0" "c_e s - c_r s \<noteq> 0" using ne n d(3) by auto
    ultimately show "unat (c_w s - (c_r s + 1)) = length xs" "unat (c_e s - (c_r s + 1)) = unat (c_e s - c_r s) - 1"
      using n by (metis unat_minus_one diff_Suc_1)+
  qed
  show "committed t = xs"
  proof (rule nth_equalityI)
    show "length (committed t) = length xs" by (simp add: committed_def t_def u)
    fix i assume "i < length (committed t)"
    then have i: "i < length xs" by (simp add: committed_def t_def u)
    have "committed t ! i = committed s ! Suc i" using i u n by (simp add: committed_def t_def add.assoc)
    then show "committed t ! i = xs ! i" by (simp add: c)
  qed
  show e: "edited t = edited s" by (simp add: edited_def t_def)
  show "console_ok t" using d(1-6) u n unfolding console_ok_def e by (auto simp: t_def)
qed

text \<open>A reader with room for it gets the first finished line whole, and nothing of the next one.\<close>

lemma read_line:
  assumes "console_ok s" and "committed s = xs @ 10 # ys" and "10 \<notin> set xs" "4 \<notin> set xs" and "length xs < n"
  shows "\<exists>t. cons_read_loop killed n acc s = Done (int (length acc + length xs + 1)) (acc @ xs @ [10]) t \<and>
           console_ok t \<and> lines_of t = (ys, edited s)"
  using assms
proof (induction xs arbitrary: n acc s)
  case Nil
  then obtain m where n: "n = Suc m" by (cases n) auto
  have c: "committed s = 10 # ys" using Nil(2) by simp
  note b = read_byte [OF Nil(1) c]
  show ?case unfolding n using b by (simp add: Let_def lines_of_def)
next
  case (Cons x xs)
  then obtain m where n: "n = Suc m" by (cases n) auto
  have c: "committed s = x # xs @ 10 # ys" using Cons.prems(2) by simp
  note b = read_byte [OF Cons.prems(1) c]
  have x: "x \<noteq> 10" "uint x \<noteq> 4" using Cons.prems(3,4) by (auto simp: word_uint_eq_iff)
  from Cons.IH [OF b(5,3), of m "acc @ [x]"] Cons.prems(3-5) n
  obtain t where "cons_read_loop killed m (acc @ [x]) (s\<lparr>c_r := c_r s + 1\<rparr>)
      = Done (int (length (acc @ [x]) + length xs + 1)) ((acc @ [x]) @ xs @ [10]) t"
    "console_ok t" "lines_of t = (ys, edited s)" using b(4) by auto
  then show ?case unfolding n using b(1,2) x by (auto simp: Let_def)
qed

text \<open>Plain bytes go to the line being edited.\<close>

definition plain :: "byte \<Rightarrow> bool" where
  "plain b \<longleftrightarrow> b \<notin> {0, 4, 8, 10, 13, 16, 21, 127}"

lemma plain_uint: "plain b \<Longrightarrow> uint b \<notin> {0, 4, 8, 10, 13, 16, 21, 127}"
  by (auto simp: plain_def word_uint_eq_iff)

lemma consoleintr_app: "consoleintr (cs @ ds) dump s = (case consoleintr cs dump s of (e, t) \<Rightarrow> consoleintr ds e t)"
  by (induction cs arbitrary: dump s) simp_all

lemma type_plain:
  assumes "console_ok s" and "list_all plain bs" and "length (committed s) + length (edited s) + length bs < INPUT_BUF"
  shows "\<exists>t. consoleintr (map uint bs) dump s = (dump, t) \<and> console_ok t \<and> lines_of t = (committed s, edited s @ bs)"
  using assms
proof (induction bs arbitrary: s)
  case Nil
  then show ?case by (simp add: lines_of_def)
next
  case (Cons b bs)
  have p: "uint b \<notin> {0, 4, 8, 10, 13, 16, 21, 127}" using Cons.prems(2) plain_uint by simp
  have bd: "0 \<le> uint b" "uint b < 256" using uint_lt2p [of b] by simp_all
  have t: "console_ok (console_char (uint b) s)" "lines_of (console_char (uint b) s) = (committed s, edited s @ [b])"
    using console_step [OF Cons.prems(1) bd] p Cons.prems(3) by (auto simp: lines_of_def Let_def)
  show ?case using Cons.IH [OF t(1)] t(2) Cons.prems(2,3) p by (auto simp: lines_of_def)
qed

text \<open>C33: What is typed is what is read: whatever unfinished line the console holds, after control-U, a line of plain bytes that
  fits the buffer and a newline, a reader with room for it gets exactly that line with its newline, and leaves the console empty.
\<close>

theorem typed_line_is_read:
  assumes "console_ok s" and "committed s = []" and "list_all plain bs" and "length bs < INPUT_BUF" "int (length bs) < n"
  shows "\<exists>u. consoleread killed n (snd (consoleintr (21 # map uint bs @ [10]) dump s)) = Done (int (length bs) + 1) (bs @ [10]) u \<and>
           console_ok u \<and> lines_of u = ([], [])"
proof -
  define s1 where "s1 = console_char 21 s"
  have s1: "console_ok s1" "committed s1 = []" "edited s1 = []"
    using kill_ok [OF assms(1)] assms(2) by (simp_all add: s1_def console_char_def lines_of_def)
  obtain s2 where s2: "consoleintr (map uint bs) dump s1 = (dump, s2)" "console_ok s2" "lines_of s2 = ([], bs)"
    using type_plain [OF s1(1) assms(3), of dump] s1(2,3) assms(4) by auto
  define s3 where "s3 = console_char 10 s2"
  have s3: "console_ok s3" "lines_of s3 = (bs @ [10], [])"
    using console_step [OF s2(2), of 10] s2(3) assms(4) by (simp_all add: s3_def)
  have run: "snd (consoleintr (21 # map uint bs @ [10]) dump s) = s3"
    using s2(1) by (simp add: consoleintr_app s1_def s3_def)
  have c: "committed s3 = bs @ 10 # []" "edited s3 = []" using s3(2) by (simp_all add: lines_of_def)
  have "10 \<notin> set bs" "4 \<notin> set bs" using assms(3) by (auto simp: list_all_iff plain_def)
  from read_line [OF s3(1) c(1) this, of "nat n" killed "[]"] assms(5) c(2)
  show ?thesis unfolding run consoleread_def by (auto simp: add.commute)
qed

section \<open>An input\<close>

definition console0 :: console where
  "console0 = \<lparr>c_buf = replicate INPUT_BUF 0, c_r = 4294967290, c_w = 4294967290, c_e = 4294967290, c_out = [], c_woken = False\<rparr>"

lemma console0_ok: "console_ok console0" "lines_of console0 = ([], [])"
  by (simp_all add: console_ok_def console0_def lines_of_def committed_def edited_def)

theorem console_edits_lines_witness:
  "console_ok console0 \<and> list_all (\<lambda>c. 0 \<le> c \<and> c < 256) [97, 98, 8, 13, 99, 16 :: int] \<and>
   console_ok (snd (consoleintr [97, 98, 8, 13, 99, 16] False console0)) \<and>
   lines_of (snd (consoleintr [97, 98, 8, 13, 99, 16] False console0)) = ([97, 10], [99]) \<and>
   fst (consoleintr [97, 98, 8, 13, 99, 16] False console0)"
  using console_edits_lines [OF console0_ok(1), of "[97, 98, 8, 13, 99, 16]" False] console0_ok
  by (simp add: Let_def INPUT_BUF_def)

theorem typed_line_is_read_witness:
  "console_ok console0 \<and> committed console0 = [] \<and>
   (\<exists>u. consoleread False 100 (snd (consoleintr (21 # map uint [108 :: byte, 115] @ [10]) False console0)) = Done 3 [108, 115, 10] u \<and>
      console_ok u \<and> lines_of u = ([], []))"
  using typed_line_is_read [OF console0_ok(1), of "[108, 115]" 100 False False] console0_ok
  by (simp add: plain_def INPUT_BUF_def lines_of_def)

end
