(* ===== verification/Print.thy ===== *)
theory Print
  imports Console C_String
begin

text \<open>
  Formatted output: \<open>printf\<close> of the user library (\<open>printf.c\<close>, \<open>ulib.c\<close>) and \<open>cprintf\<close> of the kernel (\<open>console.c\<close>). What a
  process prints is the list of the bytes it writes; what the kernel prints goes to the console. The arguments behind the
  format are 32-bit words; \<open>strs p\<close> is the string at address \<open>p\<close>, and the string that is printed for a null pointer is the
  code's own. Reading more arguments than there are has no defined result.
\<close>

section \<open>Numbers\<close>

definition udigits :: "byte list" where
  "udigits = [48, 49, 50, 51, 52, 53, 54, 55, 56, 57, 65, 66, 67, 68, 69, 70, 0]"

definition kdigits :: "byte list" where
  "kdigits = [48, 49, 50, 51, 52, 53, 54, 55, 56, 57, 97, 98, 99, 100, 101, 102, 0]"

text \<open>The bytes stored to \<open>buf[16]\<close> so far, lowest digit first; a 17th byte, or a digit above the table, is out of bounds.\<close>

function digit_loop :: "byte list \<Rightarrow> 32 word \<Rightarrow> byte list \<Rightarrow> 32 word \<Rightarrow> byte list outcome" where
  "digit_loop digits base buf x =
     (if base = 0 then Panic ''divide error''
      else if length buf \<ge> 16 \<or> unat (x mod base) \<ge> length digits then Panic ''out of bounds''
      else
        let buf = buf @ [digits ! unat (x mod base)]; x = x div base
        in if x \<noteq> 0 then digit_loop digits base buf x else Ret buf)"
  by pat_completeness auto
termination by (relation "measure (\<lambda>(d, b, buf, x). 16 - length buf)") auto

declare digit_loop.simps [simp del]

definition number_buf :: "byte list \<Rightarrow> 32 word \<Rightarrow> 32 word \<Rightarrow> bool \<Rightarrow> byte list outcome" where
  "number_buf digits xx base sg =
     (let neg = (sg \<and> xx <s 0); x = (if neg then - xx else xx)
      in kbind (digit_loop digits base [] x) (\<lambda>buf.
         if neg then if length buf \<ge> 16 then Panic ''out of bounds'' else Ret (buf @ [45]) else Ret buf))"

definition printint :: "32 word \<Rightarrow> 32 word \<Rightarrow> bool \<Rightarrow> byte list \<Rightarrow> byte list outcome" where
  "printint xx base sg out = kbind (number_buf udigits xx base sg) (\<lambda>buf. Ret (out @ rev buf))"

definition cons_printint :: "32 word \<Rightarrow> 32 word \<Rightarrow> bool \<Rightarrow> console \<Rightarrow> console outcome" where
  "cons_printint xx base sg s =
     kbind (number_buf kdigits xx base sg) (\<lambda>buf. Ret (fold (\<lambda>b. consputc (sint b)) (rev buf) s))"

section \<open>Formats\<close>

abbreviation null_text :: "byte list" where
  "null_text \<equiv> [40, 110, 117, 108, 108, 41]"

definition string_arg :: "(32 word \<Rightarrow> byte list) \<Rightarrow> 32 word \<Rightarrow> byte list" where
  "string_arg strs p = (if p = 0 then null_text else strs p)"

text \<open>The loop of \<open>printf\<close>: \<open>pct\<close> is its state, and the fourth argument is what \<open>ap\<close> points to.\<close>

fun printf_loop :: "(32 word \<Rightarrow> byte list) \<Rightarrow> byte list \<Rightarrow> bool \<Rightarrow> 32 word list \<Rightarrow> byte list \<Rightarrow> byte list outcome" where
  "printf_loop strs [] pct ap out = Ret out"
| "printf_loop strs (c # fmt) pct ap out =
     (if c = 0 then Ret out
      else if \<not> pct then
        if c = 37 then printf_loop strs fmt True ap out else printf_loop strs fmt False ap (out @ [c])
      else if c = 100 \<or> c = 117 then
        case ap of [] \<Rightarrow> Panic ''out of bounds''
        | a # ap \<Rightarrow> kbind (printint a 10 True out) (\<lambda>out. printf_loop strs fmt False ap out)
      else if c = 120 \<or> c = 112 then
        case ap of [] \<Rightarrow> Panic ''out of bounds''
        | a # ap \<Rightarrow> kbind (printint a 16 False (out @ [48, 120])) (\<lambda>out. printf_loop strs fmt False ap out)
      else if c = 115 then
        case ap of [] \<Rightarrow> Panic ''out of bounds''
        | a # ap \<Rightarrow> printf_loop strs fmt False ap (out @ string_arg strs a)
      else if c = 99 then
        case ap of [] \<Rightarrow> Panic ''out of bounds'' | a # ap \<Rightarrow> printf_loop strs fmt False ap (out @ [ucast a])
      else if c = 37 then printf_loop strs fmt False ap (out @ [c])
      else printf_loop strs fmt False ap (out @ [37, c]))"

definition printf :: "(32 word \<Rightarrow> byte list) \<Rightarrow> byte list \<Rightarrow> 32 word list \<Rightarrow> byte list \<Rightarrow> byte list outcome" where
  "printf strs fmt args out = printf_loop strs fmt False args out"

text \<open>
  The loop of \<open>cprintf\<close>, which takes the letter behind a percent sign in the same round. A character goes to
  \<open>consputc\<close> as the whole word, and the bytes of a string as \<open>char\<close>s, which are signed.
\<close>

fun cprintf_loop :: "(32 word \<Rightarrow> byte list) \<Rightarrow> byte list \<Rightarrow> 32 word list \<Rightarrow> console \<Rightarrow> console outcome" where
  "cprintf_loop strs [] argp s = Ret s"
| "cprintf_loop strs [c] argp s = Ret (if c = 0 \<or> c = 37 then s else consputc (uint c) s)"
| "cprintf_loop strs (c # d # fmt) argp s =
     (if c = 0 then Ret s
      else if c \<noteq> 37 then cprintf_loop strs (d # fmt) argp (consputc (uint c) s)
      else if d = 0 then Ret s
      else if d = 117 \<or> d = 100 then
        case argp of [] \<Rightarrow> Panic ''out of bounds''
        | a # argp \<Rightarrow> kbind (cons_printint a 10 True s) (\<lambda>s. cprintf_loop strs fmt argp s)
      else if d = 120 \<or> d = 112 then
        case argp of [] \<Rightarrow> Panic ''out of bounds''
        | a # argp \<Rightarrow>
            kbind (cons_printint a 16 False (consputc 120 (consputc 48 s))) (\<lambda>s. cprintf_loop strs fmt argp s)
      else if d = 99 then
        case argp of [] \<Rightarrow> Panic ''out of bounds'' | a # argp \<Rightarrow> cprintf_loop strs fmt argp (consputc (sint a) s)
      else if d = 115 then
        case argp of [] \<Rightarrow> Panic ''out of bounds''
        | a # argp \<Rightarrow> cprintf_loop strs fmt argp (fold (\<lambda>b. consputc (sint b)) (string_arg strs a) s)
      else if d = 37 then cprintf_loop strs fmt argp (consputc 37 s)
      else cprintf_loop strs fmt argp (consputc (uint d) (consputc 37 s)))"

definition cprintf :: "(32 word \<Rightarrow> byte list) \<Rightarrow> byte list option \<Rightarrow> 32 word list \<Rightarrow> console \<Rightarrow> console outcome" where
  "cprintf strs fmt args s =
     (case fmt of None \<Rightarrow> Panic ''null fmt'' | Some fmt \<Rightarrow> cprintf_loop strs fmt args s)"

section \<open>Reference\<close>

text \<open>The numeral of a number, highest digit first.\<close>

function numeral_of :: "byte list \<Rightarrow> nat \<Rightarrow> nat \<Rightarrow> byte list" where
  "numeral_of digits b n =
     (if b < 2 \<or> n < b then [digits ! n] else numeral_of digits b (n div b) @ [digits ! (n mod b)])"
  by pat_completeness auto
termination by (relation "measure (\<lambda>(d, b, n). n)") auto

declare numeral_of.simps [simp del]

definition decimal :: "byte list \<Rightarrow> int \<Rightarrow> byte list" where
  "decimal digits i = (if i < 0 then 45 # numeral_of digits 10 (nat (- i)) else numeral_of digits 10 (nat i))"

datatype directive = Plain byte | Decimal | Hexadecimal | Text | Character

fun directives :: "byte list \<Rightarrow> directive list" where
  "directives [] = []"
| "directives [c] = (if c = 0 \<or> c = 37 then [] else [Plain c])"
| "directives (c # d # fmt) =
     (if c = 0 then []
      else if c \<noteq> 37 then Plain c # directives (d # fmt)
      else if d = 0 then []
      else (if d = 100 \<or> d = 117 then [Decimal] else if d = 120 \<or> d = 112 then [Hexadecimal]
            else if d = 115 then [Text] else if d = 99 then [Character] else if d = 37 then [Plain 37]
            else [Plain 37, Plain d]) @ directives fmt)"

text \<open>
  What one directive makes of its argument. The digits and what becomes of a character are those of the function that
  prints: \<open>printf\<close> writes one byte, and \<open>consputc\<close> takes the word 256 for \<open>BACKSPACE\<close>, which it sends to the serial line as
  a backspace, a blank and a backspace.
\<close>

definition byte_char :: "32 word \<Rightarrow> byte list" where
  "byte_char a = [ucast a]"

definition cons_char :: "32 word \<Rightarrow> byte list" where
  "cons_char a = (if a = 256 then [8, 32, 8] else [ucast a])"

fun render_arg :: "byte list \<Rightarrow> (32 word \<Rightarrow> byte list) \<Rightarrow> (32 word \<Rightarrow> byte list) \<Rightarrow> directive \<Rightarrow> 32 word \<Rightarrow> byte list" where
  "render_arg digits chr strs Decimal a = decimal digits (sint a)"
| "render_arg digits chr strs Hexadecimal a = [48, 120] @ numeral_of digits 16 (unat a)"
| "render_arg digits chr strs Text a = string_arg strs a"
| "render_arg digits chr strs Character a = chr a"
| "render_arg digits chr strs (Plain c) a = [c]"

fun render :: "byte list \<Rightarrow> (32 word \<Rightarrow> byte list) \<Rightarrow> (32 word \<Rightarrow> byte list) \<Rightarrow> directive list \<Rightarrow> 32 word list \<Rightarrow> byte list option" where
  "render digits chr strs [] args = Some []"
| "render digits chr strs (Plain c # ds) args = map_option ((#) c) (render digits chr strs ds args)"
| "render digits chr strs (d # ds) [] = None"
| "render digits chr strs (d # ds) (a # args) =
     map_option ((@) (render_arg digits chr strs d a)) (render digits chr strs ds args)"

text \<open>The arguments that are printed as characters.\<close>

fun characters :: "directive list \<Rightarrow> 32 word list \<Rightarrow> 32 word list" where
  "characters [] args = []"
| "characters (Plain c # ds) args = characters ds args"
| "characters (d # ds) [] = []"
| "characters (d # ds) (a # args) = (if d = Character then a # characters ds args else characters ds args)"

lemma render_characters: "256 \<notin> set (characters ds args) \<Longrightarrow> render digits cons_char strs ds args = render digits byte_char strs ds args"
  by (induction ds args rule: characters.induct) (auto simp: cons_char_def byte_char_def)

section \<open>Numbers are numerals\<close>

lemma numeral_of_nonempty [simp]: "numeral_of digits b n \<noteq> []"
  by (subst numeral_of.simps) simp

lemma length_numeral_of:
  assumes "n < b ^ Suc m" and "2 \<le> b"
  shows "length (numeral_of digits b n) \<le> Suc m"
  using assms(1)
proof (induction m arbitrary: n)
  case 0
  then show ?case by (subst numeral_of.simps) simp
next
  case (Suc m)
  have "n div b < b ^ Suc m" using Suc.prems assms(2) by (simp add: less_mult_imp_div_less mult.commute)
  from Suc.IH [OF this] show ?case by (subst numeral_of.simps) simp
qed

lemma set_numeral_of:
  assumes "2 \<le> b" and "b \<le> length digits"
  shows "set (numeral_of digits b n) \<subseteq> set (take b digits)"
proof (induction n rule: less_induct)
  case (less n)
  have d: "digits ! k \<in> set (take b digits)" if "k < b" for k
    using that assms by (metis length_take min.absorb2 nth_mem nth_take)
  have "set (numeral_of digits b (n div b)) \<subseteq> set (take b digits)" if "\<not> n < b"
    using less.IH [of "n div b"] that assms(1) by simp
  then show ?case using d [of n] d [of "n mod b"] assms(1) by (subst numeral_of.simps) auto
qed

text \<open>The loop stores the numeral backwards, when it fits.\<close>

lemma digit_loop_numeral:
  assumes "2 \<le> unat base" and "unat base \<le> length digits"
    and "length buf + length (numeral_of digits (unat base) (unat x)) \<le> 16"
  shows "digit_loop digits base buf x = Ret (buf @ rev (numeral_of digits (unat base) (unat x)))"
  using assms
proof (induction digits base buf x rule: digit_loop.induct)
  case (1 digits base buf x)
  let ?b = "unat base" and ?n = "unat x"
  have b0: "base \<noteq> 0" using 1(2) by auto
  have u: "unat (x mod base) = ?n mod ?b" "unat (x div base) = ?n div ?b" by (simp_all add: unat_mod_distrib unat_div_distrib)
  have z: "x div base = 0 \<longleftrightarrow> ?n < ?b" using 1(2) u(2) by (metis div_eq_0_iff not_numeral_le_zero unat_eq_zero)
  have ok: "length buf < 16" using 1(4) length_greater_0_conv [of "numeral_of digits ?b ?n"] by (simp del: length_greater_0_conv)
  have lt: "?n mod ?b < length digits" using 1(2,3) by (metis less_le_trans mod_less_divisor not_numeral_le_zero not_gr_zero)
  show ?case
  proof (cases "?n < ?b")
    case True
    then have "numeral_of digits ?b ?n = [digits ! ?n]" by (subst numeral_of.simps) simp
    then show ?thesis using b0 ok lt u z True by (subst digit_loop.simps) (simp add: Let_def)
  next
    case False
    then have num: "numeral_of digits ?b ?n = numeral_of digits ?b (?n div ?b) @ [digits ! (?n mod ?b)]"
      using 1(2) by (subst numeral_of.simps) simp
    then have "digit_loop digits base (buf @ [digits ! (?n mod ?b)]) (x div base)
      = Ret ((buf @ [digits ! (?n mod ?b)]) @ rev (numeral_of digits ?b (?n div ?b)))"
      using 1(1) [OF b0 _ refl refl] b0 ok lt u z False 1(2-4) by simp
    then show ?thesis using b0 ok lt u z False num by (subst digit_loop.simps) (simp add: Let_def)
  qed
qed

lemma unat_minus_neg:
  fixes x :: "32 word"
  shows "x <s 0 \<longleftrightarrow> sint x < 0" "sint x < 0 \<Longrightarrow> unat (- x) = nat (- sint x)" "0 \<le> sint x \<Longrightarrow> unat x = nat (sint x)"
    "nat (sint x) < 2147483648" "nat (- sint x) \<le> 2147483648"
proof -
  have r: "- 2147483648 \<le> sint x" "sint x < 2147483648" using sint_greater_eq [of x] sint_less [of x] by simp_all
  have x: "x = word_of_int (sint x)" by simp
  show "x <s 0 \<longleftrightarrow> sint x < 0" by (simp add: word_sless_alt)
  show "unat (- x) = nat (- sint x)" if "sint x < 0"
  proof -
    have "- x = word_of_int (- sint x)" by simp
    then have "uint (- x) = (- sint x) mod 4294967296" using uint_word_of_int [where 'a = 32, of "- sint x"] by simp
    then show ?thesis using r that by (simp add: unat_eq_nat_uint)
  qed
  show "unat x = nat (sint x)" if "0 \<le> sint x" 
  proof -
    have "uint x = sint x mod 4294967296" using uint_word_of_int [where 'a = 32, of "sint x"] by simp
    then show ?thesis using r that by (simp add: unat_eq_nat_uint)
  qed
  show "nat (sint x) < 2147483648" "nat (- sint x) \<le> 2147483648" using r by simp_all
qed

text \<open>What the two \<open>printint\<close>s print; the buffer of 16 bytes is large enough for both bases they are called with.\<close>

lemma number_buf_decimal:
  assumes "length digits = 17"
  shows "number_buf digits a 10 True = Ret (rev (decimal digits (sint a)))" "length (decimal digits (sint a)) \<le> 11"
proof -
  note u = unat_minus_neg [of a]
  have len: "length (numeral_of digits 10 n) \<le> 10" if "n \<le> 2147483648" for n
    using length_numeral_of [of n 10 9 digits] that by simp
  have b: "unat (10 :: 32 word) = 10" by simp
  show "length (decimal digits (sint a)) \<le> 11" using len [of "nat (sint a)"] len [of "nat (- sint a)"] u(4,5) by (simp add: decimal_def)
  show "number_buf digits a 10 True = Ret (rev (decimal digits (sint a)))"
  proof -
    have run: "digit_loop digits 10 [] x = Ret (rev (numeral_of digits 10 (unat x)))" if "unat x \<le> 2147483648" for x
      using digit_loop_numeral [of 10 digits "[]" x] assms len [OF that] by simp
    show ?thesis using run [of a] run [of "- a"] u len [of "nat (- sint a)"]
      by (cases "sint a < 0") (simp_all add: number_buf_def decimal_def)
  qed
qed

lemma number_buf_hex:
  assumes "length digits = 17"
  shows "number_buf digits a 16 False = Ret (rev (numeral_of digits 16 (unat a)))" "length (numeral_of digits 16 (unat a)) \<le> 8"
proof -
  have "unat a < 16 ^ Suc 7" using unsigned_less [of a, where 'a = nat] by simp
  from length_numeral_of [OF this, of digits] show len: "length (numeral_of digits 16 (unat a)) \<le> 8" by simp
  show "number_buf digits a 16 False = Ret (rev (numeral_of digits 16 (unat a)))"
    using digit_loop_numeral [of 16 digits "[]" a] assms len by (simp add: number_buf_def)
qed

section \<open>Both functions print what the format says\<close>

lemma length_tables [simp]: "length udigits = 17" "length kdigits = 17"
  by (simp_all add: udigits_def kdigits_def)

lemma printint_base [simp]:
  "printint a 10 True out = Ret (out @ decimal udigits (sint a))"
  "printint a 16 False out = Ret (out @ numeral_of udigits 16 (unat a))"
  by (simp_all add: printint_def number_buf_decimal number_buf_hex)

lemma printf_loop_render:
  "printf_loop strs fmt False args out =
     (case render udigits byte_char strs (directives fmt) args of None \<Rightarrow> Panic ''out of bounds'' | Some t \<Rightarrow> Ret (out @ t))"
proof (induction fmt arbitrary: args out rule: directives.induct)
  case (3 c d fmt)
  show ?case
  proof (cases "c = 37 \<and> d \<noteq> 0")
    case False
    then show ?thesis using 3(1) by (auto split: option.split)
  next
    case True
    have ne: "(37::byte) \<noteq> 0" "(100::byte) \<noteq> 37" by simp_all
    consider "d = 100 \<or> d = 117" | "d = 120 \<or> d = 112" | "d = 115" | "d = 99" | "d = 37" |
      "d \<notin> {100, 117, 120, 112, 115, 99, 37}" by blast
    then show ?thesis
      by cases (use True 3(2) in \<open>auto simp: byte_char_def split: option.split list.split\<close>)
  qed
qed auto

text \<open>
  What \<open>consputc\<close> sends to the serial line for a code: the three bytes that erase the last character for \<open>BACKSPACE\<close>, and the
  low 8 bits of any other code, which is what the port takes of it. The screen is given the same code, and moves back on
  \<open>BACKSPACE\<close>.
\<close>

definition serial :: "int \<Rightarrow> byte list" where
  "serial c = (if c = BACKSPACE then [8, 32, 8] else [word_of_int c])"

definition shown :: "console \<Rightarrow> byte list" where
  "shown s = concat (map serial (c_out s))"

definition emit :: "int list \<Rightarrow> console \<Rightarrow> console" where
  "emit cs s = s\<lparr>c_out := c_out s @ cs\<rparr>"

lemma consputc_emit: "consputc c s = emit [c] s"
  by (simp add: consputc_def emit_def)

lemma emit_emit [simp]: "emit ds (emit cs s) = emit (cs @ ds) s"
  by (simp add: emit_def)

lemma fold_consputc [simp]: "fold (\<lambda>b. consputc (f b)) bs s = emit (map f bs) s"
  by (induction bs arbitrary: s) (simp_all add: consputc_emit, simp add: emit_def)

lemma cons_printint_base [simp]:
  "cons_printint a 10 True s = Ret (emit (map sint (decimal kdigits (sint a))) s)"
  "cons_printint a 16 False s = Ret (emit (map sint (numeral_of kdigits 16 (unat a))) s)"
  by (simp_all add: cons_printint_def number_buf_decimal number_buf_hex)

text \<open>A code that is the value of a byte is shown as this byte.\<close>

lemma serial_byte [simp]: "serial (sint b) = [b]" "serial (uint b) = [b]" for b :: byte
proof -
  have "sint b < 128" "uint b < 256" using sint_less [of b] unsigned_less [of b, where 'a = int] by simp_all
  then show "serial (sint b) = [b]" "serial (uint b) = [b]" by (simp_all add: serial_def)
qed

lemma serial_bytes [simp]: "concat (map (\<lambda>b. serial (sint b)) bs) = bs" "concat (map (serial \<circ> sint) bs) = bs" for bs :: "byte list"
  by (induction bs) simp_all

lemma serial_ascii [simp]: "serial 37 = [37]" "serial 48 = [48]" "serial 120 = [120]"
  by (simp_all add: serial_def)

lemma serial_char [simp]: "serial (sint a) = cons_char a" for a :: "32 word"
proof -
  have "sint a = 256 \<longleftrightarrow> a = 256"
  proof
    assume s: "sint a = 256"
    have "a = word_of_int (sint a)" by simp
    then show "a = 256" unfolding s by simp
  qed simp
  moreover have "(word_of_int (sint a) :: byte) = ucast a" by transfer (simp add: take_bit_signed_take_bit)
  ultimately show ?thesis by (simp add: serial_def cons_char_def)
qed

definition printed :: "console \<Rightarrow> byte list option \<Rightarrow> console outcome \<Rightarrow> bool" where
  "printed s t r \<longleftrightarrow> (case t of None \<Rightarrow> r = Panic ''out of bounds''
     | Some t \<Rightarrow> \<exists>cs. r = Ret (emit cs s) \<and> concat (map serial cs) = t)"

lemma printed_simps [simp]:
  "printed s None r \<longleftrightarrow> r = Panic ''out of bounds''"
  "printed s (Some []) (Ret s)"
  "concat (map serial cs) = t \<Longrightarrow> printed s (Some t) (Ret (emit cs s))"
  by (auto simp: printed_def emit_def intro: exI [of _ "[]"])

lemma append_few [simp]: "(@) [x] = (#) x" "(@) [x, y] = (\<lambda>zs. x # y # zs)"
  by (simp_all add: fun_eq_iff)

lemma printed_emit:
  assumes "printed (emit cs s) t r" and "concat (map serial cs) = u"
  shows "printed s (map_option ((@) u) t) r"
  using assms by (force simp: printed_def split: option.splits)

lemma cprintf_loop_render: "printed s (render kdigits cons_char strs (directives fmt) args) (cprintf_loop strs fmt args s)"
proof (induction fmt arbitrary: args s rule: directives.induct)
  case (3 c d fmt)
  have plain: "printed s (map_option ((@) u) (render kdigits cons_char strs (directives fmt) as)) (cprintf_loop strs fmt as (emit cs s))"
    if "c = 37" "d \<noteq> 0" "concat (map serial cs) = u" for u cs as
    by (rule printed_emit) (use that 3(2) in auto)
  show ?case
  proof (cases "c = 37 \<and> d \<noteq> 0")
    case False
    then show ?thesis using 3(1) printed_emit [of "[uint c]" s "render kdigits cons_char strs (directives (d # fmt)) args" _ "[c]"]
      by (auto simp: consputc_emit)
  next
    case True
    consider "d = 100 \<or> d = 117" | "d = 120 \<or> d = 112" | "d = 115" | "d = 99" | "d = 37" |
      "d \<notin> {100, 117, 120, 112, 115, 99, 37}" by blast
    then show ?thesis
    proof cases
      case 1
      then show ?thesis using True plain [of "map sint (decimal kdigits (sint (hd args)))" _ "tl args"] by (cases args) auto
    next
      case 2
      then show ?thesis using True plain [of "[48, 120] @ map sint (numeral_of kdigits 16 (unat (hd args)))" _ "tl args"]
        by (cases args) (auto simp: consputc_emit)
    next
      case 3
      then show ?thesis using True plain [of "map sint (string_arg strs (hd args))" _ "tl args"] by (cases args) auto
    next
      case 4
      then show ?thesis using True plain [of "[sint (hd args)]" _ "tl args"] by (cases args) (auto simp: consputc_emit)
    next
      case 5
      then show ?thesis using True plain [of "[37]" _ args] by (auto simp: consputc_emit comp_def)
    next
      case 6
      then show ?thesis using True plain [of "[37, uint d]" _ args] by (auto simp: consputc_emit option.map_comp comp_def)
    qed
  qed
qed (auto simp: consputc_emit)

text \<open>C34: \<open>printf\<close> and \<open>cprintf\<close> print the text that the directives of the format describe, \<open>cprintf\<close> measured by the bytes that
  reach the serial line; in particular the 16 bytes in which \<open>printint\<close> collects the digits are always enough. Neither has
  a result when the format wants more arguments than there are. The two texts differ only in the case of the hexadecimal
  digits as long as no argument printed with \<open>%c\<close> is the word 256, which the console takes for a backspace: then \<open>printf\<close>
  writes the byte 0 and \<open>cprintf\<close> erases a character.
\<close>

theorem printf_cprintf_agree:
  "printf strs fmt args out =
     (case render udigits byte_char strs (directives fmt) args of
        None \<Rightarrow> Panic ''out of bounds'' | Some t \<Rightarrow> Ret (out @ t)) \<and>
   (case render kdigits cons_char strs (directives fmt) args of
      None \<Rightarrow> cprintf strs (Some fmt) args s = Panic ''out of bounds''
    | Some t \<Rightarrow> \<exists>s'. cprintf strs (Some fmt) args s = Ret s' \<and> shown s' = shown s @ t \<and> s' = s\<lparr>c_out := c_out s'\<rparr>) \<and>
   (256 \<notin> set (characters (directives fmt) args) \<longrightarrow>
      render kdigits cons_char strs (directives fmt) args = render kdigits byte_char strs (directives fmt) args)"
  using printf_loop_render [of strs fmt args out] cprintf_loop_render [of s strs fmt args]
    render_characters [of "directives fmt" args kdigits strs]
  by (auto simp: printf_def cprintf_def printed_def shown_def emit_def split: option.splits)

text \<open>The format \<open>%x:%c\<close> with 255 and the letter A, and then with the words that differ.\<close>

lemma printf_cprintf_agree_witness:
  "printf (\<lambda>_. []) [37, 120, 58, 37, 99] [255, 65] [] = Ret [48, 120, 70, 70, 58, 65] \<and>
   (\<forall>s. \<exists>s'. cprintf (\<lambda>_. []) (Some [37, 120, 58, 37, 99]) [255, 65] s = Ret s' \<and>
      shown s' = shown s @ [48, 120, 102, 102, 58, 65])"
proof -
  let ?ds = "directives [37, 120, 58, 37, 99]"
  have u: "render udigits byte_char (\<lambda>_. []) ?ds [255, 65] = Some [48, 120, 70, 70, 58, 65]"
    and k: "render kdigits byte_char (\<lambda>_. []) ?ds [255, 65] = Some [48, 120, 102, 102, 58, 65]"
    by (simp_all add: byte_char_def numeral_of.simps udigits_def kdigits_def)
  have no: "256 \<notin> set (characters ?ds [255, 65])" by simp
  note agree = printf_cprintf_agree [of "\<lambda>_. []" "[37, 120, 58, 37, 99]" "[255, 65]" "[]"]
  have c: "render kdigits cons_char (\<lambda>_. []) ?ds [255, 65] = Some [48, 120, 102, 102, 58, 65]"
    using agree [THEN conjunct2, THEN conjunct2] no unfolding k by blast
  show ?thesis using agree unfolding u c option.case append_Nil by blast
qed

section \<open>Printed numbers are read back\<close>

lemma dec_value_snoc: "dec_value acc (ds @ [d]) = dec_value acc ds * 10 + (unat d - 48)"
  by (induction ds arbitrary: acc) simp_all

lemma udigit: "n < 10 \<Longrightarrow> unat (udigits ! n) - 48 = n"
proof -
  assume n: "n < 10"
  have "list_all (\<lambda>n. unat (udigits ! n) - 48 = n) [0, 1, 2, 3, 4, 5, 6, 7, 8, 9]" by (simp add: udigits_def)
  moreover have "n \<in> set [0, 1, 2, 3, 4, 5, 6, 7, 8, 9]" using n by (simp add: less_Suc_eq numeral_eq_Suc)
  ultimately show ?thesis by (simp only: list_all_iff)
qed

lemma dec_value_numeral: "dec_value 0 (numeral_of udigits 10 n) = n"
proof (induction n rule: less_induct)
  case (less n)
  show ?case
    using less.IH [of "n div 10"] by (subst numeral_of.simps) (simp add: dec_value_snoc udigit)
qed

lemma numeral_digits: "\<forall>d \<in> set (numeral_of udigits 10 n). 48 \<le> d \<and> d \<le> 57"
proof -
  have "set (numeral_of udigits 10 n) \<subseteq> set (take 10 udigits)" by (rule set_numeral_of) simp_all
  then show ?thesis by (auto simp: udigits_def)
qed

lemma atoi_numeral: "n < 2147483648 \<Longrightarrow> atoi (cptr_of (numeral_of udigits 10 n)) = Some (int n)"
  using atoi_correct [OF numeral_digits] by (simp add: dec_value_numeral)

text \<open>What \<open>printf\<close> prints for a number that is not negative, \<open>atoi\<close> reads back; for a negative one it prints a minus
  sign, at which \<open>atoi\<close> stops, and the digits of its absolute value.
\<close>

theorem printint_atoi:
  "\<exists>bs. printint x 10 True [] = Ret bs \<and>
     (if 0 \<le> sint x then atoi (cptr_of bs) = Some (sint x)
      else atoi (cptr_of bs) = Some 0 \<and> hd bs = 45 \<and>
           (x = 2147483648 \<or> atoi (cptr_of (tl bs)) = Some (- sint x)))"
proof (cases "sint x < 0")
  case False
  then show ?thesis using unat_minus_neg(4) [of x] by (simp add: decimal_def atoi_numeral nat_less_iff)
next
  case True
  have z: "atoi (cptr_of (45 # ds)) = Some 0" for ds
    by (subst atoi_def, subst atoi_loop.simps) (simp add: cptr_of_def)
  have "atoi (cptr_of (numeral_of udigits 10 (nat (- sint x)))) = Some (- sint x)" if "x \<noteq> 2147483648"
  proof -
    have "sint x \<noteq> - 2147483648"
    proof
      assume s: "sint x = - 2147483648"
      have "x = word_of_int (sint x)" by simp
      then have "x = word_of_int (- 2147483648)" unfolding s .
      then show False using that by simp
    qed
    then show ?thesis using True unat_minus_neg(5) [of x] atoi_numeral [of "nat (- sint x)"] by simp
  qed
  then show ?thesis using True z by (auto simp: decimal_def)
qed

section \<open>An input\<close>

text \<open>A character 256.\<close>

lemma percent_c_256:
  "printf (\<lambda>_. []) [37, 99] [256] out = Ret (out @ [0])"
  "cprintf (\<lambda>_. []) (Some [37, 99]) [256] s = Ret (consputc BACKSPACE s)"
  "shown (consputc BACKSPACE s) = shown s @ [8, 32, 8]"
  by (simp_all add: printf_def cprintf_def shown_def consputc_def serial_def)

text \<open>\<open>%d\<close> of the smallest number, \<open>%u\<close> of a large one, which is printed with a sign, \<open>%x\<close>, \<open>%s\<close> of a null pointer and an
  unknown letter.\<close>

lemma printf_example:
  "printf (\<lambda>_. []) [37, 100, 37, 117, 37, 120, 37, 115, 37, 122] [2147483648, 4294967295, 255, 0] [] =
     Ret ([45, 50, 49, 52, 55, 52, 56, 51, 54, 52, 56] @ [45, 49] @ [48, 120, 70, 70] @ null_text @ [37, 122])"
  by (simp add: printf_def decimal_def numeral_of.simps udigits_def string_arg_def)

end
