(* ===== verification/Grep.thy ===== *)
theory Grep
  imports OS_Prelude
begin

text \<open>
  The program \<open>grep\<close>: its pattern matcher, which handles \<open>^ . * $\<close>, and the loop that cuts the input into lines. A C string
  is the list of the bytes before its NUL.
\<close>

section \<open>The matcher\<close>

fun matchhere :: "byte list \<Rightarrow> byte list \<Rightarrow> bool"
  and matchstar :: "byte \<Rightarrow> byte list \<Rightarrow> byte list \<Rightarrow> bool" where
  "matchhere [] str = True"
| "matchhere (c # re) str =
     (if re \<noteq> [] \<and> hd re = 42 then matchstar c (tl re) str
      else if c = 36 \<and> re = [] then str = []
      else if str \<noteq> [] \<and> (c = 46 \<or> c = hd str) then matchhere re (tl str)
      else False)"
| "matchstar c re str =
     (if matchhere re str then True
      else if str \<noteq> [] \<and> (hd str = c \<or> c = 46) then matchstar c re (tl str)
      else False)"

declare matchstar.simps [simp del]

fun match_from :: "byte list \<Rightarrow> byte list \<Rightarrow> bool" where
  "match_from re [] = matchhere re []"
| "match_from re (c # str) = (if matchhere re (c # str) then True else match_from re str)"

definition match :: "byte list \<Rightarrow> byte list \<Rightarrow> bool" where
  "match re str = (if re \<noteq> [] \<and> hd re = 94 then matchhere (tl re) str else match_from re str)"

section \<open>The lines of the input\<close>

text \<open>
  The inner loop: \<open>strchr\<close> stops at a NUL. The result is what is left behind the last newline, and the output.
\<close>

function scan_lines :: "byte list \<Rightarrow> byte list \<Rightarrow> byte list \<Rightarrow> byte list \<times> byte list" where
  "scan_lines re p out =
     (let line = takeWhile (\<lambda>c. c \<noteq> 10 \<and> c \<noteq> 0) p; q = dropWhile (\<lambda>c. c \<noteq> 10 \<and> c \<noteq> 0) p
      in if q \<noteq> [] \<and> hd q = 10 then scan_lines re (tl q) (if match re line then out @ line @ [10] else out)
         else (p, out))"
  by pat_completeness auto
termination
proof (relation "measure (\<lambda>(re, p, out). length p)")
  fix re p out :: "byte list" and line q
  assume "q = dropWhile (\<lambda>c. c \<noteq> 10 \<and> c \<noteq> 0) p" "q \<noteq> [] \<and> hd q = 10"
  then have "length (tl q) < length q" "length q \<le> length p" by (simp_all add: length_dropWhile_le)
  then show "((re, tl q, if match re line then out @ line @ [10] else out), (re, p, out)) \<in> measure (\<lambda>(re, p, out). length p)"
    by simp
qed simp

declare scan_lines.simps [simp del]

text \<open>
  The input is what successive reads find, a file being one piece and a pipe one piece for each time it is filled; a
  read takes no more than asked for. \<open>buf\<close> holds the \<open>m\<close> bytes kept in the buffer of 1024.
\<close>

abbreviation BUFSIZE :: nat where "BUFSIZE \<equiv> 1024"

fun read_piece :: "nat \<Rightarrow> byte list list \<Rightarrow> byte list \<times> byte list list" where
  "read_piece n [] = ([], [])"
| "read_piece n (c # cs) = (take n c, if n < length c then drop n c # cs else cs)"

function grep_loop :: "byte list \<Rightarrow> byte list \<Rightarrow> byte list list \<Rightarrow> byte list \<Rightarrow> byte list" where
  "grep_loop re buf input out =
     (let (n, input') = read_piece (BUFSIZE - length buf - 1) input
      in if n = [] then out
         else
           let b = buf @ n; (p, out) = scan_lines re b out
           in grep_loop re (if length p = length b then [] else p) input' out)"
  by pat_completeness auto
termination
proof (relation "measure (\<lambda>(re, buf, input, out). length (concat input))")
  fix re buf out :: "byte list" and input x n input' b y p out'
  assume "x = read_piece (BUFSIZE - length buf - 1) input" "(n, input') = x" "n \<noteq> []"
  then have "length (concat input') < length (concat input)"
    by (cases "(BUFSIZE - length buf - 1, input)" rule: read_piece.cases) (auto split: if_splits)
  then show "((re, if length p = length b then [] else p, input', out'), (re, buf, input, out))
    \<in> measure (\<lambda>(re, buf, input, out). length (concat input))" by simp
qed simp

declare grep_loop.simps [simp del]

definition grep :: "byte list \<Rightarrow> byte list list \<Rightarrow> byte list" where
  "grep pattern input = grep_loop pattern [] input []"

section \<open>What a pattern means\<close>

datatype atom = Byte byte | Any

datatype piece = Single atom | Starred atom | At_end

primrec fits :: "atom \<Rightarrow> byte \<Rightarrow> bool" where
  "fits (Byte c) x = (c = x)"
| "fits Any x = True"

definition atom_of :: "byte \<Rightarrow> atom" where
  "atom_of c = (if c = 46 then Any else Byte c)"

fun pieces :: "byte list \<Rightarrow> piece list" where
  "pieces [] = []"
| "pieces [c] = [if c = 36 then At_end else Single (atom_of c)]"
| "pieces (c # d # re) = (if d = 42 then Starred (atom_of c) # pieces re else Single (atom_of c) # pieces (d # re))"

text \<open>The strings that the pieces match, and whether they end with the end of the line.\<close>

fun lang :: "piece list \<Rightarrow> byte list set" where
  "lang [] = {[]}"
| "lang (Single a # ps) = {x # u | x u. fits a x \<and> u \<in> lang ps}"
| "lang (Starred a # ps) = {w @ u | w u. list_all (fits a) w \<and> u \<in> lang ps}"
| "lang (At_end # ps) = lang ps"

definition anchored :: "piece list \<Rightarrow> bool" where
  "anchored ps \<longleftrightarrow> ps \<noteq> [] \<and> last ps = At_end"

definition begins :: "piece list \<Rightarrow> byte list \<Rightarrow> bool" where
  "begins ps str \<longleftrightarrow> (\<exists>u v. str = u @ v \<and> u \<in> lang ps \<and> (anchored ps \<longrightarrow> v = []))"

lemma fits_atom_of [simp]: "fits (atom_of c) x \<longleftrightarrow> c = 46 \<or> c = x"
  by (auto simp: atom_of_def)

lemma pieces_Nil [simp]: "pieces re = [] \<longleftrightarrow> re = []"
  by (cases re rule: pieces.cases) auto

lemma anchored_simps [simp]:
  "\<not> anchored []" "anchored [At_end]" "anchored (Single a # ps) = anchored ps" "anchored (Starred a # ps) = anchored ps"
  by (auto simp: anchored_def)

lemma begins_Nil [simp]: "begins [] str"
  by (simp add: begins_def)

lemma begins_At_end [simp]: "begins [At_end] str \<longleftrightarrow> str = []"
  by (auto simp: begins_def)

lemma begins_Single [simp]:
  "begins (Single a # ps) str \<longleftrightarrow> (\<exists>x t. str = x # t \<and> fits a x \<and> begins ps t)"
proof
  assume "begins (Single a # ps) str"
  then obtain y v where y: "str = y @ v" "y \<in> lang (Single a # ps)" "anchored ps \<longrightarrow> v = []"
    unfolding begins_def anchored_simps by blast
  then obtain x u where "y = x # u" "fits a x" "u \<in> lang ps" by auto
  with y show "\<exists>x t. str = x # t \<and> fits a x \<and> begins ps t" by (auto simp: begins_def)
next
  assume "\<exists>x t. str = x # t \<and> fits a x \<and> begins ps t"
  then obtain x u v where t: "str = x # u @ v" "fits a x" "u \<in> lang ps" "anchored ps \<longrightarrow> v = []" by (auto simp: begins_def)
  then have "str = (x # u) @ v" "x # u \<in> lang (Single a # ps)" by simp_all
  then show "begins (Single a # ps) str" using t(4) unfolding begins_def anchored_simps by blast
qed

lemma begins_Starred:
  "begins (Starred a # ps) str \<longleftrightarrow> begins ps str \<or> (\<exists>x t. str = x # t \<and> fits a x \<and> begins (Starred a # ps) t)"
  (is "?l \<longleftrightarrow> ?r")
proof
  assume ?l
  then obtain y v where y: "str = y @ v" "y \<in> lang (Starred a # ps)" "anchored ps \<longrightarrow> v = []"
    unfolding begins_def anchored_simps by blast
  then obtain w u where w: "y = w @ u" "list_all (fits a) w" "u \<in> lang ps" by auto
  note t = trans [OF y(1) arg_cong [OF w(1), of "\<lambda>y. y @ v"]] w(2,3) y(3)
  show ?r
  proof (cases w)
    case Nil
    then show ?thesis using t by (auto simp: begins_def)
  next
    case (Cons x w)
    then have "fits a x" "w @ u \<in> lang (Starred a # ps)" using t(2,3) by auto
    moreover have "w @ u @ v = (w @ u) @ v" by simp
    ultimately have "fits a x" "begins (Starred a # ps) (w @ u @ v)"
      using t(4) unfolding begins_def anchored_simps by blast+
    then show ?thesis using t(1) Cons by auto
  qed
next
  assume ?r
  then show ?l
  proof
    assume "begins ps str"
    then obtain u v where "str = u @ v" "u \<in> lang ps" "anchored ps \<longrightarrow> v = []" by (auto simp: begins_def)
    then show ?l unfolding begins_def by (intro exI [of _ u] exI [of _ v]) (auto intro: exI [of _ "[]"])
  next
    assume "\<exists>x t. str = x # t \<and> fits a x \<and> begins (Starred a # ps) t"
    then obtain x y v where y: "str = x # y @ v" "fits a x" "y \<in> lang (Starred a # ps)" "anchored ps \<longrightarrow> v = []"
      unfolding begins_def anchored_simps by blast
    then obtain w u where w: "y = w @ u" "list_all (fits a) w" "u \<in> lang ps" by auto
    note t = y(1)[unfolded w(1)] y(2) w(2,3) y(4)
    have "(x # w) @ u \<in> lang (Starred a # ps)" using t(2-4) unfolding lang.simps by (intro CollectI exI [of _ "x # w"] exI [of _ u]) simp
    moreover have "str = ((x # w) @ u) @ v" using t(1) by simp
    ultimately show ?l using t(5) unfolding begins_def anchored_simps by blast
  qed
qed

lemma hd_eq_iff: "re \<noteq> [] \<and> hd re = x \<longleftrightarrow> (\<exists>r. re = x # r)"
  by (cases re) auto

lemma matchhere_begins:
  "matchhere re str \<longleftrightarrow> begins (pieces re) str"
  "matchstar c re str \<longleftrightarrow> begins (Starred (atom_of c) # pieces re) str"
proof (induction re str and c re str rule: matchhere_matchstar.induct)
  case (2 c re str)
  show ?case
  proof (cases re)
    case Nil
    then show ?thesis by (cases str) auto
  next
    case (Cons d r)
    then show ?thesis using 2 by (cases str) auto
  qed
next
  case (3 c re str)
  show ?case unfolding begins_Starred [of _ _ str] matchstar.simps [of c re str]
    using 3 by (cases str) auto
qed simp

text \<open>C31: \<open>match\<close> decides what the pattern means: a pattern that starts with a hat has to match at the beginning of the
  line and any other one somewhere in it, up to the end of the line if it ends with a dollar sign; a star stands for any
  number of the character before it, and a dot for any character.
\<close>

theorem match_is_regex:
  "match re str \<longleftrightarrow>
     (if re \<noteq> [] \<and> hd re = 94 then begins (pieces (tl re)) str else \<exists>s t. str = s @ t \<and> begins (pieces re) t)"
proof -
  have "match_from re str \<longleftrightarrow> (\<exists>s t. str = s @ t \<and> begins (pieces re) t)"
  proof (induction re str rule: match_from.induct)
    case (2 re c str)
    then show ?case by (simp add: matchhere_begins) (metis Cons_eq_append_conv append_Nil)
  qed (simp add: matchhere_begins)
  then show ?thesis unfolding match_def matchhere_begins(1) by (rule arg_cong)
qed

section \<open>What grep prints\<close>

definition unlines :: "byte list list \<Rightarrow> byte list" where
  "unlines ls = concat (map (\<lambda>l. l @ [10]) ls)"

definition clean :: "byte list \<Rightarrow> bool" where
  "clean l \<longleftrightarrow> 10 \<notin> set l \<and> 0 \<notin> set l \<and> length l < BUFSIZE - 1"

lemma unlines_simps [simp]: "unlines [] = []" "unlines (l # ls) = l @ 10 # unlines ls"
  by (simp_all add: unlines_def)

lemma scan_no_newline:
  assumes "10 \<notin> set p"
  shows "scan_lines re p out = (p, out)"
proof -
  define q where "q = dropWhile (\<lambda>c. c \<noteq> 10 \<and> c \<noteq> 0) p"
  have "set q \<subseteq> set p" unfolding q_def by (auto dest: set_dropWhileD)
  then have "(q \<noteq> [] \<and> hd q = 10) = False" using assms by (cases q) auto
  then show ?thesis by (subst scan_lines.simps) (auto simp: Let_def simp flip: q_def)
qed

lemma scan_line:
  assumes "clean l"
  shows "scan_lines re (l @ 10 # b) out = scan_lines re b (if match re l then out @ l @ [10] else out)"
proof -
  have ok: "x \<noteq> 10 \<and> x \<noteq> 0" if "x \<in> set l" for x using assms that by (auto simp: clean_def)
  have "takeWhile (\<lambda>c. c \<noteq> 10 \<and> c \<noteq> 0) (l @ 10 # b) = l" "dropWhile (\<lambda>c. c \<noteq> 10 \<and> c \<noteq> 0) (l @ 10 # b) = 10 # b"
    using takeWhile_append2 [of l "\<lambda>c. c \<noteq> 10 \<and> c \<noteq> 0"] dropWhile_append2 [of l "\<lambda>c. c \<noteq> 10 \<and> c \<noteq> 0"] ok by auto
  then show ?thesis by (subst scan_lines.simps) (simp add: Let_def)
qed

text \<open>One pass over a buffer that starts at a line and ends anywhere.\<close>

lemma scan_prefix:
  assumes "b @ r = unlines ls" and "list_all clean ls"
  shows "\<exists>k p. scan_lines re b out = (p, out @ unlines (filter (match re) (take k ls))) \<and> p @ r = unlines (drop k ls) \<and>
           (drop k ls = [] \<or> length p \<le> length (hd (drop k ls))) \<and> (if k = 0 then p = b else length p < length b)"
  using assms
proof (induction ls arbitrary: b out)
  case Nil
  then show ?case by (intro exI [of _ 0] exI [of _ "[]"]) (simp add: scan_no_newline)
next
  case (Cons l ls)
  have cl: "clean l" using Cons.prems(2) by simp
  show ?case
  proof (cases "length b \<le> length l")
    case True
    then have "b = take (length b) l" using Cons.prems(1) by (metis append_eq_append_conv_if unlines_simps(2))
    then have "10 \<notin> set b" using cl by (metis clean_def in_set_takeD)
    then show ?thesis using Cons.prems(1) True by (intro exI [of _ 0] exI [of _ b]) (simp add: scan_no_newline)
  next
    case False
    then obtain b' where b: "b = l @ 10 # b'" "b' @ r = unlines ls"
      using Cons.prems(1) by (auto simp: append_eq_append_conv2 append_eq_Cons_conv)
    from Cons.IH [OF b(2), of "if match re l then out @ l @ [10] else out"] Cons.prems(2) obtain k p where
      "scan_lines re b' (if match re l then out @ l @ [10] else out)
         = (p, (if match re l then out @ l @ [10] else out) @ unlines (filter (match re) (take k ls)))"
      "p @ r = unlines (drop k ls)" "drop k ls = [] \<or> length p \<le> length (hd (drop k ls))"
      "if k = 0 then p = b' else length p < length b'" by auto
    then show ?thesis using scan_line [OF cl] b(1)
      by (intro exI [of _ "Suc k"] exI [of _ p]) (auto split: if_splits)
  qed
qed

lemma grep_loop_step:
  assumes "read_piece (BUFSIZE - length buf - 1) input = (n, input')" and "n \<noteq> []" and "scan_lines re (buf @ n) out = (p, out')"
  shows "grep_loop re buf input out = grep_loop re (if length p = length (buf @ n) then [] else p) input' out'"
  by (subst grep_loop.simps) (use assms in \<open>simp add: Let_def\<close>)

lemma unlines_longer:
  assumes "b = unlines ls" and "ls \<noteq> []"
  shows "length (hd ls) < length b"
  using assms by (cases ls) auto

text \<open>Each read of a file brings at least one more line into the buffer.\<close>

lemma grep_loop_file:
  assumes "buf @ rest = unlines ls" and "list_all clean ls" and "ls = [] \<or> length buf \<le> length (hd ls)"
  shows "grep_loop re buf (if rest = [] then [] else [rest]) out = out @ unlines (filter (match re) ls)"
  using assms
proof (induction "length rest" arbitrary: buf rest ls out rule: less_induct)
  case less
  show ?case
  proof (cases "rest = []")
    case True
    then have "ls \<noteq> [] \<Longrightarrow> length (hd ls) < length buf" using less.prems(1) unlines_longer [of buf ls] by simp
    then have "ls = []" using less.prems(3) by linarith
    then show ?thesis using True by (subst grep_loop.simps) simp
  next
    case False
    then have ls: "ls \<noteq> []" using less.prems(1) by auto
    have short: "length (hd ls) < BUFSIZE - 1" using less.prems(2) ls by (cases ls) (auto simp: clean_def)
    define room where "room = BUFSIZE - length buf - 1"
    have room: "0 < room" "length buf + room = BUFSIZE - 1" using less.prems(3) ls short by (auto simp: room_def)
    define b where "b = buf @ take room rest"
    define input' where "input' = (if drop room rest = [] then [] else [drop room rest])"
    have rd: "read_piece room [rest] = (take room rest, input')" by (simp add: input'_def)
    have ne: "take room rest \<noteq> []" using room(1) False by simp
    have b: "b @ drop room rest = unlines ls" using less.prems(1) by (simp add: b_def)
    from scan_prefix [OF b less.prems(2), of re out] obtain k p where
      k: "scan_lines re b out = (p, out @ unlines (filter (match re) (take k ls)))" "p @ drop room rest = unlines (drop k ls)"
        "drop k ls = [] \<or> length p \<le> length (hd (drop k ls))" "if k = 0 then p = b else length p < length b" by blast
    have "k \<noteq> 0"
    proof
      assume "k = 0"
      then have "length b \<le> length (hd ls)" using k(3,4) ls by simp
      then have "drop room rest = []" using short room(2) by (auto simp: b_def)
      then show False using unlines_longer [OF _ ls, of b] b \<open>length b \<le> length (hd ls)\<close> by simp
    qed
    then have p: "length p \<noteq> length b" using k(4) by simp
    have "list_all clean (drop k ls)" using less.prems(2) by (auto simp: list_all_iff dest: in_set_dropD)
    then have "grep_loop re p input' (out @ unlines (filter (match re) (take k ls)))
      = (out @ unlines (filter (match re) (take k ls))) @ unlines (filter (match re) (drop k ls))"
      unfolding input'_def using less.hyps [OF _ k(2) _ k(3)] room(1) False by simp
    also have "\<dots> = out @ unlines (filter (match re) ls)"
      by (simp add: unlines_def flip: concat_append map_append filter_append)
    finally show ?thesis
      using grep_loop_step [OF rd [unfolded room_def] ne [unfolded room_def]] k(1) p False by (simp add: b_def room_def)
  qed
qed

text \<open>C32: On a file whose lines end with a newline, hold no NUL and fit the buffer, \<open>grep\<close> prints exactly the lines that match,
  whole and in order, however the lines lie across the reads.
\<close>

theorem grep_prints_matching_lines:
  assumes "list_all clean ls"
  shows "grep re [unlines ls] = unlines (filter (match re) ls)"
proof (cases "ls = []")
  case True
  then show ?thesis by (simp add: grep_def grep_loop.simps [of re "[]" "[[]]"])
next
  case False
  then have "unlines ls \<noteq> []" by (cases ls) auto
  then show ?thesis using grep_loop_file [of "[]" "unlines ls" ls re "[]"] assms by (simp add: grep_def)
qed

text \<open>C39: A read that brings no newline into an empty buffer is dropped: the beginning of a line that a pipe delivers in
  pieces, a line longer than the buffer and a last line without a newline are lost.
\<close>

theorem grep_drops_partial_lines:
  assumes "piece \<noteq> []" and "length piece < BUFSIZE" and "10 \<notin> set piece"
  shows "grep re (piece # input) = grep re input"
proof -
  have "read_piece (BUFSIZE - 1) (piece # input) = (piece, input)" using assms(2) by simp
  then show ?thesis unfolding grep_def
    using grep_loop_step [of "[]" "piece # input" piece input] assms(1) scan_no_newline [OF assms(3)] by simp
qed

section \<open>An input\<close>

theorem grep_prints_matching_lines_witness:
  "list_all clean [[97, 98], [99], [98, 98, 99]] \<and>
   grep [98, 42, 99, 36] [unlines [[97, 98], [99], [98, 98, 99]]] = [99, 10, 98, 98, 99, 10]"
  using grep_prints_matching_lines [of "[[97, 98], [99], [98, 98, 99]]" "[98, 42, 99, 36]"]
  by (simp add: clean_def match_def matchstar.simps)

theorem grep_drops_partial_lines_witness:
  "[97 :: byte] \<noteq> [] \<and> length [97 :: byte] < BUFSIZE \<and> 10 \<notin> set [97 :: byte] \<and>
   grep [97] [[97], [98, 10]] = []"
proof -
  have "unlines [[98]] = [98, 10]" by simp
  moreover have "grep [97] [unlines [[98]]] = []"
    unfolding grep_def by (simp add: grep_loop.simps scan_lines.simps match_def)
  ultimately have "grep [97] [[98, 10]] = []" by simp
  then show ?thesis using grep_drops_partial_lines [of "[97]" "[97]" "[[98, 10]]"] by simp
qed

end
