(* ===== verification/Shell.thy ===== *)
theory Shell
  imports OS_Prelude
begin

text \<open>
  The parser of the shell (\<open>sh.c\<close>). The command line is a list of bytes, a pointer into it an offset, and what \<open>malloc\<close>
  makes is a tree. \<open>panic\<close> ends the process with a message. The recursion through parentheses is bounded by fuel, and
  the theorems show that \<open>parsecmd\<close> gives enough of it.
\<close>

section \<open>Tokens\<close>

definition MAXARGS :: nat where "MAXARGS = 10"

definition whitespace :: "byte list" where
  "whitespace = [32, 9, 13, 10, 11]"

definition symbols :: "byte list" where
  "symbols = [60, 124, 62, 38, 59, 40, 41]"

text \<open>The byte that a pointer points to, which is NUL at the end, and the loops \<open>while (s < es && ...) s++\<close>.\<close>

definition char_at :: "byte list \<Rightarrow> nat \<Rightarrow> byte" where
  "char_at str s = (if s < length str then str ! s else 0)"

function skip :: "(byte \<Rightarrow> bool) \<Rightarrow> byte list \<Rightarrow> nat \<Rightarrow> nat" where
  "skip P str s = (if s < length str \<and> P (str ! s) then skip P str (s + 1) else s)"
  by pat_completeness auto
termination by (relation "measure (\<lambda>(P, str, s). length str - s)") auto

declare skip.simps [simp del]

abbreviation is_space :: "byte \<Rightarrow> bool" where "is_space c \<equiv> c \<in> set whitespace"

definition word_char :: "byte \<Rightarrow> bool" where
  "word_char c \<longleftrightarrow> c \<notin> set whitespace \<and> c \<notin> set symbols"

text \<open>The token, where its text begins and ends, and the new value of \<open>*ps\<close>.\<close>

definition gettoken :: "byte list \<Rightarrow> nat \<Rightarrow> byte \<times> nat \<times> nat \<times> nat" where
  "gettoken str s =
     (let q = skip is_space str s;
          c = char_at str q;
          (ret, s) =
            (if c = 0 then (c, q)
             else if c \<in> {124, 40, 41, 59, 38, 60} then (c, q + 1)
             else if c = 62 then if char_at str (q + 1) = 62 then (43, q + 2) else (c, q + 1)
             else (97, skip word_char str q))
      in (ret, q, s, skip is_space str s))"

definition peek :: "byte list \<Rightarrow> byte list \<Rightarrow> nat \<Rightarrow> bool \<times> nat" where
  "peek str toks s =
     (let s = skip is_space str s in (char_at str s \<noteq> 0 \<and> char_at str s \<in> set toks, s))"

section \<open>Commands\<close>

text \<open>The modes of redirections: \<open>O_RDONLY\<close>, and \<open>O_WRONLY | O_CREATE\<close>.\<close>

definition mode_in :: nat where "mode_in = 0"
definition mode_out :: nat where "mode_out = 513"

text \<open>An argument is where its text begins and ends.\<close>

type_synonym arg = "nat \<times> nat"

datatype cmd = EXEC "arg list" | REDIR cmd nat nat nat nat | PIPE cmd cmd | LIST cmd cmd | BACK cmd

datatype 'a parsed = No_fuel | Error string | Parsed 'a nat

primrec pbind :: "'a parsed \<Rightarrow> ('a \<Rightarrow> nat \<Rightarrow> 'b parsed) \<Rightarrow> 'b parsed" where
  "pbind No_fuel f = No_fuel"
| "pbind (Error e) f = Error e"
| "pbind (Parsed x s) f = f x s"

section \<open>Positions\<close>

lemma skip_ge: "s \<le> skip P str s"
  by (induction P str s rule: skip.induct) (subst skip.simps, auto)

lemma skip_le: "s \<le> length str \<Longrightarrow> skip P str s \<le> length str"
  by (induction P str s rule: skip.induct) (subst skip.simps, auto)

lemma skip_in: "s \<le> i \<Longrightarrow> i < skip P str s \<Longrightarrow> i < length str \<and> P (str ! i)"
proof (induction P str s rule: skip.induct)
  case (1 P str s)
  show ?case
  proof (cases "s < length str \<and> P (str ! s)")
    case True
    then have "skip P str s = skip P str (s + 1)" by (subst skip.simps) simp
    then show ?thesis using 1 True by (cases "i = s") auto
  next
    case False
    then have "skip P str s = s" by (subst skip.simps) auto
    then show ?thesis using 1 by simp
  qed
qed

lemma skip_stop: "skip P str s < length str \<Longrightarrow> \<not> P (str ! skip P str s)"
  by (induction P str s rule: skip.induct) (subst (asm) skip.simps, subst skip.simps, auto split: if_splits)

lemma skip_stays: "\<not> P (str ! s) \<Longrightarrow> skip P str s = s"
  by (subst skip.simps) simp

lemma skip_step: "s < length str \<Longrightarrow> P (str ! s) \<Longrightarrow> s < skip P str s"
  using skip_ge [of "s + 1" P str] by (subst skip.simps) simp

text \<open>A word of the command line: where an argument or a file name lies.\<close>

definition token :: "byte list \<Rightarrow> arg \<Rightarrow> bool" where
  "token str a \<longleftrightarrow> fst a < snd a \<and> snd a \<le> length str \<and> (\<forall>i. fst a \<le> i \<longrightarrow> i < snd a \<longrightarrow> word_char (str ! i)) \<and>
     (snd a < length str \<longrightarrow> \<not> word_char (str ! snd a))"

lemma char_at_less: "char_at str s \<noteq> 0 \<Longrightarrow> s < length str \<and> str ! s = char_at str s"
  by (simp add: char_at_def split: if_splits)

lemma space_end: "\<not> is_space (char_at str (skip is_space str s))"
  using skip_stop [of is_space str s] by (auto simp: char_at_def whitespace_def)

lemma gettoken_bounds:
  assumes "gettoken str s = (t, q, e, s')" and "s \<le> length str"
  shows "s \<le> q" "q \<le> e" "e \<le> s'" "s' \<le> length str" "t \<noteq> 0 \<Longrightarrow> q < e" "t = 97 \<Longrightarrow> token str (q, e)"
proof -
  define k where "k = skip is_space str s"
  have k: "s \<le> k" "k \<le> length str" "\<not> is_space (char_at str k)" using skip_ge skip_le assms(2) space_end by (simp_all add: k_def)
  have q: "q = k" and s': "s' = skip is_space str e" using assms(1) by (auto simp: gettoken_def k_def Let_def split: if_splits)
  consider "char_at str k = 0" "t = 0" "e = k"
    | "k < length str" "t \<noteq> 0" "t \<noteq> 97" "e = k + 1"
    | "k < length str" "t = 43" "e = k + 2" "char_at str (k + 1) = 62"
    | "k < length str" "word_char (str ! k)" "t = 97" "e = skip word_char str k"
  proof -
    have "char_at str k \<noteq> 0 \<Longrightarrow> k < length str" "k < length str \<Longrightarrow> char_at str k = str ! k" by (simp_all add: char_at_def split: if_splits)
    then show ?thesis using assms(1) k(3) that
      by (auto simp: gettoken_def k_def [symmetric] Let_def word_char_def symbols_def split: if_splits)
  qed
  then have "k \<le> e \<and> e \<le> length str \<and> (t \<noteq> 0 \<longrightarrow> k < e) \<and> (t = 97 \<longrightarrow> token str (k, e))"
  proof cases
    case 3
    then show ?thesis using char_at_less [of str "k + 1"] by simp
  next
    case 4
    then show ?thesis using skip_step [of k str word_char] skip_le [of k str word_char] skip_in [of k _ word_char str] skip_stop [of word_char str k]
      by (simp add: token_def)
  qed (use k in auto)
  then show "s \<le> q" "q \<le> e" "e \<le> s'" "s' \<le> length str" "t \<noteq> 0 \<Longrightarrow> q < e" "t = 97 \<Longrightarrow> token str (q, e)"
    using k(1) q s' skip_ge skip_le by auto
qed

lemma peek_bounds:
  assumes "peek str toks s = (b, s')" and "s \<le> length str"
  shows "s \<le> s'" "s' \<le> length str" "b \<Longrightarrow> s' < length str \<and> str ! s' \<in> set toks \<and> str ! s' \<noteq> 0 \<and> \<not> is_space (str ! s')"
  using assms skip_ge [of s is_space str] skip_le [of s str is_space] space_end [of str s]
  by (auto simp: peek_def Let_def char_at_def split: if_splits)

text \<open>Behind a matching \<open>peek\<close>, \<open>gettoken\<close> makes progress.\<close>

lemma gettoken_progress:
  assumes "gettoken str s = (t, q, e, s')" and "s \<le> length str" and "t \<noteq> 0"
  shows "s < s'"
  using gettoken_bounds [OF assms(1,2)] assms(3) by simp

lemma peek_token:
  assumes "peek str toks s = (True, k)" and "gettoken str k = (t, q, e, s')" and "s \<le> length str"
  shows "t \<noteq> 0" "k < s'" "s' \<le> length str"
proof -
  note p = peek_bounds [OF assms(1,3)]
  have "skip is_space str k = k" using p(3) by (subst skip.simps) simp
  then show t: "t \<noteq> 0" using assms(2) p(3) by (auto simp: gettoken_def Let_def char_at_def split: if_splits)
  show "k < s'" by (rule gettoken_progress [OF assms(2) p(2) t])
  show "s' \<le> length str" by (rule gettoken_bounds(4) [OF assms(2) p(2)])
qed

section \<open>Parsing\<close>

function parseredirs :: "byte list \<Rightarrow> cmd \<Rightarrow> nat \<Rightarrow> cmd parsed" where
  "parseredirs str cmd s =
     (if length str < s then Error ''out of bounds''
      else
        let (b, s) = peek str [60, 62] s
        in if \<not> b then Parsed cmd s
           else
             let (tok, _, _, s) = gettoken str s; (t, q, eq, s) = gettoken str s
             in if t \<noteq> 97 then Error ''missing file for redirection''
                else parseredirs str (if tok = 60 then REDIR cmd q eq mode_in 0 else REDIR cmd q eq mode_out 1) s)"
  by pat_completeness auto
termination
proof (relation "measure (\<lambda>(str, cmd, s). length str - s)")
  fix str s and cmd :: cmd and x b k xa tok xb q xc e s1 xd t xe q1 xf eq s2
  assume "\<not> length str < s" "x = peek str [60, 62] s" "(b, k) = x" "\<not> \<not> b"
    "xa = gettoken str k" "(tok, xb) = xa" "(q, xc) = xb" "(e, s1) = xc" "xd = gettoken str s1" "(t, xe) = xd" "(q1, xf) = xe" "(eq, s2) = xf"
  then have "peek str [60, 62] s = (True, k)" "gettoken str k = (tok, q, e, s1)" "gettoken str s1 = (t, q1, eq, s2)" "s \<le> length str"
    by auto
  from peek_token [OF this(1,2,4)] gettoken_bounds [OF this(3)] peek_bounds(1) [OF this(1,4)] this(4)
  show "((str, if tok = 60 then REDIR cmd q1 eq mode_in 0 else REDIR cmd q1 eq mode_out 1, s2), str, cmd, s)
    \<in> measure (\<lambda>(str, cmd, s). length str - s)" by auto
qed simp

declare parseredirs.simps [simp del]

text \<open>What \<open>cmd->argv[argc] = q\<close> does: \<open>cmd\<close> is the command at the bottom of the redirections around it.\<close>

primrec add_arg :: "arg \<Rightarrow> cmd \<Rightarrow> cmd" where
  "add_arg a (EXEC args) = EXEC (args @ [a])"
| "add_arg a (REDIR c q e m fd) = REDIR (add_arg a c) q e m fd"
| "add_arg a (PIPE l r) = PIPE l r"
| "add_arg a (LIST l r) = LIST l r"
| "add_arg a (BACK c) = BACK c"

function parseargs :: "byte list \<Rightarrow> nat \<Rightarrow> cmd \<Rightarrow> nat \<Rightarrow> cmd parsed" where
  "parseargs str argc ret s =
     (if length str < s then Error ''out of bounds''
      else
        let (b, s) = peek str [124, 41, 38, 59] s
        in if b then Parsed ret s
           else
             let (tok, q, eq, s) = gettoken str s
             in if tok = 0 then Parsed ret s
                else if tok \<noteq> 97 then Error ''syntax''
                else if argc + 1 \<ge> MAXARGS then Error ''too many args''
                else
                  case parseredirs str (add_arg (q, eq) ret) s of
                    Parsed ret s \<Rightarrow> parseargs str (argc + 1) ret s
                  | No_fuel \<Rightarrow> No_fuel
                  | Error e \<Rightarrow> Error e)"
  by pat_completeness auto
termination by (relation "measure (\<lambda>(str, argc, ret, s). MAXARGS - argc)") auto

declare parseargs.simps [simp del]

text \<open>The loop of \<open>parseline\<close> over ampersands.\<close>

function parsebacks :: "byte list \<Rightarrow> cmd \<Rightarrow> nat \<Rightarrow> cmd \<times> nat" where
  "parsebacks str cmd s =
     (if length str < s then (cmd, s)
      else
        let (b, s) = peek str [38] s
        in if b then let (_, _, _, s) = gettoken str s in parsebacks str (BACK cmd) s else (cmd, s))"
  by pat_completeness auto
termination
proof (relation "measure (\<lambda>(str, cmd, s). length str - s)")
  fix str s and cmd :: cmd and x b k xa tok xb q xc e s1
  assume "\<not> length str < s" "x = peek str [38] s" "(b, k) = x" b "xa = gettoken str k" "(tok, xb) = xa" "(q, xc) = xb" "(e, s1) = xc"
  then have "peek str [38] s = (True, k)" "gettoken str k = (tok, q, e, s1)" "s \<le> length str" by auto
  from peek_token [OF this] peek_bounds(1) [OF this(1,3)] this(3)
  show "((str, BACK cmd, s1), str, cmd, s) \<in> measure (\<lambda>(str, cmd, s). length str - s)" by auto
qed simp

declare parsebacks.simps [simp del]

fun parseline :: "nat \<Rightarrow> byte list \<Rightarrow> nat \<Rightarrow> cmd parsed"
  and parsepipe :: "nat \<Rightarrow> byte list \<Rightarrow> nat \<Rightarrow> cmd parsed"
  and parseexec :: "nat \<Rightarrow> byte list \<Rightarrow> nat \<Rightarrow> cmd parsed"
  and parseblock :: "nat \<Rightarrow> byte list \<Rightarrow> nat \<Rightarrow> cmd parsed" where
  "parseline 0 str s = No_fuel"
| "parseline (Suc n) str s =
     pbind (parsepipe n str s) (\<lambda>cmd s.
       let (cmd, s) = parsebacks str cmd s; (b, s) = peek str [59] s
       in if b then let (_, _, _, s) = gettoken str s in pbind (parseline n str s) (\<lambda>r s. Parsed (LIST cmd r) s)
          else Parsed cmd s)"
| "parsepipe 0 str s = No_fuel"
| "parsepipe (Suc n) str s =
     pbind (parseexec n str s) (\<lambda>cmd s.
       let (b, s) = peek str [124] s
       in if b then let (_, _, _, s) = gettoken str s in pbind (parsepipe n str s) (\<lambda>r s. Parsed (PIPE cmd r) s)
          else Parsed cmd s)"
| "parseexec 0 str s = No_fuel"
| "parseexec (Suc n) str s =
     (let (b, s) = peek str [40] s
      in if b then parseblock n str s
         else pbind (parseredirs str (EXEC []) s) (\<lambda>ret s. parseargs str 0 ret s))"
| "parseblock 0 str s = No_fuel"
| "parseblock (Suc n) str s =
     (let (b, s) = peek str [40] s
      in if \<not> b then Error ''parseblock''
         else
           let (_, _, _, s) = gettoken str s
           in pbind (parseline n str s) (\<lambda>cmd s.
                let (b, s) = peek str [41] s
                in if \<not> b then Error ''syntax - missing )''
                   else let (_, _, _, s) = gettoken str s in parseredirs str cmd s))"

text \<open>The stores that end the strings of the command.\<close>

primrec nulterminate :: "cmd \<Rightarrow> byte list \<Rightarrow> byte list" where
  "nulterminate (EXEC args) buf = fold (\<lambda>a buf. buf[snd a := 0]) args buf"
| "nulterminate (REDIR c q e m fd) buf = (nulterminate c buf)[e := 0]"
| "nulterminate (PIPE l r) buf = nulterminate r (nulterminate l buf)"
| "nulterminate (LIST l r) buf = nulterminate r (nulterminate l buf)"
| "nulterminate (BACK c) buf = nulterminate c buf"

text \<open>The command, and the line with its final NUL after the stores.\<close>

definition parsecmd :: "byte list \<Rightarrow> (cmd \<times> byte list) parsed" where
  "parsecmd str =
     pbind (parseline (4 * length str + 4) str 0) (\<lambda>cmd s.
       let (_, s) = peek str [] s
       in if s \<noteq> length str then Error ''syntax'' else Parsed (cmd, nulterminate cmd (str @ [0])) s)"

section \<open>Well-formed commands\<close>

text \<open>
  Every argument and file name is a word of the line, an \<open>EXEC\<close> leaves room for the null pointer behind its arguments,
  and a redirection is of the standard input or output.
\<close>

primrec wf_cmd :: "byte list \<Rightarrow> cmd \<Rightarrow> bool" where
  "wf_cmd str (EXEC args) \<longleftrightarrow> length args < MAXARGS \<and> list_all (token str) args"
| "wf_cmd str (REDIR c q e m fd) \<longleftrightarrow> wf_cmd str c \<and> token str (q, e) \<and> (m, fd) \<in> {(mode_in, 0), (mode_out, 1)}"
| "wf_cmd str (PIPE l r) \<longleftrightarrow> wf_cmd str l \<and> wf_cmd str r"
| "wf_cmd str (LIST l r) \<longleftrightarrow> wf_cmd str l \<and> wf_cmd str r"
| "wf_cmd str (BACK c) \<longleftrightarrow> wf_cmd str c"

text \<open>The arguments of the command at the bottom of redirections.\<close>

primrec bottom :: "cmd \<Rightarrow> arg list option" where
  "bottom (EXEC args) = Some args"
| "bottom (REDIR c q e m fd) = bottom c"
| "bottom (PIPE l r) = None"
| "bottom (LIST l r) = None"
| "bottom (BACK c) = None"

lemma add_arg_ok:
  assumes "wf_cmd str c" and "bottom c = Some args" and "length args + 1 < MAXARGS" and "token str a"
  shows "wf_cmd str (add_arg a c)" "bottom (add_arg a c) = Some (args @ [a])"
  using assms by (induction c) auto

definition syntax_errors :: "string set" where
  "syntax_errors = {''missing file for redirection'', ''syntax'', ''too many args'', ''syntax - missing )''}"

text \<open>The result of a parser that starts at \<open>s\<close> and has enough fuel if \<open>enough\<close>.\<close>

definition good :: "byte list \<Rightarrow> nat \<Rightarrow> bool \<Rightarrow> cmd parsed \<Rightarrow> bool" where
  "good str s enough r \<longleftrightarrow> (case r of No_fuel \<Rightarrow> \<not> enough | Error e \<Rightarrow> e \<in> syntax_errors
     | Parsed c s' \<Rightarrow> wf_cmd str c \<and> s \<le> s' \<and> s' \<le> length str)"

lemma good_simps [simp]:
  "good str s enough No_fuel \<longleftrightarrow> \<not> enough"
  "good str s enough (Error e) \<longleftrightarrow> e \<in> syntax_errors"
  "good str s enough (Parsed c s') \<longleftrightarrow> wf_cmd str c \<and> s \<le> s' \<and> s' \<le> length str"
  by (simp_all add: good_def)

lemma good_bind:
  assumes "good str s e1 r" and "e2 \<Longrightarrow> e1"
    and "\<And>c s'. r = Parsed c s' \<Longrightarrow> wf_cmd str c \<Longrightarrow> s \<le> s' \<Longrightarrow> s' \<le> length str \<Longrightarrow> good str s e2 (f c s')"
  shows "good str s e2 (pbind r f)"
  using assms by (cases r) auto

lemma good_mono: "good str t e r \<Longrightarrow> s \<le> t \<Longrightarrow> (e' \<Longrightarrow> e) \<Longrightarrow> good str s e' r"
  by (cases r) auto

lemma parseredirs_good:
  assumes "s \<le> length str" and "wf_cmd str c"
  shows "good str s True (parseredirs str c s) \<and> (\<forall>d s'. parseredirs str c s = Parsed d s' \<longrightarrow> bottom d = bottom c)"
  using assms
proof (induction str c s rule: parseredirs.induct)
  case (1 str c s)
  obtain b k where pk: "peek str [60, 62] s = (b, k)" by (cases "peek str [60, 62] s")
  obtain tok x y s1 where g: "gettoken str k = (tok, x, y, s1)" by (cases "gettoken str k")
  obtain t q e s2 where g2: "gettoken str s1 = (t, q, e, s2)" by (cases "gettoken str s1")
  note pb = peek_bounds [OF pk 1(2)]
  show ?case
  proof (cases "b \<and> t = 97")
    case True
    then have pk: "peek str [60, 62] s = (True, k)" using pk by simp
    note b1 = peek_token [OF pk g 1(2)] and b2 = gettoken_bounds [OF g2]
    let ?d = "if tok = 60 then REDIR c q e mode_in 0 else REDIR c q e mode_out 1"
    have eq: "parseredirs str c s = parseredirs str ?d s2"
      using 1(2) pk g g2 True by (subst parseredirs.simps) (simp add: Let_def)
    have "wf_cmd str ?d" using 1(3) b1 b2 True by simp
    then have "good str s2 True (parseredirs str ?d s2) \<and> (\<forall>d s'. parseredirs str ?d s2 = Parsed d s' \<longrightarrow> bottom d = bottom ?d)"
      using 1(1) [OF _ pk [symmetric] refl _ g [symmetric] refl refl refl g2 [symmetric] refl refl refl] 1(2) True b1 b2 by simp
    moreover have "s \<le> s2" using b1 b2 pb by linarith
    ultimately show ?thesis unfolding eq using good_mono [of str s2 True] by auto
  next
    case False
    have "parseredirs str c s = (if b then Error ''missing file for redirection'' else Parsed c k)"
      using False 1(2) pk g g2 by (subst parseredirs.simps) (auto simp: Let_def)
    then show ?thesis using 1(3) pb by (simp add: syntax_errors_def)
  qed
qed

lemma parseargs_good:
  assumes "s \<le> length str" and "wf_cmd str ret" and "bottom ret = Some args" "length args = argc"
  shows "good str s True (parseargs str argc ret s)"
  using assms
proof (induction str argc ret s arbitrary: args rule: parseargs.induct)
  case (1 str argc ret s)
  obtain b k where pk: "peek str [124, 41, 38, 59] s = (b, k)" by (cases "peek str [124, 41, 38, 59] s")
  obtain t q e s1 where g: "gettoken str k = (t, q, e, s1)" by (cases "gettoken str k")
  note pb = peek_bounds [OF pk 1(2)] and gb = gettoken_bounds [OF g]
  show ?case
  proof (cases "\<not> b \<and> t = 97 \<and> argc + 1 < MAXARGS")
    case False
    then show ?thesis using 1(2,3) pk g pb gb by (subst parseargs.simps) (auto simp: Let_def syntax_errors_def)
  next
    case True
    let ?r = "parseredirs str (add_arg (q, e) ret) s1"
    have add: "wf_cmd str (add_arg (q, e) ret)" "bottom (add_arg (q, e) ret) = Some (args @ [(q, e)])"
      using add_arg_ok [OF 1(3,4), of "(q, e)"] 1(5) True gb pb by simp_all
    have s: "s \<le> s1" "s1 \<le> length str" using gb pb by linarith+
    note rd = parseredirs_good [OF s(2) add(1)]
    have eq: "parseargs str argc ret s = (case ?r of Parsed ret s \<Rightarrow> parseargs str (argc + 1) ret s | No_fuel \<Rightarrow> No_fuel | Error e \<Rightarrow> Error e)"
      using 1(2) pk g True by (subst parseargs.simps) (simp add: Let_def)
    show ?thesis
    proof (cases ?r)
      case (Parsed d s2)
      then have d: "wf_cmd str d" "s1 \<le> s2" "s2 \<le> length str" "bottom d = Some (args @ [(q, e)])" using rd add(2) by auto
      have "good str s2 True (parseargs str (argc + 1) d s2)"
        by (rule 1(1) [OF _ pk [symmetric] refl _ g [symmetric] refl refl refl _ _ _ Parsed]) (use 1(2,5) True d in auto)
      then show ?thesis unfolding eq using Parsed good_mono [of str s2 True] s d(2) by simp
    qed (use rd eq s in auto)
  qed
qed

lemma parsebacks_good:
  assumes "s \<le> length str" and "wf_cmd str c" and "parsebacks str c s = (d, s')"
  shows "wf_cmd str d" "s \<le> s'" "s' \<le> length str"
proof -
  have "wf_cmd str d \<and> s \<le> s' \<and> s' \<le> length str" using assms
  proof (induction str c s rule: parsebacks.induct)
    case (1 str c s)
    obtain b k where pk: "peek str [38] s = (b, k)" by (cases "peek str [38] s")
    obtain t q e s1 where g: "gettoken str k = (t, q, e, s1)" by (cases "gettoken str k")
    note pb = peek_bounds [OF pk 1(2)]
    show ?case
    proof (cases b)
      case True
      then have pk: "peek str [38] s = (True, k)" using pk by simp
      note b1 = peek_token [OF pk g 1(2)]
      have "parsebacks str (BACK c) s1 = (d, s')"
        using 1(2,4) pk g by (subst (asm) parsebacks.simps) (simp add: Let_def)
      then have "wf_cmd str d \<and> s1 \<le> s' \<and> s' \<le> length str"
        using 1(1) [OF _ pk [symmetric] refl _ g [symmetric] refl refl refl] 1(2,3) b1 by simp
      then show ?thesis using b1 pb by linarith
    next
      case False
      then have "(d, s') = (c, k)" using 1(2,4) pk by (subst (asm) parsebacks.simps) (simp add: Let_def)
      then show ?thesis using 1(3) pb by simp
    qed
  qed
  then show "wf_cmd str d" "s \<le> s'" "s' \<le> length str" by simp_all
qed

text \<open>
  One round of the four procedures: with results that are good for less fuel they give good results, if a start further
  to the right needs at least four units less.
\<close>

abbreviation parsers_good :: "byte list \<Rightarrow> nat \<Rightarrow> bool" where
  "parsers_good str n \<equiv> (\<forall>s. s \<le> length str \<longrightarrow>
     good str s (4 * (length str - s) + 4 \<le> n) (parseline n str s) \<and>
     good str s (4 * (length str - s) + 3 \<le> n) (parsepipe n str s) \<and>
     good str s (4 * (length str - s) + 2 \<le> n) (parseexec n str s) \<and>
     (fst (peek str [40] s) \<longrightarrow> good str s (4 * (length str - s) + 1 \<le> n) (parseblock n str s)))"

lemma parseline_good:
  assumes "parsers_good str n" and "s \<le> length str"
  shows "good str s (4 * (length str - s) + 4 \<le> Suc n) (parseline (Suc n) str s)"
  unfolding parseline.simps
proof (rule good_bind)
  show "good str s (4 * (length str - s) + 3 \<le> n) (parsepipe n str s)" using assms by simp
  fix c s1 assume c: "wf_cmd str c" "s \<le> s1" "s1 \<le> length str"
  obtain d s2 where bk: "parsebacks str c s1 = (d, s2)" by (cases "parsebacks str c s1")
  obtain b k where pk: "peek str [59] s2 = (b, k)" by (cases "peek str [59] s2")
  obtain t q e s3 where g: "gettoken str k = (t, q, e, s3)" by (cases "gettoken str k")
  note d = parsebacks_good [OF c(3,1) bk]
  note pb = peek_bounds [OF pk d(3)]
  show "good str s (4 * (length str - s) + 4 \<le> Suc n) (let (cmd, s) = parsebacks str c s1; (b, s) = peek str [59] s
      in if b then let (_, _, _, s) = gettoken str s in pbind (parseline n str s) (\<lambda>r s. Parsed (LIST cmd r) s) else Parsed cmd s)"
  proof (cases b)
    case True
    then have "peek str [59] s2 = (True, k)" using pk by simp
    note b1 = peek_token [OF this g d(3)]
    have "good str s (4 * (length str - s) + 4 \<le> Suc n) (parseline n str s3)"
      by (rule good_mono [of _ s3 "4 * (length str - s3) + 4 \<le> n"]) (use assms(1) b1 c d pb in auto)
    then have "good str s (4 * (length str - s) + 4 \<le> Suc n) (pbind (parseline n str s3) (\<lambda>r s. Parsed (LIST d r) s))"
      by (rule good_bind) (use d in auto)
    then show ?thesis using True bk pk g by (simp add: Let_def)
  next
    case False
    then show ?thesis using bk pk c d pb by (simp add: Let_def)
  qed
qed simp

lemma parsepipe_good:
  assumes "parsers_good str n" and "s \<le> length str"
  shows "good str s (4 * (length str - s) + 3 \<le> Suc n) (parsepipe (Suc n) str s)"
  unfolding parsepipe.simps
proof (rule good_bind)
  show "good str s (4 * (length str - s) + 2 \<le> n) (parseexec n str s)" using assms by simp
  fix c s1 assume c: "wf_cmd str c" "s \<le> s1" "s1 \<le> length str"
  obtain b k where pk: "peek str [124] s1 = (b, k)" by (cases "peek str [124] s1")
  obtain t q e s3 where g: "gettoken str k = (t, q, e, s3)" by (cases "gettoken str k")
  note pb = peek_bounds [OF pk c(3)]
  show "good str s (4 * (length str - s) + 3 \<le> Suc n) (let (b, s) = peek str [124] s1
      in if b then let (_, _, _, s) = gettoken str s in pbind (parsepipe n str s) (\<lambda>r s. Parsed (PIPE c r) s) else Parsed c s)"
  proof (cases b)
    case True
    then have "peek str [124] s1 = (True, k)" using pk by simp
    note b1 = peek_token [OF this g c(3)]
    have "good str s (4 * (length str - s) + 3 \<le> Suc n) (parsepipe n str s3)"
      by (rule good_mono [of _ s3 "4 * (length str - s3) + 3 \<le> n"]) (use assms(1) b1 c pb in auto)
    then have "good str s (4 * (length str - s) + 3 \<le> Suc n) (pbind (parsepipe n str s3) (\<lambda>r s. Parsed (PIPE c r) s))"
      by (rule good_bind) (use c in auto)
    then show ?thesis using True pk g by (simp add: Let_def)
  next
    case False
    then show ?thesis using pk c pb by (simp add: Let_def)
  qed
qed simp

lemma parseexec_good:
  assumes "parsers_good str n" and "s \<le> length str"
  shows "good str s (4 * (length str - s) + 2 \<le> Suc n) (parseexec (Suc n) str s)"
proof -
  obtain b k where pk: "peek str [40] s = (b, k)" by (cases "peek str [40] s")
  note pb = peek_bounds [OF pk assms(2)]
  show ?thesis
  proof (cases b)
    case True
    have "skip is_space str k = k" by (rule skip_stays) (use pb(3) True in blast)
    then have "fst (peek str [40] k)" using pb(3) True by (simp add: peek_def Let_def char_at_def)
    then have "good str k (4 * (length str - k) + 1 \<le> n) (parseblock n str k)" using assms(1) pb(2) by blast
    then have "good str s (4 * (length str - s) + 2 \<le> Suc n) (parseblock n str k)" by (rule good_mono) (use pb in linarith)+
    then show ?thesis using pk True by (simp add: Let_def)
  next
    case False
    note rd = parseredirs_good [OF pb(2), of "EXEC []"]
    have "good str s True (pbind (parseredirs str (EXEC []) k) (\<lambda>ret s. parseargs str 0 ret s))"
    proof (rule good_bind)
      show "good str s True (parseredirs str (EXEC []) k)" using rd pb by (auto intro: good_mono simp: MAXARGS_def)
      fix c s1 assume c: "parseredirs str (EXEC []) k = Parsed c s1" "wf_cmd str c" "s \<le> s1" "s1 \<le> length str"
      then have "bottom c = Some []" using rd by (simp add: MAXARGS_def)
      from parseargs_good [OF c(4,2) this] show "good str s True (parseargs str 0 c s1)" using c(3) by (auto intro: good_mono)
    qed simp
    then show ?thesis using pk False by (auto intro: good_mono)
  qed
qed

lemma parseblock_good:
  assumes "parsers_good str n" and "s \<le> length str" and "fst (peek str [40] s)"
  shows "good str s (4 * (length str - s) + 1 \<le> Suc n) (parseblock (Suc n) str s)"
proof -
  obtain k where pk: "peek str [40] s = (True, k)" using assms(3) by (cases "peek str [40] s") simp
  obtain t q e s1 where g: "gettoken str k = (t, q, e, s1)" by (cases "gettoken str k")
  note pb = peek_bounds [OF pk assms(2)] and b1 = peek_token [OF pk g assms(2)]
  have "good str s1 (4 * (length str - s1) + 4 \<le> n) (parseline n str s1)" using assms(1) b1 by simp
  then have pl: "good str s (4 * (length str - s) + 1 \<le> Suc n) (parseline n str s1)"
    by (rule good_mono) (use b1 pb in auto)
  have "good str s (4 * (length str - s) + 1 \<le> Suc n) (pbind (parseline n str s1) (\<lambda>cmd s.
          let (b, s) = peek str [41] s
          in if \<not> b then Error ''syntax - missing )'' else let (_, _, _, s) = gettoken str s in parseredirs str cmd s))"
  proof (rule good_bind [OF pl])
    fix c s2 assume c: "wf_cmd str c" "s \<le> s2" "s2 \<le> length str"
    obtain b k2 where pk2: "peek str [41] s2 = (b, k2)" by (cases "peek str [41] s2")
    obtain t q e s3 where g2: "gettoken str k2 = (t, q, e, s3)" by (cases "gettoken str k2")
    note pb2 = peek_bounds [OF pk2 c(3)] and gb = gettoken_bounds [OF g2]
    have s3: "s \<le> s3" "s3 \<le> length str" using gb pb2 c by linarith+
    have "good str s True (parseredirs str c s3)" using parseredirs_good [OF s3(2) c(1)] s3(1) by (auto intro: good_mono)
    then show "good str s (4 * (length str - s) + 1 \<le> Suc n) (let (b, s) = peek str [41] s2
          in if \<not> b then Error ''syntax - missing )'' else let (_, _, _, s) = gettoken str s in parseredirs str c s)"
      using pk2 g2 by (auto simp: Let_def syntax_errors_def intro: good_mono)
  qed simp
  then show ?thesis using pk g by (simp add: Let_def)
qed

lemma parsers_good: "parsers_good str n"
proof (induction n)
  case 0
  then show ?case by simp
next
  case (Suc n)
  then show ?case using parseline_good parsepipe_good parseexec_good parseblock_good by (simp del: parseline.simps parsepipe.simps parseexec.simps parseblock.simps)
qed

lemma parsecmd_parseline:
  assumes "parsecmd str = Parsed (c, buf) s"
  shows "wf_cmd str c" "buf = nulterminate c (str @ [0])" "s = length str"
proof -
  have "good str 0 (4 * length str + 4 \<le> 4 * length str + 4) (parseline (4 * length str + 4) str 0)"
    using parsers_good [of str "4 * length str + 4"] by (metis diff_zero le0)
  then show "wf_cmd str c" "buf = nulterminate c (str @ [0])" "s = length str"
    using assms by (cases "parseline (4 * length str + 4) str 0"; auto simp: parsecmd_def Let_def split: prod.splits if_splits)+
qed

text \<open>C29: The parser ends on every command line, however deep its parentheses: with fuel for four calls per byte, a command
  line has a tree or one of four messages, and the cases that would mean an error of the parser itself do not occur.
\<close>

theorem parsecmd_terminates:
  "case parsecmd str of No_fuel \<Rightarrow> False
   | Error e \<Rightarrow> e \<in> {''missing file for redirection'', ''syntax'', ''too many args'', ''syntax - missing )''}
   | Parsed r s \<Rightarrow> s = length str"
proof -
  have "good str 0 (4 * length str + 4 \<le> 4 * length str + 4) (parseline (4 * length str + 4) str 0)"
    using parsers_good [of str "4 * length str + 4"] by (metis diff_zero le0)
  then show ?thesis
    by (cases "parseline (4 * length str + 4) str 0") (auto simp: parsecmd_def Let_def syntax_errors_def split: prod.splits)
qed

section \<open>The strings of a command\<close>

text \<open>All words of a command, and the string that a pointer into the buffer points to.\<close>

primrec words :: "cmd \<Rightarrow> arg list" where
  "words (EXEC args) = args"
| "words (REDIR c q e m fd) = (q, e) # words c"
| "words (PIPE l r) = words l @ words r"
| "words (LIST l r) = words l @ words r"
| "words (BACK c) = words c"

definition string_from :: "byte list \<Rightarrow> nat \<Rightarrow> byte list" where
  "string_from buf p = takeWhile (\<lambda>c. c \<noteq> 0) (drop p buf)"

lemma wf_words: "wf_cmd str c \<Longrightarrow> list_all (token str) (words c)"
  by (induction c) auto

lemma fold_store:
  fixes buf :: "byte list"
  shows "length (fold (\<lambda>a buf. buf[snd a := 0]) args buf) = length buf"
    "i < length buf \<Longrightarrow> fold (\<lambda>a buf. buf[snd a := 0]) args buf ! i = (if i \<in> snd ` set args then 0 else buf ! i)"
  by (induction args arbitrary: buf) (auto simp: nth_list_update)

lemma length_nulterminate [simp]: "length (nulterminate c buf) = length buf"
  by (induction c arbitrary: buf) (simp_all add: fold_store(1))

lemma nulterminate_nth:
  "i < length buf \<Longrightarrow> nulterminate c buf ! i = (if i \<in> snd ` set (words c) then 0 else buf ! i)"
proof (induction c arbitrary: buf)
  case (EXEC args)
  then show ?case by (simp only: nulterminate.simps words.simps fold_store(2))
next
  case (REDIR c q e m fd)
  then show ?case by (cases "i = e") simp_all
qed (simp_all add: image_Un)

text \<open>A byte behind a word lies in no word, so that the stores leave all words whole.\<close>

lemma end_outside_word:
  assumes "token str a" and "token str b" and "fst a \<le> i" "i < snd a"
  shows "i \<noteq> snd b"
  using assms unfolding token_def by (metis less_le_trans)

lemma string_from_eq:
  assumes "p + length w < length buf" and "\<And>i. i < length w \<Longrightarrow> buf ! (p + i) = w ! i" and "0 \<notin> set w" and "buf ! (p + length w) = 0"
  shows "string_from buf p = w"
proof -
  have "drop p buf = w @ drop (p + length w) buf"
    by (rule nth_equalityI) (use assms(1,2) in \<open>auto simp: nth_append\<close>)
  moreover have "drop (p + length w) buf = 0 # drop (Suc (p + length w)) buf"
    using assms(1,4) by (metis Cons_nth_drop_Suc)
  moreover have "takeWhile (\<lambda>c. c \<noteq> 0) (w @ 0 # us) = w" for us
  proof -
    have nz: "x \<noteq> 0" if "x \<in> set w" for x using assms(3) that by blast
    show ?thesis by (subst takeWhile_append2, erule nz) simp
  qed
  ultimately show ?thesis by (simp only: string_from_def)
qed

lemma word_kept:
  assumes "wf_cmd str c" and "0 \<notin> set str" and a: "a \<in> set (words c)"
  shows "string_from (nulterminate c (str @ [0])) (fst a) = slice str (fst a) (snd a - fst a)"
proof (rule string_from_eq)
  have t: "token str b" if "b \<in> set (words c)" for b using wf_words [OF assms(1)] that by (simp add: list_all_iff)
  have b: "fst a < snd a" "snd a \<le> length str" using t [OF a] by (simp_all add: token_def)
  then show "fst a + length (slice str (fst a) (snd a - fst a)) < length (nulterminate c (str @ [0]))" by simp
  show "0 \<notin> set (slice str (fst a) (snd a - fst a))" using assms(2) by (auto simp: slice_def dest: in_set_takeD in_set_dropD)
  show "nulterminate c (str @ [0]) ! (fst a + length (slice str (fst a) (snd a - fst a))) = 0"
    using a b by (simp add: nulterminate_nth)
  fix i assume "i < length (slice str (fst a) (snd a - fst a))"
  then have i: "fst a + i < snd a" using b by simp
  then have "fst a + i \<notin> snd ` set (words c)" using end_outside_word [OF t [OF a] t, of _ "fst a + i"] by auto
  then show "nulterminate c (str @ [0]) ! (fst a + i) = slice str (fst a) (snd a - fst a) ! i"
    using i b by (simp add: nulterminate_nth nth_append)
qed

text \<open>C12: A parsed command is well formed: each argument and file name is a word of the line, not empty and bounded by
  blanks, symbols or the end, no command has more than nine arguments, and after the NULs have been stored behind the words each
  pointer is to the C string that the user typed there: the stores, which overwrite blanks and symbols, damage no other word.
\<close>

theorem parsed_command_strings:
  assumes "parsecmd str = Parsed (c, buf) s" and "0 \<notin> set str"
  shows "wf_cmd str c \<and> map (\<lambda>(q, e). string_from buf q) (words c) = map (\<lambda>(q, e). slice str q (e - q)) (words c)"
  using parsecmd_parseline [OF assms(1)] word_kept [OF _ assms(2), of c] by auto

section \<open>Words are arguments\<close>

lemma drop_Cons:
  assumes "drop s str = x # xs"
  shows "s < length str" "str ! s = x" "drop (Suc s) str = xs"
proof -
  show s: "s < length str" using assms by (rule_tac ccontr) simp
  show "str ! s = x" "drop (Suc s) str = xs" using Cons_nth_drop_Suc [OF s] assms by simp_all
qed

lemma skip_run:
  assumes "drop s str = u @ v" and "list_all P u" and "v = [] \<or> \<not> P (hd v)" and "s \<le> length str"
  shows "skip P str s = s + length u"
  using assms
proof (induction u arbitrary: s)
  case Nil
  then have "s < length str \<Longrightarrow> \<not> P (str ! s)" by (auto simp: hd_drop_conv_nth [symmetric])
  then show ?case by (subst skip.simps) auto
next
  case (Cons x u)
  then have "drop s str = x # u @ v" by simp
  from drop_Cons [OF this] show ?case using Cons by (subst skip.simps) simp
qed

lemma skip_takeWhile: "s \<le> length str \<Longrightarrow> skip P str s = s + length (takeWhile P (drop s str))"
  using hd_dropWhile [of P "drop s str"]
  by (intro skip_run [where v = "dropWhile P (drop s str)"]) (auto simp: list_all_iff dropWhile_eq_Nil_conv dest: set_takeWhileD)

text \<open>The words of a line as they are usually defined: the longest pieces without white space.\<close>

function split_words :: "byte list \<Rightarrow> byte list list" where
  "split_words [] = []"
| "split_words (c # cs) =
     (if is_space c then split_words cs
      else takeWhile (\<lambda>c. \<not> is_space c) (c # cs) # split_words (dropWhile (\<lambda>c. \<not> is_space c) (c # cs)))"
  by pat_completeness auto
termination by (relation "measure length") (auto simp: less_Suc_eq_le length_dropWhile_le)

declare split_words.simps(2) [simp del]

lemma split_words_blanks [simp]: "split_words (dropWhile is_space cs) = split_words cs"
  by (induction cs) (simp_all add: split_words.simps(2))

text \<open>A line without symbols, and a place in it where the words \<open>ws\<close> follow and the blanks have been skipped.\<close>

definition plain :: "byte list \<Rightarrow> bool" where
  "plain str \<longleftrightarrow> set str \<inter> set symbols = {} \<and> 0 \<notin> set str"

definition at_words :: "byte list \<Rightarrow> nat \<Rightarrow> byte list list \<Rightarrow> bool" where
  "at_words str s ws \<longleftrightarrow> s \<le> length str \<and> skip is_space str s = s \<and> split_words (drop s str) = ws"

lemma at_words_skip:
  assumes "s \<le> length str" shows "at_words str (skip is_space str s) (split_words (drop s str))"
proof -
  have "drop (skip is_space str s) str = dropWhile is_space (drop s str)"
    by (simp add: skip_takeWhile [OF assms] dropWhile_eq_drop add.commute)
  moreover have "skip is_space str (skip is_space str s) = skip is_space str s"
    using skip_stop [of is_space str s] by (subst skip.simps) auto
  ultimately show ?thesis using skip_le [OF assms] by (simp add: at_words_def)
qed

lemma at_words_stays:
  assumes "plain str" and "at_words str s ws"
  shows "skip is_space str s = s" "s \<le> length str" "ws = [] \<Longrightarrow> s = length str" "ws = [] \<Longrightarrow> char_at str s = 0"
    "ws \<noteq> [] \<Longrightarrow> char_at str s \<noteq> 0 \<and> word_char (char_at str s) \<and> drop s str \<noteq> []"
    "set toks \<subseteq> set symbols \<Longrightarrow> peek str toks s = (False, s)"
proof -
  have s: "s \<le> length str" "skip is_space str s = s" "split_words (drop s str) = ws" using assms(2) by (simp_all add: at_words_def)
  then show "skip is_space str s = s" "s \<le> length str" by simp_all
  have in_line: "word_char (str ! s) \<and> str ! s \<noteq> 0 \<and> ws \<noteq> []" if l: "s < length str"
  proof -
    have d: "drop s str = str ! s # drop (Suc s) str" using l by (simp add: Cons_nth_drop_Suc)
    have "\<not> is_space (str ! s)" using skip_step [of s str is_space] l s(2) by auto
    moreover have "str ! s \<in> set str" using l by simp
    ultimately show ?thesis using assms(1) s(3) d by (auto simp: plain_def word_char_def split_words.simps(2))
  qed
  show "ws = [] \<Longrightarrow> s = length str" "ws = [] \<Longrightarrow> char_at str s = 0" using in_line s(1)
    by (cases "s < length str"; simp add: char_at_def)+
  show "char_at str s \<noteq> 0 \<and> word_char (char_at str s) \<and> drop s str \<noteq> []" if "ws \<noteq> []"
    using that in_line s by (auto simp: char_at_def)
  show "peek str toks s = (False, s)" if "set toks \<subseteq> set symbols"
    using that in_line s(2) by (auto simp: peek_def Let_def char_at_def word_char_def)
qed

lemma gettoken_word:
  assumes "plain str" and "at_words str s (w # ws)"
  shows "\<exists>s'. gettoken str s = (97, s, s + length w, s') \<and> at_words str s' ws \<and> slice str s (length w) = w"
proof -
  note st = at_words_stays [OF assms]
  obtain c cs where d: "drop s str = c # cs" using st(5) by (cases "drop s str") auto
  have c: "word_char c" "char_at str s = c" using st(5) drop_Cons(1,2) [OF d] by (auto simp: char_at_def)
  then have "\<not> is_space c" by (simp add: word_char_def)
  then have w: "w = takeWhile (\<lambda>c. \<not> is_space c) (drop s str)" and ws: "ws = split_words (dropWhile (\<lambda>c. \<not> is_space c) (drop s str))"
    using assms(2) by (simp_all add: at_words_def d split_words.simps(2))
  have sub: "x \<in> set str" if "x \<in> set (drop s str)" for x using that by (rule in_set_dropD)
  have "takeWhile word_char (drop s str) = w"
    unfolding w by (rule takeWhile_cong) (use assms(1) sub in \<open>auto simp: plain_def word_char_def\<close>)
  then have e: "skip word_char str s = s + length w" using skip_takeWhile [OF st(2)] by simp
  then have el: "s + length w \<le> length str" using skip_le [OF st(2)] by metis
  have "drop (s + length w) str = dropWhile (\<lambda>c. \<not> is_space c) (drop s str)"
    by (simp add: w dropWhile_eq_drop add.commute)
  then have at: "at_words str (skip is_space str (s + length w)) ws" using at_words_skip [OF el] ws by simp
  have "c \<notin> {0, 124, 40, 41, 59, 38, 60, 62}" using c st(5) by (auto simp: word_char_def symbols_def)
  then have "gettoken str s = (97, s, s + length w, skip is_space str (s + length w))"
    using st(1) c(2) e by (simp add: gettoken_def Let_def)
  moreover have "slice str s (length w) = w" unfolding slice_def w by (rule takeWhile_eq_take [symmetric])
  ultimately show ?thesis using at by blast
qed

lemma parseredirs_words:
  assumes "plain str" and "at_words str s ws"
  shows "parseredirs str c s = Parsed c s"
  using at_words_stays(2) [OF assms] at_words_stays(6) [OF assms, of "[60, 62]"]
  by (subst parseredirs.simps) (simp add: symbols_def)

lemma parseargs_words:
  assumes "plain str" and "at_words str s ws" and "length args < MAXARGS"
  shows "if length args + length ws < MAXARGS
    then \<exists>more'. parseargs str (length args) (EXEC args) s = Parsed (EXEC (args @ more')) (length str) \<and>
      map (\<lambda>(q, e). slice str q (e - q)) more' = ws
    else parseargs str (length args) (EXEC args) s = Error ''too many args''"
  using assms(2,3)
proof (induction ws arbitrary: args s)
  case Nil
  note st = at_words_stays [OF assms(1) Nil(1)]
  have "peek str [124, 41, 38, 59] s = (False, s)" by (rule st(6)) (simp add: symbols_def)
  moreover have "gettoken str s = (0, s, s, s)" using st(1,4) by (simp add: gettoken_def Let_def)
  ultimately show ?case using st(3) Nil(2) by (subst parseargs.simps) (auto simp: split_beta Let_def)
next
  case (Cons w ws)
  note st = at_words_stays [OF assms(1) Cons(2)]
  have pk: "peek str [124, 41, 38, 59] s = (False, s)" by (rule st(6)) (simp add: symbols_def)
  obtain s' where s': "gettoken str s = (97, s, s + length w, s')" "at_words str s' ws" "slice str s (length w) = w"
    using gettoken_word [OF assms(1) Cons(2)] by blast
  let ?args = "args @ [(s, s + length w)]"
  show ?case
  proof (cases "length args + 1 < MAXARGS")
    case False
    then show ?thesis using pk s' st(2) Cons.prems(2) by (subst parseargs.simps) (simp add: Let_def)
  next
    case True
    have step: "parseargs str (length args) (EXEC args) s = parseargs str (length ?args) (EXEC ?args) s'"
      using pk s' st(2) True parseredirs_words [OF assms(1) s'(2)] by (subst parseargs.simps) (simp add: Let_def)
    have "if length ?args + length ws < MAXARGS
      then \<exists>more'. parseargs str (length ?args) (EXEC ?args) s' = Parsed (EXEC (?args @ more')) (length str) \<and>
        map (\<lambda>(q, e). slice str q (e - q)) more' = ws
      else parseargs str (length ?args) (EXEC ?args) s' = Error ''too many args''"
      by (rule Cons.IH [OF s'(2)]) (use True in simp)
    moreover have "\<exists>more''. EXEC (?args @ more') = EXEC (args @ more'') \<and>
        map (\<lambda>(q, e). slice str q (e - q)) more'' = w # map (\<lambda>(q, e). slice str q (e - q)) more'" for more'
      using s'(3) by (intro exI [of _ "(s, s + length w) # more'"]) simp
    ultimately show ?thesis unfolding step by (auto split: if_splits)
  qed
qed

text \<open>C30: A line without any of the symbols of the shell (and, as a C string, without NUL) is the command that runs with exactly the words of the line as its
  arguments, what the user typed being what the pointers in \<open>argv\<close> point to, however much white space there is before,
  between and behind the words; ten or more words are refused.
\<close>

theorem words_become_arguments:
  assumes "plain str"
  shows "if length (split_words str) < MAXARGS
    then \<exists>args buf. parsecmd str = Parsed (EXEC args, buf) (length str) \<and> map (\<lambda>(q, e). string_from buf q) args = split_words str
    else parsecmd str = Error ''too many args''"
proof -
  let ?ws = "split_words str" and ?s = "skip is_space str 0"
  have at: "at_words str ?s ?ws" using at_words_skip [of 0 str] by simp
  note st = at_words_stays [OF assms at]
  have "peek str [40] ?s = (False, ?s)" by (rule st(6)) (simp add: symbols_def)
  then have pk: "peek str [40] 0 = (False, ?s)" by (simp add: peek_def Let_def st(1))
  have fuel: "4 * length str + 4 = Suc (Suc (Suc (4 * length str + 1)))" by simp
  note args = parseargs_words [OF assms at, of "[]"] and red = parseredirs_words [OF assms at]
  show ?thesis
  proof (cases "length ?ws < MAXARGS")
    case False
    then have "parseargs str 0 (EXEC []) ?s = Error ''too many args''" using args by (simp add: MAXARGS_def)
    then have "parseline (4 * length str + 4) str 0 = Error ''too many args''" unfolding fuel using pk red by simp
    then show ?thesis using False by (simp add: parsecmd_def)
  next
    case True
    then obtain args where args: "parseargs str 0 (EXEC []) ?s = Parsed (EXEC args) (length str)"
      "map (\<lambda>(q, e). slice str q (e - q)) args = ?ws"
      using args by (auto simp: MAXARGS_def)
    have "at_words str (length str) []" by (subst at_words_def, subst skip.simps) simp
    note ends = at_words_stays(6) [OF assms this]
    have bk: "parsebacks str c (length str) = (c, length str)" for c
      using ends [of "[38]"] by (subst parsebacks.simps) (simp add: symbols_def)
    have "parseline (4 * length str + 4) str 0 = Parsed (EXEC args) (length str)"
      unfolding fuel using pk red args(1) bk ends [of "[124]"] ends [of "[59]"] by (simp add: Let_def symbols_def)
    then have pc: "parsecmd str = Parsed (EXEC args, nulterminate (EXEC args) (str @ [0])) (length str)"
      using ends [of "[]"] by (simp add: parsecmd_def)
    have "0 \<notin> set str" using assms by (simp add: plain_def)
    note word_kept [OF parsecmd_parseline(1) [OF pc] this]
    then have "map (\<lambda>(q, e). string_from (nulterminate (EXEC args) (str @ [0])) q) args = map (\<lambda>(q, e). slice str q (e - q)) args"
      by auto
    then have "map (\<lambda>(q, e). string_from (nulterminate (EXEC args) (str @ [0])) q) args = ?ws" unfolding args(2) .
    then show ?thesis using pc True by auto
  qed
qed

section \<open>An input\<close>

text \<open>\<open>(ls)>a;b\<close>, and the words \<open>rm x\<close>.\<close>

lemma parse_example:
  "parsecmd [40, 108, 115, 41, 62, 97, 59, 98] =
     Parsed (LIST (REDIR (EXEC [(1, 3)]) 5 6 mode_out 1) (EXEC [(7, 8)]), [40, 108, 115, 0, 62, 97, 0, 98, 0]) 8"
  by code_simp

theorem parsed_command_strings_witness:
  "parsecmd [40, 108, 115, 41, 62, 97, 59, 98] =
     Parsed (LIST (REDIR (EXEC [(1, 3)]) 5 6 mode_out 1) (EXEC [(7, 8)]), [40, 108, 115, 0, 62, 97, 0, 98, 0]) 8 \<and>
   0 \<notin> set [40 :: byte, 108, 115, 41, 62, 97, 59, 98] \<and>
   string_from [40, 108, 115, 0, 62, 97, 0, 98, 0] 1 = [108, 115]"
  using parse_example parsed_command_strings [OF parse_example] by (simp add: slice_def)

text \<open>\<open>ls\<close> and a newline; two blanks, \<open>rm\<close>, a tab, \<open>x\<close>, a blank and a newline.\<close>

theorem words_become_arguments_witness:
  "(\<exists>args buf. parsecmd [108, 115, 10] = Parsed (EXEC args, buf) 3 \<and>
      map (\<lambda>(q, e). string_from buf q) args = [[108, 115]]) \<and>
   (\<exists>args buf. parsecmd [32, 32, 114, 109, 9, 120, 32, 10] = Parsed (EXEC args, buf) 8 \<and>
      map (\<lambda>(q, e). string_from buf q) args = [[114, 109], [120]])"
proof -
  let ?a = "[108, 115, 10] :: byte list" and ?b = "[32, 32, 114, 109, 9, 120, 32, 10] :: byte list"
  have l: "length ?a = 3" "length ?b = 8" by simp_all
  have p: "plain ?a" "plain ?b" by (simp_all add: plain_def symbols_def)
  have w: "split_words ?a = [[108, 115]]" "split_words ?b = [[114, 109], [120]]"
    by (simp_all add: split_words.simps whitespace_def)
  show ?thesis
    using words_become_arguments [OF p(1)] words_become_arguments [OF p(2)] unfolding w l by (simp add: MAXARGS_def)
qed

end
