(* ===== verification/Umalloc.thy ===== *)
theory Umalloc
  imports OS_Prelude
begin

text \<open>
  The memory allocator of user programs (\<open>umalloc.c\<close>), after Kernighan and Ritchie: a circular list of free blocks in the order
  of their addresses, next-fit, and neighbours are joined. Addresses and sizes are counted in units of \<open>sizeof(Header)\<close>, 8
  bytes; a block is named by the address of its header, and 0 is the null pointer. What does not return, because it runs
  around the list for ever or follows a null pointer, is \<open>None\<close>.
\<close>

section \<open>The allocator\<close>

text \<open>\<open>u_base\<close> is where the linker puts \<open>base\<close>; \<open>u_brk\<close> is the break, and \<open>u_max\<close> how far the kernel lets it grow.\<close>

record uheap =
  u_ptr :: "nat \<Rightarrow> nat"
  u_size :: "nat \<Rightarrow> nat"
  u_freep :: nat
  u_base :: nat
  u_brk :: nat
  u_max :: nat

definition set_ptr :: "nat \<Rightarrow> nat \<Rightarrow> uheap \<Rightarrow> uheap" where
  "set_ptr p q h = h\<lparr>u_ptr := (u_ptr h)(p := q)\<rparr>"

definition set_size :: "nat \<Rightarrow> nat \<Rightarrow> uheap \<Rightarrow> uheap" where
  "set_size p n h = h\<lparr>u_size := (u_size h)(p := n)\<rparr>"

text \<open>\<open>sbrk\<close> of a number of bytes, which the kernel takes as an \<open>int\<close>: \<open>growproc\<close> grows the program up to a limit, or shrinks
  it, unless the new size as an unsigned number wraps around above the old one; a size of 0 it takes for an error.\<close>

definition usbrk :: "nat \<Rightarrow> uheap \<Rightarrow> nat option \<times> uheap" where
  "usbrk n h =
     (let d = s32 n; brk = int (u_brk h) + d div 8
      in if 0 < d \<and> int (u_max h) < brk \<or> d < 0 \<and> brk = 0 then (None, h)
         else if d < 0 \<and> brk < 0 then (Some (u_brk h), h)
         else (Some (u_brk h), h\<lparr>u_brk := nat brk\<rparr>))"

partial_function (option) find_place :: "uheap \<Rightarrow> nat \<Rightarrow> nat \<Rightarrow> nat option" where
  "find_place h bp p =
     (let q = u_ptr h p
      in if bp > p \<and> bp < q then Some p
         else if p \<ge> q \<and> (bp > p \<or> bp < q) then Some p
         else find_place h bp q)"

text \<open>The block \<open>bp\<close> is joined with the one behind it, or linked to it; then the one before is joined or linked with it.\<close>

definition join_next :: "nat \<Rightarrow> nat \<Rightarrow> uheap \<Rightarrow> uheap" where
  "join_next p bp h =
     (let q = u_ptr h p
      in if bp + u_size h bp = q then set_ptr bp (u_ptr h q) (set_size bp (u_size h bp + u_size h q) h)
         else set_ptr bp q h)"

definition join_prev :: "nat \<Rightarrow> nat \<Rightarrow> uheap \<Rightarrow> uheap" where
  "join_prev p bp h =
     (if p + u_size h p = bp then set_ptr p (u_ptr h bp) (set_size p (u_size h p + u_size h bp) h)
      else set_ptr p bp h)"

definition free_block :: "nat \<Rightarrow> uheap \<Rightarrow> uheap option" where
  "free_block bp h =
     map_option (\<lambda>p. (join_prev p bp (join_next p bp h))\<lparr>u_freep := p\<rparr>)
       (if u_freep h = 0 then None else find_place h bp (u_freep h))"

definition ufree :: "nat \<Rightarrow> uheap \<Rightarrow> uheap option" where
  "ufree ap h = free_block (ap - 1) h"

definition morecore :: "nat \<Rightarrow> uheap \<Rightarrow> (nat \<times> uheap) option" where
  "morecore nu h =
     (let nu = (if nu < 4096 then 4096 else nu)
      in case usbrk (u32 (nu * 8)) h of
           (None, h) \<Rightarrow> Some (0, h)
         | (Some hp, h) \<Rightarrow> map_option (\<lambda>h. (u_freep h, h)) (ufree (hp + 1) (set_size hp nu h)))"

text \<open>Taking \<open>n\<close> units from block \<open>p\<close>, which is behind \<open>prevp\<close>: the whole block or its tail end.\<close>

definition take_block :: "nat \<Rightarrow> nat \<Rightarrow> nat \<Rightarrow> uheap \<Rightarrow> nat \<times> uheap" where
  "take_block n prevp p h =
     (if u_size h p = n then (p + 1, (set_ptr prevp (u_ptr h p) h)\<lparr>u_freep := prevp\<rparr>)
      else
        let h = set_size p (u_size h p - n) h; t = p + u_size h p
        in (t + 1, (set_size t n h)\<lparr>u_freep := prevp\<rparr>))"

partial_function (option) malloc_loop :: "nat \<Rightarrow> uheap \<Rightarrow> nat \<Rightarrow> nat \<Rightarrow> (nat \<times> uheap) option" where
  "malloc_loop n h prevp p =
     (if u_size h p \<ge> n then Some (take_block n prevp p h)
      else if p = u_freep h then
        (case morecore n h of
           None \<Rightarrow> None
         | Some (q, h) \<Rightarrow> if q = 0 then Some (0, h) else malloc_loop n h q (u_ptr h q))
      else malloc_loop n h p (u_ptr h p))"

definition start_heap :: "uheap \<Rightarrow> uheap" where
  "start_heap h =
     (if u_freep h = 0 then (set_size (u_base h) 0 (set_ptr (u_base h) (u_base h) h))\<lparr>u_freep := u_base h\<rparr> else h)"

definition units_of :: "nat \<Rightarrow> nat" where
  "units_of nbytes = u32 (nbytes + 7) div 8 + 1"

definition umalloc :: "nat \<Rightarrow> uheap \<Rightarrow> (nat \<times> uheap) option" where
  "umalloc nbytes h =
     (let h = start_heap h in malloc_loop (units_of nbytes) h (u_freep h) (u_ptr h (u_freep h)))"

section \<open>The circular list\<close>

text \<open>From \<open>a\<close> the pointers lead through \<open>xs\<close> to \<open>b\<close>.\<close>

fun path :: "uheap \<Rightarrow> nat \<Rightarrow> nat list \<Rightarrow> nat \<Rightarrow> bool" where
  "path h a [] b \<longleftrightarrow> u_ptr h a = b"
| "path h a (x # xs) b \<longleftrightarrow> u_ptr h a = x \<and> path h x xs b"

lemma path_append: "path h a (xs @ y # ys) b \<longleftrightarrow> path h a xs y \<and> path h y ys b"
  by (induction xs arbitrary: a) auto

lemma path_cong: "(\<And>x. x \<in> set (a # xs) \<Longrightarrow> u_ptr h' x = u_ptr h x) \<Longrightarrow> path h' a xs b = path h a xs b"
  by (induction xs arbitrary: a) auto

lemma path_first: "path h a xs b \<Longrightarrow> u_ptr h a = hd (xs @ [b])"
  by (cases xs) auto

text \<open>The free blocks below \<open>bp\<close> are \<open>ls\<close>, those above it \<open>rs\<close>: \<open>free\<close> finds the last one below it from anywhere.\<close>

lemma find_below:
  assumes "path h a vs b" and "sorted_wrt (<) (a # vs)" and "\<forall>x \<in> set (a # vs). x < bp" and "bp < b \<or> b \<le> hd (a # vs)"
  shows "find_place h bp a = Some (last (a # vs))"
  using assms
proof (induction vs arbitrary: a)
  case Nil
  then show ?case by (subst find_place.simps) (auto simp: Let_def)
next
  case (Cons x vs)
  have "find_place h bp x = Some (last (x # vs))" by (rule Cons.IH) (use Cons.prems in auto)
  then show ?case using Cons.prems by (subst find_place.simps) (auto simp: Let_def)
qed

lemma find_above:
  assumes "path h a vs b" and "sorted_wrt (<) (a # vs)" and "\<forall>x \<in> set (a # vs). bp < x" and "b < bp"
  shows "find_place h bp a = find_place h bp b"
  using assms
proof (induction vs arbitrary: a)
  case Nil
  then show ?case by (subst find_place.simps) (auto simp: Let_def)
next
  case (Cons x vs)
  have "find_place h bp x = find_place h bp b" by (rule Cons.IH) (use Cons.prems in auto)
  then show ?case using Cons.prems by (subst find_place.simps) (auto simp: Let_def)
qed

lemma find_place_ring:
  assumes pa: "path h b (ls @ rs) b" and so: "sorted_wrt (<) (b # ls @ rs)"
    and bp: "b < bp" "\<forall>x \<in> set ls. x < bp" "\<forall>x \<in> set rs. bp < x" and f: "f \<in> set (b # ls @ rs)"
  shows "find_place h bp f = Some (last (b # ls))"
proof -
  have below: "find_place h bp a = Some (last (b # ls))" if a: "path h a (vs @ rs) b" "b # ls = us @ a # vs" for a us vs
  proof -
    have ss: "set (a # vs) \<subseteq> set (b # ls)" using a(2) by auto
    have "b # ls @ rs = us @ (a # vs) @ rs" using a(2) by (metis append_Cons append_assoc)
    then have "sorted_wrt (<) (us @ (a # vs) @ rs)" using so by (simp only:)
    then have sv: "sorted_wrt (<) (a # vs)" by (simp only: sorted_wrt_append)
    have lt: "\<forall>x \<in> set (a # vs). x < bp" using ss bp by auto
    have lb: "b \<le> a" using so a(2) by (cases us) auto
    have "find_place h bp a = Some (last (a # vs))"
    proof (cases rs)
      case Nil
      then show ?thesis using find_below [OF _ sv lt, of h b] a(1) lb by simp
    next
      case (Cons r rs')
      then show ?thesis using find_below [OF _ sv lt, of h r] a(1) bp(3) by (simp add: path_append)
    qed
    then show ?thesis using a(2) by simp
  qed
  have fromb: "find_place h bp b = Some (last (b # ls))" by (rule below [of b ls "[]"]) (use pa in simp_all)
  consider "f = b" | us vs where "ls = us @ f # vs" | us vs where "rs = us @ f # vs"
    using f by (auto dest: split_list)
  then show ?thesis
  proof cases
    case 2
    show ?thesis by (rule below [of f vs "b # us"]) (use pa 2 in \<open>simp_all add: path_append\<close>)
  next
    case 3
    have "path h f vs b" using pa 3 by (metis append.assoc path_append)
    moreover have "sorted_wrt (<) (f # vs)" using so 3 by (simp add: sorted_wrt_append)
    ultimately show ?thesis using find_above [of h f vs b bp] bp 3 fromb by auto
  qed (use fromb in simp)
qed

text \<open>\<open>malloc\<close> goes once around the list, from behind \<open>freep\<close>.\<close>

lemma malloc_walk:
  assumes "path h a xs (u_freep h)" and "u_freep h \<notin> set xs"
  shows "zs = us @ z # ws \<Longrightarrow> zs = xs @ [u_freep h] \<Longrightarrow> \<forall>x \<in> set us. u_size h x < n \<Longrightarrow> n \<le> u_size h z \<Longrightarrow>
      malloc_loop n h a (hd zs) = Some (take_block n (last (a # us)) z h)"
    "\<forall>x \<in> set (xs @ [u_freep h]). u_size h x < n \<Longrightarrow> malloc_loop n h a (hd (xs @ [u_freep h])) =
      (case morecore n h of None \<Rightarrow> None | Some (q, h) \<Rightarrow> if q = 0 then Some (0, h) else malloc_loop n h q (u_ptr h q))"
  using assms
proof (induction xs arbitrary: a us zs)
  case Nil
  {
    case 1
    then show ?case by (subst malloc_loop.simps) (auto simp: append_eq_Cons_conv Cons_eq_append_conv)
  next
    case 2
    then show ?case by (subst malloc_loop.simps) auto
  }
next
  case (Cons x xs)
  {
    case 1
    have x: "x \<noteq> u_freep h" "u_ptr h x = hd (xs @ [u_freep h])" "path h x xs (u_freep h)" "u_freep h \<notin> set xs"
      using 1(5,6) path_first [of h x xs] by auto
    show ?case
    proof (cases us)
      case Nil
      then show ?thesis using 1 by (subst malloc_loop.simps) auto
    next
      case (Cons y us')
      then have e: "y = x" "xs @ [u_freep h] = us' @ z # ws" using 1(1,2) by auto
      have "malloc_loop n h x (hd (xs @ [u_freep h])) = Some (take_block n (last (x # us')) z h)"
        by (rule Cons.IH(1) [OF e(2) refl]) (use 1 Cons x in auto)
      then show ?thesis using 1 Cons e x by (subst malloc_loop.simps) auto
    qed
  next
    case 2
    have x: "x \<noteq> u_freep h" "u_ptr h x = hd (xs @ [u_freep h])" "path h x xs (u_freep h)" "u_freep h \<notin> set xs"
      using 2(2,3) path_first [of h x xs] by auto
    show ?case using Cons.IH(2) [OF _ x(3,4)] 2(1) x by (subst malloc_loop.simps) auto
  }
qed

section \<open>Blocks\<close>

text \<open>The blocks \<open>B\<close>, with the sizes \<open>sz\<close>, divide up the units of \<open>S\<close>.\<close>

definition span :: "(nat \<Rightarrow> nat) \<Rightarrow> nat \<Rightarrow> nat set" where
  "span sz a = {a..<a + sz a}"

definition tiles :: "(nat \<Rightarrow> nat) \<Rightarrow> nat set \<Rightarrow> nat set \<Rightarrow> bool" where
  "tiles sz B S \<longleftrightarrow> (\<forall>a \<in> B. 0 < sz a) \<and> (\<forall>a \<in> B. \<forall>b \<in> B. a \<noteq> b \<longrightarrow> span sz a \<inter> span sz b = {}) \<and> (\<Union>a \<in> B. span sz a) = S"

lemma tiles_disjoint: "tiles sz B S \<Longrightarrow> a \<in> B \<Longrightarrow> b \<in> B \<Longrightarrow> a \<noteq> b \<Longrightarrow> span sz a \<inter> span sz b = {}"
  by (simp add: tiles_def)

lemma tiles_order:
  assumes "tiles sz B S" and "a \<in> B" "b \<in> B" and "a < b"
  shows "a + sz a \<le> b"
proof (rule ccontr)
  assume "\<not> a + sz a \<le> b"
  moreover have "0 < sz b" using assms(1,3) by (simp add: tiles_def)
  ultimately have "b \<in> span sz a \<inter> span sz b" using assms(4) by (simp add: span_def)
  then show False using tiles_disjoint [OF assms(1-3)] assms(4) by simp
qed

lemma tiles_in: "tiles sz B S \<Longrightarrow> a \<in> B \<Longrightarrow> a \<in> S \<and> 0 < sz a \<and> span sz a \<subseteq> S"
  by (force simp: tiles_def span_def)

lemma tiles_cong: "(\<And>a. a \<in> B \<Longrightarrow> sz' a = sz a) \<Longrightarrow> tiles sz' B S = tiles sz B S"
  by (auto simp: tiles_def span_def)

text \<open>Joining two neighbours, and splitting a block.\<close>

lemma tiles_join:
  assumes t: "tiles sz B S" and ab: "a \<in> B" "b \<in> B" "a + sz a = b"
  shows "tiles (sz(a := sz a + sz b)) (B - {b}) S"
proof -
  let ?sz = "sz(a := sz a + sz b)"
  have ne: "a \<noteq> b" using t ab by (auto simp: tiles_def)
  have sa: "span ?sz a = span sz a \<union> span sz b" using ab(3) by (auto simp: span_def)
  have so: "span ?sz c = span sz c" if "c \<noteq> a" for c using that by (simp add: span_def)
  have "(\<Union>c \<in> B - {b}. span ?sz c) = (\<Union>c \<in> B. span sz c)"
  proof -
    have B: "(\<Union>c \<in> B - {b}. f c) = f a \<union> (\<Union>c \<in> B - {a, b}. f c)" "(\<Union>c \<in> B. f c) = f a \<union> f b \<union> (\<Union>c \<in> B - {a, b}. f c)"
      for f :: "nat \<Rightarrow> nat set" using ab ne by auto
    have "(\<Union>c \<in> B - {a, b}. span ?sz c) = (\<Union>c \<in> B - {a, b}. span sz c)" using so by auto
    then show ?thesis unfolding B sa by simp
  qed
  moreover have "span ?sz c \<inter> span ?sz d = {}" if "c \<in> B - {b}" "d \<in> B - {b}" "c \<noteq> d" for c d
  proof -
    have dj: "span sz x \<inter> span sz y = {}" if "x \<in> B" "y \<in> B" "x \<noteq> y" for x y using t that by (simp add: tiles_def)
    show ?thesis using that ab dj [of c d] dj [of a d] dj [of b d] dj [of c a] dj [of c b] sa so [of c] so [of d]
      by (cases "c = a"; cases "d = a") auto
  qed
  ultimately show ?thesis using t by (auto simp: tiles_def)
qed

lemma tiles_split:
  assumes t: "tiles sz B S" and p: "p \<in> B" and n: "0 < n" "n < sz p"
  defines "b \<equiv> p + (sz p - n)"
  shows "tiles (sz(p := sz p - n, b := n)) (insert b B) S" "b \<notin> B"
proof -
  let ?sz = "sz(p := sz p - n, b := n)"
  have pb: "p < b" "b < p + sz p" using n by (simp_all add: b_def)
  show nb: "b \<notin> B" using tiles_order [OF t p _ pb(1)] pb(2) by auto
  have sp: "span sz p = span ?sz p \<union> span ?sz b" "span ?sz p \<inter> span ?sz b = {}" using pb n by (auto simp: span_def b_def)
  have so: "span ?sz c = span sz c" if "c \<noteq> p" "c \<noteq> b" for c using that by (simp add: span_def)
  have "(\<Union>c \<in> insert b B. span ?sz c) = (\<Union>c \<in> B. span sz c)"
  proof -
    have B: "(\<Union>c \<in> insert b B. f c) = f p \<union> f b \<union> (\<Union>c \<in> B - {p}. f c)" "(\<Union>c \<in> B. f c) = f p \<union> (\<Union>c \<in> B - {p}. f c)"
      for f :: "nat \<Rightarrow> nat set" using p by auto
    have "span ?sz c = span sz c" if "c \<in> B - {p}" for c using so [of c] that nb by blast
    then have "(\<Union>c \<in> B - {p}. span ?sz c) = (\<Union>c \<in> B - {p}. span sz c)" by simp
    then show ?thesis unfolding B sp(1) by simp
  qed
  moreover have "span ?sz c \<inter> span ?sz d = {}" if "c \<in> insert b B" "d \<in> insert b B" "c \<noteq> d" for c d
  proof -
    have dj: "span sz x \<inter> span sz y = {}" if "x \<in> B" "y \<in> B" "x \<noteq> y" for x y using t that by (simp add: tiles_def)
    have other: "span ?sz x \<inter> span ?sz p = {} \<and> span ?sz x \<inter> span ?sz b = {}" if "x \<in> B" "x \<noteq> p" for x
    proof -
      have "x \<noteq> b" using that nb by auto
      then show ?thesis using dj [OF that(1) p that(2)] so [OF that(2)] sp(1) by auto
    qed
    have both: "span ?sz c \<inter> span ?sz d = span sz c \<inter> span sz d" if "c \<in> B" "d \<in> B" "c \<noteq> p" "d \<noteq> p"
      using so [of c] so [of d] that nb by auto
    show ?thesis using that other [of c] other [of d] both dj [of c d] sp(2) by (auto simp: Int_commute)
  qed
  ultimately show "tiles ?sz (insert b B) S" using t n nb by (auto simp: tiles_def)
qed

section \<open>Freeing\<close>

text \<open>
  The heap from \<open>lo\<close> to the break is divided up by the blocks \<open>held\<close> by the program and the free blocks \<open>xs\<close>, which the
  pointers link in a circle with \<open>base\<close>, by increasing addresses, and of which no two are neighbours.
\<close>

definition heap_ok :: "nat \<Rightarrow> uheap \<Rightarrow> nat list \<Rightarrow> nat set \<Rightarrow> bool" where
  "heap_ok lo h xs held \<longleftrightarrow> 0 < u_base h \<and> u_base h < lo \<and> lo \<le> u_brk h \<and> u_size h (u_base h) = 0 \<and>
     path h (u_base h) xs (u_base h) \<and> u_freep h \<in> set (u_base h # xs) \<and> sorted_wrt (\<lambda>x y. x + u_size h x < y) xs \<and>
     set xs \<inter> held = {} \<and> tiles (u_size h) (set xs \<union> held) {lo..<u_brk h}"

lemma path_split:
  assumes "path h a (ls @ rs) b"
  shows "path h a ls (hd (rs @ [b]))" "path h (last (a # ls)) rs b"
  using assms by (induction ls arbitrary: a) (auto simp: path_first [of _ _ _ b])

lemma path_redirect:
  assumes "path h a ls b" and "distinct (a # ls)"
  shows "path (set_ptr (last (a # ls)) c h) a ls c"
  using assms by (induction ls arbitrary: a) (auto simp: set_ptr_def)

lemma path_join:
  assumes "path h a ls (hd (rs @ [b]))" and "rs \<noteq> [] \<Longrightarrow> path h (hd rs) (tl rs) b"
  shows "path h a (ls @ rs) b"
  using assms by (cases rs) (simp_all add: path_append)

lemma sorted_split:
  assumes "sorted_wrt (<) xs" and "(bp :: nat) \<notin> set xs"
  shows "\<exists>ls rs. xs = ls @ rs \<and> (\<forall>x \<in> set ls. x < bp) \<and> (\<forall>x \<in> set rs. bp < x)"
  using assms
proof (induction xs)
  case (Cons x xs)
  show ?case
  proof (cases "x < bp")
    case True
    from Cons obtain ls rs where "xs = ls @ rs \<and> (\<forall>x \<in> set ls. x < bp) \<and> (\<forall>x \<in> set rs. bp < x)" by auto
    then show ?thesis using True by (intro exI [of _ "x # ls"] exI [of _ rs]) auto
  next
    case False
    then have "\<forall>y \<in> set (x # xs). bp < y" using Cons.prems by force
    then show ?thesis by (intro exI [of _ "[]"] exI [of _ "x # xs"]) simp
  qed
qed simp

lemma heap_set_simps [simp]:
  "u_ptr (set_ptr p q h) = (u_ptr h)(p := q)" "u_size (set_ptr p q h) = u_size h"
  "u_ptr (set_size p n h) = u_ptr h" "u_size (set_size p n h) = (u_size h)(p := n)"
  "u_freep (set_ptr p q h) = u_freep h" "u_base (set_ptr p q h) = u_base h" "u_brk (set_ptr p q h) = u_brk h" "u_max (set_ptr p q h) = u_max h"
  "u_freep (set_size p n h) = u_freep h" "u_base (set_size p n h) = u_base h" "u_brk (set_size p n h) = u_brk h" "u_max (set_size p n h) = u_max h"
  by (simp_all add: set_ptr_def set_size_def)

text \<open>Joining with the block behind, if it is a neighbour.\<close>

lemma join_next_ok:
  assumes pa: "path h p rs b" and p: "p \<noteq> bp" "bp \<notin> set rs" and b: "b < bp" and gt: "\<forall>x \<in> set rs. bp < x"
    and so: "sorted_wrt (\<lambda>x y. x + u_size h x < y) rs" and ti: "tiles (u_size h) (insert bp (set rs \<union> R)) S" and R: "set rs \<inter> R = {}" "bp \<notin> R"
  defines "h1 \<equiv> join_next p bp h"
  obtains rs1 where "path h1 bp rs1 b" "sorted_wrt (\<lambda>x y. x + u_size h1 x < y) (bp # rs1)" "set rs1 \<subseteq> set rs"
    "tiles (u_size h1) (insert bp (set rs1 \<union> R)) S" "\<And>x. x \<noteq> bp \<Longrightarrow> u_size h1 x = u_size h x \<and> u_ptr h1 x = u_ptr h x"
    "u_size h bp \<le> u_size h1 bp" "u_freep h1 = u_freep h \<and> u_base h1 = u_base h \<and> u_brk h1 = u_brk h \<and> u_max h1 = u_max h"
proof (cases "rs \<noteq> [] \<and> bp + u_size h bp = hd rs")
  case True
  then obtain q rs' where rs: "rs = q # rs'" "bp + u_size h bp = q" by (cases rs) auto
  then have q: "u_ptr h p = q" "u_ptr h q = hd (rs' @ [b])" "path h q rs' b" using pa path_first by auto
  have h1: "h1 = set_ptr bp (u_ptr h q) (set_size bp (u_size h bp + u_size h q) h)"
    using q(1) rs(2) by (simp add: h1_def join_next_def)
  have ne: "q \<noteq> bp" "bp \<notin> set rs'" "q \<notin> set rs'" using rs(1) p so by auto
  have "path h1 bp rs' b"
  proof (cases rs')
    case (Cons r rs'')
    have "path h1 r rs'' b = path h r rs'' b" by (rule path_cong) (use ne Cons h1 in auto)
    then show ?thesis using q Cons h1 by simp
  qed (use q h1 in simp)
  moreover have "sorted_wrt (\<lambda>x y. x + u_size h1 x < y) (bp # rs')"
  proof -
    have "sorted_wrt (\<lambda>x y. x + u_size h1 x < y) rs'"
      by (rule sorted_wrt_mono_rel [of _ "\<lambda>x y. x + u_size h x < y"]) (use ne h1 so rs(1) in auto)
    then show ?thesis using so rs h1 by auto
  qed
  moreover have "tiles (u_size h1) (insert bp (set rs' \<union> R)) S"
  proof -
    have "insert bp (set rs \<union> R) - {q} = insert bp (set rs' \<union> R)" using rs(1) ne R by auto
    moreover have "u_size h1 = (u_size h)(bp := u_size h bp + u_size h q)" by (simp add: h1)
    ultimately show ?thesis using tiles_join [OF ti, of bp q] rs by simp
  qed
  ultimately show ?thesis by (intro that [of rs']) (use rs h1 in auto)
next
  case False
  have q: "u_ptr h p = hd (rs @ [b])" using pa by (rule path_first)
  then have h1: "h1 = set_ptr bp (hd (rs @ [b])) h" using False b by (cases rs) (auto simp: h1_def join_next_def Let_def)
  have "path h1 bp rs b"
  proof (cases rs)
    case (Cons r rs'')
    have "path h1 r rs'' b = path h r rs'' b" by (rule path_cong) (use p Cons h1 in auto)
    then show ?thesis using pa Cons h1 by simp
  qed (use h1 in simp)
  moreover have "sorted_wrt (\<lambda>x y. x + u_size h1 x < y) (bp # rs)"
  proof -
    have "bp + u_size h bp < x" if "x \<in> set rs" for x
    proof (cases rs)
      case (Cons r rs')
      have "bp + u_size h bp \<le> r" by (rule tiles_order [OF ti]) (use Cons gt in auto)
      moreover have "bp + u_size h bp \<noteq> r" "r \<le> x" using False Cons so that by auto
      ultimately show ?thesis by simp
    qed (use that in simp)
    then show ?thesis using so h1 by auto
  qed
  ultimately show ?thesis by (intro that [of rs]) (use ti h1 in auto)
qed

text \<open>Joining with the block before, if it is a neighbour, or linking.\<close>

lemma join_prev_ok:
  assumes pa: "path h b ls q" "path h bp rs b" and di: "distinct (b # ls)" "bp \<notin> set (b # ls)" and lt: "b < bp" "\<forall>x \<in> set ls. x < bp"
    and so: "sorted_wrt (\<lambda>x y. x + u_size h x < y) ls" "sorted_wrt (\<lambda>x y. x + u_size h x < y) (bp # rs)"
    and ti: "tiles (u_size h) (insert bp (set ls \<union> set rs \<union> R)) S" and R: "(set ls \<union> set rs) \<inter> R = {}" "bp \<notin> R" "u_size h b = 0" "b \<notin> S"
  defines "p \<equiv> last (b # ls)"
  defines "h2 \<equiv> join_prev p bp h"
  obtains ys where "path h2 b ys b" "sorted_wrt (\<lambda>x y. x + u_size h2 x < y) ys" "set ys \<subseteq> insert bp (set ls \<union> set rs)" "p \<in> set (b # ys)"
    "tiles (u_size h2) (set ys \<union> R) S" "\<And>x. x \<notin> set ls \<Longrightarrow> u_size h2 x = u_size h x"
    "\<exists>x \<in> set ys. span (u_size h) bp \<subseteq> span (u_size h2) x"
    "u_freep h2 = u_freep h \<and> u_base h2 = u_base h \<and> u_brk h2 = u_brk h \<and> u_max h2 = u_max h"
proof -
  have mono: "x + u_size h x < y \<Longrightarrow> x < y" for x y by simp
  have bnot: "b \<notin> set rs" using tiles_in [OF ti, of b] R(4) by auto
  have lrs: "x < r" if "x \<in> set (b # ls)" "r \<in> set (bp # rs)" for x r using that lt so(2) by fastforce
  have rest: "path (set_ptr p c h') bp rs b" if "\<And>x. u_ptr h' x = u_ptr h x" for c h'
  proof -
    have "p \<in> set (b # ls)" unfolding p_def by (rule last_in_set) simp
    then have "p \<notin> set (bp # rs)" using lrs by blast
    then have "path (set_ptr p c h') bp rs b = path h bp rs b" by (intro path_cong) (use that in auto)
    then show ?thesis using pa(2) by simp
  qed
  have front: "path (set_ptr p c h') b ls c" if "\<And>x. u_ptr h' x = u_ptr h x" for c h'
  proof -
    have "path h' b ls q = path h b ls q" by (rule path_cong) (use that in simp)
    then show ?thesis unfolding p_def using path_redirect [of h' b ls q c] pa(1) di(1) by simp
  qed
  have step: "x + u_size h x \<le> y" if "x \<in> set ls" "y \<in> set (bp # rs)" for x y
    by (rule tiles_order [OF ti]) (use that lrs in auto)
  have plast: "ls \<noteq> [] \<Longrightarrow> \<exists>ls'. ls = ls' @ [p]" unfolding p_def by (cases ls rule: rev_cases) auto
  have before: "x + u_size h x < p \<and> p \<in> set (b # ls)" if "x \<in> set ls" "x \<noteq> p" for x
  proof -
    obtain ls' where "ls = ls' @ [p]" using plast \<open>x \<in> set ls\<close> by (cases ls) auto
    then show ?thesis using that so(1) by (auto simp: sorted_wrt_append)
  qed
  show thesis
  proof (cases "p + u_size h p = bp")
    case False
    then have h2: "h2 = set_ptr p bp h" by (simp add: h2_def join_prev_def)
    have "path h2 b (ls @ bp # rs) b" unfolding h2 path_append using front rest by simp
    moreover have "sorted_wrt (\<lambda>x y. x + u_size h2 x < y) (ls @ bp # rs)"
    proof -
      have strict: "x + u_size h x < y" if "x \<in> set ls" "y \<in> set (bp # rs)" for x y
      proof (cases "x = p")
        case True
        then have "x + u_size h x < bp" using step [OF that(1), of bp] False by simp
        then show ?thesis using that(2) so(2) by auto
      next
        case False
        then show ?thesis using before [OF that(1)] lrs [of p y] that(2) by simp
      qed
      then show ?thesis using so unfolding h2 by (auto simp: sorted_wrt_append)
    qed
    moreover have "p \<in> set (b # ls)" unfolding p_def by (rule last_in_set) simp
    ultimately show ?thesis using ti by (intro that [of "ls @ bp # rs"]) (auto simp: h2 Un_assoc insert_commute)
  next
    case True
    then have "ls \<noteq> []" using R(3) lt(1) by (auto simp: p_def)
    then have ls: "p \<in> set ls" "p \<noteq> b" "p \<noteq> bp" using di by (auto simp: p_def)
    let ?h = "set_size p (u_size h p + u_size h bp) h"
    have h2: "h2 = set_ptr p (hd (rs @ [b])) ?h" using True path_first [OF pa(2)] by (simp add: h2_def join_prev_def)
    have "path h2 b (ls @ rs) b" unfolding h2
    proof (rule path_join)
      show "path (set_ptr p (hd (rs @ [b])) ?h) b ls (hd (rs @ [b]))" by (rule front) simp
      assume "rs \<noteq> []"
      then show "path (set_ptr p (hd (rs @ [b])) ?h) (hd rs) (tl rs) b" using rest [of ?h "hd (rs @ [b])"] by (cases rs) auto
    qed
    moreover have "tiles (u_size h2) (set (ls @ rs) \<union> R) S"
    proof -
      have "insert bp (set ls \<union> set rs \<union> R) - {bp} = set (ls @ rs) \<union> R" using R di so(2) by auto
      moreover have "u_size h2 = (u_size h)(p := u_size h p + u_size h bp)" by (simp add: h2)
      ultimately show ?thesis using tiles_join [OF ti, of p bp] True ls by simp
    qed
    moreover have "sorted_wrt (\<lambda>x y. x + u_size h2 x < y) (ls @ rs)"
    proof -
      obtain ls' where l: "ls = ls' @ [p]" using plast \<open>ls \<noteq> []\<close> by blast
      then have np: "p \<notin> set ls'" "p \<notin> set rs" using di lrs [of p p] ls by auto
      have "sorted_wrt (\<lambda>x y. x + u_size h2 x < y) ls'" "sorted_wrt (\<lambda>x y. x + u_size h2 x < y) rs"
        by (rule sorted_wrt_mono_rel [of _ "\<lambda>x y. x + u_size h x < y"]; use np so l h2 in \<open>auto simp: sorted_wrt_append\<close>)+
      moreover have "x + u_size h2 x < y" if "x \<in> set ls'" "y \<in> set (p # rs)" for x y
      proof -
        have "x + u_size h x < p" using that(1) so(1) l by (auto simp: sorted_wrt_append)
        moreover have "p \<le> y" using that(2) lrs [of p y] ls by auto
        moreover have "x \<noteq> p" using that(1) np by auto
        ultimately show ?thesis by (simp add: h2)
      qed
      moreover have "p + u_size h2 p < y" if "y \<in> set rs" for y using that so(2) True by (auto simp: h2)
      ultimately show ?thesis by (auto simp: l sorted_wrt_append)
    qed
    moreover have "span (u_size h) bp \<subseteq> span (u_size h2) p" using True h2 by (auto simp: span_def)
    ultimately show ?thesis using ls h2 by (intro that [of "ls @ rs"]) auto
  qed
qed

lemma free_block_ok:
  assumes ok: "heap_ok lo h xs held" and bp: "bp \<in> held"
  obtains h' ys where "free_block bp h = Some h'" "heap_ok lo h' ys (held - {bp})" "\<And>a. a \<in> held - {bp} \<Longrightarrow> u_size h' a = u_size h a"
    "\<exists>x \<in> set ys. span (u_size h) bp \<subseteq> span (u_size h') x" "u_base h' = u_base h \<and> u_brk h' = u_brk h \<and> u_max h' = u_max h"
proof -
  let ?b = "u_base h" and ?R = "held - {bp}" and ?S = "{lo..<u_brk h}"
  have b: "0 < ?b" "?b < lo" "lo \<le> u_brk h" "u_size h ?b = 0" and pa: "path h ?b xs ?b" and f: "u_freep h \<in> set (?b # xs)"
    and so: "sorted_wrt (\<lambda>x y. x + u_size h x < y) xs" and dj: "set xs \<inter> held = {}" and ti: "tiles (u_size h) (set xs \<union> held) ?S"
    using ok by (simp_all add: heap_ok_def)
  have lo: "lo \<le> x" if "x \<in> set xs \<union> held" for x using tiles_in [OF ti that] by simp
  have lt: "sorted_wrt (<) xs" by (rule sorted_wrt_mono_rel [OF _ so]) simp
  have bx: "bp \<notin> set xs" using dj bp by blast
  from sorted_split [OF lt bx] obtain ls rs where xs: "xs = ls @ rs" "\<forall>x \<in> set ls. x < bp" "\<forall>x \<in> set rs. bp < x" by blast
  define p where "p = last (?b # ls)"
  have bbp: "?b < bp" using lo [of bp] bp b by simp
  have pl: "p \<in> set (?b # ls)" unfolding p_def by (rule last_in_set) simp
  then have pne: "p \<noteq> bp" using xs(2) bbp by auto
  have sorted: "sorted_wrt (<) (?b # ls @ rs)" using lt xs(1) lo b by fastforce
  have find: "find_place h bp (u_freep h) = Some p" unfolding p_def
    by (rule find_place_ring) (use pa sorted bbp xs f in simp_all)
  have ti1: "tiles (u_size h) (insert bp (set rs \<union> (set ls \<union> ?R))) ?S"
  proof -
    have "insert bp (set rs \<union> (set ls \<union> ?R)) = set xs \<union> held" using xs(1) bp by auto
    then show ?thesis using ti by simp
  qed
  have prs: "path h p rs ?b" "path h ?b ls (hd (rs @ [?b]))" using path_split [of h ?b ls rs ?b] pa xs(1) by (simp_all add: p_def)
  have so1: "sorted_wrt (\<lambda>x y. x + u_size h x < y) rs" "sorted_wrt (\<lambda>x y. x + u_size h x < y) ls" using so xs(1) by (simp_all add: sorted_wrt_append)
  have dis: "distinct (?b # ls @ rs)" using sorted strict_sorted_iff by blast
  have n: "bp \<notin> set rs" "set rs \<inter> (set ls \<union> ?R) = {}" "bp \<notin> set ls \<union> ?R" using bx xs(1) dis dj by auto
  define h1 where "h1 = join_next p bp h"
  from join_next_ok [OF prs(1) pne n(1) bbp xs(3) so1(1) ti1 n(2,3)] obtain rs1 where
    r1: "path h1 bp rs1 ?b" "sorted_wrt (\<lambda>x y. x + u_size h1 x < y) (bp # rs1)" "set rs1 \<subseteq> set rs"
    "tiles (u_size h1) (insert bp (set rs1 \<union> (set ls \<union> ?R))) ?S" "\<And>x. x \<noteq> bp \<Longrightarrow> u_size h1 x = u_size h x \<and> u_ptr h1 x = u_ptr h x"
    "u_size h bp \<le> u_size h1 bp" "u_freep h1 = u_freep h \<and> u_base h1 = u_base h \<and> u_brk h1 = u_brk h \<and> u_max h1 = u_max h"
    unfolding h1_def [symmetric] by blast
  have lb: "bp \<notin> set (?b # ls)" using bbp xs(2) by auto
  have front: "u_size h1 x = u_size h x \<and> u_ptr h1 x = u_ptr h x" if "x \<in> set (?b # ls)" for x
    by (rule r1(5)) (use that lb in blast)
  have pa1: "path h1 ?b ls (hd (rs @ [?b]))"
  proof -
    have "path h1 ?b ls (hd (rs @ [?b])) = path h ?b ls (hd (rs @ [?b]))" by (rule path_cong) (use front in blast)
    then show ?thesis using prs(2) by simp
  qed
  have sl: "sorted_wrt (\<lambda>x y. x + u_size h1 x < y) ls"
    by (rule sorted_wrt_mono_rel [OF _ so1(2)]) (simp add: front)
  have ti2: "tiles (u_size h1) (insert bp (set ls \<union> set rs1 \<union> ?R)) ?S" using r1(4) by (simp add: Un_left_commute Un_assoc)
  have n2: "distinct (?b # ls)" "(set ls \<union> set rs1) \<inter> ?R = {}" "bp \<notin> ?R" "u_size h1 ?b = 0" "?b \<notin> ?S"
    using dis dj r1(3,5) xs(1) b bbp by auto
  define h2 where "h2 = join_prev p bp h1"
  from join_prev_ok [OF pa1 r1(1) n2(1) lb bbp xs(2) sl r1(2) ti2 n2(2-5)] obtain ys where
    ys: "path h2 ?b ys ?b" "sorted_wrt (\<lambda>x y. x + u_size h2 x < y) ys" "set ys \<subseteq> insert bp (set ls \<union> set rs1)" "p \<in> set (?b # ys)"
    "tiles (u_size h2) (set ys \<union> ?R) ?S" "\<And>x. x \<notin> set ls \<Longrightarrow> u_size h2 x = u_size h1 x"
    "\<exists>x \<in> set ys. span (u_size h1) bp \<subseteq> span (u_size h2) x"
    "u_freep h2 = u_freep h1 \<and> u_base h2 = u_base h1 \<and> u_brk h2 = u_brk h1 \<and> u_max h2 = u_max h1"
    unfolding h2_def [symmetric] p_def [symmetric] by blast
  let ?h = "h2\<lparr>u_freep := p\<rparr>"
  have fp: "u_freep h \<noteq> 0" using f lo [of "u_freep h"] b by auto
  have fb: "free_block bp h = Some ?h" using find fp by (simp add: free_block_def h1_def h2_def)
  have "path ?h ?b ys ?b = path h2 ?b ys ?b" by (rule path_cong) simp
  moreover have "u_size h2 ?b = 0" using dis ys(6) [of ?b] n2(1,4) by simp
  moreover have "set ys \<inter> ?R = {}" using ys(3) n2(2,3) by blast
  ultimately have "heap_ok lo ?h ys ?R" using b ys(1,2,4,5,8) r1(7) by (simp add: heap_ok_def)
  moreover have "u_size ?h a = u_size h a" if "a \<in> ?R" for a
  proof -
    have "a \<notin> set ls" "a \<noteq> bp" using that dj xs(1) by auto
    then show ?thesis using ys(6) r1(5) by simp
  qed
  moreover have "span (u_size h) bp \<subseteq> span (u_size h1) bp" using r1(6) by (auto simp: span_def)
  ultimately show ?thesis using fb ys(7,8) r1(7) by (intro that [of ?h ys]) auto
qed

section \<open>Allocating\<close>

text \<open>Taking a block or its end keeps the order of the list.\<close>

lemma take_block_ok:
  assumes ok: "heap_ok lo h xs held" and xs: "xs = ls @ p # rs" and pv: "prevp = last (u_base h # ls)"
    and n: "0 < n" "n \<le> u_size h p"
  obtains a h' ys where "take_block n prevp p h = (a + 1, h')" "heap_ok lo h' ys (insert a held)" "a \<notin> held" "u_size h' a = n"
    "\<And>b. b \<in> held \<Longrightarrow> u_size h' b = u_size h b" "u_base h' = u_base h \<and> u_brk h' = u_brk h \<and> u_max h' = u_max h"
    "span (u_size h') a \<subseteq> span (u_size h) p"
proof -
  let ?b = "u_base h" and ?S = "{lo..<u_brk h}"
  have b: "0 < ?b" "?b < lo" "lo \<le> u_brk h" "u_size h ?b = 0" and pa: "path h ?b (ls @ p # rs) ?b"
    and so: "sorted_wrt (\<lambda>x y. x + u_size h x < y) (ls @ p # rs)" and dj: "set xs \<inter> held = {}" and ti: "tiles (u_size h) (set xs \<union> held) ?S"
    using ok xs by (simp_all add: heap_ok_def)
  have pi: "p \<in> set xs \<union> held" using xs by simp
  have lo: "lo \<le> x" if "x \<in> set xs \<union> held" for x using tiles_in [OF ti that] by simp
  have bx: "?b \<notin> set xs \<union> held" using lo b(2) by fastforce
  have lt: "sorted_wrt (<) (ls @ p # rs)" by (rule sorted_wrt_mono_rel [OF _ so]) simp
  then have "distinct (ls @ p # rs)" using strict_sorted_iff by blast
  then have dis: "distinct (?b # ls @ p # rs)" using bx xs by simp
  have pv_in: "prevp \<in> set (?b # ls)" unfolding pv by (rule last_in_set) simp
  show ?thesis
  proof (cases "u_size h p = n")
    case True
    let ?h = "(set_ptr prevp (u_ptr h p) h)\<lparr>u_freep := prevp\<rparr>"
    have cong: "path ?h a vs c = path (set_ptr prevp (u_ptr h p) h) a vs c" for a vs c by (rule path_cong) simp
    have pp: "u_ptr h p = hd (rs @ [?b])" using path_split(2) [OF pa] path_first [of h p rs ?b] by (simp add: path_append)
    have "path ?h ?b (ls @ rs) ?b" unfolding cong
    proof (rule path_join)
      show "path (set_ptr prevp (u_ptr h p) h) ?b ls (hd (rs @ [?b]))"
        using path_redirect [OF path_split(1) [OF pa], of "u_ptr h p"] dis pp unfolding pv by simp
      assume "rs \<noteq> []"
      then obtain r rs' where rs: "rs = r # rs'" by (cases rs) auto
      then have "path h r rs' ?b" using pa by (simp add: path_append)
      moreover have "path (set_ptr prevp (u_ptr h p) h) r rs' ?b = path h r rs' ?b"
        by (rule path_cong) (use pv_in dis rs in auto)
      ultimately show "path (set_ptr prevp (u_ptr h p) h) (hd rs) (tl rs) ?b" using rs by simp
    qed
    moreover have "set (ls @ rs) \<union> insert p held = set xs \<union> held" "set (ls @ rs) \<inter> insert p held = {}" using xs dis dj by auto
    ultimately have "heap_ok lo ?h (ls @ rs) (insert p held)"
      using b so ti pv_in by (auto simp: heap_ok_def sorted_wrt_append)
    then show ?thesis using True dj xs by (intro that [of p ?h "ls @ rs"]) (auto simp: take_block_def)
  next
    case False
    then have nn: "n < u_size h p" using n(2) by simp
    define a where "a = p + (u_size h p - n)"
    let ?h = "(set_size a n (set_size p (u_size h p - n) h))\<lparr>u_freep := prevp\<rparr>"
    have tk: "take_block n prevp p h = (a + 1, ?h)" using False by (simp add: take_block_def Let_def a_def)
    have sz: "u_size ?h = (u_size h)(p := u_size h p - n, a := n)" by simp
    have t2: "tiles (u_size ?h) (insert a (set xs \<union> held)) ?S" "a \<notin> set xs \<union> held"
      using tiles_split [OF ti pi n(1) nn] unfolding a_def [symmetric] by simp_all
    have ab: "a \<noteq> ?b" "a \<noteq> p" using lo [OF pi] b(2) nn by (auto simp: a_def)
    have "path ?h ?b xs ?b = path h ?b xs ?b" by (rule path_cong) simp
    moreover have "sorted_wrt (\<lambda>x y. x + u_size ?h x < y) xs"
      by (rule sorted_wrt_mono_rel [OF _ so [folded xs]]) (use t2(2) sz in auto)
    moreover have "u_size ?h ?b = 0" using b(4) ab bx pi by auto
    moreover have "set xs \<inter> insert a held = {}" "set xs \<union> insert a held = insert a (set xs \<union> held)" using dj t2(2) by auto
    ultimately have "heap_ok lo ?h xs (insert a held)" using b pa t2(1) pv_in xs by (auto simp: heap_ok_def)
    moreover have "u_size ?h c = u_size h c" if "c \<in> held" for c using that t2(2) dj xs by auto
    moreover have "span (u_size ?h) a \<subseteq> span (u_size h) p" using nn by (auto simp: span_def a_def)
    ultimately show ?thesis using tk t2(2) by (intro that [of a ?h xs]) auto
  qed
qed

text \<open>The search from \<open>freep\<close> finds a block that is large enough, and knows the one before it.\<close>

lemma path_map: "path h a xs c \<Longrightarrow> map (u_ptr h) (a # xs) = xs @ [c]"
  by (induction xs arbitrary: a) auto

lemma rotate_ring:
  assumes "path h b xs b" and "f \<in> set (b # xs)" and "distinct (b # xs)"
  obtains ys where "path h f ys f" "set ys \<union> {f} = set (b # xs)" "f \<notin> set ys"
proof (cases "f = b")
  case True
  then show ?thesis using assms by (intro that [of xs]) auto
next
  case False
  then obtain us vs where xs: "xs = us @ f # vs" using assms(2) by (auto dest: split_list)
  then have "path h f (vs @ b # us) f" using assms(1) by (simp add: path_append)
  then show ?thesis using xs assms(3) by (intro that [of "vs @ b # us"]) auto
qed

lemma heap_ok_distinct:
  assumes "heap_ok lo h xs held"
  shows "distinct (u_base h # xs)" "u_freep h \<noteq> 0"
proof -
  have lo: "lo \<le> x" if "x \<in> set xs" for x using assms tiles_in [of "u_size h" "set xs \<union> held" _ x] that by (force simp: heap_ok_def)
  have "sorted_wrt (<) xs" by (rule sorted_wrt_mono_rel [of _ "\<lambda>x y. x + u_size h x < y"]) (use assms in \<open>auto simp: heap_ok_def\<close>)
  then have "distinct xs" using strict_sorted_iff by blast
  then show "distinct (u_base h # xs)" using assms lo [of "u_base h"] by (auto simp: heap_ok_def)
  show "u_freep h \<noteq> 0" using assms lo [of "u_freep h"] by (auto simp: heap_ok_def)
qed

lemma search_ok:
  assumes ok: "heap_ok lo h xs held" and n: "0 < n" and ex: "\<exists>x \<in> set xs. n \<le> u_size h x"
  obtains ls z rs where "xs = ls @ z # rs" "n \<le> u_size h z"
    "malloc_loop n h (u_freep h) (u_ptr h (u_freep h)) = Some (take_block n (last (u_base h # ls)) z h)"
proof -
  let ?b = "u_base h" and ?f = "u_freep h"
  have pa: "path h ?b xs ?b" and f: "?f \<in> set (?b # xs)" and sb: "u_size h ?b = 0" using ok by (simp_all add: heap_ok_def)
  note di = heap_ok_distinct(1) [OF ok]
  obtain ys where ys: "path h ?f ys ?f" "set ys \<union> {?f} = set (?b # xs)" "?f \<notin> set ys" using rotate_ring [OF pa f di] by blast
  have "\<exists>z \<in> set (ys @ [?f]). n \<le> u_size h z" using ex ys(2) by auto
  then obtain us z ws where z: "ys @ [?f] = us @ z # ws" "n \<le> u_size h z" "\<forall>x \<in> set us. \<not> n \<le> u_size h x"
    using split_list_first_prop [of "ys @ [?f]" "\<lambda>z. n \<le> u_size h z"] by blast
  have "z \<in> set (ys @ [?f])" using z(1) by simp
  then have "z \<in> set (?b # xs)" using ys(2) by auto
  moreover have "z \<noteq> ?b" using z(2) n sb by auto
  ultimately have zx: "z \<in> set xs" by simp
  then obtain ls rs where xs: "xs = ls @ z # rs" by (auto dest: split_list)
  have pz: "path h ?f us z"
  proof (cases ws rule: rev_cases)
    case Nil
    then show ?thesis using z(1) ys(1) by simp
  next
    case (snoc ws' w)
    then have "ys = us @ z # ws'" using z(1) by simp
    then show ?thesis using ys(1) by (simp add: path_append)
  qed
  have "u_ptr h (last (?f # us)) = z" using path_split(2) [of h ?f us "[]" z] pz by simp
  moreover have "u_ptr h (last (?b # ls)) = z" using path_split(2) [of h ?b ls "z # rs" ?b] pa xs by simp
  moreover have "inj_on (u_ptr h) (set (?b # xs))" using path_map [OF pa] di by (metis distinct_map distinct.simps(2) distinct1_rotate rotate1.simps(2))
  moreover have "last (?f # us) \<in> set (?b # xs)"
  proof -
    have "set us \<subseteq> set (ys @ [?f])" using z(1) by auto
    then have "set (?f # us) \<subseteq> set (?b # xs)" using ys(2) f by auto
    then show ?thesis using last_in_set [of "?f # us"] by blast
  qed
  moreover have "last (?b # ls) \<in> set (?b # xs)" using xs by auto
  ultimately have pv: "last (?f # us) = last (?b # ls)" by (metis inj_onD)
  have "malloc_loop n h ?f (hd (ys @ [?f])) = Some (take_block n (last (?f # us)) z h)"
    by (rule malloc_walk(1) [OF ys(1,3) z(1) refl _ z(2)]) (use z(3) in auto)
  then show ?thesis using that [OF xs z(2)] pv path_first [OF ys(1)] by simp
qed

lemma search_none:
  assumes ok: "heap_ok lo h xs held" and n: "0 < n" and no: "\<forall>x \<in> set xs. u_size h x < n"
  shows "malloc_loop n h (u_freep h) (u_ptr h (u_freep h)) =
    (case morecore n h of None \<Rightarrow> None | Some (q, h) \<Rightarrow> if q = 0 then Some (0, h) else malloc_loop n h q (u_ptr h q))"
proof -
  let ?b = "u_base h" and ?f = "u_freep h"
  have pa: "path h ?b xs ?b" and f: "?f \<in> set (?b # xs)" and sb: "u_size h ?b = 0" using ok by (simp_all add: heap_ok_def)
  obtain ys where ys: "path h ?f ys ?f" "set ys \<union> {?f} = set (?b # xs)" "?f \<notin> set ys"
    using rotate_ring [OF pa f heap_ok_distinct(1) [OF ok]] by blast
  have "\<forall>x \<in> set (ys @ [?f]). u_size h x < n" using no n sb ys(2) by auto
  from malloc_walk(2) [OF ys(1,3) this] show ?thesis using path_first [OF ys(1)] by simp
qed

text \<open>More memory from the kernel: a new block above all others, which is freed.\<close>

lemma tiles_extend:
  assumes t: "tiles sz B {lo..<m}" and m: "lo \<le> m" "0 < k"
  shows "tiles (sz(m := k)) (insert m B) {lo..<m + k}" "m \<notin> B"
proof -
  show nm: "m \<notin> B" using tiles_in [OF t, of m] by auto
  have so: "span (sz(m := k)) c = span sz c" if "c \<in> B" for c using that nm by (auto simp: span_def)
  have sm: "span (sz(m := k)) m = {m..<m + k}" by (simp add: span_def)
  have U: "(\<Union>c \<in> B. span sz c) = {lo..<m}" using t by (simp add: tiles_def)
  have "(\<Union>c \<in> insert m B. span (sz(m := k)) c) = {lo..<m + k}" using so sm U m by auto
  moreover have "span sz c \<inter> {m..<m + k} = {}" if "c \<in> B" for c
  proof -
    have "span sz c \<subseteq> {lo..<m}" using tiles_in [OF t that] by blast
    then show ?thesis by auto
  qed
  ultimately show "tiles (sz(m := k)) (insert m B) {lo..<m + k}"
    using t m nm so sm unfolding tiles_def by (auto simp: Int_commute)
qed

lemma morecore_ok:
  assumes ok: "heap_ok lo h xs held" and n: "0 < n" "max 4096 n * 8 < 2147483648"
  shows "(u_max h < u_brk h + max 4096 n \<and> morecore n h = Some (0, h)) \<or>
    (\<exists>h' ys. morecore n h = Some (u_freep h', h') \<and> heap_ok lo h' ys held \<and> (\<exists>x \<in> set ys. n \<le> u_size h' x) \<and>
       (\<forall>a \<in> held. u_size h' a = u_size h a) \<and> u_base h' = u_base h \<and> u_brk h' = u_brk h + max 4096 n \<and> u_max h' = u_max h)"
proof -
  define k where "k = max 4096 n"
  have k: "(if n < 4096 then 4096 else n) = k" "0 < k" "n \<le> k" "k * 8 < 2147483648" using n(2) by (auto simp: k_def)
  have sb: "usbrk (u32 (k * 8)) h = (if u_max h < u_brk h + k then (None, h) else (Some (u_brk h), h\<lparr>u_brk := u_brk h + k\<rparr>))"
  proof -
    have "s32 (u32 (k * 8)) = int (k * 8)" using k(4) by (simp add: s32_def)
    moreover have "int (u_brk h) + int (k * 8) div 8 = int (u_brk h + k)" by simp
    ultimately have "usbrk (u32 (k * 8)) h =
        (if 0 < int (k * 8) \<and> int (u_max h) < int (u_brk h + k) \<or> int (k * 8) < 0 \<and> int (u_brk h + k) = 0 then (None, h)
         else if int (k * 8) < 0 \<and> int (u_brk h + k) < 0 then (Some (u_brk h), h)
         else (Some (u_brk h), h\<lparr>u_brk := nat (int (u_brk h + k))\<rparr>))" by (simp only: usbrk_def Let_def)
    then show ?thesis using k(2) by (simp del: of_nat_add of_nat_mult)
  qed
  show ?thesis
  proof (cases "u_max h < u_brk h + k")
    case True
    then show ?thesis using sb k(1) by (simp add: morecore_def k_def)
  next
    case False
    let ?m = "u_brk h" and ?h = "set_size (u_brk h) k (h\<lparr>u_brk := u_brk h + k\<rparr>)"
    have ti: "tiles (u_size h) (set xs \<union> held) {lo..<?m}" "lo \<le> ?m" using ok by (simp_all add: heap_ok_def)
    note te = tiles_extend [OF ti k(2)]
    have "path ?h (u_base h) xs (u_base h) = path h (u_base h) xs (u_base h)" by (rule path_cong) simp
    moreover have "sorted_wrt (\<lambda>x y. x + u_size ?h x < y) xs"
      by (rule sorted_wrt_mono_rel [of _ "\<lambda>x y. x + u_size h x < y"]) (use ok te(2) in \<open>auto simp: heap_ok_def\<close>)
    ultimately have hk: "heap_ok lo ?h xs (insert ?m held)" using ok te by (auto simp: heap_ok_def)
    from free_block_ok [OF hk, of ?m] obtain h' ys where h': "free_block ?m ?h = Some h'" "heap_ok lo h' ys (insert ?m held - {?m})"
      "\<And>a. a \<in> insert ?m held - {?m} \<Longrightarrow> u_size h' a = u_size ?h a" "\<exists>x \<in> set ys. span (u_size ?h) ?m \<subseteq> span (u_size h') x"
      "u_base h' = u_base ?h \<and> u_brk h' = u_brk ?h \<and> u_max h' = u_max ?h" by blast
    have R: "insert ?m held - {?m} = held" using te(2) by auto
    have "\<exists>x \<in> set ys. n \<le> u_size h' x"
    proof -
      obtain x where x: "x \<in> set ys" "{?m..<?m + k} \<subseteq> {x..<x + u_size h' x}" using h'(4) by (auto simp: span_def)
      then show ?thesis using k(2,3) by (intro bexI [of _ x]) auto
    qed
    moreover have "u_size h' a = u_size h a" if "a \<in> held" for a using h'(3) [of a] that te(2) by auto
    moreover have "morecore n h = Some (u_freep h', h')" using sb False k(1) h'(1) by (simp add: morecore_def ufree_def)
    ultimately show ?thesis using h'(2,5) unfolding R by (intro disjI2 exI [of _ h'] exI [of _ ys]) (simp add: k_def)
  qed
qed

section \<open>What the allocator promises\<close>

text \<open>
  A heap from \<open>lo\<close> on, before the first call of \<open>malloc\<close> or after it, of which the program holds the blocks \<open>held\<close>.
\<close>

definition ready :: "nat \<Rightarrow> uheap \<Rightarrow> nat set \<Rightarrow> bool" where
  "ready lo h held \<longleftrightarrow>
     (if u_freep h = 0 then held = {} \<and> 0 < u_base h \<and> u_base h < lo \<and> u_brk h = lo else \<exists>xs. heap_ok lo h xs held)"

lemma ready_heap: "heap_ok lo h xs held \<Longrightarrow> ready lo h held"
  by (metis ready_def heap_ok_distinct(2))

lemma start_ready:
  assumes "ready lo h held"
  obtains xs where "heap_ok lo (start_heap h) xs held" "\<And>a. a \<in> held \<Longrightarrow> u_size (start_heap h) a = u_size h a"
    "u_base (start_heap h) = u_base h \<and> u_brk (start_heap h) = u_brk h \<and> u_max (start_heap h) = u_max h"
proof (cases "u_freep h = 0")
  case True
  then have "heap_ok lo (start_heap h) [] held" "held = {}" using assms by (auto simp: ready_def heap_ok_def start_heap_def tiles_def)
  then show ?thesis using True by (intro that [of "[]"]) (auto simp: start_heap_def)
next
  case False
  then obtain xs where "heap_ok lo h xs held" using assms by (auto simp: ready_def)
  then show ?thesis using False by (intro that [of xs]) (auto simp: start_heap_def)
qed

text \<open>Near \<open>2 ^ 32\<close> the number of units wraps around, to a block of a header without room.\<close>

lemma units_of_wraps: "nbytes < 4294967296 \<Longrightarrow> 4294967289 \<le> nbytes \<Longrightarrow> units_of nbytes = 1"
proof -
  assume "nbytes < 4294967296" "4294967289 \<le> nbytes"
  then have "nbytes + 7 = 4294967296 + (nbytes - 4294967289)" "nbytes - 4294967289 < 8" by simp_all
  then obtain k where k: "nbytes + 7 = 4294967296 + k" "k < 8" by blast
  then show "units_of nbytes = 1" by (simp add: units_of_def u32_def)
qed

lemma units_bounds:
  assumes "nbytes < 2147483633"
  shows "0 < units_of nbytes" "max 4096 (units_of nbytes) * 8 < 2147483648" "nbytes \<le> 8 * (units_of nbytes - 1)"
proof -
  have "units_of nbytes = (nbytes + 7) div 8 + 1" using assms by (simp add: units_of_def)
  moreover have "(nbytes + 7) div 8 * 8 + (nbytes + 7) mod 8 = nbytes + 7" by (rule div_mult_mod_eq)
  moreover have "(nbytes + 7) mod 8 < 8" by simp
  ultimately show "0 < units_of nbytes" "max 4096 (units_of nbytes) * 8 < 2147483648" "nbytes \<le> 8 * (units_of nbytes - 1)"
    using assms by (auto simp: max_def)
qed

lemma ready_disjoint:
  assumes "ready lo h held" and "a \<in> held" "b \<in> held" and "a \<noteq> b"
  shows "span (u_size h) a \<inter> span (u_size h) b = {}"
proof -
  obtain xs where "heap_ok lo h xs held" using assms by (auto simp: ready_def split: if_splits)
  then have "tiles (u_size h) (set xs \<union> held) {lo..<u_brk h}" by (simp add: heap_ok_def)
  from tiles_disjoint [OF this, of a b] show ?thesis using assms by simp
qed

lemma malloc_finds:
  assumes ok: "heap_ok lo h xs held" and n: "0 < n" and ex: "\<exists>x \<in> set xs. n \<le> u_size h x"
  shows "\<exists>a h'. malloc_loop n h (u_freep h) (u_ptr h (u_freep h)) = Some (a + 1, h') \<and> a \<notin> held \<and> u_size h' a = n \<and>
    ready lo h' (insert a held) \<and> (\<forall>b \<in> held. u_size h' b = u_size h b)"
proof -
  obtain ls z rs where z: "xs = ls @ z # rs" "n \<le> u_size h z"
    "malloc_loop n h (u_freep h) (u_ptr h (u_freep h)) = Some (take_block n (last (u_base h # ls)) z h)"
    using search_ok [OF ok n ex] by blast
  obtain a h' ys where "take_block n (last (u_base h # ls)) z h = (a + 1, h')" "heap_ok lo h' ys (insert a held)" "a \<notin> held"
    "u_size h' a = n" "\<And>b. b \<in> held \<Longrightarrow> u_size h' b = u_size h b"
    using take_block_ok [OF ok z(1) refl n z(2)] by blast
  then show ?thesis using z(3) ready_heap [of lo h' ys] by auto
qed

text \<open>C22: \<open>malloc\<close> of less than 2 GB ends. It gives a block the program does not hold yet, of the size asked for and apart
  from every block held, and leaves those as they are; or it gives the null pointer, only when the kernel has no memory
  left. Either way the heap stays in order.\<close>

theorem umalloc_gives_fresh_block:
  assumes "ready lo h held" and "nbytes < 2147483633"
  shows "\<exists>r h'. umalloc nbytes h = Some (r, h') \<and> (\<forall>b \<in> held. u_size h' b = u_size h b) \<and>
    (r = 0 \<and> ready lo h' held \<and> u_max h < u_brk h + max 4096 (units_of nbytes) \<or>
     (\<exists>a. r = a + 1 \<and> a \<notin> held \<and> nbytes \<le> 8 * (u_size h' a - 1) \<and> ready lo h' (insert a held) \<and>
        (\<forall>b \<in> held. span (u_size h') a \<inter> span (u_size h') b = {})))"
proof -
  let ?n = "units_of nbytes"
  note n = units_bounds [OF assms(2)]
  obtain xs where ok: "heap_ok lo (start_heap h) xs held" and sz: "\<And>a. a \<in> held \<Longrightarrow> u_size (start_heap h) a = u_size h a"
    and e: "u_base (start_heap h) = u_base h \<and> u_brk (start_heap h) = u_brk h \<and> u_max (start_heap h) = u_max h"
    using start_ready [OF assms(1)] by blast
  let ?h = "start_heap h"
  have mu: "umalloc nbytes h = malloc_loop ?n ?h (u_freep ?h) (u_ptr ?h (u_freep ?h))" by (simp add: umalloc_def Let_def)
  have fresh: ?thesis if "umalloc nbytes h = Some (a + 1, h')" "a \<notin> held" "u_size h' a = ?n" "ready lo h' (insert a held)"
      "\<forall>b \<in> held. u_size h' b = u_size ?h b" for a h'
  proof -
    have "span (u_size h') a \<inter> span (u_size h') b = {}" if "b \<in> held" for b
      by (rule ready_disjoint [OF \<open>ready lo h' (insert a held)\<close>]) (use that \<open>a \<notin> held\<close> in auto)
    then have "(\<forall>b \<in> held. u_size h' b = u_size h b) \<and> nbytes \<le> 8 * (u_size h' a - 1) \<and>
        (\<forall>b \<in> held. span (u_size h') a \<inter> span (u_size h') b = {})" using that(3,5) sz n(3) by simp
    then show ?thesis using that(1,2,4) by blast
  qed
  show ?thesis
  proof (cases "\<exists>x \<in> set xs. ?n \<le> u_size ?h x")
    case True
    then show ?thesis using malloc_finds [OF ok n(1) True] fresh unfolding mu by blast
  next
    case False
    then have "\<forall>x \<in> set xs. u_size ?h x < ?n" by auto
    note sn = search_none [OF ok n(1) this]
    from morecore_ok [OF ok n(1,2)] show ?thesis
    proof (elim disjE conjE exE)
      assume "u_max ?h < u_brk ?h + max 4096 ?n" "morecore ?n ?h = Some (0, ?h)"
      then show ?thesis using sn ready_heap [OF ok] sz e unfolding mu by (intro exI [of _ 0] exI [of _ ?h]) auto
    next
      fix h' ys
      assume m: "morecore ?n ?h = Some (u_freep h', h')" "heap_ok lo h' ys held" "\<exists>x \<in> set ys. ?n \<le> u_size h' x"
        "\<forall>a \<in> held. u_size h' a = u_size ?h a"
      from malloc_finds [OF m(2) n(1) m(3)] obtain a h'' where
        a: "malloc_loop ?n h' (u_freep h') (u_ptr h' (u_freep h')) = Some (a + 1, h'')" "a \<notin> held" "u_size h'' a = ?n"
          "ready lo h'' (insert a held)" "\<forall>b \<in> held. u_size h'' b = u_size h' b" by blast
      have "umalloc nbytes h = Some (a + 1, h'')" unfolding mu sn using m(1) heap_ok_distinct(2) [OF m(2)] a(1) by simp
      then show ?thesis using fresh [of a h''] a m(4) by simp
    qed
  qed
qed

text \<open>Free blocks never touch, so when nothing is held there is only one.\<close>

lemma single_block:
  assumes ok: "heap_ok lo h xs {}" and "lo < u_brk h"
  shows "xs = [lo] \<and> u_size h lo = u_brk h - lo"
proof -
  have so: "sorted_wrt (\<lambda>x y. x + u_size h x < y) xs" and ti: "tiles (u_size h) (set xs) {lo..<u_brk h}" using ok by (simp_all add: heap_ok_def)
  have U: "(\<Union>a \<in> set xs. span (u_size h) a) = {lo..<u_brk h}" using ti by (simp add: tiles_def)
  then obtain x ys where xs: "xs = x # ys" using assms(2) by (cases xs) auto
  have x: "lo \<le> x" "0 < u_size h x" "x + u_size h x \<le> u_brk h" using tiles_in [OF ti, of x] xs by (auto simp: span_def)
  have above: "x + u_size h x < y" if "y \<in> set ys" for y using so xs that by simp
  have "lo \<in> (\<Union>a \<in> set xs. span (u_size h) a)" using U assms(2) by simp
  then have lo: "lo = x" using xs x above by (fastforce simp: span_def)
  have "x + u_size h x = u_brk h"
  proof (rule ccontr)
    assume "x + u_size h x \<noteq> u_brk h"
    then have "x + u_size h x \<in> (\<Union>a \<in> set xs. span (u_size h) a)" using U x by simp
    then show False using xs above by (fastforce simp: span_def)
  qed
  moreover have "ys = []"
  proof (rule ccontr)
    assume "ys \<noteq> []"
    then obtain y where "y \<in> set ys" by (cases ys) auto
    then show False using above [of y] tiles_in [OF ti, of y] xs calculation by auto
  qed
  ultimately show ?thesis using xs lo by simp
qed

text \<open>C23: \<open>free\<close> of a block the program holds ends, takes back this block and no other, and keeps the heap in order; when the
  last one is given back, all memory the kernel gave is one free block again: nothing leaks and nothing stays in pieces.\<close>

theorem ufree_joins:
  assumes "ready lo h held" and "a \<in> held"
  shows "\<exists>h'. ufree (a + 1) h = Some h' \<and> ready lo h' (held - {a}) \<and> (\<forall>b \<in> held - {a}. u_size h' b = u_size h b) \<and>
    (held = {a} \<longrightarrow> u_ptr h' (u_base h') = lo \<and> u_ptr h' lo = u_base h' \<and> u_size h' lo = u_brk h - lo)"
proof -
  obtain xs where ok: "heap_ok lo h xs held" using assms by (auto simp: ready_def split: if_splits)
  obtain h' ys where h': "free_block a h = Some h'" "heap_ok lo h' ys (held - {a})" "\<And>b. b \<in> held - {a} \<Longrightarrow> u_size h' b = u_size h b"
    "\<exists>x \<in> set ys. span (u_size h) a \<subseteq> span (u_size h') x" "u_base h' = u_base h \<and> u_brk h' = u_brk h \<and> u_max h' = u_max h"
    by (rule free_block_ok [OF ok assms(2)]) (rule that)
  have "tiles (u_size h) (set xs \<union> held) {lo..<u_brk h}" using ok by (simp add: heap_ok_def)
  from tiles_in [OF this, of a] have "a \<in> {lo..<u_brk h}" using assms(2) by blast
  moreover have "u_brk h' = u_brk h" using h'(5) by blast
  ultimately have lt: "lo < u_brk h'" by simp
  have "u_ptr h' (u_base h') = lo \<and> u_ptr h' lo = u_base h' \<and> u_size h' lo = u_brk h - lo" if "held = {a}"
  proof -
    have o1: "heap_ok lo h' ys {}" using h'(2) that by simp
    from single_block [OF o1 lt] have "ys = [lo]" "u_size h' lo = u_brk h' - lo" by blast+
    moreover have "u_brk h' = u_brk h" using h'(5) by blast
    ultimately show ?thesis using o1 by (simp add: heap_ok_def)
  qed
  then show ?thesis using h'(1,3) ready_heap [OF h'(2)] by (intro exI [of _ h']) (simp add: ufree_def)
qed

section \<open>A heap\<close>

definition fresh_heap :: uheap where
  "fresh_heap = \<lparr>u_ptr = (\<lambda>_. 0), u_size = (\<lambda>_. 0), u_freep = 0, u_base = 5, u_brk = 1000, u_max = 100000\<rparr>"

lemma fresh_heap_ready: "ready 1000 fresh_heap {}"
  by (simp add: ready_def fresh_heap_def)

lemma umalloc_gives_fresh_block_witness: "\<exists>r h'. umalloc 100 fresh_heap = Some (r, h') \<and> r \<noteq> 0 \<and> 100 \<le> 8 * (u_size h' (r - 1) - 1)"
proof -
  have "units_of 100 = 14" "u_max fresh_heap = 100000" "u_brk fresh_heap = 1000" by (simp_all add: units_of_def fresh_heap_def)
  then show ?thesis using umalloc_gives_fresh_block [OF fresh_heap_ready, of 100] by auto
qed

definition one_block :: uheap where
  "one_block = \<lparr>u_ptr = (\<lambda>a. if a = 5 then 1000 else 5), u_size = (\<lambda>a. if a = 1000 then 4082 else if a = 5082 then 14 else 0),
     u_freep = 5, u_base = 5, u_brk = 5096, u_max = 100000\<rparr>"

lemma one_block_ready: "ready 1000 one_block {5082}"
proof (rule ready_heap)
  show "heap_ok 1000 one_block [1000] {5082}" by (auto simp: heap_ok_def one_block_def tiles_def span_def)
qed

lemma ufree_joins_witness: "\<exists>h'. ufree 5083 one_block = Some h' \<and> ready 1000 h' {} \<and> u_size h' 1000 = 4096"
proof -
  have "u_brk one_block = 5096" by (simp add: one_block_def)
  then show ?thesis using ufree_joins [OF one_block_ready, of 5082] by auto
qed

end
