(* ===== verification/Mkfs.thy ===== *)
theory Mkfs
  imports Fs_Dir Fs_Inodes
begin

text \<open>
  The program of the host that makes the disk image (\<open>mkfs.c\<close>). The image file is a sequence of sectors; a failed assertion
  and a call of \<open>exit(1)\<close> are the outcome \<open>Panic\<close>. On the disk all numbers are little-endian, which is what \<open>xint\<close> and
  \<open>xshort\<close> are for, so the model keeps their values.
\<close>

section \<open>The program\<close>

definition FSSIZE :: nat where "FSSIZE = 20000"
definition NINODES :: nat where "NINODES = 200"
definition nbitmap :: nat where "nbitmap = FSSIZE div (BSIZE * 8) + 1"
definition ninodeblocks :: nat where "ninodeblocks = NINODES div IPB + 1"
definition nmeta :: nat where "nmeta = 2 + LOGSIZE + ninodeblocks + nbitmap"

definition mk_sb :: superblock where
  "mk_sb = \<lparr>sb_size = FSSIZE, sb_nblocks = FSSIZE - nmeta, sb_ninodes = NINODES, sb_nlog = LOGSIZE, sb_logstart = 2,
     sb_inodestart = 2 + LOGSIZE, sb_bmapstart = 2 + LOGSIZE + ninodeblocks\<rparr>"

definition enc_superblock :: "superblock \<Rightarrow> byte list" where
  "enc_superblock sb = concat (map (le_enc 4) [sb_size sb, sb_nblocks sb, sb_ninodes sb, sb_nlog sb, sb_logstart sb,
     sb_inodestart sb, sb_bmapstart sb])"

text \<open>The image file with its length in sectors, and the two counters.\<close>

record image =
  im_disk :: "nat \<Rightarrow> byte list"
  im_len :: nat
  freeinode :: nat
  freeblock :: nat

definition wsect :: "nat \<Rightarrow> byte list \<Rightarrow> image \<Rightarrow> image" where
  "wsect sec b im = im\<lparr>im_disk := (im_disk im)(sec := b), im_len := max (im_len im) (Suc sec)\<rparr>"

definition rsect :: "nat \<Rightarrow> image \<Rightarrow> byte list outcome" where
  "rsect sec im = (if sec < im_len im then Ret (im_disk im sec) else Panic ''read'')"

definition winode :: "nat \<Rightarrow> dinode \<Rightarrow> image \<Rightarrow> image outcome" where
  "winode inum din im =
     (let bn = IBLOCK inum mk_sb in kbind (rsect bn im) (\<lambda>buf. Ret (wsect bn (set_dinode buf inum din) im)))"

definition rinode :: "nat \<Rightarrow> image \<Rightarrow> dinode outcome" where
  "rinode inum im = kbind (rsect (IBLOCK inum mk_sb) im) (\<lambda>buf. Ret (dinode_at buf inum))"

definition mk_ialloc :: "int \<Rightarrow> image \<Rightarrow> (nat \<times> image) outcome" where
  "mk_ialloc ty im =
     (let inum = freeinode im
      in kbind (winode inum (zero_dinode\<lparr>di_type := ty, di_nlink := 1\<rparr>) (im\<lparr>freeinode := inum + 1\<rparr>)) (\<lambda>im. Ret (inum, im)))"

text \<open>The block of file block \<open>fbn\<close>, made when there is none.\<close>

definition file_block :: "nat \<Rightarrow> dinode \<Rightarrow> image \<Rightarrow> (nat \<times> dinode \<times> image) outcome" where
  "file_block fbn din im =
     (if fbn < NDIRECT then
        if di_addrs din ! fbn = 0
        then Ret (freeblock im, din\<lparr>di_addrs := (di_addrs din)[fbn := freeblock im]\<rparr>, im\<lparr>freeblock := freeblock im + 1\<rparr>)
        else Ret (di_addrs din ! fbn, din, im)
      else
        let (din, im) = (if di_addrs din ! NDIRECT = 0
              then (din\<lparr>di_addrs := (di_addrs din)[NDIRECT := freeblock im]\<rparr>, im\<lparr>freeblock := freeblock im + 1\<rparr>)
              else (din, im));
            ib = di_addrs din ! NDIRECT; k = fbn - NDIRECT
        in kbind (rsect ib im) (\<lambda>indirect.
             if word_at indirect k = 0
             then Ret (freeblock im, din, wsect ib (set_word indirect k (freeblock im)) (im\<lparr>freeblock := freeblock im + 1\<rparr>))
             else Ret (word_at indirect k, din, im)))"

function append_loop :: "nat \<Rightarrow> byte list \<Rightarrow> dinode \<Rightarrow> image \<Rightarrow> (nat \<times> dinode \<times> image) outcome" where
  "append_loop off p din im =
     (if p = [] then Ret (off, din, im)
      else
        let fbn = off div BSIZE; n1 = min (length p) ((fbn + 1) * BSIZE - off)
        in if \<not> fbn < MAXFILE then Panic ''assert''
           else kbind (file_block fbn din im) (\<lambda>(x, din, im).
                kbind (rsect x im) (\<lambda>buf.
                append_loop (off + n1) (drop n1 p) din (wsect x (overwrite buf (off - fbn * BSIZE) (take n1 p)) im))))"
  by pat_completeness auto
termination
proof (relation "measure (\<lambda>(off, p, din, im). length p)", goal_cases)
  case (2 off p din im fbn n1)
  have "off < (off div BSIZE + 1) * BSIZE" by (simp add: BSIZE_def dividend_less_div_times)
  then have "0 < n1" using 2 by simp
  then show ?case using 2 by simp
qed simp

declare append_loop.simps [simp del]

definition iappend :: "nat \<Rightarrow> byte list \<Rightarrow> image \<Rightarrow> image outcome" where
  "iappend inum p im =
     kbind (rinode inum im) (\<lambda>din.
     kbind (append_loop (di_size din) p din im) (\<lambda>(off, din, im).
     winode inum (din\<lparr>di_size := off\<rparr>) im))"

definition mk_balloc :: "nat \<Rightarrow> image \<Rightarrow> image outcome" where
  "mk_balloc used im =
     (if \<not> used < BSIZE * 8 then Panic ''assert''
      else Ret (wsect (sb_bmapstart mk_sb) (foldl bitmap_set (replicate BSIZE 0) [0..<used]) im))"

text \<open>A file of the host: its name, and the pieces in which \<open>read\<close> gives its content if it can be opened.\<close>

type_synonym host_file = "byte list \<times> byte list list option"

definition disk_name :: "byte list \<Rightarrow> byte list" where
  "disk_name name = (if name \<noteq> [] \<and> hd name = 95 then tl name else name)"

definition add_file :: "nat \<Rightarrow> host_file \<Rightarrow> image \<Rightarrow> image outcome" where
  "add_file rootino f im =
     (if 47 \<in> set (fst f) then Panic ''assert''
      else case snd f of None \<Rightarrow> Panic ''open''
      | Some parts \<Rightarrow>
          kbind (mk_ialloc T_FILE im) (\<lambda>(inum, im).
          kbind (iappend rootino (mk_dirent inum (disk_name (fst f))) im) (kfor parts (iappend inum))))"

text \<open>The empty image: zeroes, and the superblock.\<close>

definition blank :: image where
  "blank = wsect 1 (overwrite (replicate BSIZE 0) 0 (enc_superblock mk_sb))
     (fold (\<lambda>i. wsect i (replicate BSIZE 0)) [0..<FSSIZE]
       \<lparr>im_disk = (\<lambda>_. replicate BSIZE 0), im_len = 0, freeinode = 1, freeblock = nmeta\<rparr>)"

definition fix_root :: "nat \<Rightarrow> image \<Rightarrow> image outcome" where
  "fix_root rootino im =
     kbind (rinode rootino im) (\<lambda>din. winode rootino (din\<lparr>di_size := (di_size din div BSIZE + 1) * BSIZE\<rparr>) im)"

definition mkfs :: "host_file list \<Rightarrow> image outcome" where
  "mkfs files =
     kbind (mk_ialloc T_DIR blank) (\<lambda>(rootino, im).
     if rootino \<noteq> ROOTINO then Panic ''assert''
     else
       kbind (iappend rootino (mk_dirent rootino [46]) im) (\<lambda>im.
       kbind (iappend rootino (mk_dirent rootino [46, 46]) im) (\<lambda>im.
       kbind (kfor files (add_file rootino) im) (\<lambda>im.
       kbind (fix_root rootino im) (\<lambda>im.
       mk_balloc (freeblock im) im)))))"

section \<open>One file\<close>

text \<open>The blocks of a file, the number of blocks that \<open>n\<close> bytes take, and the blocks the next byte takes.\<close>

definition own :: "(nat \<Rightarrow> byte list) \<Rightarrow> dinode \<Rightarrow> nat set" where
  "own d di = (addr_of d di ` {..<MAXFILE} \<union> {di_addrs di ! NDIRECT}) - {0}"

definition nblk :: "nat \<Rightarrow> nat" where
  "nblk n = (n + (BSIZE - 1)) div BSIZE + (if NDIRECT * BSIZE < n then 1 else 0)"

definition cost :: "nat \<Rightarrow> nat" where
  "cost n = (if n mod BSIZE \<noteq> 0 then 0 else if n div BSIZE = NDIRECT then 2 else 1)"

lemma nblk_step:
  assumes "n < m" and "m \<le> (n div BSIZE + 1) * BSIZE"
  shows "nblk m = nblk n + cost n"
proof -
  have "(m + 511) div 512 = n div 512 + 1"
  proof (rule div_nat_eqI)
    have "n div 512 * 512 \<le> n" by (rule div_times_less_eq_dividend)
    then show "512 * (n div 512 + 1) \<le> m + 511" using assms(1) by simp
    show "m + 511 < 512 * Suc (n div 512 + 1)" using assms(2) by (simp add: BSIZE_def)
  qed
  moreover have "(n + 511) div 512 = n div 512 + (if n mod 512 = 0 then 0 else 1)" using div_round_up [of 512 n] by simp
  moreover have "NDIRECT * BSIZE < m \<longleftrightarrow> NDIRECT * BSIZE < n \<or> n = NDIRECT * BSIZE"
  proof (cases "n < NDIRECT * BSIZE")
    case True
    then have "n div BSIZE + 1 \<le> NDIRECT" using less_mult_imp_div_less [OF True] by simp
    then have "m \<le> NDIRECT * BSIZE" using assms(2) mult_le_mono1 [of "n div BSIZE + 1" NDIRECT BSIZE] by linarith
    then show ?thesis using True by simp
  qed (use assms(1) in linarith)
  moreover have "n = NDIRECT * BSIZE \<longleftrightarrow> n mod BSIZE = 0 \<and> n div BSIZE = NDIRECT" by (auto simp: NDIRECT_def BSIZE_def)
  ultimately show ?thesis by (auto simp: nblk_def cost_def BSIZE_def)
qed

lemma nblk_mono: "n \<le> m \<Longrightarrow> nblk n \<le> nblk m"
  unfolding nblk_def by (intro add_mono div_le_mono) simp_all

definition img_ok :: "image \<Rightarrow> bool" where
  "img_ok im \<longleftrightarrow> (\<forall>a. length (im_disk im a) = BSIZE) \<and> im_len im = FSSIZE \<and> nmeta \<le> freeblock im \<and> freeblock im \<le> FSSIZE \<and>
     (\<forall>a \<ge> freeblock im. im_disk im a = replicate BSIZE 0)"

text \<open>The inode \<open>di\<close> has blocks for \<open>n\<close> bytes.\<close>

definition file_inv :: "image \<Rightarrow> dinode \<Rightarrow> nat \<Rightarrow> bool" where
  "file_inv im di n \<longleftrightarrow> dinode_wf di \<and> own (im_disk im) di \<subseteq> {nmeta..<freeblock im} \<and>
     (\<forall>k < MAXFILE. addr_of (im_disk im) di k \<noteq> 0 \<longleftrightarrow> k * BSIZE < n) \<and> (di_addrs di ! NDIRECT \<noteq> 0 \<longleftrightarrow> NDIRECT * BSIZE < n) \<and>
     (\<forall>k < MAXFILE. \<forall>l < MAXFILE. addr_of (im_disk im) di k = addr_of (im_disk im) di l \<longrightarrow> addr_of (im_disk im) di k \<noteq> 0 \<longrightarrow> k = l) \<and>
     (\<forall>k < MAXFILE. addr_of (im_disk im) di k \<noteq> 0 \<longrightarrow> addr_of (im_disk im) di k \<noteq> di_addrs di ! NDIRECT)"

text \<open>All the bytes an inode can have, zeroes where it has no blocks.\<close>

definition fcontent :: "image \<Rightarrow> dinode \<Rightarrow> byte list" where
  "fcontent im di = map (fbyte (im_disk im) di) [0..<MAXFILE * BSIZE]"

text \<open>A file depends on its own blocks only.\<close>

lemma own_cong:
  assumes "\<And>a. a \<in> own d di \<Longrightarrow> d' a = d a"
  shows "k < MAXFILE \<Longrightarrow> addr_of d' di k = addr_of d di k" "own d' di = own d di"
    "i < MAXFILE * BSIZE \<Longrightarrow> fbyte d' di i = fbyte d di i"
proof -
  have "di_addrs di ! NDIRECT \<noteq> 0 \<Longrightarrow> d' (di_addrs di ! NDIRECT) = d (di_addrs di ! NDIRECT)" using assms by (simp add: own_def)
  then have a: "addr_of d' di k = addr_of d di k" for k by (simp add: addr_of_def)
  then show "k < MAXFILE \<Longrightarrow> addr_of d' di k = addr_of d di k" "own d' di = own d di" by (simp_all add: own_def)
  assume "i < MAXFILE * BSIZE"
  then have "i div BSIZE < MAXFILE" by (simp add: less_mult_imp_div_less)
  then have "addr_of d di (i div BSIZE) \<noteq> 0 \<Longrightarrow> d' (addr_of d di (i div BSIZE)) = d (addr_of d di (i div BSIZE))"
    using assms by (simp add: own_def)
  then show "fbyte d' di i = fbyte d di i" by (simp add: fbyte_def fblock_def a)
qed

lemma image_simps [simp]:
  "im_disk (wsect a b im) = (im_disk im)(a := b)" "freeblock (wsect a b im) = freeblock im" "freeinode (wsect a b im) = freeinode im"
  "a < im_len im \<Longrightarrow> im_len (wsect a b im) = im_len im"
  by (simp_all add: wsect_def)

lemma dinode_wf_set: "dinode_wf di \<Longrightarrow> a < 4294967296 \<Longrightarrow> dinode_wf (di\<lparr>di_addrs := (di_addrs di)[i := a]\<rparr>)"
  using set_update_subset_insert [of "di_addrs di" i a] by (auto simp: dinode_wf_def)

text \<open>What \<open>file_block\<close> does for the file block of the next byte, \<open>n\<close>.\<close>

lemma file_block_ok:
  assumes im: "img_ok im" and fi: "file_inv im di n" and k: "n div BSIZE < MAXFILE" and room: "freeblock im + cost n \<le> FSSIZE"
  obtains x di' im' where "file_block (n div BSIZE) di im = Ret (x, di', im')"
    "di' = di\<lparr>di_addrs := di_addrs di'\<rparr>" "dinode_wf di'" "img_ok im'" "freeinode im' = freeinode im"
    "freeblock im' = freeblock im + cost n"
    "\<And>j. j < MAXFILE \<Longrightarrow> addr_of (im_disk im') di' j = (if j = n div BSIZE then x else addr_of (im_disk im) di j)"
    "di_addrs di' ! NDIRECT = (if cost n = 2 then freeblock im else di_addrs di ! NDIRECT)"
    "x = (if cost n = 0 then addr_of (im_disk im) di (n div BSIZE) else freeblock im' - 1)"
    "\<And>a. a \<noteq> di_addrs di' ! NDIRECT \<or> a = 0 \<Longrightarrow> im_disk im' a = im_disk im a"
    "im_disk im' x = im_disk im x"
proof -
  let ?k = "n div BSIZE" and ?ib = "di_addrs di ! NDIRECT" and ?fb = "freeblock im"
  have wf: "dinode_wf di" "length (di_addrs di) = NDIRECT + 1" using fi by (simp_all add: file_inv_def dinode_wf_def)
  have ow: "own (im_disk im) di \<subseteq> {nmeta..<?fb}" using fi by (simp add: file_inv_def)
  have ad: "addr_of (im_disk im) di ?k \<noteq> 0 \<longleftrightarrow> n mod BSIZE \<noteq> 0"
  proof -
    have "?k * BSIZE < n \<longleftrightarrow> n mod BSIZE \<noteq> 0" by (metis div_mult_mod_eq less_add_same_cancel1 neq0_conv)
    then show ?thesis using fi k by (simp add: file_inv_def)
  qed
  have ib: "?ib \<noteq> 0 \<longleftrightarrow> NDIRECT * BSIZE < n" using fi by (simp add: file_inv_def)
  have ibown: "?ib \<in> {nmeta..<?fb}" if "?ib \<noteq> 0" using ow that by (auto simp: own_def)
  have fb: "?fb \<le> FSSIZE" "nmeta \<le> ?fb" "im_len im = FSSIZE" "\<And>a. length (im_disk im a) = BSIZE" "im_disk im ?fb = replicate BSIZE 0"
    using im by (simp_all add: img_ok_def)
  have fb32: "a \<le> FSSIZE \<Longrightarrow> a < 4294967296" for a by (simp add: FSSIZE_def)
  have wd: "word_at (set_word b j v) l = (if l = j then v else word_at b l)"
    if "length b = BSIZE" "j < NINDIRECT" "l < NINDIRECT" "v < 4294967296" for b j l v
    using word_at_set_word [of j b l v] that by (auto simp: BSIZE_def NINDIRECT_def)
  have M: "j < MAXFILE \<Longrightarrow> j - NDIRECT < NINDIRECT" for j by (simp add: MAXFILE_def NDIRECT_def NINDIRECT_def)
  show ?thesis
  proof (cases "n mod BSIZE = 0")
    case False
    then have c: "cost n = 0" by (simp add: cost_def)
    have nz: "addr_of (im_disk im) di ?k \<noteq> 0" using ad False by simp
    have "?ib \<noteq> 0 \<and> ?ib < im_len im" if "\<not> ?k < NDIRECT"
    proof -
      have "?ib \<noteq> 0" using nz that by (auto simp: addr_of_def split: if_splits)
      then show ?thesis using ibown fb by fastforce
    qed
    then have "file_block ?k di im = Ret (addr_of (im_disk im) di ?k, di, im)"
      using nz by (auto simp: file_block_def addr_of_def rsect_def Let_def split: if_splits)
    then show ?thesis using c im wf by (intro that [of "addr_of (im_disk im) di ?k" di im]) auto
  next
    case True
    then have z: "addr_of (im_disk im) di ?k = 0" using ad by simp
    consider "?k < NDIRECT" | "NDIRECT < ?k" | "?k = NDIRECT" by linarith
    then show ?thesis
    proof cases
      case 1
      then have c: "cost n = 1" using True by (simp add: cost_def)
      let ?di = "di\<lparr>di_addrs := (di_addrs di)[?k := ?fb]\<rparr>" and ?im = "im\<lparr>freeblock := ?fb + 1\<rparr>"
      have "file_block ?k di im = Ret (?fb, ?di, ?im)" using 1 z by (simp add: file_block_def addr_of_def)
      moreover have "addr_of (im_disk ?im) ?di j = (if j = ?k then ?fb else addr_of (im_disk im) di j)" for j
        using 1 wf(2) by (auto simp: addr_of_def)
      moreover have "img_ok ?im" using im room c by (auto simp: img_ok_def)
      ultimately show ?thesis using c 1 wf dinode_wf_set [OF wf(1) fb32 [OF fb(1)]] by (intro that [of ?fb ?di ?im]) auto
    next
      case 2
      then have c: "cost n = 1" using True by (simp add: cost_def)
      have "(NDIRECT + 1) * BSIZE \<le> n" using 2 by (metis Suc_eq_plus1 Suc_leI div_times_less_eq_dividend mult_le_mono1 order_trans)
      then have i: "?ib \<noteq> 0" "?ib < im_len im" "?ib < ?fb" using ib ibown fb by (fastforce simp: BSIZE_def)+
      let ?j = "?k - NDIRECT"
      let ?im = "wsect ?ib (set_word (im_disk im ?ib) ?j ?fb) (im\<lparr>freeblock := ?fb + 1\<rparr>)"
      have z0: "word_at (im_disk im ?ib) ?j = 0" using z 2 i by (simp add: addr_of_def)
      then have "file_block ?k di im = Ret (?fb, di, ?im)" using 2 i by (simp add: file_block_def rsect_def Let_def)
      moreover have "addr_of (im_disk ?im) di j = (if j = ?k then ?fb else addr_of (im_disk im) di j)" if "j < MAXFILE" for j
      proof (cases "j < NDIRECT")
        case False
        then have "j = ?k \<longleftrightarrow> j - NDIRECT = ?j" using 2 by linarith
        then show ?thesis using False i wd [OF fb(4) M [OF k] M [OF that] fb32 [OF fb(1)]] by (simp add: addr_of_def)
      qed (use 2 in \<open>simp add: addr_of_def\<close>)
      moreover have "img_ok ?im" using im room c i M [OF k] by (auto simp: img_ok_def NINDIRECT_def BSIZE_def)
      ultimately show ?thesis using c i wf by (intro that [of ?fb di ?im]) auto
    next
      case 3
      then have c: "cost n = 2" using True by (simp add: cost_def)
      have i: "?ib = 0" using ib True 3 by (metis div_mult_mod_eq add_0_right less_irrefl)
      let ?di = "di\<lparr>di_addrs := (di_addrs di)[NDIRECT := ?fb]\<rparr>"
      let ?im = "wsect ?fb (set_word (im_disk im ?fb) 0 (?fb + 1)) (im\<lparr>freeblock := ?fb + 2\<rparr>)"
      have z0: "word_at (im_disk im ?fb) j = 0" if "j < NINDIRECT" for j
        unfolding fb(5) by (rule word_at_zeros) (use that in \<open>simp add: NINDIRECT_def BSIZE_def\<close>)
      have l: "?fb < im_len im" "?fb \<noteq> 0" using room c fb by (simp_all add: nmeta_def)
      have a: "di_addrs ?di ! NDIRECT = ?fb" using wf(2) by simp
      have "file_block ?k di im = Ret (?fb + 1, ?di, ?im)"
        using 3 i l a z0 [of 0] by (simp add: file_block_def rsect_def Let_def NINDIRECT_def)
      moreover have "addr_of (im_disk ?im) ?di j = (if j = ?k then ?fb + 1 else addr_of (im_disk im) di j)" if "j < MAXFILE" for j
      proof (cases "j < NDIRECT")
        case False
        have "?fb + 1 < 4294967296" using room c fb32 [of "?fb + 1"] by simp
        moreover have "j = ?k \<longleftrightarrow> j - NDIRECT = 0" using False 3 by linarith
        ultimately show ?thesis using False l i a wd [OF fb(4) _ M [OF that], of 0 "?fb + 1" ?fb] z0 [OF M [OF that]]
          by (simp add: addr_of_def NINDIRECT_def)
      qed (use 3 in \<open>simp add: addr_of_def\<close>)
      moreover have "img_ok ?im" using im room c l by (auto simp: img_ok_def BSIZE_def)
      ultimately show ?thesis using c a wf dinode_wf_set [OF wf(1) fb32 [OF fb(1)]] l
        by (intro that [of "?fb + 1" ?di ?im]) auto
    qed
  qed
qed

lemma cost_cases: "cost n = 0 \<or> cost n = 1 \<or> cost n = 2"
  by (simp add: cost_def)

lemma file_invD:
  assumes "file_inv im di n" and "j < MAXFILE"
  shows "addr_of (im_disk im) di j \<noteq> 0 \<longleftrightarrow> j * BSIZE < n"
    "addr_of (im_disk im) di j \<noteq> 0 \<Longrightarrow> addr_of (im_disk im) di j \<in> own (im_disk im) di \<and> addr_of (im_disk im) di j < freeblock im \<and>
       addr_of (im_disk im) di j \<noteq> di_addrs di ! NDIRECT"
    "l < MAXFILE \<Longrightarrow> addr_of (im_disk im) di j = addr_of (im_disk im) di l \<Longrightarrow> addr_of (im_disk im) di j \<noteq> 0 \<Longrightarrow> j = l"
proof -
  let ?a = "addr_of (im_disk im) di j"
  show "?a \<noteq> 0 \<longleftrightarrow> j * BSIZE < n"
    "l < MAXFILE \<Longrightarrow> ?a = addr_of (im_disk im) di l \<Longrightarrow> ?a \<noteq> 0 \<Longrightarrow> j = l" using assms by (auto simp: file_inv_def)
  assume nz: "?a \<noteq> 0"
  then have "?a \<in> own (im_disk im) di" using assms(2) by (simp add: own_def)
  moreover have "own (im_disk im) di \<subseteq> {nmeta..<freeblock im}" "?a \<noteq> di_addrs di ! NDIRECT" using assms nz by (simp_all add: file_inv_def)
  ultimately show "?a \<in> own (im_disk im) di \<and> ?a < freeblock im \<and> ?a \<noteq> di_addrs di ! NDIRECT" by auto
qed

lemma block_of: "0 < cost n \<Longrightarrow> n = n div BSIZE * BSIZE" "cost n = 0 \<longleftrightarrow> n div BSIZE * BSIZE < n"
proof -
  have "n div BSIZE * BSIZE + n mod BSIZE = n" by (rule div_mult_mod_eq)
  then have "n = n div BSIZE * BSIZE \<longleftrightarrow> n mod BSIZE = 0" "n div BSIZE * BSIZE < n \<longleftrightarrow> n mod BSIZE \<noteq> 0" by linarith+
  then show "0 < cost n \<Longrightarrow> n = n div BSIZE * BSIZE" "cost n = 0 \<longleftrightarrow> n div BSIZE * BSIZE < n" by (auto simp: cost_def split: if_splits)
qed

text \<open>The addresses of a file after \<open>file_block\<close> and a write to the block it gives.\<close>

lemma new_addrs:
  assumes im: "img_ok im" and fi: "file_inv im di n" and k: "n div BSIZE < MAXFILE"
    and di': "di' = di\<lparr>di_addrs := di_addrs di'\<rparr>" "dinode_wf di'" and fb: "freeblock im' = freeblock im + cost n"
    and A': "\<And>j. j < MAXFILE \<Longrightarrow> addr_of (im_disk im') di' j = (if j = n div BSIZE then x else addr_of (im_disk im) di j)"
    and ib: "di_addrs di' ! NDIRECT = (if cost n = 2 then freeblock im else di_addrs di ! NDIRECT)"
    and x: "x = (if cost n = 0 then addr_of (im_disk im) di (n div BSIZE) else freeblock im' - 1)"
    and m: "n < m" "m \<le> (n div BSIZE + 1) * BSIZE"
  shows "x \<noteq> di_addrs di' ! NDIRECT" "x \<noteq> 0" "x < freeblock im'" "x \<in> own (im_disk im) di \<or> freeblock im \<le> x"
    "own (im_disk im') di' = own (im_disk im) di \<union> {freeblock im..<freeblock im'}" "file_inv im' di' m"
proof -
  let ?k = "n div BSIZE" and ?A = "addr_of (im_disk im) di" and ?ib = "di_addrs di ! NDIRECT" and ?fb = "freeblock im"
  have wf: "dinode_wf di" and ow: "own (im_disk im) di \<subseteq> {nmeta..<?fb}" and ib0: "?ib \<noteq> 0 \<longleftrightarrow> NDIRECT * BSIZE < n"
    using fi by (simp_all add: file_inv_def)
  have fb0: "0 < ?fb" "nmeta \<le> ?fb" using im by (simp_all add: img_ok_def nmeta_def)
  have ibl: "?ib < ?fb" using ow fb0 by (cases "?ib = 0") (auto simp: own_def)
  have Ak: "?A ?k = 0 \<longleftrightarrow> 0 < cost n" using file_invD(1) [OF fi k] block_of [of n] by auto
  have x0: "cost n = 0 \<Longrightarrow> x \<noteq> 0 \<and> x \<in> own (im_disk im) di \<and> x < ?fb \<and> x \<noteq> ?ib" using file_invD(2) [OF fi k] Ak x by simp
  have x1: "cost n \<noteq> 0 \<Longrightarrow> ?fb \<le> x \<and> x < freeblock im' \<and> (cost n = 1 \<longrightarrow> x = ?fb) \<and> (cost n = 2 \<longrightarrow> x = ?fb + 1)" using x fb by auto
  show xi: "x \<noteq> di_addrs di' ! NDIRECT" using x0 x1 ib ibl cost_cases [of n] by auto
  show xz: "x \<noteq> 0" "x < freeblock im'" "x \<in> own (im_disk im) di \<or> ?fb \<le> x" using x0 x1 fb fb0 by (cases "cost n = 0"; auto)+
  have img: "addr_of (im_disk im') di' ` {..<MAXFILE} = insert x (?A ` ({..<MAXFILE} - {?k}))"
  proof -
    have "addr_of (im_disk im') di' ` {..<MAXFILE} = (\<lambda>j. if j = ?k then x else ?A j) ` {..<MAXFILE}" using A' by simp
    also have "\<dots> = insert x (?A ` ({..<MAXFILE} - {?k}))" using k by auto
    finally show ?thesis .
  qed
  have img0: "?A ` {..<MAXFILE} = insert (?A ?k) (?A ` ({..<MAXFILE} - {?k}))" using k by auto
  have c2: "cost n = 2 \<Longrightarrow> ?ib = 0" using ib0 block_of(1) [of n] by (auto simp: cost_def split: if_splits)
  have rng: "cost n = 0 \<Longrightarrow> {?fb..<freeblock im'} = {}" "cost n = 1 \<Longrightarrow> {?fb..<freeblock im'} = {?fb}"
    "cost n = 2 \<Longrightarrow> {?fb..<freeblock im'} = {?fb, ?fb + 1}" using fb by auto
  show ow': "own (im_disk im') di' = own (im_disk im) di \<union> {?fb..<freeblock im'}"
  proof -
    define R where "R = ?A ` ({..<MAXFILE} - {?k})"
    have o: "own (im_disk im) di = (insert (?A ?k) R \<union> {?ib}) - {0}" "own (im_disk im') di' = (insert x R \<union> {di_addrs di' ! NDIRECT}) - {0}"
      unfolding own_def img img0 R_def by simp_all
    consider "cost n = 0" | "cost n = 1" | "cost n = 2" using cost_cases [of n] by argo
    then show ?thesis
    proof cases
      case 1
      then have "x = ?A ?k" "di_addrs di' ! NDIRECT = ?ib" using x ib by simp_all
      then show ?thesis unfolding o rng(1) [OF 1] by simp
    next
      case 2
      then have "x = ?fb" "di_addrs di' ! NDIRECT = ?ib" "?A ?k = 0" using x1 ib Ak by simp_all
      then show ?thesis unfolding o rng(2) [OF 2] using fb0 by auto
    next
      case 3
      then have "x = ?fb + 1" "di_addrs di' ! NDIRECT = ?fb" "?A ?k = 0" "?ib = 0" using x1 ib Ak c2 by simp_all
      then show ?thesis unfolding o rng(3) [OF 3] using fb0 by auto
    qed
  qed
  have "addr_of (im_disk im') di' j \<noteq> 0 \<longleftrightarrow> j * BSIZE < m" if "j < MAXFILE" for j
  proof (cases "j = ?k")
    case True
    have "?k * BSIZE < m" using m(1) by (metis div_times_less_eq_dividend le_less_trans)
    then show ?thesis using A' [OF that] True xz by simp
  next
    case False
    have "j * BSIZE < n \<longleftrightarrow> j * BSIZE < m"
    proof (cases "j < ?k")
      case True
      then have "j * BSIZE < ?k * BSIZE" by (simp add: BSIZE_def)
      then show ?thesis using m(1) by (metis div_times_less_eq_dividend less_le_trans less_trans)
    next
      case f: False
      then have "(?k + 1) * BSIZE \<le> j * BSIZE" using False by (intro mult_le_mono1) simp
      then show ?thesis using m by linarith
    qed
    then show ?thesis using A' [OF that] False file_invD(1) [OF fi that] by simp
  qed
  moreover have "di_addrs di' ! NDIRECT \<noteq> 0 \<longleftrightarrow> NDIRECT * BSIZE < m"
  proof -
    have "cost n = 2 \<Longrightarrow> NDIRECT * BSIZE < m" using block_of(1) [of n] m(1) by (simp add: cost_def split: if_splits)
    moreover have "NDIRECT * BSIZE < n \<longleftrightarrow> NDIRECT * BSIZE < m" if "cost n \<noteq> 2"
    proof (cases "n < NDIRECT * BSIZE")
      case True
      then have "m \<le> NDIRECT * BSIZE" using m(2) mult_le_mono1 [of "?k + 1" NDIRECT BSIZE] less_mult_imp_div_less [OF True] by linarith
      then show ?thesis using True by simp
    next
      case False
      have "n \<noteq> NDIRECT * BSIZE" using that by (auto simp: cost_def BSIZE_def)
      then show ?thesis using False m(1) by simp
    qed
    ultimately show ?thesis using ib ib0 fb0 by auto
  qed
  moreover have "j = l" if "j < MAXFILE" "l < MAXFILE" "addr_of (im_disk im') di' j = addr_of (im_disk im') di' l"
    "addr_of (im_disk im') di' j \<noteq> 0" for j l
  proof -
    have ne: "?A i \<noteq> x" if "i < MAXFILE" "i \<noteq> ?k" for i
    proof
      assume e: "?A i = x"
      then have "x < ?fb" using file_invD(2) [OF fi that(1)] xz(1) by simp
      then have "x = ?A ?k" using x1 x by (cases "cost n = 0") auto
      then show False using file_invD(3) [OF fi that(1) k] e xz(1) that(2) by simp
    qed
    show ?thesis using that A' ne file_invD(3) [OF fi that(1,2)] by (auto split: if_splits)
  qed
  moreover have "addr_of (im_disk im') di' j \<noteq> di_addrs di' ! NDIRECT" if "j < MAXFILE" "addr_of (im_disk im') di' j \<noteq> 0" for j
    using that A' xi file_invD(2) [OF fi that(1)] ib by (auto split: if_splits)
  moreover have "own (im_disk im') di' \<subseteq> {nmeta..<freeblock im'}"
  proof -
    have "{nmeta..<?fb} \<subseteq> {nmeta..<freeblock im'}" "{?fb..<freeblock im'} \<subseteq> {nmeta..<freeblock im'}" using fb fb0 by auto
    then show ?thesis unfolding ow' using ow by blast
  qed
  ultimately show "file_inv im' di' m" using di'(2) unfolding file_inv_def by blast
qed

text \<open>The bytes of the file when \<open>q\<close> is written to its block \<open>x\<close> from the offset of \<open>n\<close> on.\<close>

lemma round_bytes:
  assumes im: "img_ok im" and fi: "file_inv im di n" and k: "n div BSIZE < MAXFILE"
    and A': "\<And>j. j < MAXFILE \<Longrightarrow> addr_of d' di' j = (if j = n div BSIZE then x else addr_of (im_disk im) di j)"
    and x: "cost n = 0 \<Longrightarrow> x = addr_of (im_disk im) di (n div BSIZE)" "cost n \<noteq> 0 \<Longrightarrow> freeblock im \<le> x" and x0: "x \<noteq> 0"
    and d: "d' x = overwrite (im_disk im x) (n mod BSIZE) q" and fit: "n mod BSIZE + length q \<le> BSIZE"
    and keep: "\<And>a. a < freeblock im \<Longrightarrow> a \<noteq> di_addrs di ! NDIRECT \<Longrightarrow> a \<noteq> x \<Longrightarrow> d' a = im_disk im a"
    and i: "i < MAXFILE * BSIZE"
  shows "fbyte d' di' i = (if n \<le> i \<and> i < n + length q then q ! (i - n) else fbyte (im_disk im) di i)"
proof -
  let ?j = "i div BSIZE" and ?k = "n div BSIZE"
  have jm: "?j < MAXFILE" using i by (rule less_mult_imp_div_less)
  have lx: "length (im_disk im x) = BSIZE" using im by (simp add: img_ok_def)
  show ?thesis
  proof (cases "?j = ?k")
    case True
    have "?k * BSIZE + i mod BSIZE = i" using div_mult_mod_eq [of i BSIZE] True by simp
    then have in_iff: "n mod BSIZE \<le> i mod BSIZE \<longleftrightarrow> n \<le> i" "i mod BSIZE < n mod BSIZE + length q \<longleftrightarrow> i < n + length q"
      "i mod BSIZE - n mod BSIZE = i - n" using div_mult_mod_eq [of n BSIZE] by linarith+
    have "fbyte d' di' i = d' x ! (i mod BSIZE)" using True A' [OF jm] x0 by (simp add: fbyte_def fblock_def)
    also have "\<dots> = (if n \<le> i \<and> i < n + length q then q ! (i - n) else im_disk im x ! (i mod BSIZE))"
    proof -
      have "i mod BSIZE < length (im_disk im x)" unfolding lx by (simp add: BSIZE_def)
      then show ?thesis using nth_overwrite [of "n mod BSIZE" q "im_disk im x" "i mod BSIZE"] fit lx by (simp add: d in_iff)
    qed
    also have "im_disk im x ! (i mod BSIZE) = fbyte (im_disk im) di i"
    proof (cases "cost n = 0")
      case True
      then show ?thesis using x(1) \<open>?j = ?k\<close> x0 by (simp add: fbyte_def fblock_def)
    next
      case False
      then have "im_disk im x = replicate BSIZE 0" using im x(2) by (simp add: img_ok_def)
      moreover have "addr_of (im_disk im) di ?j = 0" using file_invD(1) [OF fi k] block_of(2) [of n] False \<open>?j = ?k\<close> by simp
      ultimately show ?thesis by (simp add: fbyte_def fblock_def)
    qed
    finally show ?thesis .
  next
    case False
    have "fbyte d' di' i = fbyte (im_disk im) di i"
    proof (cases "addr_of (im_disk im) di ?j = 0")
      case nz: False
      note o = file_invD(2) [OF fi jm nz]
      have "addr_of (im_disk im) di ?j \<noteq> x" using file_invD(3) [OF fi jm k _ nz] False o x by (cases "cost n = 0") auto
      then show ?thesis using nz False A' [OF jm] o keep by (simp add: fbyte_def fblock_def)
    qed (use A' [OF jm] False in \<open>simp add: fbyte_def fblock_def\<close>)
    moreover have "\<not> (n \<le> i \<and> i < n + length q)"
    proof
      assume r: "n \<le> i \<and> i < n + length q"
      then have "i < ?k * BSIZE + BSIZE" using fit div_mult_mod_eq [of n BSIZE] by linarith
      then have "i < (?k + 1) * BSIZE" by simp
      then have "?j < ?k + 1" by (rule less_mult_imp_div_less)
      moreover have "?k \<le> ?j" using r by (simp add: div_le_mono)
      ultimately show False using False by simp
    qed
    ultimately show ?thesis by auto
  qed
qed

text \<open>One round of the loop of \<open>iappend\<close>.\<close>

lemma append_round:
  assumes im: "img_ok im" and fi: "file_inv im di n" and p: "p \<noteq> []" and fits: "n + length p \<le> MAXFILE * BSIZE"
    and room: "freeblock im + cost n \<le> FSSIZE" and n1: "n1 = min (length p) ((n div BSIZE + 1) * BSIZE - n)"
  obtains di' im' where "append_loop n p di im = append_loop (n + n1) (drop n1 p) di' im'"
    "di' = di\<lparr>di_addrs := di_addrs di'\<rparr>" "img_ok im'" "freeinode im' = freeinode im" "freeblock im' = freeblock im + cost n"
    "file_inv im' di' (n + n1)" "own (im_disk im') di' = own (im_disk im) di \<union> {freeblock im..<freeblock im'}"
    "\<And>a. a \<notin> own (im_disk im) di \<Longrightarrow> a < freeblock im \<Longrightarrow> im_disk im' a = im_disk im a"
    "fcontent im' di' = overwrite (fcontent im di) n (take n1 p)"
proof -
  let ?k = "n div BSIZE"
  have "n < (?k + 1) * BSIZE" by (simp add: BSIZE_def dividend_less_div_times)
  then have n1p: "0 < n1" "n1 \<le> length p" "n + n1 \<le> (?k + 1) * BSIZE" using n1 p by auto
  have "n < MAXFILE * BSIZE" using fits p by (cases p) simp_all
  then have k: "?k < MAXFILE" by (rule less_mult_imp_div_less)
  from file_block_ok [OF im fi k room] obtain x di' im1 where b: "file_block ?k di im = Ret (x, di', im1)"
    "di' = di\<lparr>di_addrs := di_addrs di'\<rparr>" "dinode_wf di'" "img_ok im1" "freeinode im1 = freeinode im"
    "freeblock im1 = freeblock im + cost n"
    and A': "\<And>j. j < MAXFILE \<Longrightarrow> addr_of (im_disk im1) di' j = (if j = ?k then x else addr_of (im_disk im) di j)"
    and ib: "di_addrs di' ! NDIRECT = (if cost n = 2 then freeblock im else di_addrs di ! NDIRECT)"
    and x: "x = (if cost n = 0 then addr_of (im_disk im) di ?k else freeblock im1 - 1)"
    and d: "\<And>a. a \<noteq> di_addrs di' ! NDIRECT \<or> a = 0 \<Longrightarrow> im_disk im1 a = im_disk im a" "im_disk im1 x = im_disk im x" by blast
  have m: "n < n + n1" using n1p by simp
  note na = new_addrs [OF im fi k b(2,3,6) A' ib x m n1p(3)]
  define v where "v = overwrite (im_disk im1 x) (n - ?k * BSIZE) (take n1 p)"
  define im' where "im' = wsect x v im1"
  have xl: "x < im_len im1" using na(3) b(4) by (simp add: img_ok_def)
  have off: "n - ?k * BSIZE = n mod BSIZE" by (simp add: minus_div_mult_eq_mod)
  have fit: "n mod BSIZE + n1 \<le> BSIZE"
  proof -
    have "n + n1 \<le> ?k * BSIZE + BSIZE" using n1p(3) by simp
    then show ?thesis using div_mult_mod_eq [of n BSIZE] by linarith
  qed
  have lx: "length (im_disk im1 x) = BSIZE" using b(4) by (simp add: img_ok_def)
  have lv: "length v = BSIZE" using fit n1p(2) lx by (simp add: v_def off)
  have run: "append_loop n p di im = append_loop (n + n1) (drop n1 p) di' im'"
    using p k b(1) xl by (subst append_loop.simps) (simp add: Let_def n1 rsect_def im'_def v_def)
  have D: "im_disk im' = (im_disk im1)(x := v)" "freeblock im' = freeblock im1" "freeinode im' = freeinode im1" "im_len im' = im_len im1"
    using xl by (simp_all add: im'_def)
  have ad: "addr_of (im_disk im') di' j = addr_of (im_disk im1) di' j" for j using na(1) by (auto simp: addr_of_def D)
  have ow: "own (im_disk im') di' = own (im_disk im1) di'" by (simp add: own_def ad)
  have "img_ok im'" using b(4) lv na(3) by (auto simp: img_ok_def D)
  moreover have "file_inv im' di' (n + n1)" using na(6) unfolding file_inv_def ad ow D(2) .
  moreover have "im_disk im' a = im_disk im a" if a: "a \<notin> own (im_disk im) di" "a < freeblock im" for a
  proof (cases "a = di_addrs di' ! NDIRECT")
    case True
    then have "a = di_addrs di ! NDIRECT" using ib a(2) by (simp split: if_splits)
    then have "a = 0" using a(1) by (auto simp: own_def)
    then show ?thesis using d(1) na(2) D by simp
  qed (use a na(4) d D in auto)
  moreover have "fcontent im' di' = overwrite (fcontent im di) n (take n1 p)"
  proof (rule nth_equalityI)
    have lc: "length (fcontent im d) = MAXFILE * BSIZE" for im d by (simp add: fcontent_def)
    have fl: "n + length (take n1 p) \<le> length (fcontent im di)" unfolding lc using fits by simp
    then show "length (fcontent im' di') = length (overwrite (fcontent im di) n (take n1 p))" by (simp add: lc)
    fix i assume "i < length (fcontent im' di')"
    then have i: "i < MAXFILE * BSIZE" by (simp add: lc)
    have "fbyte (im_disk im') di' i =
        (if n \<le> i \<and> i < n + length (take n1 p) then take n1 p ! (i - n) else fbyte (im_disk im) di i)"
    proof (rule round_bytes [OF im fi k _ _ _ na(2) _ _ _ i])
      show "addr_of (im_disk im') di' j = (if j = ?k then x else addr_of (im_disk im) di j)" if "j < MAXFILE" for j
        using A' [OF that] ad by simp
      show "cost n = 0 \<Longrightarrow> x = addr_of (im_disk im) di ?k" "cost n \<noteq> 0 \<Longrightarrow> freeblock im \<le> x" using x b(6) by simp_all
      show "im_disk im' x = overwrite (im_disk im x) (n mod BSIZE) (take n1 p)" using D(1) d(2) off by (simp add: v_def)
      show "n mod BSIZE + length (take n1 p) \<le> BSIZE" using fit n1p(2) by simp
      show "im_disk im' a = im_disk im a" if "a < freeblock im" "a \<noteq> di_addrs di ! NDIRECT" "a \<noteq> x" for a
        using that ib d(1) D(1) by simp
    qed
    then show "fcontent im' di' ! i = overwrite (fcontent im di) n (take n1 p) ! i"
      using i n1p(2) nth_overwrite [OF fl, of i] by (simp add: lc) (auto simp: fcontent_def)
  qed
  ultimately show ?thesis using that [OF run b(2)] b(5,6) na(5) ow D by simp
qed

lemma overwrite_pieces:
  "n + length p \<le> length c \<Longrightarrow> k \<le> length p \<Longrightarrow> overwrite (overwrite c n (take k p)) (n + k) (drop k p) = overwrite c n p"
  by (rule nth_equalityI) (auto simp: nth_overwrite)

lemma append_loop_ok:
  assumes "img_ok im" and "file_inv im di n" and "n + length p \<le> MAXFILE * BSIZE"
    and "freeblock im + nblk (n + length p) \<le> FSSIZE + nblk n"
  shows "\<exists>di' im'. append_loop n p di im = Ret (n + length p, di', im') \<and> di' = di\<lparr>di_addrs := di_addrs di'\<rparr> \<and> img_ok im' \<and>
    freeinode im' = freeinode im \<and> freeblock im' + nblk n = freeblock im + nblk (n + length p) \<and> file_inv im' di' (n + length p) \<and>
    own (im_disk im') di' = own (im_disk im) di \<union> {freeblock im..<freeblock im'} \<and>
    (\<forall>a. a \<notin> own (im_disk im) di \<longrightarrow> a < freeblock im \<longrightarrow> im_disk im' a = im_disk im a) \<and>
    fcontent im' di' = overwrite (fcontent im di) n p"
  using assms
proof (induction p arbitrary: n di im rule: length_induct)
  case (1 p)
  show ?case
  proof (cases "p = []")
    case True
    then show ?thesis using 1(2,3) by (subst append_loop.simps) auto
  next
    case False
    define n1 where "n1 = min (length p) ((n div BSIZE + 1) * BSIZE - n)"
    have "n < (n div BSIZE + 1) * BSIZE" by (simp add: BSIZE_def dividend_less_div_times)
    then have n1: "0 < n1" "n1 \<le> length p" "n + n1 \<le> (n div BSIZE + 1) * BSIZE" using False by (auto simp: n1_def)
    have c: "nblk (n + n1) = nblk n + cost n" by (rule nblk_step) (use n1 in simp_all)
    have mono: "nblk (n + n1) \<le> nblk (n + length p)" by (rule nblk_mono) (use n1 in simp)
    have room: "freeblock im + cost n \<le> FSSIZE" using 1(5) c mono by linarith
    from append_round [OF 1(2,3) False 1(4) room n1_def] obtain di1 im1 where
      r: "append_loop n p di im = append_loop (n + n1) (drop n1 p) di1 im1" "di1 = di\<lparr>di_addrs := di_addrs di1\<rparr>" "img_ok im1"
        "freeinode im1 = freeinode im" "freeblock im1 = freeblock im + cost n" "file_inv im1 di1 (n + n1)"
        "own (im_disk im1) di1 = own (im_disk im) di \<union> {freeblock im..<freeblock im1}"
      and d: "\<And>a. a \<notin> own (im_disk im) di \<Longrightarrow> a < freeblock im \<Longrightarrow> im_disk im1 a = im_disk im a"
      and ct: "fcontent im1 di1 = overwrite (fcontent im di) n (take n1 p)" by blast
    have l: "length (drop n1 p) < length p" "n + n1 + length (drop n1 p) = n + length p" using n1 by simp_all
    have "\<exists>di' im'. append_loop (n + n1) (drop n1 p) di1 im1 = Ret (n + length p, di', im') \<and> di' = di1\<lparr>di_addrs := di_addrs di'\<rparr> \<and>
      img_ok im' \<and> freeinode im' = freeinode im1 \<and> freeblock im' + nblk (n + n1) = freeblock im1 + nblk (n + length p) \<and>
      file_inv im' di' (n + length p) \<and> own (im_disk im') di' = own (im_disk im1) di1 \<union> {freeblock im1..<freeblock im'} \<and>
      (\<forall>a. a \<notin> own (im_disk im1) di1 \<longrightarrow> a < freeblock im1 \<longrightarrow> im_disk im' a = im_disk im1 a) \<and>
      fcontent im' di' = overwrite (fcontent im1 di1) (n + n1) (drop n1 p)"
      using 1(1) [rule_format, OF l(1), of im1 di1 "n + n1"] r(3,6) 1(4,5) c r(5) unfolding l(2) by simp
    then obtain di' im' where e: "append_loop (n + n1) (drop n1 p) di1 im1 = Ret (n + length p, di', im')"
      "di' = di1\<lparr>di_addrs := di_addrs di'\<rparr>" "img_ok im'" "freeinode im' = freeinode im1"
      "freeblock im' + nblk (n + n1) = freeblock im1 + nblk (n + length p)"
      "file_inv im' di' (n + length p)" "own (im_disk im') di' = own (im_disk im1) di1 \<union> {freeblock im1..<freeblock im'}"
      "\<forall>a. a \<notin> own (im_disk im1) di1 \<longrightarrow> a < freeblock im1 \<longrightarrow> im_disk im' a = im_disk im1 a"
      "fcontent im' di' = overwrite (fcontent im1 di1) (n + n1) (drop n1 p)" by blast
    have le: "freeblock im \<le> freeblock im1" "freeblock im1 \<le> freeblock im'" using r(5) e(5) mono by linarith+
    have "di' = di\<lparr>di_addrs := di_addrs di'\<rparr>" using e(2) r(2) by (metis addrs_trans)
    moreover have "own (im_disk im') di' = own (im_disk im) di \<union> {freeblock im..<freeblock im'}"
      using ivl_disj_un_two(3) [OF le] unfolding e(7) r(7) by blast
    moreover have "im_disk im' a = im_disk im a" if "a \<notin> own (im_disk im) di" "a < freeblock im" for a
      using e(8) d [OF that] r(7) that le by auto
    moreover have "fcontent im' di' = overwrite (fcontent im di) n p"
      unfolding e(9) ct by (rule overwrite_pieces) (use 1(4) n1 in \<open>simp_all add: fcontent_def\<close>)
    ultimately show ?thesis using r(1,4) e(1,3,4,5,6) c r(5) by (intro exI [of _ di'] exI [of _ im']) auto
  qed
qed

section \<open>The whole image\<close>

definition din :: "image \<Rightarrow> nat \<Rightarrow> dinode" where
  "din im inum = dinode_at (im_disk im (IBLOCK inum mk_sb)) inum"

lemma IBLOCK_mk: "inum < 208 \<Longrightarrow> IBLOCK inum mk_sb = inum div 8 + 32 \<and> inum div 8 < 26"
  by (simp add: IBLOCK_def mk_sb_def IPB_def LOGSIZE_def)

lemma meta_numbers: "nmeta = 63" "ninodeblocks = 26" "sb_bmapstart mk_sb = 58" "nbitmap = 5"
  by (simp_all add: nmeta_def ninodeblocks_def nbitmap_def mk_sb_def NINODES_def IPB_def LOGSIZE_def FSSIZE_def BSIZE_def)

lemma rinode_ok: "img_ok im \<Longrightarrow> inum < 208 \<Longrightarrow> rinode inum im = Ret (din im inum)"
  using IBLOCK_mk [of inum] by (simp add: rinode_def rsect_def img_ok_def FSSIZE_def din_def)

lemma winode_ok:
  assumes im: "img_ok im" and i: "inum < 208" and d: "dinode_wf d"
  obtains im' where "winode inum d im = Ret im'" "img_ok im'" "freeinode im' = freeinode im" "freeblock im' = freeblock im"
    "\<And>j. j < 208 \<Longrightarrow> din im' j = (if j = inum then d else din im j)"
    "\<And>a. a < 32 \<or> 58 \<le> a \<Longrightarrow> im_disk im' a = im_disk im a"
proof -
  let ?b = "IBLOCK inum mk_sb"
  let ?im = "wsect ?b (set_dinode (im_disk im ?b) inum d) im"
  have b: "?b = inum div 8 + 32" "inum div 8 < 26" using IBLOCK_mk [OF i] by simp_all
  have len: "length (im_disk im ?b) = BSIZE" "?b < im_len im" using im b by (simp_all add: img_ok_def FSSIZE_def)
  have "length (set_dinode (im_disk im ?b) inum d) = BSIZE" using length_set_dinode [OF len(1)] d by (simp add: dinode_wf_def)
  moreover have "?b < freeblock im" using im b by (simp add: img_ok_def meta_numbers)
  ultimately have "img_ok ?im" using im len by (simp add: img_ok_def)
  moreover have "din ?im j = (if j = inum then d else din im j)" if "j < 208" for j
  proof -
    have e: "IBLOCK j mk_sb = j div 8 + 32" using IBLOCK_mk [OF that] by simp
    have "j = inum \<longleftrightarrow> j div 8 = inum div 8 \<and> j mod 8 = inum mod 8" by (metis div_mult_mod_eq)
    then show ?thesis using dinode_at_set [OF len(1) d, of inum j] e b by (auto simp: din_def IPB_def)
  qed
  ultimately show ?thesis using b len(2) by (intro that [of ?im]) (auto simp: winode_def rsect_def Let_def)
qed

lemma file_inv_cong:
  assumes "\<And>a. a \<in> own (im_disk im) di \<Longrightarrow> im_disk im' a = im_disk im a" and "freeblock im \<le> freeblock im'"
    and "di_addrs di' = di_addrs di" "dinode_wf di'" and "file_inv im di n"
  shows "file_inv im' di' n" "own (im_disk im') di' = own (im_disk im) di" "fcontent im' di' = fcontent im di"
proof -
  have a: "addr_of d di' k = addr_of d di k" for d k using assms(3) by (simp add: addr_of_def)
  have e: "addr_of (im_disk im') di k = addr_of (im_disk im) di k" if "k < MAXFILE" for k by (rule own_cong(1)) (use assms(1) that in auto)
  have o: "own d di' = own d di" for d by (simp add: own_def a assms(3))
  have oo: "own (im_disk im') di = own (im_disk im) di" by (rule own_cong(2)) (use assms(1) in auto)
  then show "own (im_disk im') di' = own (im_disk im) di" by (simp add: o)
  have "own (im_disk im) di \<subseteq> {nmeta..<freeblock im'}" using assms(2,5) by (auto simp: file_inv_def)
  then show "file_inv im' di' n" using assms(3-5) e by (simp add: file_inv_def a o oo)
  have fb: "fbyte d di' i = fbyte d di i" for d i by (simp add: fbyte_def fblock_def a)
  have "fbyte (im_disk im') di i = fbyte (im_disk im) di i" if "i < MAXFILE * BSIZE" for i
    by (intro own_cong(3)) (use assms(1) that in auto)
  then show "fcontent im' di' = fcontent im di" by (simp add: fcontent_def fb)
qed

text \<open>The image holds the files \<open>F\<close>, each with its type and content; the inode of the first one is 1.\<close>

definition sb_block :: "byte list" where
  "sb_block = overwrite (replicate BSIZE 0) 0 (enc_superblock mk_sb)"

definition meta_ok :: "image \<Rightarrow> bool" where
  "meta_ok im \<longleftrightarrow> im_disk im 1 = sb_block \<and> (\<forall>a \<in> {2..<32} \<union> {58..<nmeta}. im_disk im a = replicate BSIZE 0)"

definition file_is :: "image \<Rightarrow> nat \<Rightarrow> int \<times> byte list \<Rightarrow> bool" where
  "file_is im inum f \<longleftrightarrow> di_type (din im inum) = fst f \<and> di_nlink (din im inum) = 1 \<and> di_size (din im inum) = length (snd f) \<and>
     length (snd f) \<le> MAXFILE * BSIZE \<and> file_inv im (din im inum) (length (snd f)) \<and>
     fcontent im (din im inum) = snd f @ replicate (MAXFILE * BSIZE - length (snd f)) 0"

abbreviation iown :: "image \<Rightarrow> nat \<Rightarrow> nat set" where
  "iown im inum \<equiv> own (im_disk im) (din im inum)"

definition fs_inv :: "image \<Rightarrow> (int \<times> byte list) list \<Rightarrow> bool" where
  "fs_inv im F \<longleftrightarrow> img_ok im \<and> meta_ok im \<and> freeinode im = length F + 1 \<and> length F < NINODES \<and>
     (\<forall>i < length F. file_is im (Suc i) (F ! i)) \<and> (\<forall>i. length F < i \<longrightarrow> i < 208 \<longrightarrow> din im i = zero_dinode) \<and>
     (\<forall>i < length F. \<forall>j < length F. i \<noteq> j \<longrightarrow> iown im (Suc i) \<inter> iown im (Suc j) = {}) \<and>
     (\<Union>i < length F. iown im (Suc i)) = {nmeta..<freeblock im} \<and>
     freeblock im = nmeta + (\<Sum>f \<leftarrow> F. nblk (length (snd f)))"

text \<open>A step that changes one file.\<close>

lemma sum_list_change:
  fixes g :: "'x \<Rightarrow> nat"
  shows "i < length xs \<Longrightarrow> (\<Sum>x \<leftarrow> xs[i := y]. g x) + g (xs ! i) = (\<Sum>x \<leftarrow> xs. g x) + g y"
proof (induction xs arbitrary: i)
  case (Cons x xs)
  then show ?case by (cases i) auto
qed simp

lemma fs_inv_update:
  assumes inv: "fs_inv im F" and i: "i < length F"
    and im': "img_ok im'" "freeinode im' = freeinode im"
    and old: "\<And>j. j < 208 \<Longrightarrow> j \<noteq> Suc i \<Longrightarrow> din im' j = din im j"
    and new: "file_is im' (Suc i) f"
    and fb: "freeblock im' + nblk (length (snd (F ! i))) = freeblock im + nblk (length (snd f))" "freeblock im \<le> freeblock im'"
    and ow: "iown im' (Suc i) = iown im (Suc i) \<union> {freeblock im..<freeblock im'}"
    and keep: "\<And>a. a \<notin> iown im (Suc i) \<Longrightarrow> a < freeblock im \<Longrightarrow> a < 32 \<or> 58 \<le> a \<Longrightarrow> im_disk im' a = im_disk im a"
  shows "fs_inv im' (F[i := f])"
proof -
  have F: "length F < 200" "nmeta \<le> freeblock im" using inv by (simp_all add: fs_inv_def NINODES_def img_ok_def)
  have U: "(\<Union>j < length F. iown im (Suc j)) = {nmeta..<freeblock im}" using inv by (simp add: fs_inv_def)
  then have sub: "iown im (Suc j) \<subseteq> {nmeta..<freeblock im}" if "j < length F" for j using that by blast
  have dj: "iown im (Suc j) \<inter> iown im (Suc l) = {}" if "j < length F" "l < length F" "j \<noteq> l" for j l
    using inv that by (simp add: fs_inv_def)
  have oth: "file_is im' (Suc j) (F ! j) \<and> iown im' (Suc j) = iown im (Suc j)" if j: "j < length F" "j \<noteq> i" for j
  proof -
    have d: "din im' (Suc j) = din im (Suc j)" using old [of "Suc j"] j F by simp
    have fi: "file_is im (Suc j) (F ! j)" using inv j by (simp add: fs_inv_def)
    have k: "im_disk im' a = im_disk im a" if "a \<in> iown im (Suc j)" for a
    proof (rule keep)
      show "a \<notin> iown im (Suc i)" using dj [OF j(1) i j(2)] that by blast
      show "a < freeblock im" "a < 32 \<or> 58 \<le> a" using sub [OF j(1)] that by (auto simp: meta_numbers)
    qed
    have wf: "dinode_wf (din im (Suc j))" using fi by (simp add: file_is_def file_inv_def)
    have inv_j: "file_inv im (din im (Suc j)) (length (snd (F ! j)))" using fi by (simp add: file_is_def)
    note c = file_inv_cong [of im "din im (Suc j)" im' "din im (Suc j)", OF k fb(2) refl wf inv_j]
    show ?thesis using fi c unfolding file_is_def d by simp
  qed
  have files: "file_is im' (Suc j) (F[i := f] ! j)" if "j < length F" for j using oth [OF that] new that by (cases "j = i") auto
  moreover have "meta_ok im'"
  proof -
    have "im_disk im' a = im_disk im a" if "a < nmeta" "a < 32 \<or> 58 \<le> a" for a
    proof (rule keep [OF _ _ that(2)])
      show "a \<notin> iown im (Suc i)" using sub [OF i] that(1) by (meson atLeastLessThan_iff not_le subsetD)
      show "a < freeblock im" using that(1) F(2) by simp
    qed
    then show ?thesis using inv by (auto simp: fs_inv_def meta_ok_def meta_numbers)
  qed
  moreover have "iown im' (Suc j) \<inter> iown im' (Suc l) = {}" if "j < length F" "l < length F" "j \<noteq> l" for j l
  proof -
    have "{freeblock im..<freeblock im'} \<inter> iown im (Suc m) = {}" if "m < length F" for m using sub [OF that] by auto
    then show ?thesis using that dj oth ow by (cases "j = i"; cases "l = i") (simp_all, blast+)
  qed
  moreover have "(\<Union>j < length F. iown im' (Suc j)) = {nmeta..<freeblock im'}"
  proof -
    have "(\<Union>j < length F. iown im' (Suc j)) = (\<Union>j < length F. iown im (Suc j)) \<union> {freeblock im..<freeblock im'}"
      using oth ow i by (auto split: if_splits)
    then show ?thesis unfolding U using F(2) fb(2) by auto
  qed
  moreover have "freeblock im' = nmeta + (\<Sum>f \<leftarrow> F[i := f]. nblk (length (snd f)))"
  proof -
    have "(\<Sum>f \<leftarrow> F[i := f]. nblk (length (snd f))) + nblk (length (snd (F ! i))) = (\<Sum>f \<leftarrow> F. nblk (length (snd f))) + nblk (length (snd f))"
      by (rule sum_list_change [OF i])
    then show ?thesis using inv fb(1) by (simp add: fs_inv_def)
  qed
  ultimately show ?thesis using inv im' old F i unfolding fs_inv_def by auto
qed

lemma iappend_ok:
  assumes inv: "fs_inv im F" and i: "i < length F" and fits: "length (snd (F ! i)) + length p \<le> MAXFILE * BSIZE"
    and room: "freeblock im + nblk (length (snd (F ! i)) + length p) \<le> FSSIZE + nblk (length (snd (F ! i)))"
  shows "\<exists>im'. iappend (Suc i) p im = Ret im' \<and> fs_inv im' (F[i := (fst (F ! i), snd (F ! i) @ p)])"
proof -
  define n where "n = length (snd (F ! i))"
  let ?di = "din im (Suc i)"
  have im: "img_ok im" and F: "length F < 200" using inv by (simp_all add: fs_inv_def NINODES_def)
  have fi: "file_is im (Suc i) (F ! i)" using inv i by (simp add: fs_inv_def)
  then have f: "di_size ?di = n" "file_inv im ?di n" "fcontent im ?di = snd (F ! i) @ replicate (MAXFILE * BSIZE - n) 0" "di_type ?di = fst (F ! i)" "di_nlink ?di = 1"
    by (simp_all add: file_is_def n_def)
  have i2: "Suc i < 208" using i F by simp
  from append_loop_ok [OF im f(2) fits [folded n_def] room [folded n_def]] obtain di' im1 where
    l: "append_loop n p ?di im = Ret (n + length p, di', im1)" "di' = ?di\<lparr>di_addrs := di_addrs di'\<rparr>" "img_ok im1"
      "freeinode im1 = freeinode im" "freeblock im1 + nblk n = freeblock im + nblk (n + length p)" "file_inv im1 di' (n + length p)"
      "own (im_disk im1) di' = own (im_disk im) ?di \<union> {freeblock im..<freeblock im1}"
      "\<forall>a. a \<notin> own (im_disk im) ?di \<longrightarrow> a < freeblock im \<longrightarrow> im_disk im1 a = im_disk im a"
      "fcontent im1 di' = overwrite (fcontent im ?di) n p" by blast
  have ct: "fcontent im1 di' = (snd (F ! i) @ p) @ replicate (MAXFILE * BSIZE - length (snd (F ! i) @ p)) 0"
    using fits unfolding l(9) f(3) by (simp add: overwrite_def n_def)
  define d where "d = di'\<lparr>di_size := n + length p\<rparr>"
  have wf: "dinode_wf d" using l(6) fits by (auto simp: file_inv_def dinode_wf_def d_def n_def MAXFILE_bytes)
  obtain im' where w: "winode (Suc i) d im1 = Ret im'" "img_ok im'" "freeinode im' = freeinode im1" "freeblock im' = freeblock im1"
    and dn: "\<And>j. j < 208 \<Longrightarrow> din im' j = (if j = Suc i then d else din im1 j)"
    and ds: "\<And>a. a < 32 \<or> 58 \<le> a \<Longrightarrow> im_disk im' a = im_disk im1 a" using winode_ok [OF l(3) i2 wf] by blast
  have own_low: "a \<notin> own (im_disk im) ?di" if "a < nmeta" for a using f(2) that by (auto simp: file_inv_def)
  have fbm: "nmeta \<le> freeblock im" using im by (simp add: img_ok_def)
  have k: "im_disk im' a = im_disk im1 a" if "a \<in> own (im_disk im1) di'" for a
  proof (rule ds)
    have "nmeta \<le> a" using l(6) that by (auto simp: file_inv_def)
    then show "a < 32 \<or> 58 \<le> a" by (simp add: meta_numbers)
  qed
  have da: "di_addrs d = di_addrs di'" by (simp add: d_def)
  note c = file_inv_cong [of im1 di' im' d, OF k eq_imp_le [OF w(4) [symmetric]] da wf l(6)]
  have d': "din im' (Suc i) = d" using dn [OF i2] by simp
  have "fs_inv im' (F[i := (fst (F ! i), snd (F ! i) @ p)])"
  proof (rule fs_inv_update [OF inv i w(2)])
    show "freeinode im' = freeinode im" using w(3) l(4) by simp
    show "din im' j = din im j" if "j < 208" "j \<noteq> Suc i" for j
    proof -
      have "IBLOCK j mk_sb < nmeta" using IBLOCK_mk [OF that(1)] by (simp add: meta_numbers)
      then have "im_disk im1 (IBLOCK j mk_sb) = im_disk im (IBLOCK j mk_sb)" using l(8) own_low fbm by simp
      then show ?thesis using dn [OF that(1)] that(2) by (simp add: din_def)
    qed
    have "fst (F ! i) = di_type d \<and> di_nlink d = 1" using l(2) f(4,5) unfolding d_def by (metis dinode.select_convs(1,4) dinode.surjective dinode.update_convs(5,6))
    then show "file_is im' (Suc i) (fst (F ! i), snd (F ! i) @ p)"
      using c fits ct unfolding file_is_def d' by (simp add: n_def d_def)
    show "freeblock im' + nblk (length (snd (F ! i))) = freeblock im + nblk (length (snd (fst (F ! i), snd (F ! i) @ p)))"
      using l(5) w(4) by (simp add: n_def)
    show "freeblock im \<le> freeblock im'" using l(5) w(4) nblk_mono [of n "n + length p"] by simp
    show "iown im' (Suc i) = iown im (Suc i) \<union> {freeblock im..<freeblock im'}" using c(2) l(7) w(4) d' by simp
    show "im_disk im' a = im_disk im a" if "a \<notin> iown im (Suc i)" "a < freeblock im" "a < 32 \<or> 58 \<le> a" for a
      using ds [OF that(3)] l(8) that by simp
  qed
  moreover have "iappend (Suc i) p im = Ret im'"
    using rinode_ok [OF im i2] l(1) w(1) f(1) by (simp add: iappend_def d_def)
  ultimately show ?thesis by blast
qed

lemma mk_ialloc_ok:
  assumes inv: "fs_inv im F" and room: "length F + 1 < NINODES" and ty: "0 \<le> ty" "ty < 32768"
  shows "\<exists>im'. mk_ialloc ty im = Ret (Suc (length F), im') \<and> fs_inv im' (F @ [(ty, [])])"
proof -
  let ?d = "zero_dinode\<lparr>di_type := ty, di_nlink := 1\<rparr>" and ?n = "Suc (length F)" and ?im = "im\<lparr>freeinode := Suc (Suc (length F))\<rparr>"
  have im: "img_ok ?im" "freeinode im = ?n" "nmeta \<le> freeblock im" and F: "?n < 208" using inv room by (simp_all add: fs_inv_def img_ok_def NINODES_def)
  have wf: "dinode_wf ?d" using ty by (simp add: dinode_wf_def zero_dinode_def)
  obtain im' where w0: "winode ?n ?d ?im = Ret im'" "img_ok im'" "freeinode im' = freeinode ?im" "freeblock im' = freeblock ?im"
    and dn0: "\<And>j. j < 208 \<Longrightarrow> din im' j = (if j = ?n then ?d else din ?im j)"
    and ds0: "\<And>a. a < 32 \<or> 58 \<le> a \<Longrightarrow> im_disk im' a = im_disk ?im a"
    using winode_ok [OF im(1) F wf] by blast
  have w: "winode ?n ?d ?im = Ret im'" "img_ok im'" "freeinode im' = Suc ?n" "freeblock im' = freeblock im" using w0 by simp_all
  have dn: "din im' j = (if j = ?n then ?d else din im j)" if "j < 208" for j using dn0 [OF that] by (simp add: din_def)
  have ds: "im_disk im' a = im_disk im a" if "a < 32 \<or> 58 \<le> a" for a using ds0 [OF that] by simp
  have a0: "addr_of dd ?d k = 0" if "k < MAXFILE" for dd k using that
    by (simp add: addr_of_def zero_dinode_def NDIRECT_def nth_append MAXFILE_def NINDIRECT_def)
  have ib0: "di_addrs ?d ! NDIRECT = 0" by (simp add: zero_dinode_def del: replicate.simps)
  have o0: "own dd ?d = {}" for dd using a0 ib0 by (auto simp: own_def)
  have "fbyte dd ?d i = 0" if "i < MAXFILE * BSIZE" for dd i
    using a0 [OF less_mult_imp_div_less [OF that]] by (simp add: fbyte_def fblock_def BSIZE_def)
  then have c0: "fcontent im' ?d = replicate (MAXFILE * BSIZE) 0" by (intro nth_equalityI) (simp_all add: fcontent_def)
  have new: "file_is im' ?n (ty, [])" "iown im' ?n = {}"
    using dn [OF F] a0 ib0 o0 wf c0 by (simp_all add: file_is_def file_inv_def) (simp add: zero_dinode_def)
  have oth: "file_is im' (Suc j) (F ! j) \<and> iown im' (Suc j) = iown im (Suc j)" if j: "j < length F" for j
  proof -
    have fi: "file_is im (Suc j) (F ! j)" using inv j by (simp add: fs_inv_def)
    have d: "din im' (Suc j) = din im (Suc j)" using dn [of "Suc j"] j F by simp
    have wj: "dinode_wf (din im (Suc j))" "file_inv im (din im (Suc j)) (length (snd (F ! j)))" using fi by (simp_all add: file_is_def file_inv_def)
    have k: "im_disk im' a = im_disk im a" if "a \<in> iown im (Suc j)" for a
    proof (rule ds)
      have "nmeta \<le> a" using wj(2) that by (auto simp: file_inv_def)
      then show "a < 32 \<or> 58 \<le> a" by (simp add: meta_numbers)
    qed
    note c = file_inv_cong [of im "din im (Suc j)" im' "din im (Suc j)", OF k eq_imp_le [OF w(4) [symmetric]] refl wj]
    show ?thesis using fi c unfolding file_is_def d by simp
  qed
  have "fs_inv im' (F @ [(ty, [])])" unfolding fs_inv_def
  proof (intro conjI allI impI)
    show "meta_ok im'" using inv ds by (auto simp: fs_inv_def meta_ok_def)
    show "file_is im' (Suc i) ((F @ [(ty, [])]) ! i)" if "i < length (F @ [(ty, [])])" for i
      using oth [of i] new that by (cases "i < length F") (simp_all add: nth_append less_Suc_eq)
    show "din im' i = zero_dinode" if "length (F @ [(ty, [])]) < i" "i < 208" for i
      using dn [OF that(2)] that inv by (simp add: fs_inv_def)
    show "iown im' (Suc i) \<inter> iown im' (Suc j) = {}" if "i < length (F @ [(ty, [])])" "j < length (F @ [(ty, [])])" "i \<noteq> j" for i j
      using that oth [of i] oth [of j] new inv by (cases "i < length F"; cases "j < length F") (simp_all add: less_Suc_eq fs_inv_def)
    show "(\<Union>i < length (F @ [(ty, [])]). iown im' (Suc i)) = {nmeta..<freeblock im'}"
      using oth new inv w(4) by (simp add: lessThan_Suc fs_inv_def)
  qed (use inv w room in \<open>simp_all add: fs_inv_def nblk_def BSIZE_def\<close>)
  moreover have "mk_ialloc ty im = Ret (?n, im')" using im(2) w(1) by (simp add: mk_ialloc_def Let_def)
  ultimately show ?thesis by blast
qed

section \<open>The run of mkfs\<close>

lemma wipe: "fold (\<lambda>i. wsect i (replicate BSIZE 0)) [0..<n]
    \<lparr>im_disk = (\<lambda>_. replicate BSIZE 0), im_len = 0, freeinode = f, freeblock = b\<rparr> =
  \<lparr>im_disk = (\<lambda>_. replicate BSIZE 0), im_len = n, freeinode = f, freeblock = b\<rparr>"
  by (induction n) (auto simp: wsect_def)

lemma length_sb_block: "length sb_block = BSIZE"
  by (simp add: sb_block_def enc_superblock_def BSIZE_def)

lemma superblock_read: "dec_superblock sb_block = mk_sb"
proof -
  let ?ws = "[sb_size mk_sb, sb_nblocks mk_sb, sb_ninodes mk_sb, sb_nlog mk_sb, sb_logstart mk_sb, sb_inodestart mk_sb, sb_bmapstart mk_sb]"
  have w: "word_at sb_block i = ?ws ! i" if "i < 7" for i
  proof -
    have "slice sb_block (4 * i) 4 = slice (enc_superblock mk_sb) (4 * i) 4"
    proof (rule nth_equalityI)
      have l: "length (enc_superblock mk_sb) = 28" by (simp add: enc_superblock_def)
      show "length (slice sb_block (4 * i) 4) = length (slice (enc_superblock mk_sb) (4 * i) 4)"
        using that l length_sb_block by (simp add: BSIZE_def)
      fix j assume "j < length (slice sb_block (4 * i) 4)"
      then have "j < 4" using that length_sb_block by (simp add: BSIZE_def)
      then show "slice sb_block (4 * i) 4 ! j = slice (enc_superblock mk_sb) (4 * i) 4 ! j"
        using that l length_sb_block by (simp add: BSIZE_def) (simp add: sb_block_def nth_overwrite BSIZE_def)
    qed
    also have "\<dots> = le_enc 4 (?ws ! i)" unfolding enc_superblock_def by (rule slice_words) (use that in simp)
    finally have "word_at sb_block i = le_dec (le_enc 4 (?ws ! i))" by (simp add: word_at_def)
    moreover have "?ws ! i \<in> set ?ws" using that by (intro nth_mem) simp
    then have "?ws ! i < 4294967296" by (auto simp: mk_sb_def FSSIZE_def NINODES_def LOGSIZE_def meta_numbers)
    ultimately show ?thesis by (simp add: le_dec_enc)
  qed
  show ?thesis using w [of 0] w [of 1] w [of 2] w [of 3] w [of 4] w [of 5] w [of 6] by (simp add: dec_superblock_def numeral_eq_Suc)
qed

lemma zero_block_dinode: "dinode_at (replicate BSIZE 0) i = zero_dinode"
proof -
  have "i mod IPB < 8" by (simp add: IPB_def)
  then have s: "slice (replicate BSIZE 0) (64 * (i mod IPB)) 64 = replicate 64 (0 :: byte)"
    by (simp add: slice_def BSIZE_def min_def)
  have t: "slice (replicate 64 (0 :: byte)) a b = replicate (min b (64 - a)) 0" for a b by (simp add: slice_def min.commute)
  show ?thesis unfolding dinode_at_def s dec_dinode_def t zero_dinode_def
    by (simp add: s16_def map_replicate_const del: upt_Suc)
qed

lemma blank_ok: "fs_inv blank []"
proof -
  have b: "blank = \<lparr>im_disk = (\<lambda>_. replicate BSIZE 0)(1 := sb_block), im_len = FSSIZE, freeinode = 1, freeblock = nmeta\<rparr>"
    unfolding blank_def wipe by (simp add: wsect_def sb_block_def FSSIZE_def)
  have "img_ok blank" unfolding b by (simp add: img_ok_def length_sb_block meta_numbers FSSIZE_def)
  moreover have "din blank i = zero_dinode" if "i < 208" for i
    using IBLOCK_mk [OF that] zero_block_dinode by (simp add: din_def b)
  ultimately show ?thesis by (simp add: fs_inv_def meta_ok_def NINODES_def) (simp add: b)
qed

text \<open>What the files of the host become.\<close>

definition host_content :: "host_file \<Rightarrow> byte list" where
  "host_content f = concat (the (snd f))"

definition good_file :: "host_file \<Rightarrow> bool" where
  "good_file f \<longleftrightarrow> 47 \<notin> set (fst f) \<and> snd f \<noteq> None \<and> length (host_content f) \<le> MAXFILE * BSIZE"

fun new_entries :: "nat \<Rightarrow> host_file list \<Rightarrow> byte list" where
  "new_entries k [] = []"
| "new_entries k (f # fs) = mk_dirent k (disk_name (fst f)) @ new_entries (Suc k) fs"

lemma append_parts:
  "fs_inv im F \<Longrightarrow> i < length F \<Longrightarrow> length (snd (F ! i) @ concat ps) \<le> MAXFILE * BSIZE \<Longrightarrow>
    freeblock im + nblk (length (snd (F ! i) @ concat ps)) \<le> FSSIZE + nblk (length (snd (F ! i))) \<Longrightarrow>
    \<exists>im'. kfor ps (iappend (Suc i)) im = Ret im' \<and> fs_inv im' (F[i := (fst (F ! i), snd (F ! i) @ concat ps)])"
proof (induction ps arbitrary: im F)
  case (Cons p ps)
  let ?n = "length (snd (F ! i))"
  let ?F = "F[i := (fst (F ! i), snd (F ! i) @ p)]"
  have m: "nblk (?n + length p) \<le> nblk (length (snd (F ! i) @ concat (p # ps)))" by (rule nblk_mono) simp
  from iappend_ok [OF Cons.prems(1,2), of p] obtain im1 where i: "iappend (Suc i) p im = Ret im1" "fs_inv im1 ?F"
    using Cons.prems(3,4) m by auto
  have "freeblock im1 + nblk ?n = freeblock im + nblk (?n + length p)"
    using i(2) Cons.prems(1) sum_list_change [OF Cons.prems(2), of "\<lambda>f. nblk (length (snd f))" "(fst (F ! i), snd (F ! i) @ p)"]
    by (simp add: fs_inv_def)
  then have "\<exists>im'. kfor ps (iappend (Suc i)) im1 = Ret im' \<and> fs_inv im' (?F[i := (fst (?F ! i), snd (?F ! i) @ concat ps)])"
    using Cons.prems(2-4) by (intro Cons.IH [OF i(2)]) auto
  then show ?case using i(1) Cons.prems(2) by simp
qed simp

lemma freeblock_sum: "fs_inv im F \<Longrightarrow> freeblock im = nmeta + (\<Sum>f \<leftarrow> F. nblk (length (snd f)))"
  by (simp add: fs_inv_def)

lemma add_file_ok:
  assumes inv: "fs_inv im ((T_DIR, r) # G)" and g: "good_file f" and n: "length G + 2 < NINODES"
    and r: "length r + DIRENT \<le> MAXFILE * BSIZE"
    and room: "freeblock im + nblk (length r + DIRENT) + nblk (length (host_content f)) \<le> FSSIZE + nblk (length r)"
  shows "\<exists>im'. add_file ROOTINO f im = Ret im' \<and>
    fs_inv im' ((T_DIR, r @ mk_dirent (length G + 2) (disk_name (fst f))) # G @ [(T_FILE, host_content f)])"
proof -
  obtain parts where parts: "snd f = Some parts" "host_content f = concat parts" "47 \<notin> set (fst f)"
    using g by (auto simp: good_file_def host_content_def)
  let ?k = "length G + 2" and ?e = "mk_dirent (length G + 2) (disk_name (fst f))"
  obtain im1 where i1: "mk_ialloc T_FILE im = Ret (?k, im1)" "fs_inv im1 (((T_DIR, r) # G) @ [(T_FILE, [])])"
    using mk_ialloc_ok [OF inv, of T_FILE] n by auto
  have z: "nblk 0 = 0" by (simp add: nblk_def BSIZE_def)
  have fb1: "freeblock im1 = freeblock im" using freeblock_sum [OF i1(2)] freeblock_sum [OF inv] z by simp
  obtain im2 where i2: "iappend ROOTINO ?e im1 = Ret im2" "fs_inv im2 ((T_DIR, r @ ?e) # G @ [(T_FILE, [])])"
    using iappend_ok [OF i1(2), of 0 ?e] r room fb1 by (auto simp: ROOTINO_def)
  have fb2: "freeblock im2 + nblk (length r) = freeblock im1 + nblk (length r + DIRENT)"
    using freeblock_sum [OF i2(2)] freeblock_sum [OF i1(2)] by simp
  have e: "((T_DIR, r @ ?e) # G @ [(T_FILE, [])]) ! Suc (length G) = (T_FILE, [])"
    "((T_DIR, r @ ?e) # G @ [(T_FILE, [])])[Suc (length G) := y] = (T_DIR, r @ ?e) # G @ [y]" for y by (simp_all add: nth_append)
  have "\<exists>im3. kfor parts (iappend (Suc (Suc (length G)))) im2 = Ret im3 \<and> fs_inv im3 ((T_DIR, r @ ?e) # G @ [(T_FILE, concat parts)])"
    using append_parts [OF i2(2), of "Suc (length G)" parts] e fb1 fb2 room g z parts(2) by (simp add: good_file_def)
  then show ?thesis using i1(1) i2(1) parts by (auto simp: add_file_def)
qed

lemma add_files_ok:
  "fs_inv im ((T_DIR, r) # G) \<Longrightarrow> \<forall>f \<in> set files. good_file f \<Longrightarrow> length G + 1 + length files < NINODES \<Longrightarrow>
    length r + DIRENT * length files \<le> MAXFILE * BSIZE \<Longrightarrow>
    freeblock im + nblk (length r + DIRENT * length files) + (\<Sum>f \<leftarrow> files. nblk (length (host_content f))) \<le> FSSIZE + nblk (length r) \<Longrightarrow>
    \<exists>im'. kfor files (add_file ROOTINO) im = Ret im' \<and>
      fs_inv im' ((T_DIR, r @ new_entries (length G + 2) files) # G @ map (\<lambda>f. (T_FILE, host_content f)) files)"
proof (induction files arbitrary: im r G)
  case (Cons f fs)
  let ?r = "r @ mk_dirent (length G + 2) (disk_name (fst f))" and ?G = "G @ [(T_FILE, host_content f)]"
  have m: "nblk (length r + DIRENT) \<le> nblk (length r + DIRENT * length (f # fs))" by (rule nblk_mono) simp
  obtain im1 where i: "add_file ROOTINO f im = Ret im1" "fs_inv im1 ((T_DIR, ?r) # ?G)"
    using add_file_ok [OF Cons.prems(1), of f] Cons.prems(2-5) m by auto
  have fb: "freeblock im1 + nblk (length r) = freeblock im + nblk (length r + DIRENT) + nblk (length (host_content f))"
    using freeblock_sum [OF i(2)] freeblock_sum [OF Cons.prems(1)] by simp
  have "\<exists>im'. kfor fs (add_file ROOTINO) im1 = Ret im' \<and>
      fs_inv im' ((T_DIR, ?r @ new_entries (length ?G + 2) fs) # ?G @ map (\<lambda>f. (T_FILE, host_content f)) fs)"
  proof (rule Cons.IH [OF i(2)])
    have l: "length ?r + DIRENT * length fs = length r + DIRENT * length (f # fs)" by simp
    show "length ?r + DIRENT * length fs \<le> MAXFILE * BSIZE" unfolding l by (rule Cons.prems(4))
    show "freeblock im1 + nblk (length ?r + DIRENT * length fs) + (\<Sum>f \<leftarrow> fs. nblk (length (host_content f))) \<le> FSSIZE + nblk (length ?r)"
      unfolding l using Cons.prems(5) fb by simp
  qed (use Cons.prems in auto)
  then show ?case using i(1) by simp
qed simp

definition root_content :: "host_file list \<Rightarrow> byte list" where
  "root_content files = mk_dirent 1 [46] @ mk_dirent 1 [46, 46] @ new_entries 2 files"

definition mkfs_fits :: "host_file list \<Rightarrow> bool" where
  "mkfs_fits files \<longleftrightarrow> (\<forall>f \<in> set files. good_file f) \<and> length files + 2 \<le> NINODES \<and>
     nmeta + nblk (DIRENT * (length files + 2)) + (\<Sum>f \<leftarrow> files. nblk (length (host_content f))) < BSIZE * 8"

lemma length_entries [simp]: "length (new_entries k files) = DIRENT * length files"
  by (induction files arbitrary: k) simp_all

lemma length_root: "length (root_content files) = DIRENT * (length files + 2)"
  by (simp add: root_content_def)

lemma root_fits: "length files + 2 \<le> NINODES \<Longrightarrow> (DIRENT * (length files + 2) div BSIZE + 1) * BSIZE \<le> MAXFILE * BSIZE"
proof -
  assume "length files + 2 \<le> NINODES"
  then have "DIRENT * (length files + 2) \<le> 3200" by (simp add: DIRENT_def NINODES_def)
  then have "DIRENT * (length files + 2) div BSIZE \<le> 3200 div BSIZE" by (rule div_le_mono)
  then have "DIRENT * (length files + 2) div BSIZE + 1 \<le> MAXFILE" by (simp add: BSIZE_def MAXFILE_def NDIRECT_def NINDIRECT_def)
  then show ?thesis by (rule mult_le_mono1)
qed

lemma bitmap_run: "used \<le> BPB \<Longrightarrow> length (foldl bitmap_set (replicate BSIZE 0) [0..<used]) = BSIZE \<and>
    (\<forall>j < BPB. bitmap_get (foldl bitmap_set (replicate BSIZE 0) [0..<used]) j \<longleftrightarrow> j < used)"
proof (induction used)
  case 0
  have "bitmap_get (replicate BSIZE 0) j = False" if "j < BPB" for j using bitmap_index [OF that] by (simp add: bitmap_get_def)
  then show ?case by simp
next
  case (Suc u)
  then show ?case using bitmap_get_set [of "foldl bitmap_set (replicate BSIZE 0) [0..<u]" u] by (auto simp: less_Suc_eq)
qed

text \<open>The image that \<open>mkfs\<close> makes, against the image just before the size of the root is rounded.\<close>

lemma mkfs_run:
  assumes "mkfs_fits files"
  obtains im im' where "fs_inv im ((T_DIR, root_content files) # map (\<lambda>f. (T_FILE, host_content f)) files)" "mkfs files = Ret im'"
    "freeblock im' = freeblock im" "im_len im' = FSSIZE" "im_disk im' 1 = sb_block" "im_disk im' 2 = replicate BSIZE 0"
    "\<And>j. j < 208 \<Longrightarrow> din im' j = (if j = 1
        then (din im 1)\<lparr>di_size := (DIRENT * (length files + 2) div BSIZE + 1) * BSIZE\<rparr> else din im j)"
    "\<And>a. nmeta \<le> a \<Longrightarrow> im_disk im' a = im_disk im a"
    "\<And>c. c < FSSIZE \<Longrightarrow> in_bitmap (im_disk im') mk_sb c \<longleftrightarrow> c < freeblock im"
proof -
  let ?F = "(T_DIR, root_content files) # map (\<lambda>f. (T_FILE, host_content f)) files"
  have g: "\<forall>f \<in> set files. good_file f" and n: "length files + 2 \<le> NINODES"
    and room: "nmeta + nblk (DIRENT * (length files + 2)) + (\<Sum>f \<leftarrow> files. nblk (length (host_content f))) < BSIZE * 8"
    using assms by (simp_all add: mkfs_fits_def)
  have z: "nblk 0 = 0" and B: "BSIZE * 8 \<le> FSSIZE" "BSIZE * 8 = BPB" by (simp_all add: nblk_def BSIZE_def FSSIZE_def BPB_def)
  have mx: "DIRENT * (length files + 2) \<le> MAXFILE * BSIZE"
    using root_fits [OF n] dividend_less_div_times [of BSIZE "DIRENT * (length files + 2)"] by (simp add: BSIZE_def del: mult_le_cancel2)
  have d2: "DIRENT + DIRENT \<le> DIRENT * (length files + 2)" by simp
  obtain im0 where i0: "mk_ialloc T_DIR blank = Ret (1, im0)" "fs_inv im0 [(T_DIR, [])]"
    using mk_ialloc_ok [OF blank_ok, of T_DIR] by (force simp: NINODES_def)
  have fb0: "freeblock im0 = nmeta" using freeblock_sum [OF i0(2)] z by simp
  have m1: "nblk DIRENT \<le> nblk (DIRENT * (length files + 2))" "nblk (DIRENT + DIRENT) \<le> nblk (DIRENT * (length files + 2))"
    by (rule nblk_mono, simp)+
  obtain im1 where i1: "iappend ROOTINO (mk_dirent ROOTINO [46]) im0 = Ret im1" "fs_inv im1 [(T_DIR, mk_dirent 1 [46])]"
  proof -
    have "DIRENT \<le> MAXFILE * BSIZE" "freeblock im0 + nblk DIRENT \<le> FSSIZE + nblk 0" using d2 mx fb0 room B(1) m1(1) by linarith+
    then have "\<exists>im'. iappend (Suc 0) (mk_dirent 1 [46]) im0 = Ret im' \<and> fs_inv im' [(T_DIR, mk_dirent 1 [46])]"
      using iappend_ok [OF i0(2), of 0 "mk_dirent 1 [46]"] by simp
    then show ?thesis using that by (auto simp: ROOTINO_def)
  qed
  have fb1: "freeblock im1 = nmeta + nblk DIRENT" using freeblock_sum [OF i1(2)] by simp
  obtain im2 where i2: "iappend ROOTINO (mk_dirent ROOTINO [46, 46]) im1 = Ret im2"
    "fs_inv im2 [(T_DIR, mk_dirent 1 [46] @ mk_dirent 1 [46, 46])]"
  proof -
    have "DIRENT + DIRENT \<le> MAXFILE * BSIZE" "freeblock im1 + nblk (DIRENT + DIRENT) \<le> FSSIZE + nblk DIRENT"
      using d2 mx fb1 room B(1) m1(2) by linarith+
    then have "\<exists>im'. iappend (Suc 0) (mk_dirent 1 [46, 46]) im1 = Ret im' \<and> fs_inv im' [(T_DIR, mk_dirent 1 [46] @ mk_dirent 1 [46, 46])]"
      using iappend_ok [OF i1(2), of 0 "mk_dirent 1 [46, 46]"] by simp
    then show ?thesis using that by (auto simp: ROOTINO_def)
  qed
  have fb2: "freeblock im2 = nmeta + nblk (DIRENT + DIRENT)" using freeblock_sum [OF i2(2)] by simp
  obtain im where i3: "kfor files (add_file ROOTINO) im2 = Ret im" "fs_inv im ?F"
  proof -
    let ?r = "mk_dirent 1 [46] @ mk_dirent 1 [46, 46]"
    have l: "length ?r + DIRENT * length files = DIRENT * (length files + 2)" by simp
    have a: "freeblock im2 + nblk (DIRENT * (length files + 2)) + (\<Sum>f \<leftarrow> files. nblk (length (host_content f))) \<le> FSSIZE + nblk (DIRENT + DIRENT)"
      using fb2 room B(1) by linarith
    have "\<exists>im'. kfor files (add_file ROOTINO) im2 = Ret im' \<and>
        fs_inv im' ((T_DIR, ?r @ new_entries (length ([] :: (int \<times> byte list) list) + 2) files) # [] @ map (\<lambda>f. (T_FILE, host_content f)) files)"
      by (rule add_files_ok [OF i2(2) g]) (use n a mx in \<open>simp_all add: l add.assoc\<close>)
    then show ?thesis using that by (auto simp: root_content_def numeral_2_eq_2)
  qed
  have im: "img_ok im" "meta_ok im" using i3(2) by (simp_all add: fs_inv_def)
  have fb: "freeblock im < BPB" using freeblock_sum [OF i3(2)] room B(2) by (simp add: length_root o_def)
  have r: "file_is im 1 (T_DIR, root_content files)" using i3(2) by (auto simp: fs_inv_def)
  let ?sz = "(DIRENT * (length files + 2) div BSIZE + 1) * BSIZE"
  have "?sz < 4294967296" using root_fits [OF n] by (simp add: MAXFILE_bytes)
  then have wf: "dinode_wf ((din im 1)\<lparr>di_size := ?sz\<rparr>)" using r by (simp add: file_is_def file_inv_def dinode_wf_def)
  have one: "(1 :: nat) < 208" by simp
  obtain im4 where i4: "winode 1 ((din im 1)\<lparr>di_size := ?sz\<rparr>) im = Ret im4" "img_ok im4" "freeblock im4 = freeblock im"
    and dn: "\<And>j. j < 208 \<Longrightarrow> din im4 j = (if j = 1 then (din im 1)\<lparr>di_size := ?sz\<rparr> else din im j)"
    and ds: "\<And>a. a < 32 \<or> 58 \<le> a \<Longrightarrow> im_disk im4 a = im_disk im a" using winode_ok [OF im(1) one wf] by blast
  have fx: "fix_root ROOTINO im = Ret im4"
    using rinode_ok [OF im(1), of 1] i4(1) r by (simp add: fix_root_def ROOTINO_def file_is_def length_root)
  define im5 where "im5 = wsect 58 (foldl bitmap_set (replicate BSIZE 0) [0..<freeblock im]) im4"
  have "mkfs files = Ret im5"
    using i0(1) i1(1) i2(1) i3(1) fx fb B i4(3) by (simp add: mkfs_def ROOTINO_def mk_balloc_def im5_def meta_numbers)
  moreover have "im_len im5 = FSSIZE" using i4(2) by (simp add: im5_def img_ok_def FSSIZE_def)
  moreover have D: "im_disk im5 a = (if a = 58 then foldl bitmap_set (replicate BSIZE 0) [0..<freeblock im] else im_disk im4 a)" for a
    by (simp add: im5_def)
  moreover have "din im5 j = din im4 j" if "j < 208" for j using IBLOCK_mk [OF that] by (simp add: din_def D)
  moreover have "in_bitmap (im_disk im5) mk_sb c \<longleftrightarrow> c < freeblock im" if "c < FSSIZE" for c
  proof -
    have b: "BBLOCK c mk_sb = c div BPB + 58" "c div BPB < 5" using that
      by (simp_all add: BBLOCK_def mk_sb_def meta_numbers LOGSIZE_def BPB_def FSSIZE_def)
    have cm: "c mod BPB < BPB" by (simp add: BPB_def)
    show ?thesis
    proof (cases "c div BPB = 0")
      case True
      then have "c mod BPB = c" by (metis add_0 div_mult_mod_eq mult_0)
      then show ?thesis using bitmap_run [of "freeblock im"] fb cm True by (simp add: in_bitmap_def b D)
    next
      case False
      then have "im_disk im5 (c div BPB + 58) = replicate BSIZE 0" using ds b(2) im(2) by (auto simp: D meta_ok_def meta_numbers)
      moreover have "BPB \<le> c" using False by (simp add: BPB_def)
      ultimately show ?thesis using bitmap_index [OF cm] fb by (simp add: in_bitmap_def b bitmap_get_def)
    qed
  qed
  moreover have "im_disk im5 1 = sb_block" "im_disk im5 2 = replicate BSIZE 0" using ds im(2) by (simp_all add: D meta_ok_def)
  moreover have "im_disk im5 a = im_disk im a" if "nmeta \<le> a" for a using ds that by (simp add: D meta_numbers)
  moreover have "freeblock im5 = freeblock im" using i4(3) by (simp add: im5_def)
  ultimately show ?thesis using that [OF i3(2), of im5] dn by simp
qed

section \<open>What the image holds\<close>

definition file_bytes :: "image \<Rightarrow> nat \<Rightarrow> byte list" where
  "file_bytes im inum = map (fbyte (im_disk im) (din im inum)) [0..<di_size (din im inum)]"

text \<open>The names of the root with their inodes.\<close>

definition root_names :: "host_file list \<Rightarrow> (byte list \<times> nat) list" where
  "root_names files = ([46], 1) # ([46, 46], 1) # zip (map (\<lambda>f. disk_name (fst f)) files) [2..<length files + 2]"

text \<open>A directory as the list of its entries.\<close>

lemma entry_concat: "\<forall>b \<in> set bs. length b = DIRENT \<Longrightarrow> j < length bs \<Longrightarrow> entry (concat bs) (DIRENT * j) = bs ! j"
proof (induction bs arbitrary: j)
  case (Cons b bs)
  then show ?case by (cases j) (simp_all add: entry_def slice_def)
qed simp

lemma entries_of_blocks:
  assumes "\<forall>b \<in> set bs. length b = DIRENT"
  shows "map (entry (concat bs)) (dir_offsets (length (concat bs))) = bs"
proof -
  have l: "length (concat bs) = DIRENT * length bs" using assms by (induction bs) auto
  then have "length (concat bs) mod DIRENT = 0" "length (concat bs) div DIRENT = length bs" by (simp_all add: DIRENT_def)
  then have "dir_offsets (length (concat bs)) = map (\<lambda>k. DIRENT * k) [0..<length bs]" by (simp add: dir_offsets_exact)
  then show ?thesis using entry_concat [OF assms] by (intro nth_equalityI) simp_all
qed

lemma find_through: "map_option f (find (\<lambda>x. P (f x)) xs) = find P (map f xs)"
  by (induction xs) auto

lemma dir_map_blocks:
  assumes "\<forall>b \<in> set bs. length b = DIRENT"
  shows "dir_map (concat bs) nm = map_option de_inum (find (\<lambda>b. de_inum b \<noteq> 0 \<and> de_name b = dir_name nm) bs)"
proof -
  let ?Q = "\<lambda>b. de_inum b \<noteq> 0 \<and> de_name b = dir_name nm"
  have "dir_map (concat bs) nm = map_option de_inum (map_option (entry (concat bs)) (find (\<lambda>off. ?Q (entry (concat bs) off)) (dir_offsets (length (concat bs)))))"
    by (simp add: dir_map_def entry_of_def option.map_comp comp_def)
  then show ?thesis
    unfolding find_through [of "entry (concat bs)" ?Q] entries_of_blocks [OF assms] .
qed

definition root_blocks :: "host_file list \<Rightarrow> nat \<Rightarrow> byte list list" where
  "root_blocks files z = map (\<lambda>(nm, k). mk_dirent k nm) (root_names files) @ replicate z (replicate DIRENT 0)"

lemma new_entries_blocks:
  "new_entries k files = concat (map (\<lambda>(nm, k). mk_dirent k nm) (zip (map (\<lambda>f. disk_name (fst f)) files) [k..<k + length files]))"
  by (induction files arbitrary: k) (simp_all add: upt_rec)

lemma root_as_blocks: "root_content files @ replicate (DIRENT * z) 0 = concat (root_blocks files z)"
proof -
  have "concat (replicate z (replicate DIRENT (0 :: byte))) = replicate (DIRENT * z) 0" by (induction z) (simp_all add: replicate_add)
  then show ?thesis using new_entries_blocks [of 2 files] by (simp add: root_blocks_def root_content_def root_names_def add.commute)
qed

lemma root_blocks_length: "\<forall>b \<in> set (root_blocks files z). length b = DIRENT"
  by (auto simp: root_blocks_def)

lemma zero_entry: "de_inum (replicate DIRENT 0) = 0" "de_name (replicate DIRENT 0) = dir_name []"
  by (simp_all add: de_inum_def de_name_def slice_def DIRENT_def DIRSIZ_def dir_name_def)

lemma find_names:
  "\<forall>(n, k) \<in> set ents. 0 < k \<and> k < 65536 \<Longrightarrow>
    map_option de_inum (find (\<lambda>b. de_inum b \<noteq> 0 \<and> de_name b = d) (map (\<lambda>(nm, k). mk_dirent k nm) ents @ replicate z (replicate DIRENT 0))) =
      map_of (map (\<lambda>(nm, k). (dir_name nm, k)) ents) d"
proof (induction ents)
  case Nil
  have "find (\<lambda>b. de_inum b \<noteq> 0 \<and> de_name b = d) (replicate z (replicate DIRENT 0)) = None"
    by (simp add: find_None_all zero_entry)
  then show ?case by simp
next
  case (Cons e ents)
  obtain nm k where "e = (nm, k)" by force
  then show ?case using Cons de_of_mk [of k nm] by auto
qed

lemma root_map:
  assumes "length files + 2 \<le> NINODES"
  shows "dir_map (root_content files @ replicate (DIRENT * z) 0) nm = map_of (map (\<lambda>(n, k). (dir_name n, k)) (root_names files)) (dir_name nm)"
proof -
  have "\<forall>(n, k) \<in> set (root_names files). 0 < k \<and> k < 65536"
    using assms by (auto simp: root_names_def NINODES_def dest!: set_zip_rightD)
  from find_names [OF this] show ?thesis
    unfolding root_as_blocks dir_map_blocks [OF root_blocks_length] by (simp add: root_blocks_def)
qed

lemma root_padded:
  "off \<in> set (dir_offsets (length (root_content files @ replicate (DIRENT * z) 0))) \<Longrightarrow>
    padded (de_name (entry (root_content files @ replicate (DIRENT * z) 0) off))"
proof -
  assume "off \<in> set (dir_offsets (length (root_content files @ replicate (DIRENT * z) 0)))"
  then have "entry (concat (root_blocks files z)) off \<in> set (root_blocks files z)"
    using entries_of_blocks [OF root_blocks_length [of files z]] unfolding root_as_blocks by (metis image_eqI set_map)
  then show ?thesis unfolding root_as_blocks using de_of_mk(2) zero_entry(2)
    by (auto simp: root_blocks_def padded_def split: if_splits)
qed

text \<open>The superblock is right; the bitmap marks the blocks before the data and those of exactly one inode, no more; each file
  is there with its content, the names are in the root.\<close>

definition holds_files :: "image \<Rightarrow> host_file list \<Rightarrow> bool" where
  "holds_files im files \<longleftrightarrow> im_len im = FSSIZE \<and> dec_superblock (im_disk im 1) = mk_sb \<and> im_disk im 2 = replicate BSIZE 0 \<and>
     (\<forall>c < FSSIZE. in_bitmap (im_disk im) mk_sb c \<longleftrightarrow> c < nmeta \<or> (\<exists>i \<le> length files. c \<in> iown im (Suc i))) \<and>
     (\<forall>i \<le> length files. \<forall>j \<le> length files. i \<noteq> j \<longrightarrow> iown im (Suc i) \<inter> iown im (Suc j) = {}) \<and>
     (\<forall>i < length files. di_type (din im (i + 2)) = T_FILE \<and> di_nlink (din im (i + 2)) = 1 \<and>
        file_bytes im (i + 2) = host_content (files ! i)) \<and>
     di_type (din im 1) = T_DIR \<and> di_nlink (din im 1) = 1 \<and>
     (\<forall>name. dir_map (file_bytes im 1) name = map_of (map (\<lambda>(n, k). (dir_name n, k)) (root_names files)) (dir_name name)) \<and>
     (\<forall>i. length files + 1 < i \<longrightarrow> i < NINODES \<longrightarrow> din im i = zero_dinode)"

text \<open>A file of the image after \<open>fix_root\<close>: \<open>m\<close> is its size then.\<close>

lemma final_file:
  assumes f: "file_is im inum (ty, c)" and fb: "freeblock im' = freeblock im" and m: "length c \<le> m" "m \<le> MAXFILE * BSIZE"
    and d: "din im' inum = (din im inum)\<lparr>di_size := m\<rparr>" and keep: "\<And>a. nmeta \<le> a \<Longrightarrow> im_disk im' a = im_disk im a"
  shows "file_inv im' (din im' inum) (length c)" "iown im' inum = iown im inum" "file_bytes im' inum = c @ replicate (m - length c) 0"
    "di_type (din im' inum) = ty" "di_nlink (din im' inum) = 1"
proof -
  have fi: "file_inv im (din im inum) (length c)" using f by (simp add: file_is_def)
  have k: "im_disk im' a = im_disk im a" if "a \<in> iown im inum" for a using keep fi that by (auto simp: file_inv_def)
  have "dinode_wf (din im' inum)" using fi m(2) by (simp add: file_inv_def dinode_wf_def d MAXFILE_bytes)
  then have c: "file_inv im' (din im' inum) (length c) \<and> iown im' inum = iown im inum \<and> fcontent im' (din im' inum) = fcontent im (din im inum)"
    using file_inv_cong [of im "din im inum" im' "din im' inum", OF k eq_imp_le [OF fb [symmetric]] _ _ fi] by (simp add: d)
  then show "file_inv im' (din im' inum) (length c)" "iown im' inum = iown im inum" by simp_all
  have "file_bytes im' inum = take m (fcontent im' (din im' inum))" using m(2) by (simp add: file_bytes_def fcontent_def take_map d)
  also have "fcontent im' (din im' inum) = c @ replicate (MAXFILE * BSIZE - length c) 0" using c f by (simp add: file_is_def)
  finally show "file_bytes im' inum = c @ replicate (m - length c) 0" using m by simp
  show "di_type (din im' inum) = ty" "di_nlink (din im' inum) = 1" using f by (simp_all add: file_is_def d)
qed

lemma mkfs_files:
  assumes ft: "mkfs_fits files"
  obtains im where "mkfs files = Ret im" "holds_files im files"
    "\<And>i. i \<le> length files \<Longrightarrow> \<exists>n. file_inv im (din im (Suc i)) n \<and> n \<le> di_size (din im (Suc i)) \<and> di_size (din im (Suc i)) \<le> MAXFILE * BSIZE \<and>
       (if i = 0 then n = DIRENT * (length files + 2) \<and> di_size (din im 1) = (n div BSIZE + 1) * BSIZE else n = di_size (din im (Suc i)))"
    "freeblock im \<le> FSSIZE" "\<exists>z. file_bytes im 1 = root_content files @ replicate (DIRENT * z) 0"
proof -
  let ?F = "(T_DIR, root_content files) # map (\<lambda>f. (T_FILE, host_content f)) files" and ?n = "DIRENT * (length files + 2)"
  let ?m = "(?n div BSIZE + 1) * BSIZE"
  have n: "length files + 2 \<le> NINODES" using ft by (simp add: mkfs_fits_def)
  obtain im im' where inv: "fs_inv im ?F" and run: "mkfs files = Ret im'" and fb: "freeblock im' = freeblock im"
    and im': "im_len im' = FSSIZE" "im_disk im' 1 = sb_block" "im_disk im' 2 = replicate BSIZE 0"
    and dn: "\<And>j. j < 208 \<Longrightarrow> din im' j = (if j = 1 then (din im 1)\<lparr>di_size := ?m\<rparr> else din im j)"
    and keep: "\<And>a. nmeta \<le> a \<Longrightarrow> im_disk im' a = im_disk im a"
    and bits: "\<And>c. c < FSSIZE \<Longrightarrow> in_bitmap (im_disk im') mk_sb c \<longleftrightarrow> c < freeblock im" using mkfs_run [OF ft] by blast
  have F: "file_is im (Suc i) (?F ! i)" if "i \<le> length files" for i using inv that by (simp add: fs_inv_def)
  have M: "?n \<le> ?m" "?m \<le> MAXFILE * BSIZE" "\<exists>z. ?m - ?n = DIRENT * z"
  proof -
    show "?n \<le> ?m" using dividend_less_div_times [of BSIZE ?n] by (simp add: BSIZE_def)
    show "?m \<le> MAXFILE * BSIZE" by (rule root_fits [OF n])
    have "?m - ?n = DIRENT * ((?n div BSIZE + 1) * 32 - (length files + 2))" by (simp add: diff_mult_distrib2 DIRENT_def BSIZE_def)
    then show "\<exists>z. ?m - ?n = DIRENT * z" ..
  qed
  have r1: "file_is im 1 (T_DIR, root_content files)" using F [of 0] by simp
  have d1: "din im' 1 = (din im 1)\<lparr>di_size := ?m\<rparr>" using dn [of 1] by simp
  note root = final_file [OF r1 fb _ M(2) d1 keep, unfolded length_root, OF M(1)]
  have oth: "file_inv im' (din im' (Suc (Suc i))) (length (host_content (files ! i)))" "iown im' (Suc (Suc i)) = iown im (Suc (Suc i))"
    "file_bytes im' (Suc (Suc i)) = host_content (files ! i)" "di_type (din im' (Suc (Suc i))) = T_FILE" "di_nlink (din im' (Suc (Suc i))) = 1"
    "di_size (din im' (Suc (Suc i))) = length (host_content (files ! i))" "length (host_content (files ! i)) \<le> MAXFILE * BSIZE"
    if i: "i < length files" for i
  proof -
    have fi: "file_is im (Suc (Suc i)) (T_FILE, host_content (files ! i))" using F [of "Suc i"] i by simp
    have s: "di_size (din im (Suc (Suc i))) = length (host_content (files ! i))" "length (host_content (files ! i)) \<le> MAXFILE * BSIZE"
      using fi by (simp_all add: file_is_def)
    have "din im' (Suc (Suc i)) = din im (Suc (Suc i))" using dn [of "Suc (Suc i)"] i n by (simp add: NINODES_def)
    then have d: "din im' (Suc (Suc i)) = (din im (Suc (Suc i)))\<lparr>di_size := length (host_content (files ! i))\<rparr>" using s(1) by simp
    from final_file [OF fi fb le_refl s(2) d keep] d s show
      "file_inv im' (din im' (Suc (Suc i))) (length (host_content (files ! i)))" "iown im' (Suc (Suc i)) = iown im (Suc (Suc i))"
      "file_bytes im' (Suc (Suc i)) = host_content (files ! i)" "di_type (din im' (Suc (Suc i))) = T_FILE" "di_nlink (din im' (Suc (Suc i))) = 1"
      "di_size (din im' (Suc (Suc i))) = length (host_content (files ! i))" "length (host_content (files ! i)) \<le> MAXFILE * BSIZE" by simp_all
  qed
  have own: "iown im' (Suc i) = iown im (Suc i)" if "i \<le> length files" for i
    using that root(2) oth(2) [of "i - 1"] by (cases i) auto
  have U: "(\<Union>i < Suc (length files). iown im (Suc i)) = {nmeta..<freeblock im}" "nmeta \<le> freeblock im" "freeblock im \<le> FSSIZE"
    using inv by (simp_all add: fs_inv_def img_ok_def)
  have "holds_files im' files" unfolding holds_files_def
  proof (intro conjI allI impI)
    show "dec_superblock (im_disk im' 1) = mk_sb" using im'(2) superblock_read by simp
    show "in_bitmap (im_disk im') mk_sb c \<longleftrightarrow> c < nmeta \<or> (\<exists>i \<le> length files. c \<in> iown im' (Suc i))" if "c < FSSIZE" for c
    proof -
      have "(\<exists>i \<le> length files. c \<in> iown im' (Suc i)) \<longleftrightarrow> c \<in> {nmeta..<freeblock im}"
        unfolding U(1) [symmetric] using own by (auto simp: less_Suc_eq_le)
      then show ?thesis using bits [OF that] U(2) by auto
    qed
    show "iown im' (Suc i) \<inter> iown im' (Suc j) = {}" if "i \<le> length files" "j \<le> length files" "i \<noteq> j" for i j
      using inv own that by (simp add: fs_inv_def less_Suc_eq_le)
    show "dir_map (file_bytes im' 1) name = map_of (map (\<lambda>(n, k). (dir_name n, k)) (root_names files)) (dir_name name)" for name
      using root(3) M(3) root_map [OF n] by auto
    show "din im' i = zero_dinode" if "length files + 1 < i" "i < NINODES" for i
      using dn [of i] that inv by (simp add: fs_inv_def NINODES_def)
  qed (use im' root oth in simp_all)
  moreover have "\<exists>n. file_inv im' (din im' (Suc i)) n \<and> n \<le> di_size (din im' (Suc i)) \<and> di_size (din im' (Suc i)) \<le> MAXFILE * BSIZE \<and>
       (if i = 0 then n = ?n \<and> di_size (din im' 1) = (n div BSIZE + 1) * BSIZE else n = di_size (din im' (Suc i)))" if "i \<le> length files" for i
    using root(1) d1 M oth(1,6,7) [of "i - 1"] that by (cases i) auto
  moreover have "freeblock im' \<le> FSSIZE" using U(3) fb by simp
  moreover have "\<exists>z. file_bytes im' 1 = root_content files @ replicate (DIRENT * z) 0" using root(3) M(3) by auto
  ultimately show ?thesis using run by (intro that [of im'])
qed

text \<open>C9: \<open>mkfs\<close> of files that fit ends with an image on which the superblock is right, the log is empty, the bitmap marks exactly
  the blocks before the data and the blocks of the files, no two files share a block, every file has its bytes, the names lead
  from the root to the inodes, and all other inodes are free.\<close>

theorem mkfs_image:
  assumes "mkfs_fits files"
  shows "\<exists>im. mkfs files = Ret im \<and> holds_files im files"
  using mkfs_files [OF assms] by blast

definition hello :: "host_file list" where
  "hello = [([95, 104], Some [[72, 101], [121]]), ([105], Some [])]"

lemma hello_fits: "mkfs_fits hello"
  by (simp add: mkfs_fits_def hello_def good_file_def host_content_def nblk_def meta_numbers DIRENT_def BSIZE_def NINODES_def
    MAXFILE_def NDIRECT_def NINDIRECT_def)

theorem mkfs_image_witness:
  "\<exists>im. mkfs hello = Ret im \<and> file_bytes im 2 = [72, 101, 121] \<and> dir_map (file_bytes im 1) [104] = Some 2 \<and>
     file_bytes im 3 = [] \<and> dir_map (file_bytes im 1) [105] = Some 3"
proof -
  obtain im where im: "mkfs hello = Ret im" "holds_files im hello" using mkfs_image [OF hello_fits] by blast
  have "file_bytes im (i + 2) = host_content (hello ! i)" if "i < 2" for i using im(2) that by (simp add: holds_files_def hello_def)
  from this [of 0] this [of 1] have "file_bytes im 2 = [72, 101, 121]" "file_bytes im 3 = []" by (simp_all add: hello_def host_content_def eval_nat_numeral)
  moreover have "dir_map (file_bytes im 1) nm = map_of (map (\<lambda>(n, k). (dir_name n, k)) (root_names hello)) (dir_name nm)" for nm
    using im(2) by (simp add: holds_files_def)
  then have "dir_map (file_bytes im 1) [104] = Some 2" "dir_map (file_bytes im 1) [105] = Some 3"
    by (simp_all add: root_names_def hello_def disk_name_def dir_name_def DIRSIZ_def upt_rec)
  ultimately show ?thesis using im(1) by blast
qed

section \<open>The kernel on the image\<close>

lemma mk_layout: "layout mk_sb FSSIZE" "data_start mk_sb = nmeta"
  by (simp_all add: layout_def data_start_def meta_numbers) (simp_all add: mk_sb_def FSSIZE_def NINODES_def IPB_def BPB_def meta_numbers LOGSIZE_def)

lemma root_not_full: "(k + 2) mod 32 \<noteq> 0 \<Longrightarrow> DIRENT * (k + 2) mod BSIZE \<noteq> 0"
proof -
  have "DIRENT * (k + 2) mod BSIZE = 16 * ((k + 2) mod 32)" unfolding DIRENT_def BSIZE_def using mult_mod_right [of 16 "k + 2" 32] by simp
  then show "(k + 2) mod 32 \<noteq> 0 \<Longrightarrow> DIRENT * (k + 2) mod BSIZE \<noteq> 0" by simp
qed

text \<open>A kernel whose disk is the image, with the superblock it reads there; an inode of the image that it has in memory.\<close>

definition image_state :: "image \<Rightarrow> 'a fstate_scheme \<Rightarrow> bool" where
  "image_state im s \<longleftrightarrow> bcontent s = im_disk im \<and> fs_sb s = dec_superblock (im_disk im 1) \<and> disksize s = im_len im \<and> heldb s = {}"

definition image_inode :: "image \<Rightarrow> nat \<Rightarrow> nat \<Rightarrow> 'a fstate_scheme \<Rightarrow> bool" where
  "image_inode im inum ip s \<longleftrightarrow> ip < length (inodes s) \<and> i_dev (ino ip s) = 1 \<and> i_inum (ino ip s) = inum \<and> dcopy ip s = din im inum"

lemma image_file_ok:
  fixes s :: "'a fstate_scheme"
  assumes s: "bcontent s = im_disk im" and fi: "file_inv im di n"
    and d: "\<And>a. a \<in> own (im_disk im) di \<Longrightarrow> data_block s a"
  shows "file_ok s di"
proof -
  have "di_addrs di ! i = 0 \<or> data_block s (di_addrs di ! i)" if "i \<le> NDIRECT" for i
  proof (cases "i = NDIRECT")
    case False
    then have "addr_of (im_disk im) di i = di_addrs di ! i" "i < MAXFILE" using that by (simp_all add: addr_of_def MAXFILE_def)
    then have "di_addrs di ! i \<noteq> 0 \<Longrightarrow> di_addrs di ! i \<in> own (im_disk im) di" using file_invD(2) [OF fi, of i] by simp
    then show ?thesis using d by blast
  qed (use d [of "di_addrs di ! NDIRECT"] in \<open>auto simp: own_def\<close>)
  moreover have "addr_of (im_disk im) di k = 0 \<or> data_block s (addr_of (im_disk im) di k)" if "k < MAXFILE" for k
    using file_invD(2) [OF fi that] d by blast
  moreover have "length (di_addrs di) = NDIRECT + 1" using fi by (simp add: file_inv_def dinode_wf_def)
  ultimately show ?thesis unfolding file_ok_def s using file_invD(2,3) [OF fi] by blast
qed

text \<open>Every byte of a file is in one of its blocks, also after the rounding of the size unless the blocks were full.\<close>

lemma image_covered:
  assumes fi: "file_inv im di n" and le: "di_size di \<le> MAXFILE * BSIZE"
    and sz: "di_size di = n \<or> di_size di = (n div BSIZE + 1) * BSIZE \<and> n mod BSIZE \<noteq> 0" and j: "j < di_size di"
  shows "addr_of (im_disk im) di (j div BSIZE) \<noteq> 0"
proof -
  have "j div BSIZE * BSIZE < n"
  proof (cases "di_size di = n")
    case True
    then show ?thesis using j div_times_less_eq_dividend [of j BSIZE] by linarith
  next
    case False
    then have a: "j < (n div BSIZE + 1) * BSIZE" and nm: "n mod BSIZE \<noteq> 0" using sz j by auto
    from less_mult_imp_div_less [OF a] have "j div BSIZE \<le> n div BSIZE" by simp
    then have "j div BSIZE * BSIZE \<le> n div BSIZE * BSIZE" by (rule mult_le_mono1)
    then show ?thesis using div_mult_mod_eq [of n BSIZE] nm by linarith
  qed
  moreover have "j div BSIZE < MAXFILE" using j le by (intro less_mult_imp_div_less) simp
  ultimately show ?thesis using file_invD(1) [OF fi] by simp
qed

text \<open>The facts of \<open>mkfs_files\<close> about one inode of the image.\<close>

lemma image_facts:
  assumes "mkfs_fits files" and "mkfs files = Ret im" and "i \<le> length files"
  obtains n where "holds_files im files" "freeblock im \<le> FSSIZE" "\<exists>z. file_bytes im 1 = root_content files @ replicate (DIRENT * z) 0"
    "file_inv im (din im (Suc i)) n" "di_size (din im (Suc i)) \<le> MAXFILE * BSIZE"
    "if i = 0 then n = DIRENT * (length files + 2) \<and> di_size (din im 1) = (n div BSIZE + 1) * BSIZE else n = di_size (din im (Suc i))"
proof (rule mkfs_files [OF assms(1)], goal_cases)
  case (1 im2)
  have e: "im2 = im" using 1(2) assms(2) by simp
  show ?case using 1(1) 1(3,5,6) 1(4) [OF assms(3)] unfolding e by blast
qed

text \<open>C10: A kernel whose disk is an image of \<open>mkfs\<close> has a consistent file system: what the theorems about \<open>readi\<close>, \<open>writei\<close> and
  directories ask of their files holds for every inode of the image that is in memory, and the content is that of the host. The
  root is excepted when its entries fill a block exactly: its size then covers a block that is not there.\<close>

theorem mkfs_mounts:
  fixes s :: "'a fstate_scheme"
  assumes "mkfs_fits files" and "mkfs files = Ret im" and st: "image_state im s" and ip: "image_inode im (Suc i) ip s"
    and i: "i \<le> length files" and root: "i = 0 \<longrightarrow> (length files + 2) mod 32 \<noteq> 0"
  shows "blocks_ok s \<and> file_at ip s \<and> (if i = 0 then dir_at ip s else content_of ip s = host_content (files ! (i - 1)))"
proof -
  obtain n where h: "holds_files im files" and fb: "freeblock im \<le> FSSIZE" and rt: "\<exists>z. file_bytes im 1 = root_content files @ replicate (DIRENT * z) 0"
    and fi: "file_inv im (din im (Suc i)) n" "di_size (din im (Suc i)) \<le> MAXFILE * BSIZE"
    and sz: "if i = 0 then n = DIRENT * (length files + 2) \<and> di_size (din im 1) = (n div BSIZE + 1) * BSIZE else n = di_size (din im (Suc i))"
    using image_facts [OF assms(1,2) i] by blast
  have s: "bcontent s = im_disk im" "fs_sb s = mk_sb" "disksize s = FSSIZE" "heldb s = {}"
    using st h by (simp_all add: image_state_def holds_files_def)
  have p: "ip < length (inodes s)" "i_dev (ino ip s) = 1" "i_inum (ino ip s) = Suc i" "dcopy ip s = din im (Suc i)"
    using ip by (simp_all add: image_inode_def)
  have al: "allocated s c \<longleftrightarrow> c < nmeta \<or> (\<exists>i \<le> length files. c \<in> iown im (Suc i))" if "c < FSSIZE" for c
    using h that by (simp add: allocated_def s holds_files_def)
  have "nmeta \<le> FSSIZE" by (simp add: meta_numbers FSSIZE_def)
  then have bok: "blocks_ok s" using mk_layout al s(4) by (simp add: blocks_ok_def s)
  have "data_block s a" if "a \<in> iown im (Suc i)" for a
  proof -
    have "nmeta \<le> a" "a < FSSIZE" using fi(1) fb that by (auto simp: file_inv_def)
    then show ?thesis using al [of a] i that mk_layout(2) by (auto simp: data_block_def s) (simp add: mk_sb_def)
  qed
  then have fo: "file_ok s (din im (Suc i))" using image_file_ok [OF s(1) fi(1)] by blast
  have "di_size (din im (Suc i)) = n \<or> di_size (din im (Suc i)) = (n div BSIZE + 1) * BSIZE \<and> n mod BSIZE \<noteq> 0"
    using sz root root_not_full [of "length files"] by (cases "i = 0") simp_all
  note covered = image_covered [OF fi this]
  have ty: "di_type (din im (Suc i)) = (if i = 0 then T_DIR else T_FILE)"
    and bs: "i \<noteq> 0 \<Longrightarrow> file_bytes im (Suc i) = host_content (files ! (i - 1))"
    using h i by (cases i; simp add: holds_files_def)+
  have "length files + 2 \<le> NINODES" using assms(1) by (simp add: mkfs_fits_def)
  then have "Suc i < NINODES" using i by linarith
  then have fa: "file_at ip s" using bok p fo s ty fi(2) covered by (simp add: file_at_def inode_ready_def mk_sb_def)
  have ct: "content_of ip s = file_bytes im (Suc i)" by (simp add: content_of_def file_bytes_def s p)
  have "dir_at ip s" if "i = 0"
  proof -
    obtain z where z: "file_bytes im 1 = root_content files @ replicate (DIRENT * z) 0" using rt by blast
    have l: "di_size (din im 1) = length (root_content files @ replicate (DIRENT * z) 0)" unfolding z [symmetric] by (simp add: file_bytes_def)
    have "length (root_content files @ replicate (DIRENT * z) 0) mod DIRENT = 0" by (simp add: length_root flip: distrib_left)
    then show ?thesis using fa ty that root_padded [of _ files z] ct z l p by (simp add: dir_at_def)
  qed
  then show ?thesis using bok fa ct bs by auto
qed

text \<open>A kernel that has just started on the image, with the root and the first file in memory.\<close>

definition started :: "image \<Rightarrow> fstate" where
  "started im = mounted\<lparr>memdisk := im_disk im, disksize := im_len im, fs_sb := dec_superblock (im_disk im 1),
     inodes := [root_inode\<lparr>i_copy := din im 1\<rparr>, root_inode\<lparr>i_inum := 2, i_copy := din im 2\<rparr>]\<rparr>"

lemma started_state: "image_state im (started im)" "image_inode im (Suc 0) 0 (started im)" "image_inode im (Suc 1) 1 (started im)"
proof -
  have c: "\<not> cached (started im) i m" for i m
    using mounted_cache(1) [of i m] by (simp add: started_def cached_def)
  have "find (\<lambda>i. False) xs = None" for xs :: "nat list" by (induction xs) simp_all
  then have "bcontent (started im) = im_disk im" using c by (simp add: bcontent_def fun_eq_iff) (simp add: started_def)
  moreover have "heldb (started im) = {}" using c by (simp add: heldb_def holds_buf_def)
  ultimately show "image_state im (started im)" by (simp add: image_state_def) (simp add: started_def)
  show "image_inode im (Suc 0) 0 (started im)" "image_inode im (Suc 1) 1 (started im)"
    by (simp_all add: image_inode_def started_def root_inode_def numeral_2_eq_2)
qed

theorem mkfs_mounts_witness:
  "\<exists>im. mkfs hello = Ret im \<and> dir_at 0 (started im) \<and> file_at 1 (started im) \<and> content_of 1 (started im) = [72, 101, 121]"
proof -
  obtain im where im: "mkfs hello = Ret im" using mkfs_files [OF hello_fits] by blast
  note m = mkfs_mounts [OF hello_fits im started_state(1)]
  have "dir_at 0 (started im)" using m [OF started_state(2)] by (simp add: hello_def)
  moreover have "file_at 1 (started im) \<and> content_of 1 (started im) = [72, 101, 121]"
    using m [OF started_state(3)] by (simp add: hello_def host_content_def)
  ultimately show ?thesis using im by blast
qed

end
