(* ===== verification/Spec2Isabelle.thy ===== *)
theory Spec2Isabelle
  imports OS_Prelude C_String Beavalloc Philosophers Matrix Locks Kalloc Pipe Bio Log Fs Fs_Blocks Fs_Content Fs_Example Fs_Files Fs_Dir Fs_Inodes File Sysfile Fs_Keep Proc Kthreads Thread_System Thread_Results Lottery Vm Vm_Maps Vm_Spaces Vm_Copy Vm_Copyout Vm_Example Exec Exec_Results Exec_Example Console Print Grep Shell Umalloc Mkfs
begin

text \<open>
  A verification development of the programs of the repository: the course work around the teaching operating
  system xv6 and some user programs.

  The parts of the repository. \<open>lab2/Lab2\<close> is a heap allocator, \<open>inclass5\<close> five programs that multiply matrices
  with threads, \<open>inclass6\<close> four programs of dining philosophers. xv6 is there five times, with the changes of one
  assignment each: \<open>xv6-public\<close> and \<open>xv6-fs\<close> are the base, \<open>lab3/xv6-lottery\<close> has a lottery scheduler,
  \<open>lab4/wei/xv6-kthreads\<close> kernel threads and \<open>assignment5/xv6-symlink\<close> symbolic links, seeking, truncation and
  appending. Each part of xv6 is modelled from the tree in which the course changed it: the file system and the user
  programs from \<open>assignment5\<close>, processes, threads, memory, \<open>exec\<close> and the console from \<open>lab4\<close>, the scheduler by
  lottery from \<open>lab3\<close>.

  How the code is represented. A C structure is a record, an enumeration a datatype, and a pointer to an entry of a
  kernel table (inode, buffer, file, process) the index of the entry; later layers extend the records of earlier ones, so
  that an operation of a lower layer runs unchanged on the state of a higher one. Bytes are \<open>8 word\<close>s, addresses of the
  heap allocator \<open>64 word\<close>s, counters that wrap and the arguments of \<open>printf\<close> \<open>32 word\<close>s; sizes and block numbers are
  \<open>nat\<close> with the wrap at \<open>2 ^ 32\<close> written out by \<open>u32\<close>. A kernel function has an \<open>outcome\<close> (\<open>OS_Prelude\<close>): it
  returns, it panics, or it sleeps; an access out of bounds and a null pointer are panics of their own name, and
  the theorems that a call returns exclude them. A loop that may not end is a \<open>partial_function (option)\<close>.

  Concurrency. A section under a spin lock is atomic; that the lock gives this is the theory \<open>Locks\<close>. In the file
  system one kernel path runs at a time, sleep locks are part of the state, and finding one taken is the outcome
  \<open>Sleep\<close>. The programs with threads, the spin lock itself, and the processes and threads of xv6 are step relations, in
  which the steps of different threads or processors interleave in every order. A step of the spin lock is one access to
  memory, one of the programs with threads an access to a shared variable or an operation on a semaphore or mutex,
  and one of a processor of xv6 in general a section under \<open>ptable.lock\<close>; \<open>fork\<close>, \<open>kthread_create\<close>, \<open>exit\<close> and the first part
  of \<open>kthread_exit\<close> are single steps there although the code takes the lock several times in them (\<open>Thread_System\<close>).

  Theories, in the order of the layers:
  \<^item> \<open>OS_Prelude\<close>: outcomes, bytes and fields, 32-bit arithmetic, semaphores. \<open>C_String\<close>: \<open>string.c\<close>, and the string
    routines of \<open>ulib.c\<close>.
  \<^item> \<open>Beavalloc\<close>: the heap allocator. The list of blocks is well formed in every heap that requests whose size fits an \<open>int\<close>
    can reach, and what is handed out does not overlap; \<open>beavfree\<close> never finds its block, a block can be handed out for more
    than it holds, and of a request of nearly 4 GB nothing is left.
  \<^item> \<open>Philosophers\<close>, \<open>Matrix\<close>: mutual exclusion from a protocol on semaphores that all four programs follow, deadlock
    and its absence; the product of the threaded programs under every schedule is that of the sequential one.
  \<^item> \<open>Locks\<close>, \<open>Kalloc\<close>, \<open>Pipe\<close>: \<open>spinlock.c\<close> and \<open>sleeplock.c\<close> on several processors, the list of free pages
    inside the free pages, the ring of a pipe as a bounded queue.
  \<^item> \<open>Bio\<close>, \<open>Log\<close>: the buffer cache over \<open>memide.c\<close>, and the write-ahead log. The disk survives a power failure at any
    write of a commit with either all or none of the transaction; operations that record one block less than \<open>begin_op\<close>
    reserves for them never exhaust the log, and three that record all of them can. Both give the interface \<open>block_store\<close>, with which the
    layers above are proved for both at once.
  \<^item> \<open>Fs\<close> (the model of \<open>fs.c\<close>), \<open>Fs_Keep\<close>, \<open>Fs_Blocks\<close>, \<open>Fs_Inodes\<close>, \<open>Fs_Content\<close>, \<open>Fs_Files\<close>, \<open>Fs_Dir\<close>,
    \<open>Fs_Example\<close>: blocks and the bitmap, the inode cache, files as arrays of bytes, of which a write changes one and saves its
    inode and no other, directories as maps from names, paths, and a small disk on which the hypotheses hold.
  \<^item> \<open>File\<close>, \<open>Sysfile\<close>: \<open>file.c\<close>, \<open>sysfile.c\<close> and the fetching of arguments in \<open>syscall.c\<close>, with all the options of the
    Makefile.
  \<^item> \<open>Proc\<close>, \<open>Kthreads\<close>, \<open>Thread_System\<close>, \<open>Thread_Results\<close>: the process table, threads, the system of several processors,
    and what it guarantees: who runs where, how long a process can wait, what \<open>kthread_join\<close> returns, and a race in which
    the stack of a running thread is freed.
  \<^item> \<open>Lottery\<close>: who wins a round, for how many of the numbers that can be drawn, and who else runs after the winner.
  \<^item> \<open>Vm\<close> (the model of \<open>vm.c\<close>), \<open>Vm_Maps\<close>, \<open>Vm_Spaces\<close>, \<open>Vm_Copy\<close>, \<open>Vm_Copyout\<close>, \<open>Vm_Example\<close>: page tables in
    physical frames, each frame with one role; growing, shrinking, copying and freeing address spaces as operations on
    maps from pages to frames, without leak when memory runs out.
  \<^item> \<open>Exec\<close>, \<open>Exec_Results\<close>, \<open>Exec_Example\<close>: \<open>exec.c\<close> over the file system and the address spaces.
  \<^item> \<open>Console\<close>, \<open>Print\<close>: the line discipline of \<open>console.c\<close> as an editor of lists, \<open>printf.c\<close> and \<open>cprintf\<close>.
  \<^item> \<open>Grep\<close>, \<open>Shell\<close>: the user programs with logic of their own: pattern matching as membership in a language, and the
    parser of the shell. \<open>Umalloc\<close>: \<open>malloc\<close> and \<open>free\<close> of user programs on a circular list of free blocks that divide up
    the heap with the blocks in use.
  \<^item> \<open>Mkfs\<close>: the program that makes the disk image. Its images satisfy what the theorems of the file system layers
    assume of a disk, and hold the files of the host.

  Interfaces are locales, each interpreted on the model: \<open>allocator\<close> (\<open>kalloc.c\<close>, and the frames of \<open>Vm\<close>),
  \<open>bounded_queue\<close> (pipes), \<open>block_store\<close> (cache and log), \<open>inode_frame\<close> (what operations on inodes leave alone),
  \<open>sem_protocol\<close> and \<open>dining\<close> (the four programs of philosophers).

  Bounds and fuel. \<open>Shell.parsecmd\<close> gives its parser fuel for four calls per byte of the line and four more; that this is
  always enough is the property \<open>parsecmd_terminates\<close>. All other recursions end by a measure. The bounds of the code
  (\<open>NBUF\<close>, \<open>LOGSIZE\<close>, \<open>NINODE\<close>, \<open>NPROC\<close>, \<open>MAXARG\<close>, \<open>KERNBASE\<close>) are the code's own constants.

  Parameters. The end of the kernel image (\<open>kend\<close>, \<open>kdata\<close>) comes from the linker. What the run of a user
  process does between two system calls is arbitrary in the step relations; what the chosen process and the other processors do until
  it gives the processor back to the lottery scheduler is the parameter \<open>run\<close>, which may change any slot. In the process table the results of \<open>vm.c\<close> are arguments; \<open>exec\<close> is a
  parameter of \<open>sys_exec\<close>, and the theory \<open>Exec\<close> defines it.

  Not modelled: device drivers and the start of the machine (port access, firmware tables, assembly code), the
  registers that a trap or a context switch saves and restores, the dispatch of system calls, \<open>runcmd\<close> of the shell and the
  small user programs (sequences of system calls), and tests. The other copies of xv6 are the same files or earlier states of them.

  What the code does and should not do is stated by theorems where that is possible: two joins and an exit that race, a
  lottery that nobody wins, a transaction too big for the log, a starving process, an allocator that frees nothing, input that \<open>grep\<close> drops.
\<close>

end
